(* ===== verification/Kernel_Prelude.thy ===== *)
theory Kernel_Prelude
  imports Main "HOL-Library.Word" "HOL-Library.Monad_Syntax"
begin

unbundle bit_operations_syntax

text \<open>
  Shared ground of the development: the names of the C integer types
  (\<^verbatim>\<open>src/src/common/defines.h\<close>), little-endian byte encodings of the on-disk
  structures, slices of byte buffers (what \<^verbatim>\<open>memmove\<close> and \<^verbatim>\<open>memcpy\<close> do to a block
  buffer), and the generic lemmas on lists, options and function updates that the
  component theories share.

  Conventions used everywhere. A C function that can stop the kernel (\<^verbatim>\<open>PANIC()\<close>, a
  failed \<^verbatim>\<open>ASSERT\<close>) returns an \<open>option\<close>: \<open>None\<close> means that control never comes back to
  the caller. State is passed explicitly and threaded with the \<open>do\<close> notation of the
  option monad. A section of code between \<^verbatim>\<open>_acquire_spinlock\<close> and
  \<^verbatim>\<open>_release_spinlock\<close> is one atomic function of the state.
\<close>

section \<open>Machine integers\<close>

type_synonym u8 = "8 word"
type_synonym u16 = "16 word"
type_synonym u32 = "32 word"
type_synonym u64 = "64 word"

named_theorems buf_simps \<open>reading back what was spliced into a buffer\<close>
named_theorems frame_simps \<open>what an operation leaves untouched\<close>

section \<open>Little-endian encodings\<close>

text \<open>
  The structures written to disk are the bytes of C structs on a little-endian machine:
  \<open>le_bytes k n\<close> is the \<open>k\<close>-byte field that holds \<open>n\<close> (its value modulo
  \<open>256 ^ k\<close>) and \<open>le_nat\<close> reads a field back.
\<close>

fun le_bytes :: "nat \<Rightarrow> nat \<Rightarrow> u8 list" where
  "le_bytes 0 n = []"
| "le_bytes (Suc k) n = of_nat n # le_bytes k (n div 256)"

fun le_nat :: "u8 list \<Rightarrow> nat" where
  "le_nat [] = 0"
| "le_nat (b # bs) = unat b + 256 * le_nat bs"

lemma length_le_bytes [simp]: "length (le_bytes k n) = k"
  by (induction k arbitrary: n) auto

lemma unat_byte_of_nat: "unat (of_nat n :: u8) = n mod 256"
  by (simp add: unat_of_nat)

lemma le_nat_le_bytes: "le_nat (le_bytes k n) = n mod 256 ^ k"
proof (induction k arbitrary: n)
  case 0
  then show ?case by simp
next
  case (Suc k)
  have "le_nat (le_bytes (Suc k) n) = n mod 256 + 256 * (n div 256 mod 256 ^ k)"
    by (simp add: Suc.IH unat_byte_of_nat)
  also have "\<dots> = n mod (256 * 256 ^ k)"
    by (simp add: mod_mult2_eq)
  finally show ?case by simp
qed

lemma le_nat_le_bytes_small: "n < 256 ^ k \<Longrightarrow> le_nat (le_bytes k n) = n"
  by (simp add: le_nat_le_bytes)

lemma le_nat_bound: "le_nat bs < 256 ^ length bs"
proof (induction bs)
  case Nil
  then show ?case by simp
next
  case (Cons b bs)
  have "unat b < 256"
    using unsigned_less [of b] by simp
  with Cons.IH show ?case by simp
qed

lemma le_bytes_le_nat: "le_bytes (length bs) (le_nat bs) = bs"
proof (induction bs)
  case Nil
  then show ?case by simp
next
  case (Cons b bs)
  have b: "unat b < 256"
    using unsigned_less [of b] by simp
  have "(unat b + 256 * le_nat bs) div 256 = le_nat bs"
    using b by simp
  moreover have "(of_nat (unat b + 256 * le_nat bs) :: u8) = b"
    by (simp only: word_unat_eq_iff unat_byte_of_nat) (simp add: b)
  ultimately show ?case
    using Cons.IH by simp
qed

lemma le_bytes_zero [simp]: "le_bytes k 0 = replicate k 0"
  by (induction k) auto

lemma le_nat_zeros [simp]: "le_nat (replicate k 0) = 0"
  by (induction k) auto

section \<open>Slices of byte buffers\<close>

definition get_bytes :: "nat \<Rightarrow> nat \<Rightarrow> 'a list \<Rightarrow> 'a list" where
  "get_bytes off n buf = take n (drop off buf)"

definition put_bytes :: "nat \<Rightarrow> 'a list \<Rightarrow> 'a list \<Rightarrow> 'a list" where
  "put_bytes off bs buf = take off buf @ bs @ drop (off + length bs) buf"

lemma length_put_bytes [simp]:
  "off + length bs \<le> length buf \<Longrightarrow> length (put_bytes off bs buf) = length buf"
  by (simp add: put_bytes_def)

lemma length_get_bytes [simp]:
  "off + n \<le> length buf \<Longrightarrow> length (get_bytes off n buf) = n"
  by (simp add: get_bytes_def)

lemma get_put_same [buf_simps]:
  "off + length bs \<le> length buf \<Longrightarrow> get_bytes off (length bs) (put_bytes off bs buf) = bs"
  by (simp add: get_bytes_def put_bytes_def)

lemma nth_put_bytes:
  assumes "off + length bs \<le> length buf" and "i < length buf"
  shows "put_bytes off bs buf ! i =
    (if off \<le> i \<and> i < off + length bs then bs ! (i - off) else buf ! i)"
  using assms by (auto simp: put_bytes_def nth_append)

lemma nth_get_bytes:
  "i < n \<Longrightarrow> off + n \<le> length buf \<Longrightarrow> get_bytes off n buf ! i = buf ! (off + i)"
  by (simp add: get_bytes_def)

lemma get_put_disjoint [buf_simps]:
  assumes "off + length bs \<le> length buf" and "off' + n \<le> length buf"
    and "off' + n \<le> off \<or> off + length bs \<le> off'"
  shows "get_bytes off' n (put_bytes off bs buf) = get_bytes off' n buf"
  using assms by (intro nth_equalityI) (auto simp: nth_get_bytes nth_put_bytes)

lemma put_get_same:
  "off + n \<le> length buf \<Longrightarrow> put_bytes off (get_bytes off n buf) buf = buf"
  by (intro nth_equalityI) (auto simp: nth_put_bytes nth_get_bytes)

lemma get_bytes_replicate [simp]:
  "off + n \<le> k \<Longrightarrow> get_bytes off n (replicate k x) = replicate n x"
  by (simp add: get_bytes_def)

text \<open>The fields of an array of \<open>k\<close>-byte integers.\<close>

lemma get_bytes_concat:
  "i < length xs \<Longrightarrow> get_bytes (k * i) k (concat (map (le_bytes k) xs) @ ys) = le_bytes k (xs ! i)"
proof (induction xs arbitrary: i)
  case (Cons x xs)
  then show ?case by (cases i) (simp_all add: get_bytes_def)
qed simp

section \<open>Lists, options and function updates\<close>

lemma find_Some_iff: 
  "List.find P xs = Some x \<Longrightarrow> x \<in> set xs \<and> P x"
  by (induction xs) (auto split: if_splits)

lemma find_None_iff': "List.find P xs = None \<longleftrightarrow> (\<forall>x \<in> set xs. \<not> P x)"
  by (induction xs) auto

lemma find_cong_set: "(\<And>x. x \<in> set xs \<Longrightarrow> P x = Q x) \<Longrightarrow> List.find P xs = List.find Q xs"
  by (induction xs) auto

lemma find_append: "List.find P (xs @ ys) = (case List.find P xs of None \<Rightarrow> List.find P ys | Some x \<Rightarrow> Some x)"
  by (induction xs) auto

lemma find_SomeI:
  assumes "x \<in> set xs" and "P x" and "\<And>y. y \<in> set xs \<Longrightarrow> P y \<Longrightarrow> y = x"
  shows "List.find P xs = Some x"
proof (cases "List.find P xs")
  case None
  with assms(1,2) show ?thesis by (auto simp: find_None_iff')
next
  case (Some y)
  with assms(3) show ?thesis by (auto dest: find_Some_iff)
qed

lemma bind_eq_SomeE:
  assumes "Option.bind m f = Some y"
  obtains x where "m = Some x" and "f x = Some y"
  using assms by (cases m) auto

text \<open>A counted \<^verbatim>\<open>for\<close> loop whose body threads the state and may stop the kernel.\<close>

primrec for_each :: "('a \<Rightarrow> 's \<Rightarrow> 's option) \<Rightarrow> 'a list \<Rightarrow> 's \<Rightarrow> 's option" where
  "for_each f [] s = Some s"
| "for_each f (x # xs) s = do { s \<leftarrow> f x s; for_each f xs s }"

lemma for_each_append: "for_each f (xs @ ys) s = do { s \<leftarrow> for_each f xs s; for_each f ys s }"
  by (induction xs arbitrary: s) (auto split: bind_split)

lemma for_each_rule:
  assumes "P 0 s"
    and "\<And>i s. i < length xs \<Longrightarrow> P i s \<Longrightarrow> \<exists>s'. f (xs ! i) s = Some s' \<and> P (Suc i) s'"
  shows "\<exists>s'. for_each f xs s = Some s' \<and> P (length xs) s'"
  using assms
proof (induction xs arbitrary: s P)
  case (Cons x xs)
  from Cons.prems(2) [of 0 s] Cons.prems(1) obtain s' where s': "f x s = Some s'" "P (Suc 0) s'"
    by auto
  have "\<exists>s''. for_each f xs s' = Some s'' \<and> P (Suc (length xs)) s''"
    using Cons.IH [of "\<lambda>i. P (Suc i)" s'] s'(2) Cons.prems(2) [of "Suc i" for i] by auto
  with s' show ?case by auto
qed simp

lemma list_all_map_upt: "(\<And>i. i < n \<Longrightarrow> P (f i)) \<Longrightarrow> list_all P (map f [0..<n])"
  by (simp add: list_all_iff)

lemma set_remove1_distinct: "distinct xs \<Longrightarrow> set (remove1 x xs) = set xs - {x}"
  by (rule set_remove1_eq)

end
