(* ===== verification/Linked_List.thy ===== *)
theory Linked_List
  imports Kernel_Prelude
begin

text \<open>
  \<^verbatim>\<open>src/src/common/list.c\<close> and \<^verbatim>\<open>list.h\<close>: intrusive circular doubly linked lists, the
  iteration macros over them, and the FIFO \<^verbatim>\<open>Queue\<close> built on them, at the level of the
  pointers. A node is an address (\<open>0\<close> is \<^verbatim>\<open>NULL\<close>) and the heap maps a node to its
  \<^verbatim>\<open>prev\<close> and \<^verbatim>\<open>next\<close> fields. The abstraction \<open>ring h (x # xs)\<close> says that, starting at
  \<open>x\<close>, the \<^verbatim>\<open>next\<close> pointers go through \<open>xs\<close> and back to \<open>x\<close>, and the \<^verbatim>\<open>prev\<close>
  pointers the other way round.
\<close>

section \<open>Definitions\<close>

type_synonym addr = nat

abbreviation NULL :: addr where "NULL \<equiv> 0"

record list_heap =
  lnext :: "addr \<Rightarrow> addr"
  lprev :: "addr \<Rightarrow> addr"

definition set_next :: "addr \<Rightarrow> addr \<Rightarrow> list_heap \<Rightarrow> list_heap" where
  "set_next a b h = h\<lparr>lnext := (lnext h)(a := b)\<rparr>"

definition set_prev :: "addr \<Rightarrow> addr \<Rightarrow> list_heap \<Rightarrow> list_heap" where
  "set_prev a b h = h\<lparr>lprev := (lprev h)(a := b)\<rparr>"

definition init_list_node :: "addr \<Rightarrow> list_heap \<Rightarrow> list_heap" where
  "init_list_node node h = set_next node node (set_prev node node h)"

definition merge_list :: "addr \<Rightarrow> addr \<Rightarrow> list_heap \<Rightarrow> addr \<times> list_heap" where
  "merge_list node1 node2 h =
     (if node1 = NULL then (node2, h)
      else if node2 = NULL then (node1, h)
      else let node3 = lnext h node1;
               node4 = lprev h node2;
               h = set_next node1 node2 h;
               h = set_prev node2 node1 h;
               h = set_next node4 node3 h;
               h = set_prev node3 node4 h
           in (node1, h))"

definition insert_into_list :: "addr \<Rightarrow> addr \<Rightarrow> list_heap \<Rightarrow> addr \<times> list_heap" where
  "insert_into_list list node h = merge_list list node (init_list_node node h)"

definition detach_from_list :: "addr \<Rightarrow> list_heap \<Rightarrow> addr \<times> list_heap" where
  "detach_from_list node h =
     (let prev = lprev h node;
          h = set_next (lprev h node) (lnext h node) h;
          h = set_prev (lnext h node) (lprev h node) h;
          h = init_list_node node h
      in (if prev = node then NULL else prev, h))"

definition empty_list :: "addr \<Rightarrow> list_heap \<Rightarrow> bool" where
  "empty_list list h \<longleftrightarrow> lnext h list = list"

text \<open>
  The iteration macros run their body on every node from \<^verbatim>\<open>list->next\<close> (\<^verbatim>\<open>list->prev\<close>)
  on, the head itself last, and stop after the head. On a broken heap they need not stop:
  the sequence of nodes they visit is a partial function.
\<close>

partial_function (option) for_in_from :: "(addr \<Rightarrow> addr) \<Rightarrow> addr \<Rightarrow> addr \<Rightarrow> addr list option" where
  "for_in_from step flag valptr =
     (if valptr = NULL then Some []
      else if valptr = flag then Some [valptr]
      else do { rest \<leftarrow> for_in_from step flag (step valptr); Some (valptr # rest) })"

definition for_in_list :: "addr \<Rightarrow> list_heap \<Rightarrow> addr list option" where
  "for_in_list list h = for_in_from (lnext h) list (lnext h list)"

definition for_in_list_reverse :: "addr \<Rightarrow> list_heap \<Rightarrow> addr list option" where
  "for_in_list_reverse list h = for_in_from (lprev h) list (lprev h list)"

text \<open>The FIFO queue: the nodes form a ring, \<^verbatim>\<open>begin\<close> and \<^verbatim>\<open>end\<close> point into it.\<close>

record queue =
  qbegin :: addr
  qend :: addr
  qsz :: int

definition queue_init :: "queue \<Rightarrow> queue" where
  "queue_init x = x\<lparr>qbegin := NULL, qend := NULL, qsz := 0\<rparr>"

definition queue_push :: "addr \<Rightarrow> queue \<times> list_heap \<Rightarrow> queue \<times> list_heap" where
  "queue_push item = (\<lambda>(x, h).
     (let h = init_list_node item h in
      if qsz x = 0 then (x\<lparr>qbegin := item, qend := item, qsz := qsz x + 1\<rparr>, h)
      else let h = snd (merge_list (qend x) item h)
           in (x\<lparr>qend := item, qsz := qsz x + 1\<rparr>, h)))"

definition queue_pop :: "queue \<times> list_heap \<Rightarrow> (queue \<times> list_heap) option" where
  "queue_pop = (\<lambda>(x, h).
     (if qsz x = 0 then None
      else if qsz x = 1 then Some (x\<lparr>qbegin := NULL, qend := NULL, qsz := qsz x - 1\<rparr>, h)
      else let t = qbegin x;
               x = x\<lparr>qbegin := lnext h (qbegin x)\<rparr>;
               h = snd (detach_from_list t h)
           in Some (x\<lparr>qsz := qsz x - 1\<rparr>, h)))"

definition queue_front :: "queue \<times> list_heap \<Rightarrow> addr option" where
  "queue_front = (\<lambda>(x, h). if qbegin x = NULL then None else Some (qbegin x))"

definition queue_empty :: "queue \<times> list_heap \<Rightarrow> bool" where
  "queue_empty = (\<lambda>(x, h). qsz x = 0)"

section \<open>Linked segments and rings\<close>

fun links :: "list_heap \<Rightarrow> addr list \<Rightarrow> bool" where
  "links h [] = True"
| "links h [x] = True"
| "links h (x # y # zs) \<longleftrightarrow> lnext h x = y \<and> lprev h y = x \<and> links h (y # zs)"

fun ring :: "list_heap \<Rightarrow> addr list \<Rightarrow> bool" where
  "ring h [] = False"
| "ring h (x # xs) \<longleftrightarrow> distinct (x # xs) \<and> NULL \<notin> set (x # xs) \<and> links h (x # xs @ [x])"

lemma links_join:
  "xs \<noteq> [] \<Longrightarrow> ys \<noteq> [] \<Longrightarrow> links h (xs @ ys) \<longleftrightarrow>
     links h xs \<and> links h ys \<and> lnext h (last xs) = hd ys \<and> lprev h (hd ys) = last xs"
proof (induction h xs rule: links.induct)
  case (2 h x)
  then show ?case by (cases ys) auto
qed auto

lemma links_frame:
  assumes "\<And>a. a \<in> set (butlast xs) \<Longrightarrow> lnext h' a = lnext h a"
    and "\<And>a. a \<in> set (tl xs) \<Longrightarrow> lprev h' a = lprev h a"
  shows "links h' xs = links h xs"
  using assms by (induction h xs rule: links.induct) auto

lemma in_set_tlD: "a \<in> set (tl xs) \<Longrightarrow> a \<in> set xs"
  by (cases xs) auto

lemma last_notin_butlast: "distinct xs \<Longrightarrow> xs \<noteq> [] \<Longrightarrow> last xs \<notin> set (butlast xs)"
  by (induction xs) (auto split: if_splits dest: in_set_butlastD)

lemma set_next_simps [simp]:
  "lnext (set_next a b h) = (lnext h)(a := b)" "lprev (set_next a b h) = lprev h"
  "lprev (set_prev a b h) = (lprev h)(a := b)" "lnext (set_prev a b h) = lnext h"
  by (simp_all add: set_next_def set_prev_def)

lemma ring_iff:
  "ring h xs \<longleftrightarrow> xs \<noteq> [] \<and> distinct xs \<and> NULL \<notin> set xs \<and> links h xs \<and>
     lnext h (last xs) = hd xs \<and> lprev h (hd xs) = last xs"
proof (cases xs)
  case (Cons x ys)
  have "links h (x # ys @ [x]) \<longleftrightarrow> links h (x # ys) \<and> lnext h (last (x # ys)) = x \<and>
      lprev h x = last (x # ys)"
    using links_join [of "x # ys" "[x]" h] by simp
  with Cons show ?thesis by auto
qed simp

lemma ring_rotate: "ring h (xs @ ys) \<Longrightarrow> ring h (ys @ xs)"
  by (cases "xs = [] \<or> ys = []") (auto simp: ring_iff links_join)

lemma ring_init: "a \<noteq> NULL \<Longrightarrow> ring (init_list_node a h) [a]"
  by (simp add: init_list_node_def)

lemma ringD: "ring h xs \<Longrightarrow> xs \<noteq> [] \<and> distinct xs \<and> NULL \<notin> set xs \<and> links h xs"
  by (simp add: ring_iff)

text \<open>A ring is untouched by writes to the fields of nodes outside it.\<close>

lemma ring_frame:
  assumes "ring h xs" and "\<And>a. a \<in> set xs \<Longrightarrow> lnext h' a = lnext h a \<and> lprev h' a = lprev h a"
  shows "ring h' xs"
proof -
  have "links h' xs = links h xs"
    using assms(2) by (intro links_frame) (auto dest: in_set_butlastD in_set_tlD)
  with assms show ?thesis by (auto simp: ring_iff)
qed

lemma ring_init_other: "a \<notin> set xs \<Longrightarrow> ring h xs \<Longrightarrow> ring (init_list_node a h) xs"
  by (erule ring_frame) (auto simp: init_list_node_def)

declare ring.simps [simp del]

section \<open>The list operations\<close>

lemma hd_in_ring: "ring h (x # xs) \<Longrightarrow> lnext h x = hd (xs @ [x]) \<and> lprev h x = last (x # xs)"
  by (cases xs) (auto simp: ring_iff)

lemma links_Cons:
  "ys \<noteq> [] \<Longrightarrow> links h (x # ys) \<longleftrightarrow> lnext h x = hd ys \<and> lprev h (hd ys) = x \<and> links h ys"
  by (cases ys) auto

lemma ring_merge:
  assumes r1: "ring h (n1 # as)" and r2: "ring h (n2 # bs)"
    and dj: "set (n1 # as) \<inter> set (n2 # bs) = {}"
  shows "merge_list n1 n2 h = (n1, snd (merge_list n1 n2 h))"
    and "ring (snd (merge_list n1 n2 h)) (n1 # n2 # bs @ as)"
proof -
  let ?n3 = "hd (as @ [n1])" and ?n4 = "last (n2 # bs)"
  let ?h = "set_prev ?n3 ?n4 (set_next ?n4 ?n3 (set_prev n2 n1 (set_next n1 n2 h)))"
  have nn: "n1 \<noteq> NULL" "n2 \<noteq> NULL" and neq: "n1 \<noteq> n2"
    using r1 r2 dj by (auto dest: ringD)
  have eq: "merge_list n1 n2 h = (n1, ?h)"
    using hd_in_ring [OF r1] hd_in_ring [OF r2] nn by (simp add: merge_list_def Let_def)
  then show "merge_list n1 n2 h = (n1, snd (merge_list n1 n2 h))"
    by simp
  have n3: "?n3 \<in> set (n1 # as)" and n4: "?n4 \<in> set (n2 # bs)"
    by (cases as; simp) (rule last_in_set, simp)
  have db: "distinct (n2 # bs)" and da: "distinct (n1 # as)"
    using ringD [OF r1] ringD [OF r2] by auto
  have lb: "links ?h (n2 # bs)"
  proof -
    have "?n4 \<notin> set (butlast (n2 # bs))"
      using db by (rule last_notin_butlast) simp
    moreover have "n1 \<notin> set (butlast (n2 # bs))" and "?n3 \<notin> set bs"
      using n3 dj by (auto simp del: butlast.simps dest: in_set_butlastD)
    ultimately have "links ?h (n2 # bs) = links h (n2 # bs)"
      using db by (intro links_frame) (auto simp del: butlast.simps last.simps)
    with r2 show ?thesis by (simp only: ring_iff)
  qed
  have la: "links ?h as" if "as \<noteq> []"
  proof -
    have "a \<noteq> n2 \<and> a \<noteq> ?n4 \<and> a \<noteq> n1" if "a \<in> set as" for a
      using that n4 dj da by auto
    moreover have "?n3 \<notin> set (tl as)"
      using da that by (cases as) auto
    ultimately have "links ?h as = links h as"
      by (intro links_frame) (auto simp del: last.simps dest: in_set_butlastD in_set_tlD)
    with r1 that show ?thesis by (simp add: ring_iff links_Cons)
  qed
  have last1: "lnext h (last (n1 # as)) = n1" and lastin: "last (n1 # as) \<in> set (n1 # as)"
    using r1 by (simp only: ring_iff list.sel) (rule last_in_set, simp)
  show "ring (snd (merge_list n1 n2 h)) (n1 # n2 # bs @ as)"
  proof (cases as)
    case Nil
    with eq lb r1 r2 dj n4 neq show ?thesis
      by (auto simp: ring_iff links_Cons)
  next
    case (Cons a as')
    with la have la': "links ?h (a # as')" by simp
    have ne1: "last (n1 # as) \<noteq> ?n4"
      using dj n4 lastin by (metis disjoint_iff)
    have "last as \<in> set as"
      using Cons by simp
    then have ne2: "last (n1 # as) \<noteq> n1"
      using Cons da by auto
    have n3a: "?n3 = a" "a \<noteq> n1" "a \<noteq> n2" "n1 \<noteq> ?n4" "n2 \<noteq> n1" "last (n1 # as) = last as"
      using Cons da dj n4 by (auto simp del: last.simps) simp_all
    have "links ?h ((n2 # bs) @ a # as')"
      using lb la' n3a by (subst links_join) auto
    then have "links ?h (n1 # (n2 # bs) @ a # as')"
      using n3a by (subst links_Cons) auto
    moreover have "lnext ?h (last as) = n1" "lprev ?h n1 = last as"
      using ne1 ne2 last1 n3a hd_in_ring [OF r1] by (auto simp del: last.simps)
    ultimately show ?thesis
      using eq Cons r1 r2 dj by (simp add: ring_iff) auto
  qed
qed

lemma ring_insert:
  assumes "ring h (l # xs)" and "n \<notin> set (l # xs)" and "n \<noteq> NULL"
  shows "ring (snd (insert_into_list l n h)) (l # n # xs)"
  using ring_merge(2) [of "init_list_node n h" l xs n "[]"] assms
    ring_init [of n h] ring_init_other [of n "l # xs" h]
  by (auto simp: insert_into_list_def)

lemma ring_detach:
  assumes "ring h (p # n # xs)"
  shows "fst (detach_from_list n h) = p"
    and "ring (snd (detach_from_list n h)) (p # xs)"
    and "ring (snd (detach_from_list n h)) [n]"
proof -
  let ?q = "hd (xs @ [p])"
  have q: "lnext h n = ?q" and p: "lprev h n = p"
    using assms by (cases xs; simp add: ring.simps)+
  have ne: "n \<noteq> p" "?q \<noteq> n" "?q \<in> set (p # xs)"
    using ringD [OF assms] by (cases xs; auto)+
  let ?h = "init_list_node n (set_prev ?q p (set_next p ?q h))"
  have eq: "detach_from_list n h = (p, ?h)"
    using q p ne by (simp add: detach_from_list_def Let_def)
  show "fst (detach_from_list n h) = p"
    by (simp add: eq)
  show "ring (snd (detach_from_list n h)) [n]"
    unfolding eq snd_conv by (rule ring_init) (use ringD [OF assms] in auto)
  have x: "links ?h xs" if "xs \<noteq> []"
  proof -
    have "links ?h xs = links h xs"
    proof (rule links_frame)
      fix a
      assume "a \<in> set (butlast xs)"
      then have "a \<in> set xs" by (rule in_set_butlastD)
      with ringD [OF assms] show "lnext ?h a = lnext h a" by (auto simp: init_list_node_def)
    next
      fix a
      assume a: "a \<in> set (tl xs)"
      with that ringD [OF assms] have "a \<noteq> ?q" by (cases xs) auto
      with a ringD [OF assms] show "lprev ?h a = lprev h a"
        by (auto simp: init_list_node_def dest: in_set_tlD)
    qed
    with assms that show ?thesis by (simp add: ring_iff links_Cons)
  qed
  show "ring (snd (detach_from_list n h)) (p # xs)"
  proof (cases xs)
    case Nil
    with assms ne show ?thesis
      by (auto simp: eq ring_iff init_list_node_def)
  next
    case (Cons y ys)
    have "last xs \<noteq> n" "last xs \<noteq> p"
      using ringD [OF assms] Cons last_in_set [of xs] by auto
    with assms Cons x ne show ?thesis
      by (auto simp: eq ring_iff links_Cons init_list_node_def)
  qed
qed

lemma ring_detach_single:
  assumes "ring h [n]"
  shows "fst (detach_from_list n h) = NULL" and "ring (snd (detach_from_list n h)) [n]"
  using assms by (auto simp: ring.simps detach_from_list_def Let_def init_list_node_def)

lemma ring_empty_list: "ring h (l # xs) \<Longrightarrow> empty_list l h \<longleftrightarrow> xs = []"
  by (cases xs) (auto simp: ring.simps empty_list_def)

lemma for_in_from_links:
  assumes "links h (xs @ [l])" and "l \<notin> set xs" and "NULL \<notin> set (l # xs)"
  shows "for_in_from (lnext h) l (hd (xs @ [l])) = Some (xs @ [l])"
  using assms
proof (induction xs)
  case Nil
  then show ?case by (subst for_in_from.simps) simp
next
  case (Cons x xs)
  then have "lnext h x = hd (xs @ [l])"
    by (cases xs) auto
  moreover from Cons have "for_in_from (lnext h) l (hd (xs @ [l])) = Some (xs @ [l])"
    by (cases xs) auto
  ultimately show ?case
    using Cons.prems by (subst for_in_from.simps) auto
qed

lemma for_in_from_links_rev:
  assumes "links h (l # xs)" and "l \<notin> set xs" and "NULL \<notin> set (l # xs)"
  shows "for_in_from (lprev h) l (last (l # xs)) = Some (rev xs @ [l])"
  using assms
proof (induction xs rule: rev_induct)
  case Nil
  then show ?case by (subst for_in_from.simps) simp
next
  case (snoc x xs)
  then have "links h (l # xs)" and "lprev h x = last (l # xs)"
    using links_join [of "l # xs" "[x]" h] by auto
  with snoc show ?case
    by (subst for_in_from.simps) auto
qed

lemma ring_for_in_list: "ring h (l # xs) \<Longrightarrow> for_in_list l h = Some (xs @ [l])"
proof -
  assume r: "ring h (l # xs)"
  then have "links h (l # (xs @ [l]))" by (simp add: ring.simps)
  then have "links h (xs @ [l])" by (cases xs) auto
  moreover have "l \<notin> set xs" "NULL \<notin> set (l # xs)"
    using ringD [OF r] by auto
  ultimately show ?thesis
    using for_in_from_links [of h xs l] hd_in_ring [OF r] by (metis for_in_list_def)
qed

lemma ring_for_in_list_reverse: "ring h (l # xs) \<Longrightarrow> for_in_list_reverse l h = Some (rev xs @ [l])"
proof -
  assume r: "ring h (l # xs)"
  then have "links h (l # xs)" "l \<notin> set xs" "NULL \<notin> set (l # xs)"
    by (simp_all only: ring_iff) auto
  then show ?thesis
    using for_in_from_links_rev [of h l xs] hd_in_ring [OF r] by (metis for_in_list_reverse_def)
qed

section \<open>The FIFO interface\<close>

primrec pop_n :: "('s \<Rightarrow> 's option) \<Rightarrow> nat \<Rightarrow> 's \<Rightarrow> 's option" where
  "pop_n pop 0 s = Some s"
| "pop_n pop (Suc n) s = do { s \<leftarrow> pop s; pop_n pop n s }"

locale fifo =
  fixes push :: "addr \<Rightarrow> 's \<Rightarrow> 's"
    and pop :: "'s \<Rightarrow> 's option"
    and front :: "'s \<Rightarrow> addr option"
    and is_empty :: "'s \<Rightarrow> bool"
    and rep :: "'s \<Rightarrow> addr list \<Rightarrow> bool"
  assumes rep_push: "rep s xs \<Longrightarrow> a \<notin> set xs \<Longrightarrow> a \<noteq> NULL \<Longrightarrow> rep (push a s) (xs @ [a])"
    and rep_pop: "rep s (x # xs) \<Longrightarrow> \<exists>s'. pop s = Some s' \<and> rep s' xs"
    and pop_empty: "rep s [] \<Longrightarrow> pop s = None"
    and rep_front: "rep s (x # xs) \<Longrightarrow> front s = Some x"
    and front_empty: "rep s [] \<Longrightarrow> front s = None"
    and rep_is_empty: "rep s xs \<Longrightarrow> is_empty s \<longleftrightarrow> xs = []"
begin

lemma push_all:
  "rep s xs \<Longrightarrow> distinct (xs @ ys) \<Longrightarrow> NULL \<notin> set ys \<Longrightarrow> rep (fold push ys s) (xs @ ys)"
proof (induction ys arbitrary: s xs)
  case (Cons y ys)
  then have "rep (push y s) (xs @ [y])"
    by (intro rep_push) auto
  then have "rep (fold push ys (push y s)) ((xs @ [y]) @ ys)"
    using Cons.prems by (intro Cons.IH) auto
  then show ?case by simp
qed simp

lemma pop_n_rep: "rep s xs \<Longrightarrow> k \<le> length xs \<Longrightarrow> \<exists>s'. pop_n pop k s = Some s' \<and> rep s' (drop k xs)"
proof (induction k arbitrary: s xs)
  case (Suc k)
  then obtain x xs' where xs: "xs = x # xs'"
    by (cases xs) auto
  with Suc.prems obtain s' where "pop s = Some s'" and "rep s' xs'"
    using rep_pop by blast
  with Suc.IH [of s' xs'] Suc.prems xs show ?case by auto
qed auto

lemma fifo_order:
  assumes "rep s xs" and "k < length xs"
  shows "\<exists>s'. pop_n pop k s = Some s' \<and> front s' = Some (xs ! k)"
proof -
  obtain s' where "pop_n pop k s = Some s'" and "rep s' (drop k xs)"
    using pop_n_rep [of s xs k] assms by auto
  with assms(2) rep_front [of s' "xs ! k" "drop (Suc k) xs"] show ?thesis
    by (simp add: Cons_nth_drop_Suc)
qed

lemma drain: "rep s xs \<Longrightarrow> \<exists>s'. pop_n pop (length xs) s = Some s' \<and> is_empty s' \<and> pop s' = None"
  using pop_n_rep [of s xs "length xs"] by (auto simp: rep_is_empty pop_empty)

end

definition queue_rep :: "queue \<times> list_heap \<Rightarrow> addr list \<Rightarrow> bool" where
  "queue_rep q xs \<longleftrightarrow> qsz (fst q) = int (length xs) \<and>
     (if xs = [] then qbegin (fst q) = NULL
      else ring (snd q) xs \<and> qbegin (fst q) = hd xs \<and> qend (fst q) = last xs)"

lemma queue_rep_init: "queue_rep (queue_init x, h) []"
  by (simp add: queue_rep_def queue_init_def)

lemma queue_rep_push:
  assumes "queue_rep q xs" and "a \<notin> set xs" and "a \<noteq> NULL"
  shows "queue_rep (queue_push a q) (xs @ [a])"
proof (cases xs rule: rev_cases)
  case Nil
  with assms show ?thesis
    by (cases q) (auto simp: queue_rep_def queue_push_def Let_def intro: ring_init)
next
  case (snoc ys e)
  obtain x h where q: "q = (x, h)" by (cases q)
  let ?h = "init_list_node a h"
  have "ring h (ys @ [e])"
    using assms snoc q by (simp add: queue_rep_def)
  then have "ring h ([e] @ ys)"
    by (rule ring_rotate)
  then have "ring ?h ([e] @ ys)"
    using assms snoc by (intro ring_init_other) auto
  then have "ring (snd (merge_list e a ?h)) ([e, a] @ ys)"
    using assms snoc ring_init [of a h] ring_merge(2) [of ?h e ys a "[]"] by auto
  then have "ring (snd (merge_list e a ?h)) (ys @ [e, a])"
    by (rule ring_rotate)
  with assms snoc q show ?thesis
    by (auto simp: queue_rep_def queue_push_def Let_def hd_append)
qed

lemma queue_rep_pop:
  assumes "queue_rep q (t # xs)"
  shows "\<exists>q'. queue_pop q = Some q' \<and> queue_rep q' xs"
proof (cases xs rule: rev_cases)
  case Nil
  with assms show ?thesis
    by (cases q) (auto simp: queue_rep_def queue_pop_def)
next
  case (snoc ys p)
  obtain x h where q: "q = (x, h)" by (cases q)
  have r: "ring h ((t # ys) @ [p])"
    using assms snoc q by (simp add: queue_rep_def)
  then have "ring h (p # t # ys)"
    using ring_rotate [of h "t # ys" "[p]"] by simp
  then have "ring (snd (detach_from_list t h)) (p # ys)"
    by (rule ring_detach(2))
  then have "ring (snd (detach_from_list t h)) xs"
    using ring_rotate [of _ "[p]" ys] snoc by simp
  moreover have "lnext h t = hd xs"
    using hd_in_ring [of h t xs] r snoc by (simp add: hd_append)
  moreover have "qsz x = int (length xs) + 1" "qsz x \<noteq> 0" "qsz x \<noteq> 1" "xs \<noteq> []"
    and "qbegin x = t" "qend x = last xs"
    using assms snoc q by (simp_all add: queue_rep_def)
  ultimately show ?thesis
    using q by (simp add: queue_rep_def queue_pop_def Let_def)
qed

interpretation lq: fifo queue_push queue_pop queue_front queue_empty queue_rep
proof unfold_locales
  show "queue_rep s (x # xs) \<Longrightarrow> queue_front s = Some x" for s x xs
    by (cases s) (auto dest!: ringD simp: queue_rep_def queue_front_def)
  show "queue_rep s [] \<Longrightarrow> queue_front s = None" "queue_rep s [] \<Longrightarrow> queue_pop s = None" for s
    by (cases s; simp add: queue_rep_def queue_front_def queue_pop_def)+
  show "queue_rep s xs \<Longrightarrow> queue_empty s = (xs = [])" for s xs
    by (cases s) (simp add: queue_rep_def queue_empty_def)
qed (fact queue_rep_push queue_rep_pop)+

section \<open>Properties\<close>

lemma ring_detach_any:
  assumes "ring h (l # as @ x # bs)"
  shows "ring (snd (detach_from_list x h)) (l # as @ bs)"
proof (cases as rule: rev_cases)
  case Nil
  with assms show ?thesis by (simp add: ring_detach(2))
next
  case (snoc as' p)
  with assms have "ring h ((l # as') @ (p # x # bs))" by simp
  then have "ring h ((p # x # bs) @ (l # as'))" by (simp only: ring_rotate)
  then have "ring (snd (detach_from_list x h)) (p # bs @ l # as')" by (simp add: ring_detach(2))
  then have "ring (snd (detach_from_list x h)) ((p # bs) @ (l # as'))" by simp
  then have "ring (snd (detach_from_list x h)) ((l # as') @ (p # bs))" by (simp only: ring_rotate)
  with snoc show ?thesis by simp
qed

lemma ring_insert_all:
  "ring h (l # xs) \<Longrightarrow> distinct (l # xs @ ns) \<Longrightarrow> NULL \<notin> set ns \<Longrightarrow>
   ring (fold (\<lambda>n h. snd (insert_into_list l n h)) ns h) (l # rev ns @ xs)"
proof (induction ns arbitrary: h xs)
  case (Cons n ns)
  then have "ring (snd (insert_into_list l n h)) (l # n # xs)"
    by (intro ring_insert) auto
  with Cons.IH [OF this] Cons.prems show ?case by auto
qed simp

text \<open>
  The circular list behaves as a list. Inserting the distinct nodes \<open>ns\<close> one after
  the other behind a freshly initialised head makes \<^verbatim>\<open>_for_in_list\<close> visit them last-in
  first and then the head, \<^verbatim>\<open>_for_in_list_reverse\<close> in insertion order; and detaching any
  one of them removes exactly that node and leaves it as a list of its own.
\<close>
theorem list_insert_detach:
  assumes "distinct (l # ns)" and "NULL \<notin> set (l # ns)" and "x \<in> set ns"
  shows "let h1 = fold (\<lambda>n h. snd (insert_into_list l n h)) ns (init_list_node l h);
             h2 = snd (detach_from_list x h1)
         in for_in_list l h1 = Some (rev ns @ [l]) \<and> for_in_list_reverse l h1 = Some (ns @ [l]) \<and>
            for_in_list l h2 = Some (remove1 x (rev ns) @ [l]) \<and> (empty_list l h2 \<longleftrightarrow> ns = [x])"
proof -
  let ?h1 = "fold (\<lambda>n h. snd (insert_into_list l n h)) ns (init_list_node l h)"
  have r: "ring ?h1 (l # rev ns)"
    using ring_insert_all [of "init_list_node l h" l "[]" ns] ring_init [of l h] assms by simp
  obtain as bs where ab: "rev ns = as @ x # bs" "x \<notin> set as"
    using assms(3) split_list_first [of x "rev ns"] by auto
  have r2: "ring (snd (detach_from_list x ?h1)) (l # as @ bs)"
    using ring_detach_any r ab(1) by simp
  have "as @ bs = remove1 x (rev ns)" using ab by (simp add: remove1_append)
  moreover have "as @ bs = [] \<longleftrightarrow> ns = [x]"
    using arg_cong [OF ab(1), of rev] by (auto simp: append_eq_Cons_conv)
  ultimately show ?thesis
    using ring_for_in_list [OF r] ring_for_in_list_reverse [OF r] ring_for_in_list [OF r2]
      ring_empty_list [OF r2] by (simp add: Let_def)
qed

theorem list_insert_detach_witness:
  "for_in_list 9 (snd (detach_from_list 4 (fold (\<lambda>n h. snd (insert_into_list 9 n h)) [3, 4, 5]
     (init_list_node 9 \<lparr>lnext = id, lprev = id\<rparr>)))) = Some [5, 3, 9]"
  using list_insert_detach [of 9 "[3, 4, 5]" 4 "\<lparr>lnext = id, lprev = id\<rparr>"]
  unfolding Let_def by (simp del: fold.simps)

text \<open>
  The queue is first in, first out. After any number of \<^verbatim>\<open>queue_push\<close> calls on an
  initialised queue, the \<open>k\<close>-th element pushed is at the front after exactly \<open>k\<close>
  successful \<^verbatim>\<open>queue_pop\<close> calls, and popping every element leaves the queue empty, where
  a further \<^verbatim>\<open>queue_pop\<close> stops in \<^verbatim>\<open>PANIC\<close>.
\<close>
theorem queue_fifo:
  assumes "distinct xs" and "NULL \<notin> set xs" and "k < length xs"
  shows "(\<exists>q. pop_n queue_pop k (fold queue_push xs (queue_init x, h)) = Some q \<and>
      queue_front q = Some (xs ! k)) \<and>
    (\<exists>q. pop_n queue_pop (length xs) (fold queue_push xs (queue_init x, h)) = Some q \<and>
      queue_empty q \<and> queue_pop q = None)"
proof -
  have "queue_rep (fold queue_push xs (queue_init x, h)) xs"
    using lq.push_all [OF queue_rep_init, of xs x h] assms by simp
  then show ?thesis
    using lq.fifo_order [of _ xs k] lq.drain [of _ xs] assms(3) by blast
qed

theorem queue_fifo_witness:
  "\<exists>q. pop_n queue_pop 1 (fold queue_push [7, 8, 9] (queue_init \<lparr>qbegin = 0, qend = 0, qsz = 5\<rparr>,
      \<lparr>lnext = id, lprev = id\<rparr>)) = Some q \<and> queue_front q = Some 8"
  using queue_fifo [of "[7, 8, 9]" 1] by simp

end
