(* ===== verification/CString.thy ===== *)
theory CString
  imports Kernel_Prelude
begin

text \<open>
  \<^verbatim>\<open>src/src/common/string.c\<close>: the byte and string routines of the kernel. The routines that
  may be called on overlapping regions work on one shared memory \<open>mem\<close> (address to byte);
  where the C prototype says \<^verbatim>\<open>restrict\<close> or only reads (\<^verbatim>\<open>const char *\<close>), a pointer
  argument is the function from offsets to the bytes it points to. On the AArch64 target
  \<^verbatim>\<open>char\<close> is unsigned, so a character is an \<open>u8\<close>. Lengths and addresses are \<open>nat\<close>:
  no region of these calls wraps around the address space.
\<close>

section \<open>Definitions\<close>

type_synonym mem = "nat \<Rightarrow> u8"
type_synonym cstr = "nat \<Rightarrow> u8"

function memset_loop :: "nat \<Rightarrow> u8 \<Rightarrow> nat \<Rightarrow> nat \<Rightarrow> mem \<Rightarrow> mem" where
  "memset_loop s c n i m =
     (if i < n then memset_loop s c n (i + 1) (m(s + i := c)) else m)"
  by pat_completeness auto
termination by (relation "measure (\<lambda>(s, c, n, i, m). n - i)") auto

definition memset :: "nat \<Rightarrow> int \<Rightarrow> nat \<Rightarrow> mem \<Rightarrow> mem" where
  "memset s c n m = memset_loop s (word_of_int (and c 0xff)) n 0 m"

function memcpy_loop :: "nat \<Rightarrow> nat \<Rightarrow> nat \<Rightarrow> nat \<Rightarrow> mem \<Rightarrow> mem" where
  "memcpy_loop dest src n i m =
     (if i < n then memcpy_loop dest src n (i + 1) (m(dest + i := m (src + i))) else m)"
  by pat_completeness auto
termination by (relation "measure (\<lambda>(dest, src, n, i, m). n - i)") auto

definition memcpy :: "nat \<Rightarrow> nat \<Rightarrow> nat \<Rightarrow> mem \<Rightarrow> mem" where
  "memcpy dest src n m = memcpy_loop dest src n 0 m"

function memcmp_loop :: "cstr \<Rightarrow> cstr \<Rightarrow> nat \<Rightarrow> nat \<Rightarrow> int" where
  "memcmp_loop s1 s2 n i =
     (if i < n then
        let c1 = uint (s1 i); c2 = uint (s2 i) in
        if c1 \<noteq> c2 then c1 - c2 else memcmp_loop s1 s2 n (i + 1)
      else 0)"
  by pat_completeness auto
termination by (relation "measure (\<lambda>(s1, s2, n, i). n - i)") auto

definition memcmp :: "cstr \<Rightarrow> cstr \<Rightarrow> nat \<Rightarrow> int" where
  "memcmp s1 s2 n = memcmp_loop s1 s2 n 0"

text \<open>The two copying loops of \<^verbatim>\<open>memmove\<close>: \<^verbatim>\<open>n-- > 0\<close> counts the bytes still to copy.\<close>

fun memmove_down :: "nat \<Rightarrow> nat \<Rightarrow> nat \<Rightarrow> mem \<Rightarrow> mem" where
  "memmove_down d s 0 m = m"
| "memmove_down d s (Suc n) m =
     (let d = d - 1; s = s - 1 in memmove_down d s n (m(d := m s)))"

fun memmove_up :: "nat \<Rightarrow> nat \<Rightarrow> nat \<Rightarrow> mem \<Rightarrow> mem" where
  "memmove_up d s 0 m = m"
| "memmove_up d s (Suc n) m = memmove_up (d + 1) (s + 1) n (m(d := m s))"

definition memmove :: "nat \<Rightarrow> nat \<Rightarrow> nat \<Rightarrow> mem \<Rightarrow> mem" where
  "memmove d s n m =
     (if s < d \<and> d - s < n then memmove_down (d + n) (s + n) n m
      else memmove_up d s n m)"

function strncpy_copy :: "cstr \<Rightarrow> cstr \<Rightarrow> nat \<Rightarrow> nat \<Rightarrow> nat \<times> cstr" where
  "strncpy_copy dest src n i =
     (if i < n \<and> src i \<noteq> 0 then strncpy_copy (dest(i := src i)) src n (i + 1) else (i, dest))"
  by pat_completeness auto
termination by (relation "measure (\<lambda>(dest, src, n, i). n - i)") auto

function strncpy_pad :: "cstr \<Rightarrow> nat \<Rightarrow> nat \<Rightarrow> cstr" where
  "strncpy_pad dest n i = (if i < n then strncpy_pad (dest(i := 0)) n (i + 1) else dest)"
  by pat_completeness auto
termination by (relation "measure (\<lambda>(dest, n, i). n - i)") auto

definition strncpy :: "cstr \<Rightarrow> cstr \<Rightarrow> nat \<Rightarrow> cstr" where
  "strncpy dest src n = (let (i, dest) = strncpy_copy dest src n 0 in strncpy_pad dest n i)"

definition strncpy_fast :: "cstr \<Rightarrow> cstr \<Rightarrow> nat \<Rightarrow> cstr" where
  "strncpy_fast dest src n =
     (let (i, dest) = strncpy_copy dest src n 0 in if i < n then dest(i := 0) else dest)"

function strncmp_loop :: "cstr \<Rightarrow> cstr \<Rightarrow> nat \<Rightarrow> nat \<Rightarrow> int" where
  "strncmp_loop s1 s2 n i =
     (if i < n then
        if s1 i \<noteq> s2 i then uint (s1 i) - uint (s2 i)
        else if s1 i = 0 \<or> s2 i = 0 then 0
        else strncmp_loop s1 s2 n (i + 1)
      else 0)"
  by pat_completeness auto
termination by (relation "measure (\<lambda>(s1, s2, n, i). n - i)") auto

definition strncmp :: "cstr \<Rightarrow> cstr \<Rightarrow> nat \<Rightarrow> int" where
  "strncmp s1 s2 n = strncmp_loop s1 s2 n 0"

text \<open>\<^verbatim>\<open>strlen\<close> runs off the end of memory when there is no terminator.\<close>

partial_function (option) strlen_loop :: "cstr \<Rightarrow> nat \<Rightarrow> nat option" where
  "strlen_loop s i = (if s i \<noteq> 0 then strlen_loop s (i + 1) else Some i)"

definition strlen :: "cstr \<Rightarrow> nat option" where
  "strlen s = strlen_loop s 0"

declare memset_loop.simps [simp del] memcpy_loop.simps [simp del] memcmp_loop.simps [simp del]
  strncpy_copy.simps [simp del] strncpy_pad.simps [simp del] strncmp_loop.simps [simp del]

section \<open>Block operations\<close>

lemma memset_loop_eq:
  "memset_loop s c n i m a = (if s + i \<le> a \<and> a < s + n then c else m a)"
proof (induction "n - i" arbitrary: i m)
  case 0
  then show ?case by (subst memset_loop.simps) auto
next
  case (Suc k)
  then have "memset_loop s c n (Suc i) (m(s + i := c)) a =
      (if s + Suc i \<le> a \<and> a < s + n then c else (m(s + i := c)) a)"
    by (intro Suc.hyps(1)) arith
  with Suc.hyps(2) show ?case by (subst memset_loop.simps) auto
qed

lemma byte_of_masked_int: "word_of_int (and c 0xff) = (word_of_int c :: u8)"
  by (rule bit_word_eqI) (use bit_mask_iff [where ?'a = int, of 8] in \<open>auto simp: bit_simps mask_eq_exp_minus_1\<close>)

lemma memset_eq: "memset s c n m a = (if s \<le> a \<and> a < s + n then word_of_int c else m a)"
  by (simp add: memset_def memset_loop_eq byte_of_masked_int)

text \<open>The forward loop copies correctly unless the destination starts inside the source.\<close>

lemma memmove_up_eq:
  "d \<le> s \<or> s + n \<le> d \<Longrightarrow>
   memmove_up d s n m a = (if d \<le> a \<and> a < d + n then m (s + (a - d)) else m a)"
proof (induction d s n m rule: memmove_up.induct)
  case (2 d s n m)
  have "memmove_up (d + 1) (s + 1) n (m(d := m s)) a =
      (if d + 1 \<le> a \<and> a < d + 1 + n then (m(d := m s)) (s + 1 + (a - (d + 1))) else (m(d := m s)) a)"
    using "2.prems" by (intro "2.IH") auto
  with "2.prems" show ?case
    by (auto simp: Suc_diff_Suc)
qed auto

lemma memmove_down_eq:
  "s \<le> d \<Longrightarrow>
   memmove_down (d + n) (s + n) n m a = (if d \<le> a \<and> a < d + n then m (s + (a - d)) else m a)"
proof (induction n arbitrary: m)
  case (Suc n)
  from Suc.prems have "memmove_down (d + n) (s + n) n (m(d + n := m (s + n))) a =
      (if d \<le> a \<and> a < d + n then (m(d + n := m (s + n))) (s + (a - d)) else (m(d + n := m (s + n))) a)"
    by (rule Suc.IH)
  with Suc.prems show ?case
    by (auto simp: Let_def less_Suc_eq)
qed auto

lemma memcpy_loop_up: "memcpy_loop d s n i m = memmove_up (d + i) (s + i) (n - i) m"
proof (induction "n - i" arbitrary: i m)
  case 0
  then show ?case by (subst memcpy_loop.simps) auto
next
  case (Suc k)
  then have k: "k = n - Suc i" "i < n" by arith+
  from Suc.hyps(1) [OF k(1)] Suc.hyps(2) [symmetric] k show ?case
    by (subst memcpy_loop.simps) simp
qed

section \<open>String operations\<close>

text \<open>
  \<open>cstr_len s n\<close> is the length of the string at \<open>s\<close> cut at \<open>n\<close> bytes: the number of
  bytes before the first zero, at most \<open>n\<close>.
\<close>

definition cstr_len :: "cstr \<Rightarrow> nat \<Rightarrow> nat" where
  "cstr_len s n = (LEAST k. k = n \<or> s k = 0)"

definition cstr_text :: "cstr \<Rightarrow> nat \<Rightarrow> u8 list" where
  "cstr_text s n = map s [0..<cstr_len s n]"

lemma cstr_len_le: "cstr_len s n \<le> n"
  unfolding cstr_len_def by (rule Least_le) simp

lemma cstr_len_nonzero: "i < cstr_len s n \<Longrightarrow> s i \<noteq> 0"
  unfolding cstr_len_def by (drule not_less_Least) simp

lemma cstr_len_end: "cstr_len s n < n \<Longrightarrow> s (cstr_len s n) = 0"
  unfolding cstr_len_def using LeastI [of "\<lambda>k. k = n \<or> s k = 0" n] by auto

lemma cstr_lenI:
  assumes "k \<le> n" and "\<And>i. i < k \<Longrightarrow> s i \<noteq> 0" and "k = n \<or> s k = 0"
  shows "cstr_len s n = k"
proof (rule antisym)
  show "cstr_len s n \<le> k"
    unfolding cstr_len_def using assms(3) by (rule Least_le)
  show "k \<le> cstr_len s n"
    using assms(1,2) cstr_len_end [of s n] cstr_len_le [of s n] by (metis leI order_less_le_trans)
qed

lemma strncpy_copy_eq:
  assumes "i \<le> cstr_len src n"
  shows "strncpy_copy dest src n i =
    (cstr_len src n, \<lambda>j. if i \<le> j \<and> j < cstr_len src n then src j else dest j)"
  using assms
proof (induction "cstr_len src n - i" arbitrary: i dest)
  case 0
  then have i: "i = cstr_len src n" by simp
  then have "\<not> (i < n \<and> src i \<noteq> 0)"
    using cstr_len_end [of src n] by auto
  with i show ?case by (subst strncpy_copy.simps) (auto simp: fun_eq_iff)
next
  case (Suc k)
  then have lt: "i < cstr_len src n" by simp
  then have "i < n \<and> src i \<noteq> 0"
    using cstr_len_le [of src n] cstr_len_nonzero [of i src n] by auto
  moreover have "strncpy_copy (dest(i := src i)) src n (i + 1) =
      (cstr_len src n, \<lambda>j. if i + 1 \<le> j \<and> j < cstr_len src n then src j else (dest(i := src i)) j)"
    using Suc lt by (intro Suc.hyps) auto
  ultimately show ?case
    using lt by (subst strncpy_copy.simps) (auto simp: fun_eq_iff)
qed

lemma strncpy_pad_eq: "strncpy_pad dest n i j = (if i \<le> j \<and> j < n then 0 else dest j)"
proof (induction "n - i" arbitrary: i dest)
  case 0
  then show ?case by (subst strncpy_pad.simps) auto
next
  case (Suc k)
  have "strncpy_pad (dest(i := 0)) n (i + 1) j = (if i + 1 \<le> j \<and> j < n then 0 else (dest(i := 0)) j)"
    using Suc by (intro Suc.hyps) arith
  with Suc.hyps(2) show ?case by (subst strncpy_pad.simps) auto
qed

lemma strncpy_eq:
  "strncpy dest src n j = (if j < cstr_len src n then src j else if j < n then 0 else dest j)"
  using cstr_len_le [of src n] by (auto simp: strncpy_def strncpy_copy_eq strncpy_pad_eq)

lemma strncmp_loop_zero:
  "strncmp_loop s1 s2 n i = 0 \<longleftrightarrow>
     (\<forall>j. i \<le> j \<and> j < n \<and> (\<forall>k. i \<le> k \<and> k < j \<longrightarrow> s1 k \<noteq> 0) \<longrightarrow> s1 j = s2 j)"
proof (induction "n - i" arbitrary: i)
  case 0
  then show ?case by (subst strncmp_loop.simps) auto
next
  case (Suc k)
  then have lt: "i < n" by simp
  have IH: "strncmp_loop s1 s2 n (i + 1) = 0 \<longleftrightarrow>
     (\<forall>j. i + 1 \<le> j \<and> j < n \<and> (\<forall>k. i + 1 \<le> k \<and> k < j \<longrightarrow> s1 k \<noteq> 0) \<longrightarrow> s1 j = s2 j)"
    using Suc by (intro Suc.hyps) arith
  show ?case
  proof (cases "s1 i = s2 i \<and> s1 i \<noteq> 0")
    case True
    then have "strncmp_loop s1 s2 n i = strncmp_loop s1 s2 n (i + 1)"
      using lt by (subst strncmp_loop.simps) auto
    moreover have "(\<forall>k. i \<le> k \<and> k < j \<longrightarrow> s1 k \<noteq> 0) \<longleftrightarrow> (\<forall>k. i + 1 \<le> k \<and> k < j \<longrightarrow> s1 k \<noteq> 0)" for j
      using True by (simp add: Suc_le_eq) (metis le_neq_implies_less less_imp_le)
    moreover have "i \<le> j \<longleftrightarrow> j = i \<or> i + 1 \<le> j" for j
      by auto
    ultimately show ?thesis
      using IH True by simp blast
  next
    case False
    show ?thesis
    proof (cases "s1 i = s2 i")
      case eq: True
      with False lt have "strncmp_loop s1 s2 n i = 0"
        by (subst strncmp_loop.simps) simp
      moreover have "j = i" if "i \<le> j" "\<forall>k. i \<le> k \<and> k < j \<longrightarrow> s1 k \<noteq> 0" for j
        using that eq False by (metis le_neq_implies_less order_refl)
      ultimately show ?thesis using eq by blast
    next
      case neq: False
      with lt have "strncmp_loop s1 s2 n i \<noteq> 0"
        by (subst strncmp_loop.simps) (simp add: word_uint_eq_iff)
      then show ?thesis using neq lt by force
    qed
  qed
qed

lemma strncmp_zero:
  "strncmp s1 s2 n = 0 \<longleftrightarrow>
     cstr_len s1 n = cstr_len s2 n \<and> (\<forall>j < cstr_len s1 n. s1 j = s2 j)"
  (is "?L \<longleftrightarrow> ?R")
proof -
  have "?L \<longleftrightarrow> (\<forall>j. j < n \<and> (\<forall>k < j. s1 k \<noteq> 0) \<longrightarrow> s1 j = s2 j)"
    by (simp add: strncmp_def strncmp_loop_zero)
  also have "\<dots> \<longleftrightarrow> (\<forall>j. j < n \<and> j \<le> cstr_len s1 n \<longrightarrow> s1 j = s2 j)"
    using cstr_len_nonzero [of _ s1 n] cstr_len_end [of s1 n] cstr_len_le [of s1 n]
    by (smt (verit, best) leI le_less_trans less_le_trans linorder_neqE_nat order_less_imp_le)
  also have "\<dots> \<longleftrightarrow> ?R"
  proof
    assume l: "\<forall>j. j < n \<and> j \<le> cstr_len s1 n \<longrightarrow> s1 j = s2 j"
    then have eq: "s1 j = s2 j" if "j < cstr_len s1 n" for j
      using that cstr_len_le [of s1 n] by auto
    moreover have "cstr_len s2 n = cstr_len s1 n"
    proof (rule cstr_lenI)
      show "s2 i \<noteq> 0" if "i < cstr_len s1 n" for i
        using eq [OF that] cstr_len_nonzero [OF that] by simp
      show "cstr_len s1 n = n \<or> s2 (cstr_len s1 n) = 0"
        using l cstr_len_end [of s1 n] cstr_len_le [of s1 n] by (metis le_neq_implies_less order_refl)
    qed (rule cstr_len_le)
    ultimately show ?R by simp
  next
    assume ?R
    then show "\<forall>j. j < n \<and> j \<le> cstr_len s1 n \<longrightarrow> s1 j = s2 j"
      using cstr_len_end [of s1 n] cstr_len_end [of s2 n] by (metis le_neq_implies_less)
  qed
  finally show ?thesis .
qed

lemma strncmp_text: "strncmp s1 s2 n = 0 \<longleftrightarrow> cstr_text s1 n = cstr_text s2 n"
  unfolding strncmp_zero by (auto simp: cstr_text_def list_eq_iff_nth_eq)

lemma strncpy_text: "cstr_text (strncpy dest src n) n = cstr_text src n"
proof -
  have "cstr_len (strncpy dest src n) n = cstr_len src n"
    using cstr_len_le [of src n] by (intro cstr_lenI) (auto simp: strncpy_eq cstr_len_nonzero)
  then show ?thesis by (simp add: cstr_text_def strncpy_eq)
qed

lemma strlen_loop_eq:
  "\<lbrakk>i \<le> k; s k = 0; \<And>j. i \<le> j \<Longrightarrow> j < k \<Longrightarrow> s j \<noteq> 0\<rbrakk> \<Longrightarrow> strlen_loop s i = Some k"
proof (induction "k - i" arbitrary: i)
  case 0
  then show ?case by (subst strlen_loop.simps) auto
next
  case (Suc d)
  then have "strlen_loop s (i + 1) = Some k"
    by (intro Suc.hyps) auto
  with Suc.hyps(2) Suc.prems show ?case by (subst strlen_loop.simps) auto
qed

section \<open>Properties\<close>

text \<open>
  (C23) \<^verbatim>\<open>memmove\<close> copies the \<open>n\<close> source bytes to the destination and changes nothing
  else, however the two regions overlap: the bytes read are those of the memory before
  the call.
\<close>
theorem memmove_correct:
  "memmove d s n m a = (if d \<le> a \<and> a < d + n then m (s + (a - d)) else m a)"
proof (cases "s < d \<and> d - s < n")
  case True
  then show ?thesis by (simp add: memmove_def memmove_down_eq)
next
  case False
  then have "d \<le> s \<or> s + n \<le> d" by auto
  moreover have "memmove d s n m = memmove_up d s n m"
    using False unfolding memmove_def by (rule if_not_P)
  ultimately show ?thesis by (simp add: memmove_up_eq)
qed

text \<open>
  A name stored with \<^verbatim>\<open>strncpy\<close> compares equal to the original with
  \<^verbatim>\<open>strncmp\<close> at the same bound, whatever the buffer held before and whether or not the
  name is cut off; and two strings compare equal exactly when they agree up to the first
  terminator or the bound.
\<close>
theorem strncpy_strncmp_roundtrip:
  "strncmp (strncpy dest src n) src n = 0 \<and>
   (strncmp s1 s2 n = 0 \<longleftrightarrow> cstr_text s1 n = cstr_text s2 n)"
  by (simp add: strncmp_text strncpy_text)

end
