(* ===== verification/Block_Device.thy ===== *)
theory Block_Device
  imports Kernel_Prelude
begin

text \<open>
  The block device under the file system. \<^verbatim>\<open>src/src/fs/block_device.h\<close> declares it as a
  pair of function pointers, read and write a block of \<^verbatim>\<open>BLOCK_SIZE\<close> bytes; here it is a
  record with the contents of the blocks and the sequence of writes it has received, so
  that a crash can be placed between any two of them (\<open>crash_disk\<close>). A block write is
  atomic. \<^verbatim>\<open>block_device.c\<close> implements the interface on the SD card, whose sectors are
  addressed by 32-bit numbers relative to the partition; \<open>sd_implements_device\<close> shows that
  it does, for block numbers below \<open>2 ^ 32\<close>.
\<close>

section \<open>Layout constants and structures\<close>

abbreviation BLOCK_SIZE :: nat where "BLOCK_SIZE \<equiv> 512"
abbreviation LOG_MAX_SIZE :: nat where "LOG_MAX_SIZE \<equiv> (BLOCK_SIZE - 8) div 8"
abbreviation BIT_PER_BLOCK :: nat where "BIT_PER_BLOCK \<equiv> BLOCK_SIZE * 8"

record super_block =
  sb_num_blocks :: nat
  sb_num_data_blocks :: nat
  sb_num_inodes :: nat
  sb_num_log_blocks :: nat
  sb_log_start :: nat
  sb_inode_start :: nat
  sb_bitmap_start :: nat

section \<open>The device interface\<close>

record device =
  blocks :: "nat \<Rightarrow> u8 list"
  history :: "(nat \<times> u8 list) list"

definition dev_read :: "nat \<Rightarrow> device \<Rightarrow> u8 list" where
  "dev_read block_no d = blocks d block_no"

definition dev_write :: "nat \<Rightarrow> u8 list \<Rightarrow> device \<Rightarrow> device" where
  "dev_write block_no buffer d =
     d\<lparr>blocks := (blocks d)(block_no := buffer), history := history d @ [(block_no, buffer)]\<rparr>"

text \<open>The disk left behind when the machine stops after the writes \<open>ws\<close>.\<close>

definition crash_disk :: "(nat \<Rightarrow> u8 list) \<Rightarrow> (nat \<times> u8 list) list \<Rightarrow> nat \<Rightarrow> u8 list" where
  "crash_disk d ws = foldl (\<lambda>d (b, x). d(b := x)) d ws"

lemma crash_disk_simps [simp]:
  "crash_disk d [] = d"
  "crash_disk d (w # ws) = crash_disk (d(fst w := snd w)) ws"
  "crash_disk d (ws @ vs) = crash_disk (crash_disk d ws) vs"
  by (auto simp: crash_disk_def case_prod_beta)

section \<open>The SD card as the block device\<close>

text \<open>
  A sector transfer: \<^verbatim>\<open>sdrw\<close> writes the buffer to the card when \<^verbatim>\<open>B_DIRTY\<close> is set and
  otherwise fills the buffer from the card, and leaves \<^verbatim>\<open>B_VALID\<close> in the flags. The
  handshake with the controller (\<^verbatim>\<open>driver/sd.c\<close>) is below this model.
\<close>

abbreviation B_VALID :: u32 where "B_VALID \<equiv> 0x2"
abbreviation B_DIRTY :: u32 where "B_DIRTY \<equiv> 0x4"
abbreviation BLOCKNO_OFFSET :: u32 where "BLOCKNO_OFFSET \<equiv> 0x20800"

record buf =
  flags :: u32
  blockno :: u32
  buf_data :: "u8 list"

type_synonym sdcard = "u32 \<Rightarrow> u8 list"

definition sdrw :: "buf \<Rightarrow> sdcard \<Rightarrow> buf \<times> sdcard" where
  "sdrw b sd =
     (if flags b AND B_DIRTY \<noteq> 0
      then (b\<lparr>flags := B_VALID\<rparr>, sd(blockno b := buf_data b))
      else (b\<lparr>flags := B_VALID, buf_data := sd (blockno b)\<rparr>, sd))"

definition sd_read :: "nat \<Rightarrow> sdcard \<Rightarrow> u8 list" where
  "sd_read block_no sd =
     (let b = \<lparr>flags = 0, blockno = of_nat block_no + BLOCKNO_OFFSET, buf_data = []\<rparr>;
          (b, sd) = sdrw b sd
      in buf_data b)"

definition sd_write :: "nat \<Rightarrow> u8 list \<Rightarrow> sdcard \<Rightarrow> sdcard" where
  "sd_write block_no buffer sd =
     (let b = \<lparr>flags = B_DIRTY OR B_VALID, blockno = of_nat block_no + BLOCKNO_OFFSET,
               buf_data = buffer\<rparr>
      in snd (sdrw b sd))"

section \<open>The interface as a contract\<close>

locale block_device =
  fixes rd :: "nat \<Rightarrow> 'd \<Rightarrow> u8 list"
    and wr :: "nat \<Rightarrow> u8 list \<Rightarrow> 'd \<Rightarrow> 'd"
    and in_range :: "nat \<Rightarrow> bool"
  assumes read_write: "in_range b \<Longrightarrow> in_range c \<Longrightarrow> rd c (wr b x d) = (if c = b then x else rd c d)"
begin

lemma write_all_read:
  "in_range b \<Longrightarrow> list_all (\<lambda>w. in_range (fst w)) ws \<Longrightarrow>
   rd b (foldl (\<lambda>d (c, x). wr c x d) d ws) = crash_disk (\<lambda>b. rd b d) ws b"
proof (induction ws rule: rev_induct)
  case (snoc w ws)
  then show ?case by (cases w) (auto simp: read_write)
qed simp

end

interpretation dev: block_device dev_read dev_write "\<lambda>_. True"
  by unfold_locales (simp add: dev_read_def dev_write_def)

lemma sd_read_write:
  assumes "b < 2 ^ 32" and "c < 2 ^ 32"
  shows "sd_read c (sd_write b x sd) = (if c = b then x else sd_read c sd)"
proof -
  have "(of_nat c :: u32) = of_nat b \<longleftrightarrow> c = b"
    using assms by (simp add: word_of_nat_eq_iff take_bit_nat_eq_self)
  then show ?thesis
    by (simp add: sd_read_def sd_write_def sdrw_def)
qed

interpretation sdc: block_device sd_read sd_write "\<lambda>b. b < 2 ^ 32"
  by unfold_locales (rule sd_read_write)

text \<open>
  After any sequence of \<^verbatim>\<open>sd_write\<close> calls, \<^verbatim>\<open>sd_read\<close> returns for every block the
  bytes an ideal array of blocks would hold: the translation to card sectors
  (\<^verbatim>\<open>BLOCKNO_OFFSET\<close>, 32-bit arithmetic) never makes two blocks below \<open>2 ^ 32\<close> collide.
\<close>
theorem sd_implements_device:
  assumes "b < 2 ^ 32" and "list_all (\<lambda>w. fst w < 2 ^ 32) ws"
  shows "sd_read b (foldl (\<lambda>sd (c, x). sd_write c x sd) sd ws) =
    crash_disk (\<lambda>b. sd_read b sd) ws b"
  using assms by (rule sdc.write_all_read)

theorem sd_implements_device_witness:
  "sd_read 7 (foldl (\<lambda>sd (c, x). sd_write c x sd) (\<lambda>_. []) [(7, [1]), (8, [2]), (7, [3])]) =
     crash_disk (\<lambda>b. sd_read b (\<lambda>_. [])) [(7, [1]), (8, [2]), (7, [3])] 7 \<and>
   crash_disk (\<lambda>b. sd_read b (\<lambda>_. [])) [(7, [1]), (8, [2]), (7, [3])] 7 = [3]"
proof
  show "sd_read 7 (foldl (\<lambda>sd (c, x). sd_write c x sd) (\<lambda>_. []) [(7, [1]), (8, [2]), (7, [3])]) =
     crash_disk (\<lambda>b. sd_read b (\<lambda>_. [])) [(7, [1]), (8, [2]), (7, [3])] 7"
    by (rule sd_implements_device) simp_all
qed simp

end
