(* ===== verification/Block_Store.thy ===== *)
theory Block_Store
  imports Block_Device
begin

text \<open>
  The contract of \<^verbatim>\<open>BlockCache\<close> (\<^verbatim>\<open>src/src/fs/cache.h\<close>), the table of function pointers
  through which the inode layer reaches the block cache. A client sees the contents of
  the blocks, the blocks it has acquired and, inside an operation, the list of blocks the
  running transaction has recorded; the context \<open>op_context\<close> carries the number \<open>rm\<close> of
  blocks the operation may still record. The locale states what each call promises and
  derives the two cycles every client is made of: acquire, read, release; and acquire,
  write, \<^verbatim>\<open>sync\<close>, release.
\<close>

record op_context =
  rm :: nat

text \<open>The log list after \<^verbatim>\<open>sync\<close>, and what \<^verbatim>\<open>sync\<close> charges to the context.\<close>

definition log_add :: "op_context option \<Rightarrow> nat \<Rightarrow> nat list \<Rightarrow> nat list" where
  "log_add ctx b L = (if ctx = None \<or> b \<in> set L then L else L @ [b])"

definition charge :: "op_context option \<Rightarrow> nat \<Rightarrow> nat list \<Rightarrow> op_context option" where
  "charge ctx b L = map_option (\<lambda>c. if b \<in> set L then c else c\<lparr>rm := rm c - 1\<rparr>) ctx"

definition has_room :: "op_context option \<Rightarrow> nat \<Rightarrow> nat list \<Rightarrow> bool" where
  "has_room ctx b L \<longleftrightarrow> (case ctx of None \<Rightarrow> True | Some c \<Rightarrow> b \<in> set L \<or> rm c > 0)"

text \<open>Room for \<open>n\<close> more blocks.\<close>

definition room_for :: "op_context option \<Rightarrow> nat \<Rightarrow> bool" where
  "room_for ctx n \<longleftrightarrow> (case ctx of None \<Rightarrow> True | Some c \<Rightarrow> n \<le> rm c)"

lemma room_for_has_room [simp]: "room_for ctx (Suc n) \<Longrightarrow> has_room ctx b L"
  by (auto simp: room_for_def has_room_def split: option.splits)

lemma room_for_charge [simp]: "room_for ctx (Suc n) \<Longrightarrow> room_for (charge ctx b L) n"
  by (auto simp: room_for_def charge_def split: option.splits)

lemma room_for_0 [simp]: "room_for ctx 0"
  by (simp add: room_for_def split: option.splits)

lemma room_for_mono: "room_for ctx n \<Longrightarrow> m \<le> n \<Longrightarrow> room_for ctx m"
  by (auto simp: room_for_def split: option.splits)

lemma room_for_None [simp]: "room_for None n"
  by (simp add: room_for_def)

lemma charge_None [simp]: "charge None b L = None" "charge ctx b L = None \<longleftrightarrow> ctx = None"
  by (auto simp: charge_def)

lemma set_log_add: "set L \<subseteq> set (log_add ctx b L)" "set (log_add ctx b L) \<subseteq> insert b (set L)"
  by (auto simp: log_add_def)

locale block_store =
  fixes acq :: "nat \<Rightarrow> 's \<Rightarrow> (nat \<times> 's) option"
    and dat :: "'s \<Rightarrow> nat \<Rightarrow> u8 list"
    and put :: "nat \<Rightarrow> u8 list \<Rightarrow> 's \<Rightarrow> 's"
    and syn :: "op_context option \<Rightarrow> nat \<Rightarrow> 's \<Rightarrow> (op_context option \<times> 's) option"
    and rel :: "nat \<Rightarrow> 's \<Rightarrow> 's"
    and inv :: "op_context option \<Rightarrow> 's \<Rightarrow> bool"
    and cont :: "'s \<Rightarrow> nat \<Rightarrow> u8 list"
    and hld :: "'s \<Rightarrow> nat \<Rightarrow> nat \<Rightarrow> bool"
    and sav :: "'s \<Rightarrow> nat \<Rightarrow> bool"
    and logd :: "'s \<Rightarrow> nat list"
  assumes acq_law: "inv ctx s \<Longrightarrow> (\<And>q. \<not> hld s q b) \<Longrightarrow>
      \<exists>p s'. acq b s = Some (p, s') \<and> inv ctx s' \<and> cont s' = cont s \<and> logd s' = logd s \<and>
        hld s' = (\<lambda>q c. hld s q c \<or> q = p \<and> c = b) \<and> sav s' = sav s \<and> sav s b"
    and dat_law: "inv ctx s \<Longrightarrow> hld s p b \<Longrightarrow> dat s p = cont s b"
    and hld_block: "inv ctx s \<Longrightarrow> hld s p b \<Longrightarrow> hld s p c \<Longrightarrow> b = c"
    and length_law: "inv ctx s \<Longrightarrow> length (cont s b) = BLOCK_SIZE"
    and put_law: "inv ctx s \<Longrightarrow> hld s p b \<Longrightarrow> length d = BLOCK_SIZE \<Longrightarrow>
      inv ctx (put p d s) \<and> cont (put p d s) = (cont s)(b := d) \<and> hld (put p d s) = hld s \<and>
      logd (put p d s) = logd s \<and> (\<forall>c. c \<noteq> b \<longrightarrow> sav (put p d s) c = sav s c)"
    and syn_law: "inv ctx s \<Longrightarrow> hld s p b \<Longrightarrow> has_room ctx b (logd s) \<Longrightarrow>
      \<exists>s'. syn ctx p s = Some (charge ctx b (logd s), s') \<and> inv (charge ctx b (logd s)) s' \<and>
        cont s' = cont s \<and> hld s' = hld s \<and> logd s' = log_add ctx b (logd s) \<and>
        sav s' b \<and> (\<forall>c. sav s c \<longrightarrow> sav s' c)"
    and rel_law: "inv ctx s \<Longrightarrow> hld s p b \<Longrightarrow> sav s b \<Longrightarrow>
      inv ctx (rel p s) \<and> cont (rel p s) = cont s \<and> logd (rel p s) = logd s \<and>
      hld (rel p s) = (\<lambda>q c. hld s q c \<and> q \<noteq> p) \<and> sav (rel p s) = sav s"
begin

text \<open>What the client sees of \<open>s'\<close> relative to \<open>s\<close>: contents \<open>C\<close>, log \<open>L\<close>, same locks.\<close>

definition after :: "op_context option \<Rightarrow> 's \<Rightarrow> (nat \<Rightarrow> u8 list) \<Rightarrow> nat list \<Rightarrow> 's \<Rightarrow> bool" where
  "after ctx s C L s' \<longleftrightarrow> inv ctx s' \<and> cont s' = C \<and> logd s' = L \<and> hld s' = hld s \<and>
     (\<forall>c. sav s c \<longrightarrow> sav s' c)"

lemma after_refl: "inv ctx s \<Longrightarrow> after ctx s (cont s) (logd s) s"
  by (simp add: after_def)

lemma after_trans: "after ctx s C L s' \<Longrightarrow> after ctx' s' C' L' s'' \<Longrightarrow> after ctx' s C' L' s''"
  by (auto simp: after_def)

lemma release_frame:
  assumes "inv ctx s" and "\<And>q. \<not> hld s q b" and "inv ctx1 s1" and "hld s1 p b"
    and "hld s1 = (\<lambda>q c. hld s q c \<or> q = p \<and> c = b)"
  shows "(\<lambda>q c. hld s1 q c \<and> q \<noteq> p) = hld s"
proof -
  have "\<not> hld s p c" for c
  proof
    assume c: "hld s p c"
    with assms(5) have "hld s1 p c" by simp
    with assms(3,4) have "b = c" by (rule hld_block)
    with assms(2) c show False by simp
  qed
  then show ?thesis by (auto simp: assms(5) fun_eq_iff)
qed

lemma read_cycle:
  assumes inv: "inv ctx s" and free: "\<And>q. \<not> hld s q b"
  obtains p s1 where "acq b s = Some (p, s1)" and "dat s1 p = cont s b" and "hld s1 p b"
    and "inv ctx s1" and "after ctx s (cont s) (logd s) (rel p s1)"
proof -
  obtain p s1 where a: "acq b s = Some (p, s1)" "inv ctx s1" "cont s1 = cont s" "logd s1 = logd s"
      "hld s1 = (\<lambda>q c. hld s q c \<or> q = p \<and> c = b)" "sav s1 = sav s" "sav s b"
    using acq_law [OF assms] by blast
  have h: "hld s1 p b" by (simp add: a(5))
  have "after ctx s (cont s) (logd s) (rel p s1)"
    using rel_law [OF a(2) h] release_frame [OF assms a(2) h a(5)] a by (simp add: after_def)
  with that a h dat_law [OF a(2) h] show thesis by simp
qed

lemma update_cycle:
  assumes inv: "inv ctx s" and free: "\<And>q. \<not> hld s q b" and d: "length d = BLOCK_SIZE"
    and room: "has_room ctx b (logd s)"
  obtains p s1 s2 where "acq b s = Some (p, s1)" and "dat s1 p = cont s b"
    and "syn ctx p (put p d s1) = Some (charge ctx b (logd s), s2)"
    and "after (charge ctx b (logd s)) s ((cont s)(b := d)) (log_add ctx b (logd s)) (rel p s2)"
proof -
  obtain p s1 where a: "acq b s = Some (p, s1)" "inv ctx s1" "cont s1 = cont s" "logd s1 = logd s"
      "hld s1 = (\<lambda>q c. hld s q c \<or> q = p \<and> c = b)" "sav s1 = sav s" "sav s b"
    using acq_law [OF assms(1,2)] by blast
  have h: "hld s1 p b" by (simp add: a(5))
  let ?t = "put p d s1"
  have t: "inv ctx ?t" "cont ?t = (cont s1)(b := d)" "hld ?t = hld s1" "logd ?t = logd s1"
      "\<And>c. c \<noteq> b \<Longrightarrow> sav ?t c = sav s1 c"
    using put_law [OF a(2) h d] by blast+
  obtain s2 where u: "syn ctx p ?t = Some (charge ctx b (logd s), s2)" "inv (charge ctx b (logd s)) s2"
      "cont s2 = cont ?t" "hld s2 = hld s1" "logd s2 = log_add ctx b (logd s)" "sav s2 b"
      "\<And>c. sav ?t c \<Longrightarrow> sav s2 c"
    using syn_law [OF t(1), of p b] h t room a(4) by metis
  have h2: "hld s2 p b" "hld s2 = (\<lambda>q c. hld s q c \<or> q = p \<and> c = b)"
    using u(4) h a(5) by auto
  have "sav s2 c" if "sav s c" for c
    using u(6,7) t(5) a(6) that by (cases "c = b") auto
  then have "after (charge ctx b (logd s)) s ((cont s)(b := d)) (log_add ctx b (logd s)) (rel p s2)"
    using rel_law [OF u(2) h2(1) u(6)] release_frame [OF assms(1,2) u(2) h2]
      u(2,3,5) t(2) a(3) by (simp add: after_def)
  with that a(1) dat_law [OF a(2) h] a(3) u(1) show thesis by simp
qed

end

end
