(* ===== verification/Block_Cache.thy ===== *)
theory Block_Cache
  imports Block_Store
begin

text \<open>
  \<^verbatim>\<open>src/src/fs/cache.c\<close>: the block cache. A \<^verbatim>\<open>Block\<close> structure is a record in a store
  indexed by its address; the list \<^verbatim>\<open>head\<close> is the list \<open>lru\<close> of addresses from
  \<^verbatim>\<open>head.next\<close> to \<^verbatim>\<open>head.prev\<close> (theory \<open>Linked_List\<close> relates the list macros to
  lists). The sleep lock of a block is the value of its semaphore: acquiring it when the
  value is not positive puts the caller to sleep, and the sequential functions below then
  return \<open>None\<close>. \<^verbatim>\<open>kalloc\<close> hands out the fresh address \<open>next_block\<close>.

  The client's view of the cache is \<open>content s b\<close>, the bytes of block \<open>b\<close> as seen
  through the cache, and \<open>held s\<close>, the block numbers it has acquired. \<open>cache_wf\<close> is the
  invariant: at most one cached copy per block, locks consistent with the \<^verbatim>\<open>acquired\<close>
  flags, and every copy that is neither acquired nor pinned equal to the disk, which is
  what makes eviction safe.
\<close>

section \<open>State\<close>

abbreviation OP_MAX_NUM_BLOCKS :: nat where "OP_MAX_NUM_BLOCKS \<equiv> 10"
abbreviation EVICTION_THRESHOLD :: nat where "EVICTION_THRESHOLD \<equiv> 20"
abbreviation SWAP_START :: nat where "SWAP_START \<equiv> 800"
abbreviation SWAP_END :: nat where "SWAP_END \<equiv> 1000"

record block =
  block_no :: nat
  acquired :: bool
  pinned :: bool
  lock :: int
  valid :: bool
  data :: "u8 list"

record log_header =
  num_blocks :: nat
  hdr_block_no :: "nat list"

record log_info =
  committing :: bool
  outstanding :: u32
  op_reserved :: int

record cache_state =
  blk :: "nat \<Rightarrow> block"
  lru :: "nat list"
  next_block :: nat
  header :: log_header
  oplog :: log_info
  dev :: device
  swap_valid :: "bool list"

definition upd_blk :: "nat \<Rightarrow> (block \<Rightarrow> block) \<Rightarrow> cache_state \<Rightarrow> cache_state" where
  "upd_blk p f s = s\<lparr>blk := (blk s)(p := f (blk s p))\<rparr>"

definition set_data :: "nat \<Rightarrow> u8 list \<Rightarrow> cache_state \<Rightarrow> cache_state" where
  "set_data p d = upd_blk p (data_update (\<lambda>_. d))"

section \<open>Device access and block structures\<close>

definition device_read :: "nat \<Rightarrow> cache_state \<Rightarrow> cache_state" where
  "device_read p s = set_data p (dev_read (block_no (blk s p)) (dev s)) s"

definition device_write :: "nat \<Rightarrow> cache_state \<Rightarrow> cache_state" where
  "device_write p s = s\<lparr>dev := dev_write (block_no (blk s p)) (data (blk s p)) (dev s)\<rparr>"

definition init_block :: "block \<Rightarrow> block" where
  "init_block b = b\<lparr>block_no := 0, acquired := False, pinned := False, valid := False,
     lock := 1, data := replicate BLOCK_SIZE 0\<rparr>"

text \<open>\<^verbatim>\<open>unalertable_wait_sem(&bp->lock)\<close> and \<^verbatim>\<open>post_sem(&bp->lock)\<close> on a block's lock.\<close>

definition wait_block :: "nat \<Rightarrow> cache_state \<Rightarrow> cache_state option" where
  "wait_block p s =
     (let s = upd_blk p (\<lambda>b. b\<lparr>lock := lock b - 1\<rparr>) s
      in if lock (blk s p) \<ge> 0 then Some s else None)"

definition post_block :: "nat \<Rightarrow> cache_state \<Rightarrow> cache_state" where
  "post_block p = upd_blk p (\<lambda>b. b\<lparr>lock := lock b + 1\<rparr>)"

definition get_num_cached_blocks :: "cache_state \<Rightarrow> nat" where
  "get_num_cached_blocks s = fold (\<lambda>p cnt. cnt + 1) (lru s) 0"

section \<open>Acquire and release\<close>

definition cache_lookup :: "nat \<Rightarrow> cache_state \<Rightarrow> nat option" where
  "cache_lookup b s = List.find (\<lambda>p. block_no (blk s p) = b) (lru s)"

definition cache_victim :: "cache_state \<Rightarrow> nat option" where
  "cache_victim s =
     (if get_num_cached_blocks s \<ge> EVICTION_THRESHOLD
      then List.find (\<lambda>p. \<not> pinned (blk s p) \<and> \<not> acquired (blk s p)) (rev (lru s))
      else None)"

definition cache_acquire :: "nat \<Rightarrow> cache_state \<Rightarrow> (nat \<times> cache_state) option" where
  "cache_acquire b s =
     (case cache_lookup b s of
        Some bp \<Rightarrow> do {
          s \<leftarrow> wait_block bp (upd_blk bp (acquired_update (\<lambda>_. True)) s);
          Some (bp, s) }
      | None \<Rightarrow>
          (case cache_victim s of
             Some bp \<Rightarrow> do {
               s \<leftarrow> wait_block bp (upd_blk bp (\<lambda>x. x\<lparr>block_no := b, acquired := True\<rparr>) s);
               Some (bp, device_read bp s) }
           | None \<Rightarrow> do {
               let bp = next_block s;
               let s = s\<lparr>next_block := bp + 1\<rparr>;
               let s = upd_blk bp (\<lambda>x. (init_block x)\<lparr>block_no := b\<rparr>) s;
               let s = s\<lparr>lru := bp # lru s\<rparr>;
               s \<leftarrow> wait_block bp (upd_blk bp (acquired_update (\<lambda>_. True)) s);
               let s = device_read bp s;
               Some (bp, upd_blk bp (valid_update (\<lambda>_. True)) s) }))"

definition cache_release :: "nat \<Rightarrow> cache_state \<Rightarrow> cache_state" where
  "cache_release p s =
     (let s = upd_blk p (acquired_update (\<lambda>_. False)) s;
          s = s\<lparr>lru := p # remove1 p (lru s)\<rparr>
      in post_block p s)"

section \<open>Joining a transaction\<close>

text \<open>
  \<^verbatim>\<open>sync\<close> with a context records the block in the in-memory log header and pins it;
  without one it writes the block through to the device. A write past the end of the
  header's array and the \<^verbatim>\<open>PANIC\<close> for an exhausted context are both \<open>None\<close>.
\<close>

definition in_log :: "nat \<Rightarrow> cache_state \<Rightarrow> bool" where
  "in_log b s \<longleftrightarrow> b \<in> set (take (num_blocks (header s)) (hdr_block_no (header s)))"

definition log_append :: "nat \<Rightarrow> cache_state \<Rightarrow> cache_state" where
  "log_append b s = s\<lparr>header := (header s)\<lparr>
     hdr_block_no := (hdr_block_no (header s))[num_blocks (header s) := b],
     num_blocks := num_blocks (header s) + 1\<rparr>\<rparr>"

definition cache_sync ::
  "op_context option \<Rightarrow> nat \<Rightarrow> cache_state \<Rightarrow> (op_context option \<times> cache_state) option" where
  "cache_sync ctx p s =
     (case ctx of
        Some c \<Rightarrow>
          (if in_log (block_no (blk s p)) s then Some (Some c, s)
           else if num_blocks (header s) < length (hdr_block_no (header s)) \<and> rm c > 0 then
             let s = log_append (block_no (blk s p)) s;
                 s = upd_blk p (pinned_update (\<lambda>_. True)) s
             in Some (Some (c\<lparr>rm := rm c - 1\<rparr>),
                  s\<lparr>oplog := (oplog s)\<lparr>op_reserved := op_reserved (oplog s) - 1\<rparr>\<rparr>)
           else None)
      | None \<Rightarrow> Some (None, device_write p s))"

section \<open>The block allocator\<close>

definition BBLOCK :: "nat \<Rightarrow> super_block \<Rightarrow> nat" where
  "BBLOCK b sb = b div BIT_PER_BLOCK + sb_bitmap_start sb"

definition bzero ::
  "op_context option \<Rightarrow> nat \<Rightarrow> cache_state \<Rightarrow> (op_context option \<times> cache_state) option" where
  "bzero ctx b s = do {
     (bp, s) \<leftarrow> cache_acquire b s;
     let s = set_data bp (replicate BLOCK_SIZE 0) s;
     (ctx, s) \<leftarrow> cache_sync ctx bp s;
     Some (ctx, cache_release bp s) }"

definition bit_mask :: "nat \<Rightarrow> u8" where
  "bit_mask bi = push_bit (bi mod 8) 1"

text \<open>The inner loop of \<^verbatim>\<open>cache_alloc\<close>: the first clear bit of a bitmap block.\<close>

function alloc_scan :: "nat \<Rightarrow> nat \<Rightarrow> u8 list \<Rightarrow> nat \<Rightarrow> nat option" where
  "alloc_scan n b d bi =
     (if bi < BIT_PER_BLOCK \<and> b + bi < n then
        if d ! (bi div 8) AND bit_mask bi = 0 then Some bi else alloc_scan n b d (bi + 1)
      else None)"
  by pat_completeness auto
termination by (relation "measure (\<lambda>(n, b, d, bi). BIT_PER_BLOCK - bi)") auto

declare alloc_scan.simps [simp del]

function alloc_from ::
  "super_block \<Rightarrow> op_context option \<Rightarrow> nat \<Rightarrow> cache_state \<Rightarrow>
   (nat \<times> op_context option \<times> cache_state) option" where
  "alloc_from sb ctx b s =
     (if b < sb_num_blocks sb then do {
        (bp, s) \<leftarrow> cache_acquire (BBLOCK b sb) s;
        case alloc_scan (sb_num_blocks sb) b (data (blk s bp)) 0 of
          Some bi \<Rightarrow> do {
            let d = data (blk s bp);
            let s = set_data bp (d[bi div 8 := d ! (bi div 8) OR bit_mask bi]) s;
            (ctx, s) \<leftarrow> cache_sync ctx bp s;
            let s = cache_release bp s;
            (ctx, s) \<leftarrow> bzero ctx (b + bi) s;
            Some (b + bi, ctx, s) }
        | None \<Rightarrow> alloc_from sb ctx (b + BIT_PER_BLOCK) (cache_release bp s) }
      else None)"
  by pat_completeness auto
termination by (relation "measure (\<lambda>(sb, ctx, b, s). sb_num_blocks sb - b)") auto

declare alloc_from.simps [simp del]

definition cache_alloc ::
  "super_block \<Rightarrow> op_context option \<Rightarrow> cache_state \<Rightarrow>
   (nat \<times> op_context option \<times> cache_state) option" where
  "cache_alloc sb ctx s = alloc_from sb ctx 0 s"

definition cache_free ::
  "super_block \<Rightarrow> op_context option \<Rightarrow> nat \<Rightarrow> cache_state \<Rightarrow>
   (op_context option \<times> cache_state) option" where
  "cache_free sb ctx b s = do {
     (bp, s) \<leftarrow> cache_acquire (BBLOCK b sb) s;
     let bi = b mod BIT_PER_BLOCK;
     let d = data (blk s bp);
     if d ! (bi div 8) AND bit_mask bi = 0 then None
     else do {
       let s = set_data bp (d[bi div 8 := d ! (bi div 8) AND NOT (bit_mask bi)]) s;
       (ctx, s) \<leftarrow> cache_sync ctx bp s;
       Some (ctx, cache_release bp s) } }"

section \<open>The client's view and the invariant\<close>

definition cached_nos :: "cache_state \<Rightarrow> nat set" where
  "cached_nos s = (\<lambda>p. block_no (blk s p)) ` set (lru s)"

definition content :: "cache_state \<Rightarrow> nat \<Rightarrow> u8 list" where
  "content s b = (case cache_lookup b s of Some p \<Rightarrow> data (blk s p) | None \<Rightarrow> blocks (dev s) b)"

definition holds :: "cache_state \<Rightarrow> nat \<Rightarrow> nat \<Rightarrow> bool" where
  "holds s p b \<longleftrightarrow> p \<in> set (lru s) \<and> acquired (blk s p) \<and> block_no (blk s p) = b"

definition held :: "cache_state \<Rightarrow> nat set" where
  "held s = {b. \<exists>p. holds s p b}"

definition pins :: "cache_state \<Rightarrow> nat set" where
  "pins s = (\<lambda>p. block_no (blk s p)) ` {p \<in> set (lru s). pinned (blk s p)}"

definition block_ok :: "cache_state \<Rightarrow> nat \<Rightarrow> bool" where
  "block_ok s p \<longleftrightarrow> p < next_block s \<and> lock (blk s p) = (if acquired (blk s p) then 0 else 1) \<and>
     length (data (blk s p)) = BLOCK_SIZE \<and>
     (\<not> acquired (blk s p) \<and> \<not> pinned (blk s p) \<longrightarrow>
        data (blk s p) = blocks (dev s) (block_no (blk s p)))"

definition cache_wf :: "cache_state \<Rightarrow> bool" where
  "cache_wf s \<longleftrightarrow> distinct (lru s) \<and> inj_on (\<lambda>p. block_no (blk s p)) (set (lru s)) \<and>
     (\<forall>p \<in> set (lru s). block_ok s p) \<and> (\<forall>b. length (blocks (dev s) b) = BLOCK_SIZE)"

text \<open>What no cache operation touches: the log header, the log counters, the swap map.\<close>

definition same_log :: "cache_state \<Rightarrow> cache_state \<Rightarrow> bool" where
  "same_log s s' \<longleftrightarrow> header s' = header s \<and> oplog s' = oplog s \<and> swap_valid s' = swap_valid s"

lemma same_log_refl [simp]: "same_log s s"
  by (simp add: same_log_def)

lemma same_log_trans [trans]: "same_log s t \<Longrightarrow> same_log t u \<Longrightarrow> same_log s u"
  by (simp add: same_log_def)

lemma upd_blk_simps [simp]:
  "blk (upd_blk p f s) = (blk s)(p := f (blk s p))" "lru (upd_blk p f s) = lru s"
  "next_block (upd_blk p f s) = next_block s" "header (upd_blk p f s) = header s"
  "oplog (upd_blk p f s) = oplog s" "dev (upd_blk p f s) = dev s"
  "swap_valid (upd_blk p f s) = swap_valid s"
  by (simp_all add: upd_blk_def)

lemma lookup_Some:
  "cache_lookup b s = Some p \<Longrightarrow> p \<in> set (lru s) \<and> block_no (blk s p) = b"
  by (auto simp: cache_lookup_def dest: find_Some_iff)

lemma lookup_None: "cache_lookup b s = None \<longleftrightarrow> b \<notin> cached_nos s"
  by (auto simp: cache_lookup_def find_None_iff' cached_nos_def)

lemma lookup_wf:
  "cache_wf s \<Longrightarrow> p \<in> set (lru s) \<Longrightarrow> block_no (blk s p) = b \<Longrightarrow> cache_lookup b s = Some p"
  unfolding cache_lookup_def cache_wf_def
  by (rule find_SomeI) (auto dest: inj_onD)

lemma content_cached:
  "cache_wf s \<Longrightarrow> p \<in> set (lru s) \<Longrightarrow> block_no (blk s p) = b \<Longrightarrow> content s b = data (blk s p)"
  by (simp add: content_def lookup_wf)

lemma content_uncached: "b \<notin> cached_nos s \<Longrightarrow> content s b = blocks (dev s) b"
  using lookup_None [of b s] by (simp add: content_def)

lemma content_eqI:
  assumes "cache_wf s"
    and "\<And>p. p \<in> set (lru s) \<Longrightarrow> f (block_no (blk s p)) = data (blk s p)"
    and "\<And>b. b \<notin> cached_nos s \<Longrightarrow> f b = blocks (dev s) b"
  shows "content s = f"
proof
  fix b
  show "content s b = f b"
  proof (cases "b \<in> cached_nos s")
    case True
    then obtain p where "p \<in> set (lru s)" "block_no (blk s p) = b"
      by (auto simp: cached_nos_def)
    with assms(1,2) show ?thesis by (auto simp: content_cached)
  qed (simp add: content_uncached assms(3))
qed

lemma content_cong:
  "blk s' = blk s \<Longrightarrow> lru s' = lru s \<Longrightarrow> dev s' = dev s \<Longrightarrow> content s' = content s"
  by (simp add: content_def cache_lookup_def fun_eq_iff cong: option.case_cong)

lemma length_content: "cache_wf s \<Longrightarrow> length (content s b) = BLOCK_SIZE"
  by (cases "cache_lookup b s") (auto simp: content_def cache_wf_def block_ok_def dest: lookup_Some)

lemma holds_content: "cache_wf s \<Longrightarrow> holds s p b \<Longrightarrow> data (blk s p) = content s b"
  by (auto simp: holds_def content_cached)

lemma holds_fun: "cache_wf s \<Longrightarrow> holds s p b \<Longrightarrow> holds s q b \<Longrightarrow> p = q"
  by (auto simp: holds_def cache_wf_def dest: inj_onD)

lemma holds_held: "holds s p b \<Longrightarrow> b \<in> held s"
  by (auto simp: held_def)

text \<open>A block that is neither held nor pinned is seen as it is on disk.\<close>

lemma content_clean:
  assumes "cache_wf s" and "b \<notin> held s" and "b \<notin> pins s"
  shows "content s b = blocks (dev s) b"
proof (cases "b \<in> cached_nos s")
  case True
  then obtain p where p: "p \<in> set (lru s)" "block_no (blk s p) = b"
    by (auto simp: cached_nos_def)
  then have "\<not> acquired (blk s p)" "\<not> pinned (blk s p)"
    using assms(2,3) by (auto simp: held_def holds_def pins_def)
  with assms(1) p show ?thesis
    by (auto simp: content_cached cache_wf_def block_ok_def)
qed (simp add: content_uncached)

lemma pins_cong:
  assumes "set (lru s') = set (lru s)"
    and "\<And>p. p \<in> set (lru s) \<Longrightarrow> block_no (blk s' p) = block_no (blk s p) \<and>
      pinned (blk s' p) = pinned (blk s p)"
  shows "pins s' = pins s"
  unfolding pins_def using assms by (intro image_cong) auto

lemma cached_nos_cong:
  assumes "set (lru s') = set (lru s)"
    and "\<And>p. p \<in> set (lru s) \<Longrightarrow> block_no (blk s' p) = block_no (blk s p)"
  shows "cached_nos s' = cached_nos s"
  unfolding cached_nos_def using assms by (intro image_cong) auto

lemma num_cached: "get_num_cached_blocks s = length (lru s)"
proof -
  have "fold (\<lambda>p cnt. cnt + 1) xs n = n + length xs" for xs :: "nat list" and n :: nat
    by (induction xs arbitrary: n) auto
  then show ?thesis by (simp add: get_num_cached_blocks_def)
qed

section \<open>Contracts of the cache operations\<close>

text \<open>
  \<open>acquired_from s b p s'\<close> is what \<^verbatim>\<open>acquire\<close> promises: the caller holds block \<open>b\<close> at
  address \<open>p\<close>, nothing the client can see has changed, and other holders keep theirs.
\<close>

definition acquired_from :: "cache_state \<Rightarrow> nat \<Rightarrow> nat \<Rightarrow> cache_state \<Rightarrow> bool" where
  "acquired_from s b p s' \<longleftrightarrow> cache_wf s' \<and> holds s' p b \<and> content s' = content s \<and>
     dev s' = dev s \<and> same_log s s' \<and> pins s' = pins s \<and>
     cached_nos s' \<subseteq> insert b (cached_nos s) \<and>
     holds s' = (\<lambda>q c. holds s q c \<or> q = p \<and> c = b)"

text \<open>One block structure changes and keeps its block number.\<close>

lemma block_ok_cong:
  "blk s' q = blk s q \<Longrightarrow> next_block s' = next_block s \<Longrightarrow> dev s' = dev s \<Longrightarrow>
   block_ok s' q = block_ok s q"
  by (simp add: block_ok_def)

lemma wf_upd_blk:
  assumes "cache_wf s" and "p \<in> set (lru s)"
    and "block_no (f (blk s p)) = block_no (blk s p)"
    and "block_ok (upd_blk p f s) p"
  shows "cache_wf (upd_blk p f s)"
proof -
  have "inj_on (\<lambda>q. block_no (blk (upd_blk p f s) q)) (set (lru s))
      = inj_on (\<lambda>q. block_no (blk s q)) (set (lru s))"
    by (rule inj_on_cong) (simp add: assms(3))
  moreover have "block_ok (upd_blk p f s) q" if "q \<in> set (lru s)" for q
  proof (cases "q = p")
    case False
    then have "block_ok (upd_blk p f s) q = block_ok s q"
      by (intro block_ok_cong) auto
    with assms(1) that show ?thesis by (simp add: cache_wf_def)
  qed (use assms(4) in simp)
  ultimately show ?thesis
    using assms(1) by (simp add: cache_wf_def)
qed

lemma content_upd_blk:
  assumes "cache_wf s" and "cache_wf (upd_blk p f s)" and "p \<in> set (lru s)"
    and "block_no (f (blk s p)) = block_no (blk s p)"
  shows "content (upd_blk p f s) = (content s)(block_no (blk s p) := data (f (blk s p)))"
proof (rule content_eqI [OF assms(2)])
  fix q assume "q \<in> set (lru (upd_blk p f s))"
  then have q: "q \<in> set (lru s)" by simp
  show "((content s)(block_no (blk s p) := data (f (blk s p)))) (block_no (blk (upd_blk p f s) q))
      = data (blk (upd_blk p f s) q)"
  proof (cases "q = p")
    case False
    then have "block_no (blk s q) \<noteq> block_no (blk s p)"
      using assms(1,3) q by (auto simp: cache_wf_def dest: inj_onD)
    with False q assms(1) show ?thesis by (simp add: content_cached)
  qed (simp add: assms(4))
next
  fix b assume "b \<notin> cached_nos (upd_blk p f s)"
  moreover have "cached_nos (upd_blk p f s) = cached_nos s"
    unfolding cached_nos_def by (rule image_cong) (simp_all add: assms(4))
  ultimately show "((content s)(block_no (blk s p) := data (f (blk s p)))) b = blocks (dev (upd_blk p f s)) b"
    using assms(3) by (auto simp: content_uncached) (auto simp: cached_nos_def)
qed

lemma holds_upd_blk:
  assumes "block_no (f (blk s p)) = block_no (blk s p)"
    and "acquired (f (blk s p)) = acquired (blk s p)"
  shows "holds (upd_blk p f s) = holds s"
  using assms by (auto simp: holds_def fun_eq_iff)

lemma content_hold: "cache_wf s \<Longrightarrow> p \<in> set (lru s) \<Longrightarrow>
    (content s)(block_no (blk s p) := data (blk s p)) = content s"
  by (simp add: content_cached fun_upd_idem)

lemma acquire_hit:
  assumes "cache_wf s" and "b \<notin> held s" and "cache_lookup b s = Some p"
  shows "\<exists>s'. cache_acquire b s = Some (p, s') \<and> acquired_from s b p s'"
proof -
  have p: "p \<in> set (lru s)" "block_no (blk s p) = b" "\<not> acquired (blk s p)"
    using assms by (auto dest: lookup_Some simp: held_def holds_def)
  have ok: "block_ok s p" 
    using assms(1) p(1) by (simp add: cache_wf_def)
  then have lk: "lock (blk s p) = 1"
    using p(3) by (simp add: block_ok_def)
  let ?f = "\<lambda>x. x\<lparr>acquired := True, lock := 0\<rparr> :: block"
  let ?s = "upd_blk p ?f s"
  have eq: "cache_acquire b s = Some (p, ?s)"
    using assms(3) lk by (simp add: cache_acquire_def wait_block_def upd_blk_def)
  have wf: "cache_wf ?s"
    using assms(1) p(1) by (rule wf_upd_blk) (use ok in \<open>simp_all add: block_ok_def\<close>)
  have "content ?s = content s"
    using content_upd_blk [OF assms(1) wf p(1)] by (simp add: content_hold assms(1) p(1))
  moreover have "holds ?s = (\<lambda>q c. holds s q c \<or> q = p \<and> c = b)"
    using p by (auto simp: holds_def fun_eq_iff)
  moreover have "pins ?s = pins s"
    by (rule pins_cong) auto
  moreover have "cached_nos ?s = cached_nos s"
    by (rule cached_nos_cong) auto
  ultimately show ?thesis
    using eq wf p by (auto simp: acquired_from_def holds_def same_log_def)
qed

text \<open>
  Taking the structure at \<open>p\<close> for block \<open>b\<close>, which no structure caches: \<open>p\<close> is a clean
  victim or a fresh structure put at the head of the list.
\<close>

definition retarget :: "nat \<Rightarrow> nat \<Rightarrow> block \<Rightarrow> cache_state \<Rightarrow> bool" where
  "retarget p b x s \<longleftrightarrow> block_no x = b \<and> acquired x \<and> \<not> pinned x \<and> lock x = 0 \<and> data x = blocks (dev s) b"

lemma retarget_acquired:
  assumes wf: "cache_wf s" and b: "b \<notin> cached_nos s"
    and s': "blk s' = (blk s)(p := x)" "set (lru s') = insert p (set (lru s))" "distinct (lru s')"
      "p < next_block s'" "next_block s \<le> next_block s'" "dev s' = dev s" "same_log s s'"
    and x: "retarget p b x s"
    and clean: "p \<in> set (lru s) \<Longrightarrow> \<not> acquired (blk s p) \<and> \<not> pinned (blk s p)"
  shows "acquired_from s b p s'"
proof -
  have inj: "inj_on (\<lambda>q. block_no (blk s' q)) (set (lru s'))"
    using wf x b s'(1,2) by (auto simp: inj_on_def cache_wf_def retarget_def cached_nos_def image_iff)
  have ok: "block_ok s' q" if "q \<in> set (lru s')" for q
    using that wf x s' by (cases "q = p") (auto simp: cache_wf_def block_ok_def retarget_def)
  have wf': "cache_wf s'"
    using inj ok wf s'(3,6) by (simp add: cache_wf_def)
  have "content s' = content s"
  proof (rule content_eqI [OF wf'])
    fix q assume q: "q \<in> set (lru s')"
    show "content s (block_no (blk s' q)) = data (blk s' q)"
      using q x b s'(1,2) wf by (cases "q = p") (auto simp: retarget_def content_uncached content_cached)
  next
    fix c assume c: "c \<notin> cached_nos s'"
    show "content s c = blocks (dev s') c"
    proof (cases "c \<in> cached_nos s")
      case True
      then obtain q where q: "q \<in> set (lru s)" "block_no (blk s q) = c"
        by (auto simp: cached_nos_def)
      with c s'(1,2) have "q = p"
        by (auto simp: cached_nos_def split: if_splits)
      with q clean wf s'(6) show ?thesis
        by (auto simp: content_cached cache_wf_def block_ok_def)
    qed (simp add: content_uncached s'(6))
  qed
  moreover have h: "holds s' = (\<lambda>q c. holds s q c \<or> q = p \<and> c = b)"
    using x s'(1,2) clean by (auto simp: holds_def retarget_def fun_eq_iff split: if_splits)
  moreover from h have "holds s' p b"
    by simp
  moreover have "cached_nos s' \<subseteq> insert b (cached_nos s)"
    using x s'(1,2) by (auto simp: cached_nos_def retarget_def)
  moreover have "pins s' = pins s"
  proof -
    have "{q \<in> set (lru s'). pinned (blk s' q)} = {q \<in> set (lru s). pinned (blk s q)}"
      using x s'(1,2) clean by (auto simp: retarget_def split: if_splits)
    moreover have "block_no (blk s' q) = block_no (blk s q)" if "q \<in> set (lru s)" "pinned (blk s q)" for q
      using that s'(1) clean by auto
    ultimately show ?thesis unfolding pins_def by (intro image_cong) auto
  qed
  ultimately show ?thesis
    using wf' s'(6,7) by (simp add: acquired_from_def)
qed

lemma acquire_miss:
  assumes wf: "cache_wf s" and miss: "cache_lookup b s = None"
  shows "\<exists>p s'. cache_acquire b s = Some (p, s') \<and> acquired_from s b p s'"
proof (cases "cache_victim s")
  case (Some p)
  then have p: "p \<in> set (lru s)" "\<not> pinned (blk s p)" "\<not> acquired (blk s p)"
    by (auto simp: cache_victim_def dest: find_Some_iff split: if_splits)
  have ok: "block_ok s p"
    using wf p(1) by (simp add: cache_wf_def)
  then have lk: "lock (blk s p) = 1"
    using p(3) by (simp add: block_ok_def)
  let ?x = "(blk s p)\<lparr>block_no := b, acquired := True, lock := 0, data := blocks (dev s) b\<rparr>"
  have eq: "cache_acquire b s = Some (p, s\<lparr>blk := (blk s)(p := ?x)\<rparr>)"
    using miss Some lk
    by (simp add: cache_acquire_def wait_block_def upd_blk_def device_read_def set_data_def dev_read_def)
  have "acquired_from s b p (s\<lparr>blk := (blk s)(p := ?x)\<rparr>)"
    using wf miss [unfolded lookup_None]
    by (rule retarget_acquired [where x = ?x])
      (use wf p ok in \<open>auto simp: cache_wf_def block_ok_def retarget_def same_log_def\<close>)
  with eq show ?thesis by blast
next
  case None
  let ?p = "next_block s"
  let ?x = "(init_block (blk s ?p))\<lparr>block_no := b, acquired := True, lock := 0,
     data := blocks (dev s) b, valid := True\<rparr>"
  let ?s = "s\<lparr>blk := (blk s)(?p := ?x), lru := ?p # lru s, next_block := ?p + 1\<rparr>"
  have eq: "cache_acquire b s = Some (?p, ?s)"
    using miss None
    by (simp add: cache_acquire_def wait_block_def upd_blk_def device_read_def set_data_def
        dev_read_def init_block_def Let_def)
  have fresh: "?p \<notin> set (lru s)"
    using wf by (auto simp: cache_wf_def block_ok_def)
  have "acquired_from s b ?p ?s"
    using wf miss [unfolded lookup_None]
    by (rule retarget_acquired [where x = ?x])
      (use wf fresh in \<open>auto simp: cache_wf_def retarget_def same_log_def init_block_def\<close>)
  with eq show ?thesis by blast
qed

lemma cache_acquire_spec:
  assumes "cache_wf s" and "b \<notin> held s"
  obtains p s' where "cache_acquire b s = Some (p, s')" and "acquired_from s b p s'"
  using acquire_hit [OF assms] acquire_miss [OF assms(1)]
  by (cases "cache_lookup b s") blast+

text \<open>Writing into the buffer of a held block.\<close>

lemma set_data_spec:
  assumes "cache_wf s" and "holds s p b" and "length d = BLOCK_SIZE"
  shows "cache_wf (set_data p d s)" and "content (set_data p d s) = (content s)(b := d)"
    and "holds (set_data p d s) = holds s" and "held (set_data p d s) = held s"
    and "pins (set_data p d s) = pins s" and "dev (set_data p d s) = dev s"
    and "same_log s (set_data p d s)" and "cached_nos (set_data p d s) = cached_nos s"
proof -
  have p: "p \<in> set (lru s)" "acquired (blk s p)" "block_no (blk s p) = b" "block_ok s p"
    using assms(1,2) by (auto simp: holds_def cache_wf_def)
  show wf: "cache_wf (set_data p d s)"
    unfolding set_data_def using assms(1) p(1)
    by (rule wf_upd_blk) (use p assms(3) in \<open>simp_all add: block_ok_def\<close>)
  show "content (set_data p d s) = (content s)(b := d)"
    using content_upd_blk [OF assms(1) wf [unfolded set_data_def] p(1)] p(3)
    by (simp add: set_data_def)
  show h: "holds (set_data p d s) = holds s"
    unfolding set_data_def by (rule holds_upd_blk) simp_all
  show "held (set_data p d s) = held s"
    by (simp add: held_def h)
  show "pins (set_data p d s) = pins s"
    by (rule pins_cong) (auto simp: set_data_def)
  show "cached_nos (set_data p d s) = cached_nos s"
    by (rule cached_nos_cong) (auto simp: set_data_def)
qed (simp_all add: set_data_def same_log_def)

text \<open>Writing a held block through to the device.\<close>

lemma device_write_simps [simp]:
  "blk (device_write p s) = blk s" "lru (device_write p s) = lru s"
  "next_block (device_write p s) = next_block s" "header (device_write p s) = header s"
  "oplog (device_write p s) = oplog s" "swap_valid (device_write p s) = swap_valid s"
  by (simp_all add: device_write_def)

lemma device_write_spec:
  assumes wf: "cache_wf s" and h: "holds s p b"
  shows "cache_wf (device_write p s)" and "content (device_write p s) = content s"
    and "holds (device_write p s) = holds s" and "held (device_write p s) = held s"
    and "pins (device_write p s) = pins s"
    and "dev (device_write p s) = dev_write b (content s b) (dev s)"
    and "same_log s (device_write p s)" and "cached_nos (device_write p s) = cached_nos s"
proof -
  have p: "p \<in> set (lru s)" "acquired (blk s p)" "block_no (blk s p) = b" "block_ok s p"
      "data (blk s p) = content s b"
    using assms by (auto simp: holds_def cache_wf_def content_cached)
  show d: "dev (device_write p s) = dev_write b (content s b) (dev s)"
    using p by (simp add: device_write_def)
  have other: "block_no (blk s q) \<noteq> b" if "q \<in> set (lru s)" "q \<noteq> p" for q
    using that wf p by (auto simp: cache_wf_def dest: inj_onD)
  have "block_ok (device_write p s) q" if "q \<in> set (lru s)" for q
    using that other [OF that] wf p d
    by (cases "q = p") (auto simp: cache_wf_def block_ok_def dev_write_def)
  then show wf': "cache_wf (device_write p s)"
    using wf d length_content [OF wf] by (simp add: cache_wf_def dev_write_def)
  show "content (device_write p s) = content s"
  proof (rule content_eqI [OF wf'])
    fix c assume "c \<notin> cached_nos (device_write p s)"
    then have "c \<notin> cached_nos s" "c \<noteq> b"
      using p by (auto simp: cached_nos_def)
    then show "content s c = blocks (dev (device_write p s)) c"
      using d by (simp add: content_uncached dev_write_def)
  qed (simp add: content_cached wf)
  show "pins (device_write p s) = pins s"
    by (rule pins_cong) simp_all
qed (simp_all add: holds_def held_def fun_eq_iff same_log_def cached_nos_def)

text \<open>
  \<^verbatim>\<open>release\<close> may only be called on a block that is pinned in the log or whose buffer
  agrees with the disk; otherwise the change could be lost to eviction.
\<close>

lemma cache_release_spec:
  assumes wf: "cache_wf s" and h: "holds s p b"
    and clean: "b \<in> pins s \<or> content s b = blocks (dev s) b"
  shows "cache_wf (cache_release p s)" and "content (cache_release p s) = content s"
    and "holds (cache_release p s) = (\<lambda>q c. holds s q c \<and> q \<noteq> p)"
    and "pins (cache_release p s) = pins s"
    and "dev (cache_release p s) = dev s" and "same_log s (cache_release p s)"
    and "cached_nos (cache_release p s) = cached_nos s"
proof -
  have p: "p \<in> set (lru s)" "acquired (blk s p)" "block_no (blk s p) = b" "block_ok s p"
      "data (blk s p) = content s b" "distinct (lru s)"
    using assms by (auto simp: holds_def cache_wf_def content_cached)
  let ?f = "\<lambda>x. x\<lparr>acquired := False, lock := 1\<rparr> :: block"
  let ?t = "upd_blk p ?f s"
  have rel: "cache_release p s = ?t\<lparr>lru := p # remove1 p (lru s)\<rparr>"
    using p(2,4) by (simp add: cache_release_def post_block_def upd_blk_def block_ok_def Let_def)
  have st: "set (p # remove1 p (lru s)) = set (lru s)" "distinct (p # remove1 p (lru s))"
    using p(1,6) by (auto simp: set_remove1_distinct)
  have pin: "pinned (blk s p) \<or> data (blk s p) = blocks (dev s) b"
    using clean wf p by (auto simp: pins_def cache_wf_def dest: inj_onD)
  have wft: "cache_wf ?t"
    using wf p(1) by (rule wf_upd_blk) (use p pin in \<open>auto simp: block_ok_def\<close>)
  have "block_ok (cache_release p s) q" if "q \<in> set (lru s)" for q
    using wft that by (simp add: cache_wf_def block_ok_def rel)
  then show wf': "cache_wf (cache_release p s)"
    using wft st by (simp add: cache_wf_def rel)
  show cn: "cached_nos (cache_release p s) = cached_nos s"
    by (rule cached_nos_cong) (use st(1) in \<open>auto simp: rel\<close>)
  show "content (cache_release p s) = content s"
  proof (rule content_eqI [OF wf'])
    fix q assume "q \<in> set (lru (cache_release p s))"
    then have "q \<in> set (lru s)" using st(1) by (auto simp: rel)
    then show "content s (block_no (blk (cache_release p s) q)) = data (blk (cache_release p s) q)"
      by (cases "q = p") (simp_all add: rel content_cached wf)
  next
    fix c assume "c \<notin> cached_nos (cache_release p s)"
    then show "content s c = blocks (dev (cache_release p s)) c"
      unfolding cn by (simp add: rel content_uncached)
  qed
  show "holds (cache_release p s) = (\<lambda>q c. holds s q c \<and> q \<noteq> p)"
    using st(1) by (auto simp: rel holds_def fun_eq_iff)
  show "pins (cache_release p s) = pins s"
    by (rule pins_cong) (use st in \<open>auto simp: rel\<close>)
qed (simp_all add: cache_release_def post_block_def same_log_def)

section \<open>Transactions: the log list and the context budget\<close>

definition log_list :: "cache_state \<Rightarrow> nat list" where
  "log_list s = take (num_blocks (header s)) (hdr_block_no (header s))"

definition log_wf :: "cache_state \<Rightarrow> bool" where
  "log_wf s \<longleftrightarrow> length (hdr_block_no (header s)) = LOG_MAX_SIZE \<and>
     num_blocks (header s) \<le> LOG_MAX_SIZE \<and> distinct (log_list s) \<and> pins s = set (log_list s)"

text \<open>
  \<open>cache_inv ctx s\<close>: the invariant inside the operation \<open>ctx\<close>. The log has room for what
  the operation may still record (theory \<open>Log_Protocol\<close> shows that \<^verbatim>\<open>begin_op\<close> ensures it).
\<close>

definition cache_inv :: "op_context option \<Rightarrow> cache_state \<Rightarrow> bool" where
  "cache_inv ctx s \<longleftrightarrow> cache_wf s \<and> log_wf s \<and>
     (case ctx of None \<Rightarrow> True | Some c \<Rightarrow> num_blocks (header s) + rm c \<le> LOG_MAX_SIZE)"

definition saved :: "cache_state \<Rightarrow> nat \<Rightarrow> bool" where
  "saved s b \<longleftrightarrow> b \<in> pins s \<or> content s b = blocks (dev s) b"

lemma in_log_iff: "in_log b s \<longleftrightarrow> b \<in> set (log_list s)"
  by (simp add: in_log_def log_list_def)

lemma same_log_list: "same_log s s' \<Longrightarrow> log_list s' = log_list s"
  by (simp add: same_log_def log_list_def)

lemma cache_inv_cong:
  "cache_inv ctx s \<Longrightarrow> cache_wf s' \<Longrightarrow> same_log s s' \<Longrightarrow> pins s' = pins s \<Longrightarrow> cache_inv ctx s'"
  using same_log_list [of s s']
  by (auto simp: cache_inv_def log_wf_def same_log_def split: option.splits)

lemma sync_logged:
  assumes "holds s p b" and "b \<in> set (log_list s)"
  shows "cache_sync (Some c) p s = Some (Some c, s)"
  using assms by (simp add: cache_sync_def in_log_iff holds_def)

lemma log_append_list:
  assumes "num_blocks (header s) < length (hdr_block_no (header s))"
  shows "log_list (log_append b s) = log_list s @ [b]"
  using assms by (simp add: log_list_def log_append_def take_Suc_conv_app_nth)

lemma sync_new:
  assumes inv: "cache_inv (Some c) s" and h: "holds s p b" and "b \<notin> set (log_list s)" "rm c > 0"
  obtains s' where "cache_sync (Some c) p s = Some (Some (c\<lparr>rm := rm c - 1\<rparr>), s')"
    and "cache_inv (Some (c\<lparr>rm := rm c - 1\<rparr>)) s'" and "content s' = content s"
    and "holds s' = holds s" and "log_list s' = log_list s @ [b]" and "pins s' = insert b (pins s)"
    and "dev s' = dev s"
    and "oplog s' = (oplog s)\<lparr>op_reserved := op_reserved (oplog s) - 1\<rparr>"
proof -
  have p: "p \<in> set (lru s)" "acquired (blk s p)" "block_no (blk s p) = b" "cache_wf s" "log_wf s"
    using inv h by (auto simp: holds_def cache_inv_def)
  have room: "num_blocks (header s) < length (hdr_block_no (header s))"
    using inv assms(4) by (auto simp: cache_inv_def log_wf_def)
  define t where "t = upd_blk p (pinned_update (\<lambda>_. True)) (log_append b s)"
  define s' where "s' = t\<lparr>oplog := (oplog t)\<lparr>op_reserved := op_reserved (oplog t) - 1\<rparr>\<rparr>"
  define u where "u = upd_blk p (pinned_update (\<lambda>_. True)) s"
  have eq: "blk s' = blk u" "lru s' = lru u" "next_block s' = next_block u" "dev s' = dev u"
    "log_list s' = log_list s @ [b]" "header s' = header (log_append b s)"
    using log_append_list [OF room, of b]
    by (simp_all add: s'_def t_def u_def log_append_def log_list_def)
  have wfu: "cache_wf u"
    unfolding u_def using p(4,1) by (rule wf_upd_blk) (use p in \<open>auto simp: cache_wf_def block_ok_def\<close>)
  have wf: "cache_wf s'"
    using wfu by (simp add: cache_wf_def block_ok_def eq)
  have "content s' = content u"
    by (rule content_cong) (simp_all add: eq)
  also have "\<dots> = content s"
    using content_upd_blk [OF p(4) wfu [unfolded u_def] p(1)]
    by (simp add: u_def content_hold [OF p(4,1)])
  finally have cont: "content s' = content s" .
  have "holds s' = holds u"
    by (simp add: holds_def eq fun_eq_iff)
  also have "\<dots> = holds s"
    unfolding u_def by (rule holds_upd_blk) simp_all
  finally have hold: "holds s' = holds s" .
  have pins: "pins s' = insert b (pins s)"
    using p(1,3) by (auto simp: pins_def eq u_def image_iff)
  have "log_wf s'"
    using p(5) room assms(3) unfolding log_wf_def pins eq(5,6) by (simp add: log_append_def)
  then have inv': "cache_inv (Some (c\<lparr>rm := rm c - 1\<rparr>)) s'"
    using inv wf assms(4) by (simp add: cache_inv_def eq(6) log_append_def)
  have "cache_sync (Some c) p s = Some (Some (c\<lparr>rm := rm c - 1\<rparr>), s')"
    using p(3) room assms(3,4) by (simp add: cache_sync_def in_log_iff s'_def t_def Let_def)
  then show thesis
    using that inv' cont hold pins eq(4,5) by (simp add: s'_def t_def u_def log_append_def)
qed

lemma not_held: "b \<notin> held s \<longleftrightarrow> (\<forall>q. \<not> holds s q b)"
  by (auto simp: held_def)

lemma acquire_inv:
  assumes inv: "cache_inv ctx s" and free: "\<And>q. \<not> holds s q b"
  shows "\<exists>p s'. cache_acquire b s = Some (p, s') \<and> cache_inv ctx s' \<and> content s' = content s \<and>
    log_list s' = log_list s \<and> holds s' = (\<lambda>q c. holds s q c \<or> q = p \<and> c = b) \<and>
    saved s' = saved s \<and> saved s b"
proof -
  have wf: "cache_wf s" and nh: "b \<notin> held s"
    using inv free by (auto simp: cache_inv_def not_held)
  then obtain p s' where s': "cache_acquire b s = Some (p, s')" "acquired_from s b p s'"
    by (rule cache_acquire_spec)
  then have f: "cache_wf s'" "content s' = content s" "dev s' = dev s" "same_log s s'"
      "pins s' = pins s" "holds s' = (\<lambda>q c. holds s q c \<or> q = p \<and> c = b)"
    by (auto simp: acquired_from_def)
  have "saved s' = saved s"
    using f by (simp add: saved_def fun_eq_iff)
  moreover have "saved s b"
    using content_clean [OF wf nh] by (auto simp: saved_def)
  ultimately show ?thesis
    using s'(1) f(2,6) same_log_list [OF f(4)] cache_inv_cong [OF inv f(1,4,5)] by blast
qed

lemma put_inv:
  assumes inv: "cache_inv ctx s" and h: "holds s p b" and d: "length d = BLOCK_SIZE"
  shows "cache_inv ctx (set_data p d s) \<and> content (set_data p d s) = (content s)(b := d) \<and>
    holds (set_data p d s) = holds s \<and> log_list (set_data p d s) = log_list s \<and>
    (\<forall>c. c \<noteq> b \<longrightarrow> saved (set_data p d s) c = saved s c)"
proof -
  have wf: "cache_wf s" using inv by (simp add: cache_inv_def)
  note spec = set_data_spec [OF wf h d]
  show ?thesis
    using cache_inv_cong [OF inv spec(1) spec(7) spec(5)] spec same_log_list [OF spec(7)]
    by (simp add: saved_def)
qed

lemma sync_inv:
  assumes inv: "cache_inv ctx s" and h: "holds s p b" and room: "has_room ctx b (log_list s)"
  shows "\<exists>s'. cache_sync ctx p s = Some (charge ctx b (log_list s), s') \<and>
    cache_inv (charge ctx b (log_list s)) s' \<and> content s' = content s \<and> holds s' = holds s \<and>
    log_list s' = log_add ctx b (log_list s) \<and> saved s' b \<and> (\<forall>c. saved s c \<longrightarrow> saved s' c)"
proof -
  have wf: "cache_wf s" and lw: "log_wf s" using inv by (auto simp: cache_inv_def)
  consider "ctx = None" | c where "ctx = Some c" "b \<in> set (log_list s)"
    | c where "ctx = Some c" "b \<notin> set (log_list s)" "rm c > 0"
    using room by (auto simp: has_room_def split: option.splits)
  then show ?thesis
  proof cases
    case 1
    note spec = device_write_spec [OF wf h]
    show ?thesis
      using 1 cache_inv_cong [OF inv spec(1) spec(7) spec(5)] spec same_log_list [OF spec(7)]
      by (auto simp: cache_sync_def log_add_def saved_def dev_write_def)
  next
    case 2
    then show ?thesis
      using sync_logged [OF h] inv lw
      by (auto simp: charge_def log_add_def saved_def log_wf_def)
  next
    case 3
    obtain s' where "cache_sync (Some c) p s = Some (Some (c\<lparr>rm := rm c - 1\<rparr>), s')"
      "cache_inv (Some (c\<lparr>rm := rm c - 1\<rparr>)) s'" "content s' = content s" "holds s' = holds s"
      "log_list s' = log_list s @ [b]" "pins s' = insert b (pins s)" "dev s' = dev s"
      using sync_new [OF _ h 3(2,3)] inv 3(1) by metis
    with 3 show ?thesis
      by (auto simp: charge_def log_add_def saved_def)
  qed
qed

lemma release_inv:
  assumes inv: "cache_inv ctx s" and h: "holds s p b" and sv: "saved s b"
  shows "cache_inv ctx (cache_release p s) \<and> content (cache_release p s) = content s \<and>
    log_list (cache_release p s) = log_list s \<and>
    holds (cache_release p s) = (\<lambda>q c. holds s q c \<and> q \<noteq> p) \<and>
    saved (cache_release p s) = saved s"
proof -
  have wf: "cache_wf s" using inv by (simp add: cache_inv_def)
  note spec = cache_release_spec [OF wf h sv [unfolded saved_def]]
  show ?thesis
    using cache_inv_cong [OF inv spec(1) spec(6) spec(4)] spec same_log_list [OF spec(6)]
    by (simp add: saved_def fun_eq_iff)
qed

text \<open>The cache provides the interface \<^verbatim>\<open>BlockCache\<close>.\<close>

interpretation bc: block_store cache_acquire "\<lambda>s p. data (blk s p)" set_data cache_sync
  cache_release cache_inv content holds saved log_list
proof unfold_locales
  show "data (blk s p) = content s b" if "cache_inv ctx s" "holds s p b" for ctx s p b
    using that by (simp add: cache_inv_def holds_content)
  show "b = c" if "cache_inv ctx s" "holds s p b" "holds s p c" for ctx s p b c
    using that by (simp add: holds_def)
  show "length (content s b) = BLOCK_SIZE" if "cache_inv ctx s" for ctx s b
    using that by (simp add: cache_inv_def length_content)
qed (fact acquire_inv put_inv sync_inv release_inv)+

text \<open>The cache before its first use: empty list, empty log, all counters zero.\<close>

definition cold_cache :: "device \<Rightarrow> cache_state" where
  "cold_cache d = \<lparr>blk = (\<lambda>_. \<lparr>block_no = 0, acquired = False, pinned = False, lock = 0,
       valid = False, data = []\<rparr>), lru = [], next_block = 0,
     header = \<lparr>num_blocks = 0, hdr_block_no = replicate LOG_MAX_SIZE 0\<rparr>,
     oplog = \<lparr>committing = False, outstanding = 0, op_reserved = 0\<rparr>, dev = d,
     swap_valid = replicate (SWAP_END - SWAP_START) False\<rparr>"

definition dev_wf :: "device \<Rightarrow> bool" where
  "dev_wf d \<longleftrightarrow> (\<forall>b. length (blocks d b) = BLOCK_SIZE)"

lemma cold_cache_simps [simp]:
  "lru (cold_cache d) = []" "dev (cold_cache d) = d" "num_blocks (header (cold_cache d)) = 0"
  "log_list (cold_cache d) = []" "content (cold_cache d) = blocks d" "holds (cold_cache d) p b = False"
  "pins (cold_cache d) = {}" "oplog (cold_cache d) = \<lparr>committing = False, outstanding = 0, op_reserved = 0\<rparr>"
  by (simp_all add: cold_cache_def log_list_def content_def cache_lookup_def holds_def pins_def fun_eq_iff)

lemma cold_cache_inv:
  "dev_wf d \<Longrightarrow> (case ctx of None \<Rightarrow> True | Some c \<Rightarrow> rm c \<le> LOG_MAX_SIZE) \<Longrightarrow> cache_inv ctx (cold_cache d)"
  by (auto simp: cache_inv_def cache_wf_def log_wf_def dev_wf_def split: option.splits)
    (simp add: cold_cache_def)+

end
