(* ===== verification/Block_Alloc.thy ===== *)
theory Block_Alloc
  imports Block_Cache
begin

text \<open>
  The block allocator of \<^verbatim>\<open>src/src/fs/cache.c\<close> (\<^verbatim>\<open>cache_alloc\<close>, \<^verbatim>\<open>cache_free\<close>, \<^verbatim>\<open>bzero\<close>),
  which the theory \<open>Block_Cache\<close> defines, against an abstract allocator on the contents of
  the blocks: \<open>alloc_spec\<close> takes the lowest block whose bitmap bit is clear, sets the bit
  and zeroes the block; \<open>free_spec\<close> clears the bit of an allocated block.
\<close>

section \<open>The abstract allocator\<close>

definition bit_clear :: "nat \<Rightarrow> u8 list \<Rightarrow> bool" where
  "bit_clear bi d \<longleftrightarrow> d ! (bi div 8) AND bit_mask bi = 0"

definition set_bitmap :: "nat \<Rightarrow> u8 list \<Rightarrow> u8 list" where
  "set_bitmap bi d = d[bi div 8 := d ! (bi div 8) OR bit_mask bi]"

definition clear_bitmap :: "nat \<Rightarrow> u8 list \<Rightarrow> u8 list" where
  "clear_bitmap bi d = d[bi div 8 := d ! (bi div 8) AND NOT (bit_mask bi)]"

definition free_block :: "super_block \<Rightarrow> (nat \<Rightarrow> u8 list) \<Rightarrow> nat \<Rightarrow> bool" where
  "free_block sb C b \<longleftrightarrow> bit_clear (b mod BIT_PER_BLOCK) (C (BBLOCK b sb))"

definition mark_block :: "super_block \<Rightarrow> nat \<Rightarrow> (nat \<Rightarrow> u8 list) \<Rightarrow> nat \<Rightarrow> u8 list" where
  "mark_block sb b C = C(BBLOCK b sb := set_bitmap (b mod BIT_PER_BLOCK) (C (BBLOCK b sb)))"

definition zero_block :: "nat \<Rightarrow> (nat \<Rightarrow> u8 list) \<Rightarrow> nat \<Rightarrow> u8 list" where
  "zero_block b C = C(b := replicate BLOCK_SIZE 0)"

definition first_free :: "super_block \<Rightarrow> (nat \<Rightarrow> u8 list) \<Rightarrow> nat option" where
  "first_free sb C = List.find (free_block sb C) [0..<sb_num_blocks sb]"

definition alloc_spec ::
  "super_block \<Rightarrow> (nat \<Rightarrow> u8 list) \<Rightarrow> (nat \<times> (nat \<Rightarrow> u8 list)) option" where
  "alloc_spec sb C = map_option (\<lambda>r. (r, zero_block r (mark_block sb r C))) (first_free sb C)"

definition free_spec :: "super_block \<Rightarrow> nat \<Rightarrow> (nat \<Rightarrow> u8 list) \<Rightarrow> (nat \<Rightarrow> u8 list) option" where
  "free_spec sb b C =
     (if free_block sb C b then None
      else Some (C(BBLOCK b sb := clear_bitmap (b mod BIT_PER_BLOCK) (C (BBLOCK b sb)))))"

section \<open>Bits of a bitmap block\<close>

lemma bit_mask_bit: "bit (bit_mask i) k \<longleftrightarrow> k = i mod 8 \<and> k < 8"
  by (auto simp: bit_mask_def bit_exp_iff)

lemma bit_clear_iff: "bit_clear i d \<longleftrightarrow> \<not> bit (d ! (i div 8)) (i mod 8)"
proof
  assume "bit_clear i d"
  then have "\<not> bit (d ! (i div 8) AND bit_mask i) (i mod 8)"
    by (simp add: bit_clear_def)
  then show "\<not> bit (d ! (i div 8)) (i mod 8)"
    by (simp add: bit_and_iff bit_mask_bit)
next
  assume "\<not> bit (d ! (i div 8)) (i mod 8)"
  then show "bit_clear i d"
    unfolding bit_clear_def by (intro bit_word_eqI) (auto simp: bit_and_iff bit_mask_bit)
qed

lemma set_bitmap_clear:
  assumes "i div 8 < length d" and "j div 8 < length d"
  shows "bit_clear j (set_bitmap i d) \<longleftrightarrow> bit_clear j d \<and> j \<noteq> i"
proof -
  have "j = i \<longleftrightarrow> j div 8 = i div 8 \<and> j mod 8 = i mod 8"
    by (metis div_mult_mod_eq)
  then show ?thesis
    using assms by (auto simp: bit_clear_iff set_bitmap_def nth_list_update bit_or_iff bit_mask_bit)
qed

lemma clear_bitmap_clear:
  assumes "i div 8 < length d" and "j div 8 < length d"
  shows "bit_clear j (clear_bitmap i d) \<longleftrightarrow> bit_clear j d \<or> j = i"
proof -
  have "j = i \<longleftrightarrow> j div 8 = i div 8 \<and> j mod 8 = i mod 8"
    by (metis div_mult_mod_eq)
  then show ?thesis
    using assms
    by (auto simp: bit_clear_iff clear_bitmap_def nth_list_update bit_and_iff bit_not_iff bit_mask_bit)
qed

lemma clear_set_bitmap: "bit_clear i d \<Longrightarrow> clear_bitmap i (set_bitmap i d) = d"
proof -
  assume "bit_clear i d"
  then have "(d ! (i div 8) OR bit_mask i) AND NOT (bit_mask i) = d ! (i div 8)"
    by (intro bit_word_eqI) (auto simp: bit_clear_iff bit_and_iff bit_or_iff bit_not_iff bit_mask_bit)
  then show ?thesis
    by (cases "i div 8 < length d") (simp_all add: clear_bitmap_def set_bitmap_def list_update_beyond)
qed

lemma length_set_bitmap [simp]: "length (set_bitmap i d) = length d"
  by (simp add: set_bitmap_def)

lemma length_clear_bitmap [simp]: "length (clear_bitmap i d) = length d"
  by (simp add: clear_bitmap_def)

section \<open>The scan\<close>

lemma alloc_scan_find:
  "map_option ((+) b) (alloc_scan n b d bi) =
     List.find (\<lambda>x. bit_clear (x - b) d) [b + bi..<min n (b + BIT_PER_BLOCK)]"
proof (induction "BIT_PER_BLOCK - bi" arbitrary: bi)
  case 0
  then show ?case by (subst alloc_scan.simps) simp
next
  case (Suc k)
  show ?case
  proof (cases "b + bi < n \<and> bi < BIT_PER_BLOCK")
    case True
    then have "[b + bi..<min n (b + BIT_PER_BLOCK)] = (b + bi) # [b + Suc bi..<min n (b + BIT_PER_BLOCK)]"
      by (simp add: upt_conv_Cons)
    moreover have "map_option ((+) b) (alloc_scan n b d (Suc bi)) =
        List.find (\<lambda>x. bit_clear (x - b) d) [b + Suc bi..<min n (b + BIT_PER_BLOCK)]"
      using Suc.hyps(2) by (intro Suc.hyps(1)) simp
    ultimately show ?thesis
      using True by (subst alloc_scan.simps) (simp add: bit_clear_def)
  next
    case False
    then show ?thesis by (subst alloc_scan.simps) auto
  qed
qed

lemma BBLOCK_chunk:
  assumes "BIT_PER_BLOCK dvd b" and "b \<le> x" and "x < b + BIT_PER_BLOCK"
  shows "BBLOCK x sb = BBLOCK b sb" and "x mod BIT_PER_BLOCK = x - b"
proof -
  from assms(1) obtain k where k: "b = BIT_PER_BLOCK * k" ..
  define y where "y = x - b"
  have x: "x = BIT_PER_BLOCK * k + y" "y < BIT_PER_BLOCK"
    using assms k by (auto simp: y_def)
  then show "BBLOCK x sb = BBLOCK b sb" "x mod BIT_PER_BLOCK = x - b"
    by (simp_all add: BBLOCK_def k)
qed

text \<open>One bitmap block of the search, in terms of the abstract predicate.\<close>

lemma scan_chunk:
  assumes "BIT_PER_BLOCK dvd b"
  shows "map_option ((+) b) (alloc_scan n b (C (BBLOCK b sb)) 0) =
    List.find (free_block sb C) [b..<min n (b + BIT_PER_BLOCK)]"
proof -
  have "bit_clear (x - b) (C (BBLOCK b sb)) = free_block sb C x"
    if "x \<in> set [b..<min n (b + BIT_PER_BLOCK)]" for x
  proof -
    from that have x: "b \<le> x" "x < b + BIT_PER_BLOCK" by simp_all
    show ?thesis unfolding free_block_def BBLOCK_chunk [OF assms x] ..
  qed
  then show ?thesis
    unfolding alloc_scan_find add_0_right by (rule find_cong_set)
qed

section \<open>Refinement\<close>

lemma bzero_spec:
  assumes inv: "cache_inv ctx s" and free: "\<And>q. \<not> holds s q b" and room: "has_room ctx b (log_list s)"
  obtains s' where "bzero ctx b s = Some (charge ctx b (log_list s), s')"
    and "bc.after (charge ctx b (log_list s)) s (zero_block b (content s)) (log_add ctx b (log_list s)) s'"
proof -
  obtain p s1 s2 where u: "cache_acquire b s = Some (p, s1)"
      "cache_sync ctx p (set_data p (replicate BLOCK_SIZE 0) s1) = Some (charge ctx b (log_list s), s2)"
      "bc.after (charge ctx b (log_list s)) s ((content s)(b := replicate BLOCK_SIZE 0))
         (log_add ctx b (log_list s)) (cache_release p s2)"
    by (rule bc.update_cycle [OF inv free _ room, of "replicate BLOCK_SIZE 0"]) simp
  show thesis
    by (rule that [of "cache_release p s2"]) (simp_all add: bzero_def u zero_block_def)
qed

text \<open>
  What the caller must not hold: a bitmap block, or a block that is still free.
\<close>

definition alloc_ready :: "super_block \<Rightarrow> cache_state \<Rightarrow> bool" where
  "alloc_ready sb s \<longleftrightarrow> (\<forall>b < sb_num_blocks sb. \<forall>q. \<not> holds s q (BBLOCK b sb) \<and>
     (free_block sb (content s) b \<longrightarrow> \<not> holds s q b))"

definition alloc_logs :: "super_block \<Rightarrow> nat \<Rightarrow> op_context option \<Rightarrow> nat list \<Rightarrow> nat list" where
  "alloc_logs sb r ctx L = log_add ctx r (log_add ctx (BBLOCK r sb) L)"

definition alloc_ctx :: "super_block \<Rightarrow> nat \<Rightarrow> op_context option \<Rightarrow> nat list \<Rightarrow> op_context option" where
  "alloc_ctx sb r ctx L = charge (charge ctx (BBLOCK r sb) L) r (log_add ctx (BBLOCK r sb) L)"

lemma log_add_charge [simp]: "log_add (charge ctx c L') b L = log_add ctx b L"
  by (simp add: log_add_def)

text \<open>The step taken in the bitmap block that has a clear bit.\<close>

lemma alloc_hit:
  assumes inv: "cache_inv ctx s" and rdy: "alloc_ready sb s" and room: "room_for ctx 2"
    and r: "r < sb_num_blocks sb" "free_block sb (content s) r"
  obtains p s1 s2 s3 where "cache_acquire (BBLOCK r sb) s = Some (p, s1)"
    and "data (blk s1 p) = content s (BBLOCK r sb)"
    and "cache_sync ctx p (set_data p (set_bitmap (r mod BIT_PER_BLOCK) (content s (BBLOCK r sb))) s1) =
       Some (charge ctx (BBLOCK r sb) (log_list s), s2)"
    and "bzero (charge ctx (BBLOCK r sb) (log_list s)) r (cache_release p s2) =
       Some (alloc_ctx sb r ctx (log_list s), s3)"
    and "bc.after (alloc_ctx sb r ctx (log_list s)) s (zero_block r (mark_block sb r (content s)))
       (alloc_logs sb r ctx (log_list s)) s3"
proof -
  let ?B = "BBLOCK r sb" and ?L = "log_list s"
  let ?c1 = "charge ctx ?B ?L" and ?L1 = "log_add ctx ?B ?L"
  have room1: "has_room ctx ?B ?L" "has_room ?c1 r ?L1"
    using room by (auto intro: room_for_has_room room_for_charge simp: numeral_2_eq_2)
  obtain p s1 s2 where u: "cache_acquire ?B s = Some (p, s1)" "data (blk s1 p) = content s ?B"
      "cache_sync ctx p (set_data p (set_bitmap (r mod BIT_PER_BLOCK) (content s ?B)) s1) = Some (?c1, s2)"
      "bc.after ?c1 s (mark_block sb r (content s)) ?L1 (cache_release p s2)"
    using bc.update_cycle [OF inv _ _ room1(1), of "set_bitmap (r mod BIT_PER_BLOCK) (content s ?B)"]
      rdy r bc.length_law [OF inv] by (auto simp: alloc_ready_def mark_block_def)
  have t: "cache_inv ?c1 (cache_release p s2)" "log_list (cache_release p s2) = ?L1"
      "\<And>q. \<not> holds (cache_release p s2) q r" "content (cache_release p s2) = mark_block sb r (content s)"
    using u(4) rdy r by (auto simp: bc.after_def alloc_ready_def)
  obtain s3 where v: "bzero ?c1 r (cache_release p s2) = Some (charge ?c1 r ?L1, s3)"
      "bc.after (charge ?c1 r ?L1) (cache_release p s2) (zero_block r (mark_block sb r (content s)))
         (log_add ctx r ?L1) s3"
    using bzero_spec [OF t(1,3)] room1(2) t(2,4) by auto
  show thesis
    using that [OF u(1-3), of s3] v bc.after_trans [OF u(4) v(2)]
    by (simp add: alloc_ctx_def alloc_logs_def)
qed

definition allocated_from ::
  "super_block \<Rightarrow> op_context option \<Rightarrow> cache_state \<Rightarrow> nat option \<Rightarrow>
   (nat \<times> op_context option \<times> cache_state) option \<Rightarrow> bool" where
  "allocated_from sb ctx s found res \<longleftrightarrow>
     (case found of
        None \<Rightarrow> res = None
      | Some r \<Rightarrow> \<exists>s'. res = Some (r, alloc_ctx sb r ctx (log_list s), s') \<and>
          bc.after (alloc_ctx sb r ctx (log_list s)) s (zero_block r (mark_block sb r (content s)))
            (alloc_logs sb r ctx (log_list s)) s')"

lemma allocated_from_after:
  "bc.after ctx s (content s) (log_list s) s' \<Longrightarrow> allocated_from sb ctx s' f res \<Longrightarrow>
   allocated_from sb ctx s f res"
  by (auto simp: allocated_from_def bc.after_def split: option.splits)

lemma alloc_from_spec:
  assumes "BIT_PER_BLOCK dvd b" and "cache_inv ctx s" and "alloc_ready sb s" and "room_for ctx 2"
  shows "allocated_from sb ctx s (List.find (free_block sb (content s)) [b..<sb_num_blocks sb])
    (alloc_from sb ctx b s)"
  using assms(1-3)
proof (induction "sb_num_blocks sb - b" arbitrary: b s rule: less_induct)
  case less
  let ?n = "sb_num_blocks sb" and ?b' = "b + BIT_PER_BLOCK"
  show ?case
  proof (cases "b < ?n")
    case False
    then show ?thesis by (simp add: alloc_from.simps allocated_from_def)
  next
    case True
    then have free: "\<not> holds s q (BBLOCK b sb)" for q
      using less.prems(3) by (simp add: alloc_ready_def)
    have split: "[b..<?n] = [b..<min ?n ?b'] @ [min ?n ?b'..<?n]"
      using upt_add_eq_append [of b "min ?n ?b'" "?n - min ?n ?b'"] True by simp
    have chunk: "List.find (free_block sb (content s)) [b..<min ?n ?b'] =
        map_option ((+) b) (alloc_scan ?n b (content s (BBLOCK b sb)) 0)"
      by (rule scan_chunk [OF less.prems(1), symmetric])
    show ?thesis
    proof (cases "alloc_scan ?n b (content s (BBLOCK b sb)) 0")
      case None
      obtain p s1 where r: "cache_acquire (BBLOCK b sb) s = Some (p, s1)"
          "data (blk s1 p) = content s (BBLOCK b sb)"
          "bc.after ctx s (content s) (log_list s) (cache_release p s1)"
        using bc.read_cycle [OF less.prems(2) free] by metis
      have t: "cache_inv ctx (cache_release p s1)" "content (cache_release p s1) = content s"
          "alloc_ready sb (cache_release p s1)"
        using r(3) less.prems(3) by (auto simp: bc.after_def alloc_ready_def)
      have "alloc_from sb ctx b s = alloc_from sb ctx ?b' (cache_release p s1)"
        using True None r by (simp add: alloc_from.simps [of sb ctx b])
      moreover have "List.find (free_block sb (content s)) [b..<?n] =
          List.find (free_block sb (content s)) [?b'..<?n]"
        using chunk None by (simp add: split find_append min_def)
      moreover have "allocated_from sb ctx (cache_release p s1)
          (List.find (free_block sb (content s)) [?b'..<?n]) (alloc_from sb ctx ?b' (cache_release p s1))"
        using less.hyps [of ?b' "cache_release p s1"] less.prems(1) t True by simp
      ultimately show ?thesis
        using allocated_from_after [OF r(3)] by simp
    next
      case (Some bi)
      let ?r = "b + bi"
      have found: "List.find (free_block sb (content s)) [b..<min ?n ?b'] = Some ?r"
        using chunk Some by simp
      then have r: "?r < ?n" "bi < BIT_PER_BLOCK" "free_block sb (content s) ?r"
        by (auto dest: find_Some_iff)
      have B: "BBLOCK ?r sb = BBLOCK b sb" "?r mod BIT_PER_BLOCK = bi"
        using BBLOCK_chunk [OF less.prems(1), of ?r] r(2) by auto
      obtain p s1 s2 s3 where h: "cache_acquire (BBLOCK b sb) s = Some (p, s1)"
          "data (blk s1 p) = content s (BBLOCK b sb)"
          "cache_sync ctx p (set_data p (set_bitmap bi (content s (BBLOCK b sb))) s1) =
             Some (charge ctx (BBLOCK b sb) (log_list s), s2)"
          "bzero (charge ctx (BBLOCK b sb) (log_list s)) ?r (cache_release p s2) =
             Some (alloc_ctx sb ?r ctx (log_list s), s3)"
          "bc.after (alloc_ctx sb ?r ctx (log_list s)) s (zero_block ?r (mark_block sb ?r (content s)))
             (alloc_logs sb ?r ctx (log_list s)) s3"
        using alloc_hit [OF less.prems(2,3) assms(4) r(1,3)] unfolding B by metis
      have "alloc_from sb ctx b s = Some (?r, alloc_ctx sb ?r ctx (log_list s), s3)"
        using True Some h by (simp add: alloc_from.simps [of sb ctx b] set_bitmap_def)
      then show ?thesis
        using found h(5) by (simp add: split find_append allocated_from_def)
    qed
  qed
qed

lemma cache_alloc_spec:
  assumes "cache_inv ctx s" and "alloc_ready sb s" and "room_for ctx 2"
  shows "allocated_from sb ctx s (first_free sb (content s)) (cache_alloc sb ctx s)"
  unfolding first_free_def cache_alloc_def using assms by (intro alloc_from_spec) simp_all

lemma cache_free_spec:
  assumes inv: "cache_inv ctx s" and free: "\<And>q. \<not> holds s q (BBLOCK b sb)"
    and room: "has_room ctx (BBLOCK b sb) (log_list s)"
  shows "case free_spec sb b (content s) of
      None \<Rightarrow> cache_free sb ctx b s = None
    | Some C \<Rightarrow> \<exists>s'. cache_free sb ctx b s = Some (charge ctx (BBLOCK b sb) (log_list s), s') \<and>
        bc.after (charge ctx (BBLOCK b sb) (log_list s)) s C (log_add ctx (BBLOCK b sb) (log_list s)) s'"
proof -
  let ?bi = "b mod BIT_PER_BLOCK" and ?B = "BBLOCK b sb"
  obtain p s1 s2 where u: "cache_acquire ?B s = Some (p, s1)" "data (blk s1 p) = content s ?B"
      "cache_sync ctx p (set_data p (clear_bitmap ?bi (content s ?B)) s1) =
         Some (charge ctx ?B (log_list s), s2)"
      "bc.after (charge ctx ?B (log_list s)) s ((content s)(?B := clear_bitmap ?bi (content s ?B)))
         (log_add ctx ?B (log_list s)) (cache_release p s2)"
    using bc.update_cycle [OF inv free _ room, of "clear_bitmap ?bi (content s ?B)"]
      bc.length_law [OF inv] by (metis length_clear_bitmap)
  show ?thesis
    using u by (auto simp: free_spec_def free_block_def bit_clear_def cache_free_def clear_bitmap_def Let_def)
qed

section \<open>Properties\<close>

text \<open>
  (C22) \<^verbatim>\<open>cache_alloc\<close> implements the abstract allocator. Called with room for two more
  blocks in its operation, it returns the lowest block whose bitmap bit is clear, and the
  contents seen afterwards are the old ones with that bit set and that block zeroed; when
  every bit is set it stops in \<^verbatim>\<open>PANIC\<close>. The cache invariant and the set of held blocks
  survive.
\<close>
theorem cache_alloc_refines:
  assumes "cache_inv ctx s" and "alloc_ready sb s" and "room_for ctx 2"
  shows "map_option (\<lambda>(r, ctx', s'). (r, content s', cache_inv ctx' s' \<and> holds s' = holds s))
      (cache_alloc sb ctx s) =
    map_option (\<lambda>(r, C). (r, C, True)) (alloc_spec sb (content s))"
  using cache_alloc_spec [OF assms]
  by (cases "first_free sb (content s)") (auto simp: allocated_from_def alloc_spec_def bc.after_def)

definition small_sb :: super_block where
  "small_sb = \<lparr>sb_num_blocks = 8, sb_num_data_blocks = 2, sb_num_inodes = 8,
     sb_num_log_blocks = 3, sb_log_start = 3, sb_inode_start = 1, sb_bitmap_start = 2\<rparr>"

definition small_disk :: device where
  "small_disk = \<lparr>blocks = (\<lambda>b. if b = 2 then replicate BLOCK_SIZE 0x3F else replicate BLOCK_SIZE 0),
     history = []\<rparr>"

lemma small_start: "cache_inv (Some \<lparr>rm = 10\<rparr>) (cold_cache small_disk)"
  by (rule cold_cache_inv) (auto simp: dev_wf_def small_disk_def)

lemma small_first_free: "first_free small_sb (blocks small_disk) = Some 6"
  by (simp add: first_free_def small_sb_def free_block_def bit_clear_def BBLOCK_def small_disk_def
      bit_mask_def upt_rec)

theorem cache_alloc_refines_witness:
  "map_option fst (cache_alloc small_sb (Some \<lparr>rm = 10\<rparr>) (cold_cache small_disk)) = Some 6"
proof -
  have "map_option (\<lambda>(r, ctx', s'). (r, content s',
        cache_inv ctx' s' \<and> holds s' = holds (cold_cache small_disk)))
      (cache_alloc small_sb (Some \<lparr>rm = 10\<rparr>) (cold_cache small_disk)) =
    map_option (\<lambda>(r, C). (r, C, True)) (alloc_spec small_sb (content (cold_cache small_disk)))"
    by (rule cache_alloc_refines [OF small_start]) (simp_all add: alloc_ready_def room_for_def)
  then show ?thesis
    by (auto simp: alloc_spec_def small_first_free)
qed

text \<open>The bitmap blocks are themselves marked as used, as \<^verbatim>\<open>mkfs\<close> leaves them.\<close>

definition bitmap_marked :: "super_block \<Rightarrow> (nat \<Rightarrow> u8 list) \<Rightarrow> bool" where
  "bitmap_marked sb C \<longleftrightarrow>
     (\<forall>b < sb_num_blocks sb. BBLOCK b sb < sb_num_blocks sb \<longrightarrow> \<not> free_block sb C (BBLOCK b sb))"

lemma BBLOCK_inj:
  "BBLOCK b sb = BBLOCK c sb \<Longrightarrow> b mod BIT_PER_BLOCK = c mod BIT_PER_BLOCK \<Longrightarrow> b = c"
  by (metis BBLOCK_def add_right_cancel div_mult_mod_eq)

lemma free_block_mark:
  assumes "\<And>b. length (C b) = BLOCK_SIZE"
  shows "free_block sb (mark_block sb r C) c \<longleftrightarrow> free_block sb C c \<and> c \<noteq> r"
proof (cases "BBLOCK c sb = BBLOCK r sb")
  case True
  then have "c mod BIT_PER_BLOCK = r mod BIT_PER_BLOCK \<longleftrightarrow> c = r"
    using BBLOCK_inj by blast
  moreover have "x mod BIT_PER_BLOCK div 8 < BLOCK_SIZE" for x :: nat
    by (simp add: less_mult_imp_div_less)
  ultimately show ?thesis
    using True by (simp add: free_block_def mark_block_def set_bitmap_clear assms)
next
  case False
  then show ?thesis by (auto simp: free_block_def mark_block_def)
qed

lemma free_block_zero:
  "BBLOCK c sb \<noteq> r \<Longrightarrow> free_block sb (zero_block r C) c = free_block sb C c"
  by (simp add: free_block_def zero_block_def)

lemma first_freeD:
  "first_free sb C = Some r \<Longrightarrow> r < sb_num_blocks sb \<and> free_block sb C r"
  by (auto simp: first_free_def dest: find_Some_iff)

lemma marked_not_free:
  "bitmap_marked sb C \<Longrightarrow> first_free sb C = Some r \<Longrightarrow> c < sb_num_blocks sb \<Longrightarrow> BBLOCK c sb \<noteq> r"
  using first_freeD by (auto simp: bitmap_marked_def)

lemma cache_allocD:
  assumes "cache_inv ctx s" and "alloc_ready sb s" and "room_for ctx 2"
    and "cache_alloc sb ctx s = Some (r, ctx', s')"
  shows "first_free sb (content s) = Some r" and "ctx' = alloc_ctx sb r ctx (log_list s)"
    and "bc.after ctx' s (zero_block r (mark_block sb r (content s))) (alloc_logs sb r ctx (log_list s)) s'"
  using cache_alloc_spec [OF assms(1-3)] assms(4)
  by (auto simp: allocated_from_def split: option.splits)

text \<open>
  A block is never handed out twice. When the bitmap blocks are marked as used, a
  successful \<^verbatim>\<open>cache_alloc\<close> returns a block inside the disk that was free, delivers it
  zeroed, and afterwards exactly the other free blocks are still free; every block other
  than the result and its bitmap block keeps its contents, and the bitmap blocks stay
  marked.
\<close>
theorem cache_alloc_fresh:
  assumes "cache_inv ctx s" and "alloc_ready sb s" and "room_for ctx 2"
    and "bitmap_marked sb (content s)" and "cache_alloc sb ctx s = Some (r, ctx', s')"
  shows "r < sb_num_blocks sb \<and> free_block sb (content s) r \<and>
    content s' r = replicate BLOCK_SIZE 0 \<and>
    (\<forall>c < sb_num_blocks sb. free_block sb (content s') c \<longleftrightarrow> free_block sb (content s) c \<and> c \<noteq> r) \<and>
    (\<forall>c. c \<noteq> r \<longrightarrow> c \<noteq> BBLOCK r sb \<longrightarrow> content s' c = content s c) \<and>
    bitmap_marked sb (content s')"
proof -
  note alloc = cache_allocD [OF assms(1-3,5)]
  have C: "content s' = zero_block r (mark_block sb r (content s))"
    using alloc(3) by (simp add: bc.after_def)
  have len: "length (content s b) = BLOCK_SIZE" for b
    by (rule bc.length_law [OF assms(1)])
  have fr: "free_block sb (content s') c \<longleftrightarrow> free_block sb (content s) c \<and> c \<noteq> r"
    if "c < sb_num_blocks sb" for c
    using marked_not_free [OF assms(4) alloc(1) that]
    by (simp only: C free_block_zero free_block_mark [OF len] simp_thms)
  then have "bitmap_marked sb (content s')"
    using assms(4) by (simp add: bitmap_marked_def)
  with fr first_freeD [OF alloc(1)] show ?thesis
    by (simp add: C zero_block_def mark_block_def)
qed

lemma small_marked: "bitmap_marked small_sb (blocks small_disk)"
proof -
  have "BBLOCK b small_sb = 2" if "b < 8" for b
    using that by (simp add: BBLOCK_def small_sb_def)
  moreover have "\<not> free_block small_sb (blocks small_disk) 2"
    by (simp add: free_block_def bit_clear_def BBLOCK_def small_sb_def small_disk_def bit_mask_def)
  ultimately show ?thesis
    by (simp add: bitmap_marked_def small_sb_def)
qed

lemma small_alloc:
  obtains ctx' s' where "cache_alloc small_sb (Some \<lparr>rm = 10\<rparr>) (cold_cache small_disk) = Some (6, ctx', s')"
  using cache_alloc_spec [OF small_start, of small_sb]
  by (auto simp: allocated_from_def alloc_ready_def room_for_def small_first_free)

theorem cache_alloc_fresh_witness:
  "\<exists>ctx' s'. cache_alloc small_sb (Some \<lparr>rm = 10\<rparr>) (cold_cache small_disk) = Some (6, ctx', s') \<and>
     \<not> free_block small_sb (content s') 6 \<and> content s' 6 = replicate BLOCK_SIZE 0"
proof -
  obtain ctx' s' where
    a: "cache_alloc small_sb (Some \<lparr>rm = 10\<rparr>) (cold_cache small_disk) = Some (6, ctx', s')"
    by (rule small_alloc)
  have "alloc_ready small_sb (cold_cache small_disk)"
    by (simp add: alloc_ready_def)
  from cache_alloc_fresh [OF small_start this _ _ a] show ?thesis
    using a by (auto simp: room_for_def small_marked)
qed

lemma charge_logged: "b \<in> set L \<Longrightarrow> charge ctx b L = ctx"
  by (cases ctx) (simp_all add: charge_def)

text \<open>
  Freeing undoes allocating. A block just returned by \<^verbatim>\<open>cache_alloc\<close> can be given back
  in the same operation without recording another block, and afterwards every block, the
  bitmap included, reads as before the allocation, except that the block itself is zeroed.
\<close>
theorem cache_alloc_free_roundtrip:
  assumes "cache_inv ctx s" and "alloc_ready sb s" and "room_for ctx 2"
    and "bitmap_marked sb (content s)" and "cache_alloc sb ctx s = Some (r, ctx1, s1)"
  shows "\<exists>s2. cache_free sb ctx1 r s1 = Some (ctx1, s2) \<and> content s2 = zero_block r (content s) \<and>
    log_list s2 = log_list s1 \<and> cache_inv ctx1 s2"
proof -
  note alloc = cache_allocD [OF assms(1-3,5)]
  let ?B = "BBLOCK r sb" and ?C = "content s"
  have r: "r < sb_num_blocks sb" "free_block sb ?C r" "?B \<noteq> r"
    using first_freeD [OF alloc(1)] marked_not_free [OF assms(4) alloc(1)] by auto
  have s1: "cache_inv ctx1 s1" "content s1 = zero_block r (mark_block sb r ?C)"
      "log_list s1 = alloc_logs sb r ctx (log_list s)" "\<And>q. \<not> holds s1 q ?B"
    using alloc(3) assms(2) r(1) by (auto simp: bc.after_def alloc_ready_def)
  have nf: "\<not> free_block sb (content s1) r"
    using r(3) free_block_mark [of ?C sb r r] bc.length_law [OF assms(1)]
    by (simp add: s1(2) free_block_zero)
  have lg: "ctx1 = None \<or> ?B \<in> set (log_list s1)"
    by (auto simp: s1(3) alloc(2) alloc_ctx_def alloc_logs_def log_add_def)
  then have room: "has_room ctx1 ?B (log_list s1)"
    by (auto simp: has_room_def split: option.splits)
  have undo: "(content s1)(?B := clear_bitmap (r mod BIT_PER_BLOCK) (content s1 ?B)) = zero_block r ?C"
    using r(2,3) by (simp add: s1(2) zero_block_def mark_block_def free_block_def clear_set_bitmap fun_upd_twist)
  have ch: "charge ctx1 ?B (log_list s1) = ctx1" "log_add ctx1 ?B (log_list s1) = log_list s1"
    using lg by (auto simp: charge_logged log_add_def)
  show ?thesis
    using cache_free_spec [OF s1(1,4) room] nf unfolding ch free_spec_def undo
    by (auto simp: bc.after_def)
qed

theorem cache_alloc_free_roundtrip_witness:
  "\<exists>ctx1 s1 s2. cache_alloc small_sb (Some \<lparr>rm = 10\<rparr>) (cold_cache small_disk) = Some (6, ctx1, s1) \<and>
     cache_free small_sb ctx1 6 s1 = Some (ctx1, s2) \<and> content s2 2 = blocks small_disk 2"
proof -
  obtain ctx1 s1 where
    a: "cache_alloc small_sb (Some \<lparr>rm = 10\<rparr>) (cold_cache small_disk) = Some (6, ctx1, s1)"
    by (rule small_alloc)
  have "alloc_ready small_sb (cold_cache small_disk)"
    by (simp add: alloc_ready_def)
  from cache_alloc_free_roundtrip [OF small_start this _ _ a] show ?thesis
    using a by (auto simp: room_for_def small_marked zero_block_def)
qed

end
