(* ===== verification/Cache_Log.thy ===== *)
theory Cache_Log
  imports Block_Cache
begin

text \<open>
  The write-ahead log of \<^verbatim>\<open>src/src/fs/cache.c\<close>: the on-disk header, \<^verbatim>\<open>install_trans\<close>,
  \<^verbatim>\<open>recover_from_log\<close>, \<^verbatim>\<open>write_log\<close> and \<^verbatim>\<open>commit\<close>. The device records its writes in
  order, so a crash is a prefix of them; the theorems at the end show that \<^verbatim>\<open>commit\<close>
  followed by a crash anywhere and by recovery leaves either all or none of the
  transaction on disk, and that recovery itself may crash and be repeated.
\<close>

section \<open>The log header on disk\<close>

definition encode_header :: "log_header \<Rightarrow> u8 list" where
  "encode_header h = le_bytes 8 (num_blocks h) @ concat (map (le_bytes 8) (hdr_block_no h))"

definition decode_header :: "u8 list \<Rightarrow> log_header" where
  "decode_header d = \<lparr>num_blocks = le_nat (get_bytes 0 8 d),
     hdr_block_no = map (\<lambda>i. le_nat (get_bytes (8 + 8 * i) 8 d)) [0..<LOG_MAX_SIZE]\<rparr>"

definition read_header :: "super_block \<Rightarrow> cache_state \<Rightarrow> cache_state" where
  "read_header sb s = s\<lparr>header := decode_header (dev_read (sb_log_start sb) (dev s))\<rparr>"

definition write_header :: "super_block \<Rightarrow> cache_state \<Rightarrow> cache_state" where
  "write_header sb s = s\<lparr>dev := dev_write (sb_log_start sb) (encode_header (header s)) (dev s)\<rparr>"

section \<open>Installing, recovering, committing\<close>

text \<open>
  The bodies of the two copying loops. Reading \<^verbatim>\<open>header.block_no\<close> past its end is
  undefined and stops the model.
\<close>

definition install_one :: "super_block \<Rightarrow> nat \<Rightarrow> cache_state \<Rightarrow> cache_state option" where
  "install_one sb tail s =
     (if tail < length (hdr_block_no (header s)) then do {
        (from, s) \<leftarrow> cache_acquire (sb_log_start sb + tail + 1) s;
        (to, s) \<leftarrow> cache_acquire (hdr_block_no (header s) ! tail) s;
        let s = set_data to (data (blk s from)) s;
        let s = device_write to s;
        let s = upd_blk to (pinned_update (\<lambda>_. False)) s;
        let s = cache_release from s;
        Some (cache_release to s) }
      else None)"

definition install_trans :: "super_block \<Rightarrow> cache_state \<Rightarrow> cache_state option" where
  "install_trans sb s = for_each (install_one sb) [0..<num_blocks (header s)] s"

definition clear_header :: "cache_state \<Rightarrow> cache_state" where
  "clear_header s = s\<lparr>header := (header s)\<lparr>num_blocks := 0\<rparr>\<rparr>"

definition recover_from_log :: "super_block \<Rightarrow> cache_state \<Rightarrow> cache_state option" where
  "recover_from_log sb s = do {
     let s = read_header sb s;
     s \<leftarrow> install_trans sb s;
     let s = clear_header s;
     Some (write_header sb s) }"

definition write_one :: "super_block \<Rightarrow> nat \<Rightarrow> cache_state \<Rightarrow> cache_state option" where
  "write_one sb tail s =
     (if tail < length (hdr_block_no (header s)) then do {
        (to, s) \<leftarrow> cache_acquire (sb_log_start sb + tail + 1) s;
        (from, s) \<leftarrow> cache_acquire (hdr_block_no (header s) ! tail) s;
        let s = set_data to (data (blk s from)) s;
        let s = device_write to s;
        let s = cache_release from s;
        Some (cache_release to s) }
      else None)"

definition write_log :: "super_block \<Rightarrow> cache_state \<Rightarrow> cache_state option" where
  "write_log sb s = for_each (write_one sb) [0..<num_blocks (header s)] s"

definition commit :: "super_block \<Rightarrow> cache_state \<Rightarrow> cache_state option" where
  "commit sb s =
     (if num_blocks (header s) > 0 then do {
        s \<leftarrow> write_log sb s;
        let s = write_header sb s;
        s \<leftarrow> install_trans sb s;
        let s = clear_header s;
        Some (write_header sb s) }
      else Some s)"

section \<open>Header round trip\<close>

lemma length_concat_le_bytes: "length (concat (map (le_bytes k) xs)) = k * length xs"
  by (induction xs) auto

lemma length_encode_header [simp]:
  "length (hdr_block_no h) = LOG_MAX_SIZE \<Longrightarrow> length (encode_header h) = BLOCK_SIZE"
  by (simp add: encode_header_def length_concat_le_bytes)

definition header_ok :: "log_header \<Rightarrow> bool" where
  "header_ok h \<longleftrightarrow> length (hdr_block_no h) = LOG_MAX_SIZE \<and> num_blocks h \<le> LOG_MAX_SIZE \<and>
     list_all (\<lambda>b. b < 2 ^ 64) (hdr_block_no h)"

lemma header_roundtrip: "header_ok h \<Longrightarrow> decode_header (encode_header h) = h"
proof -
  assume h: "header_ok h"
  let ?xs = "hdr_block_no h"
  have "get_bytes 0 8 (encode_header h) = le_bytes 8 (num_blocks h)"
    by (simp add: encode_header_def get_bytes_def)
  moreover have "num_blocks h < 256 ^ 8"
    using h by (simp add: header_ok_def)
  ultimately have n: "le_nat (get_bytes 0 8 (encode_header h)) = num_blocks h"
    by (simp only: le_nat_le_bytes_small)
  have x: "le_nat (get_bytes (8 + 8 * i) 8 (encode_header h)) = ?xs ! i" if "i < LOG_MAX_SIZE" for i
  proof -
    have i: "i < length ?xs" using h that by (simp add: header_ok_def)
    have "get_bytes (8 + 8 * i) 8 (encode_header h) = get_bytes (8 * i) 8 (concat (map (le_bytes 8) ?xs))"
      by (simp add: encode_header_def get_bytes_def)
    also have "\<dots> = le_bytes 8 (?xs ! i)"
      by (rule get_bytes_concat [OF i, where ys = "[]", unfolded append_Nil2])
    finally have eq: "get_bytes (8 + 8 * i) 8 (encode_header h) = le_bytes 8 (?xs ! i)" .
    have "?xs ! i < 2 ^ 64"
      using h i by (simp add: header_ok_def list_all_length)
    then have "?xs ! i < 256 ^ 8" by simp
    then show ?thesis by (simp only: eq le_nat_le_bytes_small)
  qed
  have "map (\<lambda>i. le_nat (get_bytes (8 + 8 * i) 8 (encode_header h))) [0..<LOG_MAX_SIZE] = ?xs"
  proof (rule nth_equalityI)
    show "length (map (\<lambda>i. le_nat (get_bytes (8 + 8 * i) 8 (encode_header h))) [0..<LOG_MAX_SIZE]) = length ?xs"
      using h by (simp add: header_ok_def)
  next
    fix i assume "i < length (map (\<lambda>i. le_nat (get_bytes (8 + 8 * i) 8 (encode_header h))) [0..<LOG_MAX_SIZE])"
    then have i: "i < LOG_MAX_SIZE" by (simp only: length_map length_upt diff_zero)
    then show "map (\<lambda>i. le_nat (get_bytes (8 + 8 * i) 8 (encode_header h))) [0..<LOG_MAX_SIZE] ! i = ?xs ! i"
      using x [OF i] by (simp only: nth_map length_upt diff_zero nth_upt add_0)
  qed
  with n show ?thesis
    unfolding decode_header_def by simp
qed

section \<open>One step of the copying loops\<close>

text \<open>No block is held: the state in which \<^verbatim>\<open>commit\<close> and recovery run.\<close>

definition quiet :: "cache_state \<Rightarrow> bool" where
  "quiet s \<longleftrightarrow> cache_wf s \<and> (\<forall>q c. \<not> holds s q c)"

lemma quiet_held: "quiet s \<Longrightarrow> b \<notin> held s"
  by (simp add: quiet_def not_held)

lemma unpin_spec:
  assumes wf: "cache_wf s" and h: "holds s p b"
  shows "cache_wf (upd_blk p (pinned_update (\<lambda>_. False)) s)"
    and "content (upd_blk p (pinned_update (\<lambda>_. False)) s) = content s"
    and "holds (upd_blk p (pinned_update (\<lambda>_. False)) s) = holds s"
    and "pins (upd_blk p (pinned_update (\<lambda>_. False)) s) = pins s - {b}"
    and "cached_nos (upd_blk p (pinned_update (\<lambda>_. False)) s) = cached_nos s"
proof -
  have p: "p \<in> set (lru s)" "acquired (blk s p)" "block_no (blk s p) = b" "block_ok s p"
    using assms by (auto simp: holds_def cache_wf_def)
  show wf': "cache_wf (upd_blk p (pinned_update (\<lambda>_. False)) s)"
    using wf p(1) by (rule wf_upd_blk) (use p in \<open>auto simp: block_ok_def\<close>)
  show "content (upd_blk p (pinned_update (\<lambda>_. False)) s) = content s"
    using content_upd_blk [OF wf wf' p(1)] by (simp add: content_hold [OF wf p(1)])
  show "holds (upd_blk p (pinned_update (\<lambda>_. False)) s) = holds s"
    by (rule holds_upd_blk) simp_all
  have "inj_on (\<lambda>q. block_no (blk s q)) (set (lru s))"
    using wf by (simp add: cache_wf_def)
  then have other: "block_no (blk s q) = b \<longleftrightarrow> q = p" if "q \<in> set (lru s)" for q
    using that p by (auto dest: inj_onD)
  show "pins (upd_blk p (pinned_update (\<lambda>_. False)) s) = pins s - {b}"
    using other by (auto simp: pins_def)
  show "cached_nos (upd_blk p (pinned_update (\<lambda>_. False)) s) = cached_nos s"
    by (rule cached_nos_cong) auto
qed

text \<open>Acquiring two blocks and copying the first into the second, through to the disk.\<close>

definition copied :: "cache_state \<Rightarrow> nat \<Rightarrow> nat \<Rightarrow> cache_state \<Rightarrow> bool" where
  "copied s a b s' \<longleftrightarrow> quiet s' \<and> content s' = (content s)(b := content s a) \<and>
     dev s' = dev_write b (content s a) (dev s) \<and> same_log s s' \<and>
     cached_nos s' \<subseteq> insert a (insert b (cached_nos s))"

lemma acquire_two:
  assumes q: "quiet s" and ne: "a \<noteq> b"
  obtains p s1 r s2 where "cache_acquire a s = Some (p, s1)" and "cache_acquire b s1 = Some (r, s2)"
    and "cache_wf s2" and "holds s2 = (\<lambda>q c. q = p \<and> c = a \<or> q = r \<and> c = b)"
    and "content s2 = content s" and "dev s2 = dev s" and "same_log s s2" and "header s1 = header s"
    and "pins s2 = pins s" and "cached_nos s2 \<subseteq> insert a (insert b (cached_nos s))" and "p \<noteq> r"
proof -
  have wf: "cache_wf s" using q by (simp add: quiet_def)
  obtain p s1 where 1: "cache_acquire a s = Some (p, s1)" "acquired_from s a p s1"
    using cache_acquire_spec [OF wf quiet_held [OF q]] .
  have h1: "holds s1 = (\<lambda>q c. q = p \<and> c = a)"
    using 1(2) q by (simp add: acquired_from_def quiet_def)
  have wf1: "cache_wf s1" using 1(2) by (simp add: acquired_from_def)
  have nh: "b \<notin> held s1" using h1 ne by (simp add: held_def)
  obtain r s2 where 2: "cache_acquire b s1 = Some (r, s2)" "acquired_from s1 b r s2"
    using cache_acquire_spec [OF wf1 nh] .
  have h2: "holds s2 = (\<lambda>q c. q = p \<and> c = a \<or> q = r \<and> c = b)"
    using 2(2) h1 by (simp add: acquired_from_def)
  then have "holds s2 p a" "holds s2 r b" by auto
  then have "p \<noteq> r" using ne by (auto simp: holds_def)
  moreover have "cached_nos s2 \<subseteq> insert a (insert b (cached_nos s))"
    using 1(2) 2(2) unfolding acquired_from_def by blast
  ultimately show thesis
    using that [OF 1(1) 2(1) _ h2] 1(2) 2(2) by (auto simp: acquired_from_def same_log_def)
qed

lemma write_through:
  assumes wf: "cache_wf s" and h: "holds s p b" and d: "length d = BLOCK_SIZE"
  shows "cache_wf (device_write p (set_data p d s))"
    and "content (device_write p (set_data p d s)) = (content s)(b := d)"
    and "holds (device_write p (set_data p d s)) = holds s"
    and "pins (device_write p (set_data p d s)) = pins s"
    and "dev (device_write p (set_data p d s)) = dev_write b d (dev s)"
    and "same_log s (device_write p (set_data p d s))"
    and "cached_nos (device_write p (set_data p d s)) = cached_nos s"
proof -
  note put = set_data_spec [OF wf h d]
  have "holds (set_data p d s) p b" using h put(3) by simp
  note dw = device_write_spec [OF put(1) this]
  show "cache_wf (device_write p (set_data p d s))" by (rule dw(1))
  show "content (device_write p (set_data p d s)) = (content s)(b := d)"
    "dev (device_write p (set_data p d s)) = dev_write b d (dev s)"
    "holds (device_write p (set_data p d s)) = holds s"
    "pins (device_write p (set_data p d s)) = pins s"
    "cached_nos (device_write p (set_data p d s)) = cached_nos s"
    using dw put by simp_all
  show "same_log s (device_write p (set_data p d s))"
    using put(7) dw(7) by (rule same_log_trans)
qed

text \<open>The two releases at the end of a loop body.\<close>

lemma release_two:
  assumes wf: "cache_wf s" and h: "holds s = (\<lambda>q c. q = p \<and> c = a \<or> q = r \<and> c = b)" and ne: "p \<noteq> r"
    and "saved s a" and "saved s b"
  shows "quiet (cache_release r (cache_release p s))"
    and "content (cache_release r (cache_release p s)) = content s"
    and "dev (cache_release r (cache_release p s)) = dev s"
    and "pins (cache_release r (cache_release p s)) = pins s"
    and "same_log s (cache_release r (cache_release p s))"
    and "cached_nos (cache_release r (cache_release p s)) = cached_nos s"
proof -
  have "holds s p a" using h by simp
  note r1 = cache_release_spec [OF wf this assms(4) [unfolded saved_def]]
  have h1: "holds (cache_release p s) r b" using r1(3) h ne by simp
  have "b \<in> pins (cache_release p s) \<or>
      content (cache_release p s) b = blocks (dev (cache_release p s)) b"
    using assms(5) r1 by (simp add: saved_def)
  note r2 = cache_release_spec [OF r1(1) h1 this]
  have "holds (cache_release r (cache_release p s)) = (\<lambda>q c. False)"
    using r2(3) r1(3) h by auto
  then show "quiet (cache_release r (cache_release p s))"
    using r2(1) by (simp add: quiet_def)
  show "content (cache_release r (cache_release p s)) = content s"
    "dev (cache_release r (cache_release p s)) = dev s"
    "pins (cache_release r (cache_release p s)) = pins s"
    "cached_nos (cache_release r (cache_release p s)) = cached_nos s"
    using r2 r1 by simp_all
  show "same_log s (cache_release r (cache_release p s))"
    using r1(6) r2(6) by (rule same_log_trans)
qed

lemma quiet_saved: "quiet s \<Longrightarrow> saved s b"
  using content_clean [of s b] quiet_held [of s b] by (auto simp: quiet_def saved_def)

lemma write_one_spec:
  assumes q: "quiet s" and i: "tail < length (hdr_block_no (header s))"
    and ne: "sb_log_start sb + tail + 1 \<noteq> hdr_block_no (header s) ! tail"
  obtains s' where "write_one sb tail s = Some s'"
    and "copied s (hdr_block_no (header s) ! tail) (sb_log_start sb + tail + 1) s'" and "pins s' = pins s"
proof -
  define a b where ab: "a = sb_log_start sb + tail + 1" "b = hdr_block_no (header s) ! tail"
  from ne have ne: "a \<noteq> b" by (simp add: ab)
  obtain p s1 r s2 where f: "cache_acquire a s = Some (p, s1)" "cache_acquire b s1 = Some (r, s2)"
      "cache_wf s2" "holds s2 = (\<lambda>q c. q = p \<and> c = a \<or> q = r \<and> c = b)" "content s2 = content s"
      "dev s2 = dev s" "same_log s s2" "header s1 = header s" "pins s2 = pins s"
      "cached_nos s2 \<subseteq> insert a (insert b (cached_nos s))" "p \<noteq> r"
    using acquire_two [OF q ne] .
  have dr: "data (blk s2 r) = content s b"
    using holds_content [OF f(3), of r b] f(4,5) by simp
  have len: "length (content s b) = BLOCK_SIZE"
    using q by (simp add: quiet_def length_content)
  have hp: "holds s2 p a" by (simp add: f(4))
  note w = write_through [OF f(3) hp len]
  let ?t = "device_write p (set_data p (content s b) s2)"
  have sv: "saved ?t a" "saved ?t b"
    using quiet_saved [OF q, of b] ne by (auto simp: saved_def w f(5,6,9) dev_write_def)
  have ht: "holds ?t = (\<lambda>q c. q = r \<and> c = b \<or> q = p \<and> c = a)"
    unfolding w(3) f(4) by (auto simp: fun_eq_iff)
  note rel = release_two [OF w(1) ht f(11) [symmetric] sv(2,1)]
  have "write_one sb tail s = Some (cache_release p (cache_release r ?t))"
    using i f(1,2,8) dr by (simp add: write_one_def ab)
  moreover have "copied s b a (cache_release p (cache_release r ?t))"
    using rel w f(5-7,10) same_log_trans [OF same_log_trans [OF f(7) w(6)] rel(5)]
    by (simp add: copied_def insert_commute)
  moreover have "pins (cache_release p (cache_release r ?t)) = pins s"
    using rel(4) w(4) f(9) by simp
  ultimately show thesis unfolding ab by (rule that)
qed

lemma install_one_spec:
  assumes q: "quiet s" and i: "tail < length (hdr_block_no (header s))"
    and ne: "sb_log_start sb + tail + 1 \<noteq> hdr_block_no (header s) ! tail"
  obtains s' where "install_one sb tail s = Some s'"
    and "copied s (sb_log_start sb + tail + 1) (hdr_block_no (header s) ! tail) s'"
    and "pins s' = pins s - {hdr_block_no (header s) ! tail}"
proof -
  define a b where ab: "a = sb_log_start sb + tail + 1" "b = hdr_block_no (header s) ! tail"
  from ne have ne: "a \<noteq> b" by (simp add: ab)
  obtain p s1 r s2 where f: "cache_acquire a s = Some (p, s1)" "cache_acquire b s1 = Some (r, s2)"
      "cache_wf s2" "holds s2 = (\<lambda>q c. q = p \<and> c = a \<or> q = r \<and> c = b)" "content s2 = content s"
      "dev s2 = dev s" "same_log s s2" "header s1 = header s" "pins s2 = pins s"
      "cached_nos s2 \<subseteq> insert a (insert b (cached_nos s))" "p \<noteq> r"
    using acquire_two [OF q ne] .
  have dp: "data (blk s2 p) = content s a"
    using holds_content [OF f(3), of p a] f(4,5) by simp
  have len: "length (content s a) = BLOCK_SIZE"
    using q by (simp add: quiet_def length_content)
  have hr: "holds s2 r b" by (simp add: f(4))
  note w = write_through [OF f(3) hr len]
  let ?t = "device_write r (set_data r (content s a) s2)"
  have "holds ?t r b" using w(3) hr by simp
  note u = unpin_spec [OF w(1) this]
  let ?u = "upd_blk r (pinned_update (\<lambda>_. False)) ?t"
  have sv: "saved ?u a" "saved ?u b"
    using quiet_saved [OF q, of a] ne by (auto simp: saved_def u w f(5,6,9) dev_write_def)
  have hu: "holds ?u = (\<lambda>q c. q = p \<and> c = a \<or> q = r \<and> c = b)"
    by (simp only: u(3) w(3) f(4))
  note rel = release_two [OF u(1) hu f(11) sv]
  have "same_log ?t ?u" by (simp add: same_log_def)
  then have sl: "same_log s (cache_release r (cache_release p ?u))"
    using f(7) w(6) rel(5) by (blast intro: same_log_trans)
  have "install_one sb tail s = Some (cache_release r (cache_release p ?u))"
    using i f(1,2,8) dp by (simp add: install_one_def ab)
  moreover have "copied s a b (cache_release r (cache_release p ?u))"
    using rel u w f(5,6,10) sl by (simp add: copied_def)
  moreover have "pins (cache_release r (cache_release p ?u)) = pins s - {b}"
    using rel(4) u(4) w(4) f(9) by simp
  ultimately show thesis unfolding ab by (rule that)
qed

section \<open>The loops as sequences of disk writes\<close>

definition dev_writes :: "(nat \<times> u8 list) list \<Rightarrow> device \<Rightarrow> device" where
  "dev_writes ws d = d\<lparr>blocks := crash_disk (blocks d) ws, history := history d @ ws\<rparr>"

lemma dev_writes_simps [simp]:
  "dev_writes [] d = d" "dev_write b x (dev_writes ws d) = dev_writes (ws @ [(b, x)]) d"
  "dev_writes ws' (dev_writes ws d) = dev_writes (ws @ ws') d"
  "blocks (dev_writes ws d) = crash_disk (blocks d) ws" "history (dev_writes ws d) = history d @ ws"
  by (simp_all add: dev_writes_def dev_write_def)

lemma dev_write_writes: "dev_write b x d = dev_writes [(b, x)] d"
  by (simp add: dev_writes_def dev_write_def)

lemma crash_disk_other: "b \<notin> fst ` set ws \<Longrightarrow> crash_disk D ws b = D b"
  by (induction ws arbitrary: D) auto

text \<open>Writes that all store \<open>F b\<close> at \<open>b\<close>.\<close>

lemma crash_disk_map:
  "crash_disk D (map (\<lambda>b. (b, F b)) bs) c = (if c \<in> set bs then F c else D c)"
  by (induction bs arbitrary: D) auto

text \<open>
  The log slot of the \<open>i\<close>-th block, and the area of the disk that a log of the blocks \<open>L\<close>
  occupies: the header and one block for each of them.
\<close>

definition slot :: "super_block \<Rightarrow> nat \<Rightarrow> nat" where
  "slot sb i = sb_log_start sb + i + 1"

definition log_area :: "super_block \<Rightarrow> nat list \<Rightarrow> nat set" where
  "log_area sb L = {sb_log_start sb..sb_log_start sb + length L}"

lemma slot_inj [simp]: "slot sb i = slot sb j \<longleftrightarrow> i = j"
  by (simp add: slot_def)

lemma slot_area: "i < length L \<Longrightarrow> slot sb i \<in> log_area sb L \<and> slot sb i \<noteq> sb_log_start sb"
  by (simp add: slot_def log_area_def)

definition log_writes :: "super_block \<Rightarrow> (nat \<Rightarrow> u8 list) \<Rightarrow> nat list \<Rightarrow> (nat \<times> u8 list) list" where
  "log_writes sb C L = map (\<lambda>i. (slot sb i, C (L ! i))) [0..<length L]"

definition install_writes :: "super_block \<Rightarrow> (nat \<Rightarrow> u8 list) \<Rightarrow> nat list \<Rightarrow> (nat \<times> u8 list) list" where
  "install_writes sb C L = map (\<lambda>i. (L ! i, C (slot sb i))) [0..<length L]"

lemma log_writes_fst: "fst ` set (log_writes sb C L) = slot sb ` {..<length L}"
  by (auto simp: log_writes_def image_iff)

lemma install_writes_fst: "fst ` set (install_writes sb C L) = set L"
  by (force simp: install_writes_def in_set_conv_nth)

lemma take_Suc_map: "i < n \<Longrightarrow> take (Suc i) (map f [0..<n]) = take i (map f [0..<n]) @ [f i]"
  by (simp add: take_Suc_conv_app_nth)

definition loop_inv ::
  "cache_state \<Rightarrow> (nat \<times> u8 list) list \<Rightarrow> nat set \<Rightarrow> nat set \<Rightarrow> cache_state \<Rightarrow> bool" where
  "loop_inv s ws P Q s' \<longleftrightarrow> quiet s' \<and> content s' = crash_disk (content s) ws \<and>
     dev s' = dev_writes ws (dev s) \<and> same_log s s' \<and> pins s' = P \<and> cached_nos s' \<subseteq> cached_nos s \<union> Q"

lemma loop_step:
  assumes "loop_inv s ws P Q s1" and "copied s1 a b s2" and "pins s2 = P'"
    and "content s1 a = x" and "{a, b} \<subseteq> Q"
  shows "loop_inv s (ws @ [(b, x)]) P' Q s2"
  using assms unfolding loop_inv_def copied_def by (auto intro: same_log_trans)

definition log_clear_of :: "super_block \<Rightarrow> nat list \<Rightarrow> bool" where
  "log_clear_of sb L \<longleftrightarrow> length L \<le> LOG_MAX_SIZE \<and> set L \<inter> log_area sb L = {}"

lemma clear_of_slot:
  "log_clear_of sb L \<Longrightarrow> i < length L \<Longrightarrow> j < length L \<Longrightarrow> slot sb i \<noteq> L ! j"
  using slot_area [of i L sb] nth_mem [of j L] by (fastforce simp: log_clear_of_def disjoint_iff)

definition touched :: "super_block \<Rightarrow> nat list \<Rightarrow> nat set" where
  "touched sb L = set L \<union> slot sb ` {..<length L}"

lemma log_list_nth:
  "num_blocks (header s) \<le> length (hdr_block_no (header s)) \<Longrightarrow> i < num_blocks (header s) \<Longrightarrow>
   length (log_list s) = num_blocks (header s) \<and> log_list s ! i = hdr_block_no (header s) ! i"
  by (simp add: log_list_def)

lemma write_log_spec:
  assumes q: "quiet s" and n: "num_blocks (header s) \<le> length (hdr_block_no (header s))"
    and cl: "log_clear_of sb (log_list s)"
  shows "\<exists>s'. write_log sb s = Some s' \<and>
    loop_inv s (log_writes sb (content s) (log_list s)) (pins s) (touched sb (log_list s)) s'"
proof -
  let ?n = "num_blocks (header s)" and ?L = "log_list s"
  let ?W = "log_writes sb (content s) ?L"
  let ?P = "\<lambda>i. loop_inv s (take i ?W) (pins s) (touched sb ?L)"
  have len: "length ?L = ?n" using n by (simp add: log_list_def)
  have W: "take (Suc i) ?W = take i ?W @ [(slot sb i, content s (?L ! i))]" if "i < ?n" for i
    unfolding log_writes_def using that len by (simp add: take_Suc_map)
  have "\<exists>s'. for_each (write_one sb) [0..<?n] s = Some s' \<and> ?P (length [0..<?n]) s'"
  proof (rule for_each_rule)
    show "?P 0 s" using q by (simp add: loop_inv_def)
  next
    fix i s1 assume "i < length [0..<?n]" and P: "?P i s1"
    then have i: "i < ?n" by simp
    have h: "header s1 = header s" and q1: "quiet s1" using P by (auto simp: loop_inv_def same_log_def)
    have Li: "hdr_block_no (header s1) ! i = ?L ! i" "i < length (hdr_block_no (header s1))"
      using log_list_nth [OF n i] i n h by auto
    have ne: "sb_log_start sb + i + 1 \<noteq> hdr_block_no (header s1) ! i"
      using clear_of_slot [OF cl, of i i] i len Li by (simp add: slot_def)
    obtain s2 where s2: "write_one sb i s1 = Some s2" "copied s1 (?L ! i) (slot sb i) s2" "pins s2 = pins s"
      using write_one_spec [OF q1 Li(2) ne] P Li(1) by (metis loop_inv_def slot_def)
    have "?L ! i \<notin> fst ` set (take i ?W)"
      using clear_of_slot [OF cl _ , of _ i] i len set_take_subset [of i ?W] log_writes_fst [of sb "content s" ?L]
      by (metis (no_types, lifting) image_iff image_mono lessThan_iff subset_iff)
    then have "content s1 (?L ! i) = content s (?L ! i)"
      using P by (simp add: loop_inv_def crash_disk_other)
    then have "?P (Suc i) s2"
      unfolding W [OF i] using loop_step [OF P s2(2,3)] i len by (simp add: touched_def)
    with s2(1) i show "\<exists>s'. write_one sb ([0..<?n] ! i) s1 = Some s' \<and> ?P (Suc i) s'" by simp
  qed
  then show ?thesis
    by (simp add: write_log_def log_writes_def len)
qed

lemma install_trans_spec:
  assumes q: "quiet s" and n: "num_blocks (header s) \<le> length (hdr_block_no (header s))"
    and cl: "log_clear_of sb (log_list s)"
  shows "\<exists>s'. install_trans sb s = Some s' \<and>
    loop_inv s (install_writes sb (content s) (log_list s)) (pins s - set (log_list s))
      (touched sb (log_list s)) s'"
proof -
  let ?n = "num_blocks (header s)" and ?L = "log_list s"
  let ?W = "install_writes sb (content s) ?L"
  let ?P = "\<lambda>i. loop_inv s (take i ?W) (pins s - set (take i ?L)) (touched sb ?L)"
  have len: "length ?L = ?n" using n by (simp add: log_list_def)
  have W: "take (Suc i) ?W = take i ?W @ [(?L ! i, content s (slot sb i))]" if "i < ?n" for i
    unfolding install_writes_def using that len by (simp add: take_Suc_map)
  have "\<exists>s'. for_each (install_one sb) [0..<?n] s = Some s' \<and> ?P (length [0..<?n]) s'"
  proof (rule for_each_rule)
    show "?P 0 s" using q by (simp add: loop_inv_def)
  next
    fix i s1 assume "i < length [0..<?n]" and P: "?P i s1"
    then have i: "i < ?n" by simp
    have h: "header s1 = header s" and q1: "quiet s1" using P by (auto simp: loop_inv_def same_log_def)
    have Li: "hdr_block_no (header s1) ! i = ?L ! i" "i < length (hdr_block_no (header s1))"
      using log_list_nth [OF n i] i n h by auto
    have ne: "sb_log_start sb + i + 1 \<noteq> hdr_block_no (header s1) ! i"
      using clear_of_slot [OF cl, of i i] i len Li by (simp add: slot_def)
    obtain s2 where s2: "install_one sb i s1 = Some s2" "copied s1 (slot sb i) (?L ! i) s2"
        "pins s2 = pins s1 - {?L ! i}"
      using install_one_spec [OF q1 Li(2) ne] Li(1) by (metis slot_def)
    have pn: "pins s2 = pins s - set (take (Suc i) ?L)"
      using s2(3) P i len by (auto simp: loop_inv_def take_Suc_conv_app_nth)
    have "slot sb i \<notin> fst ` set (take i ?W)"
      using clear_of_slot [OF cl, of i] i len set_take_subset [of i ?W] install_writes_fst [of sb "content s" ?L]
      by (metis (no_types, lifting) image_mono in_set_conv_nth subset_iff)
    then have "content s1 (slot sb i) = content s (slot sb i)"
      using P by (simp add: loop_inv_def crash_disk_other)
    then have "?P (Suc i) s2"
      unfolding W [OF i] using loop_step [OF P s2(2) pn] i len by (simp add: touched_def)
    with s2(1) i show "\<exists>s'. install_one sb ([0..<?n] ! i) s1 = Some s' \<and> ?P (Suc i) s'" by simp
  qed
  then show ?thesis
    by (simp add: install_trans_def install_writes_def len)
qed

section \<open>Commit\<close>

lemma write_header_spec:
  assumes q: "quiet s" and nc: "sb_log_start sb \<notin> cached_nos s"
    and len: "length (hdr_block_no (header s)) = LOG_MAX_SIZE"
  shows "quiet (write_header sb s)"
    and "content (write_header sb s) = (content s)(sb_log_start sb := encode_header (header s))"
    and "pins (write_header sb s) = pins s" and "cached_nos (write_header sb s) = cached_nos s"
proof -
  let ?t = "write_header sb s" and ?l = "sb_log_start sb"
  have t: "blk ?t = blk s" "lru ?t = lru s" "next_block ?t = next_block s"
      "blocks (dev ?t) = (blocks (dev s))(?l := encode_header (header s))"
    by (simp_all add: write_header_def dev_write_def)
  have nb: "block_no (blk s q) \<noteq> ?l" if "q \<in> set (lru s)" for q
    using that nc by (auto simp: cached_nos_def image_iff)
  have wf: "cache_wf s" using q by (simp add: quiet_def)
  have wf': "cache_wf ?t"
    using wf nb length_encode_header [OF len] by (auto simp: cache_wf_def block_ok_def t)
  show q': "quiet ?t" using wf' q by (simp add: quiet_def holds_def t)
  show "pins ?t = pins s" "cached_nos ?t = cached_nos s"
    by (simp_all add: pins_def cached_nos_def t)
  then show "content ?t = (content s)(?l := encode_header (header s))"
    by (intro content_eqI [OF wf']) (auto simp: t nb content_cached [OF wf] content_uncached)
qed

lemma clear_header_simps [simp]:
  "blk (clear_header s) = blk s" "lru (clear_header s) = lru s" "dev (clear_header s) = dev s"
  "next_block (clear_header s) = next_block s" "oplog (clear_header s) = oplog s"
  "swap_valid (clear_header s) = swap_valid s"
  "header (clear_header s) = (header s)\<lparr>num_blocks := 0\<rparr>"
  "pins (clear_header s) = pins s" "cached_nos (clear_header s) = cached_nos s"
  by (simp_all add: clear_header_def pins_def cached_nos_def)

lemma content_clear_header [simp]: "content (clear_header s) = content s"
  by (rule content_cong) simp_all

lemma quiet_clear_header [simp]: "quiet (clear_header s) = quiet s"
  by (simp add: quiet_def cache_wf_def block_ok_def holds_def)

lemma write_header_simps [simp]:
  "dev (write_header sb s) = dev_write (sb_log_start sb) (encode_header (header s)) (dev s)"
  "header (write_header sb s) = header s" "oplog (write_header sb s) = oplog s"
  "swap_valid (write_header sb s) = swap_valid s"
  by (simp_all add: write_header_def)

definition commit_ready :: "super_block \<Rightarrow> cache_state \<Rightarrow> bool" where
  "commit_ready sb s \<longleftrightarrow> quiet s \<and> log_wf s \<and> header_ok (header s) \<and>
     log_clear_of sb (log_list s) \<and> sb_log_start sb \<notin> cached_nos s"

definition commit_writes ::
  "super_block \<Rightarrow> (nat \<Rightarrow> u8 list) \<Rightarrow> log_header \<Rightarrow> (nat \<times> u8 list) list" where
  "commit_writes sb C h =
     (let L = take (num_blocks h) (hdr_block_no h)
      in if num_blocks h = 0 then []
         else log_writes sb C L @ [(sb_log_start sb, encode_header h)] @
           map (\<lambda>b. (b, C b)) L @ [(sb_log_start sb, encode_header (h\<lparr>num_blocks := 0\<rparr>))])"

lemma log_writes_slot:
  assumes "i < length L"
  shows "crash_disk D (log_writes sb C L) (slot sb i) = C (L ! i)"
proof -
  let ?F = "\<lambda>b. C (L ! (b - sb_log_start sb - 1))"
  have "log_writes sb C L = map (\<lambda>b. (b, ?F b)) (map (slot sb) [0..<length L])"
    by (simp add: log_writes_def slot_def)
  then have "crash_disk D (log_writes sb C L) (slot sb i) = ?F (slot sb i)"
    using assms by (simp add: crash_disk_map del: map_map)
  then show ?thesis by (simp add: slot_def)
qed

lemma install_after_log:
  "install_writes sb ((crash_disk C (log_writes sb C L))(sb_log_start sb := x)) L = map (\<lambda>b. (b, C b)) L"
  unfolding install_writes_def
  by (intro nth_equalityI) (simp_all add: log_writes_slot, simp add: slot_def)

lemma touched_area: "log_clear_of sb L \<Longrightarrow> sb_log_start sb \<notin> touched sb L"
  by (auto simp: log_clear_of_def touched_def slot_def log_area_def)

lemma commit_spec:
  assumes r: "commit_ready sb s"
  shows "\<exists>s'. commit sb s = Some s' \<and> dev s' = dev_writes (commit_writes sb (content s) (header s)) (dev s) \<and>
    content s' = crash_disk (content s) (commit_writes sb (content s) (header s)) \<and>
    commit_ready sb s' \<and> header s' = (header s)\<lparr>num_blocks := 0\<rparr> \<and> pins s' = {} \<and>
    oplog s' = oplog s"
proof (cases "num_blocks (header s) = 0")
  case True
  then show ?thesis
    using r by (auto simp: commit_def commit_writes_def commit_ready_def log_wf_def log_list_def)
next
  case False
  let ?L = "log_list s" and ?h = "header s" and ?l = "sb_log_start sb" and ?C = "content s"
  have f: "quiet s" "num_blocks ?h \<le> length (hdr_block_no ?h)" "log_clear_of sb ?L" "?l \<notin> cached_nos s"
      "length (hdr_block_no ?h) = LOG_MAX_SIZE" "pins s = set ?L"
    using r by (auto simp: commit_ready_def header_ok_def log_wf_def)
  note out = touched_area [OF f(3)]
  obtain s1 where 1: "write_log sb s = Some s1"
      "loop_inv s (log_writes sb ?C ?L) (pins s) (touched sb ?L) s1"
    using write_log_spec [OF f(1-3)] by blast
  have h1: "header s1 = ?h" "quiet s1" "?l \<notin> cached_nos s1"
    using 1(2) f(4) out by (auto simp: loop_inv_def same_log_def)
  let ?s2 = "write_header sb s1"
  have len1: "length (hdr_block_no (header s1)) = LOG_MAX_SIZE" using h1(1) f(5) by simp
  note 2 = write_header_spec [OF h1(2,3) len1]
  have L2: "log_list ?s2 = ?L" by (simp add: log_list_def h1)
  obtain s3 where 3: "install_trans sb ?s2 = Some s3"
      "loop_inv ?s2 (install_writes sb (content ?s2) ?L) (pins ?s2 - set ?L) (touched sb ?L) s3"
    using install_trans_spec [OF 2(1), of sb] f(2,3) h1(1) unfolding L2 by auto
  have C1: "content s1 = crash_disk ?C (log_writes sb ?C ?L)" using 1(2) by (simp add: loop_inv_def)
  have iw: "install_writes sb (content ?s2) ?L = map (\<lambda>b. (b, ?C b)) ?L"
    unfolding 2(2) C1 by (rule install_after_log)
  note l3 = 3(2) [unfolded iw]
  have h3: "header s3 = ?h" "quiet s3" "?l \<notin> cached_nos s3"
    using 3(2) h1 2(4) out by (auto simp: loop_inv_def same_log_def)
  let ?s5 = "write_header sb (clear_header s3)"
  have "quiet (clear_header s3)" "?l \<notin> cached_nos (clear_header s3)"
      "length (hdr_block_no (header (clear_header s3))) = LOG_MAX_SIZE"
    using h3 f(5) by simp_all
  note 5 = write_header_spec [OF this]
  have run: "commit sb s = Some ?s5"
    using False 1(1) 3(1) by (simp add: commit_def)
  have W: "commit_writes sb ?C ?h = log_writes sb ?C ?L @ [(?l, encode_header ?h)] @
      map (\<lambda>b. (b, ?C b)) ?L @ [(?l, encode_header (?h\<lparr>num_blocks := 0\<rparr>))]"
    using False by (simp add: commit_writes_def log_list_def Let_def)
  have d: "dev ?s5 = dev_writes (commit_writes sb ?C ?h) (dev s)"
    using 1(2) l3 unfolding W by (simp add: loop_inv_def h1(1) h3(1) dev_write_writes)
  have C: "content ?s5 = crash_disk ?C (commit_writes sb ?C ?h)"
    using l3 2(2) C1 unfolding 5(2) W by (simp add: loop_inv_def h1(1) h3(1))
  have p: "pins ?s5 = {}"
    using 5(3) 3(2) 2(3) 1(2) f(6) by (auto simp: loop_inv_def)
  have rd: "commit_ready sb ?s5"
    using 5(1,4) h3 p f(5) r by (simp add: commit_ready_def log_wf_def log_list_def header_ok_def log_clear_of_def)
  have "oplog ?s5 = oplog s"
    using 1(2) 3(2) by (simp add: loop_inv_def same_log_def)
  with run d C p rd h3(1) show ?thesis by auto
qed

section \<open>Recovery\<close>

definition disk_header :: "super_block \<Rightarrow> (nat \<Rightarrow> u8 list) \<Rightarrow> log_header" where
  "disk_header sb D = decode_header (D (sb_log_start sb))"

definition disk_log :: "super_block \<Rightarrow> (nat \<Rightarrow> u8 list) \<Rightarrow> nat list" where
  "disk_log sb D = take (num_blocks (disk_header sb D)) (hdr_block_no (disk_header sb D))"

text \<open>A disk on which recovery makes sense: the header's count and block numbers are sane.\<close>

definition recoverable :: "super_block \<Rightarrow> (nat \<Rightarrow> u8 list) \<Rightarrow> bool" where
  "recoverable sb D \<longleftrightarrow> (\<forall>b. length (D b) = BLOCK_SIZE) \<and>
     num_blocks (disk_header sb D) \<le> LOG_MAX_SIZE \<and> set (disk_log sb D) \<inter> log_area sb (disk_log sb D) = {}"

definition recover_writes :: "super_block \<Rightarrow> (nat \<Rightarrow> u8 list) \<Rightarrow> (nat \<times> u8 list) list" where
  "recover_writes sb D = install_writes sb D (disk_log sb D) @
     [(sb_log_start sb, encode_header ((disk_header sb D)\<lparr>num_blocks := 0\<rparr>))]"

lemma decode_header_ok:
  assumes "length d = BLOCK_SIZE" and "num_blocks (decode_header d) \<le> LOG_MAX_SIZE"
  shows "header_ok (decode_header d)"
proof -
  have "le_nat (get_bytes (8 + 8 * i) 8 d) < 2 ^ 64" if "i < LOG_MAX_SIZE" for i
  proof -
    have "length (get_bytes (8 + 8 * i) 8 d) = 8"
      using that assms(1) by (intro length_get_bytes) simp
    then show ?thesis using le_nat_bound [of "get_bytes (8 + 8 * i) 8 d"] by simp
  qed
  then have "list_all (\<lambda>b. b < 2 ^ 64) (map (\<lambda>i. le_nat (get_bytes (8 + 8 * i) 8 d)) [0..<LOG_MAX_SIZE])"
    by (rule list_all_map_upt)
  then show ?thesis
    using assms(2) unfolding header_ok_def
    by (simp only: decode_header_def log_header.simps length_map length_upt diff_zero simp_thms)
qed

lemma recover_spec:
  assumes r: "recoverable sb (blocks d)"
  shows "\<exists>s'. recover_from_log sb (cold_cache d) = Some s' \<and>
    dev s' = dev_writes (recover_writes sb (blocks d)) d \<and> content s' = blocks (dev s') \<and>
    log_list s' = [] \<and> commit_ready sb s' \<and> oplog s' = oplog (cold_cache d)"
proof -
  let ?s = "read_header sb (cold_cache d)" and ?h = "disk_header sb (blocks d)" and ?l = "sb_log_start sb"
  let ?L = "disk_log sb (blocks d)"
  have s: "header ?s = ?h" "content ?s = blocks d" "dev ?s = d" "pins ?s = {}" "cached_nos ?s = {}"
      "oplog ?s = oplog (cold_cache d)" "quiet ?s"
    using r by (simp_all add: read_header_def disk_header_def dev_read_def recoverable_def cold_cache_def
        content_def cache_lookup_def pins_def cached_nos_def quiet_def cache_wf_def holds_def fun_eq_iff)
  have ok: "header_ok ?h"
    using r unfolding recoverable_def disk_header_def by (intro decode_header_ok) auto
  have L: "log_list ?s = ?L" by (simp add: log_list_def disk_log_def s)
  have cl: "log_clear_of sb ?L"
    using r ok by (simp add: recoverable_def log_clear_of_def header_ok_def disk_log_def)
  have n: "num_blocks (header ?s) \<le> length (hdr_block_no (header ?s))"
    using ok by (simp add: header_ok_def s)
  obtain s1 where 1: "install_trans sb ?s = Some s1"
      "loop_inv ?s (install_writes sb (blocks d) ?L) {} (touched sb ?L) s1"
    using install_trans_spec [OF s(7) n, of sb] cl unfolding L s(2,4) by auto
  have h1: "header s1 = ?h" "quiet s1" "?l \<notin> cached_nos s1" "pins s1 = {}"
    using 1(2) s touched_area [OF cl] by (auto simp: loop_inv_def same_log_def)
  let ?s2 = "write_header sb (clear_header s1)"
  have "quiet (clear_header s1)" "?l \<notin> cached_nos (clear_header s1)"
      "length (hdr_block_no (header (clear_header s1))) = LOG_MAX_SIZE"
    using h1 ok by (simp_all add: header_ok_def)
  note w = write_header_spec [OF this]
  have "recover_from_log sb (cold_cache d) = Some ?s2"
    using 1(1) by (simp add: recover_from_log_def)
  moreover have dv: "dev ?s2 = dev_writes (recover_writes sb (blocks d)) d"
    using 1(2) by (simp add: loop_inv_def s(3) h1(1) recover_writes_def dev_write_writes)
  moreover have "content ?s2 = blocks (dev ?s2)"
    using w(1,3) h1(4) content_clean [of ?s2] quiet_held [OF w(1)] by (auto simp: quiet_def fun_eq_iff)
  moreover have "log_list ?s2 = []"
    by (simp add: log_list_def)
  moreover have "commit_ready sb ?s2"
    using w h1 ok by (simp add: commit_ready_def log_wf_def log_list_def header_ok_def log_clear_of_def)
  moreover have "oplog ?s2 = oplog (cold_cache d)"
    using 1(2) s(6) by (simp add: loop_inv_def same_log_def)
  ultimately show ?thesis by blast
qed

lemma recovered_at:
  assumes "recoverable sb D" and "b \<noteq> sb_log_start sb"
    and "\<And>i. i < length (disk_log sb D) \<Longrightarrow> D (slot sb i) = F (disk_log sb D ! i)"
  shows "crash_disk D (recover_writes sb D) b = (if b \<in> set (disk_log sb D) then F b else D b)"
proof -
  have "install_writes sb D (disk_log sb D) = map (\<lambda>b. (b, F b)) (disk_log sb D)"
    unfolding install_writes_def by (intro nth_equalityI) (simp_all add: assms(3))
  then show ?thesis
    using assms(2) by (simp add: recover_writes_def crash_disk_map)
qed

lemma length_crash_disk:
  "(\<And>b. length (D b) = n) \<Longrightarrow> list_all (\<lambda>w. length (snd w) = n) ws \<Longrightarrow> length (crash_disk D ws b) = n"
  by (induction ws arbitrary: D) auto

section \<open>Crashes during commit\<close>

text \<open>The log is on disk, its header is written, and \<open>j\<close> blocks have been installed.\<close>

definition logged_disk ::
  "super_block \<Rightarrow> log_header \<Rightarrow> nat list \<Rightarrow> (nat \<Rightarrow> u8 list) \<Rightarrow> nat \<Rightarrow> (nat \<Rightarrow> u8 list) \<Rightarrow> nat \<Rightarrow> u8 list" where
  "logged_disk sb h L C j D =
     crash_disk ((crash_disk D (log_writes sb C L))(sb_log_start sb := encode_header h))
       (map (\<lambda>b. (b, C b)) (take j L))"

lemma log_writes_take_fst: "fst ` set (take k (log_writes sb C L)) \<subseteq> slot sb ` {..<length L}"
  using image_mono [OF set_take_subset [of k "log_writes sb C L"], of fst] by (simp add: log_writes_fst)

lemma log_writes_outside:
  assumes "log_clear_of sb L" and "b \<notin> log_area sb L"
  shows "crash_disk D (take k (log_writes sb C L)) b = D b"
proof (rule crash_disk_other)
  have "b \<notin> slot sb ` {..<length L}"
    using assms slot_area [of _ L sb] by auto
  then show "b \<notin> fst ` set (take k (log_writes sb C L))"
    using log_writes_take_fst by blast
qed

lemma log_writes_header:
  "crash_disk D (take k (log_writes sb C L)) (sb_log_start sb) = D (sb_log_start sb)"
proof (rule crash_disk_other)
  have "sb_log_start sb \<notin> slot sb ` {..<length L}"
    by (auto simp: slot_def)
  then show "sb_log_start sb \<notin> fst ` set (take k (log_writes sb C L))"
    using log_writes_take_fst by blast
qed

text \<open>A transaction ready to be written: header, contents and disk fit together.\<close>

definition txn_ok :: "super_block \<Rightarrow> log_header \<Rightarrow> nat list \<Rightarrow> (nat \<Rightarrow> u8 list) \<Rightarrow> (nat \<Rightarrow> u8 list) \<Rightarrow> bool" where
  "txn_ok sb h L C D \<longleftrightarrow> header_ok h \<and> L = take (num_blocks h) (hdr_block_no h) \<and> log_clear_of sb L \<and>
     (\<forall>b. length (C b) = BLOCK_SIZE) \<and> (\<forall>b. length (D b) = BLOCK_SIZE) \<and> (\<forall>b. b \<notin> set L \<longrightarrow> C b = D b)"

lemma txn_okD:
  assumes "txn_ok sb h L C D"
  shows "header_ok h" and "take (num_blocks h) (hdr_block_no h) = L" and "length L = num_blocks h"
    and "log_clear_of sb L" and "set L \<inter> log_area sb L = {}" and "length L \<le> LOG_MAX_SIZE"
    and "length (C b) = BLOCK_SIZE" and "length (D b) = BLOCK_SIZE" and "b \<notin> set L \<Longrightarrow> C b = D b"
  using assms by (auto simp: txn_ok_def header_ok_def log_clear_of_def)

lemma logged_disk_at:
  assumes "txn_ok sb h L C D" and "b \<notin> log_area sb L"
  shows "logged_disk sb h L C j D b = (if b \<in> set (take j L) then C b else D b)"
proof -
  have "crash_disk D (log_writes sb C L) b = D b"
    using log_writes_outside [OF txn_okD(4) [OF assms(1)] assms(2), of D "length (log_writes sb C L)" C]
    by simp
  then show ?thesis
    using assms(2) by (auto simp: logged_disk_def crash_disk_map log_area_def)
qed

lemma logged_disk_log:
  assumes t: "txn_ok sb h L C D"
  shows "disk_header sb (logged_disk sb h L C j D) = h"
    and "i < length L \<Longrightarrow> logged_disk sb h L C j D (slot sb i) = C (L ! i)"
proof -
  note a = txn_okD(5,6,1) [OF t]
  have out: "b \<notin> set (take j L)" if "b \<in> log_area sb L" for b
    using a(1) that by (auto dest: in_set_takeD)
  have ls: "sb_log_start sb \<in> log_area sb L" by (simp add: log_area_def)
  show "disk_header sb (logged_disk sb h L C j D) = h"
    using out [OF ls] header_roundtrip [OF a(3)]
    by (simp add: disk_header_def logged_disk_def crash_disk_map)
  show "logged_disk sb h L C j D (slot sb i) = C (L ! i)" if "i < length L"
  proof -
    have sl: "slot sb i \<in> log_area sb L" "slot sb i \<noteq> sb_log_start sb"
      using slot_area [OF that] by auto
    show ?thesis
      using out [OF sl(1)] sl(2) that by (simp add: logged_disk_def crash_disk_map log_writes_slot)
  qed
qed

lemma logged_disk_length:
  assumes t: "txn_ok sb h L C D"
  shows "length (logged_disk sb h L C j D b) = BLOCK_SIZE"
proof -
  have lens: "\<And>b. length (C b) = BLOCK_SIZE" "\<And>b. length (D b) = BLOCK_SIZE"
      "length (encode_header h) = BLOCK_SIZE"
    using txn_okD(1,7,8) [OF t] by (auto simp: header_ok_def)
  have "length (crash_disk D (log_writes sb C L) b) = BLOCK_SIZE" for b
    by (rule length_crash_disk) (simp_all add: lens log_writes_def list_all_iff)
  then show ?thesis
    unfolding logged_disk_def by (intro length_crash_disk) (simp_all add: lens list_all_iff)
qed

lemma logged_disk_recovered:
  fixes j :: nat
  assumes t: "txn_ok sb h L C D"
  defines "E \<equiv> logged_disk sb h L C j D"
  shows "recoverable sb E" and "b \<notin> log_area sb L \<Longrightarrow> crash_disk E (recover_writes sb E) b = C b"
proof -
  have L: "disk_log sb E = L" and n: "num_blocks (disk_header sb E) \<le> LOG_MAX_SIZE"
    using logged_disk_log(1) [OF t, of j] txn_okD(1,2) [OF t] by (simp_all add: E_def disk_log_def header_ok_def)
  show r: "recoverable sb E"
    unfolding recoverable_def L using n logged_disk_length [OF t] txn_okD(5) [OF t] by (simp add: E_def)
  assume b: "b \<notin> log_area sb L"
  have "crash_disk E (recover_writes sb E) b = (if b \<in> set (disk_log sb E) then C b else E b)"
  proof (rule recovered_at [OF r])
    show "b \<noteq> sb_log_start sb" using b by (auto simp: log_area_def)
    show "E (slot sb i) = C (disk_log sb E ! i)" if "i < length (disk_log sb E)" for i
      using that logged_disk_log(2) [OF t, of i j] unfolding L by (simp add: E_def)
  qed
  also have "\<dots> = C b"
    using txn_okD(9) [OF t] logged_disk_at [OF t b, of j] by (auto simp: L) (auto simp: E_def dest: in_set_takeD)
  finally show "crash_disk E (recover_writes sb E) b = C b" .
qed

text \<open>A disk whose header says that the log is empty: recovery changes nothing outside the log.\<close>

lemma empty_log_recovered:
  assumes "num_blocks (disk_header sb E) = 0" and "\<And>b. length (E b) = BLOCK_SIZE"
  shows "recoverable sb E" and "b \<noteq> sb_log_start sb \<Longrightarrow> crash_disk E (recover_writes sb E) b = E b"
  using assms by (auto simp: recoverable_def disk_log_def recover_writes_def install_writes_def log_area_def)

text \<open>The three phases of a commit that is cut after \<open>k\<close> writes.\<close>

lemma commit_prefix:
  assumes "L = take (num_blocks h) (hdr_block_no h)" and "length L = num_blocks h" and "k \<le> length (commit_writes sb C h)"
  obtains (log) "k \<le> num_blocks h" and "take k (commit_writes sb C h) = take k (log_writes sb C L)"
  | (install) j where "num_blocks h < k"
      and "crash_disk D (take k (commit_writes sb C h)) = logged_disk sb h L C j D"
  | (finished) "num_blocks h < k" and "crash_disk D (take k (commit_writes sb C h)) =
      (logged_disk sb h L C (length L) D)(sb_log_start sb := encode_header (h\<lparr>num_blocks := 0\<rparr>))"
proof (cases "num_blocks h = 0")
  case True
  then show thesis using log assms by (simp add: commit_writes_def log_writes_def)
next
  case False
  let ?n = "num_blocks h" and ?H = "(sb_log_start sb, encode_header h)" and ?I = "map (\<lambda>b. (b, C b)) L"
  have W: "commit_writes sb C h = log_writes sb C L @ ?H # ?I @
      [(sb_log_start sb, encode_header (h\<lparr>num_blocks := 0\<rparr>))]"
    using False assms(1) by (simp add: commit_writes_def Let_def)
  have len: "length (log_writes sb C L) = ?n" using assms(2) by (simp add: log_writes_def)
  have "k \<le> Suc (Suc (?n + ?n))" using assms(2,3) len by (simp add: W)
  then consider "k \<le> ?n" | "k = Suc (?n + (k - Suc ?n))" "k - Suc ?n \<le> ?n" | "k = Suc (Suc (?n + ?n))"
    by linarith
  then show thesis
  proof cases
    case 1
    then show ?thesis using log len by (simp add: W)
  next
    case 2
    define j where "j = k - Suc ?n"
    with 2 have j: "k = Suc (?n + j)" "j \<le> ?n" by simp_all
    then have "take k (commit_writes sb C h) = log_writes sb C L @ ?H # map (\<lambda>b. (b, C b)) (take j L)"
      using len assms(2) by (simp add: W take_map)
    then show ?thesis using install [of j] j by (simp add: logged_disk_def)
  next
    case 3
    then have "take k (commit_writes sb C h) = commit_writes sb C h"
      using len assms(2) by (simp add: W)
    then show ?thesis using finished 3 by (simp add: W logged_disk_def)
  qed
qed

lemma crash_recovered:
  assumes t: "txn_ok sb h L C D" and e: "num_blocks (disk_header sb D) = 0"
    and k: "k \<le> length (commit_writes sb C h)"
  defines "E \<equiv> crash_disk D (take k (commit_writes sb C h))"
  shows "recoverable sb E \<and> (\<forall>b. b \<notin> log_area sb L \<longrightarrow>
    crash_disk E (recover_writes sb E) b = (if k \<le> num_blocks h then D b else C b))"
proof -
  note L = txn_okD [OF t]
  have ls: "b \<notin> log_area sb L \<Longrightarrow> b \<noteq> sb_log_start sb" for b by (auto simp: log_area_def)
  show ?thesis
    using L(2) [symmetric] L(3) k
  proof (cases rule: commit_prefix [where D = D])
    case log
    have E: "E = crash_disk D (take k (log_writes sb C L))" by (simp add: E_def log(2))
    have "length (E b) = BLOCK_SIZE" for b
      unfolding E by (rule length_crash_disk) (auto simp: L(7,8) log_writes_def list_all_iff dest!: in_set_takeD)
    moreover have "num_blocks (disk_header sb E) = 0"
      using e by (simp add: E disk_header_def log_writes_header)
    ultimately show ?thesis
      using ls empty_log_recovered [of sb E] log(1) log_writes_outside [OF L(4)] by (auto simp: E)
  next
    case (install j)
    then show ?thesis
      using logged_disk_recovered [OF t, where j = j] by (simp add: E_def)
  next
    case finished
    let ?h0 = "h\<lparr>num_blocks := 0\<rparr>"
    have ok0: "header_ok ?h0" using L(1) by (simp add: header_ok_def)
    have E: "E = (logged_disk sb h L C (length L) D)(sb_log_start sb := encode_header ?h0)"
      by (simp add: E_def finished(2))
    have "disk_header sb E = ?h0"
      using header_roundtrip [OF ok0] by (simp add: E disk_header_def)
    moreover have "length (E b) = BLOCK_SIZE" for b
      using logged_disk_length [OF t] ok0 by (simp add: E header_ok_def)
    ultimately have r: "recoverable sb E" "\<And>b. b \<notin> log_area sb L \<Longrightarrow> crash_disk E (recover_writes sb E) b = E b"
      using ls empty_log_recovered [of sb E] by auto
    have "E b = C b" if "b \<notin> log_area sb L" for b
      using logged_disk_at [OF t that, of "length L"] that L(9) [of b] by (auto simp: E log_area_def)
    with r finished(1) show ?thesis by auto
  qed
qed

lemma commit_ready_txn:
  assumes "commit_ready sb s"
  shows "txn_ok sb (header s) (log_list s) (content s) (blocks (dev s))"
proof -
  have s: "quiet s" "cache_wf s" "pins s = set (log_list s)" "header_ok (header s)" "log_clear_of sb (log_list s)"
    using assms by (auto simp: commit_ready_def quiet_def log_wf_def)
  have "content s b = blocks (dev s) b" if "b \<notin> set (log_list s)" for b
    using content_clean [OF s(2) quiet_held [OF s(1)]] s(3) that by simp
  then show ?thesis
    using s length_content [OF s(2)] by (auto simp: txn_ok_def log_list_def cache_wf_def)
qed

text \<open>
  (C1) Commit is atomic under crashes. Suppose the on-disk log is empty and \<^verbatim>\<open>commit\<close> runs.
  It returns, and for every prefix of the disk writes it makes, a machine that stops
  after that prefix and then runs \<^verbatim>\<open>recover_from_log\<close> on a cold cache ends with an empty
  log and, outside the log area, either the disk as it was before the commit (as long as
  the header block has not been written) or the disk with every block of the transaction
  at its new contents (from then on). No crash point shows a mixture.
\<close>
theorem commit_crash_atomic:
  assumes "commit_ready sb s" and "num_blocks (disk_header sb (blocks (dev s))) = 0"
  shows "\<exists>s' ws. commit sb s = Some s' \<and> history (dev s') = history (dev s) @ ws \<and>
    blocks (dev s') = crash_disk (blocks (dev s)) ws \<and>
    (\<forall>k \<le> length ws. \<exists>r.
       recover_from_log sb (cold_cache \<lparr>blocks = crash_disk (blocks (dev s)) (take k ws), history = []\<rparr>) = Some r \<and>
       log_list r = [] \<and> content r = blocks (dev r) \<and>
       (\<forall>b. b \<notin> log_area sb (log_list s) \<longrightarrow>
          blocks (dev r) b = (if k \<le> num_blocks (header s) then blocks (dev s) b else content s b)))"
proof -
  let ?D = "blocks (dev s)" and ?ws = "commit_writes sb (content s) (header s)"
  obtain s' where s': "commit sb s = Some s'" "dev s' = dev_writes ?ws (dev s)"
    using commit_spec [OF assms(1)] by blast
  have "\<exists>r. recover_from_log sb (cold_cache \<lparr>blocks = crash_disk ?D (take k ?ws), history = []\<rparr>) = Some r \<and>
       log_list r = [] \<and> content r = blocks (dev r) \<and> (\<forall>b. b \<notin> log_area sb (log_list s) \<longrightarrow>
          blocks (dev r) b = (if k \<le> num_blocks (header s) then ?D b else content s b))"
    if "k \<le> length ?ws" for k
  proof -
    note cr = crash_recovered [OF commit_ready_txn [OF assms(1)] assms(2) that]
    then obtain r where
      "recover_from_log sb (cold_cache \<lparr>blocks = crash_disk ?D (take k ?ws), history = []\<rparr>) = Some r"
      "dev r = dev_writes (recover_writes sb (crash_disk ?D (take k ?ws)))
         \<lparr>blocks = crash_disk ?D (take k ?ws), history = []\<rparr>"
      "content r = blocks (dev r)" "log_list r = []"
      using recover_spec [of sb "\<lparr>blocks = crash_disk ?D (take k ?ws), history = []\<rparr>"] by auto
    with cr show ?thesis by simp
  qed
  with s' show ?thesis by (intro exI [of _ s'] exI [of _ ?ws]) simp
qed

text \<open>A cache holding one block modified inside a transaction, on an otherwise zero disk.\<close>

definition demo_sb :: super_block where
  "demo_sb = \<lparr>sb_num_blocks = 1000, sb_num_data_blocks = 800, sb_num_inodes = 100,
     sb_num_log_blocks = 64, sb_log_start = 2, sb_inode_start = 70, sb_bitmap_start = 90\<rparr>"

definition demo_dev :: device where
  "demo_dev = \<lparr>blocks = (\<lambda>_. replicate BLOCK_SIZE 0), history = []\<rparr>"

definition demo_txn :: cache_state where
  "demo_txn = (cold_cache demo_dev)\<lparr>
     blk := (\<lambda>_. \<lparr>block_no = 200, acquired = False, pinned = True, lock = 1, valid = True,
        data = replicate BLOCK_SIZE 7\<rparr>),
     lru := [0], next_block := 1,
     header := \<lparr>num_blocks = 1, hdr_block_no = 200 # replicate 62 0\<rparr>\<rparr>"

lemma demo_empty_log: "num_blocks (disk_header demo_sb (blocks demo_dev)) = 0"
proof -
  have "le_nat (get_bytes 0 8 (replicate BLOCK_SIZE 0)) = 0"
    by (simp add: get_bytes_def)
  then show ?thesis
    by (simp add: disk_header_def decode_header_def demo_dev_def)
qed

lemma demo_txn_ready: "commit_ready demo_sb demo_txn"
  by (auto simp: commit_ready_def demo_txn_def cold_cache_def quiet_def cache_wf_def block_ok_def holds_def
      log_wf_def log_list_def pins_def header_ok_def log_clear_of_def log_area_def demo_sb_def
      cached_nos_def demo_dev_def list_all_iff)

lemma demo_txn_view [simp]: "dev demo_txn = demo_dev" "num_blocks (header demo_txn) = 1"
    "content demo_txn 200 = replicate BLOCK_SIZE 7"
  by (simp_all add: demo_txn_def content_def cache_lookup_def cold_cache_def)

theorem commit_crash_atomic_witness:
  "\<exists>s' ws. commit demo_sb demo_txn = Some s' \<and> history (dev s') = history (dev demo_txn) @ ws \<and>
    (\<forall>k \<le> length ws. \<exists>r.
       recover_from_log demo_sb (cold_cache \<lparr>blocks = crash_disk (blocks demo_dev) (take k ws), history = []\<rparr>) = Some r \<and>
       blocks (dev r) 200 = (if k \<le> 1 then replicate BLOCK_SIZE 0 else replicate BLOCK_SIZE 7))"
proof -
  have b: "200 \<notin> log_area demo_sb (log_list demo_txn)" by (simp add: log_area_def demo_sb_def demo_txn_def log_list_def)
  have e: "num_blocks (disk_header demo_sb (blocks (dev demo_txn))) = 0" by (simp add: demo_empty_log)
  have z: "blocks demo_dev 200 = replicate BLOCK_SIZE 0" by (simp add: demo_dev_def)
  obtain s' ws where c: "commit demo_sb demo_txn = Some s'" "history (dev s') = history (dev demo_txn) @ ws"
    "\<And>k. k \<le> length ws \<Longrightarrow> \<exists>r.
       recover_from_log demo_sb (cold_cache \<lparr>blocks = crash_disk (blocks demo_dev) (take k ws), history = []\<rparr>) = Some r \<and>
       (\<forall>b. b \<notin> log_area demo_sb (log_list demo_txn) \<longrightarrow>
          blocks (dev r) b = (if k \<le> 1 then blocks demo_dev b else content demo_txn b))"
    using commit_crash_atomic [OF demo_txn_ready e] unfolding demo_txn_view by metis
  have "\<exists>r. recover_from_log demo_sb (cold_cache \<lparr>blocks = crash_disk (blocks demo_dev) (take k ws), history = []\<rparr>) = Some r \<and>
       blocks (dev r) 200 = (if k \<le> 1 then replicate BLOCK_SIZE 0 else replicate BLOCK_SIZE 7)"
    if "k \<le> length ws" for k
    using c(3) [OF that] b unfolding demo_txn_view(3) [symmetric] z [symmetric] by blast
  with c(1,2) show ?thesis by blast
qed

text \<open>
  (C3) Commit is durable and re-establishes its own precondition: it returns with an empty
  log in memory and on disk and no pinned block, and every block outside the log area is
  on disk what the client saw through the cache when the commit began.
\<close>
theorem commit_durable:
  assumes "commit_ready sb s" and "num_blocks (disk_header sb (blocks (dev s))) = 0"
  shows "\<exists>s'. commit sb s = Some s' \<and> commit_ready sb s' \<and> log_list s' = [] \<and> pins s' = {} \<and>
    num_blocks (disk_header sb (blocks (dev s'))) = 0 \<and>
    (\<forall>b. b \<notin> log_area sb (log_list s) \<longrightarrow> blocks (dev s') b = content s b \<and> content s' b = content s b)"
proof -
  let ?W = "commit_writes sb (content s) (header s)" and ?D = "blocks (dev s)" and ?h = "header s"
  note t = commit_ready_txn [OF assms(1)]
  obtain s' where s': "commit sb s = Some s'" "dev s' = dev_writes ?W (dev s)" "commit_ready sb s'"
      "header s' = ?h\<lparr>num_blocks := 0\<rparr>" "pins s' = {}"
    using commit_spec [OF assms(1)] by blast
  have d: "content s' = blocks (dev s')"
    using content_clean [of s'] s'(3,5) quiet_held [of s'] by (auto simp: commit_ready_def quiet_def fun_eq_iff)
  have out: "crash_disk ?D ?W b = content s b" if "b \<notin> log_area sb (log_list s)" for b
  proof (cases "num_blocks ?h = 0")
    case True
    then show ?thesis using txn_okD(3,9) [OF t] by (simp add: commit_writes_def)
  next
    case False
    then have "crash_disk ?D ?W = (logged_disk sb ?h (log_list s) (content s) (length (log_list s)) ?D)
        (sb_log_start sb := encode_header (?h\<lparr>num_blocks := 0\<rparr>))"
      using txn_okD(2) [OF t] by (simp add: commit_writes_def logged_disk_def Let_def)
    then show ?thesis
      using logged_disk_at [OF t that, of "length (log_list s)"] that txn_okD(9) [OF t, of b]
      by (auto simp: log_area_def)
  qed
  have ok0: "header_ok (?h\<lparr>num_blocks := 0\<rparr>)" using txn_okD(1) [OF t] by (simp add: header_ok_def)
  have "num_blocks (disk_header sb (blocks (dev s'))) = 0"
  proof (cases "num_blocks ?h = 0")
    case False
    then have "crash_disk ?D ?W (sb_log_start sb) = encode_header (?h\<lparr>num_blocks := 0\<rparr>)"
      by (simp add: commit_writes_def Let_def)
    then show ?thesis using header_roundtrip [OF ok0] by (simp add: s'(2) disk_header_def)
  qed (use assms(2) in \<open>simp add: s'(2) commit_writes_def\<close>)
  with s' d out show ?thesis by (auto simp: log_list_def)
qed

theorem commit_durable_witness:
  "\<exists>s'. commit demo_sb demo_txn = Some s' \<and> log_list s' = [] \<and>
     blocks (dev s') 200 = replicate BLOCK_SIZE 7"
proof -
  have b: "200 \<notin> log_area demo_sb (log_list demo_txn)" by (simp add: log_area_def demo_sb_def demo_txn_def log_list_def)
  have e: "num_blocks (disk_header demo_sb (blocks (dev demo_txn))) = 0" by (simp add: demo_empty_log)
  from commit_durable [OF demo_txn_ready e] b show ?thesis
    unfolding demo_txn_view(3) [symmetric] by blast
qed

lemma crash_disk_agree:
  "b \<in> fst ` set ws \<or> D b = E b \<Longrightarrow> crash_disk D ws b = crash_disk E ws b"
  by (induction ws arbitrary: D E) auto

lemma recover_prefix:
  assumes r: "recoverable sb D" and k: "k \<le> length (recover_writes sb D)"
  defines "E \<equiv> crash_disk D (take k (recover_writes sb D))"
  shows "recoverable sb E" and "crash_disk E (recover_writes sb E) = crash_disk D (recover_writes sb D)"
proof -
  let ?L = "disk_log sb D" and ?I = "install_writes sb D (disk_log sb D)" and ?l = "sb_log_start sb"
  let ?H0 = "encode_header ((disk_header sb D)\<lparr>num_blocks := 0\<rparr>)"
  have ok: "header_ok (disk_header sb D)"
    using r unfolding recoverable_def disk_header_def by (intro decode_header_ok) auto
  then have cl: "set ?L \<inter> log_area sb ?L = {}" "length ?L \<le> LOG_MAX_SIZE"
      and ok0: "header_ok ((disk_header sb D)\<lparr>num_blocks := 0\<rparr>)"
    using r by (auto simp: recoverable_def disk_log_def header_ok_def)
  have len: "length (E b) = BLOCK_SIZE" for b
    unfolding E_def using r length_encode_header [of "(disk_header sb D)\<lparr>num_blocks := 0\<rparr>"] ok0
    by (intro length_crash_disk)
      (auto simp: recoverable_def recover_writes_def install_writes_def list_all_iff header_ok_def dest!: in_set_takeD)
  show both: "recoverable sb E" "crash_disk E (recover_writes sb E) = crash_disk D (recover_writes sb D)"
  proof (atomize (full), cases "k \<le> length ?I")
    case True
    then have E: "E = crash_disk D (take k ?I)" by (simp add: E_def recover_writes_def)
    have sub: "fst ` set (take k ?I) \<subseteq> set ?L"
      using image_mono [OF set_take_subset [of k ?I], of fst] by (simp add: install_writes_fst)
    have same: "E b = D b" if "b \<in> log_area sb ?L" for b
      unfolding E using that sub cl by (intro crash_disk_other) auto
    have "disk_header sb E = disk_header sb D"
      using same [of ?l] by (simp add: disk_header_def log_area_def)
    then have dl: "disk_log sb E = ?L" "disk_header sb E = disk_header sb D" by (simp_all add: disk_log_def)
    have "install_writes sb E ?L = ?I"
      unfolding install_writes_def using same slot_area [of _ ?L sb] by (intro map_cong) auto
    moreover have "crash_disk E ?I b = crash_disk D ?I b" for b
      using sub by (intro crash_disk_agree) (auto simp: E install_writes_fst intro!: crash_disk_other)
    ultimately have "crash_disk E (recover_writes sb E) = crash_disk D (recover_writes sb D)"
      by (simp add: recover_writes_def dl fun_eq_iff)
    moreover have "recoverable sb E"
      using r len by (simp add: recoverable_def dl)
    ultimately show "recoverable sb E \<and> crash_disk E (recover_writes sb E) = crash_disk D (recover_writes sb D)"
      by simp
  next
    case False
    then have "take k (recover_writes sb D) = recover_writes sb D"
      using k by (simp add: recover_writes_def)
    then have E: "E = crash_disk D (recover_writes sb D)" by (simp add: E_def)
    then have l: "E ?l = ?H0" by (simp add: recover_writes_def)
    then have h: "disk_header sb E = (disk_header sb D)\<lparr>num_blocks := 0\<rparr>"
      using header_roundtrip [OF ok0] by (simp add: disk_header_def)
    then have "recover_writes sb E = [(?l, ?H0)]"
      by (simp add: recover_writes_def disk_log_def install_writes_def)
    then show "recoverable sb E \<and> crash_disk E (recover_writes sb E) = crash_disk D (recover_writes sb D)"
      using l len h by (simp add: E [symmetric] recoverable_def disk_log_def fun_upd_idem)
  qed
qed

text \<open>
  (C2) Recovery can itself be interrupted. On a disk with a sane log header,
  \<^verbatim>\<open>recover_from_log\<close> returns, leaves an empty log and a cache that agrees with the disk,
  and for every prefix of the disk writes it makes, stopping there and running it again
  from a cold cache ends with exactly the same disk.
\<close>
theorem recover_idempotent:
  assumes "recoverable sb (blocks d)"
  shows "\<exists>r ws. recover_from_log sb (cold_cache d) = Some r \<and> history (dev r) = history d @ ws \<and>
    blocks (dev r) = crash_disk (blocks d) ws \<and> content r = blocks (dev r) \<and> commit_ready sb r \<and>
    log_list r = [] \<and>
    (\<forall>k \<le> length ws. \<exists>r'.
       recover_from_log sb (cold_cache \<lparr>blocks = crash_disk (blocks d) (take k ws), history = []\<rparr>) = Some r' \<and>
       blocks (dev r') = blocks (dev r))"
proof -
  let ?ws = "recover_writes sb (blocks d)"
  obtain r where r: "recover_from_log sb (cold_cache d) = Some r" "dev r = dev_writes ?ws d"
      "content r = blocks (dev r)" "log_list r = []" "commit_ready sb r"
    using recover_spec [OF assms] by blast
  have "\<exists>r'. recover_from_log sb (cold_cache \<lparr>blocks = crash_disk (blocks d) (take k ?ws), history = []\<rparr>) = Some r' \<and>
       blocks (dev r') = blocks (dev r)" if "k \<le> length ?ws" for k
    using recover_spec [of sb "\<lparr>blocks = crash_disk (blocks d) (take k ?ws), history = []\<rparr>"]
      recover_prefix [OF assms that] r(2) by auto
  with r show ?thesis by (intro exI [of _ r] exI [of _ ?ws]) simp
qed

theorem recover_idempotent_witness:
  "\<exists>r. recover_from_log demo_sb (cold_cache demo_dev) = Some r \<and> content r = blocks (dev r)"
proof -
  have "recoverable demo_sb (blocks demo_dev)"
    using demo_empty_log by (simp add: recoverable_def disk_log_def) (simp add: demo_dev_def)
  from recover_idempotent [OF this] show ?thesis by blast
qed

end
