(* ===== verification/Log_Protocol.thy ===== *)
theory Log_Protocol
  imports Cache_Log
begin

text \<open>
  \<^verbatim>\<open>cache_begin_op\<close> and \<^verbatim>\<open>cache_end_op\<close> of \<^verbatim>\<open>src/src/fs/cache.c\<close>. Both work under
  \<^verbatim>\<open>log.lock\<close>, so each critical section is a function of the state; a thread that has to
  wait leaves the section and starts again (\<^verbatim>\<open>begin_op\<close>) or sleeps on \<^verbatim>\<open>s2\<close>
  (\<^verbatim>\<open>end_op\<close>). The step relation interleaves the critical sections of any number of
  threads with \<^verbatim>\<open>sync\<close> and with every other cache operation; the invariant is the
  accounting that keeps the log from overflowing.
\<close>

section \<open>The critical sections\<close>

datatype begin_result = Begun | WaitS1 | WaitS3

text \<open>
  One round of the loop of \<^verbatim>\<open>begin_op\<close>. The comparison is on \<^verbatim>\<open>usize\<close>: the signed
  \<^verbatim>\<open>op_reserved\<close> is converted to 64 bits first.
\<close>

definition begin_op_try :: "op_context \<Rightarrow> cache_state \<Rightarrow> begin_result \<times> op_context \<times> cache_state" where
  "begin_op_try ctx s =
     (if committing (oplog s) then (WaitS3, ctx, s)
      else if (int (num_blocks (header s)) + op_reserved (oplog s) + int OP_MAX_NUM_BLOCKS) mod 2 ^ 64
          > int LOG_MAX_SIZE then (WaitS1, ctx, s)
      else (Begun, ctx\<lparr>rm := OP_MAX_NUM_BLOCKS\<rparr>,
        s\<lparr>oplog := (oplog s)\<lparr>outstanding := outstanding (oplog s) + 1,
            op_reserved := op_reserved (oplog s) + int OP_MAX_NUM_BLOCKS\<rparr>\<rparr>))"

datatype end_result = Commits | WaitS2

definition end_op_enter :: "op_context \<Rightarrow> cache_state \<Rightarrow> end_result \<times> cache_state" where
  "end_op_enter ctx s =
     (let s = s\<lparr>oplog := (oplog s)\<lparr>outstanding := outstanding (oplog s) - 1,
            op_reserved := op_reserved (oplog s) - int (rm ctx)\<rparr>\<rparr>
      in if outstanding (oplog s) = 0
         then (Commits, s\<lparr>oplog := (oplog s)\<lparr>committing := True\<rparr>\<rparr>)
         else (WaitS2, s))"

definition end_op_finish :: "cache_state \<Rightarrow> cache_state" where
  "end_op_finish s = s\<lparr>oplog := (oplog s)\<lparr>committing := False\<rparr>\<rparr>"

text \<open>\<^verbatim>\<open>end_op\<close> of a thread that is not interrupted.\<close>

definition cache_end_op ::
  "super_block \<Rightarrow> op_context \<Rightarrow> cache_state \<Rightarrow> (end_result \<times> cache_state) option" where
  "cache_end_op sb ctx s =
     (case end_op_enter ctx s of
        (Commits, s) \<Rightarrow> do { s \<leftarrow> commit sb s; Some (Commits, end_op_finish s) }
      | (WaitS2, s) \<Rightarrow> Some (WaitS2, s))"

section \<open>The step relation\<close>

record log_sys =
  cache :: cache_state
  ops :: "nat \<rightharpoonup> op_context"
  committer :: "nat option"

inductive log_step :: "super_block \<Rightarrow> log_sys \<Rightarrow> log_sys \<Rightarrow> bool" for sb where
  begin_step: "ops S t = None \<Longrightarrow> begin_op_try ctx (cache S) = (Begun, ctx', c') \<Longrightarrow>
    log_step sb S (S\<lparr>cache := c', ops := (ops S)(t \<mapsto> ctx')\<rparr>)"
| sync_step: "ops S t = Some ctx \<Longrightarrow> holds (cache S) p b \<Longrightarrow>
    cache_sync (Some ctx) p (cache S) = Some (Some ctx', c') \<Longrightarrow>
    log_step sb S (S\<lparr>cache := c', ops := (ops S)(t \<mapsto> ctx')\<rparr>)"
| end_wait_step: "ops S t = Some ctx \<Longrightarrow> end_op_enter ctx (cache S) = (WaitS2, c') \<Longrightarrow>
    log_step sb S (S\<lparr>cache := c', ops := (ops S)(t := None)\<rparr>)"
| end_commit_step: "ops S t = Some ctx \<Longrightarrow> end_op_enter ctx (cache S) = (Commits, c') \<Longrightarrow>
    log_step sb S (S\<lparr>cache := c', ops := (ops S)(t := None), committer := Some t\<rparr>)"
| commit_step: "committer S = Some t \<Longrightarrow> commit sb (cache S) = Some c' \<Longrightarrow>
    log_step sb S (S\<lparr>cache := end_op_finish c', committer := None\<rparr>)"
| other_step: "same_log (cache S) c' \<Longrightarrow> log_step sb S (S\<lparr>cache := c'\<rparr>)"

inductive reachable :: "super_block \<Rightarrow> log_sys \<Rightarrow> bool" for sb where
  start: "header c = \<lparr>num_blocks = 0, hdr_block_no = bs\<rparr> \<Longrightarrow> length bs = LOG_MAX_SIZE \<Longrightarrow>
    oplog c = \<lparr>committing = False, outstanding = 0, op_reserved = 0\<rparr> \<Longrightarrow>
    reachable sb \<lparr>cache = c, ops = Map.empty, committer = None\<rparr>"
| step: "reachable sb S \<Longrightarrow> log_step sb S S' \<Longrightarrow> reachable sb S'"

section \<open>The accounting invariant\<close>

definition reserved :: "(nat \<rightharpoonup> op_context) \<Rightarrow> nat" where
  "reserved m = (\<Sum>t \<in> dom m. rm (the (m t)))"

definition sys_inv :: "log_sys \<Rightarrow> bool" where
  "sys_inv S \<longleftrightarrow> finite (dom (ops S)) \<and>
     (\<forall>t ctx. ops S t = Some ctx \<longrightarrow> rm ctx \<le> OP_MAX_NUM_BLOCKS) \<and>
     op_reserved (oplog (cache S)) = int (reserved (ops S)) \<and>
     unat (outstanding (oplog (cache S))) = card (dom (ops S)) \<and>
     OP_MAX_NUM_BLOCKS * card (dom (ops S)) \<le> num_blocks (header (cache S)) + reserved (ops S) \<and>
     num_blocks (header (cache S)) + reserved (ops S) \<le> LOG_MAX_SIZE \<and>
     length (hdr_block_no (header (cache S))) = LOG_MAX_SIZE \<and>
     (committing (oplog (cache S)) \<longleftrightarrow> committer S \<noteq> None) \<and>
     (committer S \<noteq> None \<longrightarrow> ops S = Map.empty)"

lemma reserved_add:
  assumes "finite (dom m)" and "m t = None"
  shows "reserved (m(t \<mapsto> c)) = reserved m + rm c"
proof -
  have "t \<notin> dom m" using assms(2) by auto
  moreover have "(\<Sum>u \<in> dom m. rm (the ((m(t \<mapsto> c)) u))) = reserved m"
    unfolding reserved_def using \<open>t \<notin> dom m\<close> by (intro sum.cong) auto
  ultimately show ?thesis
    using assms(1) unfolding reserved_def by (simp add: sum.insert)
qed

lemma reserved_del:
  assumes "finite (dom m)" and "m t = Some c"
  shows "reserved m = reserved (m(t := None)) + rm c"
proof -
  have "(m(t := None))(t \<mapsto> c) = m" using assms(2) by auto
  then show ?thesis using reserved_add [of "m(t := None)" t c] assms(1) by simp
qed

lemma reserved_upd:
  assumes "finite (dom m)" and "m t = Some c"
  shows "reserved (m(t \<mapsto> c')) + rm c = reserved m + rm c'"
  using reserved_del [OF assms] reserved_add [of "m(t := None)" t c'] assms(1) by simp

lemma card_dom_add: "finite (dom m) \<Longrightarrow> m t = None \<Longrightarrow> card (insert t (dom m)) = Suc (card (dom m))"
  by (simp add: card_insert_if domIff)

lemma card_dom_del: "finite (dom m) \<Longrightarrow> m t = Some c \<Longrightarrow> card (dom m) = Suc (card (dom (m(t := None))))"
  using card.remove [of "dom m" t] by (simp add: domI)

lemma dom_upd_same: "m t = Some c \<Longrightarrow> dom (m(t \<mapsto> c')) = dom m"
  by auto

lemma few_ops:
  assumes "sys_inv S"
  shows "card (dom (ops S)) \<le> 6" and "reserved (ops S) \<le> LOG_MAX_SIZE"
  using assms unfolding sys_inv_def by auto

lemma acquire_same_log: "cache_acquire b s = Some (p, s') \<Longrightarrow> same_log s s'"
  by (auto simp: cache_acquire_def wait_block_def device_read_def set_data_def same_log_def Let_def
      split: option.splits if_splits)

lemma same_log_ops:
  "same_log s (set_data p d s)" "same_log s (device_write p s)" "same_log s (cache_release p s)"
  "same_log s (upd_blk p f s)"
  by (simp_all add: set_data_def device_write_def cache_release_def post_block_def same_log_def)

lemma write_one_same_log: "write_one sb i s = Some s' \<Longrightarrow> same_log s s'"
  unfolding write_one_def
  by (auto split: if_splits elim!: bind_eq_SomeE dest!: acquire_same_log
      intro!: same_log_trans [OF _ same_log_ops(3)] same_log_trans [OF _ same_log_ops(2)]
        same_log_trans [OF _ same_log_ops(1)] intro: same_log_trans)

lemma install_one_same_log: "install_one sb i s = Some s' \<Longrightarrow> same_log s s'"
  unfolding install_one_def
  by (auto split: if_splits elim!: bind_eq_SomeE dest!: acquire_same_log
      intro!: same_log_trans [OF _ same_log_ops(3)] same_log_trans [OF _ same_log_ops(2)]
        same_log_trans [OF _ same_log_ops(1)] same_log_trans [OF _ same_log_ops(4)] intro: same_log_trans)

lemma for_each_same_log:
  "(\<And>i s s'. f i s = Some s' \<Longrightarrow> same_log s s') \<Longrightarrow> for_each f xs s = Some s' \<Longrightarrow> same_log s s'"
proof (induction xs arbitrary: s)
  case (Cons x xs)
  from Cons.prems(2) obtain s1 where s1: "f x s = Some s1" "for_each f xs s1 = Some s'"
    by (auto elim!: bind_eq_SomeE)
  from Cons.prems(1) [OF s1(1)] Cons.IH [OF Cons.prems(1) s1(2)] show ?case
    by (rule same_log_trans)
qed simp

lemma commit_counters:
  assumes "commit sb s = Some s'"
  shows "header s' = (header s)\<lparr>num_blocks := 0\<rparr> \<and> oplog s' = oplog s"
proof (cases "num_blocks (header s) > 0")
  case True
  with assms obtain s1 s2 where "write_log sb s = Some s1" "install_trans sb (write_header sb s1) = Some s2"
      "s' = write_header sb (clear_header s2)"
    by (auto simp: commit_def elim!: bind_eq_SomeE)
  moreover from this have "same_log s s1" "same_log (write_header sb s1) s2"
    using for_each_same_log [OF write_one_same_log] for_each_same_log [OF install_one_same_log]
    by (auto simp: write_log_def install_trans_def)
  ultimately show ?thesis by (simp add: same_log_def)
next
  case False
  with assms show ?thesis by (simp add: commit_def)
qed

section \<open>Every step keeps the invariant\<close>

lemma inv_begin:
  assumes "sys_inv S" and "ops S t = None" and "begin_op_try ctx (cache S) = (Begun, ctx', c')"
  shows "sys_inv (S\<lparr>cache := c', ops := (ops S)(t \<mapsto> ctx')\<rparr>)"
proof -
  let ?n = "num_blocks (header (cache S))" and ?m = "ops S"
  have i: "finite (dom ?m)" "op_reserved (oplog (cache S)) = int (reserved ?m)"
      "unat (outstanding (oplog (cache S))) = card (dom ?m)" "?n + reserved ?m \<le> LOG_MAX_SIZE"
    using assms(1) by (auto simp: sys_inv_def)
  have nc: "\<not> committing (oplog (cache S))"
    using assms(3) by (auto simp: begin_op_try_def)
  have "(int ?n + op_reserved (oplog (cache S)) + 10) mod 2 ^ 64 \<le> 63"
    using assms(3) nc by (auto simp: begin_op_try_def split: if_splits)
  then have fits: "?n + reserved ?m + 10 \<le> 63"
    using i(2,4) by simp
  have c': "header c' = header (cache S)" "rm ctx' = 10"
      "oplog c' = (oplog (cache S))\<lparr>outstanding := outstanding (oplog (cache S)) + 1,
         op_reserved := op_reserved (oplog (cache S)) + 10\<rparr>"
    using assms(3) by (auto simp: begin_op_try_def split: if_splits)
  have "unat (outstanding (oplog (cache S)) + 1) = Suc (card (dom ?m))"
    using few_ops(1) [OF assms(1)] i(3) by (simp add: unat_word_ariths)
  then show ?thesis
    using assms(1,2) i fits nc
    by (auto simp: sys_inv_def c' reserved_add card_dom_add)
qed

lemma sync_cases:
  assumes "cache_sync (Some ctx) p s = Some (ctx', s')"
  obtains (old) "ctx' = Some ctx" and "s' = s"
  | (new) "rm ctx > 0" and "ctx' = Some (ctx\<lparr>rm := rm ctx - 1\<rparr>)"
      and "num_blocks (header s') = num_blocks (header s) + 1"
      and "length (hdr_block_no (header s')) = length (hdr_block_no (header s))"
      and "oplog s' = (oplog s)\<lparr>op_reserved := op_reserved (oplog s) - 1\<rparr>"
  using assms by (auto simp: cache_sync_def log_append_def Let_def split: if_splits)

lemma inv_sync:
  assumes "sys_inv S" and "ops S t = Some ctx" and "cache_sync (Some ctx) p (cache S) = Some (Some ctx', c')"
  shows "sys_inv (S\<lparr>cache := c', ops := (ops S)(t \<mapsto> ctx')\<rparr>)"
  using assms(3)
proof (cases rule: sync_cases)
  case old
  then have "(ops S)(t \<mapsto> ctx') = ops S" using assms(2) by (auto simp: fun_upd_idem)
  with old assms(1) show ?thesis by simp
next
  case new
  have i: "finite (dom (ops S))" "rm ctx \<le> 10" "insert t (dom (ops S)) = dom (ops S)"
      "op_reserved (oplog (cache S)) = int (reserved (ops S))"
    using assms(1,2) by (auto simp: sys_inv_def)
  have r: "reserved (ops S) = Suc (reserved ((ops S)(t \<mapsto> ctx')))"
    using reserved_upd [OF i(1) assms(2), of ctx'] new(1,2) by simp
  have "committer S = None" using assms(1,2) by (auto simp: sys_inv_def)
  with new i r assms(1) show ?thesis
    by (auto simp: sys_inv_def)
qed

lemma inv_end:
  assumes "sys_inv S" and "ops S t = Some ctx" and "end_op_enter ctx (cache S) = (r, c')"
  shows "sys_inv (S\<lparr>cache := c', ops := (ops S)(t := None),
    committer := (case r of Commits \<Rightarrow> Some t | WaitS2 \<Rightarrow> None)\<rparr>)"
proof -
  let ?m = "ops S" and ?m' = "(ops S)(t := None)" and ?o = "oplog (cache S)"
  have i: "finite (dom ?m)" "rm ctx \<le> 10" "op_reserved ?o = int (reserved ?m)"
      "unat (outstanding ?o) = card (dom ?m)" "committer S = None" "\<not> committing ?o"
    using assms(1,2) by (auto simp: sys_inv_def)
  have r: "reserved ?m = reserved ?m' + rm ctx" "card (dom ?m) = Suc (card (dom ?m'))"
    using reserved_del [OF i(1) assms(2)] card_dom_del [OF i(1) assms(2)] by simp_all
  have o: "unat (outstanding ?o - 1) = card (dom ?m')"
  proof -
    have "outstanding ?o \<noteq> 0" using i(4) r(2) by auto
    then show ?thesis using i(4) r(2) by (simp add: unat_minus_one)
  qed
  have f: "finite (dom ?m')" "\<And>u c. ?m' u = Some c \<Longrightarrow> rm c \<le> 10"
    using assms(1) by (auto simp: sys_inv_def split: if_splits)
  have "outstanding ?o - 1 = 0 \<longleftrightarrow> unat (outstanding ?o - 1) = 0"
    by (rule unat_eq_zero [symmetric])
  then have z: "outstanding ?o - 1 = 0 \<longleftrightarrow> ?m' = Map.empty"
    unfolding o using f(1) by (metis card_eq_0_iff dom_eq_empty_conv)
  show ?thesis
    using assms(1,3) i r o z f
    by (auto simp: sys_inv_def end_op_enter_def Let_def split: if_splits)
qed

lemma step_inv: "log_step sb S S' \<Longrightarrow> sys_inv S \<Longrightarrow> sys_inv S'"
proof (induction rule: log_step.induct)
  case (begin_step S t ctx ctx' c')
  then show ?case by (blast intro: inv_begin)
next
  case (sync_step S t ctx p b ctx' c')
  then show ?case by (blast intro: inv_sync)
next
  case (end_wait_step S t ctx c')
  moreover have "committer S = None" using end_wait_step by (auto simp: sys_inv_def)
  then have "S\<lparr>cache := c', ops := (ops S)(t := None), committer := None\<rparr> =
      S\<lparr>cache := c', ops := (ops S)(t := None)\<rparr>" by simp
  ultimately show ?case using inv_end [of S t ctx WaitS2 c'] by simp
next
  case (end_commit_step S t ctx c')
  then show ?case using inv_end [of S t ctx Commits c'] by simp
next
  case (commit_step S t c')
  then show ?case
    using commit_counters [of sb "cache S" c'] by (auto simp: sys_inv_def end_op_finish_def reserved_def)
next
  case (other_step S c')
  then show ?case by (simp add: sys_inv_def same_log_def)
qed

lemma reachable_inv: "reachable sb S \<Longrightarrow> sys_inv S"
proof (induction rule: reachable.induct)
  case (start c bs)
  then show ?case by (simp add: sys_inv_def reserved_def)
next
  case (step S S')
  then show ?case by (blast intro: step_inv)
qed

section \<open>Properties\<close>

text \<open>
  (C4) The log never overflows and no operation ever runs out of log space that it was
  promised. In every state that any interleaving of \<^verbatim>\<open>begin_op\<close>, \<^verbatim>\<open>sync\<close>, \<^verbatim>\<open>end_op\<close>,
  commits and other cache operations can reach, the recorded blocks plus the budgets of
  all running operations fit in the log, at most six operations run at once, the
  counters \<^verbatim>\<open>outstanding\<close> and \<^verbatim>\<open>op_reserved\<close> are exact, and \<^verbatim>\<open>sync\<close> by a running
  operation that has budget left always succeeds.
\<close>
theorem log_never_overflows:
  assumes "reachable sb S" and "ops S t = Some ctx" and "rm ctx > 0"
  shows "num_blocks (header (cache S)) + reserved (ops S) \<le> LOG_MAX_SIZE \<and>
    card (dom (ops S)) \<le> 6 \<and>
    unat (outstanding (oplog (cache S))) = card (dom (ops S)) \<and>
    op_reserved (oplog (cache S)) = int (reserved (ops S)) \<and>
    cache_sync (Some ctx) p (cache S) \<noteq> None"
proof -
  note inv = reachable_inv [OF assms(1)]
  have f: "finite (dom (ops S))" "num_blocks (header (cache S)) + reserved (ops S) \<le> LOG_MAX_SIZE"
      "length (hdr_block_no (header (cache S))) = LOG_MAX_SIZE"
    using inv by (auto simp: sys_inv_def)
  have "rm ctx \<le> reserved (ops S)"
    using reserved_del [OF f(1) assms(2)] by simp
  then have "cache_sync (Some ctx) p (cache S) \<noteq> None"
    using f assms(3) by (auto simp: cache_sync_def Let_def)
  then show ?thesis
    using inv few_ops(1) [OF inv] by (simp add: sys_inv_def)
qed

lemma demo_start: "reachable demo_sb \<lparr>cache = cold_cache demo_dev, ops = Map.empty, committer = None\<rparr>"
  by (rule reachable.start [where bs = "replicate LOG_MAX_SIZE 0"]) (simp_all add: cold_cache_def)

definition demo_begun :: log_sys where
  "demo_begun = \<lparr>cache = snd (snd (begin_op_try \<lparr>rm = 0\<rparr> (cold_cache demo_dev))),
     ops = [1 \<mapsto> \<lparr>rm = 10\<rparr>], committer = None\<rparr>"

lemma demo_begin: "reachable demo_sb demo_begun"
proof (rule reachable.step [OF demo_start])
  let ?S = "\<lparr>cache = cold_cache demo_dev, ops = Map.empty, committer = None\<rparr> :: log_sys"
  have b: "begin_op_try \<lparr>rm = 0\<rparr> (cache ?S) = (Begun, \<lparr>rm = 10\<rparr>, cache demo_begun)"
    by (simp add: begin_op_try_def demo_begun_def)
  have "demo_begun = ?S\<lparr>cache := cache demo_begun, ops := (ops ?S)(1 \<mapsto> \<lparr>rm = 10\<rparr>)\<rparr>"
    by (simp add: demo_begun_def)
  then show "log_step demo_sb ?S demo_begun"
    using log_step.begin_step [OF _ b, of 1 demo_sb] by simp
qed

theorem log_never_overflows_witness:
  "cache_sync (Some \<lparr>rm = 10\<rparr>) 0 (cache demo_begun) \<noteq> None \<and>
   outstanding (oplog (cache demo_begun)) = 1"
proof
  have o: "ops demo_begun 1 = Some \<lparr>rm = 10\<rparr>" by (simp add: demo_begun_def)
  show "cache_sync (Some \<lparr>rm = 10\<rparr>) 0 (cache demo_begun) \<noteq> None"
    using log_never_overflows [OF demo_begin o, of 0] by simp
qed (simp add: demo_begun_def begin_op_try_def)

text \<open>
  (C5) A commit starts only when no operation is running, and none starts until it is over:
  in every reachable state in which a thread is committing, no thread is inside an
  operation, nothing is reserved, the flag \<^verbatim>\<open>committing\<close> is set, and \<^verbatim>\<open>begin_op\<close> sends
  every caller to wait on \<^verbatim>\<open>s3\<close>.
\<close>
theorem commit_excludes_operations:
  assumes "reachable sb S" and "committer S = Some t"
  shows "ops S = Map.empty \<and> op_reserved (oplog (cache S)) = 0 \<and> outstanding (oplog (cache S)) = 0 \<and>
    committing (oplog (cache S)) \<and> begin_op_try ctx (cache S) = (WaitS3, ctx, cache S)"
  using reachable_inv [OF assms(1)] assms(2)
  by (auto simp: sys_inv_def reserved_def begin_op_try_def unat_eq_zero)

theorem commit_excludes_operations_witness:
  "\<exists>S. reachable demo_sb S \<and> committer S = Some 1 \<and> op_reserved (oplog (cache S)) = 0"
proof -
  have o: "ops demo_begun 1 = Some \<lparr>rm = 10\<rparr>" by (simp add: demo_begun_def)
  obtain c' where c': "end_op_enter \<lparr>rm = 10\<rparr> (cache demo_begun) = (Commits, c')"
    by (simp add: end_op_enter_def demo_begun_def begin_op_try_def)
  let ?S = "demo_begun\<lparr>cache := c', ops := (ops demo_begun)(1 := None), committer := Some 1\<rparr>"
  have r: "reachable demo_sb ?S"
    by (rule reachable.step [OF demo_begin log_step.end_commit_step [OF o c']])
  then have "op_reserved (oplog (cache ?S)) = 0"
    using commit_excludes_operations [OF r, of 1] by simp
  with r show ?thesis by (intro exI [of _ ?S]) simp
qed

end
