(* ===== verification/Swap.thy ===== *)
theory Swap
  imports Log_Protocol
begin

text \<open>
  The swap area of \<^verbatim>\<open>src/src/fs/cache.c\<close>: blocks \<^verbatim>\<open>SWAP_START\<close> to \<^verbatim>\<open>SWAP_END\<close> of the disk
  are handed out in runs of eight (one page) with a map \<^verbatim>\<open>swap_valid\<close> of the blocks in
  use; and \<^verbatim>\<open>init_bcache\<close>, which recovers the log and then initialises that map. A store
  to the map outside its bounds is undefined in C; the model returns the list of such
  stray indices beside the state.
\<close>

section \<open>Operations\<close>

definition swap_store :: "nat \<Rightarrow> bool \<Rightarrow> nat list \<times> cache_state \<Rightarrow> nat list \<times> cache_state" where
  "swap_store i v = (\<lambda>(stray, s).
     if i < length (swap_valid s) then (stray, s\<lparr>swap_valid := (swap_valid s)[i := v]\<rparr>)
     else (stray @ [i], s))"

definition init_bcache :: "super_block \<Rightarrow> device \<Rightarrow> (nat list \<times> cache_state) option" where
  "init_bcache sb d = do {
     let s = cold_cache d;
     s \<leftarrow> recover_from_log sb s;
     Some (fold (\<lambda>i. swap_store i False) [SWAP_START..<SWAP_END] ([], s)) }"

definition release_8_blocks :: "u32 \<Rightarrow> cache_state \<Rightarrow> cache_state" where
  "release_8_blocks bno s =
     (let start = unat (bno - of_nat SWAP_START);
          bound = unat (bno - of_nat SWAP_START + 8)
      in s\<lparr>swap_valid := fold (\<lambda>i sv. sv[i := False]) [start..<min bound (SWAP_END - SWAP_START)]
           (swap_valid s)\<rparr>)"

text \<open>The search loop of \<^verbatim>\<open>find_and_set_8_blocks\<close>, with its window \<open>[left, right)\<close>.\<close>

function find_eight :: "bool list \<Rightarrow> nat \<Rightarrow> nat \<Rightarrow> (nat \<times> nat) option" where
  "find_eight sv left right =
     (if right < SWAP_END - SWAP_START then
        if \<not> sv ! right then
          if right + 1 - left = 8 then Some (left, right + 1) else find_eight sv left (right + 1)
        else find_eight sv (right + 1) (right + 1)
      else None)"
  by pat_completeness auto
termination by (relation "measure (\<lambda>(sv, l, r). SWAP_END - SWAP_START - r)") auto

declare find_eight.simps [simp del]

definition find_and_set_8_blocks :: "cache_state \<Rightarrow> (nat \<times> cache_state) option" where
  "find_and_set_8_blocks s =
     (case find_eight (swap_valid s) 0 0 of
        Some (left, right) \<Rightarrow>
          Some (SWAP_START + left,
            s\<lparr>swap_valid := fold (\<lambda>i sv. sv[i := True]) [left..<right] (swap_valid s)\<rparr>)
      | None \<Rightarrow> None)"

section \<open>The search finds the first run\<close>

definition free_run :: "bool list \<Rightarrow> nat \<Rightarrow> bool" where
  "free_run sv l \<longleftrightarrow> (\<forall>i < 8. \<not> sv ! (l + i))"

definition first_run :: "bool list \<Rightarrow> nat option" where
  "first_run sv = List.find (free_run sv) [0..<SWAP_END - SWAP_START - 7]"

lemma first_run_Some:
  "l \<le> 192 \<Longrightarrow> free_run sv l \<Longrightarrow> (\<And>j. j < l \<Longrightarrow> \<not> free_run sv j) \<Longrightarrow> first_run sv = Some l"
  unfolding first_run_def List.find_Some_iff by (rule exI [of _ l]) simp

lemma first_run_None: "(\<And>j. j \<le> 192 \<Longrightarrow> \<not> free_run sv j) \<Longrightarrow> first_run sv = None"
  by (auto simp: first_run_def find_None_iff')

lemma find_eight_first:
  assumes "left \<le> right" and "right \<le> 200" and "right - left < 8"
    and "\<And>i. left \<le> i \<Longrightarrow> i < right \<Longrightarrow> \<not> sv ! i" and "\<And>j. j < left \<Longrightarrow> \<not> free_run sv j"
  shows "find_eight sv left right = map_option (\<lambda>l. (l, l + 8)) (first_run sv)"
  using assms
proof (induction sv left right rule: find_eight.induct)
  case (1 sv left right)
  show ?case
  proof (cases "right < 200")
    case False
    then have "\<not> free_run sv j" if "j \<le> 192" for j
      using 1(3-7) that by (intro 1(7)) linarith
    then have "first_run sv = None" by (rule first_run_None)
    with False show ?thesis by (subst find_eight.simps) simp
  next
    case in_range: True
    show ?thesis
    proof (cases "sv ! right")
      case True
      have no: "\<not> free_run sv j" if "j < right + 1" for j
      proof (cases "j < left")
        case False
        then have "right - j < 8" "j + (right - j) = right" using that 1(5) by linarith+
        with True show ?thesis by (metis free_run_def)
      qed (rule 1(7))
      have "find_eight sv (right + 1) (right + 1) = map_option (\<lambda>l. (l, l + 8)) (first_run sv)"
        by (rule 1(2)) (use in_range True no in auto)
      with in_range True show ?thesis by (subst find_eight.simps) simp
    next
      case False
      then have win: "\<not> sv ! i" if "left \<le> i" "i < right + 1" for i
        using that 1(6) by (cases "i = right") auto
      show ?thesis
      proof (cases "right + 1 - left = 8")
        case True
        then have "left \<le> 192" "free_run sv left"
          using win in_range 1(3) by (auto simp: free_run_def)
        then have "first_run sv = Some left" by (rule first_run_Some) (rule 1(7))
        with True False in_range 1(3) show ?thesis by (subst find_eight.simps) auto
      next
        case more: False
        have "find_eight sv left (right + 1) = map_option (\<lambda>l. (l, l + 8)) (first_run sv)"
          by (rule 1(1)) (use in_range False more win 1(3,5,7) in auto)
        with more False in_range show ?thesis by (subst find_eight.simps) simp
      qed
    qed
  qed
qed

lemma first_runD: "first_run sv = Some l \<Longrightarrow> l \<le> 192 \<and> free_run sv l"
  by (auto simp: first_run_def dest: find_Some_iff)

lemma nth_list_update': "i < length xs \<Longrightarrow> xs[j := x] ! i = (if i = j then x else xs ! i)"
  by (simp add: nth_list_update_neq)

lemma fold_fill:
  "fold (\<lambda>i sv. sv[i := v]) [a..<b] sv = map (\<lambda>i. if a \<le> i \<and> i < b then v else sv ! i) [0..<length sv]"
proof (induction b)
  case (Suc b)
  show ?case
  proof (cases "a \<le> b")
    case True
    then have "fold (\<lambda>i sv. sv[i := v]) [a..<Suc b] sv =
        (map (\<lambda>i. if a \<le> i \<and> i < b then v else sv ! i) [0..<length sv])[b := v]"
      by (simp add: Suc.IH)
    also have "\<dots> = map (\<lambda>i. if a \<le> i \<and> i < Suc b then v else sv ! i) [0..<length sv]"
      using True by (intro nth_equalityI) (auto simp: nth_list_update' less_Suc_eq)
    finally show ?thesis .
  qed (auto simp: map_nth intro!: nth_equalityI)
qed (simp add: map_nth)

lemma find_eight_eq: "find_eight sv 0 0 = map_option (\<lambda>l. (l, l + 8)) (first_run sv)"
  by (rule find_eight_first) simp_all

definition fill_run :: "nat \<Rightarrow> bool \<Rightarrow> bool list \<Rightarrow> bool list" where
  "fill_run l v sv = map (\<lambda>i. if l \<le> i \<and> i < l + 8 then v else sv ! i) [0..<length sv]"

lemma find_and_set_eq:
  "find_and_set_8_blocks s =
     map_option (\<lambda>l. (SWAP_START + l, s\<lparr>swap_valid := fill_run l True (swap_valid s)\<rparr>)) (first_run (swap_valid s))"
  by (cases "first_run (swap_valid s)")
    (simp_all add: find_and_set_8_blocks_def find_eight_eq fold_fill fill_run_def)

lemma release_eq:
  assumes "l \<le> 192" and "length (swap_valid s) = 200"
  shows "release_8_blocks (of_nat (SWAP_START + l)) s = s\<lparr>swap_valid := fill_run l False (swap_valid s)\<rparr>"
proof -
  have "(of_nat (SWAP_START + l) :: u32) - of_nat SWAP_START = of_nat l"
    by simp
  moreover have "unat (of_nat k :: u32) = k" if "k \<le> 200" for k
    using that by (simp add: unat_of_nat)
  then have "unat (of_nat l :: u32) = l" "unat (of_nat (l + 8) :: u32) = l + 8"
    using assms(1) by (simp_all del: of_nat_add)
  then have "unat (of_nat l :: u32) = l" "unat (of_nat l + 8 :: u32) = l + 8"
    by (simp_all only: of_nat_add of_nat_numeral)
  ultimately show ?thesis
    using assms unfolding release_8_blocks_def fill_run_def
    by (simp only: Let_def fold_fill) simp
qed

section \<open>Properties\<close>

text \<open>
  \<^verbatim>\<open>find_and_set_8_blocks\<close> returns the lowest run of eight free swap blocks, all inside
  the swap area, marks exactly these eight, and \<^verbatim>\<open>release_8_blocks\<close> on the result restores
  the map; when no such run exists it stops in \<^verbatim>\<open>PANIC\<close>.
\<close>
theorem swap_alloc_release:
  assumes "length (swap_valid s) = SWAP_END - SWAP_START"
  shows "case first_run (swap_valid s) of
      None \<Rightarrow> find_and_set_8_blocks s = None
    | Some l \<Rightarrow> \<exists>s'. find_and_set_8_blocks s = Some (SWAP_START + l, s') \<and>
        SWAP_START + l + 8 \<le> SWAP_END \<and> list_all Not (take 8 (drop l (swap_valid s))) \<and>
        list_all id (take 8 (drop l (swap_valid s'))) \<and>
        release_8_blocks (of_nat (SWAP_START + l)) s' = s"
proof (cases "first_run (swap_valid s)")
  case None
  then show ?thesis by (simp add: find_and_set_eq)
next
  case (Some l)
  have l: "l \<le> 192" "free_run (swap_valid s) l" using first_runD [OF Some] by auto
  let ?sv = "swap_valid s" and ?s' = "s\<lparr>swap_valid := fill_run l True (swap_valid s)\<rparr>"
  have len: "length ?sv = 200" using assms by simp
  have off: "\<not> ?sv ! i" if "l \<le> i" "i < l + 8" for i
    using l(2) that unfolding free_run_def by (metis add_diff_inverse_nat less_diff_conv2 not_less add.commute)
  have "fill_run l False (fill_run l True ?sv) = ?sv"
    using off by (intro nth_equalityI) (auto simp: fill_run_def)
  then have rel: "release_8_blocks (of_nat (SWAP_START + l)) ?s' = s"
    using release_eq [of l ?s'] l(1) len by (simp add: fill_run_def)
  have "list_all Not (take 8 (drop l ?sv))" "list_all id (take 8 (drop l (swap_valid ?s')))"
    using off len by (auto simp: list_all_length fill_run_def)
  with Some l(1) rel show ?thesis by (simp add: find_and_set_eq)
qed

theorem swap_alloc_release_witness:
  "\<exists>s'. find_and_set_8_blocks (cold_cache demo_dev) = Some (800, s') \<and>
     release_8_blocks 800 s' = cold_cache demo_dev"
proof -
  have sv: "swap_valid (cold_cache demo_dev) = replicate 200 False" by (simp add: cold_cache_def)
  have "first_run (replicate 200 False) = Some 0"
    by (rule first_run_Some) (auto simp: free_run_def)
  then show ?thesis
    using swap_alloc_release [of "cold_cache demo_dev"] by (auto simp: sv)
qed

lemma recover_swap:
  assumes "recover_from_log sb s = Some s'"
  shows "swap_valid s' = swap_valid s"
proof -
  obtain s1 where "install_trans sb (read_header sb s) = Some s1" "s' = write_header sb (clear_header s1)"
    using assms by (auto simp: recover_from_log_def elim!: bind_eq_SomeE)
  moreover from this have "same_log (read_header sb s) s1"
    using for_each_same_log [OF install_one_same_log] by (auto simp: install_trans_def)
  ultimately show ?thesis by (simp add: same_log_def read_header_def)
qed

lemma stray_stores:
  "list_all (\<lambda>i. length (swap_valid s) \<le> i) is \<Longrightarrow>
   fold (\<lambda>i. swap_store i v) is (stray, s) = (stray @ is, s)"
  by (induction "is" arbitrary: stray) (auto simp: swap_store_def)

lemma init_bcache_spec:
  assumes "recoverable sb (blocks d)"
  shows "\<exists>s. init_bcache sb d = Some ([SWAP_START..<SWAP_END], s) \<and> commit_ready sb s \<and>
    content s = blocks (dev s) \<and> log_list s = [] \<and>
    oplog s = \<lparr>committing = False, outstanding = 0, op_reserved = 0\<rparr> \<and>
    swap_valid s = replicate (SWAP_END - SWAP_START) False \<and>
    dev s = dev_writes (recover_writes sb (blocks d)) d"
proof -
  obtain s where s: "recover_from_log sb (cold_cache d) = Some s" "content s = blocks (dev s)"
      "log_list s = []" "commit_ready sb s" "oplog s = oplog (cold_cache d)"
      "dev s = dev_writes (recover_writes sb (blocks d)) d"
    using recover_spec [OF assms] by blast
  have sv: "swap_valid s = replicate (SWAP_END - SWAP_START) False"
    using recover_swap [OF s(1)] by (simp add: cold_cache_def)
  have "list_all (\<lambda>i. length (swap_valid s) \<le> i) [SWAP_START..<SWAP_END]"
    unfolding sv length_replicate list_all_iff set_upt by (intro ballI) (simp only: atLeastLessThan_iff, linarith)
  then have "fold (\<lambda>i. swap_store i False) [SWAP_START..<SWAP_END] ([], s) = ([SWAP_START..<SWAP_END], s)"
    by (simp only: stray_stores append_Nil)
  then have "init_bcache sb d = Some ([SWAP_START..<SWAP_END], s)"
    by (simp only: init_bcache_def s(1) Let_def Option.bind.bind_lunit)
  with s sv show ?thesis
    by (intro exI [of _ s]) (simp only: simp_thms cold_cache_simps)
qed

text \<open>
  \<^verbatim>\<open>init_bcache\<close> recovers the disk and starts the cache in its invariant, with an empty
  log, idle counters and contents equal to the disk; but none of the 200 stores of its
  last loop lands in \<^verbatim>\<open>swap_valid\<close>: the loop indexes the map by block number (800 to 999)
  although the map is indexed from \<^verbatim>\<open>SWAP_START\<close>, so every store is out of bounds.
\<close>
theorem init_bcache_recovers:
  assumes "recoverable sb (blocks d)"
  shows "\<exists>s. init_bcache sb d = Some ([SWAP_START..<SWAP_END], s) \<and> commit_ready sb s \<and>
    content s = blocks (dev s) \<and> log_list s = [] \<and>
    oplog s = \<lparr>committing = False, outstanding = 0, op_reserved = 0\<rparr> \<and>
    swap_valid s = replicate (SWAP_END - SWAP_START) False"
  using init_bcache_spec [OF assms] by blast

theorem init_bcache_recovers_witness:
  "\<exists>s. init_bcache demo_sb demo_dev = Some ([SWAP_START..<SWAP_END], s) \<and> log_list s = []"
proof -
  have "recoverable demo_sb (blocks demo_dev)"
    using demo_empty_log by (simp add: recoverable_def disk_log_def) (simp add: demo_dev_def)
  from init_bcache_recovers [OF this] show ?thesis by blast
qed

end
