(* ===== verification/Inode.thy ===== *)
theory Inode
  imports Block_Alloc CString
begin

text \<open>
  \<^verbatim>\<open>src/src/fs/inode.c\<close>: inodes on top of the block cache. An in-memory \<^verbatim>\<open>Inode\<close> is a
  record in a store indexed by its address; \<open>ilist\<close> is the list \<^verbatim>\<open>head\<close> from
  \<^verbatim>\<open>head.next\<close> on. On disk an inode is the 64 bytes of an \<^verbatim>\<open>InodeEntry\<close>; integers are
  stored little-endian in fields of their C width, which is where a value that does not
  fit is cut. The functions take the super block as an argument and call the cache
  through the operations of the theory \<open>Block_Cache\<close>. \<open>None\<close> is a failed \<^verbatim>\<open>ASSERT\<close>, a
  \<^verbatim>\<open>PANIC\<close>, or a caller that is put to sleep on a lock that nobody in a single thread
  would release.
\<close>

section \<open>Data\<close>

abbreviation INODE_NUM_DIRECT :: nat where "INODE_NUM_DIRECT \<equiv> 12"
abbreviation INODE_NUM_INDIRECT :: nat where "INODE_NUM_INDIRECT \<equiv> BLOCK_SIZE div 4"
abbreviation INODE_PER_BLOCK :: nat where "INODE_PER_BLOCK \<equiv> BLOCK_SIZE div 64"
abbreviation INODE_MAX_BLOCKS :: nat where "INODE_MAX_BLOCKS \<equiv> INODE_NUM_DIRECT + INODE_NUM_INDIRECT"
abbreviation INODE_MAX_BYTES :: nat where "INODE_MAX_BYTES \<equiv> INODE_MAX_BLOCKS * BLOCK_SIZE"
abbreviation FILE_NAME_MAX_LENGTH :: nat where "FILE_NAME_MAX_LENGTH \<equiv> 14"
abbreviation INODE_INVALID :: nat where "INODE_INVALID \<equiv> 0"
abbreviation INODE_DIRECTORY :: nat where "INODE_DIRECTORY \<equiv> 1"
abbreviation ROOT_INODE_NO :: nat where "ROOT_INODE_NO \<equiv> 1"

record inode_entry =
  itype :: nat
  major :: nat
  minor :: nat
  num_links :: nat
  num_bytes :: nat
  addrs :: "nat list"
  indirect :: nat

record inode =
  ilock :: int
  rc_count :: int
  inode_no :: nat
  ivalid :: bool
  entry :: inode_entry

record inode_state =
  bcache :: cache_state
  inode_of :: "nat \<Rightarrow> inode"
  ilist :: "nat list"
  next_inode :: nat

definition upd_inode :: "nat \<Rightarrow> (inode \<Rightarrow> inode) \<Rightarrow> inode_state \<Rightarrow> inode_state" where
  "upd_inode ip f s = s\<lparr>inode_of := (inode_of s)(ip := f (inode_of s ip))\<rparr>"

definition upd_entry :: "nat \<Rightarrow> (inode_entry \<Rightarrow> inode_entry) \<Rightarrow> inode_state \<Rightarrow> inode_state" where
  "upd_entry ip f = upd_inode ip (\<lambda>x. x\<lparr>entry := f (entry x)\<rparr>)"

section \<open>Encodings\<close>

definition encode_entry :: "inode_entry \<Rightarrow> u8 list" where
  "encode_entry e = le_bytes 2 (itype e) @ le_bytes 2 (major e) @ le_bytes 2 (minor e) @
     le_bytes 2 (num_links e) @ le_bytes 4 (num_bytes e) @
     concat (map (le_bytes 4) (addrs e)) @ le_bytes 4 (indirect e)"

definition decode_entry :: "u8 list \<Rightarrow> inode_entry" where
  "decode_entry d = \<lparr>itype = le_nat (get_bytes 0 2 d), major = le_nat (get_bytes 2 2 d),
     minor = le_nat (get_bytes 4 2 d), num_links = le_nat (get_bytes 6 2 d),
     num_bytes = le_nat (get_bytes 8 4 d),
     addrs = map (\<lambda>i. le_nat (get_bytes (12 + 4 * i) 4 d)) [0..<INODE_NUM_DIRECT],
     indirect = le_nat (get_bytes 60 4 d)\<rparr>"

definition to_block_no :: "super_block \<Rightarrow> nat \<Rightarrow> nat" where
  "to_block_no sb n = sb_inode_start sb + n div INODE_PER_BLOCK"

definition entry_off :: "nat \<Rightarrow> nat" where
  "entry_off n = 64 * (n mod INODE_PER_BLOCK)"

definition get_entry :: "u8 list \<Rightarrow> nat \<Rightarrow> inode_entry" where
  "get_entry d n = decode_entry (get_bytes (entry_off n) 64 d)"

definition put_entry :: "u8 list \<Rightarrow> nat \<Rightarrow> inode_entry \<Rightarrow> u8 list" where
  "put_entry d n e = put_bytes (entry_off n) (encode_entry e) d"

definition get_addr :: "u8 list \<Rightarrow> nat \<Rightarrow> nat" where
  "get_addr d i = le_nat (get_bytes (4 * i) 4 d)"

definition put_addr :: "u8 list \<Rightarrow> nat \<Rightarrow> nat \<Rightarrow> u8 list" where
  "put_addr d i a = put_bytes (4 * i) (le_bytes 4 a) d"

definition zero_entry :: inode_entry where
  "zero_entry = \<lparr>itype = 0, major = 0, minor = 0, num_links = 0, num_bytes = 0,
     addrs = replicate INODE_NUM_DIRECT 0, indirect = 0\<rparr>"

section \<open>Allocation, locking, synchronisation\<close>

function inode_alloc_from ::
  "super_block \<Rightarrow> op_context option \<Rightarrow> nat \<Rightarrow> nat \<Rightarrow> cache_state \<Rightarrow>
   (nat \<times> op_context option \<times> cache_state) option" where
  "inode_alloc_from sb ctx ty n s =
     (if n \<le> sb_num_inodes sb then do {
        (bp, s) \<leftarrow> cache_acquire (to_block_no sb n) s;
        if itype (get_entry (data (blk s bp)) n) = INODE_INVALID then do {
          let d = put_entry (data (blk s bp)) n (zero_entry\<lparr>itype := ty\<rparr>);
          let s = set_data bp d s;
          (ctx, s) \<leftarrow> cache_sync ctx bp s;
          Some (n, ctx, cache_release bp s) }
        else inode_alloc_from sb ctx ty (n + 1) (cache_release bp s) }
      else None)"
  by pat_completeness auto
termination by (relation "measure (\<lambda>(sb, ctx, ty, n, s). sb_num_inodes sb + 1 - n)") auto

declare inode_alloc_from.simps [simp del]

definition inode_alloc ::
  "super_block \<Rightarrow> op_context option \<Rightarrow> nat \<Rightarrow> inode_state \<Rightarrow>
   (nat \<times> op_context option \<times> inode_state) option" where
  "inode_alloc sb ctx ty s =
     (if ty \<noteq> INODE_INVALID then do {
        (n, ctx, c) \<leftarrow> inode_alloc_from sb ctx ty 1 (bcache s);
        Some (n, ctx, s\<lparr>bcache := c\<rparr>) }
      else None)"

definition init_inode :: "inode \<Rightarrow> inode" where
  "init_inode x = x\<lparr>ilock := 1, rc_count := 0, inode_no := 0, ivalid := False\<rparr>"

definition inode_lock :: "nat \<Rightarrow> inode_state \<Rightarrow> inode_state option" where
  "inode_lock ip s =
     (if rc_count (inode_of s ip) > 0 then
        let s = upd_inode ip (\<lambda>x. x\<lparr>ilock := ilock x - 1\<rparr>) s
        in if ilock (inode_of s ip) \<ge> 0 then Some s else None
      else None)"

definition inode_unlock :: "nat \<Rightarrow> inode_state \<Rightarrow> inode_state option" where
  "inode_unlock ip s =
     (if rc_count (inode_of s ip) > 0
      then Some (upd_inode ip (\<lambda>x. x\<lparr>ilock := ilock x + 1\<rparr>) s) else None)"

definition inode_sync ::
  "super_block \<Rightarrow> op_context option \<Rightarrow> nat \<Rightarrow> bool \<Rightarrow> inode_state \<Rightarrow>
   (op_context option \<times> inode_state) option" where
  "inode_sync sb ctx ip do_write s = do {
     let n = inode_no (inode_of s ip);
     (bp, c) \<leftarrow> cache_acquire (to_block_no sb n) (bcache s);
     if ivalid (inode_of s ip) \<and> do_write then do {
       let c = set_data bp (put_entry (data (blk c bp)) n (entry (inode_of s ip))) c;
       (ctx, c) \<leftarrow> cache_sync ctx bp c;
       Some (ctx, s\<lparr>bcache := cache_release bp c\<rparr>) }
     else if \<not> ivalid (inode_of s ip) then
       (let s = upd_inode ip (\<lambda>x. x\<lparr>entry := get_entry (data (blk c bp)) n, ivalid := True\<rparr>) s
        in Some (ctx, s\<lparr>bcache := cache_release bp c\<rparr>))
     else Some (ctx, s\<lparr>bcache := cache_release bp c\<rparr>) }"

section \<open>References\<close>

definition increment_rc :: "nat \<Rightarrow> inode_state \<Rightarrow> inode_state" where
  "increment_rc ip = upd_inode ip (\<lambda>x. x\<lparr>rc_count := rc_count x + 1\<rparr>)"

definition decrement_rc :: "nat \<Rightarrow> inode_state \<Rightarrow> inode_state" where
  "decrement_rc ip = upd_inode ip (\<lambda>x. x\<lparr>rc_count := rc_count x - 1\<rparr>)"

text \<open>
  The loop of \<^verbatim>\<open>inode_get\<close>: the first live inode with the number wins; otherwise the
  first inode without references is remembered in \<^verbatim>\<open>empty\<close>.
\<close>

definition find_live :: "nat \<Rightarrow> inode_state \<Rightarrow> nat option" where
  "find_live n s = List.find (\<lambda>p. inode_no (inode_of s p) = n \<and> rc_count (inode_of s p) > 0) (ilist s)"

definition find_empty :: "inode_state \<Rightarrow> nat option" where
  "find_empty s = List.find (\<lambda>p. rc_count (inode_of s p) = 0) (ilist s)"

definition inode_get :: "super_block \<Rightarrow> nat \<Rightarrow> inode_state \<Rightarrow> (nat \<times> inode_state) option" where
  "inode_get sb n s =
     (if n > 0 \<and> n < sb_num_inodes sb then
        case find_live n s of
          Some ip \<Rightarrow> Some (ip, increment_rc ip s)
        | None \<Rightarrow> do {
            let (ip, s) =
              (case find_empty s of
                 Some ip \<Rightarrow> (ip, s)
               | None \<Rightarrow>
                   let ip = next_inode s;
                       s = upd_inode ip init_inode s
                   in (ip, s\<lparr>ilist := ip # ilist s, next_inode := ip + 1\<rparr>));
            let s = upd_inode ip (inode_no_update (\<lambda>_. n)) s;
            let s = increment_rc ip s;
            let s = upd_inode ip (ivalid_update (\<lambda>_. False)) s;
            s \<leftarrow> inode_lock ip s;
            (_, s) \<leftarrow> inode_sync sb None ip False s;
            s \<leftarrow> inode_unlock ip s;
            Some (ip, s) }
      else None)"

definition inode_share :: "nat \<Rightarrow> inode_state \<Rightarrow> nat \<times> inode_state" where
  "inode_share ip s = (ip, increment_rc ip s)"

section \<open>Clearing and dropping an inode\<close>

definition clear_direct ::
  "super_block \<Rightarrow> nat \<Rightarrow> nat \<Rightarrow> op_context option \<times> inode_state \<Rightarrow> (op_context option \<times> inode_state) option" where
  "clear_direct sb ip i = (\<lambda>(ctx, s).
     (let a = addrs (entry (inode_of s ip)) ! i in
      if a \<noteq> 0 then do {
        (ctx, c) \<leftarrow> cache_free sb ctx a (bcache s);
        Some (ctx, upd_entry ip (\<lambda>e. e\<lparr>addrs := (addrs e)[i := 0]\<rparr>) (s\<lparr>bcache := c\<rparr>)) }
      else Some (ctx, s)))"

definition clear_indirect ::
  "super_block \<Rightarrow> nat \<Rightarrow> nat \<Rightarrow> op_context option \<times> cache_state \<Rightarrow> (op_context option \<times> cache_state) option" where
  "clear_indirect sb bp i = (\<lambda>(ctx, c).
     (let a = get_addr (data (blk c bp)) i in
      if a \<noteq> 0 then cache_free sb ctx a c else Some (ctx, c)))"

definition inode_clear ::
  "super_block \<Rightarrow> op_context option \<Rightarrow> nat \<Rightarrow> inode_state \<Rightarrow> (op_context option \<times> inode_state) option" where
  "inode_clear sb ctx ip s = do {
     (ctx, s) \<leftarrow> for_each (clear_direct sb ip) [0..<INODE_NUM_DIRECT] (ctx, s);
     let a = indirect (entry (inode_of s ip));
     (ctx, s) \<leftarrow>
       (if a \<noteq> 0 then do {
          (bp, c) \<leftarrow> cache_acquire a (bcache s);
          (ctx, c) \<leftarrow> for_each (clear_indirect sb bp) [0..<INODE_NUM_INDIRECT] (ctx, c);
          let c = cache_release bp c;
          (ctx, c) \<leftarrow> cache_free sb ctx a c;
          Some (ctx, upd_entry ip (indirect_update (\<lambda>_. 0)) (s\<lparr>bcache := c\<rparr>)) }
        else Some (ctx, s));
     let s = upd_entry ip (num_bytes_update (\<lambda>_. 0)) s;
     inode_sync sb ctx ip True s }"

definition inode_put ::
  "super_block \<Rightarrow> op_context option \<Rightarrow> nat \<Rightarrow> inode_state \<Rightarrow> (op_context option \<times> inode_state) option" where
  "inode_put sb ctx ip s =
     (if ivalid (inode_of s ip) then
        if rc_count (inode_of s ip) = 1 \<and> num_links (entry (inode_of s ip)) = 0 then do {
          s \<leftarrow> inode_lock ip s;
          (ctx, s) \<leftarrow> inode_clear sb ctx ip s;
          let s = upd_entry ip (itype_update (\<lambda>_. INODE_INVALID)) s;
          (ctx, s) \<leftarrow> inode_sync sb ctx ip True s;
          let s = upd_inode ip (ivalid_update (\<lambda>_. False)) s;
          s \<leftarrow> inode_unlock ip s;
          let s = s\<lparr>ilist := remove1 ip (ilist s)\<rparr>;
          Some (ctx, decrement_rc ip s) }
        else Some (ctx, decrement_rc ip s)
      else None)"

section \<open>File contents\<close>

text \<open>
  \<^verbatim>\<open>inode_map\<close> returns the block that holds file block \<open>off\<close>, allocating it (and the
  indirect block) when it is missing. The third component of the result is \<^verbatim>\<open>*modified\<close>,
  which the function only ever sets.
\<close>

definition map_direct ::
  "super_block \<Rightarrow> op_context option \<Rightarrow> nat \<Rightarrow> nat \<Rightarrow> bool \<Rightarrow> inode_state \<Rightarrow>
   (nat \<times> bool \<times> op_context option \<times> inode_state) option" where
  "map_direct sb ctx ip off modified s =
     (let a = addrs (entry (inode_of s ip)) ! off in
      if a = 0 then do {
        (a, ctx, c) \<leftarrow> cache_alloc sb ctx (bcache s);
        Some (a, True, ctx, upd_entry ip (\<lambda>e. e\<lparr>addrs := (addrs e)[off := a]\<rparr>) (s\<lparr>bcache := c\<rparr>)) }
      else Some (a, modified, ctx, s))"

definition ensure_indirect ::
  "super_block \<Rightarrow> op_context option \<Rightarrow> nat \<Rightarrow> inode_state \<Rightarrow>
   (nat \<times> op_context option \<times> inode_state) option" where
  "ensure_indirect sb ctx ip s =
     (let a = indirect (entry (inode_of s ip)) in
      if a = 0 then do {
        (a, ctx, c) \<leftarrow> cache_alloc sb ctx (bcache s);
        Some (a, ctx, upd_entry ip (indirect_update (\<lambda>_. a)) (s\<lparr>bcache := c\<rparr>)) }
      else Some (a, ctx, s))"

definition map_indirect ::
  "super_block \<Rightarrow> op_context option \<Rightarrow> nat \<Rightarrow> nat \<Rightarrow> bool \<Rightarrow> cache_state \<Rightarrow>
   (nat \<times> bool \<times> op_context option \<times> cache_state) option" where
  "map_indirect sb ctx ind off modified c = do {
     (bp, c) \<leftarrow> cache_acquire ind c;
     let a = get_addr (data (blk c bp)) off;
     if a = 0 then do {
       (a, ctx, c) \<leftarrow> cache_alloc sb ctx c;
       let c = set_data bp (put_addr (data (blk c bp)) off a) c;
       (ctx, c) \<leftarrow> cache_sync ctx bp c;
       Some (a, True, ctx, cache_release bp c) }
     else Some (a, modified, ctx, cache_release bp c) }"

definition inode_map ::
  "super_block \<Rightarrow> op_context option \<Rightarrow> nat \<Rightarrow> nat \<Rightarrow> bool \<Rightarrow> inode_state \<Rightarrow>
   (nat \<times> bool \<times> op_context option \<times> inode_state) option" where
  "inode_map sb ctx ip off modified s =
     (if off < INODE_NUM_DIRECT then map_direct sb ctx ip off modified s
      else if off - INODE_NUM_DIRECT < INODE_NUM_INDIRECT then do {
        (ind, ctx, s) \<leftarrow> ensure_indirect sb ctx ip s;
        (a, modified, ctx, c) \<leftarrow> map_indirect sb ctx ind (off - INODE_NUM_DIRECT) modified (bcache s);
        Some (a, modified, ctx, s\<lparr>bcache := c\<rparr>) }
      else None)"

text \<open>The length of the next chunk of a transfer that has \<open>left\<close> bytes to go at \<open>off\<close>.\<close>

definition chunk :: "nat \<Rightarrow> nat \<Rightarrow> nat" where
  "chunk off left = min left (BLOCK_SIZE - off mod BLOCK_SIZE)"

lemma chunk_pos: "0 < left \<Longrightarrow> 0 < chunk off left"
  by (simp add: chunk_def)

lemma chunk_le: "chunk off left \<le> left"
  by (simp add: chunk_def)

function read_loop ::
  "super_block \<Rightarrow> nat \<Rightarrow> nat \<Rightarrow> nat \<Rightarrow> bool \<Rightarrow> u8 list \<Rightarrow> inode_state \<Rightarrow> (u8 list \<times> inode_state) option" where
  "read_loop sb ip off left modified dest s =
     (if left > 0 then do {
        (b, modified, ctx, s) \<leftarrow> inode_map sb None ip (off div BLOCK_SIZE) modified s;
        (bp, c) \<leftarrow> cache_acquire b (bcache s);
        let m = chunk off left;
        let dest = dest @ get_bytes (off mod BLOCK_SIZE) m (data (blk c bp));
        read_loop sb ip (off + m) (left - m) modified dest (s\<lparr>bcache := cache_release bp c\<rparr>) }
      else Some (dest, s))"
  by pat_completeness auto
termination
  by (relation "measure (\<lambda>(sb, ip, off, left, md, dest, s). left)") (auto simp: chunk_pos)

declare read_loop.simps [simp del]

text \<open>
  \<^verbatim>\<open>inode_read\<close>: the offsets are \<^verbatim>\<open>usize\<close>, so sums and differences wrap at 64 bits. The
  bytes stored at \<^verbatim>\<open>dest\<close> are returned beside the constant result 0.
\<close>

definition inode_read ::
  "super_block \<Rightarrow> nat \<Rightarrow> nat \<Rightarrow> nat \<Rightarrow> inode_state \<Rightarrow> (nat \<times> u8 list \<times> inode_state) option" where
  "inode_read sb ip off count s =
     (let nb = num_bytes (entry (inode_of s ip));
          count = (if (count + off) mod 2 ^ 64 > nb then nat ((int nb - int off) mod 2 ^ 64) else count);
          fin = (off + count) mod 2 ^ 64
      in if off \<le> nb \<and> fin \<le> nb \<and> off \<le> fin then do {
           (dest, s) \<leftarrow> read_loop sb ip off count False [] s;
           Some (0, dest, s) }
         else None)"

function write_loop ::
  "super_block \<Rightarrow> op_context option \<Rightarrow> nat \<Rightarrow> nat \<Rightarrow> bool \<Rightarrow> u8 list \<Rightarrow> inode_state \<Rightarrow>
   (nat \<times> op_context option \<times> inode_state) option" where
  "write_loop sb ctx ip off modified src s =
     (if src \<noteq> [] then do {
        (b, modified, ctx, s) \<leftarrow> inode_map sb ctx ip (off div BLOCK_SIZE) modified s;
        (bp, c) \<leftarrow> cache_acquire b (bcache s);
        let m = chunk off (length src);
        let c = set_data bp (put_bytes (off mod BLOCK_SIZE) (take m src) (data (blk c bp))) c;
        (ctx, c) \<leftarrow> cache_sync ctx bp c;
        write_loop sb ctx ip (off + m) modified (drop m src) (s\<lparr>bcache := cache_release bp c\<rparr>) }
      else Some (off, ctx, s))"
  by pat_completeness auto
termination
  by (relation "measure (\<lambda>(sb, ctx, ip, off, md, src, s). length src)") (auto simp: chunk_pos)

declare write_loop.simps [simp del]

definition inode_write ::
  "super_block \<Rightarrow> op_context option \<Rightarrow> nat \<Rightarrow> u8 list \<Rightarrow> nat \<Rightarrow> nat \<Rightarrow> inode_state \<Rightarrow>
   (nat \<times> op_context option \<times> inode_state) option" where
  "inode_write sb ctx ip src off count s =
     (let fin = (off + count) mod 2 ^ 64
      in if off \<le> num_bytes (entry (inode_of s ip)) \<and> fin \<le> INODE_MAX_BYTES \<and> off \<le> fin then do {
           (off, ctx, s) \<leftarrow> write_loop sb ctx ip off False (take count src) s;
           (ctx, s) \<leftarrow>
             (if count > 0 \<and> off > num_bytes (entry (inode_of s ip)) then
                inode_sync sb ctx ip True (upd_entry ip (num_bytes_update (\<lambda>_. off)) s)
              else Some (ctx, s));
           Some (count, ctx, s) }
         else None)"

section \<open>Directories\<close>

text \<open>
  A directory is an array of 16-byte entries: a 16-bit inode number and a name of
  \<^verbatim>\<open>FILE_NAME_MAX_LENGTH\<close> bytes. An entry cut off by the end of the file would be read
  into an uninitialised buffer: the model stops there.
\<close>

definition de_inode_no :: "u8 list \<Rightarrow> nat" where
  "de_inode_no de = le_nat (get_bytes 0 2 de)"

definition de_name :: "u8 list \<Rightarrow> cstr" where
  "de_name de = (\<lambda>i. de ! (2 + i))"

definition encode_dirent :: "nat \<Rightarrow> cstr \<Rightarrow> u8 list" where
  "encode_dirent n name = le_bytes 2 n @ map name [0..<FILE_NAME_MAX_LENGTH]"

definition read_dirent :: "super_block \<Rightarrow> nat \<Rightarrow> nat \<Rightarrow> inode_state \<Rightarrow> (u8 list \<times> inode_state) option" where
  "read_dirent sb ip off s = do {
     (r, de, s) \<leftarrow> inode_read sb ip off 16 s;
     if length de = 16 then Some (de, s) else None }"

function lookup_loop ::
  "super_block \<Rightarrow> nat \<Rightarrow> cstr \<Rightarrow> nat \<Rightarrow> nat \<Rightarrow> inode_state \<Rightarrow> (nat \<times> nat option \<times> inode_state) option" where
  "lookup_loop sb ip name nb off s =
     (if off < nb then do {
        (de, s) \<leftarrow> read_dirent sb ip off s;
        if de_inode_no de = 0 then lookup_loop sb ip name nb (off + 16) s
        else if strncmp (de_name de) name FILE_NAME_MAX_LENGTH = 0
        then Some (de_inode_no de, Some off, s)
        else lookup_loop sb ip name nb (off + 16) s }
      else Some (0, None, s))"
  by pat_completeness auto
termination by (relation "measure (\<lambda>(sb, ip, name, nb, off, s). nb - off)") auto

declare lookup_loop.simps [simp del]

definition inode_lookup ::
  "super_block \<Rightarrow> nat \<Rightarrow> cstr \<Rightarrow> inode_state \<Rightarrow> (nat \<times> nat option \<times> inode_state) option" where
  "inode_lookup sb ip name s =
     (if itype (entry (inode_of s ip)) = INODE_DIRECTORY
      then lookup_loop sb ip name (num_bytes (entry (inode_of s ip))) 0 s else None)"

function free_slot_loop ::
  "super_block \<Rightarrow> nat \<Rightarrow> nat \<Rightarrow> nat \<Rightarrow> inode_state \<Rightarrow> (nat \<times> inode_state) option" where
  "free_slot_loop sb ip nb off s =
     (if off < nb then do {
        (de, s) \<leftarrow> read_dirent sb ip off s;
        if de_inode_no de = 0 then Some (off, s) else free_slot_loop sb ip nb (off + 16) s }
      else Some (off, s))"
  by pat_completeness auto
termination by (relation "measure (\<lambda>(sb, ip, nb, off, s). nb - off)") auto

declare free_slot_loop.simps [simp del]

datatype insert_result = Duplicate | Inserted nat

definition inode_insert ::
  "super_block \<Rightarrow> op_context option \<Rightarrow> nat \<Rightarrow> cstr \<Rightarrow> nat \<Rightarrow> inode_state \<Rightarrow>
   (insert_result \<times> op_context option \<times> inode_state) option" where
  "inode_insert sb ctx ip name n s =
     (if itype (entry (inode_of s ip)) = INODE_DIRECTORY then do {
        (found, index, s) \<leftarrow> inode_lookup sb ip name s;
        if found \<noteq> 0 then Some (Duplicate, ctx, s)
        else do {
          (off, s) \<leftarrow> free_slot_loop sb ip (num_bytes (entry (inode_of s ip))) 0 s;
          let de = encode_dirent n (strncpy (\<lambda>_. 0) name FILE_NAME_MAX_LENGTH);
          (r, ctx, s) \<leftarrow> inode_write sb ctx ip de off 16 s;
          Some (Inserted off, ctx, s) } }
      else None)"

definition inode_remove ::
  "super_block \<Rightarrow> op_context option \<Rightarrow> nat \<Rightarrow> nat \<Rightarrow> inode_state \<Rightarrow>
   (op_context option \<times> inode_state) option" where
  "inode_remove sb ctx ip index s =
     (if itype (entry (inode_of s ip)) = INODE_DIRECTORY then do {
        (r, ctx, s) \<leftarrow> inode_write sb ctx ip (replicate 16 0) index 16 s;
        Some (ctx, s) }
      else None)"

definition init_inodes :: "super_block \<Rightarrow> inode_state \<Rightarrow> (nat option \<times> inode_state) option" where
  "init_inodes sb s =
     (let s = s\<lparr>ilist := []\<rparr>
      in if ROOT_INODE_NO < sb_num_inodes sb
         then map_option (\<lambda>(ip, s). (Some ip, s)) (inode_get sb ROOT_INODE_NO s)
         else Some (None, s))"

end
