(* ===== verification/Inode_Map.thy ===== *)
theory Inode_Map
  imports Inode
begin

text \<open>
  Files as byte arrays. \<open>blk_of e C i\<close> is the disk block of file block \<open>i\<close>, read from
  the inode entry \<open>e\<close> and the block contents \<open>C\<close>; \<open>file_byte e C x\<close> is byte \<open>x\<close> of the
  file, zero where no block is mapped. The theory shows that \<^verbatim>\<open>inode_map\<close> implements an
  abstract map on entry and contents, which never changes a byte of any file and takes
  only free blocks.
\<close>

section \<open>The file as a function of entry and contents\<close>

type_synonym contents = "nat \<Rightarrow> u8 list"

definition blk_of :: "inode_entry \<Rightarrow> contents \<Rightarrow> nat \<Rightarrow> nat" where
  "blk_of e C i =
     (if i < INODE_NUM_DIRECT then addrs e ! i
      else if indirect e = 0 then 0 else get_addr (C (indirect e)) (i - INODE_NUM_DIRECT))"

definition file_byte :: "inode_entry \<Rightarrow> contents \<Rightarrow> nat \<Rightarrow> u8" where
  "file_byte e C x =
     (let b = blk_of e C (x div BLOCK_SIZE) in if b = 0 then 0 else C b ! (x mod BLOCK_SIZE))"

text \<open>The blocks that hold the bitmap and the inodes.\<close>

definition meta :: "super_block \<Rightarrow> nat set" where
  "meta sb = (\<lambda>b. BBLOCK b sb) ` {..<sb_num_blocks sb} \<union> to_block_no sb ` {..sb_num_inodes sb}"

lemma meta_BBLOCK: "c < sb_num_blocks sb \<Longrightarrow> BBLOCK c sb \<in> meta sb"
  by (simp add: meta_def)

lemma meta_inode: "n \<le> sb_num_inodes sb \<Longrightarrow> to_block_no sb n \<in> meta sb"
  by (simp add: meta_def)

definition layout_ok :: "super_block \<Rightarrow> bool" where
  "layout_ok sb \<longleftrightarrow> sb_num_blocks sb \<le> 2 ^ 32 \<and>
     (\<forall>n \<le> sb_num_inodes sb. \<forall>c < sb_num_blocks sb. to_block_no sb n \<noteq> BBLOCK c sb)"

definition disk_ok :: "super_block \<Rightarrow> contents \<Rightarrow> bool" where
  "disk_ok sb C \<longleftrightarrow> layout_ok sb \<and> (\<forall>b. length (C b) = BLOCK_SIZE) \<and>
     (\<forall>b < sb_num_blocks sb. free_block sb C b \<longrightarrow> b \<noteq> 0 \<and> b \<notin> meta sb)"

definition data_block :: "super_block \<Rightarrow> contents \<Rightarrow> nat \<Rightarrow> bool" where
  "data_block sb C b \<longleftrightarrow> b \<noteq> 0 \<and> b < sb_num_blocks sb \<and> \<not> free_block sb C b \<and> b \<notin> meta sb"

definition file_ok :: "super_block \<Rightarrow> inode_entry \<Rightarrow> contents \<Rightarrow> bool" where
  "file_ok sb e C \<longleftrightarrow> length (addrs e) = INODE_NUM_DIRECT \<and>
     (indirect e \<noteq> 0 \<longrightarrow> data_block sb C (indirect e)) \<and>
     (\<forall>i < INODE_MAX_BLOCKS. blk_of e C i \<noteq> 0 \<longrightarrow>
        data_block sb C (blk_of e C i) \<and> blk_of e C i \<noteq> indirect e \<and>
        (\<forall>j < INODE_MAX_BLOCKS. blk_of e C j = blk_of e C i \<longrightarrow> j = i))"

definition free_count :: "super_block \<Rightarrow> contents \<Rightarrow> nat" where
  "free_count sb C = card {b. b < sb_num_blocks sb \<and> free_block sb C b}"

section \<open>Address words in a block\<close>

lemma length_put_addr [simp]: "length d = BLOCK_SIZE \<Longrightarrow> i < INODE_NUM_INDIRECT \<Longrightarrow> length (put_addr d i a) = BLOCK_SIZE"
  by (simp add: put_addr_def)

lemma get_put_addr:
  assumes "length d = BLOCK_SIZE" and "i < INODE_NUM_INDIRECT" and "j < INODE_NUM_INDIRECT" and "a < 2 ^ 32"
  shows "get_addr (put_addr d i a) j = (if j = i then a else get_addr d j)"
proof (cases "j = i")
  case True
  have "get_bytes (4 * i) (length (le_bytes 4 a)) (put_bytes (4 * i) (le_bytes 4 a) d) = le_bytes 4 a"
    using assms by (intro get_put_same) simp
  then show ?thesis
    using True assms(4) by (simp add: get_addr_def put_addr_def le_nat_le_bytes)
next
  case False
  then have "4 * j + 4 \<le> 4 * i \<or> 4 * i + length (le_bytes 4 a) \<le> 4 * j" by auto
  then have "get_bytes (4 * j) 4 (put_bytes (4 * i) (le_bytes 4 a) d) = get_bytes (4 * j) 4 d"
    using assms by (intro get_put_disjoint) auto
  with False show ?thesis by (simp add: get_addr_def put_addr_def)
qed

lemma get_addr_zero [simp]: "i < INODE_NUM_INDIRECT \<Longrightarrow> get_addr (replicate BLOCK_SIZE 0) i = 0"
  by (simp add: get_addr_def)

section \<open>The abstract allocator on a well-formed disk\<close>

lemma disk_ok_marked: "disk_ok sb C \<Longrightarrow> bitmap_marked sb C"
  by (auto simp: disk_ok_def bitmap_marked_def meta_def)

definition alloc_eff :: "super_block \<Rightarrow> nat \<Rightarrow> contents \<Rightarrow> contents" where
  "alloc_eff sb r C = zero_block r (mark_block sb r C)"

lemma length_alloc_eff: "(\<And>b. length (C b) = BLOCK_SIZE) \<Longrightarrow> length (alloc_eff sb r C b) = BLOCK_SIZE"
  by (simp add: alloc_eff_def zero_block_def mark_block_def)

lemma alloc_eff_free:
  assumes "disk_ok sb C" and "first_free sb C = Some r" and "c < sb_num_blocks sb"
  shows "free_block sb (alloc_eff sb r C) c \<longleftrightarrow> free_block sb C c \<and> c \<noteq> r"
  unfolding alloc_eff_def
  using marked_not_free [OF disk_ok_marked [OF assms(1)] assms(2,3)] assms(1)
  by (simp add: free_block_zero free_block_mark disk_ok_def)

lemma alloc_eff_at:
  assumes "b \<noteq> r" and "b \<notin> meta sb" and "r < sb_num_blocks sb"
  shows "alloc_eff sb r C b = C b"
  using assms by (auto simp: alloc_eff_def zero_block_def mark_block_def meta_def)

lemma alloc_eff_new: "alloc_eff sb r C r = replicate BLOCK_SIZE 0"
  by (simp add: alloc_eff_def zero_block_def)

lemma alloc_eff_disk:
  assumes "disk_ok sb C" and "first_free sb C = Some r"
  shows "disk_ok sb (alloc_eff sb r C)"
  using assms length_alloc_eff [of C sb r] alloc_eff_free [OF assms] by (auto simp: disk_ok_def)

lemma alloc_eff_data:
  assumes "disk_ok sb C" and "first_free sb C = Some r"
  shows "data_block sb C b \<Longrightarrow> data_block sb (alloc_eff sb r C) b \<and> alloc_eff sb r C b = C b \<and> b \<noteq> r"
    and "data_block sb (alloc_eff sb r C) r" and "r \<noteq> 0" and "\<not> data_block sb C r" and "r < 2 ^ 32"
proof -
  have r: "r < sb_num_blocks sb" "free_block sb C r" using first_freeD [OF assms(2)] by auto
  then have m: "r \<noteq> 0" "r \<notin> meta sb" "sb_num_blocks sb \<le> 2 ^ 32"
    using assms(1) by (auto simp: disk_ok_def layout_ok_def)
  show "data_block sb (alloc_eff sb r C) r" "r \<noteq> 0" "\<not> data_block sb C r" "r < 2 ^ 32"
    using r m alloc_eff_free [OF assms r(1)] by (simp_all add: data_block_def)
  assume b: "data_block sb C b"
  then have "b \<noteq> r" using r by (auto simp: data_block_def)
  then show "data_block sb (alloc_eff sb r C) b \<and> alloc_eff sb r C b = C b \<and> b \<noteq> r"
    using b alloc_eff_free [OF assms, of b] alloc_eff_at [of b r sb C] r(1) by (auto simp: data_block_def)
qed

lemma alloc_eff_count:
  assumes "disk_ok sb C" and "first_free sb C = Some r"
  shows "free_count sb C = Suc (free_count sb (alloc_eff sb r C))"
proof -
  let ?F = "\<lambda>C. {b. b < sb_num_blocks sb \<and> free_block sb C b}"
  have "?F (alloc_eff sb r C) = ?F C - {r}"
    using alloc_eff_free [OF assms] by auto
  moreover have "r \<in> ?F C" using first_freeD [OF assms(2)] by simp
  ultimately show ?thesis
    using card.remove [of "?F C" r] by (simp add: free_count_def)
qed

lemma free_count_first: "0 < free_count sb C \<Longrightarrow> first_free sb C \<noteq> None"
proof
  assume "first_free sb C = None" and c: "0 < free_count sb C"
  then have "{b. b < sb_num_blocks sb \<and> free_block sb C b} = {}"
    by (auto simp: first_free_def find_None_iff')
  then have "free_count sb C = 0" by (simp only: free_count_def card.empty)
  with c show False by simp
qed

section \<open>Growing a file\<close>

text \<open>
  \<open>grows sb e C e' C' k\<close>: the file \<open>e'\<close> in \<open>C'\<close> has the same bytes as \<open>e\<close> in \<open>C\<close>, maps at
  least the same blocks, at most \<open>k\<close> free blocks were taken, and no block in use other
  than the file's indirect block changed.
\<close>

definition grows ::
  "super_block \<Rightarrow> inode_entry \<Rightarrow> contents \<Rightarrow> inode_entry \<Rightarrow> contents \<Rightarrow> nat \<Rightarrow> bool" where
  "grows sb e C e' C' k \<longleftrightarrow> disk_ok sb C' \<and> file_ok sb e' C' \<and>
     e'\<lparr>addrs := addrs e, indirect := indirect e\<rparr> = e \<and>
     (\<forall>i < INODE_MAX_BLOCKS. blk_of e C i \<noteq> 0 \<longrightarrow> blk_of e' C' i = blk_of e C i) \<and>
     (\<forall>x < INODE_MAX_BYTES. file_byte e' C' x = file_byte e C x) \<and>
     free_count sb C \<le> free_count sb C' + k \<and>
     (indirect e' \<noteq> indirect e \<longrightarrow> \<not> data_block sb C (indirect e')) \<and>
     (\<forall>b. data_block sb C b \<longrightarrow> data_block sb C' b \<and> (b \<noteq> indirect e \<longrightarrow> C' b = C b))"

lemma grows_refl: "disk_ok sb C \<Longrightarrow> file_ok sb e C \<Longrightarrow> grows sb e C e C 0"
  by (simp add: grows_def)

lemma grows_trans:
  assumes "grows sb e C e1 C1 k" and "grows sb e1 C1 e2 C2 m"
  shows "grows sb e C e2 C2 (k + m)"
proof -
  have "e2\<lparr>addrs := addrs e, indirect := indirect e\<rparr> =
      (e2\<lparr>addrs := addrs e1, indirect := indirect e1\<rparr>)\<lparr>addrs := addrs e, indirect := indirect e\<rparr>" by simp
  also have "\<dots> = e" using assms by (simp add: grows_def)
  finally have e: "e2\<lparr>addrs := addrs e, indirect := indirect e\<rparr> = e" .
  have d: "data_block sb C2 b \<and> (b \<noteq> indirect e \<longrightarrow> C2 b = C b)" if "data_block sb C b" for b
    using assms that unfolding grows_def by metis
  have "indirect e2 \<noteq> indirect e \<longrightarrow> \<not> data_block sb C (indirect e2)"
    using assms unfolding grows_def by metis
  moreover have "blk_of e2 C2 i = blk_of e C i" if "i < INODE_MAX_BLOCKS" "blk_of e C i \<noteq> 0" for i
    using assms that unfolding grows_def by simp
  ultimately show ?thesis
    using assms e d unfolding grows_def by auto
qed

lemma file_byte_cong:
  assumes "blk_of e' C' (x div BLOCK_SIZE) = blk_of e C (x div BLOCK_SIZE)"
    and "blk_of e C (x div BLOCK_SIZE) \<noteq> 0 \<Longrightarrow>
      C' (blk_of e C (x div BLOCK_SIZE)) = C (blk_of e C (x div BLOCK_SIZE))"
  shows "file_byte e' C' x = file_byte e C x"
  using assms by (simp add: file_byte_def Let_def)

text \<open>One new block \<open>r\<close>, entered at file block \<open>k\<close>, or as the indirect block when \<open>k\<close> is out of range.\<close>

definition new_block ::
  "super_block \<Rightarrow> inode_entry \<Rightarrow> contents \<Rightarrow> nat \<Rightarrow> nat \<Rightarrow> inode_entry \<Rightarrow> contents \<Rightarrow> bool" where
  "new_block sb e C r k e' C' \<longleftrightarrow> disk_ok sb C \<and> file_ok sb e C \<and> first_free sb C = Some r \<and>
     (\<forall>b. b \<noteq> indirect e' \<or> b = 0 \<longrightarrow> C' b = alloc_eff sb r C b) \<and>
     length (C' (indirect e')) = BLOCK_SIZE \<and>
     (indirect e' = indirect e \<or> indirect e = 0 \<and> indirect e' = r \<and> INODE_MAX_BLOCKS \<le> k) \<and>
     (\<forall>i < INODE_MAX_BLOCKS. blk_of e' C' i = (if i = k then r else blk_of e C i)) \<and>
     (k < INODE_MAX_BLOCKS \<longrightarrow> blk_of e C k = 0) \<and>
     e'\<lparr>addrs := addrs e, indirect := indirect e\<rparr> = e \<and> length (addrs e') = INODE_NUM_DIRECT"

lemma new_blockD:
  assumes "new_block sb e C r k e' C'"
  shows "disk_ok sb C" and "file_ok sb e C" and "first_free sb C = Some r"
    and "b \<noteq> indirect e' \<or> b = 0 \<Longrightarrow> C' b = alloc_eff sb r C b"
    and "length (C' (indirect e')) = BLOCK_SIZE"
    and "indirect e' = indirect e \<or> indirect e = 0 \<and> indirect e' = r \<and> INODE_MAX_BLOCKS \<le> k"
    and "i < INODE_MAX_BLOCKS \<Longrightarrow> blk_of e' C' i = (if i = k then r else blk_of e C i)"
    and "k < INODE_MAX_BLOCKS \<Longrightarrow> blk_of e C k = 0"
    and "e'\<lparr>addrs := addrs e, indirect := indirect e\<rparr> = e" and "length (addrs e') = INODE_NUM_DIRECT"
  using assms unfolding new_block_def by auto

lemma new_block_free:
  assumes n: "new_block sb e C r k e' C'"
  shows "c < sb_num_blocks sb \<Longrightarrow> free_block sb C' c = free_block sb (alloc_eff sb r C) c"
    and "data_block sb C' b = data_block sb (alloc_eff sb r C) b"
    and "disk_ok sb C'" and "indirect e' \<noteq> 0 \<Longrightarrow> data_block sb C' (indirect e')"
    and "free_count sb C \<le> free_count sb C' + 1"
proof -
  note A = alloc_eff_data [OF new_blockD(1,3) [OF n]]
  have ind: "indirect e' \<noteq> 0 \<Longrightarrow> data_block sb (alloc_eff sb r C) (indirect e')"
    using new_blockD(2,6) [OF n] A(1,2) by (auto simp: file_ok_def)
  show fr: "free_block sb C' c = free_block sb (alloc_eff sb r C) c" if "c < sb_num_blocks sb" for c
  proof -
    have "BBLOCK c sb \<noteq> indirect e' \<or> BBLOCK c sb = 0"
      using meta_BBLOCK [OF that] ind by (cases "indirect e' = 0") (auto simp: data_block_def)
    then show ?thesis by (simp add: free_block_def new_blockD(4) [OF n])
  qed
  show db: "data_block sb C' b = data_block sb (alloc_eff sb r C) b" for b
    using fr by (auto simp: data_block_def)
  show "indirect e' \<noteq> 0 \<Longrightarrow> data_block sb C' (indirect e')" using ind db by simp
  have len: "length (C' b) = BLOCK_SIZE" for b
    using new_blockD(1,5) [OF n] new_blockD(4) [OF n, of b] length_alloc_eff [of C sb r]
    by (cases "b = indirect e'") (auto simp: disk_ok_def)
  show "disk_ok sb C'"
    using alloc_eff_disk [OF new_blockD(1,3) [OF n]] fr len by (simp add: disk_ok_def)
  have "{b. b < sb_num_blocks sb \<and> free_block sb C' b} = {b. b < sb_num_blocks sb \<and> free_block sb (alloc_eff sb r C) b}"
    using fr by auto
  then show "free_count sb C \<le> free_count sb C' + 1"
    using alloc_eff_count [OF new_blockD(1,3) [OF n]] by (simp add: free_count_def)
qed

lemma file_okD:
  assumes "file_ok sb e C" and "i < INODE_MAX_BLOCKS" and "blk_of e C i \<noteq> 0"
  shows "data_block sb C (blk_of e C i)" and "blk_of e C i \<noteq> indirect e"
    and "j < INODE_MAX_BLOCKS \<Longrightarrow> blk_of e C j = blk_of e C i \<Longrightarrow> j = i"
  using assms by (auto simp: file_ok_def)

lemma new_block_keep:
  assumes n: "new_block sb e C r k e' C'"
  shows "data_block sb C b \<Longrightarrow> data_block sb C' b \<and> (b \<noteq> indirect e \<longrightarrow> C' b = C b) \<and> b \<noteq> r"
    and "indirect e \<noteq> r" and "j < INODE_MAX_BLOCKS \<Longrightarrow> blk_of e C j \<noteq> r"
proof -
  note A = alloc_eff_data [OF new_blockD(1,3) [OF n]]
  show "indirect e \<noteq> r" using new_blockD(2) [OF n] A(3,4) by (auto simp: file_ok_def)
  show "blk_of e C j \<noteq> r" if "j < INODE_MAX_BLOCKS"
    using file_okD(1) [OF new_blockD(2) [OF n] that] A(3,4) by metis
  assume "data_block sb C b"
  then show "data_block sb C' b \<and> (b \<noteq> indirect e \<longrightarrow> C' b = C b) \<and> b \<noteq> r"
    using A(1) [of b] new_blockD(6) [OF n] new_blockD(4) [OF n, of b] new_block_free(2) [OF n] by auto
qed

lemma new_block_file:
  assumes n: "new_block sb e C r k e' C'"
  shows "file_ok sb e' C'"
proof -
  note map = new_blockD(7) [OF n] and im = new_blockD(6) [OF n]
  note old = file_okD [OF new_blockD(2) [OF n]] and keep = new_block_keep [OF n]
  have "data_block sb C' (blk_of e' C' i) \<and> blk_of e' C' i \<noteq> indirect e' \<and>
      (\<forall>j < INODE_MAX_BLOCKS. blk_of e' C' j = blk_of e' C' i \<longrightarrow> j = i)"
    if i: "i < INODE_MAX_BLOCKS" "blk_of e' C' i \<noteq> 0" for i
  proof (cases "i = k")
    case True
    have "data_block sb C' r"
      using alloc_eff_data(2) [OF new_blockD(1,3) [OF n]] new_block_free(2) [OF n] by simp
    then show ?thesis using True i keep(2,3) im map by auto
  next
    case False
    then have "blk_of e' C' i = blk_of e C i" "blk_of e C i \<noteq> 0" using map i by auto
    moreover from this have "blk_of e C i \<noteq> r" "data_block sb C' (blk_of e C i)"
      using keep(1) [OF old(1) [OF i(1)]] by auto
    ultimately show ?thesis using old [OF i(1)] im map by auto
  qed
  then show ?thesis using new_block_free(4) [OF n] new_blockD(10) [OF n] by (simp add: file_ok_def)
qed

lemma new_block_byte:
  assumes n: "new_block sb e C r k e' C'" and x: "x < INODE_MAX_BYTES"
  shows "file_byte e' C' x = file_byte e C x"
proof -
  let ?i = "x div BLOCK_SIZE"
  have i: "?i < INODE_MAX_BLOCKS" using x by (simp add: div_less_iff_less_mult)
  note map = new_blockD(7) [OF n i]
  show ?thesis
  proof (cases "?i = k")
    case True
    then have "indirect e' = indirect e" using new_blockD(6) [OF n] i by auto
    then have "C' r = replicate BLOCK_SIZE 0"
      using new_blockD(4) [OF n, of r] new_block_keep(2) [OF n] alloc_eff_new by simp
    moreover have "blk_of e' C' ?i = r" "blk_of e C ?i = 0"
      using map new_blockD(8) [OF n] True i by simp_all
    ultimately show ?thesis by (simp add: file_byte_def)
  next
    case False
    show ?thesis
    proof (rule file_byte_cong)
      show "blk_of e' C' ?i = blk_of e C ?i" using map False by simp
      show "C' (blk_of e C ?i) = C (blk_of e C ?i)" if "blk_of e C ?i \<noteq> 0"
        using new_block_keep(1) [OF n] file_okD [OF new_blockD(2) [OF n] i that] by simp
    qed
  qed
qed

lemma new_block_grows:
  assumes n: "new_block sb e C r k e' C'"
  shows "grows sb e C e' C' 1"
proof -
  have mp: "blk_of e' C' i = blk_of e C i" if "i < INODE_MAX_BLOCKS" "blk_of e C i \<noteq> 0" for i
    using new_blockD(7) [OF n that(1)] new_blockD(8) [OF n] that by auto
  have nr: "\<not> data_block sb C r" by (rule alloc_eff_data(4) [OF new_blockD(1,3) [OF n]])
  show ?thesis
    unfolding grows_def
    using new_block_free(3,5) [OF n] new_block_file [OF n] new_blockD(6,9) [OF n] mp
      new_block_byte [OF n] new_block_keep(1) [OF n] nr by blast
qed

section \<open>Mapping a file block\<close>

text \<open>What \<^verbatim>\<open>inode_map\<close> does to entry and contents; \<open>None\<close> when the disk is full.\<close>

definition alloc_abs :: "super_block \<Rightarrow> contents \<Rightarrow> (nat \<times> contents) option" where
  "alloc_abs sb C = map_option (\<lambda>r. (r, alloc_eff sb r C)) (first_free sb C)"

definition map_abs ::
  "super_block \<Rightarrow> nat \<Rightarrow> inode_entry \<Rightarrow> contents \<Rightarrow> (nat \<times> inode_entry \<times> contents) option" where
  "map_abs sb off e C =
     (if blk_of e C off \<noteq> 0 then Some (blk_of e C off, e, C)
      else if off < INODE_NUM_DIRECT then do {
        (r, C) \<leftarrow> alloc_abs sb C;
        Some (r, e\<lparr>addrs := (addrs e)[off := r]\<rparr>, C) }
      else do {
        (e, C) \<leftarrow>
          (if indirect e = 0 then do { (r, C) \<leftarrow> alloc_abs sb C; Some (e\<lparr>indirect := r\<rparr>, C) }
           else Some (e, C));
        (r, C) \<leftarrow> alloc_abs sb C;
        Some (r, e, C(indirect e := put_addr (C (indirect e)) (off - INODE_NUM_DIRECT) r)) })"

lemma new_direct:
  assumes "disk_ok sb C" and "file_ok sb e C" and "first_free sb C = Some r"
    and "off < INODE_NUM_DIRECT" and "blk_of e C off = 0"
  shows "new_block sb e C r off (e\<lparr>addrs := (addrs e)[off := r]\<rparr>) (alloc_eff sb r C)"
proof -
  let ?e = "e\<lparr>addrs := (addrs e)[off := r]\<rparr>"
  have len: "length (addrs e) = INODE_NUM_DIRECT" using assms(2) by (simp add: file_ok_def)
  have "alloc_eff sb r C (indirect e) = C (indirect e)" if "indirect e \<noteq> 0"
    using alloc_eff_data(1) [OF assms(1,3)] assms(2) that by (simp add: file_ok_def)
  then have "blk_of ?e (alloc_eff sb r C) i = (if i = off then r else blk_of e C i)" for i
    using assms(4) len by (auto simp: blk_of_def)
  then show ?thesis
    using assms len length_alloc_eff [of C sb r] by (simp add: new_block_def disk_ok_def)
qed

lemma new_indirect:
  assumes "disk_ok sb C" and "file_ok sb e C" and "first_free sb C = Some r" and "indirect e = 0"
  shows "new_block sb e C r INODE_MAX_BLOCKS (e\<lparr>indirect := r\<rparr>) (alloc_eff sb r C)"
proof -
  have "r \<noteq> 0" by (rule alloc_eff_data(3) [OF assms(1,3)])
  then have "blk_of (e\<lparr>indirect := r\<rparr>) (alloc_eff sb r C) i = blk_of e C i" if "i < INODE_MAX_BLOCKS" for i
    using assms(4) that alloc_eff_new [of sb r C] by (simp add: blk_of_def)
  then show ?thesis
    using assms length_alloc_eff [of C sb r] by (simp add: new_block_def disk_ok_def file_ok_def)
qed

lemma new_entry:
  assumes ok: "disk_ok sb C" "file_ok sb e C" and r: "first_free sb C = Some r" and "indirect e \<noteq> 0"
    and off: "INODE_NUM_DIRECT \<le> off" "off < INODE_MAX_BLOCKS" and "blk_of e C off = 0"
  shows "new_block sb e C r off e ((alloc_eff sb r C)(indirect e :=
    put_addr (alloc_eff sb r C (indirect e)) (off - INODE_NUM_DIRECT) r))"
proof -
  let ?C = "(alloc_eff sb r C)(indirect e := put_addr (alloc_eff sb r C (indirect e)) (off - INODE_NUM_DIRECT) r)"
  have same: "alloc_eff sb r C (indirect e) = C (indirect e)" "length (C (indirect e)) = BLOCK_SIZE"
    using alloc_eff_data(1) [OF ok(1) r] ok assms(4) by (auto simp: file_ok_def disk_ok_def)
  have r32: "r < 2 ^ 32" by (rule alloc_eff_data(5) [OF ok(1) r])
  have o: "off - INODE_NUM_DIRECT < INODE_NUM_INDIRECT" using off by simp
  have "blk_of e ?C i = (if i = off then r else blk_of e C i)" if i: "i < INODE_MAX_BLOCKS" for i
  proof (cases "i < INODE_NUM_DIRECT")
    case True
    then show ?thesis using off(1) by (auto simp: blk_of_def)
  next
    case False
    then have "i - INODE_NUM_DIRECT < INODE_NUM_INDIRECT" using i by simp
    from get_put_addr [OF same(2) o this r32] False off(1) show ?thesis
      using assms(4) by (auto simp: blk_of_def same(1))
  qed
  then show ?thesis
    using ok r assms(4,7) length_put_addr [OF same(2) o] same(1) by (simp add: new_block_def file_ok_def)
qed

lemma map_abs_grows:
  assumes ok: "disk_ok sb C" "file_ok sb e C" and off: "off < INODE_MAX_BLOCKS"
    and m: "map_abs sb off e C = Some (a, e', C')"
  shows "grows sb e C e' C' 2 \<and> a \<noteq> 0 \<and> a = blk_of e' C' off \<and>
    (blk_of e C off = 0 \<longrightarrow> \<not> data_block sb C a) \<and>
    (\<forall>i < INODE_MAX_BLOCKS. i \<noteq> off \<longrightarrow> blk_of e' C' i = blk_of e C i)"
proof (cases "blk_of e C off \<noteq> 0")
  case True
  with m ok show ?thesis by (auto simp: map_abs_def grows_def)
next
  case False
  have weak: "grows sb e C e' C' 1 \<Longrightarrow> grows sb e C e' C' 2" by (auto simp: grows_def)
  show ?thesis
  proof (cases "off < INODE_NUM_DIRECT")
    case True
    with m False obtain r where r: "first_free sb C = Some r" "a = r" "e' = e\<lparr>addrs := (addrs e)[off := r]\<rparr>"
        "C' = alloc_eff sb r C"
      by (auto simp: map_abs_def alloc_abs_def elim!: bind_eq_SomeE)
    have n: "new_block sb e C r off e' C'" using new_direct [OF ok r(1) True] False r by simp
    from weak [OF new_block_grows [OF n]] new_blockD(7) [OF n] off r(2) alloc_eff_data(3,4) [OF ok(1) r(1)]
    show ?thesis by simp
  next
    case ind: False
    obtain e1 C1 k where 1: "grows sb e C e1 C1 k" "k \<le> 1" "indirect e1 \<noteq> 0" "blk_of e1 C1 off = 0"
        "\<And>i. i < INODE_MAX_BLOCKS \<Longrightarrow> blk_of e1 C1 i = blk_of e C i"
        "(if indirect e = 0 then do { (r, C) \<leftarrow> alloc_abs sb C; Some (e\<lparr>indirect := r\<rparr>, C) } else Some (e, C)) = Some (e1, C1)"
    proof (cases "indirect e = 0")
      case True
      with m False ind obtain r where r: "first_free sb C = Some r"
        by (auto simp: map_abs_def alloc_abs_def elim!: bind_eq_SomeE)
      note n = new_indirect [OF ok r True]
      show thesis
        using that [of "e\<lparr>indirect := r\<rparr>" "alloc_eff sb r C" 1] new_block_grows [OF n] True r
          alloc_eff_data(3) [OF ok(1) r] new_blockD(7) [OF n] off False
        by (simp add: alloc_abs_def)
    next
      case False
      then show thesis using that [of e C 0] grows_refl [OF ok] \<open>\<not> blk_of e C off \<noteq> 0\<close> by simp
    qed
    have ok1: "disk_ok sb C1" "file_ok sb e1 C1" using 1(1) by (auto simp: grows_def)
    from m False ind 1(6) obtain r where r: "first_free sb C1 = Some r" "a = r" "e' = e1"
        "C' = (alloc_eff sb r C1)(indirect e1 := put_addr (alloc_eff sb r C1 (indirect e1)) (off - INODE_NUM_DIRECT) r)"
      by (auto simp: map_abs_def alloc_abs_def elim!: bind_eq_SomeE)
    have n: "new_block sb e1 C1 r off e' C'" using new_entry [OF ok1 r(1) 1(3) _ off 1(4)] ind r by simp
    from grows_trans [OF 1(1) new_block_grows [OF n]] 1(2) have "grows sb e C e' C' 2"
      by (auto simp: grows_def)
    moreover have "\<not> data_block sb C r"
      using alloc_eff_data(4) [OF ok1(1) r(1)] 1(1) by (auto simp: grows_def)
    ultimately show ?thesis
      using new_blockD(7) [OF n] off 1(5) r(2) alloc_eff_data(3) [OF ok1(1) r(1)] by simp
  qed
qed

section \<open>The code implements the abstract map\<close>

definition idle :: "cache_state \<Rightarrow> bool" where
  "idle c \<longleftrightarrow> (\<forall>q b. \<not> holds c q b)"

text \<open>\<open>reaches ctx n c C c'\<close>: the cache \<open>c'\<close> shows the contents \<open>C\<close>, holds what \<open>c\<close> held,
  and the operation has room for \<open>n\<close> more blocks.\<close>

definition reaches :: "op_context option \<Rightarrow> nat \<Rightarrow> cache_state \<Rightarrow> contents \<Rightarrow> cache_state \<Rightarrow> bool" where
  "reaches ctx n c C c' \<longleftrightarrow> bc.after ctx c C (log_list c') c' \<and> room_for ctx n"

lemma reachesI: "bc.after ctx c C L c' \<Longrightarrow> room_for ctx n \<Longrightarrow> reaches ctx n c C c'"
  by (simp add: reaches_def bc.after_def)

lemma reachesD:
  assumes "reaches ctx n c C c'"
  shows "cache_inv ctx c'" and "content c' = C" and "holds c' = holds c" and "saved c b \<Longrightarrow> saved c' b"
    and "room_for ctx n" and "idle c' = idle c"
  using assms by (auto simp: reaches_def bc.after_def idle_def)

lemma reaches_refl: "cache_inv ctx c \<Longrightarrow> room_for ctx n \<Longrightarrow> reaches ctx n c (content c) c"
  by (simp add: reaches_def bc.after_refl)

lemma reaches_trans: "reaches ctx n c C c' \<Longrightarrow> reaches ctx' m c' C' c'' \<Longrightarrow> reaches ctx' m c C' c''"
  by (auto simp: reaches_def intro: bc.after_trans)

lemma reaches_less: "reaches ctx n c C c' \<Longrightarrow> m \<le> n \<Longrightarrow> reaches ctx m c C c'"
  by (auto simp: reaches_def intro: room_for_mono)

lemma alloc_refines:
  assumes "cache_inv ctx c" and "alloc_ready sb c" and "room_for ctx (n + 2)"
  shows "case alloc_abs sb (content c) of
      None \<Rightarrow> cache_alloc sb ctx c = None
    | Some (r, C) \<Rightarrow> \<exists>ctx' c'. cache_alloc sb ctx c = Some (r, ctx', c') \<and> reaches ctx' n c C c'"
proof -
  have "room_for ctx 2" using assms(3) by (rule room_for_mono) simp
  note spec = cache_alloc_spec [OF assms(1,2) this]
  have room: "room_for (alloc_ctx sb r ctx (log_list c)) n" for r
    unfolding alloc_ctx_def using assms(3) by (intro room_for_charge) simp
  show ?thesis
    using spec room
    by (cases "first_free sb (content c)")
      (auto simp: alloc_abs_def allocated_from_def alloc_eff_def intro: reachesI)
qed

lemma idle_ready: "idle c \<Longrightarrow> alloc_ready sb c"
  by (simp add: idle_def alloc_ready_def)

definition entry_step :: "nat \<Rightarrow> inode_state \<Rightarrow> inode_entry \<Rightarrow> inode_state \<Rightarrow> bool" where
  "entry_step ip s e s' \<longleftrightarrow> inode_of s' = (inode_of s)(ip := (inode_of s ip)\<lparr>entry := e\<rparr>) \<and>
     ilist s' = ilist s \<and> next_inode s' = next_inode s"

lemma entry_step_refl: "entry_step ip s (entry (inode_of s ip)) s"
  by (simp add: entry_step_def)

lemma entry_step_trans: "entry_step ip s e s' \<Longrightarrow> entry_step ip s' e' s'' \<Longrightarrow> entry_step ip s e' s''"
  by (simp add: entry_step_def)

lemma entry_step_entry: "entry_step ip s e s' \<Longrightarrow> entry (inode_of s' ip) = e"
  by (simp add: entry_step_def)

lemma map_direct_refines:
  fixes ip :: nat
  assumes "cache_inv ctx (bcache s)" and "idle (bcache s)" and "room_for ctx (n + 2)"
    and "off < INODE_NUM_DIRECT"
  defines "e \<equiv> entry (inode_of s ip)" and "C \<equiv> content (bcache s)"
  shows "case map_abs sb off e C of
      None \<Rightarrow> map_direct sb ctx ip off md s = None
    | Some (a, e', C') \<Rightarrow> \<exists>md' ctx' s'. map_direct sb ctx ip off md s = Some (a, md', ctx', s') \<and>
        reaches ctx' n (bcache s) C' (bcache s') \<and> entry_step ip s e' s'"
proof (cases "addrs e ! off = 0")
  case True
  then show ?thesis
    using alloc_refines [OF assms(1) idle_ready [OF assms(2)] assms(3), of sb] assms(4)
    by (auto simp: map_direct_def map_abs_def blk_of_def e_def C_def alloc_abs_def entry_step_def
        upd_entry_def upd_inode_def split: option.splits)
next
  case False
  then have "map_abs sb off e C = Some (addrs e ! off, e, C)" using assms(4) by (simp add: map_abs_def blk_of_def)
  moreover have "map_direct sb ctx ip off md s = Some (addrs e ! off, md, ctx, s)"
    using False by (simp add: map_direct_def e_def)
  moreover have "room_for ctx n" using assms(3) by (rule room_for_mono) simp
  ultimately show ?thesis
    using reaches_refl [OF assms(1)] entry_step_refl [of ip s] by (simp add: e_def C_def)
qed

text \<open>Allocating while the indirect block is held, then storing the new address in it.\<close>

lemma store_entry:
  assumes inv: "cache_inv ctx c" and id: "idle c" and room: "room_for ctx (n + 3)"
    and ind: "data_block sb (content c) ind" and off: "off < INODE_NUM_INDIRECT"
    and acq: "cache_acquire ind c = Some (bp, c1)"
  shows "case alloc_abs sb (content c) of
      None \<Rightarrow> cache_alloc sb ctx c1 = None
    | Some (r, C) \<Rightarrow> \<exists>ctx1 ctx2 c2 c3. cache_alloc sb ctx c1 = Some (r, ctx1, c2) \<and>
        cache_sync ctx1 bp (set_data bp (put_addr (data (blk c2 bp)) off r) c2) = Some (ctx2, c3) \<and>
        reaches ctx2 n c (C(ind := put_addr (C ind) off r)) (cache_release bp c3)"
proof -
  have free: "\<And>q. \<not> holds c q ind" using id by (simp add: idle_def)
  have a: "cache_inv ctx c1" "content c1 = content c" "saved c1 = saved c"
      "holds c1 = (\<lambda>q d. holds c q d \<or> q = bp \<and> d = ind)"
    using bc.acq_law [OF inv free] acq by auto
  then have h1: "holds c1 = (\<lambda>q d. q = bp \<and> d = ind)" using id by (simp add: idle_def)
  have rdy: "alloc_ready sb c1"
    using ind meta_BBLOCK [of _ sb] by (auto simp: alloc_ready_def h1 a(2) data_block_def)
  have r3: "room_for ctx (Suc n + 2)" using room by (simp add: numeral_eq_Suc)
  show ?thesis
  proof (cases "alloc_abs sb (content c)")
    case None
    then show ?thesis using alloc_refines [OF a(1) rdy r3] by (simp add: a(2))
  next
    case (Some x)
    obtain r C where x: "alloc_abs sb (content c) = Some (r, C)" using Some by (cases x) auto
    obtain ctx1 c2 where 2: "cache_alloc sb ctx c1 = Some (r, ctx1, c2)" "reaches ctx1 (Suc n) c1 C c2"
      using alloc_refines [OF a(1) rdy r3] x by (auto simp: a(2))
    note R = reachesD [OF 2(2)]
    have h2: "holds c2 bp ind" using R(3) h1 by simp
    let ?d = "put_addr (data (blk c2 bp)) off r"
    have d2: "data (blk c2 bp) = C ind" using bc.dat_law [OF R(1) h2] R(2) by simp
    have len: "length ?d = BLOCK_SIZE"
      using off bc.length_law [OF R(1), of ind] R(2) by (simp add: d2)
    note P = bc.put_law [OF R(1) h2 len]
    have h3: "holds (set_data bp ?d c2) bp ind" using P h2 by simp
    have inv3: "cache_inv ctx1 (set_data bp ?d c2)" using P by simp
    obtain c3 where 3: "cache_sync ctx1 bp (set_data bp ?d c2) = Some (charge ctx1 ind (log_list (set_data bp ?d c2)), c3)"
        "cache_inv (charge ctx1 ind (log_list (set_data bp ?d c2))) c3" "content c3 = C(ind := put_addr (C ind) off r)"
        "holds c3 = holds c1" "saved c3 ind" "\<And>b. saved (set_data bp ?d c2) b \<Longrightarrow> saved c3 b"
      using bc.syn_law [OF inv3 h3] room_for_has_room [OF R(5)] P R(2,3) d2 by auto
    have h4: "holds c3 bp ind" using 3(4) h1 by simp
    note L = bc.rel_law [OF 3(2) h4 3(5)]
    have "saved c b \<Longrightarrow> saved (cache_release bp c3) b" for b
      using L 3(5,6) P R(4) a(3) by (cases "b = ind") auto
    moreover have "holds (cache_release bp c3) = holds c"
      using L 3(4) h1 id by (auto simp: idle_def fun_eq_iff)
    ultimately have "reaches (charge ctx1 ind (log_list (set_data bp ?d c2))) n c (C(ind := put_addr (C ind) off r)) (cache_release bp c3)"
      using L 3(3) R(5) by (simp add: reaches_def bc.after_def)
    with 2(1) 3(1) x show ?thesis by auto
  qed
qed

definition entry_abs ::
  "super_block \<Rightarrow> nat \<Rightarrow> nat \<Rightarrow> contents \<Rightarrow> (nat \<times> contents) option" where
  "entry_abs sb ind off C =
     (if get_addr (C ind) off \<noteq> 0 then Some (get_addr (C ind) off, C)
      else map_option (\<lambda>(r, C). (r, C(ind := put_addr (C ind) off r))) (alloc_abs sb C))"

lemma map_indirect_refines:
  assumes inv: "cache_inv ctx c" and id: "idle c" and room: "room_for ctx (n + 3)"
    and ind: "data_block sb (content c) ind" and off: "off < INODE_NUM_INDIRECT"
  shows "case entry_abs sb ind off (content c) of
      None \<Rightarrow> map_indirect sb ctx ind off md c = None
    | Some (a, C) \<Rightarrow> \<exists>md' ctx' c'. map_indirect sb ctx ind off md c = Some (a, md', ctx', c') \<and>
        reaches ctx' n c C c'"
proof -
  have free: "\<And>q. \<not> holds c q ind" using id by (simp add: idle_def)
  obtain bp c1 where r: "cache_acquire ind c = Some (bp, c1)" "data (blk c1 bp) = content c ind"
      "bc.after ctx c (content c) (log_list c) (cache_release bp c1)"
    using bc.read_cycle [OF inv free] by metis
  show ?thesis
  proof (cases "get_addr (content c ind) off = 0")
    case True
    then show ?thesis
      using store_entry [OF inv id room ind off r(1)] r(1,2)
      by (cases "alloc_abs sb (content c)") (auto simp: map_indirect_def entry_abs_def)
  next
    case False
    have "room_for ctx n" using room by (rule room_for_mono) simp
    then have "reaches ctx n c (content c) (cache_release bp c1)" using r(3) by (blast intro: reachesI)
    with False r(1,2) show ?thesis by (simp add: map_indirect_def entry_abs_def)
  qed
qed

text \<open>The state after \<^verbatim>\<open>inode_map\<close>, or that it stopped for lack of a free block.\<close>

definition mapped ::
  "nat \<Rightarrow> nat \<Rightarrow> inode_state \<Rightarrow> (nat \<times> inode_entry \<times> contents) option \<Rightarrow>
   (nat \<times> bool \<times> op_context option \<times> inode_state) option \<Rightarrow> bool" where
  "mapped ip n s spec res \<longleftrightarrow>
     (case spec of
        None \<Rightarrow> res = None
      | Some (a, e, C) \<Rightarrow> \<exists>md ctx s'. res = Some (a, md, ctx, s') \<and>
          reaches ctx n (bcache s) C (bcache s') \<and> entry_step ip s e s')"

definition indirect_abs :: "super_block \<Rightarrow> inode_entry \<Rightarrow> contents \<Rightarrow> (inode_entry \<times> contents) option" where
  "indirect_abs sb e C =
     (if indirect e = 0 then do { (r, C) \<leftarrow> alloc_abs sb C; Some (e\<lparr>indirect := r\<rparr>, C) } else Some (e, C))"

lemma map_abs_indirect:
  assumes "disk_ok sb C" and "INODE_NUM_DIRECT \<le> off" and "off < INODE_MAX_BLOCKS"
  shows "map_abs sb off e C = do {
    (e1, C1) \<leftarrow> indirect_abs sb e C;
    (a, C2) \<leftarrow> entry_abs sb (indirect e1) (off - INODE_NUM_DIRECT) C1;
    Some (a, e1, C2) }"
proof (cases "indirect e = 0")
  case False
  then show ?thesis
    using assms(2) by (auto simp: map_abs_def indirect_abs_def entry_abs_def blk_of_def split: option.splits bind_splits)
next
  case True
  show ?thesis
  proof (cases "first_free sb C")
    case None
    then show ?thesis using True assms(2) by (simp add: map_abs_def indirect_abs_def alloc_abs_def blk_of_def)
  next
    case (Some r)
    have o: "off - INODE_NUM_DIRECT < INODE_NUM_INDIRECT" using assms(2,3) by simp
    have "get_addr (alloc_eff sb r C r) (off - INODE_NUM_DIRECT) = 0"
      unfolding alloc_eff_new by (rule get_addr_zero [OF o])
    then show ?thesis
      using True Some assms(2)
      by (cases "first_free sb (alloc_eff sb r C)")
        (simp_all add: map_abs_def indirect_abs_def entry_abs_def alloc_abs_def blk_of_def)
  qed
qed

lemma ensure_indirect_refines:
  fixes ip :: nat
  assumes inv: "cache_inv ctx (bcache s)" and id: "idle (bcache s)" and room: "room_for ctx (n + 2)"
    and ok: "disk_ok sb (content (bcache s))" "file_ok sb (entry (inode_of s ip)) (content (bcache s))"
  shows "case indirect_abs sb (entry (inode_of s ip)) (content (bcache s)) of
      None \<Rightarrow> ensure_indirect sb ctx ip s = None
    | Some (e1, C1) \<Rightarrow> \<exists>ctx1 s1. ensure_indirect sb ctx ip s = Some (indirect e1, ctx1, s1) \<and>
        reaches ctx1 n (bcache s) C1 (bcache s1) \<and> entry_step ip s e1 s1 \<and> data_block sb C1 (indirect e1)"
proof (cases "indirect (entry (inode_of s ip)) = 0")
  case True
  then show ?thesis
    using alloc_refines [OF inv idle_ready [OF id] room, of sb] alloc_eff_data(2) [OF ok(1)]
    by (cases "first_free sb (content (bcache s))")
      (auto simp: indirect_abs_def alloc_abs_def ensure_indirect_def entry_step_def upd_entry_def upd_inode_def)
next
  case False
  have "room_for ctx n" using room by (rule room_for_mono) simp
  with False ok show ?thesis
    using reaches_refl [OF inv] entry_step_refl [of ip s]
    by (simp add: indirect_abs_def ensure_indirect_def file_ok_def)
qed

lemma inode_map_refines:
  assumes inv: "cache_inv ctx (bcache s)" and id: "idle (bcache s)" and room: "room_for ctx (n + 5)"
    and ok: "disk_ok sb (content (bcache s))" "file_ok sb (entry (inode_of s ip)) (content (bcache s))"
    and off: "off < INODE_MAX_BLOCKS"
  shows "mapped ip n s (map_abs sb off (entry (inode_of s ip)) (content (bcache s))) (inode_map sb ctx ip off md s)"
proof (cases "off < INODE_NUM_DIRECT")
  case True
  have "room_for ctx (n + 2)" using room by (rule room_for_mono) simp
  from map_direct_refines [OF inv id this True] True show ?thesis
    by (simp add: mapped_def inode_map_def)
next
  case False
  let ?e = "entry (inode_of s ip)" and ?C = "content (bcache s)" and ?o = "off - INODE_NUM_DIRECT"
  have o: "?o < INODE_NUM_INDIRECT" "INODE_NUM_DIRECT \<le> off" using False off by simp_all
  have run: "inode_map sb ctx ip off md s = do {
        (ind, ctx, s) \<leftarrow> ensure_indirect sb ctx ip s;
        (a, modified, ctx, c) \<leftarrow> map_indirect sb ctx ind ?o md (bcache s);
        Some (a, modified, ctx, s\<lparr>bcache := c\<rparr>) }"
    using False o by (simp add: inode_map_def)
  have "room_for ctx ((n + 3) + 2)" using room by (rule room_for_mono) simp
  note E = ensure_indirect_refines [OF inv id this ok]
  show ?thesis
  proof (cases "indirect_abs sb ?e ?C")
    case None
    with E show ?thesis by (simp add: mapped_def map_abs_indirect [OF ok(1) o(2) off] run)
  next
    case (Some x)
    then obtain e1 C1 where x: "indirect_abs sb ?e ?C = Some (e1, C1)" by (cases x) auto
    with E obtain ctx1 s1 where 1: "ensure_indirect sb ctx ip s = Some (indirect e1, ctx1, s1)"
        "reaches ctx1 (n + 3) (bcache s) C1 (bcache s1)" "entry_step ip s e1 s1" "data_block sb C1 (indirect e1)"
      by auto
    note R = reachesD [OF 1(2)]
    have "data_block sb (content (bcache s1)) (indirect e1)" "idle (bcache s1)"
      using 1(4) R(2,6) id by simp_all
    note M = map_indirect_refines [OF R(1) this(2) R(5) this(1) o(1), of md, unfolded R(2)]
    show ?thesis
      using M 1 x reaches_trans [OF 1(2)]
      by (cases "entry_abs sb (indirect e1) ?o C1")
        (auto simp: mapped_def map_abs_indirect [OF ok(1) o(2) off] run entry_step_def)
  qed
qed

end
