(* ===== verification/Inode_File.thy ===== *)
theory Inode_File
  imports Inode_Map
begin

text \<open>
  Reading and writing files: \<^verbatim>\<open>inode_read\<close> returns exactly the bytes of the file and
  \<^verbatim>\<open>inode_write\<close> changes exactly the bytes it is given, in terms of the byte array
  \<open>file_data\<close>; no other file changes.
\<close>

section \<open>Reading\<close>

lemma chunk_index:
  assumes "off \<le> x" and "x < off + chunk off left"
  shows "x div BLOCK_SIZE = off div BLOCK_SIZE" and "x mod BLOCK_SIZE = off mod BLOCK_SIZE + (x - off)"
proof -
  define q t where "q = off div BLOCK_SIZE" and "t = off mod BLOCK_SIZE + (x - off)"
  have t: "t < BLOCK_SIZE" using assms by (simp add: chunk_def t_def)
  have x: "x = BLOCK_SIZE * q + t"
    using assms(1) mult_div_mod_eq [of BLOCK_SIZE off] by (simp add: q_def t_def)
  have "x div BLOCK_SIZE = q" "x mod BLOCK_SIZE = t" using t by (simp_all add: x)
  then show "x div BLOCK_SIZE = off div BLOCK_SIZE" "x mod BLOCK_SIZE = off mod BLOCK_SIZE + (x - off)"
    by (simp_all only: q_def t_def)
qed

lemma chunk_fits: "off mod BLOCK_SIZE + chunk off left \<le> BLOCK_SIZE"
  by (simp add: chunk_def)

lemma chunk_bytes:
  assumes "blk_of e C (off div BLOCK_SIZE) = b" and "b \<noteq> 0" and "length (C b) = BLOCK_SIZE"
  shows "get_bytes (off mod BLOCK_SIZE) (chunk off left) (C b) = map (file_byte e C) [off..<off + chunk off left]"
proof (rule nth_equalityI)
  show "length (get_bytes (off mod BLOCK_SIZE) (chunk off left) (C b)) =
      length (map (file_byte e C) [off..<off + chunk off left])"
    using assms(3) chunk_fits by simp
next
  fix i assume "i < length (get_bytes (off mod BLOCK_SIZE) (chunk off left) (C b))"
  then have i: "i < chunk off left" using assms(3) chunk_fits [of off left] by simp
  then show "get_bytes (off mod BLOCK_SIZE) (chunk off left) (C b) ! i =
      map (file_byte e C) [off..<off + chunk off left] ! i"
    using chunk_index [of off "off + i" left] assms chunk_fits [of off left]
    by (simp add: nth_get_bytes file_byte_def)
qed

text \<open>A file block that is present is found without touching anything.\<close>

lemma inode_map_present:
  assumes inv: "cache_inv ctx (bcache s)" and id: "idle (bcache s)" and off: "off < INODE_MAX_BLOCKS"
    and a: "blk_of (entry (inode_of s ip)) (content (bcache s)) off = a" "a \<noteq> 0"
  obtains s' where "inode_map sb None ip off md s = Some (a, md, None, s')"
    and "bc.after ctx (bcache s) (content (bcache s)) (log_list (bcache s)) (bcache s')"
    and "entry_step ip s (entry (inode_of s ip)) s'"
proof (cases "off < INODE_NUM_DIRECT")
  case True
  then have "inode_map sb None ip off md s = Some (a, md, None, s)"
    using a by (simp add: inode_map_def map_direct_def blk_of_def Let_def)
  then show thesis using that bc.after_refl [OF inv] entry_step_refl by blast
next
  case False
  let ?ind = "indirect (entry (inode_of s ip))"
  have ind: "?ind \<noteq> 0" "get_addr (content (bcache s) ?ind) (off - INODE_NUM_DIRECT) = a"
    using a False by (auto simp: blk_of_def split: if_splits)
  have free: "\<And>q. \<not> holds (bcache s) q ?ind" using id by (simp add: idle_def)
  obtain bp c1 where r: "cache_acquire ?ind (bcache s) = Some (bp, c1)"
      "data (blk c1 bp) = content (bcache s) ?ind"
      "bc.after ctx (bcache s) (content (bcache s)) (log_list (bcache s)) (cache_release bp c1)"
    using bc.read_cycle [OF inv free] by metis
  have "inode_map sb None ip off md s = Some (a, md, None, s\<lparr>bcache := cache_release bp c1\<rparr>)"
    using False off ind r(1,2) a(2) by (simp add: inode_map_def ensure_indirect_def map_indirect_def Let_def)
  with that [OF this] r(3) entry_step_refl [of ip s] show thesis by (simp add: entry_step_def)
qed

lemma read_loop_spec:
  assumes "cache_inv ctx (bcache s)" and "idle (bcache s)" and "off + left \<le> INODE_MAX_BYTES"
    and "entry (inode_of s ip) = e" and "content (bcache s) = C"
    and "\<And>x. off \<le> x \<Longrightarrow> x < off + left \<Longrightarrow> blk_of e C (x div BLOCK_SIZE) \<noteq> 0"
  shows "\<exists>s'. read_loop sb ip off left md dest s = Some (dest @ map (file_byte e C) [off..<off + left], s') \<and>
    bc.after ctx (bcache s) C (log_list (bcache s)) (bcache s') \<and> entry_step ip s e s'"
  using assms
proof (induction left arbitrary: off s dest md rule: less_induct)
  case (less left)
  show ?case
  proof (cases "left = 0")
    case True
    then show ?thesis
      using bc.after_refl [OF less.prems(1)] entry_step_refl [of ip s] less.prems(4,5)
      by (simp add: read_loop.simps)
  next
    case False
    let ?m = "chunk off left" and ?b = "blk_of e C (off div BLOCK_SIZE)"
    have m: "0 < ?m" "?m \<le> left" using False chunk_pos chunk_le by auto
    have b: "?b \<noteq> 0" using less.prems(6) False by simp
    have off: "off div BLOCK_SIZE < INODE_MAX_BLOCKS"
      using less.prems(3) False by (simp add: div_less_iff_less_mult)
    obtain s1 where 1: "inode_map sb None ip (off div BLOCK_SIZE) md s = Some (?b, md, None, s1)"
        "bc.after ctx (bcache s) C (log_list (bcache s)) (bcache s1)" "entry_step ip s e s1"
      using inode_map_present [OF less.prems(1,2) off _ b, of ip sb md] less.prems(4,5) by metis
    have i1: "cache_inv ctx (bcache s1)" "content (bcache s1) = C" "idle (bcache s1)"
        "log_list (bcache s1) = log_list (bcache s)"
      using 1(2) less.prems(2) by (auto simp: bc.after_def idle_def)
    have "\<And>q. \<not> holds (bcache s1) q ?b" using i1(3) by (simp add: idle_def)
    then obtain bp c where 2: "cache_acquire ?b (bcache s1) = Some (bp, c)" "data (blk c bp) = C ?b"
        "bc.after ctx (bcache s1) C (log_list (bcache s)) (cache_release bp c)"
      using bc.read_cycle [OF i1(1)] i1(2,4) by metis
    let ?s2 = "s1\<lparr>bcache := cache_release bp c\<rparr>"
    have len: "length (C ?b) = BLOCK_SIZE" using bc.length_law [OF i1(1)] i1(2) by simp
    have i2: "cache_inv ctx (bcache ?s2)" "idle (bcache ?s2)" "content (bcache ?s2) = C"
        "entry (inode_of ?s2 ip) = e" "log_list (bcache ?s2) = log_list (bcache s)"
      using 2(3) i1(3) 1(3) by (auto simp: bc.after_def idle_def entry_step_def)
    obtain s3 where 3: "read_loop sb ip (off + ?m) (left - ?m) md
          (dest @ get_bytes (off mod BLOCK_SIZE) ?m (C ?b)) ?s2 =
        Some ((dest @ get_bytes (off mod BLOCK_SIZE) ?m (C ?b)) @
          map (file_byte e C) [off + ?m..<off + ?m + (left - ?m)], s3)"
        "bc.after ctx (bcache ?s2) C (log_list (bcache ?s2)) (bcache s3)" "entry_step ip ?s2 e s3"
      using less.IH [of "left - ?m" ?s2 "off + ?m" md "dest @ get_bytes (off mod BLOCK_SIZE) ?m (C ?b)"]
        i2 less.prems(3,6) m by force
    have "map (file_byte e C) [off..<off + left] =
        get_bytes (off mod BLOCK_SIZE) ?m (C ?b) @ map (file_byte e C) [off + ?m..<off + ?m + (left - ?m)]"
      using chunk_bytes [OF refl b len, of left] m upt_add_eq_append [of off "off + ?m" "left - ?m"]
      by (metis add.assoc le_add1 le_add_diff_inverse map_append)
    then have "read_loop sb ip off left md dest s = Some (dest @ map (file_byte e C) [off..<off + left], s3)"
      using False 1(1) 2(1,2) 3(1) by (subst read_loop.simps) (simp add: Let_def)
    moreover have "entry_step ip s e s3"
      using 1(3) 3(3) by (simp add: entry_step_def)
    moreover have "bc.after ctx (bcache s) C (log_list (bcache s)) (bcache s3)"
      using bc.after_trans [OF bc.after_trans [OF 1(2) 2(3)]] 3(2) i2(5) by simp
    ultimately show ?thesis by blast
  qed
qed

section \<open>Writing\<close>

text \<open>
  \<open>written sb e C off src e' C'\<close>: the file \<open>e'\<close> in \<open>C'\<close> is \<open>e\<close> in \<open>C\<close> with the bytes \<open>src\<close>
  at \<open>off\<close>, all mapped; blocks in use that do not belong to the file are unchanged.
\<close>

definition written ::
  "super_block \<Rightarrow> inode_entry \<Rightarrow> contents \<Rightarrow> nat \<Rightarrow> u8 list \<Rightarrow> inode_entry \<Rightarrow> contents \<Rightarrow> bool" where
  "written sb e C off src e' C' \<longleftrightarrow> disk_ok sb C' \<and> file_ok sb e' C' \<and>
     e'\<lparr>addrs := addrs e, indirect := indirect e\<rparr> = e \<and>
     (\<forall>x < INODE_MAX_BYTES. file_byte e' C' x =
        (if off \<le> x \<and> x < off + length src then src ! (x - off) else file_byte e C x)) \<and>
     (\<forall>x < INODE_MAX_BYTES. off \<le> x \<and> x < off + length src \<longrightarrow> blk_of e' C' (x div BLOCK_SIZE) \<noteq> 0) \<and>
     (\<forall>i < INODE_MAX_BLOCKS. blk_of e C i \<noteq> 0 \<longrightarrow> blk_of e' C' i = blk_of e C i) \<and>
     (indirect e' \<noteq> indirect e \<longrightarrow> \<not> data_block sb C (indirect e')) \<and>
     (\<forall>i < INODE_MAX_BLOCKS. blk_of e C i = 0 \<longrightarrow> \<not> data_block sb C (blk_of e' C' i)) \<and>
     (\<forall>b. data_block sb C b \<longrightarrow> data_block sb C' b \<and>
        (b \<noteq> indirect e \<and> (\<forall>i < INODE_MAX_BLOCKS. blk_of e C i \<noteq> b) \<longrightarrow> C' b = C b))"

lemma writtenD:
  assumes "written sb e C off src e' C'"
  shows "disk_ok sb C'" and "file_ok sb e' C'" and "e'\<lparr>addrs := addrs e, indirect := indirect e\<rparr> = e"
    and "x < INODE_MAX_BYTES \<Longrightarrow> file_byte e' C' x =
      (if off \<le> x \<and> x < off + length src then src ! (x - off) else file_byte e C x)"
    and "x < INODE_MAX_BYTES \<Longrightarrow> off \<le> x \<Longrightarrow> x < off + length src \<Longrightarrow> blk_of e' C' (x div BLOCK_SIZE) \<noteq> 0"
    and "i < INODE_MAX_BLOCKS \<Longrightarrow> blk_of e C i \<noteq> 0 \<Longrightarrow> blk_of e' C' i = blk_of e C i"
    and "indirect e' \<noteq> indirect e \<Longrightarrow> \<not> data_block sb C (indirect e')"
    and "i < INODE_MAX_BLOCKS \<Longrightarrow> blk_of e C i = 0 \<Longrightarrow> \<not> data_block sb C (blk_of e' C' i)"
    and "data_block sb C b \<Longrightarrow> data_block sb C' b"
    and "data_block sb C b \<Longrightarrow> b \<noteq> indirect e \<Longrightarrow> \<forall>i < INODE_MAX_BLOCKS. blk_of e C i \<noteq> b \<Longrightarrow> C' b = C b"
  using assms unfolding written_def by blast+

lemma put_chunk:
  assumes ok: "disk_ok sb C" "file_ok sb e C" and b: "blk_of e C (off div BLOCK_SIZE) = b" "b \<noteq> 0"
    and off: "off div BLOCK_SIZE < INODE_MAX_BLOCKS" and src: "length src \<le> chunk off left"
  defines "C' \<equiv> C(b := put_bytes (off mod BLOCK_SIZE) src (C b))"
  shows "disk_ok sb C'" and "file_ok sb e C'" and "blk_of e C' = blk_of e C"
    and "data_block sb C' = data_block sb C" and "free_count sb C' = free_count sb C"
    and "x < INODE_MAX_BYTES \<Longrightarrow> file_byte e C' x =
      (if off \<le> x \<and> x < off + length src then src ! (x - off) else file_byte e C x)"
proof -
  have fits: "off mod BLOCK_SIZE + length src \<le> length (C b)"
    using chunk_fits [of off left] src ok(1) by (simp add: disk_ok_def)
  have db: "data_block sb C b" "b \<noteq> indirect e"
      "\<And>j. j < INODE_MAX_BLOCKS \<Longrightarrow> blk_of e C j = b \<Longrightarrow> j = off div BLOCK_SIZE"
    using file_okD [OF ok(2) off] b by auto
  have fr: "free_block sb C' c = free_block sb C c" if "c < sb_num_blocks sb" for c
    using meta_BBLOCK [OF that] db(1) by (auto simp: free_block_def C'_def data_block_def)
  then show dd: "data_block sb C' = data_block sb C" by (auto simp: data_block_def fun_eq_iff)
  show bl: "blk_of e C' = blk_of e C" using db(2) by (auto simp: blk_of_def C'_def fun_eq_iff)
  show "disk_ok sb C'" using ok(1) fr length_put_bytes [OF fits] by (simp add: disk_ok_def C'_def)
  show "file_ok sb e C'" using ok(2) by (simp add: file_ok_def bl dd)
  have "{b. b < sb_num_blocks sb \<and> free_block sb C' b} = {b. b < sb_num_blocks sb \<and> free_block sb C b}"
    using fr by auto
  then show "free_count sb C' = free_count sb C" by (simp only: free_count_def)
  have C'b: "C' b = put_bytes (off mod BLOCK_SIZE) src (C b)" by (simp add: C'_def)
  assume x: "x < INODE_MAX_BYTES"
  have xi: "x div BLOCK_SIZE < INODE_MAX_BLOCKS" using x by (simp add: div_less_iff_less_mult)
  have inside: "off \<le> x \<and> x < off + length src \<longleftrightarrow> x div BLOCK_SIZE = off div BLOCK_SIZE \<and>
      off mod BLOCK_SIZE \<le> x mod BLOCK_SIZE \<and> x mod BLOCK_SIZE < off mod BLOCK_SIZE + length src"
  proof
    assume "off \<le> x \<and> x < off + length src"
    then show "x div BLOCK_SIZE = off div BLOCK_SIZE \<and> off mod BLOCK_SIZE \<le> x mod BLOCK_SIZE \<and>
        x mod BLOCK_SIZE < off mod BLOCK_SIZE + length src"
      using chunk_index [of off x left] src by auto
  next
    assume "x div BLOCK_SIZE = off div BLOCK_SIZE \<and> off mod BLOCK_SIZE \<le> x mod BLOCK_SIZE \<and>
        x mod BLOCK_SIZE < off mod BLOCK_SIZE + length src"
    then show "off \<le> x \<and> x < off + length src"
      using mult_div_mod_eq [of BLOCK_SIZE x] mult_div_mod_eq [of BLOCK_SIZE off] by linarith
  qed
  show "file_byte e C' x = (if off \<le> x \<and> x < off + length src then src ! (x - off) else file_byte e C x)"
  proof (cases "x div BLOCK_SIZE = off div BLOCK_SIZE")
    case True
    have xl: "x mod BLOCK_SIZE < length (C b)" using ok(1) by (simp add: disk_ok_def)
    have v: "file_byte e C' x = put_bytes (off mod BLOCK_SIZE) src (C b) ! (x mod BLOCK_SIZE)"
        "file_byte e C x = C b ! (x mod BLOCK_SIZE)"
      using b True by (simp_all add: file_byte_def bl C'b)
    have "off \<le> x \<Longrightarrow> x mod BLOCK_SIZE - off mod BLOCK_SIZE = x - off"
      using True mult_div_mod_eq [of BLOCK_SIZE x] mult_div_mod_eq [of BLOCK_SIZE off] by linarith
    then show ?thesis
      unfolding v nth_put_bytes [OF fits xl] using inside True
      by (cases "off \<le> x \<and> x < off + length src") (simp_all only: if_True if_False simp_thms)
  next
    case False
    then have "blk_of e C (x div BLOCK_SIZE) \<noteq> b" using db(3) [OF xi] by blast
    then have "C' (blk_of e C (x div BLOCK_SIZE)) = C (blk_of e C (x div BLOCK_SIZE))" by (simp add: C'_def)
    then have "file_byte e C' x = file_byte e C x" by (simp add: file_byte_def bl Let_def)
    with False inside show ?thesis by (simp only: if_False simp_thms)
  qed
qed

lemma written_step:
  assumes g: "grows sb e C e1 C1 k" and ok: "disk_ok sb C" "file_ok sb e C"
    and b: "blk_of e1 C1 (off div BLOCK_SIZE) = b" "b \<noteq> 0"
    and new: "blk_of e C (off div BLOCK_SIZE) = 0 \<Longrightarrow> \<not> data_block sb C b"
    and only: "\<And>i. i < INODE_MAX_BLOCKS \<Longrightarrow> i \<noteq> off div BLOCK_SIZE \<Longrightarrow> blk_of e1 C1 i = blk_of e C i"
    and off: "off div BLOCK_SIZE < INODE_MAX_BLOCKS" and src: "length src \<le> chunk off left"
  shows "written sb e C off src e1 (C1(b := put_bytes (off mod BLOCK_SIZE) src (C1 b)))"
proof -
  let ?C = "C1(b := put_bytes (off mod BLOCK_SIZE) src (C1 b))"
  have ok1: "disk_ok sb C1" "file_ok sb e1 C1" using g by (auto simp: grows_def)
  note P = put_chunk [OF ok1 b off src]
  have bytes: "file_byte e1 ?C x = (if off \<le> x \<and> x < off + length src then src ! (x - off) else file_byte e C x)"
    if "x < INODE_MAX_BYTES" for x
    using P(6) [OF that] g that by (simp add: grows_def)
  have mp: "blk_of e1 ?C (x div BLOCK_SIZE) \<noteq> 0" if "off \<le> x" "x < off + length src" for x
    using chunk_index(1) [of off x left] that src b by (simp add: P(3))
  have keep: "blk_of e1 ?C i = blk_of e C i" if "i < INODE_MAX_BLOCKS" "blk_of e C i \<noteq> 0" for i
    using g that by (simp add: P(3) grows_def)
  have fresh: "\<not> data_block sb C (blk_of e1 ?C i)" if "i < INODE_MAX_BLOCKS" "blk_of e C i = 0" for i
    using only [OF that(1)] that new b(1) by (cases "i = off div BLOCK_SIZE") (simp_all add: P(3) data_block_def)
  have frame: "data_block sb ?C d \<and> (d \<noteq> indirect e \<and> (\<forall>i < INODE_MAX_BLOCKS. blk_of e C i \<noteq> d) \<longrightarrow> ?C d = C d)"
    if d: "data_block sb C d" for d
  proof -
    have "d \<noteq> b" if "\<forall>i < INODE_MAX_BLOCKS. blk_of e C i \<noteq> d"
      using that off keep [OF off] new d b(1) by (metis P(3))
    then show ?thesis using g d by (auto simp: P(4) grows_def)
  qed
  show ?thesis
    unfolding written_def using P(1,2) bytes mp keep fresh frame g by (auto simp: grows_def)
qed

lemma written_nil:
  "disk_ok sb C \<Longrightarrow> file_ok sb e C \<Longrightarrow> written sb e C off [] e C"
  by (auto simp: written_def data_block_def)

lemma written_trans:
  assumes 1: "written sb e C off s1 e1 C1" and 2: "written sb e1 C1 (off + length s1) s2 e2 C2"
  shows "written sb e C off (s1 @ s2) e2 C2"
proof -
  have "e2\<lparr>addrs := addrs e, indirect := indirect e\<rparr> =
      (e2\<lparr>addrs := addrs e1, indirect := indirect e1\<rparr>)\<lparr>addrs := addrs e, indirect := indirect e\<rparr>" by simp
  also have "\<dots> = e" using assms by (simp add: written_def)
  finally have e: "e2\<lparr>addrs := addrs e, indirect := indirect e\<rparr> = e" .
  have bytes: "file_byte e2 C2 x = (if off \<le> x \<and> x < off + length (s1 @ s2) then (s1 @ s2) ! (x - off) else file_byte e C x)"
    if x: "x < INODE_MAX_BYTES" for x
    unfolding writtenD(4) [OF 2 x] writtenD(4) [OF 1 x] by (auto simp: nth_append)
  have keep: "blk_of e2 C2 i = blk_of e C i" if "i < INODE_MAX_BLOCKS" "blk_of e C i \<noteq> 0" for i
    using writtenD(6) [OF 1 that] writtenD(6) [OF 2 that(1)] that(2) by simp
  have fresh: "\<not> data_block sb C (blk_of e2 C2 i)" if "i < INODE_MAX_BLOCKS" "blk_of e C i = 0" for i
    using writtenD(8) [OF 1 that] writtenD(8) [OF 2 that(1)] writtenD(6) [OF 2 that(1)] writtenD(9) [OF 1]
    by (cases "blk_of e1 C1 i = 0") auto
  have frame: "C2 d = C d"
    if d: "data_block sb C d" "d \<noteq> indirect e" "\<forall>i < INODE_MAX_BLOCKS. blk_of e C i \<noteq> d" for d
  proof -
    have "d \<noteq> indirect e1" "\<forall>i < INODE_MAX_BLOCKS. blk_of e1 C1 i \<noteq> d"
      using d writtenD(7) [OF 1] writtenD(6,8) [OF 1] by metis+
    then show ?thesis using writtenD(10) [OF 1 d] writtenD(10) [OF 2 writtenD(9) [OF 1 d(1)]] by simp
  qed
  have ind: "\<not> data_block sb C (indirect e2)" if "indirect e2 \<noteq> indirect e"
    using that writtenD(7) [OF 1] writtenD(7) [OF 2] writtenD(9) [OF 1] by metis
  have mp: "blk_of e2 C2 (x div BLOCK_SIZE) \<noteq> 0"
    if x: "x < INODE_MAX_BYTES" "off \<le> x" "x < off + length (s1 @ s2)" for x
  proof (cases "x < off + length s1")
    case True
    have "x div BLOCK_SIZE < INODE_MAX_BLOCKS" using x(1) by (simp add: div_less_iff_less_mult)
    from writtenD(6) [OF 2 this] writtenD(5) [OF 1 x(1,2) True] show ?thesis by simp
  next
    case False
    with writtenD(5) [OF 2 x(1)] x(3) show ?thesis by simp
  qed
  show ?thesis
    unfolding written_def
    using writtenD(1,2) [OF 2] e bytes keep fresh frame ind mp writtenD(9) [OF 2] writtenD(9) [OF 1] by blast
qed

text \<open>The number of blocks that \<open>n\<close> bytes at \<open>off\<close> touch.\<close>

definition spans :: "nat \<Rightarrow> nat \<Rightarrow> nat" where
  "spans off n = (if n = 0 then 0 else (off + n - 1) div BLOCK_SIZE - off div BLOCK_SIZE + 1)"

lemma spans_chunk:
  assumes "0 < n"
  shows "spans off n = Suc (spans (off + chunk off n) (n - chunk off n))"
proof (cases "off mod BLOCK_SIZE + n \<le> BLOCK_SIZE")
  case True
  then have m: "chunk off n = n" by (simp add: chunk_def)
  have "(off + n - 1) div BLOCK_SIZE = off div BLOCK_SIZE"
    using chunk_index(1) [of off "off + n - 1" n] assms m by simp
  then show ?thesis using assms m by (simp add: spans_def)
next
  case False
  define q r where "q = off div BLOCK_SIZE" and "r = off mod BLOCK_SIZE"
  have r: "r < BLOCK_SIZE" "off = BLOCK_SIZE * q + r" by (simp_all add: q_def r_def)
  have m: "chunk off n = BLOCK_SIZE - r" using False by (simp add: chunk_def r_def)
  have n: "BLOCK_SIZE - r < n" using False r(1) unfolding r_def [symmetric] by linarith
  then have "off + chunk off n = BLOCK_SIZE * (q + 1)" using r m by simp
  moreover have "off + chunk off n + (n - chunk off n) - 1 = off + n - 1" using n m by simp
  moreover have "q + 1 \<le> (off + n - 1) div BLOCK_SIZE"
    using n r by (simp add: less_eq_div_iff_mult_less_eq)
  ultimately show ?thesis
    using n m by (simp add: spans_def q_def [symmetric] Suc_diff_Suc Suc_le_eq)
qed

lemma map_abs_total:
  assumes "disk_ok sb C" and "file_ok sb e C" and "2 \<le> free_count sb C"
  shows "map_abs sb off e C \<noteq> None"
proof -
  obtain r where r: "first_free sb C = Some r" using free_count_first [of sb C] assms(3) by auto
  have "0 < free_count sb (alloc_eff sb r C)" using alloc_eff_count [OF assms(1) r] assms(3) by simp
  from free_count_first [OF this] r show ?thesis
    by (auto simp: map_abs_def alloc_abs_def)
qed

text \<open>One round of the loop of \<^verbatim>\<open>inode_write\<close>.\<close>

definition write_round ::
  "super_block \<Rightarrow> op_context option \<Rightarrow> nat \<Rightarrow> nat \<Rightarrow> bool \<Rightarrow> u8 list \<Rightarrow> inode_state \<Rightarrow>
   (bool \<times> op_context option \<times> inode_state) option" where
  "write_round sb ctx ip off md src s = do {
     (b, md, ctx, s) \<leftarrow> inode_map sb ctx ip (off div BLOCK_SIZE) md s;
     (bp, c) \<leftarrow> cache_acquire b (bcache s);
     let c = set_data bp (put_bytes (off mod BLOCK_SIZE) src (data (blk c bp))) c;
     (ctx, c) \<leftarrow> cache_sync ctx bp c;
     Some (md, ctx, s\<lparr>bcache := cache_release bp c\<rparr>) }"

lemma write_loop_round:
  "src \<noteq> [] \<Longrightarrow> write_loop sb ctx ip off md src s = do {
     (md, ctx, s) \<leftarrow> write_round sb ctx ip off md (take (chunk off (length src)) src) s;
     write_loop sb ctx ip (off + chunk off (length src)) md (drop (chunk off (length src)) src) s }"
  by (subst write_loop.simps) (auto simp: write_round_def Let_def split: bind_splits prod.splits)

lemma write_round_spec:
  assumes inv: "cache_inv ctx (bcache s)" and id: "idle (bcache s)" and room: "room_for ctx (n + 6)"
    and e: "entry (inode_of s ip) = e" and C: "content (bcache s) = C"
    and ok: "disk_ok sb C" "file_ok sb e C" and free: "k + 2 \<le> free_count sb C"
    and off: "off div BLOCK_SIZE < INODE_MAX_BLOCKS" and src: "length src \<le> chunk off left"
  shows "\<exists>md' ctx' s' e' C'. write_round sb ctx ip off md src s = Some (md', ctx', s') \<and>
    reaches ctx' n (bcache s) C' (bcache s') \<and> entry_step ip s e' s' \<and> written sb e C off src e' C' \<and>
    k \<le> free_count sb C'"
proof -
  let ?i = "off div BLOCK_SIZE"
  obtain a e1 C1 where m: "map_abs sb ?i e C = Some (a, e1, C1)"
    using map_abs_total [OF ok, of ?i] free by auto
  note G = map_abs_grows [OF ok off m]
  have "room_for ctx (Suc n + 5)" using room by (rule room_for_mono) simp
  then obtain md1 ctx1 s1 where 1: "inode_map sb ctx ip ?i md s = Some (a, md1, ctx1, s1)"
      "reaches ctx1 (Suc n) (bcache s) C1 (bcache s1)" "entry_step ip s e1 s1"
    using inode_map_refines [OF inv id, of "Suc n" sb ip ?i md] ok off m by (auto simp: mapped_def e C)
  note R = reachesD [OF 1(2)]
  let ?d = "put_bytes (off mod BLOCK_SIZE) src (C1 a)"
  have len: "length ?d = BLOCK_SIZE"
    using chunk_fits [of off left] src bc.length_law [OF R(1), of a] R(2) by simp
  have nh: "\<And>q. \<not> holds (bcache s1) q a" using R(6) id by (simp add: idle_def)
  obtain bp c2 c3 where 2: "cache_acquire a (bcache s1) = Some (bp, c2)" "data (blk c2 bp) = C1 a"
      "cache_sync ctx1 bp (set_data bp ?d c2) = Some (charge ctx1 a (log_list (bcache s1)), c3)"
      "bc.after (charge ctx1 a (log_list (bcache s1))) (bcache s1) (C1(a := ?d))
         (log_add ctx1 a (log_list (bcache s1))) (cache_release bp c3)"
    using bc.update_cycle [OF R(1) nh len room_for_has_room [OF R(5)]] R(2) by metis
  let ?s = "s1\<lparr>bcache := cache_release bp c3\<rparr>"
  have "write_round sb ctx ip off md src s = Some (md1, charge ctx1 a (log_list (bcache s1)), ?s)"
    using 1(1) 2(1-3) by (simp add: write_round_def)
  moreover have "reaches (charge ctx1 a (log_list (bcache s1))) n (bcache s) (C1(a := ?d)) (bcache ?s)"
    using reaches_trans [OF 1(2)] reachesI [OF 2(4) room_for_charge [OF R(5)]] by simp
  moreover have "entry_step ip s e1 ?s" using 1(3) by (simp add: entry_step_def)
  moreover have "written sb e C off src e1 (C1(a := ?d))"
    using written_step [of sb e C e1 C1 2 off a src left] G ok off src by auto
  moreover have "k \<le> free_count sb (C1(a := ?d))"
    using put_chunk(5) [of sb C1 e1 off a src left] G off src free by (auto simp: grows_def)
  ultimately show ?thesis by blast
qed

lemma write_loop_spec:
  assumes "cache_inv ctx (bcache s)" and "idle (bcache s)"
    and "room_for ctx (n + 6 * spans off (length src))"
    and "disk_ok sb (content (bcache s))" and "file_ok sb (entry (inode_of s ip)) (content (bcache s))"
    and "2 * spans off (length src) \<le> free_count sb (content (bcache s))"
    and "off + length src \<le> INODE_MAX_BYTES"
  shows "\<exists>ctx' s' e' C'. write_loop sb ctx ip off md src s = Some (off + length src, ctx', s') \<and>
    reaches ctx' n (bcache s) C' (bcache s') \<and> entry_step ip s e' s' \<and>
    written sb (entry (inode_of s ip)) (content (bcache s)) off src e' C'"
  using assms
proof (induction "length src" arbitrary: off md src s ctx rule: less_induct)
  case less
  let ?e = "entry (inode_of s ip)" and ?C = "content (bcache s)"
  show ?case
  proof (cases "src = []")
    case True
    then show ?thesis
      using reaches_refl [OF less.prems(1), of n] less.prems(3) entry_step_refl [of ip s]
        written_nil [OF less.prems(4,5)] by (auto simp: write_loop.simps spans_def)
  next
    case False
    let ?m = "chunk off (length src)" and ?k = "spans (off + chunk off (length src)) (length src - chunk off (length src))"
    have m: "0 < ?m" "?m \<le> length src" using False chunk_pos chunk_le by auto
    have sp: "spans off (length src) = Suc ?k" using False by (simp add: spans_chunk)
    have room: "room_for ctx ((n + 6 * ?k) + 6)" "2 * ?k + 2 \<le> free_count sb ?C"
      using less.prems(3,6) by (simp_all add: sp ac_simps)
    have off: "off div BLOCK_SIZE < INODE_MAX_BLOCKS"
      using less.prems(7) m by (simp add: div_less_iff_less_mult)
    have src: "length (take ?m src) \<le> chunk off (length src)" by simp
    obtain md1 ctx1 s1 e1 C1 where 1: "write_round sb ctx ip off md (take ?m src) s = Some (md1, ctx1, s1)"
        "reaches ctx1 (n + 6 * ?k) (bcache s) C1 (bcache s1)" "entry_step ip s e1 s1"
        "written sb ?e ?C off (take ?m src) e1 C1" "2 * ?k \<le> free_count sb C1"
      using write_round_spec [OF less.prems(1,2) room(1) refl refl less.prems(4,5) room(2) off src] by blast
    note R = reachesD [OF 1(2)]
    have lt: "length (drop ?m src) < length src" using m by simp
    obtain ctx2 s2 e2 C2 where 2: "write_loop sb ctx1 ip (off + ?m) md1 (drop ?m src) s1 =
          Some (off + ?m + length (drop ?m src), ctx2, s2)"
        "reaches ctx2 n (bcache s1) C2 (bcache s2)" "entry_step ip s1 e2 s2"
        "written sb e1 C1 (off + ?m) (drop ?m src) e2 C2"
      using less.hyps [OF lt, of ctx1 s1 "off + ?m" md1] m R 1(5) less.prems(2,7)
        writtenD(1,2) [OF 1(4)] entry_step_entry [OF 1(3)] by (auto simp: R(2))
    have "write_loop sb ctx ip off md src s = Some (off + length src, ctx2, s2)"
      using write_loop_round [OF False, of sb ctx ip off md s] 1(1) 2(1) m by simp
    moreover have "written sb ?e ?C off (take ?m src @ drop ?m src) e2 C2"
      using 1(4) by (rule written_trans) (use 2(4) m in simp)
    ultimately show ?thesis
      using reaches_trans [OF 1(2) 2(2)] entry_step_trans [OF 1(3) 2(3)] by auto
  qed
qed

section \<open>The file operations\<close>

definition file_inv :: "super_block \<Rightarrow> op_context option \<Rightarrow> nat \<Rightarrow> inode_state \<Rightarrow> bool" where
  "file_inv sb ctx ip s \<longleftrightarrow>
     (let e = entry (inode_of s ip); C = content (bcache s)
      in cache_inv ctx (bcache s) \<and> idle (bcache s) \<and> disk_ok sb C \<and> file_ok sb e C \<and>
         ivalid (inode_of s ip) \<and> inode_no (inode_of s ip) \<le> sb_num_inodes sb \<and>
         num_bytes e \<le> INODE_MAX_BYTES \<and>
         (\<forall>x < num_bytes e. blk_of e C (x div BLOCK_SIZE) \<noteq> 0))"

definition file_data :: "nat \<Rightarrow> inode_state \<Rightarrow> u8 list" where
  "file_data ip s = map (file_byte (entry (inode_of s ip)) (content (bcache s)))
     [0..<num_bytes (entry (inode_of s ip))]"

lemma file_invD:
  assumes "file_inv sb ctx ip s"
  shows "cache_inv ctx (bcache s)" and "idle (bcache s)" and "disk_ok sb (content (bcache s))"
    and "file_ok sb (entry (inode_of s ip)) (content (bcache s))" and "ivalid (inode_of s ip)"
    and "inode_no (inode_of s ip) \<le> sb_num_inodes sb" and "num_bytes (entry (inode_of s ip)) \<le> INODE_MAX_BYTES"
    and "x < num_bytes (entry (inode_of s ip)) \<Longrightarrow>
      blk_of (entry (inode_of s ip)) (content (bcache s)) (x div BLOCK_SIZE) \<noteq> 0"
  using assms by (auto simp: file_inv_def Let_def)

text \<open>Storing the entry of an inode in its block leaves every file as it is.\<close>

lemma length_concat_fixed: "length (concat (map (le_bytes k) xs)) = k * length xs"
  by (induction xs) auto

lemma length_encode_entry [simp]:
  "length (addrs e) = INODE_NUM_DIRECT \<Longrightarrow> length (encode_entry e) = 64"
  by (simp add: encode_entry_def length_concat_fixed)

lemma entry_off_fits: "entry_off n + 64 \<le> BLOCK_SIZE"
proof -
  have "n mod INODE_PER_BLOCK < 8" by simp
  then show ?thesis unfolding entry_off_def by linarith
qed

lemma length_put_entry [simp]:
  "length d = BLOCK_SIZE \<Longrightarrow> length (addrs e) = INODE_NUM_DIRECT \<Longrightarrow> length (put_entry d n e) = BLOCK_SIZE"
  using entry_off_fits [of n] by (simp add: put_entry_def)

lemma meta_store:
  assumes ok: "disk_ok sb C" "file_ok sb e C" and n: "n \<le> sb_num_inodes sb" and d: "length d = BLOCK_SIZE"
  defines "C' \<equiv> C(to_block_no sb n := d)"
  shows "disk_ok sb C'" and "file_ok sb e C'" and "x < INODE_MAX_BYTES \<Longrightarrow> file_byte e C' x = file_byte e C x"
    and "i < INODE_MAX_BLOCKS \<Longrightarrow> blk_of e C' i = blk_of e C i" and "data_block sb C' = data_block sb C"
    and "data_block sb C b \<Longrightarrow> C' b = C b"
proof -
  have lay: "to_block_no sb n \<noteq> BBLOCK c sb" if "c < sb_num_blocks sb" for c
    using ok(1) n that by (simp add: disk_ok_def layout_ok_def)
  have fr: "free_block sb C' c = free_block sb C c" if "c < sb_num_blocks sb" for c
    using lay [OF that] by (simp add: free_block_def C'_def)
  show db: "data_block sb C' = data_block sb C" using fr by (auto simp: data_block_def fun_eq_iff)
  show same: "data_block sb C b \<Longrightarrow> C' b = C b" for b
    using meta_inode [OF n] by (auto simp: data_block_def C'_def)
  show bl: "blk_of e C' i = blk_of e C i" for i
    using ok(2) same by (auto simp: blk_of_def file_ok_def)
  show "disk_ok sb C'" using ok(1) fr d by (simp add: disk_ok_def C'_def)
  show "file_ok sb e C'" using ok(2) by (simp add: file_ok_def bl db)
  show "file_byte e C' x = file_byte e C x" if "x < INODE_MAX_BYTES"
  proof (rule file_byte_cong)
    have "x div BLOCK_SIZE < INODE_MAX_BLOCKS" using that by (simp add: div_less_iff_less_mult)
    then show "C' (blk_of e C (x div BLOCK_SIZE)) = C (blk_of e C (x div BLOCK_SIZE))"
      if "blk_of e C (x div BLOCK_SIZE) \<noteq> 0"
      using same [OF file_okD(1) [OF ok(2) _ that]] by simp
  qed (rule bl)
qed

lemma inode_sync_write:
  fixes sb :: super_block
  assumes inv: "cache_inv ctx (bcache s)" and id: "idle (bcache s)" and room: "room_for ctx (Suc n)"
    and v: "ivalid (inode_of s ip)" and len: "length (addrs (entry (inode_of s ip))) = INODE_NUM_DIRECT"
  defines "b \<equiv> to_block_no sb (inode_no (inode_of s ip))"
  obtains ctx' s' where "inode_sync sb ctx ip True s = Some (ctx', s')"
    and "reaches ctx' n (bcache s) ((content (bcache s))(b :=
      put_entry (content (bcache s) b) (inode_no (inode_of s ip)) (entry (inode_of s ip)))) (bcache s')"
    and "inode_of s' = inode_of s" and "ilist s' = ilist s" and "next_inode s' = next_inode s"
proof -
  let ?n = "inode_no (inode_of s ip)" and ?C = "content (bcache s)"
  let ?d = "put_entry (?C b) ?n (entry (inode_of s ip))"
  have nh: "\<And>q. \<not> holds (bcache s) q b" using id by (simp add: idle_def)
  have ld: "length ?d = BLOCK_SIZE" using bc.length_law [OF inv] len by simp
  obtain bp c1 c2 where u: "cache_acquire b (bcache s) = Some (bp, c1)" "data (blk c1 bp) = ?C b"
      "cache_sync ctx bp (set_data bp ?d c1) = Some (charge ctx b (log_list (bcache s)), c2)"
      "bc.after (charge ctx b (log_list (bcache s))) (bcache s) (?C(b := ?d))
        (log_add ctx b (log_list (bcache s))) (cache_release bp c2)"
    using bc.update_cycle [OF inv nh ld room_for_has_room [OF room]] by metis
  show thesis
    by (rule that [of "charge ctx b (log_list (bcache s))" "s\<lparr>bcache := cache_release bp c2\<rparr>"])
      (use u v reachesI [OF u(4) room_for_charge [OF room]] in \<open>simp_all add: inode_sync_def b_def Let_def\<close>)
qed

section \<open>Properties\<close>

lemma inode_read_spec:
  assumes inv: "file_inv sb ctx ip s" and off: "off \<le> num_bytes (entry (inode_of s ip))" and c: "off + count < 2 ^ 64"
  shows "\<exists>s'. inode_read sb ip off count s = Some (0, take count (drop off (file_data ip s)), s') \<and>
    bc.after ctx (bcache s) (content (bcache s)) (log_list (bcache s)) (bcache s') \<and>
    entry_step ip s (entry (inode_of s ip)) s'"
proof -
  let ?e = "entry (inode_of s ip)" and ?C = "content (bcache s)"
  note I = file_invD [OF inv]
  let ?k = "min count (num_bytes ?e - off)"
  have k: "(if (count + off) mod 2 ^ 64 > num_bytes ?e then nat ((int (num_bytes ?e) - int off) mod 2 ^ 64) else count) = ?k"
  proof (cases "count + off > num_bytes ?e")
    case True
    have lt: "num_bytes ?e - off < 2 ^ 64" using I(7) by simp
    have "(int (num_bytes ?e) - int off) mod 2 ^ 64 = int (num_bytes ?e - off) mod 2 ^ 64"
      using off by (simp only: of_nat_diff)
    also have "\<dots> = int (num_bytes ?e - off)"
      using lt by (intro mod_pos_pos_trivial) auto
    finally show ?thesis using True c off by (simp add: add.commute)
  next
    case False
    then show ?thesis using c off by (simp add: add.commute)
  qed
  have e: "off + ?k \<le> num_bytes ?e" "(off + ?k) mod 2 ^ 64 = off + ?k" using off I(7) by simp_all
  have bound: "off + ?k \<le> INODE_MAX_BYTES" using e(1) I(7) by (rule order_trans)
  have mp: "blk_of ?e ?C (x div BLOCK_SIZE) \<noteq> 0" if "x < off + ?k" for x
    using I(8) [of x] e(1) that by simp
  obtain s' where r: "read_loop sb ip off ?k False [] s = Some ([] @ map (file_byte ?e ?C) [off..<off + ?k], s')"
      "bc.after ctx (bcache s) ?C (log_list (bcache s)) (bcache s')" "entry_step ip s ?e s'"
    using read_loop_spec [OF I(1,2) bound refl refl, where sb = sb and md = False and dest = "[]"] mp by blast
  have "map (file_byte ?e ?C) [off..<off + ?k] = take count (drop off (file_data ip s))"
    using off by (intro nth_equalityI) (auto simp: file_data_def)
  with r(1) have "inode_read sb ip off count s = Some (0, take count (drop off (file_data ip s)), s')"
    unfolding inode_read_def Let_def k e(2) using off e(1) by simp
  with r(2,3) show ?thesis by blast
qed

lemma file_view_cong:
  assumes "inode_of s' ip = inode_of s ip" and "content (bcache s') = content (bcache s)"
  shows "file_data ip s' = file_data ip s"
    and "cache_inv ctx (bcache s') \<Longrightarrow> idle (bcache s') \<Longrightarrow> file_inv sb ctx ip s \<Longrightarrow> file_inv sb ctx ip s'"
  using assms by (simp_all add: file_data_def file_inv_def Let_def)

text \<open>
  (C17) \<^verbatim>\<open>inode_read\<close> stores the bytes of the file. From any offset inside the file it
  stores exactly the requested bytes, cut at the end of the file, and changes neither the
  file nor the invariant. Its return value is always 0; \<^verbatim>\<open>inode.h\<close> (lines 75 and 76) documents the
  number of bytes read.
\<close>
theorem inode_read_correct:
  assumes "file_inv sb ctx ip s" and "off \<le> length (file_data ip s)" and "off + count < 2 ^ 64"
  shows "\<exists>s'. inode_read sb ip off count s = Some (0, take count (drop off (file_data ip s)), s') \<and>
    file_inv sb ctx ip s' \<and> file_data ip s' = file_data ip s"
proof -
  have "off \<le> num_bytes (entry (inode_of s ip))" using assms(2) by (simp add: file_data_def)
  from inode_read_spec [OF assms(1) this assms(3)] obtain s' where
    r: "inode_read sb ip off count s = Some (0, take count (drop off (file_data ip s)), s')"
      "bc.after ctx (bcache s) (content (bcache s)) (log_list (bcache s)) (bcache s')"
      "entry_step ip s (entry (inode_of s ip)) s'" by blast
  have "inode_of s' ip = inode_of s ip" "content (bcache s') = content (bcache s)"
      "cache_inv ctx (bcache s')" "idle (bcache s')"
    using r(2,3) file_invD(2) [OF assms(1)] by (auto simp: entry_step_def bc.after_def idle_def)
  from file_view_cong [OF this(1,2)] this(3,4) assms(1) r(1) show ?thesis by blast
qed

lemma same_but_map: "e'\<lparr>addrs := addrs e, indirect := indirect e\<rparr> = e \<Longrightarrow>
    num_bytes e' = num_bytes e \<and> itype e' = itype e \<and> num_links e' = num_links e"
  by (metis inode_entry.select_convs inode_entry.simps inode_entry.surjective inode_entry.update_convs(6,7))

lemma file_size_irrelevant [simp]:
  "blk_of (e\<lparr>num_bytes := n\<rparr>) C = blk_of e C" "file_byte (e\<lparr>num_bytes := n\<rparr>) C = file_byte e C"
  "file_ok sb (e\<lparr>num_bytes := n\<rparr>) C = file_ok sb e C"
  by (simp_all add: blk_of_def file_byte_def file_ok_def fun_eq_iff)

text \<open>\<^verbatim>\<open>inode_write\<close> in terms of entry and contents, with the final update of the size.\<close>

lemma inode_write_spec:
  assumes inv: "file_inv sb ctx ip s" and off: "off \<le> num_bytes (entry (inode_of s ip))"
    and fits: "off + length src \<le> INODE_MAX_BYTES"
    and room: "room_for ctx (n + 6 * spans off (length src) + 1)"
    and free: "2 * spans off (length src) \<le> free_count sb (content (bcache s))"
  shows "\<exists>ctx' s' e1 C1 C2. inode_write sb ctx ip src off (length src) s = Some (length src, ctx', s') \<and>
    written sb (entry (inode_of s ip)) (content (bcache s)) off src e1 C1 \<and>
    reaches ctx' n (bcache s) C2 (bcache s') \<and>
    entry_step ip s (e1\<lparr>num_bytes := max (num_bytes (entry (inode_of s ip))) (off + length src)\<rparr>) s' \<and>
    (C2 = C1 \<or> (\<exists>d. length d = BLOCK_SIZE \<and> C2 = C1(to_block_no sb (inode_no (inode_of s ip)) := d)))"
proof -
  let ?e = "entry (inode_of s ip)" and ?C = "content (bcache s)" and ?lim = "off + length src"
  note I = file_invD [OF inv]
  have "room_for ctx (Suc n + 6 * spans off (length src))" using room by (rule room_for_mono) simp
  from write_loop_spec [OF I(1,2) this I(3,4) free fits] obtain ctx1 s1 e1 C1 where
    1: "write_loop sb ctx ip off False src s = Some (?lim, ctx1, s1)" "reaches ctx1 (Suc n) (bcache s) C1 (bcache s1)"
      "entry_step ip s e1 s1" "written sb ?e ?C off src e1 C1" by blast
  note R = reachesD [OF 1(2)] and W = writtenD [OF 1(4)]
  have e1: "entry (inode_of s1 ip) = e1" "num_bytes e1 = num_bytes ?e"
    using entry_step_entry [OF 1(3)] same_but_map [OF W(3)] by auto
  have fin: "(off + length src) mod 2 ^ 64 = ?lim" using fits by simp
  have run: "inode_write sb ctx ip src off (length src) s = do {
      (ctx, s) \<leftarrow> (if length src > 0 \<and> ?lim > num_bytes ?e
         then inode_sync sb ctx1 ip True (upd_entry ip (num_bytes_update (\<lambda>_. ?lim)) s1) else Some (ctx1, s1));
      Some (length src, ctx, s) }"
    unfolding inode_write_def Let_def fin using off fits 1(1) by (simp add: e1)
  show ?thesis
  proof (cases "length src > 0 \<and> ?lim > num_bytes ?e")
    case False
    then have mx: "max (num_bytes ?e) ?lim = num_bytes e1" using off e1(2) by auto
    have "inode_write sb ctx ip src off (length src) s = Some (length src, ctx1, s1)"
      using run False by auto
    moreover have "e1\<lparr>num_bytes := num_bytes e1\<rparr> = e1" by simp
    ultimately show ?thesis
      using 1(3,4) reaches_less [OF 1(2), of n] unfolding mx by (metis le_SucI order_refl)
  next
    case True
    let ?s = "upd_entry ip (num_bytes_update (\<lambda>_. ?lim)) s1"
    have s: "bcache ?s = bcache s1" "entry (inode_of ?s ip) = e1\<lparr>num_bytes := ?lim\<rparr>"
        "inode_no (inode_of ?s ip) = inode_no (inode_of s ip)" "ivalid (inode_of ?s ip)"
        "ilist ?s = ilist s1" "next_inode ?s = next_inode s1"
      using e1(1) 1(3) I(5) by (simp_all add: upd_entry_def upd_inode_def entry_step_def)
    have len: "length (addrs (entry (inode_of ?s ip))) = INODE_NUM_DIRECT"
      using W(2) by (simp add: s file_ok_def)
    have inv1: "cache_inv ctx1 (bcache ?s)" "idle (bcache ?s)" using R(1,6) I(2) by (simp_all add: s)
    obtain ctx2 s2 where 2: "inode_sync sb ctx1 ip True ?s = Some (ctx2, s2)"
        "reaches ctx2 n (bcache s1) (C1(to_block_no sb (inode_no (inode_of s ip)) :=
           put_entry (C1 (to_block_no sb (inode_no (inode_of s ip)))) (inode_no (inode_of s ip)) (e1\<lparr>num_bytes := ?lim\<rparr>))) (bcache s2)"
        "inode_of s2 = inode_of ?s" "ilist s2 = ilist s1" "next_inode s2 = next_inode s1"
      using inode_sync_write [OF inv1 R(5) s(4) len, of sb] unfolding s R(2) by metis
    have "length (C1 (to_block_no sb (inode_no (inode_of s ip)))) = BLOCK_SIZE" using W(1) by (simp add: disk_ok_def)
    then have ld: "length (put_entry (C1 (to_block_no sb (inode_no (inode_of s ip)))) (inode_no (inode_of s ip))
        (e1\<lparr>num_bytes := ?lim\<rparr>)) = BLOCK_SIZE" using len by (simp add: s)
    have "inode_write sb ctx ip src off (length src) s = Some (length src, ctx2, s2)" using run True 2(1) by simp
    moreover have "entry_step ip s (e1\<lparr>num_bytes := max (num_bytes ?e) ?lim\<rparr>) s2"
      using True 1(3) 2(3-5) by (simp add: entry_step_def upd_entry_def upd_inode_def max_def)
    ultimately show ?thesis
      using 1(4) reaches_trans [OF 1(2) 2(2)] ld by blast
  qed
qed

lemma written_inv:
  assumes inv: "file_inv sb ctx ip s" and off: "off \<le> num_bytes (entry (inode_of s ip))"
    and fits: "off + length src \<le> INODE_MAX_BYTES"
    and w: "written sb (entry (inode_of s ip)) (content (bcache s)) off src e1 C1"
    and r: "reaches ctx' n (bcache s) C2 (bcache s')"
    and st: "entry_step ip s (e1\<lparr>num_bytes := max (num_bytes (entry (inode_of s ip))) (off + length src)\<rparr>) s'"
    and C2: "C2 = C1 \<or> (\<exists>d. length d = BLOCK_SIZE \<and> C2 = C1(to_block_no sb (inode_no (inode_of s ip)) := d))"
  shows "file_inv sb ctx' ip s'"
    and "x < INODE_MAX_BYTES \<Longrightarrow> file_byte e1 C2 x =
      (if off \<le> x \<and> x < off + length src then src ! (x - off)
       else file_byte (entry (inode_of s ip)) (content (bcache s)) x)"
    and "data_block sb C1 b \<Longrightarrow> C2 b = C1 b"
proof -
  let ?e = "entry (inode_of s ip)" and ?C = "content (bcache s)" and ?n = "inode_no (inode_of s ip)"
  note I = file_invD [OF inv] and W = writtenD [OF w] and R = reachesD [OF r]
  note M = meta_store [OF W(1,2) I(6)]
  have ok: "disk_ok sb C2" "file_ok sb e1 C2" using C2 W(1,2) M(1,2) by auto
  have same: "i < INODE_MAX_BLOCKS \<Longrightarrow> blk_of e1 C2 i = blk_of e1 C1 i" for i using C2 M(4) by auto
  show "data_block sb C1 b \<Longrightarrow> C2 b = C1 b" using C2 M(6) by auto
  have fb: "x < INODE_MAX_BYTES \<Longrightarrow> file_byte e1 C2 x = file_byte e1 C1 x" for x using C2 M(3) by auto
  then show "x < INODE_MAX_BYTES \<Longrightarrow> file_byte e1 C2 x =
      (if off \<le> x \<and> x < off + length src then src ! (x - off) else file_byte ?e ?C x)"
    using W(4) by simp
  let ?m = "max (num_bytes ?e) (off + length src)"
  have mb: "?m \<le> INODE_MAX_BYTES" using I(7) fits by simp
  have mp: "blk_of e1 C2 (x div BLOCK_SIZE) \<noteq> 0" if x: "x < ?m" for x
  proof -
    have xm: "x < INODE_MAX_BYTES" using x mb by (rule less_le_trans)
    then have xi: "x div BLOCK_SIZE < INODE_MAX_BLOCKS" by (simp add: div_less_iff_less_mult)
    show ?thesis
    proof (cases "off \<le> x \<and> x < off + length src")
      case True
      then show ?thesis using W(5) [OF xm] same [OF xi] by simp
    next
      case False
      then have "x < num_bytes ?e" using x off by auto
      from I(8) [OF this] W(6) [OF xi] same [OF xi] show ?thesis by simp
    qed
  qed
  show "file_inv sb ctx' ip s'"
    using ok mp mb R(1,2,6) I(2,5,6) st by (simp add: file_inv_def Let_def entry_step_def)
qed

lemma inode_write_data:
  assumes "file_inv sb ctx ip s" and "off \<le> length (file_data ip s)"
    and "off + length src \<le> INODE_MAX_BYTES" and "room_for ctx (6 * spans off (length src) + 1)"
    and "2 * spans off (length src) \<le> free_count sb (content (bcache s))"
  shows "\<exists>ctx' s'. inode_write sb ctx ip src off (length src) s = Some (length src, ctx', s') \<and>
    file_inv sb ctx' ip s' \<and> itype (entry (inode_of s' ip)) = itype (entry (inode_of s ip)) \<and>
    file_data ip s' = take off (file_data ip s) @ src @ drop (off + length src) (file_data ip s)"
proof -
  let ?e = "entry (inode_of s ip)" and ?C = "content (bcache s)"
  have off: "off \<le> num_bytes ?e" using assms(2) by (simp add: file_data_def)
  have room: "room_for ctx (0 + 6 * spans off (length src) + 1)" using assms(4) by simp
  obtain ctx' s' e1 C1 C2 where w: "inode_write sb ctx ip src off (length src) s = Some (length src, ctx', s')"
      "written sb ?e ?C off src e1 C1" "reaches ctx' 0 (bcache s) C2 (bcache s')"
      "entry_step ip s (e1\<lparr>num_bytes := max (num_bytes ?e) (off + length src)\<rparr>) s'"
      "C2 = C1 \<or> (\<exists>d. length d = BLOCK_SIZE \<and> C2 = C1(to_block_no sb (inode_no (inode_of s ip)) := d))"
    using inode_write_spec [OF assms(1) off assms(3) room assms(5)] by blast
  note V = written_inv [OF assms(1) off assms(3) w(2-5)]
  have e': "entry (inode_of s' ip) = e1\<lparr>num_bytes := max (num_bytes ?e) (off + length src)\<rparr>"
    using w(4) by (rule entry_step_entry)
  have mb: "max (num_bytes ?e) (off + length src) \<le> INODE_MAX_BYTES"
    using file_invD(7) [OF assms(1)] assms(3) by simp
  have fd: "file_data ip s' = map (file_byte e1 C2) [0..<max (num_bytes ?e) (off + length src)]"
    using reachesD(2) [OF w(3)] by (simp add: file_data_def e')
  have "file_data ip s' = take off (file_data ip s) @ src @ drop (off + length src) (file_data ip s)"
  proof (rule nth_equalityI)
    show "length (file_data ip s') = length (take off (file_data ip s) @ src @ drop (off + length src) (file_data ip s))"
      unfolding fd using off by (simp add: file_data_def)
  next
    fix x assume "x < length (file_data ip s')"
    then have x: "x < max (num_bytes ?e) (off + length src)" by (simp add: fd)
    then have "x < INODE_MAX_BYTES" using mb by (rule less_le_trans)
    from V(2) [OF this] x off
    show "file_data ip s' ! x = (take off (file_data ip s) @ src @ drop (off + length src) (file_data ip s)) ! x"
      unfolding fd by (auto simp: file_data_def nth_append)
  qed
  moreover have "itype (entry (inode_of s' ip)) = itype ?e"
    using same_but_map [OF writtenD(3) [OF w(2)]] by (simp add: e')
  ultimately show ?thesis using w(1) V(1) by blast
qed

text \<open>
  (C6) \<^verbatim>\<open>inode_write\<close> implements a write to a byte array. With an offset inside the file, the
  end within the maximum file size, room in the operation's log budget and enough free
  blocks, it returns the number of bytes written; the file becomes its old bytes with the
  given bytes spliced in at the offset (growing the file when they reach past its end),
  and the invariant holds again.
\<close>
theorem inode_write_correct:
  assumes "file_inv sb ctx ip s" and "off \<le> length (file_data ip s)"
    and "off + length src \<le> INODE_MAX_BYTES" and "room_for ctx (6 * spans off (length src) + 1)"
    and "2 * spans off (length src) \<le> free_count sb (content (bcache s))"
  shows "\<exists>ctx' s'. inode_write sb ctx ip src off (length src) s = Some (length src, ctx', s') \<and>
    file_inv sb ctx' ip s' \<and>
    file_data ip s' = take off (file_data ip s) @ src @ drop (off + length src) (file_data ip s)"
  using inode_write_data [OF assms] by blast

text \<open>An empty directory, inode 1, on a disk of eight blocks of which the first five are in use.\<close>

definition demo_fs_sb :: super_block where
  "demo_fs_sb = \<lparr>sb_num_blocks = 8, sb_num_data_blocks = 3, sb_num_inodes = 8,
     sb_num_log_blocks = 0, sb_log_start = 100, sb_inode_start = 2, sb_bitmap_start = 4\<rparr>"

definition demo_fs :: inode_state where
  "demo_fs = \<lparr>bcache = cold_cache \<lparr>blocks = (\<lambda>b. if b = 4 then 0x1F # replicate 511 0 else replicate BLOCK_SIZE 0),
       history = []\<rparr>,
     inode_of = (\<lambda>_. \<lparr>ilock = 0, rc_count = 1, inode_no = 1, ivalid = True, entry = zero_entry\<lparr>itype := 1\<rparr>\<rparr>),
     ilist = [0], next_inode = 1\<rparr>"

lemma demo_free: "b < 8 \<Longrightarrow> free_block demo_fs_sb (content (bcache demo_fs)) b \<longleftrightarrow> 5 \<le> b"
proof -
  assume "b < 8"
  then consider "b = 0" | "b = 1" | "b = 2" | "b = 3" | "b = 4" | "b = 5" | "b = 6" | "b = 7" by linarith
  then show ?thesis
    by cases (simp_all add: free_block_def bit_clear_def BBLOCK_def demo_fs_sb_def demo_fs_def bit_mask_def)
qed

lemma demo_meta: "meta demo_fs_sb \<subseteq> {2, 3, 4}"
proof -
  have "to_block_no demo_fs_sb n \<in> {2, 3}" if "n \<le> 8" for n
  proof -
    from that consider "n div 8 = 0" | "n div 8 = 1" by linarith
    then show ?thesis by cases (simp_all add: to_block_no_def demo_fs_sb_def)
  qed
  moreover have "BBLOCK b demo_fs_sb = 4" if "b < 8" for b
    using that by (simp add: BBLOCK_def demo_fs_sb_def)
  ultimately show ?thesis by (auto simp: meta_def demo_fs_sb_def)
qed

lemma demo_layout: "layout_ok demo_fs_sb"
proof -
  have "to_block_no demo_fs_sb n \<noteq> BBLOCK b demo_fs_sb" if "n \<le> 8" "b < 8" for n b
  proof -
    have "n div 8 \<le> 1" using that(1) by linarith
    then show ?thesis using that(2) by (simp add: to_block_no_def BBLOCK_def demo_fs_sb_def)
  qed
  then show ?thesis by (simp add: layout_ok_def demo_fs_sb_def)
qed

lemma demo_fs_inv: "file_inv demo_fs_sb (Some \<lparr>rm = 10\<rparr>) 0 demo_fs"
proof -
  let ?C = "content (bcache demo_fs)"
  have len: "length (?C b) = BLOCK_SIZE" for b by (simp add: demo_fs_def)
  then have inv: "cache_inv (Some \<lparr>rm = 10\<rparr>) (bcache demo_fs)"
    using cold_cache_inv [of "dev (bcache demo_fs)" "Some \<lparr>rm = 10\<rparr>"] by (simp add: demo_fs_def dev_wf_def)
  have n: "sb_num_blocks demo_fs_sb = 8" by (simp add: demo_fs_sb_def)
  have "b \<noteq> 0 \<and> b \<notin> meta demo_fs_sb" if "5 \<le> b" for b using that demo_meta by auto
  then have disk: "disk_ok demo_fs_sb ?C"
    using demo_free len demo_layout by (simp add: disk_ok_def n)
  have "blk_of (entry (inode_of demo_fs 0)) ?C i = 0" if "i < INODE_MAX_BLOCKS" for i
    using that by (simp add: blk_of_def demo_fs_def zero_entry_def)
  then have "file_ok demo_fs_sb (entry (inode_of demo_fs 0)) ?C"
    by (simp add: file_ok_def demo_fs_def zero_entry_def)
  with inv disk show ?thesis
    by (simp add: file_inv_def Let_def idle_def demo_fs_def zero_entry_def demo_fs_sb_def)
qed

lemma demo_fs_space: "2 \<le> free_count demo_fs_sb (content (bcache demo_fs))"
proof -
  let ?F = "{b. b < sb_num_blocks demo_fs_sb \<and> free_block demo_fs_sb (content (bcache demo_fs)) b}"
  have "{5, 6} \<subseteq> ?F" using demo_free by (simp add: demo_fs_sb_def)
  moreover have "finite ?F" by simp
  ultimately have "card {5, 6 :: nat} \<le> card ?F" by (intro card_mono)
  then show ?thesis by (simp add: free_count_def)
qed

lemma demo_spans: "0 < n \<Longrightarrow> n \<le> BLOCK_SIZE \<Longrightarrow> spans 0 n = 1"
  by (simp add: spans_def)

lemma demo_fs_empty: "file_data 0 demo_fs = []"
  by (simp add: file_data_def demo_fs_def zero_entry_def)

theorem inode_write_correct_witness:
  "\<exists>ctx' s'. inode_write demo_fs_sb (Some \<lparr>rm = 10\<rparr>) 0 [1, 2, 3] 0 (length [1, 2, 3 :: u8]) demo_fs =
      Some (length [1, 2, 3 :: u8], ctx', s') \<and> file_data 0 s' = [1, 2, 3]"
proof -
  let ?src = "[1, 2, 3] :: u8 list"
  have sp: "spans 0 (length ?src) = 1" by (rule demo_spans) simp_all
  have "\<exists>ctx' s'. inode_write demo_fs_sb (Some \<lparr>rm = 10\<rparr>) 0 ?src 0 (length ?src) demo_fs =
        Some (length ?src, ctx', s') \<and> file_inv demo_fs_sb ctx' 0 s' \<and>
      file_data 0 s' = take 0 (file_data 0 demo_fs) @ ?src @ drop (0 + length ?src) (file_data 0 demo_fs)"
  proof (rule inode_write_correct [OF demo_fs_inv])
    show "room_for (Some \<lparr>rm = 10\<rparr>) (6 * spans 0 (length ?src) + 1)" by (simp only: sp) (simp add: room_for_def)
    show "2 * spans 0 (length ?src) \<le> free_count demo_fs_sb (content (bcache demo_fs))"
      using demo_fs_space by (simp only: sp mult_1_right)
  qed simp_all
  then show ?thesis by (auto simp: demo_fs_empty)
qed

text \<open>Two files: inode 1, empty, at address 0, and inode 2 at address 1, with three bytes in block 5.\<close>

definition demo_fs2 :: inode_state where
  "demo_fs2 = \<lparr>bcache = cold_cache \<lparr>blocks = (\<lambda>b. if b = 4 then 0x3F # replicate 511 0
         else if b = 5 then [1, 2, 3] @ replicate 509 0 else replicate BLOCK_SIZE 0), history = []\<rparr>,
     inode_of = (\<lambda>a. if a = 0
       then \<lparr>ilock = 0, rc_count = 1, inode_no = 1, ivalid = True, entry = zero_entry\<lparr>itype := 1\<rparr>\<rparr>
       else \<lparr>ilock = 0, rc_count = 1, inode_no = 2, ivalid = True,
         entry = zero_entry\<lparr>itype := 1, num_bytes := 3, addrs := (addrs zero_entry)[0 := 5]\<rparr>\<rparr>),
     ilist = [0, 1], next_inode = 2\<rparr>"

lemma demo_free2: "b < 8 \<Longrightarrow> free_block demo_fs_sb (content (bcache demo_fs2)) b \<longleftrightarrow> 6 \<le> b"
proof -
  assume "b < 8"
  then consider "b = 0" | "b = 1" | "b = 2" | "b = 3" | "b = 4" | "b = 5" | "b = 6" | "b = 7" by linarith
  then show ?thesis
    by cases (simp_all add: free_block_def bit_clear_def BBLOCK_def demo_fs_sb_def demo_fs2_def bit_mask_def)
qed

lemma demo_zero2: "i < INODE_MAX_BLOCKS \<Longrightarrow> blk_of (entry (inode_of demo_fs2 a)) C i = (if a \<noteq> 0 \<and> i = 0 then 5 else 0)"
  by (simp add: blk_of_def demo_fs2_def zero_entry_def nth_Cons split: nat.split)

lemma demo_fs2_inv: "a \<le> 1 \<Longrightarrow> file_inv demo_fs_sb (Some \<lparr>rm = 10\<rparr>) a demo_fs2"
proof -
  assume a: "a \<le> 1"
  let ?C = "content (bcache demo_fs2)"
  have len: "length (?C b) = BLOCK_SIZE" for b by (simp add: demo_fs2_def)
  then have inv: "cache_inv (Some \<lparr>rm = 10\<rparr>) (bcache demo_fs2)"
    using cold_cache_inv [of "dev (bcache demo_fs2)" "Some \<lparr>rm = 10\<rparr>"] by (simp add: demo_fs2_def dev_wf_def)
  have n: "sb_num_blocks demo_fs_sb = 8" by (simp add: demo_fs_sb_def)
  have m: "b \<noteq> 0 \<and> b \<notin> meta demo_fs_sb" if "5 \<le> b" for b using that demo_meta by auto
  then have disk: "disk_ok demo_fs_sb ?C"
    using demo_free2 len demo_layout by (simp add: disk_ok_def n)
  have "data_block demo_fs_sb ?C 5" using m [of 5] demo_free2 [of 5] by (simp add: data_block_def n)
  then have "file_ok demo_fs_sb (entry (inode_of demo_fs2 a)) ?C"
    unfolding file_ok_def using demo_zero2 [of _ a ?C] by (simp add: demo_fs2_def zero_entry_def)
  moreover have "blk_of (entry (inode_of demo_fs2 a)) ?C (x div BLOCK_SIZE) \<noteq> 0"
    if "x < num_bytes (entry (inode_of demo_fs2 a))" for x
  proof -
    have "a \<noteq> 0" "x < 3" using that by (simp_all add: demo_fs2_def zero_entry_def split: if_splits)
    then show ?thesis using demo_zero2 [of 0 a ?C] by simp
  qed
  moreover have "num_bytes (entry (inode_of demo_fs2 a)) \<le> INODE_MAX_BYTES" by (simp add: demo_fs2_def zero_entry_def)
  ultimately show ?thesis using inv disk a unfolding file_inv_def Let_def
    by (simp add: idle_def) (simp add: demo_fs2_def demo_fs_sb_def zero_entry_def)
qed

lemma demo_data2: "file_data 1 demo_fs2 = [1, 2, 3]"
proof -
  have "num_bytes (entry (inode_of demo_fs2 1)) = 3" "content (bcache demo_fs2) 5 = [1, 2, 3] @ replicate 509 0"
    by (simp_all add: demo_fs2_def)
  moreover have "[0..<3] = [0, 1, 2 :: nat]" by (simp add: upt_rec)
  ultimately show ?thesis using demo_zero2 [of 0 1 "content (bcache demo_fs2)"] by (simp add: file_data_def file_byte_def)
qed

theorem inode_read_correct_witness:
  "\<exists>s'. inode_read demo_fs_sb 1 1 5 demo_fs2 = Some (0, [2, 3], s') \<and> file_data 1 s' = [1, 2, 3]"
proof -
  have "\<exists>s'. inode_read demo_fs_sb 1 1 5 demo_fs2 = Some (0, take 5 (drop 1 (file_data 1 demo_fs2)), s') \<and>
      file_inv demo_fs_sb (Some \<lparr>rm = 10\<rparr>) 1 s' \<and> file_data 1 s' = file_data 1 demo_fs2"
    by (rule inode_read_correct [OF demo_fs2_inv]) (simp_all only: demo_data2, simp_all)
  moreover have "take 5 (drop 1 [1, 2, 3]) = [2, 3 :: u8]" by simp
  ultimately show ?thesis unfolding demo_data2 by auto
qed

text \<open>
  What is written is read back: after \<^verbatim>\<open>inode_write\<close> of some bytes, \<^verbatim>\<open>inode_read\<close> of the
  same range returns exactly these bytes.
\<close>
theorem inode_write_read:
  assumes "file_inv sb ctx ip s" and "off \<le> length (file_data ip s)"
    and "off + length src \<le> INODE_MAX_BYTES" and "room_for ctx (6 * spans off (length src) + 1)"
    and "2 * spans off (length src) \<le> free_count sb (content (bcache s))"
  shows "\<exists>ctx' s' s''. inode_write sb ctx ip src off (length src) s = Some (length src, ctx', s') \<and>
    inode_read sb ip off (length src) s' = Some (0, src, s'')"
proof -
  let ?fd = "take off (file_data ip s) @ src @ drop (off + length src) (file_data ip s)"
  have off: "off \<le> num_bytes (entry (inode_of s ip))" using assms(2) by (simp add: file_data_def)
  have room: "room_for ctx (0 + 6 * spans off (length src) + 1)" using assms(4) by simp
  from inode_write_spec [OF assms(1) off assms(3) room assms(5)] obtain ctx' s' e1 C1 C2 where
    w: "inode_write sb ctx ip src off (length src) s = Some (length src, ctx', s')"
      "written sb (entry (inode_of s ip)) (content (bcache s)) off src e1 C1"
      "reaches ctx' 0 (bcache s) C2 (bcache s')"
      "entry_step ip s (e1\<lparr>num_bytes := max (num_bytes (entry (inode_of s ip))) (off + length src)\<rparr>) s'"
      "C2 = C1 \<or> (\<exists>d. length d = BLOCK_SIZE \<and> C2 = C1(to_block_no sb (inode_no (inode_of s ip)) := d))"
    by blast
  note V = written_inv [OF assms(1) off assms(3) w(2-5)]
  note e' = entry_step_entry [OF w(4)]
  have o': "off \<le> num_bytes (entry (inode_of s' ip))" using off by (simp add: e')
  have c: "off + length src < 2 ^ 64" using assms(3) by simp
  obtain s'' where r: "inode_read sb ip off (length src) s' = Some (0, take (length src) (drop off (file_data ip s')), s'')"
    using inode_read_spec [OF V(1) o' c] by blast
  have "take (length src) (drop off (file_data ip s')) = src"
  proof (rule nth_equalityI)
    show "length (take (length src) (drop off (file_data ip s'))) = length src" by (simp add: file_data_def e')
  next
    fix i assume "i < length (take (length src) (drop off (file_data ip s')))"
    then have i: "i < length src" by (simp add: file_data_def e')
    then have "off + i < INODE_MAX_BYTES" using assms(3) by linarith
    from V(2) [OF this] i show "take (length src) (drop off (file_data ip s')) ! i = src ! i"
      using reachesD(2) [OF w(3)] by (simp add: file_data_def e' less_max_iff_disj)
  qed
  with w(1) r show ?thesis by auto
qed

theorem inode_write_read_witness:
  "\<exists>ctx' s' s''. inode_write demo_fs_sb (Some \<lparr>rm = 10\<rparr>) 0 [7, 8] 0 (length [7, 8 :: u8]) demo_fs =
      Some (length [7, 8 :: u8], ctx', s') \<and> inode_read demo_fs_sb 0 0 (length [7, 8 :: u8]) s' = Some (0, [7, 8], s'')"
proof -
  let ?src = "[7, 8] :: u8 list"
  have sp: "spans 0 (length ?src) = 1" by (rule demo_spans) simp_all
  show ?thesis
  proof (rule inode_write_read [OF demo_fs_inv])
    show "room_for (Some \<lparr>rm = 10\<rparr>) (6 * spans 0 (length ?src) + 1)" by (simp only: sp) (simp add: room_for_def)
    show "2 * spans 0 (length ?src) \<le> free_count demo_fs_sb (content (bcache demo_fs))"
      using demo_fs_space by (simp only: sp mult_1_right)
  qed simp_all
qed

text \<open>Two files share no block.\<close>

definition blocks_of :: "inode_entry \<Rightarrow> contents \<Rightarrow> nat set" where
  "blocks_of e C = insert (indirect e) (blk_of e C ` {..<INODE_MAX_BLOCKS}) - {0}"

lemma blocks_of_data: "file_ok sb e C \<Longrightarrow> b \<in> blocks_of e C \<Longrightarrow> data_block sb C b"
  by (auto simp: blocks_of_def file_ok_def)

lemma other_file:
  assumes f: "file_ok sb e C" and same: "\<And>b. b \<in> blocks_of e C \<Longrightarrow> C' b = C b \<and> data_block sb C' b"
  shows "i < INODE_MAX_BLOCKS \<Longrightarrow> blk_of e C' i = blk_of e C i" and "file_ok sb e C'"
    and "x < INODE_MAX_BYTES \<Longrightarrow> file_byte e C' x = file_byte e C x"
proof -
  show bl: "blk_of e C' i = blk_of e C i" if "i < INODE_MAX_BLOCKS" for i
    using same [of "indirect e"] by (auto simp: blk_of_def blocks_of_def)
  have mem: "blk_of e C i \<in> blocks_of e C" if "i < INODE_MAX_BLOCKS" "blk_of e C i \<noteq> 0" for i
    using that by (simp add: blocks_of_def)
  have "data_block sb C' (indirect e)" if "indirect e \<noteq> 0"
    using same [of "indirect e"] that by (simp add: blocks_of_def)
  then show "file_ok sb e C'"
    using f bl same mem by (auto simp: file_ok_def)
  show "file_byte e C' x = file_byte e C x" if "x < INODE_MAX_BYTES"
  proof (rule file_byte_cong)
    have i: "x div BLOCK_SIZE < INODE_MAX_BLOCKS" using that by (simp add: div_less_iff_less_mult)
    then show "blk_of e C' (x div BLOCK_SIZE) = blk_of e C (x div BLOCK_SIZE)" by (rule bl)
    show "C' (blk_of e C (x div BLOCK_SIZE)) = C (blk_of e C (x div BLOCK_SIZE))"
      if "blk_of e C (x div BLOCK_SIZE) \<noteq> 0" using same [OF mem [OF i that]] by simp
  qed
qed

text \<open>
  (C18) Writing a file leaves every other file alone: when two valid inodes share no block,
  \<^verbatim>\<open>inode_write\<close> to one changes neither the bytes of the other nor its invariant, although
  it may allocate blocks and rewrite the inode block they share.
\<close>
theorem inode_write_isolated:
  assumes "file_inv sb ctx ip s" and "file_inv sb ctx jp s" and "jp \<noteq> ip"
    and "blocks_of (entry (inode_of s ip)) (content (bcache s)) \<inter>
      blocks_of (entry (inode_of s jp)) (content (bcache s)) = {}"
    and "off \<le> length (file_data ip s)" and "off + length src \<le> INODE_MAX_BYTES"
    and "room_for ctx (6 * spans off (length src) + 1)"
    and "2 * spans off (length src) \<le> free_count sb (content (bcache s))"
  shows "\<exists>ctx' s'. inode_write sb ctx ip src off (length src) s = Some (length src, ctx', s') \<and>
    file_inv sb ctx' jp s' \<and> file_data jp s' = file_data jp s"
proof -
  let ?e = "entry (inode_of s ip)" and ?C = "content (bcache s)" and ?f = "entry (inode_of s jp)"
  have off: "off \<le> num_bytes ?e" using assms(5) by (simp add: file_data_def)
  have room: "room_for ctx (0 + 6 * spans off (length src) + 1)" using assms(7) by simp
  from inode_write_spec [OF assms(1) off assms(6) room assms(8)] obtain ctx' s' e1 C1 C2 where
    w: "inode_write sb ctx ip src off (length src) s = Some (length src, ctx', s')" "written sb ?e ?C off src e1 C1"
      "reaches ctx' 0 (bcache s) C2 (bcache s')"
      "entry_step ip s (e1\<lparr>num_bytes := max (num_bytes ?e) (off + length src)\<rparr>) s'"
      "C2 = C1 \<or> (\<exists>d. length d = BLOCK_SIZE \<and> C2 = C1(to_block_no sb (inode_no (inode_of s ip)) := d))"
    by blast
  note V = written_inv [OF assms(1) off assms(6) w(2-5)] and W = writtenD [OF w(2)]
  note I = file_invD [OF assms(1)] and J = file_invD [OF assms(2)]
  have d2: "data_block sb C2 = data_block sb C1" using w(5) meta_store(5) [OF W(1,2) I(6)] by auto
  have keep: "C2 b = ?C b \<and> data_block sb C2 b" if "b \<in> blocks_of ?f ?C" for b
  proof -
    have db: "data_block sb ?C b" using blocks_of_data [OF J(4) that] .
    have "b \<notin> blocks_of ?e ?C" using assms(4) that by blast
    moreover have "b \<noteq> 0" using db by (simp add: data_block_def)
    ultimately have "b \<noteq> indirect ?e" "\<forall>i < INODE_MAX_BLOCKS. blk_of ?e ?C i \<noteq> b" by (auto simp: blocks_of_def)
    with W(9,10) [OF db] V(3) d2 show ?thesis by auto
  qed
  note O = other_file [OF J(4) keep]
  have C': "content (bcache s') = C2" and jp: "inode_of s' jp = inode_of s jp"
    using reachesD(2) [OF w(3)] w(4) assms(3) by (auto simp: entry_step_def)
  have lt: "x < INODE_MAX_BYTES" "x div BLOCK_SIZE < INODE_MAX_BLOCKS" if "x < num_bytes ?f" for x
    using less_le_trans [OF that J(7)] by (simp_all add: div_less_iff_less_mult)
  have fd: "file_data jp s' = file_data jp s"
    unfolding file_data_def C' jp using O(3) lt by (intro map_cong) auto
  have "disk_ok sb C2" using file_invD(3) [OF V(1)] C' by simp
  moreover have "blk_of ?f C2 (x div BLOCK_SIZE) \<noteq> 0" if "x < num_bytes ?f" for x
    using J(8) [OF that] O(1) lt(2) [OF that] by simp
  ultimately have "file_inv sb ctx' jp s'"
    unfolding file_inv_def Let_def C' jp using file_invD(1,2) [OF V(1)] J(5,6,7) O(2) by blast
  with fd w(1) show ?thesis by blast
qed

lemma demo_fs2_space: "2 \<le> free_count demo_fs_sb (content (bcache demo_fs2))"
proof -
  let ?F = "{b. b < sb_num_blocks demo_fs_sb \<and> free_block demo_fs_sb (content (bcache demo_fs2)) b}"
  have "{6, 7} \<subseteq> ?F" using demo_free2 by (simp add: demo_fs_sb_def)
  moreover have "finite ?F" by simp
  ultimately have "card {6, 7 :: nat} \<le> card ?F" by (intro card_mono)
  then show ?thesis by (simp add: free_count_def)
qed

theorem inode_write_isolated_witness:
  "\<exists>ctx' s'. inode_write demo_fs_sb (Some \<lparr>rm = 10\<rparr>) 0 [9] 0 (length [9 :: u8]) demo_fs2 =
      Some (length [9 :: u8], ctx', s') \<and> file_data 1 s' = [1, 2, 3]"
proof -
  let ?src = "[9] :: u8 list"
  have sp: "spans 0 (length ?src) = 1" by (rule demo_spans) simp_all
  have e: "blocks_of (entry (inode_of demo_fs2 0)) (content (bcache demo_fs2)) = {}"
    by (auto simp: blocks_of_def demo_zero2) (simp add: demo_fs2_def zero_entry_def)
  have "\<exists>ctx' s'. inode_write demo_fs_sb (Some \<lparr>rm = 10\<rparr>) 0 ?src 0 (length ?src) demo_fs2 =
      Some (length ?src, ctx', s') \<and> file_inv demo_fs_sb ctx' 1 s' \<and> file_data 1 s' = file_data 1 demo_fs2"
  proof (rule inode_write_isolated [OF demo_fs2_inv demo_fs2_inv])
    show "room_for (Some \<lparr>rm = 10\<rparr>) (6 * spans 0 (length ?src) + 1)" by (simp only: sp) (simp add: room_for_def)
    show "2 * spans 0 (length ?src) \<le> free_count demo_fs_sb (content (bcache demo_fs2))"
      using demo_fs2_space by (simp only: sp mult_1_right)
  qed (simp_all add: e)
  then show ?thesis unfolding demo_data2 by blast
qed

end
