(* ===== verification/Inode_Dir.thy ===== *)
theory Inode_Dir
  imports Inode_File
begin

text \<open>
  Directories: \<^verbatim>\<open>inode_lookup\<close>, \<^verbatim>\<open>inode_insert\<close> and \<^verbatim>\<open>inode_remove\<close> against an abstract
  directory. \<open>dir_map fd\<close> is the finite map from names to inode numbers that the 16-byte
  entries of the file \<open>fd\<close> stand for; lookup applies it, insert extends it by one name or
  reports a duplicate, remove deletes one name. The invariant \<open>dir_inv\<close> adds to the one of
  files that the size is a whole number of entries and that no name occurs twice.
\<close>

section \<open>Entries of a directory\<close>

definition slot_at :: "u8 list \<Rightarrow> nat \<Rightarrow> u8 list" where
  "slot_at fd k = take 16 (drop (16 * k) fd)"

definition slots :: "u8 list \<Rightarrow> nat" where
  "slots fd = length fd div 16"

text \<open>The name an entry stands for: none when the entry is unused.\<close>

definition slot_name :: "u8 list \<Rightarrow> u8 list option" where
  "slot_name de = (if de_inode_no de = 0 then None else Some (cstr_text (de_name de) FILE_NAME_MAX_LENGTH))"

definition dir_unique :: "u8 list \<Rightarrow> bool" where
  "dir_unique fd \<longleftrightarrow> (\<forall>i < slots fd. \<forall>j < slots fd.
     slot_name (slot_at fd i) \<noteq> None \<and> slot_name (slot_at fd i) = slot_name (slot_at fd j) \<longrightarrow> i = j)"

definition dir_find :: "u8 list \<Rightarrow> u8 list \<Rightarrow> nat option" where
  "dir_find t fd = List.find (\<lambda>k. slot_name (slot_at fd k) = Some t) [0..<slots fd]"

text \<open>The abstract directory: a finite map from names to inode numbers.\<close>

definition dir_map :: "u8 list \<Rightarrow> u8 list \<rightharpoonup> nat" where
  "dir_map fd t = map_option (\<lambda>k. de_inode_no (slot_at fd k)) (dir_find t fd)"

definition dir_free :: "u8 list \<Rightarrow> nat" where
  "dir_free fd = (case List.find (\<lambda>k. de_inode_no (slot_at fd k) = 0) [0..<slots fd] of
     Some k \<Rightarrow> k | None \<Rightarrow> slots fd)"

definition dir_inv :: "super_block \<Rightarrow> op_context option \<Rightarrow> nat \<Rightarrow> inode_state \<Rightarrow> bool" where
  "dir_inv sb ctx ip s \<longleftrightarrow> file_inv sb ctx ip s \<and> itype (entry (inode_of s ip)) = INODE_DIRECTORY \<and>
     16 dvd num_bytes (entry (inode_of s ip)) \<and> dir_unique (file_data ip s)"

lemma dir_findD:
  assumes "dir_find t fd = Some k"
  shows "k < slots fd" and "slot_name (slot_at fd k) = Some t"
  using find_Some_iff [OF assms [unfolded dir_find_def]] by auto

lemma dir_find_None: "dir_find t fd = None \<longleftrightarrow> (\<forall>k < slots fd. slot_name (slot_at fd k) \<noteq> Some t)"
  by (auto simp: dir_find_def find_None_iff')

lemma dir_findI:
  assumes "dir_unique fd" and "k < slots fd" and "slot_name (slot_at fd k) = Some t"
  shows "dir_find t fd = Some k"
proof (cases "dir_find t fd")
  case None
  then show ?thesis using assms(2,3) by (simp add: dir_find_None)
next
  case (Some j)
  from dir_findD [OF this] assms have "j = k" unfolding dir_unique_def by auto
  with Some show ?thesis by simp
qed

lemma dir_free_slot:
  assumes "dir_free fd < slots fd"
  shows "slot_name (slot_at fd (dir_free fd)) = None"
  using assms find_Some_iff [where P = "\<lambda>k. de_inode_no (slot_at fd k) = 0" and xs = "[0..<slots fd]"]
  by (auto simp: dir_free_def slot_name_def split: option.splits)

lemma dir_free_le: "dir_free fd \<le> slots fd"
  using find_Some_iff [where P = "\<lambda>k. de_inode_no (slot_at fd k) = 0" and xs = "[0..<slots fd]"]
  by (fastforce simp: dir_free_def split: option.splits)

text \<open>Replacing or appending one entry.\<close>

definition put_slot :: "nat \<Rightarrow> u8 list \<Rightarrow> u8 list \<Rightarrow> u8 list" where
  "put_slot j de fd = take (16 * j) fd @ de @ drop (16 * j + 16) fd"

lemma put_slot_simps:
  assumes "length fd = 16 * n" and "j \<le> n" and "length de = 16"
  shows "length (put_slot j de fd) = 16 * max n (Suc j)" and "slots (put_slot j de fd) = max n (Suc j)"
    and "slots fd = n" and "k < max n (Suc j) \<Longrightarrow> slot_at (put_slot j de fd) k = (if k = j then de else slot_at fd k)"
proof -
  show len: "length (put_slot j de fd) = 16 * max n (Suc j)"
    using assms by (auto simp: put_slot_def max_def)
  then show "slots (put_slot j de fd) = max n (Suc j)" "slots fd = n" using assms(1) by (auto simp: slots_def)
  show "slot_at (put_slot j de fd) k = (if k = j then de else slot_at fd k)" if k: "k < max n (Suc j)"
  proof (rule nth_equalityI)
    show "length (slot_at (put_slot j de fd) k) = length (if k = j then de else slot_at fd k)"
      using assms k len by (auto simp: slot_at_def max_def split: if_splits)
  next
    fix i assume "i < length (slot_at (put_slot j de fd) k)"
    then have i: "i < 16" by (simp add: slot_at_def)
    consider "k < j" | "k = j" | "j < k" by linarith
    then show "slot_at (put_slot j de fd) k ! i = (if k = j then de else slot_at fd k) ! i"
      using i assms k by cases (auto simp: slot_at_def put_slot_def nth_append max_def split: if_splits)
  qed
qed

text \<open>Filling an unused entry adds a name to the map; clearing an entry removes its name.\<close>

lemma put_slot_unique:
  assumes fd: "length fd = 16 * n" "j \<le> n" "length de = 16" "dir_unique fd"
    and new: "\<And>t k. slot_name de = Some t \<Longrightarrow> k < n \<Longrightarrow> k \<noteq> j \<Longrightarrow> slot_name (slot_at fd k) \<noteq> Some t"
  shows "dir_unique (put_slot j de fd)"
proof -
  note S = put_slot_simps [OF fd(1-3)]
  have "a = b" if ab: "a < max n (Suc j)" "b < max n (Suc j)"
    and nm: "slot_name (slot_at (put_slot j de fd) a) \<noteq> None"
      "slot_name (slot_at (put_slot j de fd) a) = slot_name (slot_at (put_slot j de fd) b)" for a b
  proof (cases "a = j \<or> b = j")
    case True
    then show ?thesis using ab nm new [of _ a] new [of _ b] fd(2) S(4) [OF ab(1)] S(4) [OF ab(2)]
      by (auto simp: less_max_iff_disj less_Suc_eq split: if_splits)
  next
    case False
    then show ?thesis using ab nm fd(2,4) S(3) S(4) [OF ab(1)] S(4) [OF ab(2)]
      unfolding dir_unique_def by (auto simp: less_max_iff_disj)
  qed
  then show ?thesis unfolding dir_unique_def S(2) by blast
qed

lemma put_slot_map:
  assumes fd: "length fd = 16 * n" "j \<le> n" "length de = 16" "dir_unique fd"
    and uni: "dir_unique (put_slot j de fd)"
    and old: "\<And>t k. k < n \<Longrightarrow> slot_name (slot_at fd k) = Some t \<Longrightarrow> k = j \<Longrightarrow> t = t0"
    and new: "slot_name de = None \<or> slot_name de = Some t0"
    and gone: "slot_name de = None \<Longrightarrow> j < n \<and> slot_name (slot_at fd j) = Some t0"
    and absent: "slot_name de = Some t0 \<Longrightarrow> dir_map fd t0 = None"
  shows "dir_map (put_slot j de fd) = (dir_map fd)(t0 := (if slot_name de = None then None else Some (de_inode_no de)))"
proof
  fix t
  note S = put_slot_simps [OF fd(1-3)]
  let ?fd = "put_slot j de fd"
  show "dir_map ?fd t = ((dir_map fd)(t0 := (if slot_name de = None then None else Some (de_inode_no de)))) t"
  proof (cases "t = t0")
    case True
    show ?thesis
    proof (cases "slot_name de = None")
      case none: True
      have "slot_name (slot_at ?fd k) \<noteq> Some t0" if "k < slots ?fd" for k
      proof
        assume nm: "slot_name (slot_at ?fd k) = Some t0"
        have k: "k < n" "k \<noteq> j" "slot_name (slot_at fd k) = Some t0"
          using that nm none gone [OF none] S(2) S(4) [of k] by (auto split: if_splits)
        then show False using gone [OF none] fd(4) S(3) unfolding dir_unique_def by auto
      qed
      then have "dir_find t0 ?fd = None" by (simp add: dir_find_None)
      then show ?thesis using True none by (simp add: dir_map_def)
    next
      case False
      then have "slot_name (slot_at ?fd j) = Some t0" "slot_at ?fd j = de" using new S(4) [of j] by auto
      then show ?thesis using True False dir_findI [OF uni, of j t0] S(2) by (simp add: dir_map_def)
    qed
  next
    case False
    have "dir_map ?fd t = dir_map fd t"
    proof (cases "dir_find t fd")
      case None
      then have "slot_name (slot_at ?fd k) \<noteq> Some t" if "k < slots ?fd" for k
        using that False new S(2,3) S(4) [of k] fd(2) by (auto simp: dir_find_None less_max_iff_disj less_Suc_eq split: if_splits)
      then have "dir_find t ?fd = None" by (simp add: dir_find_None)
      with None show ?thesis by (simp add: dir_map_def)
    next
      case (Some k)
      note K = dir_findD [OF Some]
      then have "k \<noteq> j" using old [of k t] False S(3) by auto
      then have "dir_find t ?fd = Some k" "slot_at ?fd k = slot_at fd k"
        using K S(2,3) S(4) [of k] dir_findI [OF uni, of k t] by (auto simp: less_max_iff_disj)
      with Some show ?thesis by (simp add: dir_map_def)
    qed
    with False show ?thesis by simp
  qed
qed

section \<open>Reading entries\<close>

definition same_fs :: "op_context option \<Rightarrow> inode_state \<Rightarrow> inode_state \<Rightarrow> bool" where
  "same_fs ctx s s' \<longleftrightarrow> cache_inv ctx (bcache s') \<and> idle (bcache s') \<and>
     content (bcache s') = content (bcache s) \<and> inode_of s' = inode_of s \<and> ilist s' = ilist s \<and>
     next_inode s' = next_inode s"

lemma same_fs_trans: "same_fs ctx s s' \<Longrightarrow> same_fs ctx s' s'' \<Longrightarrow> same_fs ctx s s''"
  by (simp add: same_fs_def)

lemma same_fs_refl: "file_inv sb ctx ip s \<Longrightarrow> same_fs ctx s s"
  using file_invD(1,2) [of sb ctx ip s] by (simp add: same_fs_def)

lemma same_fs_view:
  assumes "same_fs ctx s s'"
  shows "file_inv sb ctx ip s \<Longrightarrow> file_inv sb ctx ip s'" and "file_data ip s' = file_data ip s"
    and "dir_inv sb ctx ip s \<Longrightarrow> dir_inv sb ctx ip s'" and "inode_of s' = inode_of s"
    and "content (bcache s') = content (bcache s)"
  using assms file_view_cong [of s' ip s] by (auto simp: same_fs_def dir_inv_def)

lemma length_file_data [simp]: "length (file_data ip s) = num_bytes (entry (inode_of s ip))"
  by (simp add: file_data_def)

lemma read_dirent_spec:
  assumes inv: "file_inv sb ctx ip s" and off: "off + 16 \<le> num_bytes (entry (inode_of s ip))"
  obtains s' where "read_dirent sb ip off s = Some (take 16 (drop off (file_data ip s)), s')" and "same_fs ctx s s'"
proof -
  have "off + 16 < 2 ^ 64" using off file_invD(7) [OF inv] by simp
  then obtain s' where r: "inode_read sb ip off 16 s = Some (0, take 16 (drop off (file_data ip s)), s')"
      "bc.after ctx (bcache s) (content (bcache s)) (log_list (bcache s)) (bcache s')"
      "entry_step ip s (entry (inode_of s ip)) s'"
    using inode_read_spec [OF inv, of off 16] off by auto
  have "same_fs ctx s s'"
    using r(2,3) file_invD(2) [OF inv] by (auto simp: same_fs_def bc.after_def idle_def entry_step_def)
  with r(1) off that show thesis by (simp add: read_dirent_def)
qed

lemma find_upt_step:
  assumes "k < n"
  shows "List.find P [k..<n] = (if P k then Some k else List.find P [Suc k..<n])"
  using assms by (simp add: upt_conv_Cons)

lemma lookup_loop_spec:
  assumes "file_inv sb ctx ip s" and "num_bytes (entry (inode_of s ip)) = 16 * n" and "fd = file_data ip s"
  shows "\<exists>s'. lookup_loop sb ip name (16 * n) (16 * k) s =
      (case List.find (\<lambda>k. slot_name (slot_at fd k) = Some (cstr_text name FILE_NAME_MAX_LENGTH)) [k..<n] of
         None \<Rightarrow> Some (0, None, s') | Some j \<Rightarrow> Some (de_inode_no (slot_at fd j), Some (16 * j), s')) \<and>
    same_fs ctx s s'"
  using assms
proof (induction "n - k" arbitrary: k s)
  case 0
  then have "lookup_loop sb ip name (16 * n) (16 * k) s = Some (0, None, s)"
    by (subst lookup_loop.simps) simp
  then show ?case using 0 same_fs_refl by auto
next
  case (Suc m)
  let ?P = "\<lambda>k. slot_name (slot_at fd k) = Some (cstr_text name FILE_NAME_MAX_LENGTH)"
  have k: "k < n" and m: "m = n - Suc k" using Suc.hyps(2) by simp_all
  obtain s1 where 1: "read_dirent sb ip (16 * k) s = Some (slot_at fd k, s1)" "same_fs ctx s s1"
    using read_dirent_spec [OF Suc.prems(1), of "16 * k"] k Suc.prems(2,3) by (auto simp: slot_at_def)
  have step: "lookup_loop sb ip name (16 * n) (16 * k) s =
      (if ?P k then Some (de_inode_no (slot_at fd k), Some (16 * k), s1)
       else lookup_loop sb ip name (16 * n) (16 * Suc k) s1)"
    using k 1(1) by (subst lookup_loop.simps) (simp add: slot_name_def strncmp_text add.commute)
  show ?case
  proof (cases "?P k")
    case True
    then show ?thesis using step 1(2) by (auto simp: find_upt_step [OF k])
  next
    case False
    note V = same_fs_view [OF 1(2)]
    from Suc.hyps(1) [OF m V(1) [OF Suc.prems(1)]] obtain s2 where
      "lookup_loop sb ip name (16 * n) (16 * Suc k) s1 =
        (case List.find ?P [Suc k..<n] of
           None \<Rightarrow> Some (0, None, s2) | Some j \<Rightarrow> Some (de_inode_no (slot_at fd j), Some (16 * j), s2))"
      "same_fs ctx s1 s2"
      using V(2,4) Suc.prems(2,3) by auto
    with step False same_fs_trans [OF 1(2)] show ?thesis by (auto simp: find_upt_step [OF k])
  qed
qed

lemma free_slot_loop_spec:
  assumes "file_inv sb ctx ip s" and "num_bytes (entry (inode_of s ip)) = 16 * n" and "fd = file_data ip s" and "k \<le> n"
  shows "\<exists>s'. free_slot_loop sb ip (16 * n) (16 * k) s =
      Some (16 * (case List.find (\<lambda>k. de_inode_no (slot_at fd k) = 0) [k..<n] of None \<Rightarrow> n | Some j \<Rightarrow> j), s') \<and>
    same_fs ctx s s'"
  using assms
proof (induction "n - k" arbitrary: k s)
  case 0
  then have "k = n" by simp
  moreover have "free_slot_loop sb ip (16 * n) (16 * n) s = Some (16 * n, s)"
    by (subst free_slot_loop.simps) simp
  ultimately show ?case using 0 same_fs_refl by auto
next
  case (Suc m)
  have k: "k < n" "Suc k \<le> n" and m: "m = n - Suc k" using Suc.hyps(2) by simp_all
  obtain s1 where 1: "read_dirent sb ip (16 * k) s = Some (slot_at fd k, s1)" "same_fs ctx s s1"
    using read_dirent_spec [OF Suc.prems(1), of "16 * k"] k Suc.prems(2,3) by (auto simp: slot_at_def)
  have step: "free_slot_loop sb ip (16 * n) (16 * k) s =
      (if de_inode_no (slot_at fd k) = 0 then Some (16 * k, s1)
       else free_slot_loop sb ip (16 * n) (16 * Suc k) s1)"
    using k 1(1) by (subst free_slot_loop.simps) (simp add: add.commute)
  show ?case
  proof (cases "de_inode_no (slot_at fd k) = 0")
    case True
    then show ?thesis using step 1(2) by (auto simp: find_upt_step [OF k(1)])
  next
    case False
    note V = same_fs_view [OF 1(2)]
    from Suc.hyps(1) [OF m V(1) [OF Suc.prems(1)]] obtain s2 where
      "free_slot_loop sb ip (16 * n) (16 * Suc k) s1 =
        Some (16 * (case List.find (\<lambda>k. de_inode_no (slot_at fd k) = 0) [Suc k..<n] of None \<Rightarrow> n | Some j \<Rightarrow> j), s2)"
        "same_fs ctx s1 s2"
      using V(2,4) Suc.prems(2,3) k(2) by auto
    with step False same_fs_trans [OF 1(2)] show ?thesis by (auto simp: find_upt_step [OF k(1)])
  qed
qed

lemma dir_invD:
  assumes "dir_inv sb ctx ip s"
  shows "file_inv sb ctx ip s" and "itype (entry (inode_of s ip)) = INODE_DIRECTORY"
    and "dir_unique (file_data ip s)" and "num_bytes (entry (inode_of s ip)) = 16 * slots (file_data ip s)"
  using assms by (auto simp: dir_inv_def slots_def)

lemma inode_lookup_spec:
  assumes "dir_inv sb ctx ip s"
  shows "\<exists>s'. inode_lookup sb ip name s =
      (case dir_find (cstr_text name FILE_NAME_MAX_LENGTH) (file_data ip s) of
         None \<Rightarrow> Some (0, None, s')
       | Some k \<Rightarrow> Some (de_inode_no (slot_at (file_data ip s) k), Some (16 * k), s')) \<and>
    same_fs ctx s s'"
  using lookup_loop_spec [OF dir_invD(1) [OF assms] dir_invD(4) [OF assms] refl, of name 0]
    dir_invD(2) [OF assms] by (simp add: inode_lookup_def dir_find_def dir_invD(4) [OF assms])

section \<open>Writing entries\<close>

lemma spans_slot: "spans (16 * k) 16 = 1"
proof -
  have "(16 * k + 15) div 512 = 16 * k div (512 :: nat)"
    using div_mult2_eq [of "16 * k + 15" 16 32] div_mult2_eq [of "16 * k" 16 32] by simp
  then show ?thesis by (simp add: spans_def)
qed

lemma write_slot_spec:
  assumes inv: "dir_inv sb ctx ip s" and j: "j \<le> slots (file_data ip s)" and de: "length de = 16"
    and fits: "16 * Suc j \<le> INODE_MAX_BYTES" and room: "room_for ctx 7"
    and free: "2 \<le> free_count sb (content (bcache s))"
  shows "\<exists>ctx' s'. inode_write sb ctx ip de (16 * j) 16 s = Some (16, ctx', s') \<and>
    file_inv sb ctx' ip s' \<and> itype (entry (inode_of s' ip)) = INODE_DIRECTORY \<and>
    file_data ip s' = put_slot j de (file_data ip s)"
proof -
  have "16 * j \<le> length (file_data ip s)" using j dir_invD(4) [OF inv] by simp
  from inode_write_data [OF dir_invD(1) [OF inv] this, of de] show ?thesis
    using fits room free de dir_invD(2) [OF inv] by (simp add: spans_slot put_slot_def)
qed

lemma put_slot_inv:
  assumes inv: "dir_inv sb ctx ip s" and j: "j \<le> slots (file_data ip s)" and de: "length de = 16"
    and s': "file_inv sb ctx' ip s'" "itype (entry (inode_of s' ip)) = INODE_DIRECTORY"
      "file_data ip s' = put_slot j de (file_data ip s)"
    and uni: "dir_unique (put_slot j de (file_data ip s))"
  shows "dir_inv sb ctx' ip s'"
proof -
  have len: "length (file_data ip s) = 16 * slots (file_data ip s)" using dir_invD(4) [OF inv] by simp
  have "16 dvd length (file_data ip s')" using put_slot_simps(1) [OF len j de] s'(3) by simp
  then have "16 dvd num_bytes (entry (inode_of s' ip))" by simp
  with s' uni show ?thesis by (simp add: dir_inv_def)
qed

lemma encode_dirent_slot:
  assumes "0 < n" and "n < 65536"
  shows "length (encode_dirent n name) = 16" and "de_inode_no (encode_dirent n name) = n"
    and "slot_name (encode_dirent n name) = Some (cstr_text name FILE_NAME_MAX_LENGTH)"
proof -
  show len: "length (encode_dirent n name) = 16" by (simp add: encode_dirent_def)
  show no: "de_inode_no (encode_dirent n name) = n"
    using assms(2) by (simp add: de_inode_no_def encode_dirent_def get_bytes_def le_nat_le_bytes_small)
  have "de_name (encode_dirent n name) i = name i" if "i < FILE_NAME_MAX_LENGTH" for i
    using that by (simp add: de_name_def encode_dirent_def nth_append)
  then have "strncmp (de_name (encode_dirent n name)) name FILE_NAME_MAX_LENGTH = 0"
    by (simp add: strncmp_def strncmp_loop_zero)
  then show "slot_name (encode_dirent n name) = Some (cstr_text name FILE_NAME_MAX_LENGTH)"
    using no assms(1) by (simp add: slot_name_def strncmp_text)
qed

lemma insert_slot:
  assumes len: "length fd = 16 * slots fd" and uni: "dir_unique fd" and None: "dir_find t fd = None"
    and de: "length de = 16" "slot_name de = Some t"
  shows "dir_unique (put_slot (dir_free fd) de fd)"
    and "dir_map (put_slot (dir_free fd) de fd) = (dir_map fd)(t \<mapsto> de_inode_no de)"
proof -
  show uni': "dir_unique (put_slot (dir_free fd) de fd)"
  proof (rule put_slot_unique [OF len dir_free_le de(1) uni])
    show "slot_name (slot_at fd k) \<noteq> Some t'" if "slot_name de = Some t'" "k < slots fd" for t' k
      using None that de(2) by (simp add: dir_find_None)
  qed
  have "dir_map (put_slot (dir_free fd) de fd) =
      (dir_map fd)(t := (if slot_name de = None then None else Some (de_inode_no de)))"
  proof (rule put_slot_map [OF len dir_free_le de(1) uni uni'])
    show "t' = t" if "k < slots fd" "slot_name (slot_at fd k) = Some t'" "k = dir_free fd" for t' k
      using that dir_free_slot [of fd] by simp
    show "dir_map fd t = None" using None by (simp add: dir_map_def)
  qed (simp_all only: de(2) option.simps simp_thms)
  then show "dir_map (put_slot (dir_free fd) de fd) = (dir_map fd)(t \<mapsto> de_inode_no de)"
    by (simp add: de(2))
qed

section \<open>Properties\<close>

text \<open>
  (C20) \<^verbatim>\<open>inode_lookup\<close> implements lookup in the abstract directory: it returns the inode
  number the name is mapped to, 0 when there is none, and the index it stores is the
  offset of the matching entry; the directory and the disk contents are unchanged.
\<close>
theorem inode_lookup_correct:
  assumes "dir_inv sb ctx ip s"
  shows "\<exists>r index s'. inode_lookup sb ip name s = Some (r, index, s') \<and>
    r = (case dir_map (file_data ip s) (cstr_text name FILE_NAME_MAX_LENGTH) of None \<Rightarrow> 0 | Some n \<Rightarrow> n) \<and>
    (r \<noteq> 0 \<longleftrightarrow> dir_map (file_data ip s) (cstr_text name FILE_NAME_MAX_LENGTH) \<noteq> None) \<and>
    index = map_option ((*) 16) (dir_find (cstr_text name FILE_NAME_MAX_LENGTH) (file_data ip s)) \<and>
    dir_inv sb ctx ip s' \<and> file_data ip s' = file_data ip s \<and> content (bcache s') = content (bcache s)"
proof -
  let ?t = "cstr_text name FILE_NAME_MAX_LENGTH"
  obtain s' where s': "inode_lookup sb ip name s = (case dir_find ?t (file_data ip s) of
         None \<Rightarrow> Some (0, None, s')
       | Some k \<Rightarrow> Some (de_inode_no (slot_at (file_data ip s) k), Some (16 * k), s'))" "same_fs ctx s s'"
    using inode_lookup_spec [OF assms] by blast
  have "de_inode_no (slot_at (file_data ip s) k) \<noteq> 0" if "dir_find ?t (file_data ip s) = Some k" for k
    using dir_findD(2) [OF that] by (auto simp: slot_name_def split: if_splits)
  with s'(1) same_fs_view [OF s'(2)] assms show ?thesis
    by (cases "dir_find ?t (file_data ip s)") (auto simp: dir_map_def)
qed

text \<open>
  (C19) \<^verbatim>\<open>inode_insert\<close> implements insertion into the abstract directory. A name that is
  present is reported as a duplicate and nothing changes; a new name is entered in the
  first unused slot, or appended, whose offset is returned, and the directory becomes its
  old map extended by exactly this name; the invariant, uniqueness of names included, is
  kept.
\<close>
theorem inode_insert_correct:
  assumes inv: "dir_inv sb ctx ip s" and n: "0 < n" "n < 65536" and room: "room_for ctx 7"
    and free: "2 \<le> free_count sb (content (bcache s))"
    and fits: "length (file_data ip s) + 16 \<le> INODE_MAX_BYTES"
  shows "\<exists>r ctx' s'. inode_insert sb ctx ip name n s = Some (r, ctx', s') \<and> dir_inv sb ctx' ip s' \<and>
    (if dir_map (file_data ip s) (cstr_text name FILE_NAME_MAX_LENGTH) \<noteq> None
     then r = Duplicate \<and> ctx' = ctx \<and> file_data ip s' = file_data ip s \<and> content (bcache s') = content (bcache s)
     else r = Inserted (16 * dir_free (file_data ip s)) \<and>
       dir_map (file_data ip s') = (dir_map (file_data ip s))(cstr_text name FILE_NAME_MAX_LENGTH \<mapsto> n))"
proof -
  let ?t = "cstr_text name FILE_NAME_MAX_LENGTH" and ?fd = "file_data ip s"
  let ?de = "encode_dirent n (strncpy (\<lambda>_. 0) name FILE_NAME_MAX_LENGTH)" and ?j = "dir_free (file_data ip s)"
  note dir = dir_invD [OF inv]
  obtain s1 where s1: "inode_lookup sb ip name s = (case dir_find ?t ?fd of
         None \<Rightarrow> Some (0, None, s1)
       | Some k \<Rightarrow> Some (de_inode_no (slot_at ?fd k), Some (16 * k), s1))" "same_fs ctx s s1"
    using inode_lookup_spec [OF inv] by blast
  note V = same_fs_view [OF s1(2)]
  show ?thesis
  proof (cases "dir_find ?t ?fd")
    case (Some k)
    then have "de_inode_no (slot_at ?fd k) \<noteq> 0"
      using dir_findD(2) [OF Some] by (auto simp: slot_name_def split: if_splits)
    then have "inode_insert sb ctx ip name n s = Some (Duplicate, ctx, s1)"
      using Some s1(1) dir(2) by (simp add: inode_insert_def)
    with Some V(2,5) V(3) [OF inv] show ?thesis by (simp add: dir_map_def)
  next
    case None
    obtain s2 where s2: "free_slot_loop sb ip (16 * slots ?fd) 0 s1 = Some (16 * ?j, s2)" "same_fs ctx s1 s2"
    proof -
      have "num_bytes (entry (inode_of s1 ip)) = 16 * slots ?fd" unfolding V(4) by (rule dir(4))
      from free_slot_loop_spec [OF V(1) [OF dir(1)] this V(2) [symmetric], of 0] that show thesis
        unfolding dir_free_def by (auto cong: option.case_cong)
    qed
    note V2 = same_fs_view [OF s2(2)]
    have inv2: "dir_inv sb ctx ip s2" "file_data ip s2 = ?fd" "content (bcache s2) = content (bcache s)"
      using V2(3) [OF V(3) [OF inv]] V2(2,5) V(2,5) by simp_all
    have len: "length ?fd = 16 * slots ?fd" using dir(4) by simp
    note de = encode_dirent_slot [OF n, of "strncpy (\<lambda>_. 0) name FILE_NAME_MAX_LENGTH", unfolded strncpy_text]
    obtain ctx' s3 where s3: "inode_write sb ctx ip ?de (16 * ?j) 16 s2 = Some (16, ctx', s3)"
        "file_inv sb ctx' ip s3" "itype (entry (inode_of s3 ip)) = INODE_DIRECTORY" "file_data ip s3 = put_slot ?j ?de ?fd"
      using write_slot_spec [OF inv2(1) _ de(1) _ room, of ?j] dir_free_le [of ?fd] inv2(2,3) free fits len by auto
    note new = insert_slot [OF len dir(3) None de(1,3)]
    have "inode_insert sb ctx ip name n s = Some (Inserted (16 * ?j), ctx', s3)"
      using None s1(1) s2(1) s3(1) dir(2,4) V(4) by (simp add: inode_insert_def)
    moreover have "dir_inv sb ctx' ip s3"
      using put_slot_inv [OF inv2(1) _ de(1) s3(2,3), of ?j] s3(4) inv2(2) dir_free_le [of ?fd] new(1) by simp
    ultimately show ?thesis using None s3(4) de(2) new(2) by (simp add: dir_map_def)
  qed
qed

text \<open>
  (C21) \<^verbatim>\<open>inode_remove\<close> at the index that lookup reports removes exactly that name from the
  abstract directory and keeps the invariant.
\<close>
theorem inode_remove_correct:
  assumes inv: "dir_inv sb ctx ip s" and found: "dir_find t (file_data ip s) = Some k" and room: "room_for ctx 7"
    and free: "2 \<le> free_count sb (content (bcache s))"
  shows "\<exists>ctx' s'. inode_remove sb ctx ip (16 * k) s = Some (ctx', s') \<and> dir_inv sb ctx' ip s' \<and>
    dir_map (file_data ip s') = (dir_map (file_data ip s))(t := None)"
proof -
  let ?fd = "file_data ip s" and ?de = "replicate 16 0 :: u8 list"
  note dir = dir_invD [OF inv] and K = dir_findD [OF found]
  have k: "k \<le> slots ?fd" using K(1) by simp
  have len: "length ?fd = 16 * slots ?fd" and de: "length ?de = 16" "slot_name ?de = None"
    using dir(4) by (simp_all add: slot_name_def de_inode_no_def)
  have "16 * Suc k \<le> 16 * slots ?fd" using K(1) by simp
  also have "\<dots> \<le> INODE_MAX_BYTES" using file_invD(7) [OF dir(1)] dir(4) by simp
  finally obtain ctx' s' where s': "inode_write sb ctx ip ?de (16 * k) 16 s = Some (16, ctx', s')"
      "file_inv sb ctx' ip s'" "itype (entry (inode_of s' ip)) = INODE_DIRECTORY" "file_data ip s' = put_slot k ?de ?fd"
    using write_slot_spec [OF inv k de(1) _ room free] by blast
  have uni: "dir_unique (put_slot k ?de ?fd)"
    using de(2) by (intro put_slot_unique [OF len k de(1) dir(3)]) auto
  have "dir_map (put_slot k ?de ?fd) = (dir_map ?fd)(t := (if slot_name ?de = None then None else Some (de_inode_no ?de)))"
    using K de(2) by (intro put_slot_map [OF len k de(1) dir(3) uni]) auto
  then show ?thesis
    using s' dir(2) de(2) put_slot_inv [OF inv k de(1) s'(2,3,4) uni] by (simp add: inode_remove_def)
qed

section \<open>Examples\<close>

text \<open>The empty directory of eight blocks, and the same one after an insertion.\<close>

lemma demo_dir_inv: "dir_inv demo_fs_sb (Some \<lparr>rm = 10\<rparr>) 0 demo_fs"
  using demo_fs_inv by (simp add: dir_inv_def demo_fs_empty dir_unique_def slots_def)
    (simp add: demo_fs_def zero_entry_def)

theorem inode_lookup_correct_witness:
  "\<exists>s'. inode_lookup demo_fs_sb 0 (\<lambda>i. if i = 0 then 97 else 0) demo_fs = Some (0, None, s')"
  using inode_lookup_correct [OF demo_dir_inv, of "\<lambda>i. if i = 0 then 97 else 0"]
  by (auto simp: demo_fs_empty dir_map_def dir_find_def slots_def)

theorem inode_insert_correct_witness:
  "\<exists>ctx' s'. inode_insert demo_fs_sb (Some \<lparr>rm = 10\<rparr>) 0 (\<lambda>i. if i = 0 then 97 else 0) 2 demo_fs = Some (Inserted 0, ctx', s') \<and>
     dir_map (file_data 0 s') = [cstr_text (\<lambda>i. if i = 0 then 97 else 0) FILE_NAME_MAX_LENGTH \<mapsto> 2]"
proof -
  have "room_for (Some \<lparr>rm = 10\<rparr>) 7" "length (file_data 0 demo_fs) + 16 \<le> INODE_MAX_BYTES"
    by (simp_all add: room_for_def demo_fs_empty)
  from inode_insert_correct [OF demo_dir_inv _ _ this(1) demo_fs_space this(2), of 2 "\<lambda>i. if i = 0 then 97 else 0"]
  show ?thesis by (auto simp: demo_fs_empty dir_map_def [abs_def] dir_find_def slots_def dir_free_def)
qed

text \<open>The same disk with one entry in the directory, stored in block 5.\<close>

definition demo_dir :: inode_state where
  "demo_dir = \<lparr>bcache = cold_cache \<lparr>blocks = (\<lambda>b. if b = 4 then 0x3F # replicate 511 0
       else if b = 5 then [2, 0, 97] @ replicate 509 0 else replicate BLOCK_SIZE 0), history = []\<rparr>,
     inode_of = (\<lambda>_. \<lparr>ilock = 0, rc_count = 1, inode_no = 1, ivalid = True,
       entry = zero_entry\<lparr>itype := 1, num_bytes := 16, addrs := 5 # replicate 11 0\<rparr>\<rparr>),
     ilist = [0], next_inode = 1\<rparr>"

lemma demo_dir_free: "b < 8 \<Longrightarrow> free_block demo_fs_sb (content (bcache demo_dir)) b \<longleftrightarrow> 6 \<le> b"
proof -
  assume "b < 8"
  then consider "b = 0" | "b = 1" | "b = 2" | "b = 3" | "b = 4" | "b = 5" | "b = 6" | "b = 7" by linarith
  then show ?thesis
    by cases (simp_all add: free_block_def bit_clear_def BBLOCK_def demo_fs_sb_def demo_dir_def bit_mask_def)
qed

lemma demo_dir_blk: "blk_of (entry (inode_of demo_dir 0)) C i = (if i = 0 then 5 else 0)" if "i < INODE_MAX_BLOCKS"
  using that by (simp add: blk_of_def demo_dir_def zero_entry_def nth_Cons split: nat.split)

lemma demo_dir_file_inv: "file_inv demo_fs_sb (Some \<lparr>rm = 10\<rparr>) 0 demo_dir"
proof -
  let ?C = "content (bcache demo_dir)" and ?e = "entry (inode_of demo_dir 0)"
  have len: "length (?C b) = BLOCK_SIZE" for b by (simp add: demo_dir_def)
  then have inv: "cache_inv (Some \<lparr>rm = 10\<rparr>) (bcache demo_dir)"
    using cold_cache_inv [of "dev (bcache demo_dir)" "Some \<lparr>rm = 10\<rparr>"] by (simp add: demo_dir_def dev_wf_def)
  have n: "sb_num_blocks demo_fs_sb = 8" by (simp add: demo_fs_sb_def)
  have m: "b \<notin> meta demo_fs_sb" if "5 \<le> b" for b using that demo_meta by auto
  then have disk: "disk_ok demo_fs_sb ?C"
    using demo_dir_free len demo_layout by (auto simp: disk_ok_def n)
  have "data_block demo_fs_sb ?C 5" using m [of 5] demo_dir_free [of 5] by (simp add: data_block_def n)
  moreover have "indirect ?e = 0" "length (addrs ?e) = 12" by (simp_all add: demo_dir_def zero_entry_def)
  ultimately have "file_ok demo_fs_sb ?e ?C" by (auto simp: file_ok_def demo_dir_blk)
  with inv disk show ?thesis
    using demo_dir_blk [of 0 ?C] by (simp add: file_inv_def Let_def idle_def)
      (simp add: demo_dir_def zero_entry_def demo_fs_sb_def)
qed

lemma demo_dir_data: "file_data 0 demo_dir = [2, 0, 97] @ replicate 13 0"
proof -
  have "num_bytes (entry (inode_of demo_dir 0)) = 16" by (simp add: demo_dir_def)
  moreover have "file_byte (entry (inode_of demo_dir 0)) (content (bcache demo_dir)) x = ([2, 0, 97] @ replicate 13 0) ! x"
    if "x < 16" for x
    using that demo_dir_blk [of 0] by (auto simp: file_byte_def Let_def demo_dir_def nth_append nth_Cons split: nat.splits)
  ultimately show ?thesis by (intro nth_equalityI) (auto simp: file_data_def)
qed

theorem inode_remove_correct_witness:
  "\<exists>ctx' s'. inode_remove demo_fs_sb (Some \<lparr>rm = 10\<rparr>) 0 0 demo_dir = Some (ctx', s') \<and>
     dir_map (file_data 0 s') (cstr_text (\<lambda>i. if i = 0 then 97 else 0) FILE_NAME_MAX_LENGTH) = None"
proof -
  let ?t = "cstr_text (\<lambda>i. if i = 0 then 97 else 0 :: u8) FILE_NAME_MAX_LENGTH"
  let ?fd = "file_data 0 demo_dir"
  have one: "slots ?fd = 1" "slot_at ?fd 0 = ?fd" "de_inode_no ?fd = 2"
    by (simp_all add: demo_dir_data slots_def slot_at_def de_inode_no_def get_bytes_def)
  have "strncmp (de_name ?fd) (\<lambda>i. if i = 0 then 97 else 0) FILE_NAME_MAX_LENGTH = 0"
    by (auto simp: strncmp_def strncmp_loop_zero de_name_def demo_dir_data nth_Cons split: nat.splits)
  then have "dir_find ?t ?fd = Some 0" using one by (simp add: dir_find_def slot_name_def strncmp_text)
  moreover have "dir_inv demo_fs_sb (Some \<lparr>rm = 10\<rparr>) 0 demo_dir"
    using demo_dir_file_inv one(1) by (simp add: dir_inv_def dir_unique_def) (simp add: demo_dir_def)
  moreover have "2 \<le> free_count demo_fs_sb (content (bcache demo_dir))"
  proof -
    have "{b. b < sb_num_blocks demo_fs_sb \<and> free_block demo_fs_sb (content (bcache demo_dir)) b} = {6, 7}"
      using demo_dir_free by (auto simp: demo_fs_sb_def)
    then show ?thesis by (simp add: free_count_def)
  qed
  ultimately show ?thesis
    using inode_remove_correct [of demo_fs_sb "Some \<lparr>rm = 10\<rparr>" 0 demo_dir ?t 0] by (auto simp: room_for_def)
qed

end
