(* ===== verification/Semaphore.thy ===== *)
theory Semaphore
  imports Kernel_Prelude
begin

text \<open>
  \<^verbatim>\<open>src/src/common/sem.c\<close>: counting semaphores with a queue of sleepers. A \<^verbatim>\<open>WaitData\<close> is
  named by an identifier; \<open>sleeplist\<close> is the circular list from its head on, so
  \<^verbatim>\<open>_insert_into_list\<close> puts a sleeper at the front and \<^verbatim>\<open>sleeplist.prev\<close> is the last
  element. Each function runs under the semaphore's spin lock and is one step;
  \<^verbatim>\<open>_wait_sem\<close> gives the lock up while the caller sleeps, so it is two steps. A failed
  \<^verbatim>\<open>ASSERT\<close> is \<open>None\<close>.
\<close>

section \<open>Model\<close>

record wait_data =
  up :: bool
  wproc :: nat

record semaphore =
  val :: int
  sleeplist :: "nat list"
  wait_of :: "nat \<Rightarrow> wait_data"
  next_wait :: nat

definition init_sem :: "int \<Rightarrow> semaphore \<Rightarrow> semaphore" where
  "init_sem v s = s\<lparr>val := v, sleeplist := []\<rparr>"

definition get_sem :: "semaphore \<Rightarrow> bool \<times> semaphore" where
  "get_sem s = (if val s > 0 then (True, s\<lparr>val := val s - 1\<rparr>) else (False, s))"

definition query_sem :: "semaphore \<Rightarrow> int" where
  "query_sem s = val s"

definition get_all_sem :: "semaphore \<Rightarrow> int \<times> semaphore" where
  "get_all_sem s = (if val s > 0 then (val s, s\<lparr>val := 0\<rparr>) else (0, s))"

text \<open>\<^verbatim>\<open>_post_sem\<close> returns the process it activates, if any.\<close>

definition post_sem :: "semaphore \<Rightarrow> (nat option \<times> semaphore) option" where
  "post_sem s =
     (let s = s\<lparr>val := val s + 1\<rparr> in
      if val s \<le> 0 then
        if sleeplist s = [] then None
        else
          let w = last (sleeplist s);
              x = (wait_of s w)\<lparr>up := True\<rparr>
          in Some (Some (wproc x), s\<lparr>wait_of := (wait_of s)(w := x), sleeplist := butlast (sleeplist s)\<rparr>)
      else Some (None, s))"

lemma post_sem_val: "post_sem s = Some (p, s') \<Longrightarrow> val s' = val s + 1"
  by (auto simp: post_sem_def Let_def split: if_splits)

text \<open>The \<^verbatim>\<open>do ... while\<close> loop of \<^verbatim>\<open>post_all_sem\<close>, collecting the processes it activates.\<close>

function post_all_loop :: "int \<Rightarrow> nat list \<Rightarrow> semaphore \<Rightarrow> (int \<times> nat list \<times> semaphore) option" where
  "post_all_loop ret acts s =
     (case post_sem s of
        None \<Rightarrow> None
      | Some (p, s1) \<Rightarrow>
          let acts = (case p of None \<Rightarrow> acts | Some q \<Rightarrow> acts @ [q]) in
          if val s1 > 0 then Some (ret + 1, acts, snd (get_sem s1))
          else post_all_loop (ret + 1) acts s1)"
  by pat_completeness auto
termination
  by (relation "measure (\<lambda>(ret, acts, s). nat (1 - val s))") (auto dest: post_sem_val)

declare post_all_loop.simps [simp del]

definition post_all_sem :: "semaphore \<Rightarrow> (int \<times> nat list \<times> semaphore) option" where
  "post_all_sem s = post_all_loop (-1) [] s"

text \<open>
  \<^verbatim>\<open>_wait_sem\<close> up to the call of \<^verbatim>\<open>sched\<close>: it returns at once, or it queues a fresh
  \<^verbatim>\<open>WaitData\<close> and sleeps on it.
\<close>

datatype wait_result = Acquired | Sleeps nat

definition wait_sem_enter :: "nat \<Rightarrow> semaphore \<Rightarrow> wait_result \<times> semaphore" where
  "wait_sem_enter p s =
     (let s = s\<lparr>val := val s - 1\<rparr> in
      if val s \<ge> 0 then (Acquired, s)
      else
        let w = next_wait s in
        (Sleeps w, s\<lparr>wait_of := (wait_of s)(w := \<lparr>up = False, wproc = p\<rparr>), next_wait := w + 1,
           sleeplist := w # sleeplist s\<rparr>))"

text \<open>After the sleep: if no post has woken the caller up, it withdraws from the queue.\<close>

definition wait_sem_resume :: "nat \<Rightarrow> semaphore \<Rightarrow> (bool \<times> semaphore) option" where
  "wait_sem_resume w s =
     (if up (wait_of s w) then Some (True, s)
      else
        let s = s\<lparr>val := val s + 1\<rparr> in
        if val s \<le> 0 then Some (False, s\<lparr>sleeplist := remove1 w (sleeplist s)\<rparr>) else None)"

section \<open>A semaphore and its clients\<close>

text \<open>
  Processes use one semaphore. \<open>asleep p\<close> is the wait data process \<open>p\<close> sleeps on;
  \<open>permits\<close> counts how often a permit has been taken so far (by \<^verbatim>\<open>get_sem\<close>,
  \<^verbatim>\<open>get_all_sem\<close>, an immediate wait or a post that woke a sleeper up) and \<open>posts\<close> how many
  have been posted.
\<close>

record sem_sys =
  sem :: semaphore
  asleep :: "nat \<rightharpoonup> nat"
  permits :: int
  posts :: int
  initial :: int

inductive sem_step :: "sem_sys \<Rightarrow> sem_sys \<Rightarrow> bool" where
  get_step: "get_sem (sem S) = (r, s') \<Longrightarrow>
    sem_step S (S\<lparr>sem := s', permits := permits S + (if r then 1 else 0)\<rparr>)"
| get_all_step: "get_all_sem (sem S) = (n, s') \<Longrightarrow> sem_step S (S\<lparr>sem := s', permits := permits S + n\<rparr>)"
| post_step: "post_sem (sem S) = Some (p, s') \<Longrightarrow>
    sem_step S (S\<lparr>sem := s', posts := posts S + 1, permits := permits S + (if p = None then 0 else 1)\<rparr>)"
| post_all_step: "post_all_sem (sem S) = Some (n, acts, s') \<Longrightarrow>
    sem_step S (S\<lparr>sem := s', posts := posts S + n, permits := permits S + int (length acts)\<rparr>)"
| acquire_step: "asleep S p = None \<Longrightarrow> wait_sem_enter p (sem S) = (Acquired, s') \<Longrightarrow>
    sem_step S (S\<lparr>sem := s', permits := permits S + 1\<rparr>)"
| sleep_step: "asleep S p = None \<Longrightarrow> wait_sem_enter p (sem S) = (Sleeps w, s') \<Longrightarrow>
    sem_step S (S\<lparr>sem := s', asleep := (asleep S)(p \<mapsto> w)\<rparr>)"
| resume_step: "asleep S p = Some w \<Longrightarrow> wait_sem_resume w (sem S) = Some (r, s') \<Longrightarrow>
    sem_step S (S\<lparr>sem := s', asleep := (asleep S)(p := None)\<rparr>)"

inductive sem_reachable :: "int \<Rightarrow> sem_sys \<Rightarrow> bool" for v where
  sem_start: "v \<ge> 0 \<Longrightarrow>
    sem_reachable v \<lparr>sem = init_sem v s, asleep = Map.empty, permits = 0, posts = 0, initial = v\<rparr>"
| sem_next: "sem_reachable v S \<Longrightarrow> sem_step S S' \<Longrightarrow> sem_reachable v S'"

inductive_cases sem_stepE: "sem_step S S'"

section \<open>The queue invariant\<close>

definition sem_wf :: "semaphore \<Rightarrow> bool" where
  "sem_wf s \<longleftrightarrow> int (length (sleeplist s)) = max 0 (- val s) \<and> sorted_wrt (>) (sleeplist s) \<and>
     (\<forall>w \<in> set (sleeplist s). w < next_wait s \<and> \<not> up (wait_of s w))"

definition sem_sys_inv :: "sem_sys \<Rightarrow> bool" where
  "sem_sys_inv S \<longleftrightarrow> sem_wf (sem S) \<and>
     (\<forall>p w. asleep S p = Some w \<longrightarrow> w < next_wait (sem S) \<and> wproc (wait_of (sem S) w) = p \<and>
        (up (wait_of (sem S) w) \<or> w \<in> set (sleeplist (sem S)))) \<and>
     (\<forall>w \<in> set (sleeplist (sem S)). asleep S (wproc (wait_of (sem S) w)) = Some w) \<and>
     permits S + max 0 (val (sem S)) = initial S + posts S"

lemma post_sem_wf:
  assumes "sem_wf s"
  shows "\<exists>p s'. post_sem s = Some (p, s') \<and> sem_wf s' \<and> next_wait s' = next_wait s \<and>
    (if val s \<ge> 0 then p = None \<and> s' = s\<lparr>val := val s + 1\<rparr>
     else p = Some (wproc (wait_of s (last (sleeplist s)))) \<and> sleeplist s \<noteq> [] \<and>
       s' = s\<lparr>val := val s + 1, sleeplist := butlast (sleeplist s),
         wait_of := (wait_of s)(last (sleeplist s) := (wait_of s (last (sleeplist s)))\<lparr>up := True\<rparr>)\<rparr>)"
proof (cases "val s \<ge> 0")
  case True
  then show ?thesis using assms by (auto simp: post_sem_def sem_wf_def Let_def)
next
  case False
  then have ne: "sleeplist s \<noteq> []" using assms by (auto simp: sem_wf_def)
  then obtain ws w where sl: "sleeplist s = ws @ [w]" by (cases "sleeplist s" rule: rev_cases) auto
  then show ?thesis using False assms by (auto simp: post_sem_def sem_wf_def Let_def sorted_wrt_append)
qed

lemma sem_wf_distinct: "sem_wf s \<Longrightarrow> distinct (sleeplist s)"
  using strict_sorted_iff [of "rev (sleeplist s)"] by (simp add: sem_wf_def sorted_wrt_rev)

definition wake_all :: "semaphore \<Rightarrow> semaphore" where
  "wake_all s = s\<lparr>val := max 0 (val s), sleeplist := [],
     wait_of := (\<lambda>w. if w \<in> set (sleeplist s) then (wait_of s w)\<lparr>up := True\<rparr> else wait_of s w)\<rparr>"

lemma post_all_loop_eq:
  assumes "sem_wf s"
  shows "post_all_loop ret acts s =
    Some (ret + 1 + int (length (sleeplist s)), acts @ map (\<lambda>w. wproc (wait_of s w)) (rev (sleeplist s)), wake_all s)"
  using assms
proof (induction "length (sleeplist s)" arbitrary: s ret acts)
  case 0
  then have v: "val s \<ge> 0" by (simp add: sem_wf_def)
  obtain p s' where "post_sem s = Some (p, s')" "p = None" "s' = s\<lparr>val := val s + 1\<rparr>"
    using post_sem_wf [OF 0(2)] v by auto
  then show ?case using 0 v by (subst post_all_loop.simps) (simp add: get_sem_def wake_all_def)
next
  case (Suc n)
  then have v: "val s < 0" using Suc.prems by (auto simp: sem_wf_def)
  then obtain p s1 where s1: "post_sem s = Some (p, s1)" "sem_wf s1" "p = Some (wproc (wait_of s (last (sleeplist s))))"
      "s1 = s\<lparr>val := val s + 1, sleeplist := butlast (sleeplist s),
         wait_of := (wait_of s)(last (sleeplist s) := (wait_of s (last (sleeplist s)))\<lparr>up := True\<rparr>)\<rparr>"
    using post_sem_wf [OF Suc.prems] by auto
  obtain ws w where sl: "sleeplist s = ws @ [w]" using Suc.hyps(2) by (cases "sleeplist s" rule: rev_cases) auto
  then have w: "w \<notin> set ws" using sem_wf_distinct [OF Suc.prems] by simp
  have n: "n = length (sleeplist s1)" using s1(4) sl Suc.hyps(2) by simp
  have "post_all_loop ret acts s = post_all_loop (ret + 1) (acts @ [wproc (wait_of s w)]) s1"
    using s1 v sl by (subst post_all_loop.simps) simp
  also have "\<dots> = Some (ret + 1 + 1 + int (length (sleeplist s1)),
      (acts @ [wproc (wait_of s w)]) @ map (\<lambda>w. wproc (wait_of s1 w)) (rev (sleeplist s1)), wake_all s1)"
    by (rule Suc.hyps(1) [OF n s1(2)])
  also have "map (\<lambda>w. wproc (wait_of s1 w)) (rev (sleeplist s1)) = map (\<lambda>w. wproc (wait_of s w)) (rev ws)"
    using s1(4) sl w by simp
  also have "wake_all s1 = wake_all s"
    using s1(4) sl v w by (auto simp: wake_all_def fun_eq_iff)
  finally show ?case using sl n Suc.hyps(2) by simp
qed

lemma post_all_sem_eq:
  assumes "sem_wf s"
  shows "post_all_sem s = Some (int (length (sleeplist s)), map (\<lambda>w. wproc (wait_of s w)) (rev (sleeplist s)), wake_all s)"
  using post_all_loop_eq [OF assms, of "-1" "[]"] by (simp add: post_all_sem_def)

lemma sem_sys_invD:
  assumes "sem_sys_inv S"
  shows "sem_wf (sem S)"
    and "asleep S p = Some w \<Longrightarrow> w < next_wait (sem S)"
    and "asleep S p = Some w \<Longrightarrow> wproc (wait_of (sem S) w) = p"
    and "asleep S p = Some w \<Longrightarrow> up (wait_of (sem S) w) \<or> w \<in> set (sleeplist (sem S))"
    and "w \<in> set (sleeplist (sem S)) \<Longrightarrow> asleep S (wproc (wait_of (sem S) w)) = Some w"
    and "permits S + max 0 (val (sem S)) = initial S + posts S"
  using assms by (auto simp: sem_sys_inv_def)

lemma sleep_inv:
  assumes inv: "sem_sys_inv S" and p: "asleep S p = None" and enter: "wait_sem_enter p (sem S) = (Sleeps w, s')"
  shows "sem_sys_inv (S\<lparr>sem := s', asleep := (asleep S)(p \<mapsto> w)\<rparr>)"
proof -
  let ?n = "next_wait (sem S)"
  note I = sem_sys_invD [OF inv]
  have s': "w = ?n" "val (sem S) \<le> 0" "s' = (sem S)\<lparr>val := val (sem S) - 1, sleeplist := ?n # sleeplist (sem S),
      wait_of := (wait_of (sem S))(?n := \<lparr>up = False, wproc = p\<rparr>), next_wait := Suc ?n\<rparr>"
    using enter by (auto simp: wait_sem_enter_def Let_def split: if_splits)
  have lt: "x < ?n" if "x \<in> set (sleeplist (sem S))" for x using I(1) that by (simp add: sem_wf_def)
  then have "sem_wf s'" using I(1) s' by (auto simp: sem_wf_def intro: less_SucI)
  moreover have "x < Suc ?n \<and> wproc (wait_of s' x) = q \<and> (up (wait_of s' x) \<or> x \<in> set (sleeplist s'))"
    if "((asleep S)(p \<mapsto> w)) q = Some x" for q x
    using that I(2) [of q x] I(3,4) [of q x] s' by (auto split: if_splits)
  moreover have "((asleep S)(p \<mapsto> w)) (wproc (wait_of s' x)) = Some x" if "x \<in> set (sleeplist s')" for x
    using that lt [of x] I(5) [of x] p s' by auto
  ultimately show ?thesis using I(6) s'(2,3) unfolding sem_sys_inv_def by simp
qed

lemma withdraw_wf:
  assumes wf: "sem_wf s" and w: "w \<in> set (sleeplist s)"
  shows "sem_wf (s\<lparr>val := val s + 1, sleeplist := remove1 w (sleeplist s)\<rparr>)" (is "sem_wf ?s")
    and "set (remove1 w (sleeplist s)) = set (sleeplist s) - {w}" and "val s < 0"
proof -
  have rm: "remove1 w (sleeplist s) = filter ((\<noteq>) w) (sleeplist s)"
    using sem_wf_distinct [OF wf] by (rule distinct_remove1_removeAll [THEN trans]) (simp add: removeAll_filter_not_eq)
  have len: "length (remove1 w (sleeplist s)) = length (sleeplist s) - 1"
    using w by (simp add: length_remove1)
  have pos: "0 < length (sleeplist s)" using w by (cases "sleeplist s") auto
  have v: "int (length (sleeplist s)) = max 0 (- val s)" using wf by (simp add: sem_wf_def)
  with pos show neg: "val s < 0" by linarith
  have "int (length (remove1 w (sleeplist s))) = max 0 (- (val s + 1))" using v len pos by linarith
  with wf show "sem_wf ?s" by (simp add: sem_wf_def rm sorted_wrt_filter)
  show "set (remove1 w (sleeplist s)) = set (sleeplist s) - {w}" by (auto simp: rm)
qed

lemma resume_inv:
  assumes inv: "sem_sys_inv S" and p: "asleep S p = Some w" and resume: "wait_sem_resume w (sem S) = Some (r, s')"
  shows "sem_sys_inv (S\<lparr>sem := s', asleep := (asleep S)(p := None)\<rparr>)"
proof -
  note I = sem_sys_invD [OF inv]
  have np: "wproc (wait_of (sem S) x) \<noteq> p" if "x \<in> set (sleeplist (sem S))" "x \<noteq> w" for x
    using I(5) [OF that(1)] p that(2) by auto
  show ?thesis
  proof (cases "up (wait_of (sem S) w)")
    case True
    then have s': "s' = sem S" using resume by (simp add: wait_sem_resume_def)
    have "w \<notin> set (sleeplist (sem S))" using True I(1) by (auto simp: sem_wf_def)
    then show ?thesis using inv np s' unfolding sem_sys_inv_def by auto
  next
    case False
    then have w: "w \<in> set (sleeplist (sem S))" using I(4) [OF p] by simp
    note W = withdraw_wf [OF I(1) w]
    have s': "s' = (sem S)\<lparr>val := val (sem S) + 1, sleeplist := remove1 w (sleeplist (sem S))\<rparr>"
      using False resume by (auto simp: wait_sem_resume_def Let_def split: if_splits)
    have "x \<noteq> w" if "asleep S q = Some x" "q \<noteq> p" for q x using I(3) [OF that(1)] I(3) [OF p] that(2) by auto
    with I(2-4) have "x < next_wait (sem S) \<and> wproc (wait_of (sem S) x) = q \<and>
        (up (wait_of (sem S) x) \<or> x \<in> set (sleeplist (sem S)) - {w})"
      if "((asleep S)(p := None)) q = Some x" for q x using that by (auto split: if_splits)
    moreover have "((asleep S)(p := None)) (wproc (wait_of (sem S) x)) = Some x" if "x \<in> set (sleeplist (sem S)) - {w}" for x
      using that np [of x] I(5) [of x] by simp
    ultimately show ?thesis using W I(6) unfolding sem_sys_inv_def s' by simp
  qed
qed

lemma sem_step_inv:
  assumes "sem_sys_inv S" and "sem_step S S'"
  shows "sem_sys_inv S'"
proof -
  have wf: "sem_wf (sem S)" using assms(1) by (simp add: sem_sys_inv_def)
  from assms(2) show ?thesis
  proof cases
    case (get_step r s')
    then show ?thesis using assms(1) by (auto simp: get_sem_def sem_sys_inv_def sem_wf_def split: if_splits)
  next
    case (get_all_step n s')
    then show ?thesis using assms(1) by (auto simp: get_all_sem_def sem_sys_inv_def sem_wf_def split: if_splits)
  next
    case (post_step p s')
    show ?thesis
    proof (cases "val (sem S) \<ge> 0")
      case True
      then show ?thesis using post_step post_sem_wf [OF wf] assms(1) by (auto simp: sem_sys_inv_def)
    next
      case False
      obtain ws w where sl: "sleeplist (sem S) = ws @ [w]"
        using False post_sem_wf [OF wf] by (cases "sleeplist (sem S)" rule: rev_cases) auto
      have "w \<notin> set ws" using sem_wf_distinct [OF wf] sl by simp
      with False post_step post_sem_wf [OF wf] assms(1) sl show ?thesis by (auto simp: sem_sys_inv_def)
    qed
  next
    case (post_all_step n acts s')
    then have "n = int (length (sleeplist (sem S)))" "length acts = length (sleeplist (sem S))" "s' = wake_all (sem S)"
      using post_all_sem_eq [OF wf] by auto
    with post_all_step(1) assms(1) show ?thesis by (auto simp: sem_sys_inv_def sem_wf_def wake_all_def)
  next
    case (acquire_step p s')
    then show ?thesis using assms(1) by (auto simp: wait_sem_enter_def sem_sys_inv_def sem_wf_def Let_def split: if_splits)
  next
    case (sleep_step p w s')
    then show ?thesis using sleep_inv [OF assms(1)] by simp
  next
    case (resume_step p w r s')
    then show ?thesis using resume_inv [OF assms(1)] by simp
  qed
qed

lemma sem_start_inv:
  "v \<ge> 0 \<Longrightarrow> sem_sys_inv \<lparr>sem = init_sem v s, asleep = Map.empty, permits = 0, posts = 0, initial = v\<rparr>"
  by (simp add: sem_sys_inv_def sem_wf_def init_sem_def)

lemma sem_reachable_inv: "sem_reachable v S \<Longrightarrow> sem_sys_inv S \<and> initial S = v"
proof (induction rule: sem_reachable.induct)
  case (sem_start s)
  then show ?case using sem_start_inv by simp
next
  case (sem_next S S')
  then have "initial S' = initial S" by (auto elim: sem_step.cases)
  with sem_next sem_step_inv show ?case by auto
qed

section \<open>Properties\<close>

text \<open>
  (C24) The assertions of the semaphore never fail and its count is exact. In every
  interleaving of operations from a fresh semaphore the queue holds as many sleepers as
  the value is below zero, so \<^verbatim>\<open>_post_sem\<close> finds a sleeper whenever it looks for one,
  \<^verbatim>\<open>post_all_sem\<close> terminates, and a sleeper woken by something else can withdraw; and
  permits are conserved: those taken plus those left are the initial ones plus those
  posted.
\<close>
theorem sem_asserts_hold:
  assumes "sem_reachable v S"
  shows "post_sem (sem S) \<noteq> None \<and> post_all_sem (sem S) \<noteq> None \<and>
    (asleep S p = Some w \<longrightarrow> wait_sem_resume w (sem S) \<noteq> None) \<and>
    int (length (sleeplist (sem S))) = max 0 (- val (sem S)) \<and>
    permits S + max 0 (val (sem S)) = v + posts S"
proof -
  have inv: "sem_sys_inv S" "initial S = v" using sem_reachable_inv [OF assms] by auto
  then have wf: "sem_wf (sem S)" by (simp add: sem_sys_inv_def)
  have "wait_sem_resume w (sem S) \<noteq> None" if "asleep S p = Some w"
  proof (cases "up (wait_of (sem S) w)")
    case False
    then have "w \<in> set (sleeplist (sem S))" using inv(1) that by (auto simp: sem_sys_inv_def)
    then have "0 < length (sleeplist (sem S))" by (cases "sleeplist (sem S)") auto
    moreover have "int (length (sleeplist (sem S))) = max 0 (- val (sem S))" using wf by (simp add: sem_wf_def)
    ultimately have "val (sem S) + 1 \<le> 0" by linarith
    then show ?thesis using False by (simp add: wait_sem_resume_def Let_def)
  qed (simp add: wait_sem_resume_def)
  then show ?thesis
    using inv post_sem_wf [OF wf] post_all_sem_eq [OF wf] by (auto simp: sem_sys_inv_def sem_wf_def)
qed

text \<open>
  A semaphore used as a sleep lock (\<^verbatim>\<open>init_sleeplock\<close> starts it at 1) excludes: the
  lock has been granted at most once more than it has been released, so at most one
  process holds it, and it is granted to nobody only if the value says it is free.
\<close>
theorem sleeplock_mutex:
  assumes "sem_reachable 1 S"
  shows "permits S - posts S \<le> 1 \<and> (0 < val (sem S) \<longleftrightarrow> permits S - posts S < 1)"
  using sem_reachable_inv [OF assms] by (auto simp: sem_sys_inv_def)

text \<open>
  Posting is first come, first served: a post on a semaphore with sleepers wakes the
  one that went to sleep first, and marks exactly this one as woken; \<^verbatim>\<open>post_all_sem\<close>
  wakes all sleepers in the order they went to sleep, returns their number and leaves a
  non-negative value as it was.
\<close>
theorem sem_fifo:
  assumes "sem_reachable v S" and "val (sem S) < 0"
  shows "(\<exists>w s'. post_sem (sem S) = Some (Some (wproc (wait_of (sem S) w)), s') \<and> w \<in> set (sleeplist (sem S)) \<and>
      (\<forall>w' \<in> set (sleeplist (sem S)). w \<le> w') \<and>
      (\<forall>w'. up (wait_of s' w') \<longleftrightarrow> w' = w \<or> up (wait_of (sem S) w'))) \<and>
    post_all_sem (sem S) = Some (int (length (sleeplist (sem S))),
      map (\<lambda>w. wproc (wait_of (sem S) w)) (rev (sleeplist (sem S))), wake_all (sem S)) \<and>
    sorted (rev (sleeplist (sem S)))"
proof -
  have wf: "sem_wf (sem S)" using sem_reachable_inv [OF assms(1)] by (simp add: sem_sys_inv_def)
  have srt: "sorted (rev (sleeplist (sem S)))"
    using wf strict_sorted_iff [of "rev (sleeplist (sem S))"] by (simp add: sem_wf_def sorted_wrt_rev)
  let ?w = "last (sleeplist (sem S))"
  obtain s' where s': "post_sem (sem S) = Some (Some (wproc (wait_of (sem S) ?w)), s')" "sleeplist (sem S) \<noteq> []"
      "wait_of s' = (wait_of (sem S))(?w := (wait_of (sem S) ?w)\<lparr>up := True\<rparr>)"
    using post_sem_wf [OF wf] assms(2) by auto
  obtain ws where "sleeplist (sem S) = ws @ [?w]" using s'(2) by (metis append_butlast_last_id)
  then have "rev (sleeplist (sem S)) = ?w # rev ws" by (metis rev.simps(1,2) rev_append append_Cons append_Nil)
  with srt have "\<forall>w' \<in> set (sleeplist (sem S)). ?w \<le> w'"
    by (metis set_rev set_ConsD sorted_simps(2) order_refl)
  with s' have "\<exists>w s'. post_sem (sem S) = Some (Some (wproc (wait_of (sem S) w)), s') \<and> w \<in> set (sleeplist (sem S)) \<and>
      (\<forall>w' \<in> set (sleeplist (sem S)). w \<le> w') \<and> (\<forall>w'. up (wait_of s' w') \<longleftrightarrow> w' = w \<or> up (wait_of (sem S) w'))"
    by (intro exI [of _ ?w] exI [of _ s']) auto
  with post_all_sem_eq [OF wf] srt show ?thesis by blast
qed

section \<open>Examples\<close>

text \<open>A lock that process 7 holds and processes 8 and 9, in this order, sleep on.\<close>

definition demo_sem0 :: semaphore where
  "demo_sem0 = \<lparr>val = 0, sleeplist = [], wait_of = (\<lambda>_. \<lparr>up = False, wproc = 0\<rparr>), next_wait = 0\<rparr>"

definition demo_unlocked :: sem_sys where
  "demo_unlocked = \<lparr>sem = init_sem 1 demo_sem0, asleep = Map.empty, permits = 0, posts = 0, initial = 1\<rparr>"

definition demo_held :: sem_sys where
  "demo_held = demo_unlocked\<lparr>sem := snd (wait_sem_enter 7 (sem demo_unlocked)), permits := permits demo_unlocked + 1\<rparr>"

definition demo_one :: sem_sys where
  "demo_one = demo_held\<lparr>sem := snd (wait_sem_enter 8 (sem demo_held)), asleep := (asleep demo_held)(8 \<mapsto> 0)\<rparr>"

definition demo_sem :: sem_sys where
  "demo_sem = demo_one\<lparr>sem := snd (wait_sem_enter 9 (sem demo_one)), asleep := (asleep demo_one)(9 \<mapsto> 1)\<rparr>"

lemmas demo_sem_defs = demo_sem_def demo_one_def demo_held_def demo_unlocked_def demo_sem0_def init_sem_def
  wait_sem_enter_def Let_def

lemma demo_sem_reachable: "sem_reachable 1 demo_sem"
proof -
  have 0: "sem_reachable 1 demo_unlocked"
    unfolding demo_unlocked_def by (rule sem_start) simp
  have 1: "sem_reachable 1 demo_held"
    unfolding demo_held_def by (rule sem_next [OF 0 acquire_step [where p = 7]]) (simp_all add: demo_sem_defs)
  have 2: "sem_reachable 1 demo_one"
    unfolding demo_one_def by (rule sem_next [OF 1 sleep_step]) (simp_all add: demo_sem_defs)
  show ?thesis
    unfolding demo_sem_def by (rule sem_next [OF 2 sleep_step]) (simp_all add: demo_sem_defs)
qed

lemma demo_sem_val: "val (sem demo_sem) = -2" "permits demo_sem = 1" "posts demo_sem = 0"
  "sleeplist (sem demo_sem) = [1, 0]"
  by (simp_all add: demo_sem_defs)

theorem sem_asserts_hold_witness:
  "post_sem (sem demo_sem) \<noteq> None \<and> wait_sem_resume 0 (sem demo_sem) \<noteq> None \<and> permits demo_sem = 1"
  using sem_asserts_hold [OF demo_sem_reachable, of 8 0] by (simp add: demo_sem_val(2)) (simp add: demo_sem_defs)

theorem sleeplock_mutex_witness: "permits demo_sem - posts demo_sem = 1"
  using sleeplock_mutex [OF demo_sem_reachable] by (simp add: demo_sem_val)

theorem sem_fifo_witness:
  "post_all_sem (sem demo_sem) = Some (2, [8, 9], wake_all (sem demo_sem))"
proof -
  have "wproc (wait_of (sem demo_sem) 0) = 8" "wproc (wait_of (sem demo_sem) 1) = 9"
    by (simp_all add: demo_sem_defs)
  with sem_fifo [OF demo_sem_reachable] show ?thesis by (simp add: demo_sem_val)
qed

end
