(* ===== verification/Format.thy ===== *)
theory Format
  imports Kernel_Prelude
begin

text \<open>
  \<^verbatim>\<open>src/src/common/format.c\<close>: formatted output. The characters passed to \<^verbatim>\<open>put_char\<close> are
  collected in a string. A format is a C string without its terminator; the variadic
  arguments are a list of 64-bit values and string pointers (\<open>None\<close> is the null pointer),
  and reading an argument that is missing or of the wrong kind, which C leaves undefined,
  is \<open>None\<close>.
\<close>

section \<open>Model\<close>

definition digit :: string where
  "digit = ''0123456789abcdef''"

text \<open>The first loop of \<^verbatim>\<open>_print_int\<close> fills the buffer with the digits, lowest first. The base is
  10 or 16; with a base below 2 the loop would not end, and the model stops after one digit.\<close>

function print_digits :: "64 word \<Rightarrow> 64 word \<Rightarrow> string" where
  "print_digits base v =
     digit ! unat (v mod base) #
     (if 2 \<le> unat base \<and> v div base \<noteq> 0 then print_digits base (v div base) else [])"
  by pat_completeness auto
termination
proof (relation "measure (\<lambda>(base, v). unat v)")
  fix base v :: "64 word"
  assume "2 \<le> unat base \<and> v div base \<noteq> 0"
  then have "1 < unat base" and "unat v \<noteq> 0" by (auto simp: unat_eq_0)
  then show "((base, v div base), (base, v)) \<in> measure (\<lambda>(base, v). unat v)"
    by (simp add: unat_div)
qed simp

declare print_digits.simps [simp del]

definition print_int :: "64 word \<Rightarrow> 64 word \<Rightarrow> bool \<Rightarrow> string" where
  "print_int u base is_signed =
     (let neg = is_signed \<and> u <s 0;
          v = (if neg then - u else u)
      in (if neg then ''-'' else '''') @ rev (print_digits base v))"

datatype va_arg = VInt "64 word" | VStr "string option"

text \<open>\<^verbatim>\<open>(i64) va_arg(arg, type)\<close> for the integer types of the format.\<close>

datatype int_type = U32 | I32 | W64

fun va_int :: "int_type \<Rightarrow> va_arg list \<Rightarrow> (64 word \<times> va_arg list) option" where
  "va_int ty (VInt w # arg) = Some
     ((case ty of U32 \<Rightarrow> ucast (ucast w :: 32 word) | I32 \<Rightarrow> scast (ucast w :: 32 word) | W64 \<Rightarrow> w), arg)"
| "va_int ty _ = None"

fun va_str :: "va_arg list \<Rightarrow> (string option \<times> va_arg list) option" where
  "va_str (VStr s # arg) = Some (s, arg)"
| "va_str _ = None"

text \<open>The instances of \<^verbatim>\<open>_INT_CASE\<close>, in the order of the code.\<close>

definition int_cases :: "(string \<times> int_type \<times> 64 word \<times> bool) list" where
  "int_cases = [(''u'', U32, 10, False), (''llu'', W64, 10, False), (''d'', I32, 10, True),
     (''lld'', W64, 10, True), (''x'', U32, 16, False), (''llx'', W64, 16, False),
     (''p'', W64, 16, False), (''zu'', W64, 10, False), (''zd'', W64, 10, True)]"

text \<open>\<^verbatim>\<open>strncmp(pos, ident, sizeof(ident) - 1) == 0\<close> for an identifier without terminator.\<close>

fun starts_with :: "string \<Rightarrow> string \<Rightarrow> bool" where
  "starts_with pos [] = True"
| "starts_with [] (d # ds) = False"
| "starts_with (c # cs) (d # ds) = (c = d \<and> starts_with cs ds)"

function vformat :: "string \<Rightarrow> va_arg list \<Rightarrow> string option" where
  "vformat pos arg =
     (case pos of
        [] \<Rightarrow> Some []
      | c # pos \<Rightarrow>
          if c = CHR ''%'' then
            if starts_with pos ''%'' then map_option ((@) ''%'') (vformat (drop 1 pos) arg)
            else if starts_with pos ''c'' then
              case va_int I32 arg of
                None \<Rightarrow> None
              | Some (w, arg) \<Rightarrow> map_option ((@) [char_of (unat w)]) (vformat (drop 1 pos) arg)
            else if starts_with pos ''s'' then
              case va_str arg of
                None \<Rightarrow> None
              | Some (s, arg) \<Rightarrow>
                  map_option ((@) (case s of None \<Rightarrow> ''(null)'' | Some s \<Rightarrow> s)) (vformat (drop 1 pos) arg)
            else
              case List.find (\<lambda>(ident, _). starts_with pos ident) int_cases of
                Some (ident, ty, base, sign) \<Rightarrow>
                  (case va_int ty arg of
                     None \<Rightarrow> None
                   | Some (w, arg) \<Rightarrow>
                       map_option ((@) (print_int w base sign)) (vformat (drop (length ident) pos) arg))
              | None \<Rightarrow> map_option ((@) [c]) (vformat pos arg)
          else map_option ((@) [c]) (vformat pos arg))"
  by pat_completeness auto
termination by (relation "measure (\<lambda>(pos, arg). length pos)") auto

declare vformat.simps [simp del]

section \<open>Numbers\<close>

text \<open>The value of a digit string, lowest digit first.\<close>

definition digit_val :: "char \<Rightarrow> nat" where
  "digit_val c = length (takeWhile ((\<noteq>) c) digit)"

fun digits_val :: "nat \<Rightarrow> string \<Rightarrow> nat" where
  "digits_val b [] = 0"
| "digits_val b (c # cs) = digit_val c + b * digits_val b cs"

text \<open>Reading a number back, with an optional sign.\<close>

definition parse_int :: "nat \<Rightarrow> string \<Rightarrow> int" where
  "parse_int b s =
     (if s \<noteq> [] \<and> hd s = CHR ''-'' then - int (digits_val b (rev (tl s))) else int (digits_val b (rev s)))"

lemma digit_simps [simp]: "length digit = 16" "CHR ''-'' \<notin> set digit"
  by (simp_all add: digit_def)

lemma digit_val_digit: "i < 16 \<Longrightarrow> digit_val (digit ! i) = i"
proof -
  assume "i < 16"
  then have "i \<in> set [0..<16]" by simp
  moreover have "\<forall>i \<in> set [0..<16]. digit_val (digit ! i) = i" by (simp add: digit_val_def digit_def upt_rec)
  ultimately show ?thesis by blast
qed

lemma print_digits_val:
  assumes "2 \<le> unat base" and "unat base \<le> 16"
  shows "digits_val (unat base) (print_digits base v) = unat v"
  using assms
proof (induction base v rule: print_digits.induct)
  case (1 base v)
  have "unat (v mod base) < unat base" using 1(2) by (simp add: unat_mod)
  then have "digit_val (digit ! unat (v mod base)) = unat v mod unat base"
    using 1(3) digit_val_digit [of "unat (v mod base)"] by (simp add: unat_mod)
  moreover have "unat v mod unat base = unat v" if "v div base = 0"
    using that 1(2) by (metis add_0 mod_div_decomp mult_zero_left unat_0 unat_div)
  ultimately show ?case
    using 1 by (subst print_digits.simps) (auto simp: unat_div)
qed

lemma print_digits_length:
  assumes "2 \<le> unat base"
  shows "unat v < 2 ^ Suc k \<Longrightarrow> length (print_digits base v) \<le> Suc k"
proof (induction k arbitrary: v)
  case 0
  then have "unat (v div base) = 0" using assms by (simp add: unat_div)
  then have "v div base = 0" by (simp add: unat_eq_0)
  then show ?case by (subst print_digits.simps) simp
next
  case (Suc k)
  have "unat v div unat base \<le> unat v div 2" using assms by (simp add: div_le_mono2)
  also have "\<dots> < 2 ^ Suc k" using Suc.prems by (simp add: less_mult_imp_div_less)
  finally have "unat (v div base) < 2 ^ Suc k" by (simp only: unat_div)
  from Suc.IH [OF this] show ?case by (subst print_digits.simps) simp
qed

lemma print_digits_set:
  assumes "2 \<le> unat base" and "unat base \<le> 16"
  shows "set (print_digits base v) \<subseteq> set digit"
  using assms
proof (induction base v rule: print_digits.induct)
  case (1 base v)
  have "unat (v mod base) < length digit" 
  proof -
    have "unat (v mod base) < unat base" using 1(2) by (simp add: unat_mod)
    also have "\<dots> \<le> length digit" using 1(3) by simp
    finally show ?thesis .
  qed
  then have "digit ! unat (v mod base) \<in> set digit" by (rule nth_mem)
  then show ?case using 1 by (subst print_digits.simps) auto
qed

lemma uint_neg_sint: "u <s 0 \<Longrightarrow> uint (- u) = - sint (u :: 64 word)"
proof -
  assume "u <s 0"
  then have neg: "sint u < 0" by (simp add: word_sless_alt)
  have ge: "- (2 ^ 63) \<le> sint u" using sint_ge [of u] by simp
  have "uint (- u) = (- sint u) mod 2 ^ 64"
    using uint_sint [of u] by (simp add: uint_word_ariths take_bit_eq_mod mod_minus_eq)
  then show ?thesis using neg ge by (simp add: mod_pos_pos_trivial)
qed

lemma uint_sint_pos: "\<not> u <s 0 \<Longrightarrow> uint u = sint (u :: 64 word)"
proof -
  assume "\<not> u <s 0"
  then have "0 \<le> sint u" by (simp add: word_sless_alt)
  moreover have "sint u < 2 ^ 63" using sint_lt [of u] by simp
  ultimately show ?thesis using uint_sint [of u] by (simp add: take_bit_eq_mod)
qed

lemma parse_digits:
  assumes "2 \<le> unat base" and "unat base \<le> 16"
  shows "parse_int (unat base) (rev (print_digits base v)) = uint v"
    and "parse_int (unat base) (''-'' @ rev (print_digits base v)) = - uint v"
proof -
  have "rev (print_digits base v) \<noteq> []" by (subst print_digits.simps) simp
  then have "hd (rev (print_digits base v)) \<in> set digit"
    using print_digits_set [OF assms, of v] by (metis hd_in_set set_rev subsetD)
  then have "hd (rev (print_digits base v)) \<noteq> CHR ''-''" by (metis digit_simps(2))
  then show "parse_int (unat base) (rev (print_digits base v)) = uint v"
    "parse_int (unat base) (''-'' @ rev (print_digits base v)) = - uint v"
    using print_digits_val [OF assms, of v] by (simp_all add: parse_int_def)
qed

section \<open>Formats\<close>

text \<open>A format as a sequence of literal characters and directives.\<close>

datatype piece = Lit char | Percent | Chr | Str | Num "string \<times> int_type \<times> 64 word \<times> bool"

fun piece_ok :: "piece \<Rightarrow> bool" where
  "piece_ok (Lit c) \<longleftrightarrow> c \<noteq> CHR ''%''"
| "piece_ok (Num d) \<longleftrightarrow> d \<in> set int_cases"
| "piece_ok _ \<longleftrightarrow> True"

fun show_piece :: "piece \<Rightarrow> string" where
  "show_piece (Lit c) = [c]"
| "show_piece Percent = ''%%''"
| "show_piece Chr = ''%c''"
| "show_piece Str = ''%s''"
| "show_piece (Num d) = CHR ''%'' # fst d"

fun render :: "piece list \<Rightarrow> va_arg list \<Rightarrow> string option" where
  "render [] arg = Some []"
| "render (Lit c # ps) arg = map_option ((@) [c]) (render ps arg)"
| "render (Percent # ps) arg = map_option ((@) ''%'') (render ps arg)"
| "render (Chr # ps) arg =
     Option.bind (va_int I32 arg) (\<lambda>(w, arg). map_option ((@) [char_of (unat w)]) (render ps arg))"
| "render (Str # ps) arg =
     Option.bind (va_str arg) (\<lambda>(s, arg). map_option ((@) (case s of None \<Rightarrow> ''(null)'' | Some s \<Rightarrow> s)) (render ps arg))"
| "render (Num (ident, ty, base, sign) # ps) arg =
     Option.bind (va_int ty arg) (\<lambda>(w, arg). map_option ((@) (print_int w base sign)) (render ps arg))"

lemma int_case_find:
  "list_all (\<lambda>d. List.find (\<lambda>(ident, _). starts_with (fst d @ rest) ident) int_cases = Some d \<and>
     \<not> starts_with (fst d @ rest) ''%'' \<and> \<not> starts_with (fst d @ rest) ''c'' \<and>
     \<not> starts_with (fst d @ rest) ''s'') int_cases"
  by (simp add: int_cases_def)

lemma find_int_case:
  assumes "(x, ty, base, sign) \<in> set int_cases"
  shows "List.find (\<lambda>(ident, _). starts_with (x @ rest) ident) int_cases = Some (x, ty, base, sign)"
    and "\<not> starts_with (x @ rest) ''%''" and "\<not> starts_with (x @ rest) ''c''" and "\<not> starts_with (x @ rest) ''s''"
  using int_case_find [of rest, unfolded list_all_iff, rule_format, OF assms] by simp_all

lemma vformat_pieces:
  "list_all piece_ok ps \<Longrightarrow> vformat (concat (map show_piece ps)) arg = render ps arg"
proof (induction ps arg rule: render.induct)
  case (1 arg)
  show ?case by (subst vformat.simps) simp
next
  case (2 c ps arg)
  then show ?case by (subst vformat.simps) simp
next
  case (3 ps arg)
  then show ?case by (subst vformat.simps) simp
next
  case (4 ps arg)
  then show ?case by (subst vformat.simps) (auto split: option.split)
next
  case (5 ps arg)
  then show ?case by (subst vformat.simps) (auto split: option.split)
next
  case (6 ident ty base sign ps arg)
  then have "(ident, ty, base, sign) \<in> set int_cases" by simp
  note F = find_int_case [OF this, of "concat (map show_piece ps)"]
  from 6 show ?case by (subst vformat.simps) (auto simp: F split: option.split)
qed

section \<open>Properties\<close>

text \<open>
  \<^verbatim>\<open>_print_int\<close> prints the number. Reading the characters back in the same base
  gives the signed value of the argument when the number is printed signed, the most
  negative one included, and its unsigned value otherwise; at most 64 digits are stored in
  the buffer of 64 bytes.
\<close>
theorem print_int_roundtrip:
  assumes "base = 10 \<or> base = 16"
  shows "parse_int (unat base) (print_int u base True) = sint u \<and>
    parse_int (unat base) (print_int u base False) = uint u \<and> length (print_digits base v) \<le> 64"
proof -
  have b: "2 \<le> unat base" "unat base \<le> 16" using assms by auto
  have "length (print_digits base v) \<le> 64"
    using print_digits_length [OF b(1), of v 63] unsigned_less [of v] by simp
  then show ?thesis
    using parse_digits [OF b] uint_neg_sint [of u] uint_sint_pos [of u] by (auto simp: print_int_def Let_def)
qed

theorem print_int_roundtrip_witness:
  "parse_int (unat (10 :: 64 word)) (print_int (- 42) 10 True) = - 42"
  using print_int_roundtrip [of 10 "- 42"] by simp

text \<open>
  (C25) \<^verbatim>\<open>vformat\<close> renders every format: on any sequence of literal characters and
  directives it consumes the arguments from left to right and puts out the literals and
  the converted arguments in order, \<^verbatim>\<open>%%\<close> as a percent sign and a null string pointer as
  \<^verbatim>\<open>(null)\<close>.
\<close>
theorem vformat_correct:
  assumes "list_all piece_ok ps"
  shows "vformat (concat (map show_piece ps)) arg = render ps arg"
  by (rule vformat_pieces [OF assms])

theorem vformat_correct_witness:
  "vformat ''n=%d%%'' [VInt (- 7)] = Some ''n=-7%''"
proof -
  have "digit ! 7 = CHR ''7''" by (simp add: digit_def)
  moreover have "- 7 <s (0 :: 64 word)" by (simp add: word_sless_alt)
  ultimately have "print_int (scast (ucast (- 7 :: 64 word) :: 32 word)) 10 True = ''-7''"
    by (simp add: print_int_def print_digits.simps [of 10 7] Let_def)
  with vformat_correct [of "[Lit CHR ''n'', Lit CHR ''='', Num (''d'', I32, 10, True), Percent]" "[VInt (- 7)]"]
  show ?thesis by (simp add: int_cases_def)
qed

end
