(* ===== verification/Ipc.thy ===== *)
theory Ipc
  imports Kernel_Prelude "HOL-Library.Signed_Division" "HOL-Library.Monad_Syntax"
begin

text \<open>
  \<^verbatim>\<open>src/src/common/ipc.c\<close>: System V message queues. Queues, receivers and processes are
  named by addresses; a list of nodes is a HOL list from the head on, so inserting behind
  \<^verbatim>\<open>head.prev\<close> appends. Every system call runs under \<^verbatim>\<open>msg_ids.lock\<close>; a call that sleeps is
  split there into the part before and the part after. The result of
  \<^verbatim>\<open>kalloc(sizeof(msg_queue))\<close> is an argument, the pages left for \<^verbatim>\<open>kalloc_page\<close> are counted in
  \<open>pages\<close>, and the processes passed to \<^verbatim>\<open>activate_proc\<close> are recorded in \<open>activated\<close>. \<open>None\<close> is
  behaviour that C leaves undefined, or a loop that does not end.
\<close>

section \<open>Data\<close>

abbreviation MSG_MSGSZ :: nat where "MSG_MSGSZ \<equiv> 4096 - 32"
abbreviation MSG_MSGSEGSZ :: nat where "MSG_MSGSEGSZ \<equiv> 4096 - 8"
abbreviation MAX_MSGNUM :: int where "MAX_MSGNUM \<equiv> 256"
abbreviation SEQ_MULTIPLIER :: int where "SEQ_MULTIPLIER \<equiv> 16"
abbreviation IPC_PRIVATE :: int where "IPC_PRIVATE \<equiv> 0"
abbreviation IPC_RMID :: int where "IPC_RMID \<equiv> 0"

datatype ipc_error = ENOMEM | ENOSEQ | ENOENT | EEXIST | EINVAL | EAGAIN | EIDRM | E2BIG | ENOMSG

fun errno :: "ipc_error \<Rightarrow> int" where
  "errno ENOMEM = -1"
| "errno ENOSEQ = -2"
| "errno ENOENT = -3"
| "errno EEXIST = -4"
| "errno EINVAL = -5"
| "errno EAGAIN = -6"
| "errno EIDRM = -7"
| "errno E2BIG = -8"
| "errno ENOMSG = -9"

record msg_msg =
  mtype :: int
  msize :: nat
  mdata :: "u8 list"
  msegs :: "u8 list list"

record msg_queue =
  key :: int
  seq :: int
  max_msg :: int
  sum_msg :: int
  q_message :: "msg_msg list"
  q_sender :: "nat list"
  q_receiver :: "nat list"

text \<open>The field \<^verbatim>\<open>r_msg\<close> of a receiver is not initialised before it sleeps.\<close>

datatype rcv_msg = Uninit | Null | Got msg_msg

record msg_receiver =
  rproc :: nat
  rtype :: int
  rsize :: nat
  r_msg :: rcv_msg

record ipc_ids =
  in_use :: int
  next_seq :: nat
  entries :: "nat option list"
  queue_of :: "nat \<Rightarrow> msg_queue"
  receiver_of :: "nat \<Rightarrow> msg_receiver"
  pages :: nat
  activated :: "nat list"

definition upd_queue :: "nat \<Rightarrow> (msg_queue \<Rightarrow> msg_queue) \<Rightarrow> ipc_ids \<Rightarrow> ipc_ids" where
  "upd_queue q f s = s\<lparr>queue_of := (queue_of s)(q := f (queue_of s q))\<rparr>"

definition activate_proc :: "nat \<Rightarrow> ipc_ids \<Rightarrow> ipc_ids" where
  "activate_proc p s = s\<lparr>activated := activated s @ [p]\<rparr>"

definition init_ipc :: "ipc_ids \<Rightarrow> ipc_ids" where
  "init_ipc s = s\<lparr>in_use := 0, next_seq := 0, entries := replicate 16 None\<rparr>"

section \<open>Queues and identifiers\<close>

definition ipc_addid :: "nat \<Rightarrow> ipc_ids \<Rightarrow> int \<times> ipc_ids" where
  "ipc_addid que s =
     (case List.find (\<lambda>ix. entries s ! ix = None) [0..<16] of
        None \<Rightarrow> (-1, s)
      | Some ix \<Rightarrow> (int ix,
          upd_queue que (seq_update (\<lambda>_. int (next_seq s)))
            (s\<lparr>in_use := in_use s + 1, next_seq := (next_seq s + 1) mod 2 ^ 16,
               entries := (entries s)[ix := Some que]\<rparr>)))"

definition ipc_buildin :: "int \<Rightarrow> int \<Rightarrow> int" where
  "ipc_buildin ix sq = sq * SEQ_MULTIPLIER + ix"

definition newque :: "int \<Rightarrow> nat option \<Rightarrow> ipc_ids \<Rightarrow> int \<times> ipc_ids" where
  "newque k que s =
     (case que of
        None \<Rightarrow> (errno ENOMEM, s)
      | Some q \<Rightarrow>
          let (ix, s) = ipc_addid q s in
          if ix < 0 then (errno ENOSEQ, s)
          else (ipc_buildin ix (seq (queue_of s q)),
            upd_queue q (\<lambda>x. x\<lparr>key := k, max_msg := MAX_MSGNUM, sum_msg := 0,
              q_message := [], q_receiver := [], q_sender := []\<rparr>) s))"

definition ipc_findkey :: "int \<Rightarrow> ipc_ids \<Rightarrow> int" where
  "ipc_findkey k s =
     (case List.find (\<lambda>ix. case entries s ! ix of None \<Rightarrow> False | Some q \<Rightarrow> key (queue_of s q) = k) [0..<16] of
        None \<Rightarrow> -1 | Some ix \<Rightarrow> int ix)"

definition sys_msgget :: "int \<Rightarrow> int \<Rightarrow> nat option \<Rightarrow> ipc_ids \<Rightarrow> int \<times> ipc_ids" where
  "sys_msgget k msgflg que s =
     (if k = IPC_PRIVATE then newque k que s
      else
        let ix = ipc_findkey k s in
        if ix = -1 then
          if bit msgflg 1 then newque k que s else (errno ENOENT, s)
        else
          if bit msgflg 0 then (errno EEXIST, s)
          else (ipc_buildin ix (seq (queue_of s (the (entries s ! nat ix)))), s))"

text \<open>
  \<^verbatim>\<open>get_msgq\<close>: C's remainder of a negative identifier is negative or zero, and a negative
  one indexes the array out of bounds. \<open>Some None\<close> is the null pointer.
\<close>

definition get_msgq :: "int \<Rightarrow> ipc_ids \<Rightarrow> nat option option" where
  "get_msgq msgid s =
     (let ix = msgid smod SEQ_MULTIPLIER in
      if ix \<ge> 16 then Some None
      else if ix < 0 then None
      else case entries s ! nat ix of
          None \<Rightarrow> Some None
        | Some q \<Rightarrow> Some (if msgid sdiv SEQ_MULTIPLIER \<noteq> seq (queue_of s q) then None else Some q))"

section \<open>Messages\<close>

text \<open>
  \<^verbatim>\<open>load_msg\<close> copies a user buffer into a chain of pages. As in the code, the source
  pointer advances by the minimum of the segment size and the length that is left after
  the subtraction.
\<close>

function load_segs :: "(nat \<Rightarrow> u8) \<Rightarrow> nat \<Rightarrow> nat \<Rightarrow> nat \<Rightarrow> u8 list list option" where
  "load_segs src off len avail =
     (if len > 0 then
        if avail = 0 then None
        else
          let n = min MSG_MSGSEGSZ len;
              seg = map (\<lambda>i. src (off + i)) [0..<n];
              len = len - n
          in map_option ((#) seg) (load_segs src (off + min MSG_MSGSEGSZ len) len (avail - 1))
      else Some [])"
  by pat_completeness auto
termination by (relation "measure (\<lambda>(src, off, len, avail). len)") auto

declare load_segs.simps [simp del]

definition msg_pages :: "msg_msg \<Rightarrow> nat" where
  "msg_pages m = 1 + length (msegs m)"

definition load_msg :: "(nat \<Rightarrow> u8) \<Rightarrow> nat \<Rightarrow> ipc_ids \<Rightarrow> msg_msg option \<times> ipc_ids" where
  "load_msg src len s =
     (if pages s = 0 then (None, s)
      else
        let n = min MSG_MSGSZ len;
            d = map src [0..<n];
            len' = len - n
        in case load_segs src (min MSG_MSGSZ len') len' (pages s - 1) of
             None \<Rightarrow> (None, s)
           | Some segs \<Rightarrow>
               (Some \<lparr>mtype = 0, msize = 0, mdata = d, msegs = segs\<rparr>, s\<lparr>pages := pages s - (1 + length segs)\<rparr>))"

definition free_msg :: "msg_msg \<Rightarrow> ipc_ids \<Rightarrow> ipc_ids" where
  "free_msg m s = s\<lparr>pages := pages s + msg_pages m\<rparr>"

definition write_at :: "nat \<Rightarrow> u8 list \<Rightarrow> (nat \<Rightarrow> u8) \<Rightarrow> nat \<Rightarrow> u8" where
  "write_at off bs dst = (\<lambda>i. if off \<le> i \<and> i < off + length bs then bs ! (i - off) else dst i)"

function store_segs :: "(nat \<Rightarrow> u8) \<Rightarrow> nat \<Rightarrow> nat \<Rightarrow> u8 list list \<Rightarrow> (nat \<Rightarrow> u8) option" where
  "store_segs dst off len segs =
     (if len > 0 then
        case segs of
          [] \<Rightarrow> None
        | sg # segs \<Rightarrow>
            let n = min len MSG_MSGSEGSZ;
                dst = write_at off (take n sg) dst;
                len = len - n
            in store_segs dst (off + min len MSG_MSGSEGSZ) len segs
      else Some dst)"
  by pat_completeness auto
termination by (relation "measure (\<lambda>(dst, off, len, segs). len)") auto

declare store_segs.simps [simp del]

definition store_msg :: "(nat \<Rightarrow> u8) \<Rightarrow> msg_msg \<Rightarrow> nat \<Rightarrow> (nat \<Rightarrow> u8) option" where
  "store_msg dst m len =
     (let n = min len MSG_MSGSZ;
          dst = write_at 0 (take n (mdata m)) dst;
          len = len - n
      in store_segs dst (min MSG_MSGSZ len) len (msegs m))"

section \<open>Sending\<close>

definition testmsg :: "int \<Rightarrow> int \<Rightarrow> bool" where
  "testmsg rqtype type =
     (if rqtype = 0 then True else if rqtype < 0 then rqtype + type \<le> 0 else rqtype = type)"

text \<open>
  The successor of a list node: \<open>None\<close> is the head. A node that has been detached is linked
  to itself.
\<close>

definition next_node :: "nat list \<Rightarrow> nat \<Rightarrow> nat option" where
  "next_node xs n = (case dropWhile ((\<noteq>) n) xs of [] \<Rightarrow> Some n | [_] \<Rightarrow> None | _ # y # _ \<Rightarrow> Some y)"

definition set_rmsg :: "nat \<Rightarrow> rcv_msg \<Rightarrow> ipc_ids \<Rightarrow> ipc_ids" where
  "set_rmsg r m s = s\<lparr>receiver_of := (receiver_of s)(r := (receiver_of s r)\<lparr>r_msg := m\<rparr>)\<rparr>"

partial_function (option) pipeline_loop ::
  "nat \<Rightarrow> msg_msg \<Rightarrow> nat option \<Rightarrow> ipc_ids \<Rightarrow> (bool \<times> ipc_ids) option" where
  "pipeline_loop q m node s =
     (case node of
        None \<Rightarrow> Some (False, s)
      | Some r \<Rightarrow>
          let x = receiver_of s r in
          if testmsg (rtype x) (mtype m) then
            let s = upd_queue q (q_receiver_update (removeAll r)) s in
            if msize m > rsize x then
              let s = activate_proc (rproc x) (set_rmsg r Null s)
              in pipeline_loop q m (next_node (q_receiver (queue_of s q)) r) s
            else Some (True, activate_proc (rproc x) (set_rmsg r (Got m) s))
          else pipeline_loop q m (next_node (q_receiver (queue_of s q)) r) s)"

definition pipeline_send :: "nat \<Rightarrow> msg_msg \<Rightarrow> ipc_ids \<Rightarrow> (bool \<times> ipc_ids) option" where
  "pipeline_send q m s =
     pipeline_loop q m (case q_receiver (queue_of s q) of [] \<Rightarrow> None | r # _ \<Rightarrow> Some r) s"

datatype snd_result = Sent int | SndSleeps

text \<open>
  \<^verbatim>\<open>sys_msgsnd\<close>: the checks and the copy of the message, then the critical section that
  starts at \<^verbatim>\<open>retry\<close>, which is run again whenever the sender wakes up.
\<close>

definition msgsnd_try :: "nat \<Rightarrow> int \<Rightarrow> msg_msg \<Rightarrow> int \<Rightarrow> ipc_ids \<Rightarrow> (snd_result \<times> ipc_ids) option" where
  "msgsnd_try p msgid m msgflg s = do {
     que \<leftarrow> get_msgq msgid s;
     case que of
       None \<Rightarrow> Some (Sent (errno EIDRM), free_msg m s)
     | Some q \<Rightarrow>
         if sum_msg (queue_of s q) + 1 > max_msg (queue_of s q) then
           if bit msgflg 0 then Some (Sent (errno EAGAIN), free_msg m s)
           else Some (SndSleeps, upd_queue q (q_sender_update (\<lambda>l. l @ [p])) s)
         else do {
           (delivered, s) \<leftarrow> pipeline_send q m s;
           Some (Sent 0,
             if delivered then s
             else upd_queue q (\<lambda>x. x\<lparr>q_message := q_message x @ [m], sum_msg := sum_msg x + 1\<rparr>) s) } }"

definition sys_msgsnd ::
  "nat \<Rightarrow> int \<Rightarrow> (int \<times> (nat \<Rightarrow> u8)) option \<Rightarrow> int \<Rightarrow> int \<Rightarrow> ipc_ids \<Rightarrow> (snd_result \<times> ipc_ids) option" where
  "sys_msgsnd p msgid msgp msgsz msgflg s =
     (if msgsz < 0 \<or> msgp = None \<or> fst (the msgp) < 1 then Some (Sent (errno EINVAL), s)
      else
        let (ty, src) = the msgp in
        case load_msg src (nat msgsz) s of
          (None, s) \<Rightarrow> Some (Sent (errno ENOMEM), s)
        | (Some m, s) \<Rightarrow> msgsnd_try p msgid (m\<lparr>mtype := ty, msize := nat msgsz\<rparr>) msgflg s)"

section \<open>Receiving\<close>

definition ss_wakeup :: "nat list \<Rightarrow> ipc_ids \<Rightarrow> ipc_ids" where
  "ss_wakeup procs s = s\<lparr>activated := activated s @ procs\<rparr>"

text \<open>
  The search of \<^verbatim>\<open>sys_msgrcv\<close>: the index of the message found last, and the type bound,
  which is raised by one with every match while it is below \<open>-1\<close>.
\<close>

fun find_msg :: "int \<Rightarrow> msg_msg list \<Rightarrow> nat \<Rightarrow> nat option \<Rightarrow> nat option \<times> int" where
  "find_msg ty [] i found = (found, ty)"
| "find_msg ty (m # ms) i found =
     (if testmsg ty (mtype m) then
        if ty < -1 then find_msg (ty + 1) ms (i + 1) (Some i) else (Some i, ty)
      else find_msg ty ms (i + 1) found)"

datatype rcv_result = Received int "(int \<times> (nat \<Rightarrow> u8)) option" | RcvSleeps

definition rcv_finish :: "(nat \<Rightarrow> u8) \<Rightarrow> nat \<Rightarrow> msg_msg \<Rightarrow> ipc_ids \<Rightarrow> (rcv_result \<times> ipc_ids) option" where
  "rcv_finish buf sz m s =
     (let sz = min sz (msize m)
      in map_option (\<lambda>buf. (Received (int sz) (Some (mtype m, buf)), free_msg m s)) (store_msg buf m sz))"

definition sys_msgrcv ::
  "nat \<Rightarrow> nat \<Rightarrow> int \<Rightarrow> (nat \<Rightarrow> u8) option \<Rightarrow> int \<Rightarrow> int \<Rightarrow> int \<Rightarrow> ipc_ids \<Rightarrow> (rcv_result \<times> ipc_ids) option" where
  "sys_msgrcv p r msgid msgp msgsz ty msgflg s =
     (if msgsz < 0 \<or> msgp = None then Some (Received (errno EINVAL) None, s)
      else do {
        que \<leftarrow> get_msgq msgid s;
        case que of
          None \<Rightarrow> Some (Received (errno EIDRM) None, s)
        | Some q \<Rightarrow>
            (case find_msg ty (q_message (queue_of s q)) 0 None of
               (Some i, ty) \<Rightarrow>
                 let m = q_message (queue_of s q) ! i in
                 if int (msize m) > msgsz then Some (Received (errno E2BIG) None, s)
                 else
                   let procs = q_sender (queue_of s q);
                       s = upd_queue q (\<lambda>x. x\<lparr>q_message := take i (q_message x) @ drop (i + 1) (q_message x),
                             sum_msg := sum_msg x - 1, q_sender := []\<rparr>) s
                   in rcv_finish (the msgp) (nat msgsz) m (ss_wakeup procs s)
             | (None, ty) \<Rightarrow>
                 if bit msgflg 0 then Some (Received (errno ENOMSG) None, s)
                 else
                   let s = upd_queue q (q_receiver_update (\<lambda>l. l @ [r])) s
                   in Some (RcvSleeps, s\<lparr>receiver_of := (receiver_of s)(r :=
                        \<lparr>rproc = p, rtype = ty, rsize = nat msgsz, r_msg = r_msg (receiver_of s r)\<rparr>)\<rparr>)) })"

definition msgrcv_resume ::
  "nat \<Rightarrow> (nat \<Rightarrow> u8) \<Rightarrow> int \<Rightarrow> ipc_ids \<Rightarrow> (rcv_result \<times> ipc_ids) option" where
  "msgrcv_resume r buf msgsz s =
     (case r_msg (receiver_of s r) of
        Uninit \<Rightarrow> None
      | Null \<Rightarrow> Some (Received (errno E2BIG) None, s)
      | Got m \<Rightarrow> rcv_finish buf (nat msgsz) m s)"

section \<open>Removing a queue\<close>

fun expunge_all :: "nat list \<Rightarrow> ipc_ids \<Rightarrow> ipc_ids" where
  "expunge_all [] s = s"
| "expunge_all (r # rs) s = expunge_all rs (activate_proc (rproc (receiver_of s r)) (set_rmsg r Null s))"

text \<open>
  \<^verbatim>\<open>freeque\<close> passes the list of receivers to \<^verbatim>\<open>ss_wakeup\<close>, which empties it before
  \<^verbatim>\<open>expunge_all\<close> runs.
\<close>

definition freeque :: "int \<Rightarrow> ipc_ids \<Rightarrow> ipc_ids option" where
  "freeque ix s = do {
     que \<leftarrow> get_msgq ix s;
     case que of
       None \<Rightarrow> Some s
     | Some q \<Rightarrow>
         let s = s\<lparr>entries := (entries s)[nat (ix smod SEQ_MULTIPLIER) := None]\<rparr>;
             s = ss_wakeup (map (\<lambda>r. rproc (receiver_of s r)) (q_receiver (queue_of s q))) s;
             s = upd_queue q (q_receiver_update (\<lambda>_. [])) s;
             s = expunge_all (q_receiver (queue_of s q)) s;
             s = fold free_msg (q_message (queue_of s q)) s;
             s = upd_queue q (q_message_update (\<lambda>_. [])) s
         in Some (s\<lparr>in_use := in_use s - 1\<rparr>) }"

definition sys_msgctl :: "int \<Rightarrow> int \<Rightarrow> ipc_ids \<Rightarrow> (int \<times> ipc_ids) option" where
  "sys_msgctl msgid cmd s =
     (if cmd = IPC_RMID then map_option (\<lambda>s. (0, s)) (freeque msgid s) else Some (errno EINVAL, s))"

end
