(* ===== verification/Ipc_Proofs.thy ===== *)
theory Ipc_Proofs
  imports Ipc
begin

text \<open>
  Properties of the message queues: the table of queues is well formed in every reachable
  state, identifiers name the queue they were returned for, messages travel through the
  queue in order, and exactly which part of a long message is transferred, when a send
  with waiting receivers returns, and which processes the removal of a queue wakes.
\<close>

section \<open>Identifiers\<close>

lemma sdiv_smod_pos:
  fixes a b :: int
  assumes "0 \<le> a" and "0 < b"
  shows "a sdiv b = a div b" and "a smod b = a mod b"
  using assms by (auto simp: signed_divide_int_def signed_modulo_int_def sgn_if minus_div_mult_eq_mod)

lemma buildin_parts:
  assumes "0 \<le> sq" and "0 \<le> ix" and "ix < 16"
  shows "ipc_buildin ix sq smod SEQ_MULTIPLIER = ix" and "ipc_buildin ix sq sdiv SEQ_MULTIPLIER = sq"
  using assms by (auto simp: ipc_buildin_def sdiv_smod_pos)

definition live :: "ipc_ids \<Rightarrow> nat set" where
  "live s = {q. Some q \<in> set (entries s)}"

definition queue_ok :: "msg_queue \<Rightarrow> bool" where
  "queue_ok x \<longleftrightarrow> 0 \<le> seq x \<and> seq x < 65536 \<and> max_msg x = MAX_MSGNUM \<and>
     sum_msg x = int (length (q_message x)) \<and> sum_msg x \<le> max_msg x"

definition slots_distinct :: "nat option list \<Rightarrow> bool" where
  "slots_distinct es \<longleftrightarrow> (\<forall>i < 16. \<forall>j < 16. es ! i \<noteq> None \<and> es ! i = es ! j \<longrightarrow> i = j)"

definition keys_distinct :: "nat option list \<Rightarrow> (nat \<Rightarrow> int) \<Rightarrow> bool" where
  "keys_distinct es k \<longleftrightarrow> (\<forall>i < 16. \<forall>j < 16. \<forall>p q. es ! i = Some p \<and> es ! j = Some q \<and>
     k p = k q \<and> k p \<noteq> IPC_PRIVATE \<longrightarrow> i = j)"

definition ipc_wf :: "ipc_ids \<Rightarrow> bool" where
  "ipc_wf s \<longleftrightarrow> length (entries s) = 16 \<and> next_seq s < 65536 \<and>
     in_use s = int (length (filter (\<lambda>e. e \<noteq> None) (entries s))) \<and>
     slots_distinct (entries s) \<and> keys_distinct (entries s) (\<lambda>q. key (queue_of s q)) \<and>
     (\<forall>q \<in> live s. queue_ok (queue_of s q))"

lemma live_nth: "length (entries s) = 16 \<Longrightarrow> q \<in> live s \<longleftrightarrow> (\<exists>i < 16. entries s ! i = Some q)"
  by (auto simp: live_def in_set_conv_nth)

lemma ipc_wfD:
  assumes "ipc_wf s"
  shows "length (entries s) = 16" and "next_seq s < 65536"
    and "in_use s = int (length (filter (\<lambda>e. e \<noteq> None) (entries s)))"
    and "i < 16 \<Longrightarrow> j < 16 \<Longrightarrow> entries s ! i \<noteq> None \<Longrightarrow> entries s ! i = entries s ! j \<Longrightarrow> i = j"
    and "i < 16 \<Longrightarrow> j < 16 \<Longrightarrow> entries s ! i = Some p \<Longrightarrow> entries s ! j = Some q \<Longrightarrow>
      key (queue_of s p) = key (queue_of s q) \<Longrightarrow> key (queue_of s p) \<noteq> IPC_PRIVATE \<Longrightarrow> i = j"
    and "q \<in> live s \<Longrightarrow> queue_ok (queue_of s q)"
  using assms unfolding ipc_wf_def slots_distinct_def keys_distinct_def by blast+

lemma ipc_wf_cong:
  assumes "ipc_wf s" and "entries s' = entries s" and "in_use s' = in_use s" and "next_seq s' = next_seq s"
    and "\<And>q. key (queue_of s' q) = key (queue_of s q)"
    and "\<And>q. q \<in> live s \<Longrightarrow> queue_ok (queue_of s q) \<Longrightarrow> queue_ok (queue_of s' q)"
  shows "ipc_wf s'"
proof -
  have "live s' = live s" using assms(2) by (simp add: live_def)
  then show ?thesis using assms unfolding ipc_wf_def by (simp only:) blast
qed

lemma upd_queue_simps [simp]:
  "entries (upd_queue q f s) = entries s" "in_use (upd_queue q f s) = in_use s"
  "next_seq (upd_queue q f s) = next_seq s" "pages (upd_queue q f s) = pages s"
  "queue_of (upd_queue q f s) q' = (if q' = q then f (queue_of s q) else queue_of s q')"
  "activated (upd_queue q f s) = activated s" "receiver_of (upd_queue q f s) = receiver_of s"
  by (simp_all add: upd_queue_def)

lemma count_set:
  assumes "i < length xs"
  shows "xs ! i = None \<Longrightarrow> length (filter (\<lambda>e. e \<noteq> None) (xs[i := Some q])) = length (filter (\<lambda>e. e \<noteq> None) xs) + 1"
    and "xs ! i \<noteq> None \<Longrightarrow> length (filter (\<lambda>e. e \<noteq> None) (xs[i := None])) + 1 = length (filter (\<lambda>e. e \<noteq> None) xs)"
  using assms by (subst (2) id_take_nth_drop [OF assms], simp add: upd_conv_take_nth_drop)+

section \<open>Creating queues\<close>

lemma newque_full: "que = None \<or> List.find (\<lambda>ix. entries s ! ix = None) [0..<16] = None \<Longrightarrow>
    \<exists>e. newque k que s = (e, s) \<and> e < 0"
  by (cases que) (auto simp: newque_def ipc_addid_def)

lemma newque_new:
  assumes wf: "ipc_wf s" and fresh: "q \<notin> live s" and k: "k = IPC_PRIVATE \<or> ipc_findkey k s = -1"
    and slot: "List.find (\<lambda>ix. entries s ! ix = None) [0..<16] = Some i"
  obtains s' where "newque k (Some q) s = (ipc_buildin (int i) (int (next_seq s)), s')" and "ipc_wf s'"
    and "i < 16" and "entries s ! i = None" and "entries s' = (entries s)[i := Some q]"
    and "queue_of s' q = \<lparr>key = k, seq = int (next_seq s), max_msg = MAX_MSGNUM, sum_msg = 0,
      q_message = [], q_sender = [], q_receiver = []\<rparr>"
proof -
  note W = ipc_wfD [OF wf]
  have i: "i < 16" "entries s ! i = None" using find_Some_iff [OF slot] by auto
  let ?x = "\<lparr>key = k, seq = int (next_seq s), max_msg = MAX_MSGNUM, sum_msg = 0,
      q_message = [], q_sender = [], q_receiver = []\<rparr>"
  define s' where "s' = s\<lparr>in_use := in_use s + 1, next_seq := (next_seq s + 1) mod 2 ^ 16,
      entries := (entries s)[i := Some q], queue_of := (queue_of s)(q := ?x)\<rparr>"
  have run: "newque k (Some q) s = (ipc_buildin (int i) (int (next_seq s)), s')"
    using slot by (simp add: newque_def ipc_addid_def upd_queue_def s'_def Let_def)
      (cases "queue_of s q", simp)
  have old: "\<not> (j < 16 \<and> entries s ! j = Some q)" for j using fresh live_nth [OF W(1), of q] by blast
  have other: "queue_of s' p = queue_of s p" if "p \<in> live s" for p using that fresh by (auto simp: s'_def)
  have ent: "entries s' ! j = (if j = i then Some q else entries s ! j)" if "j < 16" for j
    using that W(1) by (simp add: s'_def)
  have nokey: "key (queue_of s p) \<noteq> k" if "j < 16" "entries s ! j = Some p" "k \<noteq> IPC_PRIVATE" for j p
    using that k by (auto simp: ipc_findkey_def find_None_iff' split: option.splits)
  have L: "p \<in> live s" if "j < 16" "entries s ! j = Some p" for j p using that live_nth [OF W(1)] by blast
  have "ipc_wf s'"
    unfolding ipc_wf_def slots_distinct_def keys_distinct_def
  proof (intro conjI allI impI ballI)
    show "length (entries s') = 16" "next_seq s' < 65536" using W(1) by (simp_all add: s'_def)
    show "in_use s' = int (length (filter (\<lambda>e. e \<noteq> None) (entries s')))"
      using W(3) count_set(1) [of i "entries s" q] i W(1) by (simp add: s'_def)
    show "a = b" if "a < 16" "b < 16" "entries s' ! a \<noteq> None \<and> entries s' ! a = entries s' ! b" for a b
    proof (cases "a = i \<or> b = i")
      case True
      then show ?thesis using that old [of a] old [of b] ent [of a] ent [of b] by metis
    next
      case False
      then show ?thesis using that W(4) [of a b] ent [of a] ent [of b] by metis
    qed
    show "a = b" if "a < 16" "b < 16" and e: "entries s' ! a = Some p \<and> entries s' ! b = Some r \<and>
        key (queue_of s' p) = key (queue_of s' r) \<and> key (queue_of s' p) \<noteq> IPC_PRIVATE" for a b p r
    proof -
      have k': "key (queue_of s' q) = k" by (simp add: s'_def)
      show ?thesis
      proof (cases "a = i \<or> b = i")
        case True
        show ?thesis
        proof (rule ccontr)
          assume ne: "a \<noteq> b"
          have "(a = i \<and> p = q \<and> entries s ! b = Some r) \<or> (b = i \<and> r = q \<and> entries s ! a = Some p)"
            using True ne that e ent [of a] ent [of b] by auto
          then show False
            using that e k' nokey [of b r] nokey [of a p] other [OF L [of b r]] other [OF L [of a p]] by metis
        qed
      next
        case False
        then have "entries s ! a = Some p" "entries s ! b = Some r" using that e ent [of a] ent [of b] by auto
        with that e other [OF L] W(5) [of a b p r] show ?thesis by metis
      qed
    qed
    show "queue_ok (queue_of s' p)" if "p \<in> live s'" for p
    proof (cases "p = q")
      case True
      then show ?thesis using W(2) by (simp add: queue_ok_def s'_def)
    next
      case False
      then have "p \<in> live s" using that by (auto simp: live_def s'_def dest!: set_update_subset_insert [THEN subsetD])
      then show ?thesis using W(6) other by simp
    qed
  qed
  moreover have "queue_of s' q = ?x" "entries s' = (entries s)[i := Some q]" by (simp_all add: s'_def)
  ultimately show thesis using that run i by blast
qed

lemma get_msgq_buildin:
  assumes "ipc_wf s" and "i < 16" and "entries s ! i = Some q"
  shows "get_msgq (ipc_buildin (int i) (seq (queue_of s q))) s = Some (Some q)"
proof -
  have "q \<in> live s" using assms ipc_wfD(1) [OF assms(1)] live_nth by blast
  then have "0 \<le> seq (queue_of s q)" using ipc_wfD(6) [OF assms(1)] by (auto simp: queue_ok_def)
  then show ?thesis using assms(2,3) buildin_parts [of "seq (queue_of s q)" "int i"] by (simp add: get_msgq_def)
qed

lemma get_msgq_live:
  assumes "ipc_wf s" and "get_msgq msgid s = Some (Some q)"
  shows "q \<in> live s" and "nat (msgid smod SEQ_MULTIPLIER) < 16" and "entries s ! nat (msgid smod SEQ_MULTIPLIER) = Some q"
proof -
  show i: "nat (msgid smod SEQ_MULTIPLIER) < 16" "entries s ! nat (msgid smod SEQ_MULTIPLIER) = Some q"
    using assms(2) by (auto simp: get_msgq_def Let_def split: if_splits option.splits)
  then show "q \<in> live s" using live_nth [OF ipc_wfD(1) [OF assms(1)]] by blast
qed

section \<open>What the operations keep\<close>

text \<open>Sending to waiting receivers changes no identifier and no message of the queue.\<close>

definition same_core :: "ipc_ids \<Rightarrow> ipc_ids \<Rightarrow> bool" where
  "same_core s s' \<longleftrightarrow> entries s' = entries s \<and> in_use s' = in_use s \<and> next_seq s' = next_seq s \<and> pages s' = pages s \<and>
     (\<forall>q. key (queue_of s' q) = key (queue_of s q) \<and> seq (queue_of s' q) = seq (queue_of s q) \<and>
        max_msg (queue_of s' q) = max_msg (queue_of s q) \<and> sum_msg (queue_of s' q) = sum_msg (queue_of s q) \<and>
        q_message (queue_of s' q) = q_message (queue_of s q) \<and> q_sender (queue_of s' q) = q_sender (queue_of s q))"

lemma same_core_refl: "same_core s s"
  by (simp add: same_core_def)

lemma same_core_trans: "same_core s s' \<Longrightarrow> same_core s' s'' \<Longrightarrow> same_core s s''"
  by (simp add: same_core_def)

lemma same_core_wf: "same_core s s' \<Longrightarrow> ipc_wf s \<Longrightarrow> ipc_wf s'"
  by (erule ipc_wf_cong) (simp_all add: same_core_def queue_ok_def)

lemma same_core_steps:
  "same_core s (activate_proc p s)" "same_core s (set_rmsg r m s)" "same_core s (ss_wakeup ps s)"
  "same_core s (upd_queue q (q_receiver_update f) s)"
  by (simp_all add: same_core_def activate_proc_def set_rmsg_def ss_wakeup_def)

lemma pipeline_core: "pipeline_loop q m node s = Some r \<Longrightarrow> same_core s (snd r)"
proof (erule pipeline_loop.raw_induct [where P = "\<lambda>q m node s r. same_core s (snd r)", rotated])
  fix loop q m node s r
  assume IH: "\<And>q m node s r. loop q m node s = Some r \<Longrightarrow> same_core s (snd r)"
    and run: "(case node of
        None \<Rightarrow> Some (False, s)
      | Some n \<Rightarrow>
          let x = receiver_of s n in
          if testmsg (rtype x) (mtype m) then
            let s = upd_queue q (q_receiver_update (removeAll n)) s in
            if msize m > rsize x then
              let s = activate_proc (rproc x) (set_rmsg n Null s)
              in loop q m (next_node (q_receiver (queue_of s q)) n) s
            else Some (True, activate_proc (rproc x) (set_rmsg n (Got m) s))
          else loop q m (next_node (q_receiver (queue_of s q)) n) s) = Some r"
  have step: "same_core s (activate_proc p (set_rmsg n x (upd_queue q (q_receiver_update f) s)))" for p n x f
    by (meson same_core_steps same_core_trans)
  show "same_core s (snd r)"
    using run step by (auto simp: Let_def same_core_refl split: option.splits if_splits
      dest!: IH intro: same_core_trans [OF step])
qed

text \<open>A queue changed in its messages only.\<close>

lemma ipc_wf_queue:
  assumes wf: "ipc_wf s" and q: "queue_ok (f (queue_of s q))" and k: "key (f (queue_of s q)) = key (queue_of s q)"
  shows "ipc_wf (upd_queue q f s)"
  by (rule ipc_wf_cong [OF wf]) (use q k in auto)

lemma ipc_wf_pages: "ipc_wf s \<Longrightarrow> ipc_wf (s\<lparr>pages := n\<rparr>)"
  by (erule ipc_wf_cong) simp_all

lemma get_wf:
  assumes wf: "ipc_wf s" and fresh: "\<And>q. que = Some q \<Longrightarrow> q \<notin> live s"
  shows "ipc_wf (snd (sys_msgget k flg que s))"
proof -
  have "ipc_wf (snd (newque k que s))" if "k = IPC_PRIVATE \<or> ipc_findkey k s = -1"
  proof (cases "que = None \<or> List.find (\<lambda>ix. entries s ! ix = None) [0..<16] = None")
    case True
    from newque_full [OF this] wf show ?thesis by (metis snd_conv)
  next
    case False
    then obtain q i where "que = Some q" "List.find (\<lambda>ix. entries s ! ix = None) [0..<16] = Some i" by auto
    then show ?thesis using newque_new [OF wf fresh that] by (metis snd_conv)
  qed
  then show ?thesis using wf by (auto simp: sys_msgget_def Let_def)
qed

lemma msgsnd_try_wf:
  assumes wf: "ipc_wf s" and run: "msgsnd_try p msgid m flg s = Some (r, s')"
  shows "ipc_wf s'"
proof -
  obtain que where que: "get_msgq msgid s = Some que" using run by (auto simp: msgsnd_try_def bind_eq_Some_conv)
  show ?thesis
  proof (cases que)
    case None
    then show ?thesis using run que wf by (auto simp: msgsnd_try_def free_msg_def intro: ipc_wf_pages)
  next
    case (Some q)
    note q = get_msgq_live [OF wf que [unfolded Some]]
    have ok: "queue_ok (queue_of s q)" using ipc_wfD(6) [OF wf q(1)] .
    show ?thesis
    proof (cases "sum_msg (queue_of s q) + 1 > max_msg (queue_of s q)")
      case True
      have "ipc_wf (upd_queue q (q_sender_update f) s)" for f
        by (rule ipc_wf_queue [OF wf]) (use ok in \<open>simp_all add: queue_ok_def\<close>)
      then show ?thesis using True run que Some wf
        by (auto simp: msgsnd_try_def free_msg_def intro: ipc_wf_pages split: if_splits)
    next
      case False
      then obtain d s1 where s1: "pipeline_send q m s = Some (d, s1)"
          "s' = (if d then s1 else upd_queue q (\<lambda>x. x\<lparr>q_message := q_message x @ [m], sum_msg := sum_msg x + 1\<rparr>) s1)"
        using run que Some by (auto simp: msgsnd_try_def bind_eq_Some_conv)
      have core: "same_core s s1" using pipeline_core s1(1) unfolding pipeline_send_def by fastforce
      note wf1 = same_core_wf [OF core wf]
      have "queue_ok (queue_of s1 q)" "sum_msg (queue_of s1 q) + 1 \<le> max_msg (queue_of s1 q)"
        using core ok False by (simp_all add: same_core_def queue_ok_def)
      then have "ipc_wf (upd_queue q (\<lambda>x. x\<lparr>q_message := q_message x @ [m], sum_msg := sum_msg x + 1\<rparr>) s1)"
        by (intro ipc_wf_queue [OF wf1]) (simp_all add: queue_ok_def)
      with wf1 s1(2) show ?thesis by simp
    qed
  qed
qed

lemma msgsnd_wf:
  assumes wf: "ipc_wf s" and run: "sys_msgsnd p msgid msgp msgsz flg s = Some (r, s')"
  shows "ipc_wf s'"
proof -
  have ld: "ipc_wf (snd (load_msg src n s))" for src n
    using wf by (auto simp: load_msg_def Let_def intro: ipc_wf_pages split: option.splits)
  have "ipc_wf s1" if "load_msg src n s = (m, s1)" for src n m s1 using ld [of src n] that by simp
  with run wf msgsnd_try_wf show ?thesis
    by (fastforce simp: sys_msgsnd_def split: if_splits prod.splits option.splits)
qed

lemma rcv_finish_wf: "ipc_wf s \<Longrightarrow> rcv_finish buf sz m s = Some (r, s') \<Longrightarrow> ipc_wf s'"
  by (auto simp: rcv_finish_def free_msg_def Let_def intro: ipc_wf_pages)

lemma find_msg_bound:
  "find_msg ty ms i found = (Some j, ty') \<Longrightarrow> found = Some j \<or> i \<le> j \<and> j < i + length ms"
  by (induction ty ms i found rule: find_msg.induct) (auto split: if_splits)

lemma msgrcv_wf:
  assumes wf: "ipc_wf s" and run: "sys_msgrcv p rc msgid msgp msgsz ty flg s = Some (r, s')"
  shows "ipc_wf s'"
proof (cases "msgsz < 0 \<or> msgp = None \<or> get_msgq msgid s = Some None")
  case True
  then show ?thesis using wf run by (auto simp: sys_msgrcv_def split: if_splits)
next
  case False
  then obtain q where que: "get_msgq msgid s = Some (Some q)" using run by (auto simp: sys_msgrcv_def bind_eq_Some_conv)
  note ok = ipc_wfD(6) [OF wf get_msgq_live(1) [OF wf que]]
  obtain i ty' where f: "find_msg ty (q_message (queue_of s q)) 0 None = (i, ty')" by fastforce
  show ?thesis
  proof (cases i)
    case None
    have "ipc_wf (upd_queue q (q_receiver_update g) s)" for g
      by (rule ipc_wf_queue [OF wf]) (use ok in \<open>simp_all add: queue_ok_def\<close>)
    moreover have "ipc_wf (s\<lparr>receiver_of := g\<rparr>)" if "ipc_wf s" for g s
      using that by (rule ipc_wf_cong) simp_all
    ultimately show ?thesis using None f run wf que False by (auto simp: sys_msgrcv_def Let_def split: if_splits)
  next
    case (Some j)
    let ?s = "upd_queue q (\<lambda>x. x\<lparr>q_message := take j (q_message x) @ drop (j + 1) (q_message x),
        sum_msg := sum_msg x - 1, q_sender := []\<rparr>) s"
    have j: "j < length (q_message (queue_of s q))" using find_msg_bound [OF f [unfolded Some]] by simp
    have "ipc_wf ?s"
      by (rule ipc_wf_queue [OF wf]) (use ok j in \<open>auto simp: queue_ok_def min_def\<close>)
    then have "ipc_wf (ss_wakeup (q_sender (queue_of s q)) ?s)"
      by (rule same_core_wf [OF same_core_steps(3)])
    then show ?thesis using Some f run wf que False rcv_finish_wf
      by (auto simp: sys_msgrcv_def Let_def split: if_splits)
  qed
qed

lemma fold_free_msg: "fold free_msg ms s = s\<lparr>pages := pages s + sum_list (map msg_pages ms)\<rparr>"
  by (induction ms arbitrary: s) (simp_all add: free_msg_def)

lemma freeque_eq:
  assumes "get_msgq ix s = Some (Some q)"
  shows "freeque ix s = Some (s\<lparr>entries := (entries s)[nat (ix smod SEQ_MULTIPLIER) := None], in_use := in_use s - 1,
      queue_of := (queue_of s)(q := (queue_of s q)\<lparr>q_message := [], q_receiver := []\<rparr>),
      pages := pages s + sum_list (map msg_pages (q_message (queue_of s q))),
      activated := activated s @ map (\<lambda>r. rproc (receiver_of s r)) (q_receiver (queue_of s q))\<rparr>)"
  using assms by (cases s, cases "queue_of s q") (simp add: freeque_def fold_free_msg ss_wakeup_def upd_queue_def Let_def)

lemma freeque_wf:
  assumes wf: "ipc_wf s" and run: "freeque ix s = Some s'"
  shows "ipc_wf s'"
proof (cases "get_msgq ix s = Some None")
  case True
  then show ?thesis using wf run by (simp add: freeque_def)
next
  case False
  then obtain q where que: "get_msgq ix s = Some (Some q)" using run by (auto simp: freeque_def bind_eq_Some_conv)
  note W = ipc_wfD [OF wf] and G = get_msgq_live [OF wf que]
  let ?i = "nat (ix smod SEQ_MULTIPLIER)"
  have s': "entries s' = (entries s)[?i := None]" "in_use s' = in_use s - 1" "next_seq s' = next_seq s"
      "key (queue_of s' p) = key (queue_of s p)" "p \<noteq> q \<Longrightarrow> queue_of s' p = queue_of s p" for p
    using run freeque_eq [OF que] by auto
  have ent: "entries s' ! j = (if j = ?i then None else entries s ! j)" if "j < 16" for j
    using that W(1) G(2) s'(1) by simp
  have lv: "p \<in> live s \<and> p \<noteq> q" if lp: "p \<in> live s'" for p
  proof -
    have "length (entries s') = 16" using W(1) s'(1) by simp
    then obtain j where j: "j < 16" "entries s' ! j = Some p" using lp live_nth [of s' p] by blast
    then have "j \<noteq> ?i" "entries s ! j = Some p" using ent [of j] by (metis option.distinct(1))+
    then show ?thesis using j(1) W(4) [of j ?i] G(2,3) live_nth [OF W(1), of p] by (metis option.distinct(1))
  qed
  show ?thesis
    unfolding ipc_wf_def slots_distinct_def keys_distinct_def
  proof (intro conjI allI impI ballI)
    show "length (entries s') = 16" "next_seq s' < 65536" using W(1,2) s' by simp_all
    show "in_use s' = int (length (filter (\<lambda>e. e \<noteq> None) (entries s')))"
      using W(3) count_set(2) [of ?i "entries s"] G W(1) s'(1,2) by simp
    show "a = b" if "a < 16" "b < 16" "entries s' ! a \<noteq> None \<and> entries s' ! a = entries s' ! b" for a b
      using that W(4) [of a b] ent [of a] ent [of b] by (metis (no_types, lifting))
    show "a = b" if "a < 16" "b < 16" "entries s' ! a = Some p \<and> entries s' ! b = Some r \<and>
        key (queue_of s' p) = key (queue_of s' r) \<and> key (queue_of s' p) \<noteq> IPC_PRIVATE" for a b p r
      using that W(5) [of a b p r] ent [of a] ent [of b] s'(4) by (auto split: if_splits)
    show "queue_ok (queue_of s' p)" if "p \<in> live s'" for p
      using lv [OF that] W(6) s'(5) by simp
  qed
qed

lemma findkey_unique:
  assumes wf: "ipc_wf s" and i: "i < 16" "entries s ! i = Some p" "key (queue_of s p) = k" "k \<noteq> IPC_PRIVATE"
  shows "ipc_findkey k s = int i"
proof -
  have "List.find (\<lambda>ix. case entries s ! ix of None \<Rightarrow> False | Some q \<Rightarrow> key (queue_of s q) = k) [0..<16] = Some i"
    using i ipc_wfD(5) [OF wf] by (intro find_SomeI) (auto split: option.splits)
  then show ?thesis by (simp add: ipc_findkey_def)
qed

lemma findkey_found:
  assumes "ipc_findkey k s \<noteq> -1"
  obtains i p where "ipc_findkey k s = int i" and "i < 16" and "entries s ! i = Some p" and "key (queue_of s p) = k"
  using assms find_Some_iff [where P = "\<lambda>ix. case entries s ! ix of None \<Rightarrow> False | Some q \<Rightarrow> key (queue_of s q) = k"]
  by (fastforce simp: ipc_findkey_def split: option.splits)

lemma msgget_again:
  assumes wf: "ipc_wf s" and i: "i < 16" "entries s ! i = Some p"
    and k: "key (queue_of s p) = k" "k \<noteq> IPC_PRIVATE"
  shows "sys_msgget k 0 que s = (ipc_buildin (int i) (seq (queue_of s p)), s)"
  using findkey_unique [OF wf i k] i k(2) by (simp add: sys_msgget_def)

section \<open>Reachable states\<close>

text \<open>
  The system calls in any order, by any processes; a new queue is at an address that no
  queue in the table has, and a sender that was put to sleep tries again with its message.
\<close>

inductive ipc_step :: "ipc_ids \<Rightarrow> ipc_ids \<Rightarrow> bool" where
  get: "(\<And>q. que = Some q \<Longrightarrow> q \<notin> live s) \<Longrightarrow> ipc_step s (snd (sys_msgget k flg que s))"
| send: "sys_msgsnd p msgid msgp msgsz flg s = Some (r, s') \<Longrightarrow> ipc_step s s'"
| retry: "msgsnd_try p msgid m flg s = Some (r, s') \<Longrightarrow> ipc_step s s'"
| receive: "sys_msgrcv p rc msgid buf msgsz ty flg s = Some (r, s') \<Longrightarrow> ipc_step s s'"
| resume: "msgrcv_resume rc b msgsz s = Some (r, s') \<Longrightarrow> ipc_step s s'"
| control: "sys_msgctl msgid cmd s = Some (r, s') \<Longrightarrow> ipc_step s s'"

inductive ipc_reachable :: "ipc_ids \<Rightarrow> bool" where
  ipc_start: "ipc_reachable (init_ipc s)"
| ipc_next: "ipc_reachable s \<Longrightarrow> ipc_step s s' \<Longrightarrow> ipc_reachable s'"

lemma ipc_init_wf: "ipc_wf (init_ipc s)"
  by (simp add: ipc_wf_def init_ipc_def live_def slots_distinct_def keys_distinct_def)

lemma ipc_step_wf: "ipc_step s s' \<Longrightarrow> ipc_wf s \<Longrightarrow> ipc_wf s'"
proof (induction rule: ipc_step.induct)
  case (resume rc b msgsz s r s')
  then show ?case by (auto simp: msgrcv_resume_def intro: rcv_finish_wf split: rcv_msg.splits)
next
  case (control msgid cmd s r s')
  then show ?case by (auto simp: sys_msgctl_def intro: freeque_wf split: if_splits)
qed (blast intro: get_wf msgsnd_wf msgsnd_try_wf msgrcv_wf)+

lemma ipc_reachable_wf: "ipc_reachable s \<Longrightarrow> ipc_wf s"
  by (induction rule: ipc_reachable.induct) (auto intro: ipc_init_wf ipc_step_wf)

section \<open>Properties\<close>

text \<open>
  (C26) The queue table is consistent in every reachable state: \<^verbatim>\<open>in_use\<close> counts the
  queues, no two entries name the same queue or have the same key (other than
  \<^verbatim>\<open>IPC_PRIVATE\<close>), and the counter of every queue is the number of its messages, which
  never exceeds \<^verbatim>\<open>MAX_MSGNUM\<close>.
\<close>
theorem ipc_table_consistent:
  assumes "ipc_reachable s"
  shows "ipc_wf s"
  by (rule ipc_reachable_wf [OF assms])

text \<open>
  An identifier returned by \<^verbatim>\<open>sys_msgget\<close> names a queue with the requested key, and
  asking for the same key again, without \<^verbatim>\<open>IPC_EXCL\<close>, returns the same identifier and
  changes nothing. A failure leaves the table as it was.
\<close>
theorem msgget_names_queue:
  assumes "ipc_reachable s" and "q \<notin> live s" and "sys_msgget k flg (Some q) s = (r, s')"
  shows "(r \<ge> 0 \<longrightarrow> (\<exists>p. get_msgq r s' = Some (Some p) \<and> key (queue_of s' p) = k) \<and>
      (k \<noteq> IPC_PRIVATE \<longrightarrow> sys_msgget k 0 que s' = (r, s'))) \<and> (r < 0 \<longrightarrow> s' = s)"
proof -
  have wf: "ipc_wf s" using ipc_reachable_wf [OF assms(1)] .
  have err: "(r < 0 \<and> s' = s) \<or> (ipc_wf s' \<and> (\<exists>i p. i < 16 \<and> entries s' ! i = Some p \<and> key (queue_of s' p) = k \<and>
      r = ipc_buildin (int i) (seq (queue_of s' p))))"
  proof (cases "k = IPC_PRIVATE \<or> ipc_findkey k s = -1")
    case True
    show ?thesis
    proof (cases "List.find (\<lambda>ix. entries s ! ix = None) [0..<16]")
      case None
      then show ?thesis using newque_full [of "Some q" s k] assms(3) True
        by (auto simp: sys_msgget_def split: if_splits)
    next
      case (Some i)
      from newque_new [OF wf assms(2) True Some] obtain s1 where
        n: "newque k (Some q) s = (ipc_buildin (int i) (int (next_seq s)), s1)" "ipc_wf s1" "i < 16"
          "entries s1 = (entries s)[i := Some q]" "key (queue_of s1 q) = k" "seq (queue_of s1 q) = int (next_seq s)"
        by (metis msg_queue.select_convs(1,2))
      then have "entries s1 ! i = Some q" using ipc_wfD(1) [OF wf] by simp
      with n assms(3) True show ?thesis by (auto simp: sys_msgget_def split: if_splits)
    qed
  next
    case False
    then obtain i p where "ipc_findkey k s = int i" "i < 16" "entries s ! i = Some p" "key (queue_of s p) = k"
      using findkey_found by blast
    with False wf assms(3) show ?thesis by (auto simp: sys_msgget_def Let_def split: if_splits)
  qed
  then show ?thesis
  proof (elim disjE conjE exE)
    fix i p assume wf': "ipc_wf s'" and i: "i < 16" "entries s' ! i = Some p" "key (queue_of s' p) = k"
      "r = ipc_buildin (int i) (seq (queue_of s' p))"
    have "p \<in> live s'" using i live_nth [OF ipc_wfD(1) [OF wf']] by blast
    then have "r \<ge> 0" using i(4) ipc_wfD(6) [OF wf'] by (auto simp: ipc_buildin_def queue_ok_def)
    then show ?thesis using get_msgq_buildin [OF wf' i(1,2)] msgget_again [OF wf' i(1,2,3)] i(3,4) by auto
  qed simp
qed


text \<open>
  A message passes through the queue. Sending a message of at most one page to an
  existing queue that is empty and has no receivers succeeds, and the next receive of any
  type with a large enough buffer returns its length, its type and its bytes, and gives
  back the page it occupied.
\<close>
theorem msg_send_receive:
  assumes "ipc_reachable s" and "get_msgq msgid s = Some (Some q)"
    and "q_message (queue_of s q) = []" and "q_receiver (queue_of s q) = []"
    and "1 \<le> ty" and "0 \<le> sz" and "sz \<le> int MSG_MSGSZ" and "0 < pages s" and "sz \<le> n"
  shows "\<exists>s' s''. sys_msgsnd p msgid (Some (ty, src)) sz flg s = Some (Sent 0, s') \<and>
    sys_msgrcv p' r msgid (Some dst) n 0 flg' s' =
      Some (Received sz (Some (ty, \<lambda>i. if i < nat sz then src i else dst i)), s'') \<and> pages s'' = pages s"
proof -
  have wf: "ipc_wf s" using ipc_reachable_wf [OF assms(1)] .
  have ok: "queue_ok (queue_of s q)" using ipc_wfD(6) [OF wf] get_msgq_live(1) [OF wf assms(2)] .
  let ?m = "\<lparr>mtype = ty, msize = nat sz, mdata = map src [0..<nat sz], msegs = []\<rparr>"
  let ?s1 = "s\<lparr>pages := pages s - 1\<rparr>"
  let ?s' = "upd_queue q (\<lambda>x. x\<lparr>q_message := q_message x @ [?m], sum_msg := sum_msg x + 1\<rparr>) ?s1"
  have ld: "load_msg src (nat sz) s = (Some \<lparr>mtype = 0, msize = 0, mdata = map src [0..<nat sz], msegs = []\<rparr>, ?s1)"
    using assms(6-8) by (simp add: load_msg_def load_segs.simps min_def)
  have g: "get_msgq msgid ?s1 = Some (Some q)" "get_msgq msgid ?s' = Some (Some q)"
    using assms(2) by (auto simp: get_msgq_def Let_def split: if_splits option.splits)
  have "pipeline_send q ?m ?s1 = Some (False, ?s1)"
    using assms(4) by (simp add: pipeline_send_def pipeline_loop.simps)
  then have send: "sys_msgsnd p msgid (Some (ty, src)) sz flg s = Some (Sent 0, ?s')"
    using ok assms(3,5,6) ld g(1) by (simp add: sys_msgsnd_def msgsnd_try_def queue_ok_def)
  have "nat sz \<le> MSG_MSGSZ" using assms(6,7) by linarith
  then have store: "store_msg dst ?m (nat sz) = Some (\<lambda>i. if i < nat sz then src i else dst i)"
    by (auto simp: store_msg_def store_segs.simps write_at_def Let_def)
  have "find_msg 0 (q_message (queue_of ?s' q)) 0 None = (Some 0, 0)"
    using assms(3) by (simp add: testmsg_def)
  moreover have "min (nat n) (nat sz) = nat sz" "\<not> n < 0" "\<not> int (nat sz) > n" using assms(6,9) by auto
  ultimately have "\<exists>s''. sys_msgrcv p' r msgid (Some dst) n 0 flg' ?s' =
      Some (Received sz (Some (ty, \<lambda>i. if i < nat sz then src i else dst i)), s'') \<and> pages s'' = pages s"
    using g(2) store assms(3,6,8)
    by (simp add: sys_msgrcv_def rcv_finish_def ss_wakeup_def free_msg_def msg_pages_def Let_def)
  with send show ?thesis by blast
qed

text \<open>The loop over the receivers: the first one that accepts the type decides.\<close>

definition accepts :: "ipc_ids \<Rightarrow> msg_msg \<Rightarrow> nat \<Rightarrow> bool" where
  "accepts s m r \<longleftrightarrow> testmsg (rtype (receiver_of s r)) (mtype m)"

lemma next_node_mid:
  assumes "distinct (pre @ r # post)"
  shows "next_node (pre @ r # post) r = (case post of [] \<Rightarrow> None | y # _ \<Rightarrow> Some y)"
proof -
  have "dropWhile ((\<noteq>) r) (pre @ r # post) = r # post"
    using assms by (subst dropWhile_append2) auto
  then show ?thesis by (simp add: next_node_def split: list.split)
qed

lemma pipeline_stuck:
  assumes "pipeline_loop q m node s = Some res"
  shows "\<not> (\<exists>r. node = Some r \<and> accepts s m r \<and> rsize (receiver_of s r) < msize m)"
  using assms
proof (rule pipeline_loop.raw_induct [where P =
    "\<lambda>q m node s res. \<not> (\<exists>r. node = Some r \<and> accepts s m r \<and> rsize (receiver_of s r) < msize m)", rotated])
  fix loop q m node s and res :: "bool \<times> ipc_ids"
  assume IH: "\<And>q m node s res. loop q m node s = Some res \<Longrightarrow>
      \<not> (\<exists>r. node = Some r \<and> accepts s m r \<and> rsize (receiver_of s r) < msize m)"
    and run: "(case node of
        None \<Rightarrow> Some (False, s)
      | Some n \<Rightarrow>
          let x = receiver_of s n in
          if testmsg (rtype x) (mtype m) then
            let s = upd_queue q (q_receiver_update (removeAll n)) s in
            if msize m > rsize x then
              let s = activate_proc (rproc x) (set_rmsg n Null s)
              in loop q m (next_node (q_receiver (queue_of s q)) n) s
            else Some (True, activate_proc (rproc x) (set_rmsg n (Got m) s))
          else loop q m (next_node (q_receiver (queue_of s q)) n) s) = Some res"
  show "\<not> (\<exists>r. node = Some r \<and> accepts s m r \<and> rsize (receiver_of s r) < msize m)"
  proof
    assume "\<exists>r. node = Some r \<and> accepts s m r \<and> rsize (receiver_of s r) < msize m"
    then obtain r where r: "node = Some r" "accepts s m r" "rsize (receiver_of s r) < msize m" by blast
    let ?s = "activate_proc (rproc (receiver_of s r)) (set_rmsg r Null (upd_queue q (q_receiver_update (removeAll r)) s))"
    have "r \<notin> set (q_receiver (queue_of ?s q))" by (simp add: activate_proc_def set_rmsg_def)
    then have "dropWhile ((\<noteq>) r) (q_receiver (queue_of ?s q)) = []" by (auto simp: dropWhile_eq_Nil_conv)
    then have self: "next_node (q_receiver (queue_of ?s q)) r = Some r" unfolding next_node_def by (simp only: list.case)
    have "loop q m (Some r) ?s = Some res" using run r self by (simp add: accepts_def Let_def)
    from IH [OF this] r(2,3) show False
      by (simp add: accepts_def activate_proc_def set_rmsg_def)
  qed
qed

lemma pipeline_loop_list:
  assumes "distinct (q_receiver (queue_of s q))" and "q_receiver (queue_of s q) = pre @ post"
  shows "pipeline_loop q m (case post of [] \<Rightarrow> None | r # _ \<Rightarrow> Some r) s =
    (case List.find (accepts s m) post of
       None \<Rightarrow> Some (False, s)
     | Some r \<Rightarrow>
         if rsize (receiver_of s r) < msize m then None
         else Some (True, activate_proc (rproc (receiver_of s r)) (set_rmsg r (Got m)
                (upd_queue q (q_receiver_update (removeAll r)) s))))"
  using assms
proof (induction post arbitrary: pre)
  case Nil
  then show ?case by (simp add: pipeline_loop.simps)
next
  case (Cons r post)
  show ?case
  proof (cases "accepts s m r")
    case acc: True
    show ?thesis
    proof (cases "rsize (receiver_of s r) < msize m")
      case True
      then have "pipeline_loop q m (Some r) s = None"
        using pipeline_stuck acc by (metis not_None_eq)
      then show ?thesis using acc True by simp
    next
      case False
      then show ?thesis using acc by (subst pipeline_loop.simps) (simp add: accepts_def Let_def)
    qed
  next
    case False
    have "next_node (q_receiver (queue_of s q)) r = (case post of [] \<Rightarrow> None | y # _ \<Rightarrow> Some y)"
      using Cons.prems next_node_mid [of pre r post] by simp
    then have "pipeline_loop q m (Some r) s = pipeline_loop q m (case post of [] \<Rightarrow> None | y # _ \<Rightarrow> Some y) s"
      using False by (subst pipeline_loop.simps) (simp add: accepts_def Let_def)
    also have "\<dots> = (case List.find (accepts s m) post of
       None \<Rightarrow> Some (False, s)
     | Some r \<Rightarrow>
         if rsize (receiver_of s r) < msize m then None
         else Some (True, activate_proc (rproc (receiver_of s r)) (set_rmsg r (Got m)
                (upd_queue q (q_receiver_update (removeAll r)) s))))"
      using Cons.prems by (intro Cons.IH [of "pre @ [r]"]) simp_all
    finally show ?thesis using False by simp
  qed
qed

text \<open>
  (C27) When a send with waiting receivers returns. The first receiver that accepts the
  type gets the message and is woken, if its buffer is large enough; if none accepts, the
  message is left to be queued. If that first receiver's buffer is too small, the loop
  never ends, with the lock of the table held: the receiver is detached, so its node is
  linked to itself and the loop stays on it.
\<close>
theorem pipeline_send_exact:
  assumes "distinct (q_receiver (queue_of s q))"
  shows "pipeline_send q m s =
    (case List.find (accepts s m) (q_receiver (queue_of s q)) of
       None \<Rightarrow> Some (False, s)
     | Some r \<Rightarrow>
         if rsize (receiver_of s r) < msize m then None
         else Some (True, activate_proc (rproc (receiver_of s r)) (set_rmsg r (Got m)
                (upd_queue q (q_receiver_update (removeAll r)) s))))"
  using pipeline_loop_list [OF assms, of "[]"] by (simp add: pipeline_send_def)

text \<open>
  Which message a receive takes. With a type of at least \<open>-1\<close> it is the first message
  of the queue that matches; with a lower one the search goes on after a match with the
  bound raised by one only, so that it can pass over the lowest type: of the queue with
  types 2 and 3, a receive with \<open>-5\<close> takes the second message.
\<close>
theorem find_msg_order:
  "(ty \<ge> -1 \<longrightarrow> fst (find_msg ty ms 0 None) = List.find (\<lambda>i. testmsg ty (mtype (ms ! i))) [0..<length ms]) \<and>
   fst (find_msg (-5) [\<lparr>mtype = 2, msize = 0, mdata = [], msegs = []\<rparr>, \<lparr>mtype = 3, msize = 0, mdata = [], msegs = []\<rparr>] 0 None) = Some 1"
proof -
  have "fst (find_msg ty (drop k ms) k None) = List.find (\<lambda>i. testmsg ty (mtype (ms ! i))) [k..<length ms]"
    if "ty \<ge> -1" "k \<le> length ms" for k
    using that(2)
  proof (induction "length ms - k" arbitrary: k)
    case 0
    then show ?case by simp
  next
    case (Suc n)
    then have k: "k < length ms" by simp
    then have "drop k ms = ms ! k # drop (Suc k) ms" "[k..<length ms] = k # [Suc k..<length ms]"
      by (simp_all add: Cons_nth_drop_Suc upt_conv_Cons)
    then show ?case using Suc.hyps(1) [of "Suc k"] Suc.hyps(2) k that(1) by simp
  qed
  from this [of 0] show ?thesis by (simp add: testmsg_def)
qed

text \<open>
  (C29) What the removal of a queue does: the identifier is stale afterwards, the pages of
  the queued messages are free again, and the processes woken are exactly the waiting
  receivers, whose \<^verbatim>\<open>r_msg\<close> is not set; the waiting senders are not woken.
\<close>
theorem msgctl_remove:
  assumes "ipc_reachable s" and "get_msgq msgid s = Some (Some q)"
  shows "\<exists>s'. sys_msgctl msgid IPC_RMID s = Some (0, s') \<and> get_msgq msgid s' = Some None \<and> q \<notin> live s' \<and>
    pages s' = pages s + sum_list (map msg_pages (q_message (queue_of s q))) \<and>
    activated s' = activated s @ map (\<lambda>r. rproc (receiver_of s r)) (q_receiver (queue_of s q)) \<and>
    receiver_of s' = receiver_of s"
proof -
  have wf: "ipc_wf s" using ipc_reachable_wf [OF assms(1)] .
  note G = get_msgq_live [OF wf assms(2)] and W = ipc_wfD [OF wf]
  let ?i = "nat (msgid smod SEQ_MULTIPLIER)"
  obtain s' where s': "freeque msgid s = Some s'" "entries s' = (entries s)[?i := None]"
      "pages s' = pages s + sum_list (map msg_pages (q_message (queue_of s q)))"
      "activated s' = activated s @ map (\<lambda>r. rproc (receiver_of s r)) (q_receiver (queue_of s q))"
      "receiver_of s' = receiver_of s"
    using freeque_eq [OF assms(2)] by simp
  have "get_msgq msgid s' = Some None"
    using assms(2) s'(2) G(2) W(1) by (auto simp: get_msgq_def Let_def split: if_splits)
  moreover have "q \<notin> live s'"
  proof
    assume "q \<in> live s'"
    moreover have "length (entries s') = 16" using W(1) s'(2) by simp
    ultimately obtain j where j: "j < 16" "entries s' ! j = Some q" using live_nth [of s' q] by blast
    then have "j \<noteq> ?i" "entries s ! j = Some q" using s'(2) W(1) G(2) by (auto simp: nth_list_update split: if_splits)
    then show False using W(4) [of j ?i] G(2,3) j(1) by simp
  qed
  ultimately show ?thesis using s' by (simp add: sys_msgctl_def)
qed

section \<open>Examples\<close>

text \<open>One queue with key 7 at address 3, and a page for messages.\<close>

definition demo_ipc0 :: ipc_ids where
  "demo_ipc0 = init_ipc \<lparr>in_use = 0, next_seq = 0, entries = [],
     queue_of = (\<lambda>_. \<lparr>key = 0, seq = 0, max_msg = 0, sum_msg = 0, q_message = [], q_sender = [], q_receiver = []\<rparr>),
     receiver_of = (\<lambda>_. \<lparr>rproc = 0, rtype = 0, rsize = 0, r_msg = Uninit\<rparr>), pages = 4, activated = []\<rparr>"

definition demo_ipc :: ipc_ids where
  "demo_ipc = snd (sys_msgget 7 2 (Some 3) demo_ipc0)"

lemma demo_ipc0_reachable: "ipc_reachable demo_ipc0" "3 \<notin> live demo_ipc0"
  unfolding demo_ipc0_def by (rule ipc_start) (simp add: live_def init_ipc_def)

lemma demo_msgget_eq: "sys_msgget 7 2 (Some 3) demo_ipc0 = (0, demo_ipc0\<lparr>in_use := 1, next_seq := 1,
    entries := (replicate 16 None)[0 := Some 3],
    queue_of := (queue_of demo_ipc0)(3 := \<lparr>key = 7, seq = 0, max_msg = 256, sum_msg = 0, q_message = [],
      q_sender = [], q_receiver = []\<rparr>)\<rparr>)"
proof -
  have e: "entries demo_ipc0 = replicate 16 None" by (simp add: demo_ipc0_def init_ipc_def)
  have "ipc_findkey 7 demo_ipc0 = -1"
  proof -
    have "List.find (\<lambda>ix. case entries demo_ipc0 ! ix of None \<Rightarrow> False | Some q \<Rightarrow> key (queue_of demo_ipc0 q) = 7) [0..<16] = None"
      unfolding find_None_iff' by (simp add: e)
    then show ?thesis by (simp add: ipc_findkey_def)
  qed
  moreover have "List.find (\<lambda>ix. entries demo_ipc0 ! ix = None) [0..<16] = Some 0"
    by (simp add: e upt_conv_Cons)
  moreover have "bit (2 :: int) 1" by (simp add: bit_iff_odd)
  ultimately show ?thesis
    by (simp add: sys_msgget_def newque_def ipc_addid_def ipc_buildin_def upd_queue_def Let_def e)
      (simp add: demo_ipc0_def init_ipc_def)
qed

lemmas demo_ipc_eq = demo_ipc_def [unfolded demo_msgget_eq snd_conv]

lemma demo_msgget: "sys_msgget 7 2 (Some 3) demo_ipc0 = (0, demo_ipc)"
  by (simp only: demo_msgget_eq demo_ipc_eq)

lemma demo_ipc_reachable: "ipc_reachable demo_ipc"
  unfolding demo_ipc_def using demo_ipc0_reachable by (auto intro!: ipc_next [OF _ ipc_step.get])

lemma demo_get_msgq: "get_msgq 0 demo_ipc = Some (Some 3)"
  by (simp add: get_msgq_def demo_ipc_eq demo_ipc0_def)

theorem ipc_table_consistent_witness: "ipc_wf demo_ipc"
  by (rule ipc_table_consistent [OF demo_ipc_reachable])

theorem msgget_names_queue_witness: "sys_msgget 7 0 None demo_ipc = (0, demo_ipc)"
  using msgget_names_queue [OF demo_ipc0_reachable demo_msgget, of None] by simp


theorem msg_send_receive_witness:
  "\<exists>s' s''. sys_msgsnd 1 0 (Some (5, \<lambda>_. 9)) 3 0 demo_ipc = Some (Sent 0, s') \<and>
    sys_msgrcv 2 0 0 (Some (\<lambda>_. 0)) 10 0 0 s' =
      Some (Received 3 (Some (5, \<lambda>i. if i < nat 3 then 9 else 0)), s'') \<and> pages s'' = pages demo_ipc"
  by (rule msg_send_receive [OF demo_ipc_reachable demo_get_msgq])
    (simp_all add: demo_ipc_eq demo_ipc0_def init_ipc_def)

theorem pipeline_send_exact_witness:
  "pipeline_send 3 \<lparr>mtype = 5, msize = 8, mdata = [], msegs = []\<rparr>
     (upd_queue 3 (q_receiver_update (\<lambda>_. [0])) demo_ipc) = None"
proof -
  let ?s = "upd_queue 3 (q_receiver_update (\<lambda>_. [0])) demo_ipc"
  have "distinct (q_receiver (queue_of ?s 3))" by simp
  from pipeline_send_exact [OF this, of "\<lparr>mtype = 5, msize = 8, mdata = [], msegs = []\<rparr>"] show ?thesis
    by (simp add: accepts_def testmsg_def demo_ipc_eq demo_ipc0_def init_ipc_def)
qed

theorem find_msg_order_witness:
  "fst (find_msg 3 [\<lparr>mtype = 2, msize = 0, mdata = [], msegs = []\<rparr>, \<lparr>mtype = 3, msize = 0, mdata = [], msegs = []\<rparr>] 0 None) = Some 1"
  using find_msg_order [of 3 "[\<lparr>mtype = 2, msize = 0, mdata = [], msegs = []\<rparr>, \<lparr>mtype = 3, msize = 0, mdata = [], msegs = []\<rparr>]"]
  by (simp add: testmsg_def upt_rec)

theorem msgctl_remove_witness:
  "\<exists>s'. sys_msgctl 0 IPC_RMID demo_ipc = Some (0, s') \<and> get_msgq 0 s' = Some None"
  using msgctl_remove [OF demo_ipc_reachable demo_get_msgq] by blast

end
