(* ===== verification/Rbtree.thy ===== *)
theory Rbtree
  imports Kernel_Prelude
begin

unbundle bit_operations_syntax

text \<open>
  \<^verbatim>\<open>src/src/common/rbtree.c\<close>: intrusive red-black trees. A heap holds for every node address
  the word \<^verbatim>\<open>__rb_parent_color\<close>, which packs the parent's address with the colour in
  bit 0, and the two child pointers; \<open>root\<close> is \<^verbatim>\<open>rb_root->rb_node\<close>. The mirror-image branches
  of the code are one definition with a side: \<open>False\<close> is left and \<open>True\<close> is right. \<open>None\<close> is
  the dereference of a null pointer or a loop that does not end. The comparison function
  is an argument, as in the code.
\<close>

type_synonym addr = "64 word"

record rb_heap =
  pc :: "addr \<Rightarrow> 64 word"
  rgt :: "addr \<Rightarrow> addr"
  lft :: "addr \<Rightarrow> addr"
  root :: addr

abbreviation RB_RED :: "64 word" where "RB_RED \<equiv> 0"
abbreviation RB_BLACK :: "64 word" where "RB_BLACK \<equiv> 1"

section \<open>Fields\<close>

definition parent_of :: "64 word \<Rightarrow> addr" where
  "parent_of w = w AND NOT 3"

definition is_black :: "64 word \<Rightarrow> bool" where
  "is_black w \<longleftrightarrow> w AND 1 \<noteq> 0"

definition rb_parent :: "rb_heap \<Rightarrow> addr \<Rightarrow> addr" where
  "rb_parent h a = parent_of (pc h a)"

definition rb_is_black :: "rb_heap \<Rightarrow> addr \<Rightarrow> bool" where
  "rb_is_black h a \<longleftrightarrow> is_black (pc h a)"

definition rb_is_red :: "rb_heap \<Rightarrow> addr \<Rightarrow> bool" where
  "rb_is_red h a \<longleftrightarrow> \<not> is_black (pc h a)"

definition rb_red_parent :: "rb_heap \<Rightarrow> addr \<Rightarrow> addr" where
  "rb_red_parent h a = pc h a"

definition set_pc :: "addr \<Rightarrow> 64 word \<Rightarrow> rb_heap \<Rightarrow> rb_heap" where
  "set_pc a w h = h\<lparr>pc := (pc h)(a := w)\<rparr>"

definition child :: "bool \<Rightarrow> rb_heap \<Rightarrow> addr \<Rightarrow> addr" where
  "child d h a = (if d then rgt h a else lft h a)"

definition set_child :: "bool \<Rightarrow> addr \<Rightarrow> addr \<Rightarrow> rb_heap \<Rightarrow> rb_heap" where
  "set_child d a x h = (if d then h\<lparr>rgt := (rgt h)(a := x)\<rparr> else h\<lparr>lft := (lft h)(a := x)\<rparr>)"

definition rb_set_black :: "addr \<Rightarrow> rb_heap \<Rightarrow> rb_heap" where
  "rb_set_black a h = set_pc a (pc h a OR RB_BLACK) h"

definition rb_set_parent :: "addr \<Rightarrow> addr \<Rightarrow> rb_heap \<Rightarrow> rb_heap" where
  "rb_set_parent a p h = set_pc a ((pc h a AND 1) OR p) h"

definition rb_set_parent_color :: "addr \<Rightarrow> addr \<Rightarrow> 64 word \<Rightarrow> rb_heap \<Rightarrow> rb_heap" where
  "rb_set_parent_color a p color h = set_pc a (p OR color) h"

definition rb_change_child :: "addr \<Rightarrow> addr \<Rightarrow> addr \<Rightarrow> rb_heap \<Rightarrow> rb_heap" where
  "rb_change_child old new parent h =
     (if parent \<noteq> 0 then
        if lft h parent = old then set_child False parent new h else set_child True parent new h
      else h\<lparr>root := new\<rparr>)"

definition rb_rotate_set_parents :: "addr \<Rightarrow> addr \<Rightarrow> 64 word \<Rightarrow> rb_heap \<Rightarrow> rb_heap" where
  "rb_rotate_set_parents old new color h =
     (let parent = rb_parent h old;
          h = set_pc new (pc h old) h;
          h = rb_set_parent_color old new color h
      in rb_change_child old new parent h)"

section \<open>Insertion\<close>

text \<open>
  Cases 2 and 3: the parent is on side \<open>d\<close> of the grandparent and the uncle is black. In
  case 2 the node is on the other side of its parent and is rotated into its place.
\<close>

definition insert_case2 :: "bool \<Rightarrow> addr \<Rightarrow> addr \<Rightarrow> rb_heap \<Rightarrow> rb_heap" where
  "insert_case2 d node parent h =
     (let tmp = child d h node;
          h = set_child (\<not> d) parent tmp h;
          h = (if tmp \<noteq> 0 then rb_set_parent_color tmp parent RB_BLACK h else h);
          h = set_child d node parent h
      in rb_set_parent_color parent node RB_RED h)"

definition insert_case3 :: "bool \<Rightarrow> addr \<Rightarrow> addr \<Rightarrow> addr \<Rightarrow> rb_heap \<Rightarrow> rb_heap" where
  "insert_case3 d parent gparent tmp h =
     (let h = set_child d gparent tmp h;
          h = (if tmp \<noteq> 0 then rb_set_parent_color tmp gparent RB_BLACK h else h);
          h = set_child (\<not> d) parent gparent h
      in rb_rotate_set_parents gparent parent RB_RED h)"

definition insert_rotate :: "bool \<Rightarrow> addr \<Rightarrow> addr \<Rightarrow> addr \<Rightarrow> rb_heap \<Rightarrow> rb_heap" where
  "insert_rotate d node parent gparent h =
     (let tmp = child (\<not> d) h parent in
      if node = tmp then
        let h = insert_case2 d node parent h
        in insert_case3 d node gparent (child (\<not> d) h node) h
      else insert_case3 d parent gparent tmp h)"

partial_function (option) rb_insert_fix :: "addr \<Rightarrow> addr \<Rightarrow> rb_heap \<Rightarrow> rb_heap option" where
  "rb_insert_fix node parent h =
     (if parent = 0 then Some ((rb_set_parent_color node 0 RB_BLACK h)\<lparr>root := node\<rparr>)
      else if rb_is_black h parent then Some h
      else
        let gparent = rb_red_parent h parent in
        if gparent = 0 then None
        else
          let d = (parent = rgt h gparent);
              tmp = child (\<not> d) h gparent
          in if tmp \<noteq> 0 \<and> rb_is_red h tmp then
               let h = rb_set_parent_color tmp gparent RB_BLACK h;
                   h = rb_set_parent_color parent gparent RB_BLACK h;
                   node = gparent;
                   parent = rb_parent h node;
                   h = rb_set_parent_color node parent RB_RED h
               in rb_insert_fix node parent h
             else Some (insert_rotate d node parent gparent h))"

text \<open>The search of \<^verbatim>\<open>_rb_insert\<close>: \<open>False\<close> when a node compares equal.\<close>

partial_function (option) rb_descend ::
  "(addr \<Rightarrow> addr \<Rightarrow> bool) \<Rightarrow> addr \<Rightarrow> addr \<Rightarrow> rb_heap \<Rightarrow> (bool \<times> rb_heap) option" where
  "rb_descend cmp node nw h =
     (if nw = 0 then Some (True, h)
      else
        let parent = nw in
        if cmp node nw then
          let nw = lft h nw;
              h = (if nw = 0 then set_pc node parent (set_child False parent node h) else h)
          in rb_descend cmp node nw h
        else if cmp nw node then
          let nw = rgt h nw;
              h = (if nw = 0 then set_pc node parent (set_child True parent node h) else h)
          in rb_descend cmp node nw h
        else Some (False, h))"

definition rb_insert :: "(addr \<Rightarrow> addr \<Rightarrow> bool) \<Rightarrow> addr \<Rightarrow> rb_heap \<Rightarrow> (int \<times> rb_heap) option" where
  "rb_insert cmp node h =
     (let nw = root h;
          h = set_pc node 0 (set_child False node 0 (set_child True node 0 h))
      in case rb_descend cmp node nw h of
           None \<Rightarrow> None
         | Some (False, h) \<Rightarrow> Some (-1, h)
         | Some (True, h) \<Rightarrow> map_option (\<lambda>h. (0, h)) (rb_insert_fix node (rb_red_parent h node) h))"

section \<open>Removal\<close>

text \<open>The \<^verbatim>\<open>do ... while\<close> loop of \<^verbatim>\<open>__rb_erase\<close>, from a node with a left child \<open>tmp\<close>.\<close>

partial_function (option) rb_leftmost :: "addr \<Rightarrow> addr \<Rightarrow> rb_heap \<Rightarrow> (addr \<times> addr) option" where
  "rb_leftmost successor tmp h =
     (let parent = successor; successor = tmp; tmp = lft h tmp in
      if tmp \<noteq> 0 then rb_leftmost successor tmp h else Some (parent, successor))"

text \<open>\<^verbatim>\<open>__rb_erase\<close> returns the node to rebalance from.\<close>

definition rb_erase1 :: "addr \<Rightarrow> rb_heap \<Rightarrow> (addr \<times> rb_heap) option" where
  "rb_erase1 node h =
     (let ch = rgt h node; tmp = lft h node; w = pc h node; parent = parent_of w in
      if tmp = 0 then
        let h = rb_change_child node ch parent h
        in if ch \<noteq> 0 then Some (0, set_pc ch w h) else Some (if is_black w then parent else 0, h)
      else if ch = 0 then
        Some (0, rb_change_child node tmp parent (set_pc tmp w h))
      else
        map_option (\<lambda>(parent, successor, child2, h).
          let h = set_child False successor (lft h node) h;
              tmp = lft h node;
              h = rb_set_parent tmp successor h;
              w = pc h node;
              h = rb_change_child node successor (parent_of w) h
          in if child2 \<noteq> 0 then
               (0, rb_set_parent_color child2 parent RB_BLACK (set_pc successor w h))
             else (if is_black (pc h successor) then parent else 0, set_pc successor w h))
        (if lft h ch = 0 then Some (ch, ch, rgt h ch, h)
         else
           map_option (\<lambda>(parent, successor).
             let child2 = rgt h successor;
                 h = set_child False parent child2 h;
                 h = set_child True successor ch h
             in (parent, successor, child2, rb_set_parent ch successor h))
           (rb_leftmost ch (lft h ch) h)))"

text \<open>Case 4: the sibling's outer child \<open>tmp1\<close> is red; \<open>d\<close> is the side of the short subtree.\<close>

definition erase_case4 :: "bool \<Rightarrow> addr \<Rightarrow> addr \<Rightarrow> addr \<Rightarrow> rb_heap \<Rightarrow> rb_heap" where
  "erase_case4 d parent sibling tmp1 h =
     (let tmp2 = child d h sibling;
          h = set_child (\<not> d) parent tmp2 h;
          h = (if tmp2 \<noteq> 0 then rb_set_parent tmp2 parent h else h);
          h = set_child d sibling parent h;
          h = rb_set_parent_color tmp1 sibling RB_BLACK h
      in rb_rotate_set_parents parent sibling RB_BLACK h)"

text \<open>Case 3: the inner child \<open>tmp2\<close> of the sibling is red and the outer one is not.\<close>

definition erase_case3 :: "bool \<Rightarrow> addr \<Rightarrow> addr \<Rightarrow> addr \<Rightarrow> rb_heap \<Rightarrow> rb_heap" where
  "erase_case3 d parent sibling tmp2 h =
     (let tmp1 = child (\<not> d) h tmp2;
          h = set_child d sibling tmp1 h;
          h = (if tmp1 \<noteq> 0 then rb_set_parent_color tmp1 sibling RB_BLACK h else h);
          h = set_child (\<not> d) tmp2 sibling h
      in set_child (\<not> d) parent tmp2 h)"

text \<open>Case 1: the sibling is red; its inner child becomes the new sibling.\<close>

definition erase_case1 :: "bool \<Rightarrow> addr \<Rightarrow> addr \<Rightarrow> rb_heap \<Rightarrow> addr \<times> rb_heap" where
  "erase_case1 d parent sibling h =
     (let tmp1 = child d h sibling;
          h = set_child (\<not> d) parent tmp1 h;
          h = rb_set_parent_color tmp1 parent RB_BLACK h;
          h = set_child d sibling parent h
      in (tmp1, rb_rotate_set_parents parent sibling RB_RED h))"

text \<open>
  An iteration after case 1: cases 3 and 4 end the loop, case 2 makes the sibling red and
  goes on.
\<close>

definition erase_sibling :: "bool \<Rightarrow> addr \<Rightarrow> addr \<Rightarrow> rb_heap \<Rightarrow> bool \<times> rb_heap" where
  "erase_sibling d parent sibling h =
     (let tmp1 = child (\<not> d) h sibling in
      if tmp1 = 0 \<or> rb_is_black h tmp1 then
        let tmp2 = child d h sibling in
        if tmp2 = 0 \<or> rb_is_black h tmp2 then (False, rb_set_parent_color sibling parent RB_RED h)
        else (True, erase_case4 d parent tmp2 sibling (erase_case3 d parent sibling tmp2 h))
      else (True, erase_case4 d parent sibling tmp1 h))"

partial_function (option) rb_erase_fix :: "addr \<Rightarrow> addr \<Rightarrow> rb_heap \<Rightarrow> rb_heap option" where
  "rb_erase_fix node parent h =
     (let d = (node = rgt h parent);
          sibling = child (\<not> d) h parent
      in if sibling = 0 then None
         else
           let (sibling, h) = (if rb_is_red h sibling then erase_case1 d parent sibling h else (sibling, h))
           in if sibling = 0 then None
              else
                let (fin, h) = erase_sibling d parent sibling h in
                if fin then Some h
                else if rb_is_red h parent then Some (rb_set_black parent h)
                else
                  let node = parent; parent = rb_parent h node
                  in if parent \<noteq> 0 then rb_erase_fix node parent h else Some h)"

definition rb_erase :: "addr \<Rightarrow> rb_heap \<Rightarrow> rb_heap option" where
  "rb_erase node h =
     (case rb_erase1 node h of
        None \<Rightarrow> None
      | Some (rebalance, h) \<Rightarrow> if rebalance \<noteq> 0 then rb_erase_fix 0 rebalance h else Some h)"

section \<open>Search\<close>

partial_function (option) rb_lookup_from ::
  "(addr \<Rightarrow> addr \<Rightarrow> bool) \<Rightarrow> addr \<Rightarrow> addr \<Rightarrow> rb_heap \<Rightarrow> addr option" where
  "rb_lookup_from cmp node nw h =
     (if nw = 0 then Some 0
      else if cmp node nw then rb_lookup_from cmp node (lft h nw) h
      else if cmp nw node then rb_lookup_from cmp node (rgt h nw) h
      else Some nw)"

definition rb_lookup :: "(addr \<Rightarrow> addr \<Rightarrow> bool) \<Rightarrow> addr \<Rightarrow> rb_heap \<Rightarrow> addr option" where
  "rb_lookup cmp node h = rb_lookup_from cmp node (root h) h"

partial_function (option) rb_first_from :: "addr \<Rightarrow> rb_heap \<Rightarrow> addr option" where
  "rb_first_from n h = (if lft h n \<noteq> 0 then rb_first_from (lft h n) h else Some n)"

definition rb_first :: "rb_heap \<Rightarrow> addr option" where
  "rb_first h = (if root h = 0 then Some 0 else rb_first_from (root h) h)"

declare rb_insert_fix.simps [code] rb_first_from.simps [code] rb_descend.simps [code] rb_erase_fix.simps [code] rb_leftmost.simps [code]

end
