(* ===== verification/Rbtree_Rep.thy ===== *)
theory Rbtree_Rep
  imports Rbtree "HOL-Library.Multiset"
begin

text \<open>
  Red-black trees in the heap. \<open>rep h p t\<close> says that the heap holds the tree \<open>t\<close> of node
  addresses below the parent \<open>p\<close>; a position in a tree is a list of frames from the
  position up to the root, and \<open>crep\<close> is their representation. An update of a node
  outside a subtree does not affect it, which is what the simplification rules of this
  theory say.
\<close>

section \<open>Parent words\<close>

definition aligned :: "addr \<Rightarrow> bool" where
  "aligned a \<longleftrightarrow> a AND 3 = 0"

definition enc :: "addr \<Rightarrow> bool \<Rightarrow> 64 word" where
  "enc p b = p OR (if b then 1 else 0)"

lemma aligned_0 [simp]: "aligned 0"
  by (simp add: aligned_def)

lemma aligned_bits: "aligned a \<Longrightarrow> \<not> bit a 0 \<and> \<not> bit a 1"
proof -
  assume "aligned a"
  then have "\<not> bit (a AND 3) 0" "\<not> bit (a AND 3) 1" by (simp_all add: aligned_def)
  moreover have "bit (3 :: 64 word) 0" "bit (3 :: 64 word) 1" by (simp_all add: bit_numeral_rec)
  ultimately show ?thesis by (simp add: bit_and_iff)
qed

lemma enc_False [simp]: "enc p False = p"
  by (simp add: enc_def)

lemma enc_simps [simp]:
  assumes "aligned p"
  shows "parent_of (enc p b) = p" and "is_black (enc p b) = b" and "(enc p b AND 1) OR q = enc q b"
    and "enc p b OR 1 = enc p True" and "p OR 1 = enc p True"
proof -
  have 3: "bit (3 :: int) n \<longleftrightarrow> n = 0 \<or> n = 1" for n
    by (cases n; simp add: bit_numeral_rec bit_Suc) (metis One_nat_def Suc_pred bit_1_iff)
  show "parent_of (enc p b) = p"
    using aligned_bits [OF assms]
    by (intro bit_word_eqI) (auto simp: parent_of_def enc_def bit_simps bit_1_iff 3 intro!: gr0I)
  have b: "(enc p b AND 1) = (if b then 1 else 0)"
    using aligned_bits [OF assms] by (intro bit_word_eqI) (auto simp: enc_def bit_simps bit_1_iff intro!: gr0I)
  then show "is_black (enc p b) = b" by (simp add: is_black_def)
  show "(enc p b AND 1) OR q = enc q b" unfolding b by (simp add: enc_def or.commute)
  show "enc p b OR 1 = enc p True" "p OR 1 = enc p True" by (auto simp: enc_def or.assoc)
qed

lemma is_black_aligned [simp]: "aligned p \<Longrightarrow> \<not> is_black p"
  using enc_simps(2) [of p False] by simp

lemma parent_of_aligned [simp]: "aligned p \<Longrightarrow> parent_of p = p"
  using enc_simps(1) [of p False] by simp

section \<open>Trees and positions\<close>

datatype rbt = Lf | Nd rbt addr bool rbt

fun inorder :: "rbt \<Rightarrow> addr list" where
  "inorder Lf = []"
| "inorder (Nd l a b r) = inorder l @ a # inorder r"

fun ptr :: "rbt \<Rightarrow> addr" where
  "ptr Lf = 0"
| "ptr (Nd l a b r) = a"

text \<open>The colour of the root, black for an empty tree.\<close>

fun col :: "rbt \<Rightarrow> bool" where
  "col Lf = True"
| "col (Nd l a b r) = b"

fun paint :: "bool \<Rightarrow> rbt \<Rightarrow> rbt" where
  "paint b Lf = Lf"
| "paint b (Nd l a _ r) = Nd l a b r"

abbreviation nodes :: "rbt \<Rightarrow> addr set" where
  "nodes t \<equiv> set (inorder t)"

text \<open>A node with subtree \<open>t\<close> on side \<open>d\<close> and \<open>s\<close> on the other.\<close>

definition node :: "bool \<Rightarrow> addr \<Rightarrow> bool \<Rightarrow> rbt \<Rightarrow> rbt \<Rightarrow> rbt" where
  "node d a b t s = (if d then Nd s a b t else Nd t a b s)"

datatype frame = Fr bool addr bool rbt

fun plug :: "rbt \<Rightarrow> frame list \<Rightarrow> rbt" where
  "plug t [] = t"
| "plug t (Fr d a b s # fs) = plug (node d a b t s) fs"

fun top :: "frame list \<Rightarrow> addr" where
  "top [] = 0"
| "top (Fr d a b s # fs) = a"

fun cnodes :: "frame list \<Rightarrow> addr list" where
  "cnodes [] = []"
| "cnodes (Fr d a b s # fs) = a # inorder s @ cnodes fs"

fun rep :: "rb_heap \<Rightarrow> addr \<Rightarrow> rbt \<Rightarrow> bool" where
  "rep h p Lf = True"
| "rep h p (Nd l a b r) = (a \<noteq> 0 \<and> aligned a \<and> pc h a = enc p b \<and>
     child False h a = ptr l \<and> child True h a = ptr r \<and> rep h a l \<and> rep h a r)"

fun crep :: "rb_heap \<Rightarrow> addr \<Rightarrow> frame list \<Rightarrow> bool" where
  "crep h x [] = (root h = x)"
| "crep h x (Fr d a b s # fs) = (a \<noteq> 0 \<and> aligned a \<and> pc h a = enc (top fs) b \<and>
     child d h a = x \<and> child (\<not> d) h a = ptr s \<and> rep h a s \<and> crep h a fs)"

text \<open>The subtree without the parent word of its root.\<close>

fun rep_in :: "rb_heap \<Rightarrow> rbt \<Rightarrow> bool" where
  "rep_in h Lf = True"
| "rep_in h (Nd l a b r) = (a \<noteq> 0 \<and> aligned a \<and>
     child False h a = ptr l \<and> child True h a = ptr r \<and> rep h a l \<and> rep h a r)"

lemma rep_alt: "rep h p t \<longleftrightarrow> rep_in h t \<and> (t \<noteq> Lf \<longrightarrow> pc h (ptr t) = enc p (col t))"
  by (cases t) auto

lemma ptr_0: "rep_in h t \<Longrightarrow> ptr t = 0 \<longleftrightarrow> t = Lf"
  by (cases t) auto

lemma ptr_in: "t \<noteq> Lf \<Longrightarrow> ptr t \<in> nodes t"
  by (cases t) auto

lemma node_simps [simp]:
  "ptr (node d a b t s) = a" "col (node d a b t s) = b" "node d a b t s \<noteq> Lf"
  "nodes (node d a b t s) = insert a (nodes t \<union> nodes s)"
  "rep h p (node d a b t s) \<longleftrightarrow> a \<noteq> 0 \<and> aligned a \<and> pc h a = enc p b \<and>
     child d h a = ptr t \<and> child (\<not> d) h a = ptr s \<and> rep h a t \<and> rep h a s"
  "rep_in h (node d a b t s) \<longleftrightarrow> a \<noteq> 0 \<and> aligned a \<and>
     child d h a = ptr t \<and> child (\<not> d) h a = ptr s \<and> rep h a t \<and> rep h a s"
  "mset (inorder (node d a b t s)) = {#a#} + mset (inorder t) + mset (inorder s)"
  by (cases d; auto simp: node_def)+

lemma node_flip: "node (\<not> d) a b t s = node d a b s t"
  by (simp add: node_def)

lemma plug_rep: "rep h 0 (plug t fs) \<and> root h = ptr (plug t fs) \<longleftrightarrow> rep h (top fs) t \<and> crep h (ptr t) fs"
  by (induction fs arbitrary: t rule: cnodes.induct) auto

lemma plug_mset: "mset (inorder (plug t fs)) = mset (inorder t) + mset (cnodes fs)"
  by (induction fs arbitrary: t rule: cnodes.induct) auto

lemma plug_distinct: "distinct (inorder (plug t fs)) \<longleftrightarrow> distinct (inorder t @ cnodes fs)"
  by (rule mset_eq_imp_distinct_iff) (simp add: plug_mset)

lemma plug_nodes: "nodes (plug t fs) = nodes t \<union> set (cnodes fs)"
  using plug_mset [of t fs] by (metis set_append set_mset_mset set_mset_union)

lemma top_aligned: "crep h x fs \<Longrightarrow> aligned (top fs)"
  by (cases fs rule: cnodes.cases) auto

section \<open>Updates\<close>

lemma set_pc_simps [simp]:
  "pc (set_pc a w h) x = (if x = a then w else pc h x)" "child d (set_pc a w h) = child d h"
  "root (set_pc a w h) = root h" "lft (set_pc a w h) = lft h" "rgt (set_pc a w h) = rgt h"
  by (simp_all add: set_pc_def child_def fun_eq_iff)

lemma set_child_simps [simp]:
  "pc (set_child d a x h) = pc h" "root (set_child d a x h) = root h"
  "child e (set_child d a x h) y = (if e = d \<and> y = a then x else child e h y)"
  by (auto simp: set_child_def child_def)

lemma set_root_simps [simp]:
  "pc (h\<lparr>root := x\<rparr>) = pc h" "child d (h\<lparr>root := x\<rparr>) = child d h"
  by (simp_all add: child_def fun_eq_iff)

lemma rep_cong:
  "(\<And>a. a \<in> nodes t \<Longrightarrow> pc h a = pc h' a \<and> (\<forall>d. child d h a = child d h' a)) \<Longrightarrow> rep h p t = rep h' p t"
  by (induction t arbitrary: p) auto

lemma rep_in_cong:
  "distinct (inorder t) \<Longrightarrow>
   (\<And>a. a \<in> nodes t \<Longrightarrow> (a \<noteq> ptr t \<longrightarrow> pc h a = pc h' a) \<and> (\<forall>d. child d h a = child d h' a)) \<Longrightarrow>
   rep_in h t = rep_in h' t"
proof (cases t)
  case (Nd l a b r)
  assume *: "distinct (inorder t)"
    "\<And>a. a \<in> nodes t \<Longrightarrow> (a \<noteq> ptr t \<longrightarrow> pc h a = pc h' a) \<and> (\<forall>d. child d h a = child d h' a)"
  have "rep h a l = rep h' a l" "rep h a r = rep h' a r" using * Nd by (auto intro!: rep_cong)
  then show ?thesis using * Nd by simp
qed simp

lemma crep_cong:
  "(\<And>a. a \<in> set (cnodes fs) \<Longrightarrow> pc h a = pc h' a \<and> (\<forall>d. child d h a = child d h' a)) \<Longrightarrow>
   root h = root h' \<Longrightarrow> crep h x fs = crep h' x fs"
proof (induction fs arbitrary: x rule: cnodes.induct)
  case (2 d a b s fs)
  have "rep h a s = rep h' a s" using 2(2) by (intro rep_cong) simp
  moreover have "crep h a fs = crep h' a fs" using 2(2,3) by (intro 2(1)) auto
  ultimately show ?case using 2(2) by simp
qed simp

lemma rep_frame [simp]:
  "a \<notin> nodes t \<Longrightarrow> rep (set_pc a w h) p t = rep h p t"
  "a \<notin> nodes t \<Longrightarrow> rep (set_child d a x h) p t = rep h p t"
  "rep (h\<lparr>root := x\<rparr>) p t = rep h p t"
  by (rule rep_cong; force)+

lemma rep_in_frame [simp]:
  "distinct (inorder t) \<Longrightarrow> a \<notin> nodes t \<or> a = ptr t \<Longrightarrow> rep_in (set_pc a w h) t = rep_in h t"
  "distinct (inorder t) \<Longrightarrow> a \<notin> nodes t \<Longrightarrow> rep_in (set_child d a x h) t = rep_in h t"
  "distinct (inorder t) \<Longrightarrow> rep_in (h\<lparr>root := x\<rparr>) t = rep_in h t"
  by (rule rep_in_cong; force)+

lemma crep_frame [simp]:
  "a \<notin> set (cnodes fs) \<Longrightarrow> crep (set_pc a w h) y fs = crep h y fs"
  "a \<notin> set (cnodes fs) \<Longrightarrow> crep (set_child d a x h) y fs = crep h y fs"
  by (rule crep_cong; force)+

lemma rep_parent:
  assumes "rep h q t" and "distinct (inorder t)"
  shows "rep (set_pc (ptr t) (enc p b) h) p (paint b t)"
  using assms by (cases t) auto

text \<open>Replacing the subtree at a position.\<close>

lemma change_child_crep:
  assumes "crep h old fs" and "old \<noteq> 0" and "old \<notin> set (cnodes fs)" and "distinct (cnodes fs)"
  shows "crep (rb_change_child old new (top fs) h) new fs"
proof (cases fs rule: cnodes.cases)
  case 1
  then show ?thesis using assms by (simp add: rb_change_child_def)
next
  case (2 d a b s gs)
  then have c: "a \<noteq> 0" "child d h a = old" "child (\<not> d) h a = ptr s" "rep h a s" using assms(1) by auto
  have "ptr s \<noteq> old" using assms(2,3) 2 ptr_in [of s] by (cases s) auto
  then have "rb_change_child old new a h = set_child d a new h"
    using c by (cases d) (auto simp: rb_change_child_def child_def)
  then show ?thesis using assms 2 by auto
qed

lemma change_child_frame [simp]:
  "pc (rb_change_child old new p h) = pc h"
  "p \<notin> nodes t \<or> p = 0 \<Longrightarrow> rep (rb_change_child old new p h) q t = rep h q t"
  "a \<noteq> p \<or> p = 0 \<Longrightarrow> child d (rb_change_child old new p h) a = child d h a"
  by (auto simp: rb_change_child_def)

lemma top_cases: "top fs = 0 \<or> top fs \<in> set (cnodes fs)"
  by (cases fs rule: cnodes.cases) auto

lemma top_out: "A \<inter> set (cnodes fs) = {} \<Longrightarrow> top fs \<notin> A \<or> top fs = 0"
  using top_cases [of fs] by auto

section \<open>The red-black invariants\<close>

fun bheight :: "rbt \<Rightarrow> nat" where
  "bheight Lf = 0"
| "bheight (Nd l a b r) = bheight l + (if b then 1 else 0)"

fun invh :: "rbt \<Rightarrow> bool" where
  "invh Lf = True"
| "invh (Nd l a b r) = (invh l \<and> invh r \<and> bheight l = bheight r)"

fun invc :: "rbt \<Rightarrow> bool" where
  "invc Lf = True"
| "invc (Nd l a b r) = (invc l \<and> invc r \<and> (b \<or> col l \<and> col r))"

definition rbt_ok :: "rbt \<Rightarrow> bool" where
  "rbt_ok t \<longleftrightarrow> invc t \<and> invh t \<and> col t"

fun topcol :: "frame list \<Rightarrow> bool" where
  "topcol [] = False"
| "topcol (Fr d a b s # fs) = b"

text \<open>A position whose surroundings fit a subtree of black height \<open>n\<close>.\<close>

fun ctx_ok :: "frame list \<Rightarrow> nat \<Rightarrow> bool" where
  "ctx_ok [] n = True"
| "ctx_ok (Fr d a b s # fs) n = (invc s \<and> invh s \<and> bheight s = n \<and> (b \<or> col s \<and> topcol fs) \<and>
     ctx_ok fs (if b then Suc n else n))"

lemma node_inv [simp]:
  "invc (node d a b t s) \<longleftrightarrow> invc t \<and> invc s \<and> (b \<or> col t \<and> col s)"
  "invh (node d a b t s) \<longleftrightarrow> invh t \<and> invh s \<and> bheight t = bheight s"
  "bheight t = bheight s \<Longrightarrow> bheight (node d a b t s) = bheight t + (if b then 1 else 0)"
  by (auto simp: node_def)

lemma plug_ok: "rbt_ok (plug t fs) \<longleftrightarrow> invc t \<and> invh t \<and> ctx_ok fs (bheight t) \<and> (col t \<or> topcol fs)"
proof (induction fs arbitrary: t rule: cnodes.induct)
  case (2 d a b s fs)
  then show ?case by (cases "bheight t = bheight s") auto
qed (simp add: rbt_ok_def)

lemma inorder_node: "inorder (node d a b t s) = (if d then inorder s @ a # inorder t else inorder t @ a # inorder s)"
  by (simp add: node_def)

lemma inorder_plug_cong: "inorder t = inorder t' \<Longrightarrow> inorder (plug t fs) = inorder (plug t' fs)"
  by (induction fs arbitrary: t t' rule: cnodes.induct) (auto simp: inorder_node)

lemma paint_simps [simp]:
  "inorder (paint b t) = inorder t" "ptr (paint b t) = ptr t" "invh (paint b t) = invh t" "invc t \<Longrightarrow> invc (paint True t)"
  "t \<noteq> Lf \<Longrightarrow> col (paint b t) = b" "paint b t = Lf \<longleftrightarrow> t = Lf"
  by (cases t; auto)+

lemma bheight_paint: "t \<noteq> Lf \<Longrightarrow> \<not> col t \<Longrightarrow> bheight (paint True t) = Suc (bheight t)"
  by (cases t) auto

lemma as_node: "t \<noteq> Lf \<Longrightarrow> \<exists>t1 t2. t = node d (ptr t) (col t) t1 t2"
  by (cases t; cases d) (auto simp: node_def)

lemma as_node_ok:
  assumes "t \<noteq> Lf" and "invc t" and "invh t"
  shows "\<exists>t1 t2. t = node d (ptr t) (col t) t1 t2 \<and> invc t1 \<and> invc t2 \<and> invh t1 \<and> invh t2 \<and>
    bheight t1 = bheight t2 \<and> bheight t = bheight t1 + (if col t then 1 else 0) \<and> (col t \<or> col t1 \<and> col t2)"
  using assms by (cases t; cases d) (auto simp: node_def)

text \<open>The heap holds the tree \<open>t\<close>.\<close>

definition holds_tree :: "rb_heap \<Rightarrow> rbt \<Rightarrow> bool" where
  "holds_tree h t \<longleftrightarrow> rep h 0 t \<and> root h = ptr t \<and> distinct (inorder t) \<and> rbt_ok t"

lemma holds_plug:
  "holds_tree h (plug t fs) \<longleftrightarrow> rep h (top fs) t \<and> crep h (ptr t) fs \<and> distinct (inorder t @ cnodes fs) \<and>
     invc t \<and> invh t \<and> ctx_ok fs (bheight t) \<and> (col t \<or> topcol fs)"
  unfolding holds_tree_def plug_ok plug_distinct using plug_rep [of h t fs] by blast

lemma replace_sub:
  assumes "rep h (top fs) t'" and "crep h (ptr t') fs" and "inorder t' = inorder t"
    and "distinct (inorder t @ cnodes fs)" and "invc t'" and "invh t'" and "ctx_ok fs (bheight t')"
    and "col t' \<or> topcol fs"
  shows "holds_tree h (plug t' fs) \<and> inorder (plug t' fs) = inorder (plug t fs)"
  using assms inorder_plug_cong [OF assms(3)] by (simp add: holds_plug)

end
