(* ===== verification/Rbtree_Insert.thy ===== *)
theory Rbtree_Insert
  imports Rbtree_Rep
begin

text \<open>Insertion: the rotations and the recolouring on the heap, and the search for the place.\<close>

section \<open>Rotations\<close>

lemma rotate_set_parents_eq:
  assumes "pc h old = enc p b" and "aligned p"
  shows "rb_rotate_set_parents old new c h =
    rb_change_child old new p (set_pc old (new OR c) (set_pc new (enc p b) h))"
  using assms by (simp add: rb_rotate_set_parents_def rb_parent_def rb_set_parent_color_def Let_def)

lemma set_parent_black:
  assumes "rep h q s" and "distinct (inorder s)" and "col s" and "aligned p"
  shows "rep (if ptr s \<noteq> 0 then rb_set_parent_color (ptr s) p RB_BLACK h else h) p s"
  using assms by (cases s) (auto simp: rb_set_parent_color_def)

lemma insert_rotate_outer:
  assumes t: "rep h p t" "t \<noteq> Lf" and s: "col s"
    and c: "crep h (ptr t) (Fr e p False s # Fr e g True u # fs)"
    and dist: "distinct (inorder t @ cnodes (Fr e p False s # Fr e g True u # fs))"
  shows "rep (insert_rotate e (ptr t) p g h) (top fs) (node e p True t (node e g False s u)) \<and>
    crep (insert_rotate e (ptr t) p g h) p fs"
proof -
  have t0: "ptr t \<noteq> 0" using t by (cases t) auto
  have ne: "ptr t \<noteq> ptr s" using t t0 dist ptr_in [of t] ptr_in [of s] by (cases s) auto
  have al: "aligned p" "aligned g" "p \<noteq> 0" "g \<noteq> 0" "aligned (top fs)" using c top_aligned by auto
  have D: "p \<noteq> g" "p \<notin> nodes t" "p \<notin> nodes s" "p \<notin> nodes u" "p \<notin> set (cnodes fs)"
    "g \<notin> nodes t" "g \<notin> nodes s" "g \<notin> nodes u" "g \<notin> set (cnodes fs)" "distinct (cnodes fs)" using dist by auto
  have tf: "top fs \<notin> nodes t \<or> top fs = 0" "top fs \<notin> nodes s \<or> top fs = 0" "top fs \<notin> nodes u \<or> top fs = 0"
    "p \<noteq> top fs \<or> top fs = 0" "g \<noteq> top fs \<or> top fs = 0" using top_cases [of fs] dist by auto
  define h1 where "h1 = set_child e g (ptr s) h"
  define h2 where "h2 = (if ptr s \<noteq> 0 then rb_set_parent_color (ptr s) g RB_BLACK h1 else h1)"
  have so: "ptr s \<noteq> 0 \<Longrightarrow> ptr s \<notin> nodes t \<and> ptr s \<notin> nodes u \<and> ptr s \<notin> set (cnodes fs) \<and> ptr s \<noteq> p \<and> ptr s \<noteq> g \<and> g \<noteq> ptr s"
    using ptr_in [of s] dist by (cases s) auto
  have H: "pc h2 g = enc (top fs) True" "child e h2 p = ptr t" "child e h2 g = ptr s" "child (\<not> e) h2 g = ptr u"
      "rep h2 p t" "rep h2 g u" "crep h2 g fs"
    using t(1) c D so by (simp_all add: h2_def h1_def rb_set_parent_color_def)
  have "rep h1 p s" using c D by (simp add: h1_def)
  then have S: "rep h2 g s" unfolding h2_def using dist s al(2) by (intro set_parent_black) auto
  have g: "pc (set_child (\<not> e) p g h2) g = enc (top fs) True" using H(1) by simp
  have run: "insert_rotate e (ptr t) p g h =
      rb_change_child g p (top fs) (set_pc g (p OR RB_RED) (set_pc p (enc (top fs) True) (set_child (\<not> e) p g h2)))"
  proof -
    have "insert_rotate e (ptr t) p g h = rb_rotate_set_parents g p RB_RED (set_child (\<not> e) p g h2)"
      using ne c by (simp add: insert_rotate_def insert_case3_def Let_def h1_def h2_def)
    then show ?thesis unfolding rotate_set_parents_eq [OF g al(5)] .
  qed
  show ?thesis
    unfolding run using al D tf H S by (simp add: change_child_crep)
qed

lemma insert_rotate_inner:
  assumes t: "rep h p (node e n False t1 t2)" and bl: "col t1" "col t2"
    and c: "crep h n (Fr (\<not> e) p False s # Fr e g True u # fs)"
    and dist: "distinct (inorder (node e n False t1 t2) @ cnodes (Fr (\<not> e) p False s # Fr e g True u # fs))"
  shows "rep (insert_rotate e n p g h) (top fs) (node e n True (node e p False s t1) (node e g False t2 u)) \<and>
    crep (insert_rotate e n p g h) n fs"
proof -
  have dt: "distinct (inorder t1)" "distinct (inorder t2)" "nodes t1 \<inter> nodes t2 = {}" "n \<notin> nodes t1" "n \<notin> nodes t2"
    using dist by (auto simp: node_def split: if_splits)
  have al: "aligned p" "aligned g" "aligned n" "p \<noteq> 0" "g \<noteq> 0" "n \<noteq> 0" "aligned (top fs)" using c t top_aligned by auto
  have D: "n \<noteq> p" "n \<noteq> g" "n \<notin> nodes s" "n \<notin> nodes u" "n \<notin> set (cnodes fs)" "p \<noteq> g" "p \<notin> nodes t1" "p \<notin> nodes t2"
    "p \<notin> nodes s" "p \<notin> nodes u" "p \<notin> set (cnodes fs)"
    "g \<notin> nodes t1" "g \<notin> nodes t2" "g \<notin> nodes s" "g \<notin> nodes u" "g \<notin> set (cnodes fs)" "distinct (cnodes fs)"
    using dist by auto
  have tf: "top fs \<notin> nodes t1 \<or> top fs = 0" "top fs \<notin> nodes t2 \<or> top fs = 0" "top fs \<notin> nodes s \<or> top fs = 0"
    "top fs \<notin> nodes u \<or> top fs = 0" "n \<noteq> top fs \<or> top fs = 0" "p \<noteq> top fs \<or> top fs = 0" "g \<noteq> top fs \<or> top fs = 0"
    using top_cases [of fs] dist by auto
  have o1: "ptr t1 \<noteq> 0 \<Longrightarrow> ptr t1 \<notin> nodes t2 \<and> ptr t1 \<notin> nodes s \<and> ptr t1 \<notin> nodes u \<and> ptr t1 \<notin> set (cnodes fs) \<and>
      ptr t1 \<noteq> p \<and> ptr t1 \<noteq> g \<and> ptr t1 \<noteq> n \<and> g \<noteq> ptr t1 \<and> n \<noteq> ptr t1 \<and> p \<noteq> ptr t1"
    using ptr_in [of t1] dist dt by (cases t1) auto
  have o2: "ptr t2 \<noteq> 0 \<Longrightarrow> ptr t2 \<notin> nodes t1 \<and> ptr t2 \<notin> nodes s \<and> ptr t2 \<notin> nodes u \<and> ptr t2 \<notin> set (cnodes fs) \<and>
      ptr t2 \<noteq> p \<and> ptr t2 \<noteq> g \<and> ptr t2 \<noteq> n \<and> g \<noteq> ptr t2 \<and> n \<noteq> ptr t2 \<and> p \<noteq> ptr t2"
    using ptr_in [of t2] dist dt by (cases t2) auto
  define h1 where "h1 = set_child (\<not> e) p (ptr t1) h"
  define h2 where "h2 = (if ptr t1 \<noteq> 0 then rb_set_parent_color (ptr t1) p RB_BLACK h1 else h1)"
  define h4 where "h4 = rb_set_parent_color p n RB_RED (set_child e n p h2)"
  define h5 where "h5 = set_child e g (ptr t2) h4"
  define h6 where "h6 = (if ptr t2 \<noteq> 0 then rb_set_parent_color (ptr t2) g RB_BLACK h5 else h5)"
  have H2: "pc h2 g = enc (top fs) True" "child (\<not> e) h2 g = ptr u" "child (\<not> e) h2 n = ptr t2" "child e h2 p = ptr s"
      "child (\<not> e) h2 p = ptr t1" "rep h2 n t2" "rep h2 p s" "rep h2 g u" "crep h2 g fs"
    using t c D o1 by (simp_all add: h2_def h1_def rb_set_parent_color_def)
  have "rep h1 n t1" using t D by (simp add: h1_def)
  then have T1: "rep h2 p t1" unfolding h2_def using dt bl(1) al(1) by (intro set_parent_black)
  have H6: "pc h6 g = enc (top fs) True" "child (\<not> e) h6 g = ptr u" "child e h6 g = ptr t2" "child e h6 n = p"
      "child e h6 p = ptr s" "child (\<not> e) h6 p = ptr t1" "pc h6 p = n" "rep h6 p s" "rep h6 g u" "rep h6 p t1" "crep h6 g fs"
    using H2 T1 D dt o2 by (simp_all add: h6_def h5_def h4_def rb_set_parent_color_def)
  have "rep h5 n t2" using H2 D dt by (simp add: h5_def h4_def rb_set_parent_color_def)
  then have T2: "rep h6 g t2" unfolding h6_def using dt bl(2) al(2) by (intro set_parent_black)
  have g: "pc (set_child (\<not> e) n g h6) g = enc (top fs) True" using H6(1) by simp
  have n4: "child (\<not> e) h4 n = ptr t2" using H2(3) D by (simp add: h4_def rb_set_parent_color_def)
  have run: "insert_rotate e n p g h =
      rb_change_child g n (top fs) (set_pc g (n OR RB_RED) (set_pc n (enc (top fs) True) (set_child (\<not> e) n g h6)))"
  proof -
    have "insert_case2 e n p h = h4" using t by (simp add: insert_case2_def Let_def h4_def h2_def h1_def)
    then have "insert_rotate e n p g h = rb_rotate_set_parents g n RB_RED (set_child (\<not> e) n g h6)"
      using c n4 by (simp add: insert_rotate_def insert_case3_def Let_def h5_def h6_def)
    then show ?thesis unfolding rotate_set_parents_eq [OF g al(7)] .
  qed
  show ?thesis
    unfolding run using al D dt tf H6 T2 by (simp add: change_child_crep)
qed

section \<open>Rebalancing\<close>

lemma recolour:
  assumes t: "rep h p t" and c: "crep h (ptr t) (Fr d p False s # Fr e g True u # fs)" and u: "u \<noteq> Lf"
    and dist: "distinct (inorder t @ cnodes (Fr d p False s # Fr e g True u # fs))"
    and h': "h' = rb_set_parent_color g (top fs) RB_RED (rb_set_parent_color p g RB_BLACK
      (rb_set_parent_color (ptr u) g RB_BLACK h))"
  shows "rep h' (top fs) (node e g False (node d p True t s) (paint True u)) \<and> crep h' g fs"
proof -
  have D: "p \<noteq> g" "p \<notin> nodes t" "p \<notin> nodes s" "p \<notin> nodes u" "p \<notin> set (cnodes fs)"
    "g \<notin> nodes t" "g \<notin> nodes s" "g \<notin> nodes u" "g \<notin> set (cnodes fs)" "distinct (inorder u)" using dist by auto
  have o: "ptr u \<notin> nodes t" "ptr u \<notin> nodes s" "ptr u \<notin> set (cnodes fs)" "ptr u \<noteq> p" "ptr u \<noteq> g" "g \<noteq> ptr u" "p \<noteq> ptr u"
    using ptr_in [OF u] dist by auto
  have "rep (set_pc (ptr u) (enc g True) h) g (paint True u)" using c D(10) by (intro rep_parent [of _ g]) auto
  then show ?thesis using t c D o by (simp add: h' rb_set_parent_color_def)
qed

lemma insert_fix_spec:
  assumes "rep h (top fs) t" and "crep h (ptr t) fs" and "distinct (inorder t @ cnodes fs)"
    and "invc t" and "invh t" and "\<not> col t" and "ctx_ok fs (bheight t)"
  shows "\<exists>h' t'. rb_insert_fix (ptr t) (top fs) h = Some h' \<and> holds_tree h' t' \<and> inorder t' = inorder (plug t fs)"
  using assms
proof (induction "length fs" arbitrary: fs t h rule: less_induct)
  case less
  have t: "t \<noteq> Lf" using less.prems(6) by auto
  consider "fs = []" | d p s fs' where "fs = Fr d p True s # fs'" |
      d p s e g u fs' where "fs = Fr d p False s # Fr e g True u # fs'"
    using less.prems(7) by (cases fs rule: cnodes.cases; cases "tl fs" rule: cnodes.cases) auto
  then show ?case
  proof cases
    case 1
    then have "rb_insert_fix (ptr t) (top fs) h = Some ((set_pc (ptr t) (enc 0 True) h)\<lparr>root := ptr t\<rparr>)"
      by (subst rb_insert_fix.simps) (simp add: rb_set_parent_color_def enc_def)
    moreover have "rep (set_pc (ptr t) (enc 0 True) h) 0 (paint True t)"
      using less.prems 1 by (intro rep_parent [of _ 0]) auto
    ultimately show ?thesis using less.prems 1 t
      by (intro exI [of _ "(set_pc (ptr t) (enc 0 True) h)\<lparr>root := ptr t\<rparr>"] exI [of _ "paint True t"])
        (simp add: holds_tree_def rbt_ok_def)
  next
    case 2
    have c: "pc h p = enc (top fs') True" "aligned (top fs')" "p \<noteq> 0" using less.prems(2) top_aligned by (auto simp: 2)
    then have "rb_insert_fix (ptr t) (top fs) h = Some h"
      by (subst rb_insert_fix.simps) (simp add: 2 rb_is_black_def)
    moreover have "holds_tree h (plug t fs)" unfolding holds_plug using less.prems by (simp add: 2)
    ultimately show ?thesis by blast
  next
    case 3
    note c = less.prems(2) [unfolded 3] and dist = less.prems(3) [unfolded 3]
    have p: "pc h p = g" "p \<noteq> 0" "g \<noteq> 0" "aligned g" "aligned p" "child e h g = p" "child (\<not> e) h g = ptr u"
        "pc h g = enc (top fs') True" "aligned (top fs')" "rep h g u" "rep h p t"
      using c less.prems(1) top_aligned by (auto simp: 3)
    have "ptr u \<noteq> p" using ptr_in [of u] dist p(2) by (cases u) auto
    then have e: "(p = rgt h g) = e" using p(6,7) by (cases e) (auto simp: child_def)
    have ok: "invc s" "invh s" "bheight s = bheight t" "col s" "invc u" "invh u" "bheight u = bheight t"
        "ctx_ok fs' (Suc (bheight t))" using less.prems(7) by (auto simp: 3)
    have D: "distinct (inorder (node e g True (node d p False t s) u) @ cnodes fs')"
      using dist unfolding plug_distinct [symmetric] by simp
    let ?red = "ptr u \<noteq> 0 \<and> \<not> is_black (pc h (ptr u))"
    have red: "?red \<longleftrightarrow> \<not> col u" using p(4,10) by (cases u) auto
    show ?thesis
    proof (cases "col u")
      case False
      then have u: "u \<noteq> Lf" by auto
      let ?t = "node e g False (node d p True t s) (paint True u)"
      define h' where "h' = rb_set_parent_color g (top fs') RB_RED (rb_set_parent_color p g RB_BLACK
          (rb_set_parent_color (ptr u) g RB_BLACK h))"
      have g: "g \<noteq> p" "g \<noteq> ptr u" using dist ptr_in [OF u] by auto
      have "rb_insert_fix (ptr t) (top fs) h = rb_insert_fix g (top fs') h'"
        using p e g red False
        by (subst rb_insert_fix.simps) (simp add: 3 rb_is_black_def rb_is_red_def rb_red_parent_def rb_parent_def
            rb_set_parent_color_def h'_def Let_def)
      moreover have "rep h' (top fs') ?t \<and> crep h' g fs'"
        by (rule recolour [OF p(11) c u dist]) (simp add: h'_def)
      moreover have "distinct (inorder ?t @ cnodes fs')"
        using D by (auto simp: inorder_node)
      moreover have "invc ?t" "invh ?t" "bheight ?t = Suc (bheight t)"
        using less.prems ok False u bheight_paint [OF u False] by auto
      ultimately obtain h2 t2 where "rb_insert_fix (ptr t) (top fs) h = Some h2" "holds_tree h2 t2"
          "inorder t2 = inorder (plug ?t fs')"
        using less.hyps [of fs' h' ?t] ok(8) 3 by auto
      moreover have "inorder (plug ?t fs') = inorder (plug t fs)"
        unfolding 3 plug.simps by (rule inorder_plug_cong) (simp add: inorder_node)
      ultimately show ?thesis by metis
    next
      case True
      then have not_red: "\<not> ?red" using red by blast
      have run: "rb_insert_fix (ptr t) (top fs) h = Some (insert_rotate e (ptr t) p g h)"
        using p e not_red
        by (subst rb_insert_fix.simps) (simp add: 3 rb_is_black_def rb_is_red_def rb_red_parent_def Let_def, blast)
      show ?thesis
      proof (cases "d = e")
        case eq: True
        let ?t = "node e p True t (node e g False s u)"
        have r: "rep (insert_rotate e (ptr t) p g h) (top fs') ?t \<and> crep (insert_rotate e (ptr t) p g h) p fs'"
          using insert_rotate_outer [OF p(11) t ok(4)] c dist eq by blast
        have "holds_tree (insert_rotate e (ptr t) p g h) (plug ?t fs') \<and>
            inorder (plug ?t fs') = inorder (plug (node e g True (node d p False t s) u) fs')"
          using r eq D less.prems ok True by (intro replace_sub) (auto simp: inorder_node)
        then show ?thesis using run by (auto simp: 3)
      next
        case False
        then have d: "d = (\<not> e)" by auto
        obtain t1 t2 where t12: "t = node e (ptr t) False t1 t2" and b: "col t1" "col t2" "invc t1" "invc t2"
            "invh t1" "invh t2" "bheight t1 = bheight t" "bheight t2 = bheight t"
          using as_node_ok [OF t less.prems(4,5), of e] less.prems(6) by auto
        let ?t = "node e (ptr t) True (node e p False s t1) (node e g False t2 u)"
        have r: "rep (insert_rotate e (ptr t) p g h) (top fs') ?t \<and> crep (insert_rotate e (ptr t) p g h) (ptr t) fs'"
          using p(11) c [unfolded d] dist [unfolded d] t12 by (intro insert_rotate_inner [OF _ b(1,2)]) simp_all
        have "inorder ?t = inorder (node e g True (node d p False t s) u)"
          using d by (subst (2) t12) (simp add: inorder_node)
        then have "holds_tree (insert_rotate e (ptr t) p g h) (plug ?t fs') \<and>
            inorder (plug ?t fs') = inorder (plug (node e g True (node d p False t s) u) fs')"
          using r D ok b True by (intro replace_sub) auto
        then show ?thesis using run by (auto simp: 3)
      qed
    qed
  qed
qed

section \<open>The place of a new node\<close>

text \<open>The nodes before and after a position.\<close>

fun before :: "frame list \<Rightarrow> addr list" where
  "before [] = []"
| "before (Fr d a b s # fs) = before fs @ (if d then inorder s @ [a] else [])"

fun after :: "frame list \<Rightarrow> addr list" where
  "after [] = []"
| "after (Fr d a b s # fs) = (if d then [] else a # inorder s) @ after fs"

lemma inorder_plug: "inorder (plug t fs) = before fs @ inorder t @ after fs"
  by (induction fs arbitrary: t rule: before.induct) (auto simp: inorder_node)

definition strict_on :: "addr set \<Rightarrow> (addr \<Rightarrow> addr \<Rightarrow> bool) \<Rightarrow> bool" where
  "strict_on A cmp \<longleftrightarrow> (\<forall>x \<in> A. \<not> cmp x x) \<and> (\<forall>x \<in> A. \<forall>y \<in> A. \<forall>z \<in> A. cmp x y \<longrightarrow> cmp y z \<longrightarrow> cmp x z)"

definition fits :: "(addr \<Rightarrow> addr \<Rightarrow> bool) \<Rightarrow> addr \<Rightarrow> frame list \<Rightarrow> bool" where
  "fits cmp n fs \<longleftrightarrow> (\<forall>x \<in> set (before fs). cmp x n) \<and> (\<forall>x \<in> set (after fs). cmp n x)"

lemma strict_trans: "strict_on A cmp \<Longrightarrow> x \<in> A \<Longrightarrow> y \<in> A \<Longrightarrow> z \<in> A \<Longrightarrow> cmp x y \<Longrightarrow> cmp y z \<Longrightarrow> cmp x z"
  unfolding strict_on_def by blast

lemma strict_subset: "strict_on A cmp \<Longrightarrow> B \<subseteq> A \<Longrightarrow> strict_on B cmp"
  unfolding strict_on_def by blast

lemma fits_step:
  assumes ord: "strict_on (insert n (nodes (plug (node d a b t s) fs))) cmp"
    and srt: "sorted_wrt cmp (inorder (plug (node d a b t s) fs))" and f: "fits cmp n fs"
    and c: "if d then cmp a n else cmp n a"
  shows "fits cmp n (Fr d a b s # fs)"
proof -
  have A: "a \<in> nodes (plug (node d a b t s) fs)" "nodes s \<subseteq> nodes (plug (node d a b t s) fs)"
    by (auto simp: plug_nodes)
  have "if d then cmp x a else cmp a x" if "x \<in> nodes s" for x
    using srt that by (auto simp: inorder_plug inorder_node sorted_wrt_append split: if_splits)
  then have x: "if d then cmp x n else cmp n x" if "x \<in> nodes s" for x
    using strict_trans [OF ord, of x a n] strict_trans [OF ord, of n a x] that c A by (cases d) auto
  show ?thesis
    using f c x by (cases d) (auto simp: fits_def)
qed

lemma descend_spec:
  assumes "rep h (top fs) t" and "crep h (ptr t) fs" and "t \<noteq> Lf" and "n \<notin> nodes (plug t fs)" and "n \<noteq> 0"
    and ord: "strict_on (insert n (nodes (plug t fs))) cmp" and srt: "sorted_wrt cmp (inorder (plug t fs))"
    and "fits cmp n fs"
  shows "(rb_descend cmp n (ptr t) h = Some (False, h) \<and> (\<exists>x \<in> nodes t. \<not> cmp n x \<and> \<not> cmp x n)) \<or>
    (\<exists>d p b s gs. rb_descend cmp n (ptr t) h = Some (True, set_pc n p (set_child d p n h)) \<and>
       plug Lf (Fr d p b s # gs) = plug t fs \<and> fits cmp n (Fr d p b s # gs))"
  using assms
proof (induction t arbitrary: fs)
  case (Nd l a b r)
  have a: "a \<noteq> 0" "rep h a l" "rep h a r" "lft h a = ptr l" "rgt h a = ptr r" using Nd.prems(1) by (auto simp: child_def)
  have go: "(rb_descend cmp n a h = Some (False, h) \<and> (\<exists>x \<in> nodes (Nd l a b r). \<not> cmp n x \<and> \<not> cmp x n)) \<or>
    (\<exists>d p b' s gs. rb_descend cmp n a h = Some (True, set_pc n p (set_child d p n h)) \<and>
       plug Lf (Fr d p b' s # gs) = plug (Nd l a b r) fs \<and> fits cmp n (Fr d p b' s # gs))" (is ?case')
    if side: "Nd l a b r = node d a b t s" "t = (if d then r else l)" "s = (if d then l else r)" and c: "if d then cmp a n else cmp n a"
      and run: "rb_descend cmp n a h = rb_descend cmp n (ptr t) (if ptr t = 0 then set_pc n a (set_child d a n h) else h)"
      and IH: "\<And>fs. rep h (top fs) t \<Longrightarrow> crep h (ptr t) fs \<Longrightarrow> t \<noteq> Lf \<Longrightarrow> n \<notin> nodes (plug t fs) \<Longrightarrow> n \<noteq> 0 \<Longrightarrow>
        strict_on (insert n (nodes (plug t fs))) cmp \<Longrightarrow> sorted_wrt cmp (inorder (plug t fs)) \<Longrightarrow> fits cmp n fs \<Longrightarrow>
        (rb_descend cmp n (ptr t) h = Some (False, h) \<and> (\<exists>x \<in> nodes t. \<not> cmp n x \<and> \<not> cmp x n)) \<or>
        (\<exists>d p b s gs. rb_descend cmp n (ptr t) h = Some (True, set_pc n p (set_child d p n h)) \<and>
           plug Lf (Fr d p b s # gs) = plug t fs \<and> fits cmp n (Fr d p b s # gs))"
    for d t s
  proof -
    have pl: "plug t (Fr d a b s # fs) = plug (Nd l a b r) fs" using side(1) by simp
    have f: "fits cmp n (Fr d a b s # fs)"
      using fits_step [of n d a b t s fs cmp] Nd.prems(6-8) c side(1) by simp
    show ?thesis
    proof (cases t)
      case Lf
      then have "rb_descend cmp n a h = Some (True, set_pc n a (set_child d a n h))"
        unfolding run by (subst rb_descend.simps) simp
      then show ?thesis using f pl Lf by blast
    next
      case Nd': (Nd l' a' b' r')
      have "rep h a t" "ptr t \<noteq> 0" using a side(2) Nd' by (auto split: if_splits)
      moreover have "crep h (ptr t) (Fr d a b s # fs)"
        using Nd.prems(1,2) side by (auto simp: child_def)
      ultimately have "(rb_descend cmp n (ptr t) h = Some (False, h) \<and> (\<exists>x \<in> nodes t. \<not> cmp n x \<and> \<not> cmp x n)) \<or>
        (\<exists>d p b' s gs. rb_descend cmp n (ptr t) h = Some (True, set_pc n p (set_child d p n h)) \<and>
           plug Lf (Fr d p b' s # gs) = plug (Nd l a b r) fs \<and> fits cmp n (Fr d p b' s # gs))"
        using IH [of "Fr d a b s # fs", unfolded pl] Nd.prems(4-7) f Nd' by simp
      moreover have "rb_descend cmp n a h = rb_descend cmp n (ptr t) h" using run \<open>ptr t \<noteq> 0\<close> by simp
      moreover have "nodes t \<subseteq> nodes (Nd l a b r)" using side(2) by auto
      ultimately show ?thesis by auto
    qed
  qed
  show ?case
  proof (cases "cmp n a")
    case True
    then have run: "rb_descend cmp n a h = rb_descend cmp n (ptr l) (if ptr l = 0 then set_pc n a (set_child False a n h) else h)"
      using a by (subst rb_descend.simps) (simp add: Let_def)
    have "?case'" by (rule go [of False l r, OF _ _ _ _ run Nd.IH(1)]) (simp_all add: node_def True)
    then show ?thesis by simp
  next
    case F: False
    show ?thesis
    proof (cases "cmp a n")
      case True
      then have run: "rb_descend cmp n a h = rb_descend cmp n (ptr r) (if ptr r = 0 then set_pc n a (set_child True a n h) else h)"
        using a F by (subst rb_descend.simps) (simp add: Let_def)
      have "?case'" by (rule go [of True r l, OF _ _ _ _ run Nd.IH(2)]) (simp_all add: node_def True)
      then show ?thesis by simp
    next
      case False
      then have "rb_descend cmp n a h = Some (False, h)"
        using a F by (subst rb_descend.simps) (simp add: Let_def)
      then show ?thesis using F False by auto
    qed
  qed
qed simp

section \<open>The whole insertion\<close>

lemma insert_cleared:
  assumes "holds_tree h t" and "n \<notin> nodes t"
  shows "holds_tree (set_pc n 0 (set_child False n 0 (set_child True n 0 h))) t"
  using assms by (simp add: holds_tree_def)

lemma insert_linked:
  assumes t: "holds_tree h (plug Lf (Fr d p b s # gs))" and n: "n \<notin> nodes (plug Lf (Fr d p b s # gs))" "n \<noteq> 0" "aligned n"
    and z: "child False h n = 0" "child True h n = 0" and f: "fits cmp n (Fr d p b s # gs)"
  shows "\<exists>h' t'. rb_insert_fix n p (set_pc n p (set_child d p n h)) = Some h' \<and> holds_tree h' t' \<and>
    inorder t' = before (Fr d p b s # gs) @ n # after (Fr d p b s # gs)"
proof -
  let ?h = "set_pc n p (set_child d p n h)" and ?fs = "Fr d p b s # gs" and ?n = "Nd Lf n False Lf"
  have out: "n \<noteq> p" "n \<notin> nodes s" "n \<notin> set (cnodes gs)" using n(1) unfolding plug_nodes by auto
  have c: "crep h 0 ?fs" "distinct (cnodes ?fs)" "ctx_ok ?fs 0" using t unfolding holds_plug by auto
  then have "rep ?h p ?n" "crep ?h n ?fs" using n out z by auto
  then obtain h' t' where r: "rb_insert_fix n p ?h = Some h'" "holds_tree h' t'" "inorder t' = inorder (plug ?n ?fs)"
    using insert_fix_spec [of ?h ?fs ?n] n c(2,3) out by auto
  have "inorder t' = before ?fs @ n # after ?fs" unfolding r(3) inorder_plug by simp
  then show ?thesis using r(1,2) by blast
qed

text \<open>
  The insertion always returns. A node that compares equal to one of the tree is refused with
  \<open>-1\<close> and the tree is as before; any other node is placed between the smaller and the
  larger ones, and the tree is a red-black tree again.
\<close>

lemma rb_insert_spec:
  assumes t: "holds_tree h t" and n: "n \<notin> nodes t" "n \<noteq> 0" "aligned n"
    and ord: "strict_on (insert n (nodes t)) cmp" and srt: "sorted_wrt cmp (inorder t)"
  shows "\<exists>r h' t'. rb_insert cmp n h = Some (r, h') \<and> holds_tree h' t' \<and>
    (if \<exists>x \<in> nodes t. \<not> cmp n x \<and> \<not> cmp x n then r = -1 \<and> t' = t
     else r = 0 \<and> (\<exists>xs ys. inorder t = xs @ ys \<and> inorder t' = xs @ n # ys \<and>
       (\<forall>x \<in> set xs. cmp x n) \<and> (\<forall>y \<in> set ys. cmp n y)))"
proof -
  define h0 where "h0 = set_pc n 0 (set_child False n 0 (set_child True n 0 h))"
  have t0: "holds_tree h0 t" unfolding h0_def by (rule insert_cleared [OF t n(1)])
  have z: "child False h0 n = 0" "child True h0 n = 0" by (simp_all add: h0_def)
  have root: "root h = ptr t" using t by (simp add: holds_tree_def)
  show ?thesis
  proof (cases t)
    case Lf
    have run: "rb_insert cmp n h = Some (0, (set_pc n (enc 0 True) h0)\<lparr>root := n\<rparr>)"
      unfolding rb_insert_def Let_def h0_def [symmetric] root Lf
      by (simp add: rb_descend.simps [of _ _ 0] rb_insert_fix.simps [of _ 0] rb_red_parent_def h0_def
          rb_set_parent_color_def enc_def)
    have "holds_tree ((set_pc n (enc 0 True) h0)\<lparr>root := n\<rparr>) (Nd Lf n True Lf)"
      using n z by (simp add: holds_tree_def rbt_ok_def)
    with run show ?thesis using Lf by (intro exI [of _ 0] exI conjI) (assumption | simp)+
  next
    case (Nd l a b r)
    have "(rb_descend cmp n (ptr t) h0 = Some (False, h0) \<and> (\<exists>x \<in> nodes t. \<not> cmp n x \<and> \<not> cmp x n)) \<or>
      (\<exists>d p b s gs. rb_descend cmp n (ptr t) h0 = Some (True, set_pc n p (set_child d p n h0)) \<and>
         plug Lf (Fr d p b s # gs) = plug t [] \<and> fits cmp n (Fr d p b s # gs))"
      using t0 n ord srt Nd by (intro descend_spec) (auto simp: holds_tree_def fits_def)
    then show ?thesis
    proof (elim disjE conjE exE)
      assume d: "rb_descend cmp n (ptr t) h0 = Some (False, h0)" and x: "\<exists>x \<in> nodes t. \<not> cmp n x \<and> \<not> cmp x n"
      have "rb_insert cmp n h = Some (-1, h0)"
        unfolding rb_insert_def Let_def h0_def [symmetric] root using d by simp
      then show ?thesis using t0 x by auto
    next
      fix d p b s gs
      assume d: "rb_descend cmp n (ptr t) h0 = Some (True, set_pc n p (set_child d p n h0))"
        and pl: "plug Lf (Fr d p b s # gs) = plug t []" and f: "fits cmp n (Fr d p b s # gs)"
      let ?fs = "Fr d p b s # gs"
      have pl: "t = plug Lf ?fs" using pl by simp
      have sp: "inorder t = before ?fs @ after ?fs" unfolding pl inorder_plug by simp
      obtain h' t' where r: "rb_insert_fix n p (set_pc n p (set_child d p n h0)) = Some h'" "holds_tree h' t'"
          "inorder t' = before ?fs @ n # after ?fs"
        using insert_linked [OF t0 [unfolded pl] n [unfolded pl] z f] by blast
      have "rb_insert cmp n h = Some (0, h')"
        unfolding rb_insert_def Let_def h0_def [symmetric] root using d r(1) by (simp add: rb_red_parent_def)
      moreover have "\<not> (\<exists>x \<in> nodes t. \<not> cmp n x \<and> \<not> cmp x n)"
        using f unfolding sp by (auto simp: fits_def)
      ultimately show ?thesis using r(2,3) sp f unfolding fits_def by metis
    qed
  qed
qed

section \<open>Search\<close>

lemma rb_lookup_from_spec:
  assumes "rep h p t" and "strict_on (insert n (nodes t)) cmp" and "sorted_wrt cmp (inorder t)"
  shows "\<exists>r. rb_lookup_from cmp n (ptr t) h = Some r \<and>
    (if r = 0 then \<forall>x \<in> nodes t. cmp n x \<or> cmp x n else r \<in> nodes t \<and> \<not> cmp n r \<and> \<not> cmp r n)"
  using assms
proof (induction t arbitrary: p)
  case Lf
  then show ?case by (simp add: rb_lookup_from.simps)
next
  case (Nd l a b r)
  have a: "a \<noteq> 0" "lft h a = ptr l" "rgt h a = ptr r" "rep h a l" "rep h a r" using Nd.prems(1) by (auto simp: child_def)
  have srt: "sorted_wrt cmp (inorder l)" "sorted_wrt cmp (inorder r)" "\<forall>x \<in> nodes l. cmp x a" "\<forall>x \<in> nodes r. cmp a x"
    using Nd.prems(3) by (auto simp: sorted_wrt_append)
  have ord: "strict_on (insert n (nodes l)) cmp" "strict_on (insert n (nodes r)) cmp"
    by (rule strict_subset [OF Nd.prems(2)], auto)+
  note tr = strict_trans [OF Nd.prems(2)]
  consider "cmp n a" | "\<not> cmp n a" "cmp a n" | "\<not> cmp n a" "\<not> cmp a n" by blast
  then show ?case
  proof cases
    case 1
    then have "rb_lookup_from cmp n a h = rb_lookup_from cmp n (ptr l) h"
      using a by (subst rb_lookup_from.simps) simp
    moreover have "\<forall>x \<in> nodes r. cmp n x" by (rule ballI, rule tr [of n a]) (use 1 srt(4) in simp_all)
    moreover obtain x where "rb_lookup_from cmp n (ptr l) h = Some x"
        "if x = 0 then \<forall>x \<in> nodes l. cmp n x \<or> cmp x n else x \<in> nodes l \<and> \<not> cmp n x \<and> \<not> cmp x n"
      using Nd.IH(1) [OF a(4) ord(1) srt(1)] by blast
    ultimately show ?thesis using 1 by (intro exI [of _ x]) (cases "x = 0"; simp add: ball_Un)
  next
    case 2
    then have "rb_lookup_from cmp n a h = rb_lookup_from cmp n (ptr r) h"
      using a by (subst rb_lookup_from.simps) simp
    moreover have "\<forall>x \<in> nodes l. cmp x n" by (rule ballI, rule tr [of _ a n]) (use 2 srt(3) in simp_all)
    moreover obtain x where "rb_lookup_from cmp n (ptr r) h = Some x"
        "if x = 0 then \<forall>x \<in> nodes r. cmp n x \<or> cmp x n else x \<in> nodes r \<and> \<not> cmp n x \<and> \<not> cmp x n"
      using Nd.IH(2) [OF a(5) ord(2) srt(2)] by blast
    ultimately show ?thesis using 2 by (intro exI [of _ x]) (cases "x = 0"; simp add: ball_Un)
  next
    case 3
    then show ?thesis using a by (subst rb_lookup_from.simps) auto
  qed
qed

lemma rb_lookup_spec:
  assumes "holds_tree h t" and "strict_on (insert n (nodes t)) cmp" and "sorted_wrt cmp (inorder t)"
  shows "\<exists>r. rb_lookup cmp n h = Some r \<and>
    (if r = 0 then \<forall>x \<in> nodes t. cmp n x \<or> cmp x n else r \<in> nodes t \<and> \<not> cmp n r \<and> \<not> cmp r n)"
  using rb_lookup_from_spec [of h 0 t n cmp] assms by (simp add: rb_lookup_def holds_tree_def)

lemma rb_first_from_spec: "rep h p t \<Longrightarrow> t \<noteq> Lf \<Longrightarrow> rb_first_from (ptr t) h = Some (hd (inorder t))"
proof (induction t arbitrary: p)
  case (Nd l a b r)
  show ?case
  proof (cases l)
    case Lf
    then show ?thesis using Nd.prems(1) by (subst rb_first_from.simps) (simp add: child_def)
  next
    case (Nd l' a' b' r')
    have l: "lft h a = ptr l" "ptr l \<noteq> 0" "rep h a l" using Nd.prems(1) Nd by (auto simp: child_def)
    then have "rb_first_from a h = rb_first_from (ptr l) h" by (subst rb_first_from.simps) simp
    then show ?thesis using Nd.IH(1) [OF l(3)] Nd by (simp add: hd_append)
  qed
qed simp

lemma rb_first_spec: "holds_tree h t \<Longrightarrow> rb_first h = Some (if inorder t = [] then 0 else hd (inorder t))"
  using rb_first_from_spec [of h 0 t] by (cases t) (auto simp: rb_first_def holds_tree_def)

end
