(* ===== verification/Rbtree_Erase.thy ===== *)
theory Rbtree_Erase
  imports Rbtree_Insert
begin

text \<open>Removal: the rotations of the rebalancing loop, the loop, and the unlinking of a node.\<close>

section \<open>Rotations\<close>

lemma set_parent_rep:
  assumes "rep h q s" and "distinct (inorder s)" and "aligned q"
  shows "rep (if ptr s \<noteq> 0 then rb_set_parent (ptr s) p h else h) p s"
  using assms by (cases s) (auto simp: rb_set_parent_def)

lemma erase_case4_spec:
  assumes t: "rep h p t" and c: "crep h (ptr t) (Fr d p b (node d sp True s1 s2) # fs)" and s2: "s2 \<noteq> Lf"
    and dist: "distinct (inorder t @ cnodes (Fr d p b (node d sp True s1 s2) # fs))"
  shows "rep (erase_case4 d p sp (ptr s2) h) (top fs) (node d sp b (node d p True t s1) (paint True s2)) \<and>
    crep (erase_case4 d p sp (ptr s2) h) sp fs"
proof -
  have al: "aligned p" "aligned sp" "p \<noteq> 0" "sp \<noteq> 0" "aligned (top fs)" using c top_aligned by auto
  have dt: "distinct (inorder s1)" "distinct (inorder s2)" "nodes s1 \<inter> nodes s2 = {}" "sp \<notin> nodes s1" "sp \<notin> nodes s2"
    using dist by (auto simp: node_def split: if_splits)
  have D: "p \<noteq> sp" "p \<notin> nodes t" "p \<notin> nodes s1" "p \<notin> nodes s2" "p \<notin> set (cnodes fs)"
    "sp \<notin> nodes t" "sp \<notin> set (cnodes fs)" "distinct (cnodes fs)" using dist by auto
  have tf: "top fs \<notin> nodes t \<or> top fs = 0" "top fs \<notin> nodes s1 \<or> top fs = 0" "top fs \<notin> nodes s2 \<or> top fs = 0"
    "p \<noteq> top fs \<or> top fs = 0" "sp \<noteq> top fs \<or> top fs = 0" using top_cases [of fs] dist by auto
  have o1: "ptr s1 \<noteq> 0 \<Longrightarrow> ptr s1 \<notin> nodes t \<and> ptr s1 \<notin> nodes s2 \<and> ptr s1 \<notin> set (cnodes fs) \<and> ptr s1 \<noteq> p \<and> ptr s1 \<noteq> sp \<and> p \<noteq> ptr s1 \<and> sp \<noteq> ptr s1"
    using ptr_in [of s1] dist dt by (cases s1) auto
  have o2: "ptr s2 \<notin> nodes t" "ptr s2 \<notin> nodes s1" "ptr s2 \<notin> set (cnodes fs)" "ptr s2 \<noteq> p" "ptr s2 \<noteq> sp" "p \<noteq> ptr s2" "sp \<noteq> ptr s2"
    using ptr_in [OF s2] dist dt by auto
  define h1 where "h1 = set_child (\<not> d) p (ptr s1) h"
  define h2 where "h2 = (if ptr s1 \<noteq> 0 then rb_set_parent (ptr s1) p h1 else h1)"
  define h3 where "h3 = set_child d sp p h2"
  define h4 where "h4 = set_pc (ptr s2) (enc sp True) h3"
  have H2: "pc h2 p = enc (top fs) b" "child d h2 p = ptr t" "child (\<not> d) h2 p = ptr s1" "child (\<not> d) h2 sp = ptr s2"
      "rep h2 p t" "rep h2 sp s2" "crep h2 p fs"
    using t c D o1 by (simp_all add: h2_def h1_def rb_set_parent_def)
  have "rep h1 sp s1" using c D by (simp add: h1_def)
  then have S1: "rep h2 p s1" unfolding h2_def using dt al(2) by (intro set_parent_rep)
  have "rep h3 sp s2" using H2 dt by (simp add: h3_def)
  then have S2: "rep h4 sp (paint True s2)" unfolding h4_def using dt by (intro rep_parent)
  have H4: "pc h4 p = enc (top fs) b" "child d h4 p = ptr t" "child (\<not> d) h4 p = ptr s1" "child d h4 sp = p"
      "child (\<not> d) h4 sp = ptr s2" "rep h4 p t" "rep h4 p s1" "crep h4 p fs"
    using H2 S1 D dt o2 by (simp_all add: h4_def h3_def)
  have "erase_case4 d p sp (ptr s2) h = rb_rotate_set_parents p sp RB_BLACK h4"
    using c al by (simp add: erase_case4_def Let_def h4_def h3_def h2_def h1_def rb_set_parent_color_def)
  then have run: "erase_case4 d p sp (ptr s2) h =
      rb_change_child p sp (top fs) (set_pc p (enc sp True) (set_pc sp (enc (top fs) b) h4))"
    using rotate_set_parents_eq [OF H4(1) al(5), of sp RB_BLACK] al by simp
  show ?thesis
    unfolding run using al D dt tf H4 S2 by (simp add: change_child_crep)
qed

lemma erase_case3_spec:
  assumes t: "rep h p t" and x2: "col x2"
    and c: "crep h (ptr t) (Fr d p b (node d sp True (node d x False x1 x2) s2) # fs)"
    and dist: "distinct (inorder t @ cnodes (Fr d p b (node d sp True (node d x False x1 x2) s2) # fs))"
    and h': "h' = erase_case4 d p x sp (erase_case3 d p sp x h)"
  shows "rep h' (top fs) (node d x b (node d p True t x1) (node d sp True x2 s2)) \<and> crep h' x fs"
proof -
  have al: "aligned p" "aligned sp" "aligned x" "p \<noteq> 0" "sp \<noteq> 0" "x \<noteq> 0" "aligned (top fs)" using c top_aligned by auto
  have dt: "distinct (inorder x1)" "distinct (inorder x2)" "nodes x1 \<inter> nodes x2 = {}" "x \<notin> nodes x1" "x \<notin> nodes x2"
      "x \<noteq> sp" "sp \<notin> nodes x1" "sp \<notin> nodes x2" "sp \<notin> nodes s2" "x \<notin> nodes s2" "nodes x1 \<inter> nodes s2 = {}" "nodes x2 \<inter> nodes s2 = {}"
    using dist by (auto simp: node_def split: if_splits)
  have D: "p \<noteq> sp" "p \<noteq> x" "p \<notin> nodes t" "p \<notin> nodes x1" "p \<notin> nodes x2" "p \<notin> nodes s2" "p \<notin> set (cnodes fs)"
    "sp \<notin> nodes t" "sp \<notin> set (cnodes fs)" "x \<notin> nodes t" "x \<notin> set (cnodes fs)" "distinct (cnodes fs)" using dist by auto
  have tf: "top fs \<notin> nodes t \<or> top fs = 0" "top fs \<notin> nodes x1 \<or> top fs = 0" "top fs \<notin> nodes x2 \<or> top fs = 0"
    "top fs \<notin> nodes s2 \<or> top fs = 0" "p \<noteq> top fs \<or> top fs = 0" "sp \<noteq> top fs \<or> top fs = 0" "x \<noteq> top fs \<or> top fs = 0"
    using top_cases [of fs] dist by auto
  have o1: "ptr x1 \<noteq> 0 \<Longrightarrow> ptr x1 \<notin> nodes t \<and> ptr x1 \<notin> nodes x2 \<and> ptr x1 \<notin> nodes s2 \<and> ptr x1 \<notin> set (cnodes fs) \<and>
      ptr x1 \<noteq> p \<and> ptr x1 \<noteq> sp \<and> ptr x1 \<noteq> x \<and> p \<noteq> ptr x1 \<and> sp \<noteq> ptr x1 \<and> x \<noteq> ptr x1"
    using ptr_in [of x1] dist dt by (cases x1) auto
  have o2: "ptr x2 \<noteq> 0 \<Longrightarrow> ptr x2 \<notin> nodes t \<and> ptr x2 \<notin> nodes x1 \<and> ptr x2 \<notin> nodes s2 \<and> ptr x2 \<notin> set (cnodes fs) \<and>
      ptr x2 \<noteq> p \<and> ptr x2 \<noteq> sp \<and> ptr x2 \<noteq> x \<and> p \<noteq> ptr x2 \<and> sp \<noteq> ptr x2 \<and> x \<noteq> ptr x2"
    using ptr_in [of x2] dist dt by (cases x2) auto
  define h1 where "h1 = set_child d sp (ptr x2) h"
  define h2 where "h2 = (if ptr x2 \<noteq> 0 then rb_set_parent_color (ptr x2) sp RB_BLACK h1 else h1)"
  define h4 where "h4 = set_child (\<not> d) p x (set_child (\<not> d) x sp h2)"
  define h5 where "h5 = set_child (\<not> d) p (ptr x1) h4"
  define h6 where "h6 = (if ptr x1 \<noteq> 0 then rb_set_parent (ptr x1) p h5 else h5)"
  define h7 where "h7 = set_pc sp (enc x True) (set_child d x p h6)"
  have H2: "pc h2 p = enc (top fs) b" "child d h2 p = ptr t" "child d h2 x = ptr x1" "child d h2 sp = ptr x2"
      "child (\<not> d) h2 sp = ptr s2" "rep h2 p t" "rep h2 x x1" "rep h2 sp s2" "crep h2 p fs"
    using t c D dt o2 by (simp_all add: h2_def h1_def rb_set_parent_color_def)
  have "rep h1 x x2" using c dt by (simp add: h1_def)
  then have X2: "rep h2 sp x2" unfolding h2_def using dt al(2) x2 by (intro set_parent_black)
  have H4: "pc h4 p = enc (top fs) b" "child d h4 p = ptr t" "child d h4 x = ptr x1" "child (\<not> d) h4 x = sp"
      "child d h4 sp = ptr x2" "child (\<not> d) h4 sp = ptr s2" "rep h4 p t" "rep h4 x x1" "rep h4 sp s2" "rep h4 sp x2" "crep h4 p fs"
    using H2 X2 D dt by (simp_all add: h4_def)
  have "rep h5 x x1" using H4 D by (simp add: h5_def)
  then have X1: "rep h6 p x1" unfolding h6_def using dt al(3) by (intro set_parent_rep)
  have H7: "pc h7 p = enc (top fs) b" "child d h7 p = ptr t" "child (\<not> d) h7 p = ptr x1" "child d h7 x = p" "child (\<not> d) h7 x = sp"
      "child d h7 sp = ptr x2" "child (\<not> d) h7 sp = ptr s2" "pc h7 sp = enc x True" "rep h7 p t" "rep h7 p x1" "rep h7 sp s2" "rep h7 sp x2" "crep h7 p fs"
    using H4 X1 D dt o1 by (simp_all add: h7_def h6_def h5_def rb_set_parent_def)
  have "erase_case3 d p sp x h = h4" using c by (simp add: erase_case3_def Let_def h4_def h2_def h1_def)
  then have "h' = rb_rotate_set_parents p x RB_BLACK h7"
    using H4 al by (simp add: h' erase_case4_def Let_def h7_def h6_def h5_def rb_set_parent_color_def)
  then have run: "h' = rb_change_child p x (top fs) (set_pc p (enc x True) (set_pc x (enc (top fs) b) h7))"
    using rotate_set_parents_eq [OF H7(1) al(7), of x RB_BLACK] al by simp
  show ?thesis
    unfolding run using al D dt tf H7 by (simp add: change_child_crep)
qed

lemma erase_case1_spec:
  assumes t: "rep h p t" and c: "crep h (ptr t) (Fr d p True (node d sp False s1 s2) # fs)" and s1: "s1 \<noteq> Lf" "col s1"
    and dist: "distinct (inorder t @ cnodes (Fr d p True (node d sp False s1 s2) # fs))"
    and h': "(x, h') = erase_case1 d p sp h"
  shows "x = ptr s1 \<and> rep h' p t \<and> crep h' (ptr t) (Fr d p False s1 # Fr d sp True s2 # fs)"
proof -
  have al: "aligned p" "aligned sp" "p \<noteq> 0" "sp \<noteq> 0" "aligned (top fs)" using c top_aligned by auto
  have dt: "distinct (inorder s1)" "distinct (inorder s2)" "nodes s1 \<inter> nodes s2 = {}" "sp \<notin> nodes s1" "sp \<notin> nodes s2"
    using dist by (auto simp: node_def split: if_splits)
  have D: "p \<noteq> sp" "p \<notin> nodes t" "p \<notin> nodes s1" "p \<notin> nodes s2" "p \<notin> set (cnodes fs)"
    "sp \<notin> nodes t" "sp \<notin> set (cnodes fs)" "distinct (cnodes fs)" using dist by auto
  have tf: "top fs \<notin> nodes t \<or> top fs = 0" "top fs \<notin> nodes s1 \<or> top fs = 0" "top fs \<notin> nodes s2 \<or> top fs = 0"
    "p \<noteq> top fs \<or> top fs = 0" "sp \<noteq> top fs \<or> top fs = 0" using top_cases [of fs] dist by auto
  have o1: "ptr s1 \<notin> nodes t" "ptr s1 \<notin> nodes s2" "ptr s1 \<notin> set (cnodes fs)" "ptr s1 \<noteq> p" "ptr s1 \<noteq> sp" "p \<noteq> ptr s1" "sp \<noteq> ptr s1"
    using ptr_in [OF s1(1)] dist dt by auto
  define h1 where "h1 = set_child (\<not> d) p (ptr s1) h"
  define h2 where "h2 = set_pc (ptr s1) (enc p True) h1"
  define h3 where "h3 = set_child d sp p h2"
  have "rep h1 sp s1" using c D by (simp add: h1_def)
  then have "rep h2 p (paint True s1)" unfolding h2_def using dt by (intro rep_parent)
  then have S1: "rep h2 p s1" using s1 by (cases s1) auto
  have H3: "pc h3 p = enc (top fs) True" "child d h3 p = ptr t" "child (\<not> d) h3 p = ptr s1" "child d h3 sp = p"
      "child (\<not> d) h3 sp = ptr s2" "rep h3 p t" "rep h3 sp s2" "rep h3 p s1" "crep h3 p fs"
    using t c D o1 dt S1 by (simp_all add: h3_def h2_def h1_def)
  have "x = ptr s1" "h' = rb_rotate_set_parents p sp RB_RED h3"
    using h' c al by (simp_all add: erase_case1_def Let_def h3_def h2_def h1_def rb_set_parent_color_def)
  then have run: "x = ptr s1" "h' = rb_change_child p sp (top fs) (set_pc p sp (set_pc sp (enc (top fs) True) h3))"
    using rotate_set_parents_eq [OF H3(1) al(5), of sp RB_RED] al by simp_all
  show ?thesis
    unfolding run using al D dt tf H3 by (simp add: change_child_crep)
qed

section \<open>The loop\<close>

lemma red_ptr: "rep h p t \<Longrightarrow> aligned p \<Longrightarrow> ptr t = 0 \<or> rb_is_black h (ptr t) \<longleftrightarrow> col t"
  by (cases t) (auto simp: rb_is_black_def)

lemma erase_sibling_spec:
  assumes t: "rep h p t" and c: "crep h (ptr t) (Fr d p b s # fs)"
    and dist: "distinct (inorder t @ cnodes (Fr d p b s # fs))"
    and ok: "invc t" "invh t" "col t" and ctx: "ctx_ok (Fr d p b s # fs) (Suc (bheight t))" and s: "col s"
    and run: "erase_sibling d p (ptr s) h = (fin, h')"
  shows "if fin then \<exists>t'. holds_tree h' t' \<and> inorder t' = inorder (plug t (Fr d p b s # fs))
    else rep h' (top fs) (node d p b t (paint False s)) \<and> crep h' p fs \<and> invc (paint False s) \<and> bheight (paint False s) = bheight t"
proof -
  have so: "s \<noteq> Lf" "invc s" "invh s" "bheight s = Suc (bheight t)" using ctx by auto
  obtain s1 s2 where s12: "s = node d (ptr s) True s1 s2" and o: "invc s1" "invc s2" "invh s1" "invh s2"
      "bheight s1 = bheight t" "bheight s2 = bheight t"
    using as_node_ok [OF so(1-3), of d] so(4) s by auto
  define sp where "sp = ptr s"
  have s12: "s = node d sp True s1 s2" using s12 by (simp add: sp_def)
  have ch: "child d h sp = ptr s1" "child (\<not> d) h sp = ptr s2" "rep h sp s1" "rep h sp s2" "aligned sp"
    "aligned p" using c by (auto simp: s12)
  note r1 = red_ptr [OF ch(3,5)] and r2 = red_ptr [OF ch(4,5)]
  have ctx': "ctx_ok fs (Suc (bheight t + (if b then 1 else 0)))" "b \<or> topcol fs" using ctx by auto
  have D: "distinct (inorder (node d p b t s) @ cnodes fs)" using dist unfolding plug_distinct [symmetric] by simp
  consider "\<not> col s2" | "col s2" "\<not> col s1" | "col s2" "col s1" by blast
  then show ?thesis
  proof cases
    case 1
    then have s2: "s2 \<noteq> Lf" by auto
    let ?t = "node d sp b (node d p True t s1) (paint True s2)"
    have e: "fin" "h' = erase_case4 d p sp (ptr s2) h" using run 1 r2 ch by (auto simp: erase_sibling_def s12)
    have "rep h' (top fs) ?t \<and> crep h' sp fs"
      unfolding e by (rule erase_case4_spec [OF t c [unfolded s12] s2 dist [unfolded s12]])
    then have "holds_tree h' (plug ?t fs) \<and> inorder (plug ?t fs) = inorder (plug (node d p b t s) fs)"
      using D ok o ctx' s2 bheight_paint [OF s2 1] by (intro replace_sub) (auto simp: inorder_node s12)
    then show ?thesis using e by auto
  next
    case 2
    then obtain x1 x2 where x: "s1 = node d (ptr s1) False x1 x2" "invc x1" "invc x2" "invh x1" "invh x2"
        "bheight x1 = bheight t" "bheight x2 = bheight t" "col x1" "col x2"
      using as_node_ok [of s1 d] o by fastforce
    define xp where "xp = ptr s1"
    have s1: "s1 = node d xp False x1 x2" using x(1) by (simp add: xp_def)
    let ?t = "node d xp b (node d p True t x1) (node d sp True x2 s2)"
    have e: "fin" "h' = erase_case4 d p xp sp (erase_case3 d p sp xp h)"
      using run 2 r1 r2 ch by (auto simp: erase_sibling_def s12 xp_def Let_def)
    have "rep h' (top fs) ?t \<and> crep h' xp fs"
      by (rule erase_case3_spec [OF t x(9) c [unfolded s12 s1] dist [unfolded s12 s1] e(2)])
    then have "holds_tree h' (plug ?t fs) \<and> inorder (plug ?t fs) = inorder (plug (node d p b t s) fs)"
      using D ok o x(2-9) ctx' 2 by (intro replace_sub) (auto simp: inorder_node s12 s1)
    then show ?thesis using e by auto
  next
    case 3
    have e: "\<not> fin" "h' = set_pc sp p h"
      using run 3 r1 r2 ch by (auto simp: erase_sibling_def s12 rb_set_parent_color_def)
    have "sp \<noteq> p" "sp \<notin> nodes t" "sp \<notin> set (cnodes fs)" "distinct (inorder s)" using dist by (auto simp: s12)
    moreover from this have "rep h' p (paint False s)"
      using c rep_parent [of h p s p False] by (simp add: e s12)
    moreover have "invc (paint False s)" "bheight (paint False s) = bheight t"
      using 3 o by (cases d; simp add: s12 node_def)+
    ultimately show ?thesis using t c e by (simp add: s12)
  qed
qed

lemma set_black_spec:
  assumes t: "rep h (top fs) (node d p False t s)" and c: "crep h p fs"
    and dist: "distinct (inorder (node d p False t s) @ cnodes fs)"
    and ok: "invc t" "invh t" "invc s" "invh s" "bheight s = bheight t" "ctx_ok fs (Suc (bheight t))"
  shows "holds_tree (rb_set_black p h) (plug (node d p True t s) fs)"
proof -
  have "rb_set_black p h = set_pc p (enc (top fs) True) h"
    using t top_aligned [OF c] by (simp add: rb_set_black_def)
  moreover have "p \<notin> nodes t" "p \<notin> nodes s" "p \<notin> set (cnodes fs)"
    using dist by (auto simp: inorder_node split: if_splits)
  ultimately show ?thesis using t c dist ok by (auto simp: holds_plug inorder_node)
qed

lemma erase_fix_spec:
  assumes "rep h (top fs) t" and "crep h (ptr t) fs" and "distinct (inorder t @ cnodes fs)"
    and "invc t" and "invh t" and "col t" and "ctx_ok fs (Suc (bheight t))" and "fs \<noteq> []"
  shows "\<exists>h' t'. rb_erase_fix (ptr t) (top fs) h = Some h' \<and> holds_tree h' t' \<and> inorder t' = inorder (plug t fs)"
  using assms
proof (induction "length fs" arbitrary: fs t h rule: less_induct)
  case less
  obtain d p b s fs' where fs: "fs = Fr d p b s # fs'" using less.prems(8) by (cases fs rule: cnodes.cases) auto
  note t = less.prems(1) [unfolded fs top.simps] and c = less.prems(2) [unfolded fs] and dist = less.prems(3) [unfolded fs]
    and ctx = less.prems(7) [unfolded fs] and ok = less.prems(4-6)
  have p: "p \<noteq> 0" "aligned p" "child d h p = ptr t" "child (\<not> d) h p = ptr s" "rep h p s" "pc h p = enc (top fs') b"
      "aligned (top fs')" using c top_aligned by auto
  have so: "s \<noteq> Lf" "invc s" "invh s" "bheight s = Suc (bheight t)" "ptr s \<noteq> 0"
      "ctx_ok fs' (Suc (bheight t + (if b then 1 else 0)))" "b \<or> topcol fs'" "b \<or> col s"
    using ctx p(5) ptr_0 [of h s] by (auto simp: rep_alt)
  have "ptr s \<noteq> ptr t" using ptr_in [OF so(1)] ptr_in [of t] dist so(5) by (cases t) auto
  then have d: "(ptr t = rgt h p) = d" using p by (cases d) (auto simp: child_def)
  have red: "rb_is_red h (ptr s) \<longleftrightarrow> \<not> col s" using red_ptr [OF p(5,2)] so(5) by (simp add: rb_is_red_def rb_is_black_def)
  have D: "distinct (inorder (node d p b t s) @ cnodes fs')" using dist unfolding plug_distinct [symmetric] by simp
  show ?case
  proof (cases "col s")
    case True
    obtain fin h1 where e: "erase_sibling d p (ptr s) h = (fin, h1)" by fastforce
    note sib = erase_sibling_spec [OF t c dist ok ctx True e]
    have run: "rb_erase_fix (ptr t) (top fs) h = (if fin then Some h1 else if rb_is_red h1 p then Some (rb_set_black p h1)
        else let p' = rb_parent h1 p in if p' \<noteq> 0 then rb_erase_fix p p' h1 else Some h1)"
      using True d p so red e by (subst rb_erase_fix.simps) (simp add: fs)
    let ?t = "node d p b t (paint False s)"
    show ?thesis
    proof (cases fin)
      case True
      then show ?thesis using sib run fs by auto
    next
      case nfin: False
      then have r: "rep h1 (top fs') ?t" "crep h1 p fs'" "invc (paint False s)" "bheight (paint False s) = bheight t"
        using sib by auto
      have pr: "rb_is_red h1 p \<longleftrightarrow> \<not> b" "rb_parent h1 p = top fs'"
        using r(1) p(7) by (auto simp: rb_is_red_def rb_parent_def)
      have D': "distinct (inorder ?t @ cnodes fs')" using D by (auto simp: inorder_node split: if_splits)
      have i: "inorder (plug (node d p b' t (paint False s)) fs') = inorder (plug t fs)" for b'
        unfolding fs plug.simps by (rule inorder_plug_cong) (simp add: inorder_node)
      show ?thesis
      proof (cases b)
        case False
        have "holds_tree (rb_set_black p h1) (plug (node d p True t (paint False s)) fs')"
          using r D' ok so False by (intro set_black_spec) auto
        then show ?thesis using run nfin pr(1) False i by auto
      next
        case b: True
        have t2: "invc ?t" "invh ?t" "col ?t" "bheight ?t = Suc (bheight t)" using ok r so b by auto
        show ?thesis
        proof (cases "fs' = []")
          case True
          then have "holds_tree h1 ?t" using r D' t2 by (simp add: holds_tree_def rbt_ok_def)
          then show ?thesis using run nfin pr b i [of b] True by auto
        next
          case False
          then have "top fs' \<noteq> 0" using r(2) by (cases fs' rule: cnodes.cases) auto
          then have "rb_erase_fix (ptr t) (top fs) h = rb_erase_fix (ptr ?t) (top fs') h1" using run nfin pr b by simp
          moreover have "\<exists>h' t'. rb_erase_fix (ptr ?t) (top fs') h1 = Some h' \<and> holds_tree h' t' \<and> inorder t' = inorder (plug ?t fs')"
            using less.hyps [of fs' h1 ?t] r D' t2 so(6) b fs False by simp
          ultimately show ?thesis using i [of b] by metis
        qed
      qed
    qed
  next
    case False
    then have b: b using so(8) by simp
    obtain s1 s2 where s12: "s = node d (ptr s) False s1 s2" and o: "invc s1" "invc s2" "invh s1" "invh s2" "col s1" "col s2"
        "bheight s1 = Suc (bheight t)" "bheight s2 = Suc (bheight t)"
      using as_node_ok [OF so(1-3), of d] so(4) False by auto
    define sp where "sp = ptr s"
    have s12: "s = node d sp False s1 s2" using s12 by (simp add: sp_def)
    have s1: "s1 \<noteq> Lf" using o(7) by auto
    obtain x h1 where e1: "(x, h1) = erase_case1 d p sp h" by (metis surj_pair)
    let ?fs = "Fr d p False s1 # Fr d sp True s2 # fs'"
    have r: "x = ptr s1" "rep h1 p t" "crep h1 (ptr t) ?fs"
      using erase_case1_spec [OF t _ s1 o(5) _ e1] c dist b by (auto simp: s12)
    have dist': "distinct (inorder t @ cnodes ?fs)" using dist s12 by (auto simp: node_def split: if_splits)
    have ctx2: "ctx_ok ?fs (Suc (bheight t))" using o so b by simp
    obtain fin h2 where e: "erase_sibling d p (ptr s1) h1 = (fin, h2)" by fastforce
    note sib = erase_sibling_spec [OF r(2,3) dist' ok ctx2 o(5) e]
    have x0: "ptr s1 \<noteq> 0" using r(3) s1 by (cases s1) auto
    have run: "rb_erase_fix (ptr t) (top fs) h = (if fin then Some h2 else if rb_is_red h2 p then Some (rb_set_black p h2)
        else let p' = rb_parent h2 p in if p' \<noteq> 0 then rb_erase_fix p p' h2 else Some h2)"
      using False d p so red e e1 [symmetric] r(1) x0 by (subst rb_erase_fix.simps) (simp add: fs sp_def)
    have i: "inorder (plug t ?fs) = inorder (plug t fs)"
      unfolding fs plug.simps by (rule inorder_plug_cong) (simp add: inorder_node s12)
    show ?thesis
    proof (cases fin)
      case True
      then show ?thesis using sib run i by auto
    next
      case nfin: False
      then have q: "rep h2 sp (node d p False t (paint False s1))" "crep h2 p (Fr d sp True s2 # fs')"
          "invc (paint False s1)" "bheight (paint False s1) = bheight t" using sib by auto
      have al: "aligned sp" using q(2) by simp
      have "rb_is_red h2 p" using q(1) al by (auto simp: rb_is_red_def)
      moreover have "distinct (inorder (node d p False t (paint False s1)) @ cnodes (Fr d sp True s2 # fs'))"
        using dist' by (auto simp: inorder_node split: if_splits)
      moreover from this have "holds_tree (rb_set_black p h2) (plug (node d p True t (paint False s1)) (Fr d sp True s2 # fs'))"
        using q ok o so ctx2 by (intro set_black_spec) auto
      moreover have "inorder (plug (node d p True t (paint False s1)) (Fr d sp True s2 # fs')) = inorder (plug t ?fs)"
        unfolding plug.simps by (rule inorder_plug_cong) (simp add: inorder_node)
      ultimately show ?thesis using run nfin i by metis
    qed
  qed
qed

section \<open>Unlinking a node\<close>

text \<open>
  Part of a position: the frames \<open>gs\<close> between a hole at \<open>x\<close> and a parent \<open>p\<close>; \<open>bot\<close> is the
  address below \<open>p\<close>.
\<close>

fun seg :: "rb_heap \<Rightarrow> addr \<Rightarrow> addr \<Rightarrow> frame list \<Rightarrow> bool" where
  "seg h p x [] = True"
| "seg h p x (Fr d a b s # gs) = (a \<noteq> 0 \<and> aligned a \<and> pc h a = enc (if gs = [] then p else top gs) b \<and>
     child d h a = x \<and> child (\<not> d) h a = ptr s \<and> rep h a s \<and> seg h p a gs)"

fun bot :: "addr \<Rightarrow> frame list \<Rightarrow> addr" where
  "bot x [] = x"
| "bot x (Fr d a b s # gs) = bot a gs"

lemma top_append [simp]: "top (gs @ fs) = (if gs = [] then top fs else top gs)"
  by (cases gs rule: cnodes.cases) auto

lemma cnodes_append [simp]: "cnodes (gs @ fs) = cnodes gs @ cnodes fs"
  by (induction gs rule: cnodes.induct) auto

lemma plug_append [simp]: "plug t (gs @ fs) = plug (plug t gs) fs"
  by (induction gs arbitrary: t rule: cnodes.induct) auto

lemma crep_append [simp]: "crep h x (gs @ fs) \<longleftrightarrow> seg h (top fs) x gs \<and> crep h (bot x gs) fs"
  by (induction gs arbitrary: x rule: cnodes.induct) auto

lemma ptr_plug: "ptr (plug t gs) = bot (ptr t) gs"
  by (induction gs arbitrary: t rule: cnodes.induct) auto

lemma rep_ptr: "rep h p t \<Longrightarrow> ptr t = 0 \<longleftrightarrow> t = Lf"
  by (cases t) auto

lemma bot_in: "gs \<noteq> [] \<Longrightarrow> bot x gs \<in> set (cnodes gs)"
proof (induction gs arbitrary: x rule: cnodes.induct)
  case (2 d a b s gs)
  then show ?case by (cases gs) auto
qed simp

lemma bot_hole: "gs \<noteq> [] \<Longrightarrow> bot x gs = bot y gs"
  by (cases gs rule: cnodes.cases) auto

lemma seg_cong:
  "(\<And>a. a \<in> set (cnodes gs) \<Longrightarrow> pc h a = pc h' a \<and> (\<forall>d. child d h a = child d h' a)) \<Longrightarrow> seg h p x gs = seg h' p x gs"
proof (induction gs arbitrary: x rule: cnodes.induct)
  case (2 d a b s gs)
  have "rep h a s = rep h' a s" using 2(2) by (intro rep_cong) simp
  moreover have "seg h p a gs = seg h' p a gs" using 2(2) by (intro 2(1)) auto
  ultimately show ?case using 2(2) by simp
qed simp

lemma seg_frame [simp]:
  "a \<notin> set (cnodes gs) \<Longrightarrow> seg (set_pc a w h) p x gs = seg h p x gs"
  "a \<notin> set (cnodes gs) \<Longrightarrow> seg (set_child d a y h) p x gs = seg h p x gs"
  by (rule seg_cong; force)+

lemma seg_change_child [simp]:
  "q \<notin> set (cnodes gs) \<or> q = 0 \<Longrightarrow> seg (rb_change_child old new q h) p x gs = seg h p x gs"
  by (rule seg_cong) (metis change_child_frame(1,3))

lemma seg_hole:
  assumes "seg h p x (Fr d a b s # gs)" and "distinct (cnodes (Fr d a b s # gs))"
  shows "seg (set_child d a y h) p y (Fr d a b s # gs)"
  using assms by auto

lemma seg_parent:
  "gs \<noteq> [] \<Longrightarrow> seg h p x gs \<Longrightarrow> distinct (cnodes gs) \<Longrightarrow> aligned p \<Longrightarrow> seg (rb_set_parent (bot x gs) q h) q x gs"
proof (induction gs arbitrary: x rule: cnodes.induct)
  case (2 d a b s gs)
  show ?case
  proof (cases "gs = []")
    case True
    then show ?thesis using 2(3-5) by (auto simp: rb_set_parent_def)
  next
    case False
    then have "seg (rb_set_parent (bot a gs) q h) q a gs" "bot a gs \<in> set (cnodes gs)"
      using 2 bot_in [of gs a] by auto
    moreover from this have "bot a gs \<noteq> a" "bot a gs \<notin> nodes s" using 2(4) by auto
    ultimately show ?thesis using 2(3) False by (auto simp: rb_set_parent_def)
  qed
qed simp

lemma before_append [simp]: "before (gs @ fs) = before fs @ before gs"
  by (induction gs rule: before.induct) auto

lemma after_append [simp]: "after (gs @ fs) = after gs @ after fs"
  by (induction gs rule: after.induct) auto

text \<open>The hole of an address of the tree.\<close>

lemma position: "n \<in> nodes t \<Longrightarrow> \<exists>l b r fs. t = plug (Nd l n b r) fs"
proof (induction t)
  case (Nd l a b r)
  have l: "Nd l a b r = plug l [Fr False a b r]" and r: "Nd l a b r = plug r [Fr True a b l]" by (simp_all add: node_def)
  consider "n = a" | "n \<in> nodes l" | "n \<in> nodes r" using Nd.prems by auto
  then show ?case
  proof cases
    case 1
    then show ?thesis by (metis plug.simps(1))
  next
    case 2
    then obtain l' b' r' fs where "l = plug (Nd l' n b' r') fs" using Nd.IH(1) by blast
    then show ?thesis by (metis l plug_append)
  next
    case 3
    then obtain l' b' r' fs where "r = plug (Nd l' n b' r') fs" using Nd.IH(2) by blast
    then show ?thesis by (metis r plug_append)
  qed
qed simp

text \<open>The successor in the right subtree.\<close>

lemma rb_leftmost_spec:
  "rep h p (Nd l a b r) \<Longrightarrow> l \<noteq> Lf \<Longrightarrow>
   \<exists>gs c bc r2. rb_leftmost a (ptr l) h = Some (top gs, c) \<and> Nd l a b r = plug (Nd Lf c bc r2) gs \<and>
     (\<exists>a' b' s gs'. gs = Fr False a' b' s # gs') \<and> before gs = []"
proof (induction l arbitrary: p a b r)
  case (Nd ll la lb lr)
  have l: "lft h la = ptr ll" "rep h a (Nd ll la lb lr)" using Nd.prems(1) by (auto simp: child_def)
  show ?case
  proof (cases "ll = Lf")
    case True
    then have "rb_leftmost a la h = Some (a, la)" using l by (subst rb_leftmost.simps) simp
    then show ?thesis using True
      by (intro exI [of _ "[Fr False a b r]"] exI [of _ la] exI [of _ lb] exI [of _ lr]) (simp add: node_def)
  next
    case False
    then have "ptr ll \<noteq> 0" using l(2) by (cases ll) auto
    then have e: "rb_leftmost a la h = rb_leftmost la (ptr ll) h" using l(1) by (subst rb_leftmost.simps) simp
    obtain gs c bc r2 a' b' s gs' where g: "rb_leftmost la (ptr ll) h = Some (top gs, c)"
        "Nd ll la lb lr = plug (Nd Lf c bc r2) gs" "gs = Fr False a' b' s # gs'" "before gs = []"
      using Nd.IH(1) [OF l(2) False] by metis
    have "Nd (Nd ll la lb lr) a b r = plug (Nd Lf c bc r2) (gs @ [Fr False a b r])"
      unfolding plug_append g(2) [symmetric] by (simp add: node_def)
    then show ?thesis using e g(1,3,4)
      by (intro exI [of _ "gs @ [Fr False a b r]"] exI [of _ c] exI [of _ bc] exI [of _ r2]) simp
  qed
qed simp

text \<open>
  A node \<open>n\<close> with two children is replaced by its successor \<open>c\<close>, the leftmost node of the
  right subtree, whose own right subtree \<open>r2\<close> takes its place.
\<close>

lemma erase_lift:
  assumes t: "holds_tree h (plug (Nd Lf c bc r2) (gs @ Fr True n b l # fs))" and g: "gs = Fr False a' b' s # gs'"
    and h1: "h1 = rb_set_parent (bot c gs) c (set_child True c (bot c gs) (set_child False (top gs) (ptr r2) h))"
  shows "seg h1 c (ptr r2) gs \<and> child True h1 c = bot (ptr r2) gs \<and> rep h1 c r2 \<and> rep h1 n l \<and> crep h1 n fs \<and>
    child False h1 n = ptr l \<and> pc h1 n = enc (top fs) b \<and> pc h1 c = pc h c"
proof -
  let ?h = "set_child True c (bot c gs) (set_child False (top gs) (ptr r2) h)"
  have H: "rep h (top gs) (Nd Lf c bc r2)" "seg h n c gs" "crep h (bot c gs) (Fr True n b l # fs)"
      "distinct (c # inorder r2 @ cnodes gs @ n # inorder l @ cnodes fs)"
    using t g unfolding holds_plug by auto
  have gs: "gs \<noteq> []" "top gs \<in> set (cnodes gs)" using g by auto
  have out: "c \<notin> set (cnodes gs)" "top gs \<noteq> c" "top gs \<noteq> n" "top gs \<notin> nodes r2" "top gs \<notin> nodes l" "top gs \<notin> set (cnodes fs)"
    "c \<notin> nodes r2" "c \<noteq> n" "c \<notin> nodes l" "c \<notin> set (cnodes fs)"
    using H(4) gs(2) by auto
  have out2: "bot c gs \<noteq> c" "bot c gs \<noteq> n" "bot c gs \<notin> nodes r2" "bot c gs \<notin> nodes l" "bot c gs \<notin> set (cnodes fs)"
    using H(4) bot_in [OF gs(1), of c] by auto
  have "seg (set_child False (top gs) (ptr r2) h) n (ptr r2) gs"
    using H(2,4) unfolding g top.simps by (intro seg_hole) auto
  then have "seg ?h n (ptr r2) gs" using out(1) by simp
  then have "seg h1 c (ptr r2) gs"
    unfolding h1 bot_hole [OF gs(1), of c "ptr r2"] using H gs(1) by (intro seg_parent [of _ _ n]) auto
  then show ?thesis using H out out2 bot_hole [OF gs(1), of "ptr r2" c] by (simp add: h1 rb_set_parent_def)
qed

lemma erase_relink:
  assumes H: "seg h1 c (ptr r2) gs" "child True h1 c = bot (ptr r2) gs" "rep h1 c r2" "rep h1 n l" "crep h1 n fs"
      "child False h1 n = ptr l" "pc h1 n = enc (top fs) b"
    and D: "distinct (c # inorder r2 @ cnodes gs @ n # inorder l @ cnodes fs)" "c \<noteq> 0" "n \<noteq> 0" "aligned c" "aligned n" and l: "l \<noteq> Lf"
    and h2: "h2 = rb_set_parent (ptr l) c (set_child False c (ptr l) h1)"
    and h3: "h3 = set_pc c (pc h2 n) (rb_change_child n c (parent_of (pc h2 n)) h2)"
    and h4: "h4 = (if ptr r2 \<noteq> 0 then rb_set_parent_color (ptr r2) (top (gs @ Fr True c b l # fs)) RB_BLACK h3 else h3)"
  shows "rep h4 (top (gs @ Fr True c b l # fs)) (paint True r2) \<and> crep h4 (ptr r2) (gs @ Fr True c b l # fs)"
proof -
  have tf: "aligned (top fs)" using top_aligned [OF H(5)] .
  have pl: "ptr l \<in> nodes l" using ptr_in [OF l] .
  have l0: "ptr l \<noteq> 0" using l H(4) by (cases l) auto
  have o: "ptr l \<noteq> n" "ptr l \<noteq> c" "c \<noteq> ptr l" "ptr l \<notin> nodes r2" "ptr l \<notin> set (cnodes gs)" "ptr l \<notin> set (cnodes fs)" using D(1) pl by auto
  have f: "top fs \<noteq> c \<or> top fs = 0" "c \<noteq> top fs \<or> top fs = 0" "top fs \<notin> nodes l \<or> top fs = 0" "top fs \<notin> nodes r2 \<or> top fs = 0"
    "top fs \<notin> set (cnodes gs) \<or> top fs = 0" using top_cases [of fs] D(1) by auto
  have out: "c \<notin> nodes r2" "c \<notin> nodes l" "c \<notin> set (cnodes gs)" "c \<notin> set (cnodes fs)" "c \<noteq> n" "n \<noteq> c" "n \<notin> set (cnodes fs)"
    "distinct (cnodes fs)" using D(1) by auto
  have "rep (set_child False c (ptr l) h1) n l" using H(4) out by simp
  then have L: "rep h2 c l" unfolding h2 using set_parent_rep [of _ n l c] D l0 by fastforce
  have H2: "pc h2 n = enc (top fs) b" "child False h2 c = ptr l" "child True h2 c = bot (ptr r2) gs" "seg h2 c (ptr r2) gs"
      "rep h2 c r2" "crep h2 n fs"
    using H o out by (simp_all add: h2 rb_set_parent_def)
  have H3: "pc h3 c = enc (top fs) b" "child False h3 c = ptr l" "child True h3 c = bot (ptr r2) gs" "seg h3 c (ptr r2) gs"
      "rep h3 c r2" "rep h3 c l" "crep h3 c fs"
    using H2 L f tf out D(3) by (simp_all add: h3 change_child_crep)
  have o2: "ptr r2 \<noteq> 0 \<Longrightarrow> ptr r2 \<noteq> c \<and> c \<noteq> ptr r2 \<and> ptr r2 \<notin> nodes l \<and> ptr r2 \<notin> set (cnodes gs) \<and> ptr r2 \<notin> set (cnodes fs)"
    using ptr_in [of r2] D(1) by (cases r2) auto
  have al: "aligned (top (gs @ Fr True c b l # fs))" using H(1) D(4) by (cases gs rule: cnodes.cases) auto
  have "rep h4 (top (gs @ Fr True c b l # fs)) (paint True r2)"
  proof (cases "r2 = Lf")
    case False
    then have "ptr r2 \<noteq> 0" using H(3) by (cases r2) auto
    then show ?thesis using rep_parent [OF H3(5), of "top (gs @ Fr True c b l # fs)" True] al D(1)
      by (simp add: h4 rb_set_parent_color_def del: top_append)
  qed simp
  moreover have "crep h4 (ptr r2) (gs @ Fr True c b l # fs)"
    using H3 o2 D(2,4) by (cases "ptr r2 = 0") (simp_all add: h4 rb_set_parent_color_def)
  ultimately show ?thesis by simp
qed

section \<open>The whole removal\<close>

lemma erase_rebalance:
  assumes k: "rep h (top F) k" "crep h (ptr k) F" "distinct (inorder k @ cnodes F)" "invc k" "invh k" "col k"
    and r: "if reb then k = Lf \<and> ctx_ok F 1 else ctx_ok F (bheight k)"
  shows "\<exists>h' t'. (if (if reb then top F else 0) \<noteq> 0 then rb_erase_fix 0 (if reb then top F else 0) h else Some h) = Some h' \<and>
    holds_tree h' t' \<and> inorder t' = inorder (plug k F)"
proof (cases "reb \<and> F \<noteq> []")
  case True
  then have "top F \<noteq> 0" using k(2) by (cases F rule: cnodes.cases) auto
  then show ?thesis using erase_fix_spec [OF k] True r by auto
next
  case False
  have "ctx_ok F (bheight k)" using False r by (cases reb) auto
  then have "holds_tree h (plug k F)" unfolding holds_plug using k by simp
  then show ?thesis using False by auto
qed

lemma change_child_set_pc: "rb_change_child old new p (set_pc a w h) = set_pc a w (rb_change_child old new p h)"
  by (auto simp: rb_change_child_def set_pc_def set_child_def)

lemma single_child:
  assumes t: "holds_tree h (plug (node d n b k Lf) fs)" and h': "h' = rb_change_child n (ptr k) (top fs) h"
  shows "\<exists>h2 t2. (if (if k = Lf \<and> b then top fs else 0) \<noteq> 0
      then rb_erase_fix 0 (if k = Lf \<and> b then top fs else 0) (if k = Lf then h' else set_pc (ptr k) (pc h n) h')
      else Some (if k = Lf then h' else set_pc (ptr k) (pc h n) h')) = Some h2 \<and>
    holds_tree h2 t2 \<and> inorder t2 = inorder (plug k fs)"
proof -
  have H: "n \<noteq> 0" "pc h n = enc (top fs) b" "rep h n k" "crep h n fs" "n \<notin> set (cnodes fs)" "n \<notin> nodes k" "distinct (inorder k @ cnodes fs)"
      "invc k" "invh k" "bheight k = 0" "ctx_ok fs (if b then 1 else 0)" "b \<or> col k"
    using t unfolding holds_plug by (auto simp: inorder_node split: if_splits)
  have k: "k \<noteq> Lf \<Longrightarrow> \<not> col k" using H(10) by (cases k) auto
  have c: "crep h' (ptr k) fs" unfolding h' using H by (intro change_child_crep) auto
  have tk: "top fs \<notin> nodes k \<or> top fs = 0" using top_cases [of fs] H(7) by auto
  show ?thesis
  proof (cases "k = Lf")
    case True
    then show ?thesis using erase_rebalance [of h' fs Lf b] c H by (auto split: if_splits)
  next
    case False
    then have b: b and bh: "bheight (paint True k) = 1" using H(10,12) k bheight_paint [of k] by auto
    let ?h = "set_pc (ptr k) (pc h n) h'"
    have "rep h' n k" unfolding h' using H(3) tk by simp
    then have "rep ?h (top fs) (paint True k)" using rep_parent [of h' n k "top fs" True] H(2,7) b by simp
    moreover have "ptr k \<notin> set (cnodes fs)" using ptr_in [OF False] H(7) by auto
    moreover have "inorder (plug (paint True k) fs) = inorder (plug k fs)" by (rule inorder_plug_cong) simp
    ultimately show ?thesis using erase_rebalance [of ?h fs "paint True k" False] c H bh b False by simp
  qed
qed

lemma ctx_ok_rename: "ctx_ok (gs @ Fr d n b l # fs) k \<longleftrightarrow> ctx_ok (gs @ Fr d c b l # fs) k"
proof (induction gs arbitrary: k rule: cnodes.induct)
  case (2 d a b s gs)
  have "topcol (gs @ Fr d' n b' l # fs) = topcol (gs @ Fr d' c b' l # fs)" for d' b' by (cases gs rule: cnodes.cases) auto
  then show ?case using 2 by simp
qed simp

lemma two_children:
  assumes t: "holds_tree h (plug (Nd Lf c bc r2) (gs @ Fr True n b l # fs))" and l: "l \<noteq> Lf"
    and H: "seg h1 c (ptr r2) gs" "child True h1 c = bot (ptr r2) gs" "rep h1 c r2" "rep h1 n l" "crep h1 n fs"
      "child False h1 n = ptr l" "pc h1 n = enc (top fs) b" "pc h1 c = pc h c"
    and h2: "h2 = rb_set_parent (ptr l) c (set_child False c (ptr l) h1)"
    and h3: "h3 = rb_change_child n c (parent_of (pc h2 n)) h2"
    and x: "x = (if ptr r2 \<noteq> 0 then (0, rb_set_parent_color (ptr r2) (top (gs @ Fr True c b l # fs)) RB_BLACK (set_pc c (pc h2 n) h3))
      else (if is_black (pc h3 c) then top (gs @ Fr True c b l # fs) else 0, set_pc c (pc h2 n) h3))"
  shows "\<exists>h' t'. (case x of (rebalance, h) \<Rightarrow> if rebalance \<noteq> 0 then rb_erase_fix 0 rebalance h else Some h) = Some h' \<and>
    holds_tree h' t' \<and> inorder t' = inorder (plug r2 (gs @ Fr True c b l # fs))"
proof -
  let ?F = "gs @ Fr True c b l # fs"
  have T: "c \<noteq> 0" "aligned c" "pc h c = enc (if gs = [] then n else top gs) bc" "n \<noteq> 0" "aligned n"
      "distinct (c # inorder r2 @ cnodes gs @ n # inorder l @ cnodes fs)" "seg h n c gs" "invc r2" "invh r2" "bheight r2 = 0" "bc \<or> col r2"
      "ctx_ok (gs @ Fr True n b l # fs) (if bc then 1 else 0)"
    using t unfolding holds_plug by auto
  have ctx: "ctx_ok ?F (if bc then 1 else 0)" using T(12) ctx_ok_rename by metis
  have al: "aligned (if gs = [] then n else top gs)" using T(5,7) by (cases gs rule: cnodes.cases) auto
  have pl: "ptr l \<noteq> c" using ptr_in [OF l] T(6) by auto
  have bl: "is_black (pc h3 c) = bc" using pl H(8) T(3) al by (auto simp: h3 h2 rb_set_parent_def)
  have r2: "r2 \<noteq> Lf \<longleftrightarrow> ptr r2 \<noteq> 0" "r2 \<noteq> Lf \<Longrightarrow> \<not> col r2" using H(3) T(10) by (cases r2; auto)+
  define h4 where "h4 = (if ptr r2 \<noteq> 0 then rb_set_parent_color (ptr r2) (top ?F) RB_BLACK (set_pc c (pc h2 n) h3) else set_pc c (pc h2 n) h3)"
  have R: "rep h4 (top ?F) (paint True r2)" "crep h4 (ptr r2) ?F"
    using erase_relink [OF H(1-7) T(6,1,4,2,5) l h2 _ h4_def] by (auto simp: h3)
  have X: "x = (if r2 = Lf \<and> bc then top ?F else 0, h4)" unfolding x h4_def using r2(1) bl by auto
  have D: "distinct (inorder (paint True r2) @ cnodes ?F)" using T(6) by auto
  have bh: "r2 \<noteq> Lf \<Longrightarrow> bheight (paint True r2) = 1 \<and> bc" using r2(2) T(10,11) bheight_paint by auto
  have i: "inorder (plug (paint True r2) ?F) = inorder (plug r2 ?F)" by (rule inorder_plug_cong) simp
  have cl: "col (paint True r2)" by (cases r2) auto
  have ok: "if r2 = Lf \<and> bc then paint True r2 = Lf \<and> ctx_ok ?F 1 else ctx_ok ?F (bheight (paint True r2))"
    using ctx bh by (cases "r2 = Lf") auto
  show ?thesis
    using erase_rebalance [of h4 ?F "paint True r2" "r2 = Lf \<and> bc"] R D T(8,9) cl ok i unfolding X by simp
qed

lemma remove1_at: "distinct (xs @ n # ys) \<Longrightarrow> remove1 n (xs @ n # ys) = xs @ ys"
  by (simp add: remove1_append)

lemma erase_lft_leaf:
  assumes t: "holds_tree h (plug (Nd Lf n b r) fs)"
  shows "\<exists>h' t'. rb_erase n h = Some h' \<and> holds_tree h' t' \<and> inorder t' = inorder (plug r fs)"
proof -
  have H: "lft h n = 0" "rgt h n = ptr r" "pc h n = enc (top fs) b" "aligned (top fs)" "rep h n r"
    using t top_aligned unfolding holds_plug by (auto simp: child_def)
  have t: "holds_tree h (plug (node True n b r Lf) fs)" using t by (simp add: node_def)
  show ?thesis using single_child [OF t refl] H rep_ptr [OF H(5)] by (cases "r = Lf") (auto simp: rb_erase_def rb_erase1_def Let_def)
qed

lemma erase_rgt_leaf:
  assumes t: "holds_tree h (plug (Nd l n b Lf) fs)" and l: "l \<noteq> Lf"
  shows "\<exists>h' t'. rb_erase n h = Some h' \<and> holds_tree h' t' \<and> inorder t' = inorder (plug l fs)"
proof -
  have H: "lft h n = ptr l" "rgt h n = 0" "pc h n = enc (top fs) b" "aligned (top fs)" "ptr l \<noteq> 0"
    using t l top_aligned rep_ptr unfolding holds_plug by (auto simp: child_def)
  have t: "holds_tree h (plug (node False n b l Lf) fs)" using t by (simp add: node_def)
  show ?thesis using single_child [OF t refl] H l
    by (auto simp: rb_erase_def rb_erase1_def Let_def change_child_set_pc)
qed

text \<open>The successor and the heap from which it is moved into the place of the node.\<close>

lemma erase_successor:
  assumes t: "holds_tree h (plug (Nd l n b r) fs)" and r: "r \<noteq> Lf"
  shows "\<exists>gs c bc r2 h1. r = plug (Nd Lf c bc r2) gs \<and> before gs = [] \<and>
    (if lft h (ptr r) = 0 then Some (ptr r, ptr r, rgt h (ptr r), h)
     else map_option (\<lambda>(parent, successor).
       let child2 = rgt h successor; h = set_child False parent child2 h; h = set_child True successor (ptr r) h
       in (parent, successor, child2, rb_set_parent (ptr r) successor h)) (rb_leftmost (ptr r) (lft h (ptr r)) h)) =
      Some (top (gs @ Fr True c b l # fs), c, ptr r2, h1) \<and>
    seg h1 c (ptr r2) gs \<and> child True h1 c = bot (ptr r2) gs \<and> rep h1 c r2 \<and> rep h1 n l \<and> crep h1 n fs \<and>
    child False h1 n = ptr l \<and> pc h1 n = enc (top fs) b \<and> pc h1 c = pc h c"
proof -
  obtain rl ra rb rr where R: "r = Nd rl ra rb rr" using r by (cases r) auto
  have pl: "plug r (Fr True n b l # fs) = plug (Nd l n b r) fs" by (simp add: node_def)
  have H: "rep h n r" "lft h ra = ptr rl" "rgt h ra = ptr rr" "child False h n = ptr l" "rep h n l" "crep h n fs"
      "pc h n = enc (top fs) b" "ptr rl = 0 \<longleftrightarrow> rl = Lf" "rep h ra rr"
    using t rep_ptr [of h ra rl] unfolding holds_plug R by (auto simp: child_def)
  show ?thesis
  proof (cases "rl = Lf")
    case True
    then show ?thesis using H R
      by (intro exI [of _ "[]"] exI [of _ ra] exI [of _ rb] exI [of _ rr] exI [of _ h]) (simp add: child_def)
  next
    case False
    obtain gs c bc r2 a' b' s gs' where g: "rb_leftmost ra (ptr rl) h = Some (top gs, c)" "r = plug (Nd Lf c bc r2) gs"
        "gs = Fr False a' b' s # gs'" "before gs = []"
      using rb_leftmost_spec [OF H(1) [unfolded R] False] R by metis
    have t': "holds_tree h (plug (Nd Lf c bc r2) (gs @ Fr True n b l # fs))"
      using t unfolding plug_append g(2) [symmetric] pl .
    have c: "rgt h c = ptr r2" using t' unfolding holds_plug by (auto simp: child_def)
    have bt: "bot c gs = ra" using ptr_plug [of "Nd Lf c bc r2" gs] R unfolding g(2) [symmetric] by simp
    have gs: "gs \<noteq> []" using g(3) by simp
    define h1 where "h1 = rb_set_parent ra c (set_child True c ra (set_child False (top gs) (ptr r2) h))"
    have "lft h (ptr r) \<noteq> 0" "ptr r = ra" using H(2,8) False by (auto simp: R)
    moreover have "rb_leftmost (ptr r) (lft h (ptr r)) h = Some (top gs, c)" using g(1) H(2) by (simp add: R)
    moreover note erase_lift [OF t' g(3), of h1, unfolded bt, OF h1_def]
    ultimately show ?thesis
      using g(2,4) c gs
      by (intro exI [of _ gs] exI [of _ c] exI [of _ bc] exI [of _ r2] exI [of _ h1]) (simp add: Let_def h1_def [symmetric])
  qed
qed

lemma rb_erase_spec:
  assumes t: "holds_tree h t" and n: "n \<in> nodes t"
  shows "\<exists>h' t'. rb_erase n h = Some h' \<and> holds_tree h' t' \<and> inorder t' = remove1 n (inorder t)"
proof -
  obtain l b r fs where p: "t = plug (Nd l n b r) fs" using position [OF n] by blast
  have D: "distinct (inorder t)" using t by (simp add: holds_tree_def)
  have i: "inorder t = (before fs @ inorder l) @ n # (inorder r @ after fs)" by (simp add: p inorder_plug)
  have rm: "remove1 n (inorder t) = before fs @ inorder l @ inorder r @ after fs"
    using D unfolding i by (subst remove1_at) simp_all
  consider "l = Lf" | "l \<noteq> Lf" "r = Lf" | "l \<noteq> Lf" "r \<noteq> Lf" by blast
  then show ?thesis
  proof cases
    case 1
    then show ?thesis using erase_lft_leaf [of h n b r fs] t rm unfolding p 1 inorder_plug by simp
  next
    case 2
    then show ?thesis using erase_rgt_leaf [of h l n b fs] t rm unfolding p 2 inorder_plug by simp
  next
    case 3
    have H: "lft h n = ptr l" "rgt h n = ptr r" "ptr l \<noteq> 0" "ptr r \<noteq> 0"
      using t 3 rep_ptr unfolding p holds_plug by (auto simp: child_def)
    note S = erase_successor [OF t [unfolded p] 3(2)]
    obtain gs c bc r2 h1 where s: "r = plug (Nd Lf c bc r2) gs" "before gs = []"
      "(if lft h (ptr r) = 0 then Some (ptr r, ptr r, rgt h (ptr r), h)
        else map_option (\<lambda>(parent, successor).
          let child2 = rgt h successor; h = set_child False parent child2 h; h = set_child True successor (ptr r) h
          in (parent, successor, child2, rb_set_parent (ptr r) successor h)) (rb_leftmost (ptr r) (lft h (ptr r)) h)) =
        Some (top (gs @ Fr True c b l # fs), c, ptr r2, h1)"
      and f: "seg h1 c (ptr r2) gs" "child True h1 c = bot (ptr r2) gs" "rep h1 c r2" "rep h1 n l" "crep h1 n fs"
        "child False h1 n = ptr l" "pc h1 n = enc (top fs) b" "pc h1 c = pc h c"
      using S by blast
    have t': "holds_tree h (plug (Nd Lf c bc r2) (gs @ Fr True n b l # fs))"
      using t unfolding p by (simp add: s(1) [symmetric] node_def)
    have "c \<noteq> n" using t' unfolding holds_plug by auto
    then have ch: "lft (set_child False c (ptr l) h1) n = ptr l" "lft h1 n = ptr l" using f(6) by (auto simp: child_def set_child_def)
    have "rb_erase n h = (case (let h2 = rb_set_parent (ptr l) c (set_child False c (ptr l) h1);
        h3 = rb_change_child n c (parent_of (pc h2 n)) h2 in
        if ptr r2 \<noteq> 0 then (0, rb_set_parent_color (ptr r2) (top (gs @ Fr True c b l # fs)) RB_BLACK (set_pc c (pc h2 n) h3))
        else (if is_black (pc h3 c) then top (gs @ Fr True c b l # fs) else 0, set_pc c (pc h2 n) h3))
      of (rebalance, h) \<Rightarrow> if rebalance \<noteq> 0 then rb_erase_fix 0 rebalance h else Some h)"
      unfolding rb_erase_def rb_erase1_def Let_def H using H(3,4) ch s(3) [unfolded Let_def]
      by (simp only: if_False option.map prod.case option.case refl)
    moreover have "inorder (plug r2 (gs @ Fr True c b l # fs)) = remove1 n (inorder t)"
      unfolding rm s(1) inorder_plug using s(2) by simp
    ultimately show ?thesis using two_children [OF t' 3(1) f refl refl refl] unfolding Let_def by metis
  qed
qed

end
