(* ===== verification/Rbtree_Queue.thy ===== *)
theory Rbtree_Queue
  imports Rbtree_Erase
begin

text \<open>
  What the scheduler and the timers rely on: a queue of nodes kept in the order of a
  comparison function, with insertion, removal and the smallest node. The contract is a
  locale; the red-black trees of \<^verbatim>\<open>rbtree.c\<close> provide it.
\<close>

section \<open>The contract\<close>

locale ordered_queue =
  fixes content :: "'h \<Rightarrow> addr list \<Rightarrow> bool"
    and ins :: "(addr \<Rightarrow> addr \<Rightarrow> bool) \<Rightarrow> addr \<Rightarrow> 'h \<Rightarrow> (int \<times> 'h) option"
    and del :: "addr \<Rightarrow> 'h \<Rightarrow> 'h option"
    and first :: "'h \<Rightarrow> addr option"
  assumes content_nodes: "content h xs \<Longrightarrow> distinct xs \<and> 0 \<notin> set xs"
    and ins_new: "content h xs \<Longrightarrow> n \<notin> set xs \<Longrightarrow> n \<noteq> 0 \<Longrightarrow> aligned n \<Longrightarrow> strict_on (insert n (set xs)) cmp \<Longrightarrow>
      sorted_wrt cmp xs \<Longrightarrow> \<forall>x \<in> set xs. cmp n x \<or> cmp x n \<Longrightarrow>
      \<exists>h' us vs. ins cmp n h = Some (0, h') \<and> xs = us @ vs \<and> content h' (us @ n # vs) \<and>
        (\<forall>x \<in> set us. cmp x n) \<and> (\<forall>x \<in> set vs. cmp n x)"
    and ins_equal: "content h xs \<Longrightarrow> n \<notin> set xs \<Longrightarrow> n \<noteq> 0 \<Longrightarrow> aligned n \<Longrightarrow> strict_on (insert n (set xs)) cmp \<Longrightarrow>
      sorted_wrt cmp xs \<Longrightarrow> x \<in> set xs \<Longrightarrow> \<not> cmp n x \<Longrightarrow> \<not> cmp x n \<Longrightarrow>
      \<exists>h'. ins cmp n h = Some (-1, h') \<and> content h' xs"
    and del_ok: "content h xs \<Longrightarrow> n \<in> set xs \<Longrightarrow> \<exists>h'. del n h = Some h' \<and> content h' (remove1 n xs)"
    and first_ok: "content h xs \<Longrightarrow> first h = Some (if xs = [] then 0 else hd xs)"
begin

text \<open>A total order on the nodes makes every insertion succeed and keeps the queue sorted.\<close>

lemma ins_sorted:
  assumes h: "content h xs" and n: "n \<notin> set xs" "n \<noteq> 0" "aligned n" and o: "strict_on (insert n (set xs)) cmp"
    and s: "sorted_wrt cmp xs" and tot: "\<forall>x \<in> set xs. cmp n x \<or> cmp x n"
  shows "\<exists>h' ys. ins cmp n h = Some (0, h') \<and> content h' ys \<and> sorted_wrt cmp ys \<and> set ys = insert n (set xs)"
proof -
  obtain h' us vs where r: "ins cmp n h = Some (0, h')" "xs = us @ vs" "content h' (us @ n # vs)"
      "\<forall>x \<in> set us. cmp x n" "\<forall>x \<in> set vs. cmp n x" using ins_new [OF assms] by blast
  have "sorted_wrt cmp (us @ n # vs)" using s r(2,4,5) by (auto simp: sorted_wrt_append)
  then show ?thesis using r by (intro exI [of _ h'] exI [of _ "us @ n # vs"]) auto
qed

text \<open>The smallest node is first, and taking it leaves the others.\<close>

lemma pop:
  assumes "content h (x # xs)"
  shows "first h = Some x \<and> x \<noteq> 0 \<and> (\<exists>h'. del x h = Some h' \<and> content h' xs)"
  using first_ok [OF assms] del_ok [OF assms, of x] content_nodes [OF assms] by auto

text \<open>Taking a node out and putting it back under another order, as when its key has changed.\<close>

lemma requeue:
  assumes h: "content h xs" and n: "n \<in> set xs" "aligned n" and o: "strict_on (set xs) cmp"
    and s: "sorted_wrt cmp (remove1 n xs)" and tot: "\<forall>x \<in> set xs - {n}. cmp n x \<or> cmp x n"
  shows "\<exists>h1 h2 ys. del n h = Some h1 \<and> ins cmp n h1 = Some (0, h2) \<and> content h2 ys \<and> sorted_wrt cmp ys \<and> set ys = set xs"
proof -
  have d: "distinct xs" "n \<noteq> 0" using content_nodes [OF h] n(1) by auto
  obtain h1 where h1: "del n h = Some h1" "content h1 (remove1 n xs)" using del_ok [OF h n(1)] by blast
  have set: "set (remove1 n xs) = set xs - {n}" using d by simp
  have o': "strict_on (insert n (set (remove1 n xs))) cmp" using o set n(1) by (simp add: insert_absorb)
  have "\<exists>h' ys. ins cmp n h1 = Some (0, h') \<and> content h' ys \<and> sorted_wrt cmp ys \<and> set ys = insert n (set (remove1 n xs))"
    by (rule ins_sorted [OF h1(2) _ d(2) n(2) o' s]) (use set tot in auto)
  then show ?thesis using h1(1) set n(1) by (metis insert_Diff)
qed

end

section \<open>Red-black trees provide it\<close>

definition queue_of :: "rb_heap \<Rightarrow> addr list \<Rightarrow> bool" where
  "queue_of h xs \<longleftrightarrow> (\<exists>t. holds_tree h t \<and> inorder t = xs)"

lemma rep_nodes: "rep h p t \<Longrightarrow> x \<in> nodes t \<Longrightarrow> x \<noteq> 0 \<and> aligned x"
  by (induction t arbitrary: p) auto

lemma queue_nodes: "queue_of h xs \<Longrightarrow> distinct xs \<and> 0 \<notin> set xs \<and> (\<forall>x \<in> set xs. aligned x)"
  using rep_nodes by (auto simp: queue_of_def holds_tree_def)

interpretation rbq: ordered_queue queue_of rb_insert rb_erase rb_first
proof unfold_locales
  show "distinct xs \<and> 0 \<notin> set xs" if "queue_of h xs" for h xs
    using queue_nodes [OF that] by blast
next
  fix h xs n and cmp :: "addr \<Rightarrow> addr \<Rightarrow> bool"
  assume a: "queue_of h xs" "n \<notin> set xs" "n \<noteq> 0" "aligned n" "strict_on (insert n (set xs)) cmp" "sorted_wrt cmp xs"
    and tot: "\<forall>x \<in> set xs. cmp n x \<or> cmp x n"
  obtain t where t: "holds_tree h t" "inorder t = xs" using a(1) by (auto simp: queue_of_def)
  show "\<exists>h' us vs. rb_insert cmp n h = Some (0, h') \<and> xs = us @ vs \<and> queue_of h' (us @ n # vs) \<and>
      (\<forall>x \<in> set us. cmp x n) \<and> (\<forall>x \<in> set vs. cmp n x)"
    using rb_insert_spec [OF t(1), of n cmp] a tot t(2) unfolding queue_of_def by (auto split: if_splits)
next
  fix h xs n x and cmp :: "addr \<Rightarrow> addr \<Rightarrow> bool"
  assume a: "queue_of h xs" "n \<notin> set xs" "n \<noteq> 0" "aligned n" "strict_on (insert n (set xs)) cmp" "sorted_wrt cmp xs"
    and x: "x \<in> set xs" "\<not> cmp n x" "\<not> cmp x n"
  obtain t where t: "holds_tree h t" "inorder t = xs" using a(1) by (auto simp: queue_of_def)
  show "\<exists>h'. rb_insert cmp n h = Some (-1, h') \<and> queue_of h' xs"
    using rb_insert_spec [OF t(1), of n cmp] a x t(2) unfolding queue_of_def by (auto split: if_splits)
next
  show "\<exists>h'. rb_erase n h = Some h' \<and> queue_of h' (remove1 n xs)" if "queue_of h xs" "n \<in> set xs" for h xs n
    using rb_erase_spec that unfolding queue_of_def by metis
next
  show "rb_first h = Some (if xs = [] then 0 else hd xs)" if "queue_of h xs" for h xs
    using rb_first_spec that unfolding queue_of_def by auto
qed

section \<open>Correctness of the tree operations\<close>

definition sample_heap :: rb_heap where
  "sample_heap = \<lparr>pc = (\<lambda>a. if a = 16 then 1 else if a = 8 \<or> a = 24 then 16 else 0),
     rgt = (\<lambda>a. if a = 16 then 24 else 0), lft = (\<lambda>a. if a = 16 then 8 else 0), root = 16\<rparr>"

abbreviation sample_tree :: rbt where
  "sample_tree \<equiv> Nd (Nd Lf 8 False Lf) 16 True (Nd Lf 24 False Lf)"

lemma sample_holds: "holds_tree sample_heap sample_tree"
  by (simp add: holds_tree_def sample_heap_def child_def aligned_def enc_def rbt_ok_def)

lemma sample_order: "strict_on A ((<) :: addr \<Rightarrow> addr \<Rightarrow> bool)"
  by (auto simp: strict_on_def)

text \<open>
  (C15) \<^verbatim>\<open>_rb_insert\<close> always returns. On a heap that holds a red-black tree sorted by a strict
  order, a node that compares equal to one of the tree is refused with \<open>-1\<close> and the tree is
  unchanged; any other node is linked between the smaller and the larger ones, the result is
  \<open>0\<close>, and the heap holds a red-black tree again (parent links, colours, black height).
\<close>

theorem rb_insert_correct:
  assumes "holds_tree h t" and "n \<notin> nodes t" and "n \<noteq> 0" and "aligned n"
    and "strict_on (insert n (nodes t)) cmp" and "sorted_wrt cmp (inorder t)"
  shows "\<exists>r h' t'. rb_insert cmp n h = Some (r, h') \<and> holds_tree h' t' \<and>
    (if \<exists>x \<in> nodes t. \<not> cmp n x \<and> \<not> cmp x n then r = -1 \<and> t' = t
     else r = 0 \<and> (\<exists>xs ys. inorder t = xs @ ys \<and> inorder t' = xs @ n # ys \<and>
       (\<forall>x \<in> set xs. cmp x n) \<and> (\<forall>y \<in> set ys. cmp n y)))"
  using assms by (rule rb_insert_spec)

theorem rb_insert_correct_witness:
  "\<exists>r h' t'. rb_insert (<) 12 sample_heap = Some (r, h') \<and> holds_tree h' t' \<and>
    (if \<exists>x \<in> nodes sample_tree. \<not> 12 < x \<and> \<not> x < 12 then r = -1 \<and> t' = sample_tree
     else r = 0 \<and> (\<exists>xs ys. inorder sample_tree = xs @ ys \<and> inorder t' = xs @ 12 # ys \<and>
       (\<forall>x \<in> set xs. x < 12) \<and> (\<forall>y \<in> set ys. 12 < y)))"
  by (rule rb_insert_correct [OF sample_holds]) (simp_all add: aligned_def sample_order)

text \<open>
  (C16) \<^verbatim>\<open>_rb_erase\<close> of a node of the tree always returns and takes exactly this node out: the
  others keep their order and the heap holds a red-black tree again. \<^verbatim>\<open>_rb_first\<close> then gives the
  first of the remaining nodes, or the null pointer when there is none.
\<close>

theorem rb_erase_correct:
  assumes "holds_tree h t" and "n \<in> nodes t"
  shows "\<exists>h' t'. rb_erase n h = Some h' \<and> holds_tree h' t' \<and> inorder t' = remove1 n (inorder t) \<and>
    rb_first h' = Some (if inorder t' = [] then 0 else hd (inorder t'))"
  using rb_erase_spec [OF assms] rb_first_spec by blast

theorem rb_erase_correct_witness:
  "\<exists>h' t'. rb_erase 16 sample_heap = Some h' \<and> holds_tree h' t' \<and> inorder t' = remove1 16 (inorder sample_tree) \<and>
    rb_first h' = Some (if inorder t' = [] then 0 else hd (inorder t'))"
  by (rule rb_erase_correct [OF sample_holds]) simp

text \<open>
  \<^verbatim>\<open>_rb_lookup\<close> always returns: the null pointer when every node of the tree is smaller or
  larger than the key node, and otherwise a node of the tree that compares equal to it.
\<close>

theorem rb_lookup_correct:
  assumes "holds_tree h t" and "strict_on (insert n (nodes t)) cmp" and "sorted_wrt cmp (inorder t)"
  shows "\<exists>r. rb_lookup cmp n h = Some r \<and>
    (if r = 0 then \<forall>x \<in> nodes t. cmp n x \<or> cmp x n else r \<in> nodes t \<and> \<not> cmp n r \<and> \<not> cmp r n)"
  using assms by (rule rb_lookup_spec)

theorem rb_lookup_correct_witness:
  "\<exists>r. rb_lookup (<) 24 sample_heap = Some r \<and>
    (if r = 0 then \<forall>x \<in> nodes sample_tree. 24 < x \<or> x < 24 else r \<in> nodes sample_tree \<and> \<not> 24 < r \<and> \<not> r < 24)"
  by (rule rb_lookup_correct [OF sample_holds]) (simp_all add: sample_order)

end
