(* ===== verification/Timers.thy ===== *)
theory Timers
  imports Rbtree_Queue
begin

text \<open>
  \<^verbatim>\<open>src/src/driver/clock.c\<close> and the timers of \<^verbatim>\<open>src/src/kernel/cpu.c\<close>, for one cpu: the state is
  the red-black tree of the armed timers and the fields of \<^verbatim>\<open>struct timer\<close> by node address.
  The hardware counter is the sequence \<open>counter\<close> of the values it gives to successive reads,
  and \<open>tval\<close> is the countdown register. \<open>fired\<close> records the timers whose handlers have been
  called, in the order of the calls; the code does not read it. A failed \<^verbatim>\<open>ASSERT\<close> is \<open>None\<close>.
\<close>

record cpu_state =
  timer_tree :: rb_heap
  triggered :: "addr \<Rightarrow> bool"
  elapse :: "addr \<Rightarrow> int"
  key :: "addr \<Rightarrow> u64"
  data :: "addr \<Rightarrow> u64"
  one_ms :: u64
  counter :: "nat \<Rightarrow> u64"
  reads :: nat
  tval :: u64
  fired :: "addr list"

section \<open>The clock\<close>

definition get_timestamp_ms :: "cpu_state \<Rightarrow> u64 \<times> cpu_state" where
  "get_timestamp_ms s = (counter s (reads s) div one_ms s, s\<lparr>reads := Suc (reads s)\<rparr>)"

definition reset_clock :: "u64 \<Rightarrow> cpu_state \<Rightarrow> cpu_state option" where
  "reset_clock countdown_ms s =
     (let t = countdown_ms * one_ms s in if t \<le> 0x7fffffff then Some (s\<lparr>tval := t\<rparr>) else None)"

definition init_clock :: "u64 \<Rightarrow> cpu_state \<Rightarrow> cpu_state option" where
  "init_clock frequency s = reset_clock 1000 (s\<lparr>one_ms := frequency div 1000\<rparr>)"

section \<open>Timers\<close>

definition timer_cmp :: "(addr \<Rightarrow> u64) \<Rightarrow> addr \<Rightarrow> addr \<Rightarrow> bool" where
  "timer_cmp k lnode rnode =
     (let d = sint (k lnode - k rnode) in
      if d < 0 then True else if d = 0 then lnode < rnode else False)"

definition timer_set_clock :: "cpu_state \<Rightarrow> cpu_state option" where
  "timer_set_clock s = do {
     node \<leftarrow> rb_first (timer_tree s);
     if node = 0 then reset_clock 1000 s
     else
       let t1 = key s node; (t0, s) = get_timestamp_ms s
       in if t1 \<le> t0 then reset_clock 0 s else reset_clock (t1 - t0) s }"

definition set_cpu_timer :: "addr \<Rightarrow> cpu_state \<Rightarrow> cpu_state option" where
  "set_cpu_timer t s =
     (let s = s\<lparr>triggered := (triggered s)(t := False)\<rparr>;
          (now, s) = get_timestamp_ms s;
          s = s\<lparr>key := (key s)(t := now + of_int (elapse s t))\<rparr>
      in do {
        (r, h) \<leftarrow> rb_insert (timer_cmp (key s)) t (timer_tree s);
        if r = 0 then timer_set_clock (s\<lparr>timer_tree := h\<rparr>) else None })"

definition cancel_cpu_timer :: "addr \<Rightarrow> cpu_state \<Rightarrow> cpu_state option" where
  "cancel_cpu_timer t s =
     (if triggered s t then None
      else do { h \<leftarrow> rb_erase t (timer_tree s); timer_set_clock (s\<lparr>timer_tree := h\<rparr>) })"

text \<open>The loop of \<^verbatim>\<open>timer_clock_handler\<close>; \<open>run\<close> calls the handler of a timer.\<close>

partial_function (option) timer_loop ::
  "(addr \<Rightarrow> cpu_state \<Rightarrow> cpu_state option) \<Rightarrow> cpu_state \<Rightarrow> cpu_state option" where
  "timer_loop run s = do {
     node \<leftarrow> rb_first (timer_tree s);
     if node = 0 then Some s
     else
       let (now, s) = get_timestamp_ms s in
       if now < key s node then Some s
       else do {
         s \<leftarrow> cancel_cpu_timer node s;
         s \<leftarrow> run node (s\<lparr>triggered := (triggered s)(node := True), fired := fired s @ [node]\<rparr>);
         timer_loop run s } }"

definition timer_clock_handler :: "(addr \<Rightarrow> cpu_state \<Rightarrow> cpu_state option) \<Rightarrow> cpu_state \<Rightarrow> cpu_state option" where
  "timer_clock_handler run s = do { s \<leftarrow> reset_clock 1000 s; timer_loop run s }"

text \<open>The handler of the heartbeat timer \<open>hello_timer\<close> of the cpu.\<close>

definition hello :: "addr \<Rightarrow> addr \<Rightarrow> cpu_state \<Rightarrow> cpu_state option" where
  "hello hello_timer t s = set_cpu_timer hello_timer (s\<lparr>data := (data s)(t := data s t + 1)\<rparr>)"

text \<open>
  The handler of the scheduling timer (\<^verbatim>\<open>sched_timer_handler\<close> of \<^verbatim>\<open>sched.c\<close>) while the process on the cpu
  is not the idle one and keeps it: it arms \<open>sched_timer\<close> again and reads the clock to see that the
  slice is not used up.
\<close>

definition sched_tick :: "addr \<Rightarrow> addr \<Rightarrow> cpu_state \<Rightarrow> cpu_state option" where
  "sched_tick sched_timer t s =
     (if triggered s t then do { s \<leftarrow> set_cpu_timer sched_timer s; Some (snd (get_timestamp_ms s)) } else Some s)"

text \<open>The handlers of the two timers of a cpu.\<close>

definition cpu_handler :: "addr \<Rightarrow> addr \<Rightarrow> addr \<Rightarrow> cpu_state \<Rightarrow> cpu_state option" where
  "cpu_handler hello_timer sched_timer t =
     (if t = hello_timer then hello hello_timer t else sched_tick sched_timer t)"

section \<open>The order of the timers\<close>

text \<open>
  The difference of the keys is compared as a signed number, which is the order of the keys
  as long as they are below \<open>2 ^ 63\<close>.
\<close>

lemma sint_diff_neg:
  fixes a b :: u64
  assumes "unat a < 2 ^ 63" and "unat b < 2 ^ 63"
  shows "sint (a - b) < 0 \<longleftrightarrow> a < b"
proof -
  have ab: "0 \<le> uint a" "uint a < 2 ^ 63" "0 \<le> uint b" "uint b < 2 ^ 63"
    using assms unfolding unat_eq_nat_uint by (simp_all only: nat_less_iff uint_ge_0 of_nat_power of_nat_numeral)
  have top: "sint w < 0 \<longleftrightarrow> 2 ^ 63 \<le> uint w" for w :: u64
  proof -
    have "sint w < 0 \<longleftrightarrow> bit w 63" using bit_last_iff [of w] by simp
    also have "\<dots> \<longleftrightarrow> odd (uint w div 2 ^ 63)" by (simp only: bit_iff_odd [symmetric] bit_uint_iff) simp
    also have "\<dots> \<longleftrightarrow> 2 ^ 63 \<le> uint w"
    proof -
      have "uint w < 2 * 2 ^ 63" "0 \<le> uint w" using uint_lt2p [of w] by simp_all
      then consider "uint w div 2 ^ 63 = 0" "uint w < 2 ^ 63" | "uint w div 2 ^ 63 = 1" "2 ^ 63 \<le> uint w"
        by (cases "uint w < 2 ^ 63") (auto simp: div_pos_pos_trivial div_pos_geq)
      then show ?thesis by cases auto
    qed
    finally show ?thesis .
  qed
  have "uint (a - b) = (if uint a < uint b then uint a - uint b + 2 ^ 64 else uint a - uint b)"
    using ab by (simp add: uint_sub_if' not_le)
  then have d: "2 ^ 63 \<le> uint (a - b) \<longleftrightarrow> 2 ^ 63 \<le> (if uint a < uint b then uint a - uint b + 2 ^ 64 else uint a - uint b)" by simp
  have "(2 ^ 63 \<le> (if x < y then x - y + 2 ^ 64 else x - y)) = (x < y)"
    if "0 \<le> x" "x < 2 ^ 63" "0 \<le> y" "y < 2 ^ 63" for x y :: int
    using that by auto
  from this [OF ab] show ?thesis unfolding top word_less_def d .
qed

lemma timer_cmp_iff:
  assumes "unat (k l) < 2 ^ 63" and "unat (k r) < 2 ^ 63"
  shows "timer_cmp k l r \<longleftrightarrow> k l < k r \<or> k l = k r \<and> l < r"
proof -
  have "sint (k l - k r) = 0 \<longleftrightarrow> k l = k r" by (simp add: signed_eq_0_iff)
  then show ?thesis using sint_diff_neg [OF assms] by (auto simp: timer_cmp_def Let_def)
qed

lemma timer_cmp_strict: "\<forall>x \<in> A. unat (k x) < 2 ^ 63 \<Longrightarrow> strict_on A (timer_cmp k)"
  unfolding strict_on_def by (auto simp: timer_cmp_iff)

lemma timer_cmp_total:
  "unat (k x) < 2 ^ 63 \<Longrightarrow> unat (k y) < 2 ^ 63 \<Longrightarrow> x \<noteq> y \<Longrightarrow> timer_cmp k x y \<or> timer_cmp k y x"
  by (auto simp: timer_cmp_iff)

lemma unat_small: "n < 2 ^ 63 \<Longrightarrow> unat (of_nat n :: u64) = n"
  by (simp add: unat_of_nat)

section \<open>The armed timers\<close>

text \<open>
  \<open>ms s i\<close> is the time of reading \<open>i\<close> of the clock in milliseconds. The readings up to \<open>lim\<close> do
  not go back and the last of them is at most \<open>due\<close>; nothing is assumed of later ones.
\<close>

definition ms :: "cpu_state \<Rightarrow> nat \<Rightarrow> nat" where
  "ms s i = unat (counter s i div one_ms s)"

definition clock_ok :: "nat \<Rightarrow> nat \<Rightarrow> cpu_state \<Rightarrow> bool" where
  "clock_ok lim due s \<longleftrightarrow> (\<forall>i j. reads s \<le> i \<and> i \<le> j \<and> j \<le> lim \<longrightarrow> ms s i \<le> ms s j) \<and> ms s lim \<le> due"

text \<open>The armed timers, each due at most \<open>e\<close> milliseconds from the next reading.\<close>

definition timers_ok :: "nat \<Rightarrow> cpu_state \<Rightarrow> addr list \<Rightarrow> bool" where
  "timers_ok e s xs \<longleftrightarrow> queue_of (timer_tree s) xs \<and> sorted_wrt (timer_cmp (key s)) xs \<and>
     (\<forall>x \<in> set xs. \<not> triggered s x \<and> unat (key s x) \<le> ms s (reads s) + e \<and> 0 < elapse s x \<and> elapse s x \<le> int e) \<and>
     1000 \<le> e \<and> e * unat (one_ms s) \<le> 0x7fffffff"

text \<open>The same clock, from which \<open>k\<close> readings at most have been taken, and the same periods.\<close>

definition later :: "nat \<Rightarrow> cpu_state \<Rightarrow> cpu_state \<Rightarrow> bool" where
  "later k s s' \<longleftrightarrow> counter s' = counter s \<and> one_ms s' = one_ms s \<and> elapse s' = elapse s \<and> fired s' = fired s \<and>
     reads s \<le> reads s' \<and> reads s' \<le> reads s + k"

lemma ms_upd [simp]:
  "ms (s\<lparr>timer_tree := a\<rparr>) = ms s" "ms (s\<lparr>triggered := b\<rparr>) = ms s" "ms (s\<lparr>elapse := c\<rparr>) = ms s" "ms (s\<lparr>key := d\<rparr>) = ms s"
  "ms (s\<lparr>data := f\<rparr>) = ms s" "ms (s\<lparr>reads := n\<rparr>) = ms s" "ms (s\<lparr>tval := t\<rparr>) = ms s" "ms (s\<lparr>fired := fs\<rparr>) = ms s"
  by (simp_all add: ms_def fun_eq_iff)

lemma ms_later: "later k s s' \<Longrightarrow> ms s' = ms s"
  by (simp add: later_def ms_def fun_eq_iff)

lemma clock_mono: "clock_ok lim due s \<Longrightarrow> reads s \<le> i \<Longrightarrow> i \<le> j \<Longrightarrow> j \<le> lim \<Longrightarrow> ms s i \<le> ms s j"
  by (simp add: clock_ok_def)

lemma clock_bound: "clock_ok lim due s \<Longrightarrow> reads s \<le> i \<Longrightarrow> i \<le> lim \<Longrightarrow> ms s i \<le> due"
  unfolding clock_ok_def by (meson le_trans order_refl)

lemma clock_ok_forward: "clock_ok lim due s \<Longrightarrow> ms s' = ms s \<Longrightarrow> reads s \<le> reads s' \<Longrightarrow> clock_ok lim due s'"
  by (auto simp: clock_ok_def)

lemma reset_clock_ok:
  assumes "m \<le> e" and "e * unat (one_ms s) \<le> 0x7fffffff"
  shows "reset_clock (of_nat m) s = Some (s\<lparr>tval := of_nat m * one_ms s\<rparr>)"
proof -
  have b: "m * unat (one_ms s) \<le> 0x7fffffff" using assms mult_le_mono1 le_trans by blast
  have "(of_nat m * one_ms s :: u64) = of_nat (m * unat (one_ms s))" by simp
  then have "unat (of_nat m * one_ms s :: u64) = m * unat (one_ms s)"
    using b by (simp only: unat_of_nat) simp
  then show ?thesis using b by (simp add: reset_clock_def Let_def word_le_nat_alt)
qed

text \<open>Time passes: reading the clock and setting the countdown keep the timers.\<close>

lemma timers_ok_forward:
  assumes ok: "timers_ok e s xs" and clk: "clock_ok lim due s" and n: "reads s \<le> n" "n \<le> lim"
  shows "timers_ok e (s\<lparr>reads := n\<rparr>) xs"
proof -
  have "ms s (reads s) \<le> ms s n" using clock_mono [OF clk order_refl n] .
  then show ?thesis using ok by (fastforce simp: timers_ok_def)
qed

lemma timers_ok_upd [simp]:
  "timers_ok e (s\<lparr>tval := c\<rparr>) xs = timers_ok e s xs" "timers_ok e (s\<lparr>fired := f\<rparr>) xs = timers_ok e s xs"
  "timers_ok e (s\<lparr>data := g\<rparr>) xs = timers_ok e s xs"
  by (simp_all add: timers_ok_def)

lemma timers_ok_order:
  assumes "timers_ok e s xs" and "x \<in> set xs" and "ms s (reads s) + e < 2 ^ 63"
  shows "unat (key s x) < 2 ^ 63"
  using assms by (auto simp: timers_ok_def)

lemma timer_set_clock_ok:
  assumes ok: "timers_ok e s xs"
  shows "\<exists>n c. timer_set_clock s = Some (s\<lparr>reads := n, tval := c\<rparr>) \<and> reads s \<le> n \<and> n \<le> Suc (reads s)"
proof (cases xs)
  case Nil
  then have "rb_first (timer_tree s) = Some 0" using ok rbq.first_ok by (fastforce simp: timers_ok_def)
  moreover have "reset_clock 1000 s = Some (s\<lparr>tval := 1000 * one_ms s\<rparr>)"
    using reset_clock_ok [of 1000 e s] ok by (simp add: timers_ok_def)
  ultimately show ?thesis by (intro exI [of _ "reads s"] exI) (simp add: timer_set_clock_def)
next
  case (Cons x ys)
  then have f: "rb_first (timer_tree s) = Some x" "x \<noteq> 0" using ok rbq.pop by (auto simp: timers_ok_def)
  let ?s = "s\<lparr>reads := Suc (reads s)\<rparr>" and ?t = "counter s (reads s) div one_ms s"
  have k: "unat (key s x) \<le> unat ?t + e" "e * unat (one_ms s) \<le> 0x7fffffff" using ok Cons by (auto simp: timers_ok_def ms_def)
  have r: "\<exists>c. reset_clock w ?s = Some (?s\<lparr>tval := c\<rparr>)" if "unat w \<le> e" for w
    using reset_clock_ok [OF that, of ?s] k(2) by (intro exI [of _ "w * one_ms s"]) simp
  have "unat (if key s x \<le> ?t then 0 else key s x - ?t) \<le> e" using k(1) by (auto simp: unat_sub not_le less_imp_le)
  then obtain c where "reset_clock (if key s x \<le> ?t then 0 else key s x - ?t) ?s = Some (?s\<lparr>tval := c\<rparr>)" using r by blast
  then have "timer_set_clock s = Some (?s\<lparr>tval := c\<rparr>)"
    using f by (cases "key s x \<le> ?t") (simp_all add: timer_set_clock_def get_timestamp_ms_def Let_def)
  then show ?thesis by (intro exI [of _ "Suc (reads s)"] exI [of _ c]) simp
qed

text \<open>\<^verbatim>\<open>set_cpu_timer\<close> arms the timer its period after a reading of the clock.\<close>

lemma set_cpu_timer_ok:
  assumes ok: "timers_ok e s xs" and clk: "clock_ok lim due s" "due + e < 2 ^ 63" "reads s + 2 \<le> lim"
    and x: "x \<notin> set xs" "x \<noteq> 0" "aligned x" and el: "0 < elapse s x" "elapse s x \<le> int e"
  shows "\<exists>s' ys. set_cpu_timer x s = Some s' \<and> timers_ok e s' ys \<and> set ys = insert x (set xs) \<and>
    key s' = (key s)(x := of_nat (ms s (reads s) + nat (elapse s x))) \<and> data s' = data s \<and> later 2 s s' \<and> reads s < reads s'"
proof -
  let ?now = "counter s (reads s) div one_ms s"
  let ?k = "(key s)(x := ?now + of_int (elapse s x))"
  have n: "unat ?now = ms s (reads s)" "ms s (reads s) \<le> due" using clock_bound [OF clk(1)] clk(3) by (simp_all add: ms_def)
  have i: "(of_int (elapse s x) :: u64) = of_nat (nat (elapse s x))" using el(1) by simp
  have k: "?now + of_int (elapse s x) = of_nat (ms s (reads s) + nat (elapse s x))" unfolding i unfolding n(1) [symmetric] by simp
  have b: "ms s (reads s) + nat (elapse s x) \<le> ms s (reads s) + e" using el by simp
  then have kx: "unat (?k x) = ms s (reads s) + nat (elapse s x)"
    using n(2) clk(2) unat_small [of "ms s (reads s) + nat (elapse s x)"] unfolding k by simp
  have q: "queue_of (timer_tree s) xs" using ok by (simp add: timers_ok_def)
  have same: "timer_cmp ?k y z = timer_cmp (key s) y z" if "y \<in> set xs" "z \<in> set xs" for y z
    using x(1) that by (auto simp: timer_cmp_def)
  have small: "unat (?k y) < 2 ^ 63" if "y \<in> insert x (set xs)" for y
    using that kx b n(2) clk(2) timers_ok_order [OF ok] by (cases "y = x") auto
  have srt: "sorted_wrt (timer_cmp ?k) xs"
    using ok same by (auto simp: timers_ok_def intro: sorted_wrt_mono_rel [rotated])
  obtain h ys where h: "rb_insert (timer_cmp ?k) x (timer_tree s) = Some (0, h)" "queue_of h ys"
      "sorted_wrt (timer_cmp ?k) ys" "set ys = insert x (set xs)"
    using rbq.ins_sorted [OF q x, of "timer_cmp ?k"] srt timer_cmp_strict small timer_cmp_total x(1) by (metis insertCI)
  let ?s = "s\<lparr>triggered := (triggered s)(x := False), reads := Suc (reads s), key := ?k, timer_tree := h\<rparr>"
  have up: "ms s (reads s) \<le> ms s (Suc (reads s))" using clock_mono [OF clk(1)] clk(3) by simp
  have ok': "timers_ok e ?s ys"
  proof -
    have "unat (key s y) \<le> ms s (Suc (reads s)) + e" if "y \<in> set xs" for y using ok that up by (fastforce simp: timers_ok_def)
    then show ?thesis using ok h(2-4) el kx b up by (auto simp: timers_ok_def)
  qed
  obtain n c where c: "timer_set_clock ?s = Some (?s\<lparr>reads := n, tval := c\<rparr>)" "Suc (reads s) \<le> n" "n \<le> Suc (Suc (reads s))"
    using timer_set_clock_ok [OF ok'] by auto
  then have "set_cpu_timer x s = Some (?s\<lparr>reads := n, tval := c\<rparr>)"
    using h(1) by (simp add: set_cpu_timer_def get_timestamp_ms_def Let_def)
  moreover have "timers_ok e (?s\<lparr>reads := n, tval := c\<rparr>) ys"
    unfolding timers_ok_upd by (rule timers_ok_forward [OF ok', where lim = lim and due = due])
      (use clock_ok_forward [OF clk(1), of ?s] c(2,3) clk(3) in simp_all)
  ultimately show ?thesis using h(4) k c(2,3)
    by (intro exI [of _ "?s\<lparr>reads := n, tval := c\<rparr>"] exI [of _ ys]) (simp add: later_def)
qed

lemma cancel_cpu_timer_ok:
  assumes ok: "timers_ok e s (x # xs)" and clk: "clock_ok lim due s" "reads s + 1 \<le> lim"
  shows "\<exists>h n c. cancel_cpu_timer x s = Some (s\<lparr>timer_tree := h, reads := n, tval := c\<rparr>) \<and>
    timers_ok e (s\<lparr>timer_tree := h, reads := n, tval := c\<rparr>) xs \<and> reads s \<le> n \<and> n \<le> Suc (reads s)"
proof -
  obtain h where h: "rb_erase x (timer_tree s) = Some h" "queue_of h xs" using ok rbq.pop [of "timer_tree s" x xs] by (auto simp: timers_ok_def)
  let ?s = "s\<lparr>timer_tree := h\<rparr>"
  have ok': "timers_ok e ?s xs" using ok h(2) by (auto simp: timers_ok_def)
  obtain n c where c: "timer_set_clock ?s = Some (?s\<lparr>reads := n, tval := c\<rparr>)" "reads s \<le> n" "n \<le> Suc (reads s)"
    using timer_set_clock_ok [OF ok'] by auto
  have "timers_ok e (?s\<lparr>reads := n\<rparr>) xs"
    by (rule timers_ok_forward [OF ok', where lim = lim and due = due]) (use clock_ok_forward [OF clk(1), of ?s] c clk(2) in simp_all)
  moreover have "\<not> triggered s x" using ok by (simp add: timers_ok_def)
  ultimately show ?thesis using h(1) c by (auto simp: cancel_cpu_timer_def)
qed

section \<open>The interrupt handler\<close>

text \<open>
  What the interrupt relies on in the handlers of the timers in \<open>own\<close>: a handler returns, has
  armed its timer again a period after one of its readings of the clock, of which it takes three at
  most, and has changed no other timer. \<open>count\<close> is what it adds to the data of the timer.
\<close>

locale timer_handlers =
  fixes run :: "addr \<Rightarrow> cpu_state \<Rightarrow> cpu_state option" and own :: "addr set" and count :: "addr \<Rightarrow> u64"
  assumes handler_ok: "timers_ok e s xs \<Longrightarrow> clock_ok lim due s \<Longrightarrow> due + e < 2 ^ 63 \<Longrightarrow> reads s + 3 \<le> lim \<Longrightarrow>
    x \<in> own \<Longrightarrow> x \<notin> set xs \<Longrightarrow> x \<noteq> 0 \<Longrightarrow> aligned x \<Longrightarrow> triggered s x \<Longrightarrow> 0 < elapse s x \<Longrightarrow> elapse s x \<le> int e \<Longrightarrow>
    \<exists>s' ys j. run x s = Some s' \<and> timers_ok e s' ys \<and> set ys = insert x (set xs) \<and> later 3 s s' \<and> reads s \<le> j \<and> j < reads s' \<and>
      key s' = (key s)(x := of_nat (ms s j + nat (elapse s x))) \<and> data s' = (data s)(x := data s x + count x)"
begin

text \<open>One round of the loop, for the first of the armed timers.\<close>

lemma round_ok:
  assumes ok: "timers_ok e s (x # zs)" and clk: "clock_ok lim due s" "due + e < 2 ^ 63" "reads s + 5 \<le> lim"
    and own: "x \<in> own" and now: "unat (key s x) \<le> ms s (reads s)"
  shows "\<exists>s' ys j. timer_loop run s = timer_loop run s' \<and> timers_ok e s' ys \<and> set ys = insert x (set zs) \<and>
    fired s' = fired s @ [x] \<and> later 5 (s\<lparr>fired := fired s'\<rparr>) s' \<and> reads s \<le> j \<and> j < reads s' \<and>
    key s' = (key s)(x := of_nat (ms s j + nat (elapse s x))) \<and> data s' = (data s)(x := data s x + count x)"
proof -
  let ?s = "s\<lparr>reads := Suc (reads s)\<rparr>" and ?t = "counter s (reads s) div one_ms s"
  have f: "rb_first (timer_tree s) = Some x" "x \<noteq> 0" "aligned x" "x \<notin> set zs" "0 < elapse s x" "elapse s x \<le> int e"
    using ok rbq.pop queue_nodes unfolding timers_ok_def by fastforce+
  have nd: "\<not> ?t < key s x" using now by (simp add: ms_def word_less_nat_alt not_less)
  have ok1: "timers_ok e ?s (x # zs)" using timers_ok_forward [OF ok clk(1)] clk(3) by simp
  have clk1: "clock_ok lim due ?s" using clock_ok_forward [OF clk(1)] by simp
  obtain h n c where c: "cancel_cpu_timer x ?s = Some (?s\<lparr>timer_tree := h, reads := n, tval := c\<rparr>)"
      "timers_ok e (?s\<lparr>timer_tree := h, reads := n, tval := c\<rparr>) zs" "Suc (reads s) \<le> n" "n \<le> Suc (Suc (reads s))"
    using cancel_cpu_timer_ok [OF ok1 clk1] clk(3) by auto
  let ?s1 = "s\<lparr>timer_tree := h, reads := n, tval := c, triggered := (triggered s)(x := True), fired := fired s @ [x]\<rparr>"
  have ok2: "timers_ok e ?s1 zs" using c(2) f(4) by (auto simp: timers_ok_def)
  have clk2: "clock_ok lim due ?s1" using clock_ok_forward [OF clk(1), of ?s1] c(3) by simp
  obtain s' ys j where h: "run x ?s1 = Some s'" "timers_ok e s' ys" "set ys = insert x (set zs)" "later 3 ?s1 s'" "n \<le> j" "j < reads s'"
      "key s' = (key s)(x := of_nat (ms s j + nat (elapse s x)))" "data s' = (data s)(x := data s x + count x)"
    using handler_ok [OF ok2 clk2 clk(2) _ own f(4,2,3)] c(4) clk(3) f(5,6) by auto
  have "timer_loop run s = timer_loop run s'"
    using f(1,2) nd c(1) h(1) by (subst timer_loop.simps) (simp add: get_timestamp_ms_def)
  moreover have "fired s' = fired s @ [x]" "later 5 (s\<lparr>fired := fired s'\<rparr>) s'" using h(4) c(3,4) by (auto simp: later_def)
  ultimately show ?thesis using h c(3) by (intro exI [of _ s'] exI [of _ ys] exI [of _ j]) simp
qed

lemma loop_fires:
  assumes "timers_ok e s xs" and "clock_ok lim due s" and "due + e < 2 ^ 63"
    and "reads s + 5 * length (filter (\<lambda>x. unat (key s x) \<le> due) xs) + 1 \<le> lim" and "set xs \<subseteq> own"
    and "\<forall>x \<in> set xs. due < m + nat (elapse s x)" and "m \<le> ms s (reads s)"
  shows "\<exists>ts s' ys i. timer_loop run s = Some s' \<and> timers_ok e s' ys \<and> set ys = set xs \<and> fired s' = fired s @ ts \<and>
    sorted_wrt (timer_cmp (key s)) ts \<and> reads s \<le> i \<and> i \<le> reads s' \<and> reads s' \<le> lim \<and>
    set ts = {x \<in> set xs. unat (key s x) \<le> ms s i} \<and>
    (\<forall>x \<in> set xs. ms s i < unat (key s' x) \<and>
       (if x \<in> set ts then data s' x = data s x + count x \<and>
          (\<exists>j. reads s \<le> j \<and> j < reads s' \<and> unat (key s' x) = ms s j + nat (elapse s x))
        else data s' x = data s x \<and> key s' x = key s x))"
  using assms
proof (induction "length (filter (\<lambda>x. unat (key s x) \<le> due) xs)" arbitrary: s xs rule: less_induct)
  case less
  note ok = less.prems(1) and clk = less.prems(2,3)
  show ?case
  proof (cases xs)
    case Nil
    then have "rb_first (timer_tree s) = Some 0" using ok rbq.first_ok by (fastforce simp: timers_ok_def)
    then have "timer_loop run s = Some s" by (subst timer_loop.simps) simp
    then show ?thesis using less.prems Nil by (intro exI [of _ "[]"] exI [of _ s] exI [of _ "[]"] exI [of _ "reads s"]) simp
  next
    case (Cons x zs)
    let ?i = "reads s" and ?t = "counter s (reads s) div one_ms s"
    have lt: "unat (key s y) < 2 ^ 63" if "y \<in> set xs" for y
      using timers_ok_order [OF ok that] clock_bound [OF clk(1), of ?i] less.prems(4) clk(2) by simp
    have first: "timer_cmp (key s) x y \<and> key s x \<le> key s y" if "y \<in> set zs" for y
    proof
      show c: "timer_cmp (key s) x y" using ok that by (simp add: Cons timers_ok_def)
      show "key s x \<le> key s y" using c that lt [of x] lt [of y] by (auto simp: Cons timer_cmp_iff)
    qed
    show ?thesis
    proof (cases "ms s ?i < unat (key s x)")
      case True
      have f: "rb_first (timer_tree s) = Some x" "x \<noteq> 0" using ok rbq.pop unfolding timers_ok_def Cons by fastforce+
      let ?s = "s\<lparr>reads := Suc (reads s)\<rparr>"
      have "timer_loop run s = Some ?s"
        using f True by (subst timer_loop.simps) (simp add: get_timestamp_ms_def ms_def word_less_nat_alt)
      moreover have "timers_ok e ?s xs" using timers_ok_forward [OF ok clk(1)] less.prems(4) by simp
      moreover have "ms s ?i < unat (key s y)" if "y \<in> set xs" for y
        using True first [of y] that by (cases "y = x") (auto simp: Cons word_le_nat_alt)
      ultimately show ?thesis using less.prems(4)
        by (intro exI [of _ "[]"] exI [of _ ?s] exI [of _ xs] exI [of _ ?i]) (auto simp: not_le [symmetric])
    next
      case False
      then have now: "unat (key s x) \<le> ms s ?i" by simp
      have due: "unat (key s x) \<le> due" using now clock_bound [OF clk(1), of ?i] less.prems(4) by simp
      have "reads s + 5 \<le> lim" "x \<in> own" using less.prems(4,5) due by (auto simp: Cons)
      then obtain s2 ys j where r: "timer_loop run s = timer_loop run s2" "timers_ok e s2 ys" "set ys = insert x (set zs)"
          "fired s2 = fired s @ [x]" "later 5 (s\<lparr>fired := fired s2\<rparr>) s2" "reads s \<le> j" "j < reads s2"
          "key s2 = (key s)(x := of_nat (ms s j + nat (elapse s x)))" "data s2 = (data s)(x := data s x + count x)"
        using round_ok [OF ok [unfolded Cons] clk _ _ now] by blast
      have l: "ms s2 = ms s" "elapse s2 = elapse s" "reads s2 \<le> reads s + 5" "reads s \<le> reads s2"
        using ms_later [OF r(5)] r(5) by (simp_all add: later_def)
      have jl: "j \<le> lim" using r(7) l(3) \<open>reads s + 5 \<le> lim\<close> by simp
      have el: "0 < elapse s x" "elapse s x \<le> int e" "x \<notin> set zs" "distinct zs"
        using ok queue_nodes unfolding timers_ok_def Cons by fastforce+
      have kx: "unat (key s2 x) = ms s j + nat (elapse s x)"
        using r(8) el(2) clk(2) clock_bound [OF clk(1) r(6) jl] unat_small [of "ms s j + nat (elapse s x)"] by simp
      have "m \<le> ms s j" using less.prems(7) clock_mono [OF clk(1) order_refl r(6) jl] by simp
      then have far: "due < unat (key s2 x)" using less.prems(6) kx by (fastforce simp: Cons)
      have dy: "distinct ys" using r(2) queue_nodes unfolding timers_ok_def by blast
      have "set (filter (\<lambda>y. unat (key s2 y) \<le> due) ys) = set (filter (\<lambda>y. unat (key s y) \<le> due) zs)"
        using far el(3) r(3,8) by auto
      then have n: "length (filter (\<lambda>y. unat (key s2 y) \<le> due) ys) = length (filter (\<lambda>y. unat (key s y) \<le> due) zs)"
        using dy el(4) by (metis distinct_card distinct_filter)
      have clk2: "clock_ok lim due s2" using clock_ok_forward [OF clk(1) l(1,4)] .
      have "m \<le> ms s2 (reads s2)"
        using less.prems(4,7) clock_mono [OF clk(1), of ?i "reads s2"] l due by (simp add: Cons)
      then have "\<exists>ts s' us i. timer_loop run s2 = Some s' \<and> timers_ok e s' us \<and> set us = set ys \<and> fired s' = fired s2 @ ts \<and>
          sorted_wrt (timer_cmp (key s2)) ts \<and> reads s2 \<le> i \<and> i \<le> reads s' \<and> reads s' \<le> lim \<and>
          set ts = {x \<in> set ys. unat (key s2 x) \<le> ms s2 i} \<and>
          (\<forall>x \<in> set ys. ms s2 i < unat (key s' x) \<and>
             (if x \<in> set ts then data s' x = data s2 x + count x \<and>
                (\<exists>j. reads s2 \<le> j \<and> j < reads s' \<and> unat (key s' x) = ms s2 j + nat (elapse s2 x))
              else data s' x = data s2 x \<and> key s' x = key s2 x))"
        by (intro less.hyps) (use n due r(2,3) clk2 clk(2) less.prems(4-6) l in \<open>auto simp: Cons\<close>)
      then obtain ts s' us i where h: "timer_loop run s2 = Some s'" "timers_ok e s' us" "set us = set ys" "fired s' = fired s2 @ ts"
          "sorted_wrt (timer_cmp (key s2)) ts" "reads s2 \<le> i" "i \<le> reads s'" "reads s' \<le> lim"
          "set ts = {x \<in> set ys. unat (key s2 x) \<le> ms s i}"
          "\<forall>x \<in> set ys. ms s i < unat (key s' x) \<and>
             (if x \<in> set ts then data s' x = data s2 x + count x \<and>
                (\<exists>j. reads s2 \<le> j \<and> j < reads s' \<and> unat (key s' x) = ms s j + nat (elapse s x))
              else data s' x = data s2 x \<and> key s' x = key s2 x)" unfolding l by blast
      have i: "ms s i \<le> due" "ms s ?i \<le> ms s i"
        using clock_bound [OF clk(1), of i] clock_mono [OF clk(1), of ?i i] h(6-8) l(4) by simp_all
      have x: "x \<notin> set ts" using far i(1) h(9) by auto
      have ts: "set ts \<subseteq> set zs" using x h(9) r(3) by auto
      have "timer_cmp (key s2) y z = timer_cmp (key s) y z" if "y \<in> set ts" "z \<in> set ts" for y z
        using that x r(8) by (auto simp: timer_cmp_def)
      then have srt: "sorted_wrt (timer_cmp (key s)) (x # ts)"
        using h(5) first ts by (auto intro: sorted_wrt_mono_rel [rotated])
      have st: "set (x # ts) = {y \<in> set xs. unat (key s y) \<le> ms s i}"
        using h(9) r(3,8) el(3) now i x far by (auto simp: Cons)
      have each: "ms s i < unat (key s' y) \<and>
         (if y \<in> set (x # ts) then data s' y = data s y + count y \<and>
            (\<exists>j. reads s \<le> j \<and> j < reads s' \<and> unat (key s' y) = ms s j + nat (elapse s y))
          else data s' y = data s y \<and> key s' y = key s y)" if y: "y \<in> set xs" for y
      proof (cases "y = x")
        case True
        then have "ms s i < unat (key s' x)" "data s' x = data s x + count x" "unat (key s' x) = ms s j + nat (elapse s x)"
          using h(10) r(3,9) x kx by auto
        moreover have "j < reads s'" using r(7) h(6,7) by simp
        ultimately show ?thesis using True r(6) by auto
      next
        case False
        then have e: "y \<in> set ys" "data s2 y = data s y" "key s2 y = key s y" "y \<in> set (x # ts) \<longleftrightarrow> y \<in> set ts"
          using y r(3,8,9) by (auto simp: Cons)
        show ?thesis unfolding e(4) using h(10) [rule_format, OF e(1)] unfolding e(2,3) using le_trans [OF l(4)]
          by (cases "y \<in> set ts") auto
      qed
      show ?thesis
        by (rule exI [of _ "x # ts"], rule exI [of _ s'], rule exI [of _ us], rule exI [of _ i])
          (use r(1,3,4) h l(4) srt st each in \<open>simp add: Cons\<close>)
    qed
  qed
qed

end

text \<open>The handlers of the kernel keep the contract.\<close>

lemma hello_ok:
  assumes "timers_ok e s xs" and "clock_ok lim due s" and "due + e < 2 ^ 63" and "reads s + 3 \<le> lim"
    and "x \<notin> set xs" and "x \<noteq> 0" and "aligned x" and "0 < elapse s x" and "elapse s x \<le> int e"
  shows "\<exists>s' ys. hello x x s = Some s' \<and> timers_ok e s' ys \<and> set ys = insert x (set xs) \<and> later 3 s s' \<and> reads s < reads s' \<and>
    key s' = (key s)(x := of_nat (ms s (reads s) + nat (elapse s x))) \<and> data s' = (data s)(x := data s x + 1)"
proof -
  let ?s = "s\<lparr>data := (data s)(x := data s x + 1)\<rparr>"
  have "timers_ok e ?s xs" "clock_ok lim due ?s" using assms(1) clock_ok_forward [OF assms(2), of ?s] by simp_all
  from set_cpu_timer_ok [OF this assms(3) _ assms(5-7)] show ?thesis
    using assms(4,8,9) by (fastforce simp: hello_def later_def)
qed

lemma sched_tick_ok:
  assumes "timers_ok e s xs" and clk: "clock_ok lim due s" "due + e < 2 ^ 63" "reads s + 3 \<le> lim" and "triggered s x"
    and x: "x \<notin> set xs" "x \<noteq> 0" "aligned x" "0 < elapse s x" "elapse s x \<le> int e"
  shows "\<exists>s' ys. sched_tick x x s = Some s' \<and> timers_ok e s' ys \<and> set ys = insert x (set xs) \<and> later 3 s s' \<and> reads s < reads s' \<and>
    key s' = (key s)(x := of_nat (ms s (reads s) + nat (elapse s x))) \<and> data s' = data s"
proof -
  obtain s1 ys where r: "set_cpu_timer x s = Some s1" "timers_ok e s1 ys" "set ys = insert x (set xs)" "data s1 = data s"
      "key s1 = (key s)(x := of_nat (ms s (reads s) + nat (elapse s x)))" "later 2 s s1" "reads s < reads s1"
    using set_cpu_timer_ok [OF assms(1) clk(1,2) _ x] clk(3) by auto
  let ?s = "s1\<lparr>reads := Suc (reads s1)\<rparr>"
  have "clock_ok lim due s1" using clock_ok_forward [OF clk(1)] ms_later [OF r(6)] r(6) by (simp add: later_def)
  then have "timers_ok e ?s ys" using timers_ok_forward [OF r(2)] r(6) clk(3) by (simp add: later_def)
  moreover have "sched_tick x x s = Some ?s" using r(1) assms(5) by (simp add: sched_tick_def get_timestamp_ms_def)
  moreover have "later 3 s ?s" using r(6) by (simp add: later_def)
  ultimately show ?thesis using r by (intro exI [of _ ?s] exI [of _ ys]) simp
qed

interpretation kernel_timers: timer_handlers "cpu_handler ht st" "{ht, st}" "\<lambda>x. if x = ht then 1 else 0" for ht st
proof
  fix e s xs lim due x
  assume a: "timers_ok e s xs" "clock_ok lim due s" "due + e < 2 ^ 63" "reads s + 3 \<le> lim" "x \<in> {ht, st}" "x \<notin> set xs"
    "x \<noteq> 0" "aligned x" "triggered s x" "0 < elapse s x" "elapse s x \<le> int e"
  show "\<exists>s' ys j. cpu_handler ht st x s = Some s' \<and> timers_ok e s' ys \<and> set ys = insert x (set xs) \<and> later 3 s s' \<and> reads s \<le> j \<and>
    j < reads s' \<and> key s' = (key s)(x := of_nat (ms s j + nat (elapse s x))) \<and>
    data s' = (data s)(x := data s x + (if x = ht then 1 else 0))"
  proof (cases "x = ht")
    case True
    then have "cpu_handler ht st x = hello x x" "(if x = ht then 1 else 0 :: u64) = 1" by (simp_all add: cpu_handler_def)
    note h = this
    obtain s' ys where "hello x x s = Some s'" "timers_ok e s' ys" "set ys = insert x (set xs)" "later 3 s s'" "reads s < reads s'"
        "key s' = (key s)(x := of_nat (ms s (reads s) + nat (elapse s x)))" "data s' = (data s)(x := data s x + 1)"
      using hello_ok [OF a(1-4,6-8,10,11)] by blast
    then show ?thesis unfolding h by (intro exI [of _ s'] exI [of _ ys] exI [of _ "reads s"]) simp
  next
    case False
    then have "cpu_handler ht st x = sched_tick x x" using a(5) by (simp add: cpu_handler_def)
    note h = this
    obtain s' ys where "sched_tick x x s = Some s'" "timers_ok e s' ys" "set ys = insert x (set xs)" "later 3 s s'" "reads s < reads s'"
        "key s' = (key s)(x := of_nat (ms s (reads s) + nat (elapse s x)))" "data s' = data s"
      using sched_tick_ok [OF a(1-4,9,6-8,10,11)] by blast
    then show ?thesis unfolding h using False by (intro exI [of _ s'] exI [of _ ys] exI [of _ "reads s"]) simp
  qed
qed


text \<open>A cpu whose scheduling timer 16 and heartbeat timer 24 are both due, with a clock that advances.\<close>

definition timer_heap :: rb_heap where
  "timer_heap = \<lparr>pc = (\<lambda>a. if a = 16 then 1 else if a = 24 then 16 else 0),
     rgt = (\<lambda>a. if a = 16 then 24 else 0), lft = (\<lambda>_. 0), root = 16\<rparr>"

definition sample_cpu :: cpu_state where
  "sample_cpu = \<lparr>timer_tree = timer_heap, triggered = (\<lambda>_. False), elapse = (\<lambda>a. if a = 24 then 5000 else 1),
     key = (\<lambda>a. if a = 24 then 16 else 15), data = (\<lambda>_. 0), one_ms = 1000, counter = (\<lambda>i. 16000 + 10 * of_nat i),
     reads = 0, tval = 0, fired = []\<rparr>"

lemma sample_cpu_ms: "i \<le> 11 \<Longrightarrow> ms sample_cpu i = 16"
proof -
  assume "i \<le> 11"
  then have "unat (16000 + 10 * of_nat i :: u64) = 16000 + 10 * i" by (simp add: unat_word_ariths unat_of_nat)
  then show "ms sample_cpu i = 16" using \<open>i \<le> 11\<close> by (simp add: ms_def sample_cpu_def unat_div_distrib)
qed

lemma sample_cpu_ok: "timers_ok 5000 sample_cpu [16, 24]"
proof -
  have "holds_tree timer_heap (Nd Lf 16 True (Nd Lf 24 False Lf))"
    by (simp add: holds_tree_def timer_heap_def child_def aligned_def enc_def rbt_ok_def)
  then have "queue_of (timer_tree sample_cpu) [16, 24]"
    unfolding queue_of_def by (intro exI [of _ "Nd Lf 16 True (Nd Lf 24 False Lf)"]) (simp add: sample_cpu_def)
  moreover have "ms sample_cpu (reads sample_cpu) = 16" by (rule sample_cpu_ms) (simp add: sample_cpu_def)
  ultimately show ?thesis by (simp add: timers_ok_def) (simp add: sample_cpu_def timer_cmp_iff)
qed

lemma sample_clock_ok: "n \<le> 11 \<Longrightarrow> clock_ok n 16 sample_cpu"
  by (auto simp: clock_ok_def sample_cpu_ms)


end
