(* ===== verification/Sched.thy ===== *)
theory Sched
  imports Timers
begin

text \<open>
  \<^verbatim>\<open>src/src/kernel/sched.c\<close>, with the parts of \<^verbatim>\<open>container.c\<close> and \<^verbatim>\<open>pt.c\<close> it calls. A process and a
  container are named by the address of the run-queue node embedded in their \<^verbatim>\<open>schinfo\<close>, so
  \<^verbatim>\<open>container_of\<close> is the identity. Every node is in at most one run queue for its whole life (a
  process in that of its container, a container in that of its parent), so each container
  has its own red-black heap. Every function runs under the scheduler's lock. \<open>None\<close> is a
  failed \<^verbatim>\<open>ASSERT\<close>, an access outside an array, or a recursion that does not end.
\<close>

datatype procstate = UNUSED | RUNNABLE | RUNNING | SLEEPING | DEEPSLEEPING | ZOMBIE

record sched_state =
  state :: "addr \<Rightarrow> procstate"
  idle :: "addr \<Rightarrow> bool"
  killed :: "addr \<Rightarrow> bool"
  pid :: "addr \<Rightarrow> int"
  cont_of :: "addr \<Rightarrow> addr"
  group :: "addr \<Rightarrow> bool"
  start_time :: "addr \<Rightarrow> u64"
  vruntime :: "addr \<Rightarrow> u64"
  skip :: "addr \<Rightarrow> bool"
  cparent :: "addr \<Rightarrow> addr"
  cid :: "addr \<Rightarrow> int"
  rq :: "addr \<Rightarrow> rb_heap"
  node_cnt :: "addr \<Rightarrow> int"
  pgdir_pt :: "addr \<Rightarrow> u64"
  online :: "addr \<Rightarrow> bool"
  cpu_proc :: "nat \<Rightarrow> addr"
  cpu_idle :: "nat \<Rightarrow> addr"
  ttbr0 :: "nat \<Rightarrow> u64"
  timers :: "nat \<Rightarrow> cpu_state"
  sched_timer :: "nat \<Rightarrow> addr"
  sched_timer_set :: "nat \<Rightarrow> bool"
  root_container :: addr
  root_proc :: addr
  invalid_pt :: u64
  panic_flag :: bool

section \<open>Constants and the order of the run queues\<close>

definition con_to_weight :: "int \<Rightarrow> u64 option" where
  "con_to_weight i = (if 0 \<le> i \<and> i < 5 then Some ([1, 1, 1, 1, 1] ! nat i) else None)"

definition con_to_limit :: "int \<Rightarrow> u64 option" where
  "con_to_limit i = (if 0 \<le> i \<and> i < 5 then Some ([1, 1, 1, 1, 1] ! nat i) else None)"

abbreviation WEIGHT_SUM :: u64 where "WEIGHT_SUM \<equiv> 1"
abbreviation SLICE :: u64 where "SLICE \<equiv> 5"
abbreviation TIMER_ELAPSE :: int where "TIMER_ELAPSE \<equiv> 1"

definition sched_cmp :: "(addr \<Rightarrow> u64) \<Rightarrow> addr \<Rightarrow> addr \<Rightarrow> bool" where
  "sched_cmp vr lnode rnode =
     (let d = sint (vr lnode - vr rnode) in
      if d < 0 then True else if d = 0 then lnode < rnode else False)"

definition timestamp :: "nat \<Rightarrow> sched_state \<Rightarrow> u64 \<times> sched_state" where
  "timestamp cpu s = (let (t, c) = get_timestamp_ms (timers s cpu) in (t, s\<lparr>timers := (timers s)(cpu := c)\<rparr>))"

definition rq_insert :: "addr \<Rightarrow> addr \<Rightarrow> sched_state \<Rightarrow> sched_state option" where
  "rq_insert n c s = do {
     (r, h) \<leftarrow> rb_insert (sched_cmp (vruntime s)) n (rq s c);
     if r = 0 then Some (s\<lparr>rq := (rq s)(c := h)\<rparr>) else None }"

definition rq_erase :: "addr \<Rightarrow> addr \<Rightarrow> sched_state \<Rightarrow> sched_state option" where
  "rq_erase n c s = do { h \<leftarrow> rb_erase n (rq s c); Some (s\<lparr>rq := (rq s)(c := h)\<rparr>) }"

section \<open>Initialisation and queries\<close>

definition init_schinfo :: "addr \<Rightarrow> bool \<Rightarrow> sched_state \<Rightarrow> sched_state" where
  "init_schinfo p g s = s\<lparr>group := (group s)(p := g), start_time := (start_time s)(p := 0),
     vruntime := (vruntime s)(p := 0), skip := (skip s)(p := False)\<rparr>"

definition init_schqueue :: "addr \<Rightarrow> sched_state \<Rightarrow> sched_state" where
  "init_schqueue c s = s\<lparr>rq := (rq s)(c := (rq s c)\<lparr>root := 0\<rparr>), node_cnt := (node_cnt s)(c := 0)\<rparr>"

definition is_zombie :: "addr \<Rightarrow> sched_state \<Rightarrow> bool" where
  "is_zombie p s \<longleftrightarrow> state s p = ZOMBIE"

definition is_used :: "addr \<Rightarrow> sched_state \<Rightarrow> bool" where
  "is_used p s \<longleftrightarrow> state s p \<noteq> UNUSED"

section \<open>Waking a process\<close>

definition activate_proc :: "addr \<Rightarrow> bool \<Rightarrow> sched_state \<Rightarrow> (bool \<times> sched_state) option" where
  "activate_proc p onalert s =
     (if state s p = RUNNING \<or> state s p = RUNNABLE \<or> state s p = ZOMBIE \<or> (state s p = DEEPSLEEPING \<and> onalert)
      then Some (False, s)
      else if state s p = SLEEPING \<or> state s p = UNUSED \<or> (state s p = DEEPSLEEPING \<and> \<not> onalert) then do {
        s \<leftarrow> rq_insert p (cont_of s p) (s\<lparr>state := (state s)(p := RUNNABLE)\<rparr>);
        Some (True, s\<lparr>node_cnt := (node_cnt s)(cont_of s p := node_cnt s (cont_of s p) + 1)\<rparr>) }
      else Some (True, s))"

definition activate_group :: "addr \<Rightarrow> sched_state \<Rightarrow> sched_state option" where
  "activate_group g s = do {
     s \<leftarrow> rq_insert g (cparent s g) s;
     Some (s\<lparr>node_cnt := (node_cnt s)(cparent s g := node_cnt s (cparent s g) + 1)\<rparr>) }"

section \<open>Leaving the cpu\<close>

text \<open>The \<^verbatim>\<open>while\<close> loop over the enclosing containers.\<close>

partial_function (option) charge_containers :: "addr \<Rightarrow> u64 \<Rightarrow> sched_state \<Rightarrow> sched_state option" where
  "charge_containers c delta_time s =
     (if cparent s c \<noteq> 0 then do {
        s \<leftarrow> rq_erase c (cparent s c) (s\<lparr>vruntime := (vruntime s)(c := vruntime s c + delta_time)\<rparr>);
        s \<leftarrow> rq_insert c (cparent s c) s;
        charge_containers (cparent s c) delta_time s }
      else Some s)"

definition update_this_state :: "nat \<Rightarrow> procstate \<Rightarrow> sched_state \<Rightarrow> sched_state option" where
  "update_this_state cpu new_state s =
     (let this = cpu_proc s cpu in do {
        s \<leftarrow> (if \<not> idle s this \<and> state s this = RUNNING \<and> new_state = RUNNABLE then
          let (now, s) = timestamp cpu s in do {
            w \<leftarrow> con_to_weight (cid s (cont_of s this));
            let delta_time = (now - start_time s this) * w div WEIGHT_SUM;
            s \<leftarrow> rq_insert this (cont_of s this) (s\<lparr>vruntime := (vruntime s)(this := vruntime s this + delta_time)\<rparr>);
            let s = s\<lparr>node_cnt := (node_cnt s)(cont_of s this := node_cnt s (cont_of s this) + 1)\<rparr>;
            charge_containers (cont_of s this) delta_time s }
          else Some s);
        Some (s\<lparr>state := (state s)(this := new_state)\<rparr>) })"

section \<open>Choosing the next process\<close>

text \<open>The first node that is not a container to be skipped.\<close>

partial_function (option) rb_first_ex_p :: "addr \<Rightarrow> rb_heap \<Rightarrow> sched_state \<Rightarrow> addr option" where
  "rb_first_ex_p n h s =
     (if n = 0 then Some 0
      else do {
        left \<leftarrow> (if lft h n \<noteq> 0 then rb_first_ex_p (lft h n) h s else Some 0);
        if left \<noteq> 0 then Some left
        else if \<not> (group s n \<and> skip s n) then Some n
        else if rgt h n \<noteq> 0 then rb_first_ex_p (rgt h n) h s
        else Some 0 })"

text \<open>Clearing the marks in a run queue and those of its containers.\<close>

partial_function (option) rb_fix_skip :: "addr \<Rightarrow> rb_heap \<Rightarrow> sched_state \<Rightarrow> sched_state option" where
  "rb_fix_skip n h s =
     (if n \<noteq> 0 then do {
        let s = s\<lparr>skip := (skip s)(n := False)\<rparr>;
        s \<leftarrow> (if group s n then rb_fix_skip (root (rq s n)) (rq s n) s else Some s);
        s \<leftarrow> rb_fix_skip (lft h n) h s;
        rb_fix_skip (rgt h n) h s }
      else Some s)"

partial_function (option) pick_next_r :: "nat \<Rightarrow> addr \<Rightarrow> sched_state \<Rightarrow> (addr \<times> sched_state) option" where
  "pick_next_r cpu c s =
     (if panic_flag s then Some (cpu_idle s cpu, s)
      else do {
        get_node \<leftarrow> rb_first_ex_p (root (rq s c)) (rq s c) s;
        if c \<noteq> root_container s \<and> node_cnt s c \<noteq> 0 \<and> get_node = 0 then
          pick_next_r cpu (cparent s c) (s\<lparr>skip := (skip s)(c := True)\<rparr>)
        else if get_node = 0 then Some (cpu_idle s cpu, s)
        else if \<not> group s get_node then do {
          s \<leftarrow> rq_erase get_node (cont_of s get_node) s;
          let s = s\<lparr>node_cnt := (node_cnt s)(cont_of s get_node := node_cnt s (cont_of s get_node) - 1)\<rparr>;
          if node_cnt s (cont_of s get_node) \<ge> 0 then Some (get_node, s) else None }
        else if node_cnt s get_node = 0 then
          pick_next_r cpu c (s\<lparr>skip := (skip s)(get_node := True)\<rparr>)
        else pick_next_r cpu get_node s })"

definition pick_next :: "nat \<Rightarrow> sched_state \<Rightarrow> (addr \<times> sched_state) option" where
  "pick_next cpu s = do {
     (ret, s) \<leftarrow> pick_next_r cpu (root_container s) s;
     s \<leftarrow> rb_fix_skip (root (rq s (root_container s))) (rq s (root_container s)) s;
     Some (ret, s) }"

section \<open>Switching\<close>

definition update_this_proc :: "nat \<Rightarrow> addr \<Rightarrow> sched_state \<Rightarrow> sched_state option" where
  "update_this_proc cpu p s = do {
     s \<leftarrow> (if pid s p \<noteq> 0 \<and> p \<noteq> root_proc s \<and> \<not> sched_timer_set s cpu then
        let t = sched_timer s cpu; c = timers s cpu in do {
          c \<leftarrow> set_cpu_timer t (c\<lparr>elapse := (elapse c)(t := TIMER_ELAPSE)\<rparr>);
          Some (s\<lparr>timers := (timers s)(cpu := c), sched_timer_set := (sched_timer_set s)(cpu := True)\<rparr>) }
       else Some s);
     Some (s\<lparr>cpu_proc := (cpu_proc s)(cpu := p)\<rparr>) }"

text \<open>\<^verbatim>\<open>attach_pgdir\<close> of a process, with the kernel's direct map taken off the table's address.\<close>

definition attach_pgdir :: "nat \<Rightarrow> addr \<Rightarrow> sched_state \<Rightarrow> sched_state" where
  "attach_pgdir cpu p s =
     (let s = s\<lparr>online := (online s)(cpu_proc s cpu := False)\<rparr> in
      if pgdir_pt s p \<noteq> 0 then
        s\<lparr>online := (online s)(p := True), ttbr0 := (ttbr0 s)(cpu := pgdir_pt s p - 0xffff000000000000)\<rparr>
      else s\<lparr>ttbr0 := (ttbr0 s)(cpu := invalid_pt s - 0xffff000000000000)\<rparr>)"

text \<open>
  \<^verbatim>\<open>simple_sched\<close> up to the switch of the kernel stacks: the process that runs next on the cpu.
\<close>

definition simple_sched :: "nat \<Rightarrow> procstate \<Rightarrow> sched_state \<Rightarrow> sched_state option" where
  "simple_sched cpu new_state s =
     (let this = cpu_proc s cpu in
      if state s this \<noteq> RUNNING then None
      else if killed s this \<and> new_state \<noteq> ZOMBIE then Some s
      else do {
        s \<leftarrow> update_this_state cpu new_state s;
        (nxt, s) \<leftarrow> pick_next cpu s;
        s \<leftarrow> update_this_proc cpu nxt s;
        if state s nxt \<noteq> RUNNABLE then None
        else
          let s = s\<lparr>state := (state s)(nxt := RUNNING)\<rparr> in
          if nxt \<noteq> this then
            let s = attach_pgdir cpu nxt s; (now, s) = timestamp cpu s
            in Some (s\<lparr>start_time := (start_time s)(nxt := now)\<rparr>)
          else Some s })"

definition sched_timer_handler :: "nat \<Rightarrow> addr \<Rightarrow> sched_state \<Rightarrow> sched_state option" where
  "sched_timer_handler cpu t s =
     (if triggered (timers s cpu) t then do {
        c \<leftarrow> set_cpu_timer (sched_timer s cpu) (timers s cpu);
        let s = s\<lparr>timers := (timers s)(cpu := c)\<rparr>;
        let this = cpu_proc s cpu;
        if idle s this then simple_sched cpu RUNNABLE s
        else
          let (now, s) = timestamp cpu s in do {
            w \<leftarrow> con_to_weight (cid s (cont_of s this));
            l \<leftarrow> con_to_limit (cid s (cont_of s this));
            if (now - start_time s this) * w div WEIGHT_SUM \<ge> SLICE div l then simple_sched cpu RUNNABLE s else Some s } }
      else Some s)"

declare charge_containers.simps [code] rb_fix_skip.simps [code] pick_next_r.simps [code] rb_first_ex_p.simps [code]

end
