(* ===== verification/Sched_Pick.thy ===== *)
theory Sched_Pick
  imports Sched
begin

text \<open>
  The choice of the next process. \<open>Q c\<close> is the list of the nodes in the run queue of the
  container \<open>c\<close>, in the order of their virtual run times. The specification is \<open>chosen\<close>: from the root
  container, follow in each queue the first entry that is a process or a container with a
  queued process somewhere below it.
\<close>

section \<open>Well-formed run queues\<close>

definition wf_tree :: "sched_state \<Rightarrow> addr set \<Rightarrow> (addr \<Rightarrow> nat) \<Rightarrow> bool" where
  "wf_tree s C dep \<longleftrightarrow> finite C \<and> root_container s \<in> C \<and> cparent s (root_container s) = 0 \<and>
     (\<forall>c \<in> C. c \<noteq> 0 \<and> aligned c \<and> group s c \<and> 0 \<le> cid s c \<and> cid s c < 5 \<and>
       (c \<noteq> root_container s \<longrightarrow> cparent s c \<in> C \<and> dep c = Suc (dep (cparent s c))))"

definition entry_ok :: "sched_state \<Rightarrow> addr set \<Rightarrow> addr \<Rightarrow> addr \<Rightarrow> bool" where
  "entry_ok s C c x \<longleftrightarrow>
     (if group s x then x \<in> C \<and> x \<noteq> root_container s \<and> cparent s x = c
      else cont_of s x = c)"

definition rq_ok :: "sched_state \<Rightarrow> addr set \<Rightarrow> (addr \<Rightarrow> addr list) \<Rightarrow> bool" where
  "rq_ok s C Q \<longleftrightarrow> (\<forall>c \<in> C. queue_of (rq s c) (Q c) \<and> sorted_wrt (sched_cmp (vruntime s)) (Q c) \<and>
     node_cnt s c = int (length (Q c)) \<and> (\<forall>x \<in> set (Q c). entry_ok s C c x))"

inductive busy :: "sched_state \<Rightarrow> (addr \<Rightarrow> addr list) \<Rightarrow> addr \<Rightarrow> bool" for s Q where
  here: "x \<in> set (Q c) \<Longrightarrow> \<not> group s x \<Longrightarrow> busy s Q c"
| there: "x \<in> set (Q c) \<Longrightarrow> group s x \<Longrightarrow> busy s Q x \<Longrightarrow> busy s Q c"

inductive chosen :: "sched_state \<Rightarrow> (addr \<Rightarrow> addr list) \<Rightarrow> addr \<Rightarrow> addr \<Rightarrow> bool" for s Q where
  proc: "List.find (\<lambda>x. \<not> group s x \<or> busy s Q x) (Q c) = Some p \<Longrightarrow> \<not> group s p \<Longrightarrow> chosen s Q c p"
| cont: "List.find (\<lambda>x. \<not> group s x \<or> busy s Q x) (Q c) = Some x \<Longrightarrow> group s x \<Longrightarrow> chosen s Q x p \<Longrightarrow> chosen s Q c p"

inductive under :: "sched_state \<Rightarrow> (addr \<Rightarrow> addr list) \<Rightarrow> addr \<Rightarrow> addr \<Rightarrow> bool" for s Q where
  direct: "x \<in> set (Q c) \<Longrightarrow> under s Q c x"
| deeper: "x \<in> set (Q c) \<Longrightarrow> group s x \<Longrightarrow> under s Q x y \<Longrightarrow> under s Q c y"

inductive_cases busyE: "busy s Q c"

lemma under_trans: "under s Q a c \<Longrightarrow> group s c \<Longrightarrow> x \<in> set (Q c) \<Longrightarrow> under s Q a x"
  by (induction rule: under.induct) (auto intro: under.intros)

text \<open>The relations depend on the kind of the entries only.\<close>

lemma busy_cong: "busy s Q c \<Longrightarrow> group s = group s' \<Longrightarrow> busy s' Q c"
proof (induction rule: busy.induct)
  case (here x c)
  then show ?case using busy.here [of x Q c s'] by simp
next
  case (there x c)
  then show ?case using busy.there [of x Q c s'] by simp
qed

lemma busy_group: "group s = group s' \<Longrightarrow> busy s Q = busy s' Q"
  using busy_cong by (intro ext iffI) metis+

lemma chosen_cong: "chosen s Q c p \<Longrightarrow> group s = group s' \<Longrightarrow> chosen s' Q c p"
proof (induction rule: chosen.induct)
  case (proc c p)
  then show ?case using chosen.proc [of s' Q c p] busy_group [of s s' Q] by simp
next
  case (cont c x p)
  then show ?case using chosen.cont [of s' Q c x p] busy_group [of s s' Q] by simp
qed

section \<open>The first entry that is not skipped\<close>

definition skipped :: "sched_state \<Rightarrow> addr \<Rightarrow> bool" where
  "skipped s x \<longleftrightarrow> group s x \<and> skip s x"

lemma rb_first_ex_p_spec:
  "rep h p t \<Longrightarrow> rb_first_ex_p (ptr t) h s =
     Some (case List.find (\<lambda>x. \<not> skipped s x) (inorder t) of None \<Rightarrow> 0 | Some x \<Rightarrow> x)"
proof (induction t arbitrary: p)
  case Lf
  then show ?case by (subst rb_first_ex_p.simps) simp
next
  case (Nd l a b r)
  have a: "a \<noteq> 0" "lft h a = ptr l" "rgt h a = ptr r" "rep h a l" "rep h a r" using Nd.prems by (auto simp: child_def)
  have l: "(if ptr l \<noteq> 0 then rb_first_ex_p (ptr l) h s else Some 0) =
      Some (case List.find (\<lambda>x. \<not> skipped s x) (inorder l) of None \<Rightarrow> 0 | Some x \<Rightarrow> x)"
    using Nd.IH(1) [OF a(4)] rep_ptr [OF a(4)] by (cases "l = Lf") auto
  have r: "(if ptr r \<noteq> 0 then rb_first_ex_p (ptr r) h s else Some 0) =
      Some (case List.find (\<lambda>x. \<not> skipped s x) (inorder r) of None \<Rightarrow> 0 | Some x \<Rightarrow> x)"
    using Nd.IH(2) [OF a(5)] rep_ptr [OF a(5)] by (cases "r = Lf") auto
  have nz: "x \<noteq> 0" if "List.find (\<lambda>x. \<not> skipped s x) (inorder l) = Some x" for x
    using find_Some_iff [OF that] rep_nodes [OF a(4)] by blast
  show ?case
    using a(1-3) l r nz by (subst rb_first_ex_p.simps) (auto simp: find_append skipped_def split: option.splits)
qed

lemma rb_first_ex_p_queue:
  assumes "queue_of h xs"
  shows "rb_first_ex_p (root h) h s = Some (case List.find (\<lambda>x. \<not> skipped s x) xs of None \<Rightarrow> 0 | Some x \<Rightarrow> x)"
  using assms rb_first_ex_p_spec unfolding queue_of_def holds_tree_def by metis

section \<open>The search\<close>

text \<open>The containers that the search is in: each is the first entry of its queue that is not skipped.\<close>

inductive opened :: "sched_state \<Rightarrow> (addr \<Rightarrow> addr list) \<Rightarrow> addr \<Rightarrow> bool" for s Q where
  root: "opened s Q (root_container s)"
| step: "opened s Q c \<Longrightarrow> List.find (\<lambda>x. \<not> skipped s x) (Q c) = Some x \<Longrightarrow> group s x \<Longrightarrow> opened s Q x"

inductive_cases openedE: "opened s Q c"

lemma find_narrow:
  "List.find P xs = Some x \<Longrightarrow> R x \<Longrightarrow> (\<And>y. y \<in> set xs \<Longrightarrow> R y \<Longrightarrow> P y) \<Longrightarrow> List.find R xs = Some x"
  by (induction xs) (auto split: if_splits)

lemma chosen_busy: "chosen s Q c p \<Longrightarrow> busy s Q c"
  by (induction rule: chosen.induct) (meson busy.intros find_Some_iff)+

lemma chosen_entry: "chosen s Q c p \<Longrightarrow> \<not> group s p \<and> (\<exists>d. p \<in> set (Q d) \<and> (d = c \<or> under s Q c d))"
proof (induction rule: chosen.induct)
  case (proc c p)
  then show ?case using find_Some_iff by fast
next
  case (cont c x p)
  then have "x \<in> set (Q c)" using find_Some_iff by fast
  then show ?case using cont by (metis under.direct under.deeper)
qed

lemma mark_simps [simp]:
  "wf_tree (s\<lparr>skip := k\<rparr>) C dep = wf_tree s C dep" "rq_ok (s\<lparr>skip := k\<rparr>) C Q = rq_ok s C Q"
  "busy (s\<lparr>skip := k\<rparr>) Q = busy s Q" "chosen (s\<lparr>skip := k\<rparr>) Q = chosen s Q" "under (s\<lparr>skip := k\<rparr>) Q = under s Q"
proof -
  show "wf_tree (s\<lparr>skip := k\<rparr>) C dep = wf_tree s C dep" "rq_ok (s\<lparr>skip := k\<rparr>) C Q = rq_ok s C Q"
    by (simp_all add: wf_tree_def rq_ok_def entry_ok_def)
  show "busy (s\<lparr>skip := k\<rparr>) Q = busy s Q" by (rule busy_group) simp
  show "chosen (s\<lparr>skip := k\<rparr>) Q = chosen s Q"
    using chosen_cong [of "s\<lparr>skip := k\<rparr>" Q _ _ s] chosen_cong [of s Q _ _ "s\<lparr>skip := k\<rparr>"] by (intro ext) auto
  have "under s1 Q a b \<Longrightarrow> group s1 = group s2 \<Longrightarrow> under s2 Q a b" for s1 s2 a b
    by (induction rule: under.induct) (auto intro: under.intros)
  then show "under (s\<lparr>skip := k\<rparr>) Q = under s Q" by (intro ext iffI) fastforce+
qed

lemma entry_dep:
  assumes "wf_tree s C dep" and "rq_ok s C Q" and "c \<in> C" and "x \<in> set (Q c)" and "group s x"
  shows "x \<in> C \<and> x \<noteq> root_container s \<and> cparent s x = c \<and> dep x = Suc (dep c)"
  using assms unfolding rq_ok_def entry_ok_def wf_tree_def by metis

lemma opened_in: "opened s Q c \<Longrightarrow> wf_tree s C dep \<Longrightarrow> rq_ok s C Q \<Longrightarrow> c \<in> C \<and> (c = root_container s \<or> under s Q (root_container s) c)"
proof (induction rule: opened.induct)
  case root
  then show ?case by (simp add: wf_tree_def)
next
  case (step c x)
  then have "x \<in> set (Q c)" "c \<in> C" using find_Some_iff by fast+
  then show ?case using step entry_dep [OF step(5,6), of c x] by (metis under.direct under_trans wf_tree_def)
qed

lemma opened_parent:
  assumes o: "opened s Q c" and c: "c \<noteq> root_container s" and ok: "wf_tree s C dep" "rq_ok s C Q"
  shows "opened s Q (cparent s c) \<and> c \<in> set (Q (cparent s c)) \<and> \<not> skip s c \<and> dep c = Suc (dep (cparent s c))"
  using o c
proof (cases rule: opened.cases)
  case (step d)
  then have "c \<in> set (Q d)" "\<not> skipped s c" using find_Some_iff by fast+
  moreover have "d \<in> C" using step(1) opened_in ok by blast
  ultimately show ?thesis using step entry_dep [OF ok, of d c] by (auto simp: skipped_def)
qed simp

definition mark :: "addr \<Rightarrow> sched_state \<Rightarrow> sched_state" where
  "mark d s = s\<lparr>skip := (skip s)(d := True)\<rparr>"

lemma mark_fields [simp]:
  "skip (mark d s) x \<longleftrightarrow> x = d \<or> skip s x" "group (mark d s) = group s" "root_container (mark d s) = root_container s"
  "panic_flag (mark d s) = panic_flag s" "rq (mark d s) = rq s" "node_cnt (mark d s) = node_cnt s"
  "cparent (mark d s) = cparent s" "cont_of (mark d s) = cont_of s" "cpu_idle (mark d s) = cpu_idle s"
  "(mark d s)\<lparr>skip := k\<rparr> = s\<lparr>skip := k\<rparr>"
  "wf_tree (mark d s) C dep = wf_tree s C dep" "rq_ok (mark d s) C Q = rq_ok s C Q"
  "busy (mark d s) Q = busy s Q" "chosen (mark d s) Q = chosen s Q" "under (mark d s) Q = under s Q"
  by (simp_all only: mark_def mark_simps) (auto simp: fun_upd_def)

lemma opened_mark:
  assumes "opened s Q c" and ok: "wf_tree s C dep" "rq_ok s C Q" and "dep c < dep d"
  shows "opened (mark d s) Q c"
  using assms(1,4)
proof (induction rule: opened.induct)
  case root
  then show ?case using opened.root [of "mark d s" Q] by simp
next
  case (step c x)
  let ?s = "mark d s"
  have c: "c \<in> C" "x \<in> set (Q c)" using opened_in [OF step(1) ok] find_Some_iff [OF step(2)] by blast+
  have x: "dep x = Suc (dep c)" using entry_dep [OF ok c step(3)] by blast
  have "skipped ?s y = skipped s y" if "y \<in> set (Q c)" for y
    using entry_dep [OF ok c(1) that] step.prems x by (auto simp: skipped_def)
  then have "List.find (\<lambda>x. \<not> skipped ?s x) (Q c) = Some x"
    using step(2) find_cong_set [of "Q c" "\<lambda>x. \<not> skipped ?s x" "\<lambda>x. \<not> skipped s x"] by simp
  then show ?case using opened.step [of ?s Q c x] step x by simp
qed

lemma chosen_up:
  assumes "opened s Q c" and "chosen s Q c p" and ok: "wf_tree s C dep" "rq_ok s C Q" and sk: "\<forall>d \<in> C. skip s d \<longrightarrow> \<not> busy s Q d"
  shows "chosen s Q (root_container s) p"
  using assms(1,2)
proof (induction rule: opened.induct)
  case (step c x)
  have c: "c \<in> C" using opened_in [OF step(1) ok] by blast
  have "List.find (\<lambda>x. \<not> group s x \<or> busy s Q x) (Q c) = Some x"
  proof (rule find_narrow [OF step(2)])
    show "\<not> group s x \<or> busy s Q x" using chosen_busy [OF step.prems] by simp
  next
    fix y
    assume y: "y \<in> set (Q c)" "\<not> group s y \<or> busy s Q y"
    then show "\<not> skipped s y" using entry_dep [OF ok c y(1)] sk by (auto simp: skipped_def)
  qed
  then show ?case using step chosen.cont by metis
qed simp

lemma not_busy:
  assumes "\<forall>x \<in> set (Q c). skipped s x" and "\<forall>x \<in> set (Q c). \<not> busy s Q x"
  shows "\<not> busy s Q c"
proof
  assume "busy s Q c"
  then show False using assms by (cases rule: busy.cases) (auto simp: skipped_def)
qed

text \<open>What a search from a container leaves: some more marks below the root, and the process taken out.\<close>

definition taken :: "addr \<Rightarrow> rb_heap \<Rightarrow> sched_state \<Rightarrow> sched_state" where
  "taken p h s = s\<lparr>rq := (rq s)(cont_of s p := h),
     node_cnt := (node_cnt s)(cont_of s p := node_cnt s (cont_of s p) - 1)\<rparr>"

definition search_result :: "nat \<Rightarrow> (addr \<Rightarrow> addr list) \<Rightarrow> sched_state \<Rightarrow> (addr \<times> sched_state) option \<Rightarrow> bool" where
  "search_result cpu Q s res \<longleftrightarrow> (\<exists>k. (\<forall>x. k x \<longrightarrow> skip s x \<or> group s x \<and> under s Q (root_container s) x) \<and>
     (if busy s Q (root_container s)
      then \<exists>p h. chosen s Q (root_container s) p \<and> rb_erase p (rq s (cont_of s p)) = Some h \<and>
        res = Some (p, (taken p h s)\<lparr>skip := k\<rparr>)
      else res = Some (cpu_idle s cpu, s\<lparr>skip := k\<rparr>)))"

lemma search_mark:
  assumes "search_result cpu Q (mark d s) res" and "under s Q (root_container s) d" and "group s d"
  shows "search_result cpu Q s res"
proof -
  have t: "(taken p h (mark d s))\<lparr>skip := k\<rparr> = (taken p h s)\<lparr>skip := k\<rparr>" for p h k
    by (simp add: taken_def mark_def)
  show ?thesis using assms unfolding search_result_def mark_fields t by metis
qed

lemma pick_proc:
  assumes ok: "wf_tree s C dep" "rq_ok s C Q" "\<not> panic_flag s" and c: "opened s Q c"
    and f: "List.find (\<lambda>x. \<not> skipped s x) (Q c) = Some p" "\<not> group s p" and sk: "\<forall>d \<in> C. skip s d \<longrightarrow> \<not> busy s Q d"
  shows "search_result cpu Q s (pick_next_r cpu c s)"
proof -
  have cC: "c \<in> C" using opened_in [OF c ok(1,2)] by blast
  have p: "p \<in> set (Q c)" using find_Some_iff [OF f(1)] by blast
  have q: "queue_of (rq s c) (Q c)" "node_cnt s c = int (length (Q c))" "cont_of s p = c"
    using ok(2) cC p f(2) by (auto simp: rq_ok_def entry_ok_def)
  obtain h where h: "rb_erase p (rq s c) = Some h" using rbq.del_ok [OF q(1) p] by blast
  have "length (Q c) > 0" using p by (cases "Q c") auto
  then have cnt: "node_cnt s c - 1 \<ge> 0" using q(2) by simp
  have p0: "p \<noteq> 0" using rbq.content_nodes [OF q(1)] p by auto
  have run: "pick_next_r cpu c s = Some (p, taken p h s)"
    using ok(3) f p0 h q(3) cnt rb_first_ex_p_queue [OF q(1), of s]
    by (subst pick_next_r.simps) (simp add: rq_erase_def taken_def)
  have "List.find (\<lambda>x. \<not> group s x \<or> busy s Q x) (Q c) = Some p"
  proof (rule find_narrow [OF f(1)])
    fix y
    assume y: "y \<in> set (Q c)" "\<not> group s y \<or> busy s Q y"
    then show "\<not> skipped s y" using entry_dep [OF ok(1,2) cC y(1)] sk by (auto simp: skipped_def)
  qed (use f in simp)
  then have ch: "chosen s Q (root_container s) p" using chosen_up [OF c chosen.proc ok(1,2) sk] f(2) by blast
  have "(taken p h s)\<lparr>skip := skip s\<rparr> = taken p h s" by (simp add: taken_def)
  then show ?thesis unfolding search_result_def
    using ch h q(3) run chosen_busy [OF ch] by (intro exI [of _ "skip s"]) auto
qed

lemma unskipped_drop:
  assumes "finite C" and "d \<in> C" and "d \<noteq> root_container s" and "\<not> skip s d"
  shows "card {x \<in> C. x \<noteq> root_container (mark d s) \<and> \<not> skip (mark d s) x} < card {x \<in> C. x \<noteq> root_container s \<and> \<not> skip s x}"
  by (rule psubset_card_mono) (use assms in auto)

lemma pick_next_r_spec:
  assumes "wf_tree s C dep" and "rq_ok s C Q" and "\<not> panic_flag s" and "opened s Q c"
    and "\<forall>d \<in> C. skip s d \<longrightarrow> \<not> busy s Q d" and "c \<noteq> root_container s \<longrightarrow> Q c \<noteq> []"
  shows "search_result cpu Q s (pick_next_r cpu c s)"
  using assms
proof (induction "card {x \<in> C. x \<noteq> root_container s \<and> \<not> skip s x} * Suc (Max (dep ` C)) + (Max (dep ` C) - dep c)"
    arbitrary: s c rule: less_induct)
  case less
  note ok = less.prems(1,2) and sk = less.prems(5)
  have fin: "finite C" and cC: "c \<in> C" using ok(1) opened_in [OF less.prems(4) ok] by (auto simp: wf_tree_def)
  let ?n = "\<lambda>s. card {x \<in> C. x \<noteq> root_container s \<and> \<not> skip s x}" and ?M = "Max (dep ` C)"
  have M: "dep x \<le> ?M" if "x \<in> C" for x using fin that by simp
  have smaller: "?n s' * Suc ?M + (?M - i) < ?n s * Suc ?M + j" if "?n s' < ?n s" for s' i j
  proof -
    have "Suc (?n s') * Suc ?M \<le> ?n s * Suc ?M" using that by (intro mult_le_mono1) simp
    then show ?thesis by simp
  qed
  have q: "queue_of (rq s c) (Q c)" "node_cnt s c = int (length (Q c))" using ok(2) cC by (auto simp: rq_ok_def)
  note first = rb_first_ex_p_queue [OF q(1), of s]
  show ?case
  proof (cases "List.find (\<lambda>x. \<not> skipped s x) (Q c)")
    case None
    then have all: "\<forall>x \<in> set (Q c). skipped s x" by (simp add: find_None_iff')
    have nb: "\<not> busy s Q c"
      using all sk entry_dep [OF ok cC] by (intro not_busy) (auto simp: skipped_def)
    show ?thesis
    proof (cases "c = root_container s")
      case True
      then have "pick_next_r cpu c s = Some (cpu_idle s cpu, s\<lparr>skip := skip s\<rparr>)"
        using first None less.prems(3) by (subst pick_next_r.simps) simp
      then show ?thesis using nb True unfolding search_result_def by (intro exI [of _ "skip s"]) simp
    next
      case False
      note pr = opened_parent [OF less.prems(4) False ok]
      have run: "pick_next_r cpu c s = pick_next_r cpu (cparent s c) (mark c s)"
        using first None less.prems(3,6) False q(2) by (subst pick_next_r.simps) (simp add: mark_def)
      have p: "opened (mark c s) Q (cparent s c)" using pr opened_mark [OF _ ok] by simp
      have "search_result cpu Q (mark c s) (pick_next_r cpu (cparent s c) (mark c s))"
        by (rule less.hyps) (use p pr ok sk nb less.prems(3) smaller [OF unskipped_drop [OF fin cC False]] in auto)
      then show ?thesis
        unfolding run using search_mark opened_in [OF less.prems(4) ok] False ok(1) by (metis wf_tree_def)
    qed
  next
    case (Some x)
    show ?thesis
    proof (cases "group s x")
      case False
      then show ?thesis using pick_proc [OF ok less.prems(3,4) Some _ sk] by blast
    next
      case g: True
      have xq: "x \<in> set (Q c)" "\<not> skip s x" using find_Some_iff [OF Some] g by (auto simp: skipped_def)
      note xd = entry_dep [OF ok cC xq(1) g]
      have x: "x \<noteq> 0" "node_cnt s x = int (length (Q x))" using ok xd by (auto simp: rq_ok_def wf_tree_def)
      show ?thesis
      proof (cases "Q x = []")
        case True
        have run: "pick_next_r cpu c s = pick_next_r cpu c (mark x s)"
          using first Some less.prems(3) x g True by (subst pick_next_r.simps) (simp add: mark_def)
        have nb: "\<not> busy s Q x" using True by (auto elim: busyE)
        have o: "opened (mark x s) Q c" using opened_mark [OF less.prems(4) ok] xd by simp
        have "?n (mark x s) < ?n s" using unskipped_drop [OF fin _ _ xq(2)] xd by blast
        then have "search_result cpu Q (mark x s) (pick_next_r cpu c (mark x s))"
          by (rule less.hyps [OF smaller]) (use o ok sk nb less.prems(3,6) in auto)
        moreover have "under s Q (root_container s) x"
          using opened_in [OF less.prems(4) ok] xq(1) under.direct under_trans ok(1) by (metis wf_tree_def)
        ultimately show ?thesis unfolding run using search_mark g by metis
      next
        case False
        have run: "pick_next_r cpu c s = pick_next_r cpu x s"
          using first Some less.prems(3) x g False by (subst pick_next_r.simps) simp
        have "search_result cpu Q s (pick_next_r cpu x s)"
          by (rule less.hyps) (use opened.step [OF less.prems(4) Some g] ok sk less.prems(3) False xd M [of x] in auto)
        then show ?thesis unfolding run .
      qed
    qed
  qed
qed

section \<open>Clearing the marks\<close>

definition clr :: "sched_state \<Rightarrow> addr set \<Rightarrow> sched_state" where
  "clr s S = s\<lparr>skip := \<lambda>x. skip s x \<and> x \<notin> S\<rparr>"

lemma clr_step: "(clr s S)\<lparr>skip := (skip (clr s S))(n := False)\<rparr> = clr s (insert n S)"
  by (auto simp: clr_def fun_upd_def intro!: arg_cong [of _ _ "\<lambda>k. s\<lparr>skip := k\<rparr>"])

lemma clr_fields [simp]: "group (clr s S) = group s" "rq (clr s S) = rq s"
  by (simp_all add: clr_def)

text \<open>The sets cleared: a tree of entries, given what is cleared below each of its containers.\<close>

lemma fix_tree:
  assumes "rep h p t"
    and "\<And>x S. x \<in> nodes t \<Longrightarrow> group s x \<Longrightarrow> \<exists>T. rb_fix_skip (root (rq s x)) (rq s x) (clr s S) = Some (clr s T) \<and> S \<union> B x \<subseteq> T"
  shows "\<exists>T. rb_fix_skip (ptr t) h (clr s S) = Some (clr s T) \<and> S \<union> nodes t \<subseteq> T \<and> (\<forall>x \<in> nodes t. group s x \<longrightarrow> B x \<subseteq> T)"
  using assms
proof (induction t arbitrary: p S)
  case Lf
  then show ?case by (subst rb_fix_skip.simps) auto
next
  case (Nd l a b r)
  have a: "a \<noteq> 0" "lft h a = ptr l" "rgt h a = ptr r" "rep h a l" "rep h a r" using Nd.prems(1) by (auto simp: child_def)
  obtain T1 where T1: "(if group s a then rb_fix_skip (root (rq s a)) (rq s a) (clr s (insert a S)) else Some (clr s (insert a S))) = Some (clr s T1)"
      "insert a S \<subseteq> T1" "group s a \<longrightarrow> B a \<subseteq> T1"
    using Nd.prems(2) [of a "insert a S"] by (cases "group s a") auto
  obtain T2 where T2: "rb_fix_skip (ptr l) h (clr s T1) = Some (clr s T2)" "T1 \<union> nodes l \<subseteq> T2"
      "\<forall>x \<in> nodes l. group s x \<longrightarrow> B x \<subseteq> T2"
    using Nd.IH(1) [OF a(4) Nd.prems(2), of T1] by auto
  obtain T3 where T3: "rb_fix_skip (ptr r) h (clr s T2) = Some (clr s T3)" "T2 \<union> nodes r \<subseteq> T3"
      "\<forall>x \<in> nodes r. group s x \<longrightarrow> B x \<subseteq> T3"
    using Nd.IH(2) [OF a(5) Nd.prems(2), of T2] by auto
  have "rb_fix_skip a h (clr s S) = Some (clr s T3)"
    using a(1-3) T1(1) T2(1) T3(1) by (subst rb_fix_skip.simps) (cases "group s a"; simp add: clr_step Let_def)
  moreover have "T1 \<subseteq> T3" "T2 \<subseteq> T3" using T2(2) T3(2) by auto
  moreover from this have "B x \<subseteq> T3" if "x \<in> nodes (Nd l a b r)" "group s x" for x
    using that T1(3) T2(3) T3(3) order.trans by (metis Un_iff inorder.simps(2) insert_iff list.simps(15) set_append)
  ultimately show ?case using T1(2) T2(2) T3(2) by (intro exI [of _ T3]) auto
qed

lemma fix_cont:
  assumes "wf_tree s C dep" and "rq_ok s C Q" and "c \<in> C"
  shows "\<exists>T. rb_fix_skip (root (rq s c)) (rq s c) (clr s S) = Some (clr s T) \<and> S \<union> {x. under s Q c x} \<subseteq> T"
  using assms(3)
proof (induction "Max (dep ` C) - dep c" arbitrary: c S rule: less_induct)
  case less
  obtain t where t: "rep (rq s c) 0 t" "root (rq s c) = ptr t" "inorder t = Q c"
    using assms(2) less.prems unfolding rq_ok_def queue_of_def holds_tree_def by metis
  have "\<exists>T. rb_fix_skip (root (rq s x)) (rq s x) (clr s S') = Some (clr s T) \<and> S' \<union> {y. under s Q x y} \<subseteq> T"
    if "x \<in> nodes t" "group s x" for x S'
  proof -
    have x: "x \<in> C" "dep x = Suc (dep c)" using entry_dep [OF assms(1,2) less.prems] that t(3) by auto
    moreover have "dep x \<le> Max (dep ` C)" using x(1) assms(1) by (simp add: wf_tree_def)
    ultimately show ?thesis by (intro less.hyps) auto
  qed
  then obtain T where T: "rb_fix_skip (ptr t) (rq s c) (clr s S) = Some (clr s T)" "S \<union> nodes t \<subseteq> T"
      "\<forall>x \<in> nodes t. group s x \<longrightarrow> {y. under s Q x y} \<subseteq> T"
    using fix_tree [OF t(1), of s "\<lambda>x. {y. under s Q x y}" S] by blast
  have "y \<in> T" if "under s Q c y" for y
    using that
  proof (cases rule: under.cases)
    case direct
    then show ?thesis using T(2) t(3) by auto
  next
    case (deeper x)
    then show ?thesis using T(3) t(3) by auto
  qed
  then show ?case using T t(2) by auto
qed

lemma sorted_wrt_remove1: "sorted_wrt P xs \<Longrightarrow> sorted_wrt P (remove1 x xs)"
  by (induction xs) (auto dest: notin_set_remove1)

lemma rq_ok_taken:
  assumes "rq_ok s C Q" and "p \<in> set (Q (cont_of s p))" and "cont_of s p \<in> C" and "rb_erase p (rq s (cont_of s p)) = Some h"
  shows "rq_ok (taken p h s) C (Q(cont_of s p := remove1 p (Q (cont_of s p))))"
proof -
  let ?c = "cont_of s p" and ?Q = "Q(cont_of s p := remove1 p (Q (cont_of s p)))"
  have q: "queue_of (rq s ?c) (Q ?c)" using assms by (simp add: rq_ok_def)
  have "queue_of h (remove1 p (Q ?c))" using rbq.del_ok [OF q assms(2)] assms(4) by simp
  moreover have "int (length (Q ?c)) - 1 = int (length (remove1 p (Q ?c)))" 
    using assms(2) by (cases "length (Q ?c)") (auto simp: length_remove1)
  moreover have e: "entry_ok (taken p h s) C c x = entry_ok s C c x" for c x by (simp add: entry_ok_def taken_def)
  ultimately have "queue_of (rq (taken p h s) d) (?Q d) \<and> sorted_wrt (sched_cmp (vruntime (taken p h s))) (?Q d) \<and>
      node_cnt (taken p h s) d = int (length (?Q d)) \<and> (\<forall>x \<in> set (?Q d). entry_ok (taken p h s) C d x)" if "d \<in> C" for d
    using assms(1) that sorted_wrt_remove1 [of _ "Q ?c" p] unfolding e rq_ok_def
    by (cases "d = ?c") (auto simp: taken_def dest!: set_remove1_subset [THEN subsetD])
  then show ?thesis unfolding rq_ok_def by blast
qed

section \<open>The whole choice\<close>

lemma under_remove1:
  "under s Q a x \<Longrightarrow> group s x \<Longrightarrow> \<not> group s p \<Longrightarrow> under s (Q(c := remove1 p (Q c))) a x"
proof (induction rule: under.induct)
  case (direct x a)
  then have "x \<noteq> p" by auto
  then show ?case using direct(1) by (intro under.direct) (auto simp: in_set_remove1)
next
  case (deeper x a y)
  then have "x \<noteq> p" by auto
  then have "x \<in> set ((Q(c := remove1 p (Q c))) a)" using deeper(1) by (auto simp: in_set_remove1)
  then show ?case using deeper under.deeper by blast
qed

lemma chosen_cont:
  assumes "wf_tree s C dep" and "rq_ok s C Q" and "chosen s Q (root_container s) p"
  shows "\<not> group s p \<and> p \<in> set (Q (cont_of s p)) \<and> cont_of s p \<in> C"
proof -
  have dC: "d \<in> C" if "under s Q a d" "group s d" "a \<in> C" for a d
    using that
  proof (induction rule: under.induct)
    case (direct x c)
    then show ?case using entry_dep [OF assms(1,2)] by blast
  next
    case (deeper x c y)
    then show ?case using entry_dep [OF assms(1,2)] by blast
  qed
  have goal: "\<not> group s p \<and> p \<in> set (Q (cont_of s p)) \<and> cont_of s p \<in> C"
    if "p \<in> set (Q d)" "d \<in> C" "\<not> group s p" for d
    using that assms(2) by (auto simp: rq_ok_def entry_ok_def)
  have "\<exists>d \<in> C. p \<in> set (Q d) \<and> \<not> group s p" if "chosen s Q c p" "c \<in> C" for c
    using that
  proof (induction rule: chosen.induct)
    case (proc c p)
    then show ?case using find_Some_iff by fast
  next
    case (cont c x p)
    then have "x \<in> set (Q c)" using find_Some_iff by fast
    then show ?case using cont entry_dep [OF assms(1,2)] by blast
  qed
  then show ?thesis using goal assms(1,3) by (metis wf_tree_def)
qed

lemma pick_next_spec:
  assumes ok: "wf_tree s C dep" "rq_ok s C Q" "\<not> panic_flag s" and sk: "\<forall>x. \<not> skip s x"
  shows "if busy s Q (root_container s)
    then \<exists>p h. chosen s Q (root_container s) p \<and> pick_next cpu s = Some (p, taken p h s) \<and>
      rq_ok (taken p h s) C (Q(cont_of s p := remove1 p (Q (cont_of s p))))
    else pick_next cpu s = Some (cpu_idle s cpu, s)"
proof -
  have r: "search_result cpu Q s (pick_next_r cpu (root_container s) s)"
    by (rule pick_next_r_spec [OF ok opened.root]) (use sk in auto)
  then obtain k where k: "\<And>x. k x \<Longrightarrow> group s x \<and> under s Q (root_container s) x"
    and res: "if busy s Q (root_container s)
      then \<exists>p h. chosen s Q (root_container s) p \<and> rb_erase p (rq s (cont_of s p)) = Some h \<and>
        pick_next_r cpu (root_container s) s = Some (p, (taken p h s)\<lparr>skip := k\<rparr>)
      else pick_next_r cpu (root_container s) s = Some (cpu_idle s cpu, s\<lparr>skip := k\<rparr>)"
    unfolding search_result_def using sk by blast
  have fix_all: "rb_fix_skip (root (rq s' (root_container s))) (rq s' (root_container s)) (s'\<lparr>skip := k\<rparr>) = Some s'"
    if ok': "wf_tree s' C dep" "rq_ok s' C Q'" and same: "skip s' = skip s" "root_container s' = root_container s"
      and u: "\<And>x. k x \<Longrightarrow> under s' Q' (root_container s) x" for s' Q'
  proof -
    have rC: "root_container s \<in> C" using ok(1) by (simp add: wf_tree_def)
    obtain T where T: "rb_fix_skip (root (rq s' (root_container s))) (rq s' (root_container s)) (clr (s'\<lparr>skip := k\<rparr>) {}) = Some (clr (s'\<lparr>skip := k\<rparr>) T)"
        "{x. under s' Q' (root_container s) x} \<subseteq> T"
      using fix_cont [of "s'\<lparr>skip := k\<rparr>" C dep Q' "root_container s" "{}"] ok' rC by auto
    have "clr (s'\<lparr>skip := k\<rparr>) {} = s'\<lparr>skip := k\<rparr>" by (simp add: clr_def)
    moreover have "(\<lambda>x. k x \<and> x \<notin> T) = skip s'" using u T(2) sk same(1) by auto
    then have "clr (s'\<lparr>skip := k\<rparr>) T = s'" by (simp add: clr_def)
    ultimately show ?thesis using T(1) by simp
  qed
  show ?thesis
  proof (cases "busy s Q (root_container s)")
    case False
    then have "pick_next_r cpu (root_container s) s = Some (cpu_idle s cpu, s\<lparr>skip := k\<rparr>)" using res by simp
    moreover have "rb_fix_skip (root (rq s (root_container s))) (rq s (root_container s)) (s\<lparr>skip := k\<rparr>) = Some s"
      using ok k by (intro fix_all) auto
    ultimately show ?thesis using False by (simp add: pick_next_def)
  next
    case True
    then obtain p h where p: "chosen s Q (root_container s) p" "rb_erase p (rq s (cont_of s p)) = Some h"
        "pick_next_r cpu (root_container s) s = Some (p, (taken p h s)\<lparr>skip := k\<rparr>)" using res by auto
    let ?Q = "Q(cont_of s p := remove1 p (Q (cont_of s p)))"
    note pc = chosen_cont [OF ok(1,2) p(1)]
    have ok': "rq_ok (taken p h s) C ?Q" using rq_ok_taken [OF ok(2) _ _ p(2)] pc by blast
    have wf': "wf_tree (taken p h s) C dep" using ok(1) by (simp add: wf_tree_def taken_def)
    have un: "under s1 R a x \<Longrightarrow> group s1 = group s2 \<Longrightarrow> under s2 R a x" for s1 s2 R a x
      by (induction rule: under.induct) (auto intro: under.intros)
    have "under (taken p h s) ?Q (root_container s) x" if "k x" for x
      using un [OF under_remove1 [of s Q "root_container s" x p]] k [OF that] pc by (simp add: taken_def)
    then have "rb_fix_skip (root (rq (taken p h s) (root_container s))) (rq (taken p h s) (root_container s)) ((taken p h s)\<lparr>skip := k\<rparr>)
        = Some (taken p h s)"
      using ok' wf' by (intro fix_all) (auto simp: taken_def)
    then have "pick_next cpu s = Some (p, taken p h s)" using p(3) by (simp add: pick_next_def taken_def)
    then show ?thesis using True p(1) ok' by auto
  qed
qed

end
