(* ===== verification/Sched_Proofs.thy ===== *)
theory Sched_Proofs
  imports Sched_Pick
begin

text \<open>
  The invariant of the scheduler and its preservation: no assertion fails, every runnable
  process is in the run queue of its container and only there, each cpu runs one process, and
  a cpu idles only when no process is queued.
\<close>

lemma entry_ok_upd [simp]:
  "entry_ok (s\<lparr>state := a\<rparr>) = entry_ok s" "entry_ok (s\<lparr>vruntime := b\<rparr>) = entry_ok s" "entry_ok (s\<lparr>rq := c\<rparr>) = entry_ok s"
  "entry_ok (s\<lparr>node_cnt := d\<rparr>) = entry_ok s" "entry_ok (s\<lparr>timers := e\<rparr>) = entry_ok s" "entry_ok (s\<lparr>cpu_proc := f\<rparr>) = entry_ok s"
  "entry_ok (s\<lparr>sched_timer_set := g\<rparr>) = entry_ok s"
  by (simp_all add: entry_ok_def fun_eq_iff)

section \<open>Insertion into the run queues\<close>

lemma sched_cmp_timer: "sched_cmp = timer_cmp"
  by (simp add: sched_cmp_def timer_cmp_def fun_eq_iff)

lemmas sched_cmp_strict = timer_cmp_strict [folded sched_cmp_timer]
  and sched_cmp_total = timer_cmp_total [folded sched_cmp_timer]

lemma rq_insert_ok:
  assumes q: "queue_of (rq s c) xs" "sorted_wrt (sched_cmp (vruntime s)) xs" and n: "n \<notin> set xs" "n \<noteq> 0" "aligned n"
    and vr: "\<forall>x. unat (vruntime s x) < 2 ^ 63"
  shows "\<exists>h ys. rq_insert n c s = Some (s\<lparr>rq := (rq s)(c := h)\<rparr>) \<and> queue_of h ys \<and> sorted_wrt (sched_cmp (vruntime s)) ys \<and>
    set ys = insert n (set xs) \<and> length ys = Suc (length xs)"
proof -
  have tot: "\<forall>x \<in> set xs. sched_cmp (vruntime s) n x \<or> sched_cmp (vruntime s) x n"
    using n(1) vr by (intro ballI sched_cmp_total) auto
  obtain h ys where r: "rb_insert (sched_cmp (vruntime s)) n (rq s c) = Some (0, h)" "queue_of h ys"
      "sorted_wrt (sched_cmp (vruntime s)) ys" "set ys = insert n (set xs)"
    using rbq.ins_sorted [OF q(1) n _ q(2) tot] sched_cmp_strict vr by blast
  have "distinct xs" "distinct ys" using queue_nodes [OF q(1)] queue_nodes [OF r(2)] by auto
  then have "length ys = Suc (length xs)" using r(4) n(1) by (metis card_insert_disjoint distinct_card finite_set)
  then show ?thesis using r by (auto simp: rq_insert_def)
qed

section \<open>Charging the containers\<close>

definition linked :: "sched_state \<Rightarrow> (addr \<Rightarrow> addr list) \<Rightarrow> addr \<Rightarrow> bool" where
  "linked s Q c \<longleftrightarrow> c = root_container s \<or> under s Q (root_container s) c"

lemma under_last: "under s Q a x \<Longrightarrow> x \<in> set (Q a) \<or> (\<exists>y. under s Q a y \<and> group s y \<and> x \<in> set (Q y))"
  by (induction rule: under.induct) (auto intro: under.intros)

lemma under_set: "under s Q a x \<Longrightarrow> (\<And>c. set (Q c) \<subseteq> set (R c)) \<Longrightarrow> group s = group s' \<Longrightarrow> under s' R a x"
  by (induction rule: under.induct) (auto intro: under.intros)

lemma under_in: "under s Q a d \<Longrightarrow> group s d \<Longrightarrow> a \<in> C \<Longrightarrow> wf_tree s C dep \<Longrightarrow> rq_ok s C Q \<Longrightarrow> d \<in> C"
proof (induction rule: under.induct)
  case (direct x c)
  then show ?case using entry_dep [of s C dep Q c x] by blast
next
  case (deeper x c y)
  then show ?case using entry_dep [of s C dep Q c x] by blast
qed

lemma linked_parent:
  assumes ok: "wf_tree s C dep" "rq_ok s C Q" and c: "c \<in> C" "c \<noteq> root_container s" "linked s Q c"
  shows "c \<in> set (Q (cparent s c)) \<and> cparent s c \<in> C \<and> cparent s c \<noteq> 0 \<and> linked s Q (cparent s c) \<and> dep c = Suc (dep (cparent s c))"
proof -
  have r: "root_container s \<in> C" and g: "group s c" using ok(1) c(1) by (auto simp: wf_tree_def)
  obtain y where y: "c \<in> set (Q y)" "y \<in> C" "linked s Q y"
    using c under_last [of s Q "root_container s" c] under_in [OF _ _ r ok] r by (auto simp: linked_def)
  have "cparent s c = y" "dep c = Suc (dep y)" using entry_dep [OF ok y(2,1) g] by auto
  then show ?thesis using y ok(1) by (auto simp: wf_tree_def)
qed

lemma requeue_container:
  assumes q: "queue_of (rq s p) xs" "sorted_wrt (sched_cmp (vruntime s)) xs" "c \<in> set xs"
    and vr: "\<forall>x. unat (vr x) < 2 ^ 63" and up: "vr = (vruntime s)(c := w)"
  shows "\<exists>h1 h2 ys. rq_erase c p (s\<lparr>vruntime := vr\<rparr>) = Some (s\<lparr>vruntime := vr, rq := (rq s)(p := h1)\<rparr>) \<and>
    rq_insert c p (s\<lparr>vruntime := vr, rq := (rq s)(p := h1)\<rparr>) = Some (s\<lparr>vruntime := vr, rq := (rq s)(p := h2)\<rparr>) \<and>
    queue_of h2 ys \<and> sorted_wrt (sched_cmp vr) ys \<and> set ys = set xs \<and> length ys = length xs"
proof -
  have d: "distinct xs" "aligned c" using queue_nodes [OF q(1)] q(3) by auto
  have "sched_cmp vr x y = sched_cmp (vruntime s) x y" if "x \<in> set (remove1 c xs)" "y \<in> set (remove1 c xs)" for x y
    using that d(1) by (auto simp: up sched_cmp_def)
  then have s: "sorted_wrt (sched_cmp vr) (remove1 c xs)"
    using sorted_wrt_remove1 [OF q(2), of c] by (metis sorted_wrt_mono_rel)
  have tot: "\<forall>x \<in> set xs - {c}. sched_cmp vr c x \<or> sched_cmp vr x c"
    using vr by (intro ballI sched_cmp_total) auto
  have "\<exists>h1 h2 ys. rb_erase c (rq s p) = Some h1 \<and> rb_insert (sched_cmp vr) c h1 = Some (0, h2) \<and> queue_of h2 ys \<and>
      sorted_wrt (sched_cmp vr) ys \<and> set ys = set xs"
    by (rule rbq.requeue [OF q(1,3) d(2) sched_cmp_strict s tot]) (use vr in auto)
  then obtain h1 h2 ys where r: "rb_erase c (rq s p) = Some h1" "rb_insert (sched_cmp vr) c h1 = Some (0, h2)" "queue_of h2 ys"
      "sorted_wrt (sched_cmp vr) ys" "set ys = set xs" by blast
  have "length ys = length xs" using r(5) d(1) queue_nodes [OF r(3)] by (metis distinct_card)
  then show ?thesis using r by (intro exI [of _ h1] exI [of _ h2] exI [of _ ys]) (simp add: rq_erase_def rq_insert_def)
qed

lemma rq_ok_requeue:
  assumes ok: "wf_tree s C dep" "rq_ok s C Q" and c: "c \<in> C" "c \<noteq> root_container s" and p: "p = cparent s c" "p \<in> C"
    and up: "vr = (vruntime s)(c := w)"
    and ys: "queue_of h ys" "sorted_wrt (sched_cmp vr) ys" "set ys = set (Q p)" "length ys = length (Q p)"
  shows "rq_ok (s\<lparr>vruntime := vr, rq := (rq s)(p := h)\<rparr>) C (Q(p := ys))"
proof -
  let ?s = "s\<lparr>vruntime := vr, rq := (rq s)(p := h)\<rparr>"
  have g: "group s c" using ok(1) c(1) by (simp add: wf_tree_def)
  have "queue_of (rq ?s d) ((Q(p := ys)) d) \<and> sorted_wrt (sched_cmp (vruntime ?s)) ((Q(p := ys)) d) \<and>
     node_cnt ?s d = int (length ((Q(p := ys)) d)) \<and> (\<forall>x \<in> set ((Q(p := ys)) d). entry_ok ?s C d x)" if d: "d \<in> C" for d
  proof (cases "d = p")
    case True
    then show ?thesis using ys ok(2) p(2) by (auto simp: rq_ok_def entry_ok_def)
  next
    case False
    have Q: "queue_of (rq s d) (Q d)" "sorted_wrt (sched_cmp (vruntime s)) (Q d)" "node_cnt s d = int (length (Q d))"
        "\<forall>x \<in> set (Q d). entry_ok s C d x" using ok(2) d by (auto simp: rq_ok_def)
    have "c \<notin> set (Q d)" using Q(4) g p(1) False by (auto simp: entry_ok_def)
    then have "sched_cmp vr x y = sched_cmp (vruntime s) x y" if "x \<in> set (Q d)" "y \<in> set (Q d)" for x y
      using that by (auto simp: up sched_cmp_def)
    then have "sorted_wrt (sched_cmp vr) (Q d)" using Q(2) by (metis sorted_wrt_mono_rel)
    then show ?thesis using Q False by (simp add: entry_ok_def)
  qed
  then show ?thesis unfolding rq_ok_def by blast
qed

text \<open>The containers whose virtual run time is charged with that of a process of \<open>c\<close>: \<open>c\<close> and those around it but the root.\<close>

inductive enclosing :: "sched_state \<Rightarrow> addr \<Rightarrow> addr \<Rightarrow> bool" for s where
  own: "cparent s c \<noteq> 0 \<Longrightarrow> enclosing s c c"
| outer: "cparent s c \<noteq> 0 \<Longrightarrow> enclosing s (cparent s c) x \<Longrightarrow> enclosing s c x"

definition charged :: "sched_state \<Rightarrow> addr \<Rightarrow> u64 \<Rightarrow> addr \<Rightarrow> u64" where
  "charged s c \<delta> x = (if enclosing s c x then vruntime s x + \<delta> else vruntime s x)"

lemma enclosing_step: "enclosing s c x \<longleftrightarrow> cparent s c \<noteq> 0 \<and> (x = c \<or> enclosing s (cparent s c) x)"
  by (subst enclosing.simps) auto

lemma enclosing_cong: "enclosing s c x \<Longrightarrow> cparent s' = cparent s \<Longrightarrow> enclosing s' c x"
  by (induction rule: enclosing.induct) (auto intro: enclosing.intros)

lemma enclosing_same: "cparent s' = cparent s \<Longrightarrow> enclosing s' = enclosing s"
  using enclosing_cong [of s _ _ s'] enclosing_cong [of s' _ _ s] by (intro ext) auto

lemma enclosing_dep:
  assumes ok: "wf_tree s C dep" "rq_ok s C Q"
  shows "enclosing s c x \<Longrightarrow> c \<in> C \<Longrightarrow> linked s Q c \<Longrightarrow> x \<in> C \<and> dep x \<le> dep c"
proof (induction rule: enclosing.induct)
  case (outer c x)
  then have "c \<noteq> root_container s" using ok(1) by (auto simp: wf_tree_def)
  then show ?case using linked_parent [OF ok outer(4) _ outer(5)] outer by auto
qed simp

lemma charge_containers_ok:
  assumes "wf_tree s C dep" and "rq_ok s C Q" and "c \<in> C" and "linked s Q c"
    and "\<forall>x. unat (vruntime s x) < 2 ^ 63" and "\<forall>x \<in> C. dep x \<le> dep c \<longrightarrow> unat (vruntime s x) + unat \<delta> < 2 ^ 63"
  shows "\<exists>vr r Q'. charge_containers c \<delta> s = Some (s\<lparr>vruntime := vr, rq := r\<rparr>) \<and> rq_ok (s\<lparr>vruntime := vr, rq := r\<rparr>) C Q' \<and>
    (\<forall>d. set (Q' d) = set (Q d)) \<and> (\<forall>x. unat (vr x) < 2 ^ 63) \<and> vr = charged s c \<delta>"
  using assms
proof (induction "dep c" arbitrary: s c Q rule: less_induct)
  case less
  note ok = less.prems(1,2) and c = less.prems(3,4)
  show ?case
  proof (cases "c = root_container s")
    case True
    then have "charge_containers c \<delta> s = Some s" using ok(1) by (subst charge_containers.simps) (simp add: wf_tree_def)
    then have "charge_containers c \<delta> s = Some (s\<lparr>vruntime := vruntime s, rq := rq s\<rparr>)" by simp
    moreover have "vruntime s = charged s c \<delta>"
      using True ok(1) enclosing_step [of s c] by (intro ext) (auto simp: charged_def wf_tree_def)
    ultimately show ?thesis using ok(2) less.prems(5)
      by (intro exI [of _ "vruntime s"] exI [of _ "rq s"] exI [of _ Q]) (simp del: fun_upd_apply add: rq_ok_def)
  next
    case False
    let ?p = "cparent s c" and ?vr = "(vruntime s)(c := vruntime s c + \<delta>)"
    note pr = linked_parent [OF ok c(1) False c(2)]
    have "unat (vruntime s c) + unat \<delta> < 2 ^ 63" using less.prems(6) c(1) by blast
    then have vc: "unat (vruntime s c + \<delta>) < 2 ^ 63" by (simp add: unat_word_ariths)
    then have vr: "\<forall>x. unat (?vr x) < 2 ^ 63" using less.prems(5) by auto
    have q: "queue_of (rq s ?p) (Q ?p)" "sorted_wrt (sched_cmp (vruntime s)) (Q ?p)" using ok(2) pr by (auto simp: rq_ok_def)
    obtain h1 h2 ys where r: "rq_erase c ?p (s\<lparr>vruntime := ?vr\<rparr>) = Some (s\<lparr>vruntime := ?vr, rq := (rq s)(?p := h1)\<rparr>)"
        "rq_insert c ?p (s\<lparr>vruntime := ?vr, rq := (rq s)(?p := h1)\<rparr>) = Some (s\<lparr>vruntime := ?vr, rq := (rq s)(?p := h2)\<rparr>)"
        "queue_of h2 ys" "sorted_wrt (sched_cmp ?vr) ys" "set ys = set (Q ?p)" "length ys = length (Q ?p)"
      using requeue_container [OF q _ vr refl] pr by blast
    let ?s = "s\<lparr>vruntime := ?vr, rq := (rq s)(?p := h2)\<rparr>" and ?Q = "Q(?p := ys)"
    have run: "charge_containers c \<delta> s = charge_containers ?p \<delta> ?s"
      using pr r(1,2) by (subst charge_containers.simps) simp
    have set: "set (?Q d) = set (Q d)" for d using r(5) by simp
    have wf: "wf_tree ?s C dep" using ok(1) by (simp add: wf_tree_def)
    have rok: "rq_ok ?s C ?Q" using rq_ok_requeue [OF ok c(1) False refl _ refl r(3-6)] pr by blast
    have lk: "linked ?s ?Q ?p" using pr under_set [of s Q "root_container s" ?p ?Q ?s] set unfolding linked_def by auto
    have b: "unat (vruntime ?s x) + unat \<delta> < 2 ^ 63" if "x \<in> C" "dep x \<le> dep ?p" for x
      using less.prems(6) that pr by (cases "x = c") auto
    obtain vr r Q' where f: "charge_containers ?p \<delta> ?s = Some (?s\<lparr>vruntime := vr, rq := r\<rparr>)"
        "rq_ok (?s\<lparr>vruntime := vr, rq := r\<rparr>) C Q'" "\<forall>d. set (Q' d) = set (?Q d)" "\<forall>x. unat (vr x) < 2 ^ 63"
        "vr = charged ?s ?p \<delta>"
      using less.hyps [of ?p ?s ?Q] pr wf rok lk vr b by (auto simp del: fun_upd_apply)
    have "\<not> enclosing s ?p c" using enclosing_dep [OF ok, of ?p c] pr by auto
    then have "charged ?s ?p \<delta> = charged s c \<delta>"
      using pr enclosing_same [of ?s s] enclosing_step [of s c] by (intro ext) (auto simp: charged_def)
    then show ?thesis unfolding run using set f
      by (intro exI [of _ vr] exI [of _ r] exI [of _ Q']) simp
  qed
qed

section \<open>The invariant\<close>

definition cpu_ok :: "sched_state \<Rightarrow> addr set \<Rightarrow> (addr \<Rightarrow> addr list) \<Rightarrow> nat \<Rightarrow> bool" where
  "cpu_ok s P Q i \<longleftrightarrow> state s (cpu_proc s i) = RUNNING \<and>
     (cpu_proc s i = cpu_idle s i \<or>
      cpu_proc s i \<in> P \<and> linked s Q (cont_of s (cpu_proc s i)) \<and> state s (cpu_idle s i) = RUNNABLE)"

text \<open>The cpus in \<open>I\<close> run a process; the others are inside the scheduler.\<close>

definition sched_core :: "sched_state \<Rightarrow> addr set \<Rightarrow> addr set \<Rightarrow> (addr \<Rightarrow> addr list) \<Rightarrow> nat set \<Rightarrow> bool" where
  "sched_core s P C Q I \<longleftrightarrow> (\<exists>dep. wf_tree s C dep) \<and> rq_ok s C Q \<and> \<not> panic_flag s \<and> (\<forall>x. \<not> skip s x) \<and>
     (\<forall>x. unat (vruntime s x) < 2 ^ 63) \<and>
     (\<forall>p \<in> P. p \<noteq> 0 \<and> aligned p \<and> \<not> group s p \<and> \<not> idle s p \<and> cont_of s p \<in> C \<and>
       (state s p = RUNNABLE \<longleftrightarrow> p \<in> set (Q (cont_of s p)))) \<and>
     (\<forall>c \<in> C. \<forall>x \<in> set (Q c). group s x \<or> x \<in> P) \<and>
     inj_on (cpu_proc s) I \<and> inj_on (cpu_idle s) {..<4} \<and> (\<forall>i < 4. idle s (cpu_idle s i)) \<and> (\<forall>i \<in> I. i < 4 \<and> cpu_ok s P Q i)"

definition sched_inv :: "sched_state \<Rightarrow> addr set \<Rightarrow> addr set \<Rightarrow> (addr \<Rightarrow> addr list) \<Rightarrow> bool" where
  "sched_inv s P C Q \<longleftrightarrow> sched_core s P C Q {..<4}"

definition same_core :: "sched_state \<Rightarrow> sched_state \<Rightarrow> bool" where
  "same_core s s' \<longleftrightarrow> state s' = state s \<and> idle s' = idle s \<and> cont_of s' = cont_of s \<and> group s' = group s \<and>
     vruntime s' = vruntime s \<and> skip s' = skip s \<and> cparent s' = cparent s \<and> cid s' = cid s \<and> rq s' = rq s \<and>
     node_cnt s' = node_cnt s \<and> cpu_proc s' = cpu_proc s \<and> cpu_idle s' = cpu_idle s \<and>
     root_container s' = root_container s \<and> panic_flag s' = panic_flag s"

lemma linked_cong:
  assumes "linked s Q c" and "group s' = group s" and "root_container s' = root_container s" and "\<And>d. set (Q d) \<subseteq> set (R d)"
  shows "linked s' R c"
  using assms under_set [of s Q _ c R s'] by (auto simp: linked_def)

lemma same_core_inv:
  assumes same: "same_core s s'" and inv: "sched_core s P C Q I"
  shows "sched_core s' P C Q I"
proof -
  have eqs: "state s' = state s" "idle s' = idle s" "cont_of s' = cont_of s" "group s' = group s"
    "vruntime s' = vruntime s" "skip s' = skip s" "cparent s' = cparent s" "cid s' = cid s" "rq s' = rq s"
    "node_cnt s' = node_cnt s" "cpu_proc s' = cpu_proc s" "cpu_idle s' = cpu_idle s"
    "root_container s' = root_container s" "panic_flag s' = panic_flag s" using same by (simp_all add: same_core_def)
  have lk: "linked s' Q = linked s Q"
    using linked_cong [of s Q _ s' Q] linked_cong [of s' Q _ s Q] eqs by (intro ext) auto
  show ?thesis using inv unfolding sched_core_def wf_tree_def rq_ok_def entry_ok_def cpu_ok_def lk eqs .
qed

lemma core_proc:
  assumes "sched_core s P C Q I" and "p \<in> P"
  shows "p \<noteq> 0 \<and> aligned p \<and> \<not> group s p \<and> \<not> idle s p \<and> cont_of s p \<in> C \<and> (state s p = RUNNABLE \<longleftrightarrow> p \<in> set (Q (cont_of s p)))"
  using assms by (simp add: sched_core_def)

lemma core_queue:
  assumes "sched_core s P C Q I" and "c \<in> C"
  shows "queue_of (rq s c) (Q c) \<and> sorted_wrt (sched_cmp (vruntime s)) (Q c) \<and> (\<forall>x \<in> set (Q c). group s x \<or> x \<in> P)"
  using assms by (simp add: sched_core_def rq_ok_def)

lemma core_cpu:
  assumes "sched_core s P C Q I"
  shows "(i < 4 \<longrightarrow> idle s (cpu_idle s i)) \<and> (i \<in> I \<longrightarrow> i < 4 \<and> cpu_ok s P Q i) \<and> (\<forall>x. \<not> skip s x) \<and> (\<forall>x. unat (vruntime s x) < 2 ^ 63) \<and>
    rq_ok s C Q \<and> \<not> panic_flag s \<and> inj_on (cpu_proc s) I \<and> inj_on (cpu_idle s) {..<4}"
  using assms by (simp add: sched_core_def)

lemma rq_ok_state [simp]: "rq_ok (s\<lparr>state := f\<rparr>) C Q = rq_ok s C Q" "wf_tree (s\<lparr>state := f\<rparr>) C dep = wf_tree s C dep"
  by (simp_all add: rq_ok_def entry_ok_def wf_tree_def)

lemma rq_ok_insert:
  assumes "rq_ok s C Q" and "c \<in> C" and "queue_of h ys" and "sorted_wrt (sched_cmp (vruntime s)) ys"
    and "set ys = insert n (set (Q c))" and "length ys = Suc (length (Q c))" and "entry_ok s C c n"
  shows "rq_ok (s\<lparr>rq := (rq s)(c := h), node_cnt := (node_cnt s)(c := node_cnt s c + 1)\<rparr>) C (Q(c := ys))"
  using assms unfolding rq_ok_def entry_ok_def by auto

section \<open>Waking\<close>

lemma activate_proc_ok:
  assumes inv: "sched_core s P C Q I" and p: "p \<in> P"
    and st: "state s p = SLEEPING \<or> state s p = UNUSED \<or> state s p = DEEPSLEEPING \<and> \<not> onalert"
  shows "\<exists>s' ys. activate_proc p onalert s = Some (True, s') \<and> sched_core s' P C (Q(cont_of s p := ys)) I \<and>
    set ys = insert p (set (Q (cont_of s p))) \<and> state s' = (state s)(p := RUNNABLE)"
proof -
  let ?c = "cont_of s p" and ?s = "s\<lparr>state := (state s)(p := RUNNABLE)\<rparr>"
  have P: "p \<noteq> 0" "aligned p" "\<not> group s p" "\<not> idle s p" "?c \<in> C" "p \<notin> set (Q ?c)"
    using core_proc [OF inv p] st by auto
  have q: "queue_of (rq s ?c) (Q ?c)" "sorted_wrt (sched_cmp (vruntime s)) (Q ?c)" and vr: "\<forall>x. unat (vruntime s x) < 2 ^ 63"
    using core_queue [OF inv P(5)] core_cpu [OF inv] by auto
  obtain h ys where r: "rq_insert p ?c ?s = Some (?s\<lparr>rq := (rq s)(?c := h)\<rparr>)" "queue_of h ys"
      "sorted_wrt (sched_cmp (vruntime s)) ys" "set ys = insert p (set (Q ?c))" "length ys = Suc (length (Q ?c))"
    using rq_insert_ok [of ?s ?c "Q ?c" p] q P vr by auto
  let ?s' = "s\<lparr>state := (state s)(p := RUNNABLE), rq := (rq s)(?c := h), node_cnt := (node_cnt s)(?c := node_cnt s ?c + 1)\<rparr>"
  have run: "activate_proc p onalert s = Some (True, ?s')"
    using st r(1) by (auto simp: activate_proc_def)
  have "rq_ok (?s\<lparr>rq := (rq ?s)(?c := h), node_cnt := (node_cnt ?s)(?c := node_cnt ?s ?c + 1)\<rparr>) C (Q(?c := ys))"
    by (rule rq_ok_insert [where n = p]) (use core_cpu [OF inv] P(3,5) r in \<open>simp_all add: entry_ok_def\<close>)
  then have rok: "rq_ok ?s' C (Q(?c := ys))" by simp
  have lk: "linked ?s' (Q(?c := ys)) d" if "linked s Q d" for d
    using that r(4) by (intro linked_cong [OF that]) auto
  have idle: "p \<noteq> cpu_idle s i" if "i < 4" for i using core_cpu [OF inv, of i] that P(4) by auto
  have notrun: "p \<noteq> cpu_proc s i" if "i \<in> I" for i using core_cpu [OF inv, of i] that st by (auto simp: cpu_ok_def)
  have cpu: "cpu_ok ?s' P (Q(?c := ys)) i" if "i \<in> I" for i
  proof -
    have "i < 4" "cpu_ok s P Q i" using core_cpu [OF inv, of i] that by auto
    then show ?thesis using idle notrun [OF that] lk by (auto simp: cpu_ok_def)
  qed
  have procs: "state ?s' x = RUNNABLE \<longleftrightarrow> x \<in> set ((Q(?c := ys)) (cont_of ?s' x))" if "x \<in> P" for x
    using core_proc [OF inv that] r(4) by (cases "x = p") auto
  have wf: "wf_tree ?s' C dep" if "wf_tree s C dep" for dep using that by (simp add: wf_tree_def)
  have ent: "group s x \<or> x \<in> P" if "d \<in> C" "x \<in> set ((Q(?c := ys)) d)" for d x
    using core_queue [OF inv that(1)] that r(4) p by (auto split: if_splits)
  have "sched_core ?s' P C (Q(?c := ys)) I"
    unfolding sched_core_def
  proof (intro conjI)
    show "\<exists>dep. wf_tree ?s' C dep" using inv wf by (auto simp: sched_core_def)
    show "\<forall>x \<in> P. x \<noteq> 0 \<and> aligned x \<and> \<not> group ?s' x \<and> \<not> idle ?s' x \<and> cont_of ?s' x \<in> C \<and>
       (state ?s' x = RUNNABLE \<longleftrightarrow> x \<in> set ((Q(?c := ys)) (cont_of ?s' x)))"
      using procs core_proc [OF inv] by (intro ballI) (simp del: fun_upd_apply)
  qed (use rok cpu ent core_cpu [OF inv] in \<open>simp_all del: fun_upd_apply\<close>)
  then show ?thesis using run r(4) by (intro exI [of _ ?s'] exI [of _ ys]) simp
qed

section \<open>Leaving the cpu\<close>

lemma leave_core:
  assumes inv: "sched_core s P C Q I" and cpu: "cpu \<in> I" and th: "this = cpu_proc s cpu"
    and s': "s' = s\<lparr>state := (state s)(this := ns), vruntime := vr, rq := r, node_cnt := nc, timers := tm\<rparr>"
    and ok: "rq_ok (s\<lparr>vruntime := vr, rq := r, node_cnt := nc\<rparr>) C Q'" and vr: "\<forall>x. unat (vr x) < 2 ^ 63"
    and Q': "\<And>d. set (Q' d) = (if ns = RUNNABLE \<and> this \<in> P \<and> d = cont_of s this then insert this (set (Q d)) else set (Q d))"
    and ns: "this \<notin> P \<longrightarrow> ns = RUNNABLE"
  shows "sched_core s' P C Q' (I - {cpu}) \<and> state s' (cpu_idle s cpu) = RUNNABLE"
proof -
  note c = core_cpu [OF inv]
  have ok': "rq_ok s' C Q'" using ok by (simp add: s' rq_ok_def)
  have own: "cpu < 4" "cpu_ok s P Q cpu" using c [of cpu] cpu by auto
  have run: "state s this = RUNNING" and id: "this \<notin> P \<Longrightarrow> this = cpu_idle s cpu" "this \<in> P \<Longrightarrow> state s (cpu_idle s cpu) = RUNNABLE"
    using own(2) c [of cpu] own(1) core_proc [OF inv, of this] unfolding cpu_ok_def th by auto
  have ti: "this \<noteq> cpu_idle s i" if "i < 4" "i \<noteq> cpu" for i
    using id c [of i] c [of cpu] core_proc [OF inv, of this] that own(1) unfolding inj_on_def by (metis lessThan_iff)
  have tp: "this \<noteq> cpu_proc s i" if "i \<in> I" "i \<noteq> cpu" for i
    using c [of i] that cpu unfolding inj_on_def th by metis
  have sub: "set (Q d) \<subseteq> set (Q' d)" for d using Q' by auto
  have lk: "linked s' Q' d" if "linked s Q d" for d using linked_cong [OF that, of s' Q'] sub by (simp add: s')
  have cpus: "i < 4 \<and> cpu_ok s' P Q' i" if "i \<in> I - {cpu}" for i
  proof -
    have "i < 4" "cpu_ok s P Q i" "i \<noteq> cpu" "i \<in> I" using c [of i] that by auto
    then show ?thesis using ti [of i] tp [of i] lk by (auto simp: cpu_ok_def s')
  qed
  have procs: "state s' x = RUNNABLE \<longleftrightarrow> x \<in> set (Q' (cont_of s x))" if "x \<in> P" for x
    using core_proc [OF inv that] Q' run that by (cases "x = this") (auto simp: s')
  have ent: "group s x \<or> x \<in> P" if "d \<in> C" "x \<in> set (Q' d)" for d x
    using core_queue [OF inv that(1)] that(2) Q' by (auto split: if_splits)
  have "sched_core s' P C Q' (I - {cpu})"
    unfolding sched_core_def
  proof (intro conjI)
    show "\<exists>dep. wf_tree s' C dep" using inv by (auto simp: sched_core_def s' wf_tree_def)
    show "\<forall>x \<in> P. x \<noteq> 0 \<and> aligned x \<and> \<not> group s' x \<and> \<not> idle s' x \<and> cont_of s' x \<in> C \<and>
       (state s' x = RUNNABLE \<longleftrightarrow> x \<in> set (Q' (cont_of s' x)))"
      using procs core_proc [OF inv] by (intro ballI) (simp add: s' del: fun_upd_apply)
    show "inj_on (cpu_proc s') (I - {cpu})" using c by (simp add: s' inj_on_diff)
  qed (use ok' vr cpus ent c in \<open>simp_all add: s' del: fun_upd_apply\<close>)
  moreover have "state s' (cpu_idle s cpu) = RUNNABLE"
    using id ns core_proc [OF inv, of this] c [of cpu] own(1) by (auto simp: s')
  ultimately show ?thesis by blast
qed

text \<open>
  The readings of the clock of the cpu up to \<open>lim\<close>, and its scheduling timer either running or ready
  to be armed.
\<close>

definition clock_ready :: "nat \<Rightarrow> nat \<Rightarrow> nat \<Rightarrow> sched_state \<Rightarrow> bool" where
  "clock_ready lim due cpu s \<longleftrightarrow> clock_ok lim due (timers s cpu) \<and>
     (sched_timer_set s cpu \<or>
      (\<exists>e xs. timers_ok e (timers s cpu) xs \<and> due + e < 2 ^ 63 \<and> sched_timer s cpu \<notin> set xs \<and> sched_timer s cpu \<noteq> 0 \<and>
        aligned (sched_timer s cpu)))"

text \<open>
  The virtual run times after the current process of the cpu and the containers around it have been
  charged with the time since it was put on the cpu.
\<close>

definition run_charged :: "nat \<Rightarrow> sched_state \<Rightarrow> addr \<Rightarrow> u64" where
  "run_charged cpu s =
     (let this = cpu_proc s cpu; now = ms (timers s cpu) (reads (timers s cpu)); \<delta> = of_nat now - start_time s this
      in (charged s (cont_of s this) \<delta>)(this := vruntime s this + \<delta>))"

lemma rq_ok_vruntime:
  assumes "rq_ok s C Q" and "\<forall>d \<in> C. x \<notin> set (Q d)"
  shows "rq_ok (s\<lparr>vruntime := (vruntime s)(x := w)\<rparr>) C Q"
proof -
  have "sorted_wrt (sched_cmp ((vruntime s)(x := w))) (Q d)" if "d \<in> C" for d
  proof -
    have "sched_cmp ((vruntime s)(x := w)) y z = sched_cmp (vruntime s) y z" if "y \<in> set (Q d)" "z \<in> set (Q d)" for y z
      using that assms(2) \<open>d \<in> C\<close> by (auto simp: sched_cmp_def)
    then show ?thesis using assms(1) that unfolding rq_ok_def by (metis sorted_wrt_mono_rel)
  qed
  then show ?thesis using assms(1) by (simp add: rq_ok_def entry_ok_def)
qed

lemma update_this_state_ok:
  assumes inv: "sched_core s P C Q I" and cpu: "cpu \<in> I" and th: "this = cpu_proc s cpu" and ns: "this \<notin> P \<longrightarrow> ns = RUNNABLE"
    and now: "now = ms (timers s cpu) (reads (timers s cpu))"
    and start: "unat (start_time s this) \<le> now" and budget: "\<forall>x. unat (vruntime s x) + now < 2 ^ 63"
  shows "\<exists>vr r nc n Q' s'. update_this_state cpu ns s = Some s' \<and>
    s' = s\<lparr>state := (state s)(this := ns), vruntime := vr, rq := r, node_cnt := nc, timers := (timers s)(cpu := (timers s cpu)\<lparr>reads := n\<rparr>)\<rparr> \<and>
    sched_core s' P C Q' (I - {cpu}) \<and> state s' (cpu_idle s cpu) = RUNNABLE \<and>
    vr = (if ns = RUNNABLE \<and> this \<in> P then run_charged cpu s else vruntime s) \<and> reads (timers s cpu) \<le> n \<and> n \<le> Suc (reads (timers s cpu)) \<and>
    (\<forall>d. set (Q' d) = (if ns = RUNNABLE \<and> this \<in> P \<and> d = cont_of s this then insert this (set (Q d)) else set (Q d)))"
proof (cases "ns = RUNNABLE \<and> this \<in> P")
  case False
  let ?n = "reads (timers s cpu)"
  let ?s = "s\<lparr>state := (state s)(this := ns), vruntime := vruntime s, rq := rq s, node_cnt := node_cnt s, timers := (timers s)(cpu := (timers s cpu)\<lparr>reads := ?n\<rparr>)\<rparr>"
  have "this \<notin> P \<Longrightarrow> idle s this" using core_cpu [OF inv, of cpu] cpu unfolding th cpu_ok_def by auto
  then have run: "update_this_state cpu ns s = Some ?s"
    using False ns by (auto simp: update_this_state_def Let_def th)
  have "sched_core ?s P C Q (I - {cpu}) \<and> state ?s (cpu_idle s cpu) = RUNNABLE"
    by (rule leave_core [OF inv cpu th refl]) (use core_cpu [OF inv] False ns in auto)
  then show ?thesis using run False
    by (intro exI [of _ "vruntime s"] exI [of _ "rq s"] exI [of _ "node_cnt s"] exI [of _ ?n] exI [of _ Q] exI [of _ ?s]) auto
next
  case True
  note c = core_cpu [OF inv, of cpu]
  let ?c = "cont_of s this" and ?t = "counter (timers s cpu) (reads (timers s cpu)) div one_ms (timers s cpu)"
  let ?tm = "(timers s)(cpu := (timers s cpu)\<lparr>reads := Suc (reads (timers s cpu))\<rparr>)" and ?\<delta> = "?t - start_time s this"
  let ?vr = "(vruntime s)(this := vruntime s this + ?\<delta>)"
  have P: "this \<noteq> 0" "aligned this" "\<not> group s this" "\<not> idle s this" "?c \<in> C" using core_proc [OF inv, of this] True by auto
  obtain dep where wf: "wf_tree s C dep" using inv by (auto simp: sched_core_def)
  have w: "con_to_weight (cid s ?c) = Some 1"
  proof -
    have "0 \<le> cid s ?c" "cid s ?c < 5" using wf P(5) by (auto simp: wf_tree_def)
    then have "nat (cid s ?c) < 5" "nat (cid s ?c) \<in> {0, 1, 2, 3, 4}" by auto
    then show ?thesis using \<open>0 \<le> cid s ?c\<close> \<open>cid s ?c < 5\<close> by (auto simp: con_to_weight_def)
  qed
  have run0: "state s this = RUNNING" "linked s Q ?c" "this \<notin> set (Q ?c)"
    using c cpu True core_proc [OF inv, of this] unfolding th cpu_ok_def by auto
  have t: "unat ?t = now" using now by (simp add: ms_def)
  then have "?t \<ge> start_time s this" using start by (simp add: word_le_nat_alt)
  then have d: "unat ?\<delta> \<le> now" using t by (simp add: unat_sub)
  then have budget': "unat (vruntime s x) + unat ?\<delta> < 2 ^ 63" for x using budget [rule_format, of x] by linarith
  have vr: "\<forall>x. unat (?vr x) < 2 ^ 63" using c budget' [of this] by (auto simp: unat_word_ariths)
  have rok: "rq_ok s C Q" using c by blast
  have "this \<notin> set (Q d)" if "d \<in> C" for d
  proof
    assume "this \<in> set (Q d)"
    then have "entry_ok s C d this" using rok that by (simp add: rq_ok_def)
    then show False using P(3) run0(3) \<open>this \<in> set (Q d)\<close> by (simp add: entry_ok_def)
  qed
  then have rok1: "rq_ok (s\<lparr>vruntime := ?vr\<rparr>) C Q" using rq_ok_vruntime [OF rok] by blast
  let ?s1 = "s\<lparr>timers := ?tm, vruntime := ?vr\<rparr>"
  have rok1': "rq_ok ?s1 C Q" using rok1 by (simp add: rq_ok_def)
  have q: "queue_of (rq ?s1 ?c) (Q ?c)" "sorted_wrt (sched_cmp (vruntime ?s1)) (Q ?c)" using rok1 P(5) by (auto simp: rq_ok_def)
  obtain h ys where h: "rq_insert this ?c ?s1 = Some (?s1\<lparr>rq := (rq s)(?c := h)\<rparr>)" "queue_of h ys" "sorted_wrt (sched_cmp ?vr) ys"
      "set ys = insert this (set (Q ?c))" "length ys = Suc (length (Q ?c))"
    using rq_insert_ok [OF q run0(3) P(1,2)] vr by auto
  let ?s2 = "?s1\<lparr>rq := (rq ?s1)(?c := h), node_cnt := (node_cnt ?s1)(?c := node_cnt ?s1 ?c + 1)\<rparr>" and ?Q = "Q(?c := ys)"
  have rok2: "rq_ok ?s2 C ?Q"
    by (rule rq_ok_insert [OF rok1' P(5) h(2) _ h(4,5)]) (use h(3) P(3) in \<open>simp_all add: entry_ok_def\<close>)
  have wf2: "wf_tree ?s2 C dep" using wf by (simp add: wf_tree_def)
  have lk2: "linked ?s2 ?Q ?c" using h(4) by (intro linked_cong [OF run0(2)]) auto
  have "this \<notin> C" using wf P(3) by (auto simp: wf_tree_def)
  then have b2: "\<forall>x \<in> C. dep x \<le> dep ?c \<longrightarrow> unat (vruntime ?s2 x) + unat ?\<delta> < 2 ^ 63" using budget' by auto
  obtain vr' r' Q' where f: "charge_containers ?c ?\<delta> ?s2 = Some (?s2\<lparr>vruntime := vr', rq := r'\<rparr>)"
      "rq_ok (?s2\<lparr>vruntime := vr', rq := r'\<rparr>) C Q'" "\<forall>d. set (Q' d) = set (?Q d)" "\<forall>x. unat (vr' x) < 2 ^ 63"
      "vr' = charged ?s2 ?c ?\<delta>"
    using charge_containers_ok [OF wf2 rok2 P(5) lk2 _ b2] vr by auto
  have "\<not> enclosing s ?c this" using enclosing_dep [OF wf rok, of ?c this] P(5) run0(2) \<open>this \<notin> C\<close> by blast
  moreover have "(of_nat now :: u64) = ?t" unfolding t [symmetric] by simp
  ultimately have vr': "vr' = run_charged cpu s"
    unfolding f(5) using enclosing_same [of ?s2 s] by (intro ext) (auto simp: run_charged_def charged_def Let_def th [symmetric] now [symmetric])
  let ?s' = "s\<lparr>state := (state s)(this := ns), vruntime := vr', rq := r', node_cnt := node_cnt ?s2, timers := ?tm\<rparr>"
  have "update_this_state cpu ns s = Some ?s'"
    using True P(4) run0(1) w h(1) f(1)
    by (simp add: update_this_state_def timestamp_def get_timestamp_ms_def Let_def th [symmetric])
  moreover have "sched_core ?s' P C Q' (I - {cpu}) \<and> state ?s' (cpu_idle s cpu) = RUNNABLE"
  proof (rule leave_core [OF inv cpu th refl _ f(4)])
    show "rq_ok (s\<lparr>vruntime := vr', rq := r', node_cnt := node_cnt ?s2\<rparr>) C Q'"
      using f(2) by (simp add: rq_ok_def)
  qed (use f(3) h(4) True in auto)
  ultimately show ?thesis using f(3) h(4) True vr'
    by (intro exI [of _ vr'] exI [of _ r'] exI [of _ "node_cnt ?s2"] exI [of _ "Suc (reads (timers s cpu))"] exI [of _ Q'] exI [of _ ?s']) auto
qed

section \<open>Entering the cpu\<close>

lemma enter_core:
  assumes inv: "sched_core s P C Q ({..<4} - {cpu})" and cpu: "cpu < 4" and idle: "state s (cpu_idle s cpu) = RUNNABLE"
    and s': "s' = s\<lparr>rq := r, node_cnt := nc, cpu_proc := (cpu_proc s)(cpu := n), state := (state s)(n := RUNNING)\<rparr>"
    and ok: "rq_ok (s\<lparr>rq := r, node_cnt := nc\<rparr>) C Q'"
    and n: "n = cpu_idle s cpu \<and> Q' = Q \<or>
      n \<in> P \<and> state s n = RUNNABLE \<and> linked s Q' (cont_of s n) \<and> Q' = Q(cont_of s n := remove1 n (Q (cont_of s n)))"
  shows "sched_inv s' P C Q'"
proof -
  note c = core_cpu [OF inv]
  have ok': "rq_ok s' C Q'" using ok by (simp add: s' rq_ok_def)
  have np: "n \<in> P \<Longrightarrow> \<not> group s n \<and> \<not> idle s n \<and> cont_of s n \<in> C" using core_proc [OF inv] by blast
  have other: "n \<noteq> cpu_proc s i \<and> n \<noteq> cpu_idle s i" if "i < 4" "i \<noteq> cpu" for i
  proof -
    have i: "cpu_ok s P Q i" "idle s (cpu_idle s cpu)" "idle s (cpu_idle s i)" using c [of i] c [of cpu] that cpu by auto
    have "cpu_idle s cpu \<noteq> cpu_idle s i" using c that cpu unfolding inj_on_def by (metis lessThan_iff)
    then show ?thesis using n i np core_proc [OF inv, of "cpu_proc s i"] unfolding cpu_ok_def by force
  qed
  have lk: "linked s' Q' d" if "linked s Q d" "d \<in> C" for d
  proof -
    have "group s d" using inv that(2) by (auto simp: sched_core_def wf_tree_def)
    then have "linked s Q' d" using that(1) n np under_remove1 [of s Q "root_container s" d n] unfolding linked_def by auto
    then show ?thesis by (rule linked_cong) (simp_all add: s')
  qed
  have cpus: "i < 4 \<and> cpu_ok s' P Q' i" if "i \<in> {..<4}" for i
  proof (cases "i = cpu")
    case True
    have "linked s' Q' (cont_of s n)" if "n \<in> P"
    proof (rule linked_cong)
      show "linked s Q' (cont_of s n)" using n np [OF that] c [of cpu] cpu by metis
    qed (simp_all add: s')
    moreover have "n \<in> P \<Longrightarrow> n \<noteq> cpu_idle s cpu" using np c [of cpu] cpu by auto
    ultimately show ?thesis using True cpu n idle by (auto simp: cpu_ok_def s')
  next
    case False
    then have "i < 4" "cpu_ok s P Q i" using c [of i] that by auto
    moreover have "cpu_proc s i \<in> P \<Longrightarrow> cont_of s (cpu_proc s i) \<in> C" using core_proc [OF inv] by blast
    ultimately show ?thesis using other [of i] False lk by (auto simp: cpu_ok_def s')
  qed
  have dist: "d \<in> C \<Longrightarrow> distinct (Q d)" for d using core_queue [OF inv, of d] queue_nodes by blast
  have procs: "state s' x = RUNNABLE \<longleftrightarrow> x \<in> set (Q' (cont_of s x))" if "x \<in> P" for x
  proof (cases "x = n")
    case True
    then show ?thesis using n np c [of cpu] cpu that dist by (auto simp: s')
  next
    case False
    then show ?thesis using core_proc [OF inv that] n by (auto simp: s' in_set_remove1 split: if_splits)
  qed
  have sub: "set (Q' d) \<subseteq> set (Q d)" for d using n set_remove1_subset [of n "Q d"] by (auto split: if_splits)
  have inj: "inj_on (cpu_proc s') {..<4}"
    using c [of cpu] other by (auto simp: s' inj_on_def)
  show ?thesis
    unfolding sched_inv_def sched_core_def
  proof (intro conjI)
    show "\<exists>dep. wf_tree s' C dep" using inv by (auto simp: sched_core_def s' wf_tree_def)
    show "\<forall>x \<in> P. x \<noteq> 0 \<and> aligned x \<and> \<not> group s' x \<and> \<not> idle s' x \<and> cont_of s' x \<in> C \<and>
       (state s' x = RUNNABLE \<longleftrightarrow> x \<in> set (Q' (cont_of s' x)))"
      using procs core_proc [OF inv] by (intro ballI) (simp add: s' del: fun_upd_apply)
    show "\<forall>d \<in> C. \<forall>x \<in> set (Q' d). group s' x \<or> x \<in> P" using core_queue [OF inv] sub by (auto simp: s')
    show "rq_ok s' C Q'" by (rule ok')
    show "inj_on (cpu_proc s') {..<4}" by (rule inj)
    show "\<forall>i \<in> {..<4}. i < 4 \<and> cpu_ok s' P Q' i" using cpus by blast
  qed (use c in \<open>simp_all add: s'\<close>)
qed

lemma chosen_under:
  assumes ok: "wf_tree s C dep" "rq_ok s C Q"
  shows "chosen s Q c p \<Longrightarrow> c \<in> C \<Longrightarrow> cont_of s p = c \<or> under s Q c (cont_of s p)"
proof (induction rule: chosen.induct)
  case (proc c p)
  then have "p \<in> set (Q c)" using find_Some_iff by fast
  then show ?case using ok(2) proc by (auto simp: rq_ok_def entry_ok_def)
next
  case (cont c x p)
  then have x: "x \<in> set (Q c)" using find_Some_iff by fast
  then have "x \<in> C" using entry_dep [OF ok cont(5) x cont(2)] by blast
  then show ?case using cont x by (metis under.direct under.deeper)
qed

lemma update_this_proc_ok:
  assumes "clock_ready lim due cpu s" and "reads (timers s cpu) + 2 \<le> lim"
  shows "\<exists>tm ts. update_this_proc cpu p s = Some (s\<lparr>timers := tm, sched_timer_set := ts, cpu_proc := (cpu_proc s)(cpu := p)\<rparr>)"
proof (cases "pid s p \<noteq> 0 \<and> p \<noteq> root_proc s \<and> \<not> sched_timer_set s cpu")
  case True
  let ?t = "sched_timer s cpu" and ?c = "timers s cpu"
  let ?d = "?c\<lparr>elapse := (elapse ?c)(?t := 1)\<rparr>"
  obtain e xs where t: "timers_ok e ?c xs" "?t \<notin> set xs" "?t \<noteq> 0" "aligned ?t" "due + e < 2 ^ 63" and clk: "clock_ok lim due ?c"
    using assms(1) True by (auto simp: clock_ready_def)
  have "timers_ok e ?d xs" using t(1,2) by (auto simp: timers_ok_def)
  moreover have "1 \<le> int e" using t(1) by (simp add: timers_ok_def)
  moreover have "clock_ok lim due ?d" using clock_ok_forward [OF clk, of ?d] by simp
  ultimately obtain c' where "set_cpu_timer ?t ?d = Some c'"
    using set_cpu_timer_ok [of e ?d xs lim due ?t] t assms(2) by auto
  then show ?thesis using True
    by (intro exI [of _ "(timers s)(cpu := c')"] exI [of _ "(sched_timer_set s)(cpu := True)"]) (simp add: update_this_proc_def Let_def)
next
  case False
  then show ?thesis by (intro exI [of _ "timers s"] exI [of _ "sched_timer_set s"]) (auto simp: update_this_proc_def)
qed

section \<open>The scheduler\<close>

text \<open>The part of the scheduler after the current process has given up the cpu.\<close>

lemma switch_ok:
  assumes inv: "sched_core s P C Q ({..<4} - {cpu})" and cpu: "cpu < 4" and idle: "state s (cpu_idle s cpu) = RUNNABLE"
    and clk: "clock_ready lim due cpu s" "reads (timers s cpu) + 2 \<le> lim"
  shows "\<exists>n s1 s2 s' Q'. pick_next cpu s = Some (n, s1) \<and> update_this_proc cpu n s1 = Some s2 \<and> state s2 n = RUNNABLE \<and>
    s' = s2\<lparr>state := (state s2)(n := RUNNING)\<rparr> \<and> sched_inv s' P C Q' \<and> cpu_proc s' cpu = n \<and> state s' = (state s)(n := RUNNING) \<and>
    vruntime s' = vruntime s \<and>
    (if busy s Q (root_container s) then chosen s Q (root_container s) n else n = cpu_idle s cpu)"
proof -
  note c = core_cpu [OF inv, of cpu]
  obtain dep where wf: "wf_tree s C dep" using inv by (auto simp: sched_core_def)
  have ok: "rq_ok s C Q" "\<not> panic_flag s" "\<forall>x. \<not> skip s x" using c by auto
  note pick = pick_next_spec [OF wf ok, of cpu]
  show ?thesis
  proof (cases "busy s Q (root_container s)")
    case False
    let ?n = "cpu_idle s cpu"
    obtain tm ts where u: "update_this_proc cpu ?n s = Some (s\<lparr>timers := tm, sched_timer_set := ts, cpu_proc := (cpu_proc s)(cpu := ?n)\<rparr>)"
      using update_this_proc_ok [OF clk] by blast
    let ?s' = "s\<lparr>timers := tm, sched_timer_set := ts, cpu_proc := (cpu_proc s)(cpu := ?n), state := (state s)(?n := RUNNING)\<rparr>"
    have "sched_inv (s\<lparr>rq := rq s, node_cnt := node_cnt s, cpu_proc := (cpu_proc s)(cpu := ?n), state := (state s)(?n := RUNNING)\<rparr>) P C Q"
      by (rule enter_core [OF inv cpu idle refl]) (use ok in simp_all)
    then have "sched_inv ?s' P C Q"
      unfolding sched_inv_def by (rule same_core_inv [rotated]) (simp add: same_core_def)
    then show ?thesis using pick False u idle
      by (intro exI [of _ ?n] exI [of _ s] exI [of _ "s\<lparr>timers := tm, sched_timer_set := ts, cpu_proc := (cpu_proc s)(cpu := ?n)\<rparr>"] exI [of _ ?s'] exI [of _ Q]) simp
  next
    case True
    then obtain p h where p: "chosen s Q (root_container s) p" "pick_next cpu s = Some (p, taken p h s)"
      "rq_ok (taken p h s) C (Q(cont_of s p := remove1 p (Q (cont_of s p))))" using pick by auto
    let ?Q = "Q(cont_of s p := remove1 p (Q (cont_of s p)))"
    note pc = chosen_cont [OF wf ok(1) p(1)]
    have pP: "p \<in> P" "state s p = RUNNABLE" using core_queue [OF inv, of "cont_of s p"] core_proc [OF inv, of p] pc by auto
    have rC: "root_container s \<in> C" "group s (cont_of s p)" using wf pc by (auto simp: wf_tree_def)
    have lk: "linked s ?Q (cont_of s p)"
      using chosen_under [OF wf ok(1) p(1) rC(1)] under_remove1 [of s Q "root_container s" "cont_of s p" p] rC(2) pc
      unfolding linked_def by auto
    have "clock_ready lim due cpu (taken p h s)" "reads (timers (taken p h s) cpu) + 2 \<le> lim"
      using clk by (simp_all add: clock_ready_def taken_def)
    then obtain tm ts where u: "update_this_proc cpu p (taken p h s) =
        Some ((taken p h s)\<lparr>timers := tm, sched_timer_set := ts, cpu_proc := (cpu_proc (taken p h s))(cpu := p)\<rparr>)"
      using update_this_proc_ok by blast
    define s2 where "s2 = (taken p h s)\<lparr>timers := tm, sched_timer_set := ts, cpu_proc := (cpu_proc (taken p h s))(cpu := p)\<rparr>"
    let ?s' = "s2\<lparr>state := (state s2)(p := RUNNING)\<rparr>"
    have "sched_inv (s\<lparr>rq := rq (taken p h s), node_cnt := node_cnt (taken p h s), cpu_proc := (cpu_proc s)(cpu := p), state := (state s)(p := RUNNING)\<rparr>) P C ?Q"
      by (rule enter_core [OF inv cpu idle refl]) (use p(3) pP lk in \<open>simp_all add: taken_def\<close>)
    then have "sched_inv ?s' P C ?Q"
      unfolding sched_inv_def by (rule same_core_inv [rotated]) (simp add: same_core_def taken_def s2_def)
    moreover have "state s2 p = RUNNABLE" "state ?s' = (state s)(p := RUNNING)" "cpu_proc ?s' cpu = p" "vruntime ?s' = vruntime s"
      using pP by (simp_all add: taken_def s2_def)
    moreover have "update_this_proc cpu p (taken p h s) = Some s2" using u by (simp add: s2_def)
    ultimately show ?thesis unfolding if_P [OF True] using p(1,2) by blast
  qed
qed

lemma simple_sched_ok:
  assumes inv: "sched_inv s P C Q" and cpu: "cpu < 4" and th: "this = cpu_proc s cpu" and ns: "this \<notin> P \<longrightarrow> ns = RUNNABLE"
    and clk: "clock_ready lim due cpu s" "reads (timers s cpu) + 3 \<le> lim" and start: "unat (start_time s this) \<le> ms (timers s cpu) (reads (timers s cpu))"
    and budget: "\<forall>x. unat (vruntime s x) + due < 2 ^ 63"
    and live: "\<not> (killed s this \<and> ns \<noteq> ZOMBIE)"
  shows "\<exists>s' Q1 Q'. simple_sched cpu ns s = Some s' \<and> sched_inv s' P C Q' \<and>
    vruntime s' = (if ns = RUNNABLE \<and> this \<in> P then run_charged cpu s else vruntime s) \<and>
    (\<forall>d \<in> C. sorted_wrt (sched_cmp (vruntime s')) (Q1 d)) \<and>
    (\<forall>d. set (Q1 d) = (if ns = RUNNABLE \<and> this \<in> P \<and> d = cont_of s this then insert this (set (Q d)) else set (Q d))) \<and>
    (if busy s Q1 (root_container s) then chosen s Q1 (root_container s) (cpu_proc s' cpu) else cpu_proc s' cpu = cpu_idle s cpu) \<and>
    state s' = (state s)(this := ns, cpu_proc s' cpu := RUNNING)"
proof -
  have core: "sched_core s P C Q {..<4}" using inv by (simp add: sched_inv_def)
  have run: "state s this = RUNNING" using core_cpu [OF core, of cpu] cpu by (auto simp: th cpu_ok_def)
  let ?now = "ms (timers s cpu) (reads (timers s cpu))"
  have ck: "clock_ok lim due (timers s cpu)" using clk(1) by (simp add: clock_ready_def)
  have "?now \<le> due" using clock_bound [OF ck] clk(2) by simp
  then have bud: "\<forall>x. unat (vruntime s x) + ?now < 2 ^ 63" using budget by (meson add_left_mono le_less_trans)
  obtain vr r nc n Q1 s1 where u: "update_this_state cpu ns s = Some s1"
      "s1 = s\<lparr>state := (state s)(this := ns), vruntime := vr, rq := r, node_cnt := nc, timers := (timers s)(cpu := (timers s cpu)\<lparr>reads := n\<rparr>)\<rparr>"
      "sched_core s1 P C Q1 ({..<4} - {cpu})" "state s1 (cpu_idle s cpu) = RUNNABLE"
      "vr = (if ns = RUNNABLE \<and> this \<in> P then run_charged cpu s else vruntime s)" "reads (timers s cpu) \<le> n" "n \<le> Suc (reads (timers s cpu))"
      "\<forall>d. set (Q1 d) = (if ns = RUNNABLE \<and> this \<in> P \<and> d = cont_of s this then insert this (set (Q d)) else set (Q d))"
  proof -
    have "cpu \<in> {..<4}" using cpu by simp
    then show ?thesis using update_this_state_ok [OF core _ th ns refl start bud] that by blast
  qed
  have n: "n \<le> lim" "reads (timers s1 cpu) + 2 \<le> lim" using u(7) clk(2) by (simp_all add: u(2))
  have "clock_ok lim due (timers s1 cpu)" using clock_ok_forward [OF ck, of "timers s1 cpu"] u(6) by (simp add: u(2))
  then have clk1: "clock_ready lim due cpu s1"
    using clk(1) timers_ok_forward [OF _ ck u(6) n(1)] unfolding clock_ready_def by (auto simp: u(2))
  have id1: "state s1 (cpu_idle s1 cpu) = RUNNABLE" using u(4) by (simp add: u(2))
  obtain m s2 s3 s4 Q' where w: "pick_next cpu s1 = Some (m, s2)" "update_this_proc cpu m s2 = Some s3" "state s3 m = RUNNABLE"
      "s4 = s3\<lparr>state := (state s3)(m := RUNNING)\<rparr>" "sched_inv s4 P C Q'" "cpu_proc s4 cpu = m" "state s4 = (state s1)(m := RUNNING)"
      "if busy s1 Q1 (root_container s1) then chosen s1 Q1 (root_container s1) m else m = cpu_idle s1 cpu" "vruntime s4 = vr"
  proof -
    have "vruntime s1 = vr" by (simp add: u(2))
    then show ?thesis using switch_ok [OF u(3) cpu id1 clk1 n(2)] that by blast
  qed
  have pick: "if busy s Q1 (root_container s) then chosen s Q1 (root_container s) m else m = cpu_idle s cpu"
    using w(8) busy_group [of s1 s Q1] chosen_cong [of s1 Q1 _ m s] by (simp add: u(2) split: if_splits)
  define s5 where "s5 = (if m \<noteq> this then let t = timestamp cpu (attach_pgdir cpu m s4) in (snd t)\<lparr>start_time := (start_time (snd t))(m := fst t)\<rparr> else s4)"
  have "simple_sched cpu ns s = Some s5"
    using run live u(1) w(1-3) unfolding s5_def simple_sched_def th [symmetric]
    by (cases "killed s this") (simp_all add: w(4) [symmetric] Let_def split_def)
  moreover have same: "same_core s4 s5"
    by (auto simp: s5_def same_core_def timestamp_def attach_pgdir_def Let_def split_def)
  then have "sched_inv s5 P C Q'" using w(5) same_core_inv unfolding sched_inv_def by blast
  moreover have "cpu_proc s5 cpu = m" "state s5 = (state s)(this := ns, m := RUNNING)" "vruntime s5 = vr"
    using same w(6,7,9) by (simp_all add: same_core_def u(2))
  moreover have "\<forall>d \<in> C. sorted_wrt (sched_cmp vr) (Q1 d)" using core_queue [OF u(3)] by (simp add: u(2))
  ultimately show ?thesis using pick u(5,8) by (intro exI [of _ s5] exI [of _ Q1] exI [of _ Q']) simp
qed

section \<open>Properties\<close>

definition sample_sched :: sched_state where
  "sample_sched = \<lparr>state = (\<lambda>a. if a \<in> {32, 1032, 1040, 1048} then RUNNING else RUNNABLE), idle = (\<lambda>a. 1024 \<le> a),
     killed = (\<lambda>_. False), pid = (\<lambda>_. 1), cont_of = (\<lambda>_. 64), group = (\<lambda>a. a = 64), start_time = (\<lambda>_. 0), vruntime = (\<lambda>_. 0),
     skip = (\<lambda>_. False), cparent = (\<lambda>_. 0), cid = (\<lambda>_. 4), rq = (\<lambda>_. sample_heap), node_cnt = (\<lambda>_. 3),
     pgdir_pt = (\<lambda>_. 0), online = (\<lambda>_. False), cpu_proc = (\<lambda>i. if i = 0 then 32 else 1024 + 8 * of_nat i),
     cpu_idle = (\<lambda>i. 1024 + 8 * of_nat i), ttbr0 = (\<lambda>_. 0), timers = (\<lambda>_. sample_cpu), sched_timer = (\<lambda>_. 40),
     sched_timer_set = (\<lambda>_. False), root_container = 64, root_proc = 48, invalid_pt = 0, panic_flag = False\<rparr>"

abbreviation sample_queue :: "addr \<Rightarrow> addr list" where
  "sample_queue \<equiv> \<lambda>_. [8, 16, 24]"

lemma less_4: "i < 4 \<longleftrightarrow> i = 0 \<or> i = 1 \<or> i = 2 \<or> i = (3 :: nat)"
  by auto

lemma lessThan_4: "{..<4} = {0, 1, 2, 3 :: nat}"
  by auto

lemma sample_wf: "wf_tree sample_sched {64} (\<lambda>_. 0)"
  by (simp add: wf_tree_def sample_sched_def aligned_def)

lemma sample_rq: "rq_ok sample_sched {64} sample_queue"
proof -
  have "queue_of sample_heap [8, 16, 24]" unfolding queue_of_def using sample_holds by (intro exI [of _ sample_tree]) simp
  then show ?thesis by (simp add: rq_ok_def sample_sched_def sched_cmp_def entry_ok_def)
qed

lemma sample_sched_inv: "sched_inv sample_sched {8, 16, 24, 32} {64} sample_queue"
proof -
  have "cpu_ok sample_sched {8, 16, 24, 32} sample_queue i" if "i < 4" for i
    using that unfolding less_4 by (auto simp: cpu_ok_def sample_sched_def linked_def)
  moreover have "inj_on (cpu_proc sample_sched) {..<4}" "inj_on (cpu_idle sample_sched) {..<4}" "\<forall>i < 4. idle sample_sched (cpu_idle sample_sched i)"
    unfolding lessThan_4 less_4 by (auto simp: inj_on_def sample_sched_def)
  ultimately show ?thesis
    unfolding sched_inv_def sched_core_def using sample_wf sample_rq by (auto simp: sample_sched_def aligned_def)
qed

text \<open>
  (C14) \<^verbatim>\<open>pick_next\<close> always returns. When a process is queued in some container below the root, it
  takes the one that \<open>chosen\<close> specifies (in each queue the entry with the smallest virtual
  run time that is a process or leads to one) out of its queue, keeps every queue well formed,
  and leaves no mark behind; otherwise it gives the idle process and changes nothing.
\<close>

theorem pick_next_correct:
  assumes "wf_tree s C dep" and "rq_ok s C Q" and "\<not> panic_flag s" and "\<forall>x. \<not> skip s x"
  shows "if busy s Q (root_container s)
    then \<exists>p h. chosen s Q (root_container s) p \<and> pick_next cpu s = Some (p, taken p h s) \<and>
      rq_ok (taken p h s) C (Q(cont_of s p := remove1 p (Q (cont_of s p))))
    else pick_next cpu s = Some (cpu_idle s cpu, s)"
  using assms by (rule pick_next_spec)

theorem pick_next_correct_witness:
  "\<exists>p h. pick_next 0 sample_sched = Some (p, taken p h sample_sched) \<and> p = 8"
proof -
  have f: "List.find (\<lambda>x. \<not> group sample_sched x \<or> busy sample_sched sample_queue x) (sample_queue 64) = Some 8"
    by (simp add: sample_sched_def)
  have b: "busy sample_sched sample_queue 64" by (rule busy.here [of 8]) (simp_all add: sample_sched_def)
  have r: "root_container sample_sched = 64" by (simp add: sample_sched_def)
  obtain p h where p: "chosen sample_sched sample_queue 64 p" "pick_next 0 sample_sched = Some (p, taken p h sample_sched)"
    using pick_next_correct [OF sample_wf sample_rq, of 0] b r by (auto simp: sample_sched_def)
  from p(1) have "p = 8" using f by (cases rule: chosen.cases) (auto simp: sample_sched_def)
  then show ?thesis using p(2) by auto
qed

text \<open>
  (C11) \<^verbatim>\<open>simple_sched\<close> keeps the invariant of the scheduler: a process is runnable exactly when it
  is in the run queue of its container, the queues are well formed, no two cpus run the same
  process and each cpu runs a process that is marked as running. No assertion of the scheduler
  fails and it always reaches the switch, while the clock advances without going back. A current
  process that stays runnable is charged, with the containers around it, the time since it was put on
  the cpu. The process that runs next is the one that \<open>chosen\<close> specifies for the queues \<open>Q1\<close>: those
  with the current process put back when it stays runnable, sorted by the charged virtual run
  times, which determines them. The cpu idles only when no process is queued.
\<close>

theorem simple_sched_correct:
  assumes "sched_inv s P C Q" and "cpu < 4" and "cpu_proc s cpu \<notin> P \<longrightarrow> ns = RUNNABLE"
    and "clock_ready lim due cpu s" and "reads (timers s cpu) + 3 \<le> lim"
    and "unat (start_time s (cpu_proc s cpu)) \<le> ms (timers s cpu) (reads (timers s cpu))" and "\<forall>x. unat (vruntime s x) + due < 2 ^ 63"
    and "\<not> (killed s (cpu_proc s cpu) \<and> ns \<noteq> ZOMBIE)"
  shows "\<exists>s' Q1 Q'. simple_sched cpu ns s = Some s' \<and> sched_inv s' P C Q' \<and>
    vruntime s' = (if ns = RUNNABLE \<and> cpu_proc s cpu \<in> P then run_charged cpu s else vruntime s) \<and>
    (\<forall>d \<in> C. sorted_wrt (sched_cmp (vruntime s')) (Q1 d)) \<and>
    (\<forall>d. set (Q1 d) = (if ns = RUNNABLE \<and> cpu_proc s cpu \<in> P \<and> d = cont_of s (cpu_proc s cpu)
       then insert (cpu_proc s cpu) (set (Q d)) else set (Q d))) \<and>
    (if busy s Q1 (root_container s) then chosen s Q1 (root_container s) (cpu_proc s' cpu) else cpu_proc s' cpu = cpu_idle s cpu) \<and>
    state s' = (state s)(cpu_proc s cpu := ns, cpu_proc s' cpu := RUNNING)"
  using simple_sched_ok [OF assms(1,2) refl assms(3-8)] .

lemma sample_clock_ready: "clock_ready 11 16 0 sample_sched"
  unfolding clock_ready_def
proof (intro conjI disjI2 exI)
  show "timers_ok 5000 (timers sample_sched 0) [16, 24]" using sample_cpu_ok by (simp add: sample_sched_def)
  show "clock_ok 11 16 (timers sample_sched 0)" using sample_clock_ok [of 11] by (simp add: sample_sched_def)
qed (simp_all add: sample_sched_def aligned_def)

text \<open>
  Process 32 has run for 16 milliseconds on the first cpu and stays runnable; the process that runs
  next is the first of those that have not run.
\<close>

theorem simple_sched_correct_witness:
  "\<exists>s' Q'. simple_sched 0 RUNNABLE sample_sched = Some s' \<and> sched_inv s' {8, 16, 24, 32} {64} Q' \<and>
    vruntime s' 32 = 16 \<and> cpu_proc s' 0 = 8 \<and> state s' 32 = RUNNABLE \<and> state s' 8 = RUNNING"
proof -
  have e: "cpu_proc sample_sched 0 = 32" "root_container sample_sched = 64" "cont_of sample_sched 32 = 64" "\<And>x. group sample_sched x \<longleftrightarrow> x = 64"
    "timers sample_sched 0 = sample_cpu" by (simp_all add: sample_sched_def)
  have m: "ms sample_cpu (reads sample_cpu) = 16" by (rule sample_cpu_ms) (simp add: sample_cpu_def)
  have "\<exists>s' Q1 Q'. simple_sched 0 RUNNABLE sample_sched = Some s' \<and> sched_inv s' {8, 16, 24, 32} {64} Q' \<and>
    vruntime s' = (if RUNNABLE = RUNNABLE \<and> cpu_proc sample_sched 0 \<in> {8, 16, 24, 32} then run_charged 0 sample_sched else vruntime sample_sched) \<and>
    (\<forall>d \<in> {64}. sorted_wrt (sched_cmp (vruntime s')) (Q1 d)) \<and>
    (\<forall>d. set (Q1 d) = (if RUNNABLE = RUNNABLE \<and> cpu_proc sample_sched 0 \<in> {8, 16, 24, 32} \<and> d = cont_of sample_sched (cpu_proc sample_sched 0)
       then insert (cpu_proc sample_sched 0) (set (sample_queue d)) else set (sample_queue d))) \<and>
    (if busy sample_sched Q1 (root_container sample_sched) then chosen sample_sched Q1 (root_container sample_sched) (cpu_proc s' 0)
     else cpu_proc s' 0 = cpu_idle sample_sched 0) \<and>
    state s' = (state sample_sched)(cpu_proc sample_sched 0 := RUNNABLE, cpu_proc s' 0 := RUNNING)"
  proof (rule simple_sched_correct [OF sample_sched_inv _ _ sample_clock_ready])
    show "unat (start_time sample_sched (cpu_proc sample_sched 0)) \<le> ms (timers sample_sched 0) (reads (timers sample_sched 0))"
      by (simp add: sample_sched_def)
  qed (simp_all add: sample_sched_def sample_cpu_def)
  then obtain s' Q1 Q' where r: "simple_sched 0 RUNNABLE sample_sched = Some s'" "sched_inv s' {8, 16, 24, 32} {64} Q'"
    "vruntime s' = run_charged 0 sample_sched" "sorted_wrt (sched_cmp (vruntime s')) (Q1 64)" "set (Q1 64) = {32, 8, 16, 24}"
    "if busy sample_sched Q1 64 then chosen sample_sched Q1 64 (cpu_proc s' 0) else cpu_proc s' 0 = cpu_idle sample_sched 0"
    "state s' = (state sample_sched)(32 := RUNNABLE, cpu_proc s' 0 := RUNNING)" unfolding e by auto
  have "\<not> enclosing sample_sched 64 x" for x by (subst enclosing_step) (simp add: sample_sched_def)
  then have vr: "vruntime s' = (\<lambda>x. if x = 32 then 16 else 0)"
    unfolding r(3) run_charged_def Let_def e m by (intro ext) (simp add: charged_def sample_sched_def)
  obtain x xs where x: "Q1 64 = x # xs" using r(5) by (cases "Q1 64") auto
  have "x = 8"
  proof (rule ccontr)
    assume "x \<noteq> 8"
    then have "sched_cmp (vruntime s') x 8" "x \<in> {32, 16, 24}" using r(4,5) unfolding x by auto
    then show False by (auto simp: vr sched_cmp_def)
  qed
  have b: "busy sample_sched Q1 64" by (rule busy.here [of 8]) (use r(5) e(4) in simp_all)
  have "List.find (\<lambda>x. \<not> group sample_sched x \<or> busy sample_sched Q1 x) (Q1 64) = Some 8" unfolding x by (simp add: \<open>x = 8\<close> e(4))
  then have "cpu_proc s' 0 = 8" using r(6) b e(4) by (auto elim: chosen.cases)
  then show ?thesis using r(1,2,7) vr by auto
qed

text \<open>
  The part of the handler of the scheduling timer that the clock interrupt relies on: while the process
  on the cpu is not the idle one and its slice is not used up, \<^verbatim>\<open>sched_timer_handler\<close> does to the timers
  of the cpu what \<open>sched_tick\<close> does, and nothing else.
\<close>

lemma sched_timer_handler_stays:
  assumes "\<not> idle s (cpu_proc s cpu)" and "cid s (cont_of s (cpu_proc s cpu)) \<in> {0..4}" and "triggered (timers s cpu) t"
    and "set_cpu_timer (sched_timer s cpu) (timers s cpu) = Some c"
    and "fst (get_timestamp_ms c) - start_time s (cpu_proc s cpu) < SLICE"
  shows "sched_timer_handler cpu t s =
    map_option (\<lambda>c. s\<lparr>timers := (timers s)(cpu := c)\<rparr>) (sched_tick (sched_timer s cpu) t (timers s cpu))"
proof -
  have "nat (cid s (cont_of s (cpu_proc s cpu))) \<in> {0, 1, 2, 3, 4}" using assms(2) by auto
  then have "con_to_weight (cid s (cont_of s (cpu_proc s cpu))) = Some 1" "con_to_limit (cid s (cont_of s (cpu_proc s cpu))) = Some 1"
    using assms(2) by (auto simp: con_to_weight_def con_to_limit_def)
  moreover have "\<not> SLICE \<le> fst (get_timestamp_ms c) - start_time s (cpu_proc s cpu)" using assms(5) by (simp add: not_le)
  ultimately show ?thesis using assms(1,3,4)
    by (simp add: sched_timer_handler_def sched_tick_def timestamp_def get_timestamp_ms_def Let_def)
qed

end
