(* ===== verification/Mem.thy ===== *)
theory Mem
  imports Kernel_Prelude
begin

text \<open>
  \<^verbatim>\<open>src/src/kernel/mem.c\<close>: the page allocator on the lock-free stack of \<^verbatim>\<open>list.c\<close>, and the slab
  allocator. An address is a number; the stack of free pages is a head pointer and the
  \<^verbatim>\<open>next\<close> word of each page. A slab is named by the address of its page and a cache by that of
  its \<^verbatim>\<open>CacheNode\<close>; the three slab lists of a cache are the sequences from their heads on (an
  insertion puts a slab in front, \<^verbatim>\<open>_merge_list(&slab->snode, head)\<close> puts it last). Each function
  runs under \<^verbatim>\<open>mem_lock\<close>. \<open>None\<close> is an access through a null pointer or outside an array.
\<close>

abbreviation PAGE_SIZE :: nat where "PAGE_SIZE \<equiv> 4096"
abbreviation AC_LIMIT :: nat where "AC_LIMIT \<equiv> 10"
abbreviation sizeof_SlabNode :: nat where "sizeof_SlabNode \<equiv> 40"
abbreviation sizeof_CacheNode :: nat where "sizeof_CacheNode \<equiv> 440"

definition PAGE_BASE :: "nat \<Rightarrow> nat" where
  "PAGE_BASE a = a - a mod PAGE_SIZE"

record slab_node =
  colour :: nat
  active :: nat
  owner_cache :: nat
  freelist :: "nat list"

record cache_node =
  num :: nat
  object_size :: nat
  ac_avail :: "nat \<Rightarrow> nat"
  ac_entry :: "nat \<Rightarrow> nat list"
  slabs_partial :: "nat list"
  slabs_full :: "nat list"
  slabs_free :: "nat list"

record mem_state =
  page_head :: nat
  page_next :: "nat \<Rightarrow> nat"
  alloc_page_cnt :: int
  zero_page :: nat
  zero_page_cnt :: int
  slab :: "nat \<Rightarrow> slab_node"
  cache :: "nat \<Rightarrow> cache_node"
  kmem_cache_array :: "nat \<Rightarrow> nat"

section \<open>Pages\<close>

definition add_to_queue :: "nat \<Rightarrow> mem_state \<Rightarrow> mem_state" where
  "add_to_queue node s = s\<lparr>page_next := (page_next s)(node := page_head s), page_head := node\<rparr>"

definition fetch_from_queue :: "mem_state \<Rightarrow> nat \<times> mem_state" where
  "fetch_from_queue s =
     (let node = page_head s in
      if node \<noteq> 0 then (node, s\<lparr>page_head := page_next s node\<rparr>) else (node, s))"

definition fetch_all_from_queue :: "mem_state \<Rightarrow> nat \<times> mem_state" where
  "fetch_all_from_queue s = (page_head s, s\<lparr>page_head := 0\<rparr>)"

text \<open>The pages from \<open>p\<close>, the first page after the kernel image, up to \<open>phystop\<close>.\<close>

function init_pages :: "nat \<Rightarrow> nat \<Rightarrow> mem_state \<Rightarrow> mem_state" where
  "init_pages p phystop s = (if p < phystop then init_pages (p + PAGE_SIZE) phystop (add_to_queue p s) else s)"
  by pat_completeness auto
termination
  by (relation "measure (\<lambda>(p, phystop, s). phystop - p)") auto

declare init_pages.simps [simp del]

definition page2index :: "nat \<Rightarrow> nat \<Rightarrow> nat" where
  "page2index start p = (p - start) div PAGE_SIZE"

definition total_page :: "nat \<Rightarrow> nat \<Rightarrow> nat" where
  "total_page start phystop = (phystop - start) div PAGE_SIZE"

definition left_page_cnt :: "nat \<Rightarrow> nat \<Rightarrow> mem_state \<Rightarrow> int" where
  "left_page_cnt start phystop s = int (total_page start phystop) - alloc_page_cnt s"

definition kalloc_page :: "mem_state \<Rightarrow> nat \<times> mem_state" where
  "kalloc_page s = fetch_from_queue (s\<lparr>alloc_page_cnt := alloc_page_cnt s + 1\<rparr>)"

definition kfree_page :: "nat \<Rightarrow> mem_state \<Rightarrow> mem_state" where
  "kfree_page p s =
     (if p = zero_page s then
        let s = s\<lparr>zero_page_cnt := zero_page_cnt s - 1\<rparr> in
        if zero_page_cnt s = 0 then
          (add_to_queue p (s\<lparr>alloc_page_cnt := alloc_page_cnt s - 1\<rparr>))\<lparr>zero_page := 0\<rparr>
        else s
      else add_to_queue p (s\<lparr>alloc_page_cnt := alloc_page_cnt s - 1\<rparr>))"

definition get_zero_page :: "mem_state \<Rightarrow> nat \<times> mem_state" where
  "get_zero_page s =
     (let s = (if zero_page s = 0 then
          let (p, s) = kalloc_page s
          in s\<lparr>zero_page := p, zero_page_cnt := 0, alloc_page_cnt := alloc_page_cnt s + 1\<rparr>
        else s);
        s = s\<lparr>zero_page_cnt := zero_page_cnt s + 1\<rparr>
      in (zero_page s, s))"

section \<open>Slabs\<close>

definition upd_slab :: "nat \<Rightarrow> (slab_node \<Rightarrow> slab_node) \<Rightarrow> mem_state \<Rightarrow> mem_state" where
  "upd_slab x f s = s\<lparr>slab := (slab s)(x := f (slab s x))\<rparr>"

definition upd_cache :: "nat \<Rightarrow> (cache_node \<Rightarrow> cache_node) \<Rightarrow> mem_state \<Rightarrow> mem_state" where
  "upd_cache c f s = s\<lparr>cache := (cache s)(c := f (cache s c))\<rparr>"

definition init_slab_node :: "nat \<Rightarrow> nat \<Rightarrow> mem_state \<Rightarrow> mem_state" where
  "init_slab_node x obj_num s = upd_slab x (\<lambda>n. n\<lparr>active := 0, colour := 0, freelist := [0..<obj_num]\<rparr>) s"

definition obj_base :: "nat \<Rightarrow> nat" where
  "obj_base obj_num = sizeof_SlabNode + (4 * obj_num div 8 + 1) * 8"

definition alloc_obj :: "nat \<Rightarrow> nat \<Rightarrow> nat \<Rightarrow> mem_state \<Rightarrow> (nat \<times> mem_state) option" where
  "alloc_obj x sz obj_num s =
     (let n = slab s x in
      if active n < length (freelist n) then
        Some (x + obj_base obj_num + colour n + (freelist n ! active n) * sz, upd_slab x (\<lambda>n. n\<lparr>active := active n + 1\<rparr>) s)
      else None)"

definition get_obj_index :: "nat \<Rightarrow> nat \<Rightarrow> nat \<Rightarrow> nat \<Rightarrow> mem_state \<Rightarrow> nat" where
  "get_obj_index x sz obj_num p s = (p - x - obj_base obj_num - colour (slab s x)) div sz"

definition init_cache_node :: "nat \<Rightarrow> nat \<Rightarrow> nat \<Rightarrow> mem_state \<Rightarrow> mem_state" where
  "init_cache_node sz c n s =
     s\<lparr>cache := (cache s)(c := \<lparr>num = n, object_size = sz, ac_avail = (\<lambda>_. 0), ac_entry = (\<lambda>_. replicate AC_LIMIT 0),
         slabs_partial = [], slabs_full = [], slabs_free = []\<rparr>)\<rparr>"

definition detach_slab :: "nat \<Rightarrow> cache_node \<Rightarrow> cache_node" where
  "detach_slab x n = n\<lparr>slabs_partial := remove1 x (slabs_partial n), slabs_full := remove1 x (slabs_full n),
     slabs_free := remove1 x (slabs_free n)\<rparr>"

text \<open>The allocation from the partial slab \<open>x\<close>, which becomes a full one with its last object.\<close>

definition alloc_partial :: "nat \<Rightarrow> nat \<Rightarrow> nat \<Rightarrow> mem_state \<Rightarrow> (nat \<times> mem_state) option" where
  "alloc_partial x c sz s = do {
     (ret, s) \<leftarrow> alloc_obj x sz (num (cache s c)) s;
     Some (ret, if active (slab s x) \<ge> num (cache s c)
       then upd_cache c (\<lambda>n. let n = detach_slab x n in n\<lparr>slabs_full := slabs_full n @ [x]\<rparr>) s else s) }"

definition alloc_free :: "nat \<Rightarrow> nat \<Rightarrow> nat \<Rightarrow> mem_state \<Rightarrow> (nat \<times> mem_state) option" where
  "alloc_free x c sz s = do {
     (ret, s) \<leftarrow> alloc_obj x sz (num (cache s c)) s;
     Some (ret, upd_cache c (\<lambda>n. let n = detach_slab x n in
       if active (slab s x) \<ge> num n then n\<lparr>slabs_full := slabs_full n @ [x]\<rparr>
       else n\<lparr>slabs_partial := slabs_partial n @ [x]\<rparr>) s) }"

text \<open>A slab on the new page \<open>x\<close> for the cache \<open>c\<close>.\<close>

definition new_slab :: "nat \<Rightarrow> nat \<Rightarrow> mem_state \<Rightarrow> mem_state" where
  "new_slab x c s =
     upd_cache c (\<lambda>n. n\<lparr>slabs_partial := x # slabs_partial n\<rparr>)
       (upd_slab x (\<lambda>n. n\<lparr>owner_cache := c\<rparr>) (init_slab_node x (num (cache s c)) s))"

definition kalloc :: "nat \<Rightarrow> nat \<Rightarrow> mem_state \<Rightarrow> (nat \<times> mem_state) option" where
  "kalloc cpu sz s =
     (if sz \<ge> 2048 then None
      else let c = kmem_cache_array s sz in
      if c = 0 then
        let (x, s) = kalloc_page s in
        if x = 0 then None
        else
          let c = PAGE_BASE x + PAGE_SIZE - sizeof_CacheNode;
              s = s\<lparr>kmem_cache_array := (kmem_cache_array s)(sz := c)\<rparr>;
              n = (PAGE_SIZE - sizeof_SlabNode - 8 - sizeof_CacheNode) div (sz + 4);
              s = init_cache_node sz c n s
          in alloc_partial x c sz (new_slab x c s)
      else if ac_avail (cache s c) cpu > 0 then
        let i = ac_avail (cache s c) cpu - 1 in
        if i < length (ac_entry (cache s c) cpu) then
          Some (ac_entry (cache s c) cpu ! i, upd_cache c (\<lambda>n. n\<lparr>ac_avail := (ac_avail n)(cpu := i)\<rparr>) s)
        else None
      else if slabs_partial (cache s c) \<noteq> [] then alloc_partial (hd (slabs_partial (cache s c))) c sz s
      else if slabs_free (cache s c) \<noteq> [] then alloc_free (hd (slabs_free (cache s c))) c sz s
      else
        let (x, s) = kalloc_page s in
        if x = 0 then None else alloc_partial x c sz (new_slab x c s))"

text \<open>The last object of the array goes back to its slab.\<close>

definition cache_flusharray :: "nat \<Rightarrow> nat \<Rightarrow> mem_state \<Rightarrow> mem_state option" where
  "cache_flusharray cpu c s =
     (let i = ac_avail (cache s c) cpu - 1;
          p = ac_entry (cache s c) cpu ! i;
          s = upd_cache c (\<lambda>n. n\<lparr>ac_avail := (ac_avail n)(cpu := i)\<rparr>) s;
          x = PAGE_BASE p;
          idx = get_obj_index x (object_size (cache s c)) (num (cache s c)) p s
      in if active (slab s x) = 0 \<or> length (freelist (slab s x)) < active (slab s x) then None
         else
           let s = upd_slab x (\<lambda>n. n\<lparr>active := active n - 1, freelist := (freelist n)[active n - 1 := idx]\<rparr>) s;
               s = upd_cache c (detach_slab x) s
           in Some (if active (slab s x) = num (cache s c) - 1 then upd_cache c (\<lambda>n. n\<lparr>slabs_partial := x # slabs_partial n\<rparr>) s
             else if active (slab s x) = 0 then upd_cache c (\<lambda>n. n\<lparr>slabs_free := x # slabs_free n\<rparr>) s
             else s))"

definition kfree :: "nat \<Rightarrow> nat \<Rightarrow> mem_state \<Rightarrow> mem_state option" where
  "kfree cpu p s =
     (let c = owner_cache (slab s (PAGE_BASE p)) in do {
        s \<leftarrow> (if ac_avail (cache s c) cpu = AC_LIMIT then cache_flusharray cpu c s else Some s);
        let i = ac_avail (cache s c) cpu;
        if i < AC_LIMIT then do {
          let s = upd_cache c (\<lambda>n. n\<lparr>ac_entry := (ac_entry n)(cpu := (ac_entry n cpu)[i := p]), ac_avail := (ac_avail n)(cpu := i + 1)\<rparr>) s;
          if ac_avail (cache s c) cpu = 0 \<and> slabs_full (cache s c) = [] \<and> slabs_partial (cache s c) = []
          then Some (kfree_page (PAGE_BASE p) s) else Some s }
        else None })"

end
