(* ===== verification/Mem_Proofs.thy ===== *)
theory Mem_Proofs
  imports Mem "HOL-Library.Multiset"
begin

text \<open>
  The memory allocator hands out disjoint objects. The invariant follows every object: it is
  free in its slab, kept in the array of a cpu, or in use.
\<close>

section \<open>The invariant\<close>

fun chain :: "nat \<Rightarrow> (nat \<Rightarrow> nat) \<Rightarrow> nat list \<Rightarrow> bool" where
  "chain h f [] \<longleftrightarrow> h = 0"
| "chain h f (p # ps) \<longleftrightarrow> h = p \<and> p \<noteq> 0 \<and> chain (f p) f ps"

definition osize :: "mem_state \<Rightarrow> nat \<Rightarrow> nat" where
  "osize s x = object_size (cache s (owner_cache (slab s x)))"

definition onum :: "mem_state \<Rightarrow> nat \<Rightarrow> nat" where
  "onum s x = num (cache s (owner_cache (slab s x)))"

definition obj :: "mem_state \<Rightarrow> nat \<Rightarrow> nat \<Rightarrow> nat" where
  "obj s x i = x + obj_base (onum s x) + i * osize s x"

definition free_idx :: "mem_state \<Rightarrow> nat \<Rightarrow> nat set" where
  "free_idx s x = set (drop (active (slab s x)) (freelist (slab s x)))"

definition taken :: "mem_state \<Rightarrow> nat \<Rightarrow> nat set" where
  "taken s x = obj s x ` ({..<onum s x} - free_idx s x)"

definition cached :: "mem_state \<Rightarrow> nat \<Rightarrow> nat list" where
  "cached s c = concat (map (\<lambda>i. take (ac_avail (cache s c) i) (ac_entry (cache s c) i)) [0..<4])"

definition cache_ok :: "mem_state \<Rightarrow> nat set \<Rightarrow> nat \<Rightarrow> bool" where
  "cache_ok s B c \<longleftrightarrow> (\<exists>y \<in> B. c = y + 3656) \<and> 0 < object_size (cache s c) \<and> object_size (cache s c) < 2048 \<and>
     num (cache s c) = 3608 div (object_size (cache s c) + 4) \<and> kmem_cache_array s (object_size (cache s c)) = c \<and>
     (\<forall>i. ac_avail (cache s c) i \<le> AC_LIMIT \<and> length (ac_entry (cache s c) i) = AC_LIMIT)"

definition slab_ok :: "mem_state \<Rightarrow> nat set \<Rightarrow> nat \<Rightarrow> bool" where
  "slab_ok s K x \<longleftrightarrow> PAGE_SIZE dvd x \<and> x \<noteq> 0 \<and> colour (slab s x) = 0 \<and> owner_cache (slab s x) \<in> K \<and>
     active (slab s x) \<le> onum s x \<and> length (freelist (slab s x)) = onum s x \<and>
     distinct (drop (active (slab s x)) (freelist (slab s x))) \<and> free_idx s x \<subseteq> {..<onum s x}"

definition objects_ok :: "mem_state \<Rightarrow> nat set \<Rightarrow> nat set \<Rightarrow> nat set \<Rightarrow> bool" where
  "objects_ok s B K L \<longleftrightarrow> (\<forall>c \<in> K. distinct (cached s c) \<and> set (cached s c) \<subseteq> (\<Union>x \<in> {x \<in> B. owner_cache (slab s x) = c}. taken s x)) \<and>
     L = (\<Union>x \<in> B. taken s x) - (\<Union>c \<in> K. set (cached s c))"

definition base_ok :: "mem_state \<Rightarrow> nat list \<Rightarrow> nat set \<Rightarrow> nat set \<Rightarrow> nat set \<Rightarrow> bool" where
  "base_ok s ps B K L \<longleftrightarrow> chain (page_head s) (page_next s) ps \<and> distinct ps \<and> set ps \<inter> B = {} \<and> (\<forall>p \<in> set ps. PAGE_SIZE dvd p) \<and>
     (\<forall>x \<in> B. slab_ok s K x) \<and> (\<forall>c \<in> K. cache_ok s B c) \<and>
     (\<forall>z < 2048. kmem_cache_array s z \<noteq> 0 \<longrightarrow> kmem_cache_array s z \<in> K \<and> object_size (cache s (kmem_cache_array s z)) = z) \<and>
     objects_ok s B K L"

definition lists_ok :: "mem_state \<Rightarrow> nat set \<Rightarrow> nat \<Rightarrow> bool" where
  "lists_ok s B c \<longleftrightarrow> distinct (slabs_partial (cache s c) @ slabs_full (cache s c) @ slabs_free (cache s c)) \<and>
     (\<forall>x \<in> set (slabs_partial (cache s c) @ slabs_full (cache s c) @ slabs_free (cache s c)). x \<in> B \<and> owner_cache (slab s x) = c) \<and>
     (\<forall>x \<in> set (slabs_partial (cache s c) @ slabs_free (cache s c)). active (slab s x) < num (cache s c))"

text \<open>\<open>ps\<close> are the free pages, \<open>B\<close> the slabs, \<open>K\<close> the caches and \<open>L\<close> the objects in use.\<close>

definition mem_inv :: "mem_state \<Rightarrow> nat list \<Rightarrow> nat set \<Rightarrow> nat set \<Rightarrow> nat set \<Rightarrow> bool" where
  "mem_inv s ps B K L \<longleftrightarrow> base_ok s ps B K L \<and> (\<forall>c \<in> K. lists_ok s B c)"

section \<open>Objects in their pages\<close>

lemma num_pos: "0 < z \<Longrightarrow> z < 2048 \<Longrightarrow> 0 < (3608 :: nat) div (z + 4)"
  by (simp add: div_greater_zero_iff)

lemma fits_page:
  fixes i n z :: nat
  assumes "i < n" and "n = 3608 div (z + 4)"
  shows "obj_base n + i * z + z \<le> 3656 \<and> 48 \<le> obj_base n"
proof -
  have "n * (z + 4) \<le> 3608" using assms(2) by simp
  moreover have "Suc i * z \<le> n * z" using assms(1) by (intro mult_le_mono1) simp
  ultimately have "i * z + z + 4 * n \<le> 3608" by (simp add: algebra_simps)
  moreover have "(4 * n div 8 + 1) * 8 \<le> 4 * n + 8" by simp
  ultimately show ?thesis by (simp add: obj_base_def)
qed

lemma page_base_offset: "PAGE_SIZE dvd x \<Longrightarrow> d < PAGE_SIZE \<Longrightarrow> PAGE_BASE (x + d) = x"
  by (auto simp: PAGE_BASE_def elim!: dvdE)

lemma obj_bounds:
  assumes "base_ok s ps B K L" and "x \<in> B" and "i < onum s x"
  shows "x + 48 \<le> obj s x i \<and> obj s x i + osize s x \<le> x + 3656 \<and> 0 < osize s x \<and> PAGE_BASE (obj s x i) = x"
proof -
  have x: "PAGE_SIZE dvd x" "owner_cache (slab s x) \<in> K" using assms(1,2) by (auto simp: base_ok_def slab_ok_def)
  then have c: "0 < osize s x" "onum s x = 3608 div (osize s x + 4)"
    using assms(1) by (auto simp: base_ok_def cache_ok_def osize_def onum_def)
  note f = fits_page [OF assms(3) c(2)]
  have "obj_base (onum s x) + i * osize s x < PAGE_SIZE" using f c(1) by linarith
  then have "PAGE_BASE (x + (obj_base (onum s x) + i * osize s x)) = x" by (rule page_base_offset [OF x(1)])
  then show ?thesis using f c(1) by (simp add: obj_def add.assoc)
qed

lemma obj_inj:
  assumes "base_ok s ps B K L" and "x \<in> B" and "y \<in> B" and "i < onum s x" and "j < onum s y" and "obj s x i = obj s y j"
  shows "x = y \<and> i = j"
proof -
  have "x = y" using obj_bounds [OF assms(1,2,4)] obj_bounds [OF assms(1,3,5)] assms(6) by metis
  moreover from this have "i * osize s x = j * osize s x" using assms(6) by (simp add: obj_def)
  ultimately show ?thesis using obj_bounds [OF assms(1,2,4)] by simp
qed

lemma taken_page: "base_ok s ps B K L \<Longrightarrow> x \<in> B \<Longrightarrow> p \<in> taken s x \<Longrightarrow> PAGE_BASE p = x"
  using obj_bounds by (auto simp: taken_def)

lemma objects_cached:
  assumes "objects_ok s B K L" and "c \<in> K" and "p \<in> set (cached s c)"
  shows "\<exists>x \<in> B. owner_cache (slab s x) = c \<and> p \<in> taken s x"
proof -
  have "set (cached s c) \<subseteq> (\<Union>x \<in> {x \<in> B. owner_cache (slab s x) = c}. taken s x)" using assms(1,2) by (simp add: objects_ok_def)
  then show ?thesis using assms(3) by auto
qed

section \<open>What an update leaves\<close>

lemma upd_fields [simp]:
  "slab (upd_slab x f s) = (slab s)(x := f (slab s x))" "cache (upd_slab x f s) = cache s" "page_head (upd_slab x f s) = page_head s"
  "page_next (upd_slab x f s) = page_next s" "kmem_cache_array (upd_slab x f s) = kmem_cache_array s"
  "cache (upd_cache c g s) = (cache s)(c := g (cache s c))" "slab (upd_cache c g s) = slab s" "page_head (upd_cache c g s) = page_head s"
  "page_next (upd_cache c g s) = page_next s" "kmem_cache_array (upd_cache c g s) = kmem_cache_array s"
  by (simp_all add: upd_slab_def upd_cache_def)

text \<open>The lists of a cache do not matter for the objects.\<close>

lemma base_lists:
  assumes "\<And>n. num (g n) = num n \<and> object_size (g n) = object_size n \<and> ac_avail (g n) = ac_avail n \<and> ac_entry (g n) = ac_entry n"
  shows "base_ok (upd_cache c g s) ps B K L = base_ok s ps B K L"
proof -
  let ?s = "upd_cache c g s"
  have f: "num (cache ?s d) = num (cache s d)" "object_size (cache ?s d) = object_size (cache s d)"
      "ac_avail (cache ?s d) = ac_avail (cache s d)" "ac_entry (cache ?s d) = ac_entry (cache s d)" for d using assms by auto
  have d: "onum ?s = onum s" "osize ?s = osize s" "cached ?s = cached s" "free_idx ?s = free_idx s"
    by (simp_all add: fun_eq_iff onum_def osize_def cached_def free_idx_def f del: upd_fields(6))
  then have "obj ?s = obj s" "taken ?s = taken s" by (simp_all add: fun_eq_iff obj_def taken_def)
  then show ?thesis
    unfolding base_ok_def slab_ok_def cache_ok_def objects_ok_def f d by simp
qed

section \<open>Taking an object from a slab\<close>

lemma alloc_obj_ok:
  assumes b: "base_ok s ps B K L" and x: "x \<in> B" "active (slab s x) < onum s x"
    and s': "s' = upd_slab x (\<lambda>n. n\<lparr>active := active n + 1\<rparr>) s"
  shows "\<exists>p. alloc_obj x (osize s x) (onum s x) s = Some (p, s') \<and> p \<notin> L \<and> PAGE_BASE p = x \<and> base_ok s' ps B K (insert p L)"
proof -
  let ?a = "active (slab s x)" and ?f = "freelist (slab s x)"
  let ?i = "?f ! ?a" and ?p = "obj s x (freelist (slab s x) ! active (slab s x))"
  have sx: "slab_ok s K x" using b x(1) by (simp add: base_ok_def)
  have len: "?a < length ?f" "colour (slab s x) = 0" using sx x(2) by (auto simp: slab_ok_def)
  have dr: "drop ?a ?f = ?i # drop (Suc ?a) ?f" using len(1) by (simp add: Cons_nth_drop_Suc)
  have i: "?i < onum s x" "?i \<notin> set (drop (Suc ?a) ?f)" "distinct (drop (Suc ?a) ?f)" "set (drop (Suc ?a) ?f) \<subseteq> {..<onum s x}"
    using sx by (auto simp: slab_ok_def free_idx_def dr)
  have d: "onum s' = onum s" "osize s' = osize s" "cached s' = cached s"
    by (simp_all add: fun_eq_iff s' onum_def osize_def cached_def)
  then have o: "obj s' = obj s" by (simp add: fun_eq_iff obj_def)
  have fr: "free_idx s' y = (if y = x then set (drop (Suc ?a) ?f) else free_idx s y)" for y by (simp add: free_idx_def s')
  have own: "owner_cache (slab s' y) = owner_cache (slab s y)" for y by (simp add: s')
  have tx: "taken s' x = insert ?p (taken s x)"
  proof -
    have "{..<onum s x} - set (drop (Suc ?a) ?f) = insert ?i ({..<onum s x} - free_idx s x)"
      using i by (auto simp: free_idx_def dr)
    then show ?thesis by (simp add: taken_def d o fr)
  qed
  have ty: "taken s' y = taken s y" if "y \<noteq> x" for y using that by (simp add: taken_def d o fr)
  have new: "?p \<notin> taken s y" if "y \<in> B" for y
  proof
    assume "?p \<in> taken s y"
    then obtain j where j: "?p = obj s y j" "j < onum s y" "j \<notin> free_idx s y" by (auto simp: taken_def)
    then show False using obj_inj [OF b x(1) that i(1)] dr by (auto simp: free_idx_def)
  qed
  have tall: "taken s' = (taken s)(x := insert ?p (taken s x))" using tx ty by (auto simp: fun_eq_iff)
  have un: "(\<Union>y \<in> B. taken s' y) = insert ?p (\<Union>y \<in> B. taken s y)" using x(1) by (auto simp: tall split: if_splits)
  have ob: "objects_ok s B K L" using b by (simp add: base_ok_def)
  have nc: "?p \<notin> set (cached s c)" if "c \<in> K" for c 
    using new objects_cached [OF ob that] by blast
  have ob': "objects_ok s' B K (insert ?p L)"
    unfolding objects_ok_def d un
  proof (intro conjI ballI)
    fix c assume "c \<in> K"
    then have c: "distinct (cached s c)" "set (cached s c) \<subseteq> (\<Union>x \<in> {x \<in> B. owner_cache (slab s x) = c}. taken s x)"
      using ob by (auto simp: objects_ok_def)
    have "taken s y \<subseteq> taken s' y" for y using tx ty by (cases "y = x") auto
    then have mono: "(\<Union>x \<in> {x \<in> B. owner_cache (slab s x) = c}. taken s x) \<subseteq> (\<Union>x \<in> {x \<in> B. owner_cache (slab s x) = c}. taken s' x)"
      by (intro UN_mono subset_refl)
    show "distinct (cached s c)" by (rule c(1))
    show "set (cached s c) \<subseteq> (\<Union>x \<in> {x \<in> B. owner_cache (slab s' x) = c}. taken s' x)"
      unfolding own by (rule subset_trans [OF c(2) mono])
  qed (use ob nc in \<open>auto simp: objects_ok_def\<close>)
  have sl: "slab_ok s' K y" if "y \<in> B" for y
  proof -
    have "slab_ok s K y" using b that by (simp add: base_ok_def)
    then show ?thesis using i x(2) unfolding slab_ok_def d fr own by (auto simp: s')
  qed
  have "base_ok s' ps B K (insert ?p L)"
    using b sl ob' unfolding base_ok_def cache_ok_def by (simp add: s')
  moreover have "alloc_obj x (osize s x) (onum s x) s = Some (?p, s')"
    using len by (simp add: alloc_obj_def Let_def obj_def s')
  moreover have "?p \<notin> L" using ob new by (auto simp: objects_ok_def)
  moreover have "PAGE_BASE ?p = x" using obj_bounds [OF b x(1) i(1)] by simp
  ultimately show ?thesis by blast
qed

section \<open>New pages\<close>

lemma kalloc_page_ok:
  assumes "base_ok s (x # ps) B K L"
  shows "\<exists>s'. kalloc_page s = (x, s') \<and> base_ok s' ps B K L \<and> x \<notin> B \<and> x \<noteq> 0 \<and> PAGE_SIZE dvd x \<and> x \<notin> set ps \<and>
    slab s' = slab s \<and> cache s' = cache s \<and> kmem_cache_array s' = kmem_cache_array s"
proof -
  let ?s = "s\<lparr>alloc_page_cnt := alloc_page_cnt s + 1, page_head := page_next s x\<rparr>"
  have h: "page_head s = x" "x \<noteq> 0" "chain (page_next s x) (page_next s) ps" "x \<notin> B" "PAGE_SIZE dvd x" "x \<notin> set ps"
    using assms by (auto simp: base_ok_def)
  have d: "onum ?s = onum s" "osize ?s = osize s" "cached ?s = cached s" "free_idx ?s = free_idx s"
    by (simp_all add: fun_eq_iff onum_def osize_def cached_def free_idx_def)
  have e: "obj ?s = obj s" using d by (simp add: fun_eq_iff obj_def)
  have e: "taken ?s = taken s" using d e by (simp add: fun_eq_iff taken_def)
  have "base_ok ?s ps B K L"
    using assms h unfolding base_ok_def slab_ok_def cache_ok_def objects_ok_def d e by auto
  moreover have "kalloc_page s = (x, ?s)" using h by (simp add: kalloc_page_def fetch_from_queue_def Let_def)
  ultimately show ?thesis using h by (intro exI [of _ ?s]) simp
qed

lemma kalloc_page_empty: "base_ok s [] B K L \<Longrightarrow> fst (kalloc_page s) = 0"
  by (simp add: base_ok_def kalloc_page_def fetch_from_queue_def Let_def)

lemma new_slab_ok:
  assumes b: "base_ok s ps B K L" and x: "x \<notin> B" "x \<noteq> 0" "PAGE_SIZE dvd x" "x \<notin> set ps" and c: "c \<in> K"
    and s': "s' = upd_slab x (\<lambda>n. n\<lparr>owner_cache := c\<rparr>) (init_slab_node x (num (cache s c)) s)"
  shows "base_ok s' ps (insert x B) K L \<and> active (slab s' x) = 0 \<and> owner_cache (slab s' x) = c"
proof -
  have sl: "slab s' y = slab s y" if "y \<noteq> x" for y using that by (simp add: s' init_slab_node_def)
  have X: "active (slab s' x) = 0" "owner_cache (slab s' x) = c" "colour (slab s' x) = 0" "freelist (slab s' x) = [0..<num (cache s c)]"
    by (simp_all add: s' init_slab_node_def)
  have ch: "cache s' = cache s" "cached s' = cached s" by (simp_all add: s' init_slab_node_def cached_def fun_eq_iff)
  have d: "onum s' y = onum s y" "osize s' y = osize s y" "free_idx s' y = free_idx s y" if "y \<noteq> x" for y
    using sl [OF that] by (simp_all add: onum_def osize_def free_idx_def ch)
  then have t: "taken s' y = taken s y" if "y \<noteq> x" for y using that by (simp add: taken_def obj_def cong: image_cong)
  have tx: "taken s' x = {}" using X by (auto simp: taken_def free_idx_def onum_def ch)
  have ok: "slab_ok s' K y" if "y \<in> insert x B" for y
  proof (cases "y = x")
    case True
    then show ?thesis using x c X by (auto simp: slab_ok_def onum_def free_idx_def ch)
  next
    case False
    then have "slab_ok s K y" using b that by (simp add: base_ok_def)
    then show ?thesis using d [OF False] sl [OF False] by (simp add: slab_ok_def)
  qed
  have tall: "taken s' = (taken s)(x := {})" using tx t by (auto simp: fun_eq_iff)
  have un: "(\<Union>y \<in> insert x B. taken s' y) = (\<Union>y \<in> B. taken s y)" using x(1) by (auto simp: tall split: if_splits)
  have "(\<Union>y \<in> {y \<in> B. owner_cache (slab s y) = k}. taken s y) \<subseteq> (\<Union>y \<in> {y \<in> insert x B. owner_cache (slab s' y) = k}. taken s' y)" for k
  proof
    fix q assume "q \<in> (\<Union>y \<in> {y \<in> B. owner_cache (slab s y) = k}. taken s y)"
    then obtain y where y: "y \<in> B" "owner_cache (slab s y) = k" "q \<in> taken s y" by auto
    moreover have "y \<noteq> x" using y(1) x(1) by auto
    ultimately show "q \<in> (\<Union>y \<in> {y \<in> insert x B. owner_cache (slab s' y) = k}. taken s' y)"
      using t [of y] sl [of y] by (intro UN_I [of y]) auto
  qed
  note sub = this
  have "objects_ok s B K L" using b by (simp add: base_ok_def)
  then have ob: "objects_ok s' (insert x B) K L"
    unfolding objects_ok_def un ch using sub by (meson subset_trans)
  have "cache_ok s' (insert x B) k" if "k \<in> K" for k
    using b that unfolding base_ok_def cache_ok_def ch by (auto simp: s' init_slab_node_def)
  then have "base_ok s' ps (insert x B) K L"
    using b ok ob x(4) unfolding base_ok_def by (simp add: ch) (simp add: s' init_slab_node_def)
  then show ?thesis using X by simp
qed

lemma new_cache_ok:
  assumes b: "base_ok s ps B K L" and x: "x \<notin> B" "x \<noteq> 0" "PAGE_SIZE dvd x" "x \<notin> set ps" and c: "c = x + 3656"
    and z: "0 < z" "z < 2048" "kmem_cache_array s z = 0" and n: "n = 3608 div (z + 4)"
    and s1: "s1 = init_cache_node z c n (s\<lparr>kmem_cache_array := (kmem_cache_array s)(z := c)\<rparr>)"
    and s': "s' = upd_slab x (\<lambda>n. n\<lparr>owner_cache := c\<rparr>) (init_slab_node x n s1)"
  shows "base_ok s' ps (insert x B) (insert c K) L \<and> active (slab s' x) = 0 \<and> owner_cache (slab s' x) = c \<and> c \<notin> K"
proof -
  have cK: "c \<notin> K" using b x(1) unfolding base_ok_def cache_ok_def c by auto
  have sl: "slab s' y = slab s y" if "y \<noteq> x" for y using that by (simp add: s' s1 init_slab_node_def init_cache_node_def)
  have X: "active (slab s' x) = 0" "owner_cache (slab s' x) = c" "colour (slab s' x) = 0" "freelist (slab s' x) = [0..<n]"
    by (simp_all add: s' s1 init_slab_node_def)
  have C: "cache s' c = \<lparr>num = n, object_size = z, ac_avail = (\<lambda>_. 0), ac_entry = (\<lambda>_. replicate AC_LIMIT 0),
      slabs_partial = [], slabs_full = [], slabs_free = []\<rparr>" and ch: "cache s' k = cache s k" if "k \<noteq> c" for k
    using that by (simp_all add: s' s1 init_slab_node_def init_cache_node_def)
  have C: "num (cache s' c) = n" "object_size (cache s' c) = z" "cached s' c = []"
      "\<forall>i. ac_avail (cache s' c) i \<le> AC_LIMIT \<and> length (ac_entry (cache s' c) i) = AC_LIMIT"
    by (simp_all add: s' s1 init_slab_node_def init_cache_node_def cached_def)
  have "k \<noteq> c" if "k \<in> K" for k using that cK by auto
  then have chd: "cached s' k = cached s k" if "k \<in> K" for k using that ch [of k] by (simp add: cached_def)
  have own: "owner_cache (slab s y) \<in> K" if "y \<in> B" for y using b that by (simp add: base_ok_def slab_ok_def)
  have d: "onum s' y = onum s y \<and> osize s' y = osize s y \<and> free_idx s' y = free_idx s y \<and> taken s' y = taken s y" if "y \<in> B" for y
  proof -
    have e: "y \<noteq> x" "owner_cache (slab s y) \<noteq> c" using that x(1) own [OF that] cK by auto
    then have "onum s' y = onum s y" "osize s' y = osize s y" "free_idx s' y = free_idx s y"
      using sl [OF e(1)] ch [OF e(2)] by (simp_all add: onum_def osize_def free_idx_def)
    then show ?thesis by (simp add: taken_def obj_def cong: image_cong)
  qed
  have tx: "taken s' x = {}" using X C by (auto simp: taken_def free_idx_def onum_def)
  have un: "(\<Union>y \<in> insert x B. taken s' y) = (\<Union>y \<in> B. taken s y)" using tx d by auto
  have sub: "(\<Union>y \<in> {y \<in> B. owner_cache (slab s y) = k}. taken s y) \<subseteq> (\<Union>y \<in> {y \<in> insert x B. owner_cache (slab s' y) = k}. taken s' y)" for k
  proof
    fix q assume "q \<in> (\<Union>y \<in> {y \<in> B. owner_cache (slab s y) = k}. taken s y)"
    then obtain y where y: "y \<in> B" "owner_cache (slab s y) = k" "q \<in> taken s y" by auto
    moreover have "y \<noteq> x" using y(1) x(1) by auto
    ultimately show "q \<in> (\<Union>y \<in> {y \<in> insert x B. owner_cache (slab s' y) = k}. taken s' y)"
      using d [of y] sl [of y] by (intro UN_I [of y]) auto
  qed
  have ob: "objects_ok s B K L" using b by (simp add: base_ok_def)
  have cun: "(\<Union>k \<in> insert c K. set (cached s' k)) = (\<Union>k \<in> K. set (cached s k))" using chd C(3) by auto
  have ob': "objects_ok s' (insert x B) (insert c K) L"
    unfolding objects_ok_def un cun
  proof (intro conjI ballI)
    fix k assume k: "k \<in> insert c K"
    show "distinct (cached s' k)" using k C(3) chd ob by (auto simp: objects_ok_def)
    show "set (cached s' k) \<subseteq> (\<Union>y \<in> {y \<in> insert x B. owner_cache (slab s' y) = k}. taken s' y)"
    proof (cases "k \<in> K")
      case True
      then have "set (cached s k) \<subseteq> (\<Union>x \<in> {x \<in> B. owner_cache (slab s x) = k}. taken s x)" using ob by (simp add: objects_ok_def)
      then show ?thesis unfolding chd [OF True] by (rule subset_trans [OF _ sub])
    qed (use k C(3) in simp)
  qed (use ob in \<open>simp add: objects_ok_def\<close>)
  have slok: "slab_ok s' (insert c K) y" if "y \<in> insert x B" for y
  proof (cases "y = x")
    case True
    then show ?thesis using x X C by (auto simp: slab_ok_def onum_def free_idx_def)
  next
    case False
    then have "y \<in> B" "slab_ok s K y" using b that by (auto simp: base_ok_def)
    then show ?thesis using d [of y] sl [OF False] by (simp add: slab_ok_def)
  qed
  have km: "kmem_cache_array s' = (kmem_cache_array s)(z := c)" by (simp add: s' s1 init_slab_node_def init_cache_node_def)
  have caok: "cache_ok s' (insert x B) k" if "k \<in> insert c K" for k
  proof (cases "k = c")
    case True
    then show ?thesis using c z n C km by (auto simp: cache_ok_def)
  next
    case False
    then have k: "cache_ok s B k" using b that by (simp add: base_ok_def)
    then have "k \<noteq> 0" "\<exists>y \<in> insert x B. k = y + 3656" by (auto simp: cache_ok_def)
    moreover from k this have "object_size (cache s k) \<noteq> z" using z(3) by (auto simp: cache_ok_def)
    ultimately show ?thesis using k unfolding cache_ok_def ch [OF False] km by simp
  qed
  have kok: "kmem_cache_array s' w \<in> insert c K \<and> object_size (cache s' (kmem_cache_array s' w)) = w" if "w < 2048" "kmem_cache_array s' w \<noteq> 0" for w
  proof (cases "w = z")
    case False
    then have "kmem_cache_array s w \<in> K" "object_size (cache s (kmem_cache_array s w)) = w" using b that km by (auto simp: base_ok_def)
    moreover from this(1) have "kmem_cache_array s w \<noteq> c" using cK by auto
    ultimately show ?thesis using False ch [of "kmem_cache_array s w"] km by simp
  qed (use km C in simp)
  have "page_head s' = page_head s" "page_next s' = page_next s" by (simp_all add: s' s1 init_slab_node_def init_cache_node_def)
  then have "base_ok s' ps (insert x B) (insert c K) L"
    using b ob' slok caok kok x(4) unfolding base_ok_def by simp
  then show ?thesis using X cK by simp
qed

section \<open>The lists of slabs\<close>

lemma lists_other:
  assumes "lists_ok s B d" and "owner_cache (slab s x) = c" and "d \<noteq> c"
    and "\<And>y. y \<noteq> x \<Longrightarrow> slab s' y = slab s y" and "cache s' d = cache s d" and "B \<subseteq> B'"
  shows "lists_ok s' B' d"
proof -
  have "slab s' y = slab s y" if "y \<in> set (slabs_partial (cache s d) @ slabs_full (cache s d) @ slabs_free (cache s d))" for y
    using assms(1-4) that unfolding lists_ok_def by (cases "y = x") auto
  then show ?thesis using assms(1,5,6) unfolding lists_ok_def by auto
qed

text \<open>A slab \<open>x\<close> whose counter may have changed is taken out of its list and put into at most one.\<close>

lemma lists_moved:
  assumes lo: "lists_ok s B c" and B: "B \<subseteq> B'" and x: "x \<in> B'" "owner_cache (slab s' x) = c" and n: "num (cache s' c) = num (cache s c)"
    and P: "mset (slabs_partial (cache s' c)) = mset (remove1 x (slabs_partial (cache s c)) @ xp)"
    and F: "mset (slabs_full (cache s' c)) = mset (remove1 x (slabs_full (cache s c)) @ xf)"
    and E: "mset (slabs_free (cache s' c)) = mset (remove1 x (slabs_free (cache s c)) @ xe)"
    and one: "distinct (xp @ xf @ xe)" "set (xp @ xf @ xe) \<subseteq> {x}" and act: "x \<in> set (xp @ xe) \<Longrightarrow> active (slab s' x) < num (cache s c)"
    and same: "\<And>y. y \<noteq> x \<Longrightarrow> slab s' y = slab s y"
  shows "lists_ok s' B' c"
proof -
  let ?P = "slabs_partial (cache s c)" and ?F = "slabs_full (cache s c)" and ?E = "slabs_free (cache s c)"
  have d: "distinct (?P @ ?F @ ?E)" using lo by (simp add: lists_ok_def)
  have sets: "set (slabs_partial (cache s' c)) = set ?P - {x} \<union> set xp" "set (slabs_full (cache s' c)) = set ?F - {x} \<union> set xf"
      "set (slabs_free (cache s' c)) = set ?E - {x} \<union> set xe"
    using mset_eq_setD [OF P] mset_eq_setD [OF F] mset_eq_setD [OF E] d by auto
  have "mset (slabs_partial (cache s' c) @ slabs_full (cache s' c) @ slabs_free (cache s' c)) =
      mset ((remove1 x ?P @ remove1 x ?F @ remove1 x ?E) @ xp @ xf @ xe)"
    using P F E by simp
  moreover have "distinct ((remove1 x ?P @ remove1 x ?F @ remove1 x ?E) @ xp @ xf @ xe)" using d one by auto
  ultimately have "distinct (slabs_partial (cache s' c) @ slabs_full (cache s' c) @ slabs_free (cache s' c))"
    by (metis mset_eq_imp_distinct_iff)
  moreover have "y \<in> B' \<and> owner_cache (slab s' y) = c"
    if "y \<in> set (slabs_partial (cache s' c) @ slabs_full (cache s' c) @ slabs_free (cache s' c))" for y
  proof (cases "y = x")
    case False
    then have "y \<notin> set xp" "y \<notin> set xf" "y \<notin> set xe" using one(2) by auto
    then have "y \<in> set (?P @ ?F @ ?E)" using that sets by auto
    then show ?thesis using lo same [OF False] B unfolding lists_ok_def by auto
  qed (use x in simp)
  moreover have "active (slab s' y) < num (cache s' c)" if "y \<in> set (slabs_partial (cache s' c) @ slabs_free (cache s' c))" for y
  proof (cases "y = x")
    case True
    then show ?thesis using that sets act n by auto
  next
    case False
    then have "y \<notin> set xp" "y \<notin> set xe" using one(2) by auto
    then have "y \<in> set (?P @ ?E)" using that sets by auto
    then show ?thesis using lo same [OF False] n unfolding lists_ok_def by simp
  qed
  ultimately show ?thesis by (simp add: lists_ok_def)
qed

lemma alloc_partial_ok:
  assumes inv: "mem_inv s ps B K L" and c: "c \<in> K" and x: "x \<in> set (slabs_partial (cache s c))"
  shows "\<exists>p s'. alloc_partial x c (object_size (cache s c)) s = Some (p, s') \<and> p \<notin> L \<and> mem_inv s' ps B K (insert p L) \<and>
    osize s' = osize s \<and> osize s' (PAGE_BASE p) = object_size (cache s c)"
proof -
  have lo: "lists_ok s B c" and b: "base_ok s ps B K L" using inv c by (auto simp: mem_inv_def)
  have X: "x \<in> B" "owner_cache (slab s x) = c" "active (slab s x) < num (cache s c)" using lo x by (auto simp: lists_ok_def)
  define s1 where "s1 = upd_slab x (\<lambda>n. n\<lparr>active := active n + 1\<rparr>) s"
  obtain p where p: "alloc_obj x (osize s x) (onum s x) s = Some (p, s1)" "p \<notin> L" "base_ok s1 ps B K (insert p L)" "PAGE_BASE p = x"
    using alloc_obj_ok [OF b X(1) _ s1_def] X(2,3) by (auto simp: onum_def)
  define s2 where "s2 = (if active (slab s1 x) \<ge> num (cache s1 c)
    then upd_cache c (\<lambda>n. let n = detach_slab x n in n\<lparr>slabs_full := slabs_full n @ [x]\<rparr>) s1 else s1)"
  have sl: "\<And>y. y \<noteq> x \<Longrightarrow> slab s2 y = slab s y" "owner_cache (slab s2 x) = c"
    using X(2) by (simp_all add: s2_def s1_def)
  have run: "alloc_partial x c (object_size (cache s c)) s = Some (p, s2)"
    using p(1) X(2) by (simp add: alloc_partial_def s2_def osize_def onum_def)
  have "base_ok s2 ps B K (insert p L)" using p(3) by (simp add: s2_def base_lists Let_def detach_slab_def)
  moreover have "lists_ok s2 B d" if "d \<in> K" for d
  proof (cases "d = c")
    case False
    show ?thesis
      by (rule lists_other [of s B, OF _ X(2) False]) (use inv that False in \<open>simp_all add: mem_inv_def s2_def s1_def\<close>)
  next
    case True
    show ?thesis
    proof (cases "active (slab s1 x) \<ge> num (cache s1 c)")
      case full: True
      have s2: "slabs_partial (cache s2 c) = remove1 x (slabs_partial (cache s c))" "num (cache s2 c) = num (cache s c)"
          "slabs_full (cache s2 c) = remove1 x (slabs_full (cache s c)) @ [x]" "slabs_free (cache s2 c) = remove1 x (slabs_free (cache s c))"
        using full by (simp_all add: s2_def s1_def detach_slab_def Let_def)
      show ?thesis unfolding True
        by (rule lists_moved [where xp = "[]" and xf = "[x]" and xe = "[]", OF lo subset_refl X(1) sl(2) s2(2)]) (simp_all add: s2 sl(1))
    next
      case False
      then show ?thesis using lo X True unfolding lists_ok_def by (auto simp: s2_def s1_def)
    qed
  qed
  moreover have "osize s2 = osize s" by (simp add: fun_eq_iff osize_def s2_def s1_def detach_slab_def Let_def)
  moreover have "osize s x = object_size (cache s c)" by (simp add: osize_def X(2))
  ultimately show ?thesis using run p(2,4) by (auto simp: mem_inv_def)
qed

lemma alloc_free_ok:
  assumes inv: "mem_inv s ps B K L" and c: "c \<in> K" and x: "x \<in> set (slabs_free (cache s c))"
  shows "\<exists>p s'. alloc_free x c (object_size (cache s c)) s = Some (p, s') \<and> p \<notin> L \<and> mem_inv s' ps B K (insert p L) \<and>
    osize s' = osize s \<and> osize s' (PAGE_BASE p) = object_size (cache s c)"
proof -
  have lo: "lists_ok s B c" and b: "base_ok s ps B K L" using inv c by (auto simp: mem_inv_def)
  have X: "x \<in> B" "owner_cache (slab s x) = c" "active (slab s x) < num (cache s c)" using lo x by (auto simp: lists_ok_def)
  define s1 where "s1 = upd_slab x (\<lambda>n. n\<lparr>active := active n + 1\<rparr>) s"
  obtain p where p: "alloc_obj x (osize s x) (onum s x) s = Some (p, s1)" "p \<notin> L" "base_ok s1 ps B K (insert p L)" "PAGE_BASE p = x"
    using alloc_obj_ok [OF b X(1) _ s1_def] X(2,3) by (auto simp: onum_def)
  define s2 where "s2 = upd_cache c (\<lambda>n. let n = detach_slab x n in
       if active (slab s1 x) \<ge> num n then n\<lparr>slabs_full := slabs_full n @ [x]\<rparr> else n\<lparr>slabs_partial := slabs_partial n @ [x]\<rparr>) s1"
  have sl: "\<And>y. y \<noteq> x \<Longrightarrow> slab s2 y = slab s y" "owner_cache (slab s2 x) = c" "slab s2 x = slab s1 x"
    using X(2) by (simp_all add: s2_def s1_def)
  have run: "alloc_free x c (object_size (cache s c)) s = Some (p, s2)"
    using p(1) X(2) by (simp add: alloc_free_def s2_def osize_def onum_def)
  have "base_ok s2 ps B K (insert p L)" using p(3) unfolding s2_def by (subst base_lists) (simp_all add: Let_def detach_slab_def)
  moreover have "lists_ok s2 B d" if "d \<in> K" for d
  proof (cases "d = c")
    case False
    show ?thesis
      by (rule lists_other [of s B, OF _ X(2) False]) (use inv that False in \<open>simp_all add: mem_inv_def s2_def s1_def\<close>)
  next
    case True
    let ?f = "active (slab s1 x) \<ge> num (cache s c)"
    have s2: "slabs_partial (cache s2 c) = remove1 x (slabs_partial (cache s c)) @ (if ?f then [] else [x])" "num (cache s2 c) = num (cache s c)"
        "slabs_full (cache s2 c) = remove1 x (slabs_full (cache s c)) @ (if ?f then [x] else [])"
        "slabs_free (cache s2 c) = remove1 x (slabs_free (cache s c))"
      by (simp_all add: s2_def s1_def detach_slab_def Let_def)
    show ?thesis unfolding True
    proof (cases ?f)
      case f: True
      show "lists_ok s2 B c"
        by (rule lists_moved [where xp = "[]" and xf = "[x]" and xe = "[]", OF lo subset_refl X(1) sl(2) s2(2)]) (simp_all add: s2 sl(1) f)
    next
      case f: False
      show "lists_ok s2 B c"
        by (rule lists_moved [where xp = "[x]" and xf = "[]" and xe = "[]", OF lo subset_refl X(1) sl(2) s2(2)])
          (use f in \<open>simp_all add: s2 sl(1,3) if_not_P [OF f]\<close>)
    qed
  qed
  moreover have "osize s2 = osize s" by (simp add: fun_eq_iff osize_def s2_def s1_def detach_slab_def Let_def)
  moreover have "osize s x = object_size (cache s c)" by (simp add: osize_def X(2))
  ultimately show ?thesis using run p(2,4) by (auto simp: mem_inv_def)
qed

lemma new_slab_inv:
  assumes inv: "mem_inv s ps B K L" and x: "x \<notin> B" "x \<noteq> 0" "PAGE_SIZE dvd x" "x \<notin> set ps" and c: "c \<in> K"
  shows "mem_inv (new_slab x c s) ps (insert x B) K L \<and> x \<in> set (slabs_partial (cache (new_slab x c s) c)) \<and>
    object_size (cache (new_slab x c s) c) = object_size (cache s c) \<and> (\<forall>y \<in> B. osize (new_slab x c s) y = osize s y)"
proof -
  define s1 where "s1 = upd_slab x (\<lambda>n. n\<lparr>owner_cache := c\<rparr>) (init_slab_node x (num (cache s c)) s)"
  have b: "base_ok s ps B K L" using inv by (simp add: mem_inv_def)
  note n = new_slab_ok [OF b x c s1_def]
  have ns: "new_slab x c s = upd_cache c (\<lambda>n. n\<lparr>slabs_partial := x # slabs_partial n\<rparr>) s1"
    by (simp add: new_slab_def s1_def)
  have ch: "cache s1 = cache s" "\<And>y. y \<noteq> x \<Longrightarrow> slab s1 y = slab s y" by (simp_all add: s1_def init_slab_node_def)
  have "base_ok (new_slab x c s) ps (insert x B) K L" unfolding ns by (subst base_lists) (use n in auto)
  moreover have "lists_ok (new_slab x c s) (insert x B) d" if d: "d \<in> K" for d
  proof -
    have lo: "lists_ok s B d" using inv d by (simp add: mem_inv_def)
    have nx: "x \<notin> set (slabs_partial (cache s d) @ slabs_full (cache s d) @ slabs_free (cache s d))" using lo x(1) by (auto simp: lists_ok_def)
    have same: "slab (new_slab x c s) y = slab s y" if "y \<noteq> x" for y using ch(2) [OF that] by (simp add: ns)
    have lo1: "lists_ok (new_slab x c s) (insert x B) d" if "cache (new_slab x c s) d = cache s d"
      using lo nx same that unfolding lists_ok_def by (metis insertCI Un_iff set_append)
    show ?thesis
    proof (cases "d = c")
      case True
      have "active (slab (new_slab x c s) x) = 0" "owner_cache (slab (new_slab x c s) x) = c" using n by (simp_all add: ns)
      moreover have "0 < num (cache s c)" using b c num_pos by (auto simp: base_ok_def cache_ok_def)
      ultimately show ?thesis unfolding True
        using nx True by (intro lists_moved [where xp = "[x]" and xf = "[]" and xe = "[]", OF lo [unfolded True] _ _ _ _ _ _ _ _ _ _ same])
          (auto simp: ns ch(1) remove1_idem)
    qed (use lo1 in \<open>simp add: ns ch(1)\<close>)
  qed
  moreover have "osize (new_slab x c s) y = osize s y" if "y \<in> B" for y
    using that x(1) ch by (cases "y = x") (simp_all add: osize_def ns)
  ultimately show ?thesis by (simp add: mem_inv_def ns ch(1))
qed

lemma first_slab_inv:
  assumes inv: "mem_inv s ps B K L" and x: "x \<notin> B" "x \<noteq> 0" "PAGE_SIZE dvd x" "x \<notin> set ps" and c: "c = x + 3656"
    and z: "0 < z" "z < 2048" "kmem_cache_array s z = 0" and n: "n = 3608 div (z + 4)"
    and s1: "s1 = init_cache_node z c n (s\<lparr>kmem_cache_array := (kmem_cache_array s)(z := c)\<rparr>)"
  shows "mem_inv (new_slab x c s1) ps (insert x B) (insert c K) L \<and> x \<in> set (slabs_partial (cache (new_slab x c s1) c)) \<and>
    object_size (cache (new_slab x c s1) c) = z \<and> (\<forall>y \<in> B. osize (new_slab x c s1) y = osize s y)"
proof -
  have b: "base_ok s ps B K L" using inv by (simp add: mem_inv_def)
  have C: "cache s1 c = \<lparr>num = n, object_size = z, ac_avail = (\<lambda>_. 0), ac_entry = (\<lambda>_. replicate AC_LIMIT 0),
      slabs_partial = [], slabs_full = [], slabs_free = []\<rparr>" by (simp add: s1 init_cache_node_def)
  define s2 where "s2 = upd_slab x (\<lambda>n. n\<lparr>owner_cache := c\<rparr>) (init_slab_node x n s1)"
  note k = new_cache_ok [OF b x c z n s1 s2_def]
  have ns: "new_slab x c s1 = upd_cache c (\<lambda>n. n\<lparr>slabs_partial := x # slabs_partial n\<rparr>) s2"
    by (simp add: new_slab_def s2_def C)
  have ch: "cache s2 = cache s1" "\<And>y. y \<noteq> x \<Longrightarrow> slab s2 y = slab s y" "\<And>d. d \<noteq> c \<Longrightarrow> cache s1 d = cache s d"
    by (simp_all add: s2_def init_slab_node_def s1 init_cache_node_def)
  have "base_ok (new_slab x c s1) ps (insert x B) (insert c K) L" unfolding ns by (subst base_lists) (use k in auto)
  moreover have "lists_ok (new_slab x c s1) (insert x B) d" if d: "d \<in> insert c K" for d
  proof (cases "d = c")
    case True
    have "0 < n" unfolding n by (rule num_pos [OF z(1,2)])
    then show ?thesis unfolding True lists_ok_def ns using k C by (simp add: ch(1))
  next
    case False
    then have lo: "lists_ok s B d" using inv d by (simp add: mem_inv_def)
    have nx: "x \<notin> set (slabs_partial (cache s d) @ slabs_full (cache s d) @ slabs_free (cache s d))" using lo x(1) by (auto simp: lists_ok_def)
    have same: "slab (new_slab x c s1) y = slab s y" if "y \<noteq> x" for y using ch(2) [OF that] by (simp add: ns)
    have "cache (new_slab x c s1) d = cache s d" using False ch by (simp add: ns)
    then show ?thesis using lo nx same unfolding lists_ok_def by (metis insertCI Un_iff set_append)
  qed
  moreover have "osize (new_slab x c s1) y = osize s y" if "y \<in> B" for y
  proof -
    have "y \<noteq> x" "owner_cache (slab s y) \<noteq> c" using that x(1) b k by (auto simp: base_ok_def slab_ok_def)
    then show ?thesis using ch by (simp add: osize_def ns)
  qed
  ultimately show ?thesis by (simp add: mem_inv_def ns ch(1) C)
qed

section \<open>The arrays of the cpus\<close>

lemma upt_4: "[0..<4] = [0, 1, 2, 3 :: nat]"
  by (simp add: upt_rec)

lemma concat_upd:
  assumes "cpu < 4" and "mset (f cpu) = mset xs + mset (g cpu)" and "\<And>i. i \<noteq> cpu \<Longrightarrow> f i = g i"
  shows "mset (concat (map f [0..<4])) = mset xs + mset (concat (map g [0..<4]))"
proof -
  consider "cpu = 0" | "cpu = 1" | "cpu = 2" | "cpu = 3" using assms(1) by linarith
  then show ?thesis using assms(2,3) unfolding upt_4 by cases simp_all
qed

lemma cached_owner:
  assumes b: "base_ok s ps B K L" and "c \<in> K" and "k \<in> K" and "p \<in> set (cached s c)" and "p \<in> set (cached s k)"
  shows "c = k"
proof -
  have ob: "objects_ok s B K L" using b by (simp add: base_ok_def)
  obtain x y where "x \<in> B" "owner_cache (slab s x) = c" "p \<in> taken s x" "y \<in> B" "owner_cache (slab s y) = k" "p \<in> taken s y"
    using objects_cached [OF ob] assms(2-5) by metis
  then show ?thesis using taken_page [OF b] by metis
qed

lemma base_array:
  assumes b: "base_ok s ps B K L" and c: "c \<in> K" and s': "s' = upd_cache c g s"
    and g: "\<And>n. num (g n) = num n \<and> object_size (g n) = object_size n"
    and ac: "\<And>i. ac_avail (g (cache s c)) i \<le> AC_LIMIT \<and> length (ac_entry (g (cache s c)) i) = AC_LIMIT"
    and ch: "distinct (cached s' c)" "set (cached s' c) \<subseteq> (\<Union>x \<in> {x \<in> B. owner_cache (slab s x) = c}. taken s x)"
    and L': "L' = (\<Union>x \<in> B. taken s x) - (set (cached s' c) \<union> (\<Union>k \<in> K - {c}. set (cached s k)))"
  shows "base_ok s' ps B K L'"
proof -
  have f: "num (cache s' d) = num (cache s d)" "object_size (cache s' d) = object_size (cache s d)" for d using g by (auto simp: s')
  have d: "onum s' = onum s" "osize s' = osize s" "free_idx s' = free_idx s" "slab s' = slab s"
    using f by (simp_all add: fun_eq_iff onum_def osize_def free_idx_def s')
  then have t: "taken s' = taken s" by (simp add: fun_eq_iff taken_def obj_def cong: image_cong)
  have k: "cached s' k = cached s k" if "k \<noteq> c" for k using that by (simp add: cached_def s')
  have "(\<Union>k \<in> insert c (K - {c}). set (cached s' k)) = set (cached s' c) \<union> (\<Union>k \<in> K - {c}. set (cached s' k))"
    by (rule UN_insert)
  then have un: "(\<Union>k \<in> K. set (cached s' k)) = set (cached s' c) \<union> (\<Union>k \<in> K - {c}. set (cached s k))"
    using k by (simp only: insert_Diff [OF c]) simp
  have ob: "objects_ok s B K L" using b by (simp add: base_ok_def)
  have "objects_ok s' B K L'"
    unfolding objects_ok_def t d(4) un L'
  proof (intro conjI ballI refl)
    fix x assume x: "x \<in> K"
    show "distinct (cached s' x)" using ob x ch(1) k by (cases "x = c") (auto simp: objects_ok_def)
    show "set (cached s' x) \<subseteq> (\<Union>y \<in> {y \<in> B. owner_cache (slab s y) = x}. taken s y)"
      using ob x ch(2) k by (cases "x = c") (simp_all add: objects_ok_def)
  qed
  moreover have "slab_ok s' K x" if "x \<in> B" for x using b that unfolding base_ok_def slab_ok_def d by simp
  moreover have "cache_ok s' B x" if "x \<in> K" for x
    using b that ac unfolding base_ok_def cache_ok_def f by (cases "x = c") (simp_all add: s')
  moreover have "kmem_cache_array s' = kmem_cache_array s" "page_head s' = page_head s" "page_next s' = page_next s" by (simp_all add: s')
  ultimately show ?thesis using b unfolding base_ok_def f by simp
qed

lemma lists_array:
  assumes "\<And>n. num (g n) = num n \<and> slabs_partial (g n) = slabs_partial n \<and> slabs_full (g n) = slabs_full n \<and> slabs_free (g n) = slabs_free n"
  shows "lists_ok (upd_cache c g s) B d = lists_ok s B d"
  using assms by (simp add: lists_ok_def)

text \<open>Taking the last entry of the array of a cpu.\<close>

lemma array_pop:
  assumes inv: "mem_inv s ps B K L" and c: "c \<in> K" and cpu: "cpu < 4" and av: "ac_avail (cache s c) cpu = Suc i"
    and s': "s' = upd_cache c (\<lambda>n. n\<lparr>ac_avail := (ac_avail n)(cpu := i)\<rparr>) s" and p: "p = ac_entry (cache s c) cpu ! i"
  shows "i < length (ac_entry (cache s c) cpu) \<and> mem_inv s' ps B K (insert p L) \<and> p \<notin> L \<and> mset (cached s c) = add_mset p (mset (cached s' c))"
proof -
  have b: "base_ok s ps B K L" using inv by (simp add: mem_inv_def)
  have ac: "ac_avail (cache s c) j \<le> AC_LIMIT \<and> length (ac_entry (cache s c) j) = AC_LIMIT" for j
    using b c by (simp add: base_ok_def cache_ok_def)
  have i: "i < length (ac_entry (cache s c) cpu)" using ac [of cpu] av by simp
  have m: "mset (cached s c) = mset [p] + mset (cached s' c)"
    unfolding cached_def by (rule concat_upd [OF cpu]) (use i av in \<open>simp_all add: s' p take_Suc_conv_app_nth\<close>)
  have ob: "objects_ok s B K L" using b by (simp add: base_ok_def)
  have "distinct (cached s c)" using ob c by (simp add: objects_ok_def)
  then have d: "distinct (p # cached s' c)" using m mset_eq_imp_distinct_iff [of "cached s c" "p # cached s' c"] by simp
  have st: "set (cached s c) = insert p (set (cached s' c))" using mset_eq_setD [of "cached s c" "p # cached s' c"] m by simp
  have sub: "set (cached s c) \<subseteq> (\<Union>x \<in> {x \<in> B. owner_cache (slab s x) = c}. taken s x)" using ob c by (simp add: objects_ok_def)
  have L: "L = (\<Union>x \<in> B. taken s x) - (\<Union>k \<in> K. set (cached s k))" using ob by (simp add: objects_ok_def)
  have pk: "p \<notin> set (cached s k)" if "k \<in> K - {c}" for k using cached_owner [OF b c, of k p] that st by auto
  have "p \<in> (\<Union>x \<in> B. taken s x)" using sub st by auto
  then have "insert p L = (\<Union>x \<in> B. taken s x) - (set (cached s' c) \<union> (\<Union>k \<in> K - {c}. set (cached s k)))"
    unfolding L using st c d pk by auto
  moreover have "set (cached s' c) \<subseteq> (\<Union>x \<in> {x \<in> B. owner_cache (slab s x) = c}. taken s x)" "distinct (cached s' c)"
    using st sub d by simp_all
  moreover have "(if j = cpu then i else ac_avail (cache s c) j) \<le> AC_LIMIT" for j using ac [of j] ac [of cpu] av by simp
  ultimately have "base_ok s' ps B K (insert p L)"
    using ac by (intro base_array [OF b c s']) simp_all
  moreover have "p \<notin> L" unfolding L using st c by auto
  ultimately show ?thesis using i m inv unfolding mem_inv_def s' by (simp add: lists_array)
qed

lemma kalloc_ok:
  assumes inv: "mem_inv s ps B K L" and z: "0 < z" "z < 2048" and cpu: "cpu < 4"
  shows "case kalloc cpu z s of None \<Rightarrow> ps = [] | Some (p, s') \<Rightarrow> p \<notin> L \<and> osize s' (PAGE_BASE p) = z \<and>
    (\<forall>y \<in> B. osize s' y = osize s y) \<and> (\<exists>ps' B' K'. mem_inv s' ps' B' K' (insert p L) \<and> B' \<union> set ps' = B \<union> set ps)"
proof -
  have b: "base_ok s ps B K L" using inv by (simp add: mem_inv_def)
  let ?c = "kmem_cache_array s z"
  have page: "\<exists>s'. kalloc_page s = (x, s') \<and> mem_inv s' qs B K L \<and> x \<notin> B \<and> x \<noteq> 0 \<and> PAGE_SIZE dvd x \<and> x \<notin> set qs \<and>
      slab s' = slab s \<and> cache s' = cache s \<and> kmem_cache_array s' = kmem_cache_array s" if "ps = x # qs" for x qs
    using kalloc_page_ok [of s x qs B K L] inv that by (auto simp: mem_inv_def lists_ok_def)
  have none: "kalloc_page s = (0, snd (kalloc_page s))" if "ps = []" using kalloc_page_empty b that by (metis prod.collapse)
  consider (first) "?c = 0" | (array) "?c \<noteq> 0" "ac_avail (cache s ?c) cpu > 0" |
      (partial) "?c \<noteq> 0" "ac_avail (cache s ?c) cpu = 0" "slabs_partial (cache s ?c) \<noteq> []" |
      (free) "?c \<noteq> 0" "ac_avail (cache s ?c) cpu = 0" "slabs_partial (cache s ?c) = []" "slabs_free (cache s ?c) \<noteq> []" |
      (new) "?c \<noteq> 0" "ac_avail (cache s ?c) cpu = 0" "slabs_partial (cache s ?c) = []" "slabs_free (cache s ?c) = []" by auto
  then show ?thesis
  proof cases
    case first
    show ?thesis
    proof (cases ps)
      case Nil
      then obtain t where "kalloc_page s = (0, t)" using none by blast
      then show ?thesis using first z Nil by (simp add: kalloc_def)
    next
      case (Cons x qs)
      obtain s1 where s1: "kalloc_page s = (x, s1)" "mem_inv s1 qs B K L" "x \<notin> B" "x \<noteq> 0" "PAGE_SIZE dvd x" "x \<notin> set qs"
          "kmem_cache_array s1 = kmem_cache_array s" "slab s1 = slab s" "cache s1 = cache s" using page [OF Cons] by blast
      define c where "c = x + 3656"
      define n where "n = 3608 div (z + 4)"
      define s2 where "s2 = init_cache_node z c n (s1\<lparr>kmem_cache_array := (kmem_cache_array s1)(z := c)\<rparr>)"
      have k0: "kmem_cache_array s1 z = 0" using s1(7) first by simp
      note f = first_slab_inv [OF s1(2-6) c_def z k0 n_def s2_def]
      have pb: "PAGE_BASE x + PAGE_SIZE - sizeof_CacheNode = c" using page_base_offset [OF s1(5), of 0] by (simp add: c_def)
      have run: "kalloc cpu z s = alloc_partial x c z (new_slab x c s2)"
        using first z s1(1,4) pb by (simp add: kalloc_def Let_def s2_def n_def)
      obtain p s3 where "alloc_partial x c z (new_slab x c s2) = Some (p, s3)" "p \<notin> L" "mem_inv s3 qs (insert x B) (insert c K) (insert p L)"
          "osize s3 = osize (new_slab x c s2)" "osize s3 (PAGE_BASE p) = z"
        using alloc_partial_ok [of "new_slab x c s2" qs "insert x B" "insert c K" L c x] f by auto
      moreover have "osize s1 = osize s" by (simp add: fun_eq_iff osize_def s1(8,9))
      moreover have "insert x B \<union> set qs = B \<union> set ps" using Cons by auto
      ultimately show ?thesis using run f by auto
    qed
  next
    case array
    have cK: "?c \<in> K" using b z array(1) by (simp add: base_ok_def)
    obtain i where i: "ac_avail (cache s ?c) cpu = Suc i" using array(2) gr0_implies_Suc by blast
    define s' where "s' = upd_cache ?c (\<lambda>n. n\<lparr>ac_avail := (ac_avail n)(cpu := i)\<rparr>) s"
    define p where "p = ac_entry (cache s ?c) cpu ! i"
    note a = array_pop [OF inv cK cpu i s'_def p_def]
    have run: "kalloc cpu z s = Some (p, s')" using z array i a by (simp add: kalloc_def Let_def s'_def p_def)
    have os: "osize s' = osize s" by (simp add: fun_eq_iff osize_def s'_def)
    have "p \<in> set (cached s ?c)" using a by (metis set_mset_add_mset_insert set_mset_mset insertI1)
    then obtain y where "y \<in> B" "owner_cache (slab s y) = ?c" "p \<in> taken s y"
      using objects_cached [OF _ cK] b unfolding base_ok_def by blast
    then have "osize s (PAGE_BASE p) = object_size (cache s ?c)" using taken_page [OF b] by (simp add: osize_def)
    then have "osize s (PAGE_BASE p) = z" using b z array(1) by (simp add: base_ok_def)
    then show ?thesis using a os run by auto
  next
    case partial
    have cK: "?c \<in> K" "object_size (cache s ?c) = z" using b z partial(1) by (simp_all add: base_ok_def)
    then obtain p s' where "kalloc cpu z s = Some (p, s')" "p \<notin> L" "mem_inv s' ps B K (insert p L)" "osize s' = osize s" "osize s' (PAGE_BASE p) = z"
      using z partial alloc_partial_ok [OF inv cK(1), of "hd (slabs_partial (cache s ?c))"] by (auto simp: kalloc_def Let_def)
    then show ?thesis by auto
  next
    case free
    have cK: "?c \<in> K" "object_size (cache s ?c) = z" using b z free(1) by (simp_all add: base_ok_def)
    then obtain p s' where "kalloc cpu z s = Some (p, s')" "p \<notin> L" "mem_inv s' ps B K (insert p L)" "osize s' = osize s" "osize s' (PAGE_BASE p) = z"
      using z free alloc_free_ok [OF inv cK(1), of "hd (slabs_free (cache s ?c))"] by (auto simp: kalloc_def Let_def)
    then show ?thesis by auto
  next
    case new
    have cK: "?c \<in> K" "object_size (cache s ?c) = z" using b z new(1) by (simp_all add: base_ok_def)
    show ?thesis
    proof (cases ps)
      case Nil
      then obtain t where "kalloc_page s = (0, t)" using none by blast
      then show ?thesis using new z Nil by (simp add: kalloc_def Let_def)
    next
      case (Cons x qs)
      obtain s1 where s1: "kalloc_page s = (x, s1)" "mem_inv s1 qs B K L" "x \<notin> B" "x \<noteq> 0" "PAGE_SIZE dvd x" "x \<notin> set qs"
          "cache s1 = cache s" "slab s1 = slab s"
        using page [OF Cons] by blast
      note f = new_slab_inv [OF s1(2-6) cK(1)]
      have run: "kalloc cpu z s = alloc_partial x ?c z (new_slab x ?c s1)"
        using new z s1(1,4) by (simp add: kalloc_def Let_def)
      obtain p s3 where "alloc_partial x ?c z (new_slab x ?c s1) = Some (p, s3)" "p \<notin> L" "mem_inv s3 qs (insert x B) K (insert p L)"
          "osize s3 = osize (new_slab x ?c s1)" "osize s3 (PAGE_BASE p) = z"
        using alloc_partial_ok [of "new_slab x ?c s1" qs "insert x B" K L ?c x] f cK s1(7) by auto
      moreover have "osize s1 = osize s" by (simp add: fun_eq_iff osize_def s1(7,8))
      moreover have "insert x B \<union> set qs = B \<union> set ps" using Cons by auto
      ultimately show ?thesis using run f by auto
    qed
  qed
qed

section \<open>Giving objects back\<close>

lemma free_obj_ok:
  assumes b: "base_ok s ps B K L" and p: "p \<in> L" and x: "x = PAGE_BASE p" and idx: "idx = get_obj_index x (osize s x) (onum s x) p s"
    and s': "s' = upd_slab x (\<lambda>n. n\<lparr>active := active n - 1, freelist := (freelist n)[active n - 1 := idx]\<rparr>) s"
  shows "x \<in> B \<and> p \<in> taken s x \<and> 0 < active (slab s x) \<and> active (slab s x) \<le> length (freelist (slab s x)) \<and> base_ok s' ps B K (L - {p})"
proof -
  let ?a = "active (slab s x)" and ?f = "freelist (slab s x)"
  have ob: "objects_ok s B K L" using b by (simp add: base_ok_def)
  have L: "L = (\<Union>x \<in> B. taken s x) - (\<Union>k \<in> K. set (cached s k))" using ob by (simp add: objects_ok_def)
  obtain y where y: "y \<in> B" "p \<in> taken s y" using p unfolding L by auto
  then have X: "x \<in> B" "p \<in> taken s x" using taken_page [OF b y] x by auto
  have sx: "slab_ok s K x" using b X(1) by (simp add: base_ok_def)
  obtain i where i: "p = obj s x i" "i < onum s x" "i \<notin> free_idx s x" using X(2) by (auto simp: taken_def)
  have "0 < osize s x" using obj_bounds [OF b X(1) i(2)] by simp
  then have ix: "idx = i" using sx by (simp add: idx get_obj_index_def i(1) obj_def slab_ok_def)
  have len: "length ?f = onum s x" "?a \<le> onum s x" "distinct (drop ?a ?f)" "set (drop ?a ?f) \<subseteq> {..<onum s x}"
    using sx by (auto simp: slab_ok_def free_idx_def)
  have pos: "0 < ?a"
  proof (rule ccontr)
    assume "\<not> 0 < ?a"
    then have "card (set ?f) = onum s x" "set ?f \<subseteq> {..<onum s x}" using len by (auto simp: distinct_card)
    then have "set ?f = {..<onum s x}" by (intro card_subset_eq) auto
    then show False using i \<open>\<not> 0 < ?a\<close> by (simp add: free_idx_def)
  qed
  have dr: "drop (?a - 1) (?f[?a - 1 := i]) = i # drop ?a ?f"
    using pos len by (simp add: drop_update_swap [symmetric] Cons_nth_drop_Suc [symmetric])
  have d: "onum s' = onum s" "osize s' = osize s" "cached s' = cached s" by (simp_all add: fun_eq_iff s' onum_def osize_def cached_def)
  then have o: "obj s' = obj s" by (simp add: fun_eq_iff obj_def)
  have fr: "free_idx s' y = (if y = x then insert i (free_idx s x) else free_idx s y)" for y
    using dr by (simp add: free_idx_def s' ix)
  have own: "owner_cache (slab s' y) = owner_cache (slab s y)" for y by (simp add: s')
  have inj: "inj_on (obj s x) {..<onum s x}" using obj_inj [OF b X(1) X(1)] by (auto intro!: inj_onI)
  have tx: "taken s' x = taken s x - {p}"
  proof -
    have "{..<onum s x} - insert i (free_idx s x) = ({..<onum s x} - free_idx s x) - {i}" by auto
    moreover have "obj s x ` (({..<onum s x} - free_idx s x) - {i}) = obj s x ` ({..<onum s x} - free_idx s x) - obj s x ` {i}"
      using i(2) by (intro inj_on_image_set_diff [OF inj]) auto
    ultimately show ?thesis by (simp add: taken_def d o fr i(1))
  qed
  have tall: "taken s' = (taken s)(x := taken s x - {p})" using tx by (auto simp: fun_eq_iff taken_def d o fr)
  have other: "p \<notin> taken s y" if "y \<in> B" "y \<noteq> x" for y using taken_page [OF b that(1)] that(2) x by auto
  have un: "(\<Union>y \<in> B. taken s' y) = (\<Union>y \<in> B. taken s y) - {p}" using other X(1) by (auto simp: tall split: if_splits)
  have nc: "p \<notin> set (cached s c)" if "c \<in> K" for c using p that unfolding L by auto
  have "objects_ok s' B K (L - {p})"
    unfolding objects_ok_def d un
  proof (intro conjI ballI)
    fix c assume c: "c \<in> K"
    show "distinct (cached s c)" using ob c by (simp add: objects_ok_def)
    show "set (cached s c) \<subseteq> (\<Union>x \<in> {x \<in> B. owner_cache (slab s' x) = c}. taken s' x)"
    proof
      fix q assume q: "q \<in> set (cached s c)"
      obtain y where y: "y \<in> B" "owner_cache (slab s y) = c" "q \<in> taken s y" using objects_cached [OF ob c q] by auto
      then have "q \<in> taken s' y" using q nc [OF c] by (auto simp: tall)
      then show "q \<in> (\<Union>x \<in> {x \<in> B. owner_cache (slab s' x) = c}. taken s' x)" using y own by auto
    qed
  qed (use L in auto)
  moreover have "slab_ok s' K y" if "y \<in> B" for y
  proof -
    have "slab_ok s K y" using b that by (simp add: base_ok_def)
    then show ?thesis using i len dr unfolding slab_ok_def d fr own by (auto simp: s' ix free_idx_def)
  qed
  ultimately have "base_ok s' ps B K (L - {p})" using b unfolding base_ok_def cache_ok_def by (simp add: s')
  then show ?thesis using X pos len by simp
qed

lemma flush_ok:
  assumes inv: "mem_inv s ps B K L" and c: "c \<in> K" and cpu: "cpu < 4" and av: "ac_avail (cache s c) cpu = Suc i"
  shows "\<exists>s'. cache_flusharray cpu c s = Some s' \<and> mem_inv s' ps B K L \<and> ac_avail (cache s' c) cpu = i \<and>
    (\<forall>y. owner_cache (slab s' y) = owner_cache (slab s y)) \<and> osize s' = osize s"
proof -
  define p where "p = ac_entry (cache s c) cpu ! i"
  define s1 where "s1 = upd_cache c (\<lambda>n. n\<lparr>ac_avail := (ac_avail n)(cpu := i)\<rparr>) s"
  note a = array_pop [OF inv c cpu av s1_def p_def]
  define x where "x = PAGE_BASE p"
  have b: "base_ok s ps B K L" and b1: "base_ok s1 ps B K (insert p L)" using inv a by (simp_all add: mem_inv_def)
  have "p \<in> set (cached s c)" using a by (metis set_mset_add_mset_insert set_mset_mset insertI1)
  then obtain y where "y \<in> B" "owner_cache (slab s y) = c" "p \<in> taken s y"
    using objects_cached [OF _ c] b unfolding base_ok_def by blast
  then have X: "owner_cache (slab s x) = c" using taken_page [OF b] by (simp add: x_def)
  then have X1: "osize s1 x = object_size (cache s1 c)" "onum s1 x = num (cache s1 c)" by (simp_all add: osize_def onum_def s1_def)
  define s2 where "s2 = upd_slab x (\<lambda>n. n\<lparr>active := active n - 1,
    freelist := (freelist n)[active n - 1 := get_obj_index x (osize s1 x) (onum s1 x) p s1]\<rparr>) s1"
  note f = free_obj_ok [OF b1 _ x_def refl s2_def]
  let ?a = "active (slab s2 x)"
  define g where "g = (\<lambda>n. let n = detach_slab x n in
    if ?a = num n - 1 then n\<lparr>slabs_partial := x # slabs_partial n\<rparr>
    else if ?a = 0 then n\<lparr>slabs_free := x # slabs_free n\<rparr> else n)"
  have g: "num (g n) = num n \<and> object_size (g n) = object_size n \<and> ac_avail (g n) = ac_avail n \<and> ac_entry (g n) = ac_entry n" for n
    by (simp add: g_def Let_def detach_slab_def)
  define s3 where "s3 = upd_cache c g s2"
  have run: "cache_flusharray cpu c s = Some s3"
  proof -
    have "cache_flusharray cpu c s = (if active (slab s1 x) = 0 \<or> length (freelist (slab s1 x)) < active (slab s1 x) then None
        else let s = upd_cache c (detach_slab x) s2 in
          Some (if active (slab s x) = num (cache s c) - 1 then upd_cache c (\<lambda>n. n\<lparr>slabs_partial := x # slabs_partial n\<rparr>) s
            else if active (slab s x) = 0 then upd_cache c (\<lambda>n. n\<lparr>slabs_free := x # slabs_free n\<rparr>) s else s))"
      unfolding cache_flusharray_def Let_def av diff_Suc_1 p_def [symmetric] s1_def [symmetric] x_def [symmetric] X1 [symmetric] s2_def [symmetric]
      by (rule refl)
    then show ?thesis using f by (simp add: s3_def g_def Let_def upd_cache_def)
  qed
  have "L = insert p L - {p}" using a by auto
  then have b3: "base_ok s3 ps B K L" using f base_lists [of g c s2, OF g] by (simp add: s3_def)
  have lo: "lists_ok s1 B d" if "d \<in> K" for d using a that by (simp add: mem_inv_def)
  have sl: "\<And>y. y \<noteq> x \<Longrightarrow> slab s3 y = slab s1 y" "slab s3 x = slab s2 x" "owner_cache (slab s3 x) = c" "x \<in> B"
    using X f by (simp_all add: s3_def s2_def s1_def)
  have "slab_ok s1 K x" using b1 sl(4) by (simp add: base_ok_def)
  then have lt: "?a < num (cache s1 c)" using f X1 by (auto simp: slab_ok_def s2_def)
  have "lists_ok s3 B d" if d: "d \<in> K" for d
  proof (cases "d = c")
    case False
    show ?thesis by (rule lists_other [of s1 B, OF lo [OF d] _ False sl(1)]) (use X False in \<open>simp_all add: s3_def s2_def s1_def\<close>)
  next
    case True
    let ?n = "num (cache s1 c)"
    have c3: "cache s3 c = g (cache s1 c)" by (simp add: s3_def s2_def)
    show ?thesis unfolding True
      by (rule lists_moved [where xp = "if ?a = ?n - 1 then [x] else []" and xf = "[]"
            and xe = "if ?a \<noteq> ?n - 1 \<and> ?a = 0 then [x] else []", OF lo [OF c] subset_refl sl(4,3) _ _ _ _ _ _ _ sl(1)])
        (use lt in \<open>auto simp: c3 g_def Let_def detach_slab_def sl(2)\<close>)
  qed
  then have "mem_inv s3 ps B K L" using b3 by (simp add: mem_inv_def)
  moreover have "ac_avail (cache s3 c) cpu = i" using g by (simp add: s3_def s2_def s1_def)
  moreover have "owner_cache (slab s3 y) = owner_cache (slab s y)" for y by (simp add: s3_def s2_def s1_def)
  moreover have "osize s3 = osize s" using g by (simp add: fun_eq_iff osize_def s3_def s2_def s1_def)
  ultimately show ?thesis using run by blast
qed

text \<open>Putting an object in use at the end of the array of a cpu.\<close>

lemma array_push:
  assumes inv: "mem_inv s ps B K L" and c: "c = owner_cache (slab s (PAGE_BASE p))" and cpu: "cpu < 4" and p: "p \<in> L"
    and av: "ac_avail (cache s c) cpu < AC_LIMIT"
    and s': "s' = upd_cache c (\<lambda>n. n\<lparr>ac_entry := (ac_entry n)(cpu := (ac_entry n cpu)[ac_avail (cache s c) cpu := p]),
      ac_avail := (ac_avail n)(cpu := ac_avail (cache s c) cpu + 1)\<rparr>) s"
  shows "mem_inv s' ps B K (L - {p})"
proof -
  have b: "base_ok s ps B K L" using inv by (simp add: mem_inv_def)
  have ob: "objects_ok s B K L" using b by (simp add: base_ok_def)
  have L: "L = (\<Union>x \<in> B. taken s x) - (\<Union>k \<in> K. set (cached s k))" using ob by (simp add: objects_ok_def)
  obtain y where y: "y \<in> B" "p \<in> taken s y" using p unfolding L by auto
  then have own: "owner_cache (slab s y) = c" using taken_page [OF b y] c by simp
  then have cK: "c \<in> K" using b y(1) by (auto simp: base_ok_def slab_ok_def)
  have ac: "ac_avail (cache s c) j \<le> AC_LIMIT \<and> length (ac_entry (cache s c) j) = AC_LIMIT" for j
    using b cK by (simp add: base_ok_def cache_ok_def)
  have m: "mset (cached s' c) = mset [p] + mset (cached s c)"
    unfolding cached_def by (rule concat_upd [OF cpu]) (use av ac [of cpu] in \<open>simp_all add: s' take_Suc_conv_app_nth\<close>)
  have st: "set (cached s' c) = insert p (set (cached s c))" using mset_eq_setD [of "cached s' c" "p # cached s c"] m by simp
  have "distinct (cached s c)" "p \<notin> set (cached s c)" using ob cK p L by (auto simp: objects_ok_def)
  then have d: "distinct (cached s' c)" using m mset_eq_imp_distinct_iff [of "cached s' c" "p # cached s c"] by simp
  have sub: "set (cached s' c) \<subseteq> (\<Union>x \<in> {x \<in> B. owner_cache (slab s x) = c}. taken s x)"
    using ob cK y own unfolding st objects_ok_def by auto
  have "(\<Union>k \<in> insert c (K - {c}). set (cached s k)) = set (cached s c) \<union> (\<Union>k \<in> K - {c}. set (cached s k))" by (rule UN_insert)
  then have un: "(\<Union>k \<in> K. set (cached s k)) = set (cached s c) \<union> (\<Union>k \<in> K - {c}. set (cached s k))" by (simp only: insert_Diff [OF cK])
  have "L - {p} = (\<Union>x \<in> B. taken s x) - (set (cached s' c) \<union> (\<Union>k \<in> K - {c}. set (cached s k)))"
    unfolding L un st by auto
  then have "base_ok s' ps B K (L - {p})"
    using d sub ac av by (intro base_array [OF b cK s']) simp_all
  then show ?thesis using inv unfolding mem_inv_def s' by (simp add: lists_array)
qed

lemma kfree_ok:
  assumes inv: "mem_inv s ps B K L" and p: "p \<in> L" and cpu: "cpu < 4"
  shows "\<exists>s'. kfree cpu p s = Some s' \<and> mem_inv s' ps B K (L - {p}) \<and> osize s' = osize s"
proof -
  define c where "c = owner_cache (slab s (PAGE_BASE p))"
  have b: "base_ok s ps B K L" using inv by (simp add: mem_inv_def)
  then have "PAGE_BASE p \<in> B" using free_obj_ok [OF b p refl refl refl] by simp
  then have cK: "c \<in> K" using b by (simp add: base_ok_def slab_ok_def c_def)
  have le: "ac_avail (cache s c) cpu \<le> AC_LIMIT" using b cK by (simp add: base_ok_def cache_ok_def)
  obtain s1 where s1: "(if ac_avail (cache s c) cpu = AC_LIMIT then cache_flusharray cpu c s else Some s) = Some s1"
      "mem_inv s1 ps B K L" "owner_cache (slab s1 (PAGE_BASE p)) = c" "ac_avail (cache s1 c) cpu < AC_LIMIT" "osize s1 = osize s"
  proof (cases "ac_avail (cache s c) cpu = AC_LIMIT")
    case True
    then have av: "ac_avail (cache s c) cpu = Suc 9" by simp
    from flush_ok [OF inv cK cpu av] obtain t where "cache_flusharray cpu c s = Some t" "mem_inv t ps B K L" "ac_avail (cache t c) cpu = 9"
        "owner_cache (slab t (PAGE_BASE p)) = c" "osize t = osize s" unfolding c_def by auto
    then show ?thesis using that True by simp
  next
    case False
    then have "ac_avail (cache s c) cpu < AC_LIMIT" using le by linarith
    then show ?thesis using False by (intro that [of s, OF _ inv c_def [symmetric]]) simp_all
  qed
  obtain i where i: "ac_avail (cache s1 c) cpu = i" by blast
  define s2 where "s2 = upd_cache c (\<lambda>n. n\<lparr>ac_entry := (ac_entry n)(cpu := (ac_entry n cpu)[i := p]), ac_avail := (ac_avail n)(cpu := i + 1)\<rparr>) s1"
  have "mem_inv s2 ps B K (L - {p})" by (rule array_push [OF s1(2) s1(3) [symmetric] cpu p s1(4) s2_def [folded i]])
  moreover have "kfree cpu p s = Some s2"
  proof -
    have s1': "(if ac_avail (cache s c) cpu = AC_LIMIT then cache_flusharray cpu c s else Some s) \<bind> f = f s1" for f :: "mem_state \<Rightarrow> mem_state option"
      using s1(1) by simp
    have "kfree cpu p s = (if i < AC_LIMIT then
        if ac_avail (cache s2 c) cpu = 0 \<and> slabs_full (cache s2 c) = [] \<and> slabs_partial (cache s2 c) = []
        then Some (kfree_page (PAGE_BASE p) s2) else Some s2 else None)"
      unfolding kfree_def Let_def c_def [symmetric] s1' i s2_def [symmetric] by (rule refl)
    then show ?thesis using s1(4) i by (simp add: s2_def)
  qed
  moreover have "osize s2 = osize s" unfolding s1(5) [symmetric] by (simp add: fun_eq_iff osize_def s2_def)
  ultimately show ?thesis by blast
qed

end
