(* ===== verification/Mem_Heap.thy ===== *)
theory Mem_Heap
  imports Mem_Proofs
begin

text \<open>
  Every run of the allocator from the initialised pages: calls of \<open>kalloc\<close>, \<open>kfree\<close>,
  \<open>kalloc_page\<close>, \<open>kfree_page\<close> and \<open>get_zero_page\<close> in any order on any cpus. The run keeps the
  objects in use with the sizes they were asked for, and the pages in use.
\<close>

section \<open>Runs\<close>

definition boot_mem :: "nat \<Rightarrow> nat \<Rightarrow> mem_state" where
  "boot_mem start phystop = init_pages start phystop
     \<lparr>page_head = 0, page_next = (\<lambda>_. 0), alloc_page_cnt = 0, zero_page = 0, zero_page_cnt = 0,
      slab = (\<lambda>_. \<lparr>colour = 0, active = 0, owner_cache = 0, freelist = []\<rparr>),
      cache = (\<lambda>_. \<lparr>num = 0, object_size = 0, ac_avail = (\<lambda>_. 0), ac_entry = (\<lambda>_. []), slabs_partial = [], slabs_full = [], slabs_free = []\<rparr>),
      kmem_cache_array = (\<lambda>_. 0)\<rparr>"

inductive mem_run :: "nat \<Rightarrow> nat \<Rightarrow> mem_state \<Rightarrow> (nat \<rightharpoonup> nat) \<Rightarrow> nat set \<Rightarrow> bool" for start phystop where
  boot: "mem_run start phystop (boot_mem start phystop) Map.empty {}"
| alloc: "mem_run start phystop s L P \<Longrightarrow> 0 < z \<Longrightarrow> z < 2048 \<Longrightarrow> cpu < 4 \<Longrightarrow> kalloc cpu z s = Some (p, s') \<Longrightarrow>
    mem_run start phystop s' (L(p \<mapsto> z)) P"
| free: "mem_run start phystop s L P \<Longrightarrow> p \<in> dom L \<Longrightarrow> cpu < 4 \<Longrightarrow> kfree cpu p s = Some s' \<Longrightarrow>
    mem_run start phystop s' (L(p := None)) P"
| alloc_page: "mem_run start phystop s L P \<Longrightarrow> kalloc_page s = (x, s') \<Longrightarrow> mem_run start phystop s' L (if x = 0 then P else insert x P)"
| free_page: "mem_run start phystop s L P \<Longrightarrow> x \<in> P \<Longrightarrow> mem_run start phystop (kfree_page x s) L (P - {x})"
| zero_page: "mem_run start phystop s L P \<Longrightarrow> page_head s \<noteq> 0 \<or> zero_page s \<noteq> 0 \<Longrightarrow> mem_run start phystop (snd (get_zero_page s)) L P"
| free_zero: "mem_run start phystop s L P \<Longrightarrow> zero_page s \<noteq> 0 \<Longrightarrow> mem_run start phystop (kfree_page (zero_page s) s) L P"

text \<open>The invariant of a run: the pages in use, the zero page, the slabs and the free pages are disjoint.\<close>

definition heap_inv :: "mem_state \<Rightarrow> (nat \<rightharpoonup> nat) \<Rightarrow> nat set \<Rightarrow> nat list \<Rightarrow> nat set \<Rightarrow> nat set \<Rightarrow> bool" where
  "heap_inv s L P ps B K \<longleftrightarrow> mem_inv s ps B K (dom L) \<and> (\<forall>p z. L p = Some z \<longrightarrow> osize s (PAGE_BASE p) = z) \<and>
     (let Q = (if zero_page s = 0 then P else insert (zero_page s) P)
      in Q \<inter> (B \<union> set ps) = {} \<and> (\<forall>x \<in> Q. PAGE_SIZE dvd x \<and> x \<noteq> 0)) \<and> (zero_page s \<noteq> 0 \<longrightarrow> zero_page s \<notin> P)"

lemma chain_push:
  assumes "chain h f ps" and "x \<noteq> 0" and "x \<notin> set ps"
  shows "chain x (f(x := h)) (x # ps)"
proof -
  have "chain h (f(x := v)) ps" for v using assms(1,3) by (induction ps arbitrary: h) auto
  then show ?thesis using assms(2) by simp
qed

lemma add_to_queue_fields [simp]:
  "page_next (add_to_queue p s) = (page_next s)(p := page_head s)" "page_head (add_to_queue p s) = p" "slab (add_to_queue p s) = slab s"
  "cache (add_to_queue p s) = cache s" "kmem_cache_array (add_to_queue p s) = kmem_cache_array s" "zero_page (add_to_queue p s) = zero_page s"
  unfolding add_to_queue_def by simp_all

lemma init_pages_chain:
  assumes "PAGE_SIZE dvd p" and "0 < p" and "chain (page_head s) (page_next s) ps" and "set ps \<subseteq> {..<p}" and "distinct ps"
    and "\<forall>q \<in> set ps. PAGE_SIZE dvd q"
  shows "\<exists>ps'. chain (page_head (init_pages p phystop s)) (page_next (init_pages p phystop s)) ps' \<and> distinct ps' \<and>
    (\<forall>q \<in> set ps'. PAGE_SIZE dvd q) \<and> slab (init_pages p phystop s) = slab s \<and> cache (init_pages p phystop s) = cache s \<and>
    kmem_cache_array (init_pages p phystop s) = kmem_cache_array s \<and> zero_page (init_pages p phystop s) = zero_page s"
  using assms
proof (induction p phystop s arbitrary: ps rule: init_pages.induct)
  case (1 p phystop s)
  show ?case
  proof (cases "p < phystop")
    case True
    have np: "p \<notin> set ps" using "1.prems"(4) by auto
    have ch: "chain (page_head (add_to_queue p s)) (page_next (add_to_queue p s)) (p # ps)"
      unfolding add_to_queue_fields by (rule chain_push [OF "1.prems"(3) _ np]) (use "1.prems"(2) in simp)
    have sub: "set (p # ps) \<subseteq> {..<p + PAGE_SIZE}" using "1.prems"(4) by auto
    have "\<exists>ps'. chain (page_head (init_pages (p + PAGE_SIZE) phystop (add_to_queue p s))) (page_next (init_pages (p + PAGE_SIZE) phystop (add_to_queue p s))) ps' \<and>
      distinct ps' \<and> (\<forall>q \<in> set ps'. PAGE_SIZE dvd q) \<and> slab (init_pages (p + PAGE_SIZE) phystop (add_to_queue p s)) = slab (add_to_queue p s) \<and>
      cache (init_pages (p + PAGE_SIZE) phystop (add_to_queue p s)) = cache (add_to_queue p s) \<and>
      kmem_cache_array (init_pages (p + PAGE_SIZE) phystop (add_to_queue p s)) = kmem_cache_array (add_to_queue p s) \<and>
      zero_page (init_pages (p + PAGE_SIZE) phystop (add_to_queue p s)) = zero_page (add_to_queue p s)"
      using "1.prems" np by (intro "1.IH" [OF True _ _ ch sub]) simp_all
    then show ?thesis using True by (simp add: init_pages.simps [of p])
  next
    case False
    then show ?thesis using "1.prems" by (auto simp: init_pages.simps [of p])
  qed
qed

lemma heap_boot:
  assumes "PAGE_SIZE dvd start" and "0 < start"
  shows "\<exists>ps B K. heap_inv (boot_mem start phystop) Map.empty {} ps B K"
proof -
  define s0 where "s0 = \<lparr>page_head = 0, page_next = (\<lambda>_. 0), alloc_page_cnt = 0, zero_page = 0, zero_page_cnt = 0,
      slab = (\<lambda>_. \<lparr>colour = 0, active = 0, owner_cache = 0, freelist = []\<rparr>),
      cache = (\<lambda>_. \<lparr>num = 0, object_size = 0, ac_avail = (\<lambda>_. 0), ac_entry = (\<lambda>_. []), slabs_partial = [], slabs_full = [], slabs_free = []\<rparr>),
      kmem_cache_array = (\<lambda>_. 0)\<rparr>"
  obtain ps where "chain (page_head (boot_mem start phystop)) (page_next (boot_mem start phystop)) ps" "distinct ps" "\<forall>q \<in> set ps. PAGE_SIZE dvd q"
      "kmem_cache_array (boot_mem start phystop) = (\<lambda>_. 0)" "zero_page (boot_mem start phystop) = 0"
    using init_pages_chain [OF assms, of s0 "[]" phystop] by (auto simp: boot_mem_def s0_def)
  then have "heap_inv (boot_mem start phystop) Map.empty {} ps {} {}"
    by (simp add: heap_inv_def mem_inv_def base_ok_def objects_ok_def)
  then show ?thesis by blast
qed

section \<open>Pages\<close>

text \<open>The invariant of the objects looks at the stack of pages and nothing else of them.\<close>

lemma mem_inv_pages:
  assumes "mem_inv s ps B K L" and "slab s' = slab s" and "cache s' = cache s" and "kmem_cache_array s' = kmem_cache_array s"
    and "chain (page_head s') (page_next s') ps'" and "distinct ps'" and "set ps' \<inter> B = {}" and "\<forall>p \<in> set ps'. PAGE_SIZE dvd p"
  shows "mem_inv s' ps' B K L"
proof -
  have d: "onum s' = onum s" "osize s' = osize s" "cached s' = cached s" "free_idx s' = free_idx s"
    using assms(2,3) by (simp_all add: fun_eq_iff onum_def osize_def cached_def free_idx_def)
  then have t: "taken s' = taken s" by (simp add: fun_eq_iff taken_def obj_def cong: image_cong)
  have "slab_ok s' = slab_ok s" "cache_ok s' = cache_ok s" "objects_ok s' = objects_ok s" "lists_ok s' = lists_ok s"
    unfolding fun_eq_iff slab_ok_def cache_ok_def objects_ok_def lists_ok_def d t assms(2-4) by simp_all
  then show ?thesis using assms(1,5-8) by (simp add: mem_inv_def base_ok_def assms(3,4))
qed

lemma mem_inv_chain: "mem_inv s ps B K L \<Longrightarrow> chain (page_head s) (page_next s) ps \<and> distinct ps \<and> set ps \<inter> B = {} \<and> (\<forall>p \<in> set ps. PAGE_SIZE dvd p)"
  by (simp add: mem_inv_def base_ok_def)

lemma osize_frame: "slab s' = slab s \<Longrightarrow> cache s' = cache s \<Longrightarrow> osize s' = osize s"
  by (simp add: fun_eq_iff osize_def)

lemma heap_take_page:
  assumes h: "heap_inv s L P ps B K" and s': "page_next s' = page_next s" "slab s' = slab s" "cache s' = cache s"
      "kmem_cache_array s' = kmem_cache_array s" "page_head s' = page_next s (page_head s)" and x: "page_head s = x" "x \<noteq> 0"
    and z: "zero_page s' = zero_page s \<and> P' = insert x P \<or> zero_page s = 0 \<and> zero_page s' = x \<and> P' = P"
  shows "\<exists>qs. heap_inv s' L P' qs B K"
proof -
  have c: "chain (page_head s) (page_next s) ps" "distinct ps" "set ps \<inter> B = {}" "\<forall>p \<in> set ps. PAGE_SIZE dvd p"
    using h mem_inv_chain [of s ps B K "dom L"] by (simp_all add: heap_inv_def)
  obtain qs where ps: "ps = x # qs" using c(1) x by (cases ps) auto
  have "mem_inv s' qs B K (dom L)"
    by (rule mem_inv_pages [of s ps]) (use h c x in \<open>auto simp: heap_inv_def s' ps\<close>)
  then have "heap_inv s' L P' qs B K"
    using h z c x osize_frame [OF s'(2,3)] unfolding heap_inv_def ps Let_def by (auto split: if_splits)
  then show ?thesis by blast
qed

lemma heap_put_page:
  assumes h: "heap_inv s L P ps B K" and s': "page_next s' = (page_next s)(x := page_head s)" "slab s' = slab s" "cache s' = cache s"
      "kmem_cache_array s' = kmem_cache_array s" "page_head s' = x"
    and z: "x \<in> P \<and> x \<noteq> zero_page s \<and> zero_page s' = zero_page s \<and> P' = P - {x} \<or> zero_page s = x \<and> x \<noteq> 0 \<and> zero_page s' = 0 \<and> P' = P"
  shows "heap_inv s' L P' (x # ps) B K"
proof -
  have c: "chain (page_head s) (page_next s) ps" "distinct ps" "set ps \<inter> B = {}" "\<forall>p \<in> set ps. PAGE_SIZE dvd p"
    using h mem_inv_chain [of s ps B K "dom L"] by (simp_all add: heap_inv_def)
  have x: "x \<noteq> 0" "x \<notin> set ps" "x \<notin> B" "PAGE_SIZE dvd x" using h z by (auto simp: heap_inv_def Let_def split: if_splits)
  have "mem_inv s' (x # ps) B K (dom L)"
    by (rule mem_inv_pages [of s ps]) (use h c x chain_push [OF c(1) x(1,2)] in \<open>auto simp: heap_inv_def s' simp del: chain.simps\<close>)
  then show ?thesis
    using h z x osize_frame [OF s'(2,3)] unfolding heap_inv_def Let_def by (auto split: if_splits)
qed

lemma kalloc_zero_page: "kalloc cpu z s = Some (p, s') \<Longrightarrow> zero_page s' = zero_page s"
  by (auto simp: kalloc_def alloc_partial_def alloc_free_def alloc_obj_def new_slab_def init_slab_node_def init_cache_node_def upd_slab_def upd_cache_def
    kalloc_page_def fetch_from_queue_def Let_def split: if_splits prod.splits bind_splits)

lemma kfree_zero_page:
  assumes "kfree cpu p s = Some s'"
  shows "zero_page s' = zero_page s"
proof -
  have "zero_page t = zero_page s" if "cache_flusharray cpu c s = Some t" for c t
    using that by (auto simp: cache_flusharray_def upd_slab_def upd_cache_def Let_def split: if_splits)
  then show ?thesis using assms by (auto simp: kfree_def upd_cache_def Let_def split: if_splits bind_splits)
qed

lemma heap_alloc:
  assumes h: "heap_inv s L P ps B K" and "0 < z" and "z < 2048" and "cpu < 4" and k: "kalloc cpu z s = Some (p, s')"
  shows "p \<notin> dom L \<and> (\<exists>ps' B' K'. heap_inv s' (L(p \<mapsto> z)) P ps' B' K')"
proof -
  have inv: "mem_inv s ps B K (dom L)" using h by (simp add: heap_inv_def)
  obtain ps' B' K' where a: "p \<notin> dom L" "osize s' (PAGE_BASE p) = z" "\<forall>y \<in> B. osize s' y = osize s y"
      "mem_inv s' ps' B' K' (insert p (dom L))" "B' \<union> set ps' = B \<union> set ps"
    using kalloc_ok [OF inv assms(2-4)] k by auto
  have "PAGE_BASE q \<in> B" if "q \<in> dom L" for q using free_obj_ok [OF _ that refl refl refl] inv by (auto simp: mem_inv_def)
  then have "heap_inv s' (L(p \<mapsto> z)) P ps' B' K'"
    using h a kalloc_zero_page [OF k] unfolding heap_inv_def by (auto simp: domI)
  then show ?thesis using a(1) by blast
qed

lemma heap_free:
  assumes h: "heap_inv s L P ps B K" and "p \<in> dom L" and "cpu < 4"
  shows "\<exists>s'. kfree cpu p s = Some s' \<and> heap_inv s' (L(p := None)) P ps B K"
proof -
  have inv: "mem_inv s ps B K (dom L)" using h by (simp add: heap_inv_def)
  obtain s' where a: "kfree cpu p s = Some s'" "mem_inv s' ps B K (dom L - {p})" "osize s' = osize s"
    using kfree_ok [OF inv assms(2,3)] by blast
  then have "heap_inv s' (L(p := None)) P ps B K"
    using h kfree_zero_page [OF a(1)] unfolding heap_inv_def Let_def by auto
  then show ?thesis using a(1) by blast
qed

lemma mem_run_inv:
  assumes "mem_run start phystop s L P" and st: "PAGE_SIZE dvd start" "0 < start"
  shows "\<exists>ps B K. heap_inv s L P ps B K"
  using assms(1)
proof (induction rule: mem_run.induct)
  case boot
  then show ?case by (rule heap_boot [OF st])
next
  case (alloc s L P z cpu p s')
  then show ?case using heap_alloc by blast
next
  case (free s L P p cpu s')
  then show ?case using heap_free by (metis option.inject)
next
  case (alloc_page s L P x s')
  then obtain ps B K where h: "heap_inv s L P ps B K" by blast
  show ?case
  proof (cases "x = 0")
    case True
    then have s': "page_head s = 0" "s' = s\<lparr>alloc_page_cnt := alloc_page_cnt s + 1\<rparr>"
      using alloc_page.hyps by (auto simp: kalloc_page_def fetch_from_queue_def Let_def split: if_splits)
    have "mem_inv s' ps B K (dom L)"
      by (rule mem_inv_pages [of s ps]) (use h mem_inv_chain [of s ps B K "dom L"] in \<open>auto simp: s' heap_inv_def\<close>)
    then have "heap_inv s' L P ps B K" using h unfolding heap_inv_def by (auto simp: s'(2) osize_def)
    then show ?thesis using True by auto
  next
    case False
    then have "page_head s = x" "s' = s\<lparr>alloc_page_cnt := alloc_page_cnt s + 1, page_head := page_next s x\<rparr>"
      using alloc_page.hyps by (auto simp: kalloc_page_def fetch_from_queue_def Let_def split: if_splits)
    then have "\<exists>qs. heap_inv s' L (insert x P) qs B K" using False by (intro heap_take_page [OF h, where x = x]) auto
    then show ?thesis using False by auto
  qed
next
  case (free_page s L P x)
  then obtain ps B K where h: "heap_inv s L P ps B K" by blast
  have z: "x \<noteq> zero_page s" using h free_page.hyps by (auto simp: heap_inv_def Let_def split: if_splits)
  then have "heap_inv (kfree_page x s) L (P - {x}) (x # ps) B K"
    using free_page.hyps by (intro heap_put_page [OF h]) (simp_all add: kfree_page_def)
  then show ?case by blast
next
  case (zero_page s L P)
  then obtain ps B K where h: "heap_inv s L P ps B K" by blast
  show ?case
  proof (cases "zero_page s = 0")
    case True
    then have "\<exists>qs. heap_inv (snd (get_zero_page s)) L P qs B K" using zero_page.hyps
      by (intro heap_take_page [OF h]) (simp_all add: get_zero_page_def kalloc_page_def fetch_from_queue_def Let_def)
    then show ?thesis by blast
  next
    case False
    then have s': "snd (get_zero_page s) = s\<lparr>zero_page_cnt := zero_page_cnt s + 1\<rparr>" by (simp add: get_zero_page_def Let_def)
    have "mem_inv (snd (get_zero_page s)) ps B K (dom L)"
      by (rule mem_inv_pages [of s ps]) (use h mem_inv_chain [of s ps B K "dom L"] in \<open>auto simp: s' heap_inv_def\<close>)
    then have "heap_inv (snd (get_zero_page s)) L P ps B K" using h unfolding heap_inv_def by (auto simp: s' osize_def)
    then show ?thesis by blast
  qed
next
  case (free_zero s L P)
  then obtain ps B K where h: "heap_inv s L P ps B K" by blast
  show ?case
  proof (cases "zero_page_cnt s = 1")
    case True
    then have "heap_inv (kfree_page (zero_page s) s) L P (zero_page s # ps) B K"
      using free_zero.hyps by (intro heap_put_page [OF h]) (simp_all add: kfree_page_def Let_def)
    then show ?thesis by blast
  next
    case False
    then have s': "kfree_page (zero_page s) s = s\<lparr>zero_page_cnt := zero_page_cnt s - 1\<rparr>" by (simp add: kfree_page_def Let_def)
    have "mem_inv (kfree_page (zero_page s) s) ps B K (dom L)"
      by (rule mem_inv_pages [of s ps]) (use h mem_inv_chain [of s ps B K "dom L"] in \<open>auto simp: s' heap_inv_def\<close>)
    then have "heap_inv (kfree_page (zero_page s) s) L P ps B K" using h unfolding heap_inv_def by (auto simp: s' osize_def)
    then show ?thesis by blast
  qed
qed

section \<open>What the callers rely on\<close>

text \<open>(C10) In every run of the allocator, an object in use has the size it was asked for, lies in one page between the slab's
  descriptor at its start and the cache's at its end, shares no byte with another object in use, and its page is not one of the
  pages handed out by \<open>kalloc_page\<close> nor the zero page.\<close>

theorem heap_disjoint:
  assumes "mem_run start phystop s L P" and "PAGE_SIZE dvd start" and "0 < start" and "L p = Some z"
  shows "0 < z \<and> PAGE_BASE p + 48 \<le> p \<and> p + z \<le> PAGE_BASE p + PAGE_SIZE - sizeof_CacheNode \<and> PAGE_BASE p \<notin> P \<and>
    PAGE_BASE p \<noteq> zero_page s \<and> (\<forall>q w. L q = Some w \<longrightarrow> q \<noteq> p \<longrightarrow> p + z \<le> q \<or> q + w \<le> p)"
proof -
  obtain ps B K where h: "heap_inv s L P ps B K" using mem_run_inv [OF assms(1-3)] by blast
  then have b: "base_ok s ps B K (dom L)" by (simp add: heap_inv_def mem_inv_def)
  have at: "\<exists>i < onum s (PAGE_BASE q). q = obj s (PAGE_BASE q) i \<and> PAGE_BASE q \<in> B \<and> osize s (PAGE_BASE q) = w" if "L q = Some w" for q w
  proof -
    have "q \<in> dom L" using that by auto
    then have "PAGE_BASE q \<in> B" "q \<in> taken s (PAGE_BASE q)" using free_obj_ok [OF b _ refl refl refl, of q] by auto
    moreover have "osize s (PAGE_BASE q) = w" using h that by (simp add: heap_inv_def)
    ultimately show ?thesis by (auto simp: taken_def)
  qed
  obtain i where i: "i < onum s (PAGE_BASE p)" "p = obj s (PAGE_BASE p) i" "PAGE_BASE p \<in> B" "osize s (PAGE_BASE p) = z" using at [OF assms(4)] by blast
  have bp: "PAGE_BASE p + 48 \<le> p" "p + z \<le> PAGE_BASE p + 3656" "0 < z" using obj_bounds [OF b i(3,1)] i(2,4) by auto
  have "p + z \<le> q \<or> q + w \<le> p" if q: "L q = Some w" "q \<noteq> p" for q w
  proof -
    obtain j where j: "j < onum s (PAGE_BASE q)" "q = obj s (PAGE_BASE q) j" "PAGE_BASE q \<in> B" "osize s (PAGE_BASE q) = w" using at [OF q(1)] by blast
    have bq: "PAGE_BASE q + 48 \<le> q" "q + w \<le> PAGE_BASE q + 3656" using obj_bounds [OF b j(3,1)] j(2,4) by auto
    show ?thesis
    proof (cases "PAGE_BASE p = PAGE_BASE q")
      case False
      have "PAGE_SIZE dvd PAGE_BASE p" "PAGE_SIZE dvd PAGE_BASE q" using b i(3) j(3) by (auto simp: base_ok_def slab_ok_def)
      then have "PAGE_BASE p + PAGE_SIZE \<le> PAGE_BASE q \<or> PAGE_BASE q + PAGE_SIZE \<le> PAGE_BASE p" using False by (auto elim!: dvdE)
      then show ?thesis using bp bq by linarith
    next
      case True
      then have w: "w = z" using i(4) j(4) by simp
      have qj: "q = obj s (PAGE_BASE p) j" using j(2) True by simp
      then have "i \<noteq> j" using i(2) q(2) by auto
      then have "i * z + z \<le> j * z \<or> j * z + z \<le> i * z" by (metis add.commute linorder_neqE_nat mult_Suc mult_le_mono1 Suc_leI)
      then show ?thesis using i(2,4) qj w by (simp add: obj_def) linarith
    qed
  qed
  moreover have "PAGE_BASE p \<notin> P \<and> PAGE_BASE p \<noteq> zero_page s"
    using h i(3) b by (auto simp: heap_inv_def Let_def base_ok_def slab_ok_def split: if_splits)
  ultimately show ?thesis using bp by simp
qed

text \<open>(C30) \<open>kalloc\<close> of a size between 1 and 2047 returns an object that is not in use whenever a free page is left, and \<open>kfree\<close> of
  an object in use always returns, on every cpu.\<close>

theorem kalloc_kfree_return:
  assumes "mem_run start phystop s L P" and "PAGE_SIZE dvd start" and "0 < start" and "0 < z" and "z < 2048" and "cpu < 4"
  shows "(page_head s \<noteq> 0 \<longrightarrow> (\<exists>p s'. kalloc cpu z s = Some (p, s') \<and> L p = None)) \<and> (\<forall>p \<in> dom L. \<exists>s'. kfree cpu p s = Some s')"
proof -
  obtain ps B K where h: "heap_inv s L P ps B K" using mem_run_inv [OF assms(1-3)] by blast
  then have inv: "mem_inv s ps B K (dom L)" by (simp add: heap_inv_def)
  have "ps \<noteq> []" if "page_head s \<noteq> 0" using mem_inv_chain [OF inv] that by auto
  then have "\<exists>p s'. kalloc cpu z s = Some (p, s') \<and> L p = None" if "page_head s \<noteq> 0"
    using kalloc_ok [OF inv assms(4-6)] that by (auto split: option.splits)
  then show ?thesis using heap_free [OF h _ assms(6)] by blast
qed

definition mem_run_1 :: mem_state where
  "mem_run_1 = snd (the (kalloc 0 1000 (boot_mem 4096 12288)))"

definition mem_run_2 :: mem_state where
  "mem_run_2 = snd (the (kalloc 1 1000 mem_run_1))"

lemmas sample_defs = boot_mem_def init_pages.simps add_to_queue_def kalloc_def kalloc_page_def fetch_from_queue_def PAGE_BASE_def
  init_cache_node_def new_slab_def init_slab_node_def upd_slab_def upd_cache_def alloc_partial_def alloc_obj_def obj_base_def detach_slab_def Let_def

lemma sample_eval: "map_option fst (kalloc 0 1000 (boot_mem 4096 12288)) = Some 8248" "map_option fst (kalloc 1 1000 mem_run_1) = Some 9248"
  "page_head mem_run_2 = 4096" "PAGE_BASE 8248 = 8192"
  by (simp_all add: mem_run_1_def mem_run_2_def sample_defs upt_rec)

lemma sample_alloc: "kalloc 0 1000 (boot_mem 4096 12288) = Some (8248, mem_run_1)" "kalloc 1 1000 mem_run_1 = Some (9248, mem_run_2)"
  using sample_eval(1,2) by (auto simp: mem_run_1_def mem_run_2_def)

lemma sample_run: "mem_run 4096 12288 mem_run_2 [8248 \<mapsto> 1000, 9248 \<mapsto> 1000] {}"
proof -
  have "mem_run 4096 12288 mem_run_1 [8248 \<mapsto> 1000] {}" by (rule mem_run.alloc [OF mem_run.boot _ _ _ sample_alloc(1)]) simp_all
  then show ?thesis by (rule mem_run.alloc [OF _ _ _ _ sample_alloc(2)]) simp_all
qed

theorem heap_disjoint_witness:
  "PAGE_BASE 8248 = 8192 \<and> mem_run 4096 12288 mem_run_2 [8248 \<mapsto> 1000, 9248 \<mapsto> 1000] {} \<and> PAGE_BASE 8248 \<noteq> zero_page mem_run_2"
  using heap_disjoint [OF sample_run, of 8248 1000] sample_run sample_eval(4) by simp

theorem kalloc_kfree_return_witness:
  "(\<exists>p s'. kalloc 2 1000 mem_run_2 = Some (p, s') \<and> p \<noteq> 8248) \<and> (\<exists>s'. kfree 3 9248 mem_run_2 = Some s')"
  using kalloc_kfree_return [OF sample_run, of 1000 2] kalloc_kfree_return [OF sample_run, of 1000 3] sample_eval(3)
  by (auto split: if_splits)

section \<open>Two defects\<close>

text \<open>A slab whose counter is neither full nor empty after the flush is left on no list: its free objects are
  not found again before all of its objects have been freed or a later flush sees a counter at an end.\<close>

lemma flush_loses_slab:
  assumes "cache_flusharray cpu c s = Some s'" and "x = PAGE_BASE (ac_entry (cache s c) cpu ! (ac_avail (cache s c) cpu - 1))"
    and "lists_ok s B c" and "1 < active (slab s x)" and "active (slab s x) < num (cache s c)"
  shows "x \<notin> set (slabs_partial (cache s' c)) \<union> set (slabs_full (cache s' c)) \<union> set (slabs_free (cache s' c))"
proof -
  have d: "distinct (slabs_partial (cache s c))" "distinct (slabs_full (cache s c))" "distinct (slabs_free (cache s c))"
    using assms(3) by (auto simp: lists_ok_def)
  let ?i = "ac_avail (cache s c) cpu - 1"
  have n: "active (slab s x) \<noteq> 0" "active (slab s x) - 1 \<noteq> num (cache s c) - 1" "active (slab s x) - 1 \<noteq> 0" using assms(4,5) by linarith+
  have "cache s' c = detach_slab x (cache s c\<lparr>ac_avail := (ac_avail (cache s c))(cpu := ?i)\<rparr>)"
    using assms(1) n unfolding cache_flusharray_def Let_def assms(2) [symmetric] by (simp add: detach_slab_def split: if_splits)
      (drule sym [of _ s'], simp add: detach_slab_def)
  then show ?thesis using d by (simp add: detach_slab_def)
qed

text \<open>The zero page is taken from the stack as it is: its first word is still the link to the next free page.\<close>

lemma get_zero_page_dirty:
  assumes "zero_page s = 0" and "chain (page_head s) (page_next s) (p # q # ps)"
  shows "\<exists>s'. get_zero_page s = (p, s') \<and> page_next s' p = q \<and> q \<noteq> 0"
  using assms by (auto simp: get_zero_page_def kalloc_page_def fetch_from_queue_def Let_def)

end
