(* ===== verification/Page_Table.thy ===== *)
theory Page_Table
  imports Mem_Heap
begin

text \<open>
  \<^verbatim>\<open>src/src/kernel/pt.c\<close>: the four-level page tables. The words of a table are kept by the
  kernel address of its page and the index in it; a pointer to an entry is that pair. Tables
  come from the page allocator of \<^verbatim>\<open>mem.c\<close>. A page directory is named by a number. \<open>None\<close> is an
  access through a null pointer, which happens when no page is left.
\<close>

section \<open>Addresses\<close>

abbreviation KSPACE_MASK :: u64 where "KSPACE_MASK \<equiv> 0xffff000000000000"
abbreviation PTE_VALID :: u64 where "PTE_VALID \<equiv> 1"
abbreviation PTE_TABLE :: u64 where "PTE_TABLE \<equiv> 3"
abbreviation N_PTE_PER_TABLE :: nat where "N_PTE_PER_TABLE \<equiv> 512"

definition K2P :: "u64 \<Rightarrow> u64" where
  "K2P a = a - KSPACE_MASK"

definition P2K :: "u64 \<Rightarrow> u64" where
  "P2K a = a + KSPACE_MASK"

definition PTE_ADDRESS :: "u64 \<Rightarrow> u64" where
  "PTE_ADDRESS pte = pte AND NOT 0xFFFF000000000FFF"

definition VA_PART0 :: "u64 \<Rightarrow> nat" where
  "VA_PART0 va = unat (drop_bit 39 (va AND 0xFF8000000000))"

definition VA_PART1 :: "u64 \<Rightarrow> nat" where
  "VA_PART1 va = unat (drop_bit 30 (va AND 0x7FC0000000))"

definition VA_PART2 :: "u64 \<Rightarrow> nat" where
  "VA_PART2 va = unat (drop_bit 21 (va AND 0x3FE00000))"

definition VA_PART3 :: "u64 \<Rightarrow> nat" where
  "VA_PART3 va = unat (drop_bit 12 (va AND 0x1FF000))"

section \<open>Tables\<close>

record vm_state =
  tab :: "u64 \<Rightarrow> nat \<Rightarrow> u64"
  pages :: mem_state
  pgdir_root :: "nat \<Rightarrow> u64"

definition set_pte :: "u64 \<times> nat \<Rightarrow> u64 \<Rightarrow> vm_state \<Rightarrow> vm_state" where
  "set_pte e v s = s\<lparr>tab := (tab s)(fst e := (tab s (fst e))(snd e := v))\<rparr>"

definition new_table :: "vm_state \<Rightarrow> (u64 \<times> vm_state) option" where
  "new_table s =
     (let (p, m) = kalloc_page (pages s) in
      if p = 0 then None
      else Some (of_nat p, s\<lparr>pages := m, tab := (tab s)(of_nat p := (\<lambda>_. 0))\<rparr>))"

text \<open>One level of the walk: the table that entry \<open>i\<close> of table \<open>t\<close> points to.\<close>

definition next_table :: "u64 \<Rightarrow> nat \<Rightarrow> bool \<Rightarrow> vm_state \<Rightarrow> (u64 option \<times> vm_state) option" where
  "next_table t i alloc s =
     (if tab s t i = 0 \<or> tab s t i AND PTE_VALID = 0 then
        if \<not> alloc then Some (None, s)
        else do { (p, s) \<leftarrow> new_table s; Some (Some p, set_pte (t, i) (K2P p OR PTE_TABLE) s) }
      else Some (Some (P2K (PTE_ADDRESS (tab s t i))), s))"

definition get_pt0 :: "nat \<Rightarrow> bool \<Rightarrow> vm_state \<Rightarrow> (u64 option \<times> vm_state) option" where
  "get_pt0 pgdir alloc s =
     (if pgdir_root s pgdir = 0 then
        if \<not> alloc then Some (None, s)
        else do { (p, s) \<leftarrow> new_table s; Some (Some p, s\<lparr>pgdir_root := (pgdir_root s)(pgdir := p)\<rparr>) }
      else Some (Some (pgdir_root s pgdir), s))"

definition get_pte :: "nat \<Rightarrow> u64 \<Rightarrow> bool \<Rightarrow> vm_state \<Rightarrow> ((u64 \<times> nat) option \<times> vm_state) option" where
  "get_pte pgdir va alloc s = do {
     (pt0, s) \<leftarrow> get_pt0 pgdir alloc s;
     case pt0 of None \<Rightarrow> Some (None, s) | Some pt0 \<Rightarrow> do {
       (pt1, s) \<leftarrow> next_table pt0 (VA_PART0 va) alloc s;
       case pt1 of None \<Rightarrow> Some (None, s) | Some pt1 \<Rightarrow> do {
         (pt2, s) \<leftarrow> next_table pt1 (VA_PART1 va) alloc s;
         case pt2 of None \<Rightarrow> Some (None, s) | Some pt2 \<Rightarrow> do {
           (pt3, s) \<leftarrow> next_table pt2 (VA_PART2 va) alloc s;
           case pt3 of None \<Rightarrow> Some (None, s) | Some pt3 \<Rightarrow> Some (Some (pt3, VA_PART3 va), s) } } } }"

definition vmmap :: "nat \<Rightarrow> u64 \<Rightarrow> u64 \<Rightarrow> u64 \<Rightarrow> vm_state \<Rightarrow> vm_state option" where
  "vmmap pd va ka flags s = do {
     (pte, s) \<leftarrow> get_pte pd va True s;
     e \<leftarrow> pte;
     Some (set_pte e (K2P ka OR flags OR PTE_VALID) s) }"

definition free_page :: "u64 \<Rightarrow> vm_state \<Rightarrow> vm_state" where
  "free_page a s = s\<lparr>pages := kfree_page (unat a) (pages s)\<rparr>"

text \<open>\<^verbatim>\<open>free_pt_r\<close>, by the number \<^verbatim>\<open>3 - num\<close> of levels below.\<close>

fun free_pt_r :: "nat \<Rightarrow> u64 \<Rightarrow> vm_state \<Rightarrow> vm_state" where
  "free_pt_r 0 pt s = (if pt \<noteq> 0 then free_page (P2K (PTE_ADDRESS pt)) s else s)"
| "free_pt_r (Suc k) pt s =
     (if pt \<noteq> 0 then
        let ptin = (if Suc k = 3 then pt else P2K (PTE_ADDRESS pt));
            s = fold (\<lambda>i s. free_pt_r k (tab s ptin i) s) [0..<N_PTE_PER_TABLE] s
        in free_page (P2K (PTE_ADDRESS pt)) s
      else s)"

declare free_pt_r.simps [simp del]

section \<open>Table addresses in entries\<close>

definition kaddr :: "u64 \<Rightarrow> bool" where
  "kaddr a \<longleftrightarrow> a AND 0xFFF = 0 \<and> a AND KSPACE_MASK = KSPACE_MASK"

definition dest :: "u64 \<Rightarrow> u64" where
  "dest e = P2K (PTE_ADDRESS e)"

definition table_entry :: "u64 \<Rightarrow> u64" where
  "table_entry a = K2P a OR PTE_TABLE"

text \<open>The masks, bit by bit; the simplifier reads the bits of a numeral word from its integer.\<close>

lemma bit_mask_int: "bit (k :: int) n \<longleftrightarrow> l \<le> n \<and> n < l + m" if "k = push_bit l (mask m)"
  unfolding that by (auto simp: bit_simps)

lemma bit_masks:
  "bit (0xFFF :: int) n \<longleftrightarrow> n < 12" "bit (0xffff000000000000 :: int) n \<longleftrightarrow> 48 \<le> n \<and> n < 64" "bit (3 :: int) n \<longleftrightarrow> n < 2" "bit (511 :: int) n \<longleftrightarrow> n < 9"
  "bit (0xFFFF000000000FFF :: int) n \<longleftrightarrow> n < 12 \<or> 48 \<le> n \<and> n < 64" "bit (0xFFFFFFFFF000 :: int) n \<longleftrightarrow> 12 \<le> n \<and> n < 48"
  "bit (0xFF8000000000 :: int) n \<longleftrightarrow> 39 \<le> n \<and> n < 48" "bit (0x7FC0000000 :: int) n \<longleftrightarrow> 30 \<le> n \<and> n < 39"
  "bit (0x3FE00000 :: int) n \<longleftrightarrow> 21 \<le> n \<and> n < 30" "bit (0x1FF000 :: int) n \<longleftrightarrow> 12 \<le> n \<and> n < 21"
proof -
  note m = bit_mask_int [unfolded push_bit_eq_mult mask_eq_exp_minus_1]
  show a: "bit (0xFFF :: int) n \<longleftrightarrow> n < 12" by (subst m [where l = 0 and m = 12]) simp_all
  show b: "bit (0xffff000000000000 :: int) n \<longleftrightarrow> 48 \<le> n \<and> n < 64" by (subst m [where l = 48 and m = 16]) simp_all
  show "bit (511 :: int) n \<longleftrightarrow> n < 9" by (subst m [where l = 0 and m = 9]) simp_all
  show "bit (3 :: int) n \<longleftrightarrow> n < 2" by (subst m [where l = 0 and m = 2]) (simp_all add: numeral_2_eq_2)
  have "(0xFFFF000000000FFF :: int) = 0xFFF OR 0xffff000000000000" by simp
  then show "bit (0xFFFF000000000FFF :: int) n \<longleftrightarrow> n < 12 \<or> 48 \<le> n \<and> n < 64" by (simp only: bit_or_iff a b)
  show "bit (0xFFFFFFFFF000 :: int) n \<longleftrightarrow> 12 \<le> n \<and> n < 48" by (subst m [where l = 12 and m = 36]) simp_all
  show "bit (0xFF8000000000 :: int) n \<longleftrightarrow> 39 \<le> n \<and> n < 48" by (subst m [where l = 39 and m = 9]) simp_all
  show "bit (0x7FC0000000 :: int) n \<longleftrightarrow> 30 \<le> n \<and> n < 39" by (subst m [where l = 30 and m = 9]) simp_all
  show "bit (0x3FE00000 :: int) n \<longleftrightarrow> 21 \<le> n \<and> n < 30" by (subst m [where l = 21 and m = 9]) simp_all
  show "bit (0x1FF000 :: int) n \<longleftrightarrow> 12 \<le> n \<and> n < 21" by (subst m [where l = 12 and m = 9]) simp_all
qed

lemma kaddr_bits:
  assumes "kaddr a"
  shows "(n < 12 \<longrightarrow> \<not> bit a n) \<and> (48 \<le> n \<and> n < 64 \<longrightarrow> bit a n)"
proof -
  have "bit (a AND 0xFFF) n = bit (0 :: u64) n" "bit (a AND KSPACE_MASK) n = bit KSPACE_MASK n"
    using assms by (simp_all add: kaddr_def)
  then show ?thesis by (auto simp: bit_simps bit_masks)
qed

lemma K2P_bits:
  assumes "kaddr a"
  shows "K2P a = a AND NOT KSPACE_MASK"
proof -
  have "a = (a AND NOT KSPACE_MASK) OR KSPACE_MASK"
    using kaddr_bits [OF assms] by (intro bit_word_eqI) (auto simp: bit_simps bit_masks)
  moreover have "(a AND NOT KSPACE_MASK) OR KSPACE_MASK = (a AND NOT KSPACE_MASK) + KSPACE_MASK"
    by (rule disjunctive_add [symmetric]) (auto simp: bit_simps)
  ultimately show ?thesis unfolding K2P_def by (metis add_diff_cancel_right')
qed

lemma P2K_or: "x AND KSPACE_MASK = 0 \<Longrightarrow> P2K x = x OR KSPACE_MASK"
  unfolding P2K_def by (rule disjunctive_add) (metis bit_0_eq bit_and_iff bot_apply bot_bool_def)

lemma dest_bits: "dest e = (e AND NOT 0xFFFF000000000FFF) OR KSPACE_MASK"
proof -
  have "PTE_ADDRESS e AND KSPACE_MASK = 0"
    unfolding PTE_ADDRESS_def by (intro bit_word_eqI) (auto simp: bit_simps bit_masks)
  then show ?thesis unfolding dest_def by (simp add: P2K_or PTE_ADDRESS_def)
qed

lemma dest_kaddr: "kaddr a \<Longrightarrow> dest a = a"
  unfolding dest_bits using kaddr_bits [of a]
  by (intro bit_word_eqI) (auto simp: bit_simps bit_masks)

lemma dest_entry [simp]: "kaddr a \<Longrightarrow> dest (table_entry a) = a"
  unfolding dest_bits table_entry_def using kaddr_bits [of a]
  by (intro bit_word_eqI) (auto simp: bit_simps bit_masks K2P_bits)

lemma table_entry_valid [simp]: "table_entry a AND PTE_VALID \<noteq> 0" "table_entry a \<noteq> 0"
proof -
  have "bit (table_entry a AND PTE_VALID) 0" by (simp add: table_entry_def bit_simps bit_masks)
  then show "table_entry a AND PTE_VALID \<noteq> 0" by (metis bit_0_eq bot_apply bot_bool_def)
  then show "table_entry a \<noteq> 0" by auto
qed

lemma kaddr_nonzero: "kaddr a \<Longrightarrow> a \<noteq> 0"
  using kaddr_bits [of a 50] by auto

section \<open>Virtual page numbers\<close>

definition vpn :: "u64 \<Rightarrow> nat list" where
  "vpn va = [VA_PART0 va, VA_PART1 va, VA_PART2 va, VA_PART3 va]"

lemma part_take_bit:
  "VA_PART0 va = unat (take_bit 9 (drop_bit 39 va))" "VA_PART1 va = unat (take_bit 9 (drop_bit 30 va))"
  "VA_PART2 va = unat (take_bit 9 (drop_bit 21 va))" "VA_PART3 va = unat (take_bit 9 (drop_bit 12 va))"
  unfolding VA_PART0_def VA_PART1_def VA_PART2_def VA_PART3_def
  by (rule arg_cong [of _ _ unat], intro bit_word_eqI, auto simp: bit_simps bit_masks)+

lemma unat_take_bit_less: "unat (take_bit 9 (w :: u64)) < 512"
proof -
  have "unat (take_bit 9 w) = take_bit 9 (unat w)" by (rule unsigned_take_bit_eq)
  then show ?thesis by (simp add: take_bit_eq_mod)
qed

lemma vpn_range: "i \<in> set (vpn va) \<Longrightarrow> i < N_PTE_PER_TABLE"
  by (auto simp: vpn_def part_take_bit unat_take_bit_less)

text \<open>Two addresses have the same page number when they agree on the bits 12 to 47.\<close>

lemma vpn_eq_iff: "vpn va = vpn wa \<longleftrightarrow> va AND 0xFFFFFFFFF000 = wa AND 0xFFFFFFFFF000"
proof -
  have t: "unat (take_bit 9 (drop_bit n va)) = unat (take_bit 9 (drop_bit n wa)) \<longleftrightarrow> (\<forall>i. n \<le> i \<and> i < n + 9 \<longrightarrow> bit va i = bit wa i)" for n
  proof
    assume "unat (take_bit 9 (drop_bit n va)) = unat (take_bit 9 (drop_bit n wa))"
    then have "take_bit 9 (drop_bit n va) = take_bit 9 (drop_bit n wa)" by (simp only: word_unat_eq_iff)
    then have "bit (take_bit 9 (drop_bit n va)) j = bit (take_bit 9 (drop_bit n wa)) j" for j by simp
    then have "j < 9 \<Longrightarrow> bit va (n + j) = bit wa (n + j)" for j unfolding bit_take_bit_iff bit_drop_bit_eq comp_apply by blast
    then show "\<forall>i. n \<le> i \<and> i < n + 9 \<longrightarrow> bit va i = bit wa i" by (metis le_add_diff_inverse less_diff_conv2 add.commute nat_add_left_cancel_less)
  next
    assume "\<forall>i. n \<le> i \<and> i < n + 9 \<longrightarrow> bit va i = bit wa i"
    then have "take_bit 9 (drop_bit n va) = take_bit 9 (drop_bit n wa)" by (intro bit_word_eqI) (auto simp: bit_simps)
    then show "unat (take_bit 9 (drop_bit n va)) = unat (take_bit 9 (drop_bit n wa))" by simp
  qed
  have "vpn va = vpn wa \<longleftrightarrow> (\<forall>i. 12 \<le> i \<and> i < 48 \<longrightarrow> bit va i = bit wa i)"
  proof -
    have "vpn va = vpn wa \<longleftrightarrow> (\<forall>i. (39 \<le> i \<and> i < 48 \<longrightarrow> bit va i = bit wa i) \<and> (30 \<le> i \<and> i < 39 \<longrightarrow> bit va i = bit wa i) \<and>
        (21 \<le> i \<and> i < 30 \<longrightarrow> bit va i = bit wa i) \<and> (12 \<le> i \<and> i < 21 \<longrightarrow> bit va i = bit wa i))"
      unfolding vpn_def part_take_bit by (simp add: t all_conj_distrib)
    moreover have "12 \<le> i \<and> i < 48 \<longleftrightarrow> 39 \<le> i \<and> i < 48 \<or> 30 \<le> i \<and> i < 39 \<or> 21 \<le> i \<and> i < 30 \<or> 12 \<le> i \<and> i < 21" for i :: nat by linarith
    ultimately show ?thesis by blast
  qed
  also have "\<dots> \<longleftrightarrow> va AND 0xFFFFFFFFF000 = wa AND 0xFFFFFFFFF000"
  proof
    assume "va AND 0xFFFFFFFFF000 = wa AND 0xFFFFFFFFF000"
    then have b: "bit (va AND 0xFFFFFFFFF000) i = bit (wa AND 0xFFFFFFFFF000) i" for i by simp
    have "bit va i = bit wa i" if "12 \<le> i" "i < 48" for i
      using b [of i] that by (simp add: bit_simps bit_masks)
    then show "\<forall>i. 12 \<le> i \<and> i < 48 \<longrightarrow> bit va i = bit wa i" by blast
  qed (intro bit_word_eqI, auto simp: bit_simps bit_masks)
  finally show ?thesis .
qed

section \<open>Trees of tables\<close>

text \<open>\<open>tset k f t\<close> are the tables with root \<open>t\<close> and \<open>k\<close> levels below; \<open>pt_ok k f t\<close> says that they form a tree.\<close>

fun tset :: "nat \<Rightarrow> (u64 \<Rightarrow> nat \<Rightarrow> u64) \<Rightarrow> u64 \<Rightarrow> u64 set" where
  "tset 0 f t = {t}"
| "tset (Suc k) f t = insert t (\<Union>i \<in> {i. i < N_PTE_PER_TABLE \<and> f t i \<noteq> 0}. tset k f (dest (f t i)))"

fun pt_ok :: "nat \<Rightarrow> (u64 \<Rightarrow> nat \<Rightarrow> u64) \<Rightarrow> u64 \<Rightarrow> bool" where
  "pt_ok 0 f t \<longleftrightarrow> kaddr t"
| "pt_ok (Suc k) f t \<longleftrightarrow> kaddr t \<and>
     (\<forall>i < N_PTE_PER_TABLE. f t i \<noteq> 0 \<longrightarrow> f t i = table_entry (dest (f t i)) \<and> pt_ok k f (dest (f t i)) \<and> t \<notin> tset k f (dest (f t i))) \<and>
     (\<forall>i < N_PTE_PER_TABLE. \<forall>j < N_PTE_PER_TABLE. i \<noteq> j \<longrightarrow> f t i \<noteq> 0 \<longrightarrow> f t j \<noteq> 0 \<longrightarrow>
       tset k f (dest (f t i)) \<inter> tset k f (dest (f t j)) = {})"

text \<open>The entry for a page number, 0 where a table is missing.\<close>

fun walk :: "(u64 \<Rightarrow> nat \<Rightarrow> u64) \<Rightarrow> u64 \<Rightarrow> nat list \<Rightarrow> u64" where
  "walk f t [] = 0"
| "walk f t [i] = f t i"
| "walk f t (i # is) = (if f t i = 0 then 0 else walk f (dest (f t i)) is)"

lemma walk_Cons: "is \<noteq> [] \<Longrightarrow> walk f t (i # is) = (if f t i = 0 then 0 else walk f (dest (f t i)) is)"
  by (cases "is") auto

lemma root_in_tset: "t \<in> tset k f t"
  by (cases k) auto

lemma pt_ok_kaddr: "pt_ok k f t \<Longrightarrow> kaddr t"
  by (cases k) auto

lemma tset_kaddr: "pt_ok k f t \<Longrightarrow> x \<in> tset k f t \<Longrightarrow> kaddr x"
  by (induction k arbitrary: t) auto

lemma tset_cong: "(\<And>x. x \<in> tset k f t \<Longrightarrow> g x = f x) \<Longrightarrow> tset k g t = tset k f t"
proof (induction k arbitrary: t)
  case (Suc k)
  have gt: "g t = f t" using Suc.prems by simp
  have "tset k g (dest (f t i)) = tset k f (dest (f t i))" if "i < N_PTE_PER_TABLE" "f t i \<noteq> 0" for i
    using that by (intro Suc.IH Suc.prems) auto
  then show ?case using gt by auto
qed simp

lemma pt_ok_cong: "(\<And>x. x \<in> tset k f t \<Longrightarrow> g x = f x) \<Longrightarrow> pt_ok k g t = pt_ok k f t"
proof (induction k arbitrary: t)
  case (Suc k)
  have gt: "g t = f t" using Suc.prems by simp
  have sub: "x \<in> tset k f (dest (f t i)) \<Longrightarrow> g x = f x" if "i < N_PTE_PER_TABLE" "f t i \<noteq> 0" for i x
    using that by (intro Suc.prems) auto
  have "tset k g (dest (f t i)) = tset k f (dest (f t i))" "pt_ok k g (dest (f t i)) = pt_ok k f (dest (f t i))"
    if "i < N_PTE_PER_TABLE" "f t i \<noteq> 0" for i
    using sub [OF that] by (auto intro!: tset_cong Suc.IH)
  then show ?case unfolding pt_ok.simps gt by (simp cong: conj_cong)
qed simp

lemma walk_cong:
  assumes "length is = Suc k" and "\<forall>i \<in> set is. i < N_PTE_PER_TABLE" and "\<And>x. x \<in> tset k f t \<Longrightarrow> g x = f x"
  shows "walk g t is = walk f t is"
  using assms
proof (induction k arbitrary: t "is")
  case 0
  then obtain i where "is = [i]" by (cases "is") auto
  then show ?case using 0 by simp
next
  case (Suc k)
  then obtain i js where "is": "is = i # js" "length js = Suc k" by (cases "is") auto
  have gt: "g t = f t" using Suc.prems by simp
  have "walk g (dest (f t i)) js = walk f (dest (f t i)) js" if "f t i \<noteq> 0"
    using Suc.prems "is" that by (intro Suc.IH) auto
  then show ?case using "is" gt by (simp add: walk_Cons [of js] split: list.split) (metis length_0_conv nat.distinct(1) walk_Cons)
qed

text \<open>A tree in which the subtree at entry \<open>i\<close> of the root was replaced by one at \<open>c\<close> that uses new pages \<open>U\<close>.\<close>

definition below :: "nat \<Rightarrow> (u64 \<Rightarrow> nat \<Rightarrow> u64) \<Rightarrow> u64 \<Rightarrow> nat \<Rightarrow> u64 set" where
  "below k f t i = (if f t i = 0 then {} else tset k f (dest (f t i)))"

lemma replace_child:
  assumes ok: "pt_ok (Suc k) f t" and i: "i < N_PTE_PER_TABLE" and gt: "g t = (f t)(i := table_entry c)" and c: "kaddr c" "pt_ok k g c"
    and U: "tset k g c = below k f t i \<union> U" "U \<inter> tset (Suc k) f t = {}"
    and same: "\<And>x. x \<notin> below k f t i \<Longrightarrow> x \<notin> U \<Longrightarrow> x \<noteq> t \<Longrightarrow> g x = f x"
  shows "pt_ok (Suc k) g t" and "tset (Suc k) g t = tset (Suc k) f t \<union> U"
    and "j < N_PTE_PER_TABLE \<Longrightarrow> j \<noteq> i \<Longrightarrow> f t j \<noteq> 0 \<Longrightarrow> x \<in> tset k f (dest (f t j)) \<Longrightarrow> g x = f x"
proof -
  have tb: "t \<notin> below k f t j" if "j < N_PTE_PER_TABLE" for j using ok that by (auto simp: below_def)
  have sub: "below k f t j \<subseteq> tset (Suc k) f t" if "j < N_PTE_PER_TABLE" for j using that by (auto simp: below_def)
  have dis: "below k f t j \<inter> below k f t l = {}" if "j < N_PTE_PER_TABLE" "l < N_PTE_PER_TABLE" "j \<noteq> l" for j l
    using ok that by (auto simp: below_def)
  have tU: "t \<notin> U" using U(2) root_in_tset [of t "Suc k" f] by auto
  have other: "g x = f x" if "j < N_PTE_PER_TABLE" "j \<noteq> i" "x \<in> below k f t j" for j x
    using that dis [OF that(1) i that(2)] sub [OF that(1)] U(2) tb [OF that(1)] by (intro same) auto
  then show "j < N_PTE_PER_TABLE \<Longrightarrow> j \<noteq> i \<Longrightarrow> f t j \<noteq> 0 \<Longrightarrow> x \<in> tset k f (dest (f t j)) \<Longrightarrow> g x = f x" by (simp add: below_def)
  have gj: "g t j = f t j" if "j \<noteq> i" for j using gt that by simp
  have gi: "g t i = table_entry c" "g t i \<noteq> 0" "dest (g t i) = c" using gt c(1) by simp_all
  have B: "below k g t j = (if j = i then below k f t i \<union> U else below k f t j)" if "j < N_PTE_PER_TABLE" for j
  proof (cases "j = i")
    case True
    then show ?thesis using gi U(1) by (simp add: below_def)
  next
    case False
    have "tset k g (dest (f t j)) = tset k f (dest (f t j))" if "f t j \<noteq> 0"
      using other [OF \<open>j < N_PTE_PER_TABLE\<close> False] that by (intro tset_cong) (simp add: below_def)
    then show ?thesis using False gj by (simp add: below_def)
  qed
  have ts: "tset (Suc k) h t = insert t (\<Union>j \<in> {..<N_PTE_PER_TABLE}. below k h t j)" for h by (auto simp: below_def split: if_splits)
  show "tset (Suc k) g t = tset (Suc k) f t \<union> U" unfolding ts using B i by auto
  have okj: "g t j = table_entry (dest (g t j)) \<and> pt_ok k g (dest (g t j)) \<and> t \<notin> tset k g (dest (g t j))"
    if j: "j < N_PTE_PER_TABLE" "g t j \<noteq> 0" for j
  proof (cases "j = i")
    case True
    have "t \<notin> tset k g c" using U(1) tb [OF i] tU by simp
    then show ?thesis using True gi c by simp
  next
    case False
    have fj: "f t j = table_entry (dest (f t j))" "pt_ok k f (dest (f t j))" "f t j \<noteq> 0" using ok j gj [OF False] by auto
    have "pt_ok k g (dest (f t j))" using fj(2) pt_ok_cong [of k f "dest (f t j)" g] other [OF j(1) False] fj(3) by (simp add: below_def)
    moreover have "t \<notin> below k g t j" using B [OF j(1)] False tb [OF j(1)] by simp
    ultimately show ?thesis using gj [OF False] fj by (simp add: below_def)
  qed
  have "below k g t j \<inter> below k g t l = {}" if j: "j < N_PTE_PER_TABLE" "l < N_PTE_PER_TABLE" "j \<noteq> l" for j l
    using B [OF j(1)] B [OF j(2)] dis [OF j] sub [OF j(1)] sub [OF j(2)] U(2) j(3) by auto
  then have "tset k g (dest (g t j)) \<inter> tset k g (dest (g t l)) = {}"
    if "j < N_PTE_PER_TABLE" "l < N_PTE_PER_TABLE" "j \<noteq> l" "g t j \<noteq> 0" "g t l \<noteq> 0" for j l
    using that by (metis below_def)
  then show "pt_ok (Suc k) g t" using okj pt_ok_kaddr [OF ok] by simp
qed

text \<open>The table that holds the entry of a page number whose tables exist.\<close>

fun hits :: "(u64 \<Rightarrow> nat \<Rightarrow> u64) \<Rightarrow> u64 \<Rightarrow> nat list \<Rightarrow> bool" where
  "hits f t [] \<longleftrightarrow> False"
| "hits f t [i] \<longleftrightarrow> True"
| "hits f t (i # is) \<longleftrightarrow> f t i \<noteq> 0 \<and> hits f (dest (f t i)) is"

fun leaf :: "(u64 \<Rightarrow> nat \<Rightarrow> u64) \<Rightarrow> u64 \<Rightarrow> nat list \<Rightarrow> u64" where
  "leaf f t [] = t"
| "leaf f t [i] = t"
| "leaf f t (i # is) = leaf f (dest (f t i)) is"

definition indices :: "nat \<Rightarrow> nat list \<Rightarrow> bool" where
  "indices k is \<longleftrightarrow> length is = Suc k \<and> (\<forall>i \<in> set is. i < N_PTE_PER_TABLE)"

lemma indices_Suc: "indices (Suc k) is \<longleftrightarrow> (\<exists>i js. is = i # js \<and> i < N_PTE_PER_TABLE \<and> indices k js \<and> js \<noteq> [])"
  by (cases "is") (auto simp: indices_def)

lemma indices_0: "indices 0 is \<longleftrightarrow> (\<exists>i. is = [i] \<and> i < N_PTE_PER_TABLE)"
  by (cases "is") (auto simp: indices_def)

lemma hits_Cons: "js \<noteq> [] \<Longrightarrow> hits f t (i # js) \<longleftrightarrow> f t i \<noteq> 0 \<and> hits f (dest (f t i)) js"
  and leaf_Cons: "js \<noteq> [] \<Longrightarrow> leaf f t (i # js) = leaf f (dest (f t i)) js"
  by (cases js; simp)+

lemma leaf_in_tset: "indices k is \<Longrightarrow> hits f t is \<Longrightarrow> leaf f t is \<in> tset k f t"
proof (induction k arbitrary: t "is")
  case 0
  then show ?case by (auto simp: indices_0)
next
  case (Suc k)
  then obtain i js where js: "is = i # js" "i < N_PTE_PER_TABLE" "indices k js" "js \<noteq> []" by (auto simp: indices_Suc)
  then have "leaf f (dest (f t i)) js \<in> tset k f (dest (f t i))" "f t i \<noteq> 0" using Suc by (auto simp: hits_Cons)
  then show ?case using js by (auto simp: leaf_Cons)
qed

lemma walk_leaf: "hits f t is \<Longrightarrow> walk f t is = f (leaf f t is) (last is)"
  by (induction f t "is" rule: hits.induct) auto

lemma leaf_update:
  assumes "pt_ok k f t" and "indices k is" and "hits f t is" and "g = f(leaf f t is := (f (leaf f t is))(last is := v))"
  shows "pt_ok k g t \<and> tset k g t = tset k f t \<and> hits g t is \<and> leaf g t is = leaf f t is \<and>
    (\<forall>js. indices k js \<longrightarrow> walk g t js = (if js = is then v else walk f t js))"
  using assms
proof (induction k arbitrary: t "is")
  case 0
  then obtain i where "is = [i]" by (auto simp: indices_0)
  then show ?case using 0 by (auto simp: indices_0 split: if_splits)
next
  case (Suc k)
  then obtain i js where js: "is = i # js" "i < N_PTE_PER_TABLE" "indices k js" "js \<noteq> []" by (auto simp: indices_Suc)
  let ?c = "dest (f t i)"
  have fi: "f t i \<noteq> 0" "hits f ?c js" using Suc.prems(3) js by (auto simp: hits_Cons)
  have ok: "pt_ok k f ?c" "t \<notin> tset k f ?c" "f t i = table_entry ?c" using Suc.prems(1) js(2) fi(1) by auto
  have g: "g = f(leaf f ?c js := (f (leaf f ?c js))(last js := v))" unfolding Suc.prems(4) using js by (simp add: leaf_Cons)
  note IH = Suc.IH [OF ok(1) js(3) fi(2) g]
  have lt: "leaf f ?c js \<in> tset k f ?c" by (rule leaf_in_tset [OF js(3) fi(2)])
  have gt: "g t = f t" using g lt ok(2) by auto
  then have gt': "g t = (f t)(i := table_entry ?c)" using ok(3) by (auto simp: fun_eq_iff)
  have b: "tset k g ?c = below k f t i \<union> {}" using IH fi(1) by (simp add: below_def)
  have same: "g x = f x" if "x \<notin> below k f t i" for x using that lt fi(1) g by (auto simp: below_def)
  note r = replace_child [OF Suc.prems(1) js(2) gt' pt_ok_kaddr [OF ok(1)] _ b _ same, simplified]
  have w: "walk g t ks = (if ks = is then v else walk f t ks)" if ksk: "indices (Suc k) ks" for ks
  proof -
    obtain j ls where ks: "ks = j # ls" "j < N_PTE_PER_TABLE" "indices k ls" "ls \<noteq> []" using ksk by (auto simp: indices_Suc)
    show ?thesis
    proof (cases "j = i")
      case True
      then show ?thesis using ks js IH fi(1) gt by (simp add: walk_Cons)
    next
      case False
      have "walk g (dest (f t j)) ls = walk f (dest (f t j)) ls" if "f t j \<noteq> 0"
        using ks r(3) [of j] IH False that by (intro walk_cong [of _ k]) (auto simp: indices_def)
      then show ?thesis using ks js False gt by (simp add: walk_Cons)
    qed
  qed
  show ?case using r IH w js gt fi by (simp add: hits_Cons leaf_Cons)
qed

section \<open>Walking and filling the tables\<close>

definition pool :: "vm_state \<Rightarrow> nat list \<Rightarrow> bool" where
  "pool s ps \<longleftrightarrow> chain (page_head (pages s)) (page_next (pages s)) ps \<and> distinct ps \<and> (\<forall>p \<in> set ps. p < 2 ^ 64 \<and> kaddr (of_nat p))"

definition pool_set :: "nat list \<Rightarrow> u64 set" where
  "pool_set ps = of_nat ` set ps"

lemma unat_page: "p < 2 ^ 64 \<Longrightarrow> unat (of_nat p :: u64) = p"
  by (simp add: unat_of_nat)

lemma of_nat_page: "p < 2 ^ 64 \<Longrightarrow> q < 2 ^ 64 \<Longrightarrow> (of_nat p :: u64) = of_nat q \<longleftrightarrow> p = q"
  using unat_page by metis

lemma pool_set_Cons: "pool s (p # ps) \<Longrightarrow> of_nat p \<notin> pool_set ps"
  by (auto simp: pool_def pool_set_def of_nat_page)

lemma pool_set_kaddr: "pool s ps \<Longrightarrow> a \<in> pool_set ps \<Longrightarrow> kaddr a"
  by (auto simp: pool_def pool_set_def)

lemma new_table_ok:
  assumes "pool s (p # ps)"
  shows "\<exists>s'. new_table s = Some (of_nat p, s') \<and> pool s' ps \<and> tab s' = (tab s)(of_nat p := (\<lambda>_. 0)) \<and> pgdir_root s' = pgdir_root s \<and>
    zero_page (pages s') = zero_page (pages s) \<and> kaddr (of_nat p)"
  using assms by (auto simp: new_table_def kalloc_page_def fetch_from_queue_def pool_def Let_def)

text \<open>The allocating walk as one recursion over the page number.\<close>

fun descend :: "u64 \<Rightarrow> nat list \<Rightarrow> vm_state \<Rightarrow> ((u64 \<times> nat) \<times> vm_state) option" where
  "descend t [] s = None"
| "descend t [i] s = Some ((t, i), s)"
| "descend t (i # is) s = do { (p, s) \<leftarrow> next_table t i True s; p \<leftarrow> p; descend p is s }"

lemma descend_Cons: "js \<noteq> [] \<Longrightarrow> descend t (i # js) s = do { (p, s) \<leftarrow> next_table t i True s; p \<leftarrow> p; descend p js s }"
  by (cases js) simp_all

text \<open>The number of tables that are missing on the way to the entry of a page number.\<close>

fun missing :: "(u64 \<Rightarrow> nat \<Rightarrow> u64) \<Rightarrow> u64 \<Rightarrow> nat list \<Rightarrow> nat" where
  "missing f t [] = 0"
| "missing f t [i] = 0"
| "missing f t (i # is) = (if f t i = 0 then length is else missing f (dest (f t i)) is)"

lemma missing_Cons: "is \<noteq> [] \<Longrightarrow> missing f t (i # is) = (if f t i = 0 then length is else missing f (dest (f t i)) is)"
  by (cases "is") auto

lemma missing_empty: "f t = (\<lambda>_. 0) \<Longrightarrow> missing f t is = length is - 1"
  by (cases "(f, t, is)" rule: missing.cases) auto

definition grown :: "nat \<Rightarrow> u64 \<Rightarrow> nat list \<Rightarrow> nat list \<Rightarrow> nat list \<Rightarrow> vm_state \<Rightarrow> vm_state \<Rightarrow> bool" where
  "grown k t is us qs s s' \<longleftrightarrow> pool s' qs \<and> length us \<le> k \<and> length us = missing (tab s) t is \<and> pt_ok k (tab s') t \<and> tset k (tab s') t = tset k (tab s) t \<union> pool_set us \<and>
     (\<forall>x. x \<notin> tset k (tab s) t \<longrightarrow> x \<notin> pool_set us \<longrightarrow> tab s' x = tab s x) \<and> pgdir_root s' = pgdir_root s \<and>
     zero_page (pages s') = zero_page (pages s) \<and> hits (tab s') t is \<and> (\<forall>js. indices k js \<longrightarrow> walk (tab s') t js = walk (tab s) t js)"

lemma empty_table: "kaddr t \<Longrightarrow> f t = (\<lambda>_. 0) \<Longrightarrow> pt_ok k f t \<and> tset k f t = {t}"
  by (cases k) auto

lemma walk_empty: "f t = (\<lambda>_. 0) \<Longrightarrow> walk f t is = 0"
  by (cases "(f, t, is)" rule: walk.cases) auto

lemma descend_ok:
  assumes "pt_ok k (tab s) t" and "indices k is" and "pool s ps" and "k \<le> length ps" and "tset k (tab s) t \<inter> pool_set ps = {}"
  shows "\<exists>us qs s'. ps = us @ qs \<and> descend t is s = Some ((leaf (tab s') t is, last is), s') \<and> grown k t is us qs s s'"
  using assms
proof (induction k arbitrary: t "is" s ps)
  case 0
  then obtain i where i: "is = [i]" by (auto simp: indices_0)
  have "grown 0 t is [] ps s s" using 0 i by (simp add: grown_def pool_set_def)
  then show ?case using i by (intro exI [of _ "[]"] exI [of _ ps] exI [of _ s]) simp
next
  case (Suc k)
  then obtain i js where js: "is = i # js" "i < N_PTE_PER_TABLE" "indices k js" "js \<noteq> []" by (auto simp: indices_Suc)
  let ?f = "tab s"
  have "\<exists>c vs ps' s1. ps = vs @ ps' \<and> length vs \<le> Suc 0 \<and> k \<le> length ps' \<and> next_table t i True s = Some (Some c, s1) \<and> pool s1 ps' \<and>
    tab s1 t = (?f t)(i := table_entry c) \<and> pt_ok k (tab s1) c \<and> tset k (tab s1) c = below k ?f t i \<union> pool_set vs \<and>
    (\<forall>x. x \<notin> pool_set vs \<longrightarrow> x \<noteq> t \<longrightarrow> tab s1 x = ?f x) \<and> pgdir_root s1 = pgdir_root s \<and> zero_page (pages s1) = zero_page (pages s) \<and>
    (\<forall>ls. indices k ls \<longrightarrow> walk (tab s1) c ls = (if ?f t i = 0 then 0 else walk ?f (dest (?f t i)) ls)) \<and>
    length vs + missing (tab s1) c js = missing ?f t (i # js)"
  proof (cases "?f t i = 0")
    case True
    obtain p ps' where ps: "ps = p # ps'" using Suc.prems(4) by (cases ps) auto
    obtain s0 where s0: "new_table s = Some (of_nat p, s0)" "pool s0 ps'" "tab s0 = ?f(of_nat p := (\<lambda>_. 0))" "pgdir_root s0 = pgdir_root s"
        "zero_page (pages s0) = zero_page (pages s)" "kaddr (of_nat p)" using new_table_ok Suc.prems(3) unfolding ps by blast
    define s1 where "s1 = set_pte (t, i) (table_entry (of_nat p)) s0"
    have tp: "t \<noteq> of_nat p" using Suc.prems(5) root_in_tset [of t "Suc k" ?f] ps by (auto simp: pool_set_def)
    have z: "tab s1 (of_nat p) = (\<lambda>_. 0)" using tp by (simp add: s1_def set_pte_def s0(3))
    have "next_table t i True s = Some (Some (of_nat p), s1)" using True s0(1) by (simp add: next_table_def s1_def table_entry_def)
    moreover have "tab s1 t = (?f t)(i := table_entry (of_nat p))" using tp by (simp add: s1_def set_pte_def s0(3))
    moreover have "pool s1 ps'" "pgdir_root s1 = pgdir_root s" "zero_page (pages s1) = zero_page (pages s)"
      using s0 by (simp_all add: s1_def set_pte_def pool_def)
    moreover have "tab s1 x = ?f x" if "x \<noteq> of_nat p" "x \<noteq> t" for x using that by (simp add: s1_def set_pte_def s0(3))
    ultimately show ?thesis using empty_table [of _ "tab s1" k, OF s0(6) z] walk_empty [of "tab s1", OF z] missing_empty [of "tab s1" _ js, OF z] True Suc.prems(4) ps js(4)
      by (intro exI [of _ "of_nat p"] exI [of _ "[p]"] exI [of _ ps'] exI [of _ s1]) (simp add: pool_set_def below_def missing_Cons Suc_diff_le Suc_leI)
  next
    case False
    then have ok: "?f t i = table_entry (dest (?f t i))" "pt_ok k ?f (dest (?f t i))" using Suc.prems(1) js(2) by auto
    have "?f t i AND PTE_VALID \<noteq> 0" by (subst ok(1)) (rule table_entry_valid(1))
    then have nt: "next_table t i True s = Some (Some (dest (?f t i)), s)" using False by (simp add: next_table_def dest_def)
    have upd: "?f t = (?f t)(i := table_entry (dest (?f t i)))" unfolding ok(1) [symmetric] by simp
    have b: "tset k ?f (dest (?f t i)) = below k ?f t i \<union> pool_set []" using False by (simp add: pool_set_def below_def)
    have l: "k \<le> length ps" using Suc.prems(4) by simp
    show ?thesis
      by (rule exI [of _ "dest (?f t i)"], rule exI [of _ "[]"], rule exI [of _ ps], rule exI [of _ s],
          intro conjI, rule append_Nil [symmetric], simp, rule l, rule nt, rule Suc.prems(3), rule upd, rule ok(2), rule b)
        (simp_all add: False missing_Cons [OF js(4)])
  qed
  then obtain c vs ps' s1 where 1: "ps = vs @ ps'" "length vs \<le> Suc 0" "k \<le> length ps'" "next_table t i True s = Some (Some c, s1)" "pool s1 ps'"
    "tab s1 t = (?f t)(i := table_entry c)" "pt_ok k (tab s1) c" "tset k (tab s1) c = below k ?f t i \<union> pool_set vs"
    "\<And>x. x \<notin> pool_set vs \<Longrightarrow> x \<noteq> t \<Longrightarrow> tab s1 x = ?f x" "pgdir_root s1 = pgdir_root s" "zero_page (pages s1) = zero_page (pages s)"
    "\<And>ls. indices k ls \<Longrightarrow> walk (tab s1) c ls = (if ?f t i = 0 then 0 else walk ?f (dest (?f t i)) ls)"
    "length vs + missing (tab s1) c js = missing ?f t (i # js)" by blast
  have bsub: "below k ?f t i \<subseteq> tset (Suc k) ?f t" using js(2) by (auto simp: below_def)
  have tb: "t \<notin> below k ?f t i" using Suc.prems(1) js(2) by (auto simp: below_def)
  have pd: "pool_set vs \<inter> pool_set ps' = {}" using Suc.prems(3) unfolding pool_def pool_set_def 1(1) by (auto simp: of_nat_page)
  have pu: "pool_set ps = pool_set vs \<union> pool_set ps'" by (auto simp: pool_set_def 1(1))
  have dj: "tset k (tab s1) c \<inter> pool_set ps' = {}" using 1(8) bsub Suc.prems(5) pd pu by blast
  obtain us qs s2 where 2: "ps' = us @ qs" "descend c js s1 = Some ((leaf (tab s2) c js, last js), s2)" "grown k c js us qs s1 s2"
    using Suc.IH [OF 1(7) js(3) 1(5,3) dj] by blast
  have ms: "length (vs @ us) = missing ?f t is" using 2(3) 1(13) js(1) by (simp add: grown_def)
  have 3: "pool s2 qs" "length us \<le> k" "pt_ok k (tab s2) c" "tset k (tab s2) c = below k ?f t i \<union> pool_set (vs @ us)"
      "hits (tab s2) c js" "pgdir_root s2 = pgdir_root s" "zero_page (pages s2) = zero_page (pages s)"
    using 2(3) 1(8,10,11) by (auto simp: grown_def pool_set_def)
  have out: "tab s2 x = tab s1 x" if "x \<notin> tset k (tab s1) c" "x \<notin> pool_set us" for x using 2(3) that by (simp add: grown_def)
  have pvu: "pool_set (vs @ us) \<subseteq> pool_set ps" unfolding 1(1) 2(1) by (auto simp: pool_set_def)
  have tt: "t \<in> tset (Suc k) ?f t" by (rule root_in_tset)
  then have tn: "t \<notin> pool_set (vs @ us)" using pvu Suc.prems(5) by auto
  then have gt: "tab s2 t = (?f t)(i := table_entry c)" using out [of t] 1(6,8) tb by (auto simp: pool_set_def)
  have U: "pool_set (vs @ us) \<inter> tset (Suc k) ?f t = {}" using pvu Suc.prems(5) by auto
  have same: "tab s2 x = ?f x" if "x \<notin> below k ?f t i" "x \<notin> pool_set (vs @ us)" "x \<noteq> t" for x
    using out [of x] 1(9) [of x] 1(8) that by (auto simp: pool_set_def)
  note r = replace_child [OF Suc.prems(1) js(2) gt pt_ok_kaddr [OF 3(3)] 3(3,4) U same]
  have w: "walk (tab s2) t ks = walk ?f t ks" if ksk: "indices (Suc k) ks" for ks
  proof -
    obtain j ls where ks: "ks = j # ls" "j < N_PTE_PER_TABLE" "indices k ls" "ls \<noteq> []" using ksk by (auto simp: indices_Suc)
    show ?thesis
    proof (cases "j = i")
      case True
      have "walk (tab s2) c ls = walk (tab s1) c ls" using 2(3) ks(3) by (simp add: grown_def)
      then show ?thesis using 1(12) [OF ks(3)] ks True gt pt_ok_kaddr [OF 3(3)] by (simp add: walk_Cons)
    next
      case False
      have "walk (tab s2) (dest (?f t j)) ls = walk ?f (dest (?f t j)) ls" if "?f t j \<noteq> 0"
        using ks r(3) [of j] False that by (intro walk_cong [of _ k]) (auto simp: indices_def)
      then show ?thesis using ks False gt by (simp add: walk_Cons)
    qed
  qed
  have "tab s2 x = ?f x" if "x \<notin> tset (Suc k) ?f t" "x \<notin> pool_set (vs @ us)" for x using that bsub tt by (intro same) auto
  then have "grown (Suc k) t is (vs @ us) qs s s2"
    using r 3 1(2) w gt js ms pt_ok_kaddr [OF 3(3)] unfolding grown_def by (simp add: hits_Cons)
  moreover have "descend t is s = Some ((leaf (tab s2) t is, last is), s2)"
    using 1(4) 2(2) js gt pt_ok_kaddr [OF 3(3)] by (simp add: descend_Cons leaf_Cons)
  ultimately show ?case using 1(1) 2(1) by (metis append.assoc)
qed

section \<open>The operations\<close>

text \<open>The entry that the code reads for an address: 0 when \<open>get_pte\<close> returns NULL.\<close>

definition pte_value :: "vm_state \<Rightarrow> nat \<Rightarrow> u64 \<Rightarrow> u64" where
  "pte_value s pd va = (case get_pte pd va False s of Some (Some (t, i), s') \<Rightarrow> tab s' t i | _ \<Rightarrow> 0)"

text \<open>The invariant of a page directory, with the free pages \<open>ps\<close>.\<close>

definition vm_inv :: "vm_state \<Rightarrow> nat \<Rightarrow> nat list \<Rightarrow> bool" where
  "vm_inv s pd ps \<longleftrightarrow> pool s ps \<and> (of_nat (zero_page (pages s)) :: u64) \<notin> pool_set ps \<and> (pgdir_root s pd \<noteq> 0 \<longrightarrow>
     pt_ok 3 (tab s) (pgdir_root s pd) \<and> tset 3 (tab s) (pgdir_root s pd) \<inter> pool_set ps = {} \<and>
     (of_nat (zero_page (pages s)) :: u64) \<notin> tset 3 (tab s) (pgdir_root s pd))"

lemma indices_vpn: "indices 3 (vpn va)"
  using vpn_range by (simp add: indices_def) (simp add: vpn_def)

lemma next_table_read:
  assumes "pt_ok (Suc k) (tab s) t" and "i < N_PTE_PER_TABLE"
  shows "next_table t i False s = Some (if tab s t i = 0 then None else Some (dest (tab s t i)), s) \<and>
    (tab s t i \<noteq> 0 \<longrightarrow> pt_ok k (tab s) (dest (tab s t i)))"
proof (cases "tab s t i = 0")
  case False
  then have ok: "tab s t i = table_entry (dest (tab s t i))" "pt_ok k (tab s) (dest (tab s t i))" using assms by auto
  have "tab s t i AND PTE_VALID \<noteq> 0" by (subst ok(1)) (rule table_entry_valid(1))
  then show ?thesis using False ok(2) by (simp add: next_table_def dest_def)
qed (simp add: next_table_def)

lemma get_pte_read:
  assumes ok: "pt_ok 3 (tab s) (pgdir_root s pd)" and root: "pgdir_root s pd \<noteq> 0"
  shows "get_pte pd va False s = Some (if hits (tab s) (pgdir_root s pd) (vpn va)
    then Some (leaf (tab s) (pgdir_root s pd) (vpn va), VA_PART3 va) else None, s)"
proof -
  let ?f = "tab s" and ?t0 = "pgdir_root s pd"
  let ?t1 = "dest (?f ?t0 (VA_PART0 va))"
  let ?t2 = "dest (?f ?t1 (VA_PART1 va))"
  have i: "VA_PART0 va < N_PTE_PER_TABLE" "VA_PART1 va < N_PTE_PER_TABLE" "VA_PART2 va < N_PTE_PER_TABLE"
    using vpn_range [of _ va] by (auto simp: vpn_def)
  have ok3: "pt_ok (Suc 2) ?f ?t0" using ok by (simp add: numeral_3_eq_3 numeral_2_eq_2)
  note n0 = next_table_read [OF ok3 i(1)]
  have n1: "?f ?t0 (VA_PART0 va) \<noteq> 0 \<Longrightarrow> next_table ?t1 (VA_PART1 va) False s = Some (if ?f ?t1 (VA_PART1 va) = 0 then None else Some ?t2, s) \<and>
      (?f ?t1 (VA_PART1 va) \<noteq> 0 \<longrightarrow> pt_ok (Suc 0) ?f ?t2)"
    using next_table_read [of "Suc 0" s ?t1 "VA_PART1 va"] n0 i(2) by (simp add: numeral_2_eq_2)
  have n2: "?f ?t0 (VA_PART0 va) \<noteq> 0 \<Longrightarrow> ?f ?t1 (VA_PART1 va) \<noteq> 0 \<Longrightarrow>
      next_table ?t2 (VA_PART2 va) False s = Some (if ?f ?t2 (VA_PART2 va) = 0 then None else Some (dest (?f ?t2 (VA_PART2 va))), s)"
    using next_table_read [of 0 s ?t2 "VA_PART2 va"] n1 i(3) by simp
  show ?thesis
    using root n0 n1 n2 unfolding get_pte_def get_pt0_def vpn_def by simp
qed

lemma get_pte_alloc:
  assumes "pgdir_root s pd \<noteq> 0" and "descend (pgdir_root s pd) (vpn va) s = Some (e, s')"
  shows "get_pte pd va True s = Some (Some e, s')"
  using assms unfolding get_pte_def get_pt0_def vpn_def by (auto split: bind_splits option.splits)

lemma pte_value_walk:
  assumes "vm_inv s pd ps"
  shows "pte_value s pd va = (if pgdir_root s pd = 0 then 0 else walk (tab s) (pgdir_root s pd) (vpn va))"
proof (cases "pgdir_root s pd = 0")
  case True
  then show ?thesis by (simp add: pte_value_def get_pte_def get_pt0_def)
next
  case False
  then have ok: "pt_ok 3 (tab s) (pgdir_root s pd)" using assms by (simp add: vm_inv_def)
  have miss: "\<not> hits f t is \<Longrightarrow> is \<noteq> [] \<Longrightarrow> walk f t is = 0" for f t "is" by (induction f t "is" rule: hits.induct) auto
  show ?thesis
    using False miss [of "tab s" "pgdir_root s pd" "vpn va"] walk_leaf [of "tab s" "pgdir_root s pd" "vpn va"]
    by (auto simp: pte_value_def get_pte_read [OF ok False] vpn_def)
qed

text \<open>The tables of a page directory.\<close>

definition tables :: "vm_state \<Rightarrow> nat \<Rightarrow> u64 set" where
  "tables s pd = (if pgdir_root s pd = 0 then {} else tset 3 (tab s) (pgdir_root s pd))"

lemma pool_append: "pool s (us @ qs) \<Longrightarrow> pool_set us \<inter> pool_set qs = {}"
  unfolding pool_def pool_set_def by (auto simp: of_nat_page)

lemma pool_set_append: "pool_set (us @ qs) = pool_set us \<union> pool_set qs"
  by (auto simp: pool_set_def)

definition missing_tables :: "vm_state \<Rightarrow> nat \<Rightarrow> u64 \<Rightarrow> nat" where
  "missing_tables s pd va = (if pgdir_root s pd = 0 then 4 else missing (tab s) (pgdir_root s pd) (vpn va))"

text \<open>What a successful allocating walk of a page directory gives.\<close>

definition filled :: "nat \<Rightarrow> u64 \<Rightarrow> nat list \<Rightarrow> nat list \<Rightarrow> vm_state \<Rightarrow> vm_state \<Rightarrow> u64 \<Rightarrow> bool" where
  "filled pd va us qs s s' r \<longleftrightarrow> get_pte pd va True s = Some (Some (leaf (tab s') r (vpn va), VA_PART3 va), s') \<and>
    pgdir_root s' = (pgdir_root s)(pd := r) \<and> r \<noteq> 0 \<and> vm_inv s' pd qs \<and> hits (tab s') r (vpn va) \<and> tables s' pd = tables s pd \<union> pool_set us \<and>
    length us = missing_tables s pd va \<and> (\<forall>x. x \<notin> tables s pd \<longrightarrow> x \<notin> pool_set us \<longrightarrow> tab s' x = tab s x) \<and> zero_page (pages s') = zero_page (pages s) \<and>
    (\<forall>wa. walk (tab s') r (vpn wa) = pte_value s pd wa)"

lemma get_pte_root:
  assumes inv: "vm_inv s pd ps" and len: "3 \<le> length ps" and r: "pgdir_root s pd = r" "r \<noteq> 0"
  shows "\<exists>us qs s'. ps = us @ qs \<and> length us \<le> 3 \<and> filled pd va us qs s s' r"
proof -
  have i: "pt_ok 3 (tab s) r" "pool s ps" "tset 3 (tab s) r \<inter> pool_set ps = {}" "of_nat (zero_page (pages s)) \<notin> tset 3 (tab s) r"
      "of_nat (zero_page (pages s)) \<notin> pool_set ps" using inv r by (auto simp: vm_inv_def)
  obtain us qs s' where d: "ps = us @ qs" "descend r (vpn va) s = Some ((leaf (tab s') r (vpn va), last (vpn va)), s')" "grown 3 r (vpn va) us qs s s'"
    using descend_ok [OF i(1) indices_vpn i(2) len i(3)] by blast
  have g: "pool s' qs" "length us \<le> 3" "pt_ok 3 (tab s') r" "tset 3 (tab s') r = tset 3 (tab s) r \<union> pool_set us" "pgdir_root s' = pgdir_root s"
      "zero_page (pages s') = zero_page (pages s)" "hits (tab s') r (vpn va)" using d(3) by (auto simp: grown_def)
  have "vm_inv s' pd qs"
    using g r i pool_append [of s us qs] unfolding vm_inv_def d(1) pool_set_append by auto
  moreover have "walk (tab s') r (vpn wa) = pte_value s pd wa" for wa
    using d(3) indices_vpn [of wa] pte_value_walk [OF inv, of wa] r by (simp add: grown_def)
  moreover have "tables s' pd = tables s pd \<union> pool_set us" using g(4,5) r by (simp add: tables_def)
  moreover have "tab s' x = tab s x" if "x \<notin> tables s pd" "x \<notin> pool_set us" for x using d(3) that r by (simp add: grown_def tables_def)
  moreover have "get_pte pd va True s = Some (Some (leaf (tab s') r (vpn va), VA_PART3 va), s')"
    using get_pte_alloc [of s pd va] d(2) r by (simp add: vpn_def)
  moreover have "length us = missing_tables s pd va" using d(3) r by (simp add: grown_def missing_tables_def)
  ultimately have "filled pd va us qs s s' r" using g r unfolding filled_def by auto
  then show ?thesis using g(2) d(1) by blast
qed

lemma get_pte_ok:
  assumes inv: "vm_inv s pd ps" and len: "4 \<le> length ps"
  shows "\<exists>us qs s' r. ps = us @ qs \<and> length us \<le> 4 \<and> filled pd va us qs s s' r"
proof (cases "pgdir_root s pd = 0")
  case False
  then show ?thesis using get_pte_root [OF inv _ refl False, of va] len by fastforce
next
  case True
  obtain p ps' where ps: "ps = p # ps'" using len by (cases ps) auto
  have i: "pool s (p # ps')" "of_nat (zero_page (pages s)) \<notin> pool_set ps" using inv by (auto simp: vm_inv_def ps)
  let ?p = "of_nat p :: u64"
  obtain s0 where s0: "new_table s = Some (?p, s0)" "pool s0 ps'" "tab s0 = (tab s)(?p := (\<lambda>_. 0))" "pgdir_root s0 = pgdir_root s"
      "zero_page (pages s0) = zero_page (pages s)" "kaddr ?p" using new_table_ok [OF i(1)] by blast
  define s1 where "s1 = s0\<lparr>pgdir_root := (pgdir_root s0)(pd := ?p)\<rparr>"
  have p0: "?p \<noteq> 0" by (rule kaddr_nonzero [OF s0(6)])
  have z: "tab s1 ?p = (\<lambda>_. 0)" by (simp add: s1_def s0(3))
  have e: "pt_ok 3 (tab s1) ?p" "tset 3 (tab s1) ?p = {?p}" using empty_table [of _ "tab s1" 3, OF s0(6) z] by auto
  have inv1: "vm_inv s1 pd ps'"
    using s0 e i pool_set_Cons [OF i(1)] unfolding vm_inv_def by (auto simp: s1_def pool_def pool_set_def ps)
  have "3 \<le> length ps'" "pgdir_root s1 pd = ?p" using len by (simp_all add: ps s1_def)
  then obtain us qs s' where f: "ps' = us @ qs" "length us \<le> 3" "filled pd va us qs s1 s' ?p" using get_pte_root [OF inv1 _ _ p0] by blast
  have "get_pte pd va True s = get_pte pd va True s1"
    using True s0(1) p0 unfolding get_pte_def get_pt0_def by (simp add: s1_def)
  moreover have "tables s1 pd = {?p}" "tables s pd = {}" using e p0 True by (simp_all add: tables_def s1_def)
  moreover have "pte_value s1 pd wa = 0" "pte_value s pd wa = 0" for wa
    using pte_value_walk [OF inv1] pte_value_walk [OF inv] True walk_empty [of "tab s1", OF z] by (simp_all add: s1_def)
  moreover have "tab s1 x = tab s x" if "x \<noteq> ?p" for x using that by (simp add: s1_def s0(3))
  moreover have "pgdir_root s1 = (pgdir_root s)(pd := ?p)" "zero_page (pages s1) = zero_page (pages s)" using s0 by (simp_all add: s1_def)
  moreover have "length (p # us) = missing_tables s pd va"
    using f(3) missing_empty [of "tab s1" _ "vpn va", OF z] True p0 by (simp add: filled_def missing_tables_def s1_def vpn_def)
  ultimately have "filled pd va (p # us) qs s s' ?p" using f(3) unfolding filled_def by (auto simp: pool_set_def)
  moreover have "ps = (p # us) @ qs" "length (p # us) \<le> 4" using f ps by auto
  ultimately show ?thesis by blast
qed

text \<open>The page directories whose tables are disjoint from those of \<open>pd\<close>.\<close>

definition vm_sep :: "vm_state \<Rightarrow> nat \<Rightarrow> nat \<Rightarrow> bool" where
  "vm_sep s pd qd \<longleftrightarrow> pd \<noteq> qd \<and> tables s pd \<inter> tables s qd = {}"

lemma vm_frame:
  assumes inv: "vm_inv s qd ps" and root: "pgdir_root s' qd = pgdir_root s qd" and same: "\<And>x. x \<in> tables s qd \<Longrightarrow> tab s' x = tab s x"
    and pl: "pool s' qs" "pool_set qs \<subseteq> pool_set ps" "zero_page (pages s') = zero_page (pages s)"
  shows "vm_inv s' qd qs \<and> tables s' qd = tables s qd \<and> pte_value s' qd wa = pte_value s qd wa"
proof (cases "pgdir_root s qd = 0")
  case True
  then have "vm_inv s' qd qs" using assms by (auto simp: vm_inv_def)
  then show ?thesis using True root pte_value_walk [OF inv] pte_value_walk [of s' qd qs] by (simp add: tables_def)
next
  case False
  let ?r = "pgdir_root s qd"
  have ts: "tset 3 (tab s') ?r = tset 3 (tab s) ?r" by (rule tset_cong) (use same False in \<open>simp add: tables_def\<close>)
  have ok: "pt_ok 3 (tab s') ?r = pt_ok 3 (tab s) ?r" by (rule pt_ok_cong) (use same False in \<open>simp add: tables_def\<close>)
  have i: "vm_inv s' qd qs" using inv pl root ts ok False unfolding vm_inv_def by auto
  have "walk (tab s') ?r (vpn wa) = walk (tab s) ?r (vpn wa)"
    using indices_vpn [of wa] same False by (intro walk_cong [of _ 3]) (auto simp: indices_def tables_def)
  then show ?thesis using i ts root False pte_value_walk [OF inv] pte_value_walk [OF i] by (simp add: tables_def)
qed

lemma vmmap_ok:
  assumes "vm_inv s pd ps" and "4 \<le> length ps"
  shows "\<exists>s' us qs. vmmap pd va ka flags s = Some s' \<and> ps = us @ qs \<and> length us \<le> 4 \<and> vm_inv s' pd qs \<and>
    length us = missing_tables s pd va \<and> tables s' pd = tables s pd \<union> pool_set us \<and>
    (\<forall>wa. pte_value s' pd wa =
       (if wa AND 0xFFFFFFFFF000 = va AND 0xFFFFFFFFF000 then K2P ka OR flags OR PTE_VALID else pte_value s pd wa)) \<and>
    (\<forall>qd wa. vm_inv s qd ps \<longrightarrow> vm_sep s pd qd \<longrightarrow> vm_inv s' qd qs \<and> vm_sep s' pd qd \<and> pte_value s' qd wa = pte_value s qd wa)"
proof -
  obtain us qs s1 r where f: "ps = us @ qs" "length us \<le> 4" "filled pd va us qs s s1 r" using get_pte_ok [OF assms] by blast
  have g: "get_pte pd va True s = Some (Some (leaf (tab s1) r (vpn va), VA_PART3 va), s1)" "pgdir_root s1 = (pgdir_root s)(pd := r)" "r \<noteq> 0"
      "vm_inv s1 pd qs" "hits (tab s1) r (vpn va)" "tables s1 pd = tables s pd \<union> pool_set us" "zero_page (pages s1) = zero_page (pages s)"
    using f(3) unfolding filled_def by blast+
  define v where "v = K2P ka OR flags OR PTE_VALID"
  define s' where "s' = set_pte (leaf (tab s1) r (vpn va), VA_PART3 va) v s1"
  have run: "vmmap pd va ka flags s = Some s'" using g(1) by (simp add: vmmap_def s'_def v_def)
  have ok: "pt_ok 3 (tab s1) r" using g(2-4) by (simp add: vm_inv_def)
  have l: "last (vpn va) = VA_PART3 va" by (simp add: vpn_def)
  have tabs': "tab s' = (tab s1)(leaf (tab s1) r (vpn va) := (tab s1 (leaf (tab s1) r (vpn va)))(last (vpn va) := v))"
    unfolding l by (simp add: s'_def set_pte_def)
  have others: "pgdir_root s' = pgdir_root s1" "pages s' = pages s1" by (simp_all add: s'_def set_pte_def)
  note u = leaf_update [OF ok indices_vpn g(5) tabs']
  have inv': "vm_inv s' pd qs" using g(2-4) u others unfolding vm_inv_def pool_def by auto
  have tb: "tables s' pd = tables s1 pd" using u g(2,3) others by (simp add: tables_def)
  have val: "pte_value s' pd wa = (if vpn wa = vpn va then v else pte_value s pd wa)" for wa
    using pte_value_walk [OF inv', of wa] u indices_vpn [of wa] g(2,3) others f(3) by (simp add: filled_def)
  have "vm_inv s' qd qs \<and> vm_sep s' pd qd \<and> pte_value s' qd wa = pte_value s qd wa" if q: "vm_inv s qd ps" "vm_sep s pd qd" for qd wa
  proof -
    have nq: "pgdir_root s' qd = pgdir_root s qd" using q(2) g(2) others by (simp add: vm_sep_def)
    have qp: "tables s qd \<inter> pool_set ps = {}" using q(1) by (auto simp: vm_inv_def tables_def)
    have "leaf (tab s1) r (vpn va) \<in> tables s1 pd" using leaf_in_tset [OF indices_vpn g(5)] g(2,3) by (simp add: tables_def)
    then have "tab s' x = tab s x" if "x \<in> tables s qd" for x
      using that qp q(2) g(6) f(3) tabs' unfolding filled_def vm_sep_def f(1) pool_set_append by (auto simp: fun_upd_apply)
    then have "vm_inv s' qd qs \<and> tables s' qd = tables s qd \<and> pte_value s' qd wa = pte_value s qd wa"
      using inv' g(7) others f(1) by (intro vm_frame [OF q(1) nq]) (auto simp: vm_inv_def pool_set_append)
    moreover have "vm_sep s' pd qd" using calculation q(2) qp tb g(6) f(1) unfolding vm_sep_def by (auto simp: pool_set_append)
    ultimately show ?thesis by simp
  qed
  moreover have "length us = missing_tables s pd va" using f(3) by (simp add: filled_def)
  ultimately show ?thesis using run f(1,2) inv' val tb g(6) unfolding vpn_eq_iff v_def by blast
qed

text \<open>(C33) \<open>vmmap\<close> maps exactly one page: with four free pages left it returns, and afterwards the code reads the new entry for every address
  in the page of \<open>va\<close> and the old one for all others. It takes exactly as many pages from the free list as tables were missing on the way to the entry,
  none when none was missing; all of them have become tables of the page directory, so no page is lost. The tables are still a tree
  disjoint from the free pages, and no entry of any other page directory changes.\<close>

theorem vmmap_correct:
  assumes "vm_inv s pd ps" and "4 \<le> length ps"
  shows "\<exists>s' us qs. vmmap pd va ka flags s = Some s' \<and> ps = us @ qs \<and> length us \<le> 4 \<and> vm_inv s' pd qs \<and>
    length us = missing_tables s pd va \<and> tables s' pd = tables s pd \<union> pool_set us \<and>
    (\<forall>wa. pte_value s' pd wa =
       (if wa AND 0xFFFFFFFFF000 = va AND 0xFFFFFFFFF000 then K2P ka OR flags OR PTE_VALID else pte_value s pd wa)) \<and>
    (\<forall>qd wa. vm_inv s qd ps \<longrightarrow> vm_sep s pd qd \<longrightarrow> vm_inv s' qd qs \<and> vm_sep s' pd qd \<and> pte_value s' qd wa = pte_value s qd wa)"
  by (rule vmmap_ok [OF assms])

section \<open>Freeing the tables\<close>

lemma free_page_ok:
  assumes "pool s ps" and "kaddr a" and "a \<notin> pool_set ps" and "a \<noteq> of_nat (zero_page (pages s))"
  shows "pool (free_page a s) (unat a # ps) \<and> tab (free_page a s) = tab s \<and> pgdir_root (free_page a s) = pgdir_root s \<and>
    zero_page (pages (free_page a s)) = zero_page (pages s)"
proof -
  have z: "unat a \<noteq> zero_page (pages s)" using assms(4) by (metis of_nat_unat ucast_id)
  have c: "chain (page_head (pages s)) (page_next (pages s)) ps" "distinct ps" "\<forall>p \<in> set ps. p < 2 ^ 64 \<and> kaddr (of_nat p)"
    using assms(1) by (auto simp: pool_def)
  have n: "unat a \<notin> set ps" using assms(3) by (force simp: pool_set_def)
  have "unat a \<noteq> 0" using kaddr_nonzero [OF assms(2)] by (simp add: unat_eq_0)
  note p = chain_push [OF c(1) this n]
  have "unat a < 2 ^ 64" using unsigned_less [of a, where ?'a = nat] by simp
  then show ?thesis using z p c(2,3) n assms(2) by (simp add: free_page_def kfree_page_def pool_def del: chain.simps)
qed

lemma free_fold_ok:
  assumes step: "\<And>i s ps. i < n \<Longrightarrow> tab s = f \<Longrightarrow> pool s ps \<Longrightarrow> zero_page (pages s) = z \<Longrightarrow> T i \<inter> pool_set ps = {} \<Longrightarrow>
      \<exists>qs. pool (h i s) (qs @ ps) \<and> pool_set qs = T i \<and> tab (h i s) = f \<and> zero_page (pages (h i s)) = z \<and> pgdir_root (h i s) = pgdir_root s"
    and dis: "\<And>i j. i < n \<Longrightarrow> j < n \<Longrightarrow> i \<noteq> j \<Longrightarrow> T i \<inter> T j = {}"
    and s: "tab s = f" "pool s ps" "zero_page (pages s) = z" "\<And>i. i < n \<Longrightarrow> T i \<inter> pool_set ps = {}" and m: "m \<le> n"
  shows "\<exists>qs. pool (fold h [0..<m] s) (qs @ ps) \<and> pool_set qs = (\<Union>i < m. T i) \<and> tab (fold h [0..<m] s) = f \<and>
    zero_page (pages (fold h [0..<m] s)) = z \<and> pgdir_root (fold h [0..<m] s) = pgdir_root s"
  using m
proof (induction m)
  case 0
  then show ?case using s by (intro exI [of _ "[]"]) (simp add: pool_set_def)
next
  case (Suc m)
  then obtain qs where q: "pool (fold h [0..<m] s) (qs @ ps)" "pool_set qs = (\<Union>i < m. T i)" "tab (fold h [0..<m] s) = f"
      "zero_page (pages (fold h [0..<m] s)) = z" "pgdir_root (fold h [0..<m] s) = pgdir_root s" by auto
  have "T m \<inter> T i = {}" if "i < m" for i using dis [of m i] that Suc.prems by simp
  then have "T m \<inter> pool_set (qs @ ps) = {}" using q(2) s(4) [of m] Suc.prems by (auto simp: pool_set_append)
  then obtain rs where r: "pool (h m (fold h [0..<m] s)) (rs @ qs @ ps)" "pool_set rs = T m" "tab (h m (fold h [0..<m] s)) = f"
      "zero_page (pages (h m (fold h [0..<m] s))) = z" "pgdir_root (h m (fold h [0..<m] s)) = pgdir_root s"
    using step [of m "fold h [0..<m] s" "qs @ ps"] q Suc.prems by auto
  then show ?case using q(2) by (intro exI [of _ "rs @ qs"]) (auto simp: pool_set_append lessThan_Suc)
qed

lemma free_pt_r_ok:
  assumes "pt_ok k (tab s) t" and "pool s ps" and "tset k (tab s) t \<inter> pool_set ps = {}" and "of_nat (zero_page (pages s)) \<notin> tset k (tab s) t"
    and "e \<noteq> 0" and "dest e = t" and "k = 3 \<Longrightarrow> e = t" and "k \<le> 3"
  shows "\<exists>qs. pool (free_pt_r k e s) (qs @ ps) \<and> pool_set qs = tset k (tab s) t \<and> tab (free_pt_r k e s) = tab s \<and>
    zero_page (pages (free_pt_r k e s)) = zero_page (pages s) \<and> pgdir_root (free_pt_r k e s) = pgdir_root s"
  using assms
proof (induction k arbitrary: t s ps e)
  case 0
  note f = free_page_ok [OF 0(2), of t]
  have run: "free_pt_r 0 e s = free_page t s" using 0(5,6) by (simp add: free_pt_r.simps dest_def)
  show ?case using f 0(1,3,4) unfolding run by (intro exI [of _ "[unat t]"]) (auto simp: pool_set_def)
next
  case (Suc k)
  let ?f = "tab s" and ?z = "zero_page (pages s)" and ?h = "\<lambda>i s. free_pt_r k (tab s t i) s"
  have sub: "below k ?f t i \<subseteq> tset (Suc k) ?f t" if "i < N_PTE_PER_TABLE" for i using that by (auto simp: below_def)
  have step: "\<exists>qs. pool (?h i u) (qs @ rs) \<and> pool_set qs = below k ?f t i \<and> tab (?h i u) = ?f \<and> zero_page (pages (?h i u)) = ?z \<and> pgdir_root (?h i u) = pgdir_root u"
    if i: "i < N_PTE_PER_TABLE" "tab u = ?f" "pool u rs" "zero_page (pages u) = ?z" "below k ?f t i \<inter> pool_set rs = {}" for i u rs
  proof (cases "?f t i = 0")
    case True
    then have "?h i u = u" using i(2) by (cases k) (simp_all add: free_pt_r.simps)
    then show ?thesis using True i by (intro exI [of _ "[]"]) (simp add: below_def pool_set_def)
  next
    case False
    then have ok: "pt_ok k ?f (dest (?f t i))" using Suc.prems(1) i(1) by auto
    have "of_nat ?z \<notin> below k ?f t i" using sub [OF i(1)] Suc.prems(4) by blast
    then show ?thesis using Suc.IH [of u "dest (?f t i)" rs "?f t i"] False i ok Suc.prems(8) by (simp add: below_def)
  qed
  have dis: "below k ?f t i \<inter> below k ?f t j = {}" if "i < N_PTE_PER_TABLE" "j < N_PTE_PER_TABLE" "i \<noteq> j" for i j
    using Suc.prems(1) that by (auto simp: below_def)
  have pl: "below k ?f t i \<inter> pool_set ps = {}" if "i < N_PTE_PER_TABLE" for i using sub [OF that] Suc.prems(3) by blast
  define s1 where "s1 = fold ?h [0..<N_PTE_PER_TABLE] s"
  obtain qs where q: "pool s1 (qs @ ps)" "pool_set qs = (\<Union>i < N_PTE_PER_TABLE. below k ?f t i)" "tab s1 = ?f" "zero_page (pages s1) = ?z" "pgdir_root s1 = pgdir_root s"
    unfolding s1_def
    using free_fold_ok [of N_PTE_PER_TABLE ?f ?z "below k ?f t" ?h s ps N_PTE_PER_TABLE, OF step dis refl Suc.prems(2) refl pl order_refl] by blast
  have run: "free_pt_r (Suc k) e s = free_page t s1"
    using Suc.prems(5-7) by (auto simp: free_pt_r.simps s1_def dest_def Let_def)
  have ts: "tset (Suc k) ?f t = insert t (pool_set qs)" unfolding q(2) by (auto simp: below_def split: if_splits)
  have "t \<notin> below k ?f t i" if "i < N_PTE_PER_TABLE" for i using Suc.prems(1) that by (auto simp: below_def)
  then have "t \<notin> pool_set (qs @ ps)" using q(2) Suc.prems(3) ts by (auto simp: pool_set_append)
  moreover have "t \<noteq> of_nat (zero_page (pages s1))" using Suc.prems(4) q(4) ts by auto
  ultimately have f: "pool (free_page t s1) (unat t # qs @ ps)" "tab (free_page t s1) = ?f" "zero_page (pages (free_page t s1)) = ?z"
      "pgdir_root (free_page t s1) = pgdir_root s"
    using free_page_ok [OF q(1) pt_ok_kaddr [OF Suc.prems(1)]] q(3-5) by auto
  then show ?case unfolding run ts by (intro exI [of _ "unat t # qs"]) (simp add: pool_set_def)
qed

text \<open>(C34) \<open>free_pt_r\<close> on a page directory gives back every one of its tables, each exactly once, and nothing else.\<close>

theorem free_pt_correct:
  assumes "vm_inv s pd ps" and "pgdir_root s pd \<noteq> 0"
  shows "\<exists>qs. pool (free_pt_r 3 (pgdir_root s pd) s) (qs @ ps) \<and> pool_set qs = tables s pd \<and> tab (free_pt_r 3 (pgdir_root s pd) s) = tab s"
proof -
  let ?r = "pgdir_root s pd"
  have i: "pt_ok 3 (tab s) ?r" "pool s ps" "tset 3 (tab s) ?r \<inter> pool_set ps = {}" "of_nat (zero_page (pages s)) \<notin> tset 3 (tab s) ?r"
    using assms by (auto simp: vm_inv_def)
  have "dest ?r = ?r" by (rule dest_kaddr [OF pt_ok_kaddr [OF i(1)]])
  from free_pt_r_ok [OF i assms(2) this] show ?thesis using assms(2) by (auto simp: tables_def)
qed

section \<open>An address space\<close>

definition sample_vm :: vm_state where
  "sample_vm = \<lparr>tab = (\<lambda>_ _. 0), pages = boot_mem 0xffff000000001000 0xffff000000006000, pgdir_root = (\<lambda>_. 0)\<rparr>"

definition sample_pages :: "nat list" where
  "sample_pages = [0xffff000000005000, 0xffff000000004000, 0xffff000000003000, 0xffff000000002000, 0xffff000000001000]"

lemma sample_vm_inv: "vm_inv sample_vm 0 sample_pages"
  by (simp add: vm_inv_def sample_vm_def sample_pages_def pool_def pool_set_def boot_mem_def init_pages.simps add_to_queue_def kaddr_def)

theorem vmmap_correct_witness:
  "vm_inv sample_vm 0 sample_pages \<and> (\<exists>s' us qs. vmmap 0 0x400000 0xffff000000a00000 3 sample_vm = Some s' \<and>
     sample_pages = us @ qs \<and> length us = 4 \<and> tables s' 0 = pool_set us \<and>
     pte_value s' 0 0x400123 = K2P 0xffff000000a00000 OR 3 OR PTE_VALID \<and> pte_value s' 0 0x401000 = pte_value sample_vm 0 0x401000)"
proof -
  have m: "missing_tables sample_vm 0 0x400000 = 4" "tables sample_vm 0 = {}" by (simp_all add: missing_tables_def tables_def sample_vm_def)
  have l: "4 \<le> length sample_pages" by (simp add: sample_pages_def)
  obtain s' us qs where r: "vmmap 0 0x400000 0xffff000000a00000 3 sample_vm = Some s'" "sample_pages = us @ qs"
      "length us = missing_tables sample_vm 0 0x400000" "tables s' 0 = tables sample_vm 0 \<union> pool_set us"
      "\<And>wa. pte_value s' 0 wa = (if wa AND 0xFFFFFFFFF000 = 0x400000 AND 0xFFFFFFFFF000
         then K2P 0xffff000000a00000 OR 3 OR PTE_VALID else pte_value sample_vm 0 wa)"
    using vmmap_correct [OF sample_vm_inv l, of "0x400000" "0xffff000000a00000" 3] by blast
  then show ?thesis using sample_vm_inv by (intro conjI exI [of _ s'] exI [of _ us] exI [of _ qs]) (simp_all add: m)
qed

theorem free_pt_correct_witness:
  "\<exists>s ps qs. vm_inv s 0 ps \<and> pgdir_root s 0 \<noteq> 0 \<and> pool (free_pt_r 3 (pgdir_root s 0) s) (qs @ ps) \<and> pool_set qs = tables s 0"
proof -
  obtain us qs s r where f: "filled 0 0x400000 us qs sample_vm s r"
    using get_pte_ok [OF sample_vm_inv, where va = "0x400000"] by (auto simp: sample_pages_def)
  then have "vm_inv s 0 qs" "pgdir_root s 0 \<noteq> 0" by (simp_all add: filled_def)
  then show ?thesis using free_pt_correct [of s 0 qs] by blast
qed

end
