(* ===== verification/Bitmap.thy ===== *)
theory Bitmap
  imports Kernel_Prelude
begin

text \<open>
  \<^verbatim>\<open>src/src/common/bitmap.h\<close> and the rounding functions of \<^verbatim>\<open>src/src/common/defines.h\<close>. A bitmap
  is the list of its 64-bit cells; \<open>None\<close> is an access outside the array.
\<close>

abbreviation BITMAP_BITS_PER_CELL :: nat where "BITMAP_BITS_PER_CELL \<equiv> 64"

definition BITMAP_TO_NUM_CELLS :: "nat \<Rightarrow> nat" where
  "BITMAP_TO_NUM_CELLS n = (n + BITMAP_BITS_PER_CELL - 1) div BITMAP_BITS_PER_CELL"

definition BIT :: "nat \<Rightarrow> u64" where
  "BIT i = push_bit i 1"

definition BITMAP_PARSE_INDEX :: "nat \<Rightarrow> nat \<times> nat" where
  "BITMAP_PARSE_INDEX index = (index div BITMAP_BITS_PER_CELL, index mod BITMAP_BITS_PER_CELL)"

definition bitmap_get :: "u64 list \<Rightarrow> nat \<Rightarrow> bool option" where
  "bitmap_get bitmap index =
     (let (idx, offset) = BITMAP_PARSE_INDEX index in
      if idx < length bitmap then Some (drop_bit offset (bitmap ! idx) AND 1 \<noteq> 0) else None)"

definition bitmap_set :: "u64 list \<Rightarrow> nat \<Rightarrow> u64 list option" where
  "bitmap_set bitmap index =
     (let (idx, offset) = BITMAP_PARSE_INDEX index in
      if idx < length bitmap then Some (bitmap[idx := bitmap ! idx OR BIT offset]) else None)"

definition bitmap_clear :: "u64 list \<Rightarrow> nat \<Rightarrow> u64 list option" where
  "bitmap_clear bitmap index =
     (let (idx, offset) = BITMAP_PARSE_INDEX index in
      if idx < length bitmap then Some (bitmap[idx := bitmap ! idx AND NOT (BIT offset)]) else None)"

definition round_down :: "u64 \<Rightarrow> u64 \<Rightarrow> u64" where
  "round_down a b = a - a mod b"

definition round_up :: "u64 \<Rightarrow> u64 \<Rightarrow> u64" where
  "round_up a b = round_down (a + b - 1) b"

section \<open>Bitmaps are arrays of bits\<close>

lemma get_bit:
  "i < 64 * length bm \<Longrightarrow> bitmap_get bm i = Some (bit (bm ! (i div 64)) (i mod 64))"
  by (simp add: bitmap_get_def BITMAP_PARSE_INDEX_def and_one_eq less_mult_imp_div_less mult.commute bit_iff_odd_drop_bit flip: odd_iff_mod_2_eq_one)

lemma cells_cover: "index < n \<Longrightarrow> length bm = BITMAP_TO_NUM_CELLS n \<Longrightarrow> index < 64 * length bm"
  unfolding BITMAP_TO_NUM_CELLS_def by linarith

text \<open>Every index of a bitmap declared for \<open>n\<close> bits can be read and written, and a write changes that bit only.\<close>

lemma bitmap_update:
  assumes "index < n" and "length bm = BITMAP_TO_NUM_CELLS n"
  shows "\<exists>bm1 bm0. bitmap_set bm index = Some bm1 \<and> bitmap_clear bm index = Some bm0 \<and> length bm1 = length bm \<and> length bm0 = length bm \<and>
    (\<forall>j < n. bitmap_get bm1 j = (if j = index then Some True else bitmap_get bm j) \<and>
             bitmap_get bm0 j = (if j = index then Some False else bitmap_get bm j))"
proof -
  have i: "index < 64 * length bm" by (rule cells_cover [OF assms])
  then have idx: "index div 64 < length bm" by (simp add: less_mult_imp_div_less mult.commute)
  let ?b1 = "bm[index div 64 := bm ! (index div 64) OR BIT (index mod 64)]"
  let ?b0 = "bm[index div 64 := bm ! (index div 64) AND NOT (BIT (index mod 64))]"
  have run: "bitmap_set bm index = Some ?b1" "bitmap_clear bm index = Some ?b0"
    using idx by (simp_all add: bitmap_set_def bitmap_clear_def BITMAP_PARSE_INDEX_def)
  have "bitmap_get ?b1 j = (if j = index then Some True else bitmap_get bm j) \<and> bitmap_get ?b0 j = (if j = index then Some False else bitmap_get bm j)"
    if "j < n" for j
  proof -
    have j: "j < 64 * length bm" by (rule cells_cover [OF that assms(2)])
    have c: "bit (BIT (index mod 64)) (j mod 64) \<longleftrightarrow> j mod 64 = index mod 64" by (auto simp: BIT_def bit_simps)
    have "j mod 64 < 64" by simp
    then show ?thesis
    proof (cases "j div 64 = index div 64")
      case True
      then have "j = index \<longleftrightarrow> j mod 64 = index mod 64" by (metis div_mult_mod_eq)
      then show ?thesis using j idx True c \<open>j mod 64 < 64\<close> by (auto simp: get_bit bit_or_iff bit_and_iff bit_not_iff)
    next
      case False
      then show ?thesis using j by (auto simp: get_bit)
    qed
  qed
  then show ?thesis using run by auto
qed

section \<open>Rounding\<close>

lemma unat_of_small: "k < 2 ^ 64 \<Longrightarrow> unat (of_nat k :: u64) = k"
  by (simp add: unat_of_nat)

lemma unat_round_down: "unat (round_down a b) = unat a - unat a mod unat b"
proof -
  have "unat a mod unat b \<le> unat a" by (rule mod_less_eq_dividend)
  then have "round_down a b = of_nat (unat a - unat a mod unat b)" by (simp add: round_down_def of_nat_diff word_mod_def flip: unat_mod_distrib) 
  moreover have "unat a < 2 ^ 64" using unsigned_less [of a, where ?'a = nat] by simp
  ultimately show ?thesis by (simp only: unat_of_small less_imp_diff_less)
qed

text \<open>\<open>round_up\<close> is the least multiple that is not smaller, as long as the sum does not wrap around.\<close>

lemma round_up_bound:
  assumes "0 < b" and "unat a + unat b \<le> 2 ^ 64"
  shows "unat b dvd unat (round_up a b) \<and> unat a \<le> unat (round_up a b) \<and> unat (round_up a b) < unat a + unat b"
proof -
  have b: "0 < unat b" using assms(1) by (simp add: word_less_nat_alt)
  have "a + b - 1 = of_nat (unat a + unat b - 1)" using b by (simp add: of_nat_diff)
  then have s: "unat (a + b - 1) = unat a + unat b - 1" using assms(2) b by (simp only: unat_of_small)
  let ?x = "unat a + unat b - 1"
  have r: "unat (round_up a b) = ?x - ?x mod unat b" by (simp only: round_up_def unat_round_down s)
  have "?x mod unat b < unat b" using b by simp
  then have "unat a \<le> ?x - ?x mod unat b" "?x - ?x mod unat b < unat a + unat b" using b by linarith+
  moreover have "unat b dvd ?x - ?x mod unat b" by (rule dvd_minus_mod)
  ultimately show ?thesis unfolding r by simp
qed

end
