(* ===== verification/Proc.thy ===== *)
theory Proc
  imports Sched_Proofs Semaphore
begin

text \<open>
  \<^verbatim>\<open>src/src/kernel/proc.c\<close> and \<^verbatim>\<open>src/src/kernel/container.c\<close>: the tree of processes, exit and wait,
  the pools of process identifiers and the containers. The state extends that of the scheduler
  by the fields of \<^verbatim>\<open>struct proc\<close> and \<^verbatim>\<open>struct container\<close> it does not use. \<open>children\<close> is the ring of
  children from its head on. The functions hold \<^verbatim>\<open>plock\<close>; \<^verbatim>\<open>exit\<close> takes the scheduler's lock before
  it gives \<^verbatim>\<open>plock\<close> up and \<^verbatim>\<open>is_zombie\<close> takes that lock, so an exit is one step up to the switch.
  \<^verbatim>\<open>wait\<close> sleeps in between and is three steps; only the caller itself takes children out of its ring,
  so the test for children and the entry of the semaphore are one step. \<^verbatim>\<open>kill\<close> is one step too. Addresses returned by \<^verbatim>\<open>kalloc\<close> and the page table
  made by \<^verbatim>\<open>init_pgdir\<close> are arguments. \<open>None\<close> is a failed \<^verbatim>\<open>ASSERT\<close>, a \<^verbatim>\<open>PANIC\<close> or an access
  outside an array.
\<close>

section \<open>State\<close>

abbreviation PID_NUM :: nat where "PID_NUM \<equiv> 100"

record pid_pool =
  freelist :: "int list"
  avail :: nat

record proc_sys =
  sch :: sched_state
  localpid :: "addr \<Rightarrow> int"
  exitcode :: "addr \<Rightarrow> int"
  childexit :: "addr \<Rightarrow> semaphore"
  children :: "addr \<Rightarrow> addr list"
  parent :: "addr \<Rightarrow> addr"
  kcontext :: "addr \<Rightarrow> u64 \<times> u64 \<times> u64"
  global_pids :: pid_pool
  pids :: "addr \<Rightarrow> pid_pool"
  rootproc :: "addr \<Rightarrow> addr"
  proc_entry :: u64
  freed_pgdirs :: "addr list"

definition init_pids :: "nat \<Rightarrow> pid_pool" where
  "init_pids start = \<lparr>freelist = map int [0..<PID_NUM], avail = start\<rparr>"

definition take_pid :: "pid_pool \<Rightarrow> (int \<times> pid_pool) option" where
  "take_pid pool =
     (if avail pool < length (freelist pool)
      then Some (freelist pool ! avail pool, pool\<lparr>avail := avail pool + 1\<rparr>) else None)"

definition give_pid :: "int \<Rightarrow> pid_pool \<Rightarrow> pid_pool option" where
  "give_pid x pool =
     (if 0 < avail pool \<and> avail pool \<le> length (freelist pool)
      then Some (pool\<lparr>freelist := (freelist pool)[avail pool - 1 := x], avail := avail pool - 1\<rparr>) else None)"

section \<open>Processes\<close>

definition set_parent_to_this :: "nat \<Rightarrow> addr \<Rightarrow> proc_sys \<Rightarrow> proc_sys" where
  "set_parent_to_this cpu p s =
     (let this = cpu_proc (sch s) cpu
      in s\<lparr>parent := (parent s)(p := this), children := (children s)(this := p # children s this)\<rparr>)"

definition set_container_to_this :: "nat \<Rightarrow> addr \<Rightarrow> proc_sys \<Rightarrow> proc_sys" where
  "set_container_to_this cpu p s =
     s\<lparr>sch := (sch s)\<lparr>cont_of := (cont_of (sch s))(p := cont_of (sch s) (cpu_proc (sch s) cpu))\<rparr>\<rparr>"

definition init_proc :: "addr \<Rightarrow> u64 \<Rightarrow> proc_sys \<Rightarrow> proc_sys option" where
  "init_proc p pt s = do {
     (x, g) \<leftarrow> take_pid (global_pids s);
     let sc = sch s;
     let sc = sc\<lparr>state := (state sc)(p := UNUSED), idle := (idle sc)(p := False), killed := (killed sc)(p := False),
       pid := (pid sc)(p := x), cont_of := (cont_of sc)(p := root_container sc),
       pgdir_pt := (pgdir_pt sc)(p := pt), online := (online sc)(p := False)\<rparr>;
     Some (s\<lparr>sch := init_schinfo p False sc, global_pids := g, localpid := (localpid s)(p := 0), exitcode := (exitcode s)(p := 0),
       parent := (parent s)(p := 0), childexit := (childexit s)(p := init_sem 0 (childexit s p)), children := (children s)(p := [])\<rparr>) }"

definition create_proc :: "addr \<Rightarrow> u64 \<Rightarrow> proc_sys \<Rightarrow> proc_sys option" where
  "create_proc p pt s = init_proc p pt s"

definition start_proc :: "addr \<Rightarrow> u64 \<Rightarrow> u64 \<Rightarrow> proc_sys \<Rightarrow> (int \<times> proc_sys) option" where
  "start_proc p entry arg s =
     (let r = root_proc (sch s);
          s = (if parent s p = 0
               then s\<lparr>parent := (parent s)(p := r), children := (children s)(r := p # children s r)\<rparr> else s);
          s = s\<lparr>kcontext := (kcontext s)(p := (proc_entry s, entry, arg))\<rparr>;
          c = cont_of (sch s) p
      in do {
        (x, pool) \<leftarrow> take_pid (pids s c);
        let s = s\<lparr>pids := (pids s)(c := pool), localpid := (localpid s)(p := x)\<rparr>;
        (b, sc) \<leftarrow> activate_proc p False (sch s);
        Some (x, s\<lparr>sch := sc\<rparr>) })"

definition init_root_proc :: "u64 \<Rightarrow> u64 \<Rightarrow> proc_sys \<Rightarrow> proc_sys option" where
  "init_root_proc pt kernel_entry s =
     (let r = root_proc (sch s) in do {
        s \<leftarrow> init_proc r pt s;
        (x, s) \<leftarrow> start_proc r kernel_entry 123456 (s\<lparr>parent := (parent s)(r := r)\<rparr>);
        Some s })"

section \<open>Exit and wait\<close>

definition post_childexit :: "addr \<Rightarrow> proc_sys \<Rightarrow> proc_sys option" where
  "post_childexit p s = do {
     (w, sm) \<leftarrow> post_sem (childexit s p);
     let s = s\<lparr>childexit := (childexit s)(p := sm)\<rparr>;
     case w of None \<Rightarrow> Some s
     | Some q \<Rightarrow> do { (b, sc) \<leftarrow> activate_proc (of_nat q) False (sch s); Some (s\<lparr>sch := sc\<rparr>) } }"

text \<open>The children go to the root process of the container; \<^verbatim>\<open>_merge_list\<close> puts the first of them last.\<close>

definition move_children :: "addr \<Rightarrow> addr \<Rightarrow> proc_sys \<Rightarrow> proc_sys" where
  "move_children this r s =
     (let cs = children s this in
      if cs \<noteq> [] then
        let s = s\<lparr>parent := (\<lambda>c. if c \<in> set cs then r else parent s c), children := (children s)(this := [])\<rparr>
        in s\<lparr>children := (children s)(r := children s r @ tl cs @ [hd cs])\<rparr>
      else s)"

definition exit :: "nat \<Rightarrow> int \<Rightarrow> proc_sys \<Rightarrow> proc_sys option" where
  "exit cpu code s =
     (let this = cpu_proc (sch s) cpu; r = rootproc s (cont_of (sch s) this) in
      if this = r \<or> idle (sch s) this then None
      else do {
        s \<leftarrow> for_each (\<lambda>c s. if is_zombie c (sch s) then post_childexit r s else Some s) (children s this)
          (s\<lparr>exitcode := (exitcode s)(this := code)\<rparr>);
        let s = move_children this r s;
        let s = s\<lparr>freed_pgdirs := freed_pgdirs s @ [this]\<rparr>;
        s \<leftarrow> post_childexit (parent s this) s;
        g \<leftarrow> give_pid (pid (sch s) this) (global_pids s);
        sc \<leftarrow> simple_sched cpu ZOMBIE (sch s);
        Some (s\<lparr>global_pids := g, sch := sc\<rparr>) })"

text \<open>\<^verbatim>\<open>wait\<close> up to the sleep on \<^verbatim>\<open>childexit\<close>, after the sleep, and with a permit in hand.\<close>

datatype wait_outcome = NoChildren | HasPermit | Asleep nat

definition wait_enter :: "nat \<Rightarrow> proc_sys \<Rightarrow> (wait_outcome \<times> proc_sys) option" where
  "wait_enter cpu s =
     (let this = cpu_proc (sch s) cpu in
      if children s this = [] then Some (NoChildren, s)
      else case wait_sem_enter (unat this) (childexit s this) of
        (Acquired, sm) \<Rightarrow> Some (HasPermit, s\<lparr>childexit := (childexit s)(this := sm)\<rparr>)
      | (Sleeps w, sm) \<Rightarrow> do {
          sc \<leftarrow> simple_sched cpu SLEEPING (sch s);
          Some (Asleep w, s\<lparr>childexit := (childexit s)(this := sm), sch := sc\<rparr>) })"

definition wait_resume :: "nat \<Rightarrow> nat \<Rightarrow> proc_sys \<Rightarrow> (bool \<times> proc_sys) option" where
  "wait_resume cpu w s =
     (let this = cpu_proc (sch s) cpu in do {
        (r, sm) \<leftarrow> wait_sem_resume w (childexit s this);
        Some (r, s\<lparr>childexit := (childexit s)(this := sm)\<rparr>) })"

text \<open>The child is returned with its local identifier, exit code and identifier; its memory is freed.\<close>

definition wait_reap :: "nat \<Rightarrow> proc_sys \<Rightarrow> ((addr \<times> int \<times> int \<times> int) \<times> proc_sys) option" where
  "wait_reap cpu s =
     (let this = cpu_proc (sch s) cpu in do {
        child \<leftarrow> List.find (\<lambda>c. is_zombie c (sch s)) (children s this);
        let lpid = localpid s child;
        let c = cont_of (sch s) child;
        pool \<leftarrow> give_pid lpid (pids s c);
        Some ((child, lpid, exitcode s child, pid (sch s) child),
          s\<lparr>pids := (pids s)(c := pool), children := (children s)(this := remove1 child (children s this))\<rparr>) })"

section \<open>Searching the tree\<close>

text \<open>\<^verbatim>\<open>dfs\<close> over a list of processes; 0 when there is none.\<close>

partial_function (option) dfs :: "addr list \<Rightarrow> int \<Rightarrow> bool \<Rightarrow> proc_sys \<Rightarrow> addr option" where
  "dfs ps x offline s =
     (case ps of [] \<Rightarrow> Some 0
      | p # qs \<Rightarrow>
          if (pid (sch s) p = x \<or> offline \<and> \<not> online (sch s) p) \<and> state (sch s) p \<noteq> UNUSED then Some p
          else do {
            r \<leftarrow> dfs (children s p) x offline s;
            if r \<noteq> 0 then Some r else dfs qs x offline s })"

definition kill :: "int \<Rightarrow> proc_sys \<Rightarrow> (int \<times> proc_sys) option" where
  "kill x s = do {
     p \<leftarrow> dfs [root_proc (sch s)] x False s;
     if p \<noteq> 0 then do {
       (b, sc) \<leftarrow> activate_proc p True ((sch s)\<lparr>killed := (killed (sch s))(p := True)\<rparr>);
       Some (0, s\<lparr>sch := sc\<rparr>) }
     else Some (-1, s) }"

definition is_killed :: "addr \<Rightarrow> proc_sys \<Rightarrow> bool" where
  "is_killed p s = killed (sch s) p"

definition get_offline_proc :: "proc_sys \<Rightarrow> addr option" where
  "get_offline_proc s = do { p \<leftarrow> dfs [root_proc (sch s)] 0 True s; if p \<noteq> 0 then Some p else None }"

section \<open>Containers\<close>

definition init_container :: "addr \<Rightarrow> proc_sys \<Rightarrow> proc_sys" where
  "init_container c s =
     (let sc = (sch s)\<lparr>cparent := (cparent (sch s))(c := 0), cid := (cid (sch s))(c := 0)\<rparr>
      in s\<lparr>sch := init_schqueue c (init_schinfo c True sc), rootproc := (rootproc s)(c := 0), pids := (pids s)(c := init_pids 0)\<rparr>)"

definition create_container :: "nat \<Rightarrow> addr \<Rightarrow> addr \<Rightarrow> u64 \<Rightarrow> u64 \<Rightarrow> u64 \<Rightarrow> proc_sys \<Rightarrow> proc_sys option" where
  "create_container cpu c p pt root_entry arg s =
     (let s = init_container c s;
          sc = sch s;
          sc = sc\<lparr>cid := (cid sc)(c := sint (ucast arg :: 32 word)), cparent := (cparent sc)(c := cont_of sc (cpu_proc sc cpu))\<rparr>
      in do {
        s \<leftarrow> create_proc p pt (s\<lparr>sch := sc\<rparr>);
        let s = s\<lparr>sch := (sch s)\<lparr>cont_of := (cont_of (sch s))(p := c)\<rparr>, rootproc := (rootproc s)(c := p)\<rparr>;
        (x, s) \<leftarrow> start_proc p root_entry arg (set_parent_to_this cpu p s);
        sc \<leftarrow> activate_group c (sch s);
        Some (s\<lparr>sch := sc\<rparr>) })"

definition init_root_container :: "proc_sys \<Rightarrow> proc_sys" where
  "init_root_container s =
     (let c = root_container (sch s); s = init_container c s
      in s\<lparr>sch := (sch s)\<lparr>cid := (cid (sch s))(c := 4)\<rparr>, rootproc := (rootproc s)(c := root_proc (sch s))\<rparr>)"

end
