(* ===== verification/Proc_Run.thy ===== *)
theory Proc_Run
  imports Proc_Proofs
begin

text \<open>
  Runs of the process code and their invariant. A run keeps the processes whose memory is
  allocated (\<open>M\<close>), those that have been started (\<open>T\<close>), the containers (\<open>C\<close>) and how far each
  process has got in \<^verbatim>\<open>wait\<close>.
\<close>

section \<open>Pools of identifiers\<close>

definition pool_ok :: "pid_pool \<Rightarrow> addr set \<Rightarrow> (addr \<Rightarrow> int) \<Rightarrow> nat \<Rightarrow> bool" where
  "pool_ok pool X f b \<longleftrightarrow> length (freelist pool) = PID_NUM \<and> avail pool \<le> PID_NUM \<and> finite X \<and> inj_on f X \<and>
     distinct (drop (avail pool) (freelist pool)) \<and> f ` X \<inter> set (drop (avail pool) (freelist pool)) = {} \<and>
     f ` X \<union> set (drop (avail pool) (freelist pool)) = int ` {b..<PID_NUM}"

lemma pool_init: "b \<le> PID_NUM \<Longrightarrow> pool_ok (init_pids b) {} f b"
  by (auto simp: pool_ok_def init_pids_def drop_map distinct_map)

lemma pool_cong: "(\<And>p. p \<in> X \<Longrightarrow> g p = f p) \<Longrightarrow> pool_ok pool X f b \<Longrightarrow> pool_ok pool X g b"
  unfolding pool_ok_def by (metis image_cong inj_on_cong)

lemma pool_upd [simp]: "p \<notin> X \<Longrightarrow> pool_ok pool X (f(p := x)) b = pool_ok pool X f b"
  using pool_cong [of X "f(p := x)" f pool b] pool_cong [of X f "f(p := x)" pool b] by (metis fun_upd_other)

lemma pool_take:
  assumes ok: "pool_ok pool X f b" and take: "take_pid pool = Some (x, pool')" and p: "p \<notin> X" and g: "g p = x" "\<And>q. q \<in> X \<Longrightarrow> g q = f q"
  shows "pool_ok pool' (insert p X) g b"
proof -
  let ?d = "drop (avail pool) (freelist pool)"
  have lt: "avail pool < length (freelist pool)" "x = freelist pool ! avail pool" "pool' = pool\<lparr>avail := avail pool + 1\<rparr>"
    using take by (auto simp: take_pid_def split: if_splits)
  have d: "?d = x # drop (Suc (avail pool)) (freelist pool)" using lt by (simp add: Cons_nth_drop_Suc)
  have im: "g ` X = f ` X" "inj_on g X" using g(2) ok by (auto simp: pool_ok_def cong: inj_on_cong image_cong)
  have "x \<notin> f ` X" using ok d by (auto simp: pool_ok_def)
  then have "inj_on g (insert p X)" using im g(1) p by auto
  then show ?thesis using ok lt d im g(1) unfolding pool_ok_def by auto
qed

lemma pool_give:
  assumes ok: "pool_ok pool X f b" and p: "p \<in> X"
  shows "\<exists>pool'. give_pid (f p) pool = Some pool' \<and> pool_ok pool' (X - {p}) f b"
proof -
  let ?a = "avail pool" and ?l = "freelist pool"
  have len: "length ?l = PID_NUM" "?a \<le> PID_NUM" and dis: "distinct (drop ?a ?l)" "f ` X \<inter> set (drop ?a ?l) = {}" "inj_on f X" "finite X"
      "f ` X \<union> set (drop ?a ?l) = int ` {b..<PID_NUM}" using ok by (auto simp: pool_ok_def)
  have pos: "0 < ?a"
  proof (rule ccontr)
    assume "\<not> 0 < ?a"
    then have "card (set ?l) = PID_NUM" "set ?l \<subseteq> int ` {b..<PID_NUM}" using len dis by (auto simp: distinct_card)
    moreover have "card (int ` {b..<PID_NUM}) = PID_NUM - b" by (simp add: card_image)
    ultimately have l: "set ?l = int ` {b..<PID_NUM}" using card_mono [of "int ` {b..<PID_NUM}" "set ?l"] by (intro card_subset_eq) auto
    have "f p \<in> f ` X" by (rule imageI [OF p])
    then have "f p \<in> set ?l" using dis(5) l by (metis UnI1)
    moreover have "drop ?a ?l = ?l" using \<open>\<not> 0 < ?a\<close> by simp
    ultimately show False using dis(2) \<open>f p \<in> f ` X\<close> by (metis disjoint_iff)
  qed
  let ?p = "pool\<lparr>freelist := ?l[?a - 1 := f p], avail := ?a - 1\<rparr>"
  have d: "drop (?a - 1) (?l[?a - 1 := f p]) = f p # drop ?a ?l"
    using pos len by (simp add: drop_update_swap [symmetric] Cons_nth_drop_Suc [symmetric])
  have im: "f ` (X - {p}) = f ` X - {f p}" using dis(3) p by (auto simp: inj_on_def)
  have "pool_ok ?p (X - {p}) f b"
    using len dis d im p unfolding pool_ok_def by (auto intro: inj_on_subset)
  moreover have "give_pid (f p) pool = Some ?p" using pos len by (simp add: give_pid_def)
  ultimately show ?thesis by blast
qed

section \<open>The semaphore of a process\<close>

datatype wait_pc = Out | Sleeping nat | Reaping

definition sem_shape :: "wait_pc \<Rightarrow> semaphore \<Rightarrow> bool" where
  "sem_shape w sm \<longleftrightarrow> (case w of
     Sleeping i \<Rightarrow> up (wait_of sm i) \<and> sleeplist sm = [] \<and> 0 \<le> val sm \<or> \<not> up (wait_of sm i) \<and> sleeplist sm = [i] \<and> val sm = -1
   | _ \<Rightarrow> sleeplist sm = [] \<and> 0 \<le> val sm)"

lemma post_shape:
  "sem_shape w sm \<Longrightarrow> \<exists>r sm'. post_sem sm = Some (r, sm') \<and> sem_shape w sm' \<and> val sm' = val sm + 1"
  by (cases w; cases "sleeplist sm"; cases "tl (sleeplist sm)") (auto simp: sem_shape_def post_sem_def Let_def)

definition held :: "wait_pc \<Rightarrow> int" where
  "held w = (if w = Out then 0 else 1)"

section \<open>Runs\<close>

abbreviation this_proc :: "nat \<Rightarrow> proc_sys \<Rightarrow> addr" where
  "this_proc cpu s \<equiv> cpu_proc (sch s) cpu"

inductive proc_run :: "proc_sys \<Rightarrow> addr set \<Rightarrow> addr set \<Rightarrow> addr set \<Rightarrow> (addr \<Rightarrow> wait_pc) \<Rightarrow> bool" where
  boot: "global_pids s = init_pids 1 \<Longrightarrow> root_proc (sch s) \<noteq> 0 \<Longrightarrow> init_root_proc pt e (init_root_container s) = Some s' \<Longrightarrow>
    proc_run s' {root_proc (sch s)} {root_proc (sch s)} {root_container (sch s)} (\<lambda>_. Out)"
| create: "proc_run s M T C W \<Longrightarrow> p \<notin> M \<Longrightarrow> p \<noteq> 0 \<Longrightarrow> create_proc p pt s = Some s' \<Longrightarrow> proc_run s' (insert p M) T C (W(p := Out))"
| parent: "proc_run s M T C W \<Longrightarrow> this_proc cpu s \<in> T \<Longrightarrow> state (sch s) (this_proc cpu s) = RUNNING \<Longrightarrow> p \<in> M - T \<Longrightarrow> parent s p = 0 \<Longrightarrow>
    proc_run (set_parent_to_this cpu p s) M T C W"
| container: "proc_run s M T C W \<Longrightarrow> this_proc cpu s \<in> T \<Longrightarrow> p \<in> M - T \<Longrightarrow> proc_run (set_container_to_this cpu p s) M T C W"
| start: "proc_run s M T C W \<Longrightarrow> p \<in> M - T \<Longrightarrow> start_proc p e a s = Some (x, s') \<Longrightarrow> proc_run s' M (insert p T) C W"
| new_container: "proc_run s M T C W \<Longrightarrow> this_proc cpu s \<in> T \<Longrightarrow> state (sch s) (this_proc cpu s) = RUNNING \<Longrightarrow> c \<notin> C \<Longrightarrow> p \<notin> M \<Longrightarrow> p \<noteq> 0 \<Longrightarrow>
    create_container cpu c p pt e a s = Some s' \<Longrightarrow> proc_run s' (insert p M) (insert p T) (insert c C) (W(p := Out))"
| exit: "proc_run s M T C W \<Longrightarrow> this_proc cpu s \<in> T \<Longrightarrow> state (sch s) (this_proc cpu s) = RUNNING \<Longrightarrow> W (this_proc cpu s) = Out \<Longrightarrow>
    exit cpu code s = Some s' \<Longrightarrow> proc_run s' M T C W"
| wait: "proc_run s M T C W \<Longrightarrow> this_proc cpu s \<in> T \<Longrightarrow> state (sch s) (this_proc cpu s) = RUNNING \<Longrightarrow> W (this_proc cpu s) = Out \<Longrightarrow>
    wait_enter cpu s = Some (out, s') \<Longrightarrow>
    proc_run s' M T C (W(this_proc cpu s := (case out of NoChildren \<Rightarrow> Out | HasPermit \<Rightarrow> Reaping | Asleep w \<Rightarrow> Sleeping w)))"
| resume: "proc_run s M T C W \<Longrightarrow> this_proc cpu s \<in> T \<Longrightarrow> W (this_proc cpu s) = Sleeping w \<Longrightarrow> wait_resume cpu w s = Some (r, s') \<Longrightarrow>
    proc_run s' M T C (W(this_proc cpu s := (if r then Reaping else Out)))"
| reap: "proc_run s M T C W \<Longrightarrow> this_proc cpu s \<in> T \<Longrightarrow> W (this_proc cpu s) = Reaping \<Longrightarrow> wait_reap cpu s = Some ((ch, res), s') \<Longrightarrow>
    proc_run s' (M - {ch}) (T - {ch}) C (W(this_proc cpu s := Out))"
| killing: "proc_run s M T C W \<Longrightarrow> kill x s = Some (k, s') \<Longrightarrow> proc_run s' M T C W"
| switch: "proc_run s M T C W \<Longrightarrow> new \<noteq> ZOMBIE \<Longrightarrow> simple_sched cpu new (sch s) = Some sc \<Longrightarrow> proc_run (s\<lparr>sch := sc\<rparr>) M T C W"
| wake: "proc_run s M T C W \<Longrightarrow> activate_proc p onalert (sch s) = Some (b, sc) \<Longrightarrow> proc_run (s\<lparr>sch := sc\<rparr>) M T C W"

section \<open>The invariant\<close>

definition zombies :: "proc_sys \<Rightarrow> addr \<Rightarrow> int" where
  "zombies s p = int (length (filter (\<lambda>c. state (sch s) c = ZOMBIE) (children s p)))"

definition tree_ok :: "proc_sys \<Rightarrow> addr set \<Rightarrow> addr set \<Rightarrow> bool" where
  "tree_ok s M T \<longleftrightarrow> T \<subseteq> M \<and> 0 \<notin> M \<and> root_proc (sch s) \<in> T \<and> parent s (root_proc (sch s)) = root_proc (sch s) \<and>
     (\<forall>p \<in> M. distinct (children s p) \<and> (\<forall>c \<in> set (children s p). c \<in> M \<and> c \<noteq> p \<and> c \<noteq> root_proc (sch s) \<and> parent s c = p)) \<and>
     (\<forall>c \<in> M. c \<noteq> root_proc (sch s) \<longrightarrow> parent s c \<noteq> 0 \<longrightarrow>
        parent s c \<in> T \<and> state (sch s) (parent s c) \<noteq> ZOMBIE \<and> c \<in> set (children s (parent s c))) \<and>
     (\<forall>c \<in> T. parent s c \<noteq> 0) \<and> (\<forall>p \<in> M - T. children s p = [] \<and> state (sch s) p \<noteq> ZOMBIE)"

definition acct_ok :: "proc_sys \<Rightarrow> addr set \<Rightarrow> (addr \<Rightarrow> wait_pc) \<Rightarrow> (addr \<Rightarrow> int) \<Rightarrow> bool" where
  "acct_ok s M W D \<longleftrightarrow> (\<forall>p \<in> M. sem_shape (W p) (childexit s p) \<and>
     (if state (sch s) p = ZOMBIE then children s p = [] \<and> W p = Out
      else zombies s p + D p = val (childexit s p) + held (W p)))"

text \<open>The root process of a container, started (\<open>R\<close>) and never a zombie, has its parent in another container.\<close>

definition cont_ok :: "proc_sys \<Rightarrow> addr set \<Rightarrow> addr set \<Rightarrow> addr set \<Rightarrow> bool" where
  "cont_ok s M R C \<longleftrightarrow> root_container (sch s) \<in> C \<and> rootproc s (root_container (sch s)) = root_proc (sch s) \<and> (\<forall>p \<in> M. cont_of (sch s) p \<in> C) \<and>
     (\<forall>c \<in> C. rootproc s c \<in> R \<and> cont_of (sch s) (rootproc s c) = c \<and> state (sch s) (rootproc s c) \<noteq> ZOMBIE \<and>
        (rootproc s c \<noteq> root_proc (sch s) \<longrightarrow> parent s (rootproc s c) \<noteq> 0 \<longrightarrow> cont_of (sch s) (parent s (rootproc s c)) \<noteq> c))"

definition live :: "proc_sys \<Rightarrow> addr set \<Rightarrow> addr set" where
  "live s M = {p \<in> M. state (sch s) p \<noteq> ZOMBIE}"

definition members :: "proc_sys \<Rightarrow> addr set \<Rightarrow> addr \<Rightarrow> addr set" where
  "members s T c = {p \<in> T. cont_of (sch s) p = c}"

definition pids_ok :: "proc_sys \<Rightarrow> addr set \<Rightarrow> addr set \<Rightarrow> addr set \<Rightarrow> bool" where
  "pids_ok s M T C \<longleftrightarrow> pool_ok (global_pids s) (live s M) (pid (sch s)) 1 \<and> (\<forall>c \<in> C. pool_ok (pids s c) (members s T c) (localpid s) 0)"

definition proc_inv :: "proc_sys \<Rightarrow> addr set \<Rightarrow> addr set \<Rightarrow> addr set \<Rightarrow> addr set \<Rightarrow> (addr \<Rightarrow> wait_pc) \<Rightarrow> (addr \<Rightarrow> int) \<Rightarrow> bool" where
  "proc_inv s M T R C W D \<longleftrightarrow> tree_ok s M T \<and> acct_ok s M W D \<and> cont_ok s M R C \<and> pids_ok s M T C"

text \<open>A change of the scheduler's state that makes no process a zombie does not matter.\<close>

lemma sch_frame:
  assumes "kept (sch s) sc" and "\<And>q. state sc q = ZOMBIE \<longleftrightarrow> state (sch s) q = ZOMBIE"
  shows "tree_ok (s\<lparr>sch := sc\<rparr>) M T = tree_ok s M T" "acct_ok (s\<lparr>sch := sc\<rparr>) M W D = acct_ok s M W D"
    "cont_ok (s\<lparr>sch := sc\<rparr>) M R C = cont_ok s M R C" "pids_ok (s\<lparr>sch := sc\<rparr>) M T C = pids_ok s M T C"
    "proc_inv (s\<lparr>sch := sc\<rparr>) M T R C W D = proc_inv s M T R C W D"
proof -
  have k: "pid sc = pid (sch s)" "cont_of sc = cont_of (sch s)" "root_container sc = root_container (sch s)" "root_proc sc = root_proc (sch s)"
    using assms(1) by (simp_all add: kept_def)
  have z: "zombies (s\<lparr>sch := sc\<rparr>) = zombies s" by (simp add: fun_eq_iff zombies_def assms(2))
  show "tree_ok (s\<lparr>sch := sc\<rparr>) M T = tree_ok s M T" by (simp add: tree_ok_def k assms(2))
  moreover show "acct_ok (s\<lparr>sch := sc\<rparr>) M W D = acct_ok s M W D" for D by (simp add: acct_ok_def z assms(2))
  moreover show "cont_ok (s\<lparr>sch := sc\<rparr>) M R C = cont_ok s M R C" by (simp add: cont_ok_def k assms(2))
  moreover show "pids_ok (s\<lparr>sch := sc\<rparr>) M T C = pids_ok s M T C" by (simp add: pids_ok_def live_def members_def k assms(2))
  ultimately show "proc_inv (s\<lparr>sch := sc\<rparr>) M T R C W D = proc_inv s M T R C W D" by (simp add: proc_inv_def)
qed

lemma tree_okD:
  assumes "tree_ok s M T"
  shows "T \<subseteq> M" "0 \<notin> M" "root_proc (sch s) \<in> T" "parent s (root_proc (sch s)) = root_proc (sch s)"
    and "p \<in> M \<Longrightarrow> distinct (children s p)" and "p \<in> M \<Longrightarrow> c \<in> set (children s p) \<Longrightarrow> c \<in> M \<and> c \<noteq> p \<and> c \<noteq> root_proc (sch s) \<and> parent s c = p"
    and "c \<in> M \<Longrightarrow> c \<noteq> root_proc (sch s) \<Longrightarrow> parent s c \<noteq> 0 \<Longrightarrow>
      parent s c \<in> T \<and> state (sch s) (parent s c) \<noteq> ZOMBIE \<and> c \<in> set (children s (parent s c))"
    and "c \<in> T \<Longrightarrow> parent s c \<noteq> 0" and "p \<in> M \<Longrightarrow> p \<notin> T \<Longrightarrow> children s p = [] \<and> state (sch s) p \<noteq> ZOMBIE"
  using assms unfolding tree_ok_def by blast+

lemma tree_okI:
  assumes "T \<subseteq> M" "0 \<notin> M" "root_proc (sch s) \<in> T" "parent s (root_proc (sch s)) = root_proc (sch s)"
    and "\<And>p. p \<in> M \<Longrightarrow> distinct (children s p)" and "\<And>p c. p \<in> M \<Longrightarrow> c \<in> set (children s p) \<Longrightarrow> c \<in> M \<and> c \<noteq> p \<and> c \<noteq> root_proc (sch s) \<and> parent s c = p"
    and "\<And>c. c \<in> M \<Longrightarrow> c \<noteq> root_proc (sch s) \<Longrightarrow> parent s c \<noteq> 0 \<Longrightarrow>
      parent s c \<in> T \<and> state (sch s) (parent s c) \<noteq> ZOMBIE \<and> c \<in> set (children s (parent s c))"
    and "\<And>c. c \<in> T \<Longrightarrow> parent s c \<noteq> 0" and "\<And>p. p \<in> M \<Longrightarrow> p \<notin> T \<Longrightarrow> children s p = [] \<and> state (sch s) p \<noteq> ZOMBIE"
  shows "tree_ok s M T"
  unfolding tree_ok_def using assms by blast

lemma acct_okD:
  assumes "acct_ok s M W D" and "p \<in> M"
  shows "sem_shape (W p) (childexit s p)" and "state (sch s) p = ZOMBIE \<Longrightarrow> children s p = [] \<and> W p = Out"
    and "state (sch s) p \<noteq> ZOMBIE \<Longrightarrow> zombies s p + D p = val (childexit s p) + held (W p)"
  using assms unfolding acct_ok_def by (meson | presburger)+

lemma cont_okD:
  assumes "cont_ok s M R C"
  shows "root_container (sch s) \<in> C" and "rootproc s (root_container (sch s)) = root_proc (sch s)" and "p \<in> M \<Longrightarrow> cont_of (sch s) p \<in> C"
    and "c \<in> C \<Longrightarrow> rootproc s c \<in> R" and "c \<in> C \<Longrightarrow> cont_of (sch s) (rootproc s c) = c" and "c \<in> C \<Longrightarrow> state (sch s) (rootproc s c) \<noteq> ZOMBIE"
    and "c \<in> C \<Longrightarrow> rootproc s c \<noteq> root_proc (sch s) \<Longrightarrow> parent s (rootproc s c) \<noteq> 0 \<Longrightarrow> cont_of (sch s) (parent s (rootproc s c)) \<noteq> c"
  using assms unfolding cont_ok_def by blast+

lemma cont_okI:
  assumes "root_container (sch s) \<in> C" and "rootproc s (root_container (sch s)) = root_proc (sch s)" and "\<And>p. p \<in> M \<Longrightarrow> cont_of (sch s) p \<in> C"
    and "\<And>c. c \<in> C \<Longrightarrow> rootproc s c \<in> R" and "\<And>c. c \<in> C \<Longrightarrow> cont_of (sch s) (rootproc s c) = c" and "\<And>c. c \<in> C \<Longrightarrow> state (sch s) (rootproc s c) \<noteq> ZOMBIE"
    and "\<And>c. c \<in> C \<Longrightarrow> rootproc s c \<noteq> root_proc (sch s) \<Longrightarrow> parent s (rootproc s c) \<noteq> 0 \<Longrightarrow> cont_of (sch s) (parent s (rootproc s c)) \<noteq> c"
  shows "cont_ok s M R C"
  unfolding cont_ok_def using assms by blast

section \<open>Creating and starting processes\<close>

lemma children_out:
  assumes "tree_ok s M T" and "p \<notin> M" and "q \<in> M"
  shows "p \<notin> set (children s q)"
  using assms unfolding tree_ok_def by blast

lemma create_inv:
  assumes inv: "proc_inv s M T T C W (\<lambda>_. 0)" and p: "p \<notin> M" "p \<noteq> 0" and run: "create_proc p pt s = Some s'"
  shows "proc_inv s' (insert p M) T T C (W(p := Out)) (\<lambda>_. 0) \<and> parent s' p = 0 \<and> pids s' = pids s \<and> rootproc s' = rootproc s \<and>
    state (sch s') p = UNUSED \<and> cont_of (sch s') = (cont_of (sch s))(p := root_container (sch s)) \<and> cpu_proc (sch s') = cpu_proc (sch s) \<and>
    root_proc (sch s') = root_proc (sch s) \<and> (\<forall>q. q \<noteq> p \<longrightarrow> state (sch s') q = state (sch s) q)"
proof -
  obtain x g where tk: "take_pid (global_pids s) = Some (x, g)" using run by (auto simp: create_proc_def init_proc_def split: bind_splits)
  have s': "children s' = (children s)(p := [])" "parent s' = (parent s)(p := 0)" "global_pids s' = g" "pids s' = pids s" "rootproc s' = rootproc s"
      "childexit s' = (childexit s)(p := init_sem 0 (childexit s p))" "localpid s' = (localpid s)(p := 0)"
      "state (sch s') = (state (sch s))(p := UNUSED)" "pid (sch s') = (pid (sch s))(p := x)" "cont_of (sch s') = (cont_of (sch s))(p := root_container (sch s))"
      "root_container (sch s') = root_container (sch s)" "root_proc (sch s') = root_proc (sch s)"
      "cpu_proc (sch s') = cpu_proc (sch s)"
    using run tk by (auto simp: create_proc_def init_proc_def init_schinfo_def Let_def)
  have I: "tree_ok s M T" "acct_ok s M W (\<lambda>_. 0)" "cont_ok s M T C" "pids_ok s M T C" using inv by (simp_all add: proc_inv_def)
  have TM: "T \<subseteq> M" "root_proc (sch s) \<in> T" "p \<noteq> root_proc (sch s)" "p \<notin> T" using I(1) p by (auto simp: tree_ok_def)
  have out: "p \<notin> set (children s q)" if "q \<in> M" for q by (rule children_out [OF I(1) p(1) that])
  have z: "zombies s' q = zombies s q" if "q \<in> M" for q
  proof -
    have "filter (\<lambda>c. state (sch s') c = ZOMBIE) (children s q) = filter (\<lambda>c. state (sch s) c = ZOMBIE) (children s q)"
      using out [OF that] by (intro filter_cong) (auto simp: s')
    then show ?thesis using that p(1) by (auto simp: zombies_def s')
  qed
  have par: "parent s c \<noteq> p" if "c \<in> M" for c using I(1) that p TM unfolding tree_ok_def by (metis subsetD)
  note D = tree_okD [OF I(1)]
  have "tree_ok s' (insert p M) T"
  proof (rule tree_okI)
    fix c assume c: "c \<in> insert p M" "c \<noteq> root_proc (sch s')" "parent s' c \<noteq> 0"
    then have "c \<in> M" "c \<noteq> p" "parent s c \<noteq> 0" by (auto simp: s' split: if_splits)
    then show "parent s' c \<in> T \<and> state (sch s') (parent s' c) \<noteq> ZOMBIE \<and> c \<in> set (children s' (parent s' c))"
      using D(7) [of c] par [of c] c(2) by (simp add: s')
  next
    fix q c assume "q \<in> insert p M" "c \<in> set (children s' q)"
    then have "q \<in> M" "c \<in> set (children s q)" "c \<noteq> p" using out by (auto simp: s' split: if_splits)
    then show "c \<in> insert p M \<and> c \<noteq> q \<and> c \<noteq> root_proc (sch s') \<and> parent s' c = q" using D(6) by (simp add: s')
  next
    fix q assume "q \<in> insert p M" "q \<notin> T"
    then show "children s' q = [] \<and> state (sch s') q \<noteq> ZOMBIE" using D(9) [of q] by (auto simp: s')
  next
    fix c assume "c \<in> T"
    then show "parent s' c \<noteq> 0" using D(8) TM(4) by (auto simp: s')
  qed (use D(1-5) TM p in \<open>auto simp: s'\<close>)
  moreover have "acct_ok s' (insert p M) (W(p := Out)) (\<lambda>_. 0)"
    using I(2) p(1) z unfolding acct_ok_def by (auto simp: s' sem_shape_def init_sem_def held_def zombies_def)
  moreover have "cont_ok s' (insert p M) T C"
  proof -
    have "rootproc s c \<noteq> p" "parent s (rootproc s c) \<noteq> p" if "c \<in> C" for c using I(3) that TM par [of "rootproc s c"] by (auto simp: cont_ok_def)
    then show ?thesis using I(3) unfolding cont_ok_def by (auto simp: s')
  qed
  moreover have "pids_ok s' (insert p M) T C"
  proof -
    have "live s' (insert p M) = insert p (live s M)" using p(1) by (auto simp: live_def s')
    moreover have "pool_ok g (insert p (live s M)) ((pid (sch s))(p := x)) 1"
      by (rule pool_take [OF _ tk, where f = "pid (sch s)"]) (use I(4) p(1) in \<open>auto simp: pids_ok_def live_def\<close>)
    moreover have "pool_ok (pids s c) (members s' T c) ((localpid s)(p := 0)) 0" if "c \<in> C" for c
    proof -
      have "members s' T c = members s T c" using TM(4) by (auto simp: members_def s')
      moreover have "p \<notin> members s T c" using TM(4) by (simp add: members_def)
      ultimately show ?thesis using I(4) that by (simp add: pids_ok_def)
    qed
    ultimately show ?thesis by (simp add: pids_ok_def s')
  qed
  ultimately show ?thesis by (simp add: proc_inv_def s')
qed

text \<open>Making an unstarted process \<open>p\<close> a child of the started process \<open>q\<close>.\<close>

lemma adopt_inv:
  assumes inv: "proc_inv s M T R C W (\<lambda>_. 0)" and q: "q \<in> T" "state (sch s) q \<noteq> ZOMBIE" and p: "p \<in> M - T" "parent s p = 0"
    and c: "\<And>c. c \<in> C \<Longrightarrow> rootproc s c = p \<Longrightarrow> cont_of (sch s) q \<noteq> c"
    and s': "s' = s\<lparr>parent := (parent s)(p := q), children := (children s)(q := p # children s q)\<rparr>"
  shows "proc_inv s' M T R C W (\<lambda>_. 0)"
proof -
  have I: "tree_ok s M T" "acct_ok s M W (\<lambda>_. 0)" "cont_ok s M R C" "pids_ok s M T C" using inv by (simp_all add: proc_inv_def)
  have TM: "T \<subseteq> M" "root_proc (sch s) \<in> T" "0 \<notin> M" using I(1) by (auto simp: tree_ok_def)
  have pz: "state (sch s) p \<noteq> ZOMBIE" "p \<noteq> root_proc (sch s)" "q \<noteq> p" "q \<in> M" "q \<noteq> 0" using I(1) p q TM by (auto simp: tree_ok_def)
  have out: "p \<notin> set (children s r)" if "r \<in> M" for r
  proof
    assume "p \<in> set (children s r)"
    then have "parent s p = r" using I(1) that by (simp add: tree_ok_def)
    then show False using p(2) that TM(3) by simp
  qed
  have "tree_ok s' M T" using I(1) p q pz out unfolding tree_ok_def by (auto simp: s')
  moreover have "zombies s' r = zombies s r" for r using pz(1) by (simp add: zombies_def s')
  then have "acct_ok s' M W (\<lambda>_. 0)" using I(2) q(2) unfolding acct_ok_def by (auto simp: s')
  moreover have "pids_ok s' M T C" using I(4) by (simp add: s' pids_ok_def live_def members_def)
  moreover have "cont_ok s' M R C" using I(3) c unfolding cont_ok_def by (auto simp: s')
  ultimately show ?thesis by (simp add: proc_inv_def)
qed

lemma start_inv:
  assumes inv: "proc_inv s M T R C W (\<lambda>_. 0)" and p: "p \<in> M - T" and run: "start_proc p e a s = Some (x, s')"
  shows "proc_inv s' M (insert p T) R C W (\<lambda>_. 0)"
proof -
  have I: "tree_ok s M T" "cont_ok s M R C" using inv by (simp_all add: proc_inv_def)
  let ?r = "root_proc (sch s)"
  define s1 where "s1 = (if parent s p = 0 then s\<lparr>parent := (parent s)(p := ?r), children := (children s)(?r := p # children s ?r)\<rparr> else s)"
  note K = cont_okD [OF I(2)]
  have root: "?r \<in> T" "state (sch s) ?r \<noteq> ZOMBIE" "?r \<noteq> 0" using tree_okD(1-3) [OF I(1)] K(6) [OF K(1)] K(2) by auto
  have "cont_of (sch s) ?r = root_container (sch s)" "rootproc s (root_container (sch s)) = ?r" "p \<noteq> ?r" using K(5) [OF K(1)] K(2) p root(1) by auto
  then have c: "cont_of (sch s) ?r \<noteq> c" if "c \<in> C" "rootproc s c = p" for c using that by auto
  have inv1: "proc_inv s1 M T R C W (\<lambda>_. 0)"
  proof (cases "parent s p = 0")
    case True
    then show ?thesis using adopt_inv [OF inv root(1,2) p True c] by (simp add: s1_def)
  qed (use inv in \<open>simp add: s1_def\<close>)
  have par: "parent s1 p \<noteq> 0" using root(3) by (simp add: s1_def)
  have sch1: "sch s1 = sch s" by (simp add: s1_def)
  define s2 where "s2 = s1\<lparr>kcontext := (kcontext s1)(p := (proc_entry s1, e, a))\<rparr>"
  let ?c = "cont_of (sch s) p"
  obtain pl b sc where tk: "take_pid (pids s1 ?c) = Some (x, pl)" and act: "activate_proc p False (sch s) = Some (b, sc)"
      and s': "s' = s2\<lparr>pids := (pids s1)(?c := pl), localpid := (localpid s1)(p := x), sch := sc\<rparr>"
    using run unfolding start_proc_def Let_def s1_def [symmetric] s2_def [symmetric] by (auto simp: s2_def sch1 split: bind_splits)
  define s3 where "s3 = s2\<lparr>pids := (pids s1)(?c := pl), localpid := (localpid s1)(p := x)\<rparr>"
  have J: "tree_ok s1 M T" "acct_ok s1 M W (\<lambda>_. 0)" "cont_ok s1 M R C" "pids_ok s1 M T C" using inv1 by (simp_all add: proc_inv_def)
  have c: "?c \<in> C" using J(3) p by (simp add: cont_ok_def sch1)
  have s3: "children s3 = children s1" "parent s3 = parent s1" "sch s3 = sch s" "childexit s3 = childexit s1" "global_pids s3 = global_pids s1"
      "rootproc s3 = rootproc s1" "pids s3 = (pids s1)(?c := pl)" "localpid s3 = (localpid s1)(p := x)"
    by (simp_all add: s3_def s2_def sch1)
  have "tree_ok s3 M (insert p T)" using J(1) p par unfolding tree_ok_def by (auto simp: s3 sch1)
  moreover have "zombies s3 q = zombies s1 q" for q by (simp add: zombies_def s3 sch1)
  then have "acct_ok s3 M W (\<lambda>_. 0)" using J(2) by (auto simp: acct_ok_def s3 sch1)
  moreover have "cont_ok s3 M R C" using J(3) by (auto simp: cont_ok_def s3 sch1)
  moreover have "pids_ok s3 M (insert p T) C"
  proof -
    have "pool_ok (pids s3 d) (members s3 (insert p T) d) (localpid s3) 0" if "d \<in> C" for d
    proof (cases "d = ?c")
      case True
      have "members s3 (insert p T) ?c = insert p (members s1 T ?c)" by (auto simp: members_def s3 sch1)
      moreover have "pool_ok pl (insert p (members s1 T ?c)) ((localpid s1)(p := x)) 0"
        by (rule pool_take [OF _ tk, where f = "localpid s1"]) (use J(4) c p in \<open>auto simp: pids_ok_def members_def\<close>)
      ultimately show ?thesis using True by (simp add: s3)
    next
      case False
      have "members s3 (insert p T) d = members s1 T d" using False by (auto simp: members_def s3 sch1)
      moreover have "p \<notin> members s1 T d" using p by (simp add: members_def)
      ultimately show ?thesis using J(4) that False by (simp add: pids_ok_def s3)
    qed
    moreover have "live s3 M = live s1 M" by (simp add: live_def s3 sch1)
    ultimately show ?thesis using J(4) by (simp add: pids_ok_def s3 sch1)
  qed
  ultimately have "proc_inv s3 M (insert p T) R C W (\<lambda>_. 0)" by (simp add: proc_inv_def)
  moreover have "s' = s3\<lparr>sch := sc\<rparr>" by (simp add: s' s3_def)
  moreover have "kept (sch s3) sc" "\<And>q. state sc q = ZOMBIE \<longleftrightarrow> state (sch s3) q = ZOMBIE"
    using activate_effect [OF act] by (simp_all add: s3)
  ultimately show ?thesis by (simp add: sch_frame(5))
qed

end
