(* ===== verification/Proc_Steps.thy ===== *)
theory Proc_Steps
  imports Proc_Run
begin

text \<open>
  The other operations keep the invariant, and what it says of every run: \<^verbatim>\<open>wait\<close> never panics
  and identifiers are unique.
\<close>

section \<open>Containers\<close>

lemma set_container_inv:
  assumes inv: "proc_inv s M T T C W (\<lambda>_. 0)" and me: "this_proc cpu s \<in> T" and p: "p \<in> M - T"
  shows "proc_inv (set_container_to_this cpu p s) M T T C W (\<lambda>_. 0)"
proof -
  let ?s = "set_container_to_this cpu p s" and ?q = "this_proc cpu s"
  have I: "tree_ok s M T" "acct_ok s M W (\<lambda>_. 0)" "cont_ok s M T C" "pids_ok s M T C" using inv by (simp_all add: proc_inv_def)
  note D = tree_okD [OF I(1)] and K = cont_okD [OF I(3)]
  have s': "cont_of (sch ?s) = (cont_of (sch s))(p := cont_of (sch s) ?q)" "state (sch ?s) = state (sch s)" "pid (sch ?s) = pid (sch s)"
      "root_container (sch ?s) = root_container (sch s)" "root_proc (sch ?s) = root_proc (sch s)" "children ?s = children s" "parent ?s = parent s"
      "childexit ?s = childexit s" "rootproc ?s = rootproc s" "pids ?s = pids s" "global_pids ?s = global_pids s" "localpid ?s = localpid s"
    by (simp_all add: set_container_to_this_def)
  have z: "zombies ?s = zombies s" by (simp add: fun_eq_iff zombies_def s')
  have "tree_ok ?s M T" using I(1) unfolding tree_ok_def s' .
  moreover have "acct_ok ?s M W (\<lambda>_. 0)" using I(2) unfolding acct_ok_def z s' .
  moreover have "cont_ok ?s M T C"
  proof (rule cont_okI)
    fix c assume c: "c \<in> C" "rootproc ?s c \<noteq> root_proc (sch ?s)" "parent ?s (rootproc ?s c) \<noteq> 0"
    have "parent s (rootproc s c) \<in> T" using D(1) D(7) [of "rootproc s c"] K(4) [OF c(1)] c by (auto simp: s')
    then show "cont_of (sch ?s) (parent ?s (rootproc ?s c)) \<noteq> c" using K(7) [OF c(1)] c p by (auto simp: s')
  next
    fix c assume c: "c \<in> C"
    then show "cont_of (sch ?s) (rootproc ?s c) = c" using K(4) [OF c] K(5) [OF c] p by (auto simp: s')
  qed (use K(1-4,6) D(1) me in \<open>auto simp: s'\<close>)
  moreover have "pids_ok ?s M T C"
  proof -
    have "members ?s T c = members s T c" for c using p by (auto simp: members_def s')
    then show ?thesis using I(4) by (simp add: pids_ok_def live_def s')
  qed
  ultimately show ?thesis by (simp add: proc_inv_def)
qed

lemma init_container_inv:
  assumes inv: "proc_inv s M T T C W (\<lambda>_. 0)" and c: "c \<notin> C"
    and sc: "sc = (sch (init_container c s))\<lparr>cid := i, cparent := j\<rparr>" and s': "s' = (init_container c s)\<lparr>sch := sc\<rparr>"
  shows "proc_inv s' M T T C W (\<lambda>_. 0) \<and> pids s' c = init_pids 0 \<and> cpu_proc (sch s') = cpu_proc (sch s) \<and> state (sch s') = state (sch s) \<and>
    cont_of (sch s') = cont_of (sch s) \<and> (\<forall>d. d \<noteq> c \<longrightarrow> rootproc s' d = rootproc s d)"
proof -
  have I: "tree_ok s M T" "acct_ok s M W (\<lambda>_. 0)" "cont_ok s M T C" "pids_ok s M T C" using inv by (simp_all add: proc_inv_def)
  have e: "children s' = children s" "parent s' = parent s" "childexit s' = childexit s" "rootproc s' = (rootproc s)(c := 0)" "pids s' = (pids s)(c := init_pids 0)"
      "global_pids s' = global_pids s" "localpid s' = localpid s" "state (sch s') = state (sch s)" "pid (sch s') = pid (sch s)" "cont_of (sch s') = cont_of (sch s)"
      "root_container (sch s') = root_container (sch s)" "root_proc (sch s') = root_proc (sch s)" "cpu_proc (sch s') = cpu_proc (sch s)"
    unfolding s' sc by (simp_all add: init_container_def init_schinfo_def init_schqueue_def Let_def)
  have z: "zombies s' = zombies s" by (simp add: fun_eq_iff zombies_def e)
  have "tree_ok s' M T" using I(1) unfolding tree_ok_def e .
  moreover have "acct_ok s' M W (\<lambda>_. 0)" using I(2) unfolding acct_ok_def z e .
  moreover have "rootproc s' d = rootproc s d" "pids s' d = pids s d" if "d \<in> C" for d using that c by (auto simp: e)
  then have "cont_ok s' M T C" "pids_ok s' M T C"
    using I(3,4) unfolding cont_ok_def pids_ok_def live_def members_def e(6-12) e(2) by auto
  ultimately show ?thesis by (simp add: proc_inv_def e)
qed

lemma create_container_inv:
  assumes inv: "proc_inv s M T T C W (\<lambda>_. 0)" and me: "this_proc cpu s \<in> T" "state (sch s) (this_proc cpu s) \<noteq> ZOMBIE"
    and c: "c \<notin> C" and p: "p \<notin> M" "p \<noteq> 0" and run: "create_container cpu c p pt e a s = Some s'"
  shows "proc_inv s' (insert p M) (insert p T) (insert p T) (insert c C) (W(p := Out)) (\<lambda>_. 0)"
proof -
  define s1 where "s1 = (let s = init_container c s; sc = sch s
     in s\<lparr>sch := sc\<lparr>cid := (cid sc)(c := sint (ucast a :: 32 word)), cparent := (cparent sc)(c := cont_of sc (cpu_proc sc cpu))\<rparr>\<rparr>)"
  note i1 = init_container_inv [OF inv c refl s1_def [unfolded Let_def]]
  obtain s2 where s2: "create_proc p pt s1 = Some s2" using run unfolding create_container_def Let_def s1_def by (auto split: bind_splits)
  note i2 = create_inv [OF conjunct1 [OF i1] p s2]
  define s3 where "s3 = s2\<lparr>sch := (sch s2)\<lparr>cont_of := (cont_of (sch s2))(p := c)\<rparr>, rootproc := (rootproc s2)(c := p)\<rparr>"
  obtain x s4 sc where s4: "start_proc p e a (set_parent_to_this cpu p s3) = Some (x, s4)" "activate_group c (sch s4) = Some sc" "s' = s4\<lparr>sch := sc\<rparr>"
    using run s2 unfolding create_container_def Let_def s1_def [unfolded Let_def, symmetric] by (auto simp: s3_def split: bind_splits)
  let ?M = "insert p M" and ?W = "W(p := Out)"
  have TM: "T \<subseteq> M" "p \<notin> T" "this_proc cpu s \<noteq> p" using inv p me by (auto simp: proc_inv_def tree_ok_def)
  have J: "tree_ok s2 ?M T" "acct_ok s2 ?M ?W (\<lambda>_. 0)" "cont_ok s2 ?M T C" "pids_ok s2 ?M T C" using i2 by (simp_all add: proc_inv_def)
  have e: "children s3 = children s2" "parent s3 = parent s2" "childexit s3 = childexit s2" "rootproc s3 = (rootproc s2)(c := p)" "pids s3 = pids s2"
      "global_pids s3 = global_pids s2" "localpid s3 = localpid s2" "state (sch s3) = state (sch s2)" "pid (sch s3) = pid (sch s2)"
      "cont_of (sch s3) = (cont_of (sch s2))(p := c)" "root_container (sch s3) = root_container (sch s2)" "root_proc (sch s3) = root_proc (sch s2)"
      "cpu_proc (sch s3) = cpu_proc (sch s2)" by (simp_all add: s3_def)
  have z: "zombies s3 = zombies s2" by (simp add: fun_eq_iff zombies_def e)
  have t3: "tree_ok s3 ?M T" using J(1) unfolding tree_ok_def e .
  have a3: "acct_ok s3 ?M ?W (\<lambda>_. 0)" using J(2) unfolding acct_ok_def z e .
  note D = tree_okD [OF J(1)] and K = cont_okD [OF J(3)]
  have c3: "cont_ok s3 ?M (insert p T) (insert c C)"
  proof (rule cont_okI)
    fix d assume d: "d \<in> insert c C" "rootproc s3 d \<noteq> root_proc (sch s3)" "parent s3 (rootproc s3 d) \<noteq> 0"
    show "cont_of (sch s3) (parent s3 (rootproc s3 d)) \<noteq> d"
    proof (cases "d = c")
      case True
      then show ?thesis using d i2 by (simp add: e)
    next
      case False
      have "parent s2 (rootproc s2 d) \<in> T" using D(1) D(7) [of "rootproc s2 d"] K(4) [of d] d False by (auto simp: e)
      then show ?thesis using K(7) [of d] d False TM(2) by (auto simp: e)
    qed
  next
    fix d assume d: "d \<in> insert c C"
    show "cont_of (sch s3) (rootproc s3 d) = d" using d c K(4) [of d] K(5) [of d] TM(2) by (auto simp: e)
    show "state (sch s3) (rootproc s3 d) \<noteq> ZOMBIE" using d K(6) [of d] i2 by (auto simp: e)
    show "rootproc s3 d \<in> insert p T" using d K(4) [of d] by (auto simp: e)
  next
    show "root_container (sch s3) \<in> insert c C" "rootproc s3 (root_container (sch s3)) = root_proc (sch s3)" using K(1,2) c by (auto simp: e)
  next
    fix q assume "q \<in> ?M"
    then show "cont_of (sch s3) q \<in> insert c C" using K(3) [of q] by (auto simp: e)
  qed
  have p3: "pids_ok s3 ?M T (insert c C)"
  proof -
    have m: "members s3 T d = members s2 T d" for d using TM(2) by (auto simp: members_def e)
    have "members s2 T c = {}" using K(3) D(1) c by (auto simp: members_def)
    then have "pool_ok (pids s2 c) (members s2 T c) (localpid s2) 0" using i1 i2 pool_init [of 0] by simp
    then show ?thesis using J(4) by (auto simp: pids_ok_def live_def m e)
  qed
  have i3: "proc_inv s3 ?M T (insert p T) (insert c C) ?W (\<lambda>_. 0)" using t3 a3 c3 p3 by (simp add: proc_inv_def)
  let ?q = "this_proc cpu s"
  have q: "this_proc cpu s3 = ?q" "state (sch s3) ?q \<noteq> ZOMBIE" using i1 i2 me TM(3) by (simp_all add: e)
  have qc: "cont_of (sch s3) ?q \<noteq> d" if "d \<in> insert c C" "rootproc s3 d = p" for d
  proof -
    have "d = c" using that K(4) [of d] TM(2) by (auto simp: e split: if_splits)
    moreover have "cont_of (sch s2) ?q \<in> C" using K(3) TM(1) me(1) by auto
    ultimately show ?thesis using c TM(3) by (auto simp: e)
  qed
  have pz: "p \<in> ?M - T" "parent s3 p = 0" using TM(2) i2 by (auto simp: e)
  have "proc_inv (set_parent_to_this cpu p s3) ?M T (insert p T) (insert c C) ?W (\<lambda>_. 0)"
    by (rule adopt_inv [OF i3 me(1) q(2) pz qc]) (simp_all add: set_parent_to_this_def Let_def q(1))
  note i4 = start_inv [OF this pz(1) s4(1)]
  have "quiet (sch s4) sc" using s4(2) by (auto simp: activate_group_def split: bind_splits dest!: rq_insert_quiet)
  then show ?thesis using i4 by (simp add: s4(3) sch_frame(5) quiet_def)
qed

section \<open>Exit\<close>

definition same_procs :: "proc_sys \<Rightarrow> proc_sys \<Rightarrow> bool" where
  "same_procs s s' \<longleftrightarrow> children s' = children s \<and> parent s' = parent s \<and> rootproc s' = rootproc s \<and> pids s' = pids s \<and> global_pids s' = global_pids s \<and>
     localpid s' = localpid s \<and> exitcode s' = exitcode s \<and> kept (sch s) (sch s') \<and> cpu_proc (sch s') = cpu_proc (sch s) \<and>
     (\<forall>q. state (sch s') q = ZOMBIE \<longleftrightarrow> state (sch s) q = ZOMBIE)"

lemma same_procs_trans: "same_procs s t \<Longrightarrow> same_procs t u \<Longrightarrow> same_procs s u"
  by (simp add: same_procs_def kept_def)

lemma same_procs_zombies: "same_procs s s' \<Longrightarrow> zombies s' = zombies s"
  by (simp add: fun_eq_iff zombies_def same_procs_def)

lemma post_step:
  assumes inv: "proc_inv s M T R C W D" and r: "r \<in> M" and post: "post_childexit r s = Some s'"
  shows "proc_inv s' M T R C W (D(r := D r + 1)) \<and> same_procs s s'"
proof -
  obtain w sm where w: "post_sem (childexit s r) = Some (w, sm)" using post by (auto simp: post_childexit_def split: bind_splits)
  let ?s = "s\<lparr>childexit := (childexit s)(r := sm)\<rparr>"
  obtain sc where sc: "s' = ?s\<lparr>sch := sc\<rparr>" "kept (sch s) sc" "\<And>q. state sc q = ZOMBIE \<longleftrightarrow> state (sch s) q = ZOMBIE" "cpu_proc sc = cpu_proc (sch s)"
  proof (cases w)
    case None
    then show thesis using post w by (intro that [of "sch s"]) (auto simp: post_childexit_def kept_def)
  next
    case (Some q)
    then obtain b sc where a: "activate_proc (of_nat q) False (sch s) = Some (b, sc)" "s' = ?s\<lparr>sch := sc\<rparr>"
      using post w by (auto simp: post_childexit_def split: bind_splits)
    then show thesis using activate_effect [OF a(1)] by (intro that [of sc]) auto
  qed
  have sh: "sem_shape (W r) sm" "val sm = val (childexit s r) + 1"
    using inv r w post_shape [of "W r" "childexit s r"] by (auto simp: proc_inv_def acct_ok_def)
  have z: "zombies ?s = zombies s" by (simp add: fun_eq_iff zombies_def)
  have "acct_ok ?s M W (D(r := D r + 1))" using inv sh unfolding proc_inv_def acct_ok_def z by auto
  moreover have "tree_ok ?s M T" "cont_ok ?s M R C" "pids_ok ?s M T C"
    using inv by (simp_all add: proc_inv_def tree_ok_def cont_ok_def pids_ok_def live_def members_def)
  ultimately have "proc_inv ?s M T R C W (D(r := D r + 1))" by (simp add: proc_inv_def)
  moreover have "proc_inv s' M T R C W E = proc_inv ?s M T R C W E" for E unfolding sc(1) by (rule sch_frame(5)) (simp_all add: sc)
  ultimately show ?thesis by (simp add: same_procs_def sc)
qed

lemma posts_step:
  assumes "proc_inv s M T R C W D" and "r \<in> M"
    and "for_each (\<lambda>c s. if is_zombie c (sch s) then post_childexit r s else Some s) cs s = Some s'"
  shows "proc_inv s' M T R C W (D(r := D r + int (length (filter (\<lambda>c. state (sch s) c = ZOMBIE) cs)))) \<and> same_procs s s'"
  using assms
proof (induction cs arbitrary: s D)
  case Nil
  then show ?case by (simp add: same_procs_def kept_def)
next
  case (Cons c cs)
  show ?case
  proof (cases "state (sch s) c = ZOMBIE")
    case True
    then obtain s1 where s1: "post_childexit r s = Some s1" "for_each (\<lambda>c s. if is_zombie c (sch s) then post_childexit r s else Some s) cs s1 = Some s'"
      using Cons.prems(3) by (auto simp: is_zombie_def split: bind_splits)
    note p = post_step [OF Cons.prems(1,2) s1(1)]
    have "\<And>q. state (sch s1) q = ZOMBIE \<longleftrightarrow> state (sch s) q = ZOMBIE" using p by (simp add: same_procs_def)
    then have "proc_inv s' M T R C W (D(r := D r + 1 + int (length (filter (\<lambda>c. state (sch s) c = ZOMBIE) cs)))) \<and> same_procs s1 s'"
      using Cons.IH [OF conjunct1 [OF p] Cons.prems(2) s1(2)] by (simp add: fun_upd_def cong: if_cong)
    then show ?thesis using same_procs_trans [OF conjunct2 [OF p]] True by (simp add: add.assoc fun_upd_def)
  next
    case False
    then show ?thesis using Cons.IH [OF Cons.prems(1,2)] Cons.prems(3) by (auto simp: is_zombie_def)
  qed
qed

text \<open>The children of \<open>q\<close> become children of \<open>r\<close>, and with them their zombies.\<close>

lemma move_inv:
  assumes inv: "proc_inv s M T T C W D" and q: "q \<in> T" "state (sch s) q \<noteq> ZOMBIE" and r: "r = rootproc s (cont_of (sch s) q)" "r \<noteq> q"
  shows "proc_inv (move_children q r s) M T T C W (D(r := D r - zombies s q, q := D q + zombies s q))" (is "proc_inv ?s _ _ _ _ _ ?D")
proof (cases "children s q = []")
  case True
  then show ?thesis using inv by (simp add: move_children_def zombies_def)
next
  case False
  let ?cs = "children s q" and ?ds = "tl (children s q) @ [hd (children s q)]"
  have I: "tree_ok s M T" "acct_ok s M W D" "cont_ok s M T C" "pids_ok s M T C" using inv by (simp_all add: proc_inv_def)
  note tD = tree_okD [OF I(1)] and K = cont_okD [OF I(3)]
  have qM: "q \<in> M" "cont_of (sch s) q \<in> C" using q tD(1) K(3) by auto
  have rT: "r \<in> T" "state (sch s) r \<noteq> ZOMBIE" "cont_of (sch s) r = cont_of (sch s) q" "r \<noteq> 0" "r \<in> M"
    using K(4-6) [OF qM(2)] tD(1,2) by (auto simp: r)
  have rc: "r \<notin> set ?cs"
  proof
    assume "r \<in> set ?cs"
    then have "parent s r = q" "r \<noteq> root_proc (sch s)" "q \<noteq> 0" using tD(6) [OF qM(1)] tD(2) qM(1) by auto
    then show False using K(7) [OF qM(2)] by (simp add: r)
  qed
  have s': "parent ?s = (\<lambda>c. if c \<in> set ?cs then r else parent s c)" "children ?s = (children s)(q := [], r := children s r @ ?ds)" "sch ?s = sch s"
      "childexit ?s = childexit s" "rootproc ?s = rootproc s" "pids ?s = pids s" "global_pids ?s = global_pids s" "localpid ?s = localpid s"
    using False r(2) by (simp_all add: move_children_def Let_def)
  have ds: "mset ?ds = mset ?cs" using False by (cases ?cs) simp_all
  then have ds': "set ?ds = set ?cs" "distinct ?ds = distinct ?cs" by (metis set_mset_mset, metis mset_eq_imp_distinct_iff)
  have dj: "set ?cs \<inter> set (children s p) = {}" if "p \<in> M" "p \<noteq> q" for p using tD(6) [OF that(1)] tD(6) [OF qM(1)] that(2) by fastforce
  have "tree_ok ?s M T"
  proof (rule tree_okI)
    fix p assume p: "p \<in> M"
    show "distinct (children ?s p)" using tD(5) [OF p] tD(5) [OF qM(1)] dj [OF rT(5) r(2)] ds' by (auto simp: s')
    fix c assume c: "c \<in> set (children ?s p)"
    have pq: "p \<noteq> q" using c r(2) by (auto simp: s')
    consider "c \<in> set (children s p)" "c \<notin> set ?cs" | "p = r" "c \<in> set ?cs" using c dj [OF p pq] pq ds'(1) by (auto simp: s' split: if_splits)
    then show "c \<in> M \<and> c \<noteq> p \<and> c \<noteq> root_proc (sch ?s) \<and> parent ?s c = p"
      by cases (use tD(6) [OF p, of c] tD(6) [OF qM(1), of c] rc in \<open>auto simp: s'\<close>)
  next
    fix c assume c: "c \<in> M" "c \<noteq> root_proc (sch ?s)" "parent ?s c \<noteq> 0"
    show "parent ?s c \<in> T \<and> state (sch ?s) (parent ?s c) \<noteq> ZOMBIE \<and> c \<in> set (children ?s (parent ?s c))"
    proof (cases "c \<in> set ?cs")
      case True
      then show ?thesis using rT(1,2) ds'(1) by (auto simp: s')
    next
      case False
      then have "parent s c \<noteq> q" using tD(7) [of c] c by (auto simp: s')
      then show ?thesis using False tD(7) [of c] c by (auto simp: s')
    qed
  next
    fix p assume "p \<in> M" "p \<notin> T"
    then show "children ?s p = [] \<and> state (sch ?s) p \<noteq> ZOMBIE" using tD(9) rT(1) by (auto simp: s')
  qed (use tD(1-4,8) tD(6) [OF qM(1)] rT(4) in \<open>auto simp: s'\<close>)
  moreover have "acct_ok ?s M W ?D"
  proof -
    obtain c cs where cs: "?cs = c # cs" using False by (cases ?cs) auto
    have "zombies ?s r = zombies s r + zombies s q" "zombies ?s q = 0" "\<And>p. p \<noteq> q \<Longrightarrow> p \<noteq> r \<Longrightarrow> zombies ?s p = zombies s p"
      using r(2) by (simp_all add: zombies_def s' cs)
    then show ?thesis using I(2) rT(2) q(2) unfolding acct_ok_def by (auto simp: s')
  qed
  moreover have "cont_ok ?s M T C"
  proof (rule cont_okI)
    fix c assume c: "c \<in> C" "rootproc ?s c \<noteq> root_proc (sch ?s)" "parent ?s (rootproc ?s c) \<noteq> 0"
    show "cont_of (sch ?s) (parent ?s (rootproc ?s c)) \<noteq> c"
    proof (cases "rootproc s c \<in> set ?cs")
      case True
      then have "parent s (rootproc s c) = q" "q \<noteq> 0" using tD(6) [OF qM(1)] tD(2) qM(1) by auto
      then show ?thesis using K(7) [OF c(1)] c True rT(3) by (simp add: s')
    qed (use K(7) [OF c(1)] c in \<open>simp add: s'\<close>)
  qed (use K in \<open>auto simp: s'\<close>)
  moreover have "pids_ok ?s M T C" using I(4) by (simp add: pids_ok_def live_def members_def s')
  ultimately show ?thesis by (simp add: proc_inv_def)
qed

lemma other_fields_inv [simp]:
  "proc_inv (s\<lparr>exitcode := x\<rparr>) M T R C W D = proc_inv s M T R C W D" "proc_inv (s\<lparr>freed_pgdirs := y\<rparr>) M T R C W D = proc_inv s M T R C W D"
proof -
  have "zombies (s\<lparr>exitcode := x\<rparr>) = zombies s" "zombies (s\<lparr>freed_pgdirs := y\<rparr>) = zombies s" by (simp_all add: fun_eq_iff zombies_def)
  then show "proc_inv (s\<lparr>exitcode := x\<rparr>) M T R C W D = proc_inv s M T R C W D" "proc_inv (s\<lparr>freed_pgdirs := y\<rparr>) M T R C W D = proc_inv s M T R C W D"
    by (simp_all add: proc_inv_def tree_ok_def acct_ok_def cont_ok_def pids_ok_def live_def members_def)
qed

lemma bury_inv:
  assumes inv: "proc_inv s M T T C W D" and q: "q \<in> T" "state (sch s) q \<noteq> ZOMBIE" "W q = Out" "children s q = []" "q \<noteq> root_proc (sch s)"
    and root: "\<And>c. c \<in> C \<Longrightarrow> rootproc s c \<noteq> q" and D: "D (parent s q) = 1" "\<And>p. p \<noteq> parent s q \<Longrightarrow> p \<noteq> q \<Longrightarrow> D p = 0"
    and g: "pool_ok g (live s M - {q}) (pid (sch s)) 1" and sc: "kept (sch s) sc" "\<And>p. state sc p = ZOMBIE \<longleftrightarrow> state (sch s) p = ZOMBIE \<or> p = q"
  shows "proc_inv (s\<lparr>global_pids := g, sch := sc\<rparr>) M T T C W (\<lambda>_. 0)" (is "proc_inv ?s _ _ _ _ _ _")
proof -
  have I: "tree_ok s M T" "acct_ok s M W D" "cont_ok s M T C" "pids_ok s M T C" using inv by (simp_all add: proc_inv_def)
  note tD = tree_okD [OF I(1)]
  have k: "pid sc = pid (sch s)" "cont_of sc = cont_of (sch s)" "root_container sc = root_container (sch s)" "root_proc sc = root_proc (sch s)"
    using sc(1) by (simp_all add: kept_def)
  have qM: "q \<in> M" "parent s q \<in> M" "q \<in> set (children s (parent s q))" "state (sch s) (parent s q) \<noteq> ZOMBIE"
    using q(1,5) tD(1) tD(7) [of q] tD(8) [of q] by auto
  have pq: "parent s q \<noteq> q" using qM(3) q(4) by auto
  have out: "q \<notin> set (children s p)" if "p \<in> M" "p \<noteq> parent s q" for p using tD(6) [OF that(1), of q] that(2) by auto
  have npar: "parent s c \<noteq> q" if "c \<in> M" "c \<noteq> root_proc (sch s)" "parent s c \<noteq> 0" for c using tD(7) [OF that] q(4) by auto
  have "tree_ok ?s M T"
  proof (rule tree_okI)
    fix c assume c: "c \<in> M" "c \<noteq> root_proc (sch ?s)" "parent ?s c \<noteq> 0"
    then show "parent ?s c \<in> T \<and> state (sch ?s) (parent ?s c) \<noteq> ZOMBIE \<and> c \<in> set (children ?s (parent ?s c))"
      using tD(7) [of c] npar [of c] by (simp add: k sc(2))
  next
    fix p c assume "p \<in> M" "c \<in> set (children ?s p)"
    then show "c \<in> M \<and> c \<noteq> p \<and> c \<noteq> root_proc (sch ?s) \<and> parent ?s c = p" using tD(6) [of p c] by (simp add: k)
  next
    fix p assume "p \<in> M" "p \<notin> T"
    then show "children ?s p = [] \<and> state (sch ?s) p \<noteq> ZOMBIE" using tD(9) [of p] q(1) by (auto simp: sc(2))
  qed (use tD(1-5,8) in \<open>simp_all add: k\<close>)
  moreover have "acct_ok ?s M W (\<lambda>_. 0)"
  proof -
    have z: "zombies ?s p = zombies s p" if "p \<in> M" "p \<noteq> parent s q" for p
    proof -
      have "filter (\<lambda>c. state sc c = ZOMBIE) (children s p) = filter (\<lambda>c. state (sch s) c = ZOMBIE) (children s p)"
        using out [OF that] by (intro filter_cong) (auto simp: sc(2))
      then show ?thesis by (simp add: zombies_def)
    qed
    have "zombies ?s (parent s q) = zombies s (parent s q) + 1"
    proof -
      obtain xs ys where xy: "children s (parent s q) = xs @ q # ys" using qM(3) by (metis split_list)
      then have d: "q \<notin> set xs" "q \<notin> set ys" using tD(5) [OF qM(2)] by auto
      have "filter (\<lambda>c. state sc c = ZOMBIE) zs = filter (\<lambda>c. state (sch s) c = ZOMBIE) zs" if "q \<notin> set zs" for zs
        using that by (intro filter_cong) (auto simp: sc(2))
      then show ?thesis using d q(2) sc(2) by (simp add: zombies_def xy)
    qed
    note zp = this
    have a: "sem_shape (W p) (childexit s p) \<and> (if state (sch s) p = ZOMBIE then children s p = [] \<and> W p = Out
        else zombies s p + D p = val (childexit s p) + held (W p))" if "p \<in> M" for p using I(2) that unfolding acct_ok_def by blast
    have "sem_shape (W p) (childexit s p) \<and> (if state sc p = ZOMBIE then children s p = [] \<and> W p = Out
        else zombies ?s p = val (childexit s p) + held (W p))" if "p \<in> M" for p
      using a [OF that] z [OF that] zp that pq q(2-4) D(1) D(2) [of p] sc(2) [of p] by (cases "p = parent s q"; cases "p = q") auto
    then show ?thesis by (simp add: acct_ok_def)
  qed
  moreover have "cont_ok ?s M T C" using I(3) root unfolding cont_ok_def by (auto simp: k sc(2))
  moreover have "pids_ok ?s M T C"
  proof -
    have "live ?s M = live s M - {q}" by (auto simp: live_def sc(2))
    then show ?thesis using I(4) g by (simp add: pids_ok_def members_def k)
  qed
  ultimately show ?thesis by (simp add: proc_inv_def)
qed

lemma exit_inv:
  assumes inv: "proc_inv s M T T C W (\<lambda>_. 0)" and me: "this_proc cpu s \<in> T" "W (this_proc cpu s) = Out" and zz: "state (sch s) (this_proc cpu s) \<noteq> ZOMBIE" and run: "exit cpu code s = Some s'"
  shows "proc_inv s' M T T C W (\<lambda>_. 0)"
proof -
  let ?q = "this_proc cpu s" and ?r = "rootproc s (cont_of (sch s) (this_proc cpu s))"
  let ?s0 = "s\<lparr>exitcode := (exitcode s)(?q := code)\<rparr>"
  have rq: "?r \<noteq> ?q" using run by (auto simp: exit_def Let_def split: if_splits)
  obtain s1 s3 g sc where s1: "for_each (\<lambda>c s. if is_zombie c (sch s) then post_childexit ?r s else Some s) (children s ?q) ?s0 = Some s1"
    and s3: "post_childexit (parent (move_children ?q ?r s1) ?q) ((move_children ?q ?r s1)\<lparr>freed_pgdirs := freed_pgdirs (move_children ?q ?r s1) @ [?q]\<rparr>) = Some s3"
    and g: "give_pid (pid (sch s3) ?q) (global_pids s3) = Some g" and sc: "simple_sched cpu ZOMBIE (sch s3) = Some sc" and s': "s' = s3\<lparr>global_pids := g, sch := sc\<rparr>"
    using run rq unfolding exit_def Let_def by (auto split: if_splits bind_splits)
  define s2 where "s2 = (move_children ?q ?r s1)\<lparr>freed_pgdirs := freed_pgdirs (move_children ?q ?r s1) @ [?q]\<rparr>"
  have I: "tree_ok s M T" "cont_ok s M T C" using inv by (simp_all add: proc_inv_def)
  note tD = tree_okD [OF I(1)] and K = cont_okD [OF I(2)]
  have qM: "?q \<in> M" "cont_of (sch s) ?q \<in> C" using me tD(1) K(3) by auto
  have rM: "?r \<in> M" using K(4) [OF qM(2)] tD(1) by auto
  have i0: "proc_inv ?s0 M T T C W (\<lambda>_. 0)"
    using inv by simp
  let ?z = "zombies s ?q"
  have p1: "proc_inv s1 M T T C W ((\<lambda>_. 0)(?r := ?z))" "same_procs ?s0 s1"
    using posts_step [OF i0 rM s1] by (simp_all add: zombies_def)
  have f1: "children s1 = children s" "parent s1 = parent s" "rootproc s1 = rootproc s" "root_proc (sch s1) = root_proc (sch s)"
      "cont_of (sch s1) = cont_of (sch s)" "this_proc cpu s1 = ?q" "zombies s1 = zombies s"
      "\<And>p. state (sch s1) p = ZOMBIE \<longleftrightarrow> state (sch s) p = ZOMBIE"
    using p1(2) same_procs_zombies [OF p1(2)] by (simp_all add: same_procs_def kept_def zombies_def fun_eq_iff)
  have sch2: "sch s2 = sch s1" "rootproc s2 = rootproc s1" "children s2 ?q = []" "parent s2 ?q = parent s ?q"
    using rq tD(6) [OF qM(1), of ?q] by (auto simp: s2_def move_children_def Let_def f1)
  have nroot: "?q \<noteq> root_proc (sch s)" using rq K(5) [OF K(1)] K(2) by auto
  have par: "parent s ?q \<in> M" "parent s ?q \<noteq> ?q" using tD(1) tD(7) [of ?q] tD(8) [OF me(1)] tD(6) [of ?q ?q] nroot qM(1) by auto
  have run3: "state (sch s3) (this_proc cpu s3) = RUNNING" "kept (sch s3) sc"
    "\<And>p. state sc p = ZOMBIE \<longleftrightarrow> state (sch s3) p = ZOMBIE \<or> p = this_proc cpu s3" using simple_sched_effect [OF sc] by auto
  have m: "proc_inv s2 M T T C W (((\<lambda>_. 0)(?r := ?z))(?r := 0, ?q := ?z))"
    using move_inv [OF p1(1), of ?q ?r] me(1) zz rq by (simp add: s2_def f1)
  have "post_childexit (parent s ?q) s2 = Some s3" using s3 sch2(4) by (simp add: s2_def)
  note p = post_step [OF m par(1) this]
  have f3: "children s3 = children s2" "parent s3 = parent s2" "rootproc s3 = rootproc s" "root_proc (sch s3) = root_proc (sch s)" "this_proc cpu s3 = ?q"
      "global_pids s3 = global_pids s2" "pid (sch s3) = pid (sch s2)" "\<And>p. state (sch s3) p = ZOMBIE \<longleftrightarrow> state (sch s) p = ZOMBIE"
    using p by (simp_all add: same_procs_def kept_def sch2 f1)
  have "pool_ok (global_pids s3) (live s3 M) (pid (sch s3)) 1" using p by (simp add: proc_inv_def pids_ok_def)
  then have "pool_ok g (live s3 M - {?q}) (pid (sch s3)) 1" using pool_give [of _ "live s3 M" _ 1 ?q] g qM(1) zz by (fastforce simp: live_def f3)
  moreover have "rootproc s3 c \<noteq> ?q" if "c \<in> C" for c using K(5) [OF that] rq by (auto simp: f3)
  ultimately show ?thesis unfolding s'
    by (intro bury_inv [OF conjunct1 [OF p] me(1) _ me(2)]) (use zz nroot run3 par(2) in \<open>auto simp: f3 sch2\<close>)
qed

section \<open>Wait\<close>

text \<open>A change of one process's semaphore, its wait and its accounting.\<close>

lemma sem_inv:
  assumes inv: "proc_inv s M T R C W D" and z: "state (sch s) q \<noteq> ZOMBIE" and sh: "sem_shape w sm"
    and bal: "val sm + held w = val (childexit s q) + held (W q)"
  shows "proc_inv (s\<lparr>childexit := (childexit s)(q := sm)\<rparr>) M T R C (W(q := w)) D" (is "proc_inv ?s _ _ _ _ _ _")
proof -
  have "zombies ?s = zombies s" by (simp add: fun_eq_iff zombies_def)
  then have "acct_ok ?s M (W(q := w)) D" using inv z sh bal unfolding proc_inv_def acct_ok_def by auto
  then show ?thesis using inv by (simp add: proc_inv_def tree_ok_def cont_ok_def pids_ok_def live_def members_def)
qed

lemma wait_enter_inv:
  assumes inv: "proc_inv s M T T C W (\<lambda>_. 0)" and me: "this_proc cpu s \<in> T" "state (sch s) (this_proc cpu s) \<noteq> ZOMBIE" "W (this_proc cpu s) = Out"
    and run: "wait_enter cpu s = Some (out, s')"
  shows "proc_inv s' M T T C (W(this_proc cpu s := (case out of NoChildren \<Rightarrow> Out | HasPermit \<Rightarrow> Reaping | Asleep w \<Rightarrow> Sleeping w))) (\<lambda>_. 0)"
proof -
  let ?q = "this_proc cpu s" and ?sm = "childexit s (this_proc cpu s)"
  have "?q \<in> M" using inv me(1) by (auto simp: proc_inv_def tree_ok_def)
  then have sh: "sleeplist ?sm = []" "0 \<le> val ?sm" using inv me(3) by (auto simp: proc_inv_def acct_ok_def sem_shape_def)
  consider (none) "children s ?q = []" | (some) "children s ?q \<noteq> []" "0 < val ?sm" | (sleep) "children s ?q \<noteq> []" "val ?sm = 0" using sh(2) by linarith
  then show ?thesis
  proof cases
    case none
    then have "W(?q := Out) = W" "out = NoChildren" "s' = s" using me(3) run by (auto simp: wait_enter_def)
    then show ?thesis using inv by simp
  next
    case some
    let ?sm' = "?sm\<lparr>val := val ?sm - 1\<rparr>"
    have "out = HasPermit" "s' = s\<lparr>childexit := (childexit s)(?q := ?sm')\<rparr>" using run some by (auto simp: wait_enter_def wait_sem_enter_def Let_def)
    then show ?thesis using sem_inv [OF inv me(2), of Reaping ?sm'] sh some me(3) by (simp add: sem_shape_def held_def)
  next
    case sleep
    let ?w = "next_wait ?sm"
    let ?sm' = "?sm\<lparr>val := -1, wait_of := (wait_of ?sm)(?w := \<lparr>up = False, wproc = unat ?q\<rparr>), next_wait := ?w + 1, sleeplist := [?w]\<rparr>"
    let ?s = "s\<lparr>childexit := (childexit s)(?q := ?sm')\<rparr>"
    obtain sc where sc: "simple_sched cpu SLEEPING (sch s) = Some sc" "out = Asleep ?w" "s' = ?s\<lparr>sch := sc\<rparr>"
      using run sleep sh(1) by (auto simp: wait_enter_def wait_sem_enter_def Let_def split: bind_splits)
    have "proc_inv ?s M T T C (W(?q := Sleeping ?w)) (\<lambda>_. 0)"
      using sem_inv [OF inv me(2), of "Sleeping ?w" ?sm'] sleep me(3) by (simp add: sem_shape_def held_def)
    then show ?thesis using simple_sched_effect [OF sc(1)] by (simp add: sc(2,3) sch_frame(5))
  qed
qed

lemma wait_resume_inv:
  assumes inv: "proc_inv s M T T C W (\<lambda>_. 0)" and me: "this_proc cpu s \<in> T" "W (this_proc cpu s) = Sleeping w" and run: "wait_resume cpu w s = Some (r, s')"
  shows "proc_inv s' M T T C (W(this_proc cpu s := (if r then Reaping else Out))) (\<lambda>_. 0)"
proof -
  let ?q = "this_proc cpu s" and ?sm = "childexit s (this_proc cpu s)"
  have "?q \<in> M" using inv me(1) by (auto simp: proc_inv_def tree_ok_def)
  then have sh: "sem_shape (Sleeping w) ?sm" "state (sch s) ?q \<noteq> ZOMBIE" using inv me(2) by (auto simp: proc_inv_def acct_ok_def split: if_splits)
  show ?thesis
  proof (cases "up (wait_of ?sm w)")
    case True
    then have "r" "s' = s\<lparr>childexit := (childexit s)(?q := ?sm)\<rparr>" using run by (auto simp: wait_resume_def wait_sem_resume_def)
    then show ?thesis using sem_inv [OF inv sh(2), of Reaping ?sm] True sh(1) me(2) by (simp add: sem_shape_def held_def)
  next
    case False
    let ?sm' = "?sm\<lparr>val := 0, sleeplist := []\<rparr>"
    have "\<not> r" "s' = s\<lparr>childexit := (childexit s)(?q := ?sm')\<rparr>"
      using run False sh(1) by (auto simp: wait_resume_def wait_sem_resume_def sem_shape_def Let_def)
    then show ?thesis using sem_inv [OF inv sh(2), of Out ?sm'] False sh(1) me(2) by (simp add: sem_shape_def held_def)
  qed
qed

text \<open>With a permit in hand there is a zombie child, and giving its local identifier back succeeds.\<close>

lemma reap_works:
  assumes inv: "proc_inv s M T T C W (\<lambda>_. 0)" and me: "this_proc cpu s \<in> T" "W (this_proc cpu s) = Reaping"
  obtains ch pool where "List.find (\<lambda>c. is_zombie c (sch s)) (children s (this_proc cpu s)) = Some ch"
    and "ch \<in> set (children s (this_proc cpu s))" "state (sch s) ch = ZOMBIE" "ch \<in> T"
    and "give_pid (localpid s ch) (pids s (cont_of (sch s) ch)) = Some pool"
    and "pool_ok pool (members s T (cont_of (sch s) ch) - {ch}) (localpid s) 0"
proof -
  let ?q = "this_proc cpu s"
  have I: "tree_ok s M T" "acct_ok s M W (\<lambda>_. 0)" "cont_ok s M T C" "pids_ok s M T C" using inv by (simp_all add: proc_inv_def)
  note tD = tree_okD [OF I(1)] and K = cont_okD [OF I(3)]
  have q: "?q \<in> M" using me(1) tD(1) by auto
  then have "sem_shape Reaping (childexit s ?q)" "zombies s ?q = val (childexit s ?q) + held Reaping"
    using acct_okD [OF I(2)] me(2) by (metis wait_pc.distinct(3), metis add_0_right wait_pc.distinct(3))
  then have "0 < zombies s ?q" by (simp add: sem_shape_def held_def)
  then have "filter (\<lambda>c. state (sch s) c = ZOMBIE) (children s ?q) \<noteq> []" by (auto simp: zombies_def)
  then obtain c where c: "c \<in> set (children s ?q)" "state (sch s) c = ZOMBIE" by (auto simp: filter_empty_conv)
  then obtain ch where ch: "List.find (\<lambda>c. is_zombie c (sch s)) (children s ?q) = Some ch"
    by (cases "List.find (\<lambda>c. is_zombie c (sch s)) (children s ?q)") (auto simp: find_None_iff is_zombie_def)
  then have zc: "ch \<in> set (children s ?q)" "state (sch s) ch = ZOMBIE" by (auto dest!: find_Some_iff simp: is_zombie_def)
  then have "ch \<in> M" "ch \<in> T" using tD(6) [OF q] tD(9) [of ch] by auto
  then have "pool_ok (pids s (cont_of (sch s) ch)) (members s T (cont_of (sch s) ch)) (localpid s) 0" "ch \<in> members s T (cont_of (sch s) ch)"
    using I(4) K(3) by (auto simp: pids_ok_def members_def)
  from pool_give [OF this] show thesis using ch zc \<open>ch \<in> T\<close> that by blast
qed

lemma wait_reap_inv:
  assumes inv: "proc_inv s M T T C W (\<lambda>_. 0)" and me: "this_proc cpu s \<in> T" "W (this_proc cpu s) = Reaping"
    and run: "wait_reap cpu s = Some ((ch, res), s')"
  shows "proc_inv s' (M - {ch}) (T - {ch}) (T - {ch}) C (W(this_proc cpu s := Out)) (\<lambda>_. 0)"
proof -
  let ?q = "this_proc cpu s" and ?c = "cont_of (sch s) ch"
  obtain pool where ch: "ch \<in> set (children s ?q)" "state (sch s) ch = ZOMBIE" "ch \<in> T"
    and pool: "give_pid (localpid s ch) (pids s ?c) = Some pool" "pool_ok pool (members s T ?c - {ch}) (localpid s) 0"
    and s': "s' = s\<lparr>pids := (pids s)(?c := pool), children := (children s)(?q := remove1 ch (children s ?q))\<rparr>"
  proof (rule reap_works [OF inv me])
    fix c pool assume *: "List.find (\<lambda>c. is_zombie c (sch s)) (children s ?q) = Some c" "c \<in> set (children s ?q)" "state (sch s) c = ZOMBIE" "c \<in> T"
      "give_pid (localpid s c) (pids s (cont_of (sch s) c)) = Some pool" "pool_ok pool (members s T (cont_of (sch s) c) - {c}) (localpid s) 0"
    then have "c = ch" "s' = s\<lparr>pids := (pids s)(cont_of (sch s) c := pool), children := (children s)(?q := remove1 c (children s ?q))\<rparr>"
      using run by (auto simp: wait_reap_def Let_def)
    then show thesis using * by (intro that) auto
  qed
  have I: "tree_ok s M T" "acct_ok s M W (\<lambda>_. 0)" "cont_ok s M T C" "pids_ok s M T C" using inv by (simp_all add: proc_inv_def)
  note tD = tree_okD [OF I(1)] and K = cont_okD [OF I(3)]
  have q: "?q \<in> M" "?q \<noteq> ch" "parent s ch = ?q" "ch \<in> M" "ch \<noteq> root_proc (sch s)" using me(1) tD(1) tD(6) [of ?q ch] ch(1) by auto
  have ne: "ch \<notin> set (children s p)" if "p \<in> M" "p \<noteq> ?q" for p using tD(6) [OF that(1), of ch] q(3) that(2) by auto
  have chz: "children s ch = []" using I(2) q(4) ch(2) by (auto simp: acct_ok_def)
  have npar: "parent s c \<noteq> ch" if "c \<in> M" "c \<noteq> root_proc (sch s)" "parent s c \<noteq> 0" for c using tD(7) [OF that] chz by auto
  have e: "children s' = (children s)(?q := remove1 ch (children s ?q))" "parent s' = parent s" "sch s' = sch s" "childexit s' = childexit s"
      "rootproc s' = rootproc s" "pids s' = (pids s)(?c := pool)" "global_pids s' = global_pids s" "localpid s' = localpid s"
    by (simp_all add: s')
  have rem: "set (remove1 ch (children s ?q)) = set (children s ?q) - {ch}" using tD(5) [OF q(1)] by simp
  have "tree_ok s' (M - {ch}) (T - {ch})"
  proof (rule tree_okI)
    fix c assume c: "c \<in> M - {ch}" "c \<noteq> root_proc (sch s')" "parent s' c \<noteq> 0"
    then show "parent s' c \<in> T - {ch} \<and> state (sch s') (parent s' c) \<noteq> ZOMBIE \<and> c \<in> set (children s' (parent s' c))"
      using tD(7) [of c] npar [of c] by (auto simp: e rem)
  next
    fix p c assume pc: "p \<in> M - {ch}" "c \<in> set (children s' p)"
    have "c \<in> set (children s p)" "c \<noteq> ch" using pc ne [of p] by (auto simp: e rem split: if_splits)
    then show "c \<in> M - {ch} \<and> c \<noteq> p \<and> c \<noteq> root_proc (sch s') \<and> parent s' c = p" using tD(6) [of p c] pc(1) by (simp add: e)
  next
    fix p assume "p \<in> M - {ch}" "p \<notin> T - {ch}"
    then show "children s' p = [] \<and> state (sch s') p \<noteq> ZOMBIE" using tD(9) [of p] by (auto simp: e)
  qed (use tD(1-5,8) q(5) in \<open>auto simp: e intro: distinct_remove1\<close>)
  moreover have "acct_ok s' (M - {ch}) (W(?q := Out)) (\<lambda>_. 0)"
  proof -
    obtain xs ys where xy: "children s ?q = xs @ ch # ys" "ch \<notin> set xs" using split_list_first [OF ch(1)] by blast
    have "zombies s' ?q = zombies s ?q - 1" using xy ch(2) by (simp add: zombies_def e remove1_append)
    moreover have "zombies s' p = zombies s p" if "p \<noteq> ?q" for p using that by (simp add: zombies_def e)
    ultimately show ?thesis using I(2) me(2) unfolding acct_ok_def by (auto simp: e sem_shape_def held_def split: if_splits)
  qed
  moreover have "cont_ok s' (M - {ch}) (T - {ch}) C"
    by (rule cont_okI) (use K ch(2) in \<open>auto simp: e\<close>)
  moreover have "pids_ok s' (M - {ch}) (T - {ch}) C"
  proof -
    have "live s' (M - {ch}) = live s M" using ch(2) by (auto simp: live_def e)
    moreover have "members s' (T - {ch}) ?c = members s T ?c - {ch}" by (auto simp: members_def e)
    moreover have "members s' (T - {ch}) c = members s T c" if "c \<noteq> ?c" for c using that by (auto simp: members_def e)
    ultimately show ?thesis using I(4) pool(2) by (auto simp: pids_ok_def e)
  qed
  ultimately show ?thesis by (simp add: proc_inv_def)
qed

end
