(* ===== verification/Proc_Safety.thy ===== *)
theory Proc_Safety
  imports Proc_Steps
begin

text \<open>What the invariant of \<^verbatim>\<open>Proc_Run\<close> says of every run of the process code.\<close>

section \<open>Every run keeps the invariant\<close>

lemma boot_inv:
  assumes g: "global_pids s = init_pids 1" and r: "root_proc (sch s) \<noteq> 0" and run: "init_root_proc pt e (init_root_container s) = Some s'"
  shows "proc_inv s' {root_proc (sch s)} {root_proc (sch s)} {root_proc (sch s)} {root_container (sch s)} (\<lambda>_. Out) (\<lambda>_. 0)"
proof -
  let ?r = "root_proc (sch s)" and ?c = "root_container (sch s)"
  obtain s1 x s2 where s1: "init_proc ?r pt (init_root_container s) = Some s1"
      and s2: "start_proc ?r e 123456 (s1\<lparr>parent := (parent s1)(?r := ?r)\<rparr>) = Some (x, s2)" and s': "s' = s2"
    using run by (auto simp: init_root_proc_def init_root_container_def init_container_def init_schinfo_def init_schqueue_def Let_def split: bind_splits)
  obtain y gp where gp: "take_pid (init_pids 1) = Some (y, gp)"
    using s1 g by (auto simp: init_proc_def init_root_container_def init_container_def Let_def split: bind_splits)
  have e1: "children s1 ?r = []" "childexit s1 ?r = init_sem 0 (childexit s ?r)" "global_pids s1 = gp" "pids s1 ?c = init_pids 0" "rootproc s1 ?c = ?r"
      "state (sch s1) ?r = UNUSED" "pid (sch s1) ?r = y" "cont_of (sch s1) ?r = ?c" "root_container (sch s1) = ?c" "root_proc (sch s1) = ?r"
    using s1 g gp by (auto simp: init_proc_def init_root_container_def init_container_def init_schinfo_def init_schqueue_def Let_def)
  obtain pl b sc where lp: "take_pid (init_pids 0) = Some (x, pl)" and act: "activate_proc ?r False (sch s1) = Some (b, sc)"
      and s2': "s2 = s1\<lparr>parent := (parent s1)(?r := ?r), kcontext := (kcontext s1)(?r := (proc_entry s1, e, 123456)),
        pids := (pids s1)(?c := pl), localpid := (localpid s1)(?r := x), sch := sc\<rparr>"
    using s2 r e1 by (auto simp: start_proc_def Let_def split: bind_splits)
  have sc: "pid sc = pid (sch s1)" "cont_of sc = cont_of (sch s1)" "root_container sc = ?c" "root_proc sc = ?r" "state sc ?r \<noteq> ZOMBIE"
    using activate_effect [OF act] by (simp_all add: kept_def e1)
  have "pool_ok gp (insert ?r {}) (pid (sch s1)) 1" by (rule pool_take [OF pool_init gp]) (simp_all add: e1)
  moreover have "pool_ok pl (insert ?r {}) ((localpid s1)(?r := x)) 0" by (rule pool_take [OF pool_init lp]) simp_all
  moreover have "{p. p = ?r \<and> cont_of (sch s1) p = ?c} = {?r}" "{p. p = ?r \<and> state sc p \<noteq> ZOMBIE} = {?r}" using e1(8) sc(5) by auto
  ultimately have "pids_ok s' {?r} {?r} {?c}" by (simp add: pids_ok_def live_def members_def s' s2' sc e1)
  moreover have "tree_ok s' {?r} {?r}" "acct_ok s' {?r} (\<lambda>_. Out) (\<lambda>_. 0)" "cont_ok s' {?r} {?r} {?c}"
    using r by (simp_all add: tree_ok_def acct_ok_def cont_ok_def s' s2' sc e1 zombies_def sem_shape_def held_def init_sem_def)
  ultimately show ?thesis by (simp add: proc_inv_def)
qed

lemma kill_inv:
  assumes "proc_inv s M T R C W D" and "kill x s = Some (k, s')"
  shows "proc_inv s' M T R C W D"
proof -
  obtain p where p: "dfs [root_proc (sch s)] x False s = Some p" using assms(2) by (auto simp: kill_def split: bind_splits)
  let ?sc = "(sch s)\<lparr>killed := (killed (sch s))(p := True)\<rparr>"
  show ?thesis
  proof (cases "p = 0")
    case True
    then show ?thesis using assms p by (simp add: kill_def)
  next
    case False
    then obtain b sc where "activate_proc p True ?sc = Some (b, sc)" "s' = s\<lparr>sch := sc\<rparr>" using assms(2) p by (auto simp: kill_def split: bind_splits)
    then show ?thesis using activate_effect [of p True ?sc b sc] assms(1) by (simp add: sch_frame(5) kept_def)
  qed
qed

theorem proc_run_inv:
  assumes "proc_run s M T C W"
  shows "proc_inv s M T T C W (\<lambda>_. 0)"
  using assms
proof induction
  case (boot s pt e s')
  then show ?case by (rule boot_inv)
next
  case (create s M T C W p pt s')
  show ?case by (rule conjunct1 [OF create_inv [OF create.IH create.hyps(2-4)]])
next
  case (parent s M T C W cpu p)
  have "rootproc s c \<in> T" if "c \<in> C" for c using parent.IH that by (simp add: proc_inv_def cont_ok_def)
  then have "cont_of (sch s) (this_proc cpu s) \<noteq> c" if "c \<in> C" "rootproc s c = p" for c using parent.hyps(4) that by blast
  moreover have "state (sch s) (this_proc cpu s) \<noteq> ZOMBIE" using parent.hyps(3) by simp
  ultimately show ?case
    by (intro adopt_inv [OF parent.IH parent.hyps(2) _ parent.hyps(4,5)]) (simp_all add: set_parent_to_this_def Let_def)
next
  case (container s M T C W cpu p)
  then show ?case by (intro set_container_inv)
next
  case (start s M T C W p e a x s')
  have i: "proc_inv s' M (insert p T) T C W (\<lambda>_. 0)" by (rule start_inv [OF start.IH start.hyps(2,3)])
  then have "cont_ok s' M (insert p T) C" by (auto simp: proc_inv_def cont_ok_def)
  then show ?case using i by (simp add: proc_inv_def)
next
  case (new_container s M T C W cpu c p pt e a s')
  then show ?case by (intro create_container_inv [of s M T C W cpu c p pt e a s']) auto
next
  case (exit s M T C W cpu code s')
  then show ?case by (intro exit_inv [of s M T C W cpu code s']) auto
next
  case (wait s M T C W cpu out s')
  then show ?case by (intro wait_enter_inv) auto
next
  case (resume s M T C W cpu w r s')
  then show ?case by (intro wait_resume_inv) auto
next
  case (reap s M T C W cpu ch res s')
  then show ?case by (intro wait_reap_inv) auto
next
  case (killing s M T C W x k s')
  then show ?case by (rule_tac kill_inv)
next
  case (switch s M T C W new cpu sc)
  then show ?case using simple_sched_effect [of cpu new "sch s" sc] by (simp add: sch_frame(5))
next
  case (wake s M T C W p onalert b sc)
  then show ?case using activate_effect [of p onalert "sch s" b sc] by (simp add: sch_frame(5))
qed

section \<open>Searching the tree of processes\<close>

inductive descendant :: "proc_sys \<Rightarrow> addr \<Rightarrow> addr \<Rightarrow> bool" for s where
  desc_self: "descendant s p p"
| desc_child: "c \<in> set (children s p) \<Longrightarrow> descendant s c q \<Longrightarrow> descendant s p q"

definition wanted :: "int \<Rightarrow> bool \<Rightarrow> proc_sys \<Rightarrow> addr \<Rightarrow> bool" where
  "wanted x offline s p \<longleftrightarrow> (pid (sch s) p = x \<or> offline \<and> \<not> online (sch s) p) \<and> state (sch s) p \<noteq> UNUSED"

definition found :: "addr list \<Rightarrow> int \<Rightarrow> bool \<Rightarrow> proc_sys \<Rightarrow> addr \<Rightarrow> bool" where
  "found ps x offline s r \<longleftrightarrow> (if \<exists>p \<in> set ps. \<exists>q. descendant s p q \<and> wanted x offline s q
     then r \<noteq> 0 \<and> wanted x offline s r \<and> (\<exists>p \<in> set ps. descendant s p r) else r = 0)"

lemma desc_iff: "descendant s p q \<longleftrightarrow> p = q \<or> (\<exists>c \<in> set (children s p). descendant s c q)"
  by (subst descendant.simps) auto

lemma dfs_list:
  assumes "\<And>p. p \<in> set ps \<Longrightarrow> p \<noteq> 0 \<and> (\<exists>r. dfs (children s p) x offline s = Some r \<and> found (children s p) x offline s r)"
  shows "\<exists>r. dfs ps x offline s = Some r \<and> found ps x offline s r"
  using assms
proof (induction ps)
  case Nil
  then show ?case by (subst dfs.simps) (simp add: found_def)
next
  case (Cons p ps)
  obtain r where r: "dfs (children s p) x offline s = Some r" "found (children s p) x offline s r" and p: "p \<noteq> 0" using Cons.prems [of p] by auto
  obtain t where t: "dfs ps x offline s = Some t" "found ps x offline s t" using Cons by auto
  consider (here) "wanted x offline s p" | (child) "\<not> wanted x offline s p" "r \<noteq> 0" | (rest) "\<not> wanted x offline s p" "r = 0" by blast
  then show ?case
  proof cases
    case here
    then have "dfs (p # ps) x offline s = Some p" by (subst dfs.simps) (simp add: wanted_def)
    moreover have "found (p # ps) x offline s p" using here p desc_self [of s p] unfolding found_def by auto
    ultimately show ?thesis by blast
  next
    case child
    then have "dfs (p # ps) x offline s = Some r" using r(1) by (subst dfs.simps) (auto simp: wanted_def)
    moreover have "wanted x offline s r" "descendant s p r" using r(2) child(2) unfolding found_def by (auto intro: desc_child split: if_splits)
    then have "found (p # ps) x offline s r" using child(2) unfolding found_def by auto
    ultimately show ?thesis by blast
  next
    case rest
    then have "dfs (p # ps) x offline s = Some t" using r(1) t(1) by (subst dfs.simps) (auto simp: wanted_def)
    moreover have no: "\<not> wanted x offline s q" if "descendant s p q" for q
    proof -
      have "p = q \<or> (\<exists>c \<in> set (children s p). descendant s c q)" using that desc_iff by blast
      then show ?thesis using r(2) rest unfolding found_def by (auto split: if_splits)
    qed
    then have "found (p # ps) x offline s t" using t(2) unfolding found_def by (auto split: if_splits)
    ultimately show ?thesis by blast
  qed
qed

lemma dfs_spec:
  assumes wf: "wfP (\<lambda>c p. p \<in> M \<and> c \<in> set (children s p))" and M: "\<And>p. p \<in> M \<Longrightarrow> p \<noteq> 0 \<and> set (children s p) \<subseteq> M" and ps: "set ps \<subseteq> M"
  shows "\<exists>r. dfs ps x offline s = Some r \<and> found ps x offline s r"
proof (rule dfs_list)
  have all: "p \<in> M \<longrightarrow> (\<exists>r. dfs (children s p) x offline s = Some r \<and> found (children s p) x offline s r)" for p
    using wf
  proof (induction p rule: wfp_induct_rule)
    case (less p)
    show ?case
    proof
      assume p: "p \<in> M"
      show "\<exists>r. dfs (children s p) x offline s = Some r \<and> found (children s p) x offline s r"
        by (rule dfs_list) (use less p M in blast)
    qed
  qed
  fix p assume "p \<in> set ps"
  then show "p \<noteq> 0 \<and> (\<exists>r. dfs (children s p) x offline s = Some r \<and> found (children s p) x offline s r)"
    using all M ps by blast
qed

lemma desc_members:
  assumes "tree_ok s M T" and "descendant s p q" and "p \<in> M"
  shows "q \<in> M"
  using assms(2,3) tree_okD(6) [OF assms(1)] by (induction rule: descendant.induct) auto

section \<open>Properties of every run\<close>

text \<open>
  (C12) A process that gets through the semaphore in \<^verbatim>\<open>wait\<close>, in any run of the process code over any
  number of cpus, finds a zombie among its children: the \<^verbatim>\<open>PANIC\<close> at the end of \<^verbatim>\<open>wait\<close> is not
  reached, and no permit of \<^verbatim>\<open>childexit\<close> is lost or made up when children exit, are given to the root
  process of a container, or are waited for after a kill. The call returns the child's local
  identifier, exit code and identifier and takes the child out of the tree.
\<close>

theorem wait_never_panics:
  assumes "proc_run s M T C W" and "this_proc cpu s \<in> T" and "W (this_proc cpu s) = Reaping"
  shows "\<exists>ch s'. wait_reap cpu s = Some ((ch, localpid s ch, exitcode s ch, pid (sch s) ch), s') \<and> state (sch s) ch = ZOMBIE \<and>
    parent s ch = this_proc cpu s \<and> ch \<in> set (children s (this_proc cpu s)) \<and>
    children s' = (children s)(this_proc cpu s := remove1 ch (children s (this_proc cpu s)))"
proof -
  have inv: "proc_inv s M T T C W (\<lambda>_. 0)" by (rule proc_run_inv [OF assms(1)])
  then have "tree_ok s M T" by (simp add: proc_inv_def)
  note tD = tree_okD [OF this]
  show ?thesis
    using tD(6) [of "this_proc cpu s"] tD(1) assms(2) by (rule_tac reap_works [OF inv assms(2,3)]) (auto simp: wait_reap_def Let_def)
qed

text \<open>
  (C13) Identifiers are unique in every run: no two processes that have not exited share a
  \<^verbatim>\<open>pid\<close>, every such \<^verbatim>\<open>pid\<close> is between 1 and 99, and no two processes of a container that have not
  been waited for share a \<^verbatim>\<open>localpid\<close>.
\<close>

theorem pids_unique:
  assumes "proc_run s M T C W"
  shows "inj_on (pid (sch s)) {p \<in> M. state (sch s) p \<noteq> ZOMBIE} \<and> (\<forall>p \<in> M. state (sch s) p \<noteq> ZOMBIE \<longrightarrow> pid (sch s) p \<in> {1..99}) \<and>
    (\<forall>c \<in> C. inj_on (localpid s) {p \<in> T. cont_of (sch s) p = c} \<and> (\<forall>p \<in> T. cont_of (sch s) p = c \<longrightarrow> localpid s p \<in> {0..99}))"
proof -
  have ok: "pool_ok (global_pids s) (live s M) (pid (sch s)) 1" "\<And>c. c \<in> C \<Longrightarrow> pool_ok (pids s c) (members s T c) (localpid s) 0"
    using proc_run_inv [OF assms] by (simp_all add: proc_inv_def pids_ok_def)
  have r: "f ` X \<subseteq> {int b..99}" "inj_on f X" if "pool_ok pool X f b" for pool X f b
  proof -
    have "f ` X \<subseteq> int ` {b..<PID_NUM}" using that unfolding pool_ok_def by blast
    also have "\<dots> \<subseteq> {int b..99}" by auto
    finally show "f ` X \<subseteq> {int b..99}" .
    show "inj_on f X" using that unfolding pool_ok_def by blast
  qed
  have "\<forall>p \<in> live s M. pid (sch s) p \<in> {1..99}" "\<forall>c \<in> C. \<forall>p \<in> members s T c. localpid s p \<in> {0..99}"
    using r(1) [OF ok(1)] r(1) [OF ok(2)] by (simp_all add: image_subset_iff)
  moreover have "inj_on (pid (sch s)) (live s M)" "\<forall>c \<in> C. inj_on (localpid s) (members s T c)" using r(2) [OF ok(1)] r(2) [OF ok(2)] by simp_all
  ultimately show ?thesis by (simp add: live_def members_def)
qed

text \<open>\<^verbatim>\<open>kill\<close> of a process it finds marks this process and no other; it wakes it up when it sleeps.\<close>

lemma kill_found:
  assumes d: "dfs [root_proc (sch s)] x False s = Some r" "r \<noteq> 0"
  shows "kill x s = Some (k, s') \<Longrightarrow> k = 0 \<and> killed (sch s') = (killed (sch s))(r := True)"
    and "state (sch s) r \<notin> {SLEEPING, UNUSED} \<or> (\<exists>P D Q I. sched_core (sch s) P D Q I \<and> r \<in> P) \<Longrightarrow> \<exists>s'. kill x s = Some (0, s')"
proof -
  let ?sc = "(sch s)\<lparr>killed := (killed (sch s))(r := True)\<rparr>"
  show "k = 0 \<and> killed (sch s') = (killed (sch s))(r := True)" if "kill x s = Some (k, s')"
    using that d by (auto simp: kill_def Sched.activate_proc_def rq_insert_def split: bind_splits if_splits)
  assume a: "state (sch s) r \<notin> {SLEEPING, UNUSED} \<or> (\<exists>P D Q I. sched_core (sch s) P D Q I \<and> r \<in> P)"
  have "\<exists>b sc. Sched.activate_proc r True ?sc = Some (b, sc)"
  proof (cases "state (sch s) r \<in> {SLEEPING, UNUSED}")
    case True
    then obtain P D Q I where c: "sched_core (sch s) P D Q I" "r \<in> P" using a by blast
    have "sched_core ?sc P D Q I" by (rule same_core_inv [OF _ c(1)]) (simp add: same_core_def)
    then show ?thesis using activate_proc_ok [OF _ c(2), of ?sc D Q I True] True by auto
  next
    case False
    then show ?thesis by (cases "state (sch s) r") (auto simp: Sched.activate_proc_def)
  qed
  then show "\<exists>s'. kill x s = Some (0, s')" using d by (auto simp: kill_def)
qed

text \<open>
  (C32) \<^verbatim>\<open>dfs\<close>, the search of \<^verbatim>\<open>kill\<close> and \<^verbatim>\<open>get_offline_proc\<close>, ends on every tree of processes a run builds
  that has no cycle. It returns a process of the tree that satisfies the search when there is one and
  0 otherwise. So \<^verbatim>\<open>kill\<close> returns -1 exactly when no process of the tree that is in use has
  the identifier. When there is one, \<^verbatim>\<open>kill\<close> can only return 0, and it sets the mark of the process found and
  of no other; it does return when the process need not be woken up or the invariant of the scheduler holds.
\<close>

theorem dfs_correct:
  assumes "proc_run s M T C W" and "wfP (\<lambda>c p. p \<in> M \<and> c \<in> set (children s p))"
  shows "\<exists>r. dfs [root_proc (sch s)] x offline s = Some r \<and>
    (if \<exists>q. descendant s (root_proc (sch s)) q \<and> wanted x offline s q
     then r \<in> M \<and> wanted x offline s r \<and> descendant s (root_proc (sch s)) r \<and>
       (\<not> offline \<longrightarrow>
         (\<forall>k s'. kill x s = Some (k, s') \<longrightarrow> k = 0 \<and> killed (sch s') = (killed (sch s))(r := True)) \<and>
         (state (sch s) r \<noteq> SLEEPING \<or> (\<exists>P D Q I. sched_core (sch s) P D Q I \<and> r \<in> P) \<longrightarrow> (\<exists>s'. kill x s = Some (0, s'))))
     else r = 0 \<and> (\<not> offline \<longrightarrow> kill x s = Some (-1, s)))"
proof -
  have t: "tree_ok s M T" using proc_run_inv [OF assms(1)] by (simp add: proc_inv_def)
  then have m: "q \<in> M" if "descendant s (root_proc (sch s)) q" for q using desc_members [OF t that] tree_okD(1,3) [OF t] by auto
  have nz: "p \<noteq> 0" "set (children s p) \<subseteq> M" if "p \<in> M" for p using tree_okD(2) [OF t] tree_okD(6) [OF t that] that by auto
  obtain r where r: "dfs [root_proc (sch s)] x offline s = Some r" "found [root_proc (sch s)] x offline s r"
  proof -
    have "set [root_proc (sch s)] \<subseteq> M" using tree_okD(1,3) [OF t] by auto
    then show thesis using dfs_spec [OF assms(2), of "[root_proc (sch s)]" x offline] nz that by blast
  qed
  show ?thesis
  proof (cases "\<exists>q. descendant s (root_proc (sch s)) q \<and> wanted x offline s q")
    case True
    then have w: "wanted x offline s r" "descendant s (root_proc (sch s)) r" using r(2) unfolding found_def by (auto split: if_splits)
    have rM: "r \<in> M" "r \<noteq> 0" using m [OF w(2)] nz(1) by auto
    have used: "state (sch s) r \<noteq> UNUSED" using w(1) by (simp add: wanted_def)
    have k: "k = 0 \<and> killed (sch s') = (killed (sch s))(r := True)" if "\<not> offline" "kill x s = Some (k, s')" for k s'
      using kill_found(1) [OF _ rM(2) that(2)] r(1) that(1) by simp
    have e: "\<exists>s'. kill x s = Some (0, s')"
      if "\<not> offline" "state (sch s) r \<noteq> SLEEPING \<or> (\<exists>P D Q I. sched_core (sch s) P D Q I \<and> r \<in> P)"
      by (rule kill_found(2) [OF _ rM(2)]) (use r(1) that used in \<open>simp, blast\<close>)
    show ?thesis
    proof (rule exI [of _ r], intro conjI)
      show "if \<exists>q. descendant s (root_proc (sch s)) q \<and> wanted x offline s q
        then r \<in> M \<and> wanted x offline s r \<and> descendant s (root_proc (sch s)) r \<and>
          (\<not> offline \<longrightarrow>
            (\<forall>k s'. kill x s = Some (k, s') \<longrightarrow> k = 0 \<and> killed (sch s') = (killed (sch s))(r := True)) \<and>
            (state (sch s) r \<noteq> SLEEPING \<or> (\<exists>P D Q I. sched_core (sch s) P D Q I \<and> r \<in> P) \<longrightarrow> (\<exists>s'. kill x s = Some (0, s'))))
        else r = 0 \<and> (\<not> offline \<longrightarrow> kill x s = Some (-1, s))"
        unfolding if_P [OF True] using rM(1) w k e by blast
    qed (rule r(1))
  next
    case False
    then have "r = 0" using r(2) unfolding found_def by (auto split: if_splits)
    then show ?thesis using r(1) False by (intro exI [of _ r]) (auto simp: kill_def)
  qed
qed

section \<open>A run\<close>

definition sample_boot :: proc_sys where
  "sample_boot = \<lparr>sch = \<lparr>state = (\<lambda>a. if a = 1024 then RUNNING else UNUSED), idle = (\<lambda>a. 1024 \<le> a),
     killed = (\<lambda>_. False), pid = (\<lambda>_. 0), cont_of = (\<lambda>_. 64), group = (\<lambda>a. a = 64), start_time = (\<lambda>_. 0), vruntime = (\<lambda>_. 0),
     skip = (\<lambda>_. False), cparent = (\<lambda>_. 0), cid = (\<lambda>_. 4), rq = (\<lambda>_. \<lparr>pc = \<lambda>_. 0, rgt = \<lambda>_. 0, lft = \<lambda>_. 0, root = 0\<rparr>), node_cnt = (\<lambda>_. 0),
     pgdir_pt = (\<lambda>_. 0), online = (\<lambda>_. False), cpu_proc = (\<lambda>i. 1024 + 8 * of_nat i),
     cpu_idle = (\<lambda>i. 1024 + 8 * of_nat i), ttbr0 = (\<lambda>_. 0), timers = (\<lambda>_. \<lparr>timer_tree = \<lparr>pc = \<lambda>_. 0, rgt = \<lambda>_. 0, lft = \<lambda>_. 0, root = 0\<rparr>, triggered = (\<lambda>_. False), elapse = (\<lambda>_. 5), key = (\<lambda>a. a),
     data = (\<lambda>_. 0), one_ms = 1, counter = (\<lambda>n. of_nat (16 + n)), reads = 0, tval = 0, fired = []\<rparr>), sched_timer = (\<lambda>_. 40),
     sched_timer_set = (\<lambda>_. False), root_container = 64, root_proc = 48, invalid_pt = 0, panic_flag = False\<rparr>,
     localpid = \<lambda>_. 0, exitcode = \<lambda>_. 0, childexit = \<lambda>_. \<lparr>val = 0, sleeplist = [], wait_of = \<lambda>_. \<lparr>up = False, wproc = 0\<rparr>, next_wait = 0\<rparr>,
     children = \<lambda>_. [], parent = \<lambda>_. 0, kcontext = \<lambda>_. (0,0,0), global_pids = init_pids 1, pids = \<lambda>_. init_pids 0, rootproc = \<lambda>_. 0, proc_entry = 0, freed_pgdirs = []\<rparr>"

definition switch_to :: "procstate \<Rightarrow> proc_sys \<Rightarrow> proc_sys option" where
  "switch_to new s = do { sc \<leftarrow> simple_sched 0 new (sch s); Some (s\<lparr>sch := sc\<rparr>) }"

definition sample_reaping :: "proc_sys option" where
  "sample_reaping = do {
     s \<leftarrow> init_root_proc 0 0 (init_root_container sample_boot);
     s \<leftarrow> switch_to RUNNABLE s;
     s \<leftarrow> create_proc 16 0 s;
     (x, s) \<leftarrow> start_proc 16 0 0 s;
     s \<leftarrow> switch_to RUNNABLE s;
     if this_proc 0 s = 16 \<and> state (sch s) 16 = RUNNING then do {
       s \<leftarrow> exit 0 7 s;
       if this_proc 0 s = 48 \<and> state (sch s) 48 = RUNNING then do {
         (r, s') \<leftarrow> wait_enter 0 s;
         if r = HasPermit \<and> this_proc 0 s' = 48 then Some s' else None }
       else None }
     else None }"

lemma sample_reaping_result:
  "(case sample_reaping of None \<Rightarrow> None | Some s \<Rightarrow> (case wait_reap 0 s of None \<Rightarrow> None | Some (x, s) \<Rightarrow> Some x)) = Some (16, 1, 7, 2)"
  by code_simp

lemma sample_reaping_run:
  obtains s W where "sample_reaping = Some s" and "proc_run s {16, 48} {16, 48} {64} W" and "this_proc 0 s = 48" and "W 48 = Reaping"
proof -
  obtain s7 where s7: "sample_reaping = Some s7" using sample_reaping_result by (auto split: option.splits)
  then obtain s1 s2 s3 x s4 s5 s6 where st: "init_root_proc 0 0 (init_root_container sample_boot) = Some s1" "switch_to RUNNABLE s1 = Some s2" "create_proc 16 0 s2 = Some s3"
      "start_proc 16 0 0 s3 = Some (x, s4)" "switch_to RUNNABLE s4 = Some s5" "this_proc 0 s5 = 16" "state (sch s5) 16 = RUNNING" "exit 0 7 s5 = Some s6"
      "this_proc 0 s6 = 48" "state (sch s6) 48 = RUNNING" "wait_enter 0 s6 = Some (HasPermit, s7)" "this_proc 0 s7 = 48"
    unfolding sample_reaping_def by (auto split: bind_splits if_splits)
  have b: "root_proc (sch sample_boot) = 48" "root_container (sch sample_boot) = 64" "global_pids sample_boot = init_pids 1" by (simp_all add: sample_boot_def)
  have "proc_run s1 {48} {48} {64} (\<lambda>_. Out)" using proc_run.boot [OF b(3) _ st(1)] by (simp add: b)
  then have "proc_run s2 {48} {48} {64} (\<lambda>_. Out)" using st(2) by (auto simp: switch_to_def intro: proc_run.switch split: bind_splits)
  then have "proc_run s3 {16, 48} {48} {64} ((\<lambda>_. Out)(16 := Out))" by (rule proc_run.create [OF _ _ _ st(3)]) simp_all
  then have "proc_run s4 {16, 48} {16, 48} {64} ((\<lambda>_. Out)(16 := Out))" by (rule proc_run.start [OF _ _ st(4)]) simp
  then have "proc_run s5 {16, 48} {16, 48} {64} ((\<lambda>_. Out)(16 := Out))" using st(5) by (auto simp: switch_to_def simp del: fun_upd_apply intro: proc_run.switch split: bind_splits)
  then have "proc_run s6 {16, 48} {16, 48} {64} ((\<lambda>_. Out)(16 := Out))" by (rule proc_run.exit [OF _ _ _ _ st(8)]) (simp_all add: st(6,7))
  moreover have "((\<lambda>_. Out)(16 := Out)) (this_proc 0 s6) = Out" by simp
  ultimately have "proc_run s7 {16, 48} {16, 48} {64} ((\<lambda>_. Out)(16 := Out, 48 := Reaping))"
    using proc_run.wait [of s6 "{16, 48}" "{16, 48}" "{64}" "(\<lambda>_. Out)(16 := Out)" 0 HasPermit s7] st(9-11) by (simp del: fun_upd_apply)
  then show thesis using s7 st(12) that by (metis fun_upd_same)
qed

theorem wait_never_panics_witness:
  "\<exists>s ch s'. sample_reaping = Some s \<and> wait_reap 0 s = Some ((ch, 1, 7, 2), s') \<and> parent s ch = 48"
proof -
  obtain s W where s: "sample_reaping = Some s" "proc_run s {16, 48} {16, 48} {64} W" "this_proc 0 s = 48" "W 48 = Reaping" by (rule sample_reaping_run)
  have "(case wait_reap 0 s of None \<Rightarrow> None | Some (x, s) \<Rightarrow> Some x) = Some (16, 1, 7, 2)" using sample_reaping_result unfolding s(1) by simp
  then show ?thesis using wait_never_panics [OF s(2), of 0] s by auto
qed

theorem pids_unique_witness:
  "\<exists>s. sample_reaping = Some s \<and> pid (sch s) 48 \<in> {1..99} \<and> localpid s 16 \<noteq> localpid s 48"
proof -
  obtain s W where s: "sample_reaping = Some s" "proc_run s {16, 48} {16, 48} {64} W" "this_proc 0 s = 48" "W 48 = Reaping" by (rule sample_reaping_run)
  have "(case sample_reaping of None \<Rightarrow> False | Some s \<Rightarrow> state (sch s) 48 \<noteq> ZOMBIE \<and> cont_of (sch s) 16 = 64 \<and> cont_of (sch s) 48 = 64) = True" by code_simp
  then have e: "state (sch s) 48 \<noteq> ZOMBIE" "cont_of (sch s) 16 = 64" "cont_of (sch s) 48 = 64" unfolding s(1) by simp_all
  have "pid (sch s) 48 \<in> {1..99}" "inj_on (localpid s) {p \<in> {16, 48}. cont_of (sch s) p = 64}" using pids_unique [OF s(2)] e(1) by blast+
  moreover from this(2) have "localpid s 16 \<noteq> localpid s 48" using e(2,3) by (auto dest: inj_onD [of _ _ 16 48])
  ultimately show ?thesis using s(1) by blast
qed

theorem dfs_correct_witness:
  "\<exists>s s'. sample_reaping = Some s \<and> dfs [48] 2 False s = Some 16 \<and> kill 2 s = Some (0, s') \<and> killed (sch s') 16 \<and> \<not> killed (sch s') 48"
proof -
  obtain s W where s: "sample_reaping = Some s" "proc_run s {16, 48} {16, 48} {64} W" "this_proc 0 s = 48" "W 48 = Reaping" by (rule sample_reaping_run)
  have "(case sample_reaping of None \<Rightarrow> False | Some s \<Rightarrow> children s 16 = [] \<and> children s 48 = [16] \<and> root_proc (sch s) = 48 \<and>
      pid (sch s) 16 = 2 \<and> pid (sch s) 48 = 1 \<and> state (sch s) 16 = ZOMBIE \<and> \<not> killed (sch s) 48) = True" by code_simp
  then have e: "children s 16 = []" "children s 48 = [16]" "root_proc (sch s) = 48" "pid (sch s) 16 = 2" "pid (sch s) 48 = 1"
      "state (sch s) 16 = ZOMBIE" "\<not> killed (sch s) 48" unfolding s(1) by simp_all
  have "wfP (\<lambda>c p. p \<in> {16, 48} \<and> c \<in> set (children s p))"
    by (rule wfp_if_convertible_to_nat [where f = "\<lambda>p. if p = 48 then 1 else 0"]) (auto simp: e)
  note W = dfs_correct [OF s(2) this, of 2 False]
  have "descendant s 48 16" "wanted 2 False s 16" by (auto simp: e wanted_def intro: desc_child desc_self)
  then have x: "\<exists>q. descendant s (root_proc (sch s)) q \<and> wanted 2 False s q" unfolding e by blast
  obtain r where r: "dfs [48] 2 False s = Some r" "r \<in> {16, 48}" "wanted 2 False s r"
      "\<And>k s'. kill 2 s = Some (k, s') \<Longrightarrow> killed (sch s') = (killed (sch s))(r := True)"
      "state (sch s) r \<noteq> SLEEPING \<Longrightarrow> \<exists>s'. kill 2 s = Some (0, s')"
  proof -
    obtain r where r: "dfs [root_proc (sch s)] 2 False s = Some r" "if \<exists>q. descendant s (root_proc (sch s)) q \<and> wanted 2 False s q
     then r \<in> {16, 48} \<and> wanted 2 False s r \<and> descendant s (root_proc (sch s)) r \<and>
       (\<not> False \<longrightarrow>
         (\<forall>k s'. kill 2 s = Some (k, s') \<longrightarrow> k = 0 \<and> killed (sch s') = (killed (sch s))(r := True)) \<and>
         (state (sch s) r \<noteq> SLEEPING \<or> (\<exists>P D Q I. sched_core (sch s) P D Q I \<and> r \<in> P) \<longrightarrow> (\<exists>s'. kill 2 s = Some (0, s'))))
     else r = 0 \<and> (\<not> False \<longrightarrow> kill 2 s = Some (-1, s))" using W by blast
    show thesis using r(1) r(2) [unfolded if_P [OF x]] by (intro that [of r]) (auto simp: e)
  qed
  have "r = 16" using r(2,3) by (auto simp: wanted_def e)
  moreover obtain s' where "kill 2 s = Some (0, s')" using r(5) unfolding \<open>r = 16\<close> by (auto simp: e)
  ultimately show ?thesis using s(1) r(1) r(4) [of 0 s'] e(7) by auto
qed

end
