(* ===== verification/Paging.thy ===== *)
theory Paging
  imports Page_Table Swap Proc
begin

text \<open>
  \<^verbatim>\<open>src/src/kernel/paging.c\<close> and the two functions of \<^verbatim>\<open>mem.c\<close> that move a page to the disk and back:
  sections of an address space, \<^verbatim>\<open>sbrk\<close>, page faults and swapping, on the models of the page
  tables, the block cache with its swap area, the allocator and the processes. The page
  directory of a process is named by the address of the process. \<open>frame\<close> holds the bytes of
  the pages used for data, by kernel address; what the free list writes into free pages is not part of it.
  One call runs at a time; waiting for a sleep lock, or for an address space that stays
  online, is \<open>None\<close>, like a failed \<^verbatim>\<open>ASSERT\<close> and a \<^verbatim>\<open>PANIC\<close>.
\<close>

section \<open>State\<close>

abbreviation ST_FILE :: u64 where "ST_FILE \<equiv> 1"
abbreviation ST_SWAP :: u64 where "ST_SWAP \<equiv> 2"
abbreviation ST_HEAP :: u64 where "ST_HEAP \<equiv> 8"
abbreviation PTE_RO :: u64 where "PTE_RO \<equiv> 128"
abbreviation PTE_RW :: u64 where "PTE_RW \<equiv> 0"
abbreviation PTE_USER_DATA :: u64 where "PTE_USER_DATA \<equiv> 0x647"
abbreviation REVERSED_PAGES :: u64 where "REVERSED_PAGES \<equiv> 1024"
abbreviation sizeof_section :: nat where "sizeof_section \<equiv> 64"

record sect =
  sflags :: u64
  slock :: int
  sbegin :: u64
  send :: u64

record pg_state =
  vm :: vm_state
  frame :: "u64 \<Rightarrow> u8 list"
  bcache :: cache_state
  procs :: proc_sys
  sections :: "nat \<Rightarrow> sect"
  section_list :: "nat \<Rightarrow> nat list"

definition this_pgdir :: "nat \<Rightarrow> pg_state \<Rightarrow> nat" where
  "this_pgdir cpu s = unat (cpu_proc (sch (procs s)) cpu)"

definition upd_sect :: "nat \<Rightarrow> (sect \<Rightarrow> sect) \<Rightarrow> pg_state \<Rightarrow> pg_state" where
  "upd_sect x f s = s\<lparr>sections := (sections s)(x := f (sections s x))\<rparr>"

text \<open>The entry of an address, and a store to it.\<close>

definition pte_at :: "nat \<Rightarrow> u64 \<Rightarrow> pg_state \<Rightarrow> (u64 \<times> nat) option option" where
  "pte_at pd va s = map_option fst (get_pte pd va False (vm s))"

definition read_pte :: "u64 \<times> nat \<Rightarrow> pg_state \<Rightarrow> u64" where
  "read_pte e s = tab (vm s) (fst e) (snd e)"

definition store_pte :: "u64 \<times> nat \<Rightarrow> u64 \<Rightarrow> pg_state \<Rightarrow> pg_state" where
  "store_pte e v s = s\<lparr>vm := set_pte e v (vm s)\<rparr>"

definition free_frame :: "u64 \<Rightarrow> pg_state \<Rightarrow> pg_state" where
  "free_frame a s = s\<lparr>vm := free_page a (vm s)\<rparr>"

definition release_swap :: "u64 \<Rightarrow> pg_state \<Rightarrow> pg_state" where
  "release_swap pte s = s\<lparr>bcache := release_8_blocks (ucast (drop_bit 12 pte)) (bcache s)\<rparr>"

definition map_page :: "nat \<Rightarrow> u64 \<Rightarrow> u64 \<Rightarrow> u64 \<Rightarrow> pg_state \<Rightarrow> pg_state option" where
  "map_page pd va ka attr s = map_option (\<lambda>v. s\<lparr>vm := v\<rparr>) (vmmap pd va ka attr (vm s))"

definition acquire_section :: "nat \<Rightarrow> pg_state \<Rightarrow> pg_state option" where
  "acquire_section x s =
     (if slock (sections s x) - 1 \<ge> 0 then Some (upd_sect x (\<lambda>t. t\<lparr>slock := slock t - 1\<rparr>) s) else None)"

definition release_section :: "nat \<Rightarrow> pg_state \<Rightarrow> pg_state" where
  "release_section x = upd_sect x (\<lambda>t. t\<lparr>slock := slock t + 1\<rparr>)"

text \<open>\<^verbatim>\<open>for (va = begin; va <= end; va += PAGE_SIZE)\<close>; it does not end when \<open>end\<close> is in the last page of all.\<close>

partial_function (option) page_loop :: "(u64 \<Rightarrow> pg_state \<Rightarrow> pg_state option) \<Rightarrow> u64 \<Rightarrow> u64 \<Rightarrow> pg_state \<Rightarrow> pg_state option" where
  "page_loop f va stop s = (if va \<le> stop then do { s \<leftarrow> f va s; page_loop f (va + 4096) stop s } else Some s)"

section \<open>Pages on the disk\<close>

definition write_block_of_page :: "nat \<Rightarrow> u64 \<Rightarrow> nat \<Rightarrow> nat \<Rightarrow> pg_state \<Rightarrow> pg_state option" where
  "write_block_of_page cpu ka first_bno i s = do {
     (bp, c) \<leftarrow> cache_acquire (first_bno + i) (bcache s);
     let p = procs s;
     let s = s\<lparr>bcache := c, procs := p\<lparr>sch := attach_pgdir cpu (cpu_proc (sch p) cpu) (sch p)\<rparr>\<rparr>;
     pte \<leftarrow> pte_at (this_pgdir cpu s) (ka + of_nat (i * BLOCK_SIZE)) s;
     s \<leftarrow> (case pte of None \<Rightarrow> Some s
        | Some e \<Rightarrow>
            if read_pte e s \<noteq> 0 then do {
              let c = set_data bp (take BLOCK_SIZE (frame s (P2K (PTE_ADDRESS (read_pte e s))))) (bcache s);
              (ctx, c) \<leftarrow> cache_sync None bp c;
              Some (s\<lparr>bcache := c\<rparr>) }
            else Some s);
     Some (s\<lparr>bcache := cache_release bp (bcache s)\<rparr>) }"

definition write_page_to_disk :: "nat \<Rightarrow> u64 \<Rightarrow> pg_state \<Rightarrow> (nat \<times> pg_state) option" where
  "write_page_to_disk cpu ka s = do {
     (first_bno, c) \<leftarrow> find_and_set_8_blocks (bcache s);
     s \<leftarrow> for_each (write_block_of_page cpu ka first_bno) [0..<8] (s\<lparr>bcache := c\<rparr>);
     Some (first_bno, s) }"

definition read_block_of_page :: "u64 \<Rightarrow> nat \<Rightarrow> nat \<Rightarrow> pg_state \<Rightarrow> pg_state option" where
  "read_block_of_page ka bno i s = do {
     (bp, c) \<leftarrow> cache_acquire (bno + i) (bcache s);
     let f = frame s ka;
     Some (s\<lparr>frame := (frame s)(ka := take (i * BLOCK_SIZE) f @ block.data (blk c bp) @ drop ((i + 1) * BLOCK_SIZE) f),
       bcache := cache_release bp c\<rparr>) }"

definition read_page_from_disk :: "u64 \<Rightarrow> nat \<Rightarrow> pg_state \<Rightarrow> pg_state option" where
  "read_page_from_disk ka bno s =
     (if ka AND KSPACE_MASK = 0 then None else for_each (read_block_of_page ka bno) [0..<8] s)"

section \<open>Swapping a section out\<close>

definition invalidate :: "nat \<Rightarrow> u64 \<Rightarrow> pg_state \<Rightarrow> pg_state option" where
  "invalidate pd va s = do {
     pte \<leftarrow> pte_at pd va s;
     case pte of Some e \<Rightarrow> Some (if read_pte e s \<noteq> 0 then store_pte e (read_pte e s AND NOT PTE_VALID) s else s)
     | None \<Rightarrow> Some s }"

definition out_page :: "nat \<Rightarrow> nat \<Rightarrow> u64 \<Rightarrow> pg_state \<Rightarrow> pg_state option" where
  "out_page cpu pd va s = do {
     pte \<leftarrow> pte_at pd va s;
     case pte of Some e \<Rightarrow>
         if read_pte e s \<noteq> 0 then do {
           (bno, s) \<leftarrow> write_page_to_disk cpu va s;
           let s = free_frame (P2K (PTE_ADDRESS (read_pte e s))) s;
           Some (store_pte e (ucast (push_bit 12 (of_nat bno :: u32) AND NOT 1)) s) }
         else Some s
     | None \<Rightarrow> Some s }"

definition swapout :: "nat \<Rightarrow> nat \<Rightarrow> nat \<Rightarrow> pg_state \<Rightarrow> pg_state option" where
  "swapout cpu pd st s =
     (if this_pgdir cpu s \<noteq> pd \<and> online (sch (procs s)) (of_nat pd) then None
      else if sflags (sections s st) AND ST_SWAP \<noteq> 0 then None
      else do {
        let s = upd_sect st (\<lambda>t. t\<lparr>sflags := sflags t OR ST_SWAP\<rparr>) s;
        let b = sbegin (sections s st);
        let e = send (sections s st);
        s \<leftarrow> page_loop (invalidate pd) b e s;
        s \<leftarrow> acquire_section st s;
        s \<leftarrow> (if sflags (sections s st) AND ST_FILE = 0 then page_loop (out_page cpu pd) b e s else Some s);
        Some (release_section st s) })"

text \<open>
  The loop of \<^verbatim>\<open>alloc_page_for_user\<close>; \<open>start\<close> and \<open>stop\<close> bound the memory. The inner loop asks for an
  offline process again when that process has no section, which changes nothing.
\<close>

partial_function (option) alloc_page_for_user :: "nat \<Rightarrow> nat \<Rightarrow> nat \<Rightarrow> pg_state \<Rightarrow> (u64 \<times> pg_state) option" where
  "alloc_page_for_user start stop cpu s =
     (if (of_int (left_page_cnt start stop (pages (vm s))) :: u64) \<le> REVERSED_PAGES then do {
        p \<leftarrow> get_offline_proc (procs s);
        if section_list s (unat p) = [] then None
        else do {
          s \<leftarrow> swapout cpu (unat p) (last (section_list s (unat p))) s;
          alloc_page_for_user start stop cpu s } }
      else
        let (p, m) = kalloc_page (pages (vm s))
        in Some (of_nat p, s\<lparr>vm := (vm s)\<lparr>pages := m\<rparr>\<rparr>))"

section \<open>Swapping in and page faults\<close>

definition in_page :: "nat \<Rightarrow> nat \<Rightarrow> nat \<Rightarrow> nat \<Rightarrow> u64 \<Rightarrow> pg_state \<Rightarrow> pg_state option" where
  "in_page start stop cpu pd va s = do {
     pte \<leftarrow> pte_at pd va s;
     case pte of Some e \<Rightarrow>
         if read_pte e s \<noteq> 0 then do {
           (page, s) \<leftarrow> alloc_page_for_user start stop cpu s;
           s \<leftarrow> read_page_from_disk page (unat (ucast (drop_bit 12 (read_pte e s)) :: u32)) s;
           let s = release_swap (read_pte e s) s;
           map_page pd va page PTE_USER_DATA s }
         else Some s
     | None \<Rightarrow> Some s }"

definition revalidate :: "nat \<Rightarrow> u64 \<Rightarrow> pg_state \<Rightarrow> pg_state option" where
  "revalidate pd va s = do {
     pte \<leftarrow> pte_at pd va s;
     case pte of Some e \<Rightarrow> Some (if read_pte e s \<noteq> 0 then store_pte e (read_pte e s OR PTE_VALID) s else s)
     | None \<Rightarrow> Some s }"

definition swapin :: "nat \<Rightarrow> nat \<Rightarrow> nat \<Rightarrow> nat \<Rightarrow> nat \<Rightarrow> pg_state \<Rightarrow> pg_state option" where
  "swapin start stop cpu pd st s =
     (if sflags (sections s st) AND ST_SWAP = 0 then None
      else do {
        s \<leftarrow> acquire_section st s;
        s \<leftarrow> page_loop (in_page start stop cpu pd) (sbegin (sections s st)) (send (sections s st)) s;
        let s = release_section st s;
        s \<leftarrow> page_loop (revalidate pd) (sbegin (sections s st)) (send (sections s st)) s;
        Some (upd_sect st (\<lambda>t. t\<lparr>sflags := sflags t AND NOT ST_SWAP\<rparr>) s) })"

definition lazy_map :: "nat \<Rightarrow> nat \<Rightarrow> nat \<Rightarrow> nat \<Rightarrow> u64 \<Rightarrow> pg_state \<Rightarrow> pg_state option" where
  "lazy_map start stop cpu pd va s = do {
     (page, s) \<leftarrow> alloc_page_for_user start stop cpu s;
     map_page pd va page (PTE_USER_DATA OR PTE_RW) s }"

definition pgfault :: "nat \<Rightarrow> nat \<Rightarrow> nat \<Rightarrow> u64 \<Rightarrow> pg_state \<Rightarrow> (int \<times> pg_state) option" where
  "pgfault start stop cpu addr s =
     (let pd = this_pgdir cpu s in do {
        st \<leftarrow> List.find (\<lambda>x. sbegin (sections s x) \<le> addr \<and> addr < send (sections s x)) (section_list s pd);
        pte \<leftarrow> pte_at pd addr s;
        let v = (case pte of None \<Rightarrow> 0 | Some e \<Rightarrow> read_pte e s);
        if v = 0 then
          if sflags (sections s st) AND ST_SWAP \<noteq> 0 then map_option (Pair 0) (swapin start stop cpu pd st s)
          else map_option (Pair 0) (lazy_map start stop cpu pd addr s)
        else if v AND PTE_RO \<noteq> 0 then
          map_option (Pair 0) (lazy_map start stop cpu pd addr (free_frame (P2K (PTE_ADDRESS v)) s))
        else if v AND PTE_VALID = 0 then
          if sflags (sections s st) AND ST_SWAP \<noteq> 0 then map_option (Pair 0) (swapin start stop cpu pd st s)
          else map_option (Pair 0) (lazy_map start stop cpu pd addr s)
        else Some (-1, s) })"

section \<open>The heap and the life of an address space\<close>

definition drop_page :: "nat \<Rightarrow> u64 \<Rightarrow> pg_state \<Rightarrow> pg_state option" where
  "drop_page pd va s = do {
     pte \<leftarrow> pte_at pd va s;
     case pte of Some e \<Rightarrow>
         let v = read_pte e s;
             s = (if v \<noteq> 0 \<and> v AND PTE_VALID = 0 then release_swap v s
                  else if v \<noteq> 0 \<and> v AND PTE_VALID \<noteq> 0 then free_frame (P2K (PTE_ADDRESS v)) s
                  else s)
         in Some (store_pte e 0 s)
     | None \<Rightarrow> Some s }"

partial_function (option) sbrk_loop :: "nat \<Rightarrow> nat \<Rightarrow> 64 word \<Rightarrow> pg_state \<Rightarrow> pg_state option" where
  "sbrk_loop pd st sz s =
     (if sint sz > 0 then do {
        let s = upd_sect st (\<lambda>t. t\<lparr>send := send t - 4096\<rparr>) s;
        s \<leftarrow> drop_page pd (send (sections s st)) s;
        sbrk_loop pd st (sz - 4096) s }
      else Some s)"

definition sbrk :: "nat \<Rightarrow> 64 word \<Rightarrow> pg_state \<Rightarrow> (u64 \<times> pg_state) option" where
  "sbrk cpu n s =
     (let pd = this_pgdir cpu s in do {
        st \<leftarrow> List.find (\<lambda>x. sflags (sections s x) AND ST_HEAP \<noteq> 0) (section_list s pd);
        let ret_addr = send (sections s st);
        let sz = n * 4096;
        if sint n \<ge> 0 then Some (ret_addr, upd_sect st (\<lambda>t. t\<lparr>send := send t + sz\<rparr>) s)
        else
          let sz = - sz in
          if sint sz \<le> sint (send (sections s st) - sbegin (sections s st))
          then map_option (Pair ret_addr) (sbrk_loop pd st sz s)
          else None })"

definition init_sections :: "nat \<Rightarrow> nat \<Rightarrow> pg_state \<Rightarrow> pg_state option" where
  "init_sections cpu pd s = do {
     (x, m) \<leftarrow> kalloc cpu sizeof_section (pages (vm s));
     if x = 0 then None
     else Some (s\<lparr>vm := (vm s)\<lparr>pages := m\<rparr>,
       sections := (sections s)(x := \<lparr>sflags = 0 OR ST_HEAP, slock = 1, sbegin = 0, send = 0\<rparr>),
       section_list := (section_list s)(pd := section_list s pd @ [x])\<rparr>) }"

definition init_pgdir :: "nat \<Rightarrow> nat \<Rightarrow> pg_state \<Rightarrow> pg_state option" where
  "init_pgdir cpu pd s = do {
     s \<leftarrow> init_sections cpu pd (s\<lparr>vm := (vm s)\<lparr>pgdir_root := (pgdir_root (vm s))(pd := 0)\<rparr>,
       section_list := (section_list s)(pd := [])\<rparr>);
     (pte, v) \<leftarrow> get_pte pd 0 True (vm s);
     if pte = None then None else Some (s\<lparr>vm := v\<rparr>) }"

text \<open>One round of the inner loop of \<^verbatim>\<open>free_sections\<close>, the loop, and the removal of the section.\<close>

definition free_user_page :: "nat \<Rightarrow> u64 \<Rightarrow> pg_state \<Rightarrow> pg_state option" where
  "free_user_page pd va s = do {
     pte \<leftarrow> pte_at pd va s;
     case pte of Some e \<Rightarrow>
         let v = read_pte e s in
         Some (if v AND PTE_VALID = 0 \<and> v \<noteq> 0 then release_swap v s else free_frame (P2K (PTE_ADDRESS v)) s)
     | None \<Rightarrow> Some s }"

partial_function (option) free_loop :: "nat \<Rightarrow> u64 \<Rightarrow> u64 \<Rightarrow> pg_state \<Rightarrow> pg_state option" where
  "free_loop pd va stop s = (if va < stop then do { s \<leftarrow> free_user_page pd va s; free_loop pd (va + 4096) stop s } else Some s)"

definition free_section :: "nat \<Rightarrow> nat \<Rightarrow> nat \<Rightarrow> pg_state \<Rightarrow> pg_state option" where
  "free_section cpu pd x s = do {
     s \<leftarrow> free_loop pd (sbegin (sections s x)) (send (sections s x)) s;
     m \<leftarrow> kfree cpu x (pages (vm s));
     Some (s\<lparr>section_list := (section_list s)(pd := remove1 x (section_list s pd)), vm := (vm s)\<lparr>pages := m\<rparr>\<rparr>) }"

definition free_sections :: "nat \<Rightarrow> nat \<Rightarrow> pg_state \<Rightarrow> pg_state option" where
  "free_sections cpu pd s = for_each (free_section cpu pd) (section_list s pd) s"

definition free_pgdir :: "nat \<Rightarrow> nat \<Rightarrow> pg_state \<Rightarrow> pg_state option" where
  "free_pgdir cpu pd s = do {
     s \<leftarrow> free_sections cpu pd s;
     Some (if pgdir_root (vm s) pd = 0 then s else s\<lparr>vm := free_pt_r 3 (pgdir_root (vm s) pd) (vm s)\<rparr>) }"

declare page_loop.simps [code] alloc_page_for_user.simps [code] sbrk_loop.simps [code] free_loop.simps [code]

end
