(* ===== verification/Paging_Proofs.thy ===== *)
theory Paging_Proofs
  imports Paging Proc_Safety
begin

text \<open>What \<^verbatim>\<open>sbrk\<close>, page faults and the transfer of pages to the swap area do to an address space.\<close>

section \<open>Reading the entry of an address\<close>

lemma pte_at_read:
  assumes "vm_inv (vm s) pd ps"
  obtains (none) "pte_at pd va s = Some None" "pte_value (vm s) pd va = 0"
  | (entry) e where "pte_at pd va s = Some (Some e)" "read_pte e s = pte_value (vm s) pd va"
      "e = (leaf (tab (vm s)) (pgdir_root (vm s) pd) (vpn va), VA_PART3 va)"
      "pgdir_root (vm s) pd \<noteq> 0" "hits (tab (vm s)) (pgdir_root (vm s) pd) (vpn va)"
proof (cases "pgdir_root (vm s) pd = 0")
  case True
  then have "pte_at pd va s = Some None" "pte_value (vm s) pd va = 0" by (simp_all add: pte_at_def pte_value_def get_pte_def get_pt0_def)
  then show thesis by (rule none)
next
  case False
  let ?r = "pgdir_root (vm s) pd"
  have ok: "pt_ok 3 (tab (vm s)) ?r" using assms False by (simp add: vm_inv_def)
  note g = get_pte_read [OF ok False, of va]
  show thesis
  proof (cases "hits (tab (vm s)) ?r (vpn va)")
    case True
    then show thesis using g False by (intro entry) (auto simp: pte_at_def read_pte_def pte_value_def)
  next
    case miss: False
    then show thesis using g by (intro none) (auto simp: pte_at_def pte_value_def)
  qed
qed

lemma pte_at_page:
  assumes "vm_inv (vm s) pd ps" and "vpn va = vpn wa"
  shows "pte_at pd va s = pte_at pd wa s"
proof (cases "pgdir_root (vm s) pd = 0")
  case True
  then show ?thesis by (simp add: pte_at_def get_pte_def get_pt0_def)
next
  case False
  then have ok: "pt_ok 3 (tab (vm s)) (pgdir_root (vm s) pd)" using assms(1) by (simp add: vm_inv_def)
  have "VA_PART3 va = VA_PART3 wa" using arg_cong [OF assms(2), of last] by (simp add: vpn_def)
  then show ?thesis using get_pte_read [OF ok False, of va] get_pte_read [OF ok False, of wa] assms(2) by (simp add: pte_at_def)
qed

lemma block_in_page:
  assumes "va AND 0xFFF = 0" and "i < 8"
  shows "vpn (va + of_nat (i * BLOCK_SIZE)) = vpn va"
proof -
  let ?x = "of_nat (i * BLOCK_SIZE) :: u64"
  have i: "i = 0 \<or> i = 1 \<or> i = 2 \<or> i = 3 \<or> i = 4 \<or> i = 5 \<or> i = 6 \<or> i = 7" using assms(2) by auto
  have x: "0xFFF AND ?x = ?x" "?x AND 0xFFFFFFFFF000 = 0" using i by auto
  have "va AND ?x = (va AND 0xFFF) AND ?x" using x(1) by (simp add: and.assoc)
  then have "va AND ?x = 0" using assms(1) by simp
  then have "va + ?x = va OR ?x" by (intro disjunctive_add) (metis bit_0_eq bit_and_iff bot_apply bot_bool_def)
  then show ?thesis using x(2) unfolding vpn_eq_iff by (simp add: bit.conj_disj_distrib2)
qed

section \<open>Pages on the disk\<close>

lemma write_block_ok:
  assumes inv: "vm_inv (vm s) (this_pgdir cpu s) ps" "cache_inv None (bcache s)" "\<And>q. \<not> holds (bcache s) q (b + i)"
    and pte: "pte_value (vm s) (this_pgdir cpu s) va = v" "v \<noteq> 0" "va AND 0xFFF = 0" "i < 8"
    and len: "BLOCK_SIZE \<le> length (frame s (P2K (PTE_ADDRESS v)))"
  shows "\<exists>s'. write_block_of_page cpu va b i s = Some s' \<and> vm s' = vm s \<and> frame s' = frame s \<and> this_pgdir cpu s' = this_pgdir cpu s \<and>
    cache_inv None (bcache s') \<and> holds (bcache s') = holds (bcache s) \<and>
    content (bcache s') = (content (bcache s))(b + i := take BLOCK_SIZE (frame s (P2K (PTE_ADDRESS v))))"
proof -
  let ?d = "take BLOCK_SIZE (frame s (P2K (PTE_ADDRESS v)))"
  obtain p c where a: "cache_acquire (b + i) (bcache s) = Some (p, c)" "cache_inv None c" "content c = content (bcache s)"
      "holds c = (\<lambda>q d. holds (bcache s) q d \<or> q = p \<and> d = b + i)" using acquire_inv [OF inv(2,3)] by auto
  let ?s = "s\<lparr>bcache := c, procs := (procs s)\<lparr>sch := attach_pgdir cpu (cpu_proc (sch (procs s)) cpu) (sch (procs s))\<rparr>\<rparr>"
  have me: "this_pgdir cpu ?s = this_pgdir cpu s" by (simp add: this_pgdir_def attach_pgdir_def Let_def)
  have "pte_at (this_pgdir cpu ?s) (va + of_nat (i * BLOCK_SIZE)) ?s = pte_at (this_pgdir cpu s) va s"
    using pte_at_page [OF inv(1) block_in_page [OF pte(3,4)]] me by (simp add: pte_at_def)
  moreover obtain e where e: "pte_at (this_pgdir cpu s) va s = Some (Some e)" "read_pte e s = v"
    using pte(1,2) by (cases rule: pte_at_read [OF inv(1), of va]) auto
  moreover have "read_pte e ?s = read_pte e s" by (simp add: read_pte_def)
  ultimately have rd: "pte_at (this_pgdir cpu ?s) (va + of_nat (i * BLOCK_SIZE)) ?s = Some (Some e)" "read_pte e ?s = v" by simp_all
  have h: "holds c p (b + i)" using a(4) by simp
  have ld: "length ?d = BLOCK_SIZE" using len by simp
  note w = put_inv [OF a(2) h ld]
  have h2: "holds (set_data p ?d c) p (b + i)" using w h by simp
  obtain c3 where c3: "cache_sync None p (set_data p ?d c) = Some (charge None (b + i) (log_list (set_data p ?d c)), c3)"
      "cache_inv None c3" "content c3 = content (set_data p ?d c)" "holds c3 = holds c" "saved c3 (b + i)"
    using sync_inv [OF conjunct1 [OF w] h2] w by (auto simp: has_room_def charge_def)
  have h3: "holds c3 p (b + i)" using c3(4) h by simp
  note r = release_inv [OF c3(2) h3 c3(5)]
  have nh: "\<not> holds (bcache s) p d" for d
  proof
    assume "holds (bcache s) p d"
    then have "holds c p d" using a(4) by simp
    then have "d = b + i" using h by (simp add: holds_def)
    then show False using \<open>holds (bcache s) p d\<close> inv(3) by blast
  qed
  have run: "write_block_of_page cpu va b i s = Some (?s\<lparr>bcache := cache_release p c3\<rparr>)"
    using a(1) rd c3(1) pte(2) unfolding write_block_of_page_def by (simp add: Let_def)
  have "holds (cache_release p c3) = holds (bcache s)"
    using r c3(4) a(4) nh by (auto simp: fun_eq_iff)
  then show ?thesis using run r c3(3) w a(3) me by (auto simp: this_pgdir_def)
qed

lemma write_page_ok:
  assumes inv: "vm_inv (vm s) (this_pgdir cpu s) ps" "cache_inv None (bcache s)" "Block_Cache.held (bcache s) = {}"
    and pte: "pte_value (vm s) (this_pgdir cpu s) va = v" "v \<noteq> 0" "va AND 0xFFF = 0"
    and len: "BLOCK_SIZE \<le> length (frame s (P2K (PTE_ADDRESS v)))" and run: "first_run (swap_valid (bcache s)) = Some l"
  shows "\<exists>s'. write_page_to_disk cpu va s = Some (SWAP_START + l, s') \<and> vm s' = vm s \<and> frame s' = frame s \<and>
    cache_inv None (bcache s') \<and> Block_Cache.held (bcache s') = {} \<and>
    content (bcache s') = (\<lambda>b. if SWAP_START + l \<le> b \<and> b < SWAP_START + l + 8 then take BLOCK_SIZE (frame s (P2K (PTE_ADDRESS v))) else content (bcache s) b)"
proof -
  let ?b = "SWAP_START + l" and ?d = "take BLOCK_SIZE (frame s (P2K (PTE_ADDRESS v)))"
  let ?c = "(bcache s)\<lparr>swap_valid := fill_run l True (swap_valid (bcache s))\<rparr>"
  have find: "find_and_set_8_blocks (bcache s) = Some (?b, ?c)" using run by (simp add: find_and_set_eq)
  have c: "cache_inv None ?c" "holds ?c = holds (bcache s)" "content ?c = content (bcache s)"
    using inv(2) by (simp_all add: cache_inv_def cache_wf_def log_wf_def block_ok_def log_list_def pins_def holds_def content_def cache_lookup_def fun_eq_iff split: option.split)
  have nh: "\<not> holds (bcache s) q b" for q b using inv(3) by (auto simp: Block_Cache.held_def)
  let ?P = "\<lambda>i t. vm t = vm s \<and> frame t = frame s \<and> this_pgdir cpu t = this_pgdir cpu s \<and> cache_inv None (bcache t) \<and> holds (bcache t) = holds (bcache s) \<and>
    content (bcache t) = (\<lambda>b. if ?b \<le> b \<and> b < ?b + i then ?d else content (bcache s) b)"
  have "\<exists>t. for_each (write_block_of_page cpu va ?b) [0..<8] (s\<lparr>bcache := ?c\<rparr>) = Some t \<and> ?P (length [0..<8 :: nat]) t"
  proof (rule for_each_rule)
    show "?P 0 (s\<lparr>bcache := ?c\<rparr>)" using c by (auto simp: this_pgdir_def fun_eq_iff)
  next
    fix i t assume i: "i < length [0..<8 :: nat]" and t: "?P i t"
    have i8: "[0..<8] ! i = i" "i < 8" using i by simp_all
    obtain t' where "write_block_of_page cpu va ?b i t = Some t'" "vm t' = vm t" "frame t' = frame t" "this_pgdir cpu t' = this_pgdir cpu t"
        "cache_inv None (bcache t')" "holds (bcache t') = holds (bcache t)" "content (bcache t') = (content (bcache t))(?b + i := ?d)"
      using write_block_ok [of t cpu ps ?b i va v] t inv(1) pte len nh i8(2) by auto
    then show "\<exists>t'. write_block_of_page cpu va ?b ([0..<8] ! i) t = Some t' \<and> ?P (Suc i) t'"
      using t by (intro exI [of _ t']) (auto simp: i8(1) fun_eq_iff)
  qed
  then obtain t where t: "for_each (write_block_of_page cpu va ?b) [0..<8] (s\<lparr>bcache := ?c\<rparr>) = Some t" "?P 8 t" by auto
  then show ?thesis using find inv(3) unfolding write_page_to_disk_def by (intro exI [of _ t]) (simp add: Block_Cache.held_def)
qed

lemma read_page_ok:
  assumes inv: "cache_inv None (bcache s)" "Block_Cache.held (bcache s) = {}" and ka: "ka AND KSPACE_MASK \<noteq> 0" "length (frame s ka) = 8 * BLOCK_SIZE"
  shows "\<exists>s'. read_page_from_disk ka bno s = Some s' \<and> vm s' = vm s \<and> cache_inv None (bcache s') \<and> content (bcache s') = content (bcache s) \<and>
    frame s' = (frame s)(ka := concat (map (\<lambda>i. content (bcache s) (bno + i)) [0..<8]))"
proof -
  let ?f = "\<lambda>i. concat (map (\<lambda>i. content (bcache s) (bno + i)) [0..<i]) @ drop (i * BLOCK_SIZE) (frame s ka)"
  let ?P = "\<lambda>i t :: pg_state. vm t = vm s \<and> cache_inv None (bcache t) \<and> holds (bcache t) = holds (bcache s) \<and> content (bcache t) = content (bcache s) \<and>
    frame t = (frame s)(ka := ?f i)"
  have nh: "\<not> holds (bcache s) q b" for q b using inv(2) by (auto simp: Block_Cache.held_def)
  have cl: "length (content (bcache s) b) = BLOCK_SIZE" for b using inv(1) by (simp add: cache_inv_def length_content)
  have lc: "length (concat (map (\<lambda>i. content (bcache s) (bno + i)) [0..<i])) = i * BLOCK_SIZE" for i
    by (induction i) (simp_all add: cl)
  have "\<exists>t. for_each (read_block_of_page ka bno) [0..<8] s = Some t \<and> ?P (length [0..<8 :: nat]) t"
  proof (rule for_each_rule)
    show "?P 0 s" using inv by simp
  next
    fix i and t :: pg_state assume i: "i < length [0..<8 :: nat]" and t: "?P i t"
    have i8: "[0..<8] ! i = i" "i < 8" using i by simp_all
    obtain p c where a: "cache_acquire (bno + i) (bcache t) = Some (p, c)" "cache_inv None c" "content c = content (bcache t)"
        "holds c = (\<lambda>q d. holds (bcache t) q d \<or> q = p \<and> d = bno + i)" "saved c (bno + i)"
      using acquire_inv [of None "bcache t" "bno + i"] t nh by fastforce
    have h: "holds c p (bno + i)" using a(4) by simp
    note r = release_inv [OF a(2) h a(5)]
    have dt: "block.data (blk c p) = content (bcache s) (bno + i)" using holds_content [OF _ h] a(2,3) t by (simp add: cache_inv_def)
    have fr: "take (i * BLOCK_SIZE) (?f i) @ content (bcache s) (bno + i) @ drop ((i + 1) * BLOCK_SIZE) (?f i) = ?f (Suc i)"
      by (simp add: lc)
    have hr: "holds (cache_release p c) = holds (bcache s)" using r a(4) t nh by (auto simp: fun_eq_iff)
    show "\<exists>t'. read_block_of_page ka bno ([0..<8] ! i) t = Some t' \<and> ?P (Suc i) t'"
      using a(1,3) t r hr fr dt by (simp add: read_block_of_page_def i8(1) Let_def)
  qed
  then show ?thesis using ka by (auto simp: read_page_from_disk_def)
qed

text \<open>
  (C37) A page of the running process that \<^verbatim>\<open>write_page_to_disk\<close> saves goes to the lowest eight free swap
  blocks and no other block changes. All eight blocks receive the first 512 bytes of the page, so that
  \<^verbatim>\<open>read_page_from_disk\<close> gives back these bytes eight times: the rest of the page is lost.
\<close>

theorem swap_page_roundtrip:
  assumes "vm_inv (vm s) (this_pgdir cpu s) ps" and "cache_inv None (bcache s)" and "Block_Cache.held (bcache s) = {}"
    and "pte_value (vm s) (this_pgdir cpu s) va = v" "v \<noteq> 0" "va AND 0xFFF = 0" and "length (frame s (P2K (PTE_ADDRESS v))) = 8 * BLOCK_SIZE"
    and "first_run (swap_valid (bcache s)) = Some l" and "ka AND KSPACE_MASK \<noteq> 0" "length (frame s ka) = 8 * BLOCK_SIZE"
  shows "\<exists>s1 s2. write_page_to_disk cpu va s = Some (SWAP_START + l, s1) \<and> vm s1 = vm s \<and> frame s1 = frame s \<and>
    (\<forall>b. content (bcache s1) b = (if SWAP_START + l \<le> b \<and> b < SWAP_START + l + 8 then take BLOCK_SIZE (frame s (P2K (PTE_ADDRESS v))) else content (bcache s) b)) \<and>
    read_page_from_disk ka (SWAP_START + l) s1 = Some s2 \<and> vm s2 = vm s \<and>
    frame s2 = (frame s)(ka := concat (replicate 8 (take BLOCK_SIZE (frame s (P2K (PTE_ADDRESS v))))))"
proof -
  let ?d = "take BLOCK_SIZE (frame s (P2K (PTE_ADDRESS v)))"
  obtain s1 where s1: "write_page_to_disk cpu va s = Some (SWAP_START + l, s1)" "vm s1 = vm s" "frame s1 = frame s" "cache_inv None (bcache s1)" "Block_Cache.held (bcache s1) = {}"
      "content (bcache s1) = (\<lambda>b. if SWAP_START + l \<le> b \<and> b < SWAP_START + l + 8 then ?d else content (bcache s) b)"
    using write_page_ok [OF assms(1-6) _ assms(8)] assms(7) by auto
  have f: "length (frame s1 ka) = 8 * BLOCK_SIZE" using s1(3) assms(10) by simp
  obtain s2 where s2: "read_page_from_disk ka (SWAP_START + l) s1 = Some s2" "vm s2 = vm s1"
      "frame s2 = (frame s1)(ka := concat (map (\<lambda>i. content (bcache s1) (SWAP_START + l + i)) [0..<8]))"
    using read_page_ok [OF s1(4,5) assms(9) f, of "SWAP_START + l"] by blast
  have "map (\<lambda>i. content (bcache s1) (SWAP_START + l + i)) [0..<8] = replicate 8 ?d" by (simp add: s1(6) list_eq_iff_nth_eq)
  then have "frame s2 = (frame s)(ka := concat (replicate 8 ?d))" using s2(3) s1(3) by simp
  then show ?thesis using s1 s2(1,2) by auto
qed

section \<open>Changing one entry\<close>

lemma dest_is_kaddr: "kaddr (dest e)"
  unfolding kaddr_def dest_bits by (intro conjI bit_word_eqI) (auto simp: bit_simps bit_masks)

lemma set_leaf_ok:
  assumes inv: "vm_inv s pd ps" and r: "r = pgdir_root s pd" "r \<noteq> 0" and h: "hits (tab s) r (vpn va)"
    and s': "s' = set_pte (leaf (tab s) r (vpn va), VA_PART3 va) x s"
  shows "vm_inv s' pd ps \<and> tables s' pd = tables s pd \<and> pages s' = pages s \<and> pgdir_root s' = pgdir_root s \<and>
    (\<forall>wa. pte_value s' pd wa = (if vpn wa = vpn va then x else pte_value s pd wa))"
proof -
  have ok: "pt_ok 3 (tab s) r" using inv r by (simp add: vm_inv_def)
  have l: "last (vpn va) = VA_PART3 va" by (simp add: vpn_def)
  have tabs': "tab s' = (tab s)(leaf (tab s) r (vpn va) := (tab s (leaf (tab s) r (vpn va)))(last (vpn va) := x))"
    unfolding l by (simp add: s' set_pte_def)
  have o: "pgdir_root s' = pgdir_root s" "pages s' = pages s" by (simp_all add: s' set_pte_def)
  note u = leaf_update [OF ok indices_vpn h tabs']
  have inv': "vm_inv s' pd ps" using inv r u o unfolding vm_inv_def pool_def by auto
  have "pte_value s' pd wa = (if vpn wa = vpn va then x else pte_value s pd wa)" for wa
    using pte_value_walk [OF inv', of wa] pte_value_walk [OF inv, of wa] u indices_vpn [of wa] r o by simp
  then show ?thesis using inv' u o r by (simp add: tables_def)
qed

text \<open>The page behind an entry that is in use: not free, no table, not the zero page.\<close>

definition in_use :: "vm_state \<Rightarrow> nat \<Rightarrow> nat list \<Rightarrow> u64 \<Rightarrow> bool" where
  "in_use s pd ps v \<longleftrightarrow> dest v \<notin> pool_set ps \<and> dest v \<notin> tables s pd \<and> dest v \<noteq> of_nat (zero_page (pages s))"

lemma free_in_use:
  assumes inv: "vm_inv s pd ps" and use: "in_use s pd ps v"
  shows "vm_inv (free_page (dest v) s) pd (unat (dest v) # ps) \<and> pool_set (unat (dest v) # ps) = insert (dest v) (pool_set ps) \<and>
    tables (free_page (dest v) s) pd = tables s pd \<and> (\<forall>wa. pte_value (free_page (dest v) s) pd wa = pte_value s pd wa)"
proof -
  let ?s = "free_page (dest v) s"
  have pl: "pool s ps" using inv by (simp add: vm_inv_def)
  have f: "pool ?s (unat (dest v) # ps)" "tab ?s = tab s" "pgdir_root ?s = pgdir_root s" "zero_page (pages ?s) = zero_page (pages s)"
    using free_page_ok [OF pl dest_is_kaddr, of v] use by (auto simp: in_use_def)
  have ps: "pool_set (unat (dest v) # ps) = insert (dest v) (pool_set ps)" by (simp add: pool_set_def)
  have inv': "vm_inv ?s pd (unat (dest v) # ps)" using inv f use unfolding vm_inv_def ps by (auto simp: in_use_def tables_def)
  have "pte_value ?s pd wa = pte_value s pd wa" for wa using pte_value_walk [OF inv'] pte_value_walk [OF inv] f by simp
  then show ?thesis using inv' ps f by (simp add: tables_def)
qed

section \<open>The heap\<close>

lemma sint_int: "- (2 ^ 63) \<le> i \<Longrightarrow> i < 2 ^ 63 \<Longrightarrow> sint (word_of_int i :: u64) = i"
  unfolding sint_sbintrunc' by (simp add: signed_take_bit_int_eq_self)

lemma sint_small: "x < 2 ^ 63 \<Longrightarrow> sint (of_nat x :: u64) = int x"
  using sint_int [of "int x"] by simp

lemma sint_neg: "0 < x \<Longrightarrow> x < 2 ^ 63 \<Longrightarrow> sint (- of_nat x :: u64) < 0"
  using sint_int [of "- int x"] by simp

lemma aligned_iff: "(x :: u64) AND 0xFFF = 0 \<longleftrightarrow> 4096 dvd unat x"
proof -
  have "(0xFFF :: u64) = mask 12" by (simp add: mask_eq_exp_minus_1)
  then have "x AND 0xFFF = take_bit 12 x" by (simp add: take_bit_eq_mask)
  then have "x AND 0xFFF = 0 \<longleftrightarrow> unat (take_bit 12 x) = 0" by (simp only: unat_eq_0)
  also have "unat (take_bit 12 x) = unat x mod 4096" by (simp only: unsigned_take_bit_eq) (simp add: take_bit_eq_mod)
  finally show ?thesis by (simp add: dvd_eq_mod_eq_0)
qed

lemma low_page:
  assumes "(x :: u64) AND 0xFFF = 0" and "unat x < 2 ^ 48"
  shows "x AND 0xFFFFFFFFF000 = x"
proof -
  have "take_bit 48 x = x" using assms(2) by (metis take_bit_nat_eq_self_iff unsigned_take_bit_eq unsigned_word_eqI)
  then have hi: "bit x n \<Longrightarrow> n < 48" for n by (metis bit_take_bit_iff)
  have lo: "\<not> bit x n" if "n < 12" for n
  proof -
    have "bit (x AND 0xFFF) n = bit (0 :: u64) n" using assms(1) by simp
    moreover have "(0xFFF :: u64) = mask 12" by (simp add: mask_eq_exp_minus_1)
    ultimately show ?thesis using that by (simp add: bit_simps)
  qed
  have m: "(0xFFFFFFFFF000 :: u64) = push_bit 12 (mask 36)" by (simp add: mask_eq_exp_minus_1)
  have "bit (push_bit 12 (mask 36) :: u64) n" if "bit x n" for n using hi [OF that] lo [of n] that by (cases "n < 12") (auto simp: bit_simps)
  then show ?thesis unfolding m by (intro bit_word_eqI) (auto simp: bit_and_iff)
qed

lemma unat_sub:
  assumes "x \<le> unat (E :: u64)"
  shows "unat (E - of_nat x) = unat E - x"
proof -
  have "E - of_nat x = of_nat (unat E - x)" using assms by (simp add: of_nat_diff)
  moreover have "unat E - x < 2 ^ 64" using unsigned_less [of E, where ?'a = nat] by simp
  ultimately show ?thesis by (simp only: unat_page)
qed

definition dropped :: "u64 \<Rightarrow> cache_state \<Rightarrow> cache_state" where
  "dropped v c = (if v \<noteq> 0 \<and> v AND PTE_VALID = 0 then release_8_blocks (ucast (drop_bit 12 v)) c else c)"

lemma drop_page_ok:
  assumes inv: "vm_inv (vm s) pd ps" and v: "v = pte_value (vm s) pd va" and use: "v AND PTE_VALID \<noteq> 0 \<Longrightarrow> in_use (vm s) pd ps v"
  shows "\<exists>s' qs. drop_page pd va s = Some s' \<and> vm_inv (vm s') pd qs \<and> pool_set qs = pool_set ps \<union> (if v AND PTE_VALID \<noteq> 0 then {dest v} else {}) \<and>
    tables (vm s') pd = tables (vm s) pd \<and> zero_page (pages (vm s')) = zero_page (pages (vm s)) \<and>
    (\<forall>wa. pte_value (vm s') pd wa = (if vpn wa = vpn va then 0 else pte_value (vm s) pd wa)) \<and>
    sections s' = sections s \<and> frame s' = frame s \<and> bcache s' = dropped v (bcache s)"
proof (rule pte_at_read [OF inv, of va])
  assume none: "pte_at pd va s = Some None" "pte_value (vm s) pd va = 0"
  have "pte_value (vm s) pd wa = 0" if "vpn wa = vpn va" for wa
    using pte_value_walk [OF inv, of wa] pte_value_walk [OF inv, of va] that none(2) by (simp split: if_splits)
  then show ?thesis using none inv v by (intro exI [of _ s] exI [of _ ps]) (auto simp: drop_page_def dropped_def)
next
  fix e assume entry: "pte_at pd va s = Some (Some e)" "read_pte e s = pte_value (vm s) pd va"
    "e = (leaf (tab (vm s)) (pgdir_root (vm s) pd) (vpn va), VA_PART3 va)"
    "pgdir_root (vm s) pd \<noteq> 0" "hits (tab (vm s)) (pgdir_root (vm s) pd) (vpn va)"
  define s1 where "s1 = (if v \<noteq> 0 \<and> v AND PTE_VALID = 0 then release_swap v s else if v \<noteq> 0 \<and> v AND PTE_VALID \<noteq> 0 then free_frame (P2K (PTE_ADDRESS v)) s else s)"
  have run: "drop_page pd va s = Some (store_pte e 0 s1)" using entry(1,2) by (simp add: drop_page_def Let_def s1_def v)
  have c: "bcache s1 = dropped v (bcache s)" "sections s1 = sections s" "frame s1 = frame s" "tab (vm s1) = tab (vm s)" "pgdir_root (vm s1) = pgdir_root (vm s)"
    by (auto simp: s1_def dropped_def release_swap_def free_frame_def free_page_def)
  obtain qs where q: "vm_inv (vm s1) pd qs" "pool_set qs = pool_set ps \<union> (if v AND PTE_VALID \<noteq> 0 then {dest v} else {})"
      "tables (vm s1) pd = tables (vm s) pd" "\<forall>wa. pte_value (vm s1) pd wa = pte_value (vm s) pd wa" "zero_page (pages (vm s1)) = zero_page (pages (vm s))"
  proof (cases "v AND PTE_VALID \<noteq> 0")
    case True
    then have v0: "v \<noteq> 0" by auto
    have s1: "vm s1 = free_page (dest v) (vm s)" using True v0 by (simp add: s1_def free_frame_def dest_def)
    have z: "zero_page (pages (free_page (dest v) (vm s))) = zero_page (pages (vm s))"
      using free_page_ok [OF _ dest_is_kaddr, of "vm s" ps v] use [OF True] inv by (auto simp: vm_inv_def in_use_def)
    note f = free_in_use [OF inv use [OF True]]
    show thesis using f z True by (intro that [of "unat (dest v) # ps"]) (auto simp: s1)
  next
    case False
    then show thesis using inv by (intro that [of ps]) (auto simp: s1_def release_swap_def)
  qed
  have "hits (tab (vm s1)) (pgdir_root (vm s1) pd) (vpn va)" "pgdir_root (vm s1) pd \<noteq> 0" using entry(4,5) c by simp_all
  note u = set_leaf_ok [OF q(1) refl this(2,1) refl, of 0]
  have e: "vm (store_pte e 0 s1) = set_pte (leaf (tab (vm s1)) (pgdir_root (vm s1) pd) (vpn va), VA_PART3 va) 0 (vm s1)"
    using entry(3) c by (simp add: store_pte_def)
  show ?thesis
    using run u q c by (intro exI [of _ "store_pte e 0 s1"] exI [of _ qs]) (auto simp: e, simp_all add: store_pte_def)
qed

text \<open>Shrinking by \<open>n\<close> pages below the end \<open>E\<close> of the heap: what holds after \<open>m\<close> rounds.\<close>

definition top_page :: "u64 \<Rightarrow> nat \<Rightarrow> u64" where
  "top_page E k = E - of_nat (4096 * (k + 1))"

definition shrunk :: "pg_state \<Rightarrow> nat \<Rightarrow> nat \<Rightarrow> nat list \<Rightarrow> nat \<Rightarrow> pg_state \<Rightarrow> bool" where
  "shrunk s pd st ps m t \<longleftrightarrow> (let E = send (sections s st); v = (\<lambda>k. pte_value (vm s) pd (top_page E k)) in
     (\<exists>qs. vm_inv (vm t) pd qs \<and> pool_set qs = pool_set ps \<union> {dest (v k) |k. k < m \<and> v k AND PTE_VALID \<noteq> 0}) \<and>
     tables (vm t) pd = tables (vm s) pd \<and> zero_page (pages (vm t)) = zero_page (pages (vm s)) \<and>
     (\<forall>wa. pte_value (vm t) pd wa = (if \<exists>k < m. wa AND 0xFFFFFFFFF000 = top_page E k then 0 else pte_value (vm s) pd wa)) \<and>
     sections t = (sections s)(st := (sections s st)\<lparr>send := E - of_nat (4096 * m)\<rparr>) \<and> frame t = frame s \<and>
     bcache t = fold (\<lambda>k. dropped (v k)) [0..<m] (bcache s))"

definition heap_ok :: "pg_state \<Rightarrow> nat \<Rightarrow> nat \<Rightarrow> nat list \<Rightarrow> nat \<Rightarrow> bool" where
  "heap_ok s pd st ps n \<longleftrightarrow> (let E = send (sections s st); v = (\<lambda>k. pte_value (vm s) pd (top_page E k)) in
     vm_inv (vm s) pd ps \<and> E AND 0xFFF = 0 \<and> unat E \<le> 2 ^ 48 \<and>
     (\<forall>k < n. 4096 * (k + 1) \<le> unat E \<longrightarrow> v k AND PTE_VALID \<noteq> 0 \<longrightarrow> in_use (vm s) pd ps (v k) \<and> (\<forall>j < k. v j AND PTE_VALID \<noteq> 0 \<longrightarrow> dest (v j) \<noteq> dest (v k))))"

lemma top_page_facts:
  assumes "E AND 0xFFF = 0" and "unat E \<le> 2 ^ 48" and "4096 * (k + 1) \<le> unat E"
  shows "top_page E k AND 0xFFFFFFFFF000 = top_page E k" and "unat (top_page E k) = unat E - 4096 * (k + 1)"
proof -
  show u: "unat (top_page E k) = unat E - 4096 * (k + 1)" unfolding top_page_def by (rule unat_sub [OF assms(3)])
  have "4096 dvd unat E" using assms(1) aligned_iff by blast
  then have "4096 dvd unat (top_page E k)" unfolding u by (intro dvd_diff_nat) auto
  moreover have "unat (top_page E k) < 2 ^ 48" using u assms(2,3) by simp
  ultimately show "top_page E k AND 0xFFFFFFFFF000 = top_page E k" using aligned_iff low_page by blast
qed

lemma shrink_round:
  assumes ok: "heap_ok s pd st ps n" and m: "m < n" and t: "shrunk s pd st ps m t" and n: "4096 * n < 2 ^ 63" "4096 * n \<le> unat (send (sections s st))"
  shows "\<exists>t'. shrunk s pd st ps (Suc m) t' \<and>
    sbrk_loop pd st (of_nat (4096 * (n - m))) t = sbrk_loop pd st (of_nat (4096 * (n - Suc m))) t'"
proof -
  let ?E = "send (sections s st)"
  let ?v = "\<lambda>k. pte_value (vm s) pd (top_page ?E k)"
  have h: "?E AND 0xFFF = 0" "unat ?E \<le> 2 ^ 48" "4096 * n \<le> unat ?E" "vm_inv (vm s) pd ps"
    and use: "\<And>k. k < n \<Longrightarrow> ?v k AND PTE_VALID \<noteq> 0 \<Longrightarrow> in_use (vm s) pd ps (?v k)"
    and inj: "\<And>j k. k < n \<Longrightarrow> j < k \<Longrightarrow> ?v k AND PTE_VALID \<noteq> 0 \<Longrightarrow> ?v j AND PTE_VALID \<noteq> 0 \<Longrightarrow> dest (?v j) \<noteq> dest (?v k)"
  proof -
    show "?E AND 0xFFF = 0" "unat ?E \<le> 2 ^ 48" "4096 * n \<le> unat ?E" "vm_inv (vm s) pd ps" using ok n(2) by (simp_all add: heap_ok_def Let_def)
    have le: "4096 * (k + 1) \<le> unat ?E" if "k < n" for k
    proof -
      have "4096 * (k + 1) \<le> 4096 * n" using that by (intro mult_le_mono2) simp
      then show ?thesis using n(2) by simp
    qed
    show "in_use (vm s) pd ps (?v k)" if "k < n" "?v k AND PTE_VALID \<noteq> 0" for k
      using ok that le [OF that(1)] unfolding heap_ok_def Let_def by blast
    show "dest (?v j) \<noteq> dest (?v k)" if "k < n" "j < k" "?v k AND PTE_VALID \<noteq> 0" "?v j AND PTE_VALID \<noteq> 0" for j k
      using ok that le [OF that(1)] unfolding heap_ok_def Let_def by blast
  qed
  obtain qs where q: "vm_inv (vm t) pd qs" "pool_set qs = pool_set ps \<union> {dest (?v k) |k. k < m \<and> ?v k AND PTE_VALID \<noteq> 0}"
    and te: "tables (vm t) pd = tables (vm s) pd" "zero_page (pages (vm t)) = zero_page (pages (vm s))"
      "\<And>wa. pte_value (vm t) pd wa = (if \<exists>k < m. wa AND 0xFFFFFFFFF000 = top_page ?E k then 0 else pte_value (vm s) pd wa)"
      "sections t = (sections s)(st := (sections s st)\<lparr>send := ?E - of_nat (4096 * m)\<rparr>)" "frame t = frame s"
      "bcache t = fold (\<lambda>k. dropped (?v k)) [0..<m] (bcache s)"
    using t unfolding shrunk_def Let_def by blast
  have tp: "top_page ?E k AND 0xFFFFFFFFF000 = top_page ?E k" "unat (top_page ?E k) = unat ?E - 4096 * (k + 1)" if "k < n" for k
    using top_page_facts [of ?E k] h that by auto
  have ne: "top_page ?E m \<noteq> top_page ?E k" if "k < m" for k
  proof
    assume "top_page ?E m = top_page ?E k"
    then have "unat ?E - 4096 * (m + 1) = unat ?E - 4096 * (k + 1)" using tp(2) [of m] tp(2) [of k] m that by simp
    moreover have "4096 * (m + 1) \<le> 4096 * n" "4096 * (k + 1) < 4096 * (m + 1)" using m that by (simp_all del: mult_Suc_right)
    ultimately show False using h(3) by linarith
  qed
  have vm: "pte_value (vm t) pd (top_page ?E m) = ?v m" using te(3) tp(1) m ne by auto
  have iu: "in_use (vm t) pd qs (?v m)" if "?v m AND PTE_VALID \<noteq> 0"
    using use [OF m that] inj [OF m _ that] q(2) te(1,2) unfolding in_use_def by auto
  let ?t = "upd_sect st (\<lambda>x. x\<lparr>send := send x - 4096\<rparr>) t"
  have up: "vm ?t = vm t" "bcache ?t = bcache t" "frame ?t = frame t" by (simp_all add: upd_sect_def)
  have se: "?E - of_nat (4096 * m) - 4096 = top_page ?E m" by (simp add: top_page_def algebra_simps)
  then have sec: "sections ?t = (sections s)(st := (sections s st)\<lparr>send := top_page ?E m\<rparr>)" using te(4) by (simp add: upd_sect_def)
  have inv: "vm_inv (vm ?t) pd qs" using q(1) up by simp
  obtain t' rs where d: "drop_page pd (top_page ?E m) ?t = Some t'" "vm_inv (vm t') pd rs"
      "pool_set rs = pool_set qs \<union> (if ?v m AND PTE_VALID \<noteq> 0 then {dest (?v m)} else {})"
      "tables (vm t') pd = tables (vm t) pd" "zero_page (pages (vm t')) = zero_page (pages (vm t))"
      "\<forall>wa. pte_value (vm t') pd wa = (if vpn wa = vpn (top_page ?E m) then 0 else pte_value (vm t) pd wa)"
      "sections t' = sections ?t" "frame t' = frame t" "bcache t' = dropped (?v m) (bcache t)"
    using drop_page_ok [OF inv, of "?v m" "top_page ?E m"] vm iu up by auto
  have val: "pte_value (vm t') pd wa = (if \<exists>k < Suc m. wa AND 0xFFFFFFFFF000 = top_page ?E k then 0 else pte_value (vm s) pd wa)" for wa
    using d(6) te(3) tp(1) [OF m] by (auto simp: vpn_eq_iff less_Suc_eq)
  have "{dest (?v k) |k. k < Suc m \<and> ?v k AND PTE_VALID \<noteq> 0} =
      {dest (?v k) |k. k < m \<and> ?v k AND PTE_VALID \<noteq> 0} \<union> (if ?v m AND PTE_VALID \<noteq> 0 then {dest (?v m)} else {})"
    by (auto simp: less_Suc_eq)
  then have pr: "pool_set rs = pool_set ps \<union> {dest (?v k) |k. k < Suc m \<and> ?v k AND PTE_VALID \<noteq> 0}" using d(3) q(2) by (simp add: Un_assoc)
  have "shrunk s pd st ps (Suc m) t'"
    unfolding shrunk_def Let_def using d(2,4,5,7-9) pr val te(1,2,5,6) sec by (auto simp: top_page_def algebra_simps)
  moreover have "sbrk_loop pd st (of_nat (4096 * (n - m))) t = sbrk_loop pd st (of_nat (4096 * (n - Suc m))) t'"
  proof -
    have "sint (of_nat (4096 * (n - m)) :: u64) > 0" using sint_small [of "4096 * (n - m)"] n(1) m by simp
    moreover have "4096 * (n - m) = 4096 * (n - Suc m) + 4096" using m by simp
    then have "(of_nat (4096 * (n - m)) :: u64) - 4096 = of_nat (4096 * (n - Suc m))" by (simp only: of_nat_add) simp
    moreover have "send (sections ?t st) = top_page ?E m" using sec by simp
    ultimately show ?thesis using d(1) by (subst sbrk_loop.simps) (simp add: Let_def)
  qed
  ultimately show ?thesis by blast
qed

lemma shrink_loop:
  assumes ok: "heap_ok s pd st ps n" and n: "4096 * n < 2 ^ 63" "4096 * n \<le> unat (send (sections s st))"
  shows "\<exists>t. sbrk_loop pd st (of_nat (4096 * n)) s = Some t \<and> shrunk s pd st ps n t"
proof -
  have "\<exists>t. shrunk s pd st ps m t \<and> sbrk_loop pd st (of_nat (4096 * n)) s = sbrk_loop pd st (of_nat (4096 * (n - m))) t" if "m \<le> n" for m
    using that
  proof (induction m)
    case 0
    have "shrunk s pd st ps 0 s" using ok unfolding shrunk_def heap_ok_def Let_def by auto
    then show ?case by auto
  next
    case (Suc m)
    then obtain t where t: "shrunk s pd st ps m t" "sbrk_loop pd st (of_nat (4096 * n)) s = sbrk_loop pd st (of_nat (4096 * (n - m))) t" by auto
    then show ?case using shrink_round [OF ok _ t(1) n] Suc.prems by auto
  qed
  from this [of n] show ?thesis by (auto simp: sbrk_loop.simps [of pd st 0])
qed

text \<open>
  (C35) \<^verbatim>\<open>sbrk(-n)\<close> on a heap of at least \<open>n\<close> pages returns the old end and moves it down by \<open>n\<close> pages.
  Afterwards the code reads no entry for the \<open>n\<close> pages above the new end and the old entry for every
  other page; exactly the pages that were mapped there have gone back to the page
  allocator, each once, the pages that were on the disk have their swap blocks released, and no table is lost.
  On a heap of fewer than \<open>n\<close> pages \<^verbatim>\<open>sbrk(-n)\<close> stops the kernel; this happens also on the heaps
  the kernel creates, which begin at address 0.
\<close>

theorem sbrk_shrink_correct:
  assumes "List.find (\<lambda>x. sflags (sections s x) AND ST_HEAP \<noteq> 0) (section_list s (this_pgdir cpu s)) = Some st"
    and "heap_ok s (this_pgdir cpu s) st ps n" and "0 < n" "4096 * n < 2 ^ 63" and "sbegin (sections s st) \<le> send (sections s st)"
  shows "if 4096 * n \<le> unat (send (sections s st)) - unat (sbegin (sections s st))
    then \<exists>t. sbrk cpu (- of_nat n) s = Some (send (sections s st), t) \<and> shrunk s (this_pgdir cpu s) st ps n t
    else sbrk cpu (- of_nat n) s = None"
proof -
  let ?E = "send (sections s st)" and ?B = "sbegin (sections s st)"
  have E: "unat ?E \<le> 2 ^ 48" using assms(2) by (simp add: heap_ok_def Let_def)
  have B: "unat ?B \<le> unat ?E" using assms(5) by (simp add: word_le_nat_alt)
  have neg: "sint (- of_nat n :: u64) < 0" using sint_neg [OF assms(3)] assms(4) by simp
  have sz: "- (- of_nat n * 4096) = (of_nat (4096 * n) :: u64)" by simp
  have s1: "sint (of_nat (4096 * n) :: u64) = int (4096 * n)" by (rule sint_small [OF assms(4)])
  have "?E - ?B = of_nat (unat ?E - unat ?B)" using B by (simp add: of_nat_diff)
  then have s2: "sint (?E - ?B) = int (unat ?E - unat ?B)" using sint_small [of "unat ?E - unat ?B"] E by simp
  have run: "sbrk cpu (- of_nat n) s = (if 4096 * n \<le> unat ?E - unat ?B
      then map_option (Pair ?E) (sbrk_loop (this_pgdir cpu s) st (of_nat (4096 * n)) s) else None)"
    using assms(1) neg s1 s2 sz by (simp add: sbrk_def Let_def del: mult_minus_left of_nat_mult)
  show ?thesis
  proof (cases "4096 * n \<le> unat ?E - unat ?B")
    case True
    then have "4096 * n \<le> unat ?E" by simp
    then show ?thesis using True run shrink_loop [OF assms(2,4)] by auto
  qed (use run in simp)
qed

section \<open>Page faults\<close>

lemma kalloc_pool:
  assumes "pool v (p # ps)" and "zero_page (pages v) \<noteq> p"
  obtains m where "kalloc_page (pages v) = (p, m)" "pool (v\<lparr>pages := m\<rparr>) ps" "zero_page m = zero_page (pages v)"
  using assms by (auto simp: kalloc_page_def fetch_from_queue_def pool_def Let_def)

lemma lazy_map_ok:
  assumes inv: "vm_inv (vm s) pd (p # ps)" and len: "4 \<le> length ps"
    and left: "REVERSED_PAGES < of_int (left_page_cnt start stop (pages (vm s)))"
  shows "\<exists>s' us qs. lazy_map start stop cpu pd va s = Some s' \<and> ps = us @ qs \<and> vm_inv (vm s') pd qs \<and> frame s' = frame s \<and> sections s' = sections s \<and>
    (\<forall>wa. pte_value (vm s') pd wa = (if wa AND 0xFFFFFFFFF000 = va AND 0xFFFFFFFFF000 then K2P (of_nat p) OR PTE_USER_DATA OR PTE_VALID else pte_value (vm s) pd wa)) \<and>
    (\<forall>qd wa. vm_inv (vm s) qd (p # ps) \<longrightarrow> vm_sep (vm s) pd qd \<longrightarrow> vm_inv (vm s') qd qs \<and> pte_value (vm s') qd wa = pte_value (vm s) qd wa)"
proof -
  have i: "pool (vm s) (p # ps)" "of_nat (zero_page (pages (vm s))) \<notin> pool_set (p # ps)" using inv by (auto simp: vm_inv_def)
  then have "zero_page (pages (vm s)) \<noteq> p" by (auto simp: pool_set_def)
  then obtain m where m: "kalloc_page (pages (vm s)) = (p, m)" "pool ((vm s)\<lparr>pages := m\<rparr>) ps" "zero_page m = zero_page (pages (vm s))"
    using kalloc_pool [OF i(1)] by blast
  let ?v = "(vm s)\<lparr>pages := m\<rparr>" and ?s = "s\<lparr>vm := (vm s)\<lparr>pages := m\<rparr>\<rparr>"
  have al: "alloc_page_for_user start stop cpu s = Some (of_nat p, ?s)" using m(1) left [folded not_le] by (subst alloc_page_for_user.simps) simp
  have sub: "pool_set ps \<subseteq> pool_set (p # ps)" by (auto simp: pool_set_def)
  have fr: "vm_inv ?v qd ps \<and> tables ?v qd = tables (vm s) qd \<and> pte_value ?v qd wa = pte_value (vm s) qd wa" if "vm_inv (vm s) qd (p # ps)" for qd wa
    using m(2,3) sub by (intro vm_frame [OF that]) auto
  have inv': "vm_inv ?v pd ps" using fr [OF inv] by blast
  obtain v' us qs where v': "vmmap pd va (of_nat p) (PTE_USER_DATA OR PTE_RW) ?v = Some v'" "ps = us @ qs" "vm_inv v' pd qs"
      "\<forall>wa. pte_value v' pd wa = (if wa AND 0xFFFFFFFFF000 = va AND 0xFFFFFFFFF000 then K2P (of_nat p) OR (PTE_USER_DATA OR PTE_RW) OR PTE_VALID else pte_value ?v pd wa)"
      "\<forall>qd wa. vm_inv ?v qd ps \<longrightarrow> vm_sep ?v pd qd \<longrightarrow> vm_inv v' qd qs \<and> vm_sep v' pd qd \<and> pte_value v' qd wa = pte_value ?v qd wa"
    using vmmap_ok [OF inv' len, of va "of_nat p" "PTE_USER_DATA OR PTE_RW"] by blast
  have run: "lazy_map start stop cpu pd va s = Some (s\<lparr>vm := v'\<rparr>)" using al v'(1) by (simp add: lazy_map_def map_page_def)
  have sep: "vm_sep ?v pd qd = vm_sep (vm s) pd qd" if "vm_inv (vm s) qd (p # ps)" for qd
    using fr [OF that, of 0] fr [OF inv, of 0] by (simp add: vm_sep_def)
  let ?t = "s\<lparr>vm := v'\<rparr>"
  have oth: "vm_inv (vm ?t) qd qs \<and> pte_value (vm ?t) qd wa = pte_value (vm s) qd wa" if "vm_inv (vm s) qd (p # ps)" "vm_sep (vm s) pd qd" for qd wa
    using v'(5) fr [OF that(1), of wa] sep [OF that(1)] that(2) by simp
  have val: "pte_value (vm ?t) pd wa = (if wa AND 0xFFFFFFFFF000 = va AND 0xFFFFFFFFF000 then K2P (of_nat p) OR PTE_USER_DATA OR PTE_VALID else pte_value (vm s) pd wa)" for wa
    using v'(4) fr [OF inv, of wa] by simp
  have "vm_inv (vm ?t) pd qs" "frame ?t = frame s" "sections ?t = sections s" using v'(3) by simp_all
  with run v'(2) val oth show ?thesis by blast
qed

text \<open>
  The free list from which a page fault takes the new page: a fault on a read-only page first gives the old page
  back, unless it is the shared zero page and other entries refer to it.
\<close>

definition after_release :: "vm_state \<Rightarrow> u64 \<Rightarrow> nat list \<Rightarrow> nat list" where
  "after_release s v ps =
     (if v AND PTE_RO = 0 \<or> dest v = of_nat (zero_page (pages s)) \<and> zero_page_cnt (pages s) \<noteq> 1 then ps else unat (dest v) # ps)"

lemma release_ro:
  assumes inv: "vm_inv s pd ps" and v: "v AND PTE_RO \<noteq> 0" "dest v \<notin> pool_set ps" "dest v \<notin> tables s pd" and z: "zero_page (pages s) < 2 ^ 64"
  shows "vm_inv (free_page (dest v) s) pd (after_release s v ps) \<and> tables (free_page (dest v) s) pd = tables s pd \<and>
    pte_value (free_page (dest v) s) pd wa = pte_value s pd wa"
proof (cases "dest v = of_nat (zero_page (pages s))")
  case False
  then show ?thesis using free_in_use [OF inv, of v] v by (simp add: in_use_def after_release_def)
next
  case True
  then have u: "unat (dest v) = zero_page (pages s)" using z by (simp add: unat_page)
  let ?s = "free_page (dest v) s" and ?ps = "after_release s v ps"
  have same: "tab ?s = tab s" "pgdir_root ?s = pgdir_root s" by (simp_all add: free_page_def)
  have pl: "chain (page_head (pages s)) (page_next (pages s)) ps" "distinct ps" "\<forall>p \<in> set ps. p < 2 ^ 64 \<and> kaddr (of_nat p)"
    using inv by (auto simp: vm_inv_def pool_def)
  have n0: "x \<in> tables s pd \<Longrightarrow> x \<noteq> 0" for x
    using inv tset_kaddr [of 3 "tab s" "pgdir_root s pd" x] kaddr_nonzero by (auto simp: tables_def vm_inv_def split: if_splits)
  have p0: "x \<in> pool_set ps \<Longrightarrow> x \<noteq> 0" for x using pl(3) kaddr_nonzero by (auto simp: pool_set_def)
  have inv': "vm_inv ?s pd ?ps"
  proof (cases "zero_page_cnt (pages s) = 1")
    case False
    then show ?thesis using inv True u v(1) unfolding vm_inv_def same
      by (simp add: after_release_def free_page_def kfree_page_def pool_def Let_def)
  next
    case c: True
    have nz: "unat (dest v) \<noteq> 0" using kaddr_nonzero [OF dest_is_kaddr] by (simp add: unat_eq_0)
    have new: "unat (dest v) \<notin> set ps" using v(2) by (force simp: pool_set_def)
    note p = chain_push [OF pl(1) nz new]
    have lt: "unat (dest v) < 2 ^ 64" using u z by simp
    have e: "?ps = unat (dest v) # ps" "pool_set ?ps = insert (dest v) (pool_set ps)" using v(1) c by (simp_all add: after_release_def pool_set_def)
    have "pool ?s ?ps" unfolding e pool_def using p pl(2,3) new lt dest_is_kaddr [of v] c
      by (simp add: free_page_def kfree_page_def u [symmetric] Let_def del: chain.simps)
    moreover have "zero_page (pages ?s) = 0" using u c by (simp add: free_page_def kfree_page_def Let_def)
    moreover have "0 \<notin> pool_set ?ps" using p0 [of 0] kaddr_nonzero [OF dest_is_kaddr, of v] unfolding e(2) by auto
    moreover have "pt_ok 3 (tab s) (pgdir_root s pd)" "tset 3 (tab s) (pgdir_root s pd) \<inter> pool_set ?ps = {}" "0 \<notin> tset 3 (tab s) (pgdir_root s pd)"
      if r: "pgdir_root s pd \<noteq> 0"
    proof -
      have T: "tables s pd = tset 3 (tab s) (pgdir_root s pd)" using r by (simp add: tables_def)
      show "pt_ok 3 (tab s) (pgdir_root s pd)" using inv r by (simp add: vm_inv_def)
      have "tset 3 (tab s) (pgdir_root s pd) \<inter> pool_set ps = {}" using inv r by (simp add: vm_inv_def)
      then show "tset 3 (tab s) (pgdir_root s pd) \<inter> pool_set ?ps = {}" using v(3) unfolding T e(2) by blast
      show "0 \<notin> tset 3 (tab s) (pgdir_root s pd)" using n0 [of 0] unfolding T by auto
    qed
    ultimately show ?thesis unfolding vm_inv_def same by simp
  qed
  then show ?thesis using pte_value_walk [OF inv] pte_value_walk [OF inv'] same by (simp add: tables_def)
qed

lemma enough_pages: "int 1024 < i \<Longrightarrow> i < 2 ^ 63 \<Longrightarrow> REVERSED_PAGES < (of_int i :: u64)"
proof -
  assume i: "int 1024 < i" "i < 2 ^ 63"
  then have "uint (of_int i :: u64) = i" by (simp add: uint_word_of_int_eq take_bit_int_eq_self)
  then show ?thesis using i by (simp add: word_less_def)
qed

lemma left_after_free: "left_page_cnt start stop (kfree_page a m) \<in> {left_page_cnt start stop m, left_page_cnt start stop m + 1}"
  by (simp add: left_page_cnt_def kfree_page_def add_to_queue_def Let_def)


section \<open>Defects of the code\<close>

text \<open>A section that is swapped out twice stops the kernel; \<^verbatim>\<open>alloc_page_for_user\<close> tries to when it gets the same offline process again.\<close>

lemma swapout_twice: "sflags (sections s st) AND ST_SWAP \<noteq> 0 \<Longrightarrow> swapout cpu pd st s = None"
  by (simp add: swapout_def)

text \<open>\<^verbatim>\<open>free_sections\<close> puts the page at physical address 0 on the free list for every page that was never touched.\<close>

lemma free_untouched_page:
  assumes "pte_at pd va s = Some (Some e)" and "read_pte e s = 0"
  shows "free_user_page pd va s = Some (free_frame 0xffff000000000000 s)"
  using assms by (simp add: free_user_page_def Let_def P2K_def PTE_ADDRESS_def)

section \<open>An address space\<close>

definition sample_frames :: "u64 \<Rightarrow> u8 list" where
  "sample_frames a = replicate BLOCK_SIZE 1 @ replicate (7 * BLOCK_SIZE) 2"

definition sample_paging :: "vm_state \<Rightarrow> u64 \<Rightarrow> pg_state" where
  "sample_paging v e = \<lparr>vm = v, frame = sample_frames, bcache = cold_cache demo_dev, procs = sample_boot,
     sections = (\<lambda>_. \<lparr>sflags = ST_HEAP, slock = 1, sbegin = 0, send = e\<rparr>), section_list = (\<lambda>_. [64])\<rparr>"

lemma sample_vm_inv_any: "vm_inv sample_vm pd sample_pages"
  by (simp add: vm_inv_def sample_vm_def sample_pages_def pool_def pool_set_def boot_mem_def init_pages.simps add_to_queue_def kaddr_def)

lemma sample_paging_simps [simp]:
  "this_pgdir 0 (sample_paging v e) = 1024" "vm (sample_paging v e) = v" "frame (sample_paging v e) = sample_frames" "bcache (sample_paging v e) = cold_cache demo_dev"
  "sflags (sections (sample_paging v e) x) = ST_HEAP" "sbegin (sections (sample_paging v e) x) = 0" "send (sections (sample_paging v e) x) = e"
  "section_list (sample_paging v e) pd = [64]"
  by (simp_all add: this_pgdir_def sample_paging_def sample_boot_def)

lemma sample_mapped:
  obtains v us qs where "sample_pages = us @ qs" "vm_inv v 1024 qs" "tables v 1024 = pool_set us" "zero_page (pages v) = 0"
    "\<forall>wa. pte_value v 1024 wa = (if vpn wa = vpn 0x401000 then 0xa00647 else 0)"
proof -
  obtain us qs s1 r where f: "sample_pages = us @ qs" "filled 1024 0x401000 us qs sample_vm s1 r"
    using get_pte_ok [OF sample_vm_inv_any, where va = "0x401000" and pd = 1024] by (auto simp: sample_pages_def)
  have z: "pte_value sample_vm 1024 wa = 0" for wa by (simp add: pte_value_def get_pte_def get_pt0_def sample_vm_def)
  have g: "pgdir_root s1 1024 = r" "r \<noteq> 0" "vm_inv s1 1024 qs" "hits (tab s1) r (vpn 0x401000)" "tables s1 1024 = pool_set us" "zero_page (pages s1) = 0"
  proof -
    have "tables sample_vm 1024 = {}" "zero_page (pages sample_vm) = 0"
      by (simp_all add: tables_def sample_vm_def boot_mem_def init_pages.simps add_to_queue_def)
    then show "pgdir_root s1 1024 = r" "r \<noteq> 0" "vm_inv s1 1024 qs" "hits (tab s1) r (vpn 0x401000)" "tables s1 1024 = pool_set us" "zero_page (pages s1) = 0"
      using f(2) by (simp_all add: filled_def)
  qed
  have pv: "pte_value s1 1024 wa = 0" for wa using pte_value_walk [OF g(3)] f(2) g(1,2) z by (simp add: filled_def)
  note u = set_leaf_ok [OF g(3) g(1) [symmetric] g(2,4) refl, of "0xa00647"]
  show thesis
    by (rule that [OF f(1), of "set_pte (leaf (tab s1) r (vpn 0x401000), VA_PART3 0x401000) 0xa00647 s1"]) (use u g(5,6) pv in simp_all)
qed

theorem swap_page_roundtrip_witness:
  "\<exists>v s1 s2. write_page_to_disk 0 0x401000 (sample_paging v 0x402000) = Some (800, s1) \<and> read_page_from_disk 0xffff000000b00000 800 s1 = Some s2 \<and>
     frame s2 0xffff000000b00000 = concat (replicate 8 (replicate BLOCK_SIZE 1))"
proof -
  obtain v us qs where v: "vm_inv v 1024 qs" "\<forall>wa. pte_value v 1024 wa = (if vpn wa = vpn 0x401000 then 0xa00647 else 0)" by (rule sample_mapped) blast
  let ?s = "sample_paging v 0x402000"
  have "first_run (replicate 200 False) = Some 0" by (rule first_run_Some) (auto simp: free_run_def)
  then have e: "vm_inv (vm ?s) (this_pgdir 0 ?s) qs" "cache_inv None (bcache ?s)" "Block_Cache.held (bcache ?s) = {}" "first_run (swap_valid (bcache ?s)) = Some 0"
      "pte_value (vm ?s) (this_pgdir 0 ?s) 0x401000 = 0xa00647" "\<And>a. length (frame ?s a) = 8 * BLOCK_SIZE" "\<And>a. take BLOCK_SIZE (frame ?s a) = replicate BLOCK_SIZE 1"
    using v cold_cache_inv [of demo_dev None] by (simp_all add: sample_frames_def Block_Cache.held_def holds_def dev_wf_def, simp_all add: demo_dev_def cold_cache_def)
  obtain s1 s2 where "write_page_to_disk 0 0x401000 ?s = Some (800, s1)" "read_page_from_disk 0xffff000000b00000 800 s1 = Some s2"
      "frame s2 = (frame ?s)(0xffff000000b00000 := concat (replicate 8 (replicate BLOCK_SIZE 1)))"
    using swap_page_roundtrip [OF e(1-3,5) _ _ e(6) e(4), where ka = "0xffff000000b00000"] unfolding e(7) using e(6) by auto
  then show ?thesis by (intro exI [of _ v] exI [of _ s1] exI [of _ s2]) simp
qed

text \<open>A heap of 1026 pages: giving back one of them works, giving back 1027 stops the kernel.\<close>

theorem sbrk_shrink_correct_witness:
  "\<exists>v t. sbrk 0 (- of_nat 1) (sample_paging v 0x402000) = Some (0x402000, t) \<and> send (sections t 64) = 0x401000 \<and>
     pte_value v 1024 0x401000 = 0xa00647 \<and> pte_value (vm t) 1024 0x401000 = 0 \<and>
     sbrk 0 (- of_nat 1027) (sample_paging v 0x402000) = None"
proof -
  obtain v us qs where v: "sample_pages = us @ qs" "vm_inv v 1024 qs" "tables v 1024 = pool_set us" "zero_page (pages v) = 0"
    "\<forall>wa. pte_value v 1024 wa = (if vpn wa = vpn 0x401000 then 0xa00647 else 0)" by (rule sample_mapped) blast
  let ?s = "sample_paging v 0x402000"
  have d: "dest 0xa00647 = 0xffff000000a00000" by (simp add: dest_def P2K_def PTE_ADDRESS_def)
  have "pool_set sample_pages = pool_set us \<union> pool_set qs" by (simp add: v(1) pool_set_append)
  moreover have "0xffff000000a00000 \<notin> pool_set sample_pages" by (simp add: pool_set_def sample_pages_def)
  ultimately have use: "in_use v 1024 qs 0xa00647" using v(3,4) d by (auto simp: in_use_def)
  have f: "List.find (\<lambda>x. sflags (sections ?s x) AND ST_HEAP \<noteq> 0) (section_list ?s (this_pgdir 0 ?s)) = Some 64" by simp
  have tp: "top_page 0x402000 0 = 0x401000" by (simp add: top_page_def)
  have up: "top_page 0x402000 k AND 0xFFFFFFFFF000 = top_page 0x402000 k" "unat (top_page 0x402000 k) = 0x402000 - 4096 * (k + 1)"
    if "4096 * (k + 1) \<le> 0x402000" for k using top_page_facts [of "0x402000" k] that by simp_all
  have one: "k = 0" if "vpn (top_page 0x402000 k) = vpn 0x401000" "4096 * (k + 1) \<le> 0x402000" for k
  proof -
    have "top_page 0x402000 k = 0x401000" using that up(1) [OF that(2)] unfolding vpn_eq_iff by simp
    then have "0x402000 - 4096 * (k + 1) = (0x401000 :: nat)" using up(2) [OF that(2)] by simp
    then show ?thesis using that(2) by simp
  qed
  have ok: "heap_ok ?s (this_pgdir 0 ?s) 64 qs n" for n using v(2,5) use one by (auto simp: heap_ok_def Let_def)
  from sbrk_shrink_correct [OF f ok [of 1]] obtain t where t: "sbrk 0 (- of_nat 1) ?s = Some (0x402000, t)" "shrunk ?s 1024 64 qs 1 t"
    by auto
  have "sbrk 0 (- of_nat 1027) ?s = None" using sbrk_shrink_correct [OF f ok [of 1027]] by simp
  then show ?thesis using t v(5) tp by (intro exI [of _ v] exI [of _ t]) (simp add: shrunk_def Let_def)
qed

text \<open>A memory of ten pages, in which the page at 0x401000 is mapped read-only to the page 0xffff000000a00000.\<close>

definition sample_vm2 :: vm_state where
  "sample_vm2 = \<lparr>tab = (\<lambda>_ _. 0), pages = boot_mem 0xffff000000001000 0xffff00000000b000, pgdir_root = (\<lambda>_. 0)\<rparr>"

definition sample_pages2 :: "nat list" where
  "sample_pages2 = [0xffff00000000a000, 0xffff000000009000, 0xffff000000008000, 0xffff000000007000, 0xffff000000006000,
     0xffff000000005000, 0xffff000000004000, 0xffff000000003000, 0xffff000000002000, 0xffff000000001000]"

lemma sample_vm2_inv: "vm_inv sample_vm2 pd sample_pages2"
  by (simp add: vm_inv_def sample_vm2_def sample_pages2_def pool_def pool_set_def boot_mem_def init_pages.simps add_to_queue_def kaddr_def)

lemma alloc_count_irrelevant:
  assumes "vm_inv v pd ps" and w_def: "w = v\<lparr>pages := (pages v)\<lparr>alloc_page_cnt := c\<rparr>\<rparr>"
  shows "vm_inv w pd ps" and "tables w pd = tables v pd" and "pte_value w pd a = pte_value v pd a"
proof -
  show i: "vm_inv w pd ps" using assms(1) by (simp add: w_def vm_inv_def pool_def)
  show "tables w pd = tables v pd" "pte_value w pd a = pte_value v pd a"
    using pte_value_walk [OF i] pte_value_walk [OF assms(1)] by (simp_all add: w_def tables_def)
qed

lemma sample_ro:
  obtains v p ps where "vm_inv v 1024 (p # ps)" "4 \<le> length ps" "zero_page (pages v) = 0" "alloc_page_cnt (pages v) = 4"
    "0xffff000000a00000 \<notin> pool_set (p # ps)" "0xffff000000a00000 \<notin> tables v 1024" "pte_value v 1024 0x401000 = 0xa006c7"
proof -
  obtain us qs s1 r where f: "sample_pages2 = us @ qs" "length us \<le> 4" "filled 1024 0x401000 us qs sample_vm2 s1 r"
    using get_pte_ok [OF sample_vm2_inv, where va = "0x401000" and pd = 1024] by (auto simp: sample_pages2_def)
  have "tables sample_vm2 1024 = {}" "zero_page (pages sample_vm2) = 0"
    by (simp_all add: tables_def sample_vm2_def boot_mem_def init_pages.simps add_to_queue_def)
  then have g: "pgdir_root s1 1024 = r" "r \<noteq> 0" "vm_inv s1 1024 qs" "hits (tab s1) r (vpn 0x401000)" "tables s1 1024 = pool_set us" "zero_page (pages s1) = 0"
    using f(3) by (simp_all add: filled_def)
  define v where "v = set_pte (leaf (tab s1) r (vpn 0x401000), VA_PART3 0x401000) 0xa006c7 s1"
  note u = set_leaf_ok [OF g(3) g(1) [symmetric] g(2,4) v_def]
  define w where "w = v\<lparr>pages := (pages v)\<lparr>alloc_page_cnt := 4\<rparr>\<rparr>"
  note W = alloc_count_irrelevant [OF conjunct1 [OF u] w_def]
  have "length us + length qs = 10" using arg_cong [OF f(1), of length] by (simp add: sample_pages2_def)
  then obtain p ps where ps: "qs = p # ps" "4 \<le> length ps" using f(2) by (cases qs) auto
  have "0xffff000000a00000 \<notin> pool_set sample_pages2" by (simp add: pool_set_def sample_pages2_def)
  then have n: "0xffff000000a00000 \<notin> pool_set us" "0xffff000000a00000 \<notin> pool_set qs" by (auto simp: f(1) pool_set_append)
  show thesis by (rule that [of w p ps]) (use W u g(5,6) ps n in \<open>simp_all, simp_all add: w_def\<close>)
qed


end
