(* ===== verification/Mkfs.thy ===== *)
theory Mkfs
  imports Inode_Dir
begin

text \<open>
  \<^verbatim>\<open>src/src/user/mkfs/main.c\<close>: the program that builds the image the kernel mounts. It runs
  on the build host, writes the super block, the inodes, the bitmap and one file per
  argument. The image is a file of sectors; a sector that was never written is zero, and
  reading at or behind the end of the file ends the program. The host is an argument: which
  image can be created, and for every path the results of the successive calls of
  \<^verbatim>\<open>read\<close> (or that \<^verbatim>\<open>open\<close> fails). \<open>None\<close> is a failed \<^verbatim>\<open>assert\<close> or \<^verbatim>\<open>exit(1)\<close>. The host is
  little-endian and its disk is not full. Values of type \<^verbatim>\<open>uint\<close> are natural numbers,
  reduced modulo \<open>2 ^ 32\<close> where the source can wrap. Messages on the terminal are left out.
\<close>

section \<open>Parameters of the image\<close>

abbreviation FSSIZE :: nat where "FSSIZE \<equiv> 1000"
abbreviation NINODES :: nat where "NINODES \<equiv> 200"
abbreviation INODE_REGULAR :: nat where "INODE_REGULAR \<equiv> 2"

definition nbitmap :: nat where "nbitmap = FSSIZE div (BLOCK_SIZE * 8) + 1"
definition ninodeblocks :: nat where "ninodeblocks = NINODES div INODE_PER_BLOCK + 1"
definition num_log_blocks :: nat where "num_log_blocks = LOG_MAX_SIZE"
definition nmeta :: nat where "nmeta = 2 + num_log_blocks + ninodeblocks + nbitmap"

record mk_state =
  img :: "nat \<Rightarrow> u8 list"
  img_len :: nat
  mk_sb :: super_block
  freeinode :: nat
  freeblock :: nat

record host =
  can_create :: "u8 list \<Rightarrow> bool"
  host_open :: "u8 list \<Rightarrow> u8 list list option"

section \<open>Byte order and sectors\<close>

definition xshort :: "nat \<Rightarrow> nat" where
  "xshort x = le_nat [of_nat x, of_nat (x div 2 ^ 8)]"

definition xint :: "nat \<Rightarrow> nat" where
  "xint x = le_nat [of_nat x, of_nat (x div 2 ^ 8), of_nat (x div 2 ^ 16), of_nat (x div 2 ^ 24)]"

text \<open>The sector reached by seeking to \<^verbatim>\<open>sec * BSIZE\<close>, a product of type \<^verbatim>\<open>uint\<close>.\<close>

definition seek :: "nat \<Rightarrow> nat" where
  "seek sec = sec * BLOCK_SIZE mod 2 ^ 32 div BLOCK_SIZE"

definition wsect :: "nat \<Rightarrow> u8 list \<Rightarrow> mk_state \<Rightarrow> mk_state" where
  "wsect sec buf s = s\<lparr>img := (img s)(seek sec := buf), img_len := max (img_len s) (seek sec + 1)\<rparr>"

definition rsect :: "nat \<Rightarrow> mk_state \<Rightarrow> u8 list option" where
  "rsect sec s = (if seek sec < img_len s then Some (img s (seek sec)) else None)"

section \<open>Inodes\<close>

definition winode :: "nat \<Rightarrow> inode_entry \<Rightarrow> mk_state \<Rightarrow> mk_state option" where
  "winode inum ip s = do {
     let bn = to_block_no (mk_sb s) inum;
     buf \<leftarrow> rsect bn s;
     Some (wsect bn (put_entry buf inum ip) s) }"

definition rinode :: "nat \<Rightarrow> mk_state \<Rightarrow> inode_entry option" where
  "rinode inum s = do {
     let bn = to_block_no (mk_sb s) inum;
     buf \<leftarrow> rsect bn s;
     Some (get_entry buf inum) }"

definition ialloc :: "nat \<Rightarrow> mk_state \<Rightarrow> (nat \<times> mk_state) option" where
  "ialloc ty s = do {
     let inum = freeinode s;
     let s = s\<lparr>freeinode := (inum + 1) mod 2 ^ 32\<rparr>;
     let din = zero_entry\<lparr>itype := xshort ty, num_links := xshort 1, num_bytes := xint 0\<rparr>;
     s \<leftarrow> winode inum din s;
     Some (inum, s) }"

definition balloc :: "nat \<Rightarrow> mk_state \<Rightarrow> mk_state option" where
  "balloc used s =
     (if used < BLOCK_SIZE * 8 then
        let buf = replicate BLOCK_SIZE 0;
            buf = fold (\<lambda>i buf. buf[i div 8 := buf ! (i div 8) OR bit_mask i]) [0..<used] buf
        in Some (wsect (sb_bitmap_start (mk_sb s)) buf s)
      else None)"

definition take_block :: "mk_state \<Rightarrow> nat \<times> mk_state" where
  "take_block s = (freeblock s, s\<lparr>freeblock := (freeblock s + 1) mod 2 ^ 32\<rparr>)"

text \<open>The block of file block \<open>fbn\<close> in \<^verbatim>\<open>iappend\<close>, allocated when there is none.\<close>

definition iappend_map :: "nat \<Rightarrow> inode_entry \<Rightarrow> mk_state \<Rightarrow> (nat \<times> inode_entry \<times> mk_state) option" where
  "iappend_map fbn din s =
     (if fbn < INODE_NUM_DIRECT then
        let (din, s) =
          (if xint (addrs din ! fbn) = 0 then
             let (b, s) = take_block s in (din\<lparr>addrs := (addrs din)[fbn := xint b]\<rparr>, s)
           else (din, s))
        in Some (xint (addrs din ! fbn), din, s)
      else do {
        let (din, s) =
          (if xint (indirect din) = 0 then
             let (b, s) = take_block s in (din\<lparr>indirect := xint b\<rparr>, s)
           else (din, s));
        ind \<leftarrow> rsect (xint (indirect din)) s;
        let i = fbn - INODE_NUM_DIRECT;
        let (ind, s) =
          (if get_addr ind i = 0 then
             let (b, s) = take_block s;
                 ind = put_addr ind i (xint b)
             in (ind, wsect (xint (indirect din)) ind s)
           else (ind, s));
        Some (xint (get_addr ind i), din, s) })"

lemma iappend_progress: "off < (off div BLOCK_SIZE + 1) * BLOCK_SIZE"
  by (metis Suc_eq_plus1 dividend_less_div_times mult_Suc zero_less_numeral)

function iappend_loop :: "nat \<Rightarrow> u8 list \<Rightarrow> inode_entry \<Rightarrow> mk_state \<Rightarrow> (nat \<times> inode_entry \<times> mk_state) option" where
  "iappend_loop off p din s =
     (if p \<noteq> [] then do {
        let fbn = off div BLOCK_SIZE;
        if fbn < INODE_MAX_BLOCKS then do {
          (x, din, s) \<leftarrow> iappend_map fbn din s;
          let n1 = min (length p) ((fbn + 1) * BLOCK_SIZE - off);
          buf \<leftarrow> rsect x s;
          let s = wsect x (put_bytes (off - fbn * BLOCK_SIZE) (take n1 p) buf) s;
          iappend_loop (off + n1) (drop n1 p) din s }
        else None }
      else Some (off, din, s))"
  by pat_completeness auto
termination
  using iappend_progress by (relation "measure (\<lambda>(off, p, din, s). length p)") auto

declare iappend_loop.simps [simp del]

definition iappend :: "nat \<Rightarrow> u8 list \<Rightarrow> mk_state \<Rightarrow> mk_state option" where
  "iappend inum xp s = do {
     din \<leftarrow> rinode inum s;
     let off = xint (num_bytes din);
     (off, din, s) \<leftarrow> iappend_loop off xp din s;
     winode inum (din\<lparr>num_bytes := xint off\<rparr>) s }"

section \<open>The program\<close>

definition mk_super :: super_block where
  "mk_super = \<lparr>sb_num_blocks = xint FSSIZE, sb_num_data_blocks = xint (FSSIZE - nmeta),
     sb_num_inodes = xint NINODES, sb_num_log_blocks = xint num_log_blocks, sb_log_start = xint 2,
     sb_inode_start = xint (2 + num_log_blocks), sb_bitmap_start = xint (2 + num_log_blocks + ninodeblocks)\<rparr>"

definition encode_super :: "super_block \<Rightarrow> u8 list" where
  "encode_super sb = le_bytes 4 (sb_num_blocks sb) @ le_bytes 4 (sb_num_data_blocks sb) @
     le_bytes 4 (sb_num_inodes sb) @ le_bytes 4 (sb_num_log_blocks sb) @ le_bytes 4 (sb_log_start sb) @
     le_bytes 4 (sb_inode_start sb) @ le_bytes 4 (sb_bitmap_start sb)"

text \<open>\<^verbatim>\<open>get_super_block\<close> of \<^verbatim>\<open>fs/block_device.c\<close> reads the structure from block 1.\<close>

definition get_super_block :: "u8 list \<Rightarrow> super_block" where
  "get_super_block d = \<lparr>sb_num_blocks = le_nat (get_bytes 0 4 d), sb_num_data_blocks = le_nat (get_bytes 4 4 d),
     sb_num_inodes = le_nat (get_bytes 8 4 d), sb_num_log_blocks = le_nat (get_bytes 12 4 d),
     sb_log_start = le_nat (get_bytes 16 4 d), sb_inode_start = le_nat (get_bytes 20 4 d),
     sb_bitmap_start = le_nat (get_bytes 24 4 d)\<rparr>"

text \<open>The bytes of a path as a C string.\<close>

definition c_string :: "u8 list \<Rightarrow> cstr" where
  "c_string p = (\<lambda>i. if i < length p then p ! i else 0)"

abbreviation slash :: u8 where "slash \<equiv> 0x2F"
abbreviation underscore :: u8 where "underscore \<equiv> 0x5F"
abbreviation dot :: u8 where "dot \<equiv> 0x2E"

text \<open>The counter \<^verbatim>\<open>j\<close> of the loop over a path: the distance from the last slash.\<close>

fun path_scan :: "u8 list \<Rightarrow> int \<Rightarrow> int" where
  "path_scan [] j = j"
| "path_scan (c # cs) j = path_scan cs ((if c = slash then -1 else j) + 1)"

definition base_name :: "u8 list \<Rightarrow> u8 list" where
  "base_name path = drop (length path - nat (path_scan path 0)) path"

definition append_dirent :: "nat \<Rightarrow> nat \<Rightarrow> cstr \<Rightarrow> mk_state \<Rightarrow> mk_state option" where
  "append_dirent dir inum name s = iappend dir (encode_dirent (xshort inum) name) s"

fun copy_file :: "nat \<Rightarrow> u8 list list \<Rightarrow> mk_state \<Rightarrow> mk_state option" where
  "copy_file inum [] s = Some s"
| "copy_file inum (buf # bufs) s =
     (if length buf > 0 then do { s \<leftarrow> iappend inum buf s; copy_file inum bufs s } else Some s)"

definition add_file :: "host \<Rightarrow> nat \<Rightarrow> u8 list \<Rightarrow> mk_state \<Rightarrow> mk_state option" where
  "add_file h rootino path s = do {
     let name = base_name path;
     if slash \<in> set name then None else do {
       bufs \<leftarrow> host_open h path;
       let name = (if c_string name 0 = underscore then tl name else name);
       (inum, s) \<leftarrow> ialloc INODE_REGULAR s;
       s \<leftarrow> append_dirent rootino inum (strncpy (\<lambda>_. 0) (c_string name) FILE_NAME_MAX_LENGTH) s;
       copy_file inum bufs s } }"

definition format_disk :: "mk_state" where
  "format_disk =
     (let s = \<lparr>img = (\<lambda>_. replicate BLOCK_SIZE 0), img_len = 0, mk_sb = mk_super, freeinode = 1, freeblock = nmeta\<rparr>;
          s = fold (\<lambda>i. wsect i (replicate BLOCK_SIZE 0)) [0..<FSSIZE] s
      in wsect 1 (put_bytes 0 (encode_super (mk_sb s)) (replicate BLOCK_SIZE 0)) s)"

definition fix_root :: "nat \<Rightarrow> mk_state \<Rightarrow> mk_state option" where
  "fix_root rootino s = do {
     din \<leftarrow> rinode rootino s;
     let off = xint (num_bytes din);
     let off = (off div BLOCK_SIZE + 1) * BLOCK_SIZE mod 2 ^ 32;
     winode rootino (din\<lparr>num_bytes := xint off\<rparr>) s }"

definition mkfs_main :: "host \<Rightarrow> u8 list list \<Rightarrow> mk_state option" where
  "mkfs_main h argv =
     (case argv of
        [] \<Rightarrow> None
      | fs_img # paths \<Rightarrow>
          if can_create h fs_img then do {
            let s = format_disk;
            (rootino, s) \<leftarrow> ialloc INODE_DIRECTORY s;
            if rootino = ROOT_INODE_NO then do {
              s \<leftarrow> append_dirent rootino rootino (c_string [dot]) s;
              s \<leftarrow> append_dirent rootino rootino (c_string [dot, dot]) s;
              s \<leftarrow> for_each (add_file h rootino) paths s;
              s \<leftarrow> fix_root rootino s;
              balloc (freeblock s) s }
            else None }
          else None)"

end
