(* ===== verification/Mkfs_Image.thy ===== *)
theory Mkfs_Image
  imports Mkfs
begin

text \<open>
  What \<^verbatim>\<open>iappend\<close> does to the image: a file that occupies its first blocks is extended by
  the appended bytes, in blocks taken in order from \<^verbatim>\<open>freeblock\<close>, and nothing else that is
  in use changes.
\<close>

section \<open>Byte order, sectors and the layout\<close>

lemma xint_eq: "xint x = x mod 2 ^ 32"
proof -
  have "xint x = le_nat (le_bytes (Suc (Suc (Suc (Suc 0)))) x)"
    by (simp add: xint_def div_mult2_eq [symmetric])
  also have "\<dots> = x mod 2 ^ 32" by (simp only: le_nat_le_bytes) simp
  finally show ?thesis .
qed

lemma xshort_eq: "xshort x = x mod 2 ^ 16"
proof -
  have "xshort x = le_nat (le_bytes (Suc (Suc 0)) x)" by (simp add: xshort_def)
  also have "\<dots> = x mod 2 ^ 16" by (simp only: le_nat_le_bytes) simp
  finally show ?thesis .
qed

lemma xint_id: "x < 2 ^ 32 \<Longrightarrow> xint x = x" by (simp add: xint_eq)
lemma xshort_id: "x < 2 ^ 16 \<Longrightarrow> xshort x = x" by (simp add: xshort_eq)

lemma seek_id: "sec < 2 ^ 23 \<Longrightarrow> seek sec = sec" by (simp add: seek_def)

lemma nmeta_value: "nmeta = 92"
  by (simp add: nmeta_def num_log_blocks_def ninodeblocks_def nbitmap_def)

lemma mk_super_value:
  "mk_super = \<lparr>sb_num_blocks = 1000, sb_num_data_blocks = 908, sb_num_inodes = 200, sb_num_log_blocks = 63,
     sb_log_start = 2, sb_inode_start = 65, sb_bitmap_start = 91\<rparr>"
  by (simp add: mk_super_def xint_eq nmeta_value num_log_blocks_def ninodeblocks_def)

lemma rsect_in: "sec < img_len s \<Longrightarrow> sec < 2 ^ 23 \<Longrightarrow> rsect sec s = Some (img s sec)"
  by (simp add: rsect_def seek_id)

lemma wsect_in: "sec < img_len s \<Longrightarrow> sec < 2 ^ 23 \<Longrightarrow> wsect sec d s = s\<lparr>img := (img s)(sec := d)\<rparr>"
  by (simp add: wsect_def seek_id max_def)

section \<open>Well-formed images and files\<close>

definition mk_disk :: "mk_state \<Rightarrow> bool" where
  "mk_disk s \<longleftrightarrow> img_len s = FSSIZE \<and> mk_sb s = mk_super \<and> (\<forall>b. length (img s b) = BLOCK_SIZE) \<and>
     nmeta \<le> freeblock s \<and> freeblock s \<le> FSSIZE \<and> (\<forall>b \<ge> freeblock s. img s b = replicate BLOCK_SIZE 0)"

text \<open>The first \<open>n\<close> blocks of a file are mapped, to distinct blocks between the metadata and \<open>fb\<close>.\<close>

definition mk_map :: "inode_entry \<Rightarrow> contents \<Rightarrow> nat \<Rightarrow> nat \<Rightarrow> bool" where
  "mk_map e C fb n \<longleftrightarrow> length (addrs e) = INODE_NUM_DIRECT \<and> (indirect e \<noteq> 0 \<longleftrightarrow> INODE_NUM_DIRECT < n) \<and>
     (\<forall>i < INODE_MAX_BLOCKS. blk_of e C i \<noteq> 0 \<longleftrightarrow> i < n) \<and> blocks_of e C \<subseteq> {nmeta..<fb} \<and>
     (\<forall>i < INODE_MAX_BLOCKS. blk_of e C i \<noteq> 0 \<longrightarrow> blk_of e C i \<noteq> indirect e \<and>
       (\<forall>j < INODE_MAX_BLOCKS. blk_of e C j = blk_of e C i \<longrightarrow> j = i))"

definition mk_data :: "inode_entry \<Rightarrow> contents \<Rightarrow> u8 list \<Rightarrow> bool" where
  "mk_data e C d \<longleftrightarrow> (\<forall>x < INODE_MAX_BYTES. file_byte e C x = (if x < length d then d ! x else 0))"

definition nblk :: "nat \<Rightarrow> nat" where
  "nblk n = (n + BLOCK_SIZE - 1) div BLOCK_SIZE"

text \<open>The number of blocks a file of \<open>n\<close> bytes takes, its indirect block included.\<close>

definition usage :: "nat \<Rightarrow> nat" where
  "usage n = nblk n + (if INODE_NUM_DIRECT < nblk n then 1 else 0)"

definition mk_file :: "inode_entry \<Rightarrow> mk_state \<Rightarrow> u8 list \<Rightarrow> bool" where
  "mk_file e s d \<longleftrightarrow> mk_map e (img s) (freeblock s) (nblk (length d)) \<and> mk_data e (img s) d"

text \<open>A step on the file \<open>e\<close>: it may change the file's own blocks and blocks that were not in use.\<close>

definition mk_step :: "inode_entry \<Rightarrow> mk_state \<Rightarrow> inode_entry \<Rightarrow> mk_state \<Rightarrow> bool" where
  "mk_step e s e' s' \<longleftrightarrow> freeinode s' = freeinode s \<and> freeblock s \<le> freeblock s' \<and>
     (\<forall>b < freeblock s. b \<notin> blocks_of e (img s) \<longrightarrow> img s' b = img s b) \<and>
     blocks_of e' (img s') \<subseteq> blocks_of e (img s) \<union> {freeblock s..} \<and>
     e'\<lparr>addrs := addrs e, indirect := indirect e\<rparr> = e"

lemma mk_step_refl: "mk_step e s e s"
  by (simp add: mk_step_def)

lemma mk_step_trans:
  assumes 1: "mk_step e s e1 s1" and 2: "mk_step e1 s1 e2 s2"
  shows "mk_step e s e2 s2"
proof -
  have "e2\<lparr>addrs := addrs e, indirect := indirect e\<rparr> =
      (e2\<lparr>addrs := addrs e1, indirect := indirect e1\<rparr>)\<lparr>addrs := addrs e, indirect := indirect e\<rparr>" by simp
  also have "\<dots> = e" using assms by (simp add: mk_step_def)
  finally have e: "e2\<lparr>addrs := addrs e, indirect := indirect e\<rparr> = e" .
  have "img s2 b = img s b" if b: "b < freeblock s" "b \<notin> blocks_of e (img s)" for b
  proof -
    have "b \<notin> blocks_of e1 (img s1)" using 1 b by (auto simp: mk_step_def)
    moreover have "b < freeblock s1" using 1 b by (simp add: mk_step_def)
    ultimately show ?thesis using 1 2 b by (simp add: mk_step_def)
  qed
  moreover have "blocks_of e2 (img s2) \<subseteq> blocks_of e (img s) \<union> {freeblock s..}"
    using 1 2 by (auto simp: mk_step_def)
  ultimately show ?thesis using 1 2 e by (auto simp: mk_step_def)
qed

lemma mk_mapD:
  assumes "mk_map e C fb n"
  shows "length (addrs e) = INODE_NUM_DIRECT" and "indirect e \<noteq> 0 \<longleftrightarrow> INODE_NUM_DIRECT < n"
    and "i < INODE_MAX_BLOCKS \<Longrightarrow> blk_of e C i \<noteq> 0 \<longleftrightarrow> i < n" and "blocks_of e C \<subseteq> {nmeta..<fb}"
    and "indirect e \<noteq> 0 \<Longrightarrow> indirect e < fb \<and> nmeta \<le> indirect e"
    and "i < INODE_MAX_BLOCKS \<Longrightarrow> i < n \<Longrightarrow> blk_of e C i < fb \<and> nmeta \<le> blk_of e C i \<and> blk_of e C i \<noteq> indirect e"
    and "i < INODE_MAX_BLOCKS \<Longrightarrow> i < n \<Longrightarrow> j < INODE_MAX_BLOCKS \<Longrightarrow> blk_of e C j = blk_of e C i \<Longrightarrow> j = i"
proof -
  show "length (addrs e) = INODE_NUM_DIRECT" "indirect e \<noteq> 0 \<longleftrightarrow> INODE_NUM_DIRECT < n"
    "i < INODE_MAX_BLOCKS \<Longrightarrow> blk_of e C i \<noteq> 0 \<longleftrightarrow> i < n" and sub: "blocks_of e C \<subseteq> {nmeta..<fb}"
    using assms by (simp_all add: mk_map_def)
  show "indirect e < fb \<and> nmeta \<le> indirect e" if "indirect e \<noteq> 0"
    using that subsetD [OF sub, of "indirect e"] by (simp add: blocks_of_def)
  show "blk_of e C i < fb \<and> nmeta \<le> blk_of e C i \<and> blk_of e C i \<noteq> indirect e" if i: "i < INODE_MAX_BLOCKS" "i < n"
  proof -
    have nz: "blk_of e C i \<noteq> 0" using assms i by (simp add: mk_map_def)
    then have "blk_of e C i \<in> blocks_of e C" using i by (simp add: blocks_of_def)
    then show ?thesis using sub nz i assms by (auto simp: mk_map_def)
  qed
  show "j = i" if "i < INODE_MAX_BLOCKS" "i < n" "j < INODE_MAX_BLOCKS" "blk_of e C j = blk_of e C i"
    using assms that by (simp add: mk_map_def)
qed

lemma mk_map_cong:
  assumes "mk_map e C fb n" and same: "\<And>b. b \<in> blocks_of e C \<Longrightarrow> C' b = C b" and "fb \<le> fb'"
  shows "mk_map e C' fb' n" and "blk_of e C' i = blk_of e C i" and "blocks_of e C' = blocks_of e C"
proof -
  have bl: "blk_of e C' i = blk_of e C i" for i
    using same [of "indirect e"] by (auto simp: blk_of_def blocks_of_def)
  then show "blk_of e C' i = blk_of e C i" "blocks_of e C' = blocks_of e C"
    by (simp_all add: blocks_of_def)
  then show "mk_map e C' fb' n"
    using assms(1,3) by (auto simp: mk_map_def bl)
qed

lemma mk_data_cong:
  assumes "mk_map e C fb n" and same: "\<And>b. b \<in> blocks_of e C \<Longrightarrow> C' b = C b"
  shows "mk_data e C' d = mk_data e C d"
proof -
  have "file_byte e C' x = file_byte e C x" if "x < INODE_MAX_BYTES" for x
  proof (rule file_byte_cong)
    have "x div BLOCK_SIZE < INODE_MAX_BLOCKS" using that by (simp add: div_less_iff_less_mult)
    then show "C' (blk_of e C (x div BLOCK_SIZE)) = C (blk_of e C (x div BLOCK_SIZE))"
      if "blk_of e C (x div BLOCK_SIZE) \<noteq> 0"
      using that by (intro same) (simp add: blocks_of_def)
  qed (rule mk_map_cong(2) [OF assms order_refl])
  then show ?thesis by (simp add: mk_data_def)
qed

section \<open>Mapping a block\<close>

lemma iappend_map_old:
  assumes "mk_disk s" and m: "mk_map e (img s) (freeblock s) n" and k: "k < n" "k < INODE_MAX_BLOCKS"
  shows "iappend_map k e s = Some (blk_of e (img s) k, e, s)"
proof -
  note b = mk_mapD(6) [OF m k(2,1)]
  have fb: "freeblock s \<le> 1000" "img_len s = 1000" using assms(1) by (simp_all add: mk_disk_def)
  show ?thesis
  proof (cases "k < INODE_NUM_DIRECT")
    case True
    then show ?thesis using b fb nmeta_value by (simp add: iappend_map_def blk_of_def xint_id)
  next
    case False
    then have ind: "indirect e \<noteq> 0" using mk_mapD(2) [OF m] k by simp
    then have i: "indirect e < 1000" using mk_mapD(5) [OF m] fb by simp
    then show ?thesis
      using False b fb ind nmeta_value by (simp add: iappend_map_def blk_of_def xint_id rsect_in)
  qed
qed

lemma mk_map_extend:
  assumes m: "mk_map e C fb n" and n: "n < INODE_MAX_BLOCKS" and l: "length (addrs e') = INODE_NUM_DIRECT"
    and r: "fb \<le> r" "nmeta \<le> fb"
    and ind: "indirect e' = (if n = INODE_NUM_DIRECT then fb else indirect e)" "n = INODE_NUM_DIRECT \<Longrightarrow> fb < r"
    and bl: "\<And>i. i < INODE_MAX_BLOCKS \<Longrightarrow> blk_of e' C' i = (if i = n then r else blk_of e C i)"
  shows "mk_map e' C' (Suc r) (Suc n)"
    and "blocks_of e' C' \<subseteq> blocks_of e C \<union> {fb..}"
proof -
  note M = mk_mapD [OF m]
  have pos: "0 < fb" "0 < r" using r nmeta_value by simp_all
  have B: "blocks_of e' C' \<subseteq> blocks_of e C \<union> {fb, r}"
  proof
    fix b assume b: "b \<in> blocks_of e' C'"
    then consider "b = indirect e'" "b \<noteq> 0" | i where "i < INODE_MAX_BLOCKS" "b = blk_of e' C' i" "b \<noteq> 0"
      by (auto simp: blocks_of_def)
    then show "b \<in> blocks_of e C \<union> {fb, r}"
      by cases (auto simp: ind(1) bl blocks_of_def)
  qed
  then show "blocks_of e' C' \<subseteq> blocks_of e C \<union> {fb..}" using r(1) by fastforce
  have sub: "blocks_of e' C' \<subseteq> {nmeta..<Suc r}"
    using B M(4) r by fastforce
  have lt: "blk_of e C i < fb" if "i < INODE_MAX_BLOCKS" for i
    using M(3) [OF that] M(6) [OF that] pos by (cases "i < n") auto
  have i0: "indirect e' \<noteq> 0 \<longleftrightarrow> INODE_NUM_DIRECT < Suc n" using M(2) pos by (auto simp: ind(1))
  have ir: "indirect e' < r"
    using M(5) r pos ind(2) by (cases "n = INODE_NUM_DIRECT"; cases "indirect e = 0") (simp_all add: ind(1))
  have ne: "blk_of e' C' i \<noteq> indirect e'" if i: "i < INODE_MAX_BLOCKS" "blk_of e' C' i \<noteq> 0" for i
  proof (cases "i = n")
    case True
    then show ?thesis using bl [OF i(1)] ir by simp
  next
    case False
    then have "blk_of e' C' i = blk_of e C i" "i < n" using bl [OF i(1)] M(3) [OF i(1)] i(2) by simp_all
    then show ?thesis using M(6) [OF i(1)] by (auto simp: ind(1))
  qed
  have inj: "j = i" if "i < INODE_MAX_BLOCKS" "blk_of e' C' i \<noteq> 0" "j < INODE_MAX_BLOCKS" "blk_of e' C' j = blk_of e' C' i" for i j
  proof -
    have "i = n \<longleftrightarrow> blk_of e' C' i = r" "j = n \<longleftrightarrow> blk_of e' C' j = r"
      using bl [OF that(1)] bl [OF that(3)] lt [OF that(1)] lt [OF that(3)] r(1) by auto
    then have same: "i = n \<longleftrightarrow> j = n" using that(4) by simp
    show ?thesis
    proof (cases "i = n")
      case False
      then have eq: "blk_of e C j = blk_of e C i" and "blk_of e C i \<noteq> 0"
        using same that(2,4) bl [OF that(1)] bl [OF that(3)] by simp_all
      then have "i < n" using M(3) [OF that(1)] by blast
      from M(7) [OF that(1) this that(3) eq] show ?thesis .
    qed (use same in simp)
  qed
  have nz: "blk_of e' C' i \<noteq> 0 \<longleftrightarrow> i < Suc n" if "i < INODE_MAX_BLOCKS" for i
    using bl [OF that] M(3) [OF that] pos by auto
  show "mk_map e' C' (Suc r) (Suc n)"
    unfolding mk_map_def using l i0 nz sub ne inj by blast
qed

text \<open>The state after the next block of a file has been mapped.\<close>

definition mk_grown :: "inode_entry \<Rightarrow> mk_state \<Rightarrow> nat \<Rightarrow> inode_entry \<Rightarrow> mk_state \<Rightarrow> bool" where
  "mk_grown e s n e' s' \<longleftrightarrow> mk_disk s' \<and> mk_map e' (img s') (freeblock s') (Suc n) \<and> mk_step e s e' s' \<and>
     freeblock s' = freeblock s + (if n = INODE_NUM_DIRECT then 2 else 1) \<and>
     (\<forall>i < INODE_MAX_BLOCKS. i \<noteq> n \<longrightarrow> blk_of e' (img s') i = blk_of e (img s) i) \<and>
     img s' (blk_of e' (img s') n) = replicate BLOCK_SIZE 0 \<and>
     (\<forall>i < INODE_MAX_BLOCKS. i < n \<longrightarrow> img s' (blk_of e (img s) i) = img s (blk_of e (img s) i))"

lemma iappend_map_direct:
  assumes D: "mk_disk s" and m: "mk_map e (img s) (freeblock s) n" and n: "n < INODE_NUM_DIRECT"
    and fits: "freeblock s + 1 \<le> FSSIZE"
  shows "\<exists>e' s'. iappend_map n e s = Some (blk_of e' (img s') n, e', s') \<and> mk_grown e s n e' s'"
proof -
  let ?r = "freeblock s"
  let ?e = "e\<lparr>addrs := (addrs e)[n := ?r]\<rparr>" and ?s = "s\<lparr>freeblock := Suc ?r\<rparr>"
  note M = mk_mapD [OF m]
  have fb: "?r < 1000" "nmeta \<le> ?r" using D fits by (simp_all add: mk_disk_def)
  have i0: "indirect e = 0" using M(2) n by simp
  have zero: "addrs e ! n = 0" using M(3) [of n] n by (simp add: blk_of_def)
  have run: "iappend_map n e s = Some (?r, ?e, ?s)"
    using n zero fb M(1) by (simp add: iappend_map_def xint_id take_block_def)
  have bl: "blk_of ?e (img s) i = (if i = n then ?r else blk_of e (img s) i)" for i
    using n M(1) i0 by (auto simp: blk_of_def)
  have E: "mk_map ?e (img s) (Suc ?r) (Suc n)" "blocks_of ?e (img s) \<subseteq> blocks_of e (img s) \<union> {?r..}"
    using mk_map_extend [OF m, of ?e ?r "img s"] n M(1) fb bl by auto
  have "mk_disk ?s" using D fits by (simp add: mk_disk_def)
  moreover have "mk_step e s ?e ?s" using E(2) by (simp add: mk_step_def)
  moreover have "img s ?r = replicate BLOCK_SIZE 0" using D by (simp add: mk_disk_def)
  ultimately have "mk_grown e s n ?e ?s" using E(1) bl n by (simp add: mk_grown_def)
  moreover have "blk_of ?e (img ?s) n = ?r" by (simp add: bl)
  ultimately show ?thesis using run by metis
qed

lemma iappend_map_indirect:
  assumes D: "mk_disk s" and m: "mk_map e (img s) (freeblock s) n"
    and n: "INODE_NUM_DIRECT \<le> n" "n < INODE_MAX_BLOCKS"
    and fits: "freeblock s + (if n = INODE_NUM_DIRECT then 2 else 1) \<le> FSSIZE"
  shows "\<exists>e' s'. iappend_map n e s = Some (blk_of e' (img s') n, e', s') \<and> mk_grown e s n e' s'"
proof -
  define ind where "ind = (if n = INODE_NUM_DIRECT then freeblock s else indirect e)"
  define r where "r = (if n = INODE_NUM_DIRECT then Suc (freeblock s) else freeblock s)"
  let ?C = "img s" and ?o = "n - INODE_NUM_DIRECT"
  let ?e = "e\<lparr>indirect := ind\<rparr>"
  let ?C' = "?C(ind := put_addr (?C ind) ?o r)"
  let ?s = "s\<lparr>img := ?C', freeblock := Suc r\<rparr>"
  note M = mk_mapD [OF m]
  have fb: "freeblock s \<le> 1000" "nmeta \<le> freeblock s" "img_len s = 1000" "\<And>b. length (?C b) = 512"
    "\<And>b. freeblock s \<le> b \<Longrightarrow> ?C b = replicate BLOCK_SIZE 0"
    using D by (simp_all add: mk_disk_def)
  have r: "r < 1000" "freeblock s \<le> r" "0 < r" "n = INODE_NUM_DIRECT \<Longrightarrow> freeblock s < r"
    using fits fb nmeta_value by (auto simp: r_def split: if_splits)
  have ind: "ind \<noteq> 0" "ind < r"
    using M(2,5) n fb nmeta_value by (auto simp: ind_def r_def)
  have o: "?o < INODE_NUM_INDIRECT" using n by simp
  have entries: "get_addr (?C ind) i = blk_of e ?C (i + INODE_NUM_DIRECT)" if "i < INODE_NUM_INDIRECT" for i
  proof (cases "n = INODE_NUM_DIRECT")
    case True
    then have "?C ind = replicate BLOCK_SIZE 0" "indirect e = 0" using fb(5) M(2) by (simp_all add: ind_def)
    then show ?thesis using that by (simp add: blk_of_def get_addr_zero [simplified])
  next
    case False
    then show ?thesis using M(2) n by (simp add: ind_def blk_of_def)
  qed
  have zero: "get_addr (?C ind) ?o = 0" using entries [OF o] M(3) [of n] n by simp
  have put: "get_addr (put_addr (?C ind) ?o r) j = (if j = ?o then r else get_addr (?C ind) j)"
    if "j < INODE_NUM_INDIRECT" for j
    using get_put_addr [OF _ o that, of "?C ind" r] fb(4) r(1) by simp
  have run: "iappend_map n e s = Some (r, ?e, ?s)"
  proof (cases "n = INODE_NUM_DIRECT")
    case True
    then have "indirect e = 0" "rsect ind (s\<lparr>freeblock := Suc ind\<rparr>) = Some (?C ind)"
      using M(2) fb r ind by (simp_all add: rsect_in)
    then show ?thesis
      using True zero put [OF o] fb r ind
      by (simp add: iappend_map_def take_block_def xint_id ind_def r_def wsect_in Let_def)
  next
    case False
    then have "indirect e \<noteq> 0" "rsect ind s = Some (?C ind)" using M(2) n fb r ind by (simp_all add: rsect_in)
    then show ?thesis
      using False n zero put [OF o] fb r ind
      by (simp add: iappend_map_def take_block_def xint_id ind_def r_def wsect_in Let_def)
  qed
  have bl: "blk_of ?e ?C' i = (if i = n then r else blk_of e ?C i)" if "i < INODE_MAX_BLOCKS" for i
  proof (cases "i < INODE_NUM_DIRECT")
    case True
    then show ?thesis using n by (simp add: blk_of_def)
  next
    case False
    then have i: "i - INODE_NUM_DIRECT < INODE_NUM_INDIRECT" using that by simp
    have "i - INODE_NUM_DIRECT = ?o \<longleftrightarrow> i = n" using False n by auto
    then show ?thesis using False put [OF i] entries [OF i] ind(1) by (simp add: blk_of_def)
  qed
  have E: "mk_map ?e ?C' (Suc r) (Suc n)" "blocks_of ?e ?C' \<subseteq> blocks_of e ?C \<union> {freeblock s..}"
    using mk_map_extend [OF m n(2), of ?e r ?C'] M(1) r fb bl by (auto simp: ind_def)
  have "mk_disk ?s"
    using D r(1,2) ind(2) fb(4) o by (auto simp: mk_disk_def)
  moreover have "mk_step e s ?e ?s"
    using E(2) r(2) ind by (auto simp: mk_step_def ind_def blocks_of_def split: if_splits)
  moreover have "?C' r = replicate BLOCK_SIZE 0" using fb(5) [OF r(2)] ind by simp
  moreover have "blk_of e ?C i \<noteq> ind" if "i < INODE_MAX_BLOCKS" "i < n" for i
    using M(6) [OF that] by (auto simp: ind_def)
  moreover have "Suc r = freeblock s + (if n = INODE_NUM_DIRECT then 2 else 1)" by (simp add: r_def)
  ultimately have "mk_grown e s n ?e ?s" using E(1) bl n by (simp add: mk_grown_def)
  moreover have "blk_of ?e (img ?s) n = r" using bl [OF n(2)] by simp
  ultimately show ?thesis using run by metis
qed

section \<open>Appending\<close>

lemma nblk_div: "nblk n = (if n mod BLOCK_SIZE = 0 then n div BLOCK_SIZE else Suc (n div BLOCK_SIZE))"
proof -
  define q r where "q = n div BLOCK_SIZE" and "r = n mod BLOCK_SIZE"
  have n: "n = BLOCK_SIZE * q + r" "r < BLOCK_SIZE" by (simp_all add: q_def r_def)
  have "(BLOCK_SIZE * q + r + 511) div BLOCK_SIZE = q + (r + 511) div BLOCK_SIZE" by simp
  moreover have "(r + 511) div BLOCK_SIZE = (if r = 0 then 0 else 1)"
    using n(2) by (auto simp: div_nat_eqI)
  moreover have "nblk n = (BLOCK_SIZE * q + r + 511) div BLOCK_SIZE" by (simp add: nblk_def n(1))
  ultimately show ?thesis by (simp add: q_def [symmetric] r_def [symmetric])
qed

lemma nblk_append:
  assumes "0 < m" and "n mod BLOCK_SIZE + m \<le> BLOCK_SIZE"
  shows "nblk (n + m) = Suc (n div BLOCK_SIZE)"
proof -
  define q r where "q = n div BLOCK_SIZE" and "r = n mod BLOCK_SIZE"
  have n: "n = BLOCK_SIZE * q + r" by (simp add: q_def r_def)
  have "nblk (n + m) = (BLOCK_SIZE * q + (r + m + 511)) div BLOCK_SIZE"
    unfolding nblk_def n by (simp add: ac_simps)
  also have "\<dots> = q + (r + m + 511) div BLOCK_SIZE" by simp
  also have "(r + m + 511) div BLOCK_SIZE = 1"
    using assms by (simp add: r_def [symmetric] div_nat_eqI)
  finally show ?thesis by (simp add: q_def)
qed

lemma nblk_le: "n \<le> BLOCK_SIZE * nblk n"
  by (simp add: nblk_def)

lemma block_max: "x < INODE_MAX_BYTES \<Longrightarrow> x div BLOCK_SIZE < INODE_MAX_BLOCKS"
  by (simp add: div_less_iff_less_mult)

lemma mapped_block:
  assumes D: "mk_disk s" and F: "mk_file e s d" and m: "0 < m" "length d mod BLOCK_SIZE + m \<le> BLOCK_SIZE"
    and k: "length d div BLOCK_SIZE < INODE_MAX_BLOCKS"
    and fits: "freeblock s + usage (length d + m) \<le> FSSIZE + usage (length d)"
  shows "\<exists>e' s'. iappend_map (length d div BLOCK_SIZE) e s = Some (blk_of e' (img s') (length d div BLOCK_SIZE), e', s') \<and>
    mk_disk s' \<and> mk_map e' (img s') (freeblock s') (nblk (length d + m)) \<and> mk_data e' (img s') d \<and>
    mk_step e s e' s' \<and> freeblock s' + usage (length d) = freeblock s + usage (length d + m)"
proof (cases "length d mod BLOCK_SIZE = 0")
  case False
  then have n: "nblk (length d) = Suc (length d div BLOCK_SIZE)" by (simp add: nblk_div)
  then have u: "usage (length d + m) = usage (length d)" by (simp add: usage_def nblk_append [OF m])
  have M: "mk_map e (img s) (freeblock s) (nblk (length d))" and dat: "mk_data e (img s) d"
    using F by (simp_all add: mk_file_def)
  have "iappend_map (length d div BLOCK_SIZE) e s = Some (blk_of e (img s) (length d div BLOCK_SIZE), e, s)"
    using iappend_map_old [OF D M] n k by simp
  then show ?thesis
    using D M dat n u mk_step_refl [of e s] by (intro exI [of _ e] exI [of _ s]) (simp add: nblk_append [OF m])
next
  case True
  let ?n = "length d div BLOCK_SIZE"
  have n: "nblk (length d) = ?n" using True by (simp add: nblk_div)
  have u: "usage (length d + m) = usage (length d) + (if ?n = INODE_NUM_DIRECT then 2 else 1)"
    by (auto simp: usage_def nblk_append [OF m] n)
  have M: "mk_map e (img s) (freeblock s) ?n" and dat: "mk_data e (img s) d"
    using F n by (simp_all add: mk_file_def)
  have fits': "freeblock s + (if ?n = INODE_NUM_DIRECT then 2 else 1) \<le> FSSIZE" using fits u by simp
  have "\<exists>e' s'. iappend_map ?n e s = Some (blk_of e' (img s') ?n, e', s') \<and> mk_grown e s ?n e' s'"
  proof (cases "?n < INODE_NUM_DIRECT")
    case True
    then show ?thesis using iappend_map_direct [OF D M] fits' by simp
  next
    case False
    then show ?thesis using iappend_map_indirect [OF D M _ k fits'] by simp
  qed
  then obtain e' s' where r: "iappend_map ?n e s = Some (blk_of e' (img s') ?n, e', s')" and g: "mk_grown e s ?n e' s'"
    by blast
  note G = g [unfolded mk_grown_def]
  have "file_byte e' (img s') x = (if x < length d then d ! x else 0)" if x: "x < INODE_MAX_BYTES" for x
  proof (cases "x div BLOCK_SIZE = ?n")
    case eq: True
    have "?n * BLOCK_SIZE \<le> x" using eq div_times_less_eq_dividend [of x BLOCK_SIZE] by simp
    moreover have "length d = ?n * BLOCK_SIZE" using True by (simp add: mod_eq_0_iff_dvd)
    moreover have "x mod BLOCK_SIZE < BLOCK_SIZE" by simp
    ultimately show ?thesis using G eq by (simp add: file_byte_def Let_def)
  next
    case False
    note i = block_max [OF x]
    have "file_byte e' (img s') x = file_byte e (img s) x"
    proof (rule file_byte_cong)
      show "blk_of e' (img s') (x div BLOCK_SIZE) = blk_of e (img s) (x div BLOCK_SIZE)" using G i False by simp
      assume "blk_of e (img s) (x div BLOCK_SIZE) \<noteq> 0"
      then have "x div BLOCK_SIZE < ?n" using mk_mapD(3) [OF M i] by simp
      then show "img s' (blk_of e (img s) (x div BLOCK_SIZE)) = img s (blk_of e (img s) (x div BLOCK_SIZE))"
        using G i by simp
    qed
    then show ?thesis using dat x by (simp add: mk_data_def)
  qed
  then have "mk_data e' (img s') d" by (simp add: mk_data_def)
  moreover have "freeblock s' + usage (length d) = freeblock s + usage (length d + m)" using G u by auto
  moreover have "mk_map e' (img s') (freeblock s') (nblk (length d + m))" "mk_disk s'" "mk_step e s e' s'"
    unfolding nblk_append [OF m] using G by blast+
  ultimately show ?thesis using r by blast
qed

lemma write_mapped:
  assumes D: "mk_disk s" and m: "mk_map e (img s) (freeblock s) (nblk (length d + length q))"
    and dat: "mk_data e (img s) d" and q: "q \<noteq> []" "length d mod BLOCK_SIZE + length q \<le> BLOCK_SIZE"
    and k: "length d div BLOCK_SIZE < INODE_MAX_BLOCKS"
  defines "x \<equiv> blk_of e (img s) (length d div BLOCK_SIZE)"
  defines "s' \<equiv> s\<lparr>img := (img s)(x := put_bytes (length d mod BLOCK_SIZE) q (img s x))\<rparr>"
  shows "x < freeblock s" and "nmeta \<le> x" and "mk_disk s'" and "mk_file e s' (d @ q)" and "mk_step e s e s'"
proof -
  let ?k = "length d div BLOCK_SIZE" and ?r = "length d mod BLOCK_SIZE"
  have n: "nblk (length d + length q) = Suc ?k" using q by (simp add: nblk_append)
  note M = mk_mapD [OF m]
  have x: "x < freeblock s" "nmeta \<le> x" "x \<noteq> indirect e" using M(6) [OF k] n by (simp_all add: x_def)
  then show "x < freeblock s" "nmeta \<le> x" by simp_all
  have xin: "x \<in> blocks_of e (img s)" using x(2) k nmeta_value by (simp add: blocks_of_def x_def)
  have len: "length (img s x) = BLOCK_SIZE" using D by (simp add: mk_disk_def)
  show "mk_disk s'" using D x q by (auto simp: mk_disk_def s'_def)
  have bl: "blk_of e (img s') i = blk_of e (img s) i" for i using x(3) by (simp add: blk_of_def s'_def)
  then have bs: "blocks_of e (img s') = blocks_of e (img s)" by (simp add: blocks_of_def)
  have "mk_map e (img s') (freeblock s') (nblk (length (d @ q)))"
    using m by (simp add: mk_map_def bl bs) (simp add: s'_def)
  moreover have "file_byte e (img s') y = (if y < length (d @ q) then (d @ q) ! y else 0)" if y: "y < INODE_MAX_BYTES" for y
  proof (cases "y div BLOCK_SIZE = ?k")
    case True
    have old: "file_byte e (img s) y = img s x ! (y mod BLOCK_SIZE)"
      using True x(2) nmeta_value by (simp add: file_byte_def Let_def x_def)
    have "file_byte e (img s') y = put_bytes ?r q (img s x) ! (y mod BLOCK_SIZE)"
      using True x(2) nmeta_value bl by (simp add: file_byte_def Let_def x_def [symmetric]) (simp add: s'_def)
    also have "\<dots> = (if ?r \<le> y mod BLOCK_SIZE \<and> y mod BLOCK_SIZE < ?r + length q
        then q ! (y mod BLOCK_SIZE - ?r) else img s x ! (y mod BLOCK_SIZE))"
      using q(2) len by (subst nth_put_bytes) simp_all
    finally have new: "file_byte e (img s') y = \<dots>" .
    have yk: "y = ?k * BLOCK_SIZE + y mod BLOCK_SIZE" "length d = ?k * BLOCK_SIZE + ?r"
      using True div_mult_mod_eq [of y BLOCK_SIZE] by simp_all
    then have "?r \<le> y mod BLOCK_SIZE \<longleftrightarrow> length d \<le> y" "y mod BLOCK_SIZE - ?r = y - length d"
        "y mod BLOCK_SIZE < ?r + length q \<longleftrightarrow> y < length d + length q" by linarith+
    moreover have "img s x ! (y mod BLOCK_SIZE) = (if y < length d then d ! y else 0)"
      using old dat y by (simp add: mk_data_def)
    ultimately have "file_byte e (img s') y =
        (if length d \<le> y \<and> y < length d + length q then q ! (y - length d) else if y < length d then d ! y else 0)"
      using new by simp
    then show ?thesis by (simp add: nth_append)
  next
    case False
    have same: "file_byte e (img s') y = file_byte e (img s) y"
    proof (rule file_byte_cong [OF bl])
      assume "blk_of e (img s) (y div BLOCK_SIZE) \<noteq> 0"
      have "blk_of e (img s) (y div BLOCK_SIZE) \<noteq> x"
        using M(7) [OF k _ block_max [OF y]] n False by (auto simp: x_def)
      then show "img s' (blk_of e (img s) (y div BLOCK_SIZE)) = img s (blk_of e (img s) (y div BLOCK_SIZE))"
        by (simp add: s'_def)
    qed
    have "y < length d + length q \<longleftrightarrow> y < length d"
    proof
      assume "y < length d + length q"
      moreover have "length d + length q \<le> (?k + 1) * BLOCK_SIZE"
        using q(2) div_mult_mod_eq [of "length d" BLOCK_SIZE] unfolding add_mult_distrib by linarith
      ultimately have "y div BLOCK_SIZE < ?k + 1" by (simp add: div_less_iff_less_mult)
      with False have "y div BLOCK_SIZE < ?k" by simp
      then show "y < length d" using div_le_mono [of "length d" y BLOCK_SIZE] by (meson leD leI)
    qed simp
    then show ?thesis using same dat y by (simp add: mk_data_def nth_append)
  qed
  ultimately show "mk_file e s' (d @ q)" by (simp add: mk_file_def mk_data_def)
  show "mk_step e s e s'" using bs xin by (auto simp: mk_step_def) (auto simp: s'_def)
qed

lemma usage_mono: "m \<le> n \<Longrightarrow> usage m \<le> usage n"
proof -
  assume "m \<le> n"
  then have "nblk m \<le> nblk n" unfolding nblk_def by (intro div_le_mono) simp
  then show ?thesis by (auto simp: usage_def)
qed

lemma nblk_max: "n \<le> INODE_MAX_BYTES \<Longrightarrow> nblk n \<le> INODE_MAX_BLOCKS"
  using div_le_mono [of "n + 511" "INODE_MAX_BYTES + 511" 512] by (simp add: nblk_def)

text \<open>The loop of \<^verbatim>\<open>iappend\<close> returns whenever the bytes fit, and then the file is longer by exactly them.\<close>

lemma iappend_loop_spec:
  assumes "mk_disk s" and "mk_file e s d" and "length d + length p \<le> INODE_MAX_BYTES"
    and "freeblock s + usage (length d + length p) \<le> FSSIZE + usage (length d)"
  shows "\<exists>e' s'. iappend_loop (length d) p e s = Some (length d + length p, e', s') \<and> mk_disk s' \<and>
    mk_file e' s' (d @ p) \<and> mk_step e s e' s' \<and>
    freeblock s' + usage (length d) = freeblock s + usage (length d + length p)"
  using assms
proof (induction "length p" arbitrary: p d e s rule: less_induct)
  case less
  show ?case
  proof (cases "p = []")
    case True
    then show ?thesis using less.prems mk_step_refl [of e s]
      by (intro exI [of _ e] exI [of _ s]) (simp add: iappend_loop.simps [of _ "[]"])
  next
    case False
    let ?k = "length d div BLOCK_SIZE" and ?r = "length d mod BLOCK_SIZE"
    define m where "m = min (length p) ((?k + 1) * BLOCK_SIZE - length d)"
    have kr: "length d = ?k * BLOCK_SIZE + ?r" "?r < BLOCK_SIZE" by simp_all
    then have rest: "(?k + 1) * BLOCK_SIZE - length d = BLOCK_SIZE - ?r" "length d - ?k * BLOCK_SIZE = ?r"
      unfolding add_mult_distrib by linarith+
    have m: "0 < m" "?r + m \<le> BLOCK_SIZE" "m \<le> length p"
      using False kr(2) unfolding m_def rest(1) by auto
    have k: "?k < INODE_MAX_BLOCKS"
      using block_max [of "length d"] less.prems(3) False by (cases p) auto
    have um: "usage (length d + m) \<le> usage (length d + length p)" using m(3) by (intro usage_mono) simp
    then have fits: "freeblock s + usage (length d + m) \<le> FSSIZE + usage (length d)" using less.prems(4) by simp
    from mapped_block [OF less.prems(1,2) m(1,2) k fits] obtain e1 s1 where
      1: "iappend_map ?k e s = Some (blk_of e1 (img s1) ?k, e1, s1)" "mk_disk s1"
        "mk_map e1 (img s1) (freeblock s1) (nblk (length d + m))" "mk_data e1 (img s1) d" "mk_step e s e1 s1"
        "freeblock s1 + usage (length d) = freeblock s + usage (length d + m)" by blast
    let ?q = "take m p" and ?x = "blk_of e1 (img s1) ?k"
    let ?s = "s1\<lparr>img := (img s1)(?x := put_bytes ?r ?q (img s1 ?x))\<rparr>"
    have q: "length ?q = m" "?q \<noteq> []" using m by auto
    note W = write_mapped [OF 1(2) _ 1(4) q(2) _ k, unfolded q(1), OF 1(3) m(2)]
    have x: "?x < img_len s1" "?x < 2 ^ 23" using W(1) 1(2) by (simp_all add: mk_disk_def)
    have run: "iappend_loop (length d) p e s = iappend_loop (length (d @ ?q)) (drop m p) e1 ?s"
      using False k 1(1) rsect_in [OF x] wsect_in [OF x]
      by (subst iappend_loop.simps) (simp add: Let_def m_def [symmetric, simplified] rest(2) q(1) min_absorb2 [OF m(3)])
    have tot: "length (d @ ?q) + length (drop m p) = length d + length p" using m by simp
    have "freeblock ?s + usage (length d + length p) \<le> FSSIZE + usage (length (d @ ?q))"
      using 1(6) less.prems(4) q(1) by simp
    then have room: "freeblock ?s + usage (length (d @ ?q) + length (drop m p)) \<le> FSSIZE + usage (length (d @ ?q))"
      by (simp only: tot)
    have short: "length (drop m p) < length p" "length (d @ ?q) + length (drop m p) \<le> INODE_MAX_BYTES"
      using m(1) False less.prems(3) by (simp, simp only: tot)
    have join: "(d @ ?q) @ drop m p = d @ p" by simp
    from less.hyps [OF short(1) W(3,4) short(2) room] obtain e' s' where
      2: "iappend_loop (length (d @ ?q)) (drop m p) e1 ?s = Some (length d + length p, e', s')"
        "mk_disk s'" "mk_file e' s' (d @ p)" "mk_step e1 ?s e' s'"
        "freeblock s' + usage (length (d @ ?q)) = freeblock ?s + usage (length d + length p)"
      unfolding tot join by blast
    have "mk_step e s e' s'"
      by (rule mk_step_trans [OF 1(5) mk_step_trans [OF W(5) 2(4)]])
    moreover have "freeblock s' + usage (length d) = freeblock s + usage (length d + length p)"
      using 2(5) 1(6) q(1) by simp
    ultimately show ?thesis using run 2(1-3) by auto
  qed
qed

end
