(* ===== verification/Mkfs_Files.thy ===== *)
theory Mkfs_Files
  imports Mkfs_Image
begin

text \<open>
  The inode table of the image: entries survive being written to their sector, and the
  invariant \<open>mk_inv s T F\<close> says that the inodes handed out so far have the types \<open>T\<close> and
  the contents \<open>F\<close>, in disjoint blocks. \<^verbatim>\<open>ialloc\<close> and \<^verbatim>\<open>iappend\<close> keep it.
\<close>

section \<open>Entries on disk\<close>

definition entry_fits :: "inode_entry \<Rightarrow> bool" where
  "entry_fits e \<longleftrightarrow> itype e < 2 ^ 16 \<and> major e < 2 ^ 16 \<and> minor e < 2 ^ 16 \<and> num_links e < 2 ^ 16 \<and>
     num_bytes e < 2 ^ 32 \<and> length (addrs e) = INODE_NUM_DIRECT \<and> (\<forall>i < INODE_NUM_DIRECT. addrs e ! i < 2 ^ 32) \<and>
     indirect e < 2 ^ 32"

lemma decode_encode_entry:
  assumes "entry_fits e"
  shows "decode_entry (encode_entry e) = e"
proof -
  define R where "R = concat (map (le_bytes 4) (addrs e)) @ le_bytes 4 (indirect e)"
  have len: "length (addrs e) = INODE_NUM_DIRECT" using assms by (simp add: entry_fits_def)
  have E: "encode_entry e = le_bytes 2 (itype e) @ le_bytes 2 (major e) @ le_bytes 2 (minor e) @
      le_bytes 2 (num_links e) @ le_bytes 4 (num_bytes e) @ R"
    by (simp add: encode_entry_def R_def)
  have f: "get_bytes 0 2 (encode_entry e) = le_bytes 2 (itype e)" "get_bytes 2 2 (encode_entry e) = le_bytes 2 (major e)"
    "get_bytes 4 2 (encode_entry e) = le_bytes 2 (minor e)" "get_bytes 6 2 (encode_entry e) = le_bytes 2 (num_links e)"
    "get_bytes 8 4 (encode_entry e) = le_bytes 4 (num_bytes e)"
    by (simp_all add: E get_bytes_def)
  have tail: "get_bytes (12 + n) 4 (encode_entry e) = get_bytes n 4 R" for n
    by (simp add: E get_bytes_def)
  have a: "get_bytes (12 + 4 * i) 4 (encode_entry e) = le_bytes 4 (addrs e ! i)" if "i < INODE_NUM_DIRECT" for i
    unfolding tail R_def using that len by (intro get_bytes_concat) simp
  have "length (concat (map (le_bytes 4) (addrs e))) = 48" by (simp add: length_concat_fixed len)
  then have "get_bytes (12 + 48) 4 (encode_entry e) = le_bytes 4 (indirect e)"
    unfolding tail R_def by (simp add: get_bytes_def)
  then have ind: "get_bytes 60 4 (encode_entry e) = le_bytes 4 (indirect e)" by simp
  have ad: "map (\<lambda>i. le_nat (get_bytes (12 + 4 * i) 4 (encode_entry e))) [0..<INODE_NUM_DIRECT] = addrs e"
  proof (rule nth_equalityI)
    show "map (\<lambda>i. le_nat (get_bytes (12 + 4 * i) 4 (encode_entry e))) [0..<INODE_NUM_DIRECT] ! i = addrs e ! i"
      if "i < length (map (\<lambda>i. le_nat (get_bytes (12 + 4 * i) 4 (encode_entry e))) [0..<INODE_NUM_DIRECT])" for i
      using that a [of i] assms by (simp add: le_nat_le_bytes entry_fits_def)
  qed (simp add: len)
  show ?thesis
    using assms by (simp add: decode_entry_def f ind ad le_nat_le_bytes entry_fits_def)
qed

lemma get_put_entry:
  assumes "length d = BLOCK_SIZE" and "entry_fits e"
  shows "get_entry (put_entry d n e) n = e"
proof -
  have l: "length (encode_entry e) = 64" using assms(2) by (simp add: entry_fits_def)
  then have "get_bytes (entry_off n) 64 (put_entry d n e) = encode_entry e"
    unfolding put_entry_def
    using get_put_same [of "entry_off n" "encode_entry e" d] entry_off_fits [of n] assms(1) by simp
  then show ?thesis by (simp add: get_entry_def decode_encode_entry [OF assms(2)])
qed

lemma get_put_entry_other:
  assumes "length d = BLOCK_SIZE" and "entry_fits e" and "m mod INODE_PER_BLOCK \<noteq> n mod INODE_PER_BLOCK"
  shows "get_entry (put_entry d n e) m = get_entry d m"
proof -
  have l: "length (encode_entry e) = 64" using assms(2) by (simp add: entry_fits_def)
  have "get_bytes (entry_off m) 64 (put_entry d n e) = get_bytes (entry_off m) 64 d"
    unfolding put_entry_def
    using entry_off_fits [of n] entry_off_fits [of m] assms(1,3) l
    by (intro get_put_disjoint) (simp_all add: entry_off_def, arith)
  then show ?thesis by (simp add: get_entry_def)
qed

section \<open>The inode table\<close>

abbreviation ino_block :: "nat \<Rightarrow> nat" where "ino_block n \<equiv> to_block_no mk_super n"

definition ent :: "mk_state \<Rightarrow> nat \<Rightarrow> inode_entry" where
  "ent s n = get_entry (img s (ino_block n)) n"

definition set_ent :: "nat \<Rightarrow> inode_entry \<Rightarrow> mk_state \<Rightarrow> mk_state" where
  "set_ent n e s = s\<lparr>img := (img s)(ino_block n := put_entry (img s (ino_block n)) n e)\<rparr>"

lemma ino_block: "n < 208 \<Longrightarrow> 65 \<le> ino_block n \<and> ino_block n < 91"
  by (simp add: to_block_no_def mk_super_value div_less_iff_less_mult)

lemma set_ent_frame [simp]:
  "img_len (set_ent n e s) = img_len s" "mk_sb (set_ent n e s) = mk_sb s"
  "freeinode (set_ent n e s) = freeinode s" "freeblock (set_ent n e s) = freeblock s"
  by (simp_all add: set_ent_def)

lemma set_ent_img: "b \<noteq> ino_block n \<Longrightarrow> img (set_ent n e s) b = img s b"
  by (simp add: set_ent_def)

lemma winode_spec:
  assumes "mk_disk s" and "n < 208"
  shows "winode n e s = Some (set_ent n e s)" and "rinode n s = Some (ent s n)"
proof -
  have "ino_block n < img_len s" "ino_block n < 2 ^ 23" "mk_sb s = mk_super"
    using assms ino_block [of n] by (simp_all add: mk_disk_def)
  then show "winode n e s = Some (set_ent n e s)" "rinode n s = Some (ent s n)"
    by (simp_all add: winode_def rinode_def rsect_in wsect_in set_ent_def ent_def Let_def)
qed

lemma set_ent_disk: "mk_disk s \<Longrightarrow> n < 208 \<Longrightarrow> entry_fits e \<Longrightarrow> mk_disk (set_ent n e s)"
  using ino_block [of n] by (auto simp: mk_disk_def set_ent_def entry_fits_def nmeta_value)

lemma ent_set_ent:
  assumes "mk_disk s" and "entry_fits e"
  shows "ent (set_ent n e s) m = (if m = n then e else ent s m)"
proof -
  have len: "length (img s (ino_block n)) = BLOCK_SIZE" using assms(1) by (simp add: mk_disk_def)
  have "ino_block m = ino_block n \<longleftrightarrow> m div INODE_PER_BLOCK = n div INODE_PER_BLOCK" by (simp add: to_block_no_def)
  moreover have "m = n \<longleftrightarrow> m div INODE_PER_BLOCK = n div INODE_PER_BLOCK \<and> m mod INODE_PER_BLOCK = n mod INODE_PER_BLOCK"
    by (metis div_mult_mod_eq)
  ultimately show ?thesis
    using get_put_entry [OF len assms(2)] get_put_entry_other [OF len assms(2), of m n]
    by (auto simp: ent_def set_ent_def)
qed

text \<open>A file keeps its bytes as long as its own blocks are kept.\<close>

lemma mk_file_cong:
  assumes "mk_file e s d" and "\<And>b. b \<in> blocks_of e (img s) \<Longrightarrow> img s' b = img s b" and "freeblock s \<le> freeblock s'"
  shows "mk_file e s' d" and "blocks_of e (img s') = blocks_of e (img s)"
  using assms mk_map_cong [of e "img s" "freeblock s" _ "img s'" "freeblock s'"] mk_data_cong [of e "img s" "freeblock s" _ "img s'" d]
  by (auto simp: mk_file_def)

lemma mk_file_blocks:
  assumes "mk_file e s d"
  shows "b \<in> blocks_of e (img s) \<Longrightarrow> nmeta \<le> b \<and> b < freeblock s"
    and "length (addrs e) = INODE_NUM_DIRECT" and "i < INODE_NUM_DIRECT \<Longrightarrow> addrs e ! i < freeblock s \<or> addrs e ! i = 0"
    and "indirect e < freeblock s \<or> indirect e = 0"
proof -
  have m: "mk_map e (img s) (freeblock s) (nblk (length d))" using assms by (simp add: mk_file_def)
  show "b \<in> blocks_of e (img s) \<Longrightarrow> nmeta \<le> b \<and> b < freeblock s" "length (addrs e) = INODE_NUM_DIRECT"
    using mk_mapD(1,4) [OF m] by auto
  show "addrs e ! i < freeblock s \<or> addrs e ! i = 0" if "i < INODE_NUM_DIRECT"
    using that mk_mapD(3,6) [OF m, of i] by (auto simp: blk_of_def)
  show "indirect e < freeblock s \<or> indirect e = 0" using mk_mapD(5) [OF m] by auto
qed

lemma mk_file_size [simp]: "mk_file (e\<lparr>num_bytes := n\<rparr>) s d = mk_file e s d"
    "blocks_of (e\<lparr>num_bytes := n\<rparr>) C = blocks_of e C"
  by (simp_all add: mk_file_def mk_map_def mk_data_def blocks_of_def)

definition mk_ino :: "mk_state \<Rightarrow> inode_entry \<Rightarrow> nat \<Rightarrow> u8 list \<Rightarrow> bool" where
  "mk_ino s e t d \<longleftrightarrow> mk_file e s d \<and> num_bytes e = length d \<and> length d \<le> INODE_MAX_BYTES \<and>
     itype e = t \<and> num_links e = 1 \<and> major e = 0 \<and> minor e = 0"

definition mk_inv :: "mk_state \<Rightarrow> (nat \<Rightarrow> nat) \<Rightarrow> (nat \<Rightarrow> u8 list) \<Rightarrow> bool" where
  "mk_inv s T F \<longleftrightarrow> mk_disk s \<and> 0 < freeinode s \<and> freeinode s \<le> NINODES \<and>
     (\<forall>i. 0 < i \<and> i < freeinode s \<longrightarrow> mk_ino s (ent s i) (T i) (F i) \<and> T i < 2 ^ 16) \<and>
     (\<forall>i j. 0 < i \<and> i < j \<and> j < freeinode s \<longrightarrow>
        blocks_of (ent s i) (img s) \<inter> blocks_of (ent s j) (img s) = {}) \<and>
     (\<forall>m. freeinode s \<le> m \<and> m < 208 \<longrightarrow> itype (ent s m) = INODE_INVALID) \<and>
     get_super_block (img s 1) = mk_super \<and> img s 2 = replicate BLOCK_SIZE 0"

lemma mk_invD:
  assumes "mk_inv s T F"
  shows "mk_disk s" and "0 < freeinode s" and "freeinode s \<le> NINODES"
    and "0 < i \<Longrightarrow> i < freeinode s \<Longrightarrow> mk_ino s (ent s i) (T i) (F i)"
    and "0 < i \<Longrightarrow> i < freeinode s \<Longrightarrow> T i < 2 ^ 16"
    and "0 < i \<Longrightarrow> i < freeinode s \<Longrightarrow> 0 < j \<Longrightarrow> j < freeinode s \<Longrightarrow> i \<noteq> j \<Longrightarrow>
      blocks_of (ent s i) (img s) \<inter> blocks_of (ent s j) (img s) = {}"
    and "freeinode s \<le> m \<Longrightarrow> m < 208 \<Longrightarrow> itype (ent s m) = INODE_INVALID"
    and "get_super_block (img s 1) = mk_super" and "img s 2 = replicate BLOCK_SIZE 0"
proof -
  show "blocks_of (ent s i) (img s) \<inter> blocks_of (ent s j) (img s) = {}"
    if "0 < i" "i < freeinode s" "0 < j" "j < freeinode s" "i \<noteq> j"
    using assms that unfolding mk_inv_def by (cases "i < j") (blast, metis inf_commute linorder_neqE_nat)
qed (use assms in \<open>auto simp: mk_inv_def\<close>)

lemma mk_ino_fits:
  assumes "mk_disk s" and "mk_file e s d" and "num_bytes e < 2 ^ 32" and "itype e < 2 ^ 16"
    and "num_links e = 1" "major e = 0" "minor e = 0"
  shows "entry_fits e"
proof -
  have "freeblock s \<le> 1000" using assms(1) by (simp add: mk_disk_def)
  then show ?thesis
    using assms(3-) mk_file_blocks(2,4) [OF assms(2)] mk_file_blocks(3) [OF assms(2)]
    by (force simp: entry_fits_def)
qed

text \<open>Storing an entry whose blocks are its old ones or fresh keeps every other file.\<close>

lemma mk_inv_store:
  assumes inv: "mk_inv s T F" and i: "0 < i" "i \<le> freeinode s" and D: "mk_disk s1" and fb: "freeblock s \<le> freeblock s1"
    and fi: "freeinode s1 = max (freeinode s) (Suc i)" "freeinode s1 \<le> NINODES"
    and B: "i < freeinode s \<Longrightarrow> B = blocks_of (ent s i) (img s)" "i = freeinode s \<Longrightarrow> B = {}"
    and keep: "\<And>b. b < freeblock s \<Longrightarrow> b \<notin> B \<Longrightarrow> img s1 b = img s b"
    and e: "mk_ino s1 e t d" "t < 2 ^ 16" "blocks_of e (img s1) \<subseteq> B \<union> {freeblock s..}"
  shows "mk_inv (set_ent i e s1) (T(i := t)) (F(i := d))"
proof -
  note I = mk_invD [OF inv]
  have i208: "i < 208" using fi by simp
  have fbm: "nmeta \<le> freeblock s" using I(1) by (simp add: mk_disk_def)
  have "length d < 2 ^ 32" using e(1) by (simp add: mk_ino_def)
  then have fits: "entry_fits e" using mk_ino_fits [OF D] e(1,2) by (auto simp: mk_ino_def)
  let ?s = "set_ent i e s1"
  have Bm: "b \<in> B \<Longrightarrow> nmeta \<le> b" for b
    using B I(4) [OF i(1)] i(2) mk_file_blocks(1) by (cases "i = freeinode s") (auto simp: mk_ino_def)
  have low: "img s1 b = img s b" if "b < nmeta" for b using that Bm [of b] fbm by (intro keep) (simp, linarith)
  have hi: "img ?s b = img s1 b" if "nmeta \<le> b" for b
    using that ino_block [OF i208] nmeta_value by (intro set_ent_img) auto
  have ents: "ent ?s m = (if m = i then e else ent s m)" if "m < 208" for m
    using ent_set_ent [OF D fits, of i m] low [of "ino_block m"] ino_block [OF that] nmeta_value by (simp add: ent_def)
  have keepfile: "mk_file f ?s x \<and> blocks_of f (img ?s) = blocks_of f (img s1)" if "mk_file f s1 x" for f x
    using mk_file_cong [OF that, of ?s] mk_file_blocks(1) [OF that] hi by auto
  have old: "mk_ino ?s (ent s j) (T j) (F j) \<and> blocks_of (ent s j) (img ?s) = blocks_of (ent s j) (img s)"
    if j: "0 < j" "j < freeinode s" "j \<noteq> i" for j
  proof -
    have f: "mk_file (ent s j) s (F j)" using I(4) [OF j(1,2)] by (simp add: mk_ino_def)
    have dis: "b \<notin> B" if "b \<in> blocks_of (ent s j) (img s)" for b
      using that B I(6) [OF j(1,2) i(1)] j(3) i(2) by (cases "i = freeinode s") auto
    have "img s1 b = img s b" if "b \<in> blocks_of (ent s j) (img s)" for b
      using keep dis [OF that] mk_file_blocks(1) [OF f that] by simp
    from mk_file_cong [OF f this fb] keepfile I(4) [OF j(1,2)] show ?thesis by (simp add: mk_ino_def)
  qed
  have me: "mk_ino ?s e t d \<and> blocks_of e (img ?s) = blocks_of e (img s1)"
    using e(1) keepfile [of e d] by (simp add: mk_ino_def)
  have meo: "blocks_of (ent s j) (img s) \<inter> blocks_of e (img s1) = {}" if j: "0 < j" "j < freeinode s" "j \<noteq> i" for j
  proof -
    have f: "mk_file (ent s j) s (F j)" using I(4) [OF j(1,2)] by (simp add: mk_ino_def)
    show ?thesis
      using e(3) mk_file_blocks(1) [OF f] B I(6) [OF j(1,2) i(1)] j(3) i(2)
      by (cases "i = freeinode s") fastforce+
  qed
  have lt: "j < freeinode s \<or> j = i" if "j < freeinode s1" for j using that fi(1) i(2) by auto
  have j208: "j < 208" if "j < freeinode s1" for j using that fi(2) by simp
  have ino: "mk_ino ?s (ent ?s j) ((T(i := t)) j) ((F(i := d)) j) \<and> (T(i := t)) j < 2 ^ 16" if "0 < j" "j < freeinode s1" for j
    using that lt [of j] old [of j] me e(2) I(5) [of j] ents [OF j208] by auto
  have dj: "blocks_of (ent ?s a) (img ?s) \<inter> blocks_of (ent ?s b) (img ?s) = {}"
    if ab: "0 < a" "a < b" "b < freeinode s1" for a b
  proof -
    have E: "ent ?s a = (if a = i then e else ent s a)" "ent ?s b = (if b = i then e else ent s b)"
      using ents [of a] ents [of b] j208 [of a] j208 [of b] ab by simp_all
    consider "a = i" "b \<noteq> i" | "b = i" "a \<noteq> i" | "a \<noteq> i" "b \<noteq> i" using ab by auto
    then show ?thesis
    proof cases
      case 1
      then show ?thesis using E me old [of b] meo [of b] lt [of b] ab by auto
    next
      case 2
      then show ?thesis using E me old [of a] meo [of a] lt [of a] ab by auto
    next
      case 3
      then show ?thesis using E old [of a] old [of b] I(6) [of a b] lt [of a] lt [of b] ab by auto
    qed
  qed
  have "itype (ent ?s m) = INODE_INVALID" if "freeinode s1 \<le> m" "m < 208" for m
    using ents [OF that(2)] I(7) [OF _ that(2)] that(1) fi(1) by simp
  moreover have "img ?s 1 = img s 1" "img ?s 2 = img s 2"
    using ino_block [OF i208] low [of 1] low [of 2] nmeta_value by (simp_all add: set_ent_img)
  ultimately show ?thesis
    using set_ent_disk [OF D i208 fits] ino dj fi i(1) I(8,9) by (simp add: mk_inv_def)
qed

section \<open>The operations keep the invariant\<close>

lemma ialloc_spec:
  assumes inv: "mk_inv s T F" and fi: "freeinode s < NINODES" and t: "t < 2 ^ 16"
  shows "\<exists>s'. ialloc t s = Some (freeinode s, s') \<and> mk_inv s' (T(freeinode s := t)) (F(freeinode s := [])) \<and>
    freeinode s' = Suc (freeinode s) \<and> freeblock s' = freeblock s"
proof -
  let ?i = "freeinode s"
  let ?e = "zero_entry\<lparr>itype := t, num_links := 1, num_bytes := 0\<rparr>" and ?s = "s\<lparr>freeinode := Suc ?i\<rparr>"
  note I = mk_invD [OF inv]
  have D: "mk_disk ?s" using I(1) by (simp add: mk_disk_def)
  have bl: "blk_of ?e C k = 0" if "k < INODE_MAX_BLOCKS" for C k using that by (simp add: blk_of_def zero_entry_def)
  then have blocks: "blocks_of ?e C = {}" for C by (auto simp: blocks_of_def zero_entry_def)
  have "mk_file ?e ?s []"
    using bl blocks by (auto simp: mk_file_def mk_map_def mk_data_def nblk_def file_byte_def zero_entry_def block_max [simplified])
  then have e: "mk_ino ?s ?e t []" by (simp add: mk_ino_def zero_entry_def)
  have "mk_inv (set_ent ?i ?e ?s) (T(?i := t)) (F(?i := []))"
    using mk_inv_store [OF inv I(2) order_refl D, of "{}" ?e t "[]"] fi e t blocks by simp
  moreover have "ialloc t s = Some (?i, set_ent ?i ?e ?s)"
    using fi t winode_spec(1) [OF D, of ?i] by (simp add: ialloc_def xshort_id xint_id Let_def)
  ultimately show ?thesis by auto
qed

lemma iappend_spec:
  assumes inv: "mk_inv s T F" and i: "0 < i" "i < freeinode s"
    and size: "length (F i) + length p \<le> INODE_MAX_BYTES"
    and room: "freeblock s + usage (length (F i) + length p) \<le> FSSIZE + usage (length (F i))"
  shows "\<exists>s'. iappend i p s = Some s' \<and> mk_inv s' T (F(i := F i @ p)) \<and> freeinode s' = freeinode s \<and>
    freeblock s' + usage (length (F i)) = freeblock s + usage (length (F i) + length p)"
proof -
  note I = mk_invD [OF inv]
  have i208: "i < 208" using i I(3) by simp
  note E = I(4) [OF i, unfolded mk_ino_def]
  have f: "mk_file (ent s i) s (F i)" using E by simp
  from iappend_loop_spec [OF I(1) f size room] obtain e' s' where
    L: "iappend_loop (length (F i)) p (ent s i) s = Some (length (F i) + length p, e', s')" "mk_disk s'"
      "mk_file e' s' (F i @ p)" "mk_step (ent s i) s e' s'"
      "freeblock s' + usage (length (F i)) = freeblock s + usage (length (F i) + length p)" by blast
  let ?e = "e'\<lparr>num_bytes := length (F i) + length p\<rparr>"
  have S: "e'\<lparr>addrs := addrs (ent s i), indirect := indirect (ent s i)\<rparr> = ent s i" using L(4) by (simp add: mk_step_def)
  have "major e' = major (ent s i)" "minor e' = minor (ent s i)"
    using arg_cong [OF S, of major] arg_cong [OF S, of minor] by simp_all
  with same_but_map [OF S] E L(3) size have e: "mk_ino s' ?e (T i) (F i @ p)" by (simp add: mk_ino_def)
  have "mk_inv (set_ent i ?e s') (T(i := T i)) (F(i := F i @ p))"
  proof (rule mk_inv_store [OF inv i(1) _ L(2), of "blocks_of (ent s i) (img s)"])
    show "blocks_of ?e (img s') \<subseteq> blocks_of (ent s i) (img s) \<union> {freeblock s..}"
      using L(4) by (simp add: mk_step_def)
    show "freeinode s' = max (freeinode s) (Suc i)" "freeinode s' \<le> NINODES"
      using L(4) i I(3) by (simp_all add: mk_step_def)
  qed (use i e I(5) [OF i] L(4) in \<open>simp_all add: mk_step_def\<close>)
  moreover have "iappend i p s = Some (set_ent i ?e s')"
    using L(1) winode_spec(2) [OF I(1) i208] winode_spec(1) [OF L(2) i208] E size by (simp add: iappend_def xint_id)
  moreover have "freeinode s' = freeinode s" using L(4) by (simp add: mk_step_def)
  ultimately show ?thesis using L(5) by auto
qed

end
