(* ===== verification/Mkfs_Proofs.thy ===== *)
theory Mkfs_Proofs
  imports Mkfs_Files Swap
begin

text \<open>
  The whole image builder: the formatted disk satisfies the invariant, every argument adds
  one file and one directory entry, the size of the root directory is rounded up, and the
  bitmap marks exactly the blocks below \<^verbatim>\<open>freeblock\<close>. The result is an image on which the
  invariants of the kernel's file system hold.
\<close>

section \<open>Formatting\<close>

lemma wipe_fold:
  assumes "img s = (\<lambda>_. replicate BLOCK_SIZE 0)" and "img_len s = 0" and "n \<le> FSSIZE"
  shows "fold (\<lambda>i. wsect i (replicate BLOCK_SIZE 0)) [0..<n] s = s\<lparr>img_len := n\<rparr>"
  using assms(3)
proof (induction n)
  case 0
  then show ?case using assms(2) by simp
next
  case (Suc n)
  then show ?case using assms(1) by (simp add: wsect_def seek_id fun_upd_idem)
qed

lemma super_roundtrip:
  "get_super_block (put_bytes 0 (encode_super mk_super) (replicate BLOCK_SIZE 0)) = mk_super"
  by (simp add: get_super_block_def put_bytes_def encode_super_def get_bytes_def le_nat_le_bytes mk_super_value)

lemma format_disk_value:
  "format_disk = \<lparr>img = (\<lambda>_. replicate BLOCK_SIZE 0)(1 := put_bytes 0 (encode_super mk_super) (replicate BLOCK_SIZE 0)),
     img_len = FSSIZE, mk_sb = mk_super, freeinode = 1, freeblock = nmeta\<rparr>"
proof -
  let ?s = "\<lparr>img = (\<lambda>_. replicate BLOCK_SIZE 0), img_len = 0, mk_sb = mk_super, freeinode = 1, freeblock = nmeta\<rparr>"
  have w: "fold (\<lambda>i. wsect i (replicate BLOCK_SIZE 0)) [0..<FSSIZE] ?s = ?s\<lparr>img_len := FSSIZE\<rparr>"
    by (rule wipe_fold) simp_all
  show ?thesis unfolding format_disk_def Let_def w by (simp add: wsect_def seek_def)
qed

lemma get_entry_zeros: "itype (get_entry (replicate BLOCK_SIZE 0) m) = 0"
proof -
  have "get_bytes (entry_off m) 64 (replicate BLOCK_SIZE (0 :: u8)) = replicate 64 0"
    using entry_off_fits [of m] by (intro get_bytes_replicate) simp
  then show ?thesis by (simp add: get_entry_def decode_entry_def)
qed

lemma format_disk_inv: "mk_inv format_disk T F"
proof -
  have "img format_disk (ino_block m) = replicate BLOCK_SIZE 0" if "m < 208" for m
    using ino_block [OF that] by (simp add: format_disk_value)
  then have z: "itype (ent format_disk m) = 0" if "m < 208" for m
    using that get_entry_zeros by (simp add: ent_def)
  have len: "length (encode_super mk_super) = 28" by (simp add: encode_super_def)
  have "mk_disk format_disk"
    by (simp add: mk_disk_def format_disk_value len nmeta_value)
  then show ?thesis
    using z super_roundtrip by (simp add: mk_inv_def format_disk_value)
qed

section \<open>Names\<close>

lemma path_scan_snoc: "path_scan (cs @ [c]) j = (if c = slash then -1 else path_scan cs j) + 1"
  by (induction cs arbitrary: j) simp_all

lemma path_scan_length: "path_scan p 0 = int (length (takeWhile (\<lambda>c. c \<noteq> slash) (rev p)))"
  by (induction p rule: rev_induct) (simp_all add: path_scan_snoc)

lemma takeWhile_rev_drop: "drop (length p - length (takeWhile P (rev p))) p = rev (takeWhile P (rev p))"
proof -
  have "takeWhile P (rev p) = take (length (takeWhile P (rev p))) (rev p)" by (simp add: takeWhile_eq_take [symmetric])
  then have "rev (takeWhile P (rev p)) = rev (take (length (takeWhile P (rev p))) (rev p))" by simp
  also have "\<dots> = drop (length p - length (takeWhile P (rev p))) p" by (simp add: rev_take)
  finally show ?thesis by simp
qed

lemma base_name_eq: "base_name p = rev (takeWhile (\<lambda>c. c \<noteq> slash) (rev p))"
  by (simp add: base_name_def path_scan_length takeWhile_rev_drop)

lemma base_name_no_slash: "slash \<notin> set (base_name p)"
  by (auto simp: base_name_eq dest: set_takeWhileD)

section \<open>What an argument adds\<close>

definition file_name :: "u8 list \<Rightarrow> u8 list" where
  "file_name p = (let n = base_name p in if c_string n 0 = underscore then tl n else n)"

definition file_bytes :: "host \<Rightarrow> u8 list \<Rightarrow> u8 list" where
  "file_bytes h p = concat (takeWhile (\<lambda>b. b \<noteq> []) (the (host_open h p)))"

definition dirent_of :: "nat \<Rightarrow> u8 list \<Rightarrow> u8 list" where
  "dirent_of n p = encode_dirent n (strncpy (\<lambda>_. 0) (c_string (file_name p)) FILE_NAME_MAX_LENGTH)"

definition dot_entries :: "u8 list" where
  "dot_entries = encode_dirent 1 (c_string [dot]) @ encode_dirent 1 (c_string [dot, dot])"

definition root_bytes :: "u8 list list \<Rightarrow> u8 list" where
  "root_bytes ps = dot_entries @ concat (map (\<lambda>k. dirent_of (k + 2) (ps ! k)) [0..<length ps])"

definition mk_type :: "nat \<Rightarrow> nat" where
  "mk_type i = (if i = ROOT_INODE_NO then INODE_DIRECTORY else INODE_REGULAR)"

definition mk_content :: "host \<Rightarrow> u8 list list \<Rightarrow> nat \<Rightarrow> u8 list" where
  "mk_content h ps i = (if i = ROOT_INODE_NO then root_bytes ps
     else if 2 \<le> i \<and> i < 2 + length ps then file_bytes h (ps ! (i - 2)) else [])"

definition mk_blocks :: "host \<Rightarrow> u8 list list \<Rightarrow> nat" where
  "mk_blocks h ps = nmeta + usage (16 * (2 + length ps)) + (\<Sum>p\<leftarrow>ps. usage (length (file_bytes h p)))"

definition mk_fits :: "host \<Rightarrow> u8 list list \<Rightarrow> bool" where
  "mk_fits h ps \<longleftrightarrow> 2 + length ps \<le> NINODES \<and> mk_blocks h ps \<le> FSSIZE \<and>
     list_all (\<lambda>p. host_open h p \<noteq> None \<and> length (file_bytes h p) \<le> INODE_MAX_BYTES) ps"

definition built :: "host \<Rightarrow> u8 list list \<Rightarrow> mk_state \<Rightarrow> bool" where
  "built h ps s \<longleftrightarrow> mk_inv s mk_type (mk_content h ps) \<and> freeinode s = 2 + length ps \<and> freeblock s = mk_blocks h ps"

lemma length_dirent [simp]: "length (encode_dirent n name) = 16" "length (dirent_of n p) = 16"
  by (simp_all add: encode_dirent_def dirent_of_def)

lemma root_bytes_snoc: "root_bytes (ps @ [p]) = root_bytes ps @ dirent_of (length ps + 2) p"
proof -
  have "map (\<lambda>k. dirent_of (k + 2) ((ps @ [p]) ! k)) [0..<length ps] = map (\<lambda>k. dirent_of (k + 2) (ps ! k)) [0..<length ps]"
    by (simp add: nth_append)
  then have "concat (map (\<lambda>k. dirent_of (k + 2) ((ps @ [p]) ! k)) [0..<length (ps @ [p])]) =
      concat (map (\<lambda>k. dirent_of (k + 2) (ps ! k)) [0..<length ps]) @ dirent_of (length ps + 2) p"
    by (simp only: length_append list.size upt_Suc_append map_append concat_append One_nat_def add_Suc_right add_0_right) simp
  then show ?thesis by (simp only: root_bytes_def append_assoc)
qed

lemma length_root_bytes [simp]: "length (root_bytes ps) = 16 * (2 + length ps)"
  by (induction ps rule: rev_induct) (simp_all add: root_bytes_snoc, simp add: root_bytes_def dot_entries_def)

lemma mk_inv_cong:
  assumes "mk_inv s T F" and "\<And>i. 0 < i \<Longrightarrow> i < freeinode s \<Longrightarrow> T' i = T i \<and> F' i = F i"
  shows "mk_inv s T' F'"
  using assms unfolding mk_inv_def by simp

section \<open>The loops of the program\<close>

lemma copy_file_spec:
  assumes "mk_inv s T F" and "0 < i" "i < freeinode s" and "d = concat (takeWhile (\<lambda>b. b \<noteq> []) bufs)"
    and "length (F i) + length d \<le> INODE_MAX_BYTES"
    and "freeblock s + usage (length (F i) + length d) \<le> FSSIZE + usage (length (F i))"
  shows "\<exists>s'. copy_file i bufs s = Some s' \<and> mk_inv s' T (F(i := F i @ d)) \<and> freeinode s' = freeinode s \<and>
    freeblock s' + usage (length (F i)) = freeblock s + usage (length (F i) + length d)"
  using assms
proof (induction bufs arbitrary: s F d)
  case Nil
  then show ?case by (simp add: fun_upd_idem)
next
  case (Cons b bufs)
  show ?case
  proof (cases "b = []")
    case True
    then show ?thesis using Cons.prems by (simp add: fun_upd_idem)
  next
    case False
    define d' where "d' = concat (takeWhile (\<lambda>b. b \<noteq> []) bufs)"
    have d: "d = b @ d'" using Cons.prems(4) False by (simp add: d'_def)
    have "usage (length (F i) + length b) \<le> usage (length (F i) + length d)" by (rule usage_mono) (simp add: d)
    then have 1: "length (F i) + length b \<le> INODE_MAX_BYTES"
        "freeblock s + usage (length (F i) + length b) \<le> FSSIZE + usage (length (F i))"
      using Cons.prems(5,6) d by simp_all
    define G where "G = F(i := F i @ b)"
    have G: "length (G i) = length (F i) + length b" "G(i := G i @ d') = F(i := F i @ d)" by (simp_all add: G_def d)
    have Gd: "length (F i) + length b + length d' = length (F i) + length d" by (simp add: d)
    obtain s1 where s1: "iappend i b s = Some s1" "mk_inv s1 T G" "freeinode s1 = freeinode s"
        "freeblock s1 + usage (length (F i)) = freeblock s + usage (length (F i) + length b)"
      using iappend_spec [OF Cons.prems(1-3) 1] unfolding G_def by blast
    have 2: "i < freeinode s1" "length (G i) + length d' \<le> INODE_MAX_BYTES"
        "freeblock s1 + usage (length (G i) + length d') \<le> FSSIZE + usage (length (G i))"
      using Cons.prems(3,5,6) s1(3,4) unfolding G(1) Gd by simp_all
    from Cons.IH [OF s1(2) Cons.prems(2) 2(1) d'_def 2(2,3), unfolded G Gd] obtain s' where
      3: "copy_file i bufs s1 = Some s'" "mk_inv s' T (F(i := F i @ d))" "freeinode s' = freeinode s1"
      "freeblock s' + usage (length (F i) + length b) = freeblock s1 + usage (length (F i) + length d)"
      by blast
    have "copy_file i (b # bufs) s = Some s'" "freeinode s' = freeinode s"
        "freeblock s' + usage (length (F i)) = freeblock s + usage (length (F i) + length d)"
      using 3(1,3,4) s1(1,3,4) False by simp_all
    with 3(2) show ?thesis by blast
  qed
qed

lemma append_dirent_spec:
  assumes inv: "mk_inv s T F" and fi: "1 < freeinode s" and n: "n < 2 ^ 16"
    and size: "length (F 1) + 16 \<le> INODE_MAX_BYTES"
    and room: "freeblock s + usage (length (F 1) + 16) \<le> FSSIZE + usage (length (F 1))"
  shows "\<exists>s'. append_dirent 1 n name s = Some s' \<and> mk_inv s' T (F(1 := F 1 @ encode_dirent n name)) \<and>
    freeinode s' = freeinode s \<and> freeblock s' + usage (length (F 1)) = freeblock s + usage (length (F 1) + 16)"
  using iappend_spec [OF inv _ fi, of "encode_dirent n name"] size room n
  by (simp add: append_dirent_def xshort_id)

lemma add_file_spec:
  assumes b: "built h ps s" and fits: "mk_fits h (ps @ [p])"
  shows "\<exists>s'. add_file h 1 p s = Some s' \<and> built h (ps @ [p]) s'"
proof -
  let ?F = "mk_content h ps" and ?i = "2 + length ps"
  let ?nm = "strncpy (\<lambda>_. 0) (c_string (file_name p)) FILE_NAME_MAX_LENGTH"
  have I: "mk_inv s mk_type ?F" "freeinode s = ?i" "freeblock s = mk_blocks h ps" using b by (simp_all add: built_def)
  have lim: "?i < NINODES" using fits by (simp add: mk_fits_def)
  obtain bufs where opn: "host_open h p = Some bufs" using fits by (auto simp: mk_fits_def)
  then have d: "file_bytes h p = concat (takeWhile (\<lambda>b. b \<noteq> []) bufs)" by (simp add: file_bytes_def)
  have tot: "mk_blocks h (ps @ [p]) \<le> FSSIZE" "length (file_bytes h p) \<le> INODE_MAX_BYTES"
    using fits by (simp_all add: mk_fits_def)
  obtain s1 where 1: "ialloc INODE_REGULAR s = Some (?i, s1)" "mk_inv s1 (mk_type(?i := INODE_REGULAR)) (?F(?i := []))"
      "freeinode s1 = Suc ?i" "freeblock s1 = freeblock s"
    using ialloc_spec [OF I(1), of INODE_REGULAR] I(2) lim by auto
  have T: "mk_type(?i := INODE_REGULAR) = mk_type" by (auto simp: mk_type_def fun_eq_iff)
  have F: "?F(?i := []) = ?F" by (auto simp: mk_content_def fun_eq_iff)
  have r: "?F 1 = root_bytes ps" "?F ?i = []" by (simp_all add: mk_content_def)
  have u: "mk_blocks h (ps @ [p]) + usage (16 * (2 + length ps)) =
      mk_blocks h ps + usage (16 * (2 + length ps) + 16) + usage (length (file_bytes h p))"
    by (simp add: mk_blocks_def algebra_simps)
  obtain s2 where 2: "append_dirent 1 ?i ?nm s1 = Some s2" "mk_inv s2 mk_type (?F(1 := root_bytes ps @ dirent_of ?i p))"
      "freeinode s2 = Suc ?i"
      "freeblock s2 + usage (16 * (2 + length ps)) = mk_blocks h ps + usage (16 * (2 + length ps) + 16)"
    using append_dirent_spec [OF 1(2) [unfolded T F], of ?i ?nm] 1(3,4) I(3) u tot(1) lim
    unfolding r length_root_bytes by (auto simp: dirent_of_def)
  define G where "G = ?F(1 := root_bytes ps @ dirent_of ?i p)"
  have G: "G ?i = []" by (simp add: G_def mk_content_def)
  have 3: "0 < ?i" "?i < freeinode s2" "length (G ?i) + length (file_bytes h p) \<le> INODE_MAX_BYTES"
      "freeblock s2 + usage (length (G ?i) + length (file_bytes h p)) \<le> FSSIZE + usage (length (G ?i))"
    unfolding G using 2(3,4) u tot by simp_all
  have u0: "usage 0 = 0" by (simp add: usage_def nblk_def)
  obtain s3 where 4: "copy_file ?i bufs s2 = Some s3" "mk_inv s3 mk_type (G(?i := file_bytes h p))"
      "freeinode s3 = Suc ?i" "freeblock s3 = freeblock s2 + usage (length (file_bytes h p))"
    using copy_file_spec [OF 2(2) [folded G_def] 3(1,2) d 3(3,4)] 2(3) unfolding G by (auto simp: u0)
  have "mk_inv s3 mk_type (mk_content h (ps @ [p]))"
    by (rule mk_inv_cong [OF 4(2)])
      (auto simp: mk_content_def root_bytes_snoc nth_append G_def 4(3) less_Suc_eq add.commute)
  moreover have "freeblock s3 = mk_blocks h (ps @ [p])" using 4(4) 2(4) u by simp
  ultimately have "built h (ps @ [p]) s3" using 4(3) by (simp add: built_def)
  moreover have "add_file h 1 p s = Some s3"
    using 1(1) 2(1) 4(1) opn base_name_no_slash [of p] by (simp add: add_file_def file_name_def Let_def)
  ultimately show ?thesis by blast
qed

lemma add_files_spec:
  assumes "built h [] s" and "mk_fits h ps"
  shows "\<exists>s'. for_each (add_file h 1) ps s = Some s' \<and> built h ps s'"
  using assms(2)
proof (induction ps rule: rev_induct)
  case Nil
  then show ?case using assms(1) by simp
next
  case (snoc p ps)
  have "(\<Sum>p\<leftarrow>ps. usage (length (file_bytes h p))) \<le> (\<Sum>p\<leftarrow>ps @ [p]. usage (length (file_bytes h p)))"
      "usage (16 * (2 + length ps)) \<le> usage (16 * (2 + length (ps @ [p])))"
    by (simp, rule usage_mono, simp)
  then have "mk_blocks h ps \<le> mk_blocks h (ps @ [p])" by (simp add: mk_blocks_def)
  then have "mk_fits h ps" using snoc.prems by (simp add: mk_fits_def)
  from snoc.IH [OF this] obtain s1 where 1: "for_each (add_file h 1) ps s = Some s1" "built h ps s1" by blast
  from add_file_spec [OF 1(2) snoc.prems] 1(1) show ?case by (auto simp: for_each_append)
qed

lemma start_spec:
  "\<exists>s0 s1 s2. ialloc INODE_DIRECTORY format_disk = Some (1, s0) \<and>
     append_dirent 1 1 (c_string [dot]) s0 = Some s1 \<and> append_dirent 1 1 (c_string [dot, dot]) s1 = Some s2 \<and> built h [] s2"
proof -
  define F where "F = (\<lambda>i :: nat. [] :: u8 list)"
  have f: "freeinode format_disk = 1" "freeblock format_disk = 92" by (simp_all add: format_disk_value nmeta_value)
  have u: "usage 0 = 0" "usage 16 = 1" "usage 32 = 1" by (simp_all add: usage_def nblk_def)
  obtain s0 where 0: "ialloc INODE_DIRECTORY format_disk = Some (1, s0)"
      "mk_inv s0 (mk_type(1 := INODE_DIRECTORY)) (F(1 := []))" "freeinode s0 = 2" "freeblock s0 = 92"
    using ialloc_spec [OF format_disk_inv [of mk_type F], of INODE_DIRECTORY] unfolding f by auto
  define G where "G = F(1 := encode_dirent 1 (c_string [dot]))"
  obtain s1 where 1: "append_dirent 1 1 (c_string [dot]) s0 = Some s1" "mk_inv s1 (mk_type(1 := INODE_DIRECTORY)) G"
      "freeinode s1 = 2" "freeblock s1 = 93"
    using append_dirent_spec [OF 0(2), of 1 "c_string [dot]"] 0(3,4) by (auto simp: u G_def)
  have lG: "length (G 1) = 16" by (simp add: G_def)
  have G2: "G(1 := G 1 @ encode_dirent 1 (c_string [dot, dot])) = F(1 := dot_entries)"
    by (simp add: G_def dot_entries_def)
  obtain s2 where 2: "append_dirent 1 1 (c_string [dot, dot]) s1 = Some s2"
      "mk_inv s2 (mk_type(1 := INODE_DIRECTORY)) (F(1 := dot_entries))" "freeinode s2 = 2" "freeblock s2 = 93"
    using append_dirent_spec [OF 1(2), of 1 "c_string [dot, dot]"] 1(3,4) unfolding lG G2 by (auto simp: u)
  have "mk_inv s2 mk_type (mk_content h [])"
    by (rule mk_inv_cong [OF 2(2)]) (auto simp: mk_type_def mk_content_def root_bytes_def 2(3))
  then have "built h [] s2" using 2(3,4) by (simp add: built_def mk_blocks_def u nmeta_value)
  with 0(1) 1(1) 2(1) show ?thesis by blast
qed

section \<open>The size of the root directory\<close>

text \<open>
  \<^verbatim>\<open>main\<close> rounds the size of the root directory up to the next multiple of the block size, and
  adds a whole block when it already is one; then the last block of the directory is not mapped.
\<close>

definition rounded :: "nat \<Rightarrow> nat" where
  "rounded n = (n div BLOCK_SIZE + 1) * BLOCK_SIZE"

lemma fix_root_run:
  assumes "mk_inv s T F" and "1 < freeinode s"
  shows "fix_root 1 s = Some (set_ent 1 ((ent s 1)\<lparr>num_bytes := rounded (length (F 1))\<rparr>) s)"
proof -
  note I = mk_invD [OF assms(1)]
  have e: "num_bytes (ent s 1) = length (F 1)" "length (F 1) \<le> INODE_MAX_BYTES"
    using I(4) [of 1] assms(2) by (simp_all add: mk_ino_def)
  have "length (F 1) div BLOCK_SIZE \<le> 140" using div_le_mono [OF e(2), of BLOCK_SIZE] by simp
  then have "(length (F 1) div BLOCK_SIZE + 1) * BLOCK_SIZE \<le> 141 * BLOCK_SIZE" by (intro mult_le_mono1) simp
  then have r: "(length (F 1) div BLOCK_SIZE + 1) * BLOCK_SIZE < 2 ^ 32" by (rule order.strict_trans1) simp
  show ?thesis
    using e r winode_spec [OF I(1), of 1] by (simp add: fix_root_def xint_id rounded_def)
qed

lemma rounded_pad:
  assumes "n mod BLOCK_SIZE \<noteq> 0"
  shows "n < rounded n" and "nblk (rounded n) = nblk n"
proof -
  show "n < rounded n" using iappend_progress [of n] by (simp only: rounded_def)
  have "rounded n mod BLOCK_SIZE = 0" "rounded n div BLOCK_SIZE = n div BLOCK_SIZE + 1"
    unfolding rounded_def by (simp_all only: mod_mult_self2_is_0 nonzero_mult_div_cancel_right zero_neq_numeral not_False_eq_True)
  then show "nblk (rounded n) = nblk n" using assms by (simp only: nblk_div if_True if_False) simp
qed

definition padded :: "u8 list \<Rightarrow> u8 list" where
  "padded d = d @ replicate (rounded (length d) - length d) 0"

lemma fix_root_spec:
  assumes inv: "mk_inv s T F" and fi: "1 < freeinode s" and n: "length (F 1) mod BLOCK_SIZE \<noteq> 0"
    and max: "rounded (length (F 1)) \<le> INODE_MAX_BYTES"
  shows "\<exists>s'. fix_root 1 s = Some s' \<and> mk_inv s' T (F(1 := padded (F 1))) \<and>
    freeinode s' = freeinode s \<and> freeblock s' = freeblock s"
proof -
  note I = mk_invD [OF inv]
  let ?e = "(ent s 1)\<lparr>num_bytes := rounded (length (F 1))\<rparr>"
  note R = rounded_pad [OF n]
  have len: "length (padded (F 1)) = rounded (length (F 1))" using R(1) by (simp add: padded_def)
  have o: "mk_ino s (ent s 1) (T 1) (F 1)" using I(4) [of 1] fi by simp
  have "mk_data (ent s 1) (img s) (padded (F 1))"
    using o by (auto simp: mk_ino_def mk_file_def mk_data_def padded_def nth_append)
  then have "mk_file (ent s 1) s (padded (F 1))"
    using o R(2) unfolding mk_ino_def mk_file_def len by simp
  then have e: "mk_ino s ?e (T 1) (padded (F 1))" using o max len by (simp add: mk_ino_def)
  have "mk_inv (set_ent 1 ?e s) (T(1 := T 1)) (F(1 := padded (F 1)))"
    by (rule mk_inv_store [OF inv _ _ I(1), where B = "blocks_of (ent s 1) (img s)"])
      (use fi e I(3) I(5) [of 1] in simp_all)
  then show ?thesis using fix_root_run [OF inv fi] by auto
qed

section \<open>The bitmap\<close>

definition bitmap_of :: "nat \<Rightarrow> u8 list" where
  "bitmap_of n = fold set_bitmap [0..<n] (replicate BLOCK_SIZE 0)"

lemma bitmap_of_bits:
  assumes "n \<le> BIT_PER_BLOCK"
  shows "length (bitmap_of n) = BLOCK_SIZE" and "j < BIT_PER_BLOCK \<Longrightarrow> bit_clear j (bitmap_of n) \<longleftrightarrow> n \<le> j"
  using assms
proof (induction n)
  case (Suc n)
  { case 1
    then show ?case using Suc.IH(1) by (simp add: bitmap_of_def)
  next
    case 2
    have "n div 8 < BLOCK_SIZE" "j div 8 < BLOCK_SIZE" using 2 by (simp_all add: div_less_iff_less_mult)
    then show ?case using 2 Suc.IH set_bitmap_clear [of n "bitmap_of n" j] by (auto simp: bitmap_of_def)
  }
qed (simp_all add: bitmap_of_def bit_clear_iff div_less_iff_less_mult)

lemma balloc_spec:
  assumes "mk_disk s"
  shows "balloc (freeblock s) s = Some (s\<lparr>img := (img s)(91 := bitmap_of (freeblock s))\<rparr>)"
  using assms by (simp add: balloc_def mk_disk_def mk_super_value wsect_in bitmap_of_def set_bitmap_def [abs_def])

lemma mk_inv_bitmap:
  assumes inv: "mk_inv s T F" and len: "length d = BLOCK_SIZE"
  shows "mk_inv (s\<lparr>img := (img s)(91 := d)\<rparr>) T F"
proof -
  let ?s = "s\<lparr>img := (img s)(91 := d)\<rparr>"
  note I = mk_invD [OF inv]
  have D: "mk_disk ?s" using I(1) len nmeta_value by (auto simp: mk_disk_def)
  have e: "ent ?s m = ent s m" if "m < 208" for m using ino_block [OF that] by (simp add: ent_def)
  have f: "mk_file x ?s y \<and> blocks_of x (img ?s) = blocks_of x (img s)" if "mk_file x s y" for x y
    using mk_file_cong [OF that, of ?s] mk_file_blocks(1) [OF that] nmeta_value by fastforce
  have o: "mk_ino ?s (ent ?s i) (T i) (F i) \<and> blocks_of (ent ?s i) (img ?s) = blocks_of (ent s i) (img s)"
    if "0 < i" "i < freeinode s" for i
    using I(3) I(4) [OF that] f [of "ent s i" "F i"] e [of i] that by (simp add: mk_ino_def)
  show ?thesis unfolding mk_inv_def
    using D I(2,3) o I(5,6) e I(7) I(8,9) by auto
qed

section \<open>The image satisfies the kernel's invariants\<close>

lemma super_fields:
  "sb_num_blocks mk_super = 1000" "sb_num_inodes mk_super = 200" "BBLOCK b mk_super = 91 + b div BIT_PER_BLOCK"
  by (simp_all add: mk_super_value BBLOCK_def)

lemma mk_meta: "meta mk_super \<subseteq> {65..91}"
proof -
  have "ino_block n \<in> {65..91}" if "n \<le> 200" for n using ino_block [of n] that by simp
  then show ?thesis by (auto simp: meta_def super_fields)
qed

definition image_ok :: "mk_state \<Rightarrow> bool" where
  "image_ok s \<longleftrightarrow> (\<forall>b < FSSIZE. free_block mk_super (img s) b \<longleftrightarrow> freeblock s \<le> b)"

lemma image_disk_ok:
  assumes D: "mk_disk s" and b: "image_ok s"
  shows "disk_ok mk_super (img s)" and "nmeta \<le> c \<Longrightarrow> c < freeblock s \<Longrightarrow> data_block mk_super (img s) c"
proof -
  have lay: "layout_ok mk_super"
  proof -
    have "ino_block n \<noteq> 91" if "n \<le> 200" for n using ino_block [of n] that by simp
    then show ?thesis by (simp add: layout_ok_def super_fields)
  qed
  have len: "length (img s c) = BLOCK_SIZE" for c using D by (simp add: mk_disk_def)
  have "c \<noteq> 0 \<and> c \<notin> meta mk_super" if "c < FSSIZE" "free_block mk_super (img s) c" for c
    using that b D mk_meta nmeta_value by (auto simp: image_ok_def mk_disk_def)
  then show "disk_ok mk_super (img s)" using lay len by (simp add: disk_ok_def super_fields)
  show "data_block mk_super (img s) c" if "nmeta \<le> c" "c < freeblock s"
    using that b D mk_meta nmeta_value by (auto simp: image_ok_def mk_disk_def data_block_def super_fields)
qed

lemma image_file_ok:
  assumes D: "mk_disk s" and b: "image_ok s" and f: "mk_file e s d"
  shows "file_ok mk_super e (img s)" and "x < length d \<Longrightarrow> length d \<le> INODE_MAX_BYTES \<Longrightarrow> blk_of e (img s) (x div BLOCK_SIZE) \<noteq> 0"
    and "length d \<le> INODE_MAX_BYTES \<Longrightarrow> map (file_byte e (img s)) [0..<length d] = d"
proof -
  have m: "mk_map e (img s) (freeblock s) (nblk (length d))" "mk_data e (img s) d" using f by (simp_all add: mk_file_def)
  note M = mk_mapD [OF m(1)]
  show "file_ok mk_super e (img s)"
    unfolding file_ok_def using M(1) M(3,5,6,7) image_disk_ok(2) [OF D b] by blast
  show "blk_of e (img s) (x div BLOCK_SIZE) \<noteq> 0" if "x < length d" "length d \<le> INODE_MAX_BYTES"
  proof -
    have "x div BLOCK_SIZE < nblk (length d)"
      using that nblk_le [of "length d"] by (simp add: div_less_iff_less_mult mult.commute)
    then show ?thesis using M(3) [OF block_max] that by simp
  qed
  show "map (file_byte e (img s)) [0..<length d] = d" if "length d \<le> INODE_MAX_BYTES"
    using m(2) that by (intro nth_equalityI) (simp_all add: mk_data_def)
qed

section \<open>The program\<close>

definition final_content :: "host \<Rightarrow> u8 list list \<Rightarrow> nat \<Rightarrow> u8 list" where
  "final_content h ps = (mk_content h ps)(1 := padded (root_bytes ps))"

lemma mkfs_main_spec:
  assumes create: "can_create h f" and fits: "mk_fits h ps" and root: "(2 + length ps) mod 32 \<noteq> 0"
  shows "\<exists>s. mkfs_main h (f # ps) = Some s \<and> mk_inv s mk_type (final_content h ps) \<and> image_ok s \<and>
    freeinode s = 2 + length ps \<and> freeblock s = mk_blocks h ps"
proof -
  obtain s0 s1 s2 where 1: "ialloc INODE_DIRECTORY format_disk = Some (1, s0)"
      "append_dirent 1 1 (c_string [dot]) s0 = Some s1" "append_dirent 1 1 (c_string [dot, dot]) s1 = Some s2" "built h [] s2"
    using start_spec by blast
  obtain s3 where 2: "for_each (add_file h 1) ps s2 = Some s3" "built h ps s3"
    using add_files_spec [OF 1(4) fits] by blast
  have 3: "mk_inv s3 mk_type (mk_content h ps)" "1 < freeinode s3" "freeinode s3 = 2 + length ps" "freeblock s3 = mk_blocks h ps"
    using 2(2) by (simp_all add: built_def)
  have c: "mk_content h ps 1 = root_bytes ps" by (simp add: mk_content_def)
  have "16 * (2 + length ps) mod (16 * 32) \<noteq> 0" using root unfolding mult_mod_right [symmetric] by simp
  then have n: "length (mk_content h ps 1) mod BLOCK_SIZE \<noteq> 0" unfolding c length_root_bytes by simp
  have "16 * (2 + length ps) \<le> 16 * 200" using fits by (simp add: mk_fits_def)
  then have "16 * (2 + length ps) div BLOCK_SIZE \<le> 6" using div_le_mono [of "16 * (2 + length ps)" "16 * 200" BLOCK_SIZE] by simp
  then have "rounded (length (mk_content h ps 1)) \<le> 7 * BLOCK_SIZE"
    unfolding rounded_def c length_root_bytes by (intro mult_le_mono1) simp
  then have max: "rounded (length (mk_content h ps 1)) \<le> INODE_MAX_BYTES" by simp
  obtain s4 where 4: "fix_root 1 s3 = Some s4" "mk_inv s4 mk_type (final_content h ps)"
      "freeinode s4 = freeinode s3" "freeblock s4 = freeblock s3"
    using fix_root_spec [OF 3(1,2) n max] unfolding c final_content_def by blast
  let ?s = "s4\<lparr>img := (img s4)(91 := bitmap_of (freeblock s4))\<rparr>"
  have fb: "freeblock s4 \<le> BIT_PER_BLOCK" using mk_invD(1) [OF 4(2)] by (simp add: mk_disk_def)
  note B = bitmap_of_bits [OF fb]
  have "image_ok ?s" using B(2) by (simp add: image_ok_def free_block_def super_fields)
  moreover have "mk_inv ?s mk_type (final_content h ps)" by (rule mk_inv_bitmap [OF 4(2) B(1)])
  moreover have "mkfs_main h (f # ps) = Some ?s"
    using create 1(1-3) 2(1) 4(1) balloc_spec [OF mk_invD(1) [OF 4(2)]] by (simp add: mkfs_main_def)
  ultimately show ?thesis using 3(3,4) 4(3,4) by (intro exI [of _ ?s]) simp
qed

section \<open>Properties\<close>

lemma root_size: "2 + n \<le> NINODES \<Longrightarrow> rounded (16 * (2 + n)) \<le> INODE_MAX_BYTES"
proof -
  assume "2 + n \<le> NINODES"
  then have "16 * (2 + n) \<le> 16 * 200" by simp
  then have "16 * (2 + n) div BLOCK_SIZE \<le> 6" using div_le_mono [of "16 * (2 + n)" "16 * 200" BLOCK_SIZE] by simp
  then have "rounded (16 * (2 + n)) \<le> 7 * BLOCK_SIZE" unfolding rounded_def by (intro mult_le_mono1) simp
  then show ?thesis by simp
qed

lemma resized [simp]: "mk_file (e\<lparr>num_bytes := n\<rparr>) s d = mk_file e s d" "blocks_of (e\<lparr>num_bytes := n\<rparr>) C = blocks_of e C"
  by (simp_all add: mk_file_def mk_map_def mk_data_def blocks_of_def blk_of_def file_byte_def)

lemma root_fits:
  assumes "mk_inv s T F" and "1 < freeinode s" and "n \<le> INODE_MAX_BYTES"
  shows "entry_fits ((ent s 1)\<lparr>num_bytes := n\<rparr>)"
proof -
  have "mk_ino s (ent s 1) (T 1) (F 1)" "T 1 < 2 ^ 16" using mk_invD(4,5) [OF assms(1), of 1] assms(2) by simp_all
  then show ?thesis using assms(3) by (intro mk_ino_fits [OF mk_invD(1) [OF assms(1)], of _ "F 1"]) (simp_all add: mk_ino_def)
qed

text \<open>
  The image in terms of the state in which the root directory still has the size of its entries: the
  program then only rounds this size up.
\<close>

lemma mkfs_main_build:
  assumes create: "can_create h f" and fits: "mk_fits h ps"
  shows "\<exists>s0. mk_inv s0 mk_type (mk_content h ps) \<and> image_ok s0 \<and> freeinode s0 = 2 + length ps \<and> freeblock s0 = mk_blocks h ps \<and>
    mkfs_main h (f # ps) = Some (set_ent 1 ((ent s0 1)\<lparr>num_bytes := rounded (16 * (2 + length ps))\<rparr>) s0)"
proof -
  obtain r0 r1 r2 where 1: "ialloc INODE_DIRECTORY format_disk = Some (1, r0)"
      "append_dirent 1 1 (c_string [dot]) r0 = Some r1" "append_dirent 1 1 (c_string [dot, dot]) r1 = Some r2" "built h [] r2"
    using start_spec by blast
  obtain r where 2: "for_each (add_file h 1) ps r2 = Some r" "built h ps r"
    using add_files_spec [OF 1(4) fits] by blast
  have 3: "mk_inv r mk_type (mk_content h ps)" "1 < freeinode r" "freeinode r = 2 + length ps" "freeblock r = mk_blocks h ps"
    using 2(2) by (simp_all add: built_def)
  have c: "length (mk_content h ps 1) = 16 * (2 + length ps)" by (simp add: mk_content_def length_root_bytes)
  let ?z = "\<lambda>s. (ent s 1)\<lparr>num_bytes := rounded (16 * (2 + length ps))\<rparr>"
  let ?s = "r\<lparr>img := (img r)(91 := bitmap_of (freeblock r))\<rparr>"
  have D: "mk_disk r" "freeblock r \<le> BIT_PER_BLOCK" using mk_invD(1) [OF 3(1)] by (simp_all add: mk_disk_def)
  note B = bitmap_of_bits [OF D(2)]
  have inv: "mk_inv ?s mk_type (mk_content h ps)" by (rule mk_inv_bitmap [OF 3(1) B(1)])
  have ok: "image_ok ?s" using B(2) by (simp add: image_ok_def free_block_def super_fields)
  have n: "ino_block 1 \<noteq> 91" using ino_block [of 1] by simp
  have fz: "entry_fits (?z r)" using root_fits [OF 3(1,2)] root_size fits by (simp add: mk_fits_def)
  have "balloc (freeblock (set_ent 1 (?z r) r)) (set_ent 1 (?z r) r) = Some (set_ent 1 (?z ?s) ?s)"
    using balloc_spec [of "set_ent 1 (?z r) r"] set_ent_disk [OF D(1) _ fz] n by (simp add: set_ent_def ent_def fun_upd_twist)
  then have "mkfs_main h (f # ps) = Some (set_ent 1 (?z ?s) ?s)"
    using create 1(1-3) 2(1) fix_root_run [OF 3(1,2)] unfolding c by (simp add: mkfs_main_def)
  then show ?thesis using inv ok 3(3,4) by (intro exI [of _ ?s]) simp
qed

text \<open>The bytes and the blocks of a file, for a size that may be larger than what was stored.\<close>

lemma stored_file:
  assumes f: "mk_file e s d" and n: "length d \<le> n" "n \<le> INODE_MAX_BYTES" and z: "num_bytes e = n"
  shows "map (file_byte e (img s)) [0..<num_bytes e] = d @ replicate (n - length d) 0"
    and "j * BLOCK_SIZE < num_bytes e \<Longrightarrow> blk_of e (img s) j = 0 \<longleftrightarrow> length d \<le> j * BLOCK_SIZE"
proof -
  have m: "mk_map e (img s) (freeblock s) (nblk (length d))" "mk_data e (img s) d" using f by (simp_all add: mk_file_def)
  show "map (file_byte e (img s)) [0..<num_bytes e] = d @ replicate (n - length d) 0"
    using m(2) n z by (intro nth_equalityI) (auto simp: mk_data_def nth_append)
  show "blk_of e (img s) j = 0 \<longleftrightarrow> length d \<le> j * BLOCK_SIZE" if "j * BLOCK_SIZE < num_bytes e"
  proof -
    have "j < INODE_MAX_BLOCKS" using that z n(2) by simp
    then have "blk_of e (img s) j = 0 \<longleftrightarrow> \<not> j < nblk (length d)" using mk_mapD(3) [OF m(1)] by blast
    also have "\<dots> \<longleftrightarrow> length d \<le> j * BLOCK_SIZE" by (simp add: nblk_def div_less_iff_less_mult not_less mult.commute) linarith
    finally show ?thesis .
  qed
qed

text \<open>
  (C8) The image builder is correct. For every list of arguments that fits (at most 198
  files, each at most the largest file size and readable, and all blocks together within the
  image) \<^verbatim>\<open>mkfs\<close> ends normally. The image it leaves has the super block in block 1, satisfies the
  kernel's disk invariant, marks exactly the blocks it used in the bitmap, and holds one
  inode per argument and the root directory, each with its own blocks and with exactly the
  bytes read from the host, whatever the sizes of the pieces in which \<^verbatim>\<open>read\<close> returned them. The root
  directory is padded with unused entries to whole blocks. Every block within the size of an inode is
  mapped, with one exception: when the entries of the root directory fill their blocks exactly, its
  size is one block more, and this last block is not mapped.
\<close>
theorem mkfs_correct:
  assumes "can_create h f" and "mk_fits h ps"
  shows "\<exists>s. mkfs_main h (f # ps) = Some s \<and> get_super_block (img s 1) = mk_super \<and>
    disk_ok mk_super (img s) \<and> (\<forall>b < FSSIZE. free_block mk_super (img s) b \<longleftrightarrow> mk_blocks h ps \<le> b) \<and>
    (\<forall>i. 0 < i \<and> i < 2 + length ps \<longrightarrow> file_ok mk_super (ent s i) (img s) \<and> itype (ent s i) = mk_type i \<and>
       map (file_byte (ent s i) (img s)) [0..<num_bytes (ent s i)] = final_content h ps i \<and>
       (\<forall>j. j * BLOCK_SIZE < num_bytes (ent s i) \<longrightarrow>
          (blk_of (ent s i) (img s) j = 0 \<longleftrightarrow> i = ROOT_INODE_NO \<and> 16 * (2 + length ps) = j * BLOCK_SIZE))) \<and>
    (\<forall>i j. 0 < i \<and> i < j \<and> j < 2 + length ps \<longrightarrow> blocks_of (ent s i) (img s) \<inter> blocks_of (ent s j) (img s) = {})"
proof -
  let ?L = "16 * (2 + length ps)"
  obtain s0 where s0: "mk_inv s0 mk_type (mk_content h ps)" "image_ok s0" "freeinode s0 = 2 + length ps" "freeblock s0 = mk_blocks h ps"
      "mkfs_main h (f # ps) = Some (set_ent 1 ((ent s0 1)\<lparr>num_bytes := rounded ?L\<rparr>) s0)"
    using mkfs_main_build [OF assms] by blast
  define e where "e = (ent s0 1)\<lparr>num_bytes := rounded ?L\<rparr>"
  define s where "s = set_ent 1 e s0"
  note I = mk_invD [OF s0(1)]
  have R: "rounded ?L \<le> INODE_MAX_BYTES" "?L < rounded ?L"
    using root_size assms(2) iappend_progress [of ?L] by (simp_all only: mk_fits_def rounded_def)
  have fits: "entry_fits e" using root_fits [OF s0(1) _ R(1)] s0(3) by (simp add: e_def)
  have ent: "ent s i = (if i = 1 then e else ent s0 i)" for i unfolding s_def by (rule ent_set_ent [OF I(1) fits])
  have img: "img s b = img s0 b" if "b = 91 \<or> b = 1 \<or> nmeta \<le> b" for b
    using that ino_block [of 1] nmeta_value unfolding s_def by (intro set_ent_img) auto
  have D: "mk_disk s" using set_ent_disk [OF I(1) _ fits, of 1] by (simp add: s_def)
  have ok: "image_ok s" using s0(2) img [of 91] by (simp add: image_ok_def free_block_def super_fields s_def)
  have stored: "mk_file (ent s i) s (mk_content h ps i) \<and> blocks_of (ent s i) (img s) = blocks_of (ent s0 i) (img s0) \<and>
      itype (ent s i) = mk_type i \<and> length (mk_content h ps i) \<le> num_bytes (ent s i) \<and> num_bytes (ent s i) \<le> INODE_MAX_BYTES \<and>
      (i \<noteq> 1 \<longrightarrow> num_bytes (ent s i) = length (mk_content h ps i))"
    if i: "0 < i" "i < 2 + length ps" for i
  proof -
    have o: "mk_ino s0 (ent s0 i) (mk_type i) (mk_content h ps i)" using I(4) [of i] i s0(3) by simp
    then have "mk_file (ent s0 i) s0 (mk_content h ps i)" by (simp add: mk_ino_def)
    from mk_file_cong [OF this, of s] have c: "mk_file (ent s0 i) s (mk_content h ps i)" "blocks_of (ent s0 i) (img s) = blocks_of (ent s0 i) (img s0)"
      using img mk_file_blocks(1) [OF \<open>mk_file (ent s0 i) s0 (mk_content h ps i)\<close>] by (simp_all add: s_def)
    show ?thesis
    proof (cases "i = 1")
      case True
      then show ?thesis using c o R ent [of 1]
        by (simp add: mk_ino_def e_def mk_content_def length_root_bytes)
    next
      case False
      then show ?thesis using c o ent [of i] by (simp add: mk_ino_def)
    qed
  qed
  have each: "file_ok mk_super (ent s i) (img s) \<and> itype (ent s i) = mk_type i \<and>
       map (file_byte (ent s i) (img s)) [0..<num_bytes (ent s i)] = final_content h ps i \<and>
       (\<forall>j. j * BLOCK_SIZE < num_bytes (ent s i) \<longrightarrow>
          (blk_of (ent s i) (img s) j = 0 \<longleftrightarrow> i = ROOT_INODE_NO \<and> ?L = j * BLOCK_SIZE))"
    if i: "0 < i" "i < 2 + length ps" for i
  proof -
    note F = stored [OF i]
    have m: "mk_file (ent s i) s (mk_content h ps i)" using F by blast
    note S = stored_file [OF m _ _ refl]
    have z: "i = 1 \<Longrightarrow> num_bytes (ent s i) = rounded ?L \<and> mk_content h ps i = root_bytes ps"
      using ent [of 1] by (simp add: e_def mk_content_def)
    have c: "map (file_byte (ent s i) (img s)) [0..<num_bytes (ent s i)] = final_content h ps i"
      using S(1) F z by (auto simp: final_content_def padded_def length_root_bytes)
    have "blk_of (ent s i) (img s) j = 0 \<longleftrightarrow> i = ROOT_INODE_NO \<and> ?L = j * BLOCK_SIZE" if j: "j * BLOCK_SIZE < num_bytes (ent s i)" for j
    proof (cases "i = 1")
      case True
      have "j \<le> ?L div BLOCK_SIZE" using j z [OF True] by (simp add: rounded_def)
      then have "j * BLOCK_SIZE \<le> ?L" by (simp add: less_eq_div_iff_mult_less_eq)
      then show ?thesis using S(2) [OF _ _ j] F z [OF True] True by (auto simp: length_root_bytes)
    next
      case False
      then show ?thesis using S(2) [OF _ _ j] F j by auto
    qed
    then show ?thesis using c F image_file_ok(1) [OF D ok m] by blast
  qed
  have "blocks_of (ent s i) (img s) \<inter> blocks_of (ent s j) (img s) = {}" if "0 < i" "i < j" "j < 2 + length ps" for i j
    using I(6) [of i j] stored [of i] stored [of j] that s0(3) by simp
  moreover have "\<forall>b < FSSIZE. free_block mk_super (img s) b \<longleftrightarrow> mk_blocks h ps \<le> b"
    using ok s0(4) by (simp add: image_ok_def s_def)
  moreover have "get_super_block (img s 1) = mk_super" using I(8) img [of 1] by simp
  moreover have "mkfs_main h (f # ps) = Some s" using s0(5) by (simp only: e_def s_def)
  ultimately show ?thesis
    using each image_disk_ok(1) [OF D ok] by (intro exI [of _ s] conjI allI impI; (elim conjE)?) simp_all
qed

text \<open>One file of seven bytes that the host delivers in two pieces.\<close>

definition demo_host :: host where
  "demo_host = \<lparr>can_create = (\<lambda>_. True), host_open = (\<lambda>p. Some [[1, 2, 3, 4], [5, 6, 7], []])\<rparr>"

definition demo_path :: "u8 list" where
  "demo_path = [0x61, slash, underscore, 0x62]"

lemma demo_file: "file_bytes demo_host p = [1, 2, 3, 4, 5, 6, 7]" "file_name demo_path = [0x62]"
  by (simp_all add: file_bytes_def demo_host_def file_name_def demo_path_def base_name_def c_string_def)

lemma demo_fits: "mk_fits demo_host [demo_path]"
  by (simp add: mk_fits_def mk_blocks_def demo_file usage_def nblk_def nmeta_value) (simp add: demo_host_def)

theorem mkfs_correct_witness:
  "\<exists>s. mkfs_main demo_host [[0x69], demo_path] = Some s \<and> disk_ok mk_super (img s) \<and>
     map (file_byte (ent s 2) (img s)) [0..<num_bytes (ent s 2)] = [1, 2, 3, 4, 5, 6, 7] \<and>
     num_bytes (ent s 2) = 7 \<and> blk_of (ent s 2) (img s) 0 \<noteq> 0"
proof -
  have c: "final_content demo_host [demo_path] 2 = [1, 2, 3, 4, 5, 6, 7]"
    by (simp add: final_content_def mk_content_def demo_file)
  have "can_create demo_host [0x69]" by (simp add: demo_host_def)
  from mkfs_correct [OF this demo_fits] obtain s where
    s: "mkfs_main demo_host [[0x69], demo_path] = Some s" "disk_ok mk_super (img s)"
      "\<And>i. 0 < i \<Longrightarrow> i < 2 + length [demo_path] \<Longrightarrow>
         map (file_byte (ent s i) (img s)) [0..<num_bytes (ent s i)] = final_content demo_host [demo_path] i \<and>
         (\<forall>j. j * BLOCK_SIZE < num_bytes (ent s i) \<longrightarrow>
            (blk_of (ent s i) (img s) j = 0 \<longleftrightarrow> i = ROOT_INODE_NO \<and> 16 * (2 + length [demo_path]) = j * BLOCK_SIZE))"
  proof (elim exE conjE, goal_cases)
    case (1 s)
    show ?case by (rule 1(1) [OF 1(2,4)]) (use 1(6) in simp)
  qed
  have m: "map (file_byte (ent s 2) (img s)) [0..<num_bytes (ent s 2)] = [1, 2, 3, 4, 5, 6, 7]" using conjunct1 [OF s(3) [of 2]] unfolding c by simp
  have n: "num_bytes (ent s 2) = 7" using arg_cong [OF m, of length] by simp
  have "blk_of (ent s 2) (img s) 0 = 0 \<longleftrightarrow> 2 = ROOT_INODE_NO \<and> 16 * (2 + length [demo_path]) = 0 * BLOCK_SIZE"
    by (rule conjunct2 [OF s(3) [of 2], rule_format]) (use n in simp_all)
  then have "blk_of (ent s 2) (img s) 0 \<noteq> 0" by simp
  then show ?thesis using s(1,2) m n by (intro exI [of _ s] conjI)
qed

text \<open>
  The layout leaves no gap: the 209th inode would lie in the bitmap block, and the log slot of
  the 63rd block of a full transaction is the first block of inodes.
\<close>

lemma layout_is_tight:
  "to_block_no mk_super 208 = sb_bitmap_start mk_super" "slot mk_super (LOG_MAX_SIZE - 1) = ino_block 1"
  by (simp_all add: to_block_no_def mk_super_value slot_def)

end
