(* ===== verification/Mkfs_Boot.thy ===== *)
theory Mkfs_Boot
  imports Mkfs_Proofs
begin

text \<open>
  From the image builder to the running kernel: the cache starts on the image without
  changing it, \<^verbatim>\<open>init_inodes\<close> finds the root directory, and every file that was put into the
  image is found under its name and read back byte for byte.
\<close>

section \<open>Starting the cache on the image\<close>

lemma zero_header: "decode_header (replicate BLOCK_SIZE 0) = \<lparr>num_blocks = 0, hdr_block_no = replicate LOG_MAX_SIZE 0\<rparr>"
proof -
  have "map (\<lambda>i. le_nat (get_bytes (8 + 8 * i) 8 (replicate BLOCK_SIZE 0))) [0..<LOG_MAX_SIZE] = replicate LOG_MAX_SIZE 0"
    by (intro nth_equalityI) (simp_all add: get_bytes_replicate [simplified])
  then show ?thesis by (simp add: decode_header_def)
qed

lemma encode_zero_header:
  "encode_header \<lparr>num_blocks = 0, hdr_block_no = replicate LOG_MAX_SIZE 0\<rparr> = replicate BLOCK_SIZE 0"
proof -
  have "concat (replicate k (replicate 8 (0 :: u8))) = replicate (k * 8) 0" for k
    by (induction k) (simp_all add: replicate_add [symmetric])
  from this [of LOG_MAX_SIZE] show ?thesis by (simp add: encode_header_def replicate_add [symmetric])
qed

lemma boot_cache:
  assumes inv: "mk_inv s T F"
  shows "\<exists>stray c. init_bcache mk_super \<lparr>blocks = img s, history = []\<rparr> = Some (stray, c) \<and>
    cache_inv None c \<and> idle c \<and> content c = img s"
proof -
  note I = mk_invD [OF inv]
  have ls: "sb_log_start mk_super = 2" by (simp add: mk_super_value)
  have hd: "disk_header mk_super (img s) = \<lparr>num_blocks = 0, hdr_block_no = replicate LOG_MAX_SIZE 0\<rparr>"
    unfolding disk_header_def ls I(9) by (rule zero_header)
  then have log: "disk_log mk_super (img s) = []" by (simp add: disk_log_def)
  have r: "recoverable mk_super (blocks \<lparr>blocks = img s, history = []\<rparr>)"
    using I(1) hd log by (simp add: recoverable_def mk_disk_def)
  have w: "recover_writes mk_super (img s) = [(2, replicate BLOCK_SIZE 0)]"
    unfolding recover_writes_def log hd using encode_zero_header by (simp add: install_writes_def ls)
  obtain c stray where c: "init_bcache mk_super \<lparr>blocks = img s, history = []\<rparr> = Some (stray, c)" "commit_ready mk_super c"
      "content c = blocks (dev c)" "dev c = dev_writes (recover_writes mk_super (img s)) \<lparr>blocks = img s, history = []\<rparr>"
    using init_bcache_spec [OF r] by auto
  have "content c = img s" using c(3,4) w I(9) by (simp add: fun_upd_idem)
  moreover have "cache_inv None c" "idle c"
    using c(2) by (auto simp: commit_ready_def quiet_def cache_inv_def idle_def)
  ultimately show ?thesis using c(1) by blast
qed

section \<open>Loading an inode\<close>

text \<open>\<^verbatim>\<open>inode_get\<close> of a number that is not in memory, when no inode in memory can be reused.\<close>

lemma inode_get_fresh:
  assumes inv: "cache_inv ctx (bcache s)" "idle (bcache s)" and n: "0 < n" "n < sb_num_inodes sb"
    and new: "find_live n s = None" "find_empty s = None"
  shows "\<exists>s'. inode_get sb n s = Some (next_inode s, s') \<and>
    bc.after ctx (bcache s) (content (bcache s)) (log_list (bcache s)) (bcache s') \<and>
    inode_of s' = (inode_of s)(next_inode s := \<lparr>ilock = 1, rc_count = 1, inode_no = n, ivalid = True,
      entry = get_entry (content (bcache s) (to_block_no sb n)) n\<rparr>) \<and>
    ilist s' = next_inode s # ilist s \<and> next_inode s' = next_inode s + 1"
proof -
  have free: "\<And>q. \<not> holds (bcache s) q (to_block_no sb n)" using inv(2) by (simp add: idle_def)
  obtain bp c1 where r: "cache_acquire (to_block_no sb n) (bcache s) = Some (bp, c1)"
      "data (blk c1 bp) = content (bcache s) (to_block_no sb n)"
      "bc.after ctx (bcache s) (content (bcache s)) (log_list (bcache s)) (cache_release bp c1)"
    using bc.read_cycle [OF inv(1) free] by metis
  show ?thesis
    using n new r
    by (simp add: inode_get_def inode_sync_def inode_lock_def inode_unlock_def increment_rc_def upd_inode_def
        init_inode_def Let_def) (cases "inode_of s (next_inode s)", simp)
qed

text \<open>An inode of the image, once loaded, is a file of the kernel with the bytes the image holds.\<close>

lemma loaded_file:
  assumes inv: "mk_inv s T F" and ok: "image_ok s" and i: "0 < i" "i < freeinode s"
    and c: "cache_inv ctx (bcache t)" "idle (bcache t)" "content (bcache t) = img s"
    and e: "inode_of t ip = \<lparr>ilock = 1, rc_count = 1, inode_no = i, ivalid = True, entry = ent s i\<rparr>"
  shows "file_inv mk_super ctx ip t" and "file_data ip t = F i" and "itype (entry (inode_of t ip)) = T i"
proof -
  note I = mk_invD [OF inv]
  have o: "mk_file (ent s i) s (F i)" "num_bytes (ent s i) = length (F i)" "length (F i) \<le> INODE_MAX_BYTES" "itype (ent s i) = T i"
    using I(4) [OF i] by (simp_all add: mk_ino_def)
  note K = image_file_ok [OF I(1) ok o(1)]
  show "file_inv mk_super ctx ip t"
    using c e K(1) K(2) [OF _ o(3)] image_disk_ok(1) [OF I(1) ok] o(2,3) i I(3)
    by (simp add: file_inv_def Let_def super_fields)
  show "file_data ip t = F i" using c(3) e K(3) [OF o(3)] o(2) by (simp add: file_data_def)
  show "itype (entry (inode_of t ip)) = T i" using e o(4) by simp
qed

section \<open>The root directory as a map\<close>

definition root_dirents :: "u8 list list \<Rightarrow> u8 list list" where
  "root_dirents ps = encode_dirent 1 (c_string [dot]) # encode_dirent 1 (c_string [dot, dot]) #
     map (\<lambda>k. dirent_of (k + 2) (ps ! k)) [0..<length ps]"

text \<open>The names in the root directory, cut to the length of a directory entry.\<close>

definition name_text :: "u8 list \<Rightarrow> u8 list" where
  "name_text p = cstr_text (c_string (file_name p)) FILE_NAME_MAX_LENGTH"

definition dir_names :: "u8 list list \<Rightarrow> u8 list list" where
  "dir_names ps = [dot] # [dot, dot] # map name_text ps"

definition dir_numbers :: "u8 list list \<Rightarrow> nat list" where
  "dir_numbers ps = 1 # 1 # map (\<lambda>k. k + 2) [0..<length ps]"

lemma length_root_dirents [simp]: "length (root_dirents ps) = 2 + length ps" "length (dir_names ps) = 2 + length ps"
    "length (dir_numbers ps) = 2 + length ps"
  by (simp_all add: root_dirents_def dir_names_def dir_numbers_def)

lemma root_bytes_concat: "root_bytes ps = concat (root_dirents ps)"
  by (simp add: root_bytes_def root_dirents_def dot_entries_def)

lemma cstr_text_dots:
  "cstr_text (c_string [dot]) FILE_NAME_MAX_LENGTH = [dot]"
  "cstr_text (c_string [dot, dot]) FILE_NAME_MAX_LENGTH = [dot, dot]"
proof -
  have "cstr_len (c_string [dot]) FILE_NAME_MAX_LENGTH = 1" "cstr_len (c_string [dot, dot]) FILE_NAME_MAX_LENGTH = 2"
    by (rule cstr_lenI; auto simp: c_string_def less_2_cases_iff)+
  then show "cstr_text (c_string [dot]) FILE_NAME_MAX_LENGTH = [dot]"
      "cstr_text (c_string [dot, dot]) FILE_NAME_MAX_LENGTH = [dot, dot]"
    by (simp_all add: cstr_text_def c_string_def upt_rec)
qed

lemma root_dirent:
  assumes k: "k < 2 + length ps" and ps: "2 + length ps \<le> NINODES"
  shows "length (root_dirents ps ! k) = 16" and "de_inode_no (root_dirents ps ! k) = dir_numbers ps ! k"
    and "slot_name (root_dirents ps ! k) = Some (dir_names ps ! k)"
proof -
  consider "k = 0" | "k = 1" | j where "k = j + 2" "j < length ps"
    using k by (cases k; cases "k - 1") auto
  then have "length (root_dirents ps ! k) = 16 \<and> de_inode_no (root_dirents ps ! k) = dir_numbers ps ! k \<and>
      slot_name (root_dirents ps ! k) = Some (dir_names ps ! k)"
  proof cases
    case 3
    then show ?thesis
      using encode_dirent_slot [of "j + 2" "strncpy (\<lambda>_. 0) (c_string (file_name (ps ! j))) FILE_NAME_MAX_LENGTH"] ps
      by (simp add: root_dirents_def dir_names_def dir_numbers_def dirent_of_def name_text_def strncpy_text [simplified])
  qed (simp_all add: root_dirents_def dir_names_def dir_numbers_def encode_dirent_slot cstr_text_dots [simplified])
  then show "length (root_dirents ps ! k) = 16" "de_inode_no (root_dirents ps ! k) = dir_numbers ps ! k"
    "slot_name (root_dirents ps ! k) = Some (dir_names ps ! k)" by simp_all
qed

lemma slot_at_concat:
  "list_all (\<lambda>d. length d = 16) ds \<Longrightarrow> k < length ds \<Longrightarrow> slot_at (concat ds @ z) k = ds ! k"
proof (induction ds arbitrary: k)
  case (Cons d ds)
  then show ?case by (cases k) (simp_all add: slot_at_def)
qed simp

lemma padded_slots:
  assumes ps: "2 + length ps \<le> NINODES"
  defines "fd \<equiv> padded (root_bytes ps)"
  shows "k < 2 + length ps \<Longrightarrow> slot_at fd k = root_dirents ps ! k"
    and "2 + length ps \<le> k \<Longrightarrow> k < slots fd \<Longrightarrow> slot_name (slot_at fd k) = None"
    and "2 + length ps \<le> slots fd" and "16 dvd length fd"
proof -
  let ?n = "2 + length ps" and ?r = "rounded (16 * (2 + length ps))"
  have r: "16 * ?n < ?r" using iappend_progress [of "16 * ?n"] by (simp only: rounded_def)
  have fd: "fd = concat (root_dirents ps) @ replicate (?r - 16 * ?n) 0"
    unfolding fd_def padded_def length_root_bytes by (simp only: root_bytes_concat)
  have len: "length fd = ?r" using r unfolding fd_def padded_def by simp
  have "?r = 16 * ((16 * ?n div BLOCK_SIZE + 1) * 32)" by (simp only: rounded_def)
  then show "16 dvd length fd" unfolding len by (metis dvd_triv_left)
  have "16 * ?n div 16 \<le> ?r div 16" using r by (intro div_le_mono) simp
  then show "?n \<le> slots fd" by (simp add: slots_def len)
  have all: "list_all (\<lambda>d. length d = 16) (root_dirents ps)"
    using root_dirent(1) [OF _ ps] by (simp add: list_all_length)
  show "slot_at fd k = root_dirents ps ! k" if "k < ?n" unfolding fd using that by (intro slot_at_concat [OF all]) simp
  show "slot_name (slot_at fd k) = None" if k: "?n \<le> k" "k < slots fd"
  proof -
    have cl: "length (concat (root_dirents ps)) = 16 * ?n" by (metis length_root_bytes root_bytes_concat)
    have "16 * Suc k \<le> ?r" using k(2) dvd_div_mult_self [OF \<open>16 dvd length fd\<close>] by (simp add: slots_def len)
    then have "slot_at fd k = replicate 16 0"
      unfolding fd slot_at_def using k(1) cl by simp
    then show ?thesis by (simp add: slot_name_def de_inode_no_def get_bytes_def)
  qed
qed

lemma root_map:
  assumes ps: "2 + length ps \<le> NINODES" and dist: "distinct (dir_names ps)"
  defines "fd \<equiv> padded (root_bytes ps)"
  shows "dir_unique fd" and "dir_map fd = map_of (zip (dir_names ps) (dir_numbers ps))"
proof -
  note P = padded_slots [OF ps, folded fd_def]
  have nm: "slot_name (slot_at fd k) = (if k < 2 + length ps then Some (dir_names ps ! k) else None)" if "k < slots fd" for k
    using P(1,2) [of k] that root_dirent(3) [OF _ ps, of k] by simp
  show u: "dir_unique fd"
    using dist by (auto simp: dir_unique_def nm nth_eq_iff_index_eq split: if_splits)
  have "dir_map fd t = map_of (zip (dir_names ps) (dir_numbers ps)) t" for t
  proof (cases "t \<in> set (dir_names ps)")
    case True
    then obtain k where k: "k < 2 + length ps" "dir_names ps ! k = t" by (auto simp: in_set_conv_nth)
    have "dir_find t fd = Some k" using k P(3) by (intro dir_findI [OF u]) (simp_all add: nm)
    moreover have "map_of (zip (dir_names ps) (dir_numbers ps)) t = Some (dir_numbers ps ! k)"
      using map_of_zip_nth [of "dir_names ps" "dir_numbers ps" k] dist k by simp
    ultimately show ?thesis using P(1) [OF k(1)] root_dirent(2) [OF k(1) ps] by (simp add: dir_map_def)
  next
    case False
    then have "dir_find t fd = None" using nm by (auto simp: dir_find_None split: if_splits)
    moreover have "map_of (zip (dir_names ps) (dir_numbers ps)) t = None"
      using False by (auto simp: map_of_eq_None_iff dest: set_zip_leftD)
    ultimately show ?thesis by (simp only: dir_map_def option.map)
  qed
  then show "dir_map fd = map_of (zip (dir_names ps) (dir_numbers ps))" ..
qed

section \<open>Booting from the image\<close>

lemma boot_root:
  assumes inv: "mk_inv s mk_type (final_content h ps)" and ok: "image_ok s" and fi: "freeinode s = 2 + length ps"
    and dist: "distinct (dir_names ps)" and c: "cache_inv None c" "idle c" "content c = img s"
  shows "\<exists>t. init_inodes mk_super \<lparr>bcache = c, inode_of = m, ilist = l, next_inode = q\<rparr> = Some (Some q, t) \<and>
    dir_inv mk_super None q t \<and> content (bcache t) = img s \<and>
    dir_map (file_data q t) = map_of (zip (dir_names ps) (dir_numbers ps)) \<and>
    ilist t = [q] \<and> next_inode t = q + 1 \<and> inode_no (inode_of t q) = 1 \<and> rc_count (inode_of t q) = 1"
proof -
  let ?s = "\<lparr>bcache = c, inode_of = m, ilist = [], next_inode = q\<rparr>"
  have new: "find_live 1 ?s = None" "find_empty ?s = None" by (simp_all add: find_live_def find_empty_def)
  from inode_get_fresh [OF _ _ _ _ new, of None mk_super] c obtain t where
    t: "inode_get mk_super 1 ?s = Some (q, t)" "bc.after None c (content c) (log_list c) (bcache t)"
      "inode_of t = m(q := \<lparr>ilock = 1, rc_count = 1, inode_no = 1, ivalid = True, entry = get_entry (content c (ino_block 1)) 1\<rparr>)"
      "ilist t = [q]" "next_inode t = q + 1"
    by (auto simp: super_fields)
  have e: "inode_of t q = \<lparr>ilock = 1, rc_count = 1, inode_no = 1, ivalid = True, entry = ent s 1\<rparr>"
    using t(3) c(3) by (simp add: ent_def)
  have ct: "cache_inv None (bcache t)" "idle (bcache t)" "content (bcache t) = img s"
    using t(2) c by (auto simp: bc.after_def idle_def)
  have i: "(0 :: nat) < 1" "1 < freeinode s" using fi by simp_all
  note L = loaded_file [OF inv ok i ct e]
  have fc: "final_content h ps 1 = padded (root_bytes ps)" by (simp add: final_content_def)
  have ps: "2 + length ps \<le> NINODES" using mk_invD(3) [OF inv] fi by simp
  have "16 dvd num_bytes (entry (inode_of t q))"
    using padded_slots(4) [OF ps] L(2) fc by (metis length_file_data)
  then have "dir_inv mk_super None q t"
    using L root_map(1) [OF ps dist] fc by (simp add: dir_inv_def mk_type_def)
  moreover have "init_inodes mk_super \<lparr>bcache = c, inode_of = m, ilist = l, next_inode = q\<rparr> = Some (Some q, t)"
    using t(1) by (simp add: init_inodes_def super_fields)
  ultimately show ?thesis
    using ct(3) L(2) root_map(2) [OF ps dist] fc t(4,5) e by simp
qed

lemma dir_map_file:
  assumes "distinct (dir_names ps)" and "k < length ps"
  shows "map_of (zip (dir_names ps) (dir_numbers ps)) (name_text (ps ! k)) = Some (k + 2)"
proof -
  have "dir_names ps ! (k + 2) = name_text (ps ! k)" "dir_numbers ps ! (k + 2) = k + 2"
    using assms(2) by (simp_all add: dir_names_def dir_numbers_def)
  then show ?thesis
    using map_of_zip_nth [of "dir_names ps" "dir_numbers ps" "k + 2"] assms by simp
qed

text \<open>
  (C7) What the image builder stored is what the kernel reads. Take any arguments that fit, whose
  names, cut to the length of a directory entry, differ from each other and from the two
  entries of the directory itself. The kernel that starts on the image reads the super
  block, recovers the (empty) log, finds the root directory, resolves the name of every file to its
  inode, loads that inode and reads exactly the bytes the host had.
\<close>
theorem mkfs_boot_roundtrip:
  assumes "can_create h f" and "mk_fits h ps" and "(2 + length ps) mod 32 \<noteq> 0"
    and "distinct (dir_names ps)" and "k < length ps"
  shows "\<exists>s stray c t r t1 t2 t3. mkfs_main h (f # ps) = Some s \<and>
    init_bcache (get_super_block (img s 1)) \<lparr>blocks = img s, history = []\<rparr> = Some (stray, c) \<and>
    init_inodes mk_super \<lparr>bcache = c, inode_of = m, ilist = l, next_inode = q\<rparr> = Some (Some q, t) \<and>
    inode_lookup mk_super q (c_string (file_name (ps ! k))) t = Some (k + 2, r, t1) \<and>
    inode_get mk_super (k + 2) t1 = Some (q + 1, t2) \<and>
    inode_read mk_super (q + 1) 0 (length (file_bytes h (ps ! k))) t2 = Some (0, file_bytes h (ps ! k), t3)"
proof -
  obtain s where s: "mkfs_main h (f # ps) = Some s" "mk_inv s mk_type (final_content h ps)" "image_ok s"
      "freeinode s = 2 + length ps"
    using mkfs_main_spec [OF assms(1-3)] by blast
  note I = mk_invD [OF s(2)]
  obtain stray c where c: "init_bcache mk_super \<lparr>blocks = img s, history = []\<rparr> = Some (stray, c)"
      "cache_inv None c" "idle c" "content c = img s"
    using boot_cache [OF s(2)] by blast
  obtain t where t: "init_inodes mk_super \<lparr>bcache = c, inode_of = m, ilist = l, next_inode = q\<rparr> = Some (Some q, t)"
      "dir_inv mk_super None q t" "content (bcache t) = img s"
      "dir_map (file_data q t) = map_of (zip (dir_names ps) (dir_numbers ps))"
      "ilist t = [q]" "next_inode t = q + 1" "inode_no (inode_of t q) = 1" "rc_count (inode_of t q) = 1"
    using boot_root [OF s(2-4) assms(4) c(2-4)] by blast
  let ?n = "c_string (file_name (ps ! k))"
  have dm: "dir_map (file_data q t) (cstr_text ?n FILE_NAME_MAX_LENGTH) = Some (k + 2)"
    unfolding t(4) name_text_def [symmetric] by (rule dir_map_file [OF assms(4,5)])
  obtain t1 r where 1: "inode_lookup mk_super q ?n t = Some (k + 2, r, t1)" "same_fs None t t1"
    using inode_lookup_spec [OF t(2), of ?n] dm by (auto simp: dir_map_def split: option.splits)
  have k: "0 < k + 2" "k + 2 < freeinode s" "k + 2 < sb_num_inodes mk_super"
    using assms(5) s(4) I(3) by (simp_all add: super_fields)
  have new: "find_live (k + 2) t1 = None" "find_empty t1 = None"
    using 1(2) t(5,7,8) by (simp_all add: same_fs_def find_live_def find_empty_def)
  have c1: "cache_inv None (bcache t1)" "idle (bcache t1)" "content (bcache t1) = img s" "next_inode t1 = q + 1"
    using 1(2) t(3,6) by (simp_all add: same_fs_def)
  obtain t2 where 2: "inode_get mk_super (k + 2) t1 = Some (q + 1, t2)"
      "bc.after None (bcache t1) (img s) (log_list (bcache t1)) (bcache t2)"
      "inode_of t2 (q + 1) = \<lparr>ilock = 1, rc_count = 1, inode_no = k + 2, ivalid = True, entry = ent s (k + 2)\<rparr>"
    using inode_get_fresh [OF c1(1,2) k(1,3) new] unfolding c1(3,4) ent_def by auto
  have c2: "cache_inv None (bcache t2)" "idle (bcache t2)" "content (bcache t2) = img s"
    using 2(2) c1(2) by (auto simp: bc.after_def idle_def)
  note L = loaded_file [OF s(2,3) k(1,2) c2 2(3)]
  have fc: "final_content h ps (k + 2) = file_bytes h (ps ! k)"
    using assms(5) by (simp add: final_content_def mk_content_def)
  have len: "length (file_bytes h (ps ! k)) = num_bytes (entry (inode_of t2 (q + 1)))"
    using L(2) fc length_file_data [of "q + 1" t2] by simp
  then have "0 + length (file_bytes h (ps ! k)) < 2 ^ 64" using file_invD(7) [OF L(1)] by simp
  from inode_read_spec [OF L(1) _ this] obtain t3 where
    "inode_read mk_super (q + 1) 0 (length (file_bytes h (ps ! k))) t2 = Some (0, file_bytes h (ps ! k), t3)"
    using L(2) fc by auto
  with s(1) c(1) t(1) 1(1) 2(1) I(8) show ?thesis by auto
qed

theorem mkfs_boot_roundtrip_witness:
  "\<exists>s stray c t r t1 t2 t3. mkfs_main demo_host [[0x69], demo_path] = Some s \<and>
    init_bcache (get_super_block (img s 1)) \<lparr>blocks = img s, history = []\<rparr> = Some (stray, c) \<and>
    init_inodes mk_super \<lparr>bcache = c, inode_of = (\<lambda>_. undefined), ilist = [], next_inode = 0\<rparr> = Some (Some 0, t) \<and>
    inode_lookup mk_super 0 (c_string [0x62]) t = Some (2, r, t1) \<and> inode_get mk_super 2 t1 = Some (1, t2) \<and>
    inode_read mk_super 1 0 7 t2 = Some (0, [1, 2, 3, 4, 5, 6, 7], t3)"
proof -
  have "cstr_len (c_string [0x62]) FILE_NAME_MAX_LENGTH = 1" by (rule cstr_lenI) (simp_all add: c_string_def)
  then have "name_text demo_path = [0x62]" by (simp add: name_text_def demo_file cstr_text_def c_string_def)
  then have d: "distinct (dir_names [demo_path])" by (simp add: dir_names_def)
  have "can_create demo_host [0x69]" "(2 + length [demo_path]) mod 32 \<noteq> 0" "0 < length [demo_path]"
    by (simp_all add: demo_host_def)
  note W = mkfs_boot_roundtrip [OF this(1) demo_fits this(2) d this(3), where q = 0 and l = "[]" and m = "\<lambda>_. undefined"]
  have len: "length [1, 2, 3, 4, 5, 6, 7 :: u8] = 7" by simp
  show ?thesis
    using W unfolding nth_Cons_0 demo_file len add_0 .
qed

end
