(* ===== verification/Emmc.thy ===== *)
theory Emmc
  imports Kernel_Prelude "HOL-Library.State_Monad"
begin

text \<open>
  The command layer of the SD card driver (\<^verbatim>\<open>src/src/driver/sddef.h\<close>). The host controller is
  an argument: what reading and writing its registers (and those of the GPIO pins), waiting and asking the mailbox
  for a clock rate do to it. A read may change
  the controller, so that it can also change by itself between two reads. The functions are
  state transformers in the state monad; their results are the codes of \<^verbatim>\<open>sd.h\<close> or, for
  a response with status, its error bits. Register reads that are only printed are left out,
  and with them \<^verbatim>\<open>sdDebugResponse\<close>, which returns its argument. The response types are
  a datatype, so that the \<^verbatim>\<open>default\<close> case of \<^verbatim>\<open>sdSendCommandP\<close>, which stops the kernel, does not occur.
\<close>

section \<open>Registers and constants\<close>

datatype reg = EMMC_BLKSIZECNT | EMMC_ARG1 | EMMC_CMDTM | EMMC_RESP0 | EMMC_RESP1 | EMMC_RESP2 | EMMC_RESP3 |
  EMMC_DATA | EMMC_STATUS | EMMC_CONTROL0 | EMMC_CONTROL1 | EMMC_INTERRUPT | EMMC_IRPT_MASK | EMMC_IRPT_EN |
  EMMC_SLOTISR_VER | GPFSEL4 | GPFSEL5 | GPPUD | GPPUDCLK1 | GPHEN1 | GPEDS1

record 'c emmc =
  reg_read :: "reg \<Rightarrow> 'c \<Rightarrow> u32 \<times> 'c"
  reg_write :: "reg \<Rightarrow> u32 \<Rightarrow> 'c \<Rightarrow> 'c"
  delay_us :: "nat \<Rightarrow> 'c \<Rightarrow> 'c"
  cpu_delay :: "nat \<Rightarrow> 'c \<Rightarrow> 'c"
  mbox_get_clock_rate :: "'c \<Rightarrow> u32 \<times> 'c"

abbreviation SD_OK :: u32 where "SD_OK \<equiv> 0"
abbreviation SD_ERROR :: u32 where "SD_ERROR \<equiv> 1"
abbreviation SD_TIMEOUT :: u32 where "SD_TIMEOUT \<equiv> 2"
abbreviation SD_BUSY :: u32 where "SD_BUSY \<equiv> 3"
abbreviation SD_ERROR_RESET :: u32 where "SD_ERROR_RESET \<equiv> 6"
abbreviation SD_ERROR_CLOCK :: u32 where "SD_ERROR_CLOCK \<equiv> 7"
abbreviation SD_ERROR_VOLTAGE :: u32 where "SD_ERROR_VOLTAGE \<equiv> 8"
abbreviation SD_ERROR_APP_CMD :: u32 where "SD_ERROR_APP_CMD \<equiv> 9"
abbreviation SD_CARD_CHANGED :: u32 where "SD_CARD_CHANGED \<equiv> 10"
abbreviation SD_CARD_REINSERTED :: u32 where "SD_CARD_REINSERTED \<equiv> 12"

abbreviation INT_DATA_TIMEOUT :: u32 where "INT_DATA_TIMEOUT \<equiv> 0x00100000"
abbreviation INT_CMD_TIMEOUT :: u32 where "INT_CMD_TIMEOUT \<equiv> 0x00010000"
abbreviation INT_READ_RDY :: u32 where "INT_READ_RDY \<equiv> 0x20"
abbreviation INT_WRITE_RDY :: u32 where "INT_WRITE_RDY \<equiv> 0x10"
abbreviation INT_DATA_DONE :: u32 where "INT_DATA_DONE \<equiv> 0x2"
abbreviation INT_CMD_DONE :: u32 where "INT_CMD_DONE \<equiv> 0x1"
abbreviation INT_ERROR_MASK :: u32 where
  "INT_ERROR_MASK \<equiv> 0x00020000 OR 0x00040000 OR 0x00080000 OR INT_DATA_TIMEOUT OR 0x00200000 OR
     0x00400000 OR 0x00008000 OR 0x01000000"

abbreviation SR_READ_AVAILABLE :: u32 where "SR_READ_AVAILABLE \<equiv> 0x00000800"
abbreviation SR_DAT_INHIBIT :: u32 where "SR_DAT_INHIBIT \<equiv> 0x2"
abbreviation SR_CMD_INHIBIT :: u32 where "SR_CMD_INHIBIT \<equiv> 0x1"

abbreviation ST_CARD_STATE :: u32 where "ST_CARD_STATE \<equiv> 0x1e00"
abbreviation ST_APP_CMD :: u32 where "ST_APP_CMD \<equiv> 0x20"
abbreviation R1_ERRORS_MASK :: u32 where "R1_ERRORS_MASK \<equiv> 0xfff9c004"
abbreviation R3_CCS :: u32 where "R3_CCS \<equiv> 0x40000000"
abbreviation R3_S18A :: u32 where "R3_S18A \<equiv> 0x01000000"
abbreviation R3_COMPLETE :: u32 where "R3_COMPLETE \<equiv> 0x80000000"
abbreviation R6_RCA_MASK :: u32 where "R6_RCA_MASK \<equiv> 0xffff0000"
abbreviation ACMD41_VOLTAGE :: u32 where "ACMD41_VOLTAGE \<equiv> 0x00ff8000"

abbreviation ACMD41_ARG_SC :: u32 where "ACMD41_ARG_SC \<equiv> ACMD41_VOLTAGE OR 0x01000000"
abbreviation ACMD41_ARG_HC :: u32 where "ACMD41_ARG_HC \<equiv> 0x40000000 OR 0x10000000 OR ACMD41_VOLTAGE OR 0x01000000"

abbreviation C0_HCTL_DWITDH :: u32 where "C0_HCTL_DWITDH \<equiv> 0x2"
abbreviation C1_SRST_HC :: u32 where "C1_SRST_HC \<equiv> 0x01000000"
abbreviation C1_CLK_EN :: u32 where "C1_CLK_EN \<equiv> 0x4"
abbreviation C1_CLK_STABLE :: u32 where "C1_CLK_STABLE \<equiv> 0x2"
abbreviation C1_CLK_INTLEN :: u32 where "C1_CLK_INTLEN \<equiv> 0x1"
abbreviation C1_TOUNIT_MAX :: u32 where "C1_TOUNIT_MAX \<equiv> 0x000e0000"
abbreviation FREQ_SETUP :: u32 where "FREQ_SETUP \<equiv> 400000"
abbreviation FREQ_NORMAL :: u32 where "FREQ_NORMAL \<equiv> 25000000"
abbreviation HOST_SPEC_NUM :: u32 where "HOST_SPEC_NUM \<equiv> 0x00ff0000"
abbreviation HOST_SPEC_V2 :: u32 where "HOST_SPEC_V2 \<equiv> 1"

abbreviation CMD_RSPNS_NO :: u32 where "CMD_RSPNS_NO \<equiv> 0"
abbreviation CMD_RSPNS_136 :: u32 where "CMD_RSPNS_136 \<equiv> 0x00010000"
abbreviation CMD_RSPNS_48 :: u32 where "CMD_RSPNS_48 \<equiv> 0x00020000"
abbreviation CMD_RSPNS_48B :: u32 where "CMD_RSPNS_48B \<equiv> 0x00030000"
abbreviation CMD_IS_DATA :: u32 where "CMD_IS_DATA \<equiv> 0x00200000"
abbreviation TM_DAT_DIR_CH :: u32 where "TM_DAT_DIR_CH \<equiv> 0x10"
abbreviation TM_DAT_DIR_HC :: u32 where "TM_DAT_DIR_HC \<equiv> 0"
abbreviation TM_MULTI_DATA :: u32 where "TM_MULTI_DATA \<equiv> CMD_IS_DATA OR 0x20 OR 0x2"

section \<open>Commands and the card descriptor\<close>

datatype resp_type = RESP_NO | RESP_R1 | RESP_R1b | RESP_R2I | RESP_R2S | RESP_R3 | RESP_R6 | RESP_R7

record emmc_command =
  cmd_code :: u32
  cmd_resp :: resp_type
  cmd_rca :: bool
  cmd_delay :: nat

definition sdCommandTable :: "emmc_command list" where
  "sdCommandTable = map (\<lambda>(c, r, a, d). \<lparr>cmd_code = c, cmd_resp = r, cmd_rca = a, cmd_delay = d\<rparr>)
    [(0x00000000 OR CMD_RSPNS_NO, RESP_NO, False, 0),
     (0x02000000 OR CMD_RSPNS_136, RESP_R2I, False, 0),
     (0x03000000 OR CMD_RSPNS_48, RESP_R6, False, 0),
     (0x04000000 OR CMD_RSPNS_NO, RESP_NO, False, 0),
     (0x06000000 OR CMD_RSPNS_48, RESP_R1, False, 0),
     (0x07000000 OR CMD_RSPNS_48B, RESP_R1b, True, 0),
     (0x08000000 OR CMD_RSPNS_48, RESP_R7, False, 100),
     (0x09000000 OR CMD_RSPNS_136, RESP_R2S, True, 0),
     (0x0A000000 OR CMD_RSPNS_136, RESP_R2I, True, 0),
     (0x0B000000 OR CMD_RSPNS_48, RESP_R1, False, 0),
     (0x0C000000 OR CMD_RSPNS_48B, RESP_R1b, False, 0),
     (0x0D000000 OR CMD_RSPNS_48, RESP_R1, True, 0),
     (0x0F000000 OR CMD_RSPNS_NO, RESP_NO, True, 0),
     (0x10000000 OR CMD_RSPNS_48, RESP_R1, False, 0),
     (0x11000000 OR CMD_RSPNS_48 OR CMD_IS_DATA OR TM_DAT_DIR_CH, RESP_R1, False, 0),
     (0x12000000 OR CMD_RSPNS_48 OR TM_MULTI_DATA OR TM_DAT_DIR_CH, RESP_R1, False, 0),
     (0x13000000 OR CMD_RSPNS_48, RESP_R1, False, 0),
     (0x14000000 OR CMD_RSPNS_48B, RESP_R1b, False, 0),
     (0x17000000 OR CMD_RSPNS_48, RESP_R1, False, 0),
     (0x18000000 OR CMD_RSPNS_48 OR CMD_IS_DATA OR TM_DAT_DIR_HC, RESP_R1, False, 0),
     (0x19000000 OR CMD_RSPNS_48 OR TM_MULTI_DATA OR TM_DAT_DIR_HC, RESP_R1, False, 0),
     (0x1B000000 OR CMD_RSPNS_48, RESP_R1, False, 0),
     (0x1C000000 OR CMD_RSPNS_48B, RESP_R1b, False, 0),
     (0x1D000000 OR CMD_RSPNS_48B, RESP_R1b, False, 0),
     (0x1E000000 OR CMD_RSPNS_48, RESP_R1, False, 0),
     (0x20000000 OR CMD_RSPNS_48, RESP_R1, False, 0),
     (0x21000000 OR CMD_RSPNS_48, RESP_R1, False, 0),
     (0x26000000 OR CMD_RSPNS_48B, RESP_R1b, False, 0),
     (0x2A000000 OR CMD_RSPNS_48, RESP_R1, False, 0),
     (0x37000000 OR CMD_RSPNS_NO, RESP_NO, False, 100),
     (0x37000000 OR CMD_RSPNS_48, RESP_R1, True, 0),
     (0x38000000 OR CMD_RSPNS_48, RESP_R1, False, 0),
     (0x06000000 OR CMD_RSPNS_48, RESP_R1, False, 0),
     (0x0D000000 OR CMD_RSPNS_48, RESP_R1, True, 0),
     (0x16000000 OR CMD_RSPNS_48, RESP_R1, False, 0),
     (0x17000000 OR CMD_RSPNS_48, RESP_R1, False, 0),
     (0x29000000 OR CMD_RSPNS_48, RESP_R3, False, 1000),
     (0x2A000000 OR CMD_RSPNS_48, RESP_R1, False, 0),
     (0x33000000 OR CMD_RSPNS_48 OR CMD_IS_DATA OR TM_DAT_DIR_CH, RESP_R1, False, 0)]"

abbreviation IX_GO_IDLE_STATE :: nat where "IX_GO_IDLE_STATE \<equiv> 0"
abbreviation IX_ALL_SEND_CID :: nat where "IX_ALL_SEND_CID \<equiv> 1"
abbreviation IX_SEND_REL_ADDR :: nat where "IX_SEND_REL_ADDR \<equiv> 2"
abbreviation IX_CARD_SELECT :: nat where "IX_CARD_SELECT \<equiv> 5"
abbreviation IX_SEND_IF_COND :: nat where "IX_SEND_IF_COND \<equiv> 6"
abbreviation IX_SEND_CSD :: nat where "IX_SEND_CSD \<equiv> 7"
abbreviation IX_SET_BLOCKLEN :: nat where "IX_SET_BLOCKLEN \<equiv> 13"
abbreviation IX_READ_SINGLE :: nat where "IX_READ_SINGLE \<equiv> 14"
abbreviation IX_WRITE_SINGLE :: nat where "IX_WRITE_SINGLE \<equiv> 19"
abbreviation IX_APP_CMD :: nat where "IX_APP_CMD \<equiv> 29"
abbreviation IX_APP_CMD_RCA :: nat where "IX_APP_CMD_RCA \<equiv> 30"
abbreviation IX_APP_CMD_START :: nat where "IX_APP_CMD_START \<equiv> 32"
abbreviation IX_SET_BUS_WIDTH :: nat where "IX_SET_BUS_WIDTH \<equiv> 32"
abbreviation IX_APP_SEND_OP_COND :: nat where "IX_APP_SEND_OP_COND \<equiv> 36"
abbreviation IX_SEND_SCR :: nat where "IX_SEND_SCR \<equiv> 38"

abbreviation SD_TYPE_1 :: nat where "SD_TYPE_1 \<equiv> 2"
abbreviation SD_TYPE_2_SC :: nat where "SD_TYPE_2_SC \<equiv> 3"
abbreviation SD_TYPE_2_HC :: nat where "SD_TYPE_2_HC \<equiv> 4"

record sd_card =
  sd_capacity :: u64
  sd_cid :: "u32 list"
  sd_csd :: "u32 list"
  sd_scr :: "u32 list"
  sd_ocr :: u32
  sd_support :: u32
  sd_fileFormat :: u32
  sd_type :: nat
  sd_uhsi :: nat
  sd_initialized :: bool
  sd_absent :: bool
  sd_rca :: u32
  sd_cardState :: u32
  sd_status :: u32
  sd_lastCmd :: "emmc_command option"
  sd_lastArg :: u32

record 'c sd =
  ctrl :: 'c
  sdCard :: sd_card
  sdHostVer :: u32
  sdBaseClock :: u32

section \<open>Register access\<close>

definition read_reg :: "'c emmc \<Rightarrow> reg \<Rightarrow> ('c sd, u32) state" where
  "read_reg E r = State (\<lambda>s. let (v, c) = reg_read E r (ctrl s) in (v, s\<lparr>ctrl := c\<rparr>))"

definition write_reg :: "'c emmc \<Rightarrow> reg \<Rightarrow> u32 \<Rightarrow> ('c sd, unit) state" where
  "write_reg E r v = State (\<lambda>s. ((), s\<lparr>ctrl := reg_write E r v (ctrl s)\<rparr>))"

definition sd_delayus :: "'c emmc \<Rightarrow> nat \<Rightarrow> ('c sd, unit) state" where
  "sd_delayus E c = State (\<lambda>s. ((), s\<lparr>ctrl := delay_us E (c * 3) (ctrl s)\<rparr>))"

definition cpu_wait :: "'c emmc \<Rightarrow> nat \<Rightarrow> ('c sd, unit) state" where
  "cpu_wait E n = State (\<lambda>s. ((), s\<lparr>ctrl := cpu_delay E n (ctrl s)\<rparr>))"

definition get_card :: "('c sd, sd_card) state" where
  "get_card = State (\<lambda>s. (sdCard s, s))"

definition upd_card :: "(sd_card \<Rightarrow> sd_card) \<Rightarrow> ('c sd, unit) state" where
  "upd_card f = State (\<lambda>s. ((), s\<lparr>sdCard := f (sdCard s)\<rparr>))"

section \<open>Waiting\<close>

text \<open>
  A loop \<^verbatim>\<open>while (busy && count--) sd_delayus(d)\<close>: the result is the final value of the
  counter, which is negative exactly when the time ran out.
\<close>

fun poll :: "'c emmc \<Rightarrow> ('c sd, bool) state \<Rightarrow> nat \<Rightarrow> nat \<Rightarrow> ('c sd, int) state" where
  "poll E busy d count = do {
     b \<leftarrow> busy;
     if \<not> b then State_Monad.return (int count)
     else if count = 0 then State_Monad.return (- 1)
     else do { sd_delayus E d; poll E busy d (count - 1) } }"

declare poll.simps [simp del]

definition no_interrupt :: "'c emmc \<Rightarrow> u32 \<Rightarrow> ('c sd, bool) state" where
  "no_interrupt E waitMask = do {
     v \<leftarrow> read_reg E EMMC_INTERRUPT;
     State_Monad.return (v AND waitMask = 0) }"

definition sdWaitForInterrupt :: "'c emmc \<Rightarrow> u32 \<Rightarrow> ('c sd, u32) state" where
  "sdWaitForInterrupt E msk = do {
     count \<leftarrow> poll E (no_interrupt E (msk OR INT_ERROR_MASK)) 1 1000000;
     ival \<leftarrow> read_reg E EMMC_INTERRUPT;
     if count \<le> 0 \<or> ival AND INT_CMD_TIMEOUT \<noteq> 0 \<or> ival AND INT_DATA_TIMEOUT \<noteq> 0 then do {
       write_reg E EMMC_INTERRUPT ival;
       State_Monad.return SD_TIMEOUT }
     else if ival AND INT_ERROR_MASK \<noteq> 0 then do {
       write_reg E EMMC_INTERRUPT ival;
       State_Monad.return SD_ERROR }
     else do {
       write_reg E EMMC_INTERRUPT msk;
       State_Monad.return SD_OK } }"

text \<open>The flag is up in the status register and no error is reported.\<close>

definition inhibited :: "'c emmc \<Rightarrow> u32 \<Rightarrow> ('c sd, bool) state" where
  "inhibited E flag = do {
     st \<leftarrow> read_reg E EMMC_STATUS;
     if st AND flag = 0 then State_Monad.return False
     else do {
       v \<leftarrow> read_reg E EMMC_INTERRUPT;
       State_Monad.return (v AND INT_ERROR_MASK = 0) } }"

definition sdWaitForCommand :: "'c emmc \<Rightarrow> ('c sd, u32) state" where
  "sdWaitForCommand E = do {
     count \<leftarrow> poll E (inhibited E SR_CMD_INHIBIT) 1 1000000;
     if count \<le> 0 then State_Monad.return SD_BUSY
     else do {
       v \<leftarrow> read_reg E EMMC_INTERRUPT;
       State_Monad.return (if v AND INT_ERROR_MASK \<noteq> 0 then SD_BUSY else SD_OK) } }"

text \<open>The loop of \<^verbatim>\<open>sdWaitForData\<close> counts up to its limit.\<close>

function wait_data_line :: "'c emmc \<Rightarrow> nat \<Rightarrow> ('c sd, nat) state" where
  "wait_data_line E count = do {
     b \<leftarrow> inhibited E SR_DAT_INHIBIT;
     if \<not> b then State_Monad.return count
     else if count + 1 < 500000 then do { sd_delayus E 1; wait_data_line E (count + 1) }
     else State_Monad.return (count + 1) }"
  by pat_completeness auto
termination by (relation "measure (\<lambda>(E, count). 500000 - count)") auto

declare wait_data_line.simps [simp del]

definition sdWaitForData :: "'c emmc \<Rightarrow> ('c sd, u32) state" where
  "sdWaitForData E = do {
     count \<leftarrow> wait_data_line E 0;
     if count \<ge> 500000 then State_Monad.return SD_BUSY
     else do {
       v \<leftarrow> read_reg E EMMC_INTERRUPT;
       State_Monad.return (if v AND INT_ERROR_MASK \<noteq> 0 then SD_BUSY else SD_OK) } }"

section \<open>Commands\<close>

definition handle_response :: "'c emmc \<Rightarrow> emmc_command \<Rightarrow> u32 \<Rightarrow> u32 \<Rightarrow> ('c sd, u32) state" where
  "handle_response E cmd arg resp0 =
     (case cmd_resp cmd of
        RESP_NO \<Rightarrow> State_Monad.return SD_OK
      | RESP_R1 \<Rightarrow> do {
          upd_card (\<lambda>c. c\<lparr>sd_status := resp0, sd_cardState := drop_bit 9 (resp0 AND ST_CARD_STATE)\<rparr>);
          State_Monad.return (resp0 AND R1_ERRORS_MASK) }
      | RESP_R1b \<Rightarrow> do {
          upd_card (\<lambda>c. c\<lparr>sd_status := resp0, sd_cardState := drop_bit 9 (resp0 AND ST_CARD_STATE)\<rparr>);
          State_Monad.return (resp0 AND R1_ERRORS_MASK) }
      | RESP_R2I \<Rightarrow> do {
          r3 \<leftarrow> read_reg E EMMC_RESP3; r2 \<leftarrow> read_reg E EMMC_RESP2; r1 \<leftarrow> read_reg E EMMC_RESP1;
          upd_card (\<lambda>c. c\<lparr>sd_status := 0, sd_cid := [r3, r2, r1, resp0]\<rparr>);
          State_Monad.return SD_OK }
      | RESP_R2S \<Rightarrow> do {
          r3 \<leftarrow> read_reg E EMMC_RESP3; r2 \<leftarrow> read_reg E EMMC_RESP2; r1 \<leftarrow> read_reg E EMMC_RESP1;
          upd_card (\<lambda>c. c\<lparr>sd_status := 0, sd_csd := [r3, r2, r1, resp0]\<rparr>);
          State_Monad.return SD_OK }
      | RESP_R3 \<Rightarrow> do {
          upd_card (\<lambda>c. c\<lparr>sd_status := 0, sd_ocr := resp0\<rparr>);
          State_Monad.return SD_OK }
      | RESP_R6 \<Rightarrow> do {
          let st = (resp0 AND 0x1fff) OR push_bit 6 (resp0 AND 0x2000) OR push_bit 8 (resp0 AND 0x4000) OR
            push_bit 8 (resp0 AND 0x8000);
          upd_card (\<lambda>c. c\<lparr>sd_rca := resp0 AND R6_RCA_MASK, sd_status := st,
            sd_cardState := drop_bit 9 (resp0 AND ST_CARD_STATE)\<rparr>);
          State_Monad.return (st AND R1_ERRORS_MASK) }
      | RESP_R7 \<Rightarrow> do {
          upd_card (\<lambda>c. c\<lparr>sd_status := 0\<rparr>);
          State_Monad.return (if resp0 = arg then SD_OK else SD_ERROR) })"

definition sdSendCommandP :: "'c emmc \<Rightarrow> emmc_command \<Rightarrow> u32 \<Rightarrow> ('c sd, u32) state" where
  "sdSendCommandP E cmd arg = do {
     busy \<leftarrow> sdWaitForCommand E;
     if busy \<noteq> 0 then State_Monad.return SD_BUSY
     else do {
       upd_card (\<lambda>c. c\<lparr>sd_lastCmd := Some cmd, sd_lastArg := arg\<rparr>);
       v \<leftarrow> read_reg E EMMC_INTERRUPT;
       write_reg E EMMC_INTERRUPT v;
       write_reg E EMMC_ARG1 arg;
       write_reg E EMMC_CMDTM (cmd_code cmd);
       (if cmd_delay cmd \<noteq> 0 then sd_delayus E (cmd_delay cmd) else State_Monad.return ());
       result \<leftarrow> sdWaitForInterrupt E INT_CMD_DONE;
       if result \<noteq> 0 then State_Monad.return result
       else do {
         resp0 \<leftarrow> read_reg E EMMC_RESP0;
         handle_response E cmd arg resp0 } } }"

definition sdSendAppCommand :: "'c emmc \<Rightarrow> ('c sd, u32) state" where
  "sdSendAppCommand E = do {
     c \<leftarrow> get_card;
     if sd_rca c = 0 then do {
       _ \<leftarrow> sdSendCommandP E (sdCommandTable ! IX_APP_CMD) 0;
       State_Monad.return SD_OK }
     else do {
       resp \<leftarrow> sdSendCommandP E (sdCommandTable ! IX_APP_CMD_RCA) (sd_rca c);
       if resp \<noteq> 0 then State_Monad.return resp
       else do {
         c \<leftarrow> get_card;
         State_Monad.return (if sd_status c AND ST_APP_CMD = 0 then SD_ERROR else SD_OK) } } }"

text \<open>The part that \<^verbatim>\<open>sdSendCommand\<close> and \<^verbatim>\<open>sdSendCommandA\<close> share, given how the argument is found.\<close>

definition send_with :: "'c emmc \<Rightarrow> nat \<Rightarrow> (sd_card \<Rightarrow> u32) \<Rightarrow> ('c sd, u32) state" where
  "send_with E index arg = do {
     resp \<leftarrow> (if index \<ge> IX_APP_CMD_START then sdSendAppCommand E else State_Monad.return 0);
     if resp \<noteq> 0 then State_Monad.return resp
     else do {
       c \<leftarrow> get_card;
       resp \<leftarrow> sdSendCommandP E (sdCommandTable ! index) (arg c);
       if resp \<noteq> 0 then State_Monad.return resp
       else do {
         c \<leftarrow> get_card;
         State_Monad.return
           (if index \<ge> IX_APP_CMD_START \<and> sd_rca c \<noteq> 0 \<and> sd_status c AND ST_APP_CMD = 0
            then SD_ERROR_APP_CMD else resp) } } }"

definition sdSendCommand :: "'c emmc \<Rightarrow> nat \<Rightarrow> ('c sd, u32) state" where
  "sdSendCommand E index = send_with E index (\<lambda>c. if cmd_rca (sdCommandTable ! index) then sd_rca c else 0)"

definition sdSendCommandA :: "'c emmc \<Rightarrow> nat \<Rightarrow> u32 \<Rightarrow> ('c sd, u32) state" where
  "sdSendCommandA E index arg = send_with E index (\<lambda>_. arg)"

section \<open>The configuration register\<close>

text \<open>The loop that reads the two words: the number of words read when it stops.\<close>

function read_scr :: "'c emmc \<Rightarrow> nat \<Rightarrow> nat \<Rightarrow> ('c sd, nat) state" where
  "read_scr E numRead count =
     (if numRead < 2 then do {
        st \<leftarrow> read_reg E EMMC_STATUS;
        if st AND SR_READ_AVAILABLE \<noteq> 0 then do {
          v \<leftarrow> read_reg E EMMC_DATA;
          upd_card (\<lambda>c. c\<lparr>sd_scr := (sd_scr c)[numRead := v]\<rparr>);
          read_scr E (numRead + 1) count }
        else do {
          sd_delayus E 1;
          if count \<le> 1 then State_Monad.return numRead else read_scr E numRead (count - 1) } }
      else State_Monad.return numRead)"
  by pat_completeness auto
termination by (relation "measures [\<lambda>(E, numRead, count). count, \<lambda>(E, numRead, count). 2 - numRead]") auto

declare read_scr.simps [simp del]

definition scr_support :: "u32 \<Rightarrow> u32" where
  "scr_support scr0 =
     (if scr0 AND 0x400 \<noteq> 0 then 0x20000000 else 0) OR (if scr0 AND 0x100 \<noteq> 0 then 0x10000000 else 0) OR
     (if scr0 AND 0x02000000 \<noteq> 0 then 0x80000000 else 0) OR (if scr0 AND 0x01000000 \<noteq> 0 then 0x40000000 else 0)"

definition sdReadSCR :: "'c emmc \<Rightarrow> ('c sd, u32) state" where
  "sdReadSCR E = do {
     busy \<leftarrow> sdWaitForData E;
     if busy \<noteq> 0 then State_Monad.return SD_TIMEOUT
     else do {
       write_reg E EMMC_BLKSIZECNT (push_bit 16 1 OR 8);
       resp \<leftarrow> sdSendCommand E IX_SEND_SCR;
       if resp \<noteq> 0 then State_Monad.return resp
       else do {
         resp \<leftarrow> sdWaitForInterrupt E INT_READ_RDY;
         if resp \<noteq> 0 then State_Monad.return resp
         else do {
           numRead \<leftarrow> read_scr E 0 100000;
           if numRead \<noteq> 2 then State_Monad.return SD_TIMEOUT
           else do {
             upd_card (\<lambda>c. c\<lparr>sd_support := sd_support c OR scr_support (sd_scr c ! 0)\<rparr>);
             State_Monad.return SD_OK } } } } }"

section \<open>The clock\<close>

definition fls_step :: "u64 \<Rightarrow> nat \<Rightarrow> u64 \<times> nat \<Rightarrow> u64 \<times> nat" where
  "fls_step m k = (\<lambda>(x, r). if x AND m = 0 then (push_bit k x, r - k) else (x, r))"

definition fls_long :: "u64 \<Rightarrow> nat" where
  "fls_long x =
     (if x = 0 then 0
      else let s = (x, 32);
               s = fls_step 0xffff0000 16 s;
               s = fls_step 0xff000000 8 s;
               s = fls_step 0xf0000000 4 s;
               s = fls_step 0xc0000000 2 s;
               s = fls_step 0x80000000 1 s
           in snd s)"

definition roundup_pow_of_two :: "u64 \<Rightarrow> u64" where
  "roundup_pow_of_two x = push_bit (fls_long (x - 1)) 1"

definition sdGetClockDivider :: "u32 \<Rightarrow> u32 \<Rightarrow> u32" where
  "sdGetClockDivider host_ver freq =
     (let closest = 41666666 div freq;
          shiftcount = fls_long (ucast (closest - 1));
          shiftcount = (if shiftcount > 0 then shiftcount - 1 else shiftcount);
          shiftcount = (if shiftcount > 7 then 7 else shiftcount);
          divisor = (if host_ver > HOST_SPEC_V2 then closest else push_bit shiftcount 1);
          divisor = (if divisor \<le> 2 then 2 else divisor);
          hi = (if host_ver > HOST_SPEC_V2 then drop_bit 2 (divisor AND 0x300) else 0);
          lo = divisor AND 0xff
      in push_bit 8 lo + hi)"

text \<open>A loop \<^verbatim>\<open>while (busy && --count) sd_delayus(1)\<close>, which ends with 0 when the time ran out.\<close>

fun poll_pre :: "'c emmc \<Rightarrow> ('c sd, bool) state \<Rightarrow> nat \<Rightarrow> ('c sd, nat) state" where
  "poll_pre E busy count = do {
     b \<leftarrow> busy;
     if \<not> b then State_Monad.return count
     else if count \<le> 1 then State_Monad.return 0
     else do { sd_delayus E 1; poll_pre E busy (count - 1) } }"

declare poll_pre.simps [simp del]

definition reg_set :: "'c emmc \<Rightarrow> reg \<Rightarrow> u32 \<Rightarrow> ('c sd, bool) state" where
  "reg_set E r m = do {
     v \<leftarrow> read_reg E r;
     State_Monad.return (v AND m \<noteq> 0) }"

definition reg_clear :: "'c emmc \<Rightarrow> reg \<Rightarrow> u32 \<Rightarrow> ('c sd, bool) state" where
  "reg_clear E r m = do {
     v \<leftarrow> read_reg E r;
     State_Monad.return (v AND m = 0) }"

definition upd_reg :: "'c emmc \<Rightarrow> reg \<Rightarrow> (u32 \<Rightarrow> u32) \<Rightarrow> ('c sd, unit) state" where
  "upd_reg E r f = do { v \<leftarrow> read_reg E r; write_reg E r (f v) }"

definition get_host_ver :: "('c sd, u32) state" where
  "get_host_ver = State (\<lambda>s. (sdHostVer s, s))"

definition sdSetClock :: "'c emmc \<Rightarrow> u32 \<Rightarrow> ('c sd, u32) state" where
  "sdSetClock E freq = do {
     count \<leftarrow> poll_pre E (reg_set E EMMC_STATUS (SR_CMD_INHIBIT OR SR_DAT_INHIBIT)) 100000;
     if count = 0 then State_Monad.return SD_ERROR_CLOCK
     else do {
       upd_reg E EMMC_CONTROL1 (\<lambda>v. v AND NOT C1_CLK_EN);
       sd_delayus E 10;
       ver \<leftarrow> get_host_ver;
       let cdiv = sdGetClockDivider ver freq;
       upd_reg E EMMC_CONTROL1 (\<lambda>v. (v AND 0xffff003f) OR cdiv);
       sd_delayus E 10;
       upd_reg E EMMC_CONTROL1 (\<lambda>v. v OR C1_CLK_EN);
       sd_delayus E 10;
       count \<leftarrow> poll E (reg_clear E EMMC_CONTROL1 C1_CLK_STABLE) 10 10000;
       State_Monad.return (if count \<le> 0 then SD_ERROR_CLOCK else SD_OK) } }"

definition sdResetCard :: "'c emmc \<Rightarrow> u32 \<Rightarrow> ('c sd, u32) state" where
  "sdResetCard E resetType = do {
     write_reg E EMMC_CONTROL0 0;
     upd_reg E EMMC_CONTROL1 (\<lambda>v. v OR resetType);
     sd_delayus E 10;
     count \<leftarrow> poll E (reg_set E EMMC_CONTROL1 resetType) 10 10000;
     if count \<le> 0 then State_Monad.return SD_ERROR_RESET
     else do {
       upd_reg E EMMC_CONTROL1 (\<lambda>v. v OR (C1_CLK_INTLEN OR C1_TOUNIT_MAX));
       sd_delayus E 10;
       resp \<leftarrow> sdSetClock E FREQ_SETUP;
       if resp \<noteq> 0 then State_Monad.return resp
       else do {
         write_reg E EMMC_IRPT_EN (0xffffffff AND NOT INT_CMD_DONE AND NOT INT_WRITE_RDY);
         write_reg E EMMC_IRPT_MASK 0xffffffff;
         upd_card (\<lambda>c. c\<lparr>sd_rca := 0, sd_ocr := 0, sd_lastArg := 0, sd_lastCmd := None, sd_status := 0,
           sd_type := 0, sd_uhsi := 0\<rparr>);
         sdSendCommand E IX_GO_IDLE_STATE } } }"

text \<open>The retries of \<^verbatim>\<open>sdAppSendOpCond\<close>: \<open>None\<close> when the card is ready or the retries are used up.\<close>

fun op_cond_retry :: "'c emmc \<Rightarrow> u32 \<Rightarrow> nat \<Rightarrow> ('c sd, u32 option) state" where
  "op_cond_retry E arg count = do {
     c \<leftarrow> get_card;
     if sd_ocr c AND R3_COMPLETE \<noteq> 0 \<or> count = 0 then State_Monad.return None
     else do {
       cpu_wait E 50000;
       resp \<leftarrow> sdSendCommandA E IX_APP_SEND_OP_COND arg;
       if resp \<noteq> 0 \<and> resp \<noteq> SD_TIMEOUT then State_Monad.return (Some resp)
       else op_cond_retry E arg (count - 1) } }"

declare op_cond_retry.simps [simp del]

definition sdAppSendOpCond :: "'c emmc \<Rightarrow> u32 \<Rightarrow> ('c sd, u32) state" where
  "sdAppSendOpCond E arg = do {
     resp \<leftarrow> sdSendCommandA E IX_APP_SEND_OP_COND arg;
     if resp \<noteq> 0 \<and> resp \<noteq> SD_TIMEOUT then State_Monad.return resp
     else do {
       failed \<leftarrow> op_cond_retry E arg 6;
       (case failed of
          Some resp \<Rightarrow> State_Monad.return resp
        | None \<Rightarrow> do {
            c \<leftarrow> get_card;
            State_Monad.return
              (if sd_ocr c AND R3_COMPLETE = 0 then SD_TIMEOUT
               else if sd_ocr c AND ACMD41_VOLTAGE = 0 then SD_ERROR_VOLTAGE else SD_OK) }) } }"

section \<open>The card's size\<close>

definition sdParseCSD :: "sd_card \<Rightarrow> sd_card" where
  "sdParseCSD c =
     (let csd = sd_csd c;
          cap = (if csd ! 0 AND 0x00c00000 = 0 then
             let csize = uint (push_bit 10 (csd ! 1 AND 0x3) + drop_bit 22 (csd ! 2 AND 0xffc00000));
                 mult = 2 ^ (unat (drop_bit 7 (csd ! 2 AND 0x380)) + 2);
                 blockSize = 2 ^ unat (drop_bit 8 (csd ! 1 AND 0xf00));
                 numBlocks = (csize + 1) * mult
             in numBlocks * blockSize
           else
             let csize = uint (drop_bit 8 (csd ! 2 AND 0x3fffff00))
             in (csize + 1) * 512 * 1024 :: int)
      in c\<lparr>sd_capacity := of_int cap, sd_fileFormat := csd ! 3 AND 0xc\<rparr>)"

section \<open>Initialization\<close>

text \<open>The pull-up sequence for some pins of the second bank, which \<^verbatim>\<open>sdInitGPIO\<close> runs three times.\<close>

definition pull_up :: "'c emmc \<Rightarrow> u32 \<Rightarrow> ('c sd, unit) state" where
  "pull_up E pins = do {
     write_reg E GPPUD 2;
     cpu_wait E 150;
     write_reg E GPPUDCLK1 pins;
     cpu_wait E 150;
     write_reg E GPPUD 0;
     write_reg E GPPUDCLK1 0 }"

definition sdInitGPIO :: "'c emmc \<Rightarrow> ('c sd, unit) state" where
  "sdInitGPIO E = do {
     upd_reg E GPFSEL4 (\<lambda>r. r AND NOT (push_bit (7 * 3) 7));
     pull_up E (push_bit 15 1);
     upd_reg E GPHEN1 (\<lambda>r. r OR push_bit 15 1);
     upd_reg E GPFSEL4 (\<lambda>r. r OR (push_bit (8 * 3) 7 OR push_bit (9 * 3) 7));
     pull_up E (push_bit 16 1 OR push_bit 17 1);
     upd_reg E GPFSEL5 (\<lambda>r. r OR (push_bit (0 * 3) 7 OR push_bit (1 * 3) 7 OR push_bit (2 * 3) 7 OR push_bit (3 * 3) 7));
     pull_up E (push_bit 18 1 OR push_bit 19 1 OR push_bit 20 1 OR push_bit 21 1) }"

definition sdGetBaseClock :: "'c emmc \<Rightarrow> ('c sd, u32) state" where
  "sdGetBaseClock E = do {
     rate \<leftarrow> State (\<lambda>s. let (v, c) = mbox_get_clock_rate E (ctrl s) in (v, s\<lparr>ctrl := c, sdBaseClock := v\<rparr>));
     State_Monad.return (if rate = - 1 then SD_ERROR else SD_OK) }"

definition sdSwitchVoltage :: "('c sd, u32) state" where
  "sdSwitchVoltage = State_Monad.return SD_OK"

text \<open>\<^verbatim>\<open>if ((resp = m)) return resp;\<close>\<close>

definition check :: "('s, u32) state \<Rightarrow> ('s, u32) state \<Rightarrow> ('s, u32) state" where
  "check m k = do { resp \<leftarrow> m; if resp \<noteq> 0 then State_Monad.return resp else k }"

definition set_type :: "nat \<Rightarrow> ('c sd, u32) state" where
  "set_type ty = do { upd_card (\<lambda>c. c\<lparr>sd_type := ty\<rparr>); State_Monad.return SD_OK }"

text \<open>The part of \<^verbatim>\<open>sdInit\<close> that finds out the type of the card.\<close>

definition sd_identify :: "'c emmc \<Rightarrow> ('c sd, u32) state" where
  "sd_identify E = do {
     resp \<leftarrow> sdSendCommandA E IX_SEND_IF_COND 0x000001AA;
     if resp = SD_OK then do {
       cpu_wait E 50;
       check (sdAppSendOpCond E ACMD41_ARG_HC) (do {
         c \<leftarrow> get_card;
         set_type (if sd_ocr c AND R3_CCS \<noteq> 0 then SD_TYPE_2_HC else SD_TYPE_2_SC) }) }
     else if resp = SD_BUSY then State_Monad.return resp
     else do {
       inh \<leftarrow> reg_set E EMMC_STATUS SR_CMD_INHIBIT;
       check (if inh then sdResetCard E C1_SRST_HC else State_Monad.return 0)
         (check (sdAppSendOpCond E ACMD41_ARG_SC) (set_type SD_TYPE_1)) } }"

text \<open>The rest of \<^verbatim>\<open>sdInit\<close>, from the voltage switch on.\<close>

definition sd_configure :: "'c emmc \<Rightarrow> u32 list \<Rightarrow> ('c sd, u32) state" where
  "sd_configure E oldCID = do {
     c \<leftarrow> get_card;
     check (if sd_ocr c AND R3_S18A \<noteq> 0 then sdSwitchVoltage else State_Monad.return 0) (
     check (sdSendCommand E IX_ALL_SEND_CID) (
     check (sdSendCommand E IX_SEND_REL_ADDR) (
     check (sdSendCommand E IX_SEND_CSD) (do {
     upd_card sdParseCSD;
     c \<leftarrow> get_card;
     if sd_fileFormat c \<noteq> 4 \<and> sd_fileFormat c \<noteq> 0 then State_Monad.return SD_ERROR
     else
     check (sdSetClock E FREQ_NORMAL) (
     check (sdSendCommand E IX_CARD_SELECT) (
     check (sdReadSCR E) (do {
     c \<leftarrow> get_card;
     check (if sd_support c AND 0x20000000 \<noteq> 0
       then check (sdSendCommandA E IX_SET_BUS_WIDTH (sd_rca c OR 2)) (do {
         upd_reg E EMMC_CONTROL0 (\<lambda>v. v OR C0_HCTL_DWITDH);
         State_Monad.return 0 })
       else State_Monad.return 0) (
     check (sdSendCommandA E IX_SET_BLOCKLEN 512) (do {
     upd_card (\<lambda>c. c\<lparr>sd_initialized := True\<rparr>);
     c \<leftarrow> get_card;
     State_Monad.return (if oldCID = sd_cid c then SD_CARD_REINSERTED else SD_CARD_CHANGED) })) }))) }))))}"

text \<open>
  \<^verbatim>\<open>sdInit\<close>; the test for an absent card is the constant 0 in the source. The old identification is not set
  when the card is initialized and still there, but then it is not used either.
\<close>

definition sdInit :: "'c emmc \<Rightarrow> ('c sd, u32) state" where
  "sdInit E = do {
     c \<leftarrow> get_card;
     (if \<not> sd_initialized c then sdInitGPIO E else State_Monad.return ());
     ejected \<leftarrow> reg_set E GPEDS1 (push_bit (47 - 32) 1);
     upd_card (\<lambda>c. c\<lparr>sd_absent := False\<rparr>);
     c \<leftarrow> get_card;
     let oldCID = (if ejected \<and> sd_initialized c then sd_cid c else replicate 4 0);
     upd_card (\<lambda>c. c\<lparr>sd_initialized := sd_initialized c \<and> \<not> ejected\<rparr>);
     if sd_initialized c \<and> \<not> ejected then State_Monad.return SD_OK
     else do {
       v \<leftarrow> read_reg E EMMC_SLOTISR_VER;
       State (\<lambda>s. ((), s\<lparr>sdHostVer := drop_bit 16 (v AND HOST_SPEC_NUM)\<rparr>));
       check (sdGetBaseClock E) (
       check (sdResetCard E C1_SRST_HC) (
       check (sd_identify E) (
       sd_configure E oldCID))) } }"

end
