(* ===== verification/Sd_Clock.thy ===== *)
theory Sd_Clock
  imports Emmc
begin

text \<open>
  The clock divider of the SD card driver: \<^verbatim>\<open>fls_long\<close> finds the highest set bit, and the value that
  \<^verbatim>\<open>sdGetClockDivider\<close> computes from it fits into the clock field of the control register.
\<close>

section \<open>The highest set bit\<close>

lemma unat_push_bit_small:
  fixes x :: u64
  assumes "unat x * 2 ^ k < 2 ^ 64"
  shows "unat (push_bit k x) = unat x * 2 ^ k"
  by (simp add: unsigned_push_bit_eq) (simp add: push_bit_eq_mult take_bit_nat_eq_self [OF assms])

lemma top_bits_zero:
  fixes x :: u64
  assumes x: "unat x < 2 ^ 32" and k: "k \<le> 32"
  shows "x AND push_bit (32 - k) (mask k) = 0 \<longleftrightarrow> unat x < 2 ^ (32 - k)"
proof -
  have e: "x AND push_bit (32 - k) (mask k) = push_bit (32 - k) (take_bit k (drop_bit (32 - k) x))"
    by (subst slice_eq_mask) (simp add: push_bit_mask_eq k and.assoc)
  have dv: "unat x div 2 ^ (32 - k) < 2 ^ k"
    using x k by (simp add: less_mult_imp_div_less power_add [symmetric])
  moreover have "take_bit 64 (unat x) = unat x" by (rule take_bit_nat_eq_self) (use x in simp)
  ultimately have "unat (take_bit k (drop_bit (32 - k) x)) = unat x div 2 ^ (32 - k)"
    by (simp add: unsigned_take_bit_eq unsigned_drop_bit_eq) (simp add: drop_bit_eq_div take_bit_nat_eq_self)
  then have "unat (x AND push_bit (32 - k) (mask k)) = unat x div 2 ^ (32 - k) * 2 ^ (32 - k)"
    using x le_less_trans [OF div_times_less_eq_dividend [of "unat x" "2 ^ (32 - k)"], of "2 ^ 64"]
    unfolding e by (subst unat_push_bit_small) simp_all
  then show ?thesis
    by (simp add: unat_eq_0 [symmetric] div_eq_0_iff)
qed

text \<open>After a step the highest set bit is among the top \<open>k\<close> of the 32, and shifts are accounted for.\<close>

lemma fls_step:
  assumes "unat y = n * 2 ^ (32 - r)" and "unat y < 2 ^ 32" and "2 ^ (32 - 2 * k) \<le> unat y" and "k \<le> r" and "r \<le> 32"
    and "1 \<le> k" "k \<le> 16" and "m = push_bit (32 - k) (mask k)" and "fls_step m k (y, r) = (y', r')"
  shows "unat y' = n * 2 ^ (32 - r') \<and> unat y' < 2 ^ 32 \<and> 2 ^ (32 - k) \<le> unat y' \<and> r - k \<le> r' \<and> r' \<le> 32"
proof (cases "unat y < 2 ^ (32 - k)")
  case False
  then show ?thesis using assms top_bits_zero [of y k] by (auto simp: fls_step_def split: if_splits)
next
  case True
  have lt: "unat y * 2 ^ k < 2 ^ 32"
  proof -
    have "unat y * 2 ^ k < 2 ^ (32 - k) * 2 ^ k" using True by simp
    then show ?thesis using assms(7) by (simp add: power_add [symmetric])
  qed
  have y': "y' = push_bit k y" "r' = r - k" using True assms top_bits_zero [of y k] by (auto simp: fls_step_def)
  have u: "unat y' = unat y * 2 ^ k"
    unfolding y'(1) by (rule unat_push_bit_small) (use lt in simp)
  moreover have "unat y * 2 ^ k = n * 2 ^ (32 - r')"
    using assms(1,4,5) y'(2) by (simp add: power_add [symmetric])
  moreover have "2 ^ (32 - k) \<le> unat y * 2 ^ k"
  proof -
    have "(2::nat) ^ (32 - k) = 2 ^ (32 - 2 * k) * 2 ^ k" using assms(6,7) by (simp add: power_add [symmetric])
    then show ?thesis using assms(3) by simp
  qed
  moreover have "r - k \<le> r'" "r' \<le> 32" using y'(2) assms(5) by simp_all
  ultimately show ?thesis using lt by simp
qed

lemma fls_long_bounds:
  assumes "0 < x" and "x < 2 ^ 32"
  shows "fls_long x \<le> 32" and "unat x < 2 ^ fls_long x" and "2 ^ (fls_long x - 1) \<le> unat x"
proof -
  let ?n = "unat x"
  obtain y1 r1 where s1: "fls_step 0xffff0000 16 (x, 32) = (y1, r1)" by fastforce
  obtain y2 r2 where s2: "fls_step 0xff000000 8 (y1, r1) = (y2, r2)" by fastforce
  obtain y3 r3 where s3: "fls_step 0xf0000000 4 (y2, r2) = (y3, r3)" by fastforce
  obtain y4 r4 where s4: "fls_step 0xc0000000 2 (y3, r3) = (y4, r4)" by fastforce
  obtain y5 r5 where s5: "fls_step 0x80000000 1 (y4, r4) = (y5, r5)" by fastforce
  have x: "0 < unat x" "unat x < 2 ^ 32" using assms by (simp_all add: word_less_nat_alt)
  have r: "fls_long x = r5" using assms(1) s1 s2 s3 s4 s5 by (auto simp: fls_long_def)
  have m: "(0xffff0000 :: u64) = push_bit (32 - 16) (mask 16)" "(0xff000000 :: u64) = push_bit (32 - 8) (mask 8)"
    "(0xf0000000 :: u64) = push_bit (32 - 4) (mask 4)" "(0xc0000000 :: u64) = push_bit (32 - 2) (mask 2)"
    "(0x80000000 :: u64) = push_bit (32 - 1) (mask 1)"
    by (simp_all add: mask_eq_exp_minus_1 push_bit_eq_mult)
  have 1: "unat y1 = ?n * 2 ^ (32 - r1) \<and> unat y1 < 2 ^ 32 \<and> 2 ^ (32 - 16) \<le> unat y1 \<and> 32 - 16 \<le> r1 \<and> r1 \<le> 32"
    by (rule fls_step [OF _ _ _ _ _ _ _ m(1) s1]) (use x in simp_all)
  have 2: "unat y2 = ?n * 2 ^ (32 - r2) \<and> unat y2 < 2 ^ 32 \<and> 2 ^ (32 - 8) \<le> unat y2 \<and> r1 - 8 \<le> r2 \<and> r2 \<le> 32"
    by (rule fls_step [OF _ _ _ _ _ _ _ m(2) s2]) (use 1 in simp_all)
  have l2: "8 \<le> r2" using 1 2 by linarith
  have 3: "unat y3 = ?n * 2 ^ (32 - r3) \<and> unat y3 < 2 ^ 32 \<and> 2 ^ (32 - 4) \<le> unat y3 \<and> r2 - 4 \<le> r3 \<and> r3 \<le> 32"
    by (rule fls_step [OF _ _ _ _ _ _ _ m(3) s3]) (use 2 l2 in simp_all)
  have l3: "4 \<le> r3" using l2 3 by linarith
  have 4: "unat y4 = ?n * 2 ^ (32 - r4) \<and> unat y4 < 2 ^ 32 \<and> 2 ^ (32 - 2) \<le> unat y4 \<and> r3 - 2 \<le> r4 \<and> r4 \<le> 32"
    by (rule fls_step [OF _ _ _ _ _ _ _ m(4) s4]) (use 3 l3 in simp_all)
  have l4: "2 \<le> r4" using l3 4 by linarith
  have 5: "unat y5 = ?n * 2 ^ (32 - r5) \<and> unat y5 < 2 ^ 32 \<and> 2 ^ (32 - 1) \<le> unat y5 \<and> r4 - 1 \<le> r5 \<and> r5 \<le> 32"
    by (rule fls_step [OF _ _ _ _ _ _ _ m(5) s5]) (use 4 l4 in simp_all)
  have r5: "1 \<le> r5" using l4 5 by linarith
  have p: "(2::nat) ^ 32 = 2 ^ r5 * 2 ^ (32 - r5)" "(2::nat) ^ (32 - 1) = 2 ^ (r5 - 1) * 2 ^ (32 - r5)"
    using 5 r5 by (simp_all only: power_add [symmetric]) auto
  show "fls_long x \<le> 32" using 5 r by simp
  have "?n * 2 ^ (32 - r5) < 2 ^ r5 * 2 ^ (32 - r5)" using 5 p(1) by metis
  then show "unat x < 2 ^ fls_long x" unfolding r by simp
  have "2 ^ (r5 - 1) * 2 ^ (32 - r5) \<le> ?n * 2 ^ (32 - r5)" using 5 p(2) by metis
  then show "2 ^ (fls_long x - 1) \<le> unat x" unfolding r by simp
qed

text \<open>The argument is an \<^verbatim>\<open>unsigned long\<close>, but only its low 32 bits are looked at.\<close>

lemma fls_long_wide: "fls_long (2 ^ 32) = 1"
  by (simp add: fls_long_def fls_step_def)

section \<open>The clock field\<close>

text \<open>The divisor that the ten bits of the clock field of \<^verbatim>\<open>EMMC_CONTROL1\<close> hold.\<close>

definition clock_field :: "u32 \<Rightarrow> u32" where
  "clock_field r = (drop_bit 8 r AND 0xff) OR push_bit 2 (r AND 0xc0)"

lemma clock_masks:
  "(0xff :: u32) = mask 8" "(0x300 :: u32) = push_bit 8 (mask 2)" "(0xc0 :: u32) = push_bit 6 (mask 2)"
  "(0xffff003f :: u32) = NOT (push_bit 6 (mask 10))" "(0x3ff :: u32) = mask 10"
  by (simp_all add: mask_eq_exp_minus_1 push_bit_eq_mult)

lemma join_field:
  fixes D :: u32
  shows "(push_bit 8 (D AND 0xff) + drop_bit 2 (D AND 0x300)) AND 0xffff003f = 0"
    and "clock_field (push_bit 8 (D AND 0xff) + drop_bit 2 (D AND 0x300)) = D AND 0x3ff"
proof -
  have j: "push_bit 8 (D AND 0xff) + drop_bit 2 (D AND 0x300) = push_bit 8 (D AND 0xff) OR drop_bit 2 (D AND 0x300)"
    by (rule disjunctive_add) (auto simp: clock_masks bit_simps)
  show "(push_bit 8 (D AND 0xff) + drop_bit 2 (D AND 0x300)) AND 0xffff003f = 0"
    unfolding j unfolding clock_masks by (rule bit_word_eqI) (auto simp: bit_simps)
  show "clock_field (push_bit 8 (D AND 0xff) + drop_bit 2 (D AND 0x300)) = D AND 0x3ff"
    unfolding j unfolding clock_masks clock_field_def
  proof (rule bit_word_eqI)
    fix n
    have "2 \<le> n \<Longrightarrow> Suc (Suc (n - 2)) = n" by simp
    then show "bit (drop_bit 8 (push_bit 8 (D AND mask 8) OR drop_bit 2 (D AND push_bit 8 (mask 2))) AND mask 8 OR
        push_bit 2 ((push_bit 8 (D AND mask 8) OR drop_bit 2 (D AND push_bit 8 (mask 2))) AND push_bit 6 (mask 2))) n =
      bit (D AND mask 10) n" if "n < LENGTH(32)"
      using that by (cases "2 \<le> n") (auto simp: bit_simps)
  qed
qed

lemma small_divisor:
  fixes D :: u32
  shows "unat D < 1024 \<Longrightarrow> D AND 0x3ff = D" and "unat D < 256 \<Longrightarrow> D AND 0x300 = 0"
proof -
  have "unat (take_bit k D) = unat D" if "unat D < 2 ^ k" for k
    using that by (simp add: unsigned_take_bit_eq take_bit_nat_eq_self)
  then have t: "take_bit k D = D" if "unat D < 2 ^ k" for k
    using that by (simp add: word_unat_eq_iff)
  show "unat D < 1024 \<Longrightarrow> D AND 0x3ff = D"
    using t [of 10] unfolding clock_masks by (simp add: take_bit_eq_mask)
  assume "unat D < 256"
  then have d: "D = take_bit 8 D" using t [of 8] by simp
  show "D AND 0x300 = 0"
    unfolding clock_masks by (subst d, rule bit_word_eqI) (auto simp: bit_simps)
qed

lemma small_power:
  assumes "k \<le> 7"
  shows "push_bit k (1 :: u32) \<le> 2 \<longleftrightarrow> k \<le> 1" and "unat (push_bit k (1 :: u32)) = 2 ^ k"
proof -
  have "k \<in> {0, 1, 2, 3, 4, 5, 6, 7}" using assms by auto
  then show "push_bit k (1 :: u32) \<le> 2 \<longleftrightarrow> k \<le> 1" "unat (push_bit k (1 :: u32)) = 2 ^ k" by auto
qed

text \<open>The exponent chosen for an older host, and the divisor chosen for either kind.\<close>

definition shift_of :: "u32 \<Rightarrow> nat" where
  "shift_of c = min (fls_long (ucast (c - 1)) - 1) 7"

definition divisor_of :: "u32 \<Rightarrow> u32 \<Rightarrow> u32" where
  "divisor_of ver c = (if HOST_SPEC_V2 < ver then (if c \<le> 2 then 2 else c) else push_bit (max (shift_of c) 1) 1)"

lemma unat_divisor_of:
  "HOST_SPEC_V2 < ver \<Longrightarrow> unat (divisor_of ver c) = max 2 (unat c)"
  "\<not> HOST_SPEC_V2 < ver \<Longrightarrow> unat (divisor_of ver c) = 2 ^ max (shift_of c) 1 \<and> unat (divisor_of ver c) < 256"
proof -
  show "HOST_SPEC_V2 < ver \<Longrightarrow> unat (divisor_of ver c) = max 2 (unat c)"
    by (simp add: divisor_of_def word_le_nat_alt)
  have k: "max (shift_of c) 1 \<le> 7" by (simp add: shift_of_def)
  then have "(2::nat) ^ max (shift_of c) 1 < 2 ^ 8" by (intro power_strict_increasing) simp_all
  then show "\<not> HOST_SPEC_V2 < ver \<Longrightarrow> unat (divisor_of ver c) = 2 ^ max (shift_of c) 1 \<and> unat (divisor_of ver c) < 256"
    using small_power(2) [OF k] by (simp add: divisor_of_def)
qed

lemma sdGetClockDivider_join:
  fixes freq ver
  defines "D \<equiv> divisor_of ver (41666666 div freq)"
  shows "sdGetClockDivider ver freq = push_bit 8 (D AND 0xff) + drop_bit 2 (D AND 0x300)"
proof (cases "HOST_SPEC_V2 < ver")
  case True
  then show ?thesis by (simp add: sdGetClockDivider_def D_def divisor_of_def Let_def)
next
  case False
  define n where "n = fls_long (ucast (41666666 div freq - 1 :: u32))"
  have k: "min (n - 1) 7 \<le> 7" by simp
  have "sdGetClockDivider ver freq = push_bit 8 (D AND 0xff)"
    using False small_power(1) [OF k]
    unfolding sdGetClockDivider_def D_def divisor_of_def shift_of_def n_def [symmetric] Let_def
    by (auto simp: max_def min_def)
  moreover have "D AND 0x300 = 0" unfolding D_def by (rule small_divisor(2) [OF conjunct2 [OF unat_divisor_of(2) [OF False]]])
  ultimately show ?thesis by (simp only: drop_bit_of_0 add_0_right)
qed

lemma shift_of_enough:
  assumes "1 \<le> unat c" and "unat c \<le> 256"
  shows "unat c \<le> 2 * 2 ^ max (shift_of c) 1"
proof (cases "c = 1")
  case False
  let ?x = "ucast (c - 1) :: u64"
  have "c \<noteq> 0" using assms(1) by auto
  then have u: "unat ?x = unat c - 1" using assms(2) by (simp add: unat_minus_one unsigned_ucast_eq take_bit_nat_eq_self_iff)
  have "unat c \<noteq> 1" using False by (metis unat_1 word_unat_eq_iff)
  then have x: "0 < ?x" "?x < 2 ^ 32" using u assms by (simp_all add: word_less_nat_alt)
  note b = fls_long_bounds [OF x, unfolded u]
  have "(2::nat) ^ (fls_long ?x - 1) < 2 ^ 8" using b(3) assms by simp
  then have "fls_long ?x - 1 < 8" by (rule power_less_imp_less_exp [rotated]) simp
  then have "fls_long ?x \<le> Suc (max (shift_of c) 1)" by (simp add: shift_of_def)
  then have "(2::nat) ^ fls_long ?x \<le> 2 ^ Suc (max (shift_of c) 1)" by (rule power_increasing) simp
  then show ?thesis using b(2) assms by simp
qed (use one_le_power [of "2::nat"] in simp)

text \<open>
  The value \<^verbatim>\<open>sdGetClockDivider\<close> returns never touches a bit of the control register outside
  the clock field, and the field holds the divisor: on version 3 hosts exactly the quotient of the base
  clock and the frequency (at least 2) when it fits in the ten bits, on older hosts a power of two
  whose double is at least the quotient, so that the card is not clocked faster than asked.
\<close>
theorem sdGetClockDivider_bounds:
  "sdGetClockDivider ver freq AND 0xffff003f = 0 \<and>
   (HOST_SPEC_V2 < ver \<and> 40691 \<le> freq \<longrightarrow>
      unat (clock_field (sdGetClockDivider ver freq)) = max 2 (41666666 div unat freq)) \<and>
   (ver \<le> HOST_SPEC_V2 \<and> 162128 \<le> freq \<and> freq \<le> 41666666 \<longrightarrow>
      41666666 div unat freq \<le> 2 * unat (clock_field (sdGetClockDivider ver freq)) \<and>
      (\<exists>k \<le> 7. unat (clock_field (sdGetClockDivider ver freq)) = 2 ^ k))"
proof -
  let ?r = "sdGetClockDivider ver freq"
  define c where "c = 41666666 div freq"
  have cu: "unat c = 41666666 div unat freq" by (simp add: c_def unat_div)
  have f: "?r AND 0xffff003f = 0" "clock_field ?r = divisor_of ver c AND 0x3ff"
    unfolding sdGetClockDivider_join c_def by (rule join_field)+
  have v3: "unat (clock_field ?r) = max 2 (41666666 div unat freq)" if "HOST_SPEC_V2 < ver" "40691 \<le> freq"
  proof -
    have "40691 \<le> unat freq" using that(2) by (simp add: word_le_nat_alt)
    then have "unat c \<le> 41666666 div 40691" unfolding cu by (rule div_le_mono2 [rotated]) simp
    then have "unat (divisor_of ver c) < 1024" using unat_divisor_of(1) [OF that(1), of c] by simp
    from small_divisor(1) [OF this] show ?thesis using unat_divisor_of(1) [OF that(1), of c] unfolding f(2) cu by simp
  qed
  have v2: "41666666 div unat freq \<le> 2 * unat (clock_field ?r) \<and> (\<exists>k \<le> 7. unat (clock_field ?r) = 2 ^ k)"
    if "\<not> HOST_SPEC_V2 < ver" "162128 \<le> freq" "freq \<le> 41666666"
  proof -
    have D: "unat (clock_field ?r) = 2 ^ max (shift_of c) 1"
      using unat_divisor_of(2) [OF that(1), of c] small_divisor(1) [of "divisor_of ver c"] unfolding f(2) by simp
    have fr: "162128 \<le> unat freq" "unat freq \<le> 41666666" using that by (simp_all add: word_le_nat_alt)
    have "unat c \<le> 41666666 div 162128" unfolding cu by (rule div_le_mono2) (use fr in simp_all)
    moreover have "1 \<le> unat c" using fr by (simp add: cu div_greater_zero_iff Suc_le_eq)
    ultimately have "unat c \<le> 2 * 2 ^ max (shift_of c) 1" by (intro shift_of_enough) simp_all
    moreover have "max (shift_of c) 1 \<le> 7" by (simp add: shift_of_def)
    ultimately show ?thesis using D cu by auto
  qed
  show ?thesis using f(1) v3 v2 by (auto simp: not_less)
qed

theorem sdGetClockDivider_bounds_witness:
  "unat (clock_field (sdGetClockDivider 2 FREQ_SETUP)) = 104 \<and>
   104 \<le> 2 * unat (clock_field (sdGetClockDivider 1 FREQ_SETUP))"
  using sdGetClockDivider_bounds [of 2 FREQ_SETUP] sdGetClockDivider_bounds [of 1 FREQ_SETUP] by simp

end
