(* ===== verification/Sd_Driver.thy ===== *)
theory Sd_Driver
  imports Emmc Block_Device Linked_List
begin

text \<open>
  The block layer of the SD card driver (\<^verbatim>\<open>src/src/driver/sd.c\<close>): the queue of buffers, the
  start of a transfer, the interrupt handler and \<^verbatim>\<open>sdrw\<close>, split where it sleeps. The driver's
  state is the card layer, the queue, the buffers by address (a buffer has the address of its
  list node) and the permits of the semaphore \<^verbatim>\<open>rw_done\<close>. \<open>None\<close> is a \<^verbatim>\<open>PANIC\<close>. Barriers
  and the two spin locks are left out; the alignment of the buffers follows from their type.
\<close>

section \<open>The queue of buffers\<close>

definition bufqueue_init :: "queue \<Rightarrow> queue" where
  "bufqueue_init x = x\<lparr>qbegin := NULL, qend := NULL, qsz := 0\<rparr>"

definition bufqueue_push :: "addr \<Rightarrow> queue \<times> list_heap \<Rightarrow> queue \<times> list_heap" where
  "bufqueue_push item = (\<lambda>(x, h).
     (let h = init_list_node item h in
      if qsz x = 0 then (x\<lparr>qbegin := item, qend := item, qsz := qsz x + 1\<rparr>, h)
      else let h = snd (merge_list (qend x) item h)
           in (x\<lparr>qend := item, qsz := qsz x + 1\<rparr>, h)))"

definition bufqueue_pop :: "queue \<times> list_heap \<Rightarrow> (queue \<times> list_heap) option" where
  "bufqueue_pop = (\<lambda>(x, h).
     (if qsz x = 0 then None
      else if qsz x = 1 then Some (x\<lparr>qbegin := NULL, qend := NULL, qsz := qsz x - 1\<rparr>, h)
      else let t = qbegin x;
               x = x\<lparr>qbegin := lnext h (qbegin x)\<rparr>;
               h = snd (detach_from_list t h)
           in Some (x\<lparr>qsz := qsz x - 1\<rparr>, h)))"

definition bufqueue_front :: "queue \<times> list_heap \<Rightarrow> addr option" where
  "bufqueue_front = (\<lambda>(x, h). if qbegin x = NULL then None else Some (qbegin x))"

definition bufqueue_empty :: "queue \<times> list_heap \<Rightarrow> bool" where
  "bufqueue_empty = (\<lambda>(x, h). qsz x = 0)"

section \<open>Transfers\<close>

definition block_words :: "u8 list \<Rightarrow> u32 list" where
  "block_words d = map (\<lambda>i. of_nat (le_nat (get_bytes (4 * i) 4 d))) [0..<128]"

definition words_block :: "u32 list \<Rightarrow> u8 list" where
  "words_block ws = concat (map (\<lambda>w. le_bytes 4 (unat w)) ws)"

primrec put_words :: "'c emmc \<Rightarrow> u32 list \<Rightarrow> ('c sd, unit) state" where
  "put_words E [] = State_Monad.return ()"
| "put_words E (w # ws) = do { write_reg E EMMC_DATA w; put_words E ws }"

fun get_words :: "'c emmc \<Rightarrow> nat \<Rightarrow> ('c sd, u32 list) state" where
  "get_words E n =
     (if n = 0 then State_Monad.return []
      else do { w \<leftarrow> read_reg E EMMC_DATA; ws \<leftarrow> get_words E (n - 1); State_Monad.return (w # ws) })"

declare get_words.simps [simp del]

text \<open>\<open>sd_transfer\<close> is the body of \<^verbatim>\<open>sd_start\<close>; its result is false where the source stops the kernel.\<close>

definition sd_transfer :: "'c emmc \<Rightarrow> buf \<Rightarrow> ('c sd, bool) state" where
  "sd_transfer E b = do {
     c \<leftarrow> get_card;
     let bno = (if sd_type c = SD_TYPE_2_HC then blockno b else push_bit 9 (blockno b));
     let wr = (flags b AND B_DIRTY \<noteq> 0);
     iv \<leftarrow> read_reg E EMMC_INTERRUPT;
     if iv \<noteq> 0 then State_Monad.return False
     else do {
       write_reg E EMMC_BLKSIZECNT 512;
       resp \<leftarrow> sdSendCommandA E (if wr then IX_WRITE_SINGLE else IX_READ_SINGLE) bno;
       if resp \<noteq> 0 then State_Monad.return False
       else if wr then do {
         resp \<leftarrow> sdWaitForInterrupt E INT_WRITE_RDY;
         if resp \<noteq> 0 then State_Monad.return False
         else do {
           iv \<leftarrow> read_reg E EMMC_INTERRUPT;
           if iv \<noteq> 0 then State_Monad.return False
           else do {
             put_words E (block_words (buf_data b));
             State_Monad.return True } } }
       else State_Monad.return True } }"

definition sd_start :: "'c emmc \<Rightarrow> buf \<Rightarrow> 'c sd \<Rightarrow> 'c sd option" where
  "sd_start E b s = (case run_state (sd_transfer E b) s of (ok, s) \<Rightarrow> if ok then Some s else None)"

text \<open>The read branch of the interrupt handler.\<close>

definition sd_receive :: "'c emmc \<Rightarrow> ('c sd, u8 list option) state" where
  "sd_receive E = do {
     resp \<leftarrow> sdWaitForInterrupt E INT_READ_RDY;
     if resp \<noteq> 0 then State_Monad.return None
     else do {
       iv \<leftarrow> read_reg E EMMC_INTERRUPT;
       if iv \<noteq> 0 then State_Monad.return None
       else do {
         ws \<leftarrow> get_words E 128;
         _ \<leftarrow> sdWaitForInterrupt E INT_DATA_DONE;
         State_Monad.return (Some (words_block ws)) } } }"

record 'c sd_driver =
  sdc :: "'c sd"
  bqueue :: "queue \<times> list_heap"
  bufs :: "addr \<Rightarrow> buf"
  rw_done :: int

definition sd_finish :: "addr \<Rightarrow> buf \<Rightarrow> 'c sd_driver \<Rightarrow> 'c sd_driver option" where
  "sd_finish p b d = do {
     q \<leftarrow> bufqueue_pop (bqueue d);
     Some (d\<lparr>bufs := (bufs d)(p := b\<lparr>flags := B_VALID\<rparr>), bqueue := q, rw_done := rw_done d + 1\<rparr>) }"

text \<open>
  The handler. The flags, the queue and the permits are set before the wait of the write branch here; the source posts
  the permit after it, which is the same since the wait changes the controller only.
\<close>

definition sd_intr :: "'c emmc \<Rightarrow> 'c sd_driver \<Rightarrow> 'c sd_driver option" where
  "sd_intr E d = do {
     p \<leftarrow> bufqueue_front (bqueue d);
     let b = bufs d p;
     d \<leftarrow>
       (if flags b AND B_DIRTY \<noteq> 0 then do {
          d \<leftarrow> sd_finish p b d;
          Some (d\<lparr>sdc := snd (run_state (sdWaitForInterrupt E INT_DATA_DONE) (sdc d))\<rparr>) }
        else if flags b AND B_VALID = 0 then
          (case run_state (sd_receive E) (sdc d) of
             (Some ds, s) \<Rightarrow> sd_finish p (b\<lparr>buf_data := ds\<rparr>) (d\<lparr>sdc := s\<rparr>)
           | (None, _) \<Rightarrow> None)
        else Some d);
     if bufqueue_empty (bqueue d) then Some d
     else do {
       p \<leftarrow> bufqueue_front (bqueue d);
       s \<leftarrow> sd_start E (bufs d p) (sdc d);
       Some (d\<lparr>sdc := s\<rparr>) } }"

text \<open>\<^verbatim>\<open>sdrw\<close> up to its loop: the buffer it waits for, and the state.\<close>

definition sdrw_begin :: "'c emmc \<Rightarrow> addr \<Rightarrow> 'c sd_driver \<Rightarrow> (addr \<times> 'c sd_driver) option" where
  "sdrw_begin E p d = do {
     let d = d\<lparr>rw_done := 0\<rparr>;
     let d = d\<lparr>bqueue := bufqueue_push p (bqueue d)\<rparr>;
     s \<leftarrow> sd_start E (bufs d p) (sdc d);
     let d = d\<lparr>sdc := s\<rparr>;
     if bufqueue_empty (bqueue d) then Some (p, d)
     else do {
       first \<leftarrow> bufqueue_front (bqueue d);
       Some (first, d) } }"

text \<open>The condition of the loop, with the flags that were saved before it.\<close>

definition sdrw_waits :: "addr \<Rightarrow> u32 \<Rightarrow> 'c sd_driver \<Rightarrow> bool" where
  "sdrw_waits first flag_save d \<longleftrightarrow> flag_save = flags (bufs d first)"

text \<open>
  \<^verbatim>\<open>sd_init\<close>, with the two numbers of the second partition that it reads from the partition table and prints.
  The buffer for the table is the zeroed memory that \<^verbatim>\<open>kalloc\<close> returns.
\<close>

definition read_block :: "'c emmc \<Rightarrow> ('c sd, u8 list) state" where
  "read_block E = do {
     _ \<leftarrow> sdWaitForInterrupt E INT_READ_RDY;
     ws \<leftarrow> get_words E 128;
     _ \<leftarrow> sdWaitForInterrupt E INT_DATA_DONE;
     State_Monad.return (words_block ws) }"

definition sd_init :: "'c emmc \<Rightarrow> 'c sd_driver \<Rightarrow> ((nat \<times> nat) \<times> 'c sd_driver) option" where
  "sd_init E d = do {
     let s = snd (run_state (sdInit E) (sdc d));
     let q = (bufqueue_init (fst (bqueue d)), snd (bqueue d));
     s \<leftarrow> sd_start E \<lparr>flags = 0, blockno = 0, buf_data = replicate 512 0\<rparr> s;
     let (mbr, s) = run_state (read_block E) s;
     let LBA = le_nat (get_bytes (0x1CE + 0x8) 4 mbr);
     let sec_num = le_nat (get_bytes (0x1CE + 0xC) 4 mbr);
     Some ((LBA, sec_num), d\<lparr>sdc := s, bqueue := q\<rparr>) }"

end
