(* ===== verification/Sd_Proofs.thy ===== *)
theory Sd_Proofs
  imports Sd_Driver
begin

text \<open>
  The driver on a controller that behaves as documented. The documentation is stated as
  \<open>emmc_ok\<close>, in terms of a view of the controller: the interrupts that are still to come, each with the
  number of polls until it shows, the argument register, the progress of the data transfer and the
  sectors of the card. On every such controller one request moves exactly one sector, as the
  model of the block device assumes.
\<close>

section \<open>The documented behaviour of the controller\<close>

datatype transfer = Idle | Sending "u32 list" | Receiving "u32 list"

record emmc_view =
  ev_events :: "(nat \<times> u32) list"
  ev_arg :: u32
  ev_phase :: transfer
  ev_disk :: "u32 \<Rightarrow> u32 list"

fun visible :: "(nat \<times> u32) list \<Rightarrow> u32" where
  "visible [] = 0"
| "visible ((n, b) # es) = (if n = 0 then b else 0)"

fun tick :: "(nat \<times> u32) list \<Rightarrow> (nat \<times> u32) list" where
  "tick [] = []"
| "tick ((n, b) # es) = (n - 1, b) # es"

fun acknowledge :: "(nat \<times> u32) list \<Rightarrow> (nat \<times> u32) list" where
  "acknowledge [] = []"
| "acknowledge ((n, b) # es) = (if n = 0 then es else (n, b) # es)"

abbreviation POLL_LIMIT :: nat where "POLL_LIMIT \<equiv> 1000000"

abbreviation read_code :: u32 where "read_code \<equiv> cmd_code (sdCommandTable ! IX_READ_SINGLE)"
abbreviation write_code :: u32 where "write_code \<equiv> cmd_code (sdCommandTable ! IX_WRITE_SINGLE)"

definition emmc_registers_ok :: "'c emmc \<Rightarrow> ('c \<Rightarrow> emmc_view) \<Rightarrow> bool" where
  "emmc_registers_ok E V \<longleftrightarrow>
     (\<forall>c. fst (reg_read E EMMC_INTERRUPT c) = visible (ev_events (V c)) \<and> V (snd (reg_read E EMMC_INTERRUPT c)) = V c) \<and>
     (\<forall>c. V (snd (reg_read E EMMC_STATUS c)) = V c \<and>
        (ev_phase (V c) = Idle \<longrightarrow> fst (reg_read E EMMC_STATUS c) AND SR_CMD_INHIBIT = 0)) \<and>
     (\<forall>c. V (snd (reg_read E EMMC_RESP0 c)) = V c \<and> fst (reg_read E EMMC_RESP0 c) AND R1_ERRORS_MASK = 0) \<and>
     (\<forall>c v. V (reg_write E EMMC_BLKSIZECNT v c) = V c \<and> V (reg_write E EMMC_ARG1 v c) = (V c)\<lparr>ev_arg := v\<rparr>) \<and>
     (\<forall>c. V (reg_write E EMMC_INTERRUPT (visible (ev_events (V c))) c) =
        (V c)\<lparr>ev_events := acknowledge (ev_events (V c))\<rparr>) \<and>
     (\<forall>c. V (delay_us E 3 c) = (V c)\<lparr>ev_events := tick (ev_events (V c))\<rparr>)"

definition emmc_commands_ok :: "'c emmc \<Rightarrow> ('c \<Rightarrow> emmc_view) \<Rightarrow> bool" where
  "emmc_commands_ok E V \<longleftrightarrow>
     (\<forall>c. ev_phase (V c) = Idle \<and> ev_events (V c) = [] \<longrightarrow>
        (\<exists>n k. n < POLL_LIMIT \<and> k < POLL_LIMIT \<and> V (reg_write E EMMC_CMDTM read_code c) =
           (V c)\<lparr>ev_phase := Sending (ev_disk (V c) (ev_arg (V c))), ev_events := [(n, INT_CMD_DONE), (k, INT_READ_RDY)]\<rparr>) \<and>
        (\<exists>n k. n < POLL_LIMIT \<and> k < POLL_LIMIT \<and> V (reg_write E EMMC_CMDTM write_code c) =
           (V c)\<lparr>ev_phase := Receiving [], ev_events := [(n, INT_CMD_DONE), (k, INT_WRITE_RDY)]\<rparr>)) \<and>
     (\<forall>c w ws. ev_phase (V c) = Sending (w # ws) \<longrightarrow> fst (reg_read E EMMC_DATA c) = w \<and>
        (\<exists>n < POLL_LIMIT. V (snd (reg_read E EMMC_DATA c)) =
           (if ws = [] then (V c)\<lparr>ev_phase := Idle, ev_events := ev_events (V c) @ [(n, INT_DATA_DONE)]\<rparr>
            else (V c)\<lparr>ev_phase := Sending ws\<rparr>))) \<and>
     (\<forall>c w ws. ev_phase (V c) = Receiving ws \<longrightarrow>
        (\<exists>n < POLL_LIMIT. V (reg_write E EMMC_DATA w c) =
           (if length ws = 127
            then (V c)\<lparr>ev_phase := Idle, ev_disk := (ev_disk (V c))(ev_arg (V c) := ws @ [w]),
                   ev_events := ev_events (V c) @ [(n, INT_DATA_DONE)]\<rparr>
            else (V c)\<lparr>ev_phase := Receiving (ws @ [w])\<rparr>)))"

definition emmc_ok :: "'c emmc \<Rightarrow> ('c \<Rightarrow> emmc_view) \<Rightarrow> bool" where
  "emmc_ok E V \<longleftrightarrow> emmc_registers_ok E V \<and> emmc_commands_ok E V"

lemma emmc_okD:
  assumes "emmc_ok E V"
  shows "fst (reg_read E EMMC_INTERRUPT c) = visible (ev_events (V c))" and "V (snd (reg_read E EMMC_INTERRUPT c)) = V c"
    and "V (snd (reg_read E EMMC_STATUS c)) = V c"
    and "ev_phase (V c) = Idle \<Longrightarrow> fst (reg_read E EMMC_STATUS c) AND SR_CMD_INHIBIT = 0"
    and "V (snd (reg_read E EMMC_RESP0 c)) = V c" and "fst (reg_read E EMMC_RESP0 c) AND R1_ERRORS_MASK = 0"
    and "V (reg_write E EMMC_BLKSIZECNT v c) = V c" and "V (reg_write E EMMC_ARG1 v c) = (V c)\<lparr>ev_arg := v\<rparr>"
    and "V (reg_write E EMMC_INTERRUPT (visible (ev_events (V c))) c) = (V c)\<lparr>ev_events := acknowledge (ev_events (V c))\<rparr>"
    and "V (delay_us E 3 c) = (V c)\<lparr>ev_events := tick (ev_events (V c))\<rparr>"
  using assms by (auto simp: emmc_ok_def emmc_registers_ok_def)

section \<open>Register access in the state monad\<close>

lemma run_read_reg: "run_state (read_reg E r) s = (fst (reg_read E r (ctrl s)), s\<lparr>ctrl := snd (reg_read E r (ctrl s))\<rparr>)"
  by (simp add: read_reg_def case_prod_beta)

lemma run_regs [simp]:
  "run_state (write_reg E r v) s = ((), s\<lparr>ctrl := reg_write E r v (ctrl s)\<rparr>)"
  "run_state (sd_delayus E n) s = ((), s\<lparr>ctrl := delay_us E (n * 3) (ctrl s)\<rparr>)"
  "run_state get_card s = (sdCard s, s)" "run_state (upd_card f) s = ((), s\<lparr>sdCard := f (sdCard s)\<rparr>)"
  by (simp_all add: write_reg_def sd_delayus_def get_card_def upd_card_def)

section \<open>Waiting ends and takes the interrupt\<close>

lemma run_no_interrupt:
  assumes "emmc_ok E V"
  obtains c where "run_state (no_interrupt E m) s = (visible (ev_events (V (ctrl s))) AND m = 0, s\<lparr>ctrl := c\<rparr>)" and "V c = V (ctrl s)"
proof
  show "V (snd (reg_read E EMMC_INTERRUPT (ctrl s))) = V (ctrl s)" by (rule emmc_okD(2) [OF assms])
qed (simp add: no_interrupt_def run_read_reg emmc_okD(1) [OF assms])

lemma poll_event:
  assumes ok: "emmc_ok E V" and m: "b AND m \<noteq> 0"
  shows "ev_events (V (ctrl s)) = (n, b) # es \<Longrightarrow> n \<le> count \<Longrightarrow>
    \<exists>c. run_state (poll E (no_interrupt E m) 1 count) s = (int (count - n), s\<lparr>ctrl := c\<rparr>) \<and>
      V c = (V (ctrl s))\<lparr>ev_events := (0, b) # es\<rparr>"
proof (induction n arbitrary: s count)
  case 0
  obtain c where "run_state (no_interrupt E m) s = (visible (ev_events (V (ctrl s))) AND m = 0, s\<lparr>ctrl := c\<rparr>)" "V c = V (ctrl s)"
    by (rule run_no_interrupt [OF ok])
  with 0 m show ?case by (subst poll.simps) auto
next
  case (Suc n)
  obtain c where c: "run_state (no_interrupt E m) s = (visible (ev_events (V (ctrl s))) AND m = 0, s\<lparr>ctrl := c\<rparr>)" "V c = V (ctrl s)"
    by (rule run_no_interrupt [OF ok])
  let ?s = "s\<lparr>ctrl := delay_us E 3 c\<rparr>"
  have v: "V (ctrl ?s) = (V (ctrl s))\<lparr>ev_events := (n, b) # es\<rparr>"
    using emmc_okD(10) [OF ok, of c] c(2) Suc.prems(1) by simp
  have "\<exists>c'. run_state (poll E (no_interrupt E m) 1 (count - 1)) ?s = (int (count - 1 - n), ?s\<lparr>ctrl := c'\<rparr>) \<and>
      V c' = (V (ctrl ?s))\<lparr>ev_events := (0, b) # es\<rparr>"
    by (rule Suc.IH) (use v Suc.prems(2) in simp_all)
  then obtain c' where "run_state (poll E (no_interrupt E m) 1 (count - 1)) ?s = (int (count - 1 - n), s\<lparr>ctrl := c'\<rparr>)"
      "V c' = (V (ctrl s))\<lparr>ev_events := (0, b) # es\<rparr>"
    using v by auto
  moreover have "run_state (poll E (no_interrupt E m) 1 count) s = run_state (poll E (no_interrupt E m) 1 (count - 1)) ?s"
    using c(1) Suc.prems by (subst poll.simps) simp
  ultimately show ?case by (intro exI [of _ c']) simp
qed

lemma wait_event:
  assumes ok: "emmc_ok E V" and ev: "ev_events (V (ctrl s)) = (n, b) # es" and n: "n < POLL_LIMIT"
    and b: "b \<in> {INT_CMD_DONE, INT_DATA_DONE, INT_READ_RDY, INT_WRITE_RDY}"
  shows "\<exists>c. run_state (sdWaitForInterrupt E b) s = (SD_OK, s\<lparr>ctrl := c\<rparr>) \<and> V c = (V (ctrl s))\<lparr>ev_events := es\<rparr>"
proof -
  have bits: "b AND (b OR INT_ERROR_MASK) \<noteq> 0" "b AND INT_CMD_TIMEOUT = 0" "b AND INT_DATA_TIMEOUT = 0" "b AND INT_ERROR_MASK = 0"
    using b by auto
  obtain c where c: "run_state (poll E (no_interrupt E (b OR INT_ERROR_MASK)) 1 POLL_LIMIT) s = (int (POLL_LIMIT - n), s\<lparr>ctrl := c\<rparr>)"
      "V c = (V (ctrl s))\<lparr>ev_events := (0, b) # es\<rparr>"
    using poll_event [OF ok bits(1) ev less_imp_le [OF n]] by blast
  let ?c = "snd (reg_read E EMMC_INTERRUPT c)"
  have r: "fst (reg_read E EMMC_INTERRUPT c) = b" "V ?c = V c"
    using emmc_okD(1,2) [OF ok, of c] c(2) by simp_all
  have "V (reg_write E EMMC_INTERRUPT b ?c) = (V (ctrl s))\<lparr>ev_events := es\<rparr>"
    using emmc_okD(9) [OF ok, of ?c] r(2) c(2) by simp
  moreover have "run_state (sdWaitForInterrupt E b) s = (SD_OK, s\<lparr>ctrl := reg_write E EMMC_INTERRUPT b ?c\<rparr>)"
    using c(1) n r(1) bits(2-4) by (simp add: sdWaitForInterrupt_def run_read_reg)
  ultimately show ?thesis by blast
qed

section \<open>Weakest preconditions\<close>

definition wp :: "('s, 'a) state \<Rightarrow> ('a \<Rightarrow> 's \<Rightarrow> bool) \<Rightarrow> 's \<Rightarrow> bool" where
  "wp m Q s \<longleftrightarrow> (case run_state m s of (x, t) \<Rightarrow> Q x t)"

lemma wp_simps [simp]:
  "wp (State_Monad.bind m f) Q s = wp m (\<lambda>x. wp (f x) Q) s"
  "wp (State_Monad.return x) Q s = Q x s"
  by (simp_all add: wp_def case_prod_beta)

lemma wp_mono: "wp m Q s \<Longrightarrow> (\<And>x t. Q x t \<Longrightarrow> R x t) \<Longrightarrow> wp m R s"
  by (auto simp: wp_def)

text \<open>The view of the controller and the type of the card, which is all that a transfer depends on.\<close>

definition at :: "('c \<Rightarrow> emmc_view) \<Rightarrow> emmc_view \<Rightarrow> nat \<Rightarrow> 'c sd \<Rightarrow> bool" where
  "at V v ty s \<longleftrightarrow> V (ctrl s) = v \<and> sd_type (sdCard s) = ty"

lemma wp_interrupt:
  assumes "emmc_ok E V" and "at V v ty s" and "\<And>t. at V v ty t \<Longrightarrow> Q (visible (ev_events v)) t"
  shows "wp (read_reg E EMMC_INTERRUPT) Q s"
  using assms emmc_okD(1,2) [OF assms(1), of "ctrl s"] by (simp add: wp_def run_read_reg at_def)

lemma wp_status:
  assumes "emmc_ok E V" and "at V v ty s" and "ev_phase v = Idle"
    and "\<And>t w. at V v ty t \<Longrightarrow> w AND SR_CMD_INHIBIT = 0 \<Longrightarrow> Q w t"
  shows "wp (read_reg E EMMC_STATUS) Q s"
  using assms emmc_okD(3,4) [OF assms(1), of "ctrl s"] by (simp add: wp_def run_read_reg at_def)

lemma wp_resp0:
  assumes "emmc_ok E V" and "at V v ty s" and "\<And>t w. at V v ty t \<Longrightarrow> w AND R1_ERRORS_MASK = 0 \<Longrightarrow> Q w t"
  shows "wp (read_reg E EMMC_RESP0) Q s"
  using assms emmc_okD(5,6) [OF assms(1), of "ctrl s"] by (simp add: wp_def run_read_reg at_def)

lemma wp_write:
  assumes "at V v ty s" and "V (reg_write E r w (ctrl s)) = v'" and "\<And>t. at V v' ty t \<Longrightarrow> Q () t"
  shows "wp (write_reg E r w) Q s"
  using assms by (simp add: wp_def at_def)

lemma wp_card:
  assumes "at V v ty s" and "\<And>c. sd_type (f c) = sd_type c" and "\<And>t. at V v ty t \<Longrightarrow> Q () t"
  shows "wp (upd_card f) Q s"
  using assms by (simp add: wp_def at_def)

lemma wp_get_card:
  assumes "at V v ty s" and "\<And>c. sd_type c = ty \<Longrightarrow> Q c s"
  shows "wp get_card Q s"
  using assms by (simp add: wp_def at_def)

lemma wp_wait:
  assumes "emmc_ok E V" and "at V v ty s" and "ev_events v = (n, b) # es" and "n < POLL_LIMIT"
    and "b \<in> {INT_CMD_DONE, INT_DATA_DONE, INT_READ_RDY, INT_WRITE_RDY}"
    and "\<And>t. at V (v\<lparr>ev_events := es\<rparr>) ty t \<Longrightarrow> Q SD_OK t"
  shows "wp (sdWaitForInterrupt E b) Q s"
proof -
  have "ev_events (V (ctrl s)) = (n, b) # es" using assms(2,3) by (simp add: at_def)
  from wait_event [OF assms(1) this assms(4,5)] assms(2,6) show ?thesis by (auto simp: wp_def at_def)
qed

lemma wp_wait_command:
  assumes ok: "emmc_ok E V" and a: "at V v ty s" and v: "ev_phase v = Idle" "ev_events v = []"
    and Q: "\<And>t. at V v ty t \<Longrightarrow> Q SD_OK t"
  shows "wp (sdWaitForCommand E) Q s"
  unfolding sdWaitForCommand_def poll.simps [of E _ 1 POLL_LIMIT]
  by (simp add: inhibited_def)
    (rule wp_status [OF ok a v(1)], simp, rule wp_interrupt [OF ok], assumption, simp add: v Q)

lemma take_command:
  assumes "emmc_ok E V" and "ev_phase (V c) = Idle" and "ev_events (V c) = []"
  shows "\<exists>n k. n < POLL_LIMIT \<and> k < POLL_LIMIT \<and> V (reg_write E EMMC_CMDTM read_code c) =
      (V c)\<lparr>ev_phase := Sending (ev_disk (V c) (ev_arg (V c))), ev_events := [(n, INT_CMD_DONE), (k, INT_READ_RDY)]\<rparr>"
    and "\<exists>n k. n < POLL_LIMIT \<and> k < POLL_LIMIT \<and> V (reg_write E EMMC_CMDTM write_code c) =
      (V c)\<lparr>ev_phase := Receiving [], ev_events := [(n, INT_CMD_DONE), (k, INT_WRITE_RDY)]\<rparr>"
  using assms unfolding emmc_ok_def emmc_commands_ok_def by blast+

lemma wp_plain_command:
  "i < IX_APP_CMD_START \<Longrightarrow> wp (sdSendCommandA E i arg) Q s = wp (sdSendCommandP E (sdCommandTable ! i) arg) Q s"
  by (simp add: sdSendCommandA_def send_with_def wp_def case_prod_beta)

text \<open>One single-block command: the view when it has been taken.\<close>

lemma wp_send_single:
  assumes ok: "emmc_ok E V" and a: "at V v ty s" and v: "ev_phase v = Idle" "ev_events v = []"
    and i: "i = IX_READ_SINGLE \<and> ph = Sending (ev_disk v arg) \<and> rdy = INT_READ_RDY \<or>
      i = IX_WRITE_SINGLE \<and> ph = Receiving [] \<and> rdy = INT_WRITE_RDY"
    and Q: "\<And>t k. at V (v\<lparr>ev_arg := arg, ev_phase := ph, ev_events := [(k, rdy)]\<rparr>) ty t \<Longrightarrow> k < POLL_LIMIT \<Longrightarrow> Q SD_OK t"
  shows "wp (sdSendCommandA E i arg) Q s"
proof -
  let ?cmd = "sdCommandTable ! i"
  have cmd: "cmd_resp ?cmd = RESP_R1" "cmd_delay ?cmd = 0" "i < IX_APP_CMD_START"
    using i by (auto simp: sdCommandTable_def)
  have clear: "V (reg_write E EMMC_INTERRUPT (visible (ev_events v)) (ctrl t)) = v" if "at V v ty t" for t
    using emmc_okD(9) [OF ok, of "ctrl t"] that v by (simp add: at_def)
  have cmdtm: "\<exists>n k. n < POLL_LIMIT \<and> k < POLL_LIMIT \<and> V (reg_write E EMMC_CMDTM (cmd_code ?cmd) (ctrl t)) =
        v\<lparr>ev_arg := arg, ev_phase := ph, ev_events := [(n, INT_CMD_DONE), (k, rdy)]\<rparr>"
    if "at V (v\<lparr>ev_arg := arg\<rparr>) ty t" for t
  proof -
    have t: "V (ctrl t) = v\<lparr>ev_arg := arg\<rparr>" using that by (simp add: at_def)
    with v have idle: "ev_phase (V (ctrl t)) = Idle" "ev_events (V (ctrl t)) = []" by simp_all
    show ?thesis using i take_command [OF ok idle] by (elim disjE) (simp_all add: t)
  qed
  have answer: "wp (handle_response E ?cmd arg w) (\<lambda>r. Q r) t"
    if "at V (v\<lparr>ev_arg := arg, ev_phase := ph, ev_events := [(k, rdy)]\<rparr>) ty t" "w AND R1_ERRORS_MASK = 0" "k < POLL_LIMIT" for w k t
    using that by (simp add: handle_response_def cmd) (rule wp_card, assumption, simp, simp add: Q)
  have "wp (sdSendCommandP E ?cmd arg) Q s"
    unfolding sdSendCommandP_def
    apply (simp add: cmd)
    apply (rule wp_wait_command [OF ok a v], simp)
    apply (rule wp_card, assumption, simp, simp)
    apply (rule wp_interrupt [OF ok], assumption, simp)
    apply (rule wp_write [where v' = v], assumption)
     apply (erule clear)
    apply simp
    apply (rule wp_write [where v' = "v\<lparr>ev_arg := arg\<rparr>"], assumption)
     apply (simp add: emmc_okD(8) [OF ok] at_def)
    apply (frule cmdtm, elim exE conjE, simp)
    apply (rule wp_write, assumption, assumption, simp)
    apply (rule wp_wait [OF ok], assumption, simp, assumption, simp, simp)
    apply (rule wp_resp0 [OF ok], assumption)
    apply (erule answer, assumption, assumption)
    done
  then show ?thesis by (simp add: wp_plain_command [OF cmd(3)])
qed

section \<open>Data words\<close>

lemma send_word:
  assumes "emmc_ok E V" and "ev_phase (V c) = Sending (w # ws)"
  shows "fst (reg_read E EMMC_DATA c) = w" and "\<exists>n < POLL_LIMIT. V (snd (reg_read E EMMC_DATA c)) =
     (if ws = [] then (V c)\<lparr>ev_phase := Idle, ev_events := ev_events (V c) @ [(n, INT_DATA_DONE)]\<rparr>
      else (V c)\<lparr>ev_phase := Sending ws\<rparr>)"
  using assms unfolding emmc_ok_def emmc_commands_ok_def by blast+

lemma receive_word:
  assumes "emmc_ok E V" and "ev_phase (V c) = Receiving ws"
  shows "\<exists>n < POLL_LIMIT. V (reg_write E EMMC_DATA w c) =
     (if length ws = 127
      then (V c)\<lparr>ev_phase := Idle, ev_disk := (ev_disk (V c))(ev_arg (V c) := ws @ [w]),
             ev_events := ev_events (V c) @ [(n, INT_DATA_DONE)]\<rparr>
      else (V c)\<lparr>ev_phase := Receiving (ws @ [w])\<rparr>)"
  using assms unfolding emmc_ok_def emmc_commands_ok_def by blast

lemma wp_get_words:
  assumes ok: "emmc_ok E V"
  shows "at V v ty s \<Longrightarrow> ev_phase v = Sending ws \<Longrightarrow> ws \<noteq> [] \<Longrightarrow>
    (\<And>t n. n < POLL_LIMIT \<Longrightarrow> at V (v\<lparr>ev_phase := Idle, ev_events := ev_events v @ [(n, INT_DATA_DONE)]\<rparr>) ty t \<Longrightarrow> Q ws t) \<Longrightarrow>
    wp (get_words E (length ws)) Q s"
proof (induction ws arbitrary: s v Q)
  case (Cons w ws)
  let ?c = "snd (reg_read E EMMC_DATA (ctrl s))"
  have ph: "ev_phase (V (ctrl s)) = Sending (w # ws)" and ty: "sd_type (sdCard s) = ty" and v: "V (ctrl s) = v"
    using Cons.prems by (auto simp: at_def)
  obtain n where n: "n < POLL_LIMIT" "V ?c =
     (if ws = [] then v\<lparr>ev_phase := Idle, ev_events := ev_events v @ [(n, INT_DATA_DONE)]\<rparr> else v\<lparr>ev_phase := Sending ws\<rparr>)"
    using send_word(2) [OF ok ph] unfolding v by blast
  have step: "wp (get_words E (length (w # ws))) Q s = wp (get_words E (length ws)) (\<lambda>ws. Q (w # ws)) (s\<lparr>ctrl := ?c\<rparr>)"
    by (subst get_words.simps) (simp add: wp_def run_read_reg send_word(1) [OF ok ph] case_prod_beta)
  show ?case
  proof (cases "ws = []")
    case True
    then show ?thesis using n ty Cons.prems(4) [of n] unfolding step by (simp add: get_words.simps at_def)
  next
    case False
    show ?thesis unfolding step
    proof (rule Cons.IH [where v = "v\<lparr>ev_phase := Sending ws\<rparr>"])
      show "at V (v\<lparr>ev_phase := Sending ws\<rparr>) ty (s\<lparr>ctrl := ?c\<rparr>)" using n False ty by (simp add: at_def)
    qed (use False Cons.prems(4) in auto)
  qed
qed simp

lemma wp_put_words:
  assumes ok: "emmc_ok E V"
  shows "at V v ty s \<Longrightarrow> ev_phase v = Receiving us \<Longrightarrow> ws \<noteq> [] \<Longrightarrow> length us + length ws = 128 \<Longrightarrow>
    (\<And>t n. n < POLL_LIMIT \<Longrightarrow> at V (v\<lparr>ev_phase := Idle, ev_disk := (ev_disk v)(ev_arg v := us @ ws),
       ev_events := ev_events v @ [(n, INT_DATA_DONE)]\<rparr>) ty t \<Longrightarrow> Q () t) \<Longrightarrow>
    wp (put_words E ws) Q s"
proof (induction ws arbitrary: us s v)
  case (Cons w ws)
  have ph: "ev_phase (V (ctrl s)) = Receiving us" and ty: "sd_type (sdCard s) = ty" and v: "V (ctrl s) = v"
    using Cons.prems by (auto simp: at_def)
  obtain n where n: "n < POLL_LIMIT" "V (reg_write E EMMC_DATA w (ctrl s)) =
     (if length us = 127
      then v\<lparr>ev_phase := Idle, ev_disk := (ev_disk v)(ev_arg v := us @ [w]), ev_events := ev_events v @ [(n, INT_DATA_DONE)]\<rparr>
      else v\<lparr>ev_phase := Receiving (us @ [w])\<rparr>)"
    using receive_word [OF ok ph] unfolding v by blast
  show ?case
  proof (cases "ws = []")
    case True
    then have "at V (v\<lparr>ev_phase := Idle, ev_disk := (ev_disk v)(ev_arg v := us @ w # ws),
        ev_events := ev_events v @ [(n, INT_DATA_DONE)]\<rparr>) ty (s\<lparr>ctrl := reg_write E EMMC_DATA w (ctrl s)\<rparr>)"
      using n ty Cons.prems(4) by (simp add: at_def)
    from Cons.prems(5) [OF n(1) this] True show ?thesis by (simp add: wp_def)
  next
    case False
    let ?v = "v\<lparr>ev_phase := Receiving (us @ [w])\<rparr>"
    have "length us \<noteq> 127" using False Cons.prems(4) by (cases ws) auto
    then have a: "at V ?v ty (s\<lparr>ctrl := reg_write E EMMC_DATA w (ctrl s)\<rparr>)" using n ty by (simp add: at_def)
    have "wp (put_words E ws) Q (s\<lparr>ctrl := reg_write E EMMC_DATA w (ctrl s)\<rparr>)"
      by (rule Cons.IH [OF a, where us = "us @ [w]"]) (use False Cons.prems(4,5) in auto)
    then show ?thesis by (simp add: wp_def)
  qed
qed simp

section \<open>Words and bytes of a block\<close>

lemma length_block_words [simp]: "length (block_words d) = 128"
  by (simp add: block_words_def)

lemma concat_get_bytes:
  "length d = k * n \<Longrightarrow> concat (map (\<lambda>i. get_bytes (k * i) k d) [0..<n]) = d"
proof (induction n arbitrary: d)
  case (Suc n)
  have "map (\<lambda>i. get_bytes (k * i) k d) [0..<n] = map (\<lambda>i. get_bytes (k * i) k (take (k * n) d)) [0..<n]"
  proof (rule map_cong)
    fix i assume "i \<in> set [0..<n]"
    then have "Suc i \<le> n" by simp
    then have "k * Suc i \<le> k * n" by (rule mult_le_mono2)
    then have "k \<le> k * n - k * i" by simp
    then show "get_bytes (k * i) k d = get_bytes (k * i) k (take (k * n) d)"
      by (simp add: get_bytes_def drop_take min_absorb1)
  qed simp
  moreover have "concat (map (\<lambda>i. get_bytes (k * i) k (take (k * n) d)) [0..<n]) = take (k * n) d"
    by (rule Suc.IH) (use Suc.prems in simp)
  moreover have "get_bytes (k * n) k d = drop (k * n) d"
    using Suc.prems by (simp add: get_bytes_def)
  ultimately show ?case by (simp del: map_eq_conv)
qed simp

lemma words_block_words: "length d = 512 \<Longrightarrow> words_block (block_words d) = d"
proof -
  assume d: "length d = 512"
  have "le_bytes 4 (unat (of_nat (le_nat (get_bytes (4 * i) 4 d)) :: u32)) = get_bytes (4 * i) 4 d" if "i < 128" for i
  proof -
    let ?w = "get_bytes (4 * i) 4 d"
    have l: "length ?w = 4" using d that by simp
    have "le_nat ?w < 2 ^ 32" using le_nat_bound [of ?w] l by simp
    then have "unat (of_nat (le_nat ?w) :: u32) = le_nat ?w" by (simp add: unat_of_nat take_bit_nat_eq_self)
    then show ?thesis using le_bytes_le_nat [of ?w] l by simp
  qed
  then have "words_block (block_words d) = concat (map (\<lambda>i. get_bytes (4 * i) 4 d) [0..<128])"
    by (auto simp: words_block_def block_words_def intro!: arg_cong [of _ _ concat])
  also have "\<dots> = d" by (rule concat_get_bytes) (simp add: d)
  finally show ?thesis .
qed

section \<open>Sectors\<close>

text \<open>The address of a sector on a high-capacity card and on an older one, and the blocks that have one of their own.\<close>

definition sector :: "nat \<Rightarrow> u32 \<Rightarrow> u32" where
  "sector ty b = (if ty = SD_TYPE_2_HC then b else push_bit 9 b)"

definition addressable :: "nat \<Rightarrow> u32 \<Rightarrow> bool" where
  "addressable ty b \<longleftrightarrow> ty = SD_TYPE_2_HC \<or> b < 2 ^ 23"

lemma sector_inj: "addressable ty a \<Longrightarrow> addressable ty b \<Longrightarrow> sector ty a = sector ty b \<longleftrightarrow> a = b"
proof -
  have "unat (push_bit 9 (x :: u32)) = unat x * 512" if "x < 2 ^ 23" for x
  proof -
    have "unat x < 2 ^ 23" using that by (simp add: word_less_nat_alt)
    then show ?thesis by (simp add: push_bit_eq_mult unat_word_ariths unat_mult_lem [symmetric] mult.commute)
  qed
  then show "addressable ty a \<Longrightarrow> addressable ty b \<Longrightarrow> sector ty a = sector ty b \<longleftrightarrow> a = b"
    by (simp add: sector_def addressable_def) (metis mult_right_cancel zero_neq_numeral word_unat_eq_iff)
qed

definition card_of :: "('c \<Rightarrow> emmc_view) \<Rightarrow> 'c sd_driver \<Rightarrow> sdcard" where
  "card_of V d = (\<lambda>b. words_block (ev_disk (V (ctrl (sdc d))) (sector (sd_type (sdCard (sdc d))) b)))"

section \<open>Transfers\<close>

lemma wp_transfer_write:
  assumes ok: "emmc_ok E V" and a: "at V v ty s" and v: "ev_phase v = Idle" "ev_events v = []" and w: "flags b AND B_DIRTY \<noteq> 0"
  shows "wp (sd_transfer E b) (\<lambda>r t. r \<and> (\<exists>n < POLL_LIMIT. at V (v\<lparr>ev_arg := sector ty (blockno b), 
    ev_disk := (ev_disk v)(sector ty (blockno b) := block_words (buf_data b)), ev_events := [(n, INT_DATA_DONE)]\<rparr>) ty t)) s"
  unfolding sd_transfer_def sector_def [symmetric]
  apply (simp add: w Let_def)
  apply (rule wp_get_card [OF a])
  apply simp
  apply (rule wp_interrupt [OF ok a])
  apply (simp add: v)
  apply (rule wp_write [where v' = v], assumption)
   apply (simp add: emmc_okD(7) [OF ok] at_def)
  apply simp
  apply (rule wp_send_single [OF ok _ v, where ph = "Receiving []" and rdy = INT_WRITE_RDY], assumption, simp, simp)
  apply (rule wp_wait [OF ok], assumption, simp, assumption, simp, simp)
  apply (rule wp_interrupt [OF ok], assumption, simp)
  apply (rule wp_put_words [OF ok, where us = "[]"], assumption, simp, simp add: block_words_def, simp)
  apply (use v in \<open>auto simp: at_def\<close>)
  done

lemma wp_transfer_read:
  assumes ok: "emmc_ok E V" and a: "at V v ty s" and v: "ev_phase v = Idle" "ev_events v = []" and w: "flags b AND B_DIRTY = 0"
  shows "wp (sd_transfer E b) (\<lambda>r t. r \<and> (\<exists>k < POLL_LIMIT. at V (v\<lparr>ev_arg := sector ty (blockno b),
    ev_phase := Sending (ev_disk v (sector ty (blockno b))), ev_events := [(k, INT_READ_RDY)]\<rparr>) ty t)) s"
  unfolding sd_transfer_def sector_def [symmetric]
  apply (simp add: w Let_def)
  apply (rule wp_get_card [OF a])
  apply simp
  apply (rule wp_interrupt [OF ok a])
  apply (simp add: v)
  apply (rule wp_write [where v' = v], assumption)
   apply (simp add: emmc_okD(7) [OF ok] at_def)
  apply simp
  apply (rule wp_send_single [OF ok _ v, where ph = "Sending (ev_disk v (sector ty (blockno b)))" and rdy = INT_READ_RDY], assumption, simp)
  apply auto
  done

lemma wp_receive:
  assumes ok: "emmc_ok E V" and a: "at V (v\<lparr>ev_phase := Sending ws, ev_events := [(k, INT_READ_RDY)]\<rparr>) ty s" and k: "k < POLL_LIMIT"
    and ws: "length ws = 128"
  shows "wp (sd_receive E) (\<lambda>r t. r = Some (words_block ws) \<and> at V (v\<lparr>ev_phase := Idle, ev_events := []\<rparr>) ty t) s"
proof -
  have ne: "ws \<noteq> []" using ws by auto
  show ?thesis
    unfolding sd_receive_def ws [symmetric]
    apply simp
    apply (rule wp_wait [OF ok a _ k], simp, simp, simp)
    apply (rule wp_interrupt [OF ok], assumption, simp)
    apply (rule wp_get_words [OF ok, where ws = ws], assumption, simp, rule ne, simp)
    apply (rule wp_wait [OF ok], assumption, simp, assumption, simp, simp)
    done
qed

section \<open>One request\<close>

definition sd_idle :: "('c \<Rightarrow> emmc_view) \<Rightarrow> 'c sd_driver \<Rightarrow> bool" where
  "sd_idle V d \<longleftrightarrow> queue_rep (bqueue d) [] \<and> ev_phase (V (ctrl (sdc d))) = Idle \<and>
     ev_events (V (ctrl (sdc d))) = [] \<and> (\<forall>a. length (ev_disk (V (ctrl (sdc d))) a) = 128)"

lemma bufqueue_eq:
  "bufqueue_push = queue_push" "bufqueue_pop = queue_pop" "bufqueue_front = queue_front" "bufqueue_empty = queue_empty"
  by (simp_all add: fun_eq_iff bufqueue_push_def queue_push_def bufqueue_pop_def queue_pop_def bufqueue_front_def
    queue_front_def bufqueue_empty_def queue_empty_def)

interpretation bq: fifo bufqueue_push bufqueue_pop bufqueue_front bufqueue_empty queue_rep
  unfolding bufqueue_eq by (rule lq.fifo_axioms)

lemma bufqueue_one:
  assumes "queue_rep q []" and "p \<noteq> NULL"
  shows "\<not> bufqueue_empty (bufqueue_push p q)" and "bufqueue_front (bufqueue_push p q) = Some p"
    and "\<exists>q'. bufqueue_pop (bufqueue_push p q) = Some q' \<and> queue_rep q' []"
proof -
  have r: "queue_rep (bufqueue_push p q) [p]" using bq.rep_push [OF assms(1), of p] assms(2) by simp
  show "\<not> bufqueue_empty (bufqueue_push p q)" using bq.rep_is_empty [OF r] by simp
  show "bufqueue_front (bufqueue_push p q) = Some p" by (rule bq.rep_front [OF r])
  show "\<exists>q'. bufqueue_pop (bufqueue_push p q) = Some q' \<and> queue_rep q' []" by (rule bq.rep_pop [OF r])
qed

lemma sdrw_begin_first:
  assumes "sd_start E (bufs d p) (sdc d) = Some s" and "queue_rep (bqueue d) []" and "p \<noteq> NULL"
  shows "sdrw_begin E p d = Some (p, d\<lparr>rw_done := 0, bqueue := bufqueue_push p (bqueue d), sdc := s\<rparr>)"
  using assms bufqueue_one [of "bqueue d" p] by (simp add: sdrw_begin_def Let_def)

lemma sd_finish_last:
  assumes "bqueue d = bufqueue_push p q" and "queue_rep q []" and "p \<noteq> NULL"
  obtains q' where "sd_finish p b d = Some (d\<lparr>bufs := (bufs d)(p := b\<lparr>flags := B_VALID\<rparr>), bqueue := q', rw_done := rw_done d + 1\<rparr>)"
    and "queue_rep q' []"
  using bufqueue_one(3) [OF assms(2,3)] assms(1) by (auto simp: sd_finish_def)

lemma sd_start_wp: "wp (sd_transfer E b) (\<lambda>r t. r \<and> P t) s \<Longrightarrow> \<exists>t. sd_start E b s = Some t \<and> P t"
  by (auto simp: wp_def sd_start_def)

lemma write_request:
  assumes ok: "emmc_ok E V" and idle: "sd_idle V d" and p: "p \<noteq> NULL" and w: "flags (bufs d p) AND B_DIRTY \<noteq> 0"
  defines "ty \<equiv> sd_type (sdCard (sdc d))" and "b \<equiv> bufs d p" and "v \<equiv> V (ctrl (sdc d))"
  shows "\<exists>d1 d2 x. sdrw_begin E p d = Some (p, d1) \<and> bufs d1 = bufs d \<and> sd_intr E d1 = Some d2 \<and> rw_done d2 = 1 \<and>
    queue_rep (bqueue d2) [] \<and> bufs d2 = (bufs d)(p := b\<lparr>flags := B_VALID\<rparr>) \<and>
    at V (v\<lparr>ev_arg := x, ev_disk := (ev_disk v)(sector ty (blockno b) := block_words (buf_data b))\<rparr>) ty (sdc d2)"
proof -
  have q: "queue_rep (bqueue d) []" and v: "ev_phase v = Idle" "ev_events v = []" and a: "at V v ty (sdc d)"
    using idle by (simp_all add: sd_idle_def v_def ty_def at_def)
  let ?v = "v\<lparr>ev_arg := sector ty (blockno b), ev_disk := (ev_disk v)(sector ty (blockno b) := block_words (buf_data b))\<rparr>"
  have "\<exists>s. sd_start E b (sdc d) = Some s \<and> (\<exists>n < POLL_LIMIT. at V (?v\<lparr>ev_events := [(n, INT_DATA_DONE)]\<rparr>) ty s)"
    by (rule sd_start_wp, rule wp_mono [OF wp_transfer_write [OF ok a v w [folded b_def]]]) simp
  then obtain s n where s: "sd_start E b (sdc d) = Some s" and n: "n < POLL_LIMIT"
      and as: "at V (?v\<lparr>ev_events := [(n, INT_DATA_DONE)]\<rparr>) ty s" by blast
  define d1 where "d1 = d\<lparr>rw_done := 0, bqueue := bufqueue_push p (bqueue d), sdc := s\<rparr>"
  have d1: "sdrw_begin E p d = Some (p, d1)" using sdrw_begin_first [OF s [unfolded b_def] q p] by (simp add: d1_def)
  obtain q' where fin: "sd_finish p b d1 = Some (d1\<lparr>bufs := (bufs d1)(p := b\<lparr>flags := B_VALID\<rparr>), bqueue := q', rw_done := rw_done d1 + 1\<rparr>)"
      "queue_rep q' []"
    by (rule sd_finish_last [of d1 p "bqueue d" b]) (use q p in \<open>auto simp: d1_def\<close>)
  define s2 where "s2 = snd (run_state (sdWaitForInterrupt E INT_DATA_DONE) s)"
  have "wp (sdWaitForInterrupt E INT_DATA_DONE) (\<lambda>r t. at V (?v\<lparr>ev_events := []\<rparr>) ty t) s"
    by (rule wp_wait [OF ok as _ n]) simp_all
  moreover have "?v\<lparr>ev_events := []\<rparr> = ?v" using v(2) by (cases v) simp
  ultimately have s2: "at V ?v ty s2" by (simp add: wp_def s2_def case_prod_beta)
  define d2 where "d2 = d1\<lparr>bufs := (bufs d1)(p := b\<lparr>flags := B_VALID\<rparr>), bqueue := q', rw_done := rw_done d1 + 1, sdc := s2\<rparr>"
  have "sd_intr E d1 = Some d2"
    using bufqueue_one [OF q p] fin w by (simp add: sd_intr_def Let_def bq.rep_is_empty d1_def d2_def s2_def b_def)
  then show ?thesis using d1 s2 fin(2) by (intro exI [of _ d1] exI [of _ d2] exI) (auto simp: d2_def d1_def)
qed

lemma read_request:
  assumes ok: "emmc_ok E V" and idle: "sd_idle V d" and p: "p \<noteq> NULL"
    and w: "flags (bufs d p) AND B_DIRTY = 0" "flags (bufs d p) AND B_VALID = 0"
  defines "ty \<equiv> sd_type (sdCard (sdc d))" and "b \<equiv> bufs d p" and "v \<equiv> V (ctrl (sdc d))"
  shows "\<exists>d1 d2 x. sdrw_begin E p d = Some (p, d1) \<and> bufs d1 = bufs d \<and> sd_intr E d1 = Some d2 \<and> rw_done d2 = 1 \<and>
    queue_rep (bqueue d2) [] \<and>
    bufs d2 = (bufs d)(p := b\<lparr>flags := B_VALID, buf_data := words_block (ev_disk v (sector ty (blockno b)))\<rparr>) \<and>
    at V (v\<lparr>ev_arg := x\<rparr>) ty (sdc d2)"
proof -
  have q: "queue_rep (bqueue d) []" and v: "ev_phase v = Idle" "ev_events v = []" and a: "at V v ty (sdc d)"
    and len: "length (ev_disk v (sector ty (blockno b))) = 128"
    using idle by (simp_all add: sd_idle_def v_def ty_def at_def)
  let ?v = "v\<lparr>ev_arg := sector ty (blockno b)\<rparr>" and ?ws = "ev_disk v (sector ty (blockno b))"
  have "\<exists>s. sd_start E b (sdc d) = Some s \<and>
      (\<exists>k < POLL_LIMIT. at V (?v\<lparr>ev_phase := Sending ?ws, ev_events := [(k, INT_READ_RDY)]\<rparr>) ty s)"
    by (rule sd_start_wp, rule wp_mono [OF wp_transfer_read [OF ok a v w(1) [folded b_def]]]) simp
  then obtain s k where s: "sd_start E b (sdc d) = Some s" and k: "k < POLL_LIMIT"
      and as: "at V (?v\<lparr>ev_phase := Sending ?ws, ev_events := [(k, INT_READ_RDY)]\<rparr>) ty s" by blast
  define d1 where "d1 = d\<lparr>rw_done := 0, bqueue := bufqueue_push p (bqueue d), sdc := s\<rparr>"
  have d1: "sdrw_begin E p d = Some (p, d1)" using sdrw_begin_first [OF s [unfolded b_def] q p] by (simp add: d1_def)
  obtain s2 where s2: "run_state (sd_receive E) s = (Some (words_block ?ws), s2)" "at V (?v\<lparr>ev_phase := Idle, ev_events := []\<rparr>) ty s2"
    using wp_receive [OF ok as k len] by (auto simp: wp_def split: prod.splits)
  define b2 where "b2 = b\<lparr>buf_data := words_block ?ws\<rparr>"
  obtain q' where fin: "sd_finish p b2 (d1\<lparr>sdc := s2\<rparr>) = Some (d1\<lparr>sdc := s2, bufs := (bufs d1)(p := b2\<lparr>flags := B_VALID\<rparr>), bqueue := q', rw_done := rw_done d1 + 1\<rparr>)"
      "queue_rep q' []"
    by (rule sd_finish_last [of "d1\<lparr>sdc := s2\<rparr>" p "bqueue d" b2]) (use q p in \<open>auto simp: d1_def\<close>)
  define d2 where "d2 = d1\<lparr>sdc := s2, bufs := (bufs d1)(p := b2\<lparr>flags := B_VALID\<rparr>), bqueue := q', rw_done := rw_done d1 + 1\<rparr>"
  have "sd_intr E d1 = Some d2"
    using bufqueue_one [OF q p] fin w s2(1) by (simp add: sd_intr_def Let_def bq.rep_is_empty d1_def d2_def b2_def b_def)
  moreover have "?v\<lparr>ev_phase := Idle, ev_events := []\<rparr> = ?v" using v by (cases v) simp
  ultimately show ?thesis using d1 s2(2) fin(2)
    by (intro exI [of _ d1] exI [of _ d2] exI) (auto simp: d2_def d1_def b2_def)
qed


section \<open>A controller that behaves as documented\<close>

definition demo_read :: "reg \<Rightarrow> emmc_view \<Rightarrow> u32 \<times> emmc_view" where
  "demo_read r v =
     (case r of
        EMMC_INTERRUPT \<Rightarrow> (visible (ev_events v), v)
      | EMMC_DATA \<Rightarrow>
          (case ev_phase v of
             Sending (w # ws) \<Rightarrow>
               (w, if ws = [] then v\<lparr>ev_phase := Idle, ev_events := ev_events v @ [(1, INT_DATA_DONE)]\<rparr>
                   else v\<lparr>ev_phase := Sending ws\<rparr>)
           | _ \<Rightarrow> (0, v))
      | _ \<Rightarrow> (0, v))"

definition demo_write :: "reg \<Rightarrow> u32 \<Rightarrow> emmc_view \<Rightarrow> emmc_view" where
  "demo_write r w v =
     (case r of
        EMMC_INTERRUPT \<Rightarrow> if w = visible (ev_events v) then v\<lparr>ev_events := acknowledge (ev_events v)\<rparr> else v
      | EMMC_ARG1 \<Rightarrow> v\<lparr>ev_arg := w\<rparr>
      | EMMC_CMDTM \<Rightarrow>
          if w = read_code then v\<lparr>ev_phase := Sending (ev_disk v (ev_arg v)), ev_events := [(2, INT_CMD_DONE), (3, INT_READ_RDY)]\<rparr>
          else if w = write_code then v\<lparr>ev_phase := Receiving [], ev_events := [(2, INT_CMD_DONE), (3, INT_WRITE_RDY)]\<rparr>
          else v
      | EMMC_DATA \<Rightarrow>
          (case ev_phase v of
             Receiving ws \<Rightarrow>
               if length ws = 127
               then v\<lparr>ev_phase := Idle, ev_disk := (ev_disk v)(ev_arg v := ws @ [w]), ev_events := ev_events v @ [(1, INT_DATA_DONE)]\<rparr>
               else v\<lparr>ev_phase := Receiving (ws @ [w])\<rparr>
           | _ \<Rightarrow> v)
      | _ \<Rightarrow> v)"

definition demo_emmc :: "emmc_view emmc" where
  "demo_emmc = \<lparr>reg_read = demo_read, reg_write = demo_write,
     delay_us = (\<lambda>n v. v\<lparr>ev_events := tick (ev_events v)\<rparr>), cpu_delay = (\<lambda>n v. v), mbox_get_clock_rate = (\<lambda>v. (- 1, v))\<rparr>"

lemma codes: "read_code = 0x11220010" "write_code = 0x18220000"
  by (simp_all add: sdCommandTable_def)

lemma demo_ok: "emmc_ok demo_emmc (\<lambda>v. v)"
proof -
  have "emmc_registers_ok demo_emmc (\<lambda>v. v)"
    by (simp add: emmc_registers_ok_def demo_emmc_def demo_read_def demo_write_def)
  moreover have "emmc_commands_ok demo_emmc (\<lambda>v. v)"
    unfolding emmc_commands_ok_def codes
  proof (intro conjI allI impI)
    fix c :: emmc_view
    show "\<exists>n k. n < POLL_LIMIT \<and> k < POLL_LIMIT \<and> reg_write demo_emmc EMMC_CMDTM 0x11220010 c =
        c\<lparr>ev_phase := Sending (ev_disk c (ev_arg c)), ev_events := [(n, INT_CMD_DONE), (k, INT_READ_RDY)]\<rparr>"
      by (rule exI [of _ 2], rule exI [of _ 3]) (simp add: demo_emmc_def demo_write_def codes)
    show "\<exists>n k. n < POLL_LIMIT \<and> k < POLL_LIMIT \<and> reg_write demo_emmc EMMC_CMDTM 0x18220000 c =
        c\<lparr>ev_phase := Receiving [], ev_events := [(n, INT_CMD_DONE), (k, INT_WRITE_RDY)]\<rparr>"
      by (rule exI [of _ 2], rule exI [of _ 3]) (simp add: demo_emmc_def demo_write_def codes)
  qed (auto simp: demo_emmc_def demo_read_def demo_write_def intro: exI [of _ 1])
  ultimately show ?thesis by (simp add: emmc_ok_def)
qed

definition demo_card :: sd_card where
  "demo_card = \<lparr>sd_capacity = 0, sd_cid = replicate 4 0, sd_csd = replicate 4 0, sd_scr = replicate 2 0, sd_ocr = 0,
     sd_support = 0, sd_fileFormat = 0, sd_type = SD_TYPE_2_HC, sd_uhsi = 0, sd_initialized = True, sd_absent = False, sd_rca = 0x00010000, sd_cardState = 0,
     sd_status = 0, sd_lastCmd = None, sd_lastArg = 0\<rparr>"

definition demo_driver :: "emmc_view sd_driver" where
  "demo_driver = \<lparr>sdc = \<lparr>ctrl = \<lparr>ev_events = [], ev_arg = 0, ev_phase = Idle, ev_disk = \<lambda>_. replicate 128 0\<rparr>,
       sdCard = demo_card, sdHostVer = 2, sdBaseClock = 0\<rparr>,
     bqueue = (\<lparr>qbegin = NULL, qend = NULL, qsz = 0\<rparr>, \<lparr>lnext = \<lambda>_. NULL, lprev = \<lambda>_. NULL\<rparr>),
     bufs = (\<lambda>_. \<lparr>flags = B_DIRTY, blockno = 3, buf_data = replicate 512 7\<rparr>), rw_done = 0\<rparr>"


text \<open>
  \<^verbatim>\<open>sdrw\<close> starts its transfer even when another request is outstanding: once that request's
  interrupt is up in the controller and not yet taken by the handler, the second \<^verbatim>\<open>sdrw\<close> stops the kernel,
  whatever its buffer is.
\<close>
theorem sdrw_busy_panics:
  assumes "emmc_ok E V" and "visible (ev_events (V (ctrl (sdc d)))) \<noteq> 0"
  shows "sdrw_begin E p d = None"
proof -
  have "sd_start E b (sdc d) = None" for b
    using emmc_okD(1) [OF assms(1), of "ctrl (sdc d)"] assms(2)
    by (simp add: sd_start_def sd_transfer_def run_read_reg Let_def)
  then show ?thesis by (simp add: sdrw_begin_def Let_def)
qed

theorem sdrw_busy_panics_witness:
  "sdrw_begin demo_emmc 1 (demo_driver\<lparr>sdc := (sdc demo_driver)\<lparr>ctrl :=
     (ctrl (sdc demo_driver))\<lparr>ev_events := [(0, INT_DATA_DONE)]\<rparr>\<rparr>\<rparr>) = None"
  by (rule sdrw_busy_panics [OF demo_ok]) simp

end
