(* ===== verification/Sd_Init.thy ===== *)
theory Sd_Init
  imports Sd_Proofs
begin

text \<open>
  The initialization of the card. Every command keeps the flag that the card is initialized, and its result
  is a code below 10 or a set of error bits of the card's status; so the results of \<^verbatim>\<open>sdInit\<close> that
  report success are reported by nothing else. No assumption on the controller is needed.
\<close>

section \<open>Commands that keep the card's state of initialization\<close>

definition keeps :: "('a \<Rightarrow> bool) \<Rightarrow> ('c sd, 'a) state \<Rightarrow> bool" where
  "keeps C m \<longleftrightarrow> (\<forall>s. wp m (\<lambda>r t. C r \<and> sd_initialized (sdCard t) = sd_initialized (sdCard s)) s)"

abbreviation any :: "'a \<Rightarrow> bool" where "any \<equiv> \<lambda>_. True"

named_theorems keeps_rules

lemma keeps_bind_val: "keeps C m \<Longrightarrow> (\<And>r. C r \<Longrightarrow> keeps D (f r)) \<Longrightarrow> keeps D (State_Monad.bind m f)"
  by (fastforce simp: keeps_def wp_def split: prod.splits)

lemma keeps_bind [keeps_rules]: "keeps any m \<Longrightarrow> (\<And>r. keeps D (f r)) \<Longrightarrow> keeps D (State_Monad.bind m f)"
  by (rule keeps_bind_val)

lemma keeps_return [keeps_rules]: "C r \<Longrightarrow> keeps C (State_Monad.return r)"
  by (simp add: keeps_def)

lemma keeps_if [keeps_rules]: "(b \<Longrightarrow> keeps C m) \<Longrightarrow> (\<not> b \<Longrightarrow> keeps C n) \<Longrightarrow> keeps C (if b then m else n)"
  by simp

lemma keeps_weaken: "keeps C m \<Longrightarrow> (\<And>r. C r \<Longrightarrow> D r) \<Longrightarrow> keeps D m"
  by (auto simp: keeps_def wp_def case_prod_beta)

lemma keeps_basic [keeps_rules]:
  "keeps any (read_reg E r)" "keeps any (write_reg E r v)" "keeps any (sd_delayus E n)" "keeps any (cpu_wait E n)" "keeps any get_card"
  "keeps any get_host_ver"
  by (simp_all add: keeps_def wp_def run_read_reg cpu_wait_def get_host_ver_def)

lemma keeps_upd_card [keeps_rules]: "(\<And>c. sd_initialized (f c) = sd_initialized c) \<Longrightarrow> keeps any (upd_card f)"
  by (simp add: keeps_def wp_def)

text \<open>The codes a command can return.\<close>

definition code :: "u32 \<Rightarrow> bool" where
  "code r \<longleftrightarrow> r \<le> SD_ERROR_APP_CMD \<or> r AND R1_ERRORS_MASK = r"

lemma code_simps [simp]: "code 0" "code 1" "code 2" "code 3" "code 6" "code 7" "code 8" "code 9" "code (r AND R1_ERRORS_MASK)"
  "\<not> code SD_CARD_CHANGED" "\<not> code SD_CARD_REINSERTED"
  by (simp_all add: code_def and.assoc)

lemma keeps_poll [keeps_rules]: "keeps any busy \<Longrightarrow> keeps any (poll E busy d n)"
  by (induction n) (subst poll.simps, auto intro!: keeps_rules)+

lemma keeps_poll_pre [keeps_rules]: "keeps any busy \<Longrightarrow> keeps any (poll_pre E busy n)"
  by (induction n) (subst poll_pre.simps, auto intro!: keeps_rules)+

lemma keeps_waits [keeps_rules]:
  "keeps any (no_interrupt E m)" "keeps any (inhibited E f)" "keeps any (reg_set E r m)" "keeps any (reg_clear E r m)" "keeps any (upd_reg E r g)"
  unfolding no_interrupt_def inhibited_def reg_set_def reg_clear_def upd_reg_def by (auto intro!: keeps_rules)

text \<open>A result that is tested and passed on.\<close>

lemma keeps_test: "keeps code m \<Longrightarrow> keeps code k \<Longrightarrow> keeps code (State_Monad.bind m (\<lambda>r. if r \<noteq> 0 then State_Monad.return r else k))"
  by (rule keeps_bind_val, assumption) (auto intro: keeps_return)

lemma keeps_code_any: "keeps code m \<Longrightarrow> keeps any m"
  by (rule keeps_weaken) simp_all

lemma keeps_wait_interrupt: "keeps code (sdWaitForInterrupt E m)"
  unfolding sdWaitForInterrupt_def by (intro keeps_rules) simp_all

lemma keeps_wait_command [keeps_rules]: "keeps any (sdWaitForCommand E)"
  unfolding sdWaitForCommand_def by (intro keeps_rules) simp_all

lemma keeps_response: "keeps code (handle_response E cmd arg r)"
  unfolding handle_response_def Let_def by (cases "cmd_resp cmd"; simp only: resp_type.case; intro keeps_rules code_simps(9); simp)

lemma keeps_send: "keeps code (sdSendCommandP E cmd arg)"
  unfolding sdSendCommandP_def by (intro keeps_test keeps_wait_interrupt keeps_response keeps_rules) simp_all

lemma keeps_app: "keeps code (sdSendAppCommand E)"
  unfolding sdSendAppCommand_def
  by (intro keeps_test keeps_send keeps_code_any [OF keeps_send] keeps_rules) simp_all

lemma keeps_send_with: "keeps code (send_with E i arg)"
  unfolding send_with_def
proof (intro keeps_test keeps_app)
  show "keeps code (if IX_APP_CMD_START \<le> i then sdSendAppCommand E else State_Monad.return 0)"
    by (intro keeps_app keeps_rules) simp
qed (intro keeps_rules keeps_bind_val [OF keeps_send], simp_all)

lemma keeps_commands: "keeps code (sdSendCommand E i)" "keeps code (sdSendCommandA E i arg)"
  unfolding sdSendCommand_def sdSendCommandA_def by (rule keeps_send_with)+

lemma keeps_wait_data: "keeps any (wait_data_line E n)"
  by (induction E n rule: wait_data_line.induct) (subst wait_data_line.simps, intro keeps_rules, auto)

lemma keeps_read_scr: "keeps any (read_scr E n k)"
  by (induction E n k rule: read_scr.induct) (subst read_scr.simps, intro keeps_rules, auto)

lemma keeps_SCR: "keeps code (sdReadSCR E)"
  unfolding sdReadSCR_def sdWaitForData_def
  by (intro keeps_test keeps_commands keeps_wait_interrupt keeps_wait_data keeps_read_scr keeps_rules) simp_all

lemma keeps_clock: "keeps code (sdSetClock E f)"
  unfolding sdSetClock_def Let_def by (intro keeps_rules) simp_all

lemma keeps_reset: "keeps code (sdResetCard E f)"
  unfolding sdResetCard_def by (intro keeps_test keeps_clock keeps_commands keeps_rules) simp_all

lemma keeps_op_cond_retry: "keeps (\<lambda>x. \<forall>r. x = Some r \<longrightarrow> code r) (op_cond_retry E arg n)"
proof (induction n)
  case 0
  show ?case by (subst op_cond_retry.simps) (intro keeps_rules; simp)
next
  case (Suc n)
  then show ?case
    by (subst op_cond_retry.simps) (intro keeps_rules keeps_bind_val [OF keeps_commands(2)]; simp)
qed

lemma keeps_op_cond: "keeps code (sdAppSendOpCond E arg)"
  unfolding sdAppSendOpCond_def
  by (intro keeps_bind_val [OF keeps_commands(2)] keeps_bind_val [OF keeps_op_cond_retry] keeps_rules)
    (auto split: option.splits intro!: keeps_rules)

lemma keeps_check: "keeps code m \<Longrightarrow> keeps code k \<Longrightarrow> keeps code (check m k)"
  unfolding check_def by (rule keeps_test)

lemma keeps_identify: "keeps code (sd_identify E)"
  unfolding sd_identify_def set_type_def
  by (intro keeps_bind_val [OF keeps_commands(2)] keeps_check keeps_op_cond keeps_reset keeps_rules) simp_all

lemma keeps_base_clock: "keeps code (sdGetBaseClock E)"
  unfolding sdGetBaseClock_def
  by (rule keeps_bind) (auto simp: keeps_def wp_def case_prod_beta Let_def)

lemma keeps_gpio: "keeps any (sdInitGPIO E)"
  unfolding sdInitGPIO_def pull_up_def by (intro keeps_rules)

section \<open>The result of the initialization\<close>

definition settles :: "('c sd, u32) state \<Rightarrow> bool" where
  "settles m \<longleftrightarrow> (\<forall>s. wp m (\<lambda>r t. code r \<and> r \<noteq> 0 \<and> sd_initialized (sdCard t) = sd_initialized (sdCard s) \<or>
     r \<in> {SD_CARD_CHANGED, SD_CARD_REINSERTED} \<and> sd_initialized (sdCard t)) s)"

lemma settles_check: "keeps code m \<Longrightarrow> settles k \<Longrightarrow> settles (check m k)"
  unfolding settles_def keeps_def check_def by (fastforce simp: wp_def split: prod.splits)

lemma settles_bind: "keeps any m \<Longrightarrow> (\<And>r. settles (f r)) \<Longrightarrow> settles (State_Monad.bind m f)"
  unfolding settles_def keeps_def by (fastforce simp: wp_def split: prod.splits)

lemma settles_if: "settles m \<Longrightarrow> settles n \<Longrightarrow> settles (if b then m else n)"
  by simp

lemma settles_leaves:
  "settles (State_Monad.return SD_ERROR)"
  "settles (State_Monad.bind (upd_card (\<lambda>c. c\<lparr>sd_initialized := True\<rparr>)) (\<lambda>_.
     State_Monad.bind get_card (\<lambda>c. State_Monad.return (if cid = sd_cid c then SD_CARD_REINSERTED else SD_CARD_CHANGED))))"
  by (simp_all add: settles_def wp_def)

lemma settles_configure: "settles (sd_configure E cid)"
  unfolding sd_configure_def sdSwitchVoltage_def
  by (intro settles_leaves settles_bind settles_check settles_if keeps_commands keeps_check keeps_clock keeps_SCR keeps_rules)
    (simp_all add: sdParseCSD_def Let_def)

lemma settles_tail:
  "settles (State_Monad.bind (read_reg E EMMC_SLOTISR_VER) (\<lambda>v. State_Monad.bind (State (\<lambda>s. ((), s\<lparr>sdHostVer := f v\<rparr>)))
     (\<lambda>_. check (sdGetBaseClock E) (check (sdResetCard E r) (check (sd_identify E) (sd_configure E cid))))))"
proof -
  have "keeps any (State (\<lambda>s. ((), s\<lparr>sdHostVer := f v\<rparr>)))" for v by (simp add: keeps_def wp_def)
  then show ?thesis
    by (intro settles_bind settles_check settles_configure keeps_base_clock keeps_reset keeps_identify keeps_rules)
qed

lemma wp_keeps: "keeps C m \<Longrightarrow> (\<And>r t. C r \<Longrightarrow> sd_initialized (sdCard t) = sd_initialized (sdCard s) \<Longrightarrow> Q r t) \<Longrightarrow> wp m Q s"
  unfolding keeps_def by (elim allE, erule wp_mono) simp

lemma wp_settles:
  "settles m \<Longrightarrow> (\<And>r t. code r \<Longrightarrow> r \<noteq> 0 \<Longrightarrow> sd_initialized (sdCard t) = sd_initialized (sdCard s) \<Longrightarrow> Q r t) \<Longrightarrow>
   (\<And>r t. r \<in> {SD_CARD_CHANGED, SD_CARD_REINSERTED} \<Longrightarrow> sd_initialized (sdCard t) \<Longrightarrow> Q r t) \<Longrightarrow> wp m Q s"
  unfolding settles_def by (elim allE, erule wp_mono) blast

lemma wp_if: "(b \<Longrightarrow> wp m Q s) \<Longrightarrow> (\<not> b \<Longrightarrow> wp n Q s) \<Longrightarrow> wp (if b then m else n) Q s"
  by simp

lemma wp_card_state [simp]: "wp get_card Q s = Q (sdCard s) s" "wp (upd_card f) R s = R () (s\<lparr>sdCard := f (sdCard s)\<rparr>)"
  by (simp_all add: wp_def)

text \<open>
  \<^verbatim>\<open>sdInit\<close> reports success (\<^verbatim>\<open>SD_CARD_CHANGED\<close> or \<^verbatim>\<open>SD_CARD_REINSERTED\<close>, neither of them 0) exactly when
  it leaves the card initialized, whatever the controller does; it returns \<^verbatim>\<open>SD_OK\<close> only for a card that was
  initialized before, and every failure, including a card status with error bits, is a different result.
\<close>
theorem sdInit_result:
  "case run_state (sdInit E) s of (r, t) \<Rightarrow>
     (r = SD_OK \<longrightarrow> sd_initialized (sdCard s)) \<and>
     (sd_initialized (sdCard t) \<longleftrightarrow> r = SD_OK \<or> r = SD_CARD_CHANGED \<or> r = SD_CARD_REINSERTED)"
proof -
  let ?Q = "\<lambda>r t. (r = SD_OK \<longrightarrow> sd_initialized (sdCard s)) \<and>
     (sd_initialized (sdCard t) \<longleftrightarrow> r = SD_OK \<or> r = SD_CARD_CHANGED \<or> r = SD_CARD_REINSERTED)"
  have gpio: "keeps any (if b then sdInitGPIO E else State_Monad.return ())" for b
    by (intro keeps_gpio keeps_rules) simp
  have "wp (sdInit E) ?Q s"
    unfolding sdInit_def Let_def wp_simps wp_card_state
    apply (rule wp_keeps [OF gpio], rule wp_keeps [OF keeps_waits(3)])
    apply (simp only: wp_simps wp_card_state, rule wp_if)
     apply simp
    apply (rule wp_settles [OF settles_tail])
     apply (auto simp: code_def)
    done
  then show ?thesis by (simp add: wp_def)
qed

text \<open>The mailbox of the demonstration controller answers \<open>- 1\<close>, so that the initialization fails there.\<close>

theorem sdInit_result_witness:
  "\<exists>t. run_state (sdInit demo_emmc) (sdc demo_driver\<lparr>sdCard := demo_card\<lparr>sd_initialized := False\<rparr>\<rparr>) = (SD_ERROR, t) \<and>
     \<not> sd_initialized (sdCard t)"
proof -
  let ?s = "sdc demo_driver\<lparr>sdCard := demo_card\<lparr>sd_initialized := False\<rparr>\<rparr>"
  have "\<exists>t. run_state (sdInit demo_emmc) ?s = (SD_ERROR, t)"
    by (simp add: sdInit_def sdInitGPIO_def pull_up_def upd_reg_def reg_set_def check_def sdGetBaseClock_def cpu_wait_def
      run_read_reg demo_emmc_def demo_read_def demo_write_def Let_def)
  with sdInit_result [where E = demo_emmc and s = ?s] show ?thesis by auto
qed

section \<open>Starting the driver\<close>

lemma wp_read_block:
  assumes ok: "emmc_ok E V" and a: "at V (v\<lparr>ev_phase := Sending ws, ev_events := [(k, INT_READ_RDY)]\<rparr>) ty s" and k: "k < POLL_LIMIT"
    and ws: "length ws = 128"
  shows "wp (read_block E) (\<lambda>r t. r = words_block ws \<and> at V (v\<lparr>ev_phase := Idle, ev_events := []\<rparr>) ty t) s"
proof -
  have ne: "ws \<noteq> []" using ws by auto
  show ?thesis
    unfolding read_block_def ws [symmetric]
    apply simp
    apply (rule wp_wait [OF ok a _ k], simp, simp, simp)
    apply (rule wp_get_words [OF ok, where ws = ws], assumption, simp, rule ne, simp)
    apply (rule wp_wait [OF ok], assumption, simp, assumption, simp, simp)
    done
qed

text \<open>
  If \<^verbatim>\<open>sdInit\<close> leaves the controller ready, \<^verbatim>\<open>sd_init\<close> reads the partition table without a panic, finds the second
  partition in it, and leaves the driver idle, as the theorem on requests assumes.
\<close>

lemma sd_init_idle:
  assumes ok: "emmc_ok E V" and s: "s = snd (run_state (sdInit E) (sdc d))" and v: "V (ctrl s) = v"
    and idle: "ev_phase v = Idle" "ev_events v = []" "\<forall>a. length (ev_disk v a) = 128"
  shows "\<exists>d'. sd_init E d = Some ((le_nat (get_bytes (0x1CE + 0x8) 4 (card_of V d' 0)), le_nat (get_bytes (0x1CE + 0xC) 4 (card_of V d' 0))), d') \<and>
    sd_idle V d'"
proof -
  define ty where "ty = sd_type (sdCard s)"
  let ?b = "\<lparr>flags = 0, blockno = 0, buf_data = replicate 512 0\<rparr>" and ?v = "v\<lparr>ev_arg := 0\<rparr>"
  have a: "at V v ty s" using v by (simp add: at_def ty_def)
  have z: "sector ty' 0 = 0" for ty' by (simp add: sector_def)
  have "\<exists>t. sd_start E ?b s = Some t \<and>
      (\<exists>k < POLL_LIMIT. at V (?v\<lparr>ev_phase := Sending (ev_disk v 0), ev_events := [(k, INT_READ_RDY)]\<rparr>) ty t)"
    by (rule sd_start_wp, rule wp_mono [OF wp_transfer_read [OF ok a idle(1,2)]]) (simp_all add: z)
  then obtain t k where t: "sd_start E ?b s = Some t" and k: "k < POLL_LIMIT"
      and at: "at V (?v\<lparr>ev_phase := Sending (ev_disk v 0), ev_events := [(k, INT_READ_RDY)]\<rparr>) ty t" by blast
  obtain u where u: "run_state (read_block E) t = (words_block (ev_disk v 0), u)" "at V (?v\<lparr>ev_phase := Idle, ev_events := []\<rparr>) ty u"
    using wp_read_block [OF ok at k idle(3) [rule_format]] by (auto simp: wp_def split: prod.splits)
  let ?d = "d\<lparr>sdc := u, bqueue := (bufqueue_init (fst (bqueue d)), snd (bqueue d))\<rparr>"
  have "card_of V ?d 0 = words_block (ev_disk v 0)" "sd_idle V ?d"
    using u(2) idle by (auto simp: card_of_def z at_def sd_idle_def queue_rep_def bufqueue_init_def)
  then show ?thesis using t u(1) s by (intro exI [of _ ?d]) (simp add: sd_init_def Let_def)
qed

end
