(* ===== verification/Spinlock.thy ===== *)
theory Spinlock
  imports Kernel_Prelude
begin

text \<open>
  Spin locks (\<^verbatim>\<open>src/src/common/spinlock.c\<close>) on any number of cpus. \<^verbatim>\<open>_try_acquire_spinlock\<close> reads the flag and
  sets it in a second, atomic step, so that other cpus can come in between; \<^verbatim>\<open>_acquire_spinlock\<close> repeats it.
  The memory order of the atomic operations is sequentially consistent here.
\<close>

section \<open>The code as steps\<close>

text \<open>
  Where a cpu is: outside, about to read the flag, about to set it after having read it as clear, or in its critical
  section. The argument tells \<^verbatim>\<open>_acquire_spinlock\<close> from a single \<^verbatim>\<open>_try_acquire_spinlock\<close>.
\<close>

datatype spin_pc = Outside | Reading bool | Setting bool | Inside

record spin_state =
  locked :: bool
  spin :: "nat \<Rightarrow> spin_pc"

definition goto :: "nat \<Rightarrow> spin_pc \<Rightarrow> spin_state \<Rightarrow> spin_state" where
  "goto t p s = s\<lparr>spin := (spin s)(t := p)\<rparr>"

definition init_spinlock :: "spin_state \<Rightarrow> spin_state" where
  "init_spinlock s = s\<lparr>locked := False\<rparr>"

text \<open>A failed attempt: \<^verbatim>\<open>_acquire_spinlock\<close> starts over, \<^verbatim>\<open>_try_acquire_spinlock\<close> returns false.\<close>

definition attempt_failed :: "bool \<Rightarrow> spin_pc" where
  "attempt_failed again = (if again then Reading True else Outside)"

definition read_flag :: "nat \<Rightarrow> spin_state \<Rightarrow> spin_state option" where
  "read_flag t s =
     (case spin s t of
        Reading again \<Rightarrow> Some (goto t (if locked s then attempt_failed again else Setting again) s)
      | _ \<Rightarrow> None)"

definition test_and_set :: "nat \<Rightarrow> spin_state \<Rightarrow> spin_state option" where
  "test_and_set t s =
     (case spin s t of
        Setting again \<Rightarrow> Some (goto t (if locked s then attempt_failed again else Inside) (s\<lparr>locked := True\<rparr>))
      | _ \<Rightarrow> None)"

definition release_spinlock :: "spin_state \<Rightarrow> spin_state" where
  "release_spinlock s = s\<lparr>locked := False\<rparr>"

text \<open>The cpus take turns; a cpu releases a lock only from its critical section.\<close>

inductive spin_step :: "spin_state \<Rightarrow> spin_state \<Rightarrow> bool" where
  enter: "spin s t = Outside \<Longrightarrow> spin_step s (goto t (Reading again) s)"
| read: "read_flag t s = Some s' \<Longrightarrow> spin_step s s'"
| set: "test_and_set t s = Some s' \<Longrightarrow> spin_step s s'"
| leave: "spin s t = Inside \<Longrightarrow> spin_step s (goto t Outside (release_spinlock s))"

inductive_cases spin_stepE: "spin_step s s'"

abbreviation spin_start :: "spin_state \<Rightarrow> spin_state" where
  "spin_start s \<equiv> init_spinlock (s\<lparr>spin := \<lambda>_. Outside\<rparr>)"

section \<open>Mutual exclusion\<close>

definition inside :: "spin_state \<Rightarrow> nat set" where
  "inside s = {t. spin s t = Inside}"

definition spin_inv :: "spin_state \<Rightarrow> bool" where
  "spin_inv s \<longleftrightarrow> (if locked s then \<exists>t. inside s = {t} else inside s = {})"

lemma goto_simps [simp]:
  "locked (goto t p s) = locked s" "spin (goto t p s) u = (if u = t then p else spin s u)"
  "inside (s\<lparr>locked := l\<rparr>) = inside s" "inside (goto t Inside s) = insert t (inside s)"
  "spin s t \<noteq> Inside \<Longrightarrow> p \<noteq> Inside \<Longrightarrow> inside (goto t p s) = inside s"
  by (auto simp: goto_def inside_def)

lemma inside_leave: "inside (goto t Outside s) = inside s - {t}"
  by (auto simp: goto_def inside_def)

lemma attempt_not_inside [simp]: "attempt_failed a \<noteq> Inside" "Inside \<noteq> attempt_failed a"
  by (simp_all add: attempt_failed_def)

lemma spin_inv_step: "spin_step s s' \<Longrightarrow> spin_inv s \<Longrightarrow> spin_inv s'"
proof (induction rule: spin_step.induct)
  case (leave s t)
  then have "t \<in> inside s" by (simp add: inside_def)
  with leave have "inside s = {t}" by (auto simp: spin_inv_def split: if_splits)
  then show ?case by (simp add: spin_inv_def release_spinlock_def inside_leave)
qed (auto simp: spin_inv_def read_flag_def test_and_set_def split: spin_pc.splits if_splits)

lemma spin_inv_reachable: "spin_step\<^sup>*\<^sup>* (spin_start s0) s \<Longrightarrow> spin_inv s"
proof (induction rule: rtranclp_induct)
  case base
  show ?case by (simp add: spin_inv_def inside_def init_spinlock_def)
qed (rule spin_inv_step)

text \<open>
  (C38) In every interleaving at most one cpu is in its critical section, and the lock is free exactly when none
  is. Then a cpu that reads the flag and sets it before any other cpu gets in: the spin lock is never lost.
\<close>
theorem spinlock_exclusive:
  assumes "spin_step\<^sup>*\<^sup>* (spin_start s0) s"
  shows "(\<forall>t u. spin s t = Inside \<and> spin s u = Inside \<longrightarrow> t = u) \<and> (locked s \<longleftrightarrow> (\<exists>t. spin s t = Inside)) \<and>
    (\<forall>t a. (\<forall>u. spin s u \<noteq> Inside) \<and> spin s t = Reading a \<longrightarrow>
      (\<exists>s1 s2. read_flag t s = Some s1 \<and> test_and_set t s1 = Some s2 \<and> spin s2 t = Inside))"
proof -
  have inv: "(locked s \<longleftrightarrow> (\<exists>t. spin s t = Inside)) \<and> (\<forall>t u. spin s t = Inside \<and> spin s u = Inside \<longrightarrow> t = u)"
    using spin_inv_reachable [OF assms] by (auto simp: spin_inv_def inside_def set_eq_iff split: if_splits)
  have "\<exists>s1 s2. read_flag t s = Some s1 \<and> test_and_set t s1 = Some s2 \<and> spin s2 t = Inside"
    if "\<forall>u. spin s u \<noteq> Inside" "spin s t = Reading a" for t a
    using inv that by (simp add: read_flag_def test_and_set_def)
  with inv show ?thesis by blast
qed

text \<open>Two cpus race: both read the flag as clear, the first to set it gets in, the other one starts over.\<close>

definition spin_race :: spin_state where
  "spin_race = \<lparr>locked = True, spin = (\<lambda>_. Outside)(0 := Inside, 1 := Reading True)\<rparr>"

lemma spin_race_reachable: "spin_step\<^sup>*\<^sup>* (spin_start \<lparr>locked = True, spin = \<lambda>_. Inside\<rparr>) spin_race"
proof -
  let ?s = "\<lambda>l p q. \<lparr>locked = l, spin = (\<lambda>_. Outside)(0 := p, 1 := q)\<rparr>"
  have 0: "spin_start \<lparr>locked = True, spin = \<lambda>_. Inside\<rparr> = ?s False Outside Outside"
    by (simp add: init_spinlock_def fun_eq_iff)
  have "spin_step (?s False Outside Outside) (?s False (Reading True) Outside)"
    using spin_step.enter [of "?s False Outside Outside" 0 True] by (simp add: goto_def fun_upd_twist)
  moreover have "spin_step (?s False (Reading True) Outside) (?s False (Reading True) (Reading True))"
    using spin_step.enter [of "?s False (Reading True) Outside" 1 True] by (simp add: goto_def)
  moreover have "spin_step (?s False (Reading True) (Reading True)) (?s False (Setting True) (Reading True))"
    by (rule spin_step.read [of 0]) (simp add: read_flag_def goto_def fun_upd_twist)
  moreover have "spin_step (?s False (Setting True) (Reading True)) (?s False (Setting True) (Setting True))"
    by (rule spin_step.read [of 1]) (simp add: read_flag_def goto_def)
  moreover have "spin_step (?s False (Setting True) (Setting True)) (?s True Inside (Setting True))"
    by (rule spin_step.set [of 0]) (simp add: test_and_set_def goto_def fun_upd_twist)
  moreover have "spin_step (?s True Inside (Setting True)) (?s True Inside (Reading True))"
    by (rule spin_step.set [of 1]) (simp add: test_and_set_def goto_def attempt_failed_def)
  ultimately show ?thesis unfolding 0 spin_race_def by (meson converse_rtranclp_into_rtranclp rtranclp.rtrancl_refl)
qed

theorem spinlock_exclusive_witness:
  "locked spin_race \<and> spin spin_race 0 = Inside \<and> inside spin_race = {0}"
proof -
  have own: "locked spin_race \<and> spin spin_race 0 = Inside" by (simp add: spin_race_def)
  have "\<forall>t u. spin spin_race t = Inside \<and> spin spin_race u = Inside \<longrightarrow> t = u"
    using spinlock_exclusive [OF spin_race_reachable] by (rule conjunct1)
  with own have "inside spin_race = {0}" unfolding inside_def by blast
  with own show ?thesis by simp
qed

text \<open>
  The discipline is needed: when a cpu that is outside releases the lock once more (\<^verbatim>\<open>sd_intr\<close> unlocks its queue
  twice), a cpu that waits gets in beside the owner.
\<close>

lemma double_release:
  "\<exists>s1 s2. read_flag 1 (release_spinlock spin_race) = Some s1 \<and> test_and_set 1 s1 = Some s2 \<and>
     spin s2 0 = Inside \<and> spin s2 1 = Inside"
  by (simp add: spin_race_def release_spinlock_def read_flag_def test_and_set_def)

end
