(* ===== verification/Interrupts.thy ===== *)
theory Interrupts
  imports Kernel_Prelude
begin

text \<open>
  The dispatch of interrupts, system calls and exceptions (\<^verbatim>\<open>src/src/driver/interrupt.c\<close>,
  \<^verbatim>\<open>kernel/syscall.c\<close>, \<^verbatim>\<open>aarch64/trap.c\<close>). Handlers are functions on the state of the kernel, \<open>None\<close> when they stop
  it. The interrupt controller is an argument: the values of its registers in a state.
\<close>

type_synonym 's handler = "'s \<Rightarrow> 's option"

section \<open>Interrupts\<close>

abbreviation NUM_IRQ_TYPES :: nat where "NUM_IRQ_TYPES \<equiv> 64"
abbreviation IRQ_SDIO :: nat where "IRQ_SDIO \<equiv> 56"
abbreviation IRQ_ARASANSDIO :: nat where "IRQ_ARASANSDIO \<equiv> 62"
abbreviation IRQ_SRC_GPU :: u32 where "IRQ_SRC_GPU \<equiv> push_bit 8 1"
abbreviation IRQ_SRC_CNTPNSIRQ :: u32 where "IRQ_SRC_CNTPNSIRQ \<equiv> push_bit 1 1"

record 's irq_lines =
  irq_source :: "'s \<Rightarrow> u32"
  irq_pending1 :: "'s \<Rightarrow> u32"
  irq_pending2 :: "'s \<Rightarrow> u32"

text \<open>The table of handlers, with the writes to the registers that enable lines (register and value).\<close>

record 's interrupts =
  int_handler :: "'s handler option list"
  enable_irqs :: "(nat \<times> u32) list"
  clock_handler :: "'s handler option"

definition init_interrupt :: "'s interrupts \<Rightarrow> 's interrupts" where
  "init_interrupt I = I\<lparr>int_handler := replicate NUM_IRQ_TYPES None\<rparr>"

definition set_interrupt_handler :: "nat \<Rightarrow> 's handler \<Rightarrow> 's interrupts \<Rightarrow> 's interrupts" where
  "set_interrupt_handler ty h I =
     I\<lparr>enable_irqs := enable_irqs I @ [(ty div 32, push_bit (ty mod 32) 1)], int_handler := (int_handler I)[ty := Some h]\<rparr>"

definition set_clock_handler :: "'s handler \<Rightarrow> 's interrupts \<Rightarrow> 's interrupts" where
  "set_clock_handler h I = I\<lparr>clock_handler := Some h\<rparr>"

definition invoke_clock_handler :: "'s interrupts \<Rightarrow> 's handler" where
  "invoke_clock_handler I s = (case clock_handler I of None \<Rightarrow> None | Some h \<Rightarrow> h s)"

text \<open>One turn of the loop over the lines; an interrupt without a handler stops the kernel.\<close>

definition serve_line :: "'s interrupts \<Rightarrow> u64 \<Rightarrow> nat \<Rightarrow> 's handler" where
  "serve_line I m i s =
     (if drop_bit i m AND 1 \<noteq> 0 then
        (case int_handler I ! i of Some h \<Rightarrow> h s | None \<Rightarrow> None)
      else Some s)"

definition pending_map :: "'s irq_lines \<Rightarrow> 's \<Rightarrow> u64" where
  "pending_map L s = ucast (irq_pending1 L s) OR push_bit 32 (ucast (irq_pending2 L s))"

definition interrupt_global_handler :: "'s irq_lines \<Rightarrow> 's interrupts \<Rightarrow> 's handler" where
  "interrupt_global_handler L I s = do {
     let source = irq_source L s;
     (source, s) \<leftarrow>
       (if source AND IRQ_SRC_CNTPNSIRQ \<noteq> 0 then do {
          s \<leftarrow> invoke_clock_handler I s;
          Some (source XOR IRQ_SRC_CNTPNSIRQ, s) }
        else Some (source, s));
     (source, s) \<leftarrow>
       (if source AND IRQ_SRC_GPU \<noteq> 0 then do {
          s \<leftarrow> for_each (serve_line I (pending_map L s)) [0..<NUM_IRQ_TYPES] s;
          Some (source XOR IRQ_SRC_GPU, s) }
        else Some (source, s));
     if source \<noteq> 0 then None else Some s }"

section \<open>System calls\<close>

abbreviation NR_SYSCALL :: nat where "NR_SYSCALL \<equiv> 512"

record user_context =
  uc_lr :: u64
  uc_sp :: u64
  uc_spsr :: u64
  uc_elr :: u64
  uc_x :: "u64 list"

text \<open>A call through an entry of the table that was never set is a jump to address 0.\<close>

definition syscall_entry ::
    "(u64 list \<Rightarrow> 's \<Rightarrow> (u64 \<times> 's) option) option list \<Rightarrow> user_context \<Rightarrow> 's \<Rightarrow> (user_context \<times> 's) option" where
  "syscall_entry syscall_table context s =
     (let id = uc_x context ! 8 in
      if id < of_nat NR_SYSCALL then do {
        f \<leftarrow> syscall_table ! unat id;
        (ret, s) \<leftarrow> f (take 6 (uc_x context)) s;
        Some (context\<lparr>uc_x := (uc_x context)[0 := ret]\<rparr>, s) }
      else Some (context, s))"

section \<open>Traps\<close>

abbreviation ESR_EC_SHIFT :: nat where "ESR_EC_SHIFT \<equiv> 26"
abbreviation ESR_ISS_MASK :: u64 where "ESR_ISS_MASK \<equiv> 0xFFFFFF"
abbreviation ESR_IR_MASK :: u64 where "ESR_IR_MASK \<equiv> push_bit 25 1"
abbreviation ESR_EC_UNKNOWN :: u64 where "ESR_EC_UNKNOWN \<equiv> 0"
abbreviation ESR_EC_SVC64 :: u64 where "ESR_EC_SVC64 \<equiv> 0x15"
abbreviation ESR_ABORTS :: "u64 set" where "ESR_ABORTS \<equiv> {0x20, 0x21, 0x24, 0x25}"
abbreviation USPACE_MASK :: u64 where "USPACE_MASK \<equiv> 0xffff000000000000"

text \<open>The parts of the kernel a trap is passed on to: interrupts, system calls, page faults, and the end of the process.\<close>

record 's trap_ops =
  op_interrupt :: "'s handler"
  op_syscall :: "user_context \<Rightarrow> 's \<Rightarrow> (user_context \<times> 's) option"
  op_pgfault :: "u64 \<Rightarrow> 's \<Rightarrow> (int \<times> 's) option"
  op_killed :: "'s \<Rightarrow> bool"
  op_exit :: "int \<Rightarrow> 's handler"

definition trap_dispatch :: "'s trap_ops \<Rightarrow> u64 \<Rightarrow> user_context \<Rightarrow> 's \<Rightarrow> (user_context \<times> 's) option" where
  "trap_dispatch T esr context s =
     (let ec = drop_bit ESR_EC_SHIFT esr; iss = esr AND ESR_ISS_MASK; ir = esr AND ESR_IR_MASK in
      if ec = ESR_EC_UNKNOWN then
        if ir \<noteq> 0 then None else do { s \<leftarrow> op_interrupt T s; Some (context, s) }
      else if ec = ESR_EC_SVC64 then op_syscall T context s
      else if ec \<in> ESR_ABORTS then do {
        (r, s) \<leftarrow> op_pgfault T iss s;
        if r \<noteq> 0 then None else Some (context, s) }
      else None)"

definition trap_global_handler :: "'s trap_ops \<Rightarrow> u64 \<Rightarrow> user_context \<Rightarrow> 's \<Rightarrow> (user_context \<times> 's) option" where
  "trap_global_handler T esr context s = do {
     (context, s) \<leftarrow> trap_dispatch T esr context s;
     if op_killed T s \<and> USPACE_MASK AND uc_elr context = 0 then do { s \<leftarrow> op_exit T (- 1) s; Some (context, s) }
     else Some (context, s) }"

section \<open>What the dispatch does\<close>

lemma serve_lines:
  "for_each (serve_line I m) is s =
   for_each (\<lambda>i s. case int_handler I ! i of Some h \<Rightarrow> h s | None \<Rightarrow> None) (filter (bit m) is) s"
proof (induction "is" arbitrary: s)
  case (Cons i "is")
  have "drop_bit i m AND 1 \<noteq> 0 \<longleftrightarrow> bit m i"
    by (simp add: bit_iff_odd_drop_bit and_one_eq odd_iff_mod_2_eq_one)
  with Cons show ?case by (simp add: serve_line_def)
qed simp

lemma pending_map_bit: "bit (pending_map L s) i \<longleftrightarrow> (if i < 32 then bit (irq_pending1 L s) i else bit (irq_pending2 L s) (i - 32))"
  by (auto simp: pending_map_def bit_simps dest: bit_imp_le_length)

text \<open>
  The interrupt handler serves exactly what is pending: first the timer of the core, if its bit is up in
  the source register, then the handlers of the pending lines of the two registers in ascending order, each
  once. A line without a handler or any other source stops the kernel, the latter only after the others have been served.
\<close>
theorem interrupt_dispatch:
  "interrupt_global_handler L I s = do {
     s' \<leftarrow> (if bit (irq_source L s) 1 then invoke_clock_handler I s else Some s);
     t \<leftarrow> (if bit (irq_source L s) 8
       then for_each (\<lambda>i s. case int_handler I ! i of Some h \<Rightarrow> h s | None \<Rightarrow> None)
         (filter (bit (irq_pending1 L s')) [0..<32] @ filter (\<lambda>i. bit (irq_pending2 L s') (i - 32)) [32..<64]) s'
       else Some s');
     if \<exists>i. bit (irq_source L s) i \<and> i \<noteq> 1 \<and> i \<noteq> 8 then None else Some t }"
proof -
  let ?run = "\<lambda>i s. case int_handler I ! i of Some h \<Rightarrow> h s | None \<Rightarrow> None"
  have lines: "for_each (serve_line I (pending_map L s')) [0..<NUM_IRQ_TYPES] s' = for_each ?run
      (filter (bit (irq_pending1 L s')) [0..<32] @ filter (\<lambda>i. bit (irq_pending2 L s') (i - 32)) [32..<64]) s'" for s'
  proof -
    have "[0..<NUM_IRQ_TYPES] = [0..<32] @ [32..<64]" using upt_add_eq_append [of 0 32 32] by simp
    moreover have "filter (bit (pending_map L s')) [0..<32] = filter (bit (irq_pending1 L s')) [0..<32]"
        "filter (bit (pending_map L s')) [32..<64] = filter (\<lambda>i. bit (irq_pending2 L s') (i - 32)) [32..<64]"
      by (auto intro!: filter_cong simp: pending_map_bit)
    ultimately show ?thesis unfolding serve_lines by simp
  qed
  define b1 where "b1 = bit (irq_source L s) 1"
  define b8 where "b8 = bit (irq_source L s) 8"
  have test: "(x AND IRQ_SRC_CNTPNSIRQ \<noteq> 0) = bit x 1" "(x AND IRQ_SRC_GPU \<noteq> 0) = bit x 8"
    and flip: "bit (x XOR IRQ_SRC_CNTPNSIRQ) k = (bit x k \<noteq> (k = 1))" "bit (x XOR IRQ_SRC_GPU) k = (bit x k \<noteq> (k = 8))"
    for x :: u32 and k
    by (auto simp only: bit_iff_and_push_bit_not_eq_0 [symmetric] bit_simps) auto
  have zero: "x \<noteq> 0 \<longleftrightarrow> (\<exists>k. bit x k)" for x :: u32
    using bit_imp_le_length [of x] by (auto simp: bit_eq_iff)
  define x where "x = (if b1 then irq_source L s XOR IRQ_SRC_CNTPNSIRQ else irq_source L s)"
  define y where "y = (if b8 then x XOR IRQ_SRC_GPU else x)"
  have x8: "bit x 8 = b8" by (simp only: x_def flip b8_def split: if_split) simp
  have "bit y k = (bit (irq_source L s) k \<and> k \<noteq> 1 \<and> k \<noteq> 8)" for k
    by (auto simp only: y_def x_def flip b1_def b8_def split: if_splits)
  then have rest: "(y \<noteq> 0) = (\<exists>i. bit (irq_source L s) i \<and> i \<noteq> 1 \<and> i \<noteq> 8)" unfolding zero by blast
  show ?thesis
    unfolding interrupt_global_handler_def Let_def lines test rest [symmetric] b1_def [symmetric] b8_def [symmetric]
    using x8 by (cases b1; cases b8; cases "invoke_clock_handler I s") (simp_all add: x_def y_def)
qed

end
