(* ===== verification/Kernel_Map.thy ===== *)
theory Kernel_Map
  imports Page_Table
begin

text \<open>
  The page table the kernel itself runs on (\<^verbatim>\<open>src/src/aarch64/kernel_pt.c\<close>): the constant tables, written as
  a list of entries each, and the translation the processor performs with them. The addresses of the two
  lower tables are chosen by the linker.
\<close>

section \<open>The tables\<close>

abbreviation PTE_KERNEL_DATA :: u64 where "PTE_KERNEL_DATA \<equiv> push_bit 2 1 OR push_bit 10 1 OR push_bit 8 2 OR 1"
abbreviation PTE_KERNEL_DEVICE :: u64 where "PTE_KERNEL_DEVICE \<equiv> push_bit 10 1 OR 1"

definition kernel_pt_level3 :: "u64 list" where
  "kernel_pt_level3 = map (\<lambda>i. of_nat (i * 0x200000) OR (if i < 504 then PTE_KERNEL_DATA else PTE_KERNEL_DEVICE)) [0..<N_PTE_PER_TABLE]"

definition kernel_pt_level2 :: "u64 \<Rightarrow> u64 list" where
  "kernel_pt_level2 l3 =
     [K2P l3 + PTE_TABLE, 0x40000000 OR PTE_KERNEL_DEVICE, 0, 0xC0000000 OR PTE_KERNEL_DEVICE] @ replicate 508 0"

definition kernel_pt :: "u64 \<Rightarrow> u64 list" where
  "kernel_pt l2 = (K2P l2 + PTE_TABLE) # replicate 511 0"

definition invalid_pt :: "u64 list" where
  "invalid_pt = replicate N_PTE_PER_TABLE 0"

section \<open>The translation by the processor\<close>

datatype descriptor = Invalid | Block u64 | Table u64

definition descriptor_of :: "u64 \<Rightarrow> descriptor" where
  "descriptor_of e = (if e AND 3 = 3 then Table (PTE_ADDRESS e) else if e AND 3 = 1 then Block e else Invalid)"

text \<open>Memory is given by the tables in it, by physical address.\<close>

definition hw_translate :: "(u64 \<Rightarrow> u64 list option) \<Rightarrow> u64 list \<Rightarrow> u64 \<Rightarrow> (u64 \<times> u64) option" where
  "hw_translate mem root va =
     (case descriptor_of (root ! VA_PART0 va) of
        Table p \<Rightarrow> (case mem p of None \<Rightarrow> None | Some t1 \<Rightarrow>
          (case descriptor_of (t1 ! VA_PART1 va) of
             Block e \<Rightarrow> Some (PTE_ADDRESS e OR (va AND 0x3fffffff), e AND 0xfff)
           | Table p \<Rightarrow> (case mem p of None \<Rightarrow> None | Some t2 \<Rightarrow>
               (case descriptor_of (t2 ! VA_PART2 va) of
                  Block e \<Rightarrow> Some (PTE_ADDRESS e OR (va AND 0x1fffff), e AND 0xfff)
                | _ \<Rightarrow> None))
           | Invalid \<Rightarrow> None))
      | _ \<Rightarrow> None)"

definition kernel_memory :: "u64 \<Rightarrow> u64 \<Rightarrow> u64 \<Rightarrow> u64 list option" where
  "kernel_memory l2 l3 = [K2P l2 \<mapsto> kernel_pt_level2 l3, K2P l3 \<mapsto> kernel_pt_level3]"

lemma table_descriptor:
  assumes "kaddr l"
  shows "descriptor_of (K2P l + PTE_TABLE) = Table (K2P l)"
proof -
  note b = kaddr_bits [OF assms]
  have j: "K2P l + PTE_TABLE = K2P l OR PTE_TABLE"
    using b by (intro disjunctive_add) (auto simp: bit_simps bit_masks K2P_bits [OF assms])
  have "(K2P l OR PTE_TABLE) AND 3 = 3" "PTE_ADDRESS (K2P l OR PTE_TABLE) = K2P l"
    unfolding PTE_ADDRESS_def K2P_bits [OF assms] using b by (intro bit_word_eqI; auto simp: bit_simps bit_masks)+
  then show ?thesis unfolding j by (simp add: descriptor_of_def)
qed

section \<open>Kernel addresses\<close>

lemma bits_P2K:
  assumes "pa < 2 ^ 48"
  shows "k < 48 \<Longrightarrow> bit (P2K pa) k = bit pa k" and "bit pa k \<Longrightarrow> k < 48"
proof -
  have "unat pa < 2 ^ 48" using assms by (simp add: word_less_nat_alt)
  then have t: "take_bit 48 pa = pa" by (simp add: word_unat_eq_iff unsigned_take_bit_eq take_bit_nat_eq_self)
  then show b: "bit pa k \<Longrightarrow> k < 48" for k by (metis bit_take_bit_iff)
  then have "pa AND KSPACE_MASK = 0" by (intro bit_word_eqI) (fastforce simp: bit_simps bit_masks)
  then show "k < 48 \<Longrightarrow> bit (P2K pa) k = bit pa k" by (simp add: P2K_or bit_simps bit_masks)
qed

lemma parts_P2K:
  assumes "pa < 2 ^ 48"
  shows "take_bit 9 (drop_bit 39 (P2K pa)) = drop_bit 39 pa" "take_bit 9 (drop_bit 30 (P2K pa)) = take_bit 9 (drop_bit 30 pa)"
    "take_bit 9 (drop_bit 21 (P2K pa)) = take_bit 9 (drop_bit 21 pa)"
    "P2K pa AND 0x3fffffff = take_bit 30 pa" "P2K pa AND 0x1fffff = take_bit 21 pa"
proof -
  note b = bits_P2K [OF assms]
  have m: "(0x3fffffff :: u64) = mask 30" "(0x1fffff :: u64) = mask 21" by (simp_all add: mask_eq_exp_minus_1)
  show "take_bit 9 (drop_bit 39 (P2K pa)) = drop_bit 39 pa"
    by (rule bit_word_eqI) (use b in \<open>force simp: bit_simps\<close>)
  show "take_bit 9 (drop_bit 30 (P2K pa)) = take_bit 9 (drop_bit 30 pa)" "take_bit 9 (drop_bit 21 (P2K pa)) = take_bit 9 (drop_bit 21 pa)"
    by (rule bit_word_eqI, auto simp: bit_simps b)+
  show "P2K pa AND 0x3fffffff = take_bit 30 pa" "P2K pa AND 0x1fffff = take_bit 21 pa"
    unfolding m by (rule bit_word_eqI, auto simp: bit_simps b)+
qed

lemma join_parts: "push_bit k (drop_bit k x) OR take_bit k x = (x :: u64)"
  by (rule bit_word_eqI) (auto simp: bit_simps)

text \<open>A block entry: the address above bit \<open>k\<close> and the flags below bit 12 do not mix.\<close>

lemma block_entry:
  fixes x f :: u64
  assumes k: "12 \<le> k" and x: "\<And>n. bit x n \<Longrightarrow> n + k < 48" and f: "take_bit 12 f = f" "f AND 3 = 1"
  shows "descriptor_of (push_bit k x OR f) = Block (push_bit k x OR f)"
    and "PTE_ADDRESS (push_bit k x OR f) = push_bit k x" and "(push_bit k x OR f) AND 0xfff = f"
proof -
  have bf: "bit f n \<Longrightarrow> n < 12" for n using f(1) by (metis bit_take_bit_iff)
  have bx: "bit x (n - k) \<Longrightarrow> k \<le> n \<Longrightarrow> n < 48" for n using x [of "n - k"] by simp
  have "(push_bit k x OR f) AND 3 = f AND 3"
    by (rule bit_word_eqI) (use k in \<open>auto simp: bit_simps bit_masks\<close>)
  then show "descriptor_of (push_bit k x OR f) = Block (push_bit k x OR f)" using f(2) by (simp add: descriptor_of_def)
  show "PTE_ADDRESS (push_bit k x OR f) = push_bit k x"
    unfolding PTE_ADDRESS_def by (rule bit_word_eqI) (use k bf bx in \<open>force simp: bit_simps bit_masks\<close>)
  show "(push_bit k x OR f) AND 0xfff = f"
    by (rule bit_word_eqI) (use k bf in \<open>force simp: bit_simps bit_masks\<close>)
qed

lemma flags_ok: "take_bit 12 PTE_KERNEL_DATA = PTE_KERNEL_DATA" "take_bit 12 PTE_KERNEL_DEVICE = PTE_KERNEL_DEVICE"
  "PTE_KERNEL_DATA AND 3 = 1" "PTE_KERNEL_DEVICE AND 3 = 1"
  by simp_all

section \<open>The kernel's view of memory\<close>

definition kernel_flags :: "u64 \<Rightarrow> u64" where
  "kernel_flags pa = (if pa < 0x3f000000 then PTE_KERNEL_DATA else PTE_KERNEL_DEVICE)"

lemma unat_drop: "unat (drop_bit k (x :: u64)) = unat x div 2 ^ k"
proof -
  have "take_bit 64 (unat x) = unat x" by (rule take_bit_nat_eq_self) (use unsigned_less [of x] in simp)
  then show ?thesis by (simp add: unsigned_drop_bit_eq) (simp add: drop_bit_eq_div)
qed

lemma unat_part: "unat (take_bit 9 (drop_bit k (x :: u64))) = unat x div 2 ^ k mod 512"
  by (simp add: unsigned_take_bit_eq unat_drop) (simp add: take_bit_eq_mod)

text \<open>The entry for a two-megabyte block below one gigabyte.\<close>

lemma level3_entry:
  assumes "pa < 2 ^ 30"
  shows "kernel_pt_level3 ! unat (take_bit 9 (drop_bit 21 pa)) = push_bit 21 (drop_bit 21 pa) OR kernel_flags pa"
proof -
  let ?i = "unat pa div 2 ^ 21"
  have p: "unat pa < 2 ^ 30" using assms by (simp add: word_less_nat_alt)
  then have i: "?i < 512" by (simp add: less_mult_imp_div_less)
  have "of_nat (?i * 0x200000) = push_bit 21 (drop_bit 21 pa)"
    unfolding unat_drop [symmetric] by (simp add: push_bit_eq_mult)
  moreover have "?i < 504 \<longleftrightarrow> pa < 0x3f000000"
    by (simp add: div_less_iff_less_mult word_less_nat_alt)
  ultimately show ?thesis using i by (simp add: unat_part kernel_pt_level3_def kernel_flags_def)
qed

lemma drop_small_bit: "x < 2 ^ 48 \<Longrightarrow> bit (drop_bit k x) n \<Longrightarrow> n + k < (48 :: nat)" for x :: u64
  using bits_P2K(2) [of x "n + k"] by (simp add: bit_simps add.commute)

lemma translate_small:
  assumes "kaddr l2" and "kaddr l3" and "l2 \<noteq> l3" and pa: "pa < 2 ^ 30"
  shows "hw_translate (kernel_memory l2 l3) (kernel_pt l2) (P2K pa) = Some (pa, kernel_flags pa)"
proof -
  have p: "unat pa < 2 ^ 30" using pa by (simp add: word_less_nat_alt)
  then have "unat pa < 2 ^ 48" by simp
  then have pa48: "pa < 2 ^ 48" by (simp add: word_less_nat_alt)
  have ne: "K2P l2 \<noteq> K2P l3" using assms(3) by (simp add: K2P_def)
  have "drop_bit 39 pa = 0" "take_bit 9 (drop_bit 30 pa) = 0"
    using p by (simp_all add: word_unat_eq_iff unat_drop unat_part)
  moreover have f: "take_bit 12 (kernel_flags pa) = kernel_flags pa" "kernel_flags pa AND 3 = 1"
    by (simp_all add: kernel_flags_def)
  moreover note block_entry [OF _ drop_small_bit [OF pa48] f, of 21]
  ultimately show ?thesis
    unfolding hw_translate_def part_take_bit parts_P2K [OF pa48]
    using ne by (simp add: kernel_pt_def table_descriptor assms kernel_memory_def kernel_pt_level2_def level3_entry [OF pa] join_parts)
qed

lemma level2_blocks:
  "descriptor_of (0x40000000 OR PTE_KERNEL_DEVICE) = Block (0x40000000 OR PTE_KERNEL_DEVICE)"
  "descriptor_of (0xC0000000 OR PTE_KERNEL_DEVICE) = Block (0xC0000000 OR PTE_KERNEL_DEVICE)"
  "PTE_ADDRESS (0x40000000 OR PTE_KERNEL_DEVICE) = push_bit 30 1" "PTE_ADDRESS (0xC0000000 OR PTE_KERNEL_DEVICE) = push_bit 30 3"
  "(0x40000000 OR PTE_KERNEL_DEVICE) AND 0xfff = PTE_KERNEL_DEVICE" "(0xC0000000 OR PTE_KERNEL_DEVICE) AND 0xfff = PTE_KERNEL_DEVICE"
  by (simp_all add: descriptor_of_def PTE_ADDRESS_def)

lemma descriptor_zero [simp]: "descriptor_of 0 = Invalid"
  by (simp add: descriptor_of_def)

lemma translate_large:
  assumes "kaddr l2" and "kaddr l3" and "l2 \<noteq> l3" and pa: "2 ^ 30 \<le> pa" "pa < 2 ^ 48"
  defines "q \<equiv> unat pa div 2 ^ 30"
  shows "hw_translate (kernel_memory l2 l3) (kernel_pt l2) (P2K pa) = (if q = 1 \<or> q = 3 then Some (pa, PTE_KERNEL_DEVICE) else None)"
proof -
  have p: "2 ^ 30 \<le> unat pa" "unat pa < 2 ^ 48" using pa by (simp_all add: word_less_nat_alt word_le_nat_alt)
  have ne: "K2P l2 \<noteq> K2P l3" using assms(3) by (simp add: K2P_def)
  have q1: "1 \<le> q" using p(1) by (simp add: q_def div_greater_zero_iff Suc_le_eq)
  have part0: "unat (drop_bit 39 pa) = q div 512" by (simp add: q_def unat_drop div_mult2_eq [symmetric])
  have part1: "unat (take_bit 9 (drop_bit 30 pa)) = q mod 512" by (simp add: q_def unat_part)
  have q0: "q div 512 < 512" using p(2) by (simp add: q_def less_mult_imp_div_less)
  have join: "push_bit 30 (of_nat q) OR take_bit 30 pa = pa"
    unfolding q_def unat_drop [symmetric] by (simp add: join_parts)
  note unf = hw_translate_def part_take_bit parts_P2K [OF pa(2)] part0 part1
  note tabs = kernel_pt_def table_descriptor assms(1) kernel_memory_def kernel_pt_level2_def ne
  consider "512 \<le> q" | "q = 1" | "q = 2" | "q = 3" | "4 \<le> q" "q < 512" using q1 by linarith
  then show ?thesis
  proof cases
    case 1
    then have "q div 512 \<noteq> 0" by (simp add: div_eq_0_iff)
    then have "kernel_pt l2 ! (q div 512) = 0" using q0 by (simp add: kernel_pt_def nth_Cons')
    then show ?thesis using 1 unfolding unf by simp
  next
    case 5
    then have "kernel_pt_level2 l3 ! (q mod 512) = 0" by (simp add: kernel_pt_level2_def nth_Cons')
    then show ?thesis using 5 unfolding unf by (simp add: kernel_pt_def table_descriptor assms(1) kernel_memory_def ne)
  qed (use join in \<open>simp_all add: unf tabs level2_blocks del: push_bit_of_1\<close>)
qed

text \<open>
  (C40) The kernel's page table maps the kernel's half linearly: the processor translates the kernel address of
  every physical address below one gigabyte to that address, as normal memory below \<open>0x3f000000\<close> and as device
  memory above it, the second and the fourth gigabyte as device memory, and no other address; address 0 of the user half
  is mapped by no entry of \<^verbatim>\<open>invalid_pt\<close>.
\<close>
theorem kernel_pt_linear:
  assumes "kaddr l2" and "kaddr l3" and "l2 \<noteq> l3" and "pa < 2 ^ 48"
  shows "hw_translate (kernel_memory l2 l3) (kernel_pt l2) (P2K pa) =
    (if pa < 0x80000000 \<or> 0xC0000000 \<le> pa \<and> pa < 0x100000000 then Some (pa, kernel_flags pa) else None) \<and>
    hw_translate (kernel_memory l2 l3) invalid_pt pa = None"
proof
  have p: "unat pa < 2 ^ 48" using assms(4) by (simp add: word_less_nat_alt)
  have "unat (take_bit 9 (drop_bit 39 pa)) < 512" by (rule unat_take_bit_less)
  then show "hw_translate (kernel_memory l2 l3) invalid_pt pa = None"
    by (simp add: hw_translate_def part_take_bit invalid_pt_def)
  show "hw_translate (kernel_memory l2 l3) (kernel_pt l2) (P2K pa) =
    (if pa < 0x80000000 \<or> 0xC0000000 \<le> pa \<and> pa < 0x100000000 then Some (pa, kernel_flags pa) else None)"
  proof (cases "pa < 2 ^ 30")
    case True
    then have "pa < 0x80000000" by (rule less_trans) simp
    with True show ?thesis by (simp add: translate_small assms)
  next
    case False
    then have "2 ^ 30 \<le> pa" by simp
    moreover have "kernel_flags pa = PTE_KERNEL_DEVICE" using False by (simp add: kernel_flags_def word_less_nat_alt)
    moreover have "(unat pa div 2 ^ 30 = 1 \<or> unat pa div 2 ^ 30 = 3) \<longleftrightarrow> pa < 0x80000000 \<or> 0xC0000000 \<le> pa \<and> pa < 0x100000000"
      using False by (simp add: word_less_nat_alt word_le_nat_alt) linarith
    ultimately show ?thesis using translate_large [OF assms(1-3) _ assms(4)] by simp
  qed
qed

theorem kernel_pt_linear_witness:
  "hw_translate (kernel_memory 0xffff0000000a1000 0xffff0000000a2000) (kernel_pt 0xffff0000000a1000) (P2K 0x3f201000) =
     Some (0x3f201000, PTE_KERNEL_DEVICE)"
proof -
  have "kaddr 0xffff0000000a1000" "kaddr 0xffff0000000a2000" by (simp_all add: kaddr_def)
  from kernel_pt_linear [OF this, of "0x3f201000"] show ?thesis by (simp add: kernel_flags_def)
qed

end
