(* ===== verification/Page_Stack.thy ===== *)
theory Page_Stack
  imports Linked_List
begin

text \<open>
  The lock-free stack behind the page allocator (\<^verbatim>\<open>add_to_queue\<close> and \<^verbatim>\<open>fetch_from_queue\<close> of
  \<^verbatim>\<open>src/src/common/list.c\<close>), at the level of its single memory accesses. The allocator's model (\<open>Mem\<close>) takes each of
  the two as one step. Here they interleave: as long as no cpu puts a node back, that is the same; when one does,
  a compare-and-swap can succeed although the stack has changed in between, and a node is handed out twice.
\<close>

section \<open>The code as steps\<close>

text \<open>
  Where a cpu is: between calls, after reading the head for a fetch, after reading the next node too, or after linking
  its node to the head it read for an addition. A node that is fetched is recorded for the cpu.
\<close>

datatype fetch_pc = Ready | Head addr | Next addr addr | Linked addr addr

record stack_state =
  head :: addr
  snext :: "addr \<Rightarrow> addr"
  at_pc :: "nat \<Rightarrow> fetch_pc"
  owned :: "nat \<Rightarrow> addr list"

definition set_pc :: "nat \<Rightarrow> fetch_pc \<Rightarrow> stack_state \<Rightarrow> stack_state" where
  "set_pc t p s = s\<lparr>at_pc := (at_pc s)(t := p)\<rparr>"

text \<open>\<^verbatim>\<open>node = *head\<close>; the loop ends at once on an empty stack.\<close>

definition fetch_head :: "nat \<Rightarrow> stack_state \<Rightarrow> stack_state" where
  "fetch_head t s = (if head s = NULL then s else set_pc t (Head (head s)) s)"

definition fetch_next :: "nat \<Rightarrow> stack_state \<Rightarrow> stack_state" where
  "fetch_next t s = (case at_pc s t of Head n \<Rightarrow> set_pc t (Next n (snext s n)) s | _ \<Rightarrow> s)"

definition fetch_swap :: "nat \<Rightarrow> stack_state \<Rightarrow> stack_state" where
  "fetch_swap t s =
     (case at_pc s t of
        Next n m \<Rightarrow>
          if head s = n then set_pc t Ready (s\<lparr>head := m, owned := (owned s)(t := n # owned s t)\<rparr>)
          else set_pc t Ready s
      | _ \<Rightarrow> s)"

definition add_link :: "nat \<Rightarrow> addr \<Rightarrow> stack_state \<Rightarrow> stack_state" where
  "add_link t n s = set_pc t (Linked n (head s)) (s\<lparr>snext := (snext s)(n := head s)\<rparr>)"

definition add_swap :: "nat \<Rightarrow> stack_state \<Rightarrow> stack_state" where
  "add_swap t s =
     (case at_pc s t of
        Linked n m \<Rightarrow>
          if head s = m then set_pc t Ready (s\<lparr>head := n, owned := (owned s)(t := remove1 n (owned s t))\<rparr>)
          else set_pc t Ready s
      | _ \<Rightarrow> s)"

text \<open>The owner of a node uses its memory, also the word that was the link.\<close>

definition use_node :: "addr \<Rightarrow> addr \<Rightarrow> stack_state \<Rightarrow> stack_state" where
  "use_node n v s = s\<lparr>snext := (snext s)(n := v)\<rparr>"

text \<open>
  A failed swap sends the cpu back to the start of the call. With \<open>adds\<close> nodes may be put back.
\<close>

inductive stack_step :: "bool \<Rightarrow> stack_state \<Rightarrow> stack_state \<Rightarrow> bool" for adds :: bool where
  head: "at_pc s t = Ready \<Longrightarrow> stack_step adds s (fetch_head t s)"
| succ: "stack_step adds s (fetch_next t s)"
| swap: "stack_step adds s (fetch_swap t s)"
| store: "n \<in> set (owned s t) \<Longrightarrow> stack_step adds s (use_node n v s)"
| link: "adds \<Longrightarrow> at_pc s t = Ready \<Longrightarrow> n \<in> set (owned s t) \<Longrightarrow> stack_step adds s (add_link t n s)"
| add: "adds \<Longrightarrow> stack_step adds s (add_swap t s)"

section \<open>Fetching only\<close>

fun chain :: "(addr \<Rightarrow> addr) \<Rightarrow> addr \<Rightarrow> addr list \<Rightarrow> bool" where
  "chain nx h [] \<longleftrightarrow> h = NULL"
| "chain nx h (x # xs) \<longleftrightarrow> h = x \<and> x \<noteq> NULL \<and> chain nx (nx x) xs"

lemma chain_upd: "n \<notin> set xs \<Longrightarrow> chain (nx(n := v)) h xs = chain nx h xs"
  by (induction xs arbitrary: h) auto

definition stack_rep :: "addr set \<Rightarrow> stack_state \<Rightarrow> addr list \<Rightarrow> bool" where
  "stack_rep S s xs \<longleftrightarrow> chain (snext s) (head s) xs \<and> distinct xs \<and> set xs \<union> (\<Union>t. set (owned s t)) = S \<and>
     (\<forall>t. distinct (owned s t) \<and> set (owned s t) \<inter> set xs = {}) \<and>
     (\<forall>t u. t \<noteq> u \<longrightarrow> set (owned s t) \<inter> set (owned s u) = {}) \<and>
     (\<forall>t n. at_pc s t = Head n \<longrightarrow> n \<noteq> NULL) \<and>
     (\<forall>t n m. at_pc s t = Next n m \<longrightarrow> n \<noteq> NULL \<and> (n \<in> set xs \<longrightarrow> m = snext s n))"

lemma stack_pc_simps [simp]:
  "head (set_pc t p s) = head s" "snext (set_pc t p s) = snext s" "owned (set_pc t p s) = owned s"
  "at_pc (set_pc t p s) u = (if u = t then p else at_pc s u)"
  by (simp_all add: set_pc_def)

lemma rep_pop:
  assumes r: "stack_rep S s xs" and p: "at_pc s t = Next n m" and h: "head s = n"
  shows "\<exists>ys. stack_rep S (set_pc t Ready (s\<lparr>head := m, owned := (owned s)(t := n # owned s t)\<rparr>)) ys"
proof -
  have n: "n \<noteq> NULL" using r p by (simp add: stack_rep_def)
  then obtain ys where xs: "xs = n # ys" using r h by (cases xs) (auto simp: stack_rep_def)
  have m: "m = snext s n" using r p xs by (simp add: stack_rep_def)
  have own: "n \<notin> set (owned s u)" for u using r xs by (fastforce simp: stack_rep_def)
  have "set ys \<union> (\<Union>u. set (((owned s)(t := n # owned s t)) u)) = S"
  proof -
    have "(\<Union>u. set (((owned s)(t := n # owned s t)) u)) = insert n (\<Union>u. set (owned s u))" by (auto split: if_splits)
    then show ?thesis using r xs by (auto simp: stack_rep_def)
  qed
  moreover have "chain (snext s) m ys" "distinct ys" "n \<notin> set ys" using r xs m by (auto simp: stack_rep_def)
  moreover have "set (owned s u) \<inter> set ys = {}" "distinct (owned s u)" for u using r xs by (fastforce simp: stack_rep_def)+
  moreover have "u \<noteq> v \<Longrightarrow> set (owned s u) \<inter> set (owned s v) = {}" for u v using r by (simp add: stack_rep_def)
  moreover have "at_pc s u = Head k \<Longrightarrow> k \<noteq> NULL" "at_pc s u = Next k l \<Longrightarrow> k \<noteq> NULL \<and> (k \<in> set ys \<longrightarrow> l = snext s k)" for u k l
    using r xs by (auto simp: stack_rep_def)
  ultimately have "stack_rep S (set_pc t Ready (s\<lparr>head := m, owned := (owned s)(t := n # owned s t)\<rparr>)) ys"
    using own unfolding stack_rep_def by (simp del: fun_upd_apply) (auto simp: fun_upd_apply)
  then show ?thesis ..
qed

lemma rep_step: "stack_step False s s' \<Longrightarrow> stack_rep S s xs \<Longrightarrow> \<exists>ys. stack_rep S s' ys"
proof (induction rule: stack_step.induct)
  case (head s t)
  then have "stack_rep S (fetch_head t s) xs" by (auto simp: stack_rep_def fetch_head_def)
  then show ?case ..
next
  case (succ s t)
  then have "stack_rep S (fetch_next t s) xs"
    by (auto simp: stack_rep_def fetch_next_def split: fetch_pc.splits)
  then show ?case ..
next
  case (swap s t)
  have "stack_rep S (set_pc t Ready s) xs" using swap by (auto simp: stack_rep_def)
  then show ?case using swap rep_pop [OF swap]
    by (cases "at_pc s t") (auto simp: fetch_swap_def)
next
  case (store n s t v)
  then have "n \<notin> set xs" by (auto simp: stack_rep_def)
  with store have "stack_rep S (use_node n v s) xs" by (auto simp: stack_rep_def use_node_def chain_upd)
  then show ?case ..
qed auto

text \<open>
  (C39) While cpus only fetch nodes, in any interleaving of their memory accesses and of what the owners write into
  the nodes, every node is handed out at most once and none is lost.
\<close>
theorem fetch_only_exclusive:
  assumes "(stack_step False)\<^sup>*\<^sup>* s0 s" and "chain (snext s0) (head s0) xs" and "distinct xs"
    and "\<forall>t. at_pc s0 t = Ready \<and> owned s0 t = []"
  shows "(\<forall>t u n. t \<noteq> u \<longrightarrow> n \<in> set (owned s t) \<longrightarrow> n \<notin> set (owned s u)) \<and> (\<forall>t. distinct (owned s t)) \<and>
    (\<exists>ys. chain (snext s) (head s) ys \<and> distinct ys \<and> set ys = set xs - (\<Union>t. set (owned s t)))"
proof -
  have start: "stack_rep (set xs) s0 xs" using assms(2-4) by (simp add: stack_rep_def)
  have "\<exists>ys. stack_rep (set xs) s ys"
    using assms(1)
  proof (induction rule: rtranclp_induct)
    case base
    show ?case using start ..
  next
    case (step y z)
    then show ?case using rep_step by blast
  qed
  then obtain ys where ys: "stack_rep (set xs) s ys" ..
  then have "set ys \<union> (\<Union>t. set (owned s t)) = set xs" "(\<Union>t. set (owned s t)) \<inter> set ys = {}"
    unfolding stack_rep_def by blast+
  then have "set ys = set xs - (\<Union>t. set (owned s t))" by blast
  with ys have "\<exists>ys. chain (snext s) (head s) ys \<and> distinct ys \<and> set ys = set xs - (\<Union>t. set (owned s t))"
    unfolding stack_rep_def by blast
  moreover have "\<forall>t u n. t \<noteq> u \<longrightarrow> n \<in> set (owned s t) \<longrightarrow> n \<notin> set (owned s u)" "\<forall>t. distinct (owned s t)"
    using ys unfolding stack_rep_def by blast+
  ultimately show ?thesis by simp
qed

section \<open>Putting nodes back\<close>

text \<open>Runs, for evaluation: the function and the cpu of each step.\<close>

datatype stack_op = FetchHead | FetchNext | FetchSwap | AddLink addr | AddSwap

fun stack_run :: "(nat \<times> stack_op) list \<Rightarrow> stack_state \<Rightarrow> stack_state option" where
  "stack_run [] s = Some s"
| "stack_run ((t, op) # ops) s =
     (case op of
        FetchHead \<Rightarrow> if at_pc s t = Ready then stack_run ops (fetch_head t s) else None
      | FetchNext \<Rightarrow> stack_run ops (fetch_next t s)
      | FetchSwap \<Rightarrow> stack_run ops (fetch_swap t s)
      | AddLink n \<Rightarrow> if at_pc s t = Ready \<and> n \<in> set (owned s t) then stack_run ops (add_link t n s) else None
      | AddSwap \<Rightarrow> stack_run ops (add_swap t s))"

lemma stack_run_steps: "stack_run ops s = Some s' \<Longrightarrow> (stack_step True)\<^sup>*\<^sup>* s s'"
proof (induction ops s rule: stack_run.induct)
  case (2 t op ops s)
  then show ?case
    by (cases op) (auto split: if_splits intro: stack_step.intros converse_rtranclp_into_rtranclp)
qed simp

definition three_nodes :: stack_state where
  "three_nodes = \<lparr>head = 1, snext = (\<lambda>_. NULL)(1 := 2, 2 := 3), at_pc = \<lambda>_. Ready, owned = \<lambda>_. []\<rparr>"

text \<open>
  The first cpu reads head and next node and is delayed; the second fetches two nodes and puts the first one
  back. The swap of the first cpu succeeds and makes the other fetched node the head again.
\<close>

lemma node_handed_out_twice:
  "\<exists>s. (stack_step True)\<^sup>*\<^sup>* three_nodes s \<and> chain (snext three_nodes) (head three_nodes) [1, 2, 3] \<and>
     2 \<in> set (owned s 0) \<and> 2 \<in> set (owned s 1)"
proof -
  let ?fetch = "\<lambda>t :: nat. [(t, FetchHead), (t, FetchNext), (t, FetchSwap)]"
  let ?ops = "[(0, FetchHead), (0, FetchNext)] @ ?fetch 1 @ ?fetch 1 @ [(1, AddLink 1), (1, AddSwap), (0, FetchSwap)] @ ?fetch 0"
  have "\<exists>s. stack_run ?ops three_nodes = Some s \<and> 2 \<in> set (owned s 0) \<and> 2 \<in> set (owned s 1)"
    by (simp add: three_nodes_def fetch_head_def fetch_next_def fetch_swap_def add_link_def add_swap_def set_pc_def)
  then show ?thesis using stack_run_steps by (fastforce simp: three_nodes_def)
qed

definition one_fetched :: stack_state where
  "one_fetched = fetch_swap 0 (fetch_next 0 (fetch_head 0 three_nodes))"

theorem fetch_only_exclusive_witness:
  "owned one_fetched 0 = [1] \<and> 1 \<notin> set (owned one_fetched 1)"
proof
  show own: "owned one_fetched 0 = [1]"
    by (simp add: one_fetched_def three_nodes_def fetch_head_def fetch_next_def fetch_swap_def set_pc_def)
  have "at_pc three_nodes 0 = Ready" by (simp add: three_nodes_def)
  then have "(stack_step False)\<^sup>*\<^sup>* three_nodes one_fetched"
    unfolding one_fetched_def by (meson stack_step.intros(1-3) converse_rtranclp_into_rtranclp rtranclp.rtrancl_refl)
  from fetch_only_exclusive [OF this, of "[1, 2, 3]"]
  have "\<forall>t u n. t \<noteq> u \<longrightarrow> n \<in> set (owned one_fetched t) \<longrightarrow> n \<notin> set (owned one_fetched u)"
    by (simp add: three_nodes_def)
  then have "(1 :: nat) \<noteq> 0 \<Longrightarrow> 1 \<in> set (owned one_fetched 1) \<Longrightarrow> 1 \<notin> set (owned one_fetched 0)" by blast
  then show "1 \<notin> set (owned one_fetched 1)" using own by auto
qed

end
