(* ===== verification/Spec2Isabelle.thy ===== *)
theory Spec2Isabelle
  imports Linked_List CString Block_Device Block_Store Block_Cache Block_Alloc Cache_Log Log_Protocol Swap
    Inode Inode_Map Inode_File Inode_Dir Semaphore Format Ipc Ipc_Proofs Rbtree_Queue Timers Sched_Proofs Mem_Heap
    Page_Table Bitmap Proc_Safety Paging_Proofs Mkfs_Boot Sd_Clock Sd_Init Spinlock Interrupts Kernel_Map Page_Stack
begin

text \<open>
  A verification library for a teaching operating system kernel for AArch64 (\<^verbatim>\<open>src/src\<close>): a
  four-core kernel with a slab allocator, processes in nested containers scheduled by virtual
  run time, semaphores, message queues, and a crash-safe file system on an SD card.

  \<^bold>\<open>Conventions.\<close> Every C function is one HOL function on an explicit state record; a failed
  \<^verbatim>\<open>ASSERT\<close>, a \<^verbatim>\<open>PANIC\<close>, an access through a null pointer or outside an array is the value
  \<open>None\<close>. A loop without an obvious measure is a \<^verbatim>\<open>partial_function (option)\<close>, so that not
  returning is \<open>None\<close> too; the theorems then state that it returns. Functions that hold a lock
  for their whole body are atomic; where the code sleeps or gives up its lock the model splits
  it into steps, and an inductive relation interleaves them. Machine integers whose overflow
  matters are words; block numbers, offsets and addresses of objects are natural numbers.

  \<^bold>\<open>Data structures.\<close>
  \<^item> \<open>Kernel_Prelude\<close>: bytes and little-endian fields in blocks, searches, \<open>for\<close> loops that can fail.
  \<^item> \<open>Linked_List\<close> (\<^verbatim>\<open>common/list.c\<close>, \<^verbatim>\<open>list.h\<close>): rings of \<^verbatim>\<open>ListNode\<close>s on a heap of links, and the
    queues on them; a ring refines a sequence of nodes.
  \<^item> \<open>CString\<close> (\<^verbatim>\<open>common/string.c\<close>), \<open>Format\<close> (\<^verbatim>\<open>common/format.c\<close>).
  \<^item> \<open>Rbtree\<close> (\<^verbatim>\<open>common/rbtree.c\<close>) is the pointer code with the colour in the low bit of the parent
    word. \<open>Rbtree_Rep\<close> relates a heap to a coloured tree, \<open>Rbtree_Insert\<close> and \<open>Rbtree_Erase\<close> show that
    the repair loops end and restore the colour invariants, \<open>Rbtree_Queue\<close> interprets the locale
    \<open>ordered_queue\<close>, which is what the timers and the scheduler use.

  \<^bold>\<open>File system.\<close>
  \<^item> \<open>Block_Device\<close> (\<^verbatim>\<open>fs/block_device.c\<close>): the disk as an array of blocks behind the interface of
    \<^verbatim>\<open>BlockDevice\<close>.
  \<^item> \<open>Block_Store\<close>, \<open>Block_Cache\<close>, \<open>Block_Alloc\<close>, \<open>Cache_Log\<close>, \<open>Log_Protocol\<close>, \<open>Swap\<close> (\<^verbatim>\<open>fs/cache.c\<close>): the block
    cache, the bitmap allocator, the write-ahead log (the disk after a crash at any write of a
    commit is either the old or the new one, and recovery can itself crash), the admission of
    operations so that the log never overflows, and the blocks used for swapping.
  \<^item> \<open>Inode\<close>, \<open>Inode_Map\<close>, \<open>Inode_File\<close>, \<open>Inode_Dir\<close> (\<^verbatim>\<open>fs/inode.c\<close>): inodes with direct and indirect blocks
    refine byte sequences, directories refine maps from names to inode numbers.

  \<^bold>\<open>Kernel.\<close>
  \<^item> \<open>Semaphore\<close> (\<^verbatim>\<open>common/sem.c\<close>): all interleavings of posts, waits and wake-ups.
  \<^item> \<open>Ipc\<close>, \<open>Ipc_Proofs\<close> (\<^verbatim>\<open>common/ipc.c\<close>): message queues, with what the loops and copies really do.
  \<^item> \<open>Timers\<close> (\<^verbatim>\<open>driver/clock.c\<close>, \<^verbatim>\<open>kernel/cpu.c\<close>): the timers of a cpu and the clock interrupt.
  \<^item> \<open>Sched\<close>, \<open>Sched_Pick\<close>, \<open>Sched_Proofs\<close> (\<^verbatim>\<open>kernel/sched.c\<close>): run queues of nested containers; the choice
    of the next process ends and misses no runnable process, and a switch keeps the queues, the
    counters and the process states consistent.
  \<^item> \<open>Mem\<close>, \<open>Mem_Proofs\<close>, \<open>Mem_Heap\<close> (\<^verbatim>\<open>kernel/mem.c\<close>): the page stack and the slab allocator; in every run
    the objects in use are disjoint and inside their pages.
  \<^item> \<open>Page_Table\<close> (\<^verbatim>\<open>kernel/pt.c\<close>, \<^verbatim>\<open>aarch64/mmu.h\<close>): the four-level page tables on the page allocator; a mapping
    changes one page of one address space, and freeing the tables frees each of them once.
  \<^item> \<open>Bitmap\<close> (\<^verbatim>\<open>common/bitmap.h\<close>, \<^verbatim>\<open>common/defines.h\<close>): bits in arrays of words, rounding.
  \<^item> \<open>Proc\<close> (\<^verbatim>\<open>kernel/proc.c\<close>, \<^verbatim>\<open>kernel/container.c\<close>) is the process tree on the scheduler and the semaphores.
    \<open>Proc_Proofs\<close> says what the scheduler leaves alone, \<open>Proc_Run\<close> defines the runs on any number of cpus
    and the invariant that counts the permits of \<^verbatim>\<open>childexit\<close> against the zombie children, \<open>Proc_Steps\<close> shows
    that every operation keeps it, and \<open>Proc_Safety\<close> concludes that \<^verbatim>\<open>wait\<close> never panics and that
    identifiers are unique. The runs are executable; the witnesses evaluate one from boot to a reaped child.
  \<^item> \<open>Paging\<close>, \<open>Paging_Proofs\<close> (\<^verbatim>\<open>kernel/paging.c\<close>, and the functions of \<^verbatim>\<open>mem.c\<close> that move pages to the disk): the heap,
    page faults and swapping on top of the page tables, the allocator, the block cache and the processes.

  \<^bold>\<open>Image builder.\<close>
  \<^item> \<open>Mkfs\<close> (\<^verbatim>\<open>user/mkfs/main.c\<close>) is the program that builds the disk image on the host. \<open>Mkfs_Image\<close> shows what
    appending to a file does to the image, \<open>Mkfs_Files\<close> that the inode table stays consistent, \<open>Mkfs_Proofs\<close> that
    the finished image satisfies the disk invariant of the kernel, and \<open>Mkfs_Boot\<close> that a kernel which starts on
    it finds every file under its name and reads the bytes that were put in.

  \<^bold>\<open>Drivers and the machine.\<close>
  \<^item> \<open>Emmc\<close> (\<^verbatim>\<open>driver/sddef.h\<close>) is the command layer of the SD card driver, in the state monad over an arbitrary
    controller; \<open>Sd_Driver\<close> (\<^verbatim>\<open>driver/sd.c\<close>) is the queue of requests, the start of a transfer and the interrupt
    handler. \<open>Sd_Proofs\<close> states the documented behaviour of the controller and shows that a request then is one
    sector operation of \<open>Block_Device\<close>; its precondition calculus splits a command into its register
    accesses. \<open>Sd_Init\<close> covers the initialization, \<open>Sd_Clock\<close> the clock divider.
  \<^item> \<open>Spinlock\<close> (\<^verbatim>\<open>common/spinlock.c\<close>): mutual exclusion, which justifies the atomic steps of the other theories.
  \<^item> \<open>Page_Stack\<close> (\<^verbatim>\<open>common/list.c\<close>): the lock-free stack of free pages access by access. Fetching is safe; a run
    with additions hands out a node twice, so the atomic operations in \<open>Mem\<close> are an assumption there.
  \<^item> \<open>Interrupts\<close> (\<^verbatim>\<open>driver/interrupt.c\<close>, \<^verbatim>\<open>kernel/syscall.c\<close>, \<^verbatim>\<open>aarch64/trap.c\<close>): the dispatch of interrupts, system calls
    and exceptions to handlers on an arbitrary state.
  \<^item> \<open>Kernel_Map\<close> (\<^verbatim>\<open>aarch64/kernel_pt.c\<close>): the kernel's own page table is the linear map.

  \<^bold>\<open>Interfaces.\<close> A locale states what a client relies on: the block device, the cache as seen by
  the inodes, the sequences behind the rings, the ordered queue behind the red-black trees. Each
  is interpreted on the model of the code that provides it; the queue contract by both the queue of \<^verbatim>\<open>list.c\<close> and the
  buffer queue of the SD card driver.

  \<^bold>\<open>Bounds.\<close> No fuel is used. Times compared as signed differences of words are ordered as
  numbers below \<open>2 ^ 63\<close>, which is a hypothesis of the theorems on timers and run queues.
  Addresses of tree nodes are even and not null.

  \<^bold>\<open>Not modelled.\<close> The serial line and the mailbox are exchanges with devices and firmware whose
  behaviour is not in the sources; the answer of the mailbox is an argument of the SD card driver. The boot code,
  the entry and exit of traps, the context switch and the intrinsics are assembly or single instructions. Spin
  locks appear as the atomicity of the steps, and the page stack in \<open>Mem\<close> as atomic operations. The memory model is
  sequentially consistent. \<^verbatim>\<open>idle_entry\<close> and \<^verbatim>\<open>kernel_entry\<close> only call what is modelled, in endless loops.
  The tests under \<^verbatim>\<open>test\<close> and \<^verbatim>\<open>fs/test\<close> are left out.
\<close>

end
